(* ===== verification/Prelude.thy ===== *)
theory Prelude
  imports Main "HOL-Library.Word" "HOL-Library.Multiset"
begin

text \<open>
  What every component of the development shares: the machine integer types of the C
  code, the result type of fallible operations with its bind, facts on bytes and nibbles,
  and two interfaces. \<open>cell_store\<close> is the contract of every indexed storage the programs
  keep (the packed registers, the packed program counters and the raw bytes of the emulated
  machine): a write is read back and disturbs no other cell. \<open>stepper\<close> is the contract of
  every interpreter loop: a step that either faults or keeps an invariant.
\<close>

unbundle bit_operations_syntax

subsection \<open>Machine integers\<close>

type_synonym u1 = "1 word"
type_synonym u4 = "4 word"
type_synonym u8 = "8 word"
type_synonym u16 = "16 word"
type_synonym u32 = "32 word"
type_synonym u64 = "64 word"

named_theorems cell_simps "reading back what was written"

lemma list_update_in [cell_simps]: "i < length xs \<Longrightarrow> (xs[i := v]) ! j = (if i = j then v else xs ! j)"
  by (simp add: nth_list_update)

lemma list_update_last_snoc: "i = length xs \<Longrightarrow> (xs @ [y])[i := z] = xs @ [z]"
  by simp

subsection \<open>Fallible operations\<close>

text \<open>An operation that may fail returns \<open>error + value\<close>; \<open>andThen\<close> sequences two of them
  and stops at the first error, as an early exit of the C code does.\<close>

definition andThen :: "'e + 'a \<Rightarrow> ('a \<Rightarrow> 'e + 'b) \<Rightarrow> 'e + 'b" where
  "andThen m f = (case m of Inl e \<Rightarrow> Inl e | Inr x \<Rightarrow> f x)"

lemma andThen_simps [simp]:
  "andThen (Inl e) f = Inl e" "andThen (Inr x) f = f x"
  by (simp_all add: andThen_def)

lemma andThen_Inr_iff: "andThen m f = Inr y \<longleftrightarrow> (\<exists>x. m = Inr x \<and> f x = Inr y)"
  by (cases m) auto

lemma andThen_assoc: "andThen (andThen m f) g = andThen m (\<lambda>x. andThen (f x) g)"
  by (cases m) auto

subsection \<open>Words\<close>

lemma u4_cases16:
  fixes x :: u4
  obtains "x = 0" | "x = 1" | "x = 2" | "x = 3" | "x = 4" | "x = 5" | "x = 6" | "x = 7"
    | "x = 8" | "x = 9" | "x = 10" | "x = 11" | "x = 12" | "x = 13" | "x = 14" | "x = 15"
proof -
  have "unat x < 16" using unsigned_less [where ?'a = nat, of x] by simp
  then have "unat x \<in> set [0..<16]" by simp
  moreover have "x = of_nat (unat x)" by simp
  ultimately have "x \<in> of_nat ` set [0..<16]" by (rule rev_image_eqI)
  then show thesis using that by (simp add: upt_rec) metis
qed

lemma u1_cases:
  fixes x :: u1
  obtains "x = 0" | "x = 1"
proof -
  have "unat x < 2" using unsigned_less [where ?'a = nat, of x] by simp
  then have "unat x \<in> set [0..<2]" by simp
  moreover have "x = of_nat (unat x)" by simp
  ultimately have "x \<in> of_nat ` set [0..<2]" by (rule rev_image_eqI)
  then show thesis using that by (simp add: upt_rec) metis
qed

lemma all_u1: "(\<forall>x :: u1. P x) \<longleftrightarrow> P 0 \<and> P 1"
  by (metis u1_cases)

lemma all_u4:
  "(\<forall>x :: u4. P x) \<longleftrightarrow> P 0 \<and> P 1 \<and> P 2 \<and> P 3 \<and> P 4 \<and> P 5 \<and> P 6 \<and> P 7 \<and>
     P 8 \<and> P 9 \<and> P 10 \<and> P 11 \<and> P 12 \<and> P 13 \<and> P 14 \<and> P 15"
  by (auto; rule_tac x = x in u4_cases16; simp)

lemma unat_u4_less [simp]: "unat (x :: u4) < 16"
  using unsigned_less [where ?'a = nat, of x] by simp

lemma unat_u8_less [simp]: "unat (x :: u8) < 256"
  using unsigned_less [where ?'a = nat, of x] by simp

lemma unat_u8_u16 [simp]: "unat (ucast (b :: u8) :: u16) = unat b"
proof -
  have "unat (ucast b :: u16) = take_bit 16 (unat b)" by (simp only: unsigned_ucast_eq) simp
  moreover have "unat b < 2 ^ 16" using unat_u8_less [of b] by (simp del: unat_u8_less)
  ultimately show ?thesis by (simp add: take_bit_nat_eq_self)
qed

lemma unat_u4_u8 [simp]: "unat (ucast (b :: u4) :: u8) = unat b"
proof -
  have "unat (ucast b :: u8) = take_bit 8 (unat b)" by (simp only: unsigned_ucast_eq) simp
  moreover have "unat b < 2 ^ 8" using unat_u4_less [of b] by (simp del: unat_u4_less)
  ultimately show ?thesis by (simp add: take_bit_nat_eq_self)
qed

lemma unat_u8_u32 [simp]: "unat (ucast (b :: u8) :: u32) = unat b"
proof -
  have "unat (ucast b :: u32) = take_bit 32 (unat b)" by (simp only: unsigned_ucast_eq) simp
  moreover have "unat b < 2 ^ 32" using unat_u8_less [of b] by (simp del: unat_u8_less)
  ultimately show ?thesis by (simp add: take_bit_nat_eq_self)
qed

lemma of_nat_unat_u8_u32 [simp]: "(of_nat (unat (b :: u8)) :: u32) = ucast b"
proof -
  have "unat b < 4294967296" using unat_u8_less [of b] by linarith
  then show ?thesis by (simp add: word_unat_eq_iff unat_of_nat)
qed

subsection \<open>Little-endian words\<close>

definition le32 :: "u32 \<Rightarrow> u8 list" where
  "le32 w = [ucast w, ucast (drop_bit 8 w), ucast (drop_bit 16 w), ucast (drop_bit 24 w)]"

definition of_le32 :: "u8 list \<Rightarrow> nat" where
  "of_le32 bs = unat (bs ! 0) + 256 * unat (bs ! 1) + 65536 * unat (bs ! 2) + 16777216 * unat (bs ! 3)"

lemma unat_byte_of: "unat (ucast (drop_bit k w :: u32) :: u8) = unat w div 2 ^ k mod 256"
proof -
  have "unat (ucast (drop_bit k w) :: u8) = drop_bit k (unat w) mod 256"
    by (simp add: unsigned_ucast_eq take_bit_eq_mod unat_drop_bit_eq)
  then show ?thesis by (simp only: drop_bit_eq_div)
qed

lemma of_le32_le32: "n < 2 ^ 32 \<Longrightarrow> of_le32 (le32 (of_nat n)) = n"
proof -
  assume n: "n < 2 ^ 32"
  have "unat (of_nat n :: u32) = n" using n by (simp add: unat_of_nat take_bit_eq_mod)
  then have "of_le32 (le32 (of_nat n)) = n mod 256 + 256 * (n div 256 mod 256) + 65536 * (n div 65536 mod 256) + 16777216 * (n div 16777216 mod 256)"
    using unat_byte_of [of 0 "of_nat n"] by (simp add: of_le32_def le32_def unat_byte_of)
  moreover have "n mod 256 + 256 * (n div 256 mod 256) = n mod 65536"
    using mod_mult2_eq [of n 256 256] by simp
  moreover have "n mod 65536 + 65536 * (n div 65536 mod 256) = n mod 16777216"
    using mod_mult2_eq [of n 65536 256] by simp
  moreover have "n mod 16777216 + 16777216 * (n div 16777216 mod 256) = n"
    using mod_mult2_eq [of n 16777216 256] n by simp
  ultimately show ?thesis by linarith
qed

lemma length_le32 [simp]: "length (le32 w) = 4"
  by (simp add: le32_def)

subsection \<open>Nibbles of a byte\<close>

definition lo_nib :: "u8 \<Rightarrow> u8" where "lo_nib b = b AND 0x0F"
definition hi_nib :: "u8 \<Rightarrow> u8" where "hi_nib b = drop_bit 4 b"
definition put_lo :: "u8 \<Rightarrow> u8 \<Rightarrow> u8" where "put_lo b v = (b AND 0xF0) OR (v AND 0x0F)"
definition put_hi :: "u8 \<Rightarrow> u8 \<Rightarrow> u8" where "put_hi b v = push_bit 4 (v AND 0x0F) OR (b AND 0x0F)"

lemma bit_masks8:
  "bit (0x0F :: u8) n \<longleftrightarrow> n < 4" "bit (0xF0 :: u8) n \<longleftrightarrow> 4 \<le> n \<and> n < 8"
proof -
  have low: "(0x0F :: u8) = mask 4" by (simp add: mask_numeral)
  show "bit (0x0F :: u8) n \<longleftrightarrow> n < 4" by (auto simp: low bit_simps)
  have high: "(0xF0 :: u8) = push_bit 4 (mask 4)" by (simp add: mask_numeral)
  show "bit (0xF0 :: u8) n \<longleftrightarrow> 4 \<le> n \<and> n < 8" unfolding high by (auto simp: bit_simps)
qed

lemma bit_nibs:
  "bit (lo_nib b) n \<longleftrightarrow> n < 4 \<and> bit b n"
  "bit (hi_nib b) n \<longleftrightarrow> bit b (4 + n)"
  "bit (put_lo b v) n \<longleftrightarrow> (if n < 4 then bit v n else bit b n)"
  "bit (put_hi b v) n \<longleftrightarrow> n < 8 \<and> (if n < 4 then bit b n else bit v (n - 4))"
  unfolding lo_nib_def hi_nib_def put_lo_def put_hi_def
  by (auto simp: bit_and_iff bit_or_iff bit_push_bit_iff bit_drop_bit_eq bit_masks8
      simp del: bit_numeral_word_iff dest: bit_imp_le_length)

lemma nib_simps [simp]:
  "lo_nib (put_lo b v) = lo_nib v" "lo_nib (put_hi b v) = lo_nib b"
  "hi_nib (put_lo b v) = hi_nib b" "hi_nib (put_hi b v) = lo_nib v"
  "lo_nib (lo_nib b) = lo_nib b" "lo_nib (hi_nib b) = hi_nib b"
  "put_lo b (lo_nib v) = put_lo b v" "put_hi b (lo_nib v) = put_hi b v"
  "put_hi (lo_nib b) (hi_nib b) = b" "put_hi b (hi_nib b) = b" "put_lo b (lo_nib b) = b" "put_lo b b = b"
  "put_lo (put_lo b v) w = put_lo b w" "put_hi (put_hi b v) w = put_hi b w"
  by (rule bit_word_eqI; auto simp: bit_nibs dest: bit_imp_le_length)+

lemma unat_lo_nib: "unat (lo_nib b) < 16"
proof -
  have "lo_nib b = take_bit 4 b" by (rule bit_word_eqI) (auto simp: bit_nibs bit_simps)
  then have "unat (lo_nib b) = take_bit 4 (unat b)" by (simp only: unsigned_take_bit_eq)
  then show ?thesis by (simp add: take_bit_eq_mod)
qed

lemma hi_nib_lo: "lo_nib b = b \<Longrightarrow> hi_nib b = 0"
  by (metis (no_types, lifting) bit_eqI bit_0_eq bit_nibs(1,2) bot_apply not_add_less1 bot_bool_def)

subsection \<open>Indexed storage\<close>

text \<open>
  \<open>rd s i\<close> reads cell \<open>i\<close> and \<open>wr s i v\<close> writes it; a cell keeps \<open>cut v\<close> of a written
  value (the bits that fit). \<open>ok\<close> is the shape of the storage.
\<close>

locale cell_store =
  fixes rd :: "'s \<Rightarrow> nat \<Rightarrow> 'v"
    and wr :: "'s \<Rightarrow> nat \<Rightarrow> 'v \<Rightarrow> 's"
    and cut :: "'v \<Rightarrow> 'v"
    and cells :: nat
    and ok :: "'s \<Rightarrow> bool"
  assumes rd_wr_same: "ok s \<Longrightarrow> i < cells \<Longrightarrow> rd (wr s i v) i = cut v"
    and rd_wr_other: "ok s \<Longrightarrow> i < cells \<Longrightarrow> j < cells \<Longrightarrow> i \<noteq> j \<Longrightarrow> rd (wr s i v) j = rd s j"
    and ok_wr: "ok s \<Longrightarrow> i < cells \<Longrightarrow> ok (wr s i v)"
    and cut_rd: "ok s \<Longrightarrow> i < cells \<Longrightarrow> cut (rd s i) = rd s i"
begin

lemma rd_wr: "ok s \<Longrightarrow> i < cells \<Longrightarrow> j < cells \<Longrightarrow> rd (wr s i v) j = (if i = j then cut v else rd s j)"
  by (simp add: rd_wr_same rd_wr_other)

text \<open>Moving a run of cells one place up or down, the loops of a hardware stack.\<close>

fun shift_up :: "'s \<Rightarrow> nat \<Rightarrow> 's" where
  "shift_up s 0 = s"
| "shift_up s (Suc i) = shift_up (wr s (Suc i) (rd s i)) i"

fun shift_down :: "'s \<Rightarrow> nat \<Rightarrow> nat \<Rightarrow> 's" where
  "shift_down s i 0 = s"
| "shift_down s i (Suc n) = shift_down (wr s i (rd s (Suc i))) (Suc i) n"

lemma ok_shift_up: "ok s \<Longrightarrow> n < cells \<Longrightarrow> ok (shift_up s n)"
  by (induction n arbitrary: s) (auto simp: ok_wr)

lemma rd_shift_up:
  "ok s \<Longrightarrow> n < cells \<Longrightarrow> j < cells \<Longrightarrow>
   rd (shift_up s n) j = (if 0 < j \<and> j \<le> n then rd s (j - 1) else rd s j)"
proof (induction n arbitrary: s)
  case 0
  then show ?case by simp
next
  case (Suc n)
  then show ?case by (auto simp: ok_wr rd_wr cut_rd le_Suc_eq)
qed

lemma ok_shift_down: "ok s \<Longrightarrow> i + n < cells \<Longrightarrow> ok (shift_down s i n)"
  by (induction n arbitrary: s i) (auto simp: ok_wr)

lemma rd_shift_down:
  "ok s \<Longrightarrow> i + n < cells \<Longrightarrow> j < cells \<Longrightarrow>
   rd (shift_down s i n) j = (if i \<le> j \<and> j < i + n then rd s (Suc j) else rd s j)"
proof (induction n arbitrary: s i)
  case 0
  then show ?case by auto
next
  case (Suc n)
  then have "ok (wr s i (rd s (Suc i)))" by (simp add: ok_wr)
  with Suc show ?case by (auto simp: rd_wr cut_rd)
qed

end

subsection \<open>Texts\<close>

text \<open>The bytes of a string of the source, and the decimal digits of a number.\<close>

definition ascii :: "string \<Rightarrow> u8 list" where "ascii = map of_char"

fun dec_text :: "nat \<Rightarrow> u8 list" where
  "dec_text n = (if n < 10 then [of_nat n + 48] else dec_text (n div 10) @ [of_nat (n mod 10) + 48])"

declare dec_text.simps [simp del]

lemma dec_text_Nil [simp]: "dec_text n \<noteq> []"
  by (subst dec_text.simps) simp

subsection \<open>Interpreter loops\<close>

text \<open>
  \<open>next s\<close> is one turn of an interpreter loop, \<open>stop s\<close> its exit test, and \<open>good\<close> an invariant
  that a turn from a running state keeps. \<open>rank\<close> is what a turn uses up.
\<close>

fun run_fuel :: "('s \<Rightarrow> bool) \<Rightarrow> ('s \<Rightarrow> 'e + 's) \<Rightarrow> nat \<Rightarrow> 's \<Rightarrow> ('e + 's) option" where
  "run_fuel halt turn 0 s = None"
| "run_fuel halt turn (Suc n) s =
     (if halt s then Some (Inr s)
      else case turn s of Inl e \<Rightarrow> Some (Inl e) | Inr s' \<Rightarrow> run_fuel halt turn n s')"

text \<open>The same for a loop that is left from inside: a turn goes on with a state or leaves with a result.\<close>

fun loop_fuel :: "('s \<Rightarrow> 'e + ('s + 'r)) \<Rightarrow> nat \<Rightarrow> 's \<Rightarrow> ('e + 'r) option" where
  "loop_fuel turn 0 s = None"
| "loop_fuel turn (Suc n) s =
     (case turn s of Inl e \<Rightarrow> Some (Inl e)
      | Inr (Inl s') \<Rightarrow> loop_fuel turn n s'
      | Inr (Inr r) \<Rightarrow> Some (Inr r))"

text \<open>A loop \<open>for (p = first; p; p = next(p))\<close> along the pointers of a list, with any body.\<close>

fun visit :: "(nat \<Rightarrow> 'e + nat option) \<Rightarrow> (nat \<Rightarrow> 'a \<Rightarrow> 'e + 'a) \<Rightarrow> nat \<Rightarrow> nat option \<Rightarrow> 'a \<Rightarrow> ('e + 'a) option" where
  "visit nxt f 0 p acc = None"
| "visit nxt f (Suc n) None acc = Some (Inr acc)"
| "visit nxt f (Suc n) (Some x) acc = (case andThen (f x acc) (\<lambda>acc. andThen (nxt x) (\<lambda>p. Inr (acc, p))) of
     Inl e \<Rightarrow> Some (Inl e) | Inr (acc, p) \<Rightarrow> visit nxt f n p acc)"

lemma run_fuel_mono:
  "run_fuel halt turn n s = Some x \<Longrightarrow> n \<le> m \<Longrightarrow> run_fuel halt turn m s = Some x"
proof (induction n arbitrary: s m)
  case 0
  then show ?case by simp
next
  case (Suc n)
  then obtain k where "m = Suc k" "n \<le> k" by (cases m) auto
  with Suc show ?case by (auto split: if_splits sum.splits)
qed

text \<open>A set of running states that every turn stays in is never left: no fuel is enough.\<close>

lemma run_fuel_diverges:
  assumes "loops s" and "\<And>s. loops s \<Longrightarrow> \<not> halt s \<and> (\<exists>s'. turn s = Inr s' \<and> loops s')"
  shows "run_fuel halt turn n s = None"
  using assms(1)
proof (induction n arbitrary: s)
  case 0
  then show ?case by simp
next
  case (Suc n)
  then obtain s' where "\<not> halt s" "turn s = Inr s'" "loops s'" using assms(2) by blast
  then show ?case using Suc.IH by simp
qed

locale stepper =
  fixes halt :: "'s \<Rightarrow> bool"
    and turn :: "'s \<Rightarrow> 'e + 's"
    and good :: "'s \<Rightarrow> bool"
  assumes turn_good: "good s \<Longrightarrow> \<not> halt s \<Longrightarrow> turn s = Inr s' \<Longrightarrow> good s'"
begin

lemma run_good: "good s \<Longrightarrow> run_fuel halt turn n s = Some (Inr s') \<Longrightarrow> good s' \<and> halt s'"
proof (induction n arbitrary: s)
  case 0
  then show ?case by simp
next
  case (Suc n)
  then show ?case by (auto split: if_splits sum.splits dest: turn_good)
qed

end

locale ranked_stepper = stepper +
  fixes rank :: "'s \<Rightarrow> nat"
  assumes turn_rank: "good s \<Longrightarrow> \<not> halt s \<Longrightarrow> turn s = Inr s' \<Longrightarrow> rank s' < rank s"
begin

lemma run_returns: "good s \<Longrightarrow> rank s < n \<Longrightarrow> \<exists>x. run_fuel halt turn n s = Some x"
proof (induction n arbitrary: s)
  case 0
  then show ?case by simp
next
  case (Suc n)
  show ?case
  proof (cases "halt s")
    case True
    then show ?thesis by simp
  next
    case False
    show ?thesis
    proof (cases "turn s")
      case (Inl e)
      then show ?thesis using False by simp
    next
      case (Inr s')
      then have "good s'" "rank s' < n"
        using Suc.prems False turn_good turn_rank [of s s'] by auto
      then show ?thesis using Suc.IH False Inr by simp
    qed
  qed
qed

end

text \<open>A loop whose turns cannot fault returns a good state in which it has stopped.\<close>

locale total_stepper = ranked_stepper +
  assumes turn_total: "good s \<Longrightarrow> \<not> halt s \<Longrightarrow> \<exists>s'. turn s = Inr s'"
begin

lemma run_total:
  "good s \<Longrightarrow> rank s < n \<Longrightarrow> \<exists>s'. run_fuel halt turn n s = Some (Inr s') \<and> good s' \<and> halt s'"
proof (induction n arbitrary: s)
  case 0
  then show ?case by simp
next
  case (Suc n)
  show ?case
  proof (cases "halt s")
    case True
    with Suc.prems show ?thesis by simp
  next
    case False
    then obtain s' where s': "turn s = Inr s'" using Suc.prems turn_total by blast
    then have "good s'" "rank s' < n"
      using Suc.prems False turn_good turn_rank [of s s'] by auto
    then show ?thesis using Suc.IH False s' by simp
  qed
qed

end

subsection \<open>Refinement of machines\<close>

text \<open>A bounded number of turns, stopping at the first exit.\<close>

fun iter_turn :: "('s \<Rightarrow> 'e + 's) \<Rightarrow> nat \<Rightarrow> 's \<Rightarrow> 'e + 's" where
  "iter_turn turn 0 s = Inr s"
| "iter_turn turn (Suc n) s = andThen (turn s) (iter_turn turn n)"

lemma run_fuel_iter:
  "run_fuel (\<lambda>_. False) turn n s = (case iter_turn turn n s of Inl e \<Rightarrow> Some (Inl e) | Inr _ \<Rightarrow> None)"
proof (induction n arbitrary: s)
  case (Suc n)
  then show ?case by (cases "turn s") simp_all
qed simp

text \<open>
  \<open>cturn\<close> is a turn of the program's machine and \<open>aturn\<close> of an abstract one; \<open>vw\<close> and \<open>vwe\<close> are the
  abstract views of a state and of an exit. One simulated turn gives simulated runs.
\<close>

locale simulation =
  fixes cturn :: "'s \<Rightarrow> 'e + 's"
    and aturn :: "'a \<Rightarrow> 'f + 'a"
    and vw :: "'s \<Rightarrow> 'a"
    and vwe :: "'e \<Rightarrow> 'f"
    and good :: "'s \<Rightarrow> bool"
  assumes turn_sim: "good s \<Longrightarrow> map_sum vwe vw (cturn s) = aturn (vw s)"
    and turn_keeps: "good s \<Longrightarrow> cturn s = Inr s' \<Longrightarrow> good s'"
begin

lemma iter_sim: "good s \<Longrightarrow> map_sum vwe vw (iter_turn cturn n s) = iter_turn aturn n (vw s)"
proof (induction n arbitrary: s)
  case 0
  then show ?case by simp
next
  case (Suc n)
  show ?case
  proof (cases "cturn s")
    case (Inl e)
    then have "aturn (vw s) = Inl (vwe e)" using turn_sim [OF Suc.prems] by simp
    with Inl show ?thesis by simp
  next
    case (Inr s')
    then have "aturn (vw s) = Inr (vw s')" using turn_sim [OF Suc.prems] by simp
    with Inr Suc.IH turn_keeps [OF Suc.prems Inr] show ?thesis by simp
  qed
qed

text \<open>An exit is the exit of one turn from a good state.\<close>

lemma iter_exit: "good s \<Longrightarrow> iter_turn cturn n s = Inl e \<Longrightarrow> \<exists>s0. good s0 \<and> cturn s0 = Inl e"
proof (induction n arbitrary: s)
  case 0
  then show ?case by simp
next
  case (Suc n)
  show ?case
  proof (cases "cturn s")
    case (Inl e')
    with Suc.prems show ?thesis by auto
  next
    case (Inr s')
    with Suc turn_keeps [OF Suc.prems(1)] show ?thesis by simp
  qed
qed

lemma iter_good: "good s \<Longrightarrow> iter_turn cturn n s = Inr s' \<Longrightarrow> good s'"
proof (induction n arbitrary: s)
  case 0
  then show ?case by simp
next
  case (Suc n)
  then show ?case by (auto simp: andThen_Inr_iff dest: turn_keeps)
qed

end

end
