(* ===== verification/Mcs4_State.thy ===== *)
theory Mcs4_State
  imports Prelude
begin

unbundle bit_operations_syntax

text \<open>
  The state of the MCS-4 emulator (\<open>src/faggin/mcs4.h\<close>, \<open>src/faggin/mcs4.c\<close>) and the helper
  functions its instruction handlers use. \<open>mcs4\<close> is \<open>struct mcs4\<close>: one field per member, the
  bit fields at their width, \<open>ram[8][4][10]\<close> row by row in one list of 320 bytes. The member
  \<open>print\<close> is an output function, modelled by the list of what was printed; \<open>exec\<close> is the
  table of handlers, which the model keeps in \<open>mcs4_ftable\<close> (theory \<open>Mcs4_Run\<close>).

  The structure is packed, so an index that runs past an array lands in the members behind
  it, and the code does this (\<open>ram\<close> has 8 chips, bank 2 selects chips 8 to 11). \<open>byte_at\<close> and
  \<open>set_byte\<close> are the memory of the structure byte by byte, up to the members \<open>print\<close> and \<open>exec\<close>
  at offset 2399, which hold code addresses: an access there is the fault \<open>Ptr_Read\<close> or
  \<open>Ptr_Write\<close>.
\<close>

subsection \<open>The structure\<close>

record mcs4 =
  cpu_prom :: "u8 list"
  cpu_promio :: "u8 list"
  cpu_ram :: "u8 list"
  cpu_ramout :: "u8 list"
  cpu_r :: "u8 list"
  cpu_ms :: u16
  cpu_cmram :: u4
  cpu_sp :: u4
  cpu_tmp :: u4
  cpu_a :: u4
  cpu_c :: u1
  cpu_t :: u1
  cpu_unused :: "6 word"
  cpu_pc :: "u8 list"
  cpu_cycles :: u32
  cpu_printed :: "u8 list list"

datatype mcs4_fault = Ptr_Read nat | Ptr_Write nat | Pc_Overrun nat

type_synonym mcs4_result = "mcs4_fault + mcs4"

definition mcs4_shape :: "mcs4 \<Rightarrow> bool" where
  "mcs4_shape cpu \<longleftrightarrow> length (cpu_prom cpu) = 2048 \<and> length (cpu_promio cpu) = 4 \<and>
     length (cpu_ram cpu) = 320 \<and> length (cpu_ramout cpu) = 4 \<and> length (cpu_r cpu) = 8 \<and>
     length (cpu_pc cpu) = 6"

subsection \<open>The packed layout\<close>

definition layout_ram :: nat where "layout_ram = 2052"
definition layout_ptr :: nat where "layout_ptr = 2399"

definition replace_byte :: "u32 \<Rightarrow> nat \<Rightarrow> u8 \<Rightarrow> u32" where
  "replace_byte w i b = (w AND NOT (push_bit (8 * i) (mask 8))) OR push_bit (8 * i) (ucast b)"

definition byte_at :: "mcs4 \<Rightarrow> nat \<Rightarrow> u8" where
  "byte_at cpu off =
     (if off < 2048 then cpu_prom cpu ! off
      else if off < 2052 then cpu_promio cpu ! (off - 2048)
      else if off < 2372 then cpu_ram cpu ! (off - 2052)
      else if off < 2376 then cpu_ramout cpu ! (off - 2372)
      else if off < 2384 then cpu_r cpu ! (off - 2376)
      else if off = 2384 then ucast (cpu_ms cpu)
      else if off = 2385 then ucast (drop_bit 8 (cpu_ms cpu))
      else if off = 2386 then word_cat (cpu_sp cpu) (cpu_cmram cpu)
      else if off = 2387 then word_cat (cpu_a cpu) (cpu_tmp cpu)
      else if off = 2388 then word_cat (cpu_unused cpu) (word_cat (cpu_t cpu) (cpu_c cpu) :: 2 word)
      else if off < 2395 then cpu_pc cpu ! (off - 2389)
      else ucast (drop_bit (8 * (off - 2395)) (cpu_cycles cpu)))"

definition set_byte :: "mcs4 \<Rightarrow> nat \<Rightarrow> u8 \<Rightarrow> mcs4" where
  "set_byte cpu off b =
     (if off < 2048 then cpu\<lparr>cpu_prom := (cpu_prom cpu)[off := b]\<rparr>
      else if off < 2052 then cpu\<lparr>cpu_promio := (cpu_promio cpu)[off - 2048 := b]\<rparr>
      else if off < 2372 then cpu\<lparr>cpu_ram := (cpu_ram cpu)[off - 2052 := b]\<rparr>
      else if off < 2376 then cpu\<lparr>cpu_ramout := (cpu_ramout cpu)[off - 2372 := b]\<rparr>
      else if off < 2384 then cpu\<lparr>cpu_r := (cpu_r cpu)[off - 2376 := b]\<rparr>
      else if off = 2384 then cpu\<lparr>cpu_ms := word_cat (ucast (drop_bit 8 (cpu_ms cpu)) :: u8) b\<rparr>
      else if off = 2385 then cpu\<lparr>cpu_ms := word_cat b (ucast (cpu_ms cpu) :: u8)\<rparr>
      else if off = 2386 then cpu\<lparr>cpu_cmram := ucast b, cpu_sp := ucast (drop_bit 4 b)\<rparr>
      else if off = 2387 then cpu\<lparr>cpu_tmp := ucast b, cpu_a := ucast (drop_bit 4 b)\<rparr>
      else if off = 2388 then
        cpu\<lparr>cpu_c := ucast b, cpu_t := ucast (drop_bit 1 b), cpu_unused := ucast (drop_bit 2 b)\<rparr>
      else if off < 2395 then cpu\<lparr>cpu_pc := (cpu_pc cpu)[off - 2389 := b]\<rparr>
      else cpu\<lparr>cpu_cycles := replace_byte (cpu_cycles cpu) (off - 2395) b\<rparr>)"

definition peek :: "mcs4 \<Rightarrow> nat \<Rightarrow> mcs4_fault + u8" where
  "peek cpu off = (if off < layout_ptr then Inr (byte_at cpu off) else Inl (Ptr_Read off))"

definition poke :: "mcs4 \<Rightarrow> nat \<Rightarrow> u8 \<Rightarrow> mcs4_result" where
  "poke cpu off b = (if off < layout_ptr then Inr (set_byte cpu off b) else Inl (Ptr_Write off))"

lemma set_byte_shape: "mcs4_shape cpu \<Longrightarrow> mcs4_shape (set_byte cpu off b)"
  by (simp add: mcs4_shape_def set_byte_def)

subsection \<open>Words made of bytes and nibbles\<close>

text \<open>Two adjacent fields of a byte or a word are independent, and make it up.\<close>

lemma cat_bytes [simp]:
  "ucast (word_cat (x :: u8) (y :: u8) :: u16) = y"
  "ucast (drop_bit 8 (word_cat (x :: u8) (y :: u8) :: u16)) = x"
  "word_cat (ucast (drop_bit 8 w) :: u8) (ucast w :: u8) = (w :: u16)"
  by (rule bit_word_eqI; auto simp: bit_simps bit_word_cat_iff)+

lemma cat_nibbles [simp]:
  "ucast (word_cat (x :: u4) (y :: u4) :: u8) = y"
  "ucast (drop_bit 4 (word_cat (x :: u4) (y :: u4) :: u8)) = x"
  "word_cat (ucast (drop_bit 4 b) :: u4) (ucast b :: u4) = (b :: u8)"
  by (rule bit_word_eqI; auto simp: bit_simps bit_word_cat_iff)+

lemma cat_flags [simp]:
  "word_cat (ucast (drop_bit 2 b) :: 6 word)
     (word_cat (ucast (drop_bit (Suc 0) b) :: u1) (ucast b :: u1) :: 2 word) = (b :: u8)"
  by (rule bit_word_eqI) (auto simp: bit_simps bit_word_cat_iff less_Suc_eq numeral_2_eq_2)

text \<open>Replacing byte \<open>k\<close> of the cycle counter.\<close>

lemma byte_of_replaced:
  assumes "i < 4" and "j < 4"
  shows "ucast (drop_bit (8 * j) (replace_byte w i b)) = (if i = j then b else ucast (drop_bit (8 * j) w))"
proof -
  have "i \<in> {0, 1, 2, 3}" "j \<in> {0, 1, 2, 3}" using assms by auto
  then show ?thesis unfolding replace_byte_def
    by (intro bit_word_eqI) (auto simp: bit_simps dest: bit_imp_le_length)
qed

subsection \<open>The packed structure is a store of independent bytes\<close>

lemma byte_at_set_byte:
  assumes "mcs4_shape cpu" and "i < layout_ptr" and "j < layout_ptr"
  shows "byte_at (set_byte cpu i b) j = (if i = j then b else byte_at cpu j)"
proof (cases "i < 2395")
  case True
  with assms show ?thesis
    by (auto simp: byte_at_def set_byte_def mcs4_shape_def nth_list_update) arith
next
  case False
  then have "i = 2395 + (i - 2395)" by simp
  then obtain k where k: "i = 2395 + k" by blast
  then have "k < 4" using assms by (simp add: layout_ptr_def)
  with k assms show ?thesis
    by (auto simp: byte_at_def set_byte_def byte_of_replaced layout_ptr_def)
qed

interpretation bytes: cell_store byte_at set_byte "\<lambda>b. b" layout_ptr mcs4_shape
  by unfold_locales (simp_all add: byte_at_set_byte set_byte_shape)

end
