(* ===== verification/Mcs4_Helpers.thy ===== *)
theory Mcs4_Helpers
  imports Mcs4_State
begin

unbundle bit_operations_syntax

text \<open>
  The helper functions at the top of \<open>src/faggin/mcs4.c\<close>: the 16 four-bit index registers packed
  two to a byte, the four 12-bit program counters packed two to three bytes, the
  addressed nibble of RAM, and the initialiser. The first two are interpretations of
  \<open>cell_store\<close>, which gives the instruction proofs their read-after-write facts.
\<close>

subsection \<open>Index registers\<close>

definition mcs4_get_r :: "mcs4 \<Rightarrow> nat \<Rightarrow> u8" where
  "mcs4_get_r cpu idx =
     (let loc = idx div 2 in
      if odd idx then hi_nib (cpu_r cpu ! loc) else lo_nib (cpu_r cpu ! loc))"

definition mcs4_set_r :: "mcs4 \<Rightarrow> nat \<Rightarrow> u8 \<Rightarrow> mcs4" where
  "mcs4_set_r cpu idx val =
     (let loc = idx div 2 in
      if odd idx then cpu\<lparr>cpu_r := (cpu_r cpu)[loc := put_hi (cpu_r cpu ! loc) val]\<rparr>
      else cpu\<lparr>cpu_r := (cpu_r cpu)[loc := put_lo (cpu_r cpu ! loc) val]\<rparr>)"

definition mcs4_set_reg_pair :: "mcs4 \<Rightarrow> nat \<Rightarrow> u8 \<Rightarrow> mcs4" where
  "mcs4_set_reg_pair cpu pair data =
     (let cpu' = mcs4_set_r cpu (2 * pair) (hi_nib data)
      in mcs4_set_r cpu' (2 * pair + 1) (lo_nib data))"

definition mcs4_get_reg_pair :: "mcs4 \<Rightarrow> nat \<Rightarrow> u8" where
  "mcs4_get_reg_pair cpu pair =
     push_bit 4 (mcs4_get_r cpu (2 * pair)) OR mcs4_get_r cpu (2 * pair + 1)"

lemma pair_of_nibbles: "push_bit 4 (lo_nib x) OR lo_nib y = put_hi y x"
  unfolding put_hi_def lo_nib_def ..

lemma push_hi_nib: "push_bit 4 (hi_nib x) OR lo_nib y = put_hi y (hi_nib x)"
  by (metis nib_simps(6) pair_of_nibbles)

lemma mcs4_set_r_shape: "mcs4_shape cpu \<Longrightarrow> mcs4_shape (mcs4_set_r cpu i v)"
  by (simp add: mcs4_shape_def mcs4_set_r_def Let_def)

interpretation regs: cell_store mcs4_get_r mcs4_set_r lo_nib 16 mcs4_shape
proof unfold_locales
  fix s :: mcs4 and i j :: nat and v
  assume ok: "mcs4_shape s" and i: "i < 16" and j: "j < 16" and ne: "i \<noteq> j"
  show "mcs4_get_r (mcs4_set_r s i v) j = mcs4_get_r s j"
  proof (cases "i div 2 = j div 2")
    case True
    with ne have "odd i \<noteq> odd j" by presburger
    with True ok j show ?thesis
      by (auto simp: mcs4_get_r_def mcs4_set_r_def Let_def mcs4_shape_def nth_list_update)
  next
    case False
    with ok i j show ?thesis
      by (simp add: mcs4_get_r_def mcs4_set_r_def Let_def mcs4_shape_def nth_list_update)
  qed
qed (auto simp: mcs4_get_r_def mcs4_set_r_def Let_def mcs4_shape_def nth_list_update ac_simps)

lemma mcs4_reg_pair_back:
  assumes "mcs4_shape cpu" and "p < 8"
  shows "mcs4_get_reg_pair (mcs4_set_reg_pair cpu p d) p = d"
  using assms
  by (simp add: mcs4_get_reg_pair_def mcs4_set_reg_pair_def Let_def regs.rd_wr mcs4_set_r_shape push_hi_nib)

lemma mcs4_get_r_lo: "mcs4_shape cpu \<Longrightarrow> i < 16 \<Longrightarrow> lo_nib (mcs4_get_r cpu i) = mcs4_get_r cpu i"
  by (rule regs.cut_rd)

subsection \<open>Program counters\<close>

definition mcs4_get_pc :: "mcs4 \<Rightarrow> nat \<Rightarrow> u16" where
  "mcs4_get_pc cpu idx =
     (let loc = (idx div 2) * 3; pc = cpu_pc cpu in
      if odd idx then push_bit 8 (ucast (lo_nib (pc ! (loc + 1)))) OR ucast (pc ! (loc + 2))
      else push_bit 4 (ucast (pc ! loc)) OR ucast (lo_nib (hi_nib (pc ! (loc + 1)))))"

definition mcs4_set_pc :: "mcs4 \<Rightarrow> nat \<Rightarrow> u16 \<Rightarrow> mcs4" where
  "mcs4_set_pc cpu idx val =
     (let loc = (idx div 2) * 3; pc = cpu_pc cpu in
      if odd idx
      then cpu\<lparr>cpu_pc := pc[loc + 1 := put_lo (pc ! (loc + 1)) (ucast (drop_bit 8 (val AND 0xF00))),
                           loc + 2 := ucast (val AND 0xFF)]\<rparr>
      else cpu\<lparr>cpu_pc := pc[loc := ucast (drop_bit 4 (val AND 0xFF0)),
                           loc + 1 := put_hi (pc ! (loc + 1)) (ucast (val AND 0x00F))]\<rparr>)"

lemma bit_masks16:
  "bit (0xFFF :: u16) n \<longleftrightarrow> n < 12" "bit (0xF00 :: u16) n \<longleftrightarrow> 8 \<le> n \<and> n < 12"
  "bit (0xFF :: u16) n \<longleftrightarrow> n < 8" "bit (0xFF0 :: u16) n \<longleftrightarrow> 4 \<le> n \<and> n < 12"
  "bit (0x00F :: u16) n \<longleftrightarrow> n < 4"
proof -
  have "(0xFFF :: u16) = mask 12" "(0xFF :: u16) = mask 8" "(0x00F :: u16) = mask 4"
    by (simp_all add: mask_numeral)
  then show "bit (0xFFF :: u16) n \<longleftrightarrow> n < 12" "bit (0xFF :: u16) n \<longleftrightarrow> n < 8"
    "bit (0x00F :: u16) n \<longleftrightarrow> n < 4"
    by (auto simp only: bit_mask_iff, simp_all)
  have 1: "(0xF00 :: u16) = push_bit 8 (mask 4)" and 2: "(0xFF0 :: u16) = push_bit 4 (mask 8)"
    by (simp_all add: mask_numeral)
  show "bit (0xF00 :: u16) n \<longleftrightarrow> 8 \<le> n \<and> n < 12" "bit (0xFF0 :: u16) n \<longleftrightarrow> 4 \<le> n \<and> n < 12"
    unfolding 1 2 by (auto simp: bit_simps)
qed

text \<open>What the three bytes of a pair of counters hold.\<close>

lemma pc_pack:
  fixes v :: u16
  shows "push_bit 8 (ucast (lo_nib (ucast (drop_bit 8 v AND 0x00F)))) OR ucast (ucast (v AND 0xFF) :: u8)
      = v AND 0xFFF" (is ?odd)
    and "push_bit 4 (ucast (ucast (drop_bit 4 v AND 0xFF) :: u8)) OR ucast (lo_nib (ucast (v AND 0x00F)))
      = v AND 0xFFF" (is ?even)
proof -
  show ?odd
    by (rule bit_word_eqI)
      (auto simp: bit_nibs bit_masks16 bit_or_iff bit_and_iff bit_push_bit_iff bit_ucast_iff
        bit_drop_bit_eq simp del: bit_numeral_word_iff push_bit_and)
  show ?even
    by (rule bit_word_eqI)
      (auto simp: bit_nibs bit_masks16 bit_or_iff bit_and_iff bit_push_bit_iff bit_ucast_iff
        bit_drop_bit_eq simp del: bit_numeral_word_iff push_bit_and)
qed

lemma pc_pack_12:
  fixes x y :: u8
  shows "(push_bit 8 (ucast (lo_nib x)) OR ucast y :: u16) AND 0xFFF = push_bit 8 (ucast (lo_nib x)) OR ucast y"
    and "(push_bit 4 (ucast y) OR ucast (hi_nib x) :: u16) AND 0xFFF = push_bit 4 (ucast y) OR ucast (hi_nib x)"
  by (rule bit_word_eqI;
      auto simp: bit_nibs bit_masks16 bit_or_iff bit_and_iff bit_push_bit_iff bit_ucast_iff
        simp del: bit_numeral_word_iff push_bit_and dest: bit_imp_le_length)+

lemma mcs4_set_pc_shape: "mcs4_shape cpu \<Longrightarrow> mcs4_shape (mcs4_set_pc cpu i v)"
  by (simp add: mcs4_shape_def mcs4_set_pc_def Let_def)

lemma less4_cases: "i < (4 :: nat) \<Longrightarrow> i = 0 \<or> i = 1 \<or> i = 2 \<or> i = 3"
  by auto

interpretation pcs: cell_store mcs4_get_pc mcs4_set_pc "\<lambda>v. v AND 0xFFF" 4 mcs4_shape
proof unfold_locales
  fix s :: mcs4 and i j :: nat and v
  assume ok: "mcs4_shape s" and i: "i < 4"
  then have len: "length (cpu_pc s) = 6" by (simp add: mcs4_shape_def)
  show "mcs4_get_pc (mcs4_set_pc s i v) i = v AND 0xFFF"
    using less4_cases [OF i]
    by (elim disjE) (simp_all add: mcs4_get_pc_def mcs4_set_pc_def Let_def len pc_pack)
  show "mcs4_get_pc s i AND 0xFFF = mcs4_get_pc s i"
    by (simp add: mcs4_get_pc_def Let_def pc_pack_12)
  assume j: "j < 4" and ne: "i \<noteq> j"
  show "mcs4_get_pc (mcs4_set_pc s i v) j = mcs4_get_pc s j"
    using less4_cases [OF i] less4_cases [OF j] ne
    by (elim disjE) (simp_all add: mcs4_get_pc_def mcs4_set_pc_def Let_def len)
qed (simp add: mcs4_set_pc_shape)

definition mcs4_inc_pc :: "mcs4 \<Rightarrow> mcs4" where
  "mcs4_inc_pc cpu =
     (let current = mcs4_get_pc cpu 0;
          cpu' = mcs4_set_pc cpu 0 ((current AND 0xF00) OR ((current + 1) AND 0xFF))
      in cpu'\<lparr>cpu_cycles := cpu_cycles cpu' + 1\<rparr>)"

definition mcs4_fetch :: "mcs4 \<Rightarrow> u8" where
  "mcs4_fetch cpu = cpu_prom cpu ! unat (mcs4_get_pc cpu 0 AND (2048 - 1))"

subsection \<open>RAM\<close>

text \<open>
  The offset from the start of \<open>ram\<close> of \<open>ram[bank | (ms >> 6)][(ms & 0x30) >> 4][loc]\<close>. With
  bank 8 or 12 it is at least 320, behind the array.
\<close>

definition mcs4_ram_off :: "mcs4 \<Rightarrow> u16 \<Rightarrow> nat \<Rightarrow> nat" where
  "mcs4_ram_off cpu bank loc =
     unat (bank OR drop_bit 6 (cpu_ms cpu)) * 40 + unat (drop_bit 4 (cpu_ms cpu AND 0x30)) * 10 + loc"

definition mcs4_get_ram :: "mcs4 \<Rightarrow> nat \<Rightarrow> mcs4_fault + u8" where
  "mcs4_get_ram cpu idx =
     (let loc = idx div 2;
          bank = (if cpu_cmram cpu = 2 then 0x4 else if cpu_cmram cpu = 4 then 0x8
                  else if cpu_cmram cpu = 3 then 0xC else 0)
      in andThen (peek cpu (layout_ram + mcs4_ram_off cpu bank loc))
           (\<lambda>b. Inr (if odd idx then hi_nib b else lo_nib b)))"

text \<open>One statement \<open>ram[..][..][loc] op= x\<close>: the address is computed from the current \<open>ms\<close>.\<close>

definition mcs4_ram_update :: "mcs4 \<Rightarrow> u16 \<Rightarrow> nat \<Rightarrow> (u8 \<Rightarrow> u8) \<Rightarrow> mcs4_result" where
  "mcs4_ram_update cpu bank loc f =
     (let off = layout_ram + mcs4_ram_off cpu bank loc
      in andThen (peek cpu off) (\<lambda>b. poke cpu off (f b)))"

definition mcs4_set_ram :: "mcs4 \<Rightarrow> nat \<Rightarrow> u8 \<Rightarrow> mcs4_result" where
  "mcs4_set_ram cpu idx val =
     (let loc = idx div 2;
          write = (\<lambda>bank.
            if odd idx
            then andThen (mcs4_ram_update cpu bank loc (\<lambda>b. b AND 0x0F))
                   (\<lambda>cpu'. mcs4_ram_update cpu' bank loc (\<lambda>b. b OR push_bit 4 val))
            else andThen (mcs4_ram_update cpu bank loc (\<lambda>b. b AND 0xF0))
                   (\<lambda>cpu'. mcs4_ram_update cpu' bank loc (\<lambda>b. b OR val)))
      in if cpu_cmram cpu = 1 then write 0
         else if cpu_cmram cpu = 2 then write 0x4
         else if cpu_cmram cpu = 4 then write 0x8
         else if cpu_cmram cpu = 3 then write 0xC
         else Inr cpu)"

subsection \<open>Initialisation\<close>

text \<open>
  \<open>cpu\<close> is the uninitialised structure on the stack of \<open>main\<close>. The loop over \<open>ramout\<close> counts
  to 8 while the array has 4 bytes: it is modelled on the packed layout.
\<close>

definition mcs4_init :: "mcs4 \<Rightarrow> u8 list \<Rightarrow> mcs4" where
  "mcs4_init cpu prom =
     (let cpu1 = cpu\<lparr>cpu_prom := map (\<lambda>i. prom ! i) [0..<2048], cpu_promio := replicate 4 0,
                      cpu_ram := replicate 320 0\<rparr>;
          cpu2 = fold (\<lambda>i s. set_byte s (2372 + i) 0) [0..<8] cpu1
      in cpu2\<lparr>cpu_pc := replicate 6 0, cpu_sp := 0, cpu_ms := 0, cpu_tmp := 0, cpu_a := 0,
              cpu_c := 0, cpu_t := 0, cpu_r := replicate 8 0, cpu_cmram := 0, cpu_cycles := 0,
              cpu_printed := []\<rparr>)"

end
