(* ===== verification/Mcs4_Ops.thy ===== *)
theory Mcs4_Ops
  imports Mcs4_Helpers
begin

unbundle bit_operations_syntax

text \<open>
  The instruction handlers of \<open>src/faggin/mcs4.c\<close>, one definition each under the name of the
  C function. A handler that touches RAM or the return stack returns a result that may be a
  fault of the packed structure; the others are total. \<open>tmp\<close> is four bits wide, so an
  assignment to it keeps the low nibble.
\<close>

subsection \<open>Machine instructions\<close>

definition mcs4_op_nop :: "mcs4 \<Rightarrow> mcs4" where
  "mcs4_op_nop cpu = mcs4_inc_pc cpu"

definition mcs4_op_jcn :: "mcs4 \<Rightarrow> mcs4" where
  "mcs4_op_jcn cpu =
     (let page = ucast (mcs4_get_pc cpu 0 AND 0xF00) :: u8;
          cpu1 = cpu\<lparr>cpu_tmp := ucast (mcs4_fetch cpu)\<rparr>;
          cpu2 = mcs4_inc_pc cpu1;
          tmp = cpu_tmp cpu2;
          na = (if cpu_a cpu2 = 0 then 1 else 0) :: u4;
          nt = (if cpu_t cpu2 = 0 then 1 else 0) :: u4;
          target = ucast page OR ucast (mcs4_fetch cpu2) :: u16
      in if tmp AND 0x4 \<noteq> 0 \<and> na XOR (tmp AND 0x8) \<noteq> 0 then mcs4_set_pc cpu2 0 target
         else if tmp AND 0x2 \<noteq> 0 \<and> ucast (cpu_c cpu2) XOR (tmp AND 0x8) \<noteq> 0 then mcs4_set_pc cpu2 0 target
         else if tmp AND 0x1 \<noteq> 0 \<and> nt XOR (tmp AND 0x8) \<noteq> 0 then mcs4_set_pc cpu2 0 target
         else mcs4_inc_pc cpu2)"

definition mcs4_op_fim :: "mcs4 \<Rightarrow> mcs4" where
  "mcs4_op_fim cpu =
     (let cpu1 = cpu\<lparr>cpu_tmp := ucast (drop_bit 1 (mcs4_fetch cpu AND 0xF))\<rparr>;
          cpu2 = mcs4_inc_pc cpu1;
          cpu3 = mcs4_set_reg_pair cpu2 (unat (cpu_tmp cpu2)) (mcs4_fetch cpu2)
      in mcs4_inc_pc cpu3)"

definition mcs4_op_src :: "mcs4 \<Rightarrow> mcs4" where
  "mcs4_op_src cpu =
     mcs4_inc_pc (cpu\<lparr>cpu_ms :=
       ucast (mcs4_get_reg_pair cpu (unat (drop_bit 1 (mcs4_fetch cpu AND 0xF))))\<rparr>)"

definition mcs4_op_fin :: "mcs4 \<Rightarrow> mcs4" where
  "mcs4_op_fin cpu =
     (let cpu1 = cpu\<lparr>cpu_tmp := ucast (drop_bit 1 (mcs4_fetch cpu AND 0xF))\<rparr>;
          pair = unat (cpu_tmp cpu1);
          data = ((ucast (mcs4_fetch cpu1) :: u16) AND 0xF00) OR ucast (mcs4_get_reg_pair cpu1 pair)
      in mcs4_inc_pc (mcs4_set_reg_pair cpu1 pair (ucast data)))"

definition mcs4_op_jin :: "mcs4 \<Rightarrow> mcs4" where
  "mcs4_op_jin cpu =
     mcs4_set_pc cpu 0 ((mcs4_get_pc cpu 0 AND 0xF00) OR
       ucast (mcs4_get_reg_pair cpu (unat (drop_bit 1 (mcs4_get_pc cpu 0 AND 0xF)))))"

definition mcs4_op_jun :: "mcs4 \<Rightarrow> mcs4" where
  "mcs4_op_jun cpu =
     (let cpu1 = cpu\<lparr>cpu_tmp := ucast (mcs4_get_pc cpu 0 AND 0xF)\<rparr>;
          cpu2 = mcs4_inc_pc cpu1
      in mcs4_set_pc cpu2 0 (push_bit 8 (ucast (cpu_tmp cpu2)) OR mcs4_get_pc cpu2 0))"

text \<open>The loop of JMS copies counter \<open>i - 1\<close> to counter \<open>i\<close>, from the new \<open>sp\<close> down to 1.\<close>

fun mcs4_push_loop :: "mcs4 \<Rightarrow> nat \<Rightarrow> mcs4" where
  "mcs4_push_loop cpu 0 = cpu"
| "mcs4_push_loop cpu (Suc i) = mcs4_push_loop (mcs4_set_pc cpu (Suc i) (mcs4_get_pc cpu i)) i"

definition mcs4_op_jms :: "mcs4 \<Rightarrow> mcs4" where
  "mcs4_op_jms cpu =
     (let cpu1 = cpu\<lparr>cpu_tmp := ucast (mcs4_fetch cpu AND 0xF)\<rparr>;
          cpu2 = mcs4_inc_pc cpu1;
          nxt = push_bit 8 (ucast (cpu_tmp cpu2)) OR ucast (mcs4_fetch cpu2) :: u16;
          cpu3 = mcs4_inc_pc cpu2;
          cpu4 = cpu3\<lparr>cpu_sp := (cpu_sp cpu3 + 1) AND 0x3\<rparr>;
          cpu5 = mcs4_push_loop cpu4 (unat (cpu_sp cpu4))
      in mcs4_set_pc cpu5 0 nxt)"

definition mcs4_op_inc :: "mcs4 \<Rightarrow> mcs4" where
  "mcs4_op_inc cpu =
     (let cpu1 = cpu\<lparr>cpu_tmp := ucast (mcs4_fetch cpu AND 0xF)\<rparr>;
          i = unat (cpu_tmp cpu1)
      in mcs4_inc_pc (mcs4_set_r cpu1 i (mcs4_get_r cpu1 i + 1)))"

definition mcs4_op_isz :: "mcs4 \<Rightarrow> mcs4" where
  "mcs4_op_isz cpu =
     (let cpu1 = cpu\<lparr>cpu_tmp := ucast (mcs4_fetch cpu AND 0xF)\<rparr>;
          cpu2 = mcs4_inc_pc cpu1;
          i = unat (cpu_tmp cpu2);
          cpu3 = mcs4_set_r cpu2 i (mcs4_get_r cpu2 i + 1)
      in if mcs4_get_r cpu3 i \<noteq> 0
         then mcs4_set_pc cpu3 0 ((mcs4_get_pc cpu3 0 AND 0xF00) OR ucast (mcs4_fetch cpu3))
         else mcs4_inc_pc cpu3)"

definition mcs4_op_add :: "mcs4 \<Rightarrow> mcs4" where
  "mcs4_op_add cpu =
     (let old = cpu_a cpu;
          cpu1 = cpu\<lparr>cpu_tmp := ucast (mcs4_fetch cpu AND 0xF)\<rparr>;
          cpu2 = cpu1\<lparr>cpu_a := cpu_a cpu1 + (ucast (mcs4_get_r cpu1 (unat (cpu_tmp cpu1))) + ucast (cpu_c cpu1))\<rparr>;
          cpu3 = (if old > cpu_a cpu2 then cpu2\<lparr>cpu_c := 1\<rparr>
                  else if old = cpu_a cpu2 \<and> cpu_c cpu2 \<noteq> 0 then cpu2\<lparr>cpu_c := 1\<rparr>
                  else cpu2\<lparr>cpu_c := 0\<rparr>)
      in mcs4_inc_pc cpu3)"

text \<open>In \<open>~cpu->c\<close> the flag is promoted to \<open>int\<close> first, so the complement has 32 bits.\<close>

definition mcs4_not_c :: "mcs4 \<Rightarrow> u32" where
  "mcs4_not_c cpu = NOT (ucast (cpu_c cpu))"

definition mcs4_op_sub :: "mcs4 \<Rightarrow> mcs4" where
  "mcs4_op_sub cpu =
     (let old = cpu_a cpu;
          cpu1 = cpu\<lparr>cpu_tmp := ucast (mcs4_fetch cpu AND 0xF)\<rparr>;
          reg = ucast (mcs4_get_r cpu1 (unat (cpu_tmp cpu1))) :: u32;
          cpu2 = cpu1\<lparr>cpu_a := ucast (ucast (cpu_a cpu1) + (NOT reg + mcs4_not_c cpu1))\<rparr>;
          cpu3 = (if old > cpu_a cpu2 then cpu2\<lparr>cpu_c := 1\<rparr>
                  else if old = cpu_a cpu2 \<and> mcs4_not_c cpu2 \<noteq> 0 then cpu2\<lparr>cpu_c := 1\<rparr>
                  else cpu2\<lparr>cpu_c := 0\<rparr>)
      in mcs4_inc_pc cpu3)"

definition mcs4_op_ld :: "mcs4 \<Rightarrow> mcs4" where
  "mcs4_op_ld cpu =
     (let cpu1 = cpu\<lparr>cpu_tmp := ucast (mcs4_fetch cpu AND 0xF)\<rparr>
      in mcs4_inc_pc (cpu1\<lparr>cpu_a := ucast (mcs4_get_r cpu1 (unat (cpu_tmp cpu1)))\<rparr>))"

definition mcs4_op_xch :: "mcs4 \<Rightarrow> mcs4" where
  "mcs4_op_xch cpu =
     (let reg = unat (mcs4_fetch cpu AND 0xF);
          cpu1 = cpu\<lparr>cpu_tmp := cpu_a cpu\<rparr>;
          cpu2 = cpu1\<lparr>cpu_a := ucast (mcs4_get_r cpu1 reg)\<rparr>
      in mcs4_inc_pc (mcs4_set_r cpu2 reg (ucast (cpu_tmp cpu2))))"

text \<open>
  The loop of BBL copies counter \<open>i + 1\<close> to counter \<open>i\<close> for \<open>i\<close> below \<open>sp\<close>. Only four counters
  exist; \<open>sp\<close> stays below 4 unless a RAM overrun wrote it, and the access behind the array is
  then the fault \<open>Pc_Overrun\<close>.
\<close>

fun mcs4_pop_loop :: "mcs4 \<Rightarrow> nat \<Rightarrow> nat \<Rightarrow> mcs4" where
  "mcs4_pop_loop cpu i 0 = cpu"
| "mcs4_pop_loop cpu i (Suc n) =
     mcs4_pop_loop (mcs4_set_pc cpu i (mcs4_get_pc cpu (i + 1))) (i + 1) n"

definition mcs4_op_bbl :: "mcs4 \<Rightarrow> mcs4_result" where
  "mcs4_op_bbl cpu =
     (let cpu1 = cpu\<lparr>cpu_tmp := ucast (mcs4_fetch cpu AND 0xF)\<rparr>
      in if cpu_sp cpu1 > 0
         then (if cpu_sp cpu1 > 3 then Inl (Pc_Overrun (unat (cpu_sp cpu1)))
               else
                 let cpu2 = mcs4_pop_loop cpu1 0 (unat (cpu_sp cpu1));
                     cpu3 = mcs4_set_pc cpu2 (unat (cpu_sp cpu2)) 0;
                     cpu4 = cpu3\<lparr>cpu_sp := cpu_sp cpu3 - 1\<rparr>
                 in Inr (cpu4\<lparr>cpu_a := cpu_tmp cpu4\<rparr>))
         else Inr (mcs4_inc_pc cpu1))"

definition mcs4_op_ldm :: "mcs4 \<Rightarrow> mcs4" where
  "mcs4_op_ldm cpu =
     (let cpu1 = cpu\<lparr>cpu_tmp := ucast (mcs4_fetch cpu AND 0xF)\<rparr>
      in mcs4_inc_pc (cpu1\<lparr>cpu_a := cpu_tmp cpu1\<rparr>))"

subsection \<open>I/O instructions\<close>

definition mcs4_op_wrm :: "mcs4 \<Rightarrow> mcs4_result" where
  "mcs4_op_wrm cpu =
     andThen (mcs4_set_ram cpu (unat (cpu_ms cpu AND 0xF)) (ucast (cpu_a cpu)))
       (\<lambda>cpu1. Inr (mcs4_inc_pc cpu1))"

definition mcs4_op_wmp :: "mcs4 \<Rightarrow> mcs4_result" where
  "mcs4_op_wmp cpu =
     (let out = (if cpu_ms cpu AND 0x40 \<noteq> 0 then ucast (cpu_a cpu) else push_bit 4 (ucast (cpu_a cpu)) :: u8);
          write = (\<lambda>bank. poke cpu (2372 + unat (bank OR drop_bit 7 (cpu_ms cpu))) out)
      in andThen
           (if cpu_cmram cpu = 1 then write 0
            else if cpu_cmram cpu = 2 then write 0x2
            else if cpu_cmram cpu = 4 then write 0x4
            else if cpu_cmram cpu = 3 then write 0x6
            else Inr cpu)
           (\<lambda>cpu1. Inr (mcs4_inc_pc cpu1)))"

text \<open>\<open>promio[tmp / 2]\<close> is at most offset 7 of a four-byte array, still inside the structure.\<close>

definition mcs4_op_wrr :: "mcs4 \<Rightarrow> mcs4" where
  "mcs4_op_wrr cpu =
     (let cpu1 = cpu\<lparr>cpu_tmp := ucast (drop_bit 8 (mcs4_get_pc cpu 0))\<rparr>;
          off = 2048 + unat (cpu_tmp cpu1) div 2;
          cpu2 = (if cpu_tmp cpu1 AND 1 \<noteq> 0
                  then let s = set_byte cpu1 off (byte_at cpu1 off AND 0x0F)
                       in set_byte s off (byte_at s off OR push_bit 4 (ucast (cpu_a cpu1)))
                  else let s = set_byte cpu1 off (byte_at cpu1 off AND 0xF0)
                       in set_byte s off (byte_at s off OR ucast (cpu_a cpu1)));
          cpu3 = cpu2\<lparr>cpu_printed := cpu_printed cpu2 @ [map (\<lambda>i. cpu_promio cpu2 ! i) [0..<4]]\<rparr>
      in mcs4_inc_pc cpu3)"

definition mcs4_op_wr :: "mcs4 \<Rightarrow> mcs4_result" where
  "mcs4_op_wr cpu =
     (let cpu1 = cpu\<lparr>cpu_tmp := ucast (mcs4_fetch cpu AND 0x3)\<rparr>
      in andThen (mcs4_set_ram cpu1 (0xF + unat (cpu_tmp cpu1)) (ucast (cpu_a cpu1)))
           (\<lambda>cpu2. Inr (mcs4_inc_pc cpu2)))"

definition mcs4_op_sbm :: "mcs4 \<Rightarrow> mcs4_result" where
  "mcs4_op_sbm cpu =
     (let cpu1 = cpu\<lparr>cpu_tmp := cpu_a cpu\<rparr>
      in andThen (mcs4_get_ram cpu1 (unat (cpu_ms cpu1 AND 0xF)))
           (\<lambda>m. let cpu2 = cpu1\<lparr>cpu_a := ucast (ucast (cpu_a cpu1) + (NOT (ucast m :: u32) + mcs4_not_c cpu1))\<rparr>;
                    cpu3 = (if cpu_tmp cpu2 > cpu_a cpu2 then cpu2\<lparr>cpu_c := 1\<rparr>
                            else if cpu_tmp cpu2 = cpu_a cpu2 \<and> mcs4_not_c cpu2 \<noteq> 0 then cpu2\<lparr>cpu_c := 1\<rparr>
                            else cpu2\<lparr>cpu_c := 0\<rparr>)
                in Inr (mcs4_inc_pc cpu3)))"

definition mcs4_op_rdm :: "mcs4 \<Rightarrow> mcs4_result" where
  "mcs4_op_rdm cpu =
     andThen (mcs4_get_ram cpu (unat (cpu_ms cpu AND 0xF)))
       (\<lambda>m. Inr (mcs4_inc_pc (cpu\<lparr>cpu_a := ucast m\<rparr>)))"

definition mcs4_op_rdr :: "mcs4 \<Rightarrow> mcs4" where
  "mcs4_op_rdr cpu =
     (let cpu1 = cpu\<lparr>cpu_tmp := ucast (drop_bit 8 (mcs4_get_pc cpu 0))\<rparr>;
          b = byte_at cpu1 (2048 + unat (cpu_tmp cpu1) div 2);
          cpu2 = (if cpu_tmp cpu1 AND 1 \<noteq> 0 then cpu1\<lparr>cpu_a := ucast (hi_nib b)\<rparr>
                  else cpu1\<lparr>cpu_a := ucast (lo_nib b)\<rparr>)
      in mcs4_inc_pc cpu2)"

definition mcs4_op_adm :: "mcs4 \<Rightarrow> mcs4_result" where
  "mcs4_op_adm cpu =
     (let cpu1 = cpu\<lparr>cpu_tmp := cpu_a cpu\<rparr>
      in andThen (mcs4_get_ram cpu1 (unat (cpu_ms cpu1 AND 0xF)))
           (\<lambda>m. let cpu2 = cpu1\<lparr>cpu_a := cpu_a cpu1 + (ucast m + ucast (cpu_c cpu1))\<rparr>;
                    cpu3 = (if cpu_tmp cpu2 > cpu_a cpu2 then cpu2\<lparr>cpu_c := 1\<rparr>
                            else if cpu_tmp cpu2 = cpu_a cpu2 \<and> cpu_c cpu2 \<noteq> 0 then cpu2\<lparr>cpu_c := 1\<rparr>
                            else cpu2\<lparr>cpu_c := 0\<rparr>)
                in Inr (mcs4_inc_pc cpu3)))"

definition mcs4_op_rd :: "mcs4 \<Rightarrow> mcs4_result" where
  "mcs4_op_rd cpu =
     (let cpu1 = cpu\<lparr>cpu_tmp := ucast (mcs4_fetch cpu AND 0x3)\<rparr>
      in andThen (mcs4_get_ram cpu1 (0xF + unat (cpu_tmp cpu1)))
           (\<lambda>m. Inr (mcs4_inc_pc (cpu1\<lparr>cpu_a := ucast m\<rparr>))))"

subsection \<open>Accumulator instructions\<close>

definition mcs4_op_clb :: "mcs4 \<Rightarrow> mcs4" where
  "mcs4_op_clb cpu = mcs4_inc_pc (cpu\<lparr>cpu_a := 0, cpu_c := 0\<rparr>)"

definition mcs4_op_clc :: "mcs4 \<Rightarrow> mcs4" where
  "mcs4_op_clc cpu = mcs4_inc_pc (cpu\<lparr>cpu_c := 0\<rparr>)"

definition mcs4_op_iac :: "mcs4 \<Rightarrow> mcs4" where
  "mcs4_op_iac cpu =
     (let cpu1 = cpu\<lparr>cpu_tmp := cpu_a cpu\<rparr>;
          cpu2 = cpu1\<lparr>cpu_a := cpu_a cpu1 + 1\<rparr>
      in mcs4_inc_pc (if cpu_tmp cpu2 > cpu_a cpu2 then cpu2\<lparr>cpu_c := 1\<rparr> else cpu2\<lparr>cpu_c := 0\<rparr>))"

definition mcs4_op_cmc :: "mcs4 \<Rightarrow> mcs4" where
  "mcs4_op_cmc cpu = mcs4_inc_pc (cpu\<lparr>cpu_c := (if cpu_c cpu = 1 then 0 else 1)\<rparr>)"

definition mcs4_op_cma :: "mcs4 \<Rightarrow> mcs4" where
  "mcs4_op_cma cpu = mcs4_inc_pc (cpu\<lparr>cpu_a := NOT (cpu_a cpu)\<rparr>)"

definition mcs4_op_ral :: "mcs4 \<Rightarrow> mcs4" where
  "mcs4_op_ral cpu =
     (let cpu1 = cpu\<lparr>cpu_tmp := cpu_a cpu\<rparr>;
          cpu2 = cpu1\<lparr>cpu_a := push_bit 1 (cpu_a cpu1) OR ucast (cpu_c cpu1)\<rparr>
      in mcs4_inc_pc (if cpu_tmp cpu2 \<ge> cpu_a cpu2 \<and> cpu_c cpu2 \<noteq> 0
                      then cpu2\<lparr>cpu_c := 1\<rparr> else cpu2\<lparr>cpu_c := 0\<rparr>))"

definition mcs4_op_rar :: "mcs4 \<Rightarrow> mcs4" where
  "mcs4_op_rar cpu =
     (let cpu1 = cpu\<lparr>cpu_tmp := cpu_a cpu AND 1\<rparr>;
          cpu2 = cpu1\<lparr>cpu_a := drop_bit 1 (cpu_a cpu1) OR push_bit 3 (ucast (cpu_c cpu1))\<rparr>
      in mcs4_inc_pc (cpu2\<lparr>cpu_c := ucast (cpu_tmp cpu2)\<rparr>))"

definition mcs4_op_tcc :: "mcs4 \<Rightarrow> mcs4" where
  "mcs4_op_tcc cpu = mcs4_inc_pc (cpu\<lparr>cpu_a := ucast (cpu_c cpu AND 1), cpu_c := 0\<rparr>)"

definition mcs4_op_dac :: "mcs4 \<Rightarrow> mcs4" where
  "mcs4_op_dac cpu =
     (let cpu1 = cpu\<lparr>cpu_tmp := cpu_a cpu\<rparr>;
          cpu2 = cpu1\<lparr>cpu_a := cpu_a cpu1 + 0xF\<rparr>
      in mcs4_inc_pc (if cpu_a cpu2 > cpu_tmp cpu2 then cpu2\<lparr>cpu_c := 0\<rparr> else cpu2\<lparr>cpu_c := 1\<rparr>))"

definition mcs4_op_tcs :: "mcs4 \<Rightarrow> mcs4" where
  "mcs4_op_tcs cpu = mcs4_inc_pc (cpu\<lparr>cpu_a := 9 + ucast (cpu_c cpu), cpu_c := 0\<rparr>)"

definition mcs4_op_stc :: "mcs4 \<Rightarrow> mcs4" where
  "mcs4_op_stc cpu = mcs4_inc_pc (cpu\<lparr>cpu_c := 1\<rparr>)"

definition mcs4_op_daa :: "mcs4 \<Rightarrow> mcs4" where
  "mcs4_op_daa cpu =
     (let cpu1 = cpu\<lparr>cpu_tmp := cpu_a cpu\<rparr>;
          cpu2 = (if cpu_a cpu1 > 9 \<or> cpu_c cpu1 \<noteq> 0 then cpu1\<lparr>cpu_a := cpu_a cpu1 + 6\<rparr> else cpu1)
      in mcs4_inc_pc (if cpu_tmp cpu2 > cpu_a cpu2 then cpu2\<lparr>cpu_c := 1\<rparr> else cpu2\<lparr>cpu_c := 0\<rparr>))"

definition mcs4_op_kbp :: "mcs4 \<Rightarrow> mcs4" where
  "mcs4_op_kbp cpu =
     mcs4_inc_pc (cpu\<lparr>cpu_a :=
       (if cpu_a cpu = 0x0 then 0x0 else if cpu_a cpu = 0x1 then 0x1
        else if cpu_a cpu = 0x2 then 0x2 else if cpu_a cpu = 0x4 then 0x3
        else if cpu_a cpu = 0x8 then 0x4 else 0xF)\<rparr>)"

definition mcs4_op_dcl :: "mcs4 \<Rightarrow> mcs4" where
  "mcs4_op_dcl cpu =
     (let k = cpu_a cpu AND 0x7 in
      mcs4_inc_pc (cpu\<lparr>cpu_cmram :=
        (if k = 0x0 then 1 else if k = 0x1 then 2 else if k = 0x2 then 4 else if k = 0x3 then 3
         else if k = 0x4 then 8 else if k = 0x5 then 10 else if k = 0x6 then 12 else 14)\<rparr>))"

definition mcs4_op_inv :: "mcs4 \<Rightarrow> mcs4" where
  "mcs4_op_inv cpu = mcs4_inc_pc cpu"

end
