(* ===== verification/Mcs4_Frame.thy ===== *)
theory Mcs4_Frame
  imports Mcs4_Ops
begin

text \<open>
  What the helpers and the handlers leave alone: the collection \<open>mcs4_frame\<close> holds one equation
  per unchanged member, so that the proofs about a handler only see what it writes.
\<close>

named_theorems mcs4_frame "members a helper leaves unchanged"

lemma mcs4_set_pc_frame [mcs4_frame]:
  "cpu_prom (mcs4_set_pc cpu i v) = cpu_prom cpu"
  "cpu_promio (mcs4_set_pc cpu i v) = cpu_promio cpu"
  "cpu_ram (mcs4_set_pc cpu i v) = cpu_ram cpu"
  "cpu_ramout (mcs4_set_pc cpu i v) = cpu_ramout cpu"
  "cpu_r (mcs4_set_pc cpu i v) = cpu_r cpu"
  "cpu_ms (mcs4_set_pc cpu i v) = cpu_ms cpu"
  "cpu_cmram (mcs4_set_pc cpu i v) = cpu_cmram cpu"
  "cpu_sp (mcs4_set_pc cpu i v) = cpu_sp cpu"
  "cpu_tmp (mcs4_set_pc cpu i v) = cpu_tmp cpu"
  "cpu_a (mcs4_set_pc cpu i v) = cpu_a cpu"
  "cpu_c (mcs4_set_pc cpu i v) = cpu_c cpu"
  "cpu_t (mcs4_set_pc cpu i v) = cpu_t cpu"
  "cpu_unused (mcs4_set_pc cpu i v) = cpu_unused cpu"
  "cpu_cycles (mcs4_set_pc cpu i v) = cpu_cycles cpu"
  "cpu_printed (mcs4_set_pc cpu i v) = cpu_printed cpu"
  by (simp_all add: mcs4_set_pc_def Let_def)

lemma mcs4_set_r_frame [mcs4_frame]:
  "cpu_prom (mcs4_set_r cpu i v) = cpu_prom cpu"
  "cpu_promio (mcs4_set_r cpu i v) = cpu_promio cpu"
  "cpu_ram (mcs4_set_r cpu i v) = cpu_ram cpu"
  "cpu_ramout (mcs4_set_r cpu i v) = cpu_ramout cpu"
  "cpu_ms (mcs4_set_r cpu i v) = cpu_ms cpu"
  "cpu_cmram (mcs4_set_r cpu i v) = cpu_cmram cpu"
  "cpu_sp (mcs4_set_r cpu i v) = cpu_sp cpu"
  "cpu_tmp (mcs4_set_r cpu i v) = cpu_tmp cpu"
  "cpu_a (mcs4_set_r cpu i v) = cpu_a cpu"
  "cpu_c (mcs4_set_r cpu i v) = cpu_c cpu"
  "cpu_t (mcs4_set_r cpu i v) = cpu_t cpu"
  "cpu_unused (mcs4_set_r cpu i v) = cpu_unused cpu"
  "cpu_pc (mcs4_set_r cpu i v) = cpu_pc cpu"
  "cpu_cycles (mcs4_set_r cpu i v) = cpu_cycles cpu"
  "cpu_printed (mcs4_set_r cpu i v) = cpu_printed cpu"
  by (simp_all add: mcs4_set_r_def Let_def)

lemma mcs4_set_reg_pair_frame [mcs4_frame]:
  "cpu_prom (mcs4_set_reg_pair cpu p v) = cpu_prom cpu"
  "cpu_promio (mcs4_set_reg_pair cpu p v) = cpu_promio cpu"
  "cpu_ram (mcs4_set_reg_pair cpu p v) = cpu_ram cpu"
  "cpu_ramout (mcs4_set_reg_pair cpu p v) = cpu_ramout cpu"
  "cpu_ms (mcs4_set_reg_pair cpu p v) = cpu_ms cpu"
  "cpu_cmram (mcs4_set_reg_pair cpu p v) = cpu_cmram cpu"
  "cpu_sp (mcs4_set_reg_pair cpu p v) = cpu_sp cpu"
  "cpu_tmp (mcs4_set_reg_pair cpu p v) = cpu_tmp cpu"
  "cpu_a (mcs4_set_reg_pair cpu p v) = cpu_a cpu"
  "cpu_c (mcs4_set_reg_pair cpu p v) = cpu_c cpu"
  "cpu_t (mcs4_set_reg_pair cpu p v) = cpu_t cpu"
  "cpu_unused (mcs4_set_reg_pair cpu p v) = cpu_unused cpu"
  "cpu_pc (mcs4_set_reg_pair cpu p v) = cpu_pc cpu"
  "cpu_cycles (mcs4_set_reg_pair cpu p v) = cpu_cycles cpu"
  "cpu_printed (mcs4_set_reg_pair cpu p v) = cpu_printed cpu"
  by (simp_all add: mcs4_set_reg_pair_def Let_def mcs4_set_r_frame)

lemma mcs4_inc_pc_frame [mcs4_frame]:
  "cpu_prom (mcs4_inc_pc cpu) = cpu_prom cpu"
  "cpu_promio (mcs4_inc_pc cpu) = cpu_promio cpu"
  "cpu_ram (mcs4_inc_pc cpu) = cpu_ram cpu"
  "cpu_ramout (mcs4_inc_pc cpu) = cpu_ramout cpu"
  "cpu_r (mcs4_inc_pc cpu) = cpu_r cpu"
  "cpu_ms (mcs4_inc_pc cpu) = cpu_ms cpu"
  "cpu_cmram (mcs4_inc_pc cpu) = cpu_cmram cpu"
  "cpu_sp (mcs4_inc_pc cpu) = cpu_sp cpu"
  "cpu_tmp (mcs4_inc_pc cpu) = cpu_tmp cpu"
  "cpu_a (mcs4_inc_pc cpu) = cpu_a cpu"
  "cpu_c (mcs4_inc_pc cpu) = cpu_c cpu"
  "cpu_t (mcs4_inc_pc cpu) = cpu_t cpu"
  "cpu_unused (mcs4_inc_pc cpu) = cpu_unused cpu"
  "cpu_printed (mcs4_inc_pc cpu) = cpu_printed cpu"
  by (simp_all add: mcs4_inc_pc_def Let_def mcs4_set_pc_frame)

lemma mcs4_push_loop_frame [mcs4_frame]:
  "cpu_prom (mcs4_push_loop cpu n) = cpu_prom cpu"
  "cpu_promio (mcs4_push_loop cpu n) = cpu_promio cpu"
  "cpu_ram (mcs4_push_loop cpu n) = cpu_ram cpu"
  "cpu_ramout (mcs4_push_loop cpu n) = cpu_ramout cpu"
  "cpu_r (mcs4_push_loop cpu n) = cpu_r cpu"
  "cpu_ms (mcs4_push_loop cpu n) = cpu_ms cpu"
  "cpu_cmram (mcs4_push_loop cpu n) = cpu_cmram cpu"
  "cpu_sp (mcs4_push_loop cpu n) = cpu_sp cpu"
  "cpu_tmp (mcs4_push_loop cpu n) = cpu_tmp cpu"
  "cpu_a (mcs4_push_loop cpu n) = cpu_a cpu"
  "cpu_c (mcs4_push_loop cpu n) = cpu_c cpu"
  "cpu_t (mcs4_push_loop cpu n) = cpu_t cpu"
  "cpu_unused (mcs4_push_loop cpu n) = cpu_unused cpu"
  "cpu_cycles (mcs4_push_loop cpu n) = cpu_cycles cpu"
  "cpu_printed (mcs4_push_loop cpu n) = cpu_printed cpu"
  by (induction n arbitrary: cpu) (simp_all add: mcs4_set_pc_frame)

lemma mcs4_pop_loop_frame [mcs4_frame]:
  "cpu_prom (mcs4_pop_loop cpu i n) = cpu_prom cpu"
  "cpu_promio (mcs4_pop_loop cpu i n) = cpu_promio cpu"
  "cpu_ram (mcs4_pop_loop cpu i n) = cpu_ram cpu"
  "cpu_ramout (mcs4_pop_loop cpu i n) = cpu_ramout cpu"
  "cpu_r (mcs4_pop_loop cpu i n) = cpu_r cpu"
  "cpu_ms (mcs4_pop_loop cpu i n) = cpu_ms cpu"
  "cpu_cmram (mcs4_pop_loop cpu i n) = cpu_cmram cpu"
  "cpu_sp (mcs4_pop_loop cpu i n) = cpu_sp cpu"
  "cpu_tmp (mcs4_pop_loop cpu i n) = cpu_tmp cpu"
  "cpu_a (mcs4_pop_loop cpu i n) = cpu_a cpu"
  "cpu_c (mcs4_pop_loop cpu i n) = cpu_c cpu"
  "cpu_t (mcs4_pop_loop cpu i n) = cpu_t cpu"
  "cpu_unused (mcs4_pop_loop cpu i n) = cpu_unused cpu"
  "cpu_cycles (mcs4_pop_loop cpu i n) = cpu_cycles cpu"
  "cpu_printed (mcs4_pop_loop cpu i n) = cpu_printed cpu"
  by (induction n arbitrary: cpu i) (simp_all add: mcs4_set_pc_frame)

text \<open>The two loops over the return stack are the shifts of the counter file.\<close>

lemma mcs4_push_loop_shift: "mcs4_push_loop cpu n = pcs.shift_up cpu n"
  by (induction n arbitrary: cpu) simp_all

lemma mcs4_pop_loop_shift: "mcs4_pop_loop cpu i n = pcs.shift_down cpu i n"
  by (induction n arbitrary: cpu i) simp_all

lemma mcs4_inc_pc_cycles: "cpu_cycles (mcs4_inc_pc cpu) = cpu_cycles cpu + 1"
  by (simp add: mcs4_inc_pc_def Let_def mcs4_set_pc_frame)

lemma mcs4_shape_cong:
  "length (cpu_prom s) = length (cpu_prom cpu) \<Longrightarrow> length (cpu_promio s) = length (cpu_promio cpu) \<Longrightarrow>
   length (cpu_ram s) = length (cpu_ram cpu) \<Longrightarrow> length (cpu_ramout s) = length (cpu_ramout cpu) \<Longrightarrow>
   length (cpu_r s) = length (cpu_r cpu) \<Longrightarrow> length (cpu_pc s) = length (cpu_pc cpu) \<Longrightarrow>
   mcs4_shape s = mcs4_shape cpu"
  by (simp add: mcs4_shape_def)

lemma mcs4_lengths [mcs4_frame]:
  "length (cpu_pc (mcs4_set_pc cpu i v)) = length (cpu_pc cpu)"
  "length (cpu_r (mcs4_set_r cpu i w)) = length (cpu_r cpu)"
  "length (cpu_r (mcs4_set_reg_pair cpu i w)) = length (cpu_r cpu)"
  "length (cpu_pc (mcs4_inc_pc cpu)) = length (cpu_pc cpu)"
  by (simp_all add: mcs4_set_pc_def mcs4_set_r_def mcs4_set_reg_pair_def mcs4_inc_pc_def Let_def)

lemma mcs4_loop_lengths [mcs4_frame]:
  "length (cpu_pc (mcs4_push_loop cpu n)) = length (cpu_pc cpu)"
  "length (cpu_pc (mcs4_pop_loop cpu i n)) = length (cpu_pc cpu)"
  by (induction n arbitrary: cpu i) (simp_all add: mcs4_frame)

text \<open>The shape is a matter of lengths, which no helper and no member update of a handler changes.\<close>

lemma mcs4_shape_frame [mcs4_frame]:
  "mcs4_shape (mcs4_set_pc cpu i v) = mcs4_shape cpu"
  "mcs4_shape (mcs4_set_r cpu i w) = mcs4_shape cpu"
  "mcs4_shape (mcs4_set_reg_pair cpu i w) = mcs4_shape cpu"
  "mcs4_shape (mcs4_inc_pc cpu) = mcs4_shape cpu"
  "mcs4_shape (mcs4_push_loop cpu n) = mcs4_shape cpu"
  "mcs4_shape (mcs4_pop_loop cpu i n) = mcs4_shape cpu"
  "mcs4_shape (cpu\<lparr>cpu_ms := ms\<rparr>) = mcs4_shape cpu"
  "mcs4_shape (cpu\<lparr>cpu_cmram := x\<rparr>) = mcs4_shape cpu"
  "mcs4_shape (cpu\<lparr>cpu_sp := x\<rparr>) = mcs4_shape cpu"
  "mcs4_shape (cpu\<lparr>cpu_tmp := x\<rparr>) = mcs4_shape cpu"
  "mcs4_shape (cpu\<lparr>cpu_a := x\<rparr>) = mcs4_shape cpu"
  "mcs4_shape (cpu\<lparr>cpu_c := y\<rparr>) = mcs4_shape cpu"
  "mcs4_shape (cpu\<lparr>cpu_cycles := z\<rparr>) = mcs4_shape cpu"
  "mcs4_shape (cpu\<lparr>cpu_printed := p\<rparr>) = mcs4_shape cpu"
  by (simp_all add: mcs4_shape_def mcs4_frame)

end
