(* ===== verification/Mcs4_Run.thy ===== *)
theory Mcs4_Run
  imports Mcs4_Frame
begin

unbundle bit_operations_syntax

text \<open>
  Instruction dispatch, the step function and the service loop (\<open>mcs4_step\<close> in
  \<open>src/faggin/mcs4.c\<close>, \<open>main\<close> in \<open>src/faggin/faggin.c\<close>), the decoder that the comment table of
  \<open>mcs4.c\<close> prescribes, and the invariant \<open>mcs4_safe\<close> under which no access leaves its array.
\<close>

subsection \<open>Dispatch\<close>

datatype mcs4_op = NOP | INV | JCN | FIM | SRC | FIN | JIN | JUN | JMS | INC | ISZ | ADD | SUB | LD
  | XCH | BBL | LDM | WRM | WMP | WRR | WR | SBM | RDM | RDR | ADM | RD | CLB | CLC | IAC | CMC
  | CMA | RAL | RAR | TCC | DAC | TCS | STC | DAA | KBP | DCL

definition mcs4_ftable :: "mcs4_op list" where
  "mcs4_ftable =
     NOP # replicate 15 INV @
     replicate 16 JCN @
     concat (replicate 8 [FIM, SRC]) @
     concat (replicate 8 [FIN, JIN]) @
     replicate 16 JUN @ replicate 16 JMS @ replicate 16 INC @ replicate 16 ISZ @
     replicate 16 ADD @ replicate 16 SUB @ replicate 16 LD @ replicate 16 XCH @
     replicate 16 BBL @ replicate 16 LDM @
     [WRM, WMP, WRR, INV, WR, WR, WR, WR, SBM, RDM, RDR, ADM, RD, RD, RD, RD,
      CLB, CLC, IAC, CMC, CMA, RAL, RAR, TCC, DAC, TCS, STC, DAA, KBP, DCL, INV, INV]"

fun mcs4_exec :: "mcs4_op \<Rightarrow> mcs4 \<Rightarrow> mcs4_result" where
  "mcs4_exec NOP cpu = Inr (mcs4_op_nop cpu)"
| "mcs4_exec INV cpu = Inr (mcs4_op_inv cpu)"
| "mcs4_exec JCN cpu = Inr (mcs4_op_jcn cpu)"
| "mcs4_exec FIM cpu = Inr (mcs4_op_fim cpu)"
| "mcs4_exec SRC cpu = Inr (mcs4_op_src cpu)"
| "mcs4_exec FIN cpu = Inr (mcs4_op_fin cpu)"
| "mcs4_exec JIN cpu = Inr (mcs4_op_jin cpu)"
| "mcs4_exec JUN cpu = Inr (mcs4_op_jun cpu)"
| "mcs4_exec JMS cpu = Inr (mcs4_op_jms cpu)"
| "mcs4_exec INC cpu = Inr (mcs4_op_inc cpu)"
| "mcs4_exec ISZ cpu = Inr (mcs4_op_isz cpu)"
| "mcs4_exec ADD cpu = Inr (mcs4_op_add cpu)"
| "mcs4_exec SUB cpu = Inr (mcs4_op_sub cpu)"
| "mcs4_exec LD cpu = Inr (mcs4_op_ld cpu)"
| "mcs4_exec XCH cpu = Inr (mcs4_op_xch cpu)"
| "mcs4_exec BBL cpu = mcs4_op_bbl cpu"
| "mcs4_exec LDM cpu = Inr (mcs4_op_ldm cpu)"
| "mcs4_exec WRM cpu = mcs4_op_wrm cpu"
| "mcs4_exec WMP cpu = mcs4_op_wmp cpu"
| "mcs4_exec WRR cpu = Inr (mcs4_op_wrr cpu)"
| "mcs4_exec WR cpu = mcs4_op_wr cpu"
| "mcs4_exec SBM cpu = mcs4_op_sbm cpu"
| "mcs4_exec RDM cpu = mcs4_op_rdm cpu"
| "mcs4_exec RDR cpu = Inr (mcs4_op_rdr cpu)"
| "mcs4_exec ADM cpu = mcs4_op_adm cpu"
| "mcs4_exec RD cpu = mcs4_op_rd cpu"
| "mcs4_exec CLB cpu = Inr (mcs4_op_clb cpu)"
| "mcs4_exec CLC cpu = Inr (mcs4_op_clc cpu)"
| "mcs4_exec IAC cpu = Inr (mcs4_op_iac cpu)"
| "mcs4_exec CMC cpu = Inr (mcs4_op_cmc cpu)"
| "mcs4_exec CMA cpu = Inr (mcs4_op_cma cpu)"
| "mcs4_exec RAL cpu = Inr (mcs4_op_ral cpu)"
| "mcs4_exec RAR cpu = Inr (mcs4_op_rar cpu)"
| "mcs4_exec TCC cpu = Inr (mcs4_op_tcc cpu)"
| "mcs4_exec DAC cpu = Inr (mcs4_op_dac cpu)"
| "mcs4_exec TCS cpu = Inr (mcs4_op_tcs cpu)"
| "mcs4_exec STC cpu = Inr (mcs4_op_stc cpu)"
| "mcs4_exec DAA cpu = Inr (mcs4_op_daa cpu)"
| "mcs4_exec KBP cpu = Inr (mcs4_op_kbp cpu)"
| "mcs4_exec DCL cpu = Inr (mcs4_op_dcl cpu)"

definition mcs4_opcode :: "mcs4 \<Rightarrow> mcs4_op" where
  "mcs4_opcode cpu = mcs4_ftable ! unat (mcs4_fetch cpu)"

definition mcs4_step :: "mcs4 \<Rightarrow> mcs4_result" where
  "mcs4_step cpu = mcs4_exec (mcs4_opcode cpu) cpu"

definition MAXCYCLES :: u32 where "MAXCYCLES = 4096"

text \<open>The loop of \<open>main\<close>, for at most \<open>fuel\<close> turns: \<open>None\<close> is "still running".\<close>

definition faggin_done :: "mcs4 \<Rightarrow> bool" where
  "faggin_done cpu \<longleftrightarrow> \<not> cpu_cycles cpu < MAXCYCLES"

definition faggin_loop :: "nat \<Rightarrow> mcs4 \<Rightarrow> mcs4_result option" where
  "faggin_loop fuel cpu = run_fuel faggin_done mcs4_step fuel cpu"

text \<open>
  \<open>main\<close>: the program buffer is zeroed, \<open>ctf_readn\<close> fills it from the input (its result is
  ignored), the structure \<open>garbage\<close> is initialised and the loop runs.
\<close>

definition faggin_main :: "nat \<Rightarrow> mcs4 \<Rightarrow> u8 list \<Rightarrow> mcs4_result option" where
  "faggin_main fuel garbage input =
     (let prom = take 2048 input @ replicate (2048 - length input) 0
      in faggin_loop fuel (mcs4_init garbage prom))"

subsection \<open>The instruction table of the comment\<close>

definition mcs4_decode :: "u8 \<Rightarrow> mcs4_op" where
  "mcs4_decode b =
     (let opr = unat (hi_nib b); opa = unat (lo_nib b) in
      if opr = 0 then (if opa = 0 then NOP else INV)
      else if opr = 1 then JCN
      else if opr = 2 then (if even opa then FIM else SRC)
      else if opr = 3 then (if even opa then FIN else JIN)
      else if opr < 14 then [JUN, JMS, INC, ISZ, ADD, SUB, LD, XCH, BBL, LDM] ! (opr - 4)
      else if opr = 14 then
        (if opa = 0 then WRM else if opa = 1 then WMP else if opa = 2 then WRR else if opa = 3 then INV
         else if opa < 8 then WR else if opa = 8 then SBM else if opa = 9 then RDM
         else if opa = 10 then RDR else if opa = 11 then ADM else RD)
      else (if opa < 14 then [CLB, CLC, IAC, CMC, CMA, RAL, RAR, TCC, DAC, TCS, STC, DAA, KBP, DCL] ! opa
            else INV))"

lemma mcs4_decode_all: "map (\<lambda>n. mcs4_decode (of_nat n)) [0..<256] = mcs4_ftable"
  by code_simp

lemma mcs4_ftable_nth: "mcs4_ftable ! unat b = mcs4_decode b"
proof -
  have "mcs4_ftable ! unat b = map (\<lambda>n. mcs4_decode (of_nat n)) [0..<256] ! unat b"
    by (simp only: mcs4_decode_all)
  also have "\<dots> = mcs4_decode b" by (subst nth_map) (simp_all del: upt_Suc)
  finally show ?thesis .
qed

subsection \<open>The invariant\<close>

definition mcs4_safe :: "mcs4 \<Rightarrow> bool" where
  "mcs4_safe cpu \<longleftrightarrow> mcs4_shape cpu \<and> cpu_ms cpu < 256 \<and> cpu_sp cpu \<le> 3 \<and>
     cpu_cmram cpu \<noteq> 3 \<and> cpu_cmram cpu \<noteq> 4"

text \<open>The one instruction that leaves it: DCL selecting one of the banks 2 and 3.\<close>

definition mcs4_selects_high_bank :: "mcs4 \<Rightarrow> bool" where
  "mcs4_selects_high_bank cpu \<longleftrightarrow>
     mcs4_opcode cpu = DCL \<and> (cpu_a cpu AND 0x7 = 2 \<or> cpu_a cpu AND 0x7 = 3)"

lemma u8_in_u16: "(ucast (b :: u8) :: u16) < 256"
  by (simp add: word_less_nat_alt)

lemma and_3_le: "(x :: u4) AND 3 \<le> 3"
  by (rule word_and_le1)

lemma mcs4_safe_pure:
  assumes "mcs4_safe cpu"
  shows "mcs4_safe (mcs4_op_nop cpu)" "mcs4_safe (mcs4_op_inv cpu)" "mcs4_safe (mcs4_op_jcn cpu)"
    "mcs4_safe (mcs4_op_fim cpu)" "mcs4_safe (mcs4_op_src cpu)" "mcs4_safe (mcs4_op_fin cpu)"
    "mcs4_safe (mcs4_op_jin cpu)" "mcs4_safe (mcs4_op_jun cpu)" "mcs4_safe (mcs4_op_jms cpu)"
    "mcs4_safe (mcs4_op_inc cpu)" "mcs4_safe (mcs4_op_isz cpu)" "mcs4_safe (mcs4_op_add cpu)"
    "mcs4_safe (mcs4_op_sub cpu)" "mcs4_safe (mcs4_op_ld cpu)" "mcs4_safe (mcs4_op_xch cpu)"
    "mcs4_safe (mcs4_op_ldm cpu)" "mcs4_safe (mcs4_op_rdr cpu)" "mcs4_safe (mcs4_op_clb cpu)"
    "mcs4_safe (mcs4_op_clc cpu)" "mcs4_safe (mcs4_op_iac cpu)" "mcs4_safe (mcs4_op_cmc cpu)"
    "mcs4_safe (mcs4_op_cma cpu)" "mcs4_safe (mcs4_op_ral cpu)" "mcs4_safe (mcs4_op_rar cpu)"
    "mcs4_safe (mcs4_op_tcc cpu)" "mcs4_safe (mcs4_op_dac cpu)" "mcs4_safe (mcs4_op_tcs cpu)"
    "mcs4_safe (mcs4_op_stc cpu)" "mcs4_safe (mcs4_op_daa cpu)" "mcs4_safe (mcs4_op_kbp cpu)"
  using assms
  by (simp_all add: mcs4_safe_def mcs4_op_nop_def mcs4_op_inv_def mcs4_op_jcn_def mcs4_op_fim_def
      mcs4_op_src_def mcs4_op_fin_def mcs4_op_jin_def mcs4_op_jun_def mcs4_op_jms_def mcs4_op_inc_def
      mcs4_op_isz_def mcs4_op_add_def mcs4_op_sub_def mcs4_op_ld_def mcs4_op_xch_def mcs4_op_ldm_def
      mcs4_op_rdr_def mcs4_op_clb_def mcs4_op_clc_def mcs4_op_iac_def mcs4_op_cmc_def mcs4_op_cma_def
      mcs4_op_ral_def mcs4_op_rar_def mcs4_op_tcc_def mcs4_op_dac_def mcs4_op_tcs_def mcs4_op_stc_def
      mcs4_op_daa_def mcs4_op_kbp_def Let_def mcs4_frame u8_in_u16 and_3_le)


subsection \<open>RAM in bounds\<close>

lemma mcs4_ram_off_less:
  assumes "mcs4_safe cpu" and "bank = 0 \<or> bank = 4" and "loc < 10"
  shows "mcs4_ram_off cpu bank loc < 320"
proof -
  have ms: "cpu_ms cpu < 256" using assms by (simp add: mcs4_safe_def)
  define hi where "hi = drop_bit 6 (cpu_ms cpu)"
  have "unat hi < 4" using ms
    by (simp add: hi_def drop_bit_eq_div word_less_nat_alt unat_div less_mult_imp_div_less)
  then have "hi = 0 \<or> hi = 1 \<or> hi = 2 \<or> hi = 3"
    by (simp add: word_unat_eq_iff) linarith
  with assms(2) have 1: "unat (bank OR hi) \<le> 7" by auto
  have "drop_bit 4 (cpu_ms cpu AND 0x30) = drop_bit 4 (cpu_ms cpu) AND 3" by simp
  moreover have "unat (drop_bit 4 (cpu_ms cpu) AND 3) \<le> 3"
    using word_and_le1 [of "drop_bit 4 (cpu_ms cpu)" "3 :: u16"]
    by (simp add: word_le_nat_alt)
  ultimately have 2: "unat (drop_bit 4 (cpu_ms cpu AND 0x30)) \<le> 3" by simp
  show ?thesis using 1 2 assms(3) unfolding mcs4_ram_off_def hi_def by linarith
qed

lemma peek_poke_ram:
  assumes "off < 320"
  shows "peek cpu (layout_ram + off) = Inr (cpu_ram cpu ! off)"
    and "poke cpu (layout_ram + off) b = Inr (cpu\<lparr>cpu_ram := (cpu_ram cpu)[off := b]\<rparr>)"
  using assms by (simp_all add: peek_def poke_def layout_ptr_def layout_ram_def byte_at_def set_byte_def)

definition mcs4_bank :: "mcs4 \<Rightarrow> u16" where
  "mcs4_bank cpu = (if cpu_cmram cpu = 2 then 4 else 0)"

lemma mcs4_get_ram_safe:
  assumes "mcs4_safe cpu" and "idx < 20"
  shows "mcs4_get_ram cpu idx =
    (let b = cpu_ram cpu ! mcs4_ram_off cpu (mcs4_bank cpu) (idx div 2)
     in Inr (if odd idx then hi_nib b else lo_nib b))"
proof -
  have "mcs4_ram_off cpu (mcs4_bank cpu) (idx div 2) < 320"
    using assms by (intro mcs4_ram_off_less) (auto simp: mcs4_bank_def)
  then show ?thesis using assms
    by (auto simp: mcs4_get_ram_def Let_def peek_poke_ram mcs4_safe_def mcs4_bank_def)
qed

lemma mcs4_set_ram_safe:
  assumes safe: "mcs4_safe cpu" and idx: "idx < 20"
  shows "mcs4_set_ram cpu idx (ucast v) =
    (if cpu_cmram cpu = 1 \<or> cpu_cmram cpu = 2
     then let off = mcs4_ram_off cpu (mcs4_bank cpu) (idx div 2); b = cpu_ram cpu ! off
          in Inr (cpu\<lparr>cpu_ram := (cpu_ram cpu)[off := (if odd idx then put_hi b (ucast v) else put_lo b (ucast (v :: u4)))]\<rparr>)
     else Inr cpu)"
proof -
  define off where "off = mcs4_ram_off cpu (mcs4_bank cpu) (idx div 2)"
  have off: "off < 320"
    using assms unfolding off_def by (intro mcs4_ram_off_less) (auto simp: mcs4_bank_def)
  have ram: "length (cpu_ram cpu) = 320" using safe by (simp add: mcs4_safe_def mcs4_shape_def)
  have same: "mcs4_ram_off (cpu\<lparr>cpu_ram := x\<rparr>) bank loc = mcs4_ram_off cpu bank loc" for x bank loc
    by (simp add: mcs4_ram_off_def)
  have nib: "b AND 0x0F OR push_bit 4 (ucast v) = put_hi b (ucast v)"
    "b AND 0xF0 OR ucast v = put_lo b (ucast v)" for b
    by (rule bit_word_eqI; auto simp: bit_nibs bit_or_iff bit_and_iff bit_push_bit_iff bit_ucast_iff
        bit_masks8 simp del: bit_numeral_word_iff dest: bit_imp_le_length)+
  show ?thesis
    using safe off ram unfolding off_def
    by (auto simp: mcs4_set_ram_def mcs4_ram_update_def Let_def peek_poke_ram same mcs4_safe_def mcs4_bank_def nib)
qed

text \<open>The addressed register of a selected bank is a store of 20 four-bit characters.\<close>

definition ram_rd :: "mcs4 \<Rightarrow> nat \<Rightarrow> u4" where
  "ram_rd cpu i = ucast (projr (mcs4_get_ram cpu i))"

definition ram_wr :: "mcs4 \<Rightarrow> nat \<Rightarrow> u4 \<Rightarrow> mcs4" where
  "ram_wr cpu i v = projr (mcs4_set_ram cpu i (ucast v))"

definition ram_selected :: "mcs4 \<Rightarrow> bool" where
  "ram_selected cpu \<longleftrightarrow> mcs4_safe cpu \<and> (cpu_cmram cpu = 1 \<or> cpu_cmram cpu = 2)"

lemma ucast_nibs [simp]:
  "ucast (lo_nib b) = (ucast b :: u4)" "ucast (lo_nib (ucast v)) = (v :: u4)" "ucast (ucast v :: u8) = (v :: u4)"
  by (rule bit_word_eqI; auto simp: bit_nibs bit_ucast_iff)+

lemma mcs4_safe_ram_upd: "mcs4_safe cpu \<Longrightarrow> mcs4_safe (cpu\<lparr>cpu_ram := (cpu_ram cpu)[i := b]\<rparr>)"
  by (simp add: mcs4_safe_def mcs4_shape_def)

lemma ram_off_inj: "mcs4_ram_off cpu bank loc = mcs4_ram_off cpu bank loc' \<longleftrightarrow> loc = loc'"
  by (simp add: mcs4_ram_off_def)

interpretation ram: cell_store ram_rd ram_wr "\<lambda>v. v" 20 ram_selected
proof unfold_locales
  fix s :: mcs4 and i :: nat and v :: u4
  assume ok: "ram_selected s" and i: "i < 20"
  then have safe: "mcs4_safe s" and sel: "cpu_cmram s = 1 \<or> cpu_cmram s = 2"
    by (simp_all add: ram_selected_def)
  define off where "off = (\<lambda>k. mcs4_ram_off s (mcs4_bank s) (k div 2))"
  have off: "off k < 320" if "k < 20" for k
    using that safe unfolding off_def by (intro mcs4_ram_off_less) (auto simp: mcs4_bank_def)
  have ram: "length (cpu_ram s) = 320" using safe by (simp add: mcs4_safe_def mcs4_shape_def)
  define b where "b = cpu_ram s ! off i"
  define t where "t = s\<lparr>cpu_ram := (cpu_ram s)[off i := (if odd i then put_hi b (ucast v) else put_lo b (ucast v))]\<rparr>"
  have wr: "ram_wr s i v = t"
    using safe sel i by (simp add: ram_wr_def mcs4_set_ram_safe Let_def off_def t_def b_def)
  have t: "mcs4_safe t" unfolding t_def using safe by (rule mcs4_safe_ram_upd)
  have [simp]: "mcs4_bank t = mcs4_bank s" "mcs4_ram_off t bank l = mcs4_ram_off s bank l" for bank l
    by (simp_all add: t_def mcs4_bank_def mcs4_ram_off_def)
  have rd_t: "ram_rd t k = ucast (if odd k then hi_nib (cpu_ram t ! off k) else lo_nib (cpu_ram t ! off k))"
    if "k < 20" for k
    using t that by (simp add: ram_rd_def mcs4_get_ram_safe Let_def off_def)
  have rd_s: "ram_rd s k = ucast (if odd k then hi_nib (cpu_ram s ! off k) else lo_nib (cpu_ram s ! off k))"
    if "k < 20" for k
    using safe that by (simp add: ram_rd_def mcs4_get_ram_safe Let_def off_def)
  show "ram_rd (ram_wr s i v) i = v"
    unfolding wr rd_t [OF i] using off [OF i] ram by (simp add: t_def)
  show "ram_selected (ram_wr s i v)"
    unfolding wr ram_selected_def using t sel by (simp add: t_def)
  fix j
  assume j: "j < (20 :: nat)" and ne: "i \<noteq> j"
  show "ram_rd (ram_wr s i v) j = ram_rd s j"
  proof (cases "i div 2 = j div 2")
    case True
    with ne have "odd i \<noteq> odd j" by presburger
    with True show ?thesis
      unfolding wr rd_t [OF j] rd_s [OF j] using off [OF i] ram by (auto simp: t_def off_def b_def)
  next
    case False
    then have "off i \<noteq> off j"
      by (simp add: off_def ram_off_inj)
    then show ?thesis
      unfolding wr rd_t [OF j] rd_s [OF j] by (simp add: t_def)
  qed
qed simp

subsection \<open>Every instruction keeps the invariant\<close>

lemma mcs4_set_ram_ex:
  assumes "mcs4_safe cpu" and "idx < 20"
  shows "\<exists>cpu'. mcs4_set_ram cpu idx (ucast (v :: u4)) = Inr cpu' \<and> mcs4_safe cpu' \<and>
    cpu_cycles cpu' = cpu_cycles cpu \<and> cpu_sp cpu' = cpu_sp cpu \<and> cpu_prom cpu' = cpu_prom cpu \<and>
    cpu_cmram cpu' = cpu_cmram cpu"
  using mcs4_set_ram_safe [OF assms, of v] assms(1) by (auto simp: Let_def mcs4_safe_ram_upd)

lemma mcs4_get_ram_ex: "mcs4_safe cpu \<Longrightarrow> idx < 20 \<Longrightarrow> \<exists>b. mcs4_get_ram cpu idx = Inr b"
  by (simp add: mcs4_get_ram_safe Let_def)

lemma unat_and_less:
  "unat (w AND 0xF :: u16) < 20" "unat (ucast ((b :: u8) AND 3) :: u4) < 5"
proof -
  have "w AND 0xF \<le> 0xF" by (rule word_and_le1)
  then show "unat (w AND 0xF :: u16) < 20" by (simp add: word_le_nat_alt)
  have "(ucast (b AND 3) :: u4) = ucast b AND 3"
    by (rule bit_word_eqI) (auto simp: bit_ucast_iff bit_and_iff)
  moreover have "(ucast b :: u4) AND 3 \<le> 3" by (rule word_and_le1)
  ultimately show "unat (ucast (b AND 3) :: u4) < 5" by (simp add: word_le_nat_alt)
qed

text \<open>What a step does to the cycle counter, the stack pointer and the program memory.\<close>

definition mcs4_ticks :: "mcs4 \<Rightarrow> mcs4 \<Rightarrow> bool" where
  "mcs4_ticks cpu cpu' \<longleftrightarrow> cpu_prom cpu' = cpu_prom cpu \<and>
     (cpu_cycles cpu' = cpu_cycles cpu + 1 \<or> cpu_cycles cpu' = cpu_cycles cpu + 2)"

lemmas mcs4_op_defs = mcs4_op_nop_def mcs4_op_inv_def mcs4_op_jcn_def mcs4_op_fim_def
  mcs4_op_src_def mcs4_op_fin_def mcs4_op_jin_def mcs4_op_jun_def mcs4_op_jms_def mcs4_op_inc_def
  mcs4_op_isz_def mcs4_op_add_def mcs4_op_sub_def mcs4_op_ld_def mcs4_op_xch_def mcs4_op_ldm_def
  mcs4_op_rdr_def mcs4_op_clb_def mcs4_op_clc_def mcs4_op_iac_def mcs4_op_cmc_def mcs4_op_cma_def
  mcs4_op_ral_def mcs4_op_rar_def mcs4_op_tcc_def mcs4_op_dac_def mcs4_op_tcs_def mcs4_op_stc_def
  mcs4_op_daa_def mcs4_op_kbp_def mcs4_op_dcl_def mcs4_op_wrr_def

lemma mcs4_pure_ticks:
  "mcs4_ticks cpu (mcs4_op_nop cpu)" "mcs4_ticks cpu (mcs4_op_inv cpu)" "mcs4_ticks cpu (mcs4_op_jcn cpu)"
  "mcs4_ticks cpu (mcs4_op_fim cpu)" "mcs4_ticks cpu (mcs4_op_src cpu)" "mcs4_ticks cpu (mcs4_op_fin cpu)"
  "mcs4_ticks cpu (mcs4_op_jun cpu)" "mcs4_ticks cpu (mcs4_op_jms cpu)"
  "mcs4_ticks cpu (mcs4_op_inc cpu)" "mcs4_ticks cpu (mcs4_op_isz cpu)" "mcs4_ticks cpu (mcs4_op_add cpu)"
  "mcs4_ticks cpu (mcs4_op_sub cpu)" "mcs4_ticks cpu (mcs4_op_ld cpu)" "mcs4_ticks cpu (mcs4_op_xch cpu)"
  "mcs4_ticks cpu (mcs4_op_ldm cpu)" "mcs4_ticks cpu (mcs4_op_rdr cpu)" "mcs4_ticks cpu (mcs4_op_clb cpu)"
  "mcs4_ticks cpu (mcs4_op_clc cpu)" "mcs4_ticks cpu (mcs4_op_iac cpu)" "mcs4_ticks cpu (mcs4_op_cmc cpu)"
  "mcs4_ticks cpu (mcs4_op_cma cpu)" "mcs4_ticks cpu (mcs4_op_ral cpu)" "mcs4_ticks cpu (mcs4_op_rar cpu)"
  "mcs4_ticks cpu (mcs4_op_tcc cpu)" "mcs4_ticks cpu (mcs4_op_dac cpu)" "mcs4_ticks cpu (mcs4_op_tcs cpu)"
  "mcs4_ticks cpu (mcs4_op_stc cpu)" "mcs4_ticks cpu (mcs4_op_daa cpu)" "mcs4_ticks cpu (mcs4_op_kbp cpu)"
  "mcs4_ticks cpu (mcs4_op_dcl cpu)"
  by (simp_all add: mcs4_ticks_def mcs4_op_defs Let_def mcs4_frame mcs4_inc_pc_cycles)

lemma mcs4_wrr_ok:
  assumes "mcs4_safe cpu"
  shows "mcs4_safe (mcs4_op_wrr cpu)" and "mcs4_ticks cpu (mcs4_op_wrr cpu)"
proof -
  have low: "unat (t :: u4) div 2 < 8" for t using unat_u4_less [of t] by (simp del: unat_u4_less)
  have frame: "mcs4_safe s \<Longrightarrow> mcs4_safe (set_byte s (2048 + k) b)"
    "cpu_prom (set_byte s (2048 + k) b) = cpu_prom s"
    "cpu_cycles (set_byte s (2048 + k) b) = cpu_cycles s" if "k < 8" for s k b
    using that by (simp_all add: mcs4_safe_def set_byte_shape) (simp_all add: set_byte_def)
  have upd: "mcs4_safe (s\<lparr>cpu_tmp := t\<rparr>) = mcs4_safe s" "mcs4_safe (s\<lparr>cpu_printed := p\<rparr>) = mcs4_safe s"
    "mcs4_safe (mcs4_inc_pc s) = mcs4_safe s" for s t p
    by (simp_all add: mcs4_safe_def mcs4_frame)
  show "mcs4_safe (mcs4_op_wrr cpu)" "mcs4_ticks cpu (mcs4_op_wrr cpu)"
    using assms
    by (simp_all add: mcs4_op_wrr_def Let_def upd frame [OF low] mcs4_ticks_def mcs4_frame mcs4_inc_pc_cycles)
qed

lemma mcs4_dcl_safe:
  assumes "mcs4_safe cpu" and "cpu_a cpu AND 7 \<noteq> 2" and "cpu_a cpu AND 7 \<noteq> 3"
  shows "mcs4_safe (mcs4_op_dcl cpu)"
  using assms by (simp add: mcs4_op_dcl_def mcs4_safe_def mcs4_frame Let_def)

lemma mcs4_wmp_ok:
  assumes "mcs4_safe cpu"
  shows "\<exists>cpu'. mcs4_op_wmp cpu = Inr cpu' \<and> mcs4_safe cpu' \<and> mcs4_ticks cpu cpu'"
proof -
  define k where "k = drop_bit 7 (cpu_ms cpu)"
  have "unat k < 2" using assms
    by (simp add: k_def mcs4_safe_def drop_bit_eq_div word_less_nat_alt unat_div less_mult_imp_div_less)
  then have "k = 0 \<or> k = 1" by (simp add: word_unat_eq_iff) linarith
  then have ports: "unat (0 OR k) < 4" "unat (2 OR k) < 4" by auto
  have poke: "poke cpu (2372 + n) b = Inr (cpu\<lparr>cpu_ramout := (cpu_ramout cpu)[n := b]\<rparr>)" if "n < 4" for n b
    using that by (simp add: poke_def layout_ptr_def set_byte_def)
  have upd: "mcs4_safe (cpu\<lparr>cpu_ramout := (cpu_ramout cpu)[n := b]\<rparr>)" for n b
    using assms by (simp add: mcs4_safe_def mcs4_shape_def)
  have inc: "mcs4_safe (mcs4_inc_pc s) = mcs4_safe s" for s by (simp add: mcs4_safe_def mcs4_frame)
  have "cpu_cmram cpu \<noteq> 3 \<and> cpu_cmram cpu \<noteq> 4" using assms by (simp add: mcs4_safe_def)
  then show ?thesis using assms ports
    by (auto simp: mcs4_op_wmp_def Let_def k_def [symmetric] poke [simplified] upd inc mcs4_ticks_def
        mcs4_frame mcs4_inc_pc_cycles)
qed

lemma mcs4_safe_upd:
  "mcs4_safe (s\<lparr>cpu_tmp := t\<rparr>) = mcs4_safe s" "mcs4_safe (s\<lparr>cpu_a := x\<rparr>) = mcs4_safe s"
  "mcs4_safe (s\<lparr>cpu_c := f\<rparr>) = mcs4_safe s" "mcs4_safe (mcs4_inc_pc s) = mcs4_safe s"
  "mcs4_safe (mcs4_set_pc s i v) = mcs4_safe s" "mcs4_safe (mcs4_pop_loop s j n) = mcs4_safe s"
  by (simp_all add: mcs4_safe_def mcs4_frame)

lemma mcs4_write_ok:
  assumes "mcs4_safe cpu"
  shows "\<exists>cpu'. mcs4_op_wrm cpu = Inr cpu' \<and> mcs4_safe cpu' \<and> mcs4_ticks cpu cpu'" (is ?wrm)
    and "\<exists>cpu'. mcs4_op_wr cpu = Inr cpu' \<and> mcs4_safe cpu' \<and> mcs4_ticks cpu cpu'" (is ?wr)
proof -
  obtain c1 where "mcs4_set_ram cpu (unat (cpu_ms cpu AND 0xF)) (ucast (cpu_a cpu)) = Inr c1"
    and "mcs4_safe c1" "cpu_cycles c1 = cpu_cycles cpu" "cpu_prom c1 = cpu_prom cpu"
    using mcs4_set_ram_ex [OF assms unat_and_less(1)] by blast
  then show ?wrm
    by (simp add: mcs4_op_wrm_def mcs4_safe_upd mcs4_ticks_def mcs4_frame mcs4_inc_pc_cycles)
  define cpu1 where "cpu1 = cpu\<lparr>cpu_tmp := ucast (mcs4_fetch cpu AND 0x3)\<rparr>"
  have "mcs4_safe cpu1" "0xF + unat (cpu_tmp cpu1) < 20"
    using assms unat_and_less(2) [of "mcs4_fetch cpu"] by (simp_all add: cpu1_def mcs4_safe_upd)
  then obtain c2 where "mcs4_set_ram cpu1 (0xF + unat (cpu_tmp cpu1)) (ucast (cpu_a cpu1)) = Inr c2"
    and "mcs4_safe c2" "cpu_cycles c2 = cpu_cycles cpu1" "cpu_prom c2 = cpu_prom cpu1"
    using mcs4_set_ram_ex by blast
  then show ?wr
    by (simp add: mcs4_op_wr_def Let_def cpu1_def mcs4_safe_upd mcs4_ticks_def mcs4_frame mcs4_inc_pc_cycles)
qed

lemma mcs4_read_ok:
  assumes "mcs4_safe cpu"
  shows "\<exists>cpu'. mcs4_op_sbm cpu = Inr cpu' \<and> mcs4_safe cpu' \<and> mcs4_ticks cpu cpu'" (is ?sbm)
    and "\<exists>cpu'. mcs4_op_adm cpu = Inr cpu' \<and> mcs4_safe cpu' \<and> mcs4_ticks cpu cpu'" (is ?adm)
    and "\<exists>cpu'. mcs4_op_rdm cpu = Inr cpu' \<and> mcs4_safe cpu' \<and> mcs4_ticks cpu cpu'" (is ?rdm)
    and "\<exists>cpu'. mcs4_op_rd cpu = Inr cpu' \<and> mcs4_safe cpu' \<and> mcs4_ticks cpu cpu'" (is ?rd)
proof -
  define cpu1 where "cpu1 = cpu\<lparr>cpu_tmp := cpu_a cpu\<rparr>"
  have "mcs4_safe cpu1" using assms by (simp add: cpu1_def mcs4_safe_upd)
  then obtain b where "mcs4_get_ram cpu1 (unat (cpu_ms cpu1 AND 0xF)) = Inr b"
    using mcs4_get_ram_ex unat_and_less(1) by blast
  then show ?sbm ?adm using assms
    by (simp_all add: mcs4_op_sbm_def mcs4_op_adm_def cpu1_def Let_def mcs4_safe_upd mcs4_ticks_def
        mcs4_frame mcs4_inc_pc_cycles)
  obtain d where "mcs4_get_ram cpu (unat (cpu_ms cpu AND 0xF)) = Inr d"
    using mcs4_get_ram_ex [OF assms unat_and_less(1)] by blast
  then show ?rdm using assms
    by (simp add: mcs4_op_rdm_def mcs4_safe_upd mcs4_ticks_def mcs4_frame mcs4_inc_pc_cycles)
  define cpu2 where "cpu2 = cpu\<lparr>cpu_tmp := ucast (mcs4_fetch cpu AND 0x3)\<rparr>"
  have "mcs4_safe cpu2" "0xF + unat (cpu_tmp cpu2) < 20"
    using assms unat_and_less(2) [of "mcs4_fetch cpu"] by (simp_all add: cpu2_def mcs4_safe_upd)
  then obtain e where "mcs4_get_ram cpu2 (0xF + unat (cpu_tmp cpu2)) = Inr e"
    using mcs4_get_ram_ex by blast
  then show ?rd using assms
    by (simp add: mcs4_op_rd_def Let_def cpu2_def mcs4_safe_upd mcs4_ticks_def mcs4_frame mcs4_inc_pc_cycles)
qed

lemma mcs4_bbl_ok:
  assumes "mcs4_safe cpu"
  shows "\<exists>cpu'. mcs4_op_bbl cpu = Inr cpu' \<and> mcs4_safe cpu' \<and>
    (mcs4_ticks cpu cpu' \<or> cpu_prom cpu' = cpu_prom cpu \<and> cpu_cycles cpu' = cpu_cycles cpu \<and>
       cpu_sp cpu' = cpu_sp cpu - 1 \<and> 0 < cpu_sp cpu)"
proof (cases "0 < cpu_sp cpu")
  case True
  have sp: "cpu_sp cpu \<le> 3" using assms by (simp add: mcs4_safe_def)
  then have "cpu_sp cpu - 1 \<le> 3" using True by (cases "cpu_sp cpu" rule: u4_cases16) simp_all
  then have "mcs4_safe (s\<lparr>cpu_sp := cpu_sp cpu - 1\<rparr>)" if "mcs4_safe s" for s
    using that by (simp add: mcs4_safe_def mcs4_frame)
  then show ?thesis using True sp assms
    by (auto simp: mcs4_op_bbl_def Let_def mcs4_frame mcs4_safe_upd not_less [symmetric])
next
  case False
  then show ?thesis using assms
    by (simp add: mcs4_op_bbl_def Let_def mcs4_frame mcs4_safe_upd mcs4_ticks_def mcs4_inc_pc_cycles)
qed

text \<open>One step, from a safe state, with an instruction that does not select a high bank.\<close>

lemma mcs4_step_ok:
  assumes safe: "mcs4_safe cpu" and low: "\<not> mcs4_selects_high_bank cpu"
  shows "\<exists>cpu'. mcs4_step cpu = Inr cpu' \<and> mcs4_safe cpu' \<and>
    (mcs4_opcode cpu = JIN \<or> mcs4_ticks cpu cpu' \<or>
     cpu_prom cpu' = cpu_prom cpu \<and> cpu_cycles cpu' = cpu_cycles cpu \<and>
       cpu_sp cpu' = cpu_sp cpu - 1 \<and> 0 < cpu_sp cpu)"
proof -
  note io = mcs4_write_ok [OF safe] mcs4_read_ok [OF safe] mcs4_wmp_ok [OF safe] mcs4_bbl_ok [OF safe]
  have dcl: "mcs4_opcode cpu = DCL \<Longrightarrow> mcs4_safe (mcs4_op_dcl cpu)"
    using low safe by (auto simp: mcs4_selects_high_bank_def mcs4_dcl_safe)
  show ?thesis
    using io safe dcl
    by (cases "mcs4_opcode cpu") (simp_all add: mcs4_step_def mcs4_safe_pure mcs4_pure_ticks mcs4_wrr_ok, blast+)
qed

end
