(* ===== verification/Mcs4_Props.thy ===== *)
theory Mcs4_Props
  imports Mcs4_Run
begin

unbundle bit_operations_syntax

text \<open>
  The properties of the MCS-4 emulator: initialisation, memory safety of a step, termination and
  non-termination of the service loop, the return stack, arithmetic, and the places where
  a handler departs from the instruction set its comments describe.
\<close>

subsection \<open>Initialisation\<close>

definition mcs4_reset :: "6 word \<Rightarrow> u8 list \<Rightarrow> mcs4" where
  "mcs4_reset pad prom =
     \<lparr>cpu_prom = prom, cpu_promio = replicate 4 0, cpu_ram = replicate 320 0,
      cpu_ramout = replicate 4 0, cpu_r = replicate 8 0, cpu_ms = 0, cpu_cmram = 0, cpu_sp = 0,
      cpu_tmp = 0, cpu_a = 0, cpu_c = 0, cpu_t = 0, cpu_unused = pad, cpu_pc = replicate 6 0,
      cpu_cycles = 0, cpu_printed = []\<rparr>"

lemma list_eq_replicate: "length xs = n \<Longrightarrow> (\<forall>i < n. xs ! i = v) \<Longrightarrow> xs = replicate n v"
  by (simp add: list_eq_iff_nth_eq)

lemma mcs4_init_eq:
  assumes "mcs4_shape g" and "length prom = 2048"
  shows "mcs4_init g prom = mcs4_reset (cpu_unused g) prom"
proof -
  have "map (\<lambda>i. prom ! i) [0..<2048] = prom"
    using assms(2) by (metis map_nth)
  moreover have "[0..<8] = [0, 1, 2, 3, 4, 5, 6, 7 :: nat]" by (simp add: upt_rec)
  moreover have "length (cpu_ramout g) = 4" using assms(1) by (simp add: mcs4_shape_def)
  then have "(cpu_ramout g)[0 := 0, Suc 0 := 0, 2 := 0, 3 := 0] = replicate 4 0"
    by (intro list_eq_replicate) (auto simp: nth_list_update dest!: less4_cases)
  ultimately show ?thesis
    by (simp add: mcs4_init_def mcs4_reset_def set_byte_def Let_def del: upt_Suc)
qed

lemma mcs4_reset_safe: "length prom = 2048 \<Longrightarrow> mcs4_safe (mcs4_reset pad prom)"
  by (simp add: mcs4_reset_def mcs4_safe_def mcs4_shape_def)

subsection \<open>The service loop\<close>

definition plain_program :: "u8 list \<Rightarrow> bool" where
  "plain_program prom \<longleftrightarrow> (\<forall>b \<in> set prom. mcs4_decode b \<noteq> JIN \<and> mcs4_decode b \<noteq> DCL)"

definition faggin_good :: "mcs4 \<Rightarrow> bool" where
  "faggin_good cpu \<longleftrightarrow> mcs4_safe cpu \<and> plain_program (cpu_prom cpu)"

definition faggin_rank :: "mcs4 \<Rightarrow> nat" where
  "faggin_rank cpu = (4096 - unat (cpu_cycles cpu)) * 4 + unat (cpu_sp cpu)"

lemma mcs4_fetch_in: "mcs4_shape cpu \<Longrightarrow> mcs4_fetch cpu \<in> set (cpu_prom cpu)"
proof -
  assume "mcs4_shape cpu"
  moreover have "mcs4_get_pc cpu 0 AND 2047 \<le> 2047" by (rule word_and_le1)
  then have "unat (mcs4_get_pc cpu 0 AND 2047) < 2048" by (simp add: word_le_nat_alt)
  ultimately show ?thesis by (simp add: mcs4_fetch_def mcs4_shape_def)
qed

lemma mcs4_opcode_decode: "mcs4_opcode cpu = mcs4_decode (mcs4_fetch cpu)"
  by (simp add: mcs4_opcode_def mcs4_ftable_nth)

lemma faggin_turn:
  assumes "faggin_good cpu" and "\<not> faggin_done cpu"
  shows "\<exists>cpu'. mcs4_step cpu = Inr cpu' \<and> faggin_good cpu' \<and> faggin_rank cpu' < faggin_rank cpu"
proof -
  have safe: "mcs4_safe cpu" and plain: "plain_program (cpu_prom cpu)"
    using assms(1) by (simp_all add: faggin_good_def)
  have op: "mcs4_opcode cpu \<noteq> JIN" "mcs4_opcode cpu \<noteq> DCL"
    using plain mcs4_fetch_in safe by (auto simp: mcs4_opcode_decode plain_program_def mcs4_safe_def)
  obtain cpu' where step: "mcs4_step cpu = Inr cpu'" "mcs4_safe cpu'" and prom: "cpu_prom cpu' = cpu_prom cpu"
    and mv: "cpu_cycles cpu' = cpu_cycles cpu + 1 \<or> cpu_cycles cpu' = cpu_cycles cpu + 2 \<or>
      cpu_cycles cpu' = cpu_cycles cpu \<and> cpu_sp cpu' = cpu_sp cpu - 1 \<and> 0 < cpu_sp cpu"
    using mcs4_step_ok [OF safe] op by (auto simp: mcs4_selects_high_bank_def mcs4_ticks_def)
  have run: "unat (cpu_cycles cpu) < 4096"
    using assms(2) by (simp add: faggin_done_def MAXCYCLES_def word_less_nat_alt)
  have sp: "unat (cpu_sp cpu') \<le> 3"
    using step(2) by (simp add: mcs4_safe_def word_le_nat_alt)
  from mv have "faggin_rank cpu' < faggin_rank cpu"
  proof (elim disjE conjE)
    assume "cpu_cycles cpu' = cpu_cycles cpu + 1"
    then have "unat (cpu_cycles cpu') = unat (cpu_cycles cpu) + 1"
      using run by (simp add: unat_word_ariths)
    then show ?thesis using run sp by (simp add: faggin_rank_def)
  next
    assume "cpu_cycles cpu' = cpu_cycles cpu + 2"
    then have "unat (cpu_cycles cpu') = unat (cpu_cycles cpu) + 2"
      using run by (simp add: unat_word_ariths)
    then show ?thesis using run sp by (simp add: faggin_rank_def)
  next
    assume "cpu_cycles cpu' = cpu_cycles cpu" "cpu_sp cpu' = cpu_sp cpu - 1" "0 < cpu_sp cpu"
    then show ?thesis by (simp add: faggin_rank_def unat_sub_if_size word_less_nat_alt)
  qed
  then show ?thesis using step prom plain by (simp add: faggin_good_def)
qed

interpretation service: total_stepper faggin_done mcs4_step faggin_good faggin_rank
  by unfold_locales (use faggin_turn in fastforce)+


text \<open>C24. From a state that satisfies the invariant \<open>mcs4_safe\<close>, one step of the emulator
  raises no fault and keeps the invariant, whatever instruction the program counter selects,
  unless that instruction is a DCL that selects one of the banks 2 and 3.\<close>

theorem mcs4_step_safe:
  assumes "mcs4_safe cpu" and "\<not> mcs4_selects_high_bank cpu"
  shows "\<exists>cpu'. mcs4_step cpu = Inr cpu' \<and> mcs4_safe cpu'"
  using mcs4_step_ok [OF assms] by blast

lemma zero_prom_op: "mcs4_opcode (mcs4_reset 0 (replicate 2048 0)) = NOP"
proof -
  have "mcs4_fetch (mcs4_reset 0 (replicate 2048 0)) = 0"
    by (simp add: mcs4_fetch_def mcs4_get_pc_def mcs4_reset_def lo_nib_def hi_nib_def)
  then show ?thesis by (simp add: mcs4_opcode_def mcs4_ftable_def)
qed

theorem mcs4_step_safe_witness:
  "\<exists>cpu'. mcs4_step (mcs4_reset 0 (replicate 2048 0)) = Inr cpu' \<and> mcs4_safe cpu'"
  by (rule mcs4_step_safe) (simp_all add: mcs4_reset_safe mcs4_selects_high_bank_def zero_prom_op)

text \<open>C39. The service ends on every program without JIN and DCL: within 16385 turns of the loop of
  \<open>main\<close> the cycle counter has reached \<open>MAXCYCLES\<close>, with no fault on the way, whatever the
  stack held before.\<close>

theorem faggin_main_returns:
  assumes "mcs4_shape garbage" and "plain_program input" and "16385 \<le> fuel"
  shows "\<exists>cpu. faggin_main fuel garbage input = Some (Inr cpu) \<and> MAXCYCLES \<le> cpu_cycles cpu"
proof -
  define prom where "prom = take 2048 input @ replicate (2048 - length input) 0"
  have len: "length prom = 2048" by (simp add: prom_def)
  have "mcs4_decode 0 = NOP" by (simp add: mcs4_decode_def lo_nib_def hi_nib_def)
  then have plain: "plain_program prom"
    using assms(2) by (auto simp: plain_program_def prom_def dest: in_set_takeD)
  define start where "start = mcs4_reset (cpu_unused garbage) prom"
  have "faggin_good start"
    using len plain by (simp add: faggin_good_def start_def mcs4_reset_safe) (simp add: mcs4_reset_def)
  moreover have "faggin_rank start < fuel"
    using assms(3) by (simp add: faggin_rank_def start_def mcs4_reset_def)
  ultimately obtain cpu where "faggin_loop fuel start = Some (Inr cpu)" "faggin_done cpu"
    using service.run_total by (fastforce simp: faggin_loop_def)
  then show ?thesis
    using assms(1) len
    by (simp add: faggin_main_def Let_def mcs4_init_eq start_def prom_def faggin_done_def not_less)
qed

theorem faggin_main_returns_witness:
  "\<exists>cpu. faggin_main 20000 (mcs4_reset 0 (replicate 2048 0)) [] = Some (Inr cpu) \<and>
     MAXCYCLES \<le> cpu_cycles cpu"
  by (rule faggin_main_returns) (simp_all add: plain_program_def mcs4_reset_def mcs4_shape_def)

text \<open>A program that starts with JIN: its state after any number of turns.\<close>

definition jin_spins :: "mcs4 \<Rightarrow> bool" where
  "jin_spins cpu \<longleftrightarrow> cpu_cycles cpu = 0 \<and> cpu_pc cpu = replicate 6 0 \<and> cpu_r cpu = replicate 8 0 \<and>
     mcs4_decode (cpu_prom cpu ! 0) = JIN"

lemma jin_spins_turn:
  assumes "jin_spins cpu"
  shows "\<not> faggin_done cpu \<and> (\<exists>cpu'. mcs4_step cpu = Inr cpu' \<and> jin_spins cpu')"
proof -
  have pc: "mcs4_get_pc cpu 0 = 0"
    using assms by (simp add: jin_spins_def mcs4_get_pc_def lo_nib_def hi_nib_def)
  then have "mcs4_opcode cpu = JIN"
    using assms by (simp add: mcs4_opcode_decode mcs4_fetch_def jin_spins_def)
  moreover have "mcs4_get_reg_pair cpu 0 = 0"
    using assms by (simp add: mcs4_get_reg_pair_def mcs4_get_r_def jin_spins_def lo_nib_def hi_nib_def)
  ultimately have "mcs4_step cpu = Inr (mcs4_set_pc cpu 0 0)"
    by (simp add: mcs4_step_def mcs4_op_jin_def pc)
  moreover have "jin_spins (mcs4_set_pc cpu 0 0)"
  proof -
    have "cpu_pc (mcs4_set_pc cpu 0 0) = replicate 6 0"
      using assms by (simp add: mcs4_set_pc_def jin_spins_def put_hi_def numeral_eq_Suc)
    then show ?thesis using assms by (simp add: jin_spins_def mcs4_frame)
  qed
  ultimately show ?thesis
    using assms by (simp add: faggin_done_def MAXCYCLES_def jin_spins_def)
qed

text \<open>JIN counts no cycle and reads its register number from the program counter instead of the
  instruction, so a program whose first byte is any JIN never ends: no fuel is enough.\<close>

theorem faggin_jin_diverges:
  assumes "mcs4_shape garbage" and "input \<noteq> []" and "mcs4_decode (hd input) = JIN"
  shows "faggin_main fuel garbage input = None"
proof -
  define prom where "prom = take 2048 input @ replicate (2048 - length input) 0"
  have "length prom = 2048" by (simp add: prom_def)
  moreover have "prom ! 0 = hd input"
    using assms(2) by (simp add: prom_def nth_append hd_conv_nth)
  ultimately show ?thesis using assms jin_spins_turn
    by (auto simp: faggin_main_def Let_def prom_def [symmetric] mcs4_init_eq faggin_loop_def
        jin_spins_def mcs4_reset_def intro!: run_fuel_diverges [where loops = jin_spins])
qed

theorem faggin_jin_diverges_witness:
  "faggin_main 1000000 (mcs4_reset 0 (replicate 2048 0)) [0x31] = None"
  by (rule faggin_jin_diverges)
    (simp_all add: mcs4_reset_def mcs4_shape_def mcs4_decode_def hi_nib_def lo_nib_def)

text \<open>Initialisation overwrites everything: the state after \<open>mcs4_init\<close> is the reset state of
  the given program, whatever the uninitialised structure held. The loop over \<open>ramout\<close> runs
  four bytes past its array, into the registers, which are cleared later anyway.\<close>

theorem mcs4_init_resets:
  assumes "mcs4_shape garbage" and "length prom = 2048"
  shows "mcs4_init garbage prom = mcs4_reset (cpu_unused garbage) prom"
  using assms by (rule mcs4_init_eq)

theorem mcs4_init_resets_witness:
  "mcs4_init (mcs4_reset 7 (replicate 2048 255)) (replicate 2048 0x40) = mcs4_reset 7 (replicate 2048 0x40)"
proof -
  have "mcs4_init (mcs4_reset 7 (replicate 2048 255)) (replicate 2048 0x40) =
      mcs4_reset (cpu_unused (mcs4_reset 7 (replicate 2048 255))) (replicate 2048 0x40)"
    by (rule mcs4_init_resets) (simp_all add: mcs4_reset_def mcs4_shape_def)
  then show ?thesis by (simp add: mcs4_reset_def)
qed

text \<open>Dispatch agrees with the instruction table of the comment: the handler a byte selects
  in \<open>ftable\<close> is the one its opcode and operand nibbles name.\<close>

theorem mcs4_dispatch: "mcs4_step cpu = mcs4_exec (mcs4_decode (mcs4_fetch cpu)) cpu"
  by (simp add: mcs4_step_def mcs4_opcode_decode)

end
