(* ===== verification/Mcs4_Spec.thy ===== *)
theory Mcs4_Spec
  imports Mcs4_Props
begin

unbundle bit_operations_syntax

text \<open>
  Instruction-level properties of the MCS-4 emulator, against what the comments of
  \<open>src/faggin/mcs4.c\<close> promise: the return stack of JMS and BBL as a list, the binary arithmetic of
  ADD and SUB, the target of JCN, and the RAM round trip of WRM and RDM.
\<close>

subsection \<open>The return stack\<close>

text \<open>The abstract machine: the current address and the list of return addresses, the most
  recent one first.\<close>

definition mcs4_here :: "mcs4 \<Rightarrow> u16" where
  "mcs4_here cpu = mcs4_get_pc cpu 0"

definition mcs4_returns :: "mcs4 \<Rightarrow> u16 list" where
  "mcs4_returns cpu = map (mcs4_get_pc cpu) [1..<unat (cpu_sp cpu) + 1]"

lemma mcs4_get_pc_upd [simp]:
  "mcs4_get_pc (cpu\<lparr>cpu_tmp := t\<rparr>) i = mcs4_get_pc cpu i"
  "mcs4_get_pc (cpu\<lparr>cpu_sp := u\<rparr>) i = mcs4_get_pc cpu i"
  "mcs4_get_pc (cpu\<lparr>cpu_a := x\<rparr>) i = mcs4_get_pc cpu i"
  "mcs4_get_pc (cpu\<lparr>cpu_c := y\<rparr>) i = mcs4_get_pc cpu i"
  "mcs4_get_pc (cpu\<lparr>cpu_cycles := z\<rparr>) i = mcs4_get_pc cpu i"
  by (simp_all add: mcs4_get_pc_def)

lemma mcs4_fetch_upd [simp]:
  "mcs4_fetch (cpu\<lparr>cpu_tmp := t\<rparr>) = mcs4_fetch cpu"
  by (simp add: mcs4_fetch_def)

lemma mcs4_inc_pc_upd [simp]:
  "mcs4_inc_pc (cpu\<lparr>cpu_tmp := t\<rparr>) = (mcs4_inc_pc cpu)\<lparr>cpu_tmp := t\<rparr>"
  by (simp add: mcs4_inc_pc_def mcs4_set_pc_def Let_def)

lemma mcs4_inc_pc_get:
  assumes "mcs4_shape cpu" and "j < 4" and "0 < j"
  shows "mcs4_get_pc (mcs4_inc_pc cpu) j = mcs4_get_pc cpu j"
  using assms by (simp add: mcs4_inc_pc_def Let_def pcs.rd_wr)

lemma upt_sp: "unat (sp :: u4) = n \<Longrightarrow> [1..<unat sp + 1] = [1..<n + 1]"
  by simp

lemma get_r_less: "mcs4_shape cpu \<Longrightarrow> unat (mcs4_get_r cpu (unat (t :: u4))) < 16"
  using unat_u4_less [of t] mcs4_get_r_lo [of cpu "unat t"] unat_lo_nib by metis

text \<open>The 12-bit address an instruction of two bytes names.\<close>

definition mcs4_target12 :: "mcs4 \<Rightarrow> u16" where
  "mcs4_target12 cpu = push_bit 8 (ucast (lo_nib (mcs4_fetch cpu))) OR ucast (mcs4_fetch (mcs4_inc_pc cpu))"

lemma target12_bits:
  fixes b d :: u8
  shows "(push_bit 8 (ucast (ucast (b AND 0xF) :: u4)) OR ucast d :: u16) AND 0xFFF =
    push_bit 8 (ucast (lo_nib b)) OR ucast d"
  by (rule bit_word_eqI)
    (auto simp: bit_nibs bit_masks16 bit_masks8 bit_or_iff bit_and_iff bit_push_bit_iff bit_ucast_iff
      simp del: bit_numeral_word_iff push_bit_and dest: bit_imp_le_length)

lemma mcs4_jms_pcs:
  assumes shape: "mcs4_shape cpu" and sp: "cpu_sp cpu \<le> 3"
  defines "sp' \<equiv> (cpu_sp cpu + 1) AND 3"
  shows "cpu_sp (mcs4_op_jms cpu) = sp'"
    and "mcs4_get_pc (mcs4_op_jms cpu) 0 = mcs4_target12 cpu"
    and "0 < j \<Longrightarrow> j \<le> unat sp' \<Longrightarrow> mcs4_get_pc (mcs4_op_jms cpu) j =
      mcs4_get_pc (mcs4_inc_pc (mcs4_inc_pc cpu)) (j - 1)"
proof -
  have "sp' \<le> 3" unfolding sp'_def by (rule word_and_le1)
  then have small: "unat sp' < 4" by (simp add: word_le_nat_alt)
  show "cpu_sp (mcs4_op_jms cpu) = sp'"
    by (simp add: mcs4_op_jms_def Let_def mcs4_frame sp'_def)
  show "mcs4_get_pc (mcs4_op_jms cpu) 0 = mcs4_target12 cpu"
    using shape by (simp add: mcs4_op_jms_def Let_def mcs4_frame pcs.rd_wr target12_bits mcs4_target12_def)
  assume "0 < j" "j \<le> unat sp'"
  then show "mcs4_get_pc (mcs4_op_jms cpu) j = mcs4_get_pc (mcs4_inc_pc (mcs4_inc_pc cpu)) (j - 1)"
    using shape small
    by (simp add: mcs4_op_jms_def Let_def mcs4_frame pcs.rd_wr mcs4_push_loop_shift [symmetric] sp'_def)
      (simp add: mcs4_push_loop_shift pcs.rd_shift_up mcs4_frame)
qed

text \<open>JMS refines "push the address behind the instruction and go to the target" while fewer than
  three calls are open; the fourth counter file entry is the limit, and a call at depth three
  forgets all return addresses.\<close>

theorem mcs4_jms_pushes:
  assumes "mcs4_shape cpu" and "cpu_sp cpu \<le> 3"
  shows "mcs4_here (mcs4_op_jms cpu) = mcs4_target12 cpu \<and>
    mcs4_returns (mcs4_op_jms cpu) =
      (if cpu_sp cpu < 3 then mcs4_here (mcs4_inc_pc (mcs4_inc_pc cpu)) # mcs4_returns cpu else [])"
proof -
  note jms = mcs4_jms_pcs [OF assms]
  have keep: "mcs4_get_pc (mcs4_inc_pc (mcs4_inc_pc cpu)) j = mcs4_get_pc cpu j" if "0 < j" "j < 4" for j
    using assms(1) that by (simp add: mcs4_inc_pc_get mcs4_frame)
  have "cpu_sp cpu = 0 \<or> cpu_sp cpu = 1 \<or> cpu_sp cpu = 2 \<or> cpu_sp cpu = 3"
    using assms(2) by (cases "cpu_sp cpu" rule: u4_cases16) simp_all
  then show ?thesis
    by (elim disjE) (simp_all add: mcs4_returns_def mcs4_here_def jms keep upt_rec)
qed

theorem mcs4_jms_pushes_witness:
  "mcs4_here (mcs4_op_jms (mcs4_reset 0 (replicate 2048 0x51))) = 0x151 \<and>
   mcs4_returns (mcs4_op_jms (mcs4_reset 0 (replicate 2048 0x51))) = [2]"
proof -
  let ?cpu = "mcs4_reset 0 (replicate 2048 0x51)"
  have pc0: "mcs4_get_pc ?cpu 0 = 0" and shape: "mcs4_shape ?cpu" and sp: "cpu_sp ?cpu = 0"
    by (simp_all add: mcs4_get_pc_def mcs4_reset_def lo_nib_def hi_nib_def mcs4_shape_def)
  have pc1: "mcs4_get_pc (mcs4_inc_pc ?cpu) 0 = 1"
    using shape by (simp add: mcs4_inc_pc_def Let_def pc0 pcs.rd_wr)
  have pc2: "mcs4_get_pc (mcs4_inc_pc (mcs4_inc_pc ?cpu)) 0 = 2"
    using shape by (simp add: mcs4_inc_pc_def [of "mcs4_inc_pc ?cpu"] Let_def pc1 pcs.rd_wr mcs4_frame)
  have "mcs4_fetch ?cpu = 0x51" "mcs4_fetch (mcs4_inc_pc ?cpu) = 0x51"
    by (simp_all add: mcs4_fetch_def pc0 pc1 mcs4_frame) (simp_all add: mcs4_reset_def)
  then have "mcs4_target12 ?cpu = 0x151" by (simp add: mcs4_target12_def lo_nib_def)
  moreover have "mcs4_returns ?cpu = []" by (simp add: mcs4_returns_def sp)
  ultimately show ?thesis
    using mcs4_jms_pushes [OF shape] by (simp add: sp mcs4_here_def pc2)
qed

lemma mcs4_bbl_pcs:
  assumes shape: "mcs4_shape cpu" and sp: "0 < cpu_sp cpu" "cpu_sp cpu \<le> 3"
  shows "\<exists>cpu'. mcs4_op_bbl cpu = Inr cpu' \<and> cpu_sp cpu' = cpu_sp cpu - 1 \<and>
    cpu_a cpu' = ucast (lo_nib (mcs4_fetch cpu)) \<and>
    (\<forall>j < unat (cpu_sp cpu). mcs4_get_pc cpu' j = mcs4_get_pc cpu (Suc j))"
proof -
  define n where "n = unat (cpu_sp cpu)"
  have n: "n < 4" using sp(2) by (simp add: n_def word_le_nat_alt)
  define cpu1 where "cpu1 = cpu\<lparr>cpu_tmp := ucast (mcs4_fetch cpu AND 0xF)\<rparr>"
  define cpu2 where "cpu2 = mcs4_pop_loop cpu1 0 n"
  have shape1: "mcs4_shape cpu1" using shape by (simp add: cpu1_def mcs4_frame)
  have shape2: "mcs4_shape cpu2" using shape1 by (simp add: cpu2_def mcs4_frame)
  have bbl: "mcs4_op_bbl cpu = Inr ((mcs4_set_pc cpu2 n 0)\<lparr>cpu_sp := cpu_sp cpu - 1,
      cpu_a := ucast (mcs4_fetch cpu AND 0xF)\<rparr>)"
    using sp by (simp add: mcs4_op_bbl_def Let_def cpu1_def cpu2_def n_def mcs4_frame not_less [symmetric])
  have "mcs4_get_pc (mcs4_set_pc cpu2 n 0) j = mcs4_get_pc cpu (Suc j)" if "j < n" for j
  proof -
    have "mcs4_get_pc (mcs4_set_pc cpu2 n 0) j = mcs4_get_pc cpu2 j"
      using that n shape2 by (simp add: pcs.rd_wr)
    also have "\<dots> = mcs4_get_pc cpu1 (Suc j)"
      using that n shape1 by (simp add: cpu2_def mcs4_pop_loop_shift pcs.rd_shift_down)
    finally show ?thesis by (simp add: cpu1_def)
  qed
  then show ?thesis by (simp add: bbl n_def lo_nib_def)
qed

lemma mcs4_returns_alt: "mcs4_returns cpu = map (\<lambda>j. mcs4_get_pc cpu (Suc j)) [0..<unat (cpu_sp cpu)]"
proof -
  have "[1..<unat (cpu_sp cpu) + 1] = map Suc [0..<unat (cpu_sp cpu)]" by (simp add: map_Suc_upt)
  then show ?thesis unfolding mcs4_returns_def by (simp only: map_map comp_def)
qed

text \<open>BBL refines "pop the most recent return address and load the operand into the
  accumulator": with a nonempty return stack it faults never, continues at the top and drops it.\<close>

theorem mcs4_bbl_pops:
  assumes "mcs4_shape cpu" and "cpu_sp cpu \<le> 3" and "mcs4_returns cpu = addr # rest"
  shows "\<exists>cpu'. mcs4_op_bbl cpu = Inr cpu' \<and> mcs4_here cpu' = addr \<and> mcs4_returns cpu' = rest \<and>
    cpu_a cpu' = ucast (lo_nib (mcs4_fetch cpu))"
proof -
  define n where "n = unat (cpu_sp cpu)"
  have eq: "map (\<lambda>j. mcs4_get_pc cpu (Suc j)) [0..<n] = addr # rest"
    using assms(3) by (simp add: mcs4_returns_alt n_def)
  then obtain m where m: "n = Suc m" by (cases n) auto
  then have pos: "0 < cpu_sp cpu" by (simp add: word_less_nat_alt n_def)
  obtain cpu' where bbl: "mcs4_op_bbl cpu = Inr cpu'" "cpu_sp cpu' = cpu_sp cpu - 1"
    "cpu_a cpu' = ucast (lo_nib (mcs4_fetch cpu))"
    and pcs: "\<And>j. j < n \<Longrightarrow> mcs4_get_pc cpu' j = mcs4_get_pc cpu (Suc j)"
    using mcs4_bbl_pcs [OF assms(1) pos assms(2)] unfolding n_def by blast
  have "unat (cpu_sp cpu') = m"
    using m by (simp add: bbl(2) n_def unat_sub_if_size)
  then have "mcs4_returns cpu' = map (\<lambda>j. mcs4_get_pc cpu (Suc (Suc j))) [0..<m]"
    using pcs m by (simp add: mcs4_returns_alt)
  moreover have "[0..<n] = 0 # map Suc [0..<m]" unfolding m by (simp only: upt_conv_Cons map_Suc_upt zero_less_Suc)
  ultimately have "mcs4_here cpu' = addr" "mcs4_returns cpu' = rest"
    using eq pcs [of 0] m by (auto simp: mcs4_here_def comp_def)
  with bbl show ?thesis by blast
qed

text \<open>A machine with one open call, for the witnesses.\<close>

definition mcs4_called :: "u8 \<Rightarrow> mcs4" where
  "mcs4_called op = (mcs4_reset 0 (replicate 2048 op))\<lparr>cpu_sp := 1, cpu_pc := [0, 0x01, 0x23, 0, 0, 0]\<rparr>"

theorem mcs4_bbl_pops_witness:
  "\<exists>cpu'. mcs4_op_bbl (mcs4_called 0xC5) = Inr cpu' \<and> mcs4_here cpu' = 0x123 \<and> mcs4_returns cpu' = [] \<and>
    cpu_a cpu' = ucast (lo_nib (mcs4_fetch (mcs4_called 0xC5)))"
  by (rule mcs4_bbl_pops)
    (simp_all add: mcs4_called_def mcs4_reset_def mcs4_shape_def mcs4_returns_def mcs4_get_pc_def lo_nib_def)

subsection \<open>Arithmetic\<close>

lemma unat_u1_u4: "unat (ucast (c :: u1) :: u4) = unat c"
  by (cases c rule: u1_cases) simp_all

lemma mod_16_once: "n < 32 \<Longrightarrow> n mod 16 = (if n < 16 then n else n - 16 :: nat)"
  by (auto simp: le_mod_geq)

lemma add_carry:
  fixes a r :: u4 and c :: u1
  defines "s \<equiv> a + (r + ucast c)"
  shows "unat s + 16 * unat (if a > s then 1 else if a = s \<and> c \<noteq> 0 then 1 else 0 :: u1) = unat a + unat r + unat c"
proof -
  have s: "unat s = (unat a + unat r + unat c) mod 16"
    by (simp add: s_def unat_word_ariths unat_u1_u4 mod_simps ac_simps)
  have a: "unat a < 16" "unat r < 16" by simp_all
  have c: "unat c = 0 \<and> c = 0 \<or> unat c = 1 \<and> c = 1" by (cases c rule: u1_cases) simp_all
  show ?thesis
  proof (cases "unat a + unat r + unat c < 16")
    case True
    then show ?thesis using s a c by (auto simp: word_less_nat_alt word_unat_eq_iff)
  next
    case False
    have "unat a + unat r + unat c < 32" using a c by linarith
    with False have "unat s = unat a + unat r + unat c - 16"
      unfolding s by (simp add: mod_16_once)
    then show ?thesis using False a c
      by (auto simp: word_less_nat_alt word_unat_eq_iff simp del: unat_u4_less)
  qed
qed

lemma unat_reg_u4:
  assumes "mcs4_shape cpu" and "i < 16"
  shows "unat (ucast (mcs4_get_r cpu i) :: u4) = unat (mcs4_get_r cpu i)"
proof -
  have "(ucast (ucast (mcs4_get_r cpu i) :: u4) :: u8) = mcs4_get_r cpu i"
  proof (rule bit_word_eqI)
    fix n :: nat
    have "bit (mcs4_get_r cpu i) n \<longleftrightarrow> n < 4 \<and> bit (mcs4_get_r cpu i) n"
      using mcs4_get_r_lo [OF assms] bit_nibs(1) by metis
    then show "bit (ucast (ucast (mcs4_get_r cpu i) :: u4) :: u8) n = bit (mcs4_get_r cpu i) n"
      by (auto simp: bit_ucast_iff dest: bit_imp_le_length)
  qed
  then show ?thesis by (metis unat_u4_u8)
qed

text \<open>The operand nibble of an instruction, and the register it names.\<close>

definition mcs4_operand :: "mcs4 \<Rightarrow> nat" where
  "mcs4_operand cpu = unat (lo_nib (mcs4_fetch cpu))"

lemma mcs4_operand_less: "mcs4_operand cpu < 16"
  by (simp add: mcs4_operand_def unat_lo_nib)

lemma mcs4_tmp_operand: "unat (ucast (mcs4_fetch cpu AND 0xF) :: u4) = mcs4_operand cpu"
proof -
  have "(ucast (ucast (lo_nib (mcs4_fetch cpu)) :: u4) :: u8) = lo_nib (mcs4_fetch cpu)"
    by (rule bit_word_eqI) (auto simp: bit_nibs bit_ucast_iff)
  then show ?thesis by (metis unat_u4_u8 mcs4_operand_def lo_nib_def)
qed

lemma mcs4_get_r_upd [simp]:
  "mcs4_get_r (cpu\<lparr>cpu_tmp := t\<rparr>) i = mcs4_get_r cpu i"
  by (simp add: mcs4_get_r_def Let_def)

text \<open>ADD is binary addition with carry: accumulator and carry together hold the exact sum of the
  old accumulator, the selected register and the old carry.\<close>

theorem mcs4_add_sums:
  assumes "mcs4_shape cpu"
  shows "unat (cpu_a (mcs4_op_add cpu)) + 16 * unat (cpu_c (mcs4_op_add cpu)) =
    unat (cpu_a cpu) + unat (mcs4_get_r cpu (mcs4_operand cpu)) + unat (cpu_c cpu)"
proof -
  define r where "r = (ucast (mcs4_get_r cpu (mcs4_operand cpu)) :: u4)"
  define s where "s = cpu_a cpu + (r + ucast (cpu_c cpu))"
  have "cpu_a (mcs4_op_add cpu) = s"
    "cpu_c (mcs4_op_add cpu) = (if cpu_a cpu > s then 1 else if cpu_a cpu = s \<and> cpu_c cpu \<noteq> 0 then 1 else 0)"
    by (simp_all add: mcs4_op_add_def Let_def mcs4_frame mcs4_tmp_operand r_def s_def)
  then show ?thesis
    using add_carry [of "cpu_a cpu" r "cpu_c cpu"] unat_reg_u4 [OF assms mcs4_operand_less [of cpu]]
    by (simp only: s_def r_def)
qed

theorem mcs4_add_sums_witness:
  "let cpu = (mcs4_reset 0 (replicate 2048 0x83))\<lparr>cpu_a := 9, cpu_c := 1, cpu_r := replicate 8 0xEE\<rparr>
   in unat (cpu_a (mcs4_op_add cpu)) + 16 * unat (cpu_c (mcs4_op_add cpu)) = 24"
proof -
  let ?cpu = "(mcs4_reset 0 (replicate 2048 0x83))\<lparr>cpu_a := 9, cpu_c := 1, cpu_r := replicate 8 0xEE\<rparr>"
  have "mcs4_shape ?cpu" by (simp add: mcs4_reset_def mcs4_shape_def)
  moreover have "mcs4_operand ?cpu = 3"
    by (simp add: mcs4_operand_def mcs4_fetch_def mcs4_get_pc_def mcs4_reset_def lo_nib_def hi_nib_def)
  then have "mcs4_get_r ?cpu (mcs4_operand ?cpu) = 14" by (simp add: mcs4_get_r_def hi_nib_def)
  ultimately show ?thesis using mcs4_add_sums [of ?cpu] by simp
qed

lemma ucast_32_4:
  "(ucast (x + y :: u32) :: u4) = ucast x + ucast y" "(ucast (NOT x :: u32) :: u4) = - ucast x - 1"
proof -
  show "(ucast (x + y :: u32) :: u4) = ucast x + ucast y" 
  proof transfer
    fix x y :: int
    have "take_bit 4 (take_bit 32 x + take_bit 32 y) =
        take_bit 4 (take_bit 4 (take_bit 32 x) + take_bit 4 (take_bit 32 y))"
      by (simp only: take_bit_add)
    also have "\<dots> = take_bit 4 (take_bit 4 x + take_bit 4 y)" by simp
    also have "\<dots> = take_bit 4 (x + y)" by (simp only: take_bit_add)
    finally show "take_bit LENGTH(4) (take_bit LENGTH(32) (x + y)) =
        take_bit LENGTH(4) (take_bit LENGTH(32) x + take_bit LENGTH(32) y)" by simp
  qed
  have "(ucast (NOT x :: u32) :: u4) = NOT (ucast x)"
    by (rule bit_word_eqI) (auto simp: bit_not_iff bit_ucast_iff)
  then show "(ucast (NOT x :: u32) :: u4) = - ucast x - 1" by (simp add: not_eq_complement)
qed

lemma ucast_through_32 [simp]:
  "(ucast (ucast (c :: u1) :: u32) :: u4) = ucast c" "(ucast (ucast (a :: u4) :: u32) :: u4) = a"
  "(ucast (ucast (b :: u8) :: u32) :: u4) = ucast b"
  by (rule bit_word_eqI; auto simp: bit_ucast_iff)+

text \<open>SUB complements the register and the carry as 32-bit integers, and both ones' complements
  bring a minus one: the result is two less than accumulator minus register minus carry, the
  difference its comment describes. The carry says that the new accumulator is not
  above the old one.\<close>

theorem mcs4_sub_two_less:
  "cpu_a (mcs4_op_sub cpu) = cpu_a cpu - ucast (mcs4_get_r cpu (mcs4_operand cpu)) - ucast (cpu_c cpu) - 2 \<and>
   cpu_c (mcs4_op_sub cpu) = (if cpu_a (mcs4_op_sub cpu) \<le> cpu_a cpu then 1 else 0)"
proof -
  have not_c: "mcs4_not_c s \<noteq> 0" for s
    by (cases "cpu_c s" rule: u1_cases) (simp_all add: mcs4_not_c_def)
  define d where "d = (ucast (ucast (cpu_a cpu) +
    (NOT (ucast (mcs4_get_r cpu (mcs4_operand cpu))) + mcs4_not_c cpu)) :: u4)"
  have d: "d = cpu_a cpu - ucast (mcs4_get_r cpu (mcs4_operand cpu)) - ucast (cpu_c cpu) - 2"
    by (simp add: d_def mcs4_not_c_def ucast_32_4)
  have "cpu_a (mcs4_op_sub cpu) = d"
    by (simp add: mcs4_op_sub_def Let_def mcs4_frame mcs4_tmp_operand d_def mcs4_not_c_def)
  moreover have "cpu_c (mcs4_op_sub cpu) = (if cpu_a cpu > d then 1 else if cpu_a cpu = d then 1 else 0)"
    by (simp only: mcs4_op_sub_def Let_def mcs4_frame)
      (simp add: mcs4_tmp_operand d_def mcs4_not_c_def not_c [unfolded mcs4_not_c_def])
  ultimately show ?thesis unfolding d [symmetric] by auto
qed

subsection \<open>Conditional jumps\<close>

text \<open>The condition under which JCN really jumps: the invert bit is 8, never 0 or 1, so an
  inverted condition holds as soon as it names any test at all.\<close>

definition mcs4_jumps :: "mcs4 \<Rightarrow> bool" where
  "mcs4_jumps cpu \<longleftrightarrow>
     (let cond = (ucast (mcs4_fetch cpu) :: u4) in
      if cond AND 8 \<noteq> 0 then cond AND 7 \<noteq> 0
      else (cond AND 4 \<noteq> 0 \<and> cpu_a cpu = 0) \<or> (cond AND 2 \<noteq> 0 \<and> cpu_c cpu \<noteq> 0) \<or>
           (cond AND 1 \<noteq> 0 \<and> cpu_t cpu = 0))"

text \<open>JCN continues at the address in its second byte on page 0, whatever page it stands on
  (the page is cut to eight bits), exactly when \<open>mcs4_jumps\<close> holds, and behind itself otherwise.\<close>

theorem mcs4_jcn_page_zero:
  assumes "mcs4_shape cpu"
  shows "mcs4_here (mcs4_op_jcn cpu) =
    (if mcs4_jumps cpu then ucast (mcs4_fetch (mcs4_inc_pc cpu)) else mcs4_here (mcs4_inc_pc (mcs4_inc_pc cpu)))"
proof -
  have page: "(ucast (mcs4_get_pc cpu 0 AND 0xF00) :: u8) = 0"
    by (rule bit_word_eqI) (auto simp: bit_ucast_iff bit_and_iff bit_masks16 simp del: bit_numeral_word_iff)
  have low: "(ucast (b :: u8) :: u16) AND 0xFFF = ucast b" for b
    by (rule bit_word_eqI)
      (auto simp: bit_ucast_iff bit_and_iff bit_masks16 simp del: bit_numeral_word_iff dest: bit_imp_le_length)
  define cond where "cond = (ucast (mcs4_fetch cpu) :: u4)"
  have c: "cpu_c cpu = 0 \<or> cpu_c cpu = 1" by (cases "cpu_c cpu" rule: u1_cases) simp_all
  show ?thesis
    using assms c
    by (cases cond rule: u4_cases16)
      (auto simp: mcs4_op_jcn_def Let_def mcs4_frame mcs4_here_def page pcs.rd_wr low mcs4_jumps_def
        cond_def [symmetric])
qed

theorem mcs4_jcn_page_zero_witness:
  "mcs4_here (mcs4_op_jcn ((mcs4_reset 0 (replicate 2048 0x14))\<lparr>cpu_pc := [0x34, 0x50, 0, 0, 0, 0]\<rparr>)) = 0x14"
proof -
  let ?cpu = "(mcs4_reset 0 (replicate 2048 0x14))\<lparr>cpu_pc := [0x34, 0x50, 0, 0, 0, 0]\<rparr>"
  have shape: "mcs4_shape ?cpu" by (simp add: mcs4_reset_def mcs4_shape_def)
  have pc0: "mcs4_get_pc ?cpu 0 = 0x345" by (simp add: mcs4_get_pc_def lo_nib_def hi_nib_def)
  have pc1: "mcs4_get_pc (mcs4_inc_pc ?cpu) 0 = 0x346"
    using shape by (simp add: mcs4_inc_pc_def Let_def pc0 pcs.rd_wr)
  have "mcs4_fetch ?cpu = 0x14" "mcs4_fetch (mcs4_inc_pc ?cpu) = 0x14"
    by (simp_all add: mcs4_fetch_def pc0 pc1 mcs4_frame) (simp_all add: mcs4_reset_def)
  then show ?thesis
    using mcs4_jcn_page_zero [OF shape] by (simp add: mcs4_jumps_def) (simp add: mcs4_reset_def)
qed

subsection \<open>RAM\<close>

text \<open>What WRM stores in the addressed character of a selected bank, RDM reads back, whatever
  the accumulator was set to in between.\<close>

theorem mcs4_wrm_rdm:
  assumes "ram_selected cpu"
  shows "\<exists>cpu1 cpu2. mcs4_op_wrm cpu = Inr cpu1 \<and> mcs4_op_rdm (cpu1\<lparr>cpu_a := x\<rparr>) = Inr cpu2 \<and>
    cpu_a cpu2 = cpu_a cpu"
proof -
  define i where "i = unat (cpu_ms cpu AND 0xF)"
  have i: "i < 20" by (simp add: i_def unat_and_less)
  have safe: "mcs4_safe cpu" using assms by (simp add: ram_selected_def)
  then obtain s where s: "mcs4_set_ram cpu i (ucast (cpu_a cpu)) = Inr s" "mcs4_safe s"
    using mcs4_set_ram_ex [OF _ i] by blast
  then have wr: "ram_wr cpu i (cpu_a cpu) = s" by (simp add: ram_wr_def)
  obtain b where b: "mcs4_get_ram s i = Inr b" using mcs4_get_ram_ex [OF s(2) i] by blast
  have "ram_rd s i = cpu_a cpu" using ram.rd_wr_same [OF assms i] wr by metis
  then have val: "ucast b = cpu_a cpu" by (simp add: ram_rd_def b)
  define cpu1 where "cpu1 = mcs4_inc_pc s"
  have wrm: "mcs4_op_wrm cpu = Inr cpu1" by (simp add: mcs4_op_wrm_def i_def [symmetric] s cpu1_def)
  have ms: "cpu_ms s = cpu_ms cpu"
    using wr assms i safe by (auto simp: ram_wr_def mcs4_set_ram_safe ram_selected_def Let_def)
  have "mcs4_get_ram (cpu1\<lparr>cpu_a := x\<rparr>) i = mcs4_get_ram s i"
  proof -
    have "mcs4_safe (cpu1\<lparr>cpu_a := x\<rparr>)" using s(2) by (simp add: cpu1_def mcs4_safe_upd)
    then show ?thesis using s(2) i
      by (simp add: mcs4_get_ram_safe mcs4_bank_def mcs4_ram_off_def cpu1_def mcs4_frame)
  qed
  then have "mcs4_op_rdm (cpu1\<lparr>cpu_a := x\<rparr>) = Inr (mcs4_inc_pc (cpu1\<lparr>cpu_a := ucast b\<rparr>))"
    using b by (simp add: mcs4_op_rdm_def cpu1_def mcs4_frame ms i_def)
  with wrm val show ?thesis by (auto simp: mcs4_frame)
qed

theorem mcs4_wrm_rdm_witness:
  "\<exists>cpu1 cpu2. mcs4_op_wrm ((mcs4_reset 0 (replicate 2048 0))\<lparr>cpu_cmram := 1, cpu_a := 9, cpu_ms := 0x75\<rparr>) = Inr cpu1 \<and>
     mcs4_op_rdm (cpu1\<lparr>cpu_a := 2\<rparr>) = Inr cpu2 \<and> cpu_a cpu2 = 9"
  using mcs4_wrm_rdm [of "(mcs4_reset 0 (replicate 2048 0))\<lparr>cpu_cmram := 1, cpu_a := 9, cpu_ms := 0x75\<rparr>" 2]
  by (simp add: ram_selected_def mcs4_safe_def mcs4_reset_def mcs4_shape_def)

text \<open>With command line 4 (bank 2) the chips 8 to 11 lie behind the array: from memory address
  0x30 on, WRM hits the function pointers of the structure or what follows them.\<close>

theorem mcs4_bank2_overrun:
  assumes "cpu_cmram cpu = 4" and "0x30 \<le> cpu_ms cpu" and "cpu_ms cpu < 256"
  shows "\<exists>off \<ge> layout_ptr. mcs4_op_wrm cpu = Inl (Ptr_Read off)"
proof -
  define off where "off = layout_ram + mcs4_ram_off cpu 8 (unat (cpu_ms cpu AND 0xF) div 2)"
  define hi where "hi = drop_bit 6 (cpu_ms cpu)"
  have "unat hi < 4" using assms(3)
    by (simp add: hi_def drop_bit_eq_div word_less_nat_alt unat_div less_mult_imp_div_less)
  then have hi: "hi = 0 \<or> hi = 1 \<or> hi = 2 \<or> hi = 3" by (simp add: word_unat_eq_iff) linarith
  have "347 \<le> mcs4_ram_off cpu 8 (unat (cpu_ms cpu AND 0xF) div 2)"
  proof (cases "hi = 0")
    case True
    then have "unat (cpu_ms cpu) div 64 = 0"
      by (simp add: hi_def drop_bit_eq_div word_unat_eq_iff unat_div)
    then have "unat (cpu_ms cpu) < 64" by simp
    moreover have "48 \<le> unat (cpu_ms cpu)" using assms(2) by (simp add: word_le_nat_alt)
    ultimately have "unat (cpu_ms cpu) div 16 = 3" by simp
    then have "drop_bit 4 (cpu_ms cpu) = 3"
      by (simp add: drop_bit_eq_div word_unat_eq_iff unat_div)
    then have "drop_bit 4 (cpu_ms cpu AND 0x30) = 3" by simp
    then show ?thesis using True by (simp add: mcs4_ram_off_def hi_def)
  next
    case False
    then have "9 \<le> unat (8 OR hi)" using hi by auto
    then show ?thesis by (simp add: mcs4_ram_off_def hi_def)
  qed
  then have "layout_ptr \<le> off" by (simp add: off_def layout_ptr_def layout_ram_def)
  moreover from this have "mcs4_op_wrm cpu = Inl (Ptr_Read off)"
    using assms(1) by (auto simp: mcs4_op_wrm_def mcs4_set_ram_def Let_def mcs4_ram_update_def peek_def off_def)
  ultimately show ?thesis by blast
qed

theorem mcs4_bank2_overrun_witness:
  "\<exists>off \<ge> layout_ptr. mcs4_op_wrm ((mcs4_reset 0 (replicate 2048 0))\<lparr>cpu_cmram := 4, cpu_ms := 0x30\<rparr>) =
     Inl (Ptr_Read off)"
  by (rule mcs4_bank2_overrun) simp_all

end
