(* ===== verification/Jargon.thy ===== *)
theory Jargon
  imports Prelude "HOL-Library.Signed_Division"
begin

unbundle bit_operations_syntax

text \<open>
  The stack machine of \<open>src/jargon/jargon.c\<close>: 16 operations of four bits, a stack of 256 bytes
  and 128 bytes of code read nibble by nibble. \<open>jargon\<close> holds the four globals. \<open>die\<close> prints the
  machine and exits, so an operation returns an exit or the next state; \<open>Died pre msg s\<close> is a
  \<open>die(msg)\<close> in state \<open>s\<close> after \<open>pre\<close> was printed, \<open>Sigfpe\<close> the trap of a remainder by zero.

  C leaves the order of the two \<open>pop()\<close> calls of one expression open: \<open>ltr\<close> is the compiler's
  choice. The contents of the flag file is the parameter \<open>flag\<close>; one \<open>read\<close> into a buffer of
  256 bytes delivers at most its first 256. \<open>StackPos\<close> and \<open>CodePos\<close> never leave 0 to 256
  and 0 to 255 (\<open>jg_good\<close>), so they are natural numbers.
\<close>

subsection \<open>Numbers in words\<close>

definition NumNames :: "string list" where
  "NumNames = [''lightning'', ''fuzyll'', ''hoju'', ''gynophage'', ''hj'', ''selir'', ''sirgoon'',
     ''vito'', ''bja'', ''jymbolia'']"

text \<open>The loop \<open>while(CurValue > 9)\<close>.\<close>

function jg_digit_count :: "nat \<Rightarrow> nat" where
  "jg_digit_count v = (if 9 < v then Suc (jg_digit_count (v div 10)) else 1)"
  by auto
termination by (relation "measure id") auto

declare jg_digit_count.simps [simp del]

text \<open>One turn of the printing loop: the high digit of the \<open>n + 1\<close> that are left, by repeated
  division, and its subtraction.\<close>

fun jg_print_digits :: "nat \<Rightarrow> nat \<Rightarrow> string" where
  "jg_print_digits 0 v = ''''"
| "jg_print_digits (Suc n) v =
     (let cur = ((\<lambda>x. x div 10) ^^ n) v;
          sub = ((\<lambda>x. x * 10) ^^ n) cur
      in NumNames ! cur @ '' '' @ jg_print_digits n (v - sub))"

definition IntToText :: "int \<Rightarrow> bool \<Rightarrow> string" where
  "IntToText value doReturn =
     (let v = nat \<bar>value\<bar>
      in (if value < 0 then ''rogue '' else '''') @ jg_print_digits (jg_digit_count v) v @
         (if doReturn then ''\<newline>'' else ''''))"

subsection \<open>The machine\<close>

record jargon =
  jg_stack :: "u8 list"
  jg_code :: "u8 list"
  jg_sp :: nat
  jg_cp :: nat

datatype jg_exit = Died string string jargon | Sigfpe

type_synonym jg_result = "jg_exit + jargon"

text \<open>What \<open>die\<close> prints; a stack byte is a signed \<open>char\<close>.\<close>

definition jg_die_text :: "string \<Rightarrow> jargon \<Rightarrow> string" where
  "jg_die_text msg s =
     ''\<newline>'' @ msg @ ''\<newline>\<newline>ip: '' @ IntToText (int (jg_cp s)) True @
     ''Stack\<newline>-----\<newline>'' @ concat (map (\<lambda>i. IntToText (sint (jg_stack s ! i)) True) [0..<jg_sp s])"

definition jg_pop :: "jargon \<Rightarrow> jg_exit + (u8 \<times> jargon)" where
  "jg_pop s =
     (if jg_sp s = 0 then Inl (Died '''' ''Stack empty'' s)
      else let s' = s\<lparr>jg_sp := jg_sp s - 1\<rparr> in Inr (jg_stack s' ! jg_sp s', s'))"

definition jg_push :: "u8 \<Rightarrow> jargon \<Rightarrow> jg_result" where
  "jg_push v s =
     (if jg_sp s = 256 then Inl (Died '''' ''Stack full'' s)
      else Inr (s\<lparr>jg_stack := (jg_stack s)[jg_sp s := v], jg_sp := jg_sp s + 1\<rparr>))"

text \<open>Two pops, the first one first.\<close>

definition jg_pop2 :: "jargon \<Rightarrow> jg_exit + (u8 \<times> u8 \<times> jargon)" where
  "jg_pop2 s = andThen (jg_pop s) (\<lambda>(x, s1). andThen (jg_pop s1) (\<lambda>(y, s2). Inr (x, y, s2)))"

definition jg_sides :: "bool \<Rightarrow> u8 \<Rightarrow> u8 \<Rightarrow> u8 \<times> u8" where
  "jg_sides ltr x y = (if ltr then (x, y) else (y, x))"

subsection \<open>Operations\<close>

definition math_add :: "bool \<Rightarrow> jargon \<Rightarrow> jg_result" where
  "math_add ltr s = andThen (jg_pop2 s)
     (\<lambda>(x, y, s'). let (a, b) = jg_sides ltr x y in jg_push (a + b) s')"

definition math_sub :: "bool \<Rightarrow> jargon \<Rightarrow> jg_result" where
  "math_sub ltr s = andThen (jg_pop2 s)
     (\<lambda>(x, y, s'). let (a, b) = jg_sides ltr x y in jg_push (a - b) s')"

definition math_mul :: "bool \<Rightarrow> jargon \<Rightarrow> jg_result" where
  "math_mul ltr s = andThen (jg_pop2 s)
     (\<lambda>(x, y, s'). let (a, b) = jg_sides ltr x y in jg_push (a * b) s')"

definition math_mod :: "bool \<Rightarrow> jargon \<Rightarrow> jg_result" where
  "math_mod ltr s = andThen (jg_pop2 s)
     (\<lambda>(x, y, s'). let (a, b) = jg_sides ltr x y
        in if b = 0 then Inl Sigfpe else jg_push (word_of_int (sint a smod sint b)) s')"

definition math_div :: "jargon \<Rightarrow> jg_result" where
  "math_div s = andThen (jg_pop2 s)
     (\<lambda>(x, y, s'). if y = 0 then Inl (Died '''' ''Divide by 0'' s') else jg_push (x div y) s')"

definition math_and :: "bool \<Rightarrow> jargon \<Rightarrow> jg_result" where
  "math_and ltr s = andThen (jg_pop2 s)
     (\<lambda>(x, y, s'). let (a, b) = jg_sides ltr x y in jg_push (a AND b) s')"

definition math_or :: "bool \<Rightarrow> jargon \<Rightarrow> jg_result" where
  "math_or ltr s = andThen (jg_pop2 s)
     (\<lambda>(x, y, s'). let (a, b) = jg_sides ltr x y in jg_push (a OR b) s')"

definition math_xor :: "bool \<Rightarrow> jargon \<Rightarrow> jg_result" where
  "math_xor ltr s = andThen (jg_pop2 s)
     (\<lambda>(x, y, s'). let (a, b) = jg_sides ltr x y in jg_push (a XOR b) s')"

definition math_neg :: "jargon \<Rightarrow> jg_result" where
  "math_neg s = andThen (jg_pop s) (\<lambda>(x, s'). jg_push (- x) s')"

definition math_not :: "jargon \<Rightarrow> jg_result" where
  "math_not s = andThen (jg_pop s) (\<lambda>(x, s'). jg_push (if x = 0 then 1 else 0) s')"

definition jg_halt :: "jargon \<Rightarrow> jg_result" where
  "jg_halt s = Inl (Died '''' ''halted'' s)"

fun jg_push_all :: "u8 list \<Rightarrow> jargon \<Rightarrow> jg_result" where
  "jg_push_all [] s = Inr s"
| "jg_push_all (b # bs) s = andThen (jg_push b s) (jg_push_all bs)"

definition my_syscall :: "u8 list \<Rightarrow> jargon \<Rightarrow> jg_result" where
  "my_syscall flag s = andThen (jg_pop s)
     (\<lambda>(n, s'). if sint n = 42 then jg_push_all (take 256 flag) s'
        else Inl (Died (''Syscall '' @ IntToText (sint n) False @ ''is not implemented!\<newline>'') '''' s'))"

definition pop_stack :: "jargon \<Rightarrow> jg_result" where
  "pop_stack s = andThen (jg_pop s) (\<lambda>(x, s'). Inr s')"

definition jg_flip4 :: "u8 \<Rightarrow> u8" where
  "jg_flip4 b = drop_bit 3 (b AND 0x08) OR drop_bit 1 (b AND 0x04) OR push_bit 1 (b AND 0x02) OR
     push_bit 3 (b AND 0x01)"

definition jg_flip8 :: "u8 \<Rightarrow> u8" where
  "jg_flip8 b = drop_bit 7 (b AND 0x80) OR drop_bit 5 (b AND 0x40) OR drop_bit 3 (b AND 0x20) OR
     drop_bit 1 (b AND 0x10) OR push_bit 1 (b AND 0x08) OR push_bit 3 (b AND 0x04) OR
     push_bit 5 (b AND 0x02) OR push_bit 7 (b AND 0x01)"

definition push_stack :: "jargon \<Rightarrow> jg_result" where
  "push_stack s =
     (let bits0 = jg_code s ! (jg_cp s div 2);
          bits1 = (if jg_cp s mod 2 = 0 then drop_bit 4 bits0 else bits0) AND 0x0F
      in andThen (jg_push (jg_flip4 bits1) s)
           (\<lambda>s'. Inr (s'\<lparr>jg_cp := (jg_cp s' + 1) mod 256\<rparr>)))"

definition dupe_stack :: "jargon \<Rightarrow> jg_result" where
  "dupe_stack s = andThen (jg_pop s) (\<lambda>(x, s'). andThen (jg_push x s') (jg_push x))"

definition swap_stack :: "jargon \<Rightarrow> jg_result" where
  "swap_stack s = andThen (jg_pop2 s) (\<lambda>(x, y, s'). andThen (jg_push x s') (jg_push y))"

definition compare_and_jump :: "jargon \<Rightarrow> jg_result" where
  "compare_and_jump s = andThen (jg_pop s)
     (\<lambda>(compare, s').
        let bits1 = jg_code s' ! (jg_cp s' div 2);
            cp = (jg_cp s' + 1) mod 256;
            bits2 = (if cp mod 2 = 0
                     then push_bit 4 (bits1 AND 0x0F) OR (drop_bit 4 (jg_code s' ! (cp div 2)) AND 0x0F)
                     else bits1);
            cp' = (cp + 1) mod 256
        in Inr (s'\<lparr>jg_cp := (if compare = 0 then unat (jg_flip8 bits2) else cp')\<rparr>))"

subsection \<open>The operation table and the loop of \<open>main\<close>\<close>

definition jg_commands :: "string list" where
  "jg_commands = [''rot13'', ''xyzzy'', ''kluge'', ''hello world'', ''pr0n'', ''stomp on'', ''vax'',
     ''war dialer'', ''warez'', ''ykybhtlw'', ''this can't happen'', ''dead beef'',
     ''reality check'', ''shareware'', ''phreaker'', ''murphy's law'']"

definition jg_functions :: "bool \<Rightarrow> u8 list \<Rightarrow> (jargon \<Rightarrow> jg_result) list" where
  "jg_functions ltr flag = [jg_halt, math_add ltr, math_sub ltr, math_mul ltr, math_div, math_and ltr,
     math_or ltr, math_xor ltr, math_neg, math_mod ltr, my_syscall flag, push_stack, pop_stack,
     dupe_stack, swap_stack, compare_and_jump]"

definition jg_turn :: "bool \<Rightarrow> u8 list \<Rightarrow> jargon \<Rightarrow> jg_result" where
  "jg_turn ltr flag s =
     (let b = jg_code s ! (jg_cp s div 2);
          op = (if jg_cp s mod 2 = 0 then drop_bit 4 b else b);
          s' = s\<lparr>jg_cp := (jg_cp s + 1) mod 256\<rparr>
      in (jg_functions ltr flag ! unat (op AND 0x0F)) s')"

text \<open>The loop and the \<open>die\<close> behind it: the run of a program is always an exit.\<close>

definition jg_run :: "bool \<Rightarrow> u8 list \<Rightarrow> jargon \<Rightarrow> jg_exit" where
  "jg_run ltr flag s =
     (case iter_turn (jg_turn ltr flag) 1000 s of Inl e \<Rightarrow> e
      | Inr s' \<Rightarrow> Died '''' ''1000 opcodes executed'' s')"

subsection \<open>The disassembler\<close>

text \<open>A position is an \<open>unsigned char\<close> and wraps at 256. A disassembler returns the printed text
  and the next position.\<close>

definition push_disas :: "u8 list \<Rightarrow> u8 \<Rightarrow> string \<times> u8" where
  "push_disas code pos =
     (let op0 = code ! (unat pos div 2);
          op = (if unat pos mod 2 = 0 then drop_bit 4 op0 else op0) AND 0x0F;
          pos1 = pos + 1;
          bits0 = code ! (unat pos1 div 2);
          bits = (if unat pos1 mod 2 = 0 then drop_bit 4 bits0 else bits0) AND 0x0F;
          pos2 = pos1 + 1
      in (jg_commands ! unat op @ '' '' @ IntToText (int (unat (jg_flip4 bits))) True, pos2))"

definition caj_disas :: "u8 list \<Rightarrow> u8 \<Rightarrow> string \<times> u8" where
  "caj_disas code pos =
     (let op0 = code ! (unat pos div 2);
          op = (if unat pos mod 2 = 0 then drop_bit 4 op0 else op0) AND 0x0F;
          pos1 = pos + 1;
          bits1 = code ! (unat pos1 div 2);
          pos2 = pos1 + 1;
          bits2 = (if unat pos2 mod 2 = 0
                   then push_bit 4 (bits1 AND 0x0F) OR (drop_bit 4 (code ! (unat pos2 div 2)) AND 0x0F)
                   else bits1);
          pos3 = pos2 + 1
      in (jg_commands ! unat op @ '' '' @ IntToText (int (unat (jg_flip8 bits2))) True, pos3))"

definition jg_disas_at :: "u8 list \<Rightarrow> nat \<Rightarrow> string \<times> nat" where
  "jg_disas_at code i =
     (let b = code ! (i div 2);
          op = unat ((if i mod 2 = 0 then drop_bit 4 b else b) AND 0x0F)
      in if op = 11 then map_prod id unat (push_disas code (of_nat i))
         else if op = 15 then map_prod id unat (caj_disas code (of_nat i))
         else (jg_commands ! op @ ''\<newline>'', i + 1))"

text \<open>The loop with at most \<open>fuel\<close> turns; \<open>None\<close> is "still disassembling".\<close>

fun jg_disas_loop :: "nat \<Rightarrow> u8 list \<Rightarrow> nat \<Rightarrow> nat \<Rightarrow> string option" where
  "jg_disas_loop 0 code len i = None"
| "jg_disas_loop (Suc fuel) code len i =
     (if i < len
      then let (t, j) = jg_disas_at code i in map_option ((@) t) (jg_disas_loop fuel code len j)
      else Some '''')"

definition Disassemble :: "nat \<Rightarrow> u8 list \<Rightarrow> nat \<Rightarrow> string option" where
  "Disassemble fuel code len = map_option (\<lambda>t. ''\<newline>Disassembly\<newline>-----------\<newline>'' @ t @ ''\<newline>'')
     (jg_disas_loop fuel code len 0)"

end
