(* ===== verification/Jargon_Spec.thy ===== *)
theory Jargon_Spec
  imports Jargon
begin

unbundle bit_operations_syntax

text \<open>
  The abstract machine behind \<open>src/jargon/jargon.c\<close>: the stack is a list with the top first, the
  program a sequence of 256 nibbles. The concrete operations refine it (\<open>jg_exec_refines\<close>), and the
  interpretation of \<open>simulation\<close> carries this to whole runs.
\<close>

subsection \<open>The abstract machine\<close>

type_synonym jg_abs = "u8 list \<times> nat"

datatype jg_aexit = Stopped string string jg_abs | Trapped

definition jg_nibble :: "u8 list \<Rightarrow> nat \<Rightarrow> u8" where
  "jg_nibble code p = (if even p then hi_nib (code ! (p div 2)) else lo_nib (code ! (p div 2)))"

definition jg_bin :: "(u8 \<Rightarrow> u8 \<Rightarrow> u8 list \<Rightarrow> jg_aexit + jg_abs) \<Rightarrow> jg_abs \<Rightarrow> jg_aexit + jg_abs" where
  "jg_bin f a = (case fst a of x # y # r \<Rightarrow> f x y r | _ \<Rightarrow> Inl (Stopped '''' ''Stack empty'' ([], snd a)))"

definition jg_un :: "(u8 \<Rightarrow> u8 list \<Rightarrow> jg_aexit + jg_abs) \<Rightarrow> jg_abs \<Rightarrow> jg_aexit + jg_abs" where
  "jg_un f a = (case fst a of x # r \<Rightarrow> f x r | [] \<Rightarrow> Inl (Stopped '''' ''Stack empty'' a))"

definition jg_arith :: "bool \<Rightarrow> (u8 \<Rightarrow> u8 \<Rightarrow> u8) \<Rightarrow> jg_abs \<Rightarrow> jg_aexit + jg_abs" where
  "jg_arith ltr f a = jg_bin (\<lambda>x y r. Inr ((if ltr then f x y else f y x) # r, snd a)) a"

definition jg_spec :: "bool \<Rightarrow> u8 list \<Rightarrow> u8 list \<Rightarrow> nat \<Rightarrow> jg_abs \<Rightarrow> jg_aexit + jg_abs" where
  "jg_spec ltr flag code op a =
     (let xs = fst a; p = snd a in
      if op = 0 then Inl (Stopped '''' ''halted'' a)
      else if op = 1 then jg_arith ltr (+) a
      else if op = 2 then jg_arith ltr (-) a
      else if op = 3 then jg_arith ltr (*) a
      else if op = 4 then
        jg_bin (\<lambda>x y r. if y = 0 then Inl (Stopped '''' ''Divide by 0'' (r, p)) else Inr (x div y # r, p)) a
      else if op = 5 then jg_arith ltr (AND) a
      else if op = 6 then jg_arith ltr (OR) a
      else if op = 7 then jg_arith ltr (XOR) a
      else if op = 8 then jg_un (\<lambda>x r. Inr (- x # r, p)) a
      else if op = 9 then
        jg_bin (\<lambda>x y r. let (n, d) = (if ltr then (x, y) else (y, x)) in
          if d = 0 then Inl Trapped else Inr (word_of_int (sint n smod sint d) # r, p)) a
      else if op = 10 then
        jg_un (\<lambda>x r. let room = 256 - length r; fl = take 256 flag in
          if x \<noteq> 42 then Inl (Stopped (''Syscall '' @ IntToText (sint x) False @ ''is not implemented!\<newline>'') '''' (r, p))
          else if room < length fl then Inl (Stopped '''' ''Stack full'' (rev (take room fl) @ r, p))
          else Inr (rev fl @ r, p)) a
      else if op = 11 then
        (if length xs = 256 then Inl (Stopped '''' ''Stack full'' a)
         else Inr (jg_flip4 (jg_nibble code p) # xs, (p + 1) mod 256))
      else if op = 12 then jg_un (\<lambda>x r. Inr (r, p)) a
      else if op = 13 then
        jg_un (\<lambda>x r. if length r = 255 then Inl (Stopped '''' ''Stack full'' a) else Inr (x # x # r, p)) a
      else if op = 14 then jg_bin (\<lambda>x y r. Inr (y # x # r, p)) a
      else jg_un (\<lambda>x r. Inr (r,
        if x = 0 then unat (jg_flip8 (push_bit 4 (jg_nibble code p) OR jg_nibble code ((p + 1) mod 256)))
        else (p + 2) mod 256)) a)"

definition jg_spec_turn :: "bool \<Rightarrow> u8 list \<Rightarrow> u8 list \<Rightarrow> jg_abs \<Rightarrow> jg_aexit + jg_abs" where
  "jg_spec_turn ltr flag code a =
     jg_spec ltr flag code (unat (jg_nibble code (snd a))) (fst a, (snd a + 1) mod 256)"

subsection \<open>The view of a concrete state\<close>

definition jg_good :: "jargon \<Rightarrow> bool" where
  "jg_good s \<longleftrightarrow> length (jg_stack s) = 256 \<and> length (jg_code s) = 128 \<and> jg_sp s \<le> 256 \<and> jg_cp s < 256"

definition jg_view :: "jargon \<Rightarrow> jg_abs" where
  "jg_view s = (rev (take (jg_sp s) (jg_stack s)), jg_cp s)"

fun jg_vexit :: "jg_exit \<Rightarrow> jg_aexit" where
  "jg_vexit (Died pre msg s) = Stopped pre msg (jg_view s)"
| "jg_vexit Sigfpe = Trapped"

text \<open>A result refines an abstract one and keeps the invariant and the code.\<close>

definition jg_refines :: "u8 list \<Rightarrow> jg_result \<Rightarrow> jg_aexit + jg_abs \<Rightarrow> bool" where
  "jg_refines code m a \<longleftrightarrow> map_sum jg_vexit jg_view m = a \<and>
     (\<forall>s'. m = Inr s' \<longrightarrow> jg_good s' \<and> jg_code s' = code) \<and>
     (\<forall>pre msg s'. m = Inl (Died pre msg s') \<longrightarrow> jg_good s')"

lemma jg_view_sp: "jg_good s \<Longrightarrow> length (fst (jg_view s)) = jg_sp s"
  by (simp add: jg_view_def jg_good_def)

lemma jg_pop_empty: "fst (jg_view s) = [] \<Longrightarrow> jg_good s \<Longrightarrow> jg_pop s = Inl (Died '''' ''Stack empty'' s)"
  by (auto simp: jg_view_def jg_pop_def jg_good_def)

lemma jg_pop_cons:
  assumes "jg_good s" and "fst (jg_view s) = x # r"
  obtains s' where "jg_pop s = Inr (x, s')" "jg_good s'" "jg_view s' = (r, jg_cp s)"
    "jg_code s' = jg_code s" "jg_cp s' = jg_cp s" "jg_sp s' = length r"
proof -
  obtain m where m: "jg_sp s = Suc m"
    using assms(2) by (cases "jg_sp s") (simp_all add: jg_view_def)
  have "m < length (jg_stack s)" using assms(1) m by (simp add: jg_good_def)
  then have "jg_stack s ! m = x" "rev (take m (jg_stack s)) = r"
    using assms(2) by (simp_all add: jg_view_def m take_Suc_conv_app_nth)
  then show thesis
    using that [of "s\<lparr>jg_sp := m\<rparr>"] assms(1) m
    by (auto simp: jg_pop_def jg_good_def jg_view_def)
qed

lemma jg_push_full: "jg_sp s = 256 \<Longrightarrow> jg_push v s = Inl (Died '''' ''Stack full'' s)"
  by (simp add: jg_push_def)

lemma jg_push_room:
  assumes "jg_good s" and "jg_sp s < 256"
  obtains s' where "jg_push v s = Inr s'" "jg_good s'" "jg_view s' = (v # fst (jg_view s), jg_cp s)"
    "jg_code s' = jg_code s" "jg_cp s' = jg_cp s" "jg_sp s' = Suc (jg_sp s)"
  using that [of "s\<lparr>jg_stack := (jg_stack s)[jg_sp s := v], jg_sp := jg_sp s + 1\<rparr>"] assms
  by (auto simp: jg_push_def jg_good_def jg_view_def take_Suc_conv_app_nth)

subsection \<open>Popping operations\<close>

lemma jg_refines_pop:
  assumes good: "jg_good s"
    and f: "\<And>x r s'. \<lbrakk>jg_good s'; jg_view s' = (r, jg_cp s); jg_code s' = jg_code s; jg_cp s' = jg_cp s;
      jg_sp s' = length r; length r < 256; jg_view s = (x # r, jg_cp s)\<rbrakk> \<Longrightarrow> jg_refines (jg_code s) (f (x, s')) (g x r)"
  shows "jg_refines (jg_code s) (andThen (jg_pop s) f) (jg_un g (jg_view s))"
proof (cases "fst (jg_view s)")
  case Nil
  then show ?thesis using jg_pop_empty [OF Nil good] good by (simp add: jg_refines_def jg_un_def)
next
  case (Cons x r)
  obtain s' where s': "jg_pop s = Inr (x, s')" "jg_good s'" "jg_view s' = (r, jg_cp s)"
    "jg_code s' = jg_code s" "jg_cp s' = jg_cp s" "jg_sp s' = length r"
    using jg_pop_cons [OF good Cons] .
  have "length r < 256" using jg_view_sp [OF good] good Cons by (simp add: jg_good_def)
  moreover have "jg_view s = (x # r, jg_cp s)" using Cons by (simp add: jg_view_def)
  ultimately show ?thesis using f [OF s'(2-6)] s'(1) Cons by (simp add: jg_un_def)
qed

lemma jg_refines_pop2:
  assumes good: "jg_good s"
    and f: "\<And>x y r s'. \<lbrakk>jg_good s'; jg_view s' = (r, jg_cp s); jg_code s' = jg_code s; jg_cp s' = jg_cp s;
      jg_sp s' = length r; length r < 255\<rbrakk> \<Longrightarrow> jg_refines (jg_code s) (f (x, y, s')) (g x y r)"
  shows "jg_refines (jg_code s) (andThen (jg_pop2 s) f) (jg_bin g (jg_view s))"
proof (cases "fst (jg_view s)")
  case Nil
  then have "jg_view s = ([], jg_cp s)" by (simp add: jg_view_def)
  with Nil show ?thesis using jg_pop_empty [OF Nil good] good
    by (simp add: jg_refines_def jg_bin_def jg_pop2_def)
next
  case (Cons x q)
  obtain s1 where s1: "jg_pop s = Inr (x, s1)" "jg_good s1" "jg_view s1 = (q, jg_cp s)"
    "jg_code s1 = jg_code s" "jg_cp s1 = jg_cp s"
    using jg_pop_cons [OF good Cons] .
  have snd: "snd (jg_view s) = jg_cp s" by (simp add: jg_view_def)
  show ?thesis
  proof (cases q)
    case Nil
    then have "jg_pop s1 = Inl (Died '''' ''Stack empty'' s1)" using s1 by (intro jg_pop_empty) simp_all
    then show ?thesis using s1 Cons Nil snd by (simp add: jg_refines_def jg_bin_def jg_pop2_def)
  next
    case (Cons y r)
    then have "fst (jg_view s1) = y # r" using s1 by simp
    then obtain s2 where s2: "jg_pop s1 = Inr (y, s2)" "jg_good s2" "jg_view s2 = (r, jg_cp s1)"
      "jg_code s2 = jg_code s1" "jg_cp s2 = jg_cp s1" "jg_sp s2 = length r"
      using jg_pop_cons [OF s1(2)] by blast
    have "length r < 255"
      using jg_view_sp [OF good] good \<open>fst (jg_view s) = x # q\<close> Cons by (simp add: jg_good_def)
    then show ?thesis using f [of s2 r x y] s1 s2 Cons \<open>fst (jg_view s) = x # q\<close>
      by (simp add: jg_bin_def jg_pop2_def)
  qed
qed

lemma jg_refines_push:
  assumes "jg_good s" and "jg_view s = (r, p)" and "length r < 256" and "jg_code s = code"
  shows "jg_refines code (jg_push v s) (Inr (v # r, p))"
proof -
  have "jg_sp s < 256" using jg_view_sp [OF assms(1)] assms by simp
  then obtain s' where "jg_push v s = Inr s'" "jg_good s'" "jg_view s' = (v # fst (jg_view s), jg_cp s)"
    "jg_code s' = jg_code s"
    using jg_push_room [OF assms(1)] by metis
  then show ?thesis using assms by (auto simp: jg_refines_def jg_view_def)
qed

lemma jg_refines_stop:
  "jg_good s \<Longrightarrow> jg_view s = a \<Longrightarrow> jg_refines code (Inl (Died pre msg s)) (Inl (Stopped pre msg a))"
  "jg_refines code (Inl Sigfpe) (Inl Trapped)"
  by (simp_all add: jg_refines_def)

lemma jg_refines_arith:
  assumes "jg_good s"
  shows "jg_refines (jg_code s)
    (andThen (jg_pop2 s) (\<lambda>(x, y, s'). let (a, b) = jg_sides ltr x y in jg_push (f a b) s'))
    (jg_arith ltr f (jg_view s))"
  unfolding jg_arith_def
  by (rule jg_refines_pop2 [OF assms]) (auto simp: jg_sides_def jg_view_def intro!: jg_refines_push)

lemma jg_push_all_view:
  assumes "jg_good s" and "jg_view s = (r, p)"
  shows "jg_refines (jg_code s) (jg_push_all bs s)
    (if 256 - length r < length bs
     then Inl (Stopped '''' ''Stack full'' (rev (take (256 - length r) bs) @ r, p))
     else Inr (rev bs @ r, p))"
  using assms
proof (induction bs arbitrary: s r)
  case Nil
  then show ?case by (auto simp: jg_refines_def)
next
  case (Cons b bs)
  have sp: "jg_sp s = length r" using jg_view_sp [OF Cons.prems(1)] Cons.prems by simp
  have p: "jg_cp s = p" using Cons.prems(2) by (simp add: jg_view_def)
  show ?case
  proof (cases "length r = 256")
    case True
    then show ?thesis using sp Cons.prems by (simp add: jg_push_full jg_refines_def)
  next
    case False
    then have "jg_sp s < 256" using sp Cons.prems by (simp add: jg_good_def)
    then obtain s' where s': "jg_push b s = Inr s'" "jg_good s'"
      "jg_view s' = (b # r, p)" "jg_code s' = jg_code s"
      using jg_push_room [OF Cons.prems(1)] Cons.prems(2) p by (metis fst_conv)
    have "length r < 256" using \<open>jg_sp s < 256\<close> sp by simp
    then obtain k where k: "256 - length r = Suc k" "256 - length (b # r) = k"
      by (metis Suc_diff_Suc length_Cons)
    have "jg_refines (jg_code s) (jg_push_all bs s')
      (if k < length bs then Inl (Stopped '''' ''Stack full'' (rev (take k bs) @ b # r, p))
       else Inr (rev bs @ b # r, p))"
      using Cons.IH [OF s'(2,3)] unfolding k s'(4) .
    then show ?thesis using s'(1) by (auto simp: k(1) split: if_splits)
  qed
qed

subsection \<open>Operands\<close>

lemma hi_nib_masked [simp]: "drop_bit 4 b AND 0x0F = hi_nib b"
  by (rule bit_word_eqI)
    (auto simp: bit_nibs bit_and_iff bit_drop_bit_eq bit_masks8 simp del: bit_numeral_word_iff
      dest: bit_imp_le_length)

lemma jg_nibble_code: "(if p mod 2 = 0 then drop_bit 4 b else b) AND 0x0F = (if even p then hi_nib b else lo_nib b)"
  by (simp add: lo_nib_def even_iff_mod_2_eq_zero)

lemma jg_byte_nibbles: "push_bit 4 (hi_nib b) OR lo_nib b = b"
  by (rule bit_word_eqI) (auto simp: bit_nibs bit_or_iff bit_push_bit_iff dest: bit_imp_le_length)

lemma jg_jump_bits:
  assumes "p < 256"
  shows "(let bits1 = code ! (p div 2); cp = (p + 1) mod 256
      in if cp mod 2 = 0 then push_bit 4 (bits1 AND 0x0F) OR (drop_bit 4 (code ! (cp div 2)) AND 0x0F) else bits1)
    = push_bit 4 (jg_nibble code p) OR jg_nibble code ((p + 1) mod 256)"
proof (cases "even p")
  case True
  then obtain k where k: "p = 2 * k" by (rule evenE)
  with assms have "(p + 1) mod 256 = 2 * k + 1" by simp
  then show ?thesis
    unfolding Let_def jg_nibble_def by (simp add: k jg_byte_nibbles)
next
  case False
  then have even: "even ((p + 1) mod 256)" by (simp add: dvd_mod_iff)
  then have "(p + 1) mod 256 mod 2 = 0" by (simp only: even_iff_mod_2_eq_zero)
  then show ?thesis using False even
    unfolding Let_def jg_nibble_def by (simp only: hi_nib_masked lo_nib_def if_True if_False refl)
qed

subsection \<open>Every operation refines the abstract machine\<close>

lemma jg_refines_pure:
  assumes "jg_good s'" and "jg_code s' = code" and "jg_view s' = a"
  shows "jg_refines code (Inr s') (Inr a)"
  using assms by (simp add: jg_refines_def)

lemma jg_push_stack_refines:
  assumes "jg_good s"
  shows "jg_refines (jg_code s) (push_stack s) (jg_spec ltr flag (jg_code s) 11 (jg_view s))"
proof (cases "jg_sp s = 256")
  case True
  then show ?thesis using jg_view_sp [OF assms] assms
    by (simp add: push_stack_def Let_def jg_push_full jg_refines_def jg_spec_def)
next
  case False
  then have "jg_sp s < 256" using assms by (simp add: jg_good_def)
  define v where "v = jg_flip4 (jg_nibble (jg_code s) (jg_cp s))"
  obtain s' where s': "jg_push v s = Inr s'" "jg_good s'" "jg_view s' = (v # fst (jg_view s), jg_cp s)"
    "jg_code s' = jg_code s" "jg_cp s' = jg_cp s"
    using jg_push_room [OF assms \<open>jg_sp s < 256\<close>] by metis
  have "push_stack s = Inr (s'\<lparr>jg_cp := (jg_cp s + 1) mod 256\<rparr>)"
    using s' by (simp add: push_stack_def Let_def jg_nibble_code v_def jg_nibble_def)
  moreover have "snd (jg_view s) = jg_cp s" by (simp add: jg_view_def)
  ultimately show ?thesis
    using s' False jg_view_sp [OF assms]
    by (auto simp: jg_spec_def Let_def v_def jg_refines_def jg_good_def jg_view_def)
qed

lemma jg_spec_15:
  "jg_spec ltr flag code 15 (xs, p) = jg_un (\<lambda>x r. Inr (r,
     if x = 0 then unat (jg_flip8 (push_bit 4 (jg_nibble code p) OR jg_nibble code ((p + 1) mod 256)))
     else (p + 2) mod 256)) (xs, p)"
  by (simp add: jg_spec_def Let_def)

lemma jg_view_eta: "jg_view s = (fst (jg_view s), jg_cp s)"
  by (simp add: jg_view_def)

lemma jg_jump_refines:
  assumes "jg_good s"
  shows "jg_refines (jg_code s) (compare_and_jump s) (jg_spec ltr flag (jg_code s) 15 (jg_view s))"
  unfolding compare_and_jump_def
proof (subst jg_view_eta, subst jg_spec_15, subst jg_view_eta [symmetric], rule jg_refines_pop [OF assms])
  fix x r s'
  assume s': "jg_good s'" "jg_view s' = (r, jg_cp s)" "jg_code s' = jg_code s" "jg_cp s' = jg_cp s"
  have "jg_cp s' < 256" using s'(1) by (simp add: jg_good_def)
  note bits = jg_jump_bits [OF this, of "jg_code s'", unfolded Let_def]
  have succ: "((jg_cp s' + 1) mod 256 + 1) mod 256 = (jg_cp s' + 2) mod 256" by (simp add: mod_simps)
  have upd: "jg_good (s'\<lparr>jg_cp := q\<rparr>)" "jg_view (s'\<lparr>jg_cp := q\<rparr>) = (r, q)" if "q < 256" for q
    using s' that by (simp_all add: jg_good_def jg_view_def)
  show "jg_refines (jg_code s)
     (case (x, s') of (compare, s') \<Rightarrow>
        let bits1 = jg_code s' ! (jg_cp s' div 2); cp = (jg_cp s' + 1) mod 256;
            bits2 = (if cp mod 2 = 0
                     then push_bit 4 (bits1 AND 0x0F) OR (drop_bit 4 (jg_code s' ! (cp div 2)) AND 0x0F)
                     else bits1);
            cp' = (cp + 1) mod 256
        in Inr (s'\<lparr>jg_cp := (if compare = 0 then unat (jg_flip8 bits2) else cp')\<rparr>))
     (Inr (r, if x = 0 then unat (jg_flip8 (push_bit 4 (jg_nibble (jg_code s) (jg_cp s)) OR
                jg_nibble (jg_code s) ((jg_cp s + 1) mod 256)))
              else (jg_cp s + 2) mod 256))"
    unfolding Let_def prod.case unfolding bits succ unfolding s'(3,4)
    by (rule jg_refines_pure) (simp_all add: upd s')
qed

lemma jg_spec_10:
  "jg_spec ltr flag code 10 (xs, p) = jg_un (\<lambda>x r.
     if x \<noteq> 42 then Inl (Stopped (''Syscall '' @ IntToText (sint x) False @ ''is not implemented!\<newline>'') '''' (r, p))
     else if 256 - length r < length (take 256 flag)
       then Inl (Stopped '''' ''Stack full'' (rev (take (256 - length r) (take 256 flag)) @ r, p))
     else Inr (rev (take 256 flag) @ r, p)) (xs, p)"
  by (simp only: jg_spec_def Let_def fst_conv snd_conv) simp

lemma jg_syscall_refines:
  assumes "jg_good s"
  shows "jg_refines (jg_code s) (my_syscall flag s) (jg_spec ltr flag (jg_code s) 10 (jg_view s))"
  unfolding my_syscall_def
proof (subst jg_view_eta, subst jg_spec_10, subst jg_view_eta [symmetric], rule jg_refines_pop [OF assms])
  fix x :: u8 and r s'
  assume s': "jg_good s'" "jg_view s' = (r, jg_cp s)" "jg_code s' = jg_code s"
  have "sint (42 :: u8) = 42" by simp
  then have 42: "sint x = 42 \<longleftrightarrow> x = 42" by (metis signed_word_eqI)
  show "jg_refines (jg_code s)
     (case (x, s') of (n, s') \<Rightarrow>
        if sint n = 42 then jg_push_all (take 256 flag) s'
        else Inl (Died (''Syscall '' @ IntToText (sint n) False @ ''is not implemented!\<newline>'') '''' s'))
     (if x \<noteq> 42 then Inl (Stopped (''Syscall '' @ IntToText (sint x) False @ ''is not implemented!\<newline>'') '''' (r, jg_cp s))
      else if 256 - length r < length (take 256 flag)
        then Inl (Stopped '''' ''Stack full'' (rev (take (256 - length r) (take 256 flag)) @ r, jg_cp s))
      else Inr (rev (take 256 flag) @ r, jg_cp s))"
    unfolding prod.case 42
    using jg_push_all_view [OF s'(1,2), of "take 256 flag"] s'
    by (cases "x = 42") (simp_all only: if_True if_False refl not_True_eq_False not_False_eq_True s'(3) jg_refines_stop)
qed

lemma jg_small_op_refines:
  assumes "jg_good s"
  shows "jg_refines (jg_code s) (jg_halt s) (jg_spec ltr flag (jg_code s) 0 (jg_view s))"
    and "jg_refines (jg_code s) (math_div s) (jg_spec ltr flag (jg_code s) 4 (jg_view s))"
    and "jg_refines (jg_code s) (math_neg s) (jg_spec ltr flag (jg_code s) 8 (jg_view s))"
    and "jg_refines (jg_code s) (math_mod ltr s) (jg_spec ltr flag (jg_code s) 9 (jg_view s))"
    and "jg_refines (jg_code s) (pop_stack s) (jg_spec ltr flag (jg_code s) 12 (jg_view s))"
proof -
  have p: "snd (jg_view s) = jg_cp s" by (simp add: jg_view_def)
  show "jg_refines (jg_code s) (jg_halt s) (jg_spec ltr flag (jg_code s) 0 (jg_view s))"
    using assms by (simp add: jg_halt_def jg_spec_def jg_refines_stop)
  show "jg_refines (jg_code s) (math_div s) (jg_spec ltr flag (jg_code s) 4 (jg_view s))"
    by (simp add: math_div_def jg_spec_def Let_def p)
      (rule jg_refines_pop2 [OF assms], auto intro!: jg_refines_push jg_refines_stop)
  show "jg_refines (jg_code s) (math_neg s) (jg_spec ltr flag (jg_code s) 8 (jg_view s))"
    by (simp add: math_neg_def jg_spec_def Let_def p)
      (rule jg_refines_pop [OF assms], auto intro!: jg_refines_push)
  show "jg_refines (jg_code s) (math_mod ltr s) (jg_spec ltr flag (jg_code s) 9 (jg_view s))"
    by (simp add: math_mod_def jg_spec_def Let_def p)
      (rule jg_refines_pop2 [OF assms], auto simp: jg_sides_def intro!: jg_refines_push jg_refines_stop)
  show "jg_refines (jg_code s) (pop_stack s) (jg_spec ltr flag (jg_code s) 12 (jg_view s))"
    by (simp add: pop_stack_def jg_spec_def Let_def p)
      (rule jg_refines_pop [OF assms], auto intro!: jg_refines_pure)
qed

text \<open>Pushing a value that was just popped, and then another one.\<close>

lemma jg_push_again:
  assumes s': "jg_good s'" "jg_view s' = (r, p)" "jg_code s' = code" "length r < 256"
  shows "jg_refines code (andThen (jg_push x s') (jg_push y))
    (if length r = 255 then Inl (Stopped '''' ''Stack full'' (x # r, p)) else Inr (y # x # r, p))"
proof -
  have sp: "jg_sp s' = length r" using jg_view_sp [OF s'(1)] s'(2) by simp
  have cp: "jg_cp s' = p" using s'(2) by (simp add: jg_view_def)
  have "jg_sp s' < 256" using sp s'(4) by simp
  obtain t where push: "jg_push x s' = Inr t" and t: "jg_good t" "jg_view t = (x # fst (jg_view s'), jg_cp s')"
    "jg_code t = jg_code s'" "jg_sp t = Suc (jg_sp s')"
    using jg_push_room [OF s'(1) \<open>jg_sp s' < 256\<close>, of x] by metis
  have view: "jg_view t = (x # r, p)" using t(2) s'(2) cp by simp
  show ?thesis
  proof (cases "length r = 255")
    case True
    then have "jg_push y t = Inl (Died '''' ''Stack full'' t)" using t(4) sp by (simp add: jg_push_full)
    then show ?thesis using True push view t(1) by (simp add: jg_refines_stop)
  next
    case False
    then have "jg_refines code (jg_push y t) (Inr (y # x # r, p))"
      using t(1) view t(3) s'(3,4) by (intro jg_refines_push) simp_all
    then show ?thesis using False push by simp
  qed
qed

lemma jg_spec_13: "jg_spec ltr flag code 13 a =
  jg_un (\<lambda>x r. if length r = 255 then Inl (Stopped '''' ''Stack full'' a) else Inr (x # x # r, snd a)) a"
  by (simp add: jg_spec_def Let_def)

lemma jg_spec_14: "jg_spec ltr flag code 14 a = jg_bin (\<lambda>x y r. Inr (y # x # r, snd a)) a"
  by (simp add: jg_spec_def Let_def)

lemma jg_swap_refines:
  assumes "jg_good s"
  shows "jg_refines (jg_code s) (swap_stack s) (jg_spec ltr flag (jg_code s) 14 (jg_view s))"
  unfolding swap_stack_def jg_spec_14
proof (rule jg_refines_pop2 [OF assms])
  fix x y r s'
  assume "jg_good s'" "jg_view s' = (r, jg_cp s)" "jg_code s' = jg_code s" "length r < 255"
  then show "jg_refines (jg_code s) (case (x, y, s') of (x, y, s') \<Rightarrow> andThen (jg_push x s') (jg_push y))
      (Inr (y # x # r, snd (jg_view s)))"
    using jg_push_again [of s' r "jg_cp s" "jg_code s" x y] by (simp add: jg_view_def [of s])
qed

lemma jg_dupe_refines:
  assumes "jg_good s"
  shows "jg_refines (jg_code s) (dupe_stack s) (jg_spec ltr flag (jg_code s) 13 (jg_view s))"
  unfolding dupe_stack_def jg_spec_13
proof (rule jg_refines_pop [OF assms])
  fix x r s'
  assume s': "jg_good s'" "jg_view s' = (r, jg_cp s)" "jg_code s' = jg_code s" "length r < 256"
    and s: "jg_view s = (x # r, jg_cp s)"
  show "jg_refines (jg_code s) (case (x, s') of (x, s') \<Rightarrow> andThen (jg_push x s') (jg_push x))
      (if length r = 255 then Inl (Stopped '''' ''Stack full'' (jg_view s)) else Inr (x # x # r, snd (jg_view s)))"
    unfolding s prod.case snd_conv using s' by (rule jg_push_again)
qed

lemma jg_op_refines:
  assumes good: "jg_good s" and "op < 16"
  shows "jg_refines (jg_code s) ((jg_functions ltr flag ! op) s) (jg_spec ltr flag (jg_code s) op (jg_view s))"
proof -
  note arith = jg_refines_arith [OF good]
  note all = jg_small_op_refines [OF good] jg_swap_refines [OF good] jg_dupe_refines [OF good]
    jg_jump_refines [OF good] jg_syscall_refines [OF good] jg_push_stack_refines [OF good]
  have spec: "jg_spec ltr flag c 1 a = jg_arith ltr (+) a" "jg_spec ltr flag c 2 a = jg_arith ltr (-) a"
    "jg_spec ltr flag c 3 a = jg_arith ltr (*) a" "jg_spec ltr flag c 5 a = jg_arith ltr (AND) a"
    "jg_spec ltr flag c 6 a = jg_arith ltr (OR) a" "jg_spec ltr flag c 7 a = jg_arith ltr (XOR) a" for c a
    by (simp_all add: jg_spec_def)
  have "jg_refines (jg_code s) (math_add ltr s) (jg_spec ltr flag (jg_code s) 1 (jg_view s))"
    "jg_refines (jg_code s) (math_sub ltr s) (jg_spec ltr flag (jg_code s) 2 (jg_view s))"
    "jg_refines (jg_code s) (math_mul ltr s) (jg_spec ltr flag (jg_code s) 3 (jg_view s))"
    "jg_refines (jg_code s) (math_and ltr s) (jg_spec ltr flag (jg_code s) 5 (jg_view s))"
    "jg_refines (jg_code s) (math_or ltr s) (jg_spec ltr flag (jg_code s) 6 (jg_view s))"
    "jg_refines (jg_code s) (math_xor ltr s) (jg_spec ltr flag (jg_code s) 7 (jg_view s))"
    unfolding spec math_add_def math_sub_def math_mul_def math_and_def math_or_def math_xor_def
    by (rule arith)+
  moreover have "op = 0 \<or> op = 1 \<or> op = 2 \<or> op = 3 \<or> op = 4 \<or> op = 5 \<or> op = 6 \<or> op = 7 \<or>
      op = 8 \<or> op = 9 \<or> op = 10 \<or> op = 11 \<or> op = 12 \<or> op = 13 \<or> op = 14 \<or> op = 15"
    using assms(2) by presburger
  ultimately show ?thesis
    using all by (elim disjE) (simp_all add: jg_functions_def)
qed

lemma jg_turn_refines:
  assumes "jg_good s"
  shows "jg_refines (jg_code s) (jg_turn ltr flag s) (jg_spec_turn ltr flag (jg_code s) (jg_view s))"
proof -
  define s' where "s' = s\<lparr>jg_cp := (jg_cp s + 1) mod 256\<rparr>"
  have s': "jg_good s'" "jg_code s' = jg_code s"
    "jg_view s' = (fst (jg_view s), (snd (jg_view s) + 1) mod 256)"
    using assms by (simp_all add: s'_def jg_good_def jg_view_def)
  have "jg_turn ltr flag s = (jg_functions ltr flag ! unat (jg_nibble (jg_code s) (jg_cp s))) s'"
    by (simp only: jg_turn_def Let_def jg_nibble_code s'_def jg_nibble_def)
  moreover have "unat (jg_nibble (jg_code s) (jg_cp s)) < 16"
  proof -
    have "lo_nib (jg_nibble (jg_code s) (jg_cp s)) = jg_nibble (jg_code s) (jg_cp s)"
      by (simp add: jg_nibble_def)
    then show ?thesis by (metis unat_lo_nib)
  qed
  moreover have "snd (jg_view s) = jg_cp s" by (simp add: jg_view_def)
  ultimately show ?thesis using jg_op_refines [OF s'(1)] s' by (simp add: jg_spec_turn_def)
qed

interpretation jg: simulation "jg_turn ltr flag" "jg_spec_turn ltr flag code" jg_view jg_vexit
  "\<lambda>s. jg_good s \<and> jg_code s = code" for ltr flag code
proof unfold_locales
  fix s s'
  assume s: "jg_good s \<and> jg_code s = code"
  then have r: "jg_refines code (jg_turn ltr flag s) (jg_spec_turn ltr flag code (jg_view s))"
    using jg_turn_refines by blast
  then show "map_sum jg_vexit jg_view (jg_turn ltr flag s) = jg_spec_turn ltr flag code (jg_view s)"
    by (simp add: jg_refines_def)
  show "jg_turn ltr flag s = Inr s' \<Longrightarrow> jg_good s' \<and> jg_code s' = code"
    using r by (simp add: jg_refines_def)
qed

end
