(* ===== verification/Jargon_Main.thy ===== *)
theory Jargon_Main
  imports Jargon_Spec
begin

unbundle bit_operations_syntax

text \<open>
  \<open>main\<close> of \<open>src/jargon/jargon.c\<close> with its line reader and number check. The connection is the list
  of bytes the line reader sees and then the sequence of results of \<open>read\<close> on the code: \<open>None\<close> is a
  failing call (-1), \<open>Some []\<close> the end of input. The flag file is \<open>None\<close> if it cannot be
  opened. The outcome is what was printed and how the process ended.
\<close>

datatype jg_outcome = Exits string | Traps string | Wild_Write int

fun ReadLine :: "nat \<Rightarrow> u8 list \<Rightarrow> (u8 list \<times> u8 list) option" where
  "ReadLine 0 inp = Some ([], inp)"
| "ReadLine (Suc n) [] = None"
| "ReadLine (Suc n) (b # bs) =
     (if b = 10 then Some ([b], bs) else map_option (\<lambda>(l, r). (b # l, r)) (ReadLine n bs))"

text \<open>The loop of \<open>IsNumeric\<close> with \<open>n\<close> characters left, at index \<open>i\<close>: the answer and the buffer.\<close>

fun IsNumeric :: "nat \<Rightarrow> nat \<Rightarrow> u8 list \<Rightarrow> bool \<times> u8 list" where
  "IsNumeric 0 i buf = (True, buf)"
| "IsNumeric (Suc n) i buf =
     (if buf ! i = 10 then (i \<noteq> 0, buf[i := 0])
      else if sint (buf ! i) < 0x30 \<or> sint (buf ! i) > 0x39 then (False, buf)
      else IsNumeric n (i + 1) buf)"

fun jg_atoi :: "int \<Rightarrow> u8 list \<Rightarrow> int" where
  "jg_atoi acc [] = acc"
| "jg_atoi acc (b # bs) =
     (if 0x30 \<le> b \<and> b \<le> 0x39 then jg_atoi (acc * 10 + (uint b - 0x30)) bs else acc)"

text \<open>The loop that fills \<open>Code\<close>. A failing \<open>read\<close> is not told from data: it moves the position
  back by one, in front of the array when it was 0.\<close>

fun jg_fill :: "u8 list option list \<Rightarrow> int \<Rightarrow> int \<Rightarrow> u8 list \<Rightarrow> jg_outcome + u8 list" where
  "jg_fill [] pos len code = (if pos < len then Inl (Exits '''') else Inr code)"
| "jg_fill (r # rs) pos len code =
     (if pos < len
      then (case r of
          None \<Rightarrow> jg_fill rs (pos - 1) len code
        | Some bs \<Rightarrow>
            (if bs = [] then Inl (Exits '''')
             else if pos < 0 then Inl (Wild_Write pos)
             else let got = take (nat (len - pos)) bs
                  in jg_fill rs (pos + int (length got)) len
                       (take (nat pos) code @ got @ drop (nat pos + length got) code)))
      else Inr code)"

definition jg_boot :: "u8 list \<Rightarrow> jargon" where
  "jg_boot code = \<lparr>jg_stack = replicate 256 0, jg_code = code, jg_sp = 0, jg_cp = 0\<rparr>"

text \<open>The decimal notation \<open>%d\<close> prints.\<close>

function jg_decimal :: "nat \<Rightarrow> nat list" where
  "jg_decimal v = (if v < 10 then [v] else jg_decimal (v div 10) @ [v mod 10])"
  by auto
termination by (relation "measure id") auto

declare jg_decimal.simps [simp del]

definition jg_percent_d :: "nat \<Rightarrow> string" where
  "jg_percent_d v = map (\<lambda>d. ''0123456789'' ! d) (jg_decimal v)"

fun jg_exit_text :: "jg_exit \<Rightarrow> string \<Rightarrow> jg_outcome" where
  "jg_exit_text (Died pre msg s) out = Exits (out @ pre @ jg_die_text msg s)"
| "jg_exit_text Sigfpe out = Traps out"

definition jg_main :: "bool \<Rightarrow> u8 list option \<Rightarrow> nat \<Rightarrow> u8 list \<Rightarrow> u8 list option list \<Rightarrow> jg_outcome option" where
  "jg_main ltr flag fuel inp reads =
     (case flag of None \<Rightarrow> Some (Exits ''Error opening the flag file\<newline>'')
      | Some secret \<Rightarrow>
     (let out1 = ''How many bytes of code (max 128)?\<newline>'' in
      case ReadLine 4 inp of None \<Rightarrow> Some (Exits out1)
      | Some (line, rest) \<Rightarrow>
     (let (numeric, buf) = IsNumeric 4 0 (line @ replicate (5 - length line) 0) in
      if \<not> numeric then Some (Exits (out1 @ ''Invalid number\<newline>''))
      else
        let len = jg_atoi 0 buf in
        if len \<le> 0 \<or> len > 128 then Some (Exits (out1 @ ''Invalid code length\<newline>''))
        else
          let out2 = out1 @ ''Reading '' @ jg_percent_d (nat len) @ '' bytes of code\<newline>'' in
          case jg_fill reads 0 len (replicate 128 0) of
            Inl (Exits t) \<Rightarrow> Some (Exits (out2 @ t))
          | Inl other \<Rightarrow> Some other
          | Inr code \<Rightarrow>
              map_option (\<lambda>t. jg_exit_text (jg_run ltr secret (jg_boot code)) (out2 @ t))
                (Disassemble fuel code (nat len * 2)))))"

subsection \<open>Digits\<close>

text \<open>The digits, high one first, of a number below \<open>10 ^ n\<close>, as the printing loop takes them.\<close>

fun jg_digits :: "nat \<Rightarrow> nat \<Rightarrow> nat list" where
  "jg_digits 0 v = []"
| "jg_digits (Suc n) v = (v div 10 ^ n) # jg_digits n (v mod 10 ^ n)"

lemma div10_iter: "((\<lambda>x. x div 10) ^^ n) v = v div 10 ^ n" for v :: nat
  by (induction n arbitrary: v) (simp_all add: div_mult2_eq [symmetric] mult.commute funpow_swap1)

lemma mul10_iter: "((\<lambda>x. x * 10) ^^ n) v = v * 10 ^ n" for v :: nat
  by (induction n arbitrary: v) (simp_all add: funpow_swap1)

lemma jg_print_digits_eq: "jg_print_digits n v = concat (map (\<lambda>d. NumNames ! d @ '' '') (jg_digits n v))"
  by (induction n arbitrary: v) (simp_all add: div10_iter mul10_iter Let_def minus_div_mult_eq_mod)

lemma jg_digits_snoc: "v < 10 ^ Suc n \<Longrightarrow> jg_digits (Suc n) v = jg_digits n (v div 10) @ [v mod 10]"
proof (induction n arbitrary: v)
  case 0
  then show ?case by simp
next
  case (Suc n)
  have "v mod 10 ^ Suc n < 10 ^ Suc n" by simp
  note IH = Suc.IH [OF this]
  have "v mod 10 ^ Suc n div 10 = v div 10 mod 10 ^ n"
    by (simp add: mod_mult2_eq)
  moreover have "v mod 10 ^ Suc n mod 10 = v mod 10"
    by (simp add: mod_mult2_eq)
  moreover have "v div 10 ^ Suc n = v div 10 div 10 ^ n"
    by (simp add: div_mult2_eq)
  ultimately show ?case
    by (simp only: jg_digits.simps(2) [of "Suc n"] IH jg_digits.simps(2) [of n "v div 10"] append.simps)
qed

lemma jg_digit_count_bound: "v < 10 ^ jg_digit_count v"
proof (induction v rule: jg_digit_count.induct)
  case (1 v)
  show ?case
  proof (cases "9 < v")
    case True
    then have "v div 10 < 10 ^ jg_digit_count (v div 10)" by (rule 1)
    then have "v < 10 * 10 ^ jg_digit_count (v div 10)" by linarith
    with True show ?thesis by (simp add: jg_digit_count.simps [of v])
  next
    case False
    then show ?thesis by (simp add: jg_digit_count.simps [of v])
  qed
qed

lemma jg_digits_decimal: "jg_digits (jg_digit_count v) v = jg_decimal v"
proof (induction v rule: jg_digit_count.induct)
  case (1 v)
  show ?case
  proof (cases "9 < v")
    case True
    have "v < 10 ^ Suc (jg_digit_count (v div 10))"
      using jg_digit_count_bound [of v] True by (simp add: jg_digit_count.simps [of v])
    with True 1 show ?thesis
      by (simp add: jg_digit_count.simps [of v] jg_decimal.simps [of v] jg_digits_snoc del: jg_digits.simps(2))
  next
    case False
    then show ?thesis by (simp add: jg_digit_count.simps [of v] jg_decimal.simps [of v])
  qed
qed

lemma jg_decimal_value: "foldl (\<lambda>a d. 10 * a + d) 0 (jg_decimal v) = v"
proof (induction v rule: jg_decimal.induct)
  case (1 v)
  then show ?case by (cases "v < 10") (simp_all add: jg_decimal.simps [of v])
qed

lemma jg_decimal_digits: "d \<in> set (jg_decimal v) \<Longrightarrow> d < 10"
proof (induction v rule: jg_decimal.induct)
  case (1 v)
  then show ?case by (cases "v < 10") (auto simp: jg_decimal.simps [of v])
qed

lemma jg_decimal_hd: "0 < v \<Longrightarrow> jg_decimal v \<noteq> [] \<and> 0 < hd (jg_decimal v)"
proof (induction v rule: jg_decimal.induct)
  case (1 v)
  then show ?case by (cases "v < 10") (auto simp: jg_decimal.simps [of v])
qed

subsection \<open>Properties\<close>

text \<open>\<open>IntToText\<close> writes the sign and the decimal digits of its argument, high digit first: the digits are
  below ten, name entries of the table, and their value is the absolute value of the argument.\<close>

theorem IntToText_decimal:
  "\<exists>ds. IntToText z ret = (if z < 0 then ''rogue '' else '''') @ concat (map (\<lambda>d. NumNames ! d @ '' '') ds) @
        (if ret then ''\<newline>'' else '''') \<and>
     (\<forall>d \<in> set ds. d < length NumNames) \<and> foldl (\<lambda>a d. 10 * a + d) 0 ds = nat \<bar>z\<bar> \<and>
     (z \<noteq> 0 \<longrightarrow> 0 < hd ds)"
proof -
  have "IntToText z ret = (if z < 0 then ''rogue '' else '''') @
      concat (map (\<lambda>d. NumNames ! d @ '' '') (jg_decimal (nat \<bar>z\<bar>))) @ (if ret then ''\<newline>'' else '''')"
    by (simp only: IntToText_def Let_def jg_print_digits_eq jg_digits_decimal)
  moreover have "length NumNames = 10" by (simp add: NumNames_def)
  ultimately show ?thesis
    using jg_decimal_digits [of _ "nat \<bar>z\<bar>"] jg_decimal_value [of "nat \<bar>z\<bar>"] jg_decimal_hd [of "nat \<bar>z\<bar>"]
    by (intro exI [of _ "jg_decimal (nat \<bar>z\<bar>)"]) auto
qed

theorem IntToText_decimal_witness:
  "\<exists>ds. IntToText (- 128) True = ''rogue '' @ concat (map (\<lambda>d. NumNames ! d @ '' '') ds) @ ''\<newline>'' \<and> 0 < hd ds"
  using IntToText_decimal [of "- 128" True] by auto

text \<open>C23. The run of a program refines the abstract stack machine: it ends with the same message, the
  same stack and the same position, at the latest after 1000 operations.\<close>

theorem jg_run_refines:
  assumes "jg_good s"
  shows "jg_vexit (jg_run ltr flag s) =
    (case iter_turn (jg_spec_turn ltr flag (jg_code s)) 1000 (jg_view s) of
       Inl e \<Rightarrow> e | Inr a \<Rightarrow> Stopped '''' ''1000 opcodes executed'' a)"
proof -
  have "map_sum jg_vexit jg_view (iter_turn (jg_turn ltr flag) 1000 s) =
      iter_turn (jg_spec_turn ltr flag (jg_code s)) 1000 (jg_view s)"
    using assms by (intro jg.iter_sim) simp
  note sim = this [symmetric]
  show ?thesis
    unfolding sim by (cases "iter_turn (jg_turn ltr flag) 1000 s") (simp_all add: jg_run_def)
qed

lemma jg_boot_good: "length code = 128 \<Longrightarrow> jg_good (jg_boot code)"
  by (simp add: jg_boot_def jg_good_def)

theorem jg_run_refines_witness:
  "jg_vexit (jg_run True [] (jg_boot (replicate 128 0))) = Stopped '''' ''halted'' ([], 1)"
proof -
  have turn: "jg_spec_turn True [] (replicate 128 0) ([], 0) = Inl (Stopped '''' ''halted'' ([], 1))"
    by (simp add: jg_spec_turn_def jg_spec_def jg_nibble_def hi_nib_def Let_def)
  show ?thesis
    using jg_run_refines [OF jg_boot_good, of "replicate 128 0" True "[]"] turn
    by (simp add: jg_boot_def jg_view_def numeral_eq_Suc del: replicate.simps)
qed

lemma jg_turn_exit_good:
  assumes "jg_good s" and "jg_turn ltr flag s = Inl (Died pre msg s')"
  shows "jg_good s'"
  using jg_turn_refines [OF assms(1), of ltr flag] assms(2) by (simp add: jg_refines_def)

lemma jg_run_exit_good:
  assumes "jg_good s" and "jg_run ltr flag s = Died pre msg s'"
  shows "jg_good s'"
proof (cases "iter_turn (jg_turn ltr flag) 1000 s")
  case (Inl e)
  then have "\<exists>s0. (jg_good s0 \<and> jg_code s0 = jg_code s) \<and> jg_turn ltr flag s0 = Inl e"
    using assms(1) by (intro jg.iter_exit) simp_all
  moreover have "e = Died pre msg s'" using assms(2) Inl by (simp add: jg_run_def)
  ultimately show ?thesis using jg_turn_exit_good by blast
next
  case (Inr t)
  have "jg_good s \<and> jg_code s = jg_code s" using assms(1) by simp
  from jg.iter_good [OF this Inr] have "jg_good t \<and> jg_code t = jg_code s" .
  then show ?thesis using assms(2) Inr by (simp add: jg_run_def)
qed

text \<open>No operation leaves the arrays: from a state with at most 256 stack entries and a code
  position below 256, every turn that continues ends in such a state and leaves the code
  alone, and every turn that prints the machine prints such a state.\<close>

theorem jg_turn_good:
  assumes "jg_good s"
  shows "case jg_turn ltr flag s of Inr s' \<Rightarrow> jg_good s' \<and> jg_code s' = jg_code s
    | Inl (Died pre msg s') \<Rightarrow> jg_good s' | Inl Sigfpe \<Rightarrow> True"
  using jg.turn_keeps [of s "jg_code s" ltr flag] jg_turn_exit_good [of s ltr flag] assms
  by (cases "jg_turn ltr flag s") (auto split: jg_exit.split)

theorem jg_turn_good_witness:
  "\<exists>s'. jg_turn True [] (jg_boot (replicate 128 0xB3)) = Inr s' \<and> jg_good s'"
proof -
  define s where "s = jg_boot (replicate 128 0xB3)"
  have "jg_good s" unfolding s_def by (rule jg_boot_good) simp
  have "unat (hi_nib 0xB3) = 11" by (simp add: hi_nib_def)
  then have "jg_turn True [] s = push_stack (s\<lparr>jg_cp := 1\<rparr>)"
    by (simp add: jg_turn_def jg_functions_def Let_def s_def jg_boot_def)
  moreover have "\<exists>s'. push_stack (s\<lparr>jg_cp := 1\<rparr>) = Inr s'"
    by (simp add: push_stack_def jg_push_def Let_def s_def jg_boot_def)
  ultimately obtain s' where s': "jg_turn True [] s = Inr s'" by metis
  then have "jg_good s'" using jg_turn_good [OF \<open>jg_good s\<close>, of True "[]"] by simp
  with s' show ?thesis unfolding s_def by blast
qed

subsection \<open>The disassembler\<close>

lemma jg_disas_next:
  "snd (push_disas code pos) = pos + 2" "snd (caj_disas code pos) = pos + 3"
  by (simp_all add: push_disas_def caj_disas_def Let_def)

lemma jg_disas_advances:
  assumes "i + 3 < 256"
  shows "i < snd (jg_disas_at code i)"
proof -
  have "unat (of_nat i + 2 :: u8) = i + 2" "unat (of_nat i + 3 :: u8) = i + 3"
    using assms by (simp_all add: unat_word_ariths unat_of_nat)
  then show ?thesis by (simp add: jg_disas_at_def Let_def jg_disas_next)
qed

lemma Disassemble_terminates:
  assumes "len \<le> 253" and "len < fuel"
  shows "\<exists>t. Disassemble fuel code len = Some t"
proof -
  have "len - i < fuel \<Longrightarrow> \<exists>t. jg_disas_loop fuel code len i = Some t" for i
  proof (induction fuel arbitrary: i)
    case 0
    then show ?case by simp
  next
    case (Suc fuel)
    show ?case
    proof (cases "i < len")
      case True
      then have "i < snd (jg_disas_at code i)" using assms(1) by (intro jg_disas_advances) simp
      then have "len - snd (jg_disas_at code i) < fuel" using Suc.prems True by linarith
      then show ?thesis using Suc.IH True by (fastforce simp: split_beta)
    qed simp
  qed
  then show ?thesis using assms(2) by (fastforce simp: Disassemble_def)
qed

text \<open>The disassembler ends on every program of at most 126 bytes: as many turns as there are
  nibbles are enough.\<close>

theorem Disassemble_returns:
  assumes "len \<le> 253" and "len < fuel"
  shows "\<exists>t. Disassemble fuel code len = Some t"
  using assms by (rule Disassemble_terminates)

theorem Disassemble_returns_witness: "\<exists>t. Disassemble 253 (replicate 126 0xFB) 252 = Some t"
  by (rule Disassemble_returns) simp_all

text \<open>The position of an operand is an \<open>unsigned char\<close>: in a program of the full 128 bytes an operand at
  the very end moves the disassembler back to the start. A program of push instructions
  only is disassembled forever.\<close>

theorem Disassemble_diverges:
  assumes "\<forall>i < 128. jg_nibble code (2 * i) = 11"
  shows "Disassemble fuel code 256 = None"
proof -
  have "i < 128 \<Longrightarrow> jg_disas_loop fuel code 256 (2 * i) = None" for i
  proof (induction fuel arbitrary: i)
    case 0
    then show ?case by simp
  next
    case (Suc fuel)
    have "jg_nibble code (2 * i) = 11" using assms Suc.prems by blast
    then have "unat ((if 2 * i mod 2 = 0 then drop_bit 4 (code ! (2 * i div 2)) else code ! (2 * i div 2)) AND 0x0F) = 11"
      by (simp only: jg_nibble_code jg_nibble_def) simp
    then have "snd (jg_disas_at code (2 * i)) = unat (of_nat (2 * i) + 2 :: u8)"
      by (simp only: jg_disas_at_def Let_def) (simp add: jg_disas_next)
    also have "\<dots> = 2 * (Suc i mod 128)"
      using Suc.prems by (simp add: unat_word_ariths unat_of_nat mult_mod_right mod_simps)
    finally show ?case using Suc.IH [of "Suc i mod 128"] Suc.prems by (simp add: split_beta)
  qed
  from this [of 0] show ?thesis by (simp add: Disassemble_def)
qed

theorem Disassemble_diverges_witness: "Disassemble 1000000 (replicate 128 0xB7) 256 = None"
  by (rule Disassemble_diverges) (simp add: jg_nibble_def hi_nib_def)

text \<open>The disassembler tells the truth about jumps: the target it prints for an instruction is where
  the machine goes when it executes that instruction with a zero on top of the stack,
  across the end of the code too.\<close>

theorem caj_disas_agrees:
  assumes "jg_good s" and "p < 256" and "jg_nibble (jg_code s) p = 15"
    and "jg_view s = (0 # r, (p + 1) mod 256)"
  shows "\<exists>s'. compare_and_jump s = Inr s' \<and>
    fst (caj_disas (jg_code s) (of_nat p)) = ''murphy's law '' @ IntToText (int (jg_cp s')) True"
proof -
  define q where "q = (p + 1) mod 256"
  have cp: "jg_cp s = q" using assms(4) by (simp add: jg_view_def q_def)
  define target where "target = unat (jg_flip8 (push_bit 4 (jg_nibble (jg_code s) q) OR
    jg_nibble (jg_code s) ((q + 1) mod 256)))"
  have "jg_refines (jg_code s) (compare_and_jump s) (Inr (r, target))"
    using jg_jump_refines [OF assms(1)] assms(4) by (simp add: jg_spec_15 jg_un_def q_def target_def)
  then obtain s' where s': "compare_and_jump s = Inr s'" "jg_view s' = (r, target)"
    by (cases "compare_and_jump s") (auto simp: jg_refines_def)
  have pos: "unat (of_nat p :: u8) = p" "unat (of_nat p + 1 :: u8) = q"
    "unat (of_nat p + 1 + 1 :: u8) = (q + 1) mod 256"
    using assms(2) by (simp_all add: unat_word_ariths unat_of_nat q_def mod_simps)
  have "q < 256" by (simp add: q_def)
  note bits = jg_jump_bits [OF this, of "jg_code s", unfolded Let_def]
  have op: "(if p mod 2 = 0 then drop_bit 4 (jg_code s ! (p div 2)) else jg_code s ! (p div 2)) AND 0x0F = 15"
    using assms(3) by (simp only: jg_nibble_code jg_nibble_def)
  have "fst (caj_disas (jg_code s) (of_nat p)) = jg_commands ! unat (15 :: u8) @ '' '' @ IntToText (int target) True"
    unfolding caj_disas_def Let_def pos fst_conv bits op target_def ..
  moreover have "jg_commands ! unat (15 :: u8) @ '' '' = ''murphy's law ''" by (simp add: jg_commands_def)
  moreover have "jg_cp s' = target" using s'(2) by (simp add: jg_view_def)
  ultimately show ?thesis using s'(1) by (metis append_assoc)
qed

theorem caj_disas_agrees_witness:
  "\<exists>s'. compare_and_jump ((jg_boot (replicate 128 0xFF))\<lparr>jg_sp := 1\<rparr>) = Inr s' \<and>
    fst (caj_disas (replicate 128 0xFF) (of_nat 255)) = ''murphy's law '' @ IntToText (int (jg_cp s')) True"
  using caj_disas_agrees [of "(jg_boot (replicate 128 0xFF))\<lparr>jg_sp := 1\<rparr>" 255 "[]"]
  by (simp add: jg_boot_def jg_good_def jg_view_def jg_nibble_def lo_nib_def)

subsection \<open>The flag\<close>

definition jg_leak :: "u8 list" where "jg_leak = [0xB6, 0xBE, 0x3A, 0x00]"

lemma jg_leak_run:
  assumes "length flag \<le> 256"
  shows "\<exists>s. jg_run ltr flag (jg_boot (jg_leak @ replicate 124 0)) = Died '''' ''halted'' s \<and> jg_view s = (rev flag, 7)"
proof -
  define code where "code = jg_leak @ replicate 124 (0 :: u8)"
  have nib: "jg_nibble code 0 = 11" "jg_nibble code 1 = 6" "jg_nibble code 2 = 11" "jg_nibble code 3 = 14"
    "jg_nibble code 4 = 3" "jg_nibble code 5 = 10" "jg_nibble code 6 = 0"
    by (simp_all add: code_def jg_leak_def jg_nibble_def lo_nib_def hi_nib_def)
  have flip: "jg_flip4 6 = 6" "jg_flip4 14 = 7" by (simp_all add: jg_flip4_def)
  define T where "T = jg_spec_turn ltr flag code"
  have turns: "T ([], 0) = Inr ([6], 2)" "T ([6], 2) = Inr ([7, 6], 4)" "T ([7, 6], 4) = Inr ([42], 5)"
    "T ([42], 5) = Inr (rev flag, 6)" "T (rev flag, 6) = Inl (Stopped '''' ''halted'' (rev flag, 7))"
    using assms
    by (simp_all add: T_def jg_spec_turn_def jg_spec_def Let_def nib [simplified] flip jg_arith_def jg_bin_def jg_un_def)
  have "iter_turn T (Suc (Suc (Suc (Suc (Suc 995))))) ([], 0) = Inl (Stopped '''' ''halted'' (rev flag, 7))"
    by (simp only: iter_turn.simps turns andThen_simps)
  then have run: "iter_turn T 1000 ([], 0) = Inl (Stopped '''' ''halted'' (rev flag, 7))" by simp
  have "length code = 128" by (simp add: code_def jg_leak_def)
  then have "jg_vexit (jg_run ltr flag (jg_boot code)) = Stopped '''' ''halted'' (rev flag, 7)"
    using jg_run_refines [OF jg_boot_good, of code ltr flag] run
    by (simp add: T_def jg_boot_def jg_view_def)
  then show ?thesis unfolding code_def
    by (cases "jg_run ltr flag (jg_boot (jg_leak @ replicate 124 0))") auto
qed

text \<open>System call 42 hands the flag to any client: on a program of four bytes (push 6, push 7, multiply,
  call, halt) the service prints the flag, byte by byte in words, at the end of its output,
  whichever order the compiler pops in.\<close>

theorem jg_main_prints_flag:
  assumes "length flag \<le> 256"
  shows "\<exists>out. jg_main ltr (Some flag) 9 [0x34, 0x0A] [Some jg_leak] =
    Some (Exits (out @ concat (map (\<lambda>b. IntToText (sint b) True) flag)))"
proof -
  obtain s where s: "jg_run ltr flag (jg_boot (jg_leak @ replicate 124 0)) = Died '''' ''halted'' s"
    "jg_view s = (rev flag, 7)"
    using jg_leak_run [OF assms] by blast
  have stack: "take (jg_sp s) (jg_stack s) = flag" using s(2) by (simp add: jg_view_def)
  have "jg_good s" using jg_run_exit_good [OF jg_boot_good s(1)] by (simp add: jg_leak_def)
  then have good: "jg_sp s \<le> length (jg_stack s)" by (simp add: jg_good_def)
  have "map (\<lambda>i. IntToText (sint (jg_stack s ! i)) True) [0..<jg_sp s] =
      map (\<lambda>b. IntToText (sint b) True) (take (jg_sp s) (jg_stack s))"
    using good by (intro nth_equalityI) auto
  then obtain pre where die: "jg_die_text ''halted'' s = pre @ concat (map (\<lambda>b. IntToText (sint b) True) flag)"
    unfolding jg_die_text_def stack by (metis append_assoc)
  have fill: "jg_fill [Some jg_leak] 0 4 (replicate 128 0) = Inr (jg_leak @ replicate 124 0)"
    by (simp add: jg_leak_def)
  have num: "IsNumeric 4 0 ([0x34, 0x0A] @ replicate (5 - length [0x34, 0x0A :: u8]) 0) = (True, [0x34, 0, 0, 0, 0])"
  proof -
    have buf: "[0x34, 0x0A] @ replicate (5 - length [0x34, 0x0A :: u8]) 0 = [0x34, 0x0A, 0, 0, 0 :: u8]"
      by (simp add: eval_nat_numeral)
    have four: "4 = Suc (Suc 2)" by simp
    show ?thesis unfolding buf four IsNumeric.simps by simp
  qed
  have line: "ReadLine 4 [0x34, 0x0A] = Some ([0x34, 0x0A], [])"
  proof -
    have four: "4 = Suc (Suc 2)" by simp
    show ?thesis unfolding four ReadLine.simps by simp
  qed
  have atoi: "jg_atoi 0 [0x34, 0, 0, 0, 0] = 4" by simp
  obtain t where t: "Disassemble 9 (jg_leak @ replicate 124 0) (nat 4 * 2) = Some t"
    using Disassemble_terminates [of "nat 4 * 2" 9 "jg_leak @ replicate 124 0"] by force
  define out where "out = ''How many bytes of code (max 128)?\<newline>'' @ ''Reading '' @ jg_percent_d (nat 4) @
    '' bytes of code\<newline>''"
  have "jg_main ltr (Some flag) 9 [0x34, 0x0A] [Some jg_leak] =
      Some (jg_exit_text (jg_run ltr flag (jg_boot (jg_leak @ replicate 124 0))) (out @ t))"
    unfolding jg_main_def Let_def option.case line prod.case num atoi fill sum.case t option.map out_def
    by simp
  also have "\<dots> = Some (Exits ((out @ t) @ pre @ concat (map (\<lambda>b. IntToText (sint b) True) flag)))"
    unfolding s(1) jg_exit_text.simps die by simp
  finally show ?thesis by (metis append_assoc)
qed

theorem jg_main_prints_flag_witness:
  "\<exists>out. jg_main False (Some [0x41, 0xFF]) 9 [0x34, 0x0A] [Some jg_leak] =
     Some (Exits (out @ concat (map (\<lambda>b. IntToText (sint b) True) [0x41, 0xFF :: u8])))"
  by (rule jg_main_prints_flag) simp

end
