(* ===== verification/Leo.thy ===== *)
theory Leo
  imports Prelude
begin

unbundle bit_operations_syntax

text \<open>
  The data classifier of \<open>src/Leo/leo.c\<close>: the download callback and its buffer, the bubble sort over
  histogram bins, the classification \<open>datatest\<close>, the small tests, the reading loop, the command
  line and the dispatch of \<open>main\<close>. libcurl, the \<open>file\<close> utility, \<open>chdir\<close> and the downloaded module are
  outside the program: what they deliver are arguments. A bin is a pair (byte value,
  occurrences) of unsigned 32-bit integers.
\<close>

subsection \<open>The download buffer\<close>

record leo_mem =
  lm_memory :: "u8 list"
  lm_size :: nat
  lm_current :: nat

datatype leo_fault = Heap_Write nat | Stack_Write nat

text \<open>Writing byte \<open>i\<close> of the allocation.\<close>

definition lm_put :: "nat \<Rightarrow> u8 \<Rightarrow> leo_mem \<Rightarrow> leo_fault + leo_mem" where
  "lm_put i b m = (if i < length (lm_memory m) then Inr (m\<lparr>lm_memory := (lm_memory m)[i := b]\<rparr>) else Inl (Heap_Write i))"

fun lm_copy :: "nat \<Rightarrow> u8 list \<Rightarrow> leo_mem \<Rightarrow> leo_fault + leo_mem" where
  "lm_copy i [] m = Inr m"
| "lm_copy i (b # bs) m = andThen (lm_put i b m) (lm_copy (i + 1) bs)"

definition WriteMemoryCallback :: "u8 list \<Rightarrow> leo_mem \<Rightarrow> leo_fault + (nat \<times> leo_mem)" where
  "WriteMemoryCallback contents m =
     (let realsize = length contents in
      if realsize > lm_size m - lm_current m then Inr (0, m)
      else andThen (lm_copy (lm_current m) contents m)
        (\<lambda>m1. let m2 = m1\<lparr>lm_current := lm_current m1 + realsize\<rparr>
          in andThen (lm_put (lm_current m2) 0 m2) (\<lambda>m3. Inr (realsize, m3))))"

text \<open>The buffer \<open>old_fn\<close> allocates for the module: two pages.\<close>

definition leo_chunk :: "nat \<Rightarrow> leo_mem" where
  "leo_chunk pagesize = \<lparr>lm_memory = replicate (pagesize * 2) 0, lm_size = pagesize * 2, lm_current = 0\<rparr>"

text \<open>The loop of \<open>old_fn\<close> that decodes the downloaded module.\<close>

fun leo_unmask :: "nat \<Rightarrow> nat \<Rightarrow> u8 list \<Rightarrow> u8 list" where
  "leo_unmask i 0 mem = mem"
| "leo_unmask i (Suc n) mem = leo_unmask (i + 1) n (mem[i := mem ! i XOR 0xaa])"

subsection \<open>Sorting\<close>

type_synonym leo_bin = "u32 \<times> u32"

fun leo_pass :: "leo_bin list \<Rightarrow> nat \<Rightarrow> nat \<Rightarrow> leo_bin list" where
  "leo_pass bins x 0 = bins"
| "leo_pass bins x (Suc n) =
     (if snd (bins ! x) > snd (bins ! (x + 1))
      then leo_pass (bins[x + 1 := bins ! x, x := bins ! (x + 1)]) (x + 1) n
      else leo_pass bins (x + 1) n)"

fun leo_passes :: "leo_bin list \<Rightarrow> nat \<Rightarrow> nat \<Rightarrow> nat \<Rightarrow> leo_bin list" where
  "leo_passes bins len i 0 = bins"
| "leo_passes bins len i (Suc n) = leo_passes (leo_pass bins 0 (len - i - 1)) len (i + 1) n"

definition bubblesort :: "leo_bin list \<Rightarrow> nat \<Rightarrow> leo_bin list" where
  "bubblesort bins len = leo_passes bins len 0 (len - 1)"

subsection \<open>Classification\<close>

datatype leo_class = ENCRYPTED | BINARY | ASCII_TEXT | ASCII_DATA | EXECUTABLE | OWNME

fun leo_count :: "leo_bin list \<Rightarrow> u8 list \<Rightarrow> leo_bin list" where
  "leo_count bins [] = bins"
| "leo_count bins (b # bs) =
     leo_count (bins[unat b := (fst (bins ! unat b), snd (bins ! unat b) + 1)]) bs"

text \<open>The loop over the bins before sorting: maximum, minimum and sum of the occurrences.\<close>

fun leo_extremes :: "leo_bin list \<Rightarrow> u32 \<Rightarrow> u32 \<Rightarrow> u32 \<Rightarrow> u32 \<times> u32 \<times> u32" where
  "leo_extremes [] mx mn sm = (mx, mn, sm)"
| "leo_extremes ((v, c) # bs) mx mn sm =
     leo_extremes bs (if c > mx then c else mx) (if c < mn then c else mn) (sm + c)"

text \<open>The loop over the sorted bins: empty bins, smallest and largest value that occurs.\<close>

fun leo_used :: "leo_bin list \<Rightarrow> u32 \<Rightarrow> u32 \<Rightarrow> u32 \<Rightarrow> u32 \<times> u32 \<times> u32" where
  "leo_used [] zero lo hi = (zero, lo, hi)"
| "leo_used ((v, c) # bs) zero lo hi =
     (if c = 0 then leo_used bs (zero + 1) lo hi
      else leo_used bs zero (if v < lo then v else lo) (if v > hi then v else hi))"

definition leo_bins :: "leo_bin list" where
  "leo_bins = map (\<lambda>i. (of_nat i, 0)) [0..<256]"

definition datatest :: "u8 list \<Rightarrow> leo_class" where
  "datatest data =
     (let bins = leo_count leo_bins data;
          (maxcount, mincount, sm) = leo_extremes bins 0 0xffffffff 0;
          avgcount = sm div 256;
          sorted_bins = bubblesort bins 256;
          (zerocount, minnonzero, maxnonzero) = leo_used sorted_bins 0 0x1ff 0
      in if zerocount \<le> 4 \<and> maxcount < avgcount * 10 then ENCRYPTED
         else if maxnonzero < 128 \<and> minnonzero > 8 then
           (if fst (sorted_bins ! 255) = 32 then ASCII_TEXT else ASCII_DATA)
         else if mincount \<noteq> 0 \<and> maxcount > avgcount * 10 then EXECUTABLE
         else if mincount = 0 \<and> maxcount > avgcount * 2 then BINARY
         else OWNME)"

definition yetmoretests :: "u8 list \<Rightarrow> int" where
  "yetmoretests data = (if length data = 0 then int (length data) else 1)"

definition moredatatests :: "u8 list \<Rightarrow> int" where
  "moredatatests data = (if length data = 0 then - 1 else int (length data))"

definition yetanothertest :: "u8 list \<Rightarrow> int" where
  "yetanothertest data = (if length data < 2000 then - 1 else 0)"

fun leo_spaces :: "u8 list \<Rightarrow> nat \<Rightarrow> nat" where
  "leo_spaces [] n = n"
| "leo_spaces (b # bs) n = leo_spaces bs (if b = 0x20 then n + 1 else n)"

definition somestupidtest :: "u8 list \<Rightarrow> int" where
  "somestupidtest data = int (leo_spaces data 0)"

subsection \<open>\<open>main\<close>\<close>

definition CONTENT_READ_SIZE_MAX :: nat where "CONTENT_READ_SIZE_MAX = 16000"

datatype leo_end = Returns int | Exit_Fail | Runs_Module "u8 list" | Faults leo_fault

text \<open>The loop over the arguments: server URL, working directory and what is printed.\<close>

fun leo_arg_loop :: "string list \<Rightarrow> nat \<Rightarrow> nat \<Rightarrow> string \<Rightarrow> string option \<Rightarrow> string list \<Rightarrow>
    string \<times> string option \<times> string list" where
  "leo_arg_loop argv i 0 url dir out = (url, dir, out)"
| "leo_arg_loop argv i (Suc n) url dir out =
     (let url' = (if argv ! i = ''-u'' \<and> i \<noteq> length argv - 1 then argv ! (i + 1) else url);
          hit = (argv ! i = ''-D'' \<and> i \<noteq> length argv - 1)
      in leo_arg_loop argv (i + 1) n url' (if hit then Some (argv ! (i + 1)) else dir)
           (if hit then out @ [argv ! (i + 1)] else out))"

definition leo_args :: "string \<Rightarrow> string list \<Rightarrow> (string \<times> string option \<times> string list) option" where
  "leo_args defaultUrl argv =
     (let argc = length argv in
      if argc > 2 then
        (if argc = 3 \<or> argc = 5 then Some (leo_arg_loop argv 1 (argc - 2) defaultUrl None [])
         else None)
      else Some (defaultUrl, None, []))"

text \<open>The reading loop. Each result of \<open>read\<close> is an error (\<open>None\<close>) or at most the bytes asked for;
  no more results is the end of the input.\<close>

fun leo_read :: "u8 list option list \<Rightarrow> u8 list \<Rightarrow> u8 list option" where
  "leo_read [] data = Some data"
| "leo_read (None # rs) data = None"
| "leo_read (Some bs # rs) data =
     (if bs = [] then Some data
      else let data' = data @ take (CONTENT_READ_SIZE_MAX - length data) bs
           in if length data' = CONTENT_READ_SIZE_MAX then Some data' else leo_read rs data')"

text \<open>
  \<open>filetest\<close>: the output of the \<open>file\<close> utility goes to a stack buffer of 1024 bytes, but \<open>fread\<close> is
  allowed one element of \<open>CONTENT_READ_SIZE_MAX\<close> bytes, so the loop stores everything up to that
  size and reports no element. \<open>file_out\<close> is the output, \<open>None\<close> a failing call before it.
\<close>

definition filetest :: "u8 list option \<Rightarrow> leo_end + u8 list" where
  "filetest file_out =
     (case file_out of None \<Rightarrow> Inl Exit_Fail
      | Some out \<Rightarrow>
          if length (take CONTENT_READ_SIZE_MAX out) > 1024 then Inl (Faults (Stack_Write 1024)) else Inr out)"

definition leo_switch :: "leo_class \<Rightarrow> u8 list \<Rightarrow> u8 list option \<Rightarrow> string list \<Rightarrow> string list \<times> leo_end" where
  "leo_switch r data file_out out =
     (case r of
        ENCRYPTED \<Rightarrow> (out @ [''Data appears to be encrypted or very random.  Further tests aborted.''], Returns 2)
      | ASCII_TEXT \<Rightarrow> (out @ [''This is ASCII text.''], let n = somestupidtest data in Returns 0)
      | ASCII_DATA \<Rightarrow> (out @ [''This is ASCII data.''], let n = yetanothertest data in Returns 0)
      | BINARY \<Rightarrow> (out @ [''I guess its binary data. Let's see what 'file' says...''],
          case filetest file_out of Inl e \<Rightarrow> e | Inr t \<Rightarrow> Returns 0)
      | EXECUTABLE \<Rightarrow> (out @ [''Its an executable?  Let's see what 'file' says...''],
          case filetest file_out of Inl e \<Rightarrow> e | Inr t \<Rightarrow> Returns 0)
      | OWNME \<Rightarrow> (out @ [''This doesn't match my patterns.  Checking...''], Runs_Module data))"

text \<open>
  \<open>welcome\<close> is the message \<open>get_welcome\<close> fetched, \<open>chdir_ok\<close> the result of \<open>chdir\<close>. Running the downloaded
  module on the data ends the model.
\<close>

definition leo_main :: "string \<Rightarrow> string list \<Rightarrow> (string \<Rightarrow> bool) \<Rightarrow> string option \<Rightarrow> u8 list option list \<Rightarrow>
    u8 list option \<Rightarrow> string list \<times> leo_end" where
  "leo_main defaultUrl argv chdir_ok welcome reads file_out =
     (case leo_args defaultUrl argv of None \<Rightarrow> ([], Exit_Fail)
      | Some (url, dir, out) \<Rightarrow>
     (if (\<exists>d. dir = Some d \<and> \<not> chdir_ok d) then (out, Exit_Fail)
      else
      let out1 = out @ (case welcome of Some msg \<Rightarrow> [msg]
            | None \<Rightarrow> [''No welcome message or hint text found.  You are on your own, Bucko.'']) in
      case leo_read reads [] of None \<Rightarrow> (out1, Exit_Fail)
      | Some data \<Rightarrow>
        if moredatatests data = - 1
        then (out1 @ [''There appears to be no data.... did you send some?''], Returns 0)
        else if yetanothertest data = - 1
        then (out1 @ [''I need more data to analyze.''], Returns 0)
        else leo_switch (datatest data) data file_out out1))"

end
