(* ===== verification/Leo_Props.thy ===== *)
theory Leo_Props
  imports Leo
begin

unbundle bit_operations_syntax

text \<open>
  Properties of the data classifier: the sort is a sort, the classification is a function of
  the byte counts, the download buffer overruns by one byte when it is filled exactly, and only
  data that fits no pattern reaches the downloaded module.
\<close>

subsection \<open>The sort\<close>

lemma leo_pass_spec:
  assumes "x + n < length bins"
  shows "mset (leo_pass bins x n) = mset bins \<and> length (leo_pass bins x n) = length bins \<and>
    drop (x + n + 1) (leo_pass bins x n) = drop (x + n + 1) bins \<and>
    (\<forall>j. x \<le> j \<longrightarrow> j \<le> x + n \<longrightarrow> snd (bins ! j) \<le> snd (leo_pass bins x n ! (x + n)))"
  using assms
proof (induction n arbitrary: bins x)
  case 0
  then show ?case by simp
next
  case (Suc n)
  define bins' where "bins' = (if snd (bins ! x) > snd (bins ! (x + 1))
    then bins[x + 1 := bins ! x, x := bins ! (x + 1)] else bins)"
  have rec: "leo_pass bins x (Suc n) = leo_pass bins' (x + 1) n" by (simp add: bins'_def)
  have len: "length bins' = length bins" by (simp add: bins'_def)
  have ms: "mset bins' = mset bins"
    using Suc.prems mset_swap [of x bins "x + 1"] by (simp add: bins'_def list_update_swap)
  have dr: "drop (x + n + 2) bins' = drop (x + n + 2) bins" by (simp add: bins'_def)
  have step: "snd (bins ! x) \<le> snd (bins' ! (x + 1))" "snd (bins ! (x + 1)) \<le> snd (bins' ! (x + 1))"
    and far: "\<And>j. x + 2 \<le> j \<Longrightarrow> bins' ! j = bins ! j"
    using Suc.prems by (auto simp: bins'_def)
  define top where "top = snd (leo_pass bins' (x + 1) n ! (x + 1 + n))"
  have "x + 1 + n < length bins'" using Suc.prems len by simp
  note IH = Suc.IH [OF this]
  then have up: "\<And>j. x + 1 \<le> j \<Longrightarrow> j \<le> x + 1 + n \<Longrightarrow> snd (bins' ! j) \<le> top"
    unfolding top_def by blast
  have "snd (bins ! j) \<le> top" if j: "x \<le> j" "j \<le> x + n + 1" for j
  proof -
    consider "j = x" | "j = x + 1" | "x + 2 \<le> j" using j by linarith
    then show ?thesis
      using step up [of "x + 1"] up [of j] far [of j] j by cases (auto intro: order.trans)
  qed
  then show ?case
    using IH ms len dr unfolding rec by (simp add: top_def)
qed

lemma leo_passes_spec:
  assumes "i + n + 1 = len" and "length bins = len"
    and "sorted (map snd (drop (len - i) bins))"
    and "\<And>a b. a \<in> set (take (len - i) bins) \<Longrightarrow> b \<in> set (drop (len - i) bins) \<Longrightarrow> snd a \<le> snd b"
  shows "mset (leo_passes bins len i n) = mset bins \<and> sorted (map snd (leo_passes bins len i n))"
  using assms
proof (induction n arbitrary: bins i)
  case 0
  then have one: "len - i = 1" by simp
  have "length (take 1 bins) = 1" using 0 by simp
  then obtain a where a: "take 1 bins = [a]" by (metis One_nat_def length_0_conv length_Suc_conv)
  have split: "bins = a # drop 1 bins" using a by (metis append_Cons append_Nil append_take_drop_id)
  have "sorted (map snd (a # drop 1 bins))" using 0 one a by simp
  then have "sorted (map snd bins)" using split by metis
  then show ?case by simp
next
  case (Suc n)
  define m where "m = len - i - 1"
  define res where "res = leo_pass bins 0 m"
  have m: "m < length bins" "len - i = Suc m" "len - (i + 1) = m"
    using Suc.prems(1,2) by (simp_all add: m_def)
  have r: "mset res = mset bins" "length res = length bins" "drop (Suc m) res = drop (Suc m) bins"
    "\<And>j. j \<le> m \<Longrightarrow> snd (bins ! j) \<le> snd (res ! m)"
    using leo_pass_spec [of 0 m bins] m(1) by (simp_all add: res_def)
  have "mset (take (Suc m) res) = mset (take (Suc m) bins)"
    using r(1,3) by (metis add_right_cancel append_take_drop_id mset_append)
  then have front: "set (take (Suc m) res) = set (take (Suc m) bins)" by (metis set_mset_mset)
  have top: "snd a \<le> snd (res ! m)" if a: "a \<in> set (take (Suc m) res)" for a
  proof -
    obtain j where "j < Suc m" "a = bins ! j"
      using a m(1) unfolding front by (auto simp: in_set_conv_nth)
    then show ?thesis using r(4) by simp
  qed
  have drop_m: "drop m res = res ! m # drop (Suc m) bins"
    using m(1) r(2,3) by (metis Cons_nth_drop_Suc)
  have rm: "res ! m \<in> set (take (Suc m) res)"
    using m(1) r(2) by (metis in_set_conv_nth length_take lessI min_less_iff_conj nth_take)
  then have rm_below: "snd (res ! m) \<le> snd b" if "b \<in> set (drop (Suc m) bins)" for b
    using Suc.prems(4) [of "res ! m" b] that m(2) front by simp
  have "sorted (map snd (drop (len - (i + 1)) res))"
    using Suc.prems(3) rm_below unfolding m(3) drop_m by (auto simp: m(2))
  moreover have "snd a \<le> snd b" if "a \<in> set (take (len - (i + 1)) res)" "b \<in> set (drop (len - (i + 1)) res)" for a b
  proof -
    have "a \<in> set (take (Suc m) res)" using that(1) m(3) by (metis lessI less_or_eq_imp_le set_take_subset_set_take subsetD)
    then show ?thesis using top [of a] rm_below [of b] that(2) unfolding m(3) drop_m by fastforce
  qed
  moreover have "length res = len" "i + 1 + n + 1 = len" using r(2) Suc.prems(1,2) by simp_all
  ultimately have "mset (leo_passes res len (i + 1) n) = mset res \<and> sorted (map snd (leo_passes res len (i + 1) n))"
    by (intro Suc.IH) auto
  then show ?case using r(1) by (simp add: res_def m_def)
qed

lemma bubblesort_ok:
  assumes "length bins = len" and "0 < len"
  shows "mset (bubblesort bins len) = mset bins" and "sorted (map snd (bubblesort bins len))"
  using leo_passes_spec [of 0 "len - 1" len bins] assms by (simp_all add: bubblesort_def)

text \<open>C31. \<open>bubblesort\<close> sorts the bins by their number of occurrences: the result is a rearrangement of the
  bins in ascending order.\<close>

theorem bubblesort_sorts:
  assumes "length bins = len" and "0 < len"
  shows "mset (bubblesort bins len) = mset bins \<and> sorted (map snd (bubblesort bins len))"
  using bubblesort_ok [OF assms] by blast

theorem bubblesort_sorts_witness:
  "mset (bubblesort [(0, 5), (1, 2), (2, 9)] 3) = mset [(0, 5), (1, 2), (2, 9)] \<and>
   sorted (map snd (bubblesort [(0, 5), (1, 2), (2, 9)] 3))"
  by (rule bubblesort_sorts) simp_all

subsection \<open>The histogram\<close>

lemma leo_count_nth:
  assumes "length bins = 256" and "i < 256"
  shows "leo_count bins data ! i = (fst (bins ! i), snd (bins ! i) + of_nat (count_list data (of_nat i)))"
    and "length (leo_count bins data) = 256"
proof -
  have "length bins = 256 \<Longrightarrow> leo_count bins data ! i = (fst (bins ! i), snd (bins ! i) + of_nat (count_list data (of_nat i)))"
  proof (induction data arbitrary: bins)
    case Nil
    then show ?case by simp
  next
    case (Cons b data)
    have eq: "(b = of_nat i) = (unat b = i)" using assms(2) by (auto simp: unat_of_nat)
    show ?case using Cons assms(2) by (auto simp: nth_list_update eq)
  qed
  then show "leo_count bins data ! i = (fst (bins ! i), snd (bins ! i) + of_nat (count_list data (of_nat i)))"
    using assms(1) .
  have "length (leo_count bins data) = length bins" by (induction data arbitrary: bins) simp_all
  then show "length (leo_count bins data) = 256" using assms(1) by simp
qed

definition leo_hist :: "u8 list \<Rightarrow> leo_bin list" where
  "leo_hist data = leo_count leo_bins data"

lemma leo_bins_len: "length leo_bins = 256"
  by (simp add: leo_bins_def)

lemma leo_hist_len: "length (leo_hist data) = 256"
  unfolding leo_hist_def using leo_count_nth(2) [OF leo_bins_len, of 0] by simp

lemma leo_hist_nth: "leo_hist data ! unat (v :: u8) = (ucast v, of_nat (count_list data v))"
proof -
  have v: "unat v < 256" by simp
  have "leo_bins ! unat v = (of_nat (unat v), 0)" using v by (simp add: leo_bins_def del: unat_u8_less)
  then show ?thesis
    using leo_count_nth(1) [OF leo_bins_len v, of data] by (simp add: leo_hist_def)
qed

lemma leo_hist_map: "leo_hist data = map (\<lambda>i. leo_hist data ! i) [0..<256]"
  using leo_hist_len by (metis map_nth)

lemma set_leo_hist: "set (leo_hist data) = range (\<lambda>v :: u8. (ucast v, of_nat (count_list data v)))"
proof -
  have "(!) (leo_hist data) ` {0..<256} = range (\<lambda>v :: u8. leo_hist data ! unat v)"
  proof -
    have "{0..<256} = range (unat :: u8 \<Rightarrow> nat)"
    proof
      show "{0..<256} \<subseteq> range (unat :: u8 \<Rightarrow> nat)"
      proof
        fix i :: nat
        assume "i \<in> {0..<256}"
        then have "unat (of_nat i :: u8) = i" by (simp add: unat_of_nat)
        then show "i \<in> range (unat :: u8 \<Rightarrow> nat)" by (metis rangeI)
      qed
      show "range (unat :: u8 \<Rightarrow> nat) \<subseteq> {0..<256}" by auto
    qed
    then show ?thesis by (simp add: image_image)
  qed
  moreover have "set (leo_hist data) = (!) (leo_hist data) ` {0..<256}"
    by (subst leo_hist_map) simp
  ultimately show ?thesis by (simp add: leo_hist_nth)
qed

lemma sum_list_bump: "k < length xs \<Longrightarrow> sum_list (xs[k := xs ! k + 1]) = sum_list xs + (1 :: 'a :: comm_ring_1)"
  by (induction xs arbitrary: k) (auto simp: nth_Cons split: nat.splits)

lemma leo_count_sum:
  "length bins = 256 \<Longrightarrow> sum_list (map snd (leo_count bins data)) = sum_list (map snd bins) + of_nat (length data)"
proof (induction data arbitrary: bins)
  case Nil
  then show ?case by simp
next
  case (Cons b data)
  have "map snd (bins[unat b := (fst (bins ! unat b), snd (bins ! unat b) + 1)])
      = (map snd bins)[unat b := map snd bins ! unat b + 1]"
    using Cons.prems by (simp add: map_update)
  moreover have "unat b < length (map snd bins)" using Cons.prems by simp
  ultimately have "sum_list (map snd (bins[unat b := (fst (bins ! unat b), snd (bins ! unat b) + 1)]))
      = sum_list (map snd bins) + 1"
    using sum_list_bump [of "unat b" "map snd bins"] by metis
  then show ?case using Cons by simp
qed

lemma leo_hist_sum: "sum_list (map snd (leo_hist data)) = of_nat (length data)"
  using leo_count_sum [OF leo_bins_len, of data] by (simp add: leo_hist_def leo_bins_def comp_def)

subsection \<open>What the loops over the bins compute\<close>

lemma leo_extremes_spec:
  "leo_extremes bs mx mn sm = (mx', mn', sm') \<Longrightarrow>
   sm' = sm + sum_list (map snd bs) \<and> mx \<le> mx' \<and> mn' \<le> mn \<and>
   (\<forall>b \<in> set bs. snd b \<le> mx' \<and> mn' \<le> snd b) \<and>
   (mx' = mx \<or> mx' \<in> snd ` set bs) \<and> (mn' = mn \<or> mn' \<in> snd ` set bs)"
proof (induction bs mx mn sm rule: leo_extremes.induct)
  case (1 mx mn sm)
  then show ?case by simp
next
  case (2 v c bs mx mn sm)
  then have "leo_extremes bs (if c > mx then c else mx) (if c < mn then c else mn) (sm + c) = (mx', mn', sm')"
    by simp
  from "2.IH" [OF this] show ?case by (auto simp: add.assoc split: if_splits)
qed

lemma leo_used_spec:
  "leo_used bs zero lo hi = (zero', lo', hi') \<Longrightarrow>
   zero' = zero + of_nat (length (filter (\<lambda>b. snd b = 0) bs)) \<and> lo' \<le> lo \<and> hi \<le> hi' \<and>
   (\<forall>b \<in> set bs. snd b \<noteq> 0 \<longrightarrow> lo' \<le> fst b \<and> fst b \<le> hi') \<and>
   (lo' = lo \<or> (\<exists>b \<in> set bs. snd b \<noteq> 0 \<and> fst b = lo')) \<and>
   (hi' = hi \<or> (\<exists>b \<in> set bs. snd b \<noteq> 0 \<and> fst b = hi'))"
proof (induction bs zero lo hi rule: leo_used.induct)
  case (1 zero lo hi)
  then show ?case by simp
next
  case (2 v c bs zero lo hi)
  show ?case
  proof (cases "c = 0")
    case True
    then show ?thesis using 2 by (auto simp: add.assoc)
  next
    case False
    then have "leo_used bs zero (if v < lo then v else lo) (if v > hi then v else hi) = (zero', lo', hi')"
      using 2 by simp
    from 2(2) [OF False this] show ?thesis using False by (auto split: if_splits)
  qed
qed

lemma leo_absent:
  assumes "length data < 2 ^ 32"
  shows "length (filter (\<lambda>b. snd b = 0) (leo_hist data)) = card (- set data)"
proof -
  have zero: "snd (leo_hist data ! unat v) = 0 \<longleftrightarrow> v \<notin> set data" for v
  proof -
    have "count_list data v \<le> length data" by (rule count_le_length)
    then have "count_list data v < 2 ^ 32" using assms by linarith
    then have "(of_nat (count_list data v) :: u32) = 0 \<longleftrightarrow> count_list data v = 0"
      by (simp add: word_unat_eq_iff unat_of_nat)
    then show ?thesis by (simp add: leo_hist_nth count_list_0_iff)
  qed
  have "length (filter (\<lambda>b. snd b = 0) (leo_hist data)) = card {i. i < 256 \<and> snd (leo_hist data ! i) = 0}"
    by (simp add: length_filter_conv_card leo_hist_len)
  also have "{i. i < 256 \<and> snd (leo_hist data ! i) = 0} = unat ` (- set data)"
  proof
    show "{i. i < 256 \<and> snd (leo_hist data ! i) = 0} \<subseteq> unat ` (- set data)"
    proof
      fix i
      assume i: "i \<in> {i. i < 256 \<and> snd (leo_hist data ! i) = 0}"
      then have "unat (of_nat i :: u8) = i" by (simp add: unat_of_nat)
      with i zero [of "of_nat i"] show "i \<in> unat ` (- set data)" by (intro image_eqI [of _ _ "of_nat i"]) auto
    qed
    show "unat ` (- set data) \<subseteq> {i. i < 256 \<and> snd (leo_hist data ! i) = 0}"
      using zero by auto
  qed
  also have "card (unat ` (- set data)) = card (- set data)"
    by (rule card_image) (simp add: inj_on_def word_unat_eq_iff)
  finally show ?thesis .
qed

subsection \<open>The classification\<close>

lemma unat_hist:
  assumes "length data \<le> 16000"
  shows "unat (of_nat (count_list data v) :: u32) = count_list data v" and "count_list data v \<le> 16000"
proof -
  show "count_list data v \<le> 16000" using count_le_length [of data v] assms by linarith
  then show "unat (of_nat (count_list data v) :: u32) = count_list data v" by (simp add: unat_of_nat)
qed

lemma unat_avg:
  assumes "length data \<le> 16000" and "k \<le> 16"
  shows "unat (of_nat (length data) div 256 * of_nat k :: u32) = length data div 256 * k"
proof -
  have "unat (of_nat (length data) :: u32) = length data" using assms by (simp add: unat_of_nat)
  moreover have "unat (of_nat k :: u32) = k" using assms by (simp add: unat_of_nat)
  moreover have "length data div 256 * k \<le> 62 * 16"
    using assms by (intro mult_le_mono) simp_all
  moreover from this have "length data div 256 * k < 4294967296" by linarith
  moreover have "length data div 256 < 4294967296" using assms(1) by linarith
  ultimately show ?thesis by (simp add: unat_word_ariths unat_div)
qed

lemma leo_maximum:
  assumes "length data \<le> 16000" and "leo_extremes (leo_hist data) 0 0xffffffff 0 = (mx, mn, sm)"
  shows "mx < K \<longleftrightarrow> (\<forall>v. count_list data v < unat K)" and "K < mx \<longleftrightarrow> (\<exists>v. unat K < count_list data v)"
    and "mn = 0 \<longleftrightarrow> set data \<noteq> UNIV" and "sm = of_nat (length data)"
proof -
  note spec = leo_extremes_spec [OF assms(2)]
  have all: "of_nat (count_list data v) \<le> mx" "mn \<le> of_nat (count_list data v)" for v
    using spec unfolding set_leo_hist by auto
  then have up: "count_list data v \<le> unat mx" for v
    using unat_hist(1) [OF assms(1), of v] by (metis word_le_nat_alt)
  have "mx = 0 \<or> (\<exists>v. mx = of_nat (count_list data v))"
    using spec unfolding set_leo_hist by auto
  moreover have "mx = 0 \<Longrightarrow> mx = of_nat (count_list data 0)"
    using all(1) [of 0] by simp
  ultimately obtain v where v: "mx = of_nat (count_list data v)" by blast
  then have mx: "unat mx = count_list data v" using unat_hist(1) [OF assms(1)] by simp
  show "mx < K \<longleftrightarrow> (\<forall>v. count_list data v < unat K)"
    unfolding word_less_nat_alt using up mx by (metis le_less_trans)
  show "K < mx \<longleftrightarrow> (\<exists>v. unat K < count_list data v)"
    unfolding word_less_nat_alt using up mx by (metis less_le_trans)
  have low: "mn = 0xffffffff \<or> (\<exists>w. mn = of_nat (count_list data w))"
    using spec unfolding set_leo_hist by auto
  show "mn = 0 \<longleftrightarrow> set data \<noteq> UNIV"
  proof
    assume "mn = 0"
    with low obtain w where "of_nat (count_list data w) = (0 :: u32)" by auto
    then have "count_list data w = 0" using unat_hist(1) [OF assms(1), of w] by simp
    then show "set data \<noteq> UNIV" by (metis UNIV_I count_list_0_iff)
  next
    assume "set data \<noteq> UNIV"
    then obtain w where "w \<notin> set data" by blast
    then have "count_list data w = 0" by (simp add: count_list_0_iff)
    then show "mn = 0" using all(2) [of w] by simp
  qed
  show "sm = of_nat (length data)" using spec leo_hist_sum by simp
qed

lemma leo_sorted:
  defines "sb data \<equiv> bubblesort (leo_hist data) 256"
  shows "mset (sb data) = mset (leo_hist data)" and "sorted (map snd (sb data))"
    and "length (sb data) = 256" and "set (sb data) = set (leo_hist data)"
proof -
  show m: "mset (sb data) = mset (leo_hist data)" and "sorted (map snd (sb data))"
    using bubblesort_ok [OF leo_hist_len] by (simp_all add: sb_def)
  show "length (sb data) = 256" using m by (metis leo_hist_len size_mset)
  show "set (sb data) = set (leo_hist data)" using m by (metis set_mset_mset)
qed

lemma leo_top:
  assumes "length data \<le> 16000"
  shows "\<exists>top. fst (bubblesort (leo_hist data) 256 ! 255) = ucast (top :: u8) \<and>
    (\<forall>v. count_list data v \<le> count_list data top)"
proof -
  define sb where "sb = bubblesort (leo_hist data) 256"
  note sb = leo_sorted [of data, folded sb_def]
  have "sb ! 255 \<in> set sb" using sb(3) by (intro nth_mem) simp
  then obtain top :: u8 where top: "sb ! 255 = (ucast top, of_nat (count_list data top))"
    unfolding sb(4) set_leo_hist by auto
  have "count_list data v \<le> count_list data top" for v
  proof -
    have "(ucast v, of_nat (count_list data v)) \<in> set sb"
      unfolding sb(4) set_leo_hist by auto
    then obtain j where j: "j < 256" "sb ! j = (ucast v, of_nat (count_list data v))"
      using sb(3) by (auto simp: in_set_conv_nth)
    then have "map snd sb ! j \<le> map snd sb ! 255"
      using sb(2,3) by (intro sorted_nth_mono) simp_all
    then have "(of_nat (count_list data v) :: u32) \<le> of_nat (count_list data top)"
      using j sb(3) top by simp
    then show ?thesis using unat_hist(1) [OF assms] by (simp add: word_le_nat_alt)
  qed
  then show ?thesis using top unfolding sb_def by auto
qed

lemma leo_values:
  assumes "length data \<le> 16000" and "leo_used (bubblesort (leo_hist data) 256) 0 0x1ff 0 = (zero, lo, hi)"
  shows "zero \<le> 4 \<longleftrightarrow> card (- set data) \<le> 4" and "hi < 128 \<and> lo > 8 \<longleftrightarrow> (\<forall>v \<in> set data. 8 < v \<and> v < 128)"
proof -
  define sb where "sb = bubblesort (leo_hist data) 256"
  note sb = leo_sorted [of data, folded sb_def]
  note spec = leo_used_spec [OF assms(2) [folded sb_def]]
  have "length (filter (\<lambda>b. snd b = 0) sb) = length (filter (\<lambda>b. snd b = 0) (leo_hist data))"
    using sb(1) by (metis mset_filter size_mset)
  also have "\<dots> = card (- set data)" using assms(1) by (intro leo_absent) simp
  finally have "zero = of_nat (card (- set data))" using spec by simp
  moreover have "card (- set data) \<le> 256"
    using card_mono [of UNIV "- set data"] by (simp add: card_word)
  ultimately show "zero \<le> 4 \<longleftrightarrow> card (- set data) \<le> 4"
    by (simp add: word_le_nat_alt unat_of_nat)
  have used: "(\<exists>b \<in> set sb. snd b \<noteq> 0 \<and> P (fst b)) \<longleftrightarrow> (\<exists>v \<in> set data. P (ucast v))" for P :: "u32 \<Rightarrow> bool"
  proof -
    have "(of_nat (count_list data v) :: u32) \<noteq> 0 \<longleftrightarrow> v \<in> set data" for v
      by (simp only: word_unat_eq_iff unat_hist(1) [OF assms(1)] unat_0 count_list_0_iff) simp
    then show ?thesis unfolding sb(4) set_leo_hist by auto
  qed
  have small: "(ucast v :: u32) < 128 \<longleftrightarrow> v < 128" "8 < (ucast v :: u32) \<longleftrightarrow> 8 < v" for v :: u8
    by (simp_all add: word_less_nat_alt)
  have "hi < 128 \<longleftrightarrow> (\<forall>b \<in> set sb. snd b \<noteq> 0 \<longrightarrow> fst b < 128)"
    using spec by (auto intro: le_less_trans)
  moreover have "lo > 8 \<longleftrightarrow> (\<forall>b \<in> set sb. snd b \<noteq> 0 \<longrightarrow> 8 < fst b)"
    using spec by (auto intro: less_le_trans)
  ultimately show "hi < 128 \<and> lo > 8 \<longleftrightarrow> (\<forall>v \<in> set data. 8 < v \<and> v < 128)"
    using used [of "\<lambda>x. \<not> x < 128"] used [of "\<lambda>x. \<not> 8 < x"] small by blast
qed

lemma datatest_classified:
  assumes "length data \<le> CONTENT_READ_SIZE_MAX"
  shows "\<exists>top. (\<forall>v. count_list data v \<le> count_list data top) \<and>
    datatest data =
      (if card (- set data) \<le> 4 \<and> (\<forall>v. count_list data v < length data div 256 * 10) then ENCRYPTED
       else if \<forall>v \<in> set data. 8 < v \<and> v < 128 then (if top = 0x20 then ASCII_TEXT else ASCII_DATA)
       else if set data = UNIV \<and> (\<exists>v. count_list data v > length data div 256 * 10) then EXECUTABLE
       else if set data \<noteq> UNIV \<and> (\<exists>v. count_list data v > length data div 256 * 2) then BINARY
       else OWNME)"
proof -
  have len: "length data \<le> 16000" using assms by (simp add: CONTENT_READ_SIZE_MAX_def)
  obtain mx mn sm where ex: "leo_extremes (leo_hist data) 0 0xffffffff 0 = (mx, mn, sm)"
    using prod_cases3 by blast
  obtain zero lo hi where us: "leo_used (bubblesort (leo_hist data) 256) 0 0x1ff 0 = (zero, lo, hi)"
    using prod_cases3 by blast
  obtain top :: u8 where top: "fst (bubblesort (leo_hist data) 256 ! 255) = ucast top"
    "\<forall>v. count_list data v \<le> count_list data top"
    using leo_top [OF len] by blast
  have top32: "(ucast top :: u32) = 32 \<longleftrightarrow> top = 0x20"
    by (simp add: word_unat_eq_iff)
  have avg: "unat (of_nat (length data) div 256 * 10 :: u32) = length data div 256 * 10"
    "unat (of_nat (length data) div 256 * 2 :: u32) = length data div 256 * 2"
    using unat_avg [OF len, of 10] unat_avg [OF len, of 2] by simp_all
  have sm: "sm = of_nat (length data)" by (rule leo_maximum(4) [OF len ex])
  have "datatest data =
     (if zero \<le> 4 \<and> mx < sm div 256 * 10 then ENCRYPTED
      else if hi < 128 \<and> lo > 8 then
        (if fst (bubblesort (leo_hist data) 256 ! 255) = 32 then ASCII_TEXT else ASCII_DATA)
      else if mn \<noteq> 0 \<and> mx > sm div 256 * 10 then EXECUTABLE
      else if mn = 0 \<and> mx > sm div 256 * 2 then BINARY
      else OWNME)"
    by (simp only: datatest_def leo_hist_def [symmetric] ex us Let_def prod.case)
  then have "datatest data =
     (if card (- set data) \<le> 4 \<and> (\<forall>v. count_list data v < length data div 256 * 10) then ENCRYPTED
      else if \<forall>v \<in> set data. 8 < v \<and> v < 128 then (if top = 0x20 then ASCII_TEXT else ASCII_DATA)
      else if set data = UNIV \<and> (\<exists>v. count_list data v > length data div 256 * 10) then EXECUTABLE
      else if set data \<noteq> UNIV \<and> (\<exists>v. count_list data v > length data div 256 * 2) then BINARY
      else OWNME)"
    unfolding sm leo_values [OF len us] leo_maximum(1-3) [OF len ex] top(1) top32 avg not_not .
  then show ?thesis using top(2) by blast
qed

text \<open>C30. The classification in terms of the data: the counts of its byte values, how many values are
  absent and which range the present ones have. \<open>top\<close> is a most frequent byte.\<close>

theorem datatest_classifies:
  assumes "length data \<le> CONTENT_READ_SIZE_MAX"
  shows "\<exists>top. (\<forall>v. count_list data v \<le> count_list data top) \<and>
    datatest data =
      (if card (- set data) \<le> 4 \<and> (\<forall>v. count_list data v < length data div 256 * 10) then ENCRYPTED
       else if \<forall>v \<in> set data. 8 < v \<and> v < 128 then (if top = 0x20 then ASCII_TEXT else ASCII_DATA)
       else if set data = UNIV \<and> (\<exists>v. count_list data v > length data div 256 * 10) then EXECUTABLE
       else if set data \<noteq> UNIV \<and> (\<exists>v. count_list data v > length data div 256 * 2) then BINARY
       else OWNME)"
  using assms by (rule datatest_classified)

theorem datatest_classifies_witness:
  "\<exists>top :: u8. (\<forall>v. count_list (replicate 2000 (0x41 :: u8)) v \<le> count_list (replicate 2000 0x41) top) \<and>
     datatest (replicate 2000 0x41) = (if top = 0x20 then ASCII_TEXT else ASCII_DATA)"
proof -
  have "card (- {0x41 :: u8}) = 255" by (simp add: Compl_eq_Diff_UNIV card_Diff_singleton card_word)
  then show ?thesis
    using datatest_classifies [of "replicate 2000 0x41"]
    by (simp add: CONTENT_READ_SIZE_MAX_def split del: if_split)
qed

subsection \<open>The download buffer\<close>

lemma lm_copy_ok:
  assumes "i + length bs \<le> length (lm_memory m)"
  shows "lm_copy i bs m =
    Inr (m\<lparr>lm_memory := take i (lm_memory m) @ bs @ drop (i + length bs) (lm_memory m)\<rparr>)"
  using assms
proof (induction bs arbitrary: i m)
  case Nil
  then show ?case by simp
next
  case (Cons b bs)
  define m1 where "m1 = m\<lparr>lm_memory := (lm_memory m)[i := b]\<rparr>"
  have "i < length (lm_memory m)" using Cons.prems by simp
  then have put: "lm_put i b m = Inr m1" by (simp add: lm_put_def m1_def)
  have "lm_copy (i + 1) bs m1 =
      Inr (m1\<lparr>lm_memory := take (i + 1) (lm_memory m1) @ bs @ drop (i + 1 + length bs) (lm_memory m1)\<rparr>)"
    using Cons.prems by (intro Cons.IH) (simp add: m1_def)
  moreover have "take (i + 1) (lm_memory m1) = take i (lm_memory m) @ [b]"
    using \<open>i < length (lm_memory m)\<close> by (simp add: m1_def take_Suc_conv_app_nth)
  ultimately show ?case using put by (simp add: m1_def)
qed

text \<open>The callback appends a chunk that leaves room for the terminator and answers its size, refuses
  one that is too long, and writes one byte behind the allocation when the chunk fills the
  buffer exactly.\<close>

theorem WriteMemoryCallback_overrun:
  assumes "length (lm_memory m) = lm_size m" and "lm_current m \<le> lm_size m"
  shows "WriteMemoryCallback contents m =
    (if length contents > lm_size m - lm_current m then Inr (0, m)
     else if length contents = lm_size m - lm_current m then Inl (Heap_Write (lm_size m))
     else Inr (length contents,
       m\<lparr>lm_memory := take (lm_current m) (lm_memory m) @ contents @ [0] @
            drop (lm_current m + length contents + 1) (lm_memory m),
         lm_current := lm_current m + length contents\<rparr>))"
proof (cases "length contents \<le> lm_size m - lm_current m")
  case False
  then show ?thesis by (simp add: WriteMemoryCallback_def)
next
  case True
  define mem where "mem = take (lm_current m) (lm_memory m) @ contents @ drop (lm_current m + length contents) (lm_memory m)"
  have mem: "length mem = lm_size m" using assms True by (simp add: mem_def)
  have "lm_copy (lm_current m) contents m = Inr (m\<lparr>lm_memory := mem\<rparr>)"
    using assms True unfolding mem_def by (intro lm_copy_ok) simp
  then have *: "WriteMemoryCallback contents m =
      andThen (lm_put (lm_current m + length contents) 0 (m\<lparr>lm_memory := mem, lm_current := lm_current m + length contents\<rparr>))
        (\<lambda>m3. Inr (length contents, m3))"
    using True by (simp add: WriteMemoryCallback_def Let_def)
  show ?thesis
  proof (cases "length contents = lm_size m - lm_current m")
    case True
    then show ?thesis using * mem assms by (simp add: lm_put_def)
  next
    case False
    with True have less: "lm_current m + length contents < lm_size m" by simp
    then have "mem[lm_current m + length contents := 0] =
        take (lm_current m) (lm_memory m) @ contents @ [0] @ drop (lm_current m + length contents + 1) (lm_memory m)"
    proof -
      have "lm_current m + length contents < length (lm_memory m)" using less assms by simp
      then have "mem = (take (lm_current m) (lm_memory m) @ contents) @
          lm_memory m ! (lm_current m + length contents) # drop (Suc (lm_current m + length contents)) (lm_memory m)"
        unfolding mem_def by (simp add: Cons_nth_drop_Suc)
      moreover have "length (take (lm_current m) (lm_memory m) @ contents) = lm_current m + length contents"
        using assms by simp
      ultimately have "mem[lm_current m + length contents := 0] = (take (lm_current m) (lm_memory m) @ contents) @
          0 # drop (Suc (lm_current m + length contents)) (lm_memory m)"
        by (metis list_update_length)
      then show ?thesis by simp
    qed
    then show ?thesis using * less mem True False by (simp add: lm_put_def)
  qed
qed

theorem WriteMemoryCallback_overrun_witness:
  "WriteMemoryCallback (replicate 8192 0x41) (leo_chunk 4096) = Inl (Heap_Write 8192)"
  using WriteMemoryCallback_overrun [of "leo_chunk 4096" "replicate 8192 0x41"] by (simp add: leo_chunk_def)

lemma leo_unmask_map:
  "i + n \<le> length mem \<Longrightarrow>
   leo_unmask i n mem = take i mem @ map (\<lambda>b. b XOR 0xaa) (take n (drop i mem)) @ drop (i + n) mem"
proof (induction n arbitrary: i mem)
  case 0
  then show ?case by simp
next
  case (Suc n)
  then have i: "i < length mem" by simp
  then have "take (Suc n) (drop i mem) = mem ! i # take n (drop (Suc i) mem)"
    by (simp add: Cons_nth_drop_Suc [symmetric])
  moreover have "take (i + 1) (mem[i := mem ! i XOR 0xaa]) = take i mem @ [mem ! i XOR 0xaa]"
    using i by (simp add: take_Suc_conv_app_nth)
  ultimately show ?case using Suc i by simp
qed

text \<open>Decoding the downloaded module twice is decoding it never: the loop of the constructor is its own
  inverse on the whole buffer.\<close>

theorem leo_unmask_twice: "leo_unmask 0 (length mem) (leo_unmask 0 (length mem) mem) = mem"
proof -
  have "(b XOR 0xaa) XOR 0xaa = (b :: u8)" for b by (simp add: xor.assoc)
  then show ?thesis using leo_unmask_map [of 0 "length mem" mem]
      leo_unmask_map [of 0 "length mem" "map (\<lambda>b. b XOR 0xaa) mem"] by (simp add: comp_def)
qed

subsection \<open>Dispatch\<close>

lemma leo_read_bound: "length data \<le> CONTENT_READ_SIZE_MAX \<Longrightarrow> leo_read rs data = Some d \<Longrightarrow> length d \<le> CONTENT_READ_SIZE_MAX"
  by (induction rs data rule: leo_read.induct) (auto simp: Let_def split: if_splits)

text \<open>The downloaded module only ever runs on 2000 to 16000 bytes of input that fit none of the
  patterns: everything shorter, and everything with a classification, is answered in the program.\<close>

theorem leo_module_guarded:
  assumes "leo_main url argv chdir_ok welcome reads file_out = (out, Runs_Module d)"
  shows "2000 \<le> length d \<and> length d \<le> CONTENT_READ_SIZE_MAX \<and> datatest d = OWNME"
proof -
  have ftest: "filetest file_out \<noteq> Inl (Runs_Module d)"
    by (auto simp: filetest_def split: option.splits if_splits)
  obtain u dir out0 where args: "leo_args url argv = Some (u, dir, out0)"
    using assms by (auto simp: leo_main_def split: option.splits)
  obtain data where data: "leo_read reads [] = Some data"
    using assms by (auto simp: leo_main_def Let_def args split: option.splits if_splits)
  have "leo_switch (datatest data) data file_out out1 = (out, Runs_Module d) \<Longrightarrow> data = d \<and> datatest data = OWNME" for out1
    using ftest by (auto simp: leo_switch_def split: leo_class.splits sum.splits)
  moreover have "\<exists>out1. leo_switch (datatest data) data file_out out1 = (out, Runs_Module d)" "2000 \<le> length data"
    using assms
    by (auto simp: leo_main_def Let_def args data yetanothertest_def split: if_splits)
  ultimately have "data = d \<and> datatest data = OWNME" "2000 \<le> length data" by blast+
  moreover have "length data \<le> CONTENT_READ_SIZE_MAX" using leo_read_bound [OF _ data] by simp
  ultimately show ?thesis by blast
qed

text \<open>Data that reaches the module: 16 times the byte values 0 to 127.\<close>

definition leo_even :: "u8 list" where
  "leo_even = concat (replicate 16 (map of_nat [0..<128]))"

lemma count_list_concat_replicate: "count_list (concat (replicate n xs)) v = n * count_list xs v"
  by (induction n) simp_all

lemma distinct_count_le: "distinct xs \<Longrightarrow> count_list xs v \<le> 1"
  by (induction xs) (auto simp: count_list_0_iff)

lemma leo_even_own: "datatest leo_even = OWNME" "length leo_even = 2048"
proof -
  define base where "base = (map of_nat [0..<128] :: u8 list)"
  have len: "length leo_even = 2048" by (simp add: leo_even_def length_concat sum_list_replicate)
  have "distinct base"
    unfolding base_def distinct_map
    by (auto simp: inj_on_def word_unat_eq_iff unat_of_nat)
  then have "count_list base v \<le> 1" for v by (rule distinct_count_le)
  then have few: "count_list leo_even v \<le> 16" for v
    by (simp add: leo_even_def base_def [symmetric] count_list_concat_replicate)
  have set: "set leo_even = {v. unat v < 128}"
  proof
    show "set leo_even \<subseteq> {v. unat v < 128}" by (auto simp: leo_even_def unat_of_nat)
    show "{v. unat v < 128} \<subseteq> set leo_even"
    proof
      fix v :: u8
      assume "v \<in> {v. unat v < 128}"
      then have "v = of_nat (unat v)" "unat v \<in> {0..<128}" by simp_all
      then have "v \<in> of_nat ` {0..<128}" by (rule image_eqI)
      then show "v \<in> set leo_even" by (simp add: leo_even_def)
    qed
  qed
  have "- set leo_even \<supseteq> {128, 129, 130, 131, 132}" unfolding set by simp
  then have "card {128, 129, 130, 131, 132 :: u8} \<le> card (- set leo_even)"
    by (intro card_mono) simp_all
  then have absent: "\<not> card (- set leo_even) \<le> 4" by simp
  have "(0 :: u8) \<in> set leo_even" unfolding set by simp
  then have low: "\<not> (\<forall>v \<in> set leo_even. 8 < v \<and> v < 128)" by force
  have "(128 :: u8) \<notin> set leo_even" unfolding set by simp
  then have part: "set leo_even \<noteq> UNIV" by blast
  have rare: "\<not> (\<exists>v. count_list leo_even v > length leo_even div 256 * 2)"
    using few by (simp add: len not_less)
  obtain top where "datatest leo_even =
      (if card (- set leo_even) \<le> 4 \<and> (\<forall>v. count_list leo_even v < length leo_even div 256 * 10) then ENCRYPTED
       else if \<forall>v \<in> set leo_even. 8 < v \<and> v < 128 then (if top = (0x20 :: u8) then ASCII_TEXT else ASCII_DATA)
       else if set leo_even = UNIV \<and> (\<exists>v. count_list leo_even v > length leo_even div 256 * 10) then EXECUTABLE
       else if set leo_even \<noteq> UNIV \<and> (\<exists>v. count_list leo_even v > length leo_even div 256 * 2) then BINARY
       else OWNME)"
    using datatest_classified [of leo_even] len by (auto simp: CONTENT_READ_SIZE_MAX_def)
  then show "datatest leo_even = OWNME" using absent low part rare by (simp only: if_False simp_thms)
  show "length leo_even = 2048" by (rule len)
qed

theorem leo_module_guarded_witness:
  "\<exists>out. leo_main ''http://x/'' [''leo''] (\<lambda>d. True) None [Some leo_even] None = (out, Runs_Module leo_even) \<and>
     2000 \<le> length leo_even \<and> datatest leo_even = OWNME"
proof -
  have "leo_read [Some leo_even] [] = Some leo_even"
    using leo_even_own(2) by (auto simp: CONTENT_READ_SIZE_MAX_def)
  then have "\<exists>out. leo_main ''http://x/'' [''leo''] (\<lambda>d. True) None [Some leo_even] None = (out, Runs_Module leo_even)"
    using leo_even_own
    by (simp add: leo_main_def leo_args_def moredatatests_def yetanothertest_def leo_switch_def Let_def del: leo_read.simps)
  then show ?thesis using leo_module_guarded by blast
qed

end
