(* ===== verification/Liberty_Decode.thy ===== *)
theory Liberty_Decode
  imports Prelude
begin

unbundle bit_operations_syntax

text \<open>
  The decompressors of the liberty payloads: \<open>decompress.c\<close>, \<open>decompress1.c\<close> to \<open>decompress3.c\<close> in
  \<open>src/liberty/kernel\<close> and \<open>payload-decompress.c\<close> in \<open>src/liberty/server/payloads/64\<close>. They work
  on two stack buffers of 10000 bytes. A buffer is its list of bytes, stale bytes behind the
  data included (what the stack held at the start is an argument); a read or a write outside
  is the fault \<open>Buf_Read\<close> or \<open>Buf_Write\<close>. A pass fills \<open>OutBuffer\<close> from its start, so a pass keeps the
  bytes it has written, and \<open>overlay\<close> puts them over the old contents.

  The loops of layers 2 and 3 depend on the input alone and may run forever: they take fuel,
  and \<open>None\<close> is "still running".
\<close>

subsection \<open>Buffers\<close>

definition BUFLEN :: nat where "BUFLEN = 10000"

datatype lib_fault = Buf_Read nat | Buf_Write nat | Entry_Write nat

definition buf_rd :: "u8 list \<Rightarrow> nat \<Rightarrow> lib_fault + u8" where
  "buf_rd buf i = (if i < length buf then Inr (buf ! i) else Inl (Buf_Read i))"

definition buf_emit :: "u8 list \<Rightarrow> u8 list \<Rightarrow> lib_fault + u8 list" where
  "buf_emit out bs =
     (if length out + length bs \<le> BUFLEN then Inr (out @ bs) else Inl (Buf_Write (length out)))"

definition overlay :: "u8 list \<Rightarrow> u8 list \<Rightarrow> u8 list" where
  "overlay out buf = out @ drop (length out) buf"

text \<open>A copy of \<open>n\<close> bytes from position \<open>i\<close>.\<close>

definition buf_slice :: "u8 list \<Rightarrow> nat \<Rightarrow> nat \<Rightarrow> lib_fault + u8 list" where
  "buf_slice buf i n = (if i + n \<le> length buf then Inr (take n (drop i buf)) else Inl (Buf_Read (i + n)))"

subsection \<open>Layer 1: run lengths\<close>

function layer1_loop :: "u8 list \<Rightarrow> u8 \<Rightarrow> nat \<Rightarrow> nat \<Rightarrow> u8 list \<Rightarrow> lib_fault + u8 list" where
  "layer1_loop buf key len pos out =
     (if pos < len
      then andThen (buf_rd buf pos) (\<lambda>b.
        if b = key
        then andThen (buf_rd buf (pos + 1)) (\<lambda>n.
          if n = 0 then andThen (buf_emit out [b]) (layer1_loop buf key len (pos + 2))
          else andThen (buf_rd buf (pos + 2)) (\<lambda>d.
            andThen (buf_emit out (replicate (unat n + 3) d)) (layer1_loop buf key len (pos + 3))))
        else andThen (buf_emit out [b]) (layer1_loop buf key len (pos + 1)))
      else Inr out)"
  by pat_completeness auto
termination by (relation "measure (\<lambda>(buf, key, len, pos, out). len - pos)") auto

declare layer1_loop.simps [simp del]

definition layer1 :: "u8 list \<Rightarrow> nat \<Rightarrow> lib_fault + u8 list" where
  "layer1 buf len = andThen (buf_rd buf 0) (\<lambda>key. layer1_loop buf key len 1 [])"

subsection \<open>Layer 2: dictionary\<close>

text \<open>
  The entry loop: the entries read so far, each a list of bytes, and the position behind them. The
  table has room for 256 entries. Every turn advances the position inside the buffer.
\<close>

function layer2_entries :: "u8 list \<Rightarrow> nat \<Rightarrow> u8 list list \<Rightarrow> lib_fault + (u8 list list \<times> nat)" where
  "layer2_entries buf pos es =
     (if pos < length buf
      then
        let n = unat (buf ! pos) in
        if n = 0 then Inr (es, pos)
        else if length es = 256 then Inl (Entry_Write 256)
        else andThen (buf_slice buf (pos + 1) n) (\<lambda>e. layer2_entries buf (pos + n + 1) (es @ [e]))
      else Inl (Buf_Read pos))"
  by pat_completeness auto
termination by (relation "measure (\<lambda>(buf, pos, es). length buf - pos)") auto

declare layer2_entries.simps [simp del]

text \<open>One pass: every \<open>key, ent\<close> becomes entry \<open>ent\<close>, every \<open>key, 0xff\<close> a literal key byte.\<close>

function layer2_pass :: "u8 list \<Rightarrow> u8 \<Rightarrow> nat \<Rightarrow> u8 list \<Rightarrow> nat \<Rightarrow> nat \<Rightarrow> u8 list \<Rightarrow> lib_fault + u8 list" where
  "layer2_pass buf key ent entry len pos out =
     (if pos < len
      then andThen (buf_rd buf pos) (\<lambda>b.
        if b = key
        then andThen (buf_rd buf (pos + 1)) (\<lambda>n.
          if n = 0xff then andThen (buf_emit out [b]) (layer2_pass buf key ent entry len (pos + 2))
          else if unat n = ent then andThen (buf_emit out entry) (layer2_pass buf key ent entry len (pos + 2))
          else andThen (buf_emit out [b]) (layer2_pass buf key ent entry len (pos + 1)))
        else andThen (buf_emit out [b]) (layer2_pass buf key ent entry len (pos + 1)))
      else Inr out)"
  by pat_completeness auto
termination by (relation "measure (\<lambda>(buf, key, ent, entry, len, pos, out). len - pos)") auto

declare layer2_pass.simps [simp del]

text \<open>The passes from the last entry down to the first: buffer and length.\<close>

fun layer2_passes :: "u8 \<Rightarrow> u8 list list \<Rightarrow> nat \<Rightarrow> u8 list \<Rightarrow> nat \<Rightarrow> lib_fault + (u8 list \<times> nat)" where
  "layer2_passes key es 0 buf len = Inr (buf, len)"
| "layer2_passes key es (Suc n) buf len =
     andThen (layer2_pass buf key n (es ! n) len 0 [])
       (\<lambda>out. layer2_passes key es n (overlay out buf) (length out))"

text \<open>\<open>DataLen -= CurPos\<close> can become negative; \<open>memcpy\<close> then gets a huge count.\<close>

definition layer2_round :: "u8 list \<Rightarrow> nat \<Rightarrow> lib_fault + (u8 list \<times> nat)" where
  "layer2_round buf len =
     andThen (buf_rd buf 0) (\<lambda>key.
     andThen (layer2_entries buf 1 []) (\<lambda>(es, pos).
       if len < pos then Inl (Buf_Read BUFLEN)
       else andThen (buf_slice buf pos (len - pos)) (\<lambda>rest.
         layer2_passes key es (length es) (overlay rest buf) (len - pos))))"

fun layer2 :: "nat \<Rightarrow> u8 list \<Rightarrow> nat \<Rightarrow> (lib_fault + (u8 list \<times> nat)) option" where
  "layer2 0 buf len = None"
| "layer2 (Suc fuel) buf len =
     (case buf_rd buf 0 of Inl e \<Rightarrow> Some (Inl e)
      | Inr b \<Rightarrow>
          if b = 0 then Some (Inr (buf, len))
          else (case layer2_round buf len of Inl e \<Rightarrow> Some (Inl e)
                | Inr (buf', len') \<Rightarrow> layer2 fuel buf' len'))"

subsection \<open>Layer 3: byte pairs\<close>

function layer3_pass :: "u8 list \<Rightarrow> u8 \<Rightarrow> u8 \<Rightarrow> u8 list \<Rightarrow> nat \<Rightarrow> nat \<Rightarrow> u8 list \<Rightarrow> lib_fault + u8 list" where
  "layer3_pass buf special key dat len pos out =
     (if pos < len
      then andThen (buf_rd buf pos) (\<lambda>b.
        if b = key
        then andThen (buf_rd buf (pos + 1)) (\<lambda>n.
          if n = special then andThen (buf_emit out [b]) (layer3_pass buf special key dat len (pos + 2))
          else andThen (buf_emit out dat) (layer3_pass buf special key dat len (pos + 1)))
        else andThen (buf_emit out [b]) (layer3_pass buf special key dat len (pos + 1)))
      else Inr out)"
  by pat_completeness auto
termination by (relation "measure (\<lambda>(buf, special, key, dat, len, pos, out). len - pos)") auto

declare layer3_pass.simps [simp del]

fun layer3 :: "nat \<Rightarrow> u8 \<Rightarrow> u8 list \<Rightarrow> nat \<Rightarrow> (lib_fault + (u8 list \<times> nat)) option" where
  "layer3 0 special buf len = None"
| "layer3 (Suc fuel) special buf len =
     (case andThen (buf_rd buf 0) (\<lambda>key.
           if key = special then Inr None
           else andThen (buf_rd buf 1) (\<lambda>d0. andThen (buf_rd buf 2) (\<lambda>d1.
             andThen (layer3_pass buf special key [d0, d1] len 3 []) (\<lambda>out. Inr (Some out))))) of
        Inl e \<Rightarrow> Some (Inl e)
      | Inr None \<Rightarrow> Some (Inr (buf, len))
      | Inr (Some out) \<Rightarrow> layer3 fuel special (overlay out buf) (length out))"

subsection \<open>The programs\<close>

text \<open>The single-layer tools read a file into \<open>InBuffer\<close>, at most its size, and write the result.\<close>

definition load :: "u8 list \<Rightarrow> u8 list \<Rightarrow> u8 list \<times> nat" where
  "load garbage file = (let bs = take BUFLEN file in (overlay bs garbage, length bs))"

definition decompress1_main :: "u8 list \<Rightarrow> u8 list \<Rightarrow> lib_fault + u8 list" where
  "decompress1_main garbage file = (let (buf, len) = load garbage file in layer1 buf len)"

text \<open>\<open>write(fd, &InBuffer[1], DataLen - 1)\<close>; an empty result would be written with a count of -1,
  which the call refuses.\<close>

definition chop_first :: "u8 list \<Rightarrow> nat \<Rightarrow> u8 list" where
  "chop_first buf len = take (len - 1) (drop 1 buf)"

definition decompress2_main :: "nat \<Rightarrow> u8 list \<Rightarrow> u8 list \<Rightarrow> (lib_fault + u8 list) option" where
  "decompress2_main fuel garbage file =
     (let (buf, len) = load garbage file in
      case layer2 fuel buf len of None \<Rightarrow> None
      | Some (Inl e) \<Rightarrow> Some (Inl e)
      | Some (Inr (buf', len')) \<Rightarrow> Some (Inr (chop_first buf' len')))"

text \<open>The special key is read on its own first; with an empty file it keeps its old value \<open>key0\<close>.\<close>

definition decompress3_main :: "nat \<Rightarrow> u8 \<Rightarrow> u8 list \<Rightarrow> u8 list \<Rightarrow> (lib_fault + u8 list) option" where
  "decompress3_main fuel key0 garbage file =
     (let special = (if file = [] then key0 else hd file);
          (buf, len) = load garbage (tl file) in
      case layer3 fuel special buf len of None \<Rightarrow> None
      | Some (Inl e) \<Rightarrow> Some (Inl e)
      | Some (Inr (buf', len')) \<Rightarrow> Some (Inr (chop_first buf' len')))"

text \<open>
  \<open>decompress.c\<close>: \<open>src\<close> is the data behind the two length bytes and the special key. Between the layers the
  first byte is cut off through \<open>OutBuffer\<close>; the copy reaches \<open>DataLen - 1\<close> bytes.
\<close>

definition cut_first :: "u8 list \<Rightarrow> nat \<Rightarrow> lib_fault + (u8 list \<times> nat)" where
  "cut_first buf len =
     (if len = 0 then Inl (Buf_Read BUFLEN)
      else andThen (buf_slice buf 1 (len - 1)) (\<lambda>bs. Inr (overlay bs buf, len - 1)))"

definition decompress_main :: "nat \<Rightarrow> u8 list \<Rightarrow> u8 \<Rightarrow> u8 list \<Rightarrow> (lib_fault + u8 list) option" where
  "decompress_main fuel garbage special src =
     (if length src > BUFLEN then Some (Inl (Buf_Write BUFLEN))
      else case layer3 fuel special (overlay src garbage) (length src) of None \<Rightarrow> None
      | Some (Inl e) \<Rightarrow> Some (Inl e)
      | Some (Inr (buf3, len3)) \<Rightarrow>
     (case cut_first buf3 len3 of Inl e \<Rightarrow> Some (Inl e)
      | Inr (buf3', len3') \<Rightarrow>
     (case layer2 fuel buf3' len3' of None \<Rightarrow> None
      | Some (Inl e) \<Rightarrow> Some (Inl e)
      | Some (Inr (buf2, len2)) \<Rightarrow>
     (case cut_first buf2 len2 of Inl e \<Rightarrow> Some (Inl e)
      | Inr (buf2', len2') \<Rightarrow> Some (layer1 buf2' len2')))))"

text \<open>
  \<open>payload-decompress.c\<close> differs between the layers: it copies from \<open>&OutBuffer[1]\<close>, which holds the
  data only if the layer before ran at least one round. After a layer 3 of no rounds it is
  what the stack held (\<open>stale\<close>); after a layer 2 of no rounds it is the output of layer 3.
\<close>

definition payload_main :: "nat \<Rightarrow> u8 list \<Rightarrow> u8 list \<Rightarrow> u8 \<Rightarrow> u8 list \<Rightarrow> (lib_fault + u8 list) option" where
  "payload_main fuel garbage stale special src =
     (if length src > BUFLEN then Some (Inl (Buf_Write BUFLEN))
      else
      let inb = overlay src garbage in
      case layer3 fuel special inb (length src) of None \<Rightarrow> None
      | Some (Inl e) \<Rightarrow> Some (Inl e)
      | Some (Inr (buf3, len3)) \<Rightarrow>
     (let out3 = (if inb ! 0 = special then stale else overlay (take len3 buf3) stale) in
      if len3 = 0 then Some (Inl (Buf_Read BUFLEN))
      else case buf_slice out3 1 (len3 - 1) of Inl e \<Rightarrow> Some (Inl e)
      | Inr bs3 \<Rightarrow>
     (let inb2 = overlay bs3 buf3 in
      case layer2 fuel inb2 (len3 - 1) of None \<Rightarrow> None
      | Some (Inl e) \<Rightarrow> Some (Inl e)
      | Some (Inr (buf2, len2)) \<Rightarrow>
     (let out2 = (if inb2 ! 0 = 0 then out3 else overlay (take len2 buf2) out3) in
      if len2 = 0 then Some (Inl (Buf_Read BUFLEN))
      else case buf_slice out2 1 (len2 - 1) of Inl e \<Rightarrow> Some (Inl e)
      | Inr bs2 \<Rightarrow> Some (layer1 (overlay bs2 buf2) (len2 - 1))))))"

end
