(* ===== verification/Liberty_Encode.thy ===== *)
theory Liberty_Encode
  imports Liberty_Decode
begin

unbundle bit_operations_syntax

text \<open>
  The compressor \<open>src/liberty/server/compress.c\<close>. \<open>OutDataStruct\<close> is a growing buffer: \<open>out_data\<close> keeps
  its valid bytes, its capacity and whether it is allocated; \<open>AddToOutData\<close> appends within the
  capacity (\<open>AddToOutData_appends\<close>), so the phases work on plain byte lists and append. Lengths are
  \<open>unsigned int\<close>; data is shorter than \<open>2 ^ 32\<close> bytes, and the one subtraction that can wrap is
  written out.
\<close>

subsection \<open>The growing buffer\<close>

record out_data =
  od_null :: bool
  od_bytes :: "u8 list"
  od_max :: nat

definition od_empty :: out_data where
  "od_empty = \<lparr>od_null = True, od_bytes = [], od_max = 0\<rparr>"

text \<open>\<open>FreeOutData\<close> tests the pointer the wrong way round, so it releases nothing: the second component is
  the number of bytes that stay allocated without an owner.\<close>

definition FreeOutData :: "out_data \<Rightarrow> out_data \<times> nat" where
  "FreeOutData d = (if od_null d then (od_empty, 0) else (od_empty, od_max d))"

definition AddToOutData :: "out_data \<Rightarrow> u8 list \<Rightarrow> out_data" where
  "AddToOutData d bs =
     (let d' = (if od_null d
                then \<lparr>od_null = False, od_bytes = [], od_max = length bs + 1024\<rparr>
                else if length (od_bytes d) + length bs \<ge> od_max d
                then d\<lparr>od_max := length (od_bytes d) + length bs + 1024\<rparr>
                else d)
      in d'\<lparr>od_bytes := od_bytes d' @ bs\<rparr>)"

text \<open>The buffer never holds more than its capacity, and adding appends.\<close>

definition od_inv :: "out_data \<Rightarrow> bool" where
  "od_inv d \<longleftrightarrow> (od_null d \<longrightarrow> od_bytes d = []) \<and> length (od_bytes d) \<le> od_max d"

lemma AddToOutData_appends:
  "od_inv d \<Longrightarrow> od_bytes (AddToOutData d bs) = od_bytes d @ bs \<and> od_inv (AddToOutData d bs)"
  by (auto simp: od_inv_def AddToOutData_def Let_def)

lemma FreeOutData_inv: "od_inv (fst (FreeOutData d)) \<and> od_bytes (fst (FreeOutData d)) = []"
  by (simp add: FreeOutData_def od_empty_def od_inv_def)

subsection \<open>The least frequent byte\<close>

record best_char =
  bc_char :: u8
  bc_count :: nat

fun find_best_counts :: "u8 list \<Rightarrow> nat list \<Rightarrow> nat list" where
  "find_best_counts [] cc = cc"
| "find_best_counts (b # bs) cc = find_best_counts bs (cc[unat b := cc ! unat b + 1])"

fun find_best_loop :: "nat list \<Rightarrow> nat \<Rightarrow> nat list \<Rightarrow> best_char \<Rightarrow> best_char" where
  "find_best_loop cc skip [] best = best"
| "find_best_loop cc skip (i # is) best =
     (if skip < 256 \<and> i = skip then find_best_loop cc skip is best
      else if cc ! i < bc_count best
      then find_best_loop cc skip is \<lparr>bc_char = of_nat i, bc_count = cc ! i\<rparr>
      else find_best_loop cc skip is best)"

definition FindBestChar :: "u8 list \<Rightarrow> nat \<Rightarrow> best_char" where
  "FindBestChar data skip =
     find_best_loop (find_best_counts data (replicate 256 0)) skip [0..<256]
       \<lparr>bc_char = 0, bc_count = length data\<rparr>"

subsection \<open>Phase 1: run lengths\<close>

text \<open>\<open>i < len - 3\<close> in unsigned arithmetic, then three comparisons, each only if the ones before
  succeeded.\<close>

definition phase1_four :: "u8 list \<Rightarrow> nat \<Rightarrow> lib_fault + bool" where
  "phase1_four data i =
     (if int i < (int (length data) - 3) mod 2 ^ 32
      then andThen (buf_rd data (i + 1)) (\<lambda>b1. if data ! i \<noteq> b1 then Inr False
        else andThen (buf_rd data (i + 2)) (\<lambda>b2. if data ! i \<noteq> b2 then Inr False
        else andThen (buf_rd data (i + 3)) (\<lambda>b3. Inr (data ! i = b3))))
      else Inr False)"

function phase1_count :: "u8 list \<Rightarrow> nat \<Rightarrow> nat \<Rightarrow> nat" where
  "phase1_count data i n =
     (if i + n < length data \<and> n < 258 \<and> data ! i = data ! (i + n)
      then phase1_count data i (n + 1) else n)"
  by pat_completeness auto
termination by (relation "measure (\<lambda>(data, i, n). 258 - n)") auto

declare phase1_count.simps [simp del]

function phase1_loop :: "u8 list \<Rightarrow> u8 \<Rightarrow> nat \<Rightarrow> u8 list \<Rightarrow> lib_fault + u8 list" where
  "phase1_loop data key i out =
     (if i < length data
      then andThen (phase1_four data i) (\<lambda>four.
        if four
        then let n = phase1_count data i 4 - 3
             in phase1_loop data key (i + (n + 2) + 1) (out @ [key] @ [of_nat n] @ [data ! i])
        else if data ! i = key then phase1_loop data key (i + 1) (out @ [key] @ [0])
        else phase1_loop data key (i + 1) (out @ [data ! i]))
      else Inr out)"
  by pat_completeness auto
termination by (relation "measure (\<lambda>(data, key, i, out). length data - i)") auto

declare phase1_loop.simps [simp del]

definition Phase1 :: "u8 list \<Rightarrow> lib_fault + u8 list" where
  "Phase1 data = (let key = bc_char (FindBestChar data 0x100) in phase1_loop data key 0 [key])"

subsection \<open>Phase 2: dictionary\<close>

text \<open>\<open>memfind\<close> on the bytes from the start of the search: the distance of the first match. \<open>memchr\<close> is
  the search for the first byte.\<close>

function memfind_from :: "u8 list \<Rightarrow> u8 list \<Rightarrow> nat \<Rightarrow> nat option" where
  "memfind_from buf pat cur =
     (if cur < length buf
      then if buf ! cur \<noteq> hd pat then memfind_from buf pat (cur + 1)
      else if cur + length pat > length buf then None
      else if take (length pat) (drop cur buf) = pat then Some cur
      else memfind_from buf pat (cur + 1)
      else None)"
  by pat_completeness auto
termination by (relation "measure (\<lambda>(buf, pat, cur). length buf - cur)") auto

declare memfind_from.simps [simp del]

definition memfind :: "u8 list \<Rightarrow> u8 list \<Rightarrow> nat option" where
  "memfind buf pat = memfind_from buf pat 0"

text \<open>The escaping copy: after each byte the test looks at position \<open>i\<close> of the copy, which is the byte
  just added only as long as nothing was inserted.\<close>

fun phase2_escape :: "u8 \<Rightarrow> u8 list \<Rightarrow> nat \<Rightarrow> u8 list \<Rightarrow> u8 list" where
  "phase2_escape key [] i cur = cur"
| "phase2_escape key (b # bs) i cur =
     (let cur' = cur @ [b] in
      phase2_escape key bs (i + 1) (if cur' ! i = key then cur' @ [0xff] else cur'))"

text \<open>
  The loop over the further matches: \<open>rest\<close> is the data behind the last match, \<open>hit\<close> the distance of
  the next one in it.
\<close>

function phase2_replace :: "u8 \<Rightarrow> nat \<Rightarrow> u8 list \<Rightarrow> u8 list \<Rightarrow> nat option \<Rightarrow> u8 list \<Rightarrow> u8 list" where
  "phase2_replace key ent pat rest hit tmp =
     (case hit of None \<Rightarrow> tmp @ rest
      | Some d \<Rightarrow>
          let tmp' = tmp @ take d rest @ [key] @ [of_nat ent];
              rest' = drop (d + length pat) rest
          in if rest' = [] \<or> pat = [] then tmp' @ rest'
             else phase2_replace key ent pat rest' (memfind rest' pat) tmp')"
  by pat_completeness auto
termination
proof (relation "measure (\<lambda>(key, ent, pat, rest, hit, tmp). length rest)", goal_cases)
  case 1
  show ?case by simp
next
  case (2 key ent pat rest hit tmp d tmp' rest')
  then have "length rest' = length rest - (d + length pat)" "0 < length pat" "0 < length rest'" by auto
  then have "length rest' < length rest" by linarith
  then show ?case by simp
qed

declare phase2_replace.simps [simp del]

text \<open>The dummy entry that keeps the number of an entry from being the key.\<close>

definition phase2_dummy :: "u8 \<Rightarrow> u8 list list \<Rightarrow> u8 list list" where
  "phase2_dummy key es = (if length es = unat key then es @ [[key, key]] else es)"

text \<open>
  The search for matches of length \<open>i\<close> from position \<open>pos\<close>: the data and the entries after it. With 256
  entries the loop is left before the buffers are swapped; a match found later writes behind
  the table of entries.
\<close>

function phase2_scan :: "u8 \<Rightarrow> nat \<Rightarrow> nat \<Rightarrow> u8 list \<Rightarrow> u8 list list \<Rightarrow> lib_fault + (u8 list \<times> u8 list list)" where
  "phase2_scan key i pos cur es =
     (if pos + i < length cur
      then (let pat = take i (drop pos cur); hit = memfind (drop (pos + i) cur) pat in
        if hit = None
        then (if length es = 256 then Inr (cur, es) else phase2_scan key i (pos + 1) cur es)
        else
          let es1 = phase2_dummy key es; ent = length es1 in
          if ent \<ge> 256 then Inl (Entry_Write ent)
          else
            let tmp = phase2_replace key ent pat (drop (pos + i) cur) hit (take pos cur @ [key] @ [of_nat ent]);
                es2 = es1 @ [pat]
            in if length es2 = 256 then Inr (cur, es2) else phase2_scan key i pos tmp es2)
      else Inr (cur, es))"
  by pat_completeness auto
termination
  by (relation "measures [\<lambda>(key, i, pos, cur, es). 256 - length es, \<lambda>(key, i, pos, cur, es). length cur - pos]")
    (auto simp: phase2_dummy_def split: if_splits)

declare phase2_scan.simps [simp del]

text \<open>The loop over the match lengths.\<close>

fun phase2_lengths :: "u8 \<Rightarrow> nat list \<Rightarrow> u8 list \<Rightarrow> u8 list list \<Rightarrow> lib_fault + (u8 list \<times> u8 list list)" where
  "phase2_lengths key [] cur es = Inr (cur, es)"
| "phase2_lengths key (i # is) cur es =
     andThen (phase2_scan key i 0 cur es) (\<lambda>(cur', es'). phase2_lengths key is cur' es')"

definition Phase2 :: "u8 list \<Rightarrow> lib_fault + u8 list" where
  "Phase2 data =
     (let whole = 0 # data;
          key = bc_char (FindBestChar whole 0x100);
          cur = phase2_escape key whole 0 []
      in andThen (phase2_lengths key (rev [3..<256]) cur [])
           (\<lambda>(cur', es). Inr ([key] @ concat (map (\<lambda>e. [of_nat (length e)] @ e) es) @ cur')))"

subsection \<open>Phase 3: byte pairs\<close>

text \<open>The word counts: little-endian pairs \<open>*(unsigned short * )&Data[i]\<close>.\<close>

definition pair_at :: "u8 list \<Rightarrow> nat \<Rightarrow> nat" where
  "pair_at xs i = unat (xs ! i) + 256 * unat (xs ! (i + 1))"

definition pair_count :: "u8 list \<Rightarrow> nat \<Rightarrow> nat" where
  "pair_count xs w = length (filter (\<lambda>i. pair_at xs i = w) [0..<length xs - 1])"

fun phase3_best :: "u8 list \<Rightarrow> nat list \<Rightarrow> nat \<Rightarrow> nat \<Rightarrow> nat \<times> nat" where
  "phase3_best xs [] word cnt = (word, cnt)"
| "phase3_best xs (w # ws) word cnt =
     (if pair_count xs w > cnt then phase3_best xs ws w (pair_count xs w) else phase3_best xs ws word cnt)"

text \<open>The replacement loop. \<open>i < len - 2\<close> wraps for shorter data, which has no pair occurring three
  times.\<close>

function phase3_loop :: "u8 list \<Rightarrow> u8 \<Rightarrow> u8 \<Rightarrow> nat \<Rightarrow> nat \<Rightarrow> u8 list \<Rightarrow> u8 list" where
  "phase3_loop xs special key word i out =
     (if i < length xs
      then if xs ! i = key then phase3_loop xs special key word (i + 1) (out @ [key] @ [special])
        else if int i < (int (length xs) - 2) mod 2 ^ 32 \<and> pair_at xs i = word \<and> xs ! (i + 2) \<noteq> special
        then phase3_loop xs special key word (i + 2) (out @ [key])
        else phase3_loop xs special key word (i + 1) (out @ [xs ! i])
      else out)"
  by pat_completeness auto
termination by (relation "measure (\<lambda>(xs, special, key, word, i, out). length xs - i)") auto

declare phase3_loop.simps [simp del]

definition phase3_round :: "u8 \<Rightarrow> u8 list \<Rightarrow> u8 list option" where
  "phase3_round special xs =
     (let key = bc_char (FindBestChar xs (unat special));
          (word, cnt) = phase3_best xs [0..<0x10000] 0 0
      in if cnt \<ge> 3
         then Some (phase3_loop xs special key word 0 ([key] @ [of_nat word] @ [of_nat (word div 256)]))
         else None)"

text \<open>The rounds: \<open>smallest\<close> is the shortest buffer so far, replaced as long as a round makes it
  shorter.\<close>

function phase3_rounds :: "u8 \<Rightarrow> u8 list \<Rightarrow> u8 list" where
  "phase3_rounds special smallest =
     (case phase3_round special smallest of None \<Rightarrow> smallest
      | Some cur \<Rightarrow> if length cur < length smallest then phase3_rounds special cur else smallest)"
  by pat_completeness auto
termination by (relation "measure (\<lambda>(special, xs). length xs)") auto

declare phase3_rounds.simps [simp del]

text \<open>Without an unused byte value the phase fails and returns an empty buffer.\<close>

definition Phase3 :: "u8 list \<Rightarrow> u8 list" where
  "Phase3 data =
     (let special = FindBestChar data 0x100 in
      if bc_count special \<noteq> 0 then []
      else [bc_char special] @ phase3_rounds (bc_char special) ([bc_char special] @ data))"

definition Compress :: "u8 list \<Rightarrow> lib_fault + u8 list" where
  "Compress data = andThen (Phase1 data) (\<lambda>d1. andThen (Phase2 d1) (\<lambda>d2. Inr (Phase3 d2)))"

end
