(* ===== verification/Liberty_Props.thy ===== *)
theory Liberty_Props
  imports Liberty_Encode
begin

unbundle bit_operations_syntax

text \<open>
  The compressor against the decompressors: layer 1 undoes phase 1 and layer 3 undoes phase 3 on all data
  that fits the buffers (both as interpretations of the locale \<open>codec\<close>); phase 2 is
  shown to lose data where its escape is misplaced and where a match at the start takes the end
  marker. The least frequent byte is what the phases rely on.
\<close>

subsection \<open>Codecs\<close>

text \<open>An encoder that may fail and its decoder, correct on a set of inputs.\<close>

locale codec =
  fixes enc :: "'a \<Rightarrow> 'e + 'b"
    and dec :: "'b \<Rightarrow> 'a option"
    and fits :: "'a \<Rightarrow> bool"
  assumes enc_total: "fits x \<Longrightarrow> \<exists>y. enc x = Inr y"
    and dec_enc: "fits x \<Longrightarrow> enc x = Inr y \<Longrightarrow> dec y = Some x"
begin

lemma round_trip: "fits x \<Longrightarrow> \<exists>y. enc x = Inr y \<and> dec y = Some x"
  using enc_total dec_enc by blast

lemma enc_inj: "fits x \<Longrightarrow> fits x' \<Longrightarrow> enc x = enc x' \<Longrightarrow> x = x'"
  using round_trip by (metis option.inject sum.inject(2))

end

subsection \<open>The least frequent byte\<close>

lemma find_best_counts_nth:
  "length cc = 256 \<Longrightarrow> i < 256 \<Longrightarrow>
   find_best_counts data cc ! i = cc ! i + count_list data (of_nat i)"
proof (induction data arbitrary: cc)
  case Nil
  then show ?case by simp
next
  case (Cons b data)
  have "(b = of_nat i) = (unat b = i)" using Cons.prems(2) by (auto simp: unat_of_nat)
  then show ?case using Cons by (auto simp: nth_list_update)
qed

lemma find_best_loop_spec:
  assumes "\<forall>i \<in> set is. i < 256"
  shows "bc_count (find_best_loop cc skip is best) \<le> bc_count best \<and>
    (\<forall>i \<in> set is. i \<noteq> skip \<longrightarrow> bc_count (find_best_loop cc skip is best) \<le> cc ! i) \<and>
    (find_best_loop cc skip is best = best \<or>
     (\<exists>i \<in> set is. i \<noteq> skip \<and> find_best_loop cc skip is best = \<lparr>bc_char = of_nat i, bc_count = cc ! i\<rparr>))"
  using assms
proof (induction "is" arbitrary: best)
  case Nil
  then show ?case by simp
next
  case (Cons i "is")
  show ?case
  proof (cases "i = skip")
    case True
    then show ?thesis using Cons by auto
  next
    case False
    define best' where "best' = (if cc ! i < bc_count best then \<lparr>bc_char = of_nat i, bc_count = cc ! i\<rparr> else best)"
    have "find_best_loop cc skip (i # is) best = find_best_loop cc skip is best'"
      using False by (simp add: best'_def)
    then show ?thesis using Cons.IH [of best'] Cons.prems False
      by (auto simp: best'_def split: if_splits)
  qed
qed

lemma FindBestChar_spec:
  defines "b data skip \<equiv> FindBestChar data skip"
  shows "bc_count (b data skip) \<le> length data"
    and "unat c \<noteq> skip \<Longrightarrow> bc_count (b data skip) \<le> count_list data c"
    and "b data skip = \<lparr>bc_char = 0, bc_count = length data\<rparr> \<or>
      (\<exists>c. unat c \<noteq> skip \<and> b data skip = \<lparr>bc_char = c, bc_count = count_list data c\<rparr>)"
proof -
  define cc where "cc = find_best_counts data (replicate 256 0)"
  have cc: "cc ! i = count_list data (of_nat i)" if "i < 256" for i
    using find_best_counts_nth [of "replicate 256 0" i data] that by (simp add: cc_def)
  have b: "b data skip = find_best_loop cc skip [0..<256] \<lparr>bc_char = 0, bc_count = length data\<rparr>"
    by (simp add: b_def FindBestChar_def cc_def)
  have "\<forall>i \<in> set [0..<256]. i < (256 :: nat)" by simp
  note spec = find_best_loop_spec [OF this, of cc skip "\<lparr>bc_char = 0, bc_count = length data\<rparr>", folded b]
  show "bc_count (b data skip) \<le> length data" using spec by simp
  show "unat c \<noteq> skip \<Longrightarrow> bc_count (b data skip) \<le> count_list data c"
  proof -
    assume "unat c \<noteq> skip"
    moreover have "unat c \<in> set [0..<256]" by simp
    ultimately have "bc_count (b data skip) \<le> cc ! unat c" using spec by blast
    then show ?thesis using cc [of "unat c"] by simp
  qed
  show "b data skip = \<lparr>bc_char = 0, bc_count = length data\<rparr> \<or>
      (\<exists>c. unat c \<noteq> skip \<and> b data skip = \<lparr>bc_char = c, bc_count = count_list data c\<rparr>)"
  proof -
    have "\<exists>c. unat c \<noteq> skip \<and> b data skip = \<lparr>bc_char = c, bc_count = count_list data c\<rparr>"
      if "i \<in> set [0..<256]" "i \<noteq> skip" "b data skip = \<lparr>bc_char = of_nat i, bc_count = cc ! i\<rparr>" for i
      using that cc [of i] by (intro exI [of _ "of_nat i"]) (simp add: unat_of_nat)
    then show ?thesis using spec by blast
  qed
qed

lemma count_two: "a \<noteq> b \<Longrightarrow> count_list xs a + count_list xs b \<le> length xs"
  by (induction xs) auto

lemma FindBestChar_zero: "bc_count (FindBestChar data skip) = 0 \<Longrightarrow> bc_char (FindBestChar data skip) \<notin> set data"
  using FindBestChar_spec(3) [of data skip] by (auto simp: count_list_0_iff)

lemma FindBestChar_skips:
  assumes "data \<noteq> []"
  shows "unat (bc_char (FindBestChar data skip)) \<noteq> skip"
proof (rule ccontr)
  assume skip: "\<not> ?thesis"
  then have *: "FindBestChar data skip = \<lparr>bc_char = 0, bc_count = length data\<rparr>"
    using FindBestChar_spec(3) [of data skip] by auto
  with skip have "skip = 0" by simp
  then have "length data \<le> count_list data 1" "length data \<le> count_list data 2"
    using FindBestChar_spec(2) [of 1 skip data] FindBestChar_spec(2) [of 2 skip data] * by simp_all
  moreover have "count_list data 1 + count_list data 2 \<le> length data" by (rule count_two) simp
  moreover have "0 < length data" using assms by simp
  ultimately show False by linarith
qed

subsection \<open>Run lengths\<close>

text \<open>What a compressed stream consists of: other bytes, literal keys and runs.\<close>

datatype rl_tok = RLit u8 | RKey | RRun u8 u8

fun rl_bytes :: "u8 \<Rightarrow> rl_tok \<Rightarrow> u8 list" where
  "rl_bytes key (RLit b) = [b]"
| "rl_bytes key RKey = [key, 0]"
| "rl_bytes key (RRun n b) = [key, n, b]"

fun rl_expand :: "u8 \<Rightarrow> rl_tok \<Rightarrow> u8 list" where
  "rl_expand key (RLit b) = [b]"
| "rl_expand key RKey = [key]"
| "rl_expand key (RRun n b) = replicate (unat n + 3) b"

fun rl_ok :: "u8 \<Rightarrow> rl_tok \<Rightarrow> bool" where
  "rl_ok key (RLit b) \<longleftrightarrow> b \<noteq> key"
| "rl_ok key RKey \<longleftrightarrow> True"
| "rl_ok key (RRun n b) \<longleftrightarrow> n \<noteq> 0"

lemma nth_mid:
  assumes "take len buf = pre @ bs @ rest" and "len \<le> length buf" and "k < length bs"
  shows "buf ! (length pre + k) = bs ! k" and "length pre + k < len"
proof -
  have "length (take len buf) = len" using assms(2) by simp
  then show less: "length pre + k < len" using assms(1,3) by simp
  have "take len buf ! (length pre + k) = bs ! k" using assms(1,3) by (simp add: nth_append)
  then show "buf ! (length pre + k) = bs ! k" using less by simp
qed

lemma layer1_loop_tokens:
  assumes "take len buf = pre @ concat (map (rl_bytes key) ts)" and "len \<le> length buf"
    and "\<forall>t \<in> set ts. rl_ok key t" and "length out + length (concat (map (rl_expand key) ts)) \<le> BUFLEN"
  shows "layer1_loop buf key len (length pre) out = Inr (out @ concat (map (rl_expand key) ts))"
  using assms
proof (induction ts arbitrary: pre out)
  case Nil
  then have "length pre = len" by (metis append_Nil2 concat.simps(1) length_take list.simps(8) min.absorb2)
  then show ?case by (simp add: layer1_loop.simps)
next
  case (Cons t ts)
  define bs where "bs = rl_bytes key t"
  have split: "take len buf = pre @ bs @ concat (map (rl_bytes key) ts)" using Cons.prems(1) by (simp add: bs_def)
  note mid = nth_mid [OF split Cons.prems(2)]
  have len: "length pre + k < length buf" if "k < length bs" for k using mid(2) [OF that] Cons.prems(2) by simp
  have rec: "layer1_loop buf key len (length (pre @ bs)) (out @ rl_expand key t) =
      Inr ((out @ rl_expand key t) @ concat (map (rl_expand key) ts))"
    using Cons.prems split by (intro Cons.IH) simp_all
  show ?case
  proof (cases t)
    case (RLit b)
    then show ?thesis
      using rec mid [of 0] len [of 0] Cons.prems(3,4)
      by (subst layer1_loop.simps) (simp add: bs_def buf_rd_def buf_emit_def)
  next
    case RKey
    then show ?thesis
      using rec mid [of 0] mid [of 1] len [of 0] len [of 1] Cons.prems(3,4)
      by (subst layer1_loop.simps) (simp add: bs_def buf_rd_def buf_emit_def)
  next
    case (RRun n b)
    then show ?thesis
      using rec mid [of 0] mid [of 1] mid [of 2] len [of 0] len [of 1] len [of 2] Cons.prems(3,4)
      by (subst layer1_loop.simps) (simp add: bs_def buf_rd_def buf_emit_def numeral_3_eq_3)
  qed
qed

lemma phase1_four_ok:
  assumes "3 \<le> length data" and "length data < 2 ^ 32" and "i < length data"
  shows "phase1_four data i = Inr (i + 3 < length data \<and> data ! i = data ! (i + 1) \<and>
    data ! i = data ! (i + 2) \<and> data ! i = data ! (i + 3))"
proof -
  have "(int (length data) - 3) mod 2 ^ 32 = int (length data) - 3"
    using assms(1,2) by (intro mod_pos_pos_trivial) auto
  then have "int i < (int (length data) - 3) mod 2 ^ 32 \<longleftrightarrow> i + 3 < length data" by auto
  then show ?thesis by (auto simp: phase1_four_def buf_rd_def)
qed

lemma phase1_count_ok:
  assumes "i + n \<le> length data" and "n \<le> 258" and "\<forall>k < n. data ! (i + k) = data ! i"
  shows "n \<le> phase1_count data i n \<and> phase1_count data i n \<le> 258 \<and> i + phase1_count data i n \<le> length data \<and>
    (\<forall>k < phase1_count data i n. data ! (i + k) = data ! i)"
  using assms
proof (induction data i n rule: phase1_count.induct)
  case (1 data i n)
  show ?case
  proof (cases "i + n < length data \<and> n < 258 \<and> data ! i = data ! (i + n)")
    case True
    then have "\<forall>k < n + 1. data ! (i + k) = data ! i" using "1.prems"(3) by (auto simp: less_Suc_eq)
    with True "1.IH" "1.prems" have "n + 1 \<le> phase1_count data i (n + 1) \<and> phase1_count data i (n + 1) \<le> 258 \<and>
        i + phase1_count data i (n + 1) \<le> length data \<and> (\<forall>k < phase1_count data i (n + 1). data ! (i + k) = data ! i)"
      by simp
    moreover have "phase1_count data i n = phase1_count data i (n + 1)"
      using True by (subst phase1_count.simps) simp
    ultimately show ?thesis by simp
  next
    case False
    then have "phase1_count data i n = n" by (subst phase1_count.simps) auto
    then show ?thesis using "1.prems" by simp
  qed
qed

lemma phase1_loop_tokens:
  assumes "3 \<le> length data" and "length data < 2 ^ 32" and "i \<le> length data"
  shows "\<exists>ts. phase1_loop data key i out = Inr (out @ concat (map (rl_bytes key) ts)) \<and>
    (\<forall>t \<in> set ts. rl_ok key t) \<and> concat (map (rl_expand key) ts) = drop i data"
  using assms
proof (induction "length data - i" arbitrary: i out rule: less_induct)
  case less
  show ?case
  proof (cases "i < length data")
    case False
    then show ?thesis using less.prems by (intro exI [of _ "[]"]) (simp add: phase1_loop.simps)
  next
    case True
    note four = phase1_four_ok [OF less.prems(1,2) True]
    have one: "drop i data = data ! i # drop (i + 1) data" using True by (simp add: Cons_nth_drop_Suc)
    show ?thesis
    proof (cases "i + 3 < length data \<and> data ! i = data ! (i + 1) \<and> data ! i = data ! (i + 2) \<and> data ! i = data ! (i + 3)")
      case run: True
      define c where "c = phase1_count data i 4"
      have "\<forall>k < 4. data ! (i + k) = data ! i"
        using run by (auto simp: less_Suc_eq numeral_eq_Suc)
      then have c: "4 \<le> c" "c \<le> 258" "i + c \<le> length data" "\<forall>k < c. data ! (i + k) = data ! i"
        using phase1_count_ok [of i 4 data] run by (simp_all add: c_def)
      have step: "phase1_loop data key i out =
          phase1_loop data key (i + c) (out @ [key] @ [of_nat (c - 3)] @ [data ! i])"
      proof -
        have "phase1_four data i = Inr True" unfolding four using run by auto
        moreover have "i + (c - 3 + 2) + 1 = i + c" using c(1) by simp
        ultimately show ?thesis
          using True by (subst phase1_loop.simps) (simp only: c_def [symmetric] Let_def if_True andThen_simps append_assoc)
      qed
      obtain ts where ts: "phase1_loop data key (i + c) (out @ [key] @ [of_nat (c - 3)] @ [data ! i]) =
          Inr ((out @ [key] @ [of_nat (c - 3)] @ [data ! i]) @ concat (map (rl_bytes key) ts))"
        "\<forall>t \<in> set ts. rl_ok key t" "concat (map (rl_expand key) ts) = drop (i + c) data"
      proof -
        have "length data - (i + c) < length data - i" using c(1) True by simp
        from less.hyps [OF this less.prems(1,2) c(3)] show thesis using that by blast
      qed
      have "c - 3 < 256" using c(2) by simp
      then have n: "unat (of_nat (c - 3) :: u8) = c - 3" by (simp only: unat_of_nat) simp
      have ok: "(of_nat (c - 3) :: u8) \<noteq> 0"
      proof
        assume "(of_nat (c - 3) :: u8) = 0"
        then have "c - 3 = 0" using n by (simp only: unat_0)
        then show False using c(1) by simp
      qed
      have "drop i data = take c (drop i data) @ drop (i + c) data" by (metis append_take_drop_id drop_drop add.commute)
      moreover have "take c (drop i data) = replicate c (data ! i)"
        using c(3,4) by (intro nth_equalityI) auto
      ultimately have "drop i data = replicate (unat (of_nat (c - 3) :: u8) + 3) (data ! i) @ drop (i + c) data"
        using n c(1) by simp
      then show ?thesis
        using step ts ok by (intro exI [of _ "RRun (of_nat (c - 3)) (data ! i) # ts"]) simp
    next
      case lit: False
      have step: "phase1_loop data key i out =
          phase1_loop data key (i + 1) (out @ (if data ! i = key then [key, 0] else [data ! i]))"
      proof -
        have "phase1_four data i = Inr False" unfolding four using lit by blast
        then show ?thesis using True by (subst phase1_loop.simps) simp
      qed
      obtain ts where ts: "phase1_loop data key (i + 1) (out @ (if data ! i = key then [key, 0] else [data ! i])) =
          Inr ((out @ (if data ! i = key then [key, 0] else [data ! i])) @ concat (map (rl_bytes key) ts))"
        "\<forall>t \<in> set ts. rl_ok key t" "concat (map (rl_expand key) ts) = drop (i + 1) data"
      proof -
        have "length data - (i + 1) < length data - i" "i + 1 \<le> length data" using True by simp_all
        from less.hyps [OF this(1) less.prems(1,2) this(2)] show thesis using that by blast
      qed
      then show ?thesis
        using step one by (intro exI [of _ "(if data ! i = key then RKey else RLit (data ! i)) # ts"]) auto
    qed
  qed
qed

text \<open>Decoding what phase 1 wrote, from a buffer of any stale contents.\<close>

definition phase1_fits :: "u8 list \<Rightarrow> bool" where
  "phase1_fits data \<longleftrightarrow> 3 \<le> length data \<and> length data \<le> BUFLEN \<and>
     (\<forall>y. Phase1 data = Inr y \<longrightarrow> length y \<le> BUFLEN)"

definition decompress1 :: "u8 list \<Rightarrow> u8 list \<Rightarrow> u8 list option" where
  "decompress1 garbage file = (case decompress1_main garbage file of Inr d \<Rightarrow> Some d | Inl e \<Rightarrow> None)"

lemma load_whole:
  assumes "length garbage = BUFLEN" and "length file \<le> BUFLEN"
  shows "load garbage file = (overlay file garbage, length file)" and "length (overlay file garbage) = BUFLEN"
    and "take (length file) (overlay file garbage) = file"
  using assms by (simp_all add: load_def overlay_def)

lemma phase1_decodes:
  assumes "phase1_fits data" and "Phase1 data = Inr y" and "length garbage = BUFLEN"
  shows "decompress1_main garbage y = Inr data"
proof -
  define key where "key = bc_char (FindBestChar data 0x100)"
  have len: "3 \<le> length data" "length data < 2 ^ 32" "length data \<le> BUFLEN" "length y \<le> BUFLEN"
    using assms(1,2) by (auto simp: phase1_fits_def BUFLEN_def)
  obtain ts where ts: "phase1_loop data key 0 [key] = Inr ([key] @ concat (map (rl_bytes key) ts))"
    "\<forall>t \<in> set ts. rl_ok key t" "concat (map (rl_expand key) ts) = data"
    using phase1_loop_tokens [OF len(1,2), of 0 key "[key]"] by auto
  then have y: "y = [key] @ concat (map (rl_bytes key) ts)"
    using assms(2) by (simp add: Phase1_def key_def [symmetric] Let_def)
  define buf where "buf = overlay y garbage"
  have buf: "load garbage y = (buf, length y)" "length buf = BUFLEN" "take (length y) buf = y"
    using load_whole [OF assms(3) len(4)] by (simp_all add: buf_def)
  have "buf ! 0 = key" using y by (simp add: buf_def overlay_def)
  then have head: "buf_rd buf 0 = Inr key" using buf(2) by (simp add: buf_rd_def BUFLEN_def)
  have "layer1_loop buf key (length y) (length [key]) [] = Inr ([] @ concat (map (rl_expand key) ts))"
    using buf ts len y by (intro layer1_loop_tokens) simp_all
  then show ?thesis using buf(1) head ts(3) by (simp add: decompress1_main_def layer1_def)
qed

lemma phase1_total: "phase1_fits data \<Longrightarrow> \<exists>y. Phase1 data = Inr y" (is "_ \<Longrightarrow> ?thesis")
proof -
  assume "phase1_fits data"
  then have "3 \<le> length data" "length data < 2 ^ 32" by (simp_all add: phase1_fits_def BUFLEN_def)
  from phase1_loop_tokens [OF this, of 0 "bc_char (FindBestChar data 0x100)" "[bc_char (FindBestChar data 0x100)]"]
  show ?thesis unfolding Phase1_def Let_def by blast
qed

interpretation rle: codec Phase1 "decompress1 (replicate BUFLEN 0)" phase1_fits
  by unfold_locales (simp_all add: phase1_total decompress1_def phase1_decodes)

subsection \<open>Byte pairs\<close>

datatype bp_tok = BLit u8 | BKey | BPair

fun bp_bytes :: "u8 \<Rightarrow> u8 \<Rightarrow> bp_tok \<Rightarrow> u8 list" where
  "bp_bytes special key (BLit b) = [b]"
| "bp_bytes special key BKey = [key, special]"
| "bp_bytes special key BPair = [key]"

fun bp_expand :: "u8 \<Rightarrow> u8 list \<Rightarrow> bp_tok \<Rightarrow> u8 list" where
  "bp_expand key dat (BLit b) = [b]"
| "bp_expand key dat BKey = [key]"
| "bp_expand key dat BPair = dat"

definition bp_stream :: "u8 \<Rightarrow> u8 \<Rightarrow> bp_tok list \<Rightarrow> u8 list" where
  "bp_stream special key ts = concat (map (bp_bytes special key) ts)"

text \<open>A pair is followed by something that does not look like the escape of a key.\<close>

fun bp_ok :: "u8 \<Rightarrow> u8 \<Rightarrow> bp_tok list \<Rightarrow> bool" where
  "bp_ok special key [] \<longleftrightarrow> True"
| "bp_ok special key (BLit b # ts) \<longleftrightarrow> b \<noteq> key \<and> bp_ok special key ts"
| "bp_ok special key (BKey # ts) \<longleftrightarrow> bp_ok special key ts"
| "bp_ok special key (BPair # ts) \<longleftrightarrow> ts \<noteq> [] \<and> hd (bp_stream special key ts) \<noteq> special \<and> bp_ok special key ts"

lemma bp_stream_Cons: "bp_stream special key (t # ts) = bp_bytes special key t @ bp_stream special key ts"
  by (simp add: bp_stream_def)

lemma bp_bytes_ne: "bp_bytes special key t \<noteq> []"
  by (cases t) simp_all

lemma bp_stream_ne: "ts \<noteq> [] \<Longrightarrow> bp_stream special key ts \<noteq> []"
  by (cases ts) (simp_all add: bp_stream_Cons bp_bytes_ne)

lemma layer3_pass_tokens:
  assumes "take len buf = pre @ bp_stream special key ts" and "len \<le> length buf"
    and "bp_ok special key ts" and "length out + length (concat (map (bp_expand key dat) ts)) \<le> BUFLEN"
  shows "layer3_pass buf special key dat len (length pre) out = Inr (out @ concat (map (bp_expand key dat) ts))"
  using assms
proof (induction ts arbitrary: pre out)
  case Nil
  then have "length pre = len" by (metis append_Nil2 bp_stream_def concat.simps(1) length_take list.simps(8) min.absorb2)
  then show ?case by (simp add: layer3_pass.simps)
next
  case (Cons t ts)
  define bs where "bs = bp_bytes special key t"
  have split: "take len buf = pre @ bs @ bp_stream special key ts"
    using Cons.prems(1) by (simp add: bs_def bp_stream_Cons)
  note mid = nth_mid [OF split Cons.prems(2)]
  have len: "length pre + k < length buf" if "k < length bs" for k using mid(2) [OF that] Cons.prems(2) by simp
  have "bp_ok special key ts" using Cons.prems(3) by (cases t) simp_all
  then have rec: "layer3_pass buf special key dat len (length (pre @ bs)) (out @ bp_expand key dat t) =
      Inr ((out @ bp_expand key dat t) @ concat (map (bp_expand key dat) ts))"
    using Cons.prems split by (intro Cons.IH) simp_all
  show ?case
  proof (cases t)
    case (BLit b)
    then show ?thesis
      using rec mid [of 0] len [of 0] Cons.prems(3,4)
      by (subst layer3_pass.simps) (simp add: bs_def buf_rd_def buf_emit_def)
  next
    case BKey
    then show ?thesis
      using rec mid [of 0] mid [of 1] len [of 0] len [of 1] Cons.prems(3,4)
      by (subst layer3_pass.simps) (simp add: bs_def buf_rd_def buf_emit_def)
  next
    case BPair
    then have ne: "bp_stream special key ts \<noteq> []" and hd: "hd (bp_stream special key ts) \<noteq> special"
      using Cons.prems(3) bp_stream_ne by simp_all
    have "take len buf = (pre @ [key]) @ bp_stream special key ts @ []" using split BPair by (simp add: bs_def)
    note next_byte = nth_mid [OF this Cons.prems(2), of 0]
    have "buf ! (length pre + 1) \<noteq> special" "length pre + 1 < length buf"
      using next_byte ne hd Cons.prems(2) by (simp_all add: hd_conv_nth)
    then show ?thesis
      using BPair rec mid [of 0] len [of 0] Cons.prems(4)
      by (subst layer3_pass.simps) (simp add: bs_def buf_rd_def buf_emit_def)
  qed
qed

lemma pair_bytes:
  assumes "pair_at xs i = word"
  shows "of_nat word = xs ! i" and "of_nat (word div 256) = xs ! (i + 1)"
proof -
  have w: "word = unat (xs ! i) + 256 * unat (xs ! (i + 1))" using assms by (simp add: pair_at_def)
  then have "word div 256 = unat (xs ! (i + 1))" using unat_u8_less [of "xs ! i"] by (simp del: unat_u8_less)
  then show "of_nat (word div 256) = xs ! (i + 1)" by simp
  have "(of_nat word :: u8) = of_nat (unat (xs ! i)) + 256 * of_nat (unat (xs ! (i + 1)))"
    unfolding w by (simp only: of_nat_add of_nat_mult of_nat_numeral)
  moreover have "(256 :: u8) = 0" by simp
  ultimately show "of_nat word = xs ! i" by (simp only: mult_zero_left add_0_right) simp
qed

lemma phase3_loop_tokens:
  fixes word :: nat
  assumes "2 \<le> length xs" and "length xs < 2 ^ 32" and "key \<noteq> special" and "i \<le> length xs"
  defines "dat \<equiv> [of_nat word, of_nat (word div 256)]"
  shows "\<exists>ts. phase3_loop xs special key word i out = out @ bp_stream special key ts \<and> bp_ok special key ts \<and>
    concat (map (bp_expand key dat) ts) = drop i xs \<and>
    (i < length xs \<longrightarrow> ts \<noteq> [] \<and> (hd (bp_stream special key ts) = key \<or> hd (bp_stream special key ts) = xs ! i))"
  using assms(4)
proof (induction "length xs - i" arbitrary: i out rule: less_induct)
  case less
  show ?case
  proof (cases "i < length xs")
    case False
    then show ?thesis
      using less.prems by (intro exI [of _ "[]"]) (simp add: phase3_loop.simps bp_stream_def)
  next
    case True
    have one: "drop i xs = xs ! i # drop (i + 1) xs" using True by (simp add: Cons_nth_drop_Suc)
    have "(int (length xs) - 2) mod 2 ^ 32 = int (length xs) - 2"
      using assms(1,2) by (intro mod_pos_pos_trivial) auto
    then have two: "int i < (int (length xs) - 2) mod 2 ^ 32 \<longleftrightarrow> i + 2 < length xs" by auto
    consider (key) "xs ! i = key"
      | (pair) "xs ! i \<noteq> key" "i + 2 < length xs" "pair_at xs i = word" "xs ! (i + 2) \<noteq> special"
      | (lit) "xs ! i \<noteq> key" "\<not> (i + 2 < length xs \<and> pair_at xs i = word \<and> xs ! (i + 2) \<noteq> special)"
      by blast
    then show ?thesis
    proof cases
      case key
      have "length xs - (i + 1) < length xs - i" "i + 1 \<le> length xs" using True by simp_all
      from less.hyps [OF this, of "out @ [key] @ [special]"] obtain ts where
        "phase3_loop xs special key word (i + 1) (out @ [key] @ [special]) = (out @ [key] @ [special]) @ bp_stream special key ts"
        "bp_ok special key ts" "concat (map (bp_expand key dat) ts) = drop (i + 1) xs" by blast
      then show ?thesis using key True one
        by (intro exI [of _ "BKey # ts"]) (simp add: phase3_loop.simps [of xs special key word i] bp_stream_Cons)
    next
      case pair
      have "length xs - (i + 2) < length xs - i" "i + 2 \<le> length xs" using True pair(2) by simp_all
      from less.hyps [OF this, of "out @ [key]"] obtain ts where ts:
        "phase3_loop xs special key word (i + 2) (out @ [key]) = (out @ [key]) @ bp_stream special key ts"
        "bp_ok special key ts" "concat (map (bp_expand key dat) ts) = drop (i + 2) xs"
        "ts \<noteq> []" "hd (bp_stream special key ts) = key \<or> hd (bp_stream special key ts) = xs ! (i + 2)"
        using pair(2) by blast
      have "hd (bp_stream special key ts) \<noteq> special" using ts(5) pair(4) assms(3) by auto
      moreover have "drop i xs = dat @ drop (i + 2) xs"
        using pair_bytes [OF pair(3)] pair(2) one by (simp add: dat_def Cons_nth_drop_Suc)
      ultimately show ?thesis using pair True ts two
        by (intro exI [of _ "BPair # ts"]) (simp add: phase3_loop.simps [of xs special key word i] bp_stream_Cons)
    next
      case lit
      have "length xs - (i + 1) < length xs - i" "i + 1 \<le> length xs" using True by simp_all
      from less.hyps [OF this, of "out @ [xs ! i]"] obtain ts where ts:
        "phase3_loop xs special key word (i + 1) (out @ [xs ! i]) = (out @ [xs ! i]) @ bp_stream special key ts"
        "bp_ok special key ts" "concat (map (bp_expand key dat) ts) = drop (i + 1) xs" by blast
      have "phase3_loop xs special key word i out = phase3_loop xs special key word (i + 1) (out @ [xs ! i])"
        using lit True by (subst phase3_loop.simps) (auto simp: two [simplified])
      then show ?thesis using lit(1) True one ts
        by (intro exI [of _ "BLit (xs ! i) # ts"]) (simp add: bp_stream_Cons)
    qed
  qed
qed

subsection \<open>Rounds of byte pairs\<close>

lemma phase3_best_le:
  "snd (phase3_best xs ws word cnt) \<le> max cnt (length xs - 1)"
proof (induction ws arbitrary: word cnt)
  case Nil
  then show ?case by simp
next
  case (Cons w ws)
  have "pair_count xs w \<le> length xs - 1"
    unfolding pair_count_def using length_filter_le [of _ "[0..<length xs - 1]"] by simp
  then show ?case using Cons.IH [of w "pair_count xs w"] Cons.IH [of word cnt] by auto
qed

text \<open>One round of the encoder and one turn of the decoder's loop.\<close>

lemma phase3_round_decodes:
  assumes round: "phase3_round special xs = Some ys"
    and buf: "length buf = BUFLEN" "take (length ys) buf = ys" and len: "length xs \<le> BUFLEN" "length ys \<le> BUFLEN"
  shows "layer3 (Suc fuel) special buf (length ys) = layer3 fuel special (overlay xs buf) (length xs)"
proof -
  define key where "key = bc_char (FindBestChar xs (unat special))"
  obtain word cnt where best: "phase3_best xs [0..<0x10000] 0 0 = (word, cnt)" by fastforce
  have cnt: "3 \<le> cnt" and ys: "ys = phase3_loop xs special key word 0 ([key] @ [of_nat word] @ [of_nat (word div 256)])"
    using round by (auto simp: phase3_round_def Let_def best key_def split: if_splits)
  have long: "2 \<le> length xs" "length xs < 2 ^ 32"
    using phase3_best_le [of xs "[0..<0x10000]" 0 0] cnt len(1) by (simp_all add: best BUFLEN_def)
  then have "xs \<noteq> []" by auto
  then have "key \<noteq> special" using FindBestChar_skips [of xs "unat special"] by (auto simp: key_def)
  define dat where "dat = [of_nat word, of_nat (word div 256) :: u8]"
  obtain ts where ts: "phase3_loop xs special key word 0 ([key] @ [of_nat word] @ [of_nat (word div 256)]) =
      ([key] @ [of_nat word] @ [of_nat (word div 256)]) @ bp_stream special key ts"
    "bp_ok special key ts" "concat (map (bp_expand key dat) ts) = xs"
    using phase3_loop_tokens [OF long \<open>key \<noteq> special\<close>, of 0 word "[key] @ [of_nat word] @ [of_nat (word div 256)]"]
    unfolding dat_def by auto
  define pre where "pre = [key] @ dat"
  have ys': "ys = pre @ bp_stream special key ts" using ys ts(1) by (simp add: pre_def dat_def)
  have "layer3_pass buf special key dat (length ys) (length pre) [] = Inr ([] @ concat (map (bp_expand key dat) ts))"
    using buf len ts ys' by (intro layer3_pass_tokens) simp_all
  then have pass: "layer3_pass buf special key dat (length ys) 3 [] = Inr xs"
    using ts(3) by (simp add: pre_def dat_def numeral_3_eq_3)
  have at: "buf ! k = ys ! k" if "k < length ys" for k
    using buf(2) that by (metis nth_take)
  have "buf ! 0 = key" "buf ! 1 = of_nat word" "buf ! 2 = of_nat (word div 256)"
    using at [of 0] at [of 1] at [of 2] ys' by (simp_all add: pre_def dat_def)
  then have "buf_rd buf 0 = Inr key" "buf_rd buf 1 = Inr (of_nat word)" "buf_rd buf 2 = Inr (of_nat (word div 256))"
    using buf(1) by (simp_all add: buf_rd_def BUFLEN_def)
  then show ?thesis using \<open>key \<noteq> special\<close> pass by (simp add: dat_def)
qed

text \<open>As many turns as the data got shorter undo all rounds.\<close>

lemma phase3_rounds_decode:
  fixes special :: u8
  assumes "length xs \<le> BUFLEN"
  defines "zs \<equiv> phase3_rounds special xs"
  shows "\<exists>k. k + length zs \<le> length xs \<and>
    (\<forall>buf. length buf = BUFLEN \<longrightarrow> take (length zs) buf = zs \<longrightarrow>
      (\<exists>buf'. length buf' = BUFLEN \<and> take (length xs) buf' = xs \<and>
        (\<forall>fuel. layer3 (fuel + k) special buf (length zs) = layer3 fuel special buf' (length xs))))"
  using assms(1) unfolding zs_def
proof (induction special xs rule: phase3_rounds.induct)
  case (1 special xs)
  show ?case
  proof (cases "\<exists>cur. phase3_round special xs = Some cur \<and> length cur < length xs")
    case False
    then have eq: "phase3_rounds special xs = xs" by (subst phase3_rounds.simps) (auto split: option.split)
    show ?thesis unfolding eq by (intro exI [of _ 0]) auto
  next
    case True
    then obtain cur where cur: "phase3_round special xs = Some cur" "length cur < length xs" by blast
    define zs where "zs = phase3_rounds special cur"
    have eq: "phase3_rounds special xs = zs" using cur by (subst phase3_rounds.simps) (simp add: zs_def)
    have len: "length cur \<le> BUFLEN" using cur(2) "1.prems" by simp
    from "1.IH" [OF cur this] obtain k where k: "k + length zs \<le> length cur" and dec:
      "\<And>buf. length buf = BUFLEN \<Longrightarrow> take (length zs) buf = zs \<Longrightarrow>
        \<exists>buf'. length buf' = BUFLEN \<and> take (length cur) buf' = cur \<and>
          (\<forall>fuel. layer3 (fuel + k) special buf (length zs) = layer3 fuel special buf' (length cur))"
      unfolding zs_def by blast
    have "\<exists>buf'. length buf' = BUFLEN \<and> take (length xs) buf' = xs \<and>
        (\<forall>fuel. layer3 (fuel + Suc k) special buf (length zs) = layer3 fuel special buf' (length xs))"
      if buf: "length buf = BUFLEN" "take (length zs) buf = zs" for buf
    proof -
      obtain b1 where b1: "length b1 = BUFLEN" "take (length cur) b1 = cur"
        "\<And>fuel. layer3 (fuel + k) special buf (length zs) = layer3 fuel special b1 (length cur)"
        using dec [OF buf] by blast
      have "layer3 (fuel + Suc k) special buf (length zs) = layer3 fuel special (overlay xs b1) (length xs)" for fuel
        using b1(3) [of "Suc fuel"] phase3_round_decodes [OF cur(1) b1(1,2) "1.prems" len, of fuel] by simp
      then show ?thesis using b1(1) "1.prems" by (intro exI [of _ "overlay xs b1"]) (simp add: overlay_def)
    qed
    then show ?thesis unfolding eq using k cur(2) by (intro exI [of _ "Suc k"]) simp
  qed
qed

text \<open>Decoding what phase 3 wrote.\<close>

definition phase3_fits :: "u8 list \<Rightarrow> bool" where
  "phase3_fits data \<longleftrightarrow> set data \<noteq> UNIV \<and> length data < BUFLEN"

lemma phase3_decodes:
  assumes "phase3_fits data" and "length garbage = BUFLEN" and "length data + 2 \<le> fuel"
  shows "decompress3_main fuel key0 garbage (Phase3 data) = Some (Inr data)"
proof -
  define special where "special = bc_char (FindBestChar data 0x100)"
  obtain c where "c \<notin> set data" using assms(1) by (auto simp: phase3_fits_def)
  then have "count_list data c = 0" by (simp add: count_list_0_iff)
  moreover have "unat c \<noteq> 0x100" using unat_u8_less [of c] by (metis less_irrefl)
  ultimately have "bc_count (FindBestChar data 0x100) = 0" using FindBestChar_spec(2) by (metis le_zero_eq)
  then have enc: "Phase3 data = [special] @ phase3_rounds special ([special] @ data)"
    by (simp add: Phase3_def Let_def special_def)
  define xs where "xs = [special] @ data"
  define zs where "zs = phase3_rounds special xs"
  have len: "length xs \<le> BUFLEN" using assms(1) by (simp add: phase3_fits_def xs_def)
  obtain k where k: "k + length zs \<le> length xs" and dec:
    "\<And>buf. length buf = BUFLEN \<Longrightarrow> take (length zs) buf = zs \<Longrightarrow>
      \<exists>buf'. length buf' = BUFLEN \<and> take (length xs) buf' = xs \<and>
        (\<forall>fuel. layer3 (fuel + k) special buf (length zs) = layer3 fuel special buf' (length xs))"
    using phase3_rounds_decode [OF len, of special] unfolding zs_def by blast
  have zlen: "length zs \<le> BUFLEN" using k len by simp
  define buf where "buf = overlay zs garbage"
  have buf: "load garbage zs = (buf, length zs)" "length buf = BUFLEN" "take (length zs) buf = zs"
    using load_whole [OF assms(2) zlen] by (simp_all add: buf_def)
  obtain buf' where buf': "length buf' = BUFLEN" "take (length xs) buf' = xs"
    "\<And>fuel. layer3 (fuel + k) special buf (length zs) = layer3 fuel special buf' (length xs)"
    using dec [OF buf(2,3)] by blast
  define f where "f = fuel - k - 1"
  have f: "fuel = Suc f + k" using assms(3) k by (simp add: f_def xs_def)
  have "take (length xs) buf' ! 0 = buf' ! 0" by (rule nth_take) (simp add: xs_def)
  then have "buf' ! 0 = special" unfolding buf'(2) by (simp add: xs_def)
  then have "layer3 (Suc f) special buf' (length xs) = Some (Inr (buf', length xs))"
    using buf'(1) by (simp add: buf_rd_def BUFLEN_def)
  then have "layer3 fuel special buf (length zs) = Some (Inr (buf', length xs))"
    unfolding f buf'(3) .
  moreover have "chop_first buf' (length xs) = data"
  proof -
    have "chop_first buf' (length xs) = drop 1 (take (length xs) buf')" by (simp only: chop_first_def drop_take)
    also have "\<dots> = drop 1 xs" by (simp only: buf'(2))
    finally show ?thesis by (simp add: xs_def)
  qed
  moreover have "Phase3 data = special # zs" unfolding enc zs_def xs_def by simp
  ultimately show ?thesis using buf(1) by (simp add: decompress3_main_def)
qed

lemma phase3_decodes_max:
  "phase3_fits data \<Longrightarrow> decompress3_main (BUFLEN + 2) 0 (replicate BUFLEN 0) (Phase3 data) = Some (Inr data)"
  by (rule phase3_decodes) (simp_all add: phase3_fits_def)

interpretation bpe: codec "\<lambda>data. Inr (Phase3 data) :: unit + u8 list"
  "\<lambda>file. case decompress3_main (BUFLEN + 2) 0 (replicate BUFLEN 0) file of Some (Inr d) \<Rightarrow> Some d | _ \<Rightarrow> None"
  phase3_fits
proof unfold_locales
  fix x y
  assume "phase3_fits x" and "(Inr (Phase3 x) :: unit + u8 list) = Inr y"
  then show "(case decompress3_main (BUFLEN + 2) 0 (replicate BUFLEN 0) y of Some (Inr d) \<Rightarrow> Some d | _ \<Rightarrow> None) = Some x"
    using phase3_decodes_max by auto
qed simp

text \<open>C26. \<open>decompress1\<close> undoes phase 1: data of at least three bytes that fits the buffers, compressed or
  not, is compressed without a fault and comes back byte for byte, whatever the buffer held.\<close>

theorem Phase1_round_trip:
  assumes "phase1_fits data" and "length garbage = BUFLEN"
  shows "\<exists>y. Phase1 data = Inr y \<and> decompress1_main garbage y = Inr data"
  using rle.enc_total [OF assms(1)] phase1_decodes [OF assms(1) _ assms(2)] by blast

theorem Phase1_round_trip_witness:
  "\<exists>y. Phase1 [7, 7, 7, 7, 7, 0] = Inr y \<and> decompress1_main (replicate BUFLEN 9) y = Inr [7, 7, 7, 7, 7, 0]"
proof (rule Phase1_round_trip)
  have "bc_char (FindBestChar [7, 7, 7, 7, 7, 0] 0x100) = 1" by code_simp
  then have "Phase1 [7, 7, 7, 7, 7, 0] = phase1_loop [7, 7, 7, 7, 7, 0] 1 0 [1]" by (simp add: Phase1_def)
  moreover have "phase1_loop [7, 7, 7, 7, 7, 0] 1 0 [1] = Inr [1, 1, 2, 7, 0]" by code_simp
  ultimately show "phase1_fits [7, 7, 7, 7, 7, 0]" by (simp add: phase1_fits_def BUFLEN_def)
qed simp

text \<open>C25. \<open>decompress3\<close> undoes phase 3: data shorter than the buffer with an unused byte value comes back
  byte for byte, in at most two more rounds than it has bytes.\<close>

theorem Phase3_round_trip:
  assumes "set data \<noteq> UNIV" and "length data < BUFLEN" and "length garbage = BUFLEN" and "length data + 2 \<le> fuel"
  shows "decompress3_main fuel key0 garbage (Phase3 data) = Some (Inr data)"
  using assms by (intro phase3_decodes) (simp_all add: phase3_fits_def)

theorem Phase3_round_trip_witness:
  "decompress3_main 10 0 (replicate BUFLEN 3) (Phase3 [1, 2, 1, 2, 1, 2, 5]) = Some (Inr [1, 2, 1, 2, 1, 2, 5])"
proof (rule Phase3_round_trip)
  have "(9 :: u8) \<notin> set [1, 2, 1, 2, 1, 2, 5]" by simp
  then show "set [1, 2, 1, 2, 1, 2, 5] \<noteq> (UNIV :: u8 set)" by blast
qed (simp_all add: BUFLEN_def)

text \<open>An example of what the dictionary phase loses: in these six bytes a match at the start takes the zero byte
  that marks the end, the decompressor reads data as dictionary entries and faults.\<close>

lemma Phase2_loses_marker:
  "\<exists>y. Phase2 [5, 6, 9, 0, 5, 6] = Inr y \<and>
    (\<exists>e. decompress2_main 2 (replicate BUFLEN 0) y = Some (Inl e))"
proof -
  define y :: "u8 list" where "y = [1, 3, 0, 5, 6, 1, 0, 9, 1, 0]"
  have enc: "Phase2 [5, 6, 9, 0, 5, 6] = Inr y" unfolding y_def by code_simp
  define buf where "buf = overlay y (replicate BUFLEN 0)"
  have buf: "load (replicate BUFLEN 0) y = (buf, 10)" "length buf = 10000"
    using load_whole [of "replicate BUFLEN 0" y] by (simp_all add: buf_def y_def BUFLEN_def)
  have nth: "buf ! k = (if k < 10 then y ! k else 0)" if "k < 10000" for k
  proof -
    have "length y = 10" by (simp add: y_def)
    then show ?thesis using that by (simp add: buf_def overlay_def nth_append BUFLEN_def)
  qed
  have slice: "buf_slice buf i n = Inr (take n (drop i buf))" if "i + n \<le> 10000" for i n
    using that by (simp add: buf_slice_def buf(2))
  have "\<exists>es. layer2_entries buf 1 [] = Inr (es, 17)"
  proof -
    have at: "buf ! 1 = 3" "buf ! 5 = 1" "buf ! 7 = 9" "buf ! 17 = 0"
      using nth [of 1] nth [of 5] nth [of 7] nth [of 17] by (simp_all add: y_def)
    have step: "layer2_entries buf p es0 = layer2_entries buf (p + n + 1) (es0 @ [take n (drop (p + 1) buf)])"
      if "p + n + 1 \<le> 10000" "unat (buf ! p) = n" "0 < n" "length es0 \<noteq> 256" for p n es0
      using that by (subst layer2_entries.simps) (simp add: buf(2) slice)
    define e1 e2 e3 where "e1 = take 3 (drop (1 + 1) buf)" and "e2 = take 1 (drop (5 + 1) buf)" and "e3 = take 9 (drop (7 + 1) buf)"
    have "layer2_entries buf 1 [] = layer2_entries buf 5 [e1]"
      using step [of 1 3 "[]"] at by (simp add: e1_def)
    also have "\<dots> = layer2_entries buf 7 [e1, e2]"
      using step [of 5 1 "[e1]"] at by (simp add: e2_def)
    also have "\<dots> = layer2_entries buf 17 [e1, e2, e3]"
      using step [of 7 9 "[e1, e2]"] at by (simp add: e3_def)
    also have "\<dots> = Inr ([e1, e2, e3], 17)"
      using at by (subst layer2_entries.simps) (simp add: buf(2))
    finally show ?thesis by blast
  qed
  then obtain es where "layer2_entries buf 1 [] = Inr (es, 17)" by blast
  moreover have "buf_rd buf 0 = Inr 1" using nth [of 0] by (simp add: buf_rd_def buf(2) y_def)
  ultimately have "layer2 (Suc 1) buf 10 = Some (Inl (Buf_Read BUFLEN))"
    by (simp add: layer2_round_def)
  then have "decompress2_main 2 (replicate BUFLEN 0) y = Some (Inl (Buf_Read BUFLEN))"
    using buf(1) by (simp add: decompress2_main_def numeral_2_eq_2)
  with enc show ?thesis by blast
qed

end
