(* ===== verification/Liberty_Payload.thy ===== *)
theory Liberty_Payload
  imports Liberty_Props
begin

unbundle bit_operations_syntax

text \<open>
  \<open>payload-decompress.c\<close> against \<open>decompress.c\<close>: every layer keeps the shape of the buffer, so copying the
  data out of \<open>OutBuffer\<close> is copying it out of \<open>InBuffer\<close> whenever the layer ran a round.
\<close>


lemma overlay_length: "length out \<le> length buf \<Longrightarrow> length (overlay out buf) = length buf"
  by (simp add: overlay_def)

lemma buf_emit_le: "buf_emit out bs = Inr out' \<Longrightarrow> length out' \<le> BUFLEN"
  by (auto simp: buf_emit_def split: if_splits)

lemma layer3_pass_le: "layer3_pass buf special key dat len pos out = Inr out' \<Longrightarrow> length out \<le> BUFLEN \<Longrightarrow> length out' \<le> BUFLEN"
proof (induction buf special key dat len pos out rule: layer3_pass.induct)
  case (1 buf special key dat len pos out)
  show ?case
  proof (cases "pos < len")
    case False
    then show ?thesis using "1.prems" by (subst (asm) layer3_pass.simps) simp
  next
    case True
    obtain out1 pos1 where "layer3_pass buf special key dat len pos1 out1 = Inr out'" "length out1 \<le> BUFLEN"
      and "layer3_pass buf special key dat len pos1 out1 = Inr out' \<Longrightarrow> length out1 \<le> BUFLEN \<Longrightarrow> length out' \<le> BUFLEN"
      using "1.prems"(1) True "1.IH"
      by (subst (asm) layer3_pass.simps)
        (auto simp: andThen_Inr_iff buf_rd_def dest!: buf_emit_le split: if_splits)
    then show ?thesis by blast
  qed
qed

lemma layer2_pass_le: "layer2_pass buf key ent entry len pos out = Inr out' \<Longrightarrow> length out \<le> BUFLEN \<Longrightarrow> length out' \<le> BUFLEN"
proof (induction buf key ent entry len pos out rule: layer2_pass.induct)
  case (1 buf key ent entry len pos out)
  show ?case
  proof (cases "pos < len")
    case False
    then show ?thesis using "1.prems" by (subst (asm) layer2_pass.simps) simp
  next
    case True
    obtain out1 pos1 where "layer2_pass buf key ent entry len pos1 out1 = Inr out'" "length out1 \<le> BUFLEN"
      and "layer2_pass buf key ent entry len pos1 out1 = Inr out' \<Longrightarrow> length out1 \<le> BUFLEN \<Longrightarrow> length out' \<le> BUFLEN"
      using "1.prems"(1) True "1.IH"
      by (subst (asm) layer2_pass.simps)
        (auto simp: andThen_Inr_iff buf_rd_def dest!: buf_emit_le split: if_splits)
    then show ?thesis by blast
  qed
qed

text \<open>The shape of a buffer and its length, which every layer keeps.\<close>

definition buf_ok :: "u8 list \<times> nat \<Rightarrow> bool" where
  "buf_ok s \<longleftrightarrow> length (fst s) = BUFLEN \<and> snd s \<le> BUFLEN"

lemma overlay_ok: "length out \<le> BUFLEN \<Longrightarrow> length buf = BUFLEN \<Longrightarrow> buf_ok (overlay out buf, length out)"
  by (simp add: buf_ok_def overlay_length)

lemma layer3_ok: "layer3 fuel special buf len = Some (Inr s) \<Longrightarrow> buf_ok (buf, len) \<Longrightarrow> buf_ok s"
proof (induction fuel arbitrary: buf len)
  case 0
  then show ?case by simp
next
  case (Suc fuel)
  have len: "length buf = BUFLEN" using Suc.prems(2) by (simp add: buf_ok_def)
  show ?case
  proof (cases "buf ! 0 = special")
    case True
    then show ?thesis using Suc.prems len by (simp add: buf_rd_def BUFLEN_def)
  next
    case False
    then obtain out where out: "layer3_pass buf special (buf ! 0) [buf ! 1, buf ! 2] len 3 [] = Inr out"
      "layer3 fuel special (overlay out buf) (length out) = Some (Inr s)"
      using Suc.prems(1) len
      by (cases "layer3_pass buf special (buf ! 0) [buf ! 1, buf ! 2] len 3 []") (auto simp: buf_rd_def BUFLEN_def)
    have "length out \<le> BUFLEN" by (rule layer3_pass_le [OF out(1)]) simp
    then show ?thesis by (rule Suc.IH [OF out(2) overlay_ok]) (rule len)
  qed
qed

lemma layer2_passes_ok: "layer2_passes key es n buf len = Inr s \<Longrightarrow> buf_ok (buf, len) \<Longrightarrow> buf_ok s"
proof (induction n arbitrary: buf len)
  case 0
  then show ?case by simp
next
  case (Suc n)
  then obtain out where out: "layer2_pass buf key n (es ! n) len 0 [] = Inr out"
    "layer2_passes key es n (overlay out buf) (length out) = Inr s"
    by (auto simp: andThen_Inr_iff)
  then have "length out \<le> BUFLEN" using layer2_pass_le by fastforce
  then show ?case using Suc.IH [OF out(2)] Suc.prems(2) by (simp add: overlay_ok buf_ok_def overlay_length)
qed

lemma layer2_round_ok: "layer2_round buf len = Inr s \<Longrightarrow> buf_ok (buf, len) \<Longrightarrow> buf_ok s"
proof -
  assume round: "layer2_round buf len = Inr s" and ok: "buf_ok (buf, len)"
  from round obtain key es pos rest where rest: "buf_slice buf pos (len - pos) = Inr rest"
    and passes: "layer2_passes key es (length es) (overlay rest buf) (len - pos) = Inr s"
    by (auto simp: layer2_round_def andThen_Inr_iff split: if_splits prod.splits)
  have "length rest \<le> length buf" using rest by (auto simp: buf_slice_def split: if_splits)
  then have "buf_ok (overlay rest buf, len - pos)" using ok by (auto simp: buf_ok_def overlay_length)
  with passes show "buf_ok s" by (rule layer2_passes_ok)
qed

lemma layer2_ok: "layer2 fuel buf len = Some (Inr s) \<Longrightarrow> buf_ok (buf, len) \<Longrightarrow> buf_ok s"
proof (induction fuel arbitrary: buf len)
  case 0
  then show ?case by simp
next
  case (Suc fuel)
  show ?case
  proof (cases "buf ! 0 = 0")
    case True
    then show ?thesis using Suc.prems by (auto simp: buf_rd_def split: if_splits)
  next
    case False
    then obtain s1 where s1: "layer2_round buf len = Inr s1" "layer2 fuel (fst s1) (snd s1) = Some (Inr s)"
      using Suc.prems(1) by (auto simp: buf_rd_def split: if_splits sum.splits)
    have "buf_ok s1" by (rule layer2_round_ok [OF s1(1) Suc.prems(2)])
    then show ?thesis using Suc.IH [OF s1(2)] by simp
  qed
qed

text \<open>Copying the data out of \<open>OutBuffer\<close> is copying it out of \<open>InBuffer\<close> when both hold it.\<close>

lemma slice_overlay:
  assumes "buf_ok (buf, len)" and "0 < len" and "length stale = BUFLEN"
  shows "buf_slice (overlay (take len buf) stale) 1 (len - 1) = buf_slice buf 1 (len - 1)"
proof -
  have len: "len \<le> BUFLEN" "length buf = BUFLEN" using assms(1) by (simp_all add: buf_ok_def)
  then have "take (len - 1) (drop 1 (overlay (take len buf) stale)) = take (len - 1) (drop 1 buf)"
    using assms(2) by (simp add: overlay_def drop_take)
  moreover have "1 + (len - 1) = len" using assms(2) by simp
  ultimately show ?thesis using len assms(3) by (simp only: buf_slice_def) (simp add: overlay_length)
qed

text \<open>C27. The payload computes what \<open>decompress.c\<close> computes when both upper layers run at least one round:
  the first byte is not the special key, and the byte behind the special key is not zero.
  Without a round it copies stale bytes of the stack instead of the data.\<close>

theorem payload_is_decompress:
  assumes "length garbage = BUFLEN" and "length stale = BUFLEN" and "src \<noteq> []" and "hd src \<noteq> special"
    and "\<And>buf len. layer3 fuel special (overlay src garbage) (length src) = Some (Inr (buf, len)) \<Longrightarrow> 2 \<le> len \<and> buf ! 1 \<noteq> 0"
  shows "payload_main fuel garbage stale special src = decompress_main fuel garbage special src"
proof (cases "length src \<le> BUFLEN")
  case False
  then show ?thesis by (simp add: payload_main_def decompress_main_def)
next
  case True
  define inb where "inb = overlay src garbage"
  have ok: "buf_ok (inb, length src)" using True assms(1) by (simp add: inb_def overlay_ok)
  have "inb ! 0 = hd src" using assms(3) by (simp add: inb_def overlay_def nth_append hd_conv_nth)
  then have first: "inb ! 0 \<noteq> special" using assms(4) by simp
  show ?thesis
  proof (cases "layer3 fuel special inb (length src)")
    case None
    then show ?thesis using True by (simp add: payload_main_def decompress_main_def Let_def inb_def)
  next
    case (Some r)
    show ?thesis
    proof (cases r)
      case (Inl e)
      then show ?thesis using True Some by (simp add: payload_main_def decompress_main_def Let_def inb_def)
    next
      case (Inr s3)
      obtain buf3 len3 where s3: "s3 = (buf3, len3)" by fastforce
      have l3: "layer3 fuel special inb (length src) = Some (Inr (buf3, len3))" using Some Inr s3 by simp
      then have ok3: "buf_ok (buf3, len3)" using ok by (rule layer3_ok)
      have long: "2 \<le> len3" "buf3 ! 1 \<noteq> 0" using assms(5) l3 by (simp_all add: inb_def)
      define bs3 where "bs3 = take (len3 - 1) (drop 1 buf3)"
      have bs3: "buf_slice buf3 1 (len3 - 1) = Inr bs3"
        using ok3 long(1) by (simp add: buf_slice_def bs3_def buf_ok_def)
      define inb2 where "inb2 = overlay bs3 buf3"
      have len_bs3: "length bs3 = len3 - 1" using ok3 by (auto simp: bs3_def buf_ok_def)
      have "inb2 ! 0 = buf3 ! 1"
        using long(1) ok3 len_bs3 by (simp add: inb2_def overlay_def nth_append bs3_def buf_ok_def)
      then have second: "inb2 ! 0 \<noteq> 0" using long(2) by simp
      have ok2: "buf_ok (inb2, len3 - 1)"
        using ok3 len_bs3 by (auto simp: inb2_def buf_ok_def overlay_length)
      define out3 where "out3 = overlay (take len3 buf3) stale"
      have slice3: "buf_slice out3 1 (len3 - 1) = Inr bs3"
        using slice_overlay [OF ok3 _ assms(2)] long(1) bs3 by (simp add: out3_def)
      have "length out3 = BUFLEN" using ok3 assms(2) by (simp add: out3_def overlay_length buf_ok_def)
      then have slice2: "buf_slice (overlay (take len2 buf2) out3) 1 (len2 - 1) = buf_slice buf2 1 (len2 - 1)"
        if "layer2 fuel inb2 (len3 - 1) = Some (Inr (buf2, len2))" "0 < len2" for buf2 len2
        using slice_overlay layer2_ok [OF that(1) ok2] that(2) by blast
      have pay: "payload_main fuel garbage stale special src =
         (case layer2 fuel inb2 (len3 - 1) of None \<Rightarrow> None
          | Some (Inl e) \<Rightarrow> Some (Inl e)
          | Some (Inr (buf2, len2)) \<Rightarrow>
             if len2 = 0 then Some (Inl (Buf_Read BUFLEN))
             else case buf_slice (overlay (take len2 buf2) out3) 1 (len2 - 1) of Inl e \<Rightarrow> Some (Inl e)
             | Inr bs2 \<Rightarrow> Some (layer1 (overlay bs2 buf2) (len2 - 1)))"
        using True l3 long(1) first second slice3
        unfolding out3_def
        by (simp add: payload_main_def Let_def inb_def [symmetric] inb2_def [symmetric]
            split: option.split sum.split prod.split)
      have dec: "decompress_main fuel garbage special src =
         (case layer2 fuel inb2 (len3 - 1) of None \<Rightarrow> None
          | Some (Inl e) \<Rightarrow> Some (Inl e)
          | Some (Inr (buf2, len2)) \<Rightarrow>
             (case cut_first buf2 len2 of Inl e \<Rightarrow> Some (Inl e) | Inr (b, l) \<Rightarrow> Some (layer1 b l)))"
        using True l3 long(1) bs3
        by (simp add: decompress_main_def inb_def [symmetric] cut_first_def [of buf3] inb2_def [symmetric])
      show ?thesis unfolding pay dec
        by (auto simp: cut_first_def slice2 [unfolded One_nat_def] andThen_def split: option.split sum.split)
    qed
  qed
qed

theorem payload_is_decompress_witness:
  "payload_main 5 (replicate BUFLEN 0) (replicate BUFLEN 0xAA) 9 [1, 9, 7, 9, 7, 7] =
   decompress_main 5 (replicate BUFLEN 0) 9 [1, 9, 7, 9, 7, 7]"
proof (rule payload_is_decompress)
  fix buf len
  define inb :: "u8 list" where "inb = overlay [1, 9, 7, 9, 7, 7] (replicate BUFLEN 0)"
  define out :: "u8 list" where "out = [9, 7, 7]"
  have at: "inb ! 0 = 1" "inb ! 1 = 9" "inb ! 2 = 7" "inb ! 3 = 9" "inb ! 4 = 7" "inb ! 5 = 7" "length inb = BUFLEN"
    by (simp_all add: inb_def overlay_def BUFLEN_def)
  have length_out: "length out = 3" by (simp add: out_def)
  have "layer3_pass inb 9 1 [9, 7] 6 3 [] = Inr out"
    using at by (simp add: layer3_pass.simps buf_rd_def buf_emit_def BUFLEN_def out_def)
  then have "layer3 (Suc 4) 9 inb 6 = layer3 4 9 (overlay out inb) 3"
    unfolding layer3.simps using at by (simp add: buf_rd_def BUFLEN_def length_out)
  moreover have "layer3 (Suc 3) 9 (overlay out inb) 3 = Some (Inr (overlay out inb, 3))"
    unfolding layer3.simps by (simp add: buf_rd_def overlay_def out_def)
  moreover have "(5 :: nat) = Suc 4" "(4 :: nat) = Suc 3" by simp_all
  ultimately have "layer3 5 9 inb 6 = Some (Inr (overlay out inb, 3))"
    by (simp only:)
  moreover assume "layer3 5 9 (overlay [1, 9, 7, 9, 7, 7] (replicate BUFLEN 0)) (length [1, 9, 7, 9, 7, 7 :: u8]) = Some (Inr (buf, len))"
  moreover have "length [1, 9, 7, 9, 7, 7 :: u8] = 6" by simp
  ultimately have "buf = overlay out inb" "len = 3" by (simp_all only: inb_def [symmetric] option.inject sum.inject prod.inject)
  then show "2 \<le> len \<and> buf ! 1 \<noteq> 0" by (simp add: overlay_def out_def)
qed simp_all

end
