(* ===== verification/Lzss.thy ===== *)
theory Lzss
  imports Prelude
begin

unbundle bit_operations_syntax

text \<open>
  The LZSS compressor of reeses_revenge: \<open>lzss/lzss.c\<close> on files, and the same code in
  \<open>mips_build/test_lzss.c\<close> on two arrays. The two texts differ in how a byte is read (\<open>fgetc\<close>,
  \<open>readByte\<close>) and written (\<open>fputc\<close>, \<open>writeByte\<close>), so the operations here take the reader \<open>rd\<close> and the
  writer \<open>wr\<close> as arguments; this theory gives the files, \<open>Lzss_Server\<close> the arrays. The globals and the
  static variables of \<open>getbit\<close> are the record \<open>lz\<close>. A reader returns \<open>None\<close> for \<open>EOF\<close>.

  Loops over the input take fuel. Counters and indices are natural numbers below \<open>2 ^ 31\<close>; the bit
  buffers and masks are 32-bit words.
\<close>

subsection \<open>Constants and state\<close>

definition EI :: nat where "EI = 13"
definition EJ :: nat where "EJ = 5"
definition LZ_P :: nat where "LZ_P = 1"
definition LZ_N :: nat where "LZ_N = push_bit EI 1"
definition LZ_F :: nat where "LZ_F = push_bit EJ 1 + LZ_P"

lemma lz_consts: "EI = 13" "EJ = 5" "LZ_P = 1" "LZ_N = 8192" "LZ_F = 33" "push_bit EJ 1 = (32 :: nat)"
  by (simp_all add: EI_def EJ_def LZ_P_def LZ_N_def LZ_F_def push_bit_eq_mult)

datatype lz_fault = Output_Error | Divide_By_Zero | Array_Read nat | Array_Write nat

record 'io lz =
  bit_buffer :: u32
  bit_mask :: u32
  codecount :: nat
  textcount :: nat
  lz_buffer :: "u8 list"
  gb_buf :: u32
  gb_mask :: u32
  lz_io :: 'io

type_synonym 'io reader = "'io \<Rightarrow> lz_fault + (u8 option \<times> 'io)"
type_synonym 'io writer = "u8 \<Rightarrow> 'io \<Rightarrow> lz_fault + 'io"

subsection \<open>Bit output\<close>

definition put_byte :: "'io writer \<Rightarrow> u32 \<Rightarrow> 'io lz \<Rightarrow> lz_fault + 'io lz" where
  "put_byte wr bb s =
     andThen (wr (ucast bb) (lz_io s)) (\<lambda>io.
       Inr (s\<lparr>bit_buffer := 0, bit_mask := 128, codecount := codecount s + 1, lz_io := io\<rparr>))"

definition putbit1 :: "'io writer \<Rightarrow> 'io lz \<Rightarrow> lz_fault + 'io lz" where
  "putbit1 wr s =
     (let bb = bit_buffer s OR bit_mask s; bm = drop_bit 1 (bit_mask s) in
      if bm = 0 then put_byte wr bb s else Inr (s\<lparr>bit_buffer := bb, bit_mask := bm\<rparr>))"

definition putbit0 :: "'io writer \<Rightarrow> 'io lz \<Rightarrow> lz_fault + 'io lz" where
  "putbit0 wr s =
     (let bm = drop_bit 1 (bit_mask s) in
      if bm = 0 then put_byte wr (bit_buffer s) s else Inr (s\<lparr>bit_mask := bm\<rparr>))"

definition flush_bit_buffer :: "'io writer \<Rightarrow> 'io lz \<Rightarrow> lz_fault + 'io lz" where
  "flush_bit_buffer wr s =
     (if bit_mask s \<noteq> 128
      then andThen (wr (ucast (bit_buffer s)) (lz_io s)) (\<lambda>io. Inr (s\<lparr>codecount := codecount s + 1, lz_io := io\<rparr>))
      else Inr s)"

text \<open>\<open>while (mask >>= 1)\<close>: the bits of \<open>v\<close> below the mask, highest first.\<close>

function put_bits :: "'io writer \<Rightarrow> nat \<Rightarrow> nat \<Rightarrow> 'io lz \<Rightarrow> lz_fault + 'io lz" where
  "put_bits wr v msk s =
     (let m = drop_bit 1 msk in
      if m = 0 then Inr s
      else andThen (if v AND m \<noteq> 0 then putbit1 wr s else putbit0 wr s) (put_bits wr v m))"
  by pat_completeness auto
termination by (relation "measure (\<lambda>(wr, v, msk, s). msk)") (auto simp: drop_bit_Suc)

declare put_bits.simps [simp del]

definition output1 :: "'io writer \<Rightarrow> nat \<Rightarrow> 'io lz \<Rightarrow> lz_fault + 'io lz" where
  "output1 wr c s = andThen (putbit1 wr s) (put_bits wr c 256)"

definition output2 :: "'io writer \<Rightarrow> nat \<Rightarrow> nat \<Rightarrow> 'io lz \<Rightarrow> lz_fault + 'io lz" where
  "output2 wr x y s =
     andThen (putbit0 wr s) (\<lambda>s1. andThen (put_bits wr x LZ_N s1) (put_bits wr y (push_bit EJ 1)))"

subsection \<open>Encoding\<close>

text \<open>Filling the buffer from position \<open>i\<close>; the result has the position behind the last byte read.\<close>

function lz_fill :: "'io reader \<Rightarrow> nat \<Rightarrow> 'io lz \<Rightarrow> lz_fault + (nat \<times> 'io lz)" where
  "lz_fill rd i s =
     (if i < LZ_N * 2
      then andThen (rd (lz_io s)) (\<lambda>(c, io). case c of
          None \<Rightarrow> Inr (i, s\<lparr>lz_io := io\<rparr>)
        | Some b \<Rightarrow> lz_fill rd (i + 1)
            (s\<lparr>lz_buffer := (lz_buffer s)[i := b], textcount := textcount s + 1, lz_io := io\<rparr>))
      else Inr (i, s))"
  by pat_completeness auto
termination by (relation "measure (\<lambda>(rd, i, s). LZ_N * 2 - i)") auto

declare lz_fill.simps [simp del]

function lz_match :: "u8 list \<Rightarrow> nat \<Rightarrow> nat \<Rightarrow> nat \<Rightarrow> nat \<Rightarrow> nat" where
  "lz_match buf i r f1 j =
     (if j < f1 \<and> buf ! (i + j) = buf ! (r + j) then lz_match buf i r f1 (j + 1) else j)"
  by pat_completeness auto
termination by (relation "measure (\<lambda>(buf, i, r, f1, j). f1 - j)") auto

declare lz_match.simps [simp del]

text \<open>The search from \<open>r - 1\<close> down to \<open>s\<close>; \<open>k\<close> is one more than the \<open>i\<close> of the code.\<close>

fun lz_search :: "u8 list \<Rightarrow> nat \<Rightarrow> nat \<Rightarrow> nat \<Rightarrow> nat \<Rightarrow> nat \<Rightarrow> nat \<Rightarrow> nat \<times> nat" where
  "lz_search buf r f1 s 0 x y = (x, y)"
| "lz_search buf r f1 s (Suc i) x y =
     (if s \<le> i
      then if buf ! i = buf ! r \<and> lz_match buf i r f1 1 > y
           then lz_search buf r f1 s i i (lz_match buf i r f1 1)
           else lz_search buf r f1 s i x y
      else (x, y))"

text \<open>One turn of the main loop on \<open>(r, s, bufferend)\<close> and the globals.\<close>

definition lz_encode_turn :: "'io reader \<Rightarrow> 'io writer \<Rightarrow> nat \<times> nat \<times> nat \<times> 'io lz \<Rightarrow>
    lz_fault + ((nat \<times> nat \<times> nat \<times> 'io lz) + 'io lz)" where
  "lz_encode_turn rd wr = (\<lambda>(r, s, bufferend, st).
     if r < bufferend
     then
       let f1 = (if LZ_F \<le> bufferend - r then LZ_F else bufferend - r);
           c = lz_buffer st ! r;
           (x, y) = lz_search (lz_buffer st) r f1 s r 0 1 in
       andThen (if y \<le> LZ_P then output1 wr (unat c) st else output2 wr (x AND (LZ_N - 1)) (y - 2) st) (\<lambda>st1.
       let r1 = r + y; s1 = s + y in
       if r1 \<ge> LZ_N * 2 - LZ_F
       then andThen (lz_fill rd (bufferend - LZ_N)
                (st1\<lparr>lz_buffer := take LZ_N (drop LZ_N (lz_buffer st1)) @ drop LZ_N (lz_buffer st1)\<rparr>))
              (\<lambda>(be, st2). Inr (Inl (r1 - LZ_N, s1 - LZ_N, be, st2)))
       else Inr (Inl (r1, s1, bufferend, st1)))
     else Inr (Inr st))"

definition lz_clear :: "'io lz \<Rightarrow> 'io lz" where
  "lz_clear s = s\<lparr>lz_buffer := replicate (LZ_N - LZ_F) 0x20 @ drop (LZ_N - LZ_F) (lz_buffer s)\<rparr>"

definition lz_encode :: "'io reader \<Rightarrow> 'io writer \<Rightarrow> nat \<Rightarrow> 'io lz \<Rightarrow> (lz_fault + 'io lz) option" where
  "lz_encode rd wr fuel s =
     (case lz_fill rd (LZ_N - LZ_F) (lz_clear s) of Inl e \<Rightarrow> Some (Inl e)
      | Inr (i, s1) \<Rightarrow>
     (case loop_fuel (lz_encode_turn rd wr) fuel (LZ_N - LZ_F, 0, i, s1) of None \<Rightarrow> None
      | Some (Inl e) \<Rightarrow> Some (Inl e)
      | Some (Inr s2) \<Rightarrow> Some (flush_bit_buffer wr s2)))"

subsection \<open>Bit input\<close>

text \<open>\<open>getbit\<close>: \<open>n\<close> more bits into \<open>x\<close>. At the end of the input the bits read so far are lost.\<close>

fun getbit_loop :: "'io reader \<Rightarrow> nat \<Rightarrow> nat \<Rightarrow> 'io lz \<Rightarrow> lz_fault + (nat option \<times> 'io lz)" where
  "getbit_loop rd 0 x s = Inr (Some x, s)"
| "getbit_loop rd (Suc n) x s =
     andThen (if gb_mask s = 0
              then andThen (rd (lz_io s)) (\<lambda>(c, io). case c of
                  None \<Rightarrow> Inr (False, s\<lparr>gb_buf := - 1, lz_io := io\<rparr>)
                | Some b \<Rightarrow> Inr (True, s\<lparr>gb_buf := ucast b, gb_mask := 128, lz_io := io\<rparr>))
              else Inr (True, s)) (\<lambda>(more, s1).
       if more
       then getbit_loop rd n (2 * x + (if gb_buf s1 AND gb_mask s1 \<noteq> 0 then 1 else 0))
              (s1\<lparr>gb_mask := drop_bit 1 (gb_mask s1)\<rparr>)
       else Inr (None, s1))"

definition getbit :: "'io reader \<Rightarrow> nat \<Rightarrow> 'io lz \<Rightarrow> lz_fault + (nat option \<times> 'io lz)" where
  "getbit rd n s = getbit_loop rd n 0 s"

subsection \<open>Decoding\<close>

text \<open>Write a byte and put it into the ring at \<open>r\<close>.\<close>

definition lz_emit :: "'io writer \<Rightarrow> u8 \<Rightarrow> nat \<Rightarrow> 'io lz \<Rightarrow> lz_fault + (nat \<times> 'io lz)" where
  "lz_emit wr c r s =
     andThen (wr c (lz_io s)) (\<lambda>io.
       Inr ((r + 1) AND (LZ_N - 1), s\<lparr>lz_buffer := (lz_buffer s)[r := c], lz_io := io\<rparr>))"

text \<open>The copying loop from \<open>k\<close> on, \<open>n\<close> more bytes.\<close>

fun lz_copy :: "'io writer \<Rightarrow> nat \<Rightarrow> nat \<Rightarrow> nat \<Rightarrow> nat \<Rightarrow> 'io lz \<Rightarrow> lz_fault + (nat \<times> 'io lz)" where
  "lz_copy wr i k 0 r s = Inr (r, s)"
| "lz_copy wr i k (Suc n) r s =
     andThen (lz_emit wr (lz_buffer s ! ((i + k) AND (LZ_N - 1))) r s)
       (\<lambda>(r1, s1). lz_copy wr i (k + 1) n r1 s1)"

text \<open>A turn of the loop; every \<open>EOF\<close> leaves it.\<close>

definition lz_get :: "'io reader \<Rightarrow> nat \<Rightarrow> 'io lz \<Rightarrow> (nat \<Rightarrow> 'io lz \<Rightarrow> lz_fault + ('a + 'io lz)) \<Rightarrow> lz_fault + ('a + 'io lz)" where
  "lz_get rd n s f =
     andThen (getbit rd n s) (\<lambda>(v, s1). case v of None \<Rightarrow> Inr (Inr s1) | Some x \<Rightarrow> f x s1)"

definition lz_decode_turn :: "'io reader \<Rightarrow> 'io writer \<Rightarrow> nat \<times> 'io lz \<Rightarrow> lz_fault + ((nat \<times> 'io lz) + 'io lz)" where
  "lz_decode_turn rd wr = (\<lambda>(r, s).
     lz_get rd 1 s (\<lambda>c s1.
       if c \<noteq> 0
       then lz_get rd 8 s1 (\<lambda>c s2. andThen (lz_emit wr (of_nat c) r s2) (\<lambda>t. Inr (Inl t)))
       else lz_get rd EI s1 (\<lambda>i s2. lz_get rd EJ s2 (\<lambda>j s3.
              andThen (lz_copy wr i 0 (j + 2) r s3) (\<lambda>t. Inr (Inl t))))))"

definition lz_decode :: "'io reader \<Rightarrow> 'io writer \<Rightarrow> nat \<Rightarrow> 'io lz \<Rightarrow> (lz_fault + 'io lz) option" where
  "lz_decode rd wr fuel s = loop_fuel (lz_decode_turn rd wr) fuel (LZ_N - LZ_F, lz_clear s)"

subsection \<open>The file program\<close>

text \<open>
  \<open>infile\<close> and \<open>outfile\<close>: the bytes still to read and the bytes written. \<open>out_fails\<close> is the position at which
  \<open>fputc\<close> fails, if any; \<open>encode\<close> then ends the program, \<open>decode\<close> does not look.
\<close>

record lz_files =
  infile :: "u8 list"
  outfile :: "u8 list"
  out_fails :: "nat option"

definition lz_fgetc :: "lz_files reader" where
  "lz_fgetc io = (case infile io of [] \<Rightarrow> Inr (None, io) | b # bs \<Rightarrow> Inr (Some b, io\<lparr>infile := bs\<rparr>))"

definition lz_fputc :: "lz_files writer" where
  "lz_fputc b io =
     (if out_fails io = Some (length (outfile io)) then Inl Output_Error else Inr (io\<lparr>outfile := outfile io @ [b]\<rparr>))"

definition lz_fputc_unchecked :: "lz_files writer" where
  "lz_fputc_unchecked b io =
     (if out_fails io = Some (length (outfile io)) then Inr io else Inr (io\<lparr>outfile := outfile io @ [b]\<rparr>))"

definition lz_start :: "u8 list \<Rightarrow> lz_files lz" where
  "lz_start bs = \<lparr>bit_buffer = 0, bit_mask = 128, codecount = 0, textcount = 0, lz_buffer = replicate (LZ_N * 2) 0,
     gb_buf = 0, gb_mask = 0, lz_io = \<lparr>infile = bs, outfile = [], out_fails = None\<rparr>\<rparr>"

text \<open>\<open>encode\<close> ends with the percentage of the code, a division by the length of the text.\<close>

definition encode :: "nat \<Rightarrow> lz_files lz \<Rightarrow> (lz_fault + lz_files lz) option" where
  "encode fuel s =
     (case lz_encode lz_fgetc lz_fputc fuel s of None \<Rightarrow> None
      | Some (Inl e) \<Rightarrow> Some (Inl e)
      | Some (Inr s') \<Rightarrow> Some (if textcount s' = 0 then Inl Divide_By_Zero else Inr s'))"

definition decode :: "nat \<Rightarrow> lz_files lz \<Rightarrow> (lz_fault + lz_files lz) option" where
  "decode fuel s = lz_decode lz_fgetc lz_fputc_unchecked fuel s"

text \<open>The program on the bytes of its input file: the bytes of its output file.\<close>

definition lzss_main :: "bool \<Rightarrow> nat \<Rightarrow> u8 list \<Rightarrow> (lz_fault + u8 list) option" where
  "lzss_main enc fuel bs =
     (case (if enc then encode fuel (lz_start bs) else decode fuel (lz_start bs)) of None \<Rightarrow> None
      | Some (Inl e) \<Rightarrow> Some (Inl e)
      | Some (Inr s) \<Rightarrow> Some (Inr (outfile (lz_io s))))"

end
