(* ===== verification/Lzss_Bits.thy ===== *)
theory Lzss_Bits
  imports Lzss
begin

unbundle bit_operations_syntax

text \<open>
  The bit streams of the LZSS code, proved once for every pair of a reader and a writer that keeps the
  contract \<open>lz_channel\<close>: writing bits appends to the bits written so far, flushing pads with zeros, and
  \<open>getbit\<close> takes bits off the front of what is left to read.
\<close>

subsection \<open>Numbers as bits\<close>

definition nat_bits :: "nat \<Rightarrow> nat \<Rightarrow> bool list" where
  "nat_bits n v = map (bit v) (rev [0..<n])"

definition byte_bits :: "u8 \<Rightarrow> bool list" where
  "byte_bits b = map (bit b) (rev [0..<8])"

definition shift_in :: "nat \<Rightarrow> bool list \<Rightarrow> nat" where
  "shift_in x bs = foldl (\<lambda>x b. 2 * x + (if b then 1 else 0)) x bs"

lemma shift_in_simps [simp]: "shift_in x [] = x" "shift_in x (b # bs) = shift_in (2 * x + (if b then 1 else 0)) bs"
  by (simp_all add: shift_in_def)

lemma nat_bits_simps [simp]: "nat_bits 0 v = []" "nat_bits (Suc n) v = bit v n # nat_bits n v"
  by (simp_all add: nat_bits_def)

lemma length_nat_bits [simp]: "length (nat_bits n v) = n"
  by (simp add: nat_bits_def)

lemma length_byte_bits [simp]: "length (byte_bits b) = 8"
  by (simp add: byte_bits_def)

lemma length_concat_bytes [simp]: "length (concat (map byte_bits bs)) = 8 * length bs"
  by (induction bs) auto

lemma shift_in_nat_bits: "shift_in x (nat_bits n v) = 2 ^ n * x + v mod 2 ^ n"
proof (induction n arbitrary: x)
  case 0
  then show ?case by simp
next
  case (Suc n)
  have "v mod 2 ^ Suc n = 2 ^ n * (v div 2 ^ n mod 2) + v mod 2 ^ n"
    using mod_mult2_eq [of v "2 ^ n" 2] by (simp add: mult.commute)
  moreover have "v div 2 ^ n mod 2 = (if bit v n then 1 else 0)" by (simp add: bit_iff_odd odd_iff_mod_2_eq_one)
  ultimately show ?case by (simp add: Suc.IH algebra_simps)
qed

lemma byte_bits_nat: "byte_bits b = nat_bits 8 (unat b)"
  by (simp add: byte_bits_def nat_bits_def bit_unsigned_iff)

lemma shift_in_byte: "shift_in 0 (byte_bits b) = unat b"
proof -
  have "unat b < 2 ^ 8" using unsigned_less [where ?'a = nat, of b] by simp
  then show ?thesis by (simp only: byte_bits_nat shift_in_nat_bits) simp
qed

subsection \<open>The representation of a bit sequence\<close>

text \<open>The bits not yet written are the highest bits of \<open>bit_buffer\<close>.\<close>

definition part_word :: "u32 \<Rightarrow> bool list \<Rightarrow> bool" where
  "part_word bb part \<longleftrightarrow> (\<forall>i. bit bb i \<longleftrightarrow> i < 8 \<and> 7 - i < length part \<and> part ! (7 - i))"

lemma part_word_bytes:
  assumes "part_word bb part" and "length part \<le> 8"
  shows "byte_bits (ucast bb) = part @ replicate (8 - length part) False"
proof (rule nth_equalityI)
  fix m
  assume "m < length (byte_bits (ucast bb))"
  then have m: "m < 8" by simp
  then have "byte_bits (ucast bb) ! m = bit bb (7 - m)"
    by (auto simp: byte_bits_def rev_nth bit_unsigned_iff)
  also have "\<dots> \<longleftrightarrow> m < length part \<and> part ! m"
    using assms(1)[unfolded part_word_def, rule_format, of "7 - m"] m by auto
  finally show "byte_bits (ucast bb) ! m = (part @ replicate (8 - length part) False) ! m"
    using m assms(2) by (auto simp: nth_append)
qed (use assms(2) in simp)

lemma part_word_Nil: "part_word bb [] \<longleftrightarrow> bb = 0"
  by (auto simp: part_word_def intro: bit_word_eqI)

lemma part_word_snoc:
  assumes "part_word bb part" and "length part < 8"
  shows "part_word (if b then bb OR 2 ^ (7 - length part) else bb) (part @ [b])"
  unfolding part_word_def
proof
  fix i
  have old: "bit bb i \<longleftrightarrow> i < 8 \<and> 7 - i < length part \<and> part ! (7 - i)" using assms(1) by (simp add: part_word_def)
  have new: "bit (2 ^ (7 - length part) :: u32) i \<longleftrightarrow> i = 7 - length part"
    using assms(2) by (auto simp: bit_exp_iff)
  have at: "i < 8 \<and> 7 - i = length part \<longleftrightarrow> i = 7 - length part" using assms(2) by auto
  show "bit (if b then bb OR 2 ^ (7 - length part) else bb) i \<longleftrightarrow>
      i < 8 \<and> 7 - i < length (part @ [b]) \<and> (part @ [b]) ! (7 - i)"
  proof (cases "i = 7 - length part")
    case True
    then have "7 - i = length part" "i < 8" using assms(2) by auto
    then show ?thesis using new old True by (auto simp: bit_or_iff)
  next
    case False
    then have "7 - i < Suc (length part) \<longleftrightarrow> 7 - i < length part" if "i < 8" using at that by auto
    then show ?thesis using False new old by (auto simp: bit_or_iff nth_append)
  qed
qed

lemma u32_exp_inj: "m < 32 \<Longrightarrow> n < 32 \<Longrightarrow> (2 :: u32) ^ m = 2 ^ n \<Longrightarrow> m = n"
proof -
  assume mn: "m < 32" "n < 32" and eq: "(2 :: u32) ^ m = 2 ^ n"
  have "bit (2 ^ m :: u32) m" using mn(1) by (simp add: bit_exp_iff)
  then have "bit (2 ^ n :: u32) m" by (simp only: eq)
  then show "m = n" by (simp add: bit_exp_iff)
qed

lemma u32_exp_nz: "n < 32 \<Longrightarrow> (2 :: u32) ^ n \<noteq> 0"
proof -
  assume "n < 32"
  then have "bit (2 ^ n :: u32) n" by (simp add: bit_exp_iff)
  then show "(2 :: u32) ^ n \<noteq> 0"
    by (rule contrapos_pn) (simp only:, simp)
qed

lemma half_exp: "drop_bit 1 (2 ^ n :: u32) = (if n = 0 then 0 else 2 ^ (n - 1))" if "n < 32"
  using that by (auto simp: bit_drop_bit_eq bit_exp_iff intro!: bit_word_eqI)

definition out_repr :: "'io lz \<Rightarrow> u8 list \<Rightarrow> bool list \<Rightarrow> bool" where
  "out_repr s snt bs \<longleftrightarrow> (\<exists>part. bs = concat (map byte_bits snt) @ part \<and> length part < 8
     \<and> bit_mask s = 2 ^ (7 - length part) \<and> part_word (bit_buffer s) part)"

definition in_repr :: "'io lz \<Rightarrow> u8 list \<Rightarrow> bool list \<Rightarrow> bool" where
  "in_repr s pend bs \<longleftrightarrow> (\<exists>k\<le>8. gb_mask s = (if k = 0 then 0 else 2 ^ (k - 1))
     \<and> bs = map (bit (gb_buf s)) (rev [0..<k]) @ concat (map byte_bits pend))"

subsection \<open>The contract of a reader and a writer\<close>

text \<open>
  \<open>pending\<close> is what the reader has still to deliver, \<open>sent\<close> what was written; \<open>fits n\<close> says that the
  writer has room for \<open>n\<close> bytes.
\<close>

locale lz_channel =
  fixes rd :: "'io reader" and wr :: "'io writer"
    and pending :: "'io \<Rightarrow> u8 list" and sent :: "'io \<Rightarrow> u8 list"
    and fits :: "nat \<Rightarrow> bool" and ok :: "'io \<Rightarrow> bool"
  assumes rd_end: "ok io \<Longrightarrow> pending io = [] \<Longrightarrow>
      \<exists>io'. rd io = Inr (None, io') \<and> ok io' \<and> pending io' = [] \<and> sent io' = sent io"
    and rd_byte: "ok io \<Longrightarrow> pending io = b # bs \<Longrightarrow>
      \<exists>io'. rd io = Inr (Some b, io') \<and> ok io' \<and> pending io' = bs \<and> sent io' = sent io"
    and wr_byte: "ok io \<Longrightarrow> fits (Suc (length (sent io))) \<Longrightarrow>
      \<exists>io'. wr b io = Inr io' \<and> ok io' \<and> pending io' = pending io \<and> sent io' = sent io @ [b]"
    and fits_less: "fits n \<Longrightarrow> m \<le> n \<Longrightarrow> fits m"
begin

text \<open>The bits written by a state and the bits it has still to read.\<close>

definition outp :: "'io lz \<Rightarrow> bool list \<Rightarrow> bool" where
  "outp s bs \<longleftrightarrow> ok (lz_io s) \<and> out_repr s (sent (lz_io s)) bs"

definition inp :: "'io lz \<Rightarrow> bool list \<Rightarrow> bool" where
  "inp s bs \<longleftrightarrow> ok (lz_io s) \<and> in_repr s (pending (lz_io s)) bs"

text \<open>What writing bits leaves alone.\<close>

definition out_frame :: "'io lz \<Rightarrow> 'io lz \<Rightarrow> bool" where
  "out_frame s s' \<longleftrightarrow> lz_buffer s' = lz_buffer s \<and> textcount s' = textcount s
     \<and> pending (lz_io s') = pending (lz_io s)"

lemma out_frame_refl: "out_frame s s"
  by (simp add: out_frame_def)

lemma out_frame_trans: "out_frame s1 s2 \<Longrightarrow> out_frame s2 s3 \<Longrightarrow> out_frame s1 s3"
  by (simp add: out_frame_def)

lemma put_bit:
  assumes "outp s bs" and "fits m" and "length bs < 8 * m"
  shows "\<exists>s'. (if b then putbit1 wr s else putbit0 wr s) = Inr s' \<and> outp s' (bs @ [b]) \<and> out_frame s s'"
proof -
  let ?snt = "sent (lz_io s)"
  obtain part where part: "bs = concat (map byte_bits ?snt) @ part" "length part < 8"
    "bit_mask s = 2 ^ (7 - length part)" "part_word (bit_buffer s) part" and ok: "ok (lz_io s)"
    using assms(1) by (auto simp: outp_def out_repr_def)
  define bb where "bb = (if b then bit_buffer s OR 2 ^ (7 - length part) else bit_buffer s)"
  have bb: "part_word bb (part @ [b])" unfolding bb_def by (rule part_word_snoc [OF part(4,2)])
  have bm: "drop_bit 1 (bit_mask s) = (if length part = 7 then 0 else 2 ^ (6 - length part))"
    using half_exp [of "7 - length part"] part(2,3) by auto
  show ?thesis
  proof (cases "length part = 7")
    case True
    have "Suc (length ?snt) \<le> m" using assms(3) True by (simp add: part(1))
    then obtain io' where io': "wr (ucast bb) (lz_io s) = Inr io'" "ok io'"
      "pending io' = pending (lz_io s)" "sent io' = ?snt @ [ucast bb]"
      using wr_byte [OF ok fits_less [OF assms(2)]] by blast
    have "byte_bits (ucast bb) = part @ [b]" using part_word_bytes [OF bb] True by simp
    then have "out_repr (s\<lparr>bit_buffer := 0, bit_mask := 128, codecount := codecount s + 1, lz_io := io'\<rparr>)
        (?snt @ [ucast bb]) (bs @ [b])"
      by (auto simp: out_repr_def part(1) part_word_Nil intro!: exI [of _ "[]"])
    moreover have "(if b then putbit1 wr s else putbit0 wr s) = put_byte wr bb s"
      using bm True by (simp add: putbit1_def putbit0_def Let_def bb_def part(3))
    ultimately show ?thesis using io' by (simp add: put_byte_def outp_def out_frame_def)
  next
    case False
    then have bm': "drop_bit 1 (bit_mask s) = 2 ^ (6 - length part)" "(2 :: u32) ^ (6 - length part) \<noteq> 0"
      using bm False u32_exp_nz [of "6 - length part"] by simp_all
    let ?s = "s\<lparr>bit_buffer := bb, bit_mask := 2 ^ (6 - length part)\<rparr>"
    have "out_repr ?s ?snt (bs @ [b])"
      using part(2) False bb by (auto simp: out_repr_def part(1) intro!: exI [of _ "part @ [b]"])
    moreover have "(if b then putbit1 wr s else putbit0 wr s) = Inr ?s"
      using bm' by (simp add: putbit1_def putbit0_def Let_def bb_def part(3))
    ultimately show ?thesis using ok by (simp add: outp_def out_frame_def)
  qed
qed

lemma put_bits_ok:
  assumes "outp s bs" and "fits m" and "length bs + n \<le> 8 * m"
  shows "\<exists>s'. put_bits wr v (2 ^ n) s = Inr s' \<and> outp s' (bs @ nat_bits n v) \<and> out_frame s s'"
  using assms(1,3)
proof (induction n arbitrary: s bs)
  case 0
  then show ?case by (subst put_bits.simps) (simp add: out_frame_refl drop_bit_Suc)
next
  case (Suc n)
  obtain s1 where s1: "(if bit v n then putbit1 wr s else putbit0 wr s) = Inr s1" "outp s1 (bs @ [bit v n])" "out_frame s s1"
    using put_bit [OF Suc.prems(1) assms(2), of "bit v n"] Suc.prems(2) by auto
  obtain s2 where "put_bits wr v (2 ^ n) s1 = Inr s2" "outp s2 (bs @ [bit v n] @ nat_bits n v)" "out_frame s1 s2"
    using Suc.IH [OF s1(2)] Suc.prems(2) by auto
  moreover have "v AND 2 ^ n \<noteq> 0 \<longleftrightarrow> bit v n" by (simp add: and_exp_eq_0_iff_not_bit)
  ultimately show ?case using s1 out_frame_trans
    by (subst put_bits.simps) (auto simp: drop_bit_Suc simp flip: take_bit_eq_mod)
qed

text \<open>Flushing pads the last byte with zeros.\<close>

lemma flush_ok:
  assumes "outp s bs" and "fits m" and "length bs \<le> 8 * m"
  shows "\<exists>s' pad. flush_bit_buffer wr s = Inr s' \<and> pad < 8 \<and> ok (lz_io s')
    \<and> concat (map byte_bits (sent (lz_io s'))) = bs @ replicate pad False \<and> textcount s' = textcount s"
proof -
  let ?snt = "sent (lz_io s)"
  obtain part where part: "bs = concat (map byte_bits ?snt) @ part" "length part < 8"
    "bit_mask s = 2 ^ (7 - length part)" "part_word (bit_buffer s) part" and ok: "ok (lz_io s)"
    using assms(1) by (auto simp: outp_def out_repr_def)
  show ?thesis
  proof (cases "part = []")
    case True
    then show ?thesis using part ok by (auto simp: flush_bit_buffer_def)
  next
    case False
    then have "(2 :: u32) ^ (7 - length part) \<noteq> 2 ^ 7"
      using u32_exp_inj [of "7 - length part" 7] part(2) by (cases part) fastforce+
    then have mask: "bit_mask s \<noteq> 128" by (simp add: part(3))
    have "Suc (length ?snt) \<le> m" using assms(3) False by (cases part) (auto simp: part(1))
    then obtain io' where io': "wr (ucast (bit_buffer s)) (lz_io s) = Inr io'" "ok io'"
      "sent io' = ?snt @ [ucast (bit_buffer s)]"
      using wr_byte [OF ok fits_less [OF assms(2)]] by blast
    have "byte_bits (ucast (bit_buffer s)) = part @ replicate (8 - length part) False"
      using part_word_bytes [OF part(4)] part(2) by simp
    then show ?thesis using mask io' part(2) False
      by (auto simp: flush_bit_buffer_def part(1) intro!: exI [of _ "8 - length part"])
  qed
qed

text \<open>What reading bits leaves alone.\<close>

definition in_frame :: "'io lz \<Rightarrow> 'io lz \<Rightarrow> bool" where
  "in_frame s s' \<longleftrightarrow> lz_buffer s' = lz_buffer s \<and> sent (lz_io s') = sent (lz_io s)"

lemma in_frame_refl: "in_frame s s"
  by (simp add: in_frame_def)

lemma in_frame_trans: "in_frame s1 s2 \<Longrightarrow> in_frame s2 s3 \<Longrightarrow> in_frame s1 s3"
  by (simp add: in_frame_def)

lemma getbit_end:
  assumes "inp s []"
  shows "\<exists>s'. (\<forall>n x. getbit_loop rd (Suc n) x s = Inr (None, s')) \<and> inp s' [] \<and> in_frame s s'"
proof -
  have s: "gb_mask s = 0" "pending (lz_io s) = []" "ok (lz_io s)"
  proof -
    obtain k where "k \<le> 8" "gb_mask s = (if k = 0 then 0 else 2 ^ (k - 1))" "rev [0..<k] = []"
      "concat (map byte_bits (pending (lz_io s))) = []"
      using assms by (auto simp: inp_def in_repr_def)
    moreover from this(4) have "8 * length (pending (lz_io s)) = 0" using length_concat_bytes by (metis list.size(3))
    ultimately show "gb_mask s = 0" "pending (lz_io s) = []" by auto
  qed (use assms in \<open>simp add: inp_def\<close>)
  then obtain io' where "rd (lz_io s) = Inr (None, io')" "ok io'" "pending io' = []" "sent io' = sent (lz_io s)"
    using rd_end by blast
  then show ?thesis using s by (auto simp: in_frame_def inp_def in_repr_def)
qed

lemma getbit_step:
  assumes "inp s (b # bs)"
  shows "\<exists>s'. (\<forall>n x. getbit_loop rd (Suc n) x s = getbit_loop rd n (2 * x + (if b then 1 else 0)) s')
    \<and> inp s' bs \<and> in_frame s s'"
proof -
  have step: ?thesis
    if k: "0 < k" "k \<le> 8" "gb_mask s1 = 2 ^ (k - 1)" and bs: "b # bs = map (bit (gb_buf s1)) (rev [0..<k]) @ concat (map byte_bits pend)"
      and s1: "ok (lz_io s1)" "pending (lz_io s1) = pend" "in_frame s s1"
      and loop: "\<And>n x. getbit_loop rd (Suc n) x s =
        getbit_loop rd n (2 * x + (if gb_buf s1 AND gb_mask s1 \<noteq> 0 then 1 else 0)) (s1\<lparr>gb_mask := drop_bit 1 (gb_mask s1)\<rparr>)"
    for s1 k pend
  proof -
    obtain j where j: "k = Suc j" using k(1) by (cases k) auto
    have b: "b = bit (gb_buf s1) j" "bs = map (bit (gb_buf s1)) (rev [0..<j]) @ concat (map byte_bits pend)"
      using bs by (simp_all add: j)
    have "drop_bit 1 (gb_mask s1) = (if j = 0 then 0 else 2 ^ (j - 1))"
      using half_exp [of j] k(2,3) by (simp add: j)
    moreover have "j \<le> 8" using k(2) by (simp add: j)
    ultimately have "inp (s1\<lparr>gb_mask := drop_bit 1 (gb_mask s1)\<rparr>) bs"
      using s1 b by (auto simp: inp_def in_repr_def)
    moreover have "gb_buf s1 AND gb_mask s1 \<noteq> 0 \<longleftrightarrow> b"
      using k(3) by (simp add: j b(1) and_exp_eq_0_iff_not_bit)
    ultimately show ?thesis using s1(3) loop by (auto simp: in_frame_def)
  qed
  obtain k where k: "k \<le> 8" "gb_mask s = (if k = 0 then 0 else 2 ^ (k - 1))"
    "b # bs = map (bit (gb_buf s)) (rev [0..<k]) @ concat (map byte_bits (pending (lz_io s)))" and ok: "ok (lz_io s)"
    using assms by (auto simp: inp_def in_repr_def)
  show ?thesis
  proof (cases "k = 0")
    case False
    then have "gb_mask s \<noteq> 0" using k(1,2) u32_exp_nz [of "k - 1"] by simp
    then show ?thesis using False k ok by (intro step [of k s]) (simp_all add: in_frame_refl)
  next
    case True
    then obtain c cs where pend: "pending (lz_io s) = c # cs"
      and bits: "b # bs = byte_bits c @ concat (map byte_bits cs)" using k(3) by (cases "pending (lz_io s)") auto
    obtain io' where io': "rd (lz_io s) = Inr (Some c, io')" "ok io'" "pending io' = cs" "sent io' = sent (lz_io s)"
      using rd_byte [OF ok pend] by blast
    let ?s = "s\<lparr>gb_buf := ucast c, gb_mask := 128, lz_io := io'\<rparr>"
    have "byte_bits c = map (bit (gb_buf ?s)) (rev [0..<8])" by (auto simp: byte_bits_def bit_unsigned_iff)
    then have "b # bs = map (bit (gb_buf ?s)) (rev [0..<8]) @ concat (map byte_bits cs)" using bits by simp
    then show ?thesis using True k(2) io'
      by (intro step [of 8 ?s]) (simp_all add: in_frame_def)
  qed
qed

lemma getbit_loop_ok:
  "inp s (bs @ cs) \<Longrightarrow>
    \<exists>s'. getbit_loop rd (length bs) x s = Inr (Some (shift_in x bs), s') \<and> inp s' cs \<and> in_frame s s'"
proof (induction bs arbitrary: x s)
  case Nil
  then show ?case by (auto simp: in_frame_refl)
next
  case (Cons b bs)
  obtain s1 where s1: "\<And>n x. getbit_loop rd (Suc n) x s = getbit_loop rd n (2 * x + (if b then 1 else 0)) s1"
    "inp s1 (bs @ cs)" "in_frame s s1"
    using getbit_step [of s b "bs @ cs"] Cons.prems by auto
  then show ?case using Cons.IH [OF s1(2)] in_frame_trans [OF s1(3)] by (simp del: getbit_loop.simps) blast
qed

lemma getbit_loop_short:
  "inp s bs \<Longrightarrow> length bs < n \<Longrightarrow> \<exists>s'. getbit_loop rd n x s = Inr (None, s') \<and> inp s' [] \<and> in_frame s s'"
proof (induction bs arbitrary: x s n)
  case Nil
  then obtain m where "n = Suc m" by (cases n) auto
  then show ?case using getbit_end [OF Nil.prems(1)] by (auto simp del: getbit_loop.simps)
next
  case (Cons b bs)
  then obtain m where m: "n = Suc m" "length bs < m" by (cases n) auto
  obtain s1 where s1: "\<And>n x. getbit_loop rd (Suc n) x s = getbit_loop rd n (2 * x + (if b then 1 else 0)) s1"
    "inp s1 bs" "in_frame s s1"
    using getbit_step [of s b bs] Cons.prems by auto
  then show ?case using Cons.IH [OF s1(2) m(2)] in_frame_trans [OF s1(3)] by (simp add: m(1) del: getbit_loop.simps) blast
qed

lemma getbit_ok:
  "inp s (bs @ cs) \<Longrightarrow> length bs = n \<Longrightarrow>
    \<exists>s'. getbit rd n s = Inr (Some (shift_in 0 bs), s') \<and> inp s' cs \<and> in_frame s s'"
  using getbit_loop_ok by (auto simp: getbit_def)

lemma getbit_short:
  "inp s bs \<Longrightarrow> length bs < n \<Longrightarrow> \<exists>s'. getbit rd n s = Inr (None, s') \<and> inp s' [] \<and> in_frame s s'"
  by (simp add: getbit_def getbit_loop_short)

end

end
