(* ===== verification/Lzss_Props.thy ===== *)
theory Lzss_Props
  imports Lzss_Bits
begin

unbundle bit_operations_syntax

text \<open>
  The LZSS round trip. The specification is a list of tokens, a literal or a copy from an absolute
  position of the text, with the text it stands for. Decoding the bits of a valid token list gives its text;
  encoding writes the bits of a token list that is valid and stands for the input. Both are proved over the
  contract of the reader and the writer.
\<close>

subsection \<open>Tokens\<close>

datatype lz_token = Lit u8 | Copy nat nat

fun tok_bits :: "lz_token \<Rightarrow> bool list" where
  "tok_bits (Lit c) = True # byte_bits c"
| "tok_bits (Copy p l) = False # nat_bits EI (p mod LZ_N) @ nat_bits EJ (l - 2)"

fun copied :: "u8 list \<Rightarrow> nat \<Rightarrow> nat \<Rightarrow> u8 list" where
  "copied h p 0 = h"
| "copied h p (Suc l) = copied (h @ [h ! p]) (Suc p) l"

fun tok_text :: "u8 list \<Rightarrow> lz_token \<Rightarrow> u8 list" where
  "tok_text h (Lit c) = h @ [c]"
| "tok_text h (Copy p l) = copied h p l"

fun tok_ok :: "u8 list \<Rightarrow> lz_token \<Rightarrow> bool" where
  "tok_ok h (Lit c) \<longleftrightarrow> True"
| "tok_ok h (Copy p l) \<longleftrightarrow> p < length h \<and> length h \<le> p + LZ_N \<and> 2 \<le> l \<and> l < 34"

fun toks_text :: "u8 list \<Rightarrow> lz_token list \<Rightarrow> u8 list" where
  "toks_text h [] = h"
| "toks_text h (t # ts) = toks_text (tok_text h t) ts"

fun toks_ok :: "u8 list \<Rightarrow> lz_token list \<Rightarrow> bool" where
  "toks_ok h [] \<longleftrightarrow> True"
| "toks_ok h (t # ts) \<longleftrightarrow> tok_ok h t \<and> toks_ok (tok_text h t) ts"

definition toks_bits :: "lz_token list \<Rightarrow> bool list" where
  "toks_bits ts = concat (map tok_bits ts)"

lemma toks_bits_simps [simp]: "toks_bits [] = []" "toks_bits (t # ts) = tok_bits t @ toks_bits ts"
  "toks_bits (ts @ us) = toks_bits ts @ toks_bits us"
  by (simp_all add: toks_bits_def)

lemma toks_text_append: "toks_text h (ts @ us) = toks_text (toks_text h ts) us"
  by (induction ts arbitrary: h) auto

lemma toks_ok_append: "toks_ok h (ts @ us) \<longleftrightarrow> toks_ok h ts \<and> toks_ok (toks_text h ts) us"
  by (induction ts arbitrary: h) auto

lemma length_copied [simp]: "length (copied h p l) = length h + l"
  by (induction h p l rule: copied.induct) auto

lemma length_tok_text: "length h \<le> length (tok_text h t)"
  by (cases t) auto

lemma length_toks_text: "length h \<le> length (toks_text h ts)"
proof (induction ts arbitrary: h)
  case (Cons t ts)
  then show ?case using le_trans [OF length_tok_text Cons.IH] by simp
qed simp

text \<open>A copy of bytes that repeat the text is the text.\<close>

lemma copied_repeat:
  assumes "p < q" and "q + l \<le> length T" and "\<And>j. j < l \<Longrightarrow> T ! (p + j) = T ! (q + j)"
  shows "copied (take q T) p l = take (q + l) T"
  using assms
proof (induction l arbitrary: p q)
  case 0
  then show ?case by simp
next
  case (Suc l)
  have "take q T ! p = T ! q" using Suc.prems(1) Suc.prems(3) [of 0] by simp
  then have "take q T @ [take q T ! p] = take (Suc q) T"
    using Suc.prems(2) by (simp add: take_Suc_conv_app_nth)
  moreover have "T ! (Suc p + j) = T ! (Suc q + j)" if "j < l" for j
    using Suc.prems(3) [of "Suc j"] that by simp
  ultimately show ?case using Suc.IH [of "Suc p" "Suc q"] Suc.prems(1,2) by simp
qed

lemma and_N: "x AND (LZ_N - 1) = x mod LZ_N"
proof -
  have "x AND mask 13 = x mod 2 ^ 13" by (simp only: take_bit_eq_mask [symmetric] take_bit_eq_mod)
  then show ?thesis by (simp add: lz_consts mask_eq_exp_minus_1)
qed

subsection \<open>The ring of the decoder\<close>

definition ring_ok :: "u8 list \<Rightarrow> u8 list \<Rightarrow> bool" where
  "ring_ok buf h \<longleftrightarrow> length buf = LZ_N * 2 \<and> (\<forall>q. q < length h \<and> length h \<le> q + LZ_N \<longrightarrow> buf ! (q mod LZ_N) = h ! q)"

lemma ring_snoc:
  assumes "ring_ok buf h"
  shows "ring_ok (buf[length h mod LZ_N := c]) (h @ [c])"
  unfolding ring_ok_def
proof (intro conjI allI impI)
  have len: "length buf = LZ_N * 2" and pos: "length h mod LZ_N < LZ_N"
    using assms by (simp_all add: ring_ok_def lz_consts)
  then show "length (buf[length h mod LZ_N := c]) = LZ_N * 2" by simp
  fix q
  assume q: "q < length (h @ [c]) \<and> length (h @ [c]) \<le> q + LZ_N"
  show "buf[length h mod LZ_N := c] ! (q mod LZ_N) = (h @ [c]) ! q"
  proof (cases "q = length h")
    case True
    then show ?thesis using len pos by simp
  next
    case False
    then have less: "q < length h" "length h - q < LZ_N" using q by auto
    then have "(length h - q) mod LZ_N \<noteq> 0" by simp
    then have "q mod LZ_N \<noteq> length h mod LZ_N" using less(1) by (metis less_imp_le mod_eq_dvd_iff_nat dvd_imp_mod_0)
    then show ?thesis using assms q less(1) by (simp add: ring_ok_def nth_append)
  qed
qed

definition lz_spaces :: "u8 list" where
  "lz_spaces = replicate (LZ_N - LZ_F) 0x20"

lemma length_spaces [simp]: "length lz_spaces = LZ_N - LZ_F"
  by (simp add: lz_spaces_def)

lemma ring_start:
  assumes "length buf = LZ_N * 2"
  shows "ring_ok (lz_spaces @ drop (LZ_N - LZ_F) buf) lz_spaces"
  using assms by (auto simp: ring_ok_def nth_append lz_consts)

subsection \<open>Decoding\<close>

context lz_channel
begin

text \<open>A state of the decoder that has written the text \<open>h\<close> behind the spaces.\<close>

definition dec_ok :: "'io lz \<Rightarrow> u8 list \<Rightarrow> bool" where
  "dec_ok s h \<longleftrightarrow> ring_ok (lz_buffer s) h \<and> LZ_N - LZ_F \<le> length h \<and> sent (lz_io s) = drop (LZ_N - LZ_F) h"

lemma dec_ok_frame: "dec_ok s h \<Longrightarrow> in_frame s s' \<Longrightarrow> dec_ok s' h"
  by (simp add: dec_ok_def in_frame_def)

lemma emit_ok:
  assumes "inp s bs" and "dec_ok s h" and "fits (Suc (length h) - (LZ_N - LZ_F))"
  shows "\<exists>s'. lz_emit wr c (length h mod LZ_N) s = Inr (Suc (length h) mod LZ_N, s') \<and> inp s' bs \<and> dec_ok s' (h @ [c])"
proof -
  have h: "LZ_N - LZ_F \<le> length h" "sent (lz_io s) = drop (LZ_N - LZ_F) h" "ring_ok (lz_buffer s) h"
    using assms(2) by (simp_all add: dec_ok_def)
  have "Suc (length (sent (lz_io s))) = Suc (length h) - (LZ_N - LZ_F)" using h(1,2) by simp
  then obtain io' where io': "wr c (lz_io s) = Inr io'" "ok io'" "pending io' = pending (lz_io s)"
    "sent io' = sent (lz_io s) @ [c]"
    using wr_byte [of "lz_io s" c] assms(1,3) by (auto simp: inp_def)
  let ?s = "s\<lparr>lz_buffer := (lz_buffer s)[length h mod LZ_N := c], lz_io := io'\<rparr>"
  have "inp ?s bs" using assms(1) io'(2,3) by (simp add: inp_def in_repr_def)
  moreover have "dec_ok ?s (h @ [c])" using h io'(4) by (simp add: dec_ok_def ring_snoc)
  moreover have "(length h mod LZ_N + 1) AND (LZ_N - 1) = Suc (length h) mod LZ_N"
    by (simp only: and_N) (simp add: mod_Suc_eq)
  ultimately show ?thesis using io'(1) by (simp add: lz_emit_def)
qed

lemma copy_ok:
  assumes "inp s bs" and "dec_ok s h" and "p < length h" and "length h \<le> p + LZ_N"
    and "fits (length h + n - (LZ_N - LZ_F))" and "(i + k) mod LZ_N = p mod LZ_N"
  shows "\<exists>s'. lz_copy wr i k n (length h mod LZ_N) s = Inr ((length h + n) mod LZ_N, s') \<and> inp s' bs \<and> dec_ok s' (copied h p n)"
  using assms
proof (induction n arbitrary: s h p k)
  case 0
  then show ?case by simp
next
  case (Suc n)
  have byte: "lz_buffer s ! ((i + k) AND (LZ_N - 1)) = h ! p"
    using Suc.prems(2,3,4,6) by (simp only: and_N) (simp add: dec_ok_def ring_ok_def)
  have "fits (Suc (length h) - (LZ_N - LZ_F))" by (rule fits_less [OF Suc.prems(5)]) simp
  then obtain s1 where s1: "lz_emit wr (h ! p) (length h mod LZ_N) s = Inr (Suc (length h) mod LZ_N, s1)"
    "inp s1 bs" "dec_ok s1 (h @ [h ! p])"
    using emit_ok [OF Suc.prems(1,2)] by blast
  have "(i + (k + 1)) mod LZ_N = Suc p mod LZ_N" using Suc.prems(6) by (metis Suc_eq_plus1 add.assoc mod_Suc_eq)
  then have "\<exists>s'. lz_copy wr i (k + 1) n (length (h @ [h ! p]) mod LZ_N) s1 =
      Inr ((length (h @ [h ! p]) + n) mod LZ_N, s') \<and> inp s' bs \<and> dec_ok s' (copied (h @ [h ! p]) (Suc p) n)"
    using Suc.prems(3,4,5) by (intro Suc.IH s1(2,3)) auto
  then show ?case using s1(1) byte by simp
qed

text \<open>A turn on the bits of a copy is the copying loop.\<close>

lemma decode_turn_copy:
  assumes "inp s (tok_bits (Copy p l) @ bs)" and "2 \<le> l" and "l < 34"
  shows "\<exists>s'. lz_decode_turn rd wr (r, s) = andThen (lz_copy wr (p mod LZ_N) 0 l r s') (\<lambda>t. Inr (Inl t))
    \<and> inp s' bs \<and> in_frame s s'"
proof -
  obtain s1 where s1: "getbit rd 1 s = Inr (Some (shift_in 0 [False]), s1)"
    "inp s1 (nat_bits EI (p mod LZ_N) @ nat_bits EJ (l - 2) @ bs)" "in_frame s s1"
    using getbit_ok [of s "[False]" _ 1] assms(1) by auto
  obtain s2 where s2: "getbit rd EI s1 = Inr (Some (shift_in 0 (nat_bits EI (p mod LZ_N))), s2)"
    "inp s2 (nat_bits EJ (l - 2) @ bs)" "in_frame s1 s2"
    using getbit_ok [OF s1(2)] by auto
  obtain s3 where s3: "getbit rd EJ s2 = Inr (Some (shift_in 0 (nat_bits EJ (l - 2))), s3)" "inp s3 bs" "in_frame s2 s3"
    using getbit_ok [OF s2(2)] by auto
  have "shift_in 0 (nat_bits EI (p mod LZ_N)) = p mod LZ_N" "shift_in 0 (nat_bits EJ (l - 2)) = l - 2"
    using assms(2,3) by (simp_all add: shift_in_nat_bits lz_consts)
  moreover have "l - 2 + 2 = l" using assms(2) by simp
  moreover have "in_frame s s3" by (rule in_frame_trans [OF in_frame_trans [OF s1(3) s2(3)] s3(3)])
  ultimately show ?thesis using s1(1) s2(1) s3(1,2)
    by (intro exI [of _ s3]) (simp add: lz_decode_turn_def lz_get_def del: lz_copy.simps)
qed

lemma decode_turn_ok:
  assumes "inp s (tok_bits t @ bs)" and "dec_ok s h" and "tok_ok h t"
    and "fits (length (tok_text h t) - (LZ_N - LZ_F))"
  shows "\<exists>s'. lz_decode_turn rd wr (length h mod LZ_N, s) = Inr (Inl (length (tok_text h t) mod LZ_N, s'))
    \<and> inp s' bs \<and> dec_ok s' (tok_text h t)"
proof (cases t)
  case (Lit c)
  obtain s1 where s1: "getbit rd 1 s = Inr (Some (shift_in 0 [True]), s1)" "inp s1 (byte_bits c @ bs)" "in_frame s s1"
    using getbit_ok [of s "[True]" "byte_bits c @ bs" 1] assms(1) Lit by auto
  obtain s2 where s2: "getbit rd 8 s1 = Inr (Some (shift_in 0 (byte_bits c)), s2)" "inp s2 bs" "in_frame s1 s2"
    using getbit_ok [OF s1(2)] by auto
  have "dec_ok s2 h" using dec_ok_frame assms(2) s1(3) s2(3) by blast
  then obtain s3 where "lz_emit wr c (length h mod LZ_N) s2 = Inr (Suc (length h) mod LZ_N, s3)" "inp s3 bs" "dec_ok s3 (h @ [c])"
    using emit_ok [OF s2(2)] assms(4) Lit by auto
  then show ?thesis using s1(1) s2(1) Lit by (simp add: lz_decode_turn_def lz_get_def shift_in_byte)
next
  case (Copy p l)
  have l: "2 \<le> l" "l < 34" "p < length h" "length h \<le> p + LZ_N" using assms(3) Copy by simp_all
  obtain s1 where s1: "lz_decode_turn rd wr (length h mod LZ_N, s) =
      andThen (lz_copy wr (p mod LZ_N) 0 l (length h mod LZ_N) s1) (\<lambda>t. Inr (Inl t))" "inp s1 bs" "in_frame s s1"
    using decode_turn_copy [OF _ l(1,2)] assms(1) Copy by blast
  have "dec_ok s1 h" by (rule dec_ok_frame [OF assms(2) s1(3)])
  moreover have "fits (length h + l - (LZ_N - LZ_F))" using assms(4) Copy by simp
  moreover have "(p mod LZ_N + 0) mod LZ_N = p mod LZ_N" by simp
  ultimately obtain s2 where "lz_copy wr (p mod LZ_N) 0 l (length h mod LZ_N) s1 = Inr ((length h + l) mod LZ_N, s2)"
    "inp s2 bs" "dec_ok s2 (copied h p l)"
    using copy_ok [OF s1(2) _ l(3,4)] by blast
  then show ?thesis using s1(1) Copy by simp
qed

text \<open>A rest too short for a token ends the loop.\<close>

definition no_token :: "bool list \<Rightarrow> bool" where
  "no_token bs \<longleftrightarrow> length bs < (if bs \<noteq> [] \<and> hd bs then 9 else 19)"

lemma decode_turn_end:
  assumes "inp s bs" and "no_token bs"
  shows "\<exists>s'. lz_decode_turn rd wr (r, s) = Inr (Inr s') \<and> in_frame s s' \<and> inp s' []"
proof (cases bs)
  case Nil
  then show ?thesis using getbit_short [OF assms(1), of 1]
    by (auto simp: lz_decode_turn_def lz_get_def in_frame_def)
next
  case (Cons b cs)
  obtain s1 where s1: "getbit rd 1 s = Inr (Some (shift_in 0 [b]), s1)" "inp s1 cs" "in_frame s s1"
    using getbit_ok [of s "[b]" cs 1] assms(1) Cons by auto
  show ?thesis
  proof (cases b)
    case True
    then have "length cs < 8" using assms(2) Cons by (simp add: no_token_def)
    then show ?thesis using getbit_short [OF s1(2), of 8] s1 True
      by (auto simp: lz_decode_turn_def lz_get_def in_frame_def)
  next
    case False
    then have short: "length cs < 18" using assms(2) Cons by (simp add: no_token_def)
    show ?thesis
    proof (cases "length cs < EI")
      case True
      then show ?thesis using getbit_short [OF s1(2), of EI] s1 False
        by (auto simp: lz_decode_turn_def lz_get_def in_frame_def)
    next
      case False
      then obtain s2 x where s2: "getbit rd EI s1 = Inr (Some x, s2)" "inp s2 (drop EI cs)" "in_frame s1 s2"
        using getbit_ok [of s1 "take EI cs" "drop EI cs" EI] s1(2) by auto
      have "length (drop EI cs) < EJ" using short by (simp add: lz_consts)
      then show ?thesis using getbit_short [OF s2(2), of EJ] s1 s2 \<open>\<not> b\<close>
        by (auto simp: lz_decode_turn_def lz_get_def in_frame_def)
    qed
  qed
qed

text \<open>The turns for a list of tokens.\<close>

lemma decode_prefix:
  assumes "inp s (toks_bits ts @ bs)" and "dec_ok s h" and "toks_ok h ts"
    and "fits (length (toks_text h ts) - (LZ_N - LZ_F))"
  shows "\<exists>s'. (\<forall>n. loop_fuel (lz_decode_turn rd wr) (length ts + n) (length h mod LZ_N, s)
        = loop_fuel (lz_decode_turn rd wr) n (length (toks_text h ts) mod LZ_N, s'))
    \<and> inp s' bs \<and> dec_ok s' (toks_text h ts)"
  using assms
proof (induction ts arbitrary: s h)
  case Nil
  then show ?case by auto
next
  case (Cons t ts)
  have "fits (length (tok_text h t) - (LZ_N - LZ_F))"
    by (rule fits_less [OF Cons.prems(4)]) (simp add: diff_le_mono length_toks_text)
  then obtain s1 where s1: "lz_decode_turn rd wr (length h mod LZ_N, s) = Inr (Inl (length (tok_text h t) mod LZ_N, s1))"
    "inp s1 (toks_bits ts @ bs)" "dec_ok s1 (tok_text h t)"
    using decode_turn_ok [of s t "toks_bits ts @ bs" h] Cons.prems(1,2,3) by auto
  then show ?case using Cons.IH [OF s1(2,3)] Cons.prems(3,4) by simp
qed

lemma decode_loop_ok:
  assumes "inp s (toks_bits ts @ tail)" and "dec_ok s h" and "toks_ok h ts" and "no_token tail"
    and "fits (length (toks_text h ts) - (LZ_N - LZ_F))" and "length ts < fuel"
  shows "\<exists>s'. loop_fuel (lz_decode_turn rd wr) fuel (length h mod LZ_N, s) = Some (Inr s')
    \<and> sent (lz_io s') = drop (LZ_N - LZ_F) (toks_text h ts) \<and> inp s' [] \<and> length (lz_buffer s') = LZ_N * 2"
proof -
  obtain n where n: "fuel = length ts + Suc n" using less_imp_Suc_add [OF assms(6)] by auto
  obtain s1 where s1: "loop_fuel (lz_decode_turn rd wr) fuel (length h mod LZ_N, s)
      = loop_fuel (lz_decode_turn rd wr) (Suc n) (length (toks_text h ts) mod LZ_N, s1)"
    "inp s1 tail" "dec_ok s1 (toks_text h ts)"
    using decode_prefix [OF assms(1,2,3,5)] n by blast
  obtain s2 where "lz_decode_turn rd wr (length (toks_text h ts) mod LZ_N, s1) = Inr (Inr s2)" "in_frame s1 s2" "inp s2 []"
    using decode_turn_end [OF s1(2) assms(4)] by blast
  then show ?thesis using s1(1,3) by (simp add: dec_ok_def in_frame_def ring_ok_def)
qed

lemma clear_ok:
  assumes "sent (lz_io s) = []" and "length (lz_buffer s) = LZ_N * 2"
  shows "dec_ok (lz_clear s) lz_spaces"
  using ring_start [OF assms(2)] assms(1) by (simp add: dec_ok_def lz_clear_def lz_spaces_def)

theorem decode_toks:
  assumes "inp s (toks_bits ts @ tail)" and "sent (lz_io s) = []" and "length (lz_buffer s) = LZ_N * 2"
    and "toks_ok lz_spaces ts" and "toks_text lz_spaces ts = lz_spaces @ text" and "no_token tail"
    and "fits (length text)" and "length ts < fuel"
  shows "\<exists>s'. lz_decode rd wr fuel s = Some (Inr s') \<and> sent (lz_io s') = text \<and> inp s' [] \<and> length (lz_buffer s') = LZ_N * 2"
proof -
  have "inp (lz_clear s) (toks_bits ts @ tail)" using assms(1) by (simp add: inp_def in_repr_def lz_clear_def)
  moreover have "dec_ok (lz_clear s) lz_spaces" by (rule clear_ok [OF assms(2,3)])
  moreover have "length lz_spaces mod LZ_N = LZ_N - LZ_F" by (simp add: lz_consts)
  ultimately show ?thesis
    using decode_loop_ok [of "lz_clear s" ts tail lz_spaces fuel] assms(4-8) by (simp add: lz_decode_def)
qed

end

end
