(* ===== verification/Lzss_Encode.thy ===== *)
theory Lzss_Encode
  imports Lzss_Props
begin

unbundle bit_operations_syntax

text \<open>
  The encoder: the search returns a longest match of the window, filling the buffer continues the text, and
  every turn of the main loop writes one token. The invariant \<open>enc_inv\<close> places the buffer in the text \<open>T\<close> (the
  spaces and the input) at the offset \<open>off\<close>.
\<close>

subsection \<open>The search\<close>

definition repeats :: "u8 list \<Rightarrow> nat \<Rightarrow> nat \<Rightarrow> nat \<Rightarrow> bool" where
  "repeats buf i r l \<longleftrightarrow> (\<forall>j<l. buf ! (i + j) = buf ! (r + j))"

lemma match_ok: "j \<le> f1 \<Longrightarrow> repeats buf i r j \<Longrightarrow>
    lz_match buf i r f1 j \<le> f1 \<and> repeats buf i r (lz_match buf i r f1 j)
    \<and> (lz_match buf i r f1 j < f1 \<longrightarrow> buf ! (i + lz_match buf i r f1 j) \<noteq> buf ! (r + lz_match buf i r f1 j))"
proof (induction buf i r f1 j rule: lz_match.induct)
  case (1 buf i r f1 j)
  show ?case
  proof (cases "j < f1 \<and> buf ! (i + j) = buf ! (r + j)")
    case True
    then have "repeats buf i r (j + 1)" using "1.prems"(2) by (auto simp: repeats_def less_Suc_eq)
    then have "lz_match buf i r f1 (j + 1) \<le> f1 \<and> repeats buf i r (lz_match buf i r f1 (j + 1))
      \<and> (lz_match buf i r f1 (j + 1) < f1 \<longrightarrow>
         buf ! (i + lz_match buf i r f1 (j + 1)) \<noteq> buf ! (r + lz_match buf i r f1 (j + 1)))"
      using "1.IH" True by simp
    moreover have "lz_match buf i r f1 j = lz_match buf i r f1 (j + 1)"
      using True by (subst lz_match.simps) simp
    ultimately show ?thesis by simp
  next
    case False
    then have "lz_match buf i r f1 j = j" by (subst lz_match.simps) auto
    then show ?thesis using False "1.prems" by auto
  qed
qed

text \<open>A match found: none, with length 1, or one of the window.\<close>

definition found :: "u8 list \<Rightarrow> nat \<Rightarrow> nat \<Rightarrow> nat \<Rightarrow> nat \<times> nat \<Rightarrow> bool" where
  "found buf r f1 s = (\<lambda>(x, y). y = 1 \<or> (s \<le> x \<and> x < r \<and> 2 \<le> y \<and> y \<le> f1 \<and> repeats buf x r y))"

lemma search_found:
  "1 \<le> f1 \<Longrightarrow> k \<le> r \<Longrightarrow> 1 \<le> y \<Longrightarrow> found buf r f1 s (x, y) \<Longrightarrow> found buf r f1 s (lz_search buf r f1 s k x y)"
proof (induction k arbitrary: x y)
  case 0
  then show ?case by simp
next
  case (Suc i)
  show ?case
  proof (cases "s \<le> i \<and> buf ! i = buf ! r \<and> lz_match buf i r f1 1 > y")
    case True
    then have "repeats buf i r 1" by (simp add: repeats_def)
    then have "found buf r f1 s (i, lz_match buf i r f1 1)"
      using match_ok [OF Suc.prems(1)] True Suc.prems(2,3) by (auto simp: found_def)
    then show ?thesis using Suc.IH [of "lz_match buf i r f1 1" i] Suc.prems True by simp
  next
    case False
    then show ?thesis using Suc by auto
  qed
qed

text \<open>No match of the window is longer than the one returned.\<close>

lemma search_longest:
  "1 \<le> f1 \<Longrightarrow> s \<le> i \<Longrightarrow> i < k \<Longrightarrow> l \<le> f1 \<Longrightarrow> repeats buf i r l \<Longrightarrow> 1 \<le> y \<Longrightarrow>
    l \<le> snd (lz_search buf r f1 s k x y)"
proof (induction k arbitrary: x y)
  case 0
  then show ?case by simp
next
  case (Suc k)
  have grows: "y' \<le> snd (lz_search buf r f1 s k' x' y')" for k' x' y'
  proof (induction k' arbitrary: x' y')
    case (Suc k')
    show ?case using Suc.IH [of "lz_match buf k' r f1 1" k'] Suc.IH [of y' x'] by auto
  qed simp
  show ?case
  proof (cases "i = k")
    case False
    then show ?thesis using Suc by auto
  next
    case True
    show ?thesis
    proof (cases "l \<le> 1")
      case True
      then show ?thesis using grows [of y "Suc k" x] Suc.prems(6) by linarith
    next
      case False
      then have first: "buf ! k = buf ! r" using Suc.prems(5) True by (auto simp: repeats_def dest: spec [of _ 0])
      then have "repeats buf k r 1" by (simp add: repeats_def)
      note m = match_ok [OF Suc.prems(1) this]
      have "l \<le> lz_match buf k r f1 1"
      proof (rule ccontr)
        assume "\<not> l \<le> lz_match buf k r f1 1"
        then show False using m Suc.prems(4,5) True by (auto simp: repeats_def)
      qed
      then show ?thesis using first Suc.prems(2) True grows [of "lz_match buf k r f1 1" k k] grows [of y k x] by auto
    qed
  qed
qed

subsection \<open>Tokens written\<close>

context lz_channel
begin

lemma output1_ok:
  assumes "outp s bs" and "fits m" and "length bs + 9 \<le> 8 * m"
  shows "\<exists>s'. output1 wr (unat c) s = Inr s' \<and> outp s' (bs @ tok_bits (Lit c)) \<and> out_frame s s'"
proof -
  obtain s1 where s1: "putbit1 wr s = Inr s1" "outp s1 (bs @ [True])" "out_frame s s1"
    using put_bit [OF assms(1,2), of True] assms(3) by auto
  obtain s2 where "put_bits wr (unat c) (2 ^ 8) s1 = Inr s2" "outp s2 ((bs @ [True]) @ nat_bits 8 (unat c))" "out_frame s1 s2"
    using put_bits_ok [OF s1(2) assms(2), of 8 "unat c"] assms(3) by auto
  then show ?thesis using s1 out_frame_trans by (auto simp: output1_def byte_bits_nat)
qed

lemma output2_ok:
  assumes "outp s bs" and "fits m" and "length bs + 19 \<le> 8 * m"
  shows "\<exists>s'. output2 wr (p AND (LZ_N - 1)) (l - 2) s = Inr s' \<and> outp s' (bs @ tok_bits (Copy p l)) \<and> out_frame s s'"
proof -
  obtain s1 where s1: "putbit0 wr s = Inr s1" "outp s1 (bs @ [False])" "out_frame s s1"
    using put_bit [OF assms(1,2), of False] assms(3) by auto
  obtain s2 where s2: "put_bits wr (p mod LZ_N) (2 ^ 13) s1 = Inr s2"
    "outp s2 ((bs @ [False]) @ nat_bits 13 (p mod LZ_N))" "out_frame s1 s2"
    using put_bits_ok [OF s1(2) assms(2), of 13 "p mod LZ_N"] assms(3) by auto
  obtain s3 where s3: "put_bits wr (l - 2) (2 ^ 5) s2 = Inr s3"
    "outp s3 (((bs @ [False]) @ nat_bits 13 (p mod LZ_N)) @ nat_bits 5 (l - 2))" "out_frame s2 s3"
    using put_bits_ok [OF s2(2) assms(2), of 5 "l - 2"] assms(3) by auto
  have "LZ_N = 2 ^ 13" "push_bit EJ 1 = (2 :: nat) ^ 5" by (simp_all add: lz_consts)
  then have "output2 wr (p mod LZ_N) (l - 2) s = Inr s3"
    using s1(1) s2(1) s3(1) unfolding output2_def by simp
  moreover have "tok_bits (Copy p l) = [False] @ nat_bits 13 (p mod LZ_N) @ nat_bits 5 (l - 2)"
    by (simp only: tok_bits.simps lz_consts(1,2) append_Cons append_Nil)
  then have "outp s3 (bs @ tok_bits (Copy p l))" using s3(2) by (simp only: append_assoc)
  moreover have "out_frame s s3" by (rule out_frame_trans [OF out_frame_trans [OF s1(3) s2(3)] s3(3)])
  ultimately show ?thesis by (simp only: and_N) blast
qed

text \<open>Filling: the bytes read follow those already there.\<close>

lemma fill_ok:
  assumes "ok (lz_io s)" and "length (lz_buffer s) = LZ_N * 2" and "i \<le> LZ_N * 2" and "pending (lz_io s) = P"
  shows "\<exists>s' be. lz_fill rd i s = Inr (be, s') \<and> be = min (LZ_N * 2) (i + length P)
    \<and> length (lz_buffer s') = LZ_N * 2 \<and> pending (lz_io s') = drop (be - i) P
    \<and> (\<forall>k<i. lz_buffer s' ! k = lz_buffer s ! k) \<and> (\<forall>k. i \<le> k \<and> k < be \<longrightarrow> lz_buffer s' ! k = P ! (k - i))
    \<and> textcount s' = textcount s + (be - i) \<and> (outp s bs \<longrightarrow> outp s' bs)"
  using assms
proof (induction P arbitrary: i s)
  case Nil
  then obtain io' where "rd (lz_io s) = Inr (None, io')" "ok io'" "pending io' = []" "sent io' = sent (lz_io s)"
    using rd_end by blast
  then show ?case using Nil by (subst lz_fill.simps) (auto simp: outp_def out_repr_def)
next
  case (Cons b P)
  show ?case
  proof (cases "i < LZ_N * 2")
    case False
    then show ?thesis using Cons.prems by (subst lz_fill.simps) auto
  next
    case True
    obtain io' where io': "rd (lz_io s) = Inr (Some b, io')" "ok io'" "pending io' = P" "sent io' = sent (lz_io s)"
      using rd_byte Cons.prems(1,4) by blast
    let ?s = "s\<lparr>lz_buffer := (lz_buffer s)[i := b], textcount := textcount s + 1, lz_io := io'\<rparr>"
    obtain s' be where s': "lz_fill rd (i + 1) ?s = Inr (be, s')" "be = min (LZ_N * 2) (i + 1 + length P)"
      "length (lz_buffer s') = LZ_N * 2" "pending (lz_io s') = drop (be - (i + 1)) P"
      "\<forall>k<i + 1. lz_buffer s' ! k = lz_buffer ?s ! k"
      "\<forall>k. i + 1 \<le> k \<and> k < be \<longrightarrow> lz_buffer s' ! k = P ! (k - (i + 1))"
      "textcount s' = textcount ?s + (be - (i + 1))" "outp ?s bs \<longrightarrow> outp s' bs"
      using Cons.IH [of ?s "i + 1"] io'(2,3) Cons.prems(2) True by auto
    have fill: "lz_fill rd i s = Inr (be, s')" using True io'(1) s'(1) by (subst lz_fill.simps) simp
    have be: "be - i = Suc (be - (i + 1))" using s'(2) True by auto
    have buf: "lz_buffer s' ! k = (b # P) ! (k - i)" if "i \<le> k" "k < be" for k
    proof (cases "k = i")
      case True
      then show ?thesis using s'(5) \<open>i < LZ_N * 2\<close> Cons.prems(2) by simp
    next
      case False
      then have "k - i = Suc (k - (i + 1))" "i + 1 \<le> k" using that(1) by simp_all
      then show ?thesis using s'(6) that(2) by simp
    qed
    have low: "lz_buffer s' ! k = lz_buffer s ! k" if "k < i" for k
      using s'(5) that by simp
    have "outp s bs \<longrightarrow> outp s' bs" using s'(8) io'(2,4) by (simp add: outp_def out_repr_def)
    then show ?thesis using fill s'(2-4,7) be buf low by simp
  qed
qed

end

end
