(* ===== verification/Lzss_Spec.thy ===== *)
theory Lzss_Spec
  imports Lzss_Encode
begin

unbundle bit_operations_syntax

text \<open>
  The main loop of the encoder and the round trip of the file program.
\<close>

subsection \<open>The invariant of the encoder\<close>

context lz_channel
begin

definition enc_inv :: "u8 list \<Rightarrow> nat \<Rightarrow> lz_token list \<Rightarrow> nat \<times> nat \<times> nat \<times> 'io lz \<Rightarrow> bool" where
  "enc_inv T off ts = (\<lambda>(r, s, be, st).
     outp st (toks_bits ts) \<and> toks_ok lz_spaces ts \<and> toks_text lz_spaces ts = take (off + r) T
     \<and> length (toks_bits ts) + 10 * (LZ_N - LZ_F) \<le> 10 * (off + r)
     \<and> off mod LZ_N = 0 \<and> r = s + (LZ_N - LZ_F) \<and> r \<le> be \<and> r < LZ_N * 2 - LZ_F \<and> be \<le> LZ_N * 2
     \<and> off + be \<le> length T \<and> (be < LZ_N * 2 \<longrightarrow> off + be = length T)
     \<and> pending (lz_io st) = drop (off + be) T \<and> length (lz_buffer st) = LZ_N * 2
     \<and> (\<forall>k<be. lz_buffer st ! k = T ! (off + k)) \<and> textcount st + (LZ_N - LZ_F) = off + be)"

text \<open>The token of a turn.\<close>

lemma turn_token:
  assumes "enc_inv T off ts (r, s, be, st)" and "r < be" and "fits m" and "10 * length T \<le> 8 * m"
    and f1: "f1 = (if LZ_F \<le> be - r then LZ_F else be - r)"
    and xy: "lz_search (lz_buffer st) r f1 s r 0 1 = (x, y)"
  shows "\<exists>st1 t. (if y \<le> LZ_P then output1 wr (unat (lz_buffer st ! r)) st
      else output2 wr (x AND (LZ_N - 1)) (y - 2) st) = Inr st1
    \<and> outp st1 (toks_bits (ts @ [t])) \<and> out_frame st st1 \<and> toks_ok lz_spaces (ts @ [t])
    \<and> toks_text lz_spaces (ts @ [t]) = take (off + r + y) T \<and> length (tok_bits t) \<le> 10 * y
    \<and> 1 \<le> y \<and> y \<le> be - r"
proof -
  have inv: "outp st (toks_bits ts)" "toks_ok lz_spaces ts" "toks_text lz_spaces ts = take (off + r) T"
    "length (toks_bits ts) + 10 * (LZ_N - LZ_F) \<le> 10 * (off + r)" "off mod LZ_N = 0" "r = s + (LZ_N - LZ_F)"
    "off + be \<le> length T" "\<And>k. k < be \<Longrightarrow> lz_buffer st ! k = T ! (off + k)"
    using assms(1) by (simp_all add: enc_inv_def)
  have room: "length (toks_bits ts) \<le> 10 * (off + r)" using inv(4) by linarith
  have f: "1 \<le> f1" "f1 \<le> be - r" "f1 \<le> 33" using f1 assms(2) by (auto simp: lz_consts split: if_splits)
  have "found (lz_buffer st) r f1 s (x, y)"
    using search_found [where buf = "lz_buffer st" and s = s and x = 0 and y = 1 and k = r and r = r, OF f(1)] xy
    by (simp add: found_def)
  then consider (lit) "y = 1" | (copy) "s \<le> x" "x < r" "2 \<le> y" "y \<le> f1" "repeats (lz_buffer st) x r y"
    by (auto simp: found_def)
  then show ?thesis
  proof cases
    case lit
    have "10 * (off + r) + 10 \<le> 10 * length T" using inv(7) assms(2) by simp
    then have "length (toks_bits ts) + 9 \<le> 8 * m" using room assms(4) by linarith
    then obtain st1 where st1: "output1 wr (unat (lz_buffer st ! r)) st = Inr st1"
      "outp st1 (toks_bits ts @ tok_bits (Lit (lz_buffer st ! r)))" "out_frame st st1"
      using output1_ok [OF inv(1) assms(3)] by blast
    have "lz_buffer st ! r = T ! (off + r)" by (rule inv(8) [OF assms(2)])
    then have "take (off + r) T @ [lz_buffer st ! r] = take (off + r + 1) T"
      using inv(7) assms(2) by (simp add: take_Suc_conv_app_nth)
    then show ?thesis using st1 lit assms(2) inv(2,3)
      by (intro exI [of _ st1] exI [of _ "Lit (lz_buffer st ! r)"])
        (simp add: lz_consts toks_ok_append toks_text_append)
  next
    case copy
    have mod: "(off + x) AND (LZ_N - 1) = x AND (LZ_N - 1)"
      using inv(5) by (simp only: and_N) (metis add_0 mod_add_left_eq)
    have "10 * (off + r) + 20 \<le> 10 * length T" using inv(7) copy(3,4) f(2) by simp
    then have "length (toks_bits ts) + 19 \<le> 8 * m" using room assms(4) by linarith
    then obtain st1 where st1: "output2 wr (x AND (LZ_N - 1)) (y - 2) st = Inr st1"
      "outp st1 (toks_bits ts @ tok_bits (Copy (off + x) y))" "out_frame st st1"
      using output2_ok [OF inv(1) assms(3), of "off + x" y] by (simp only: mod) blast
    have "off + r + y \<le> length T" using inv(7) copy(4) f(2) assms(2) by linarith
    moreover have "T ! (off + x + j) = T ! (off + r + j)" if "j < y" for j
    proof -
      have "x + j < be" "r + j < be" using that copy(2,4) f(2) assms(2) by linarith+
      moreover have "lz_buffer st ! (x + j) = lz_buffer st ! (r + j)" using copy(5) that by (simp add: repeats_def)
      ultimately show ?thesis using inv(8) by (simp add: add.assoc)
    qed
    ultimately have same: "copied (take (off + r) T) (off + x) y = take (off + r + y) T"
      using copy(2) by (intro copied_repeat) simp_all
    have len: "length (take (off + r) T) = off + r" using inv(7) assms(2) by simp
    have "tok_ok (take (off + r) T) (Copy (off + x) y)"
      using len copy inv(6) f(3) by (simp add: lz_consts)
    then show ?thesis using st1 copy f same inv(2,3)
      by (intro exI [of _ st1] exI [of _ "Copy (off + x) y"])
        (simp add: lz_consts toks_ok_append toks_text_append)
  qed
qed

lemma turn_inv:
  assumes "enc_inv T off ts (r, s, be, st)" and "r < be" and "fits m" and "10 * length T \<le> 8 * m"
  shows "\<exists>off' ts' r' s' be' st'. lz_encode_turn rd wr (r, s, be, st) = Inr (Inl (r', s', be', st'))
    \<and> enc_inv T off' ts' (r', s', be', st') \<and> off + r < off' + r'"
proof -
  define f1 where "f1 = (if LZ_F \<le> be - r then LZ_F else be - r)"
  obtain x y where xy: "lz_search (lz_buffer st) r f1 s r 0 1 = (x, y)" by fastforce
  obtain st1 t where st1: "(if y \<le> LZ_P then output1 wr (unat (lz_buffer st ! r)) st
      else output2 wr (x AND (LZ_N - 1)) (y - 2) st) = Inr st1"
    and t: "outp st1 (toks_bits (ts @ [t]))" "out_frame st st1" "toks_ok lz_spaces (ts @ [t])"
      "toks_text lz_spaces (ts @ [t]) = take (off + r + y) T" "length (tok_bits t) \<le> 10 * y" "1 \<le> y" "y \<le> be - r"
    using turn_token [OF assms f1_def xy] by blast
  have inv: "length (toks_bits ts) + 10 * (LZ_N - LZ_F) \<le> 10 * (off + r)" "off mod LZ_N = 0" "r = s + (LZ_N - LZ_F)"
    "r \<le> be" "be \<le> LZ_N * 2" "off + be \<le> length T" "be < LZ_N * 2 \<longrightarrow> off + be = length T"
    "length (lz_buffer st) = LZ_N * 2" "\<And>k. k < be \<Longrightarrow> lz_buffer st ! k = T ! (off + k)"
    "pending (lz_io st) = drop (off + be) T" "textcount st + (LZ_N - LZ_F) = off + be"
    using assms(1) by (simp_all add: enc_inv_def)
  have frame: "lz_buffer st1 = lz_buffer st" "textcount st1 = textcount st" "pending (lz_io st1) = drop (off + be) T"
    using t(2) inv(10) by (simp_all add: out_frame_def)
  have bits: "length (toks_bits (ts @ [t])) + 10 * (LZ_N - LZ_F) \<le> 10 * (off + (r + y))"
    using inv(1) t(5) by simp
  show ?thesis
  proof (cases "r + y \<ge> LZ_N * 2 - LZ_F")
    case False
    then have "lz_encode_turn rd wr (r, s, be, st) = Inr (Inl (r + y, s + y, be, st1))"
      using assms(2) st1 xy by (simp add: lz_encode_turn_def f1_def Let_def)
    moreover have "enc_inv T off (ts @ [t]) (r + y, s + y, be, st1)"
      using t False inv frame bits by (simp add: enc_inv_def add.assoc)
    ultimately show ?thesis using t(6) by fastforce
  next
    case True
    let ?st = "st1\<lparr>lz_buffer := take LZ_N (drop LZ_N (lz_buffer st)) @ drop LZ_N (lz_buffer st)\<rparr>"
    have big: "LZ_N \<le> be" "LZ_N \<le> r + y" "r + y - LZ_N < LZ_N * 2 - LZ_F" using True t(7) inv(4,5) by (auto simp: lz_consts)
    have out: "outp ?st (toks_bits (ts @ [t]))" using t(1) by (simp add: outp_def out_repr_def)
    have "ok (lz_io ?st)" "length (lz_buffer ?st) = LZ_N * 2" "be - LZ_N \<le> LZ_N * 2" "pending (lz_io ?st) = drop (off + be) T"
      using out inv(5,8) frame(3) by (simp_all add: outp_def)
    from fill_ok [OF this, of "toks_bits (ts @ [t])"] obtain st2 be2 where fill: "lz_fill rd (be - LZ_N) ?st = Inr (be2, st2)"
      "be2 = min (LZ_N * 2) (be - LZ_N + length (drop (off + be) T))" "length (lz_buffer st2) = LZ_N * 2"
      "pending (lz_io st2) = drop (be2 - (be - LZ_N)) (drop (off + be) T)"
      "\<forall>k<be - LZ_N. lz_buffer st2 ! k = lz_buffer ?st ! k"
      "\<forall>k. be - LZ_N \<le> k \<and> k < be2 \<longrightarrow> lz_buffer st2 ! k = drop (off + be) T ! (k - (be - LZ_N))"
      "textcount st2 = textcount ?st + (be2 - (be - LZ_N))" "outp ?st (toks_bits (ts @ [t])) \<longrightarrow> outp st2 (toks_bits (ts @ [t]))"
      by blast
    have turn: "lz_encode_turn rd wr (r, s, be, st) = Inr (Inl (r + y - LZ_N, s + y - LZ_N, be2, st2))"
      using assms(2) st1 xy True fill(1) frame(1) by (simp add: lz_encode_turn_def f1_def Let_def)
    have be2: "be - LZ_N \<le> be2" "be2 \<le> LZ_N * 2" "off + LZ_N + be2 \<le> length T"
      "be2 < LZ_N * 2 \<longrightarrow> off + LZ_N + be2 = length T"
      using fill(2) inv(5,6) big(1) by auto
    have buf: "lz_buffer st2 ! k = T ! (off + LZ_N + k)" if k: "k < be2" for k
    proof (cases "k < be - LZ_N")
      case True
      then have less: "k < LZ_N" "k + LZ_N < be" using inv(5) by auto
      then have "lz_buffer ?st ! k = lz_buffer st ! (LZ_N + k)" using inv(8) by (simp add: nth_append)
      also have "\<dots> = T ! (off + (LZ_N + k))" using less(2) by (intro inv(9)) simp
      finally show ?thesis using fill(5) True by (simp add: add.assoc)
    next
      case False
      then have "lz_buffer st2 ! k = T ! (off + be + (k - (be - LZ_N)))" using fill(6) k inv(6) by simp
      moreover have "off + be + (k - (be - LZ_N)) = off + LZ_N + k" using False big(1) by linarith
      ultimately show ?thesis by (simp only:)
    qed
    have "enc_inv T (off + LZ_N) (ts @ [t]) (r + y - LZ_N, s + y - LZ_N, be2, st2)"
    proof -
      have "off + LZ_N + (r + y - LZ_N) = off + r + y" using big(2) by simp
      moreover have "r + y - LZ_N = s + y - LZ_N + (LZ_N - LZ_F)"
        using inv(3) True by (simp add: lz_consts)
      moreover have "r + y - LZ_N \<le> be2" using be2(1) t(7) inv(4) by linarith
      moreover have "pending (lz_io st2) = drop (off + LZ_N + be2) T"
      proof -
        have "be2 - (be - LZ_N) + (off + be) = off + LZ_N + be2" using be2(1) big(1) by linarith
        then show ?thesis using fill(4) by (simp only: drop_drop)
      qed
      moreover have "textcount st2 + (LZ_N - LZ_F) = off + LZ_N + be2"
        using fill(7) frame(2) inv(11) be2(1) big(1) by simp
      moreover have "(off + LZ_N) mod LZ_N = 0" using inv(2) by simp
      ultimately show ?thesis
        using t(3,4) fill(3,8) out be2(2,3,4) buf big(3) bits by (simp add: enc_inv_def add.assoc)
    qed
    moreover have "off + r < off + LZ_N + (r + y - LZ_N)" using t(6) big(2) by simp
    ultimately show ?thesis using turn by blast
  qed
qed

lemma encode_loop_ok:
  assumes "enc_inv T off ts (r, s, be, st)" and "fits m" and "10 * length T \<le> 8 * m" and "length T - (off + r) < fuel"
  shows "\<exists>st' ts'. loop_fuel (lz_encode_turn rd wr) fuel (r, s, be, st) = Some (Inr st')
    \<and> outp st' (toks_bits ts') \<and> toks_ok lz_spaces ts' \<and> toks_text lz_spaces ts' = T
    \<and> length (toks_bits ts') + 10 * (LZ_N - LZ_F) \<le> 10 * length T \<and> textcount st' + (LZ_N - LZ_F) = length T"
  using assms(1,4)
proof (induction fuel arbitrary: off ts r s be st)
  case 0
  then show ?case by simp
next
  case (Suc fuel)
  show ?case
  proof (cases "r < be")
    case False
    have inv: "r \<le> be" "r < LZ_N * 2 - LZ_F" "off + be \<le> length T" "be < LZ_N * 2 \<longrightarrow> off + be = length T"
      "outp st (toks_bits ts)" "toks_ok lz_spaces ts" "toks_text lz_spaces ts = take (off + r) T"
      "length (toks_bits ts) + 10 * (LZ_N - LZ_F) \<le> 10 * (off + r)" "textcount st + (LZ_N - LZ_F) = off + be"
      using Suc.prems(1) by (simp_all add: enc_inv_def)
    then have "off + r = length T" "r = be" using False by auto
    moreover have "lz_encode_turn rd wr (r, s, be, st) = Inr (Inr st)" using False by (simp add: lz_encode_turn_def)
    ultimately show ?thesis using inv(5-9) by (intro exI [of _ st] exI [of _ ts]) simp
  next
    case True
    obtain off' ts' r' s' be' st' where turn: "lz_encode_turn rd wr (r, s, be, st) = Inr (Inl (r', s', be', st'))"
      "enc_inv T off' ts' (r', s', be', st')" "off + r < off' + r'"
      using turn_inv [OF Suc.prems(1) True assms(2,3)] by blast
    have "off + be \<le> length T" using Suc.prems(1) by (simp add: enc_inv_def)
    then have "length T - (off' + r') < fuel" using Suc.prems(2) turn(3) True by linarith
    then show ?thesis using Suc.IH [OF turn(2)] turn(1) by simp
  qed
qed

theorem encode_toks:
  assumes "ok (lz_io s)" and "sent (lz_io s) = []" and "length (lz_buffer s) = LZ_N * 2"
    and "bit_mask s = 128" and "bit_buffer s = 0" and "textcount s = 0"
    and "fits (10 * (LZ_N + length (pending (lz_io s))))" and "length (pending (lz_io s)) < fuel"
  shows "\<exists>s' ts pad. lz_encode rd wr fuel s = Some (Inr s') \<and> ok (lz_io s') \<and> toks_ok lz_spaces ts
    \<and> toks_text lz_spaces ts = lz_spaces @ pending (lz_io s)
    \<and> concat (map byte_bits (sent (lz_io s'))) = toks_bits ts @ replicate pad False \<and> pad < 8
    \<and> textcount s' = length (pending (lz_io s)) \<and> length (toks_bits ts) \<le> 10 * length (pending (lz_io s))"
proof -
  let ?P = "pending (lz_io s)"
  let ?T = "lz_spaces @ ?P"
  let ?m = "10 * (LZ_N + length ?P)"
  have out: "outp (lz_clear s) []"
    using assms(1,2,4,5) by (auto simp: outp_def out_repr_def lz_clear_def part_word_Nil intro!: exI [of _ "[]"])
  have "ok (lz_io (lz_clear s))" "length (lz_buffer (lz_clear s)) = LZ_N * 2" "LZ_N - LZ_F \<le> LZ_N * 2"
    "pending (lz_io (lz_clear s)) = ?P"
    using assms(1,3) by (simp_all add: lz_clear_def lz_consts)
  from fill_ok [OF this, of "[]"] obtain s1 be where fill: "lz_fill rd (LZ_N - LZ_F) (lz_clear s) = Inr (be, s1)"
    "be = min (LZ_N * 2) (LZ_N - LZ_F + length ?P)" "length (lz_buffer s1) = LZ_N * 2"
    "pending (lz_io s1) = drop (be - (LZ_N - LZ_F)) ?P"
    "\<forall>k<LZ_N - LZ_F. lz_buffer s1 ! k = lz_buffer (lz_clear s) ! k"
    "\<forall>k. LZ_N - LZ_F \<le> k \<and> k < be \<longrightarrow> lz_buffer s1 ! k = ?P ! (k - (LZ_N - LZ_F))"
    "textcount s1 = textcount (lz_clear s) + (be - (LZ_N - LZ_F))" "outp s1 []"
    using out by blast
  have be: "LZ_N - LZ_F \<le> be" "be \<le> LZ_N * 2" "be \<le> length ?T" "be < LZ_N * 2 \<longrightarrow> be = length ?T"
    using fill(2) by (auto simp: lz_consts)
  have buf: "lz_buffer s1 ! k = ?T ! k" if "k < be" for k
  proof (cases "k < LZ_N - LZ_F")
    case True
    then have "lz_buffer s1 ! k = lz_buffer (lz_clear s) ! k" using fill(5) by blast
    also have "\<dots> = lz_spaces ! k" using True by (simp add: lz_clear_def lz_spaces_def nth_append)
    finally show ?thesis using True by (simp add: nth_append)
  next
    case False
    then show ?thesis using fill(6) that by (simp add: nth_append)
  qed
  have "pending (lz_io s1) = drop be ?T" using fill(4) be(1) by simp
  moreover have "textcount s1 + (LZ_N - LZ_F) = be" using fill(7) be(1) assms(6) by (simp add: lz_clear_def)
  moreover have "LZ_N - LZ_F < LZ_N * 2 - LZ_F" by (simp add: lz_consts)
  ultimately have inv: "enc_inv ?T 0 [] (LZ_N - LZ_F, 0, be, s1)"
    using fill(3,8) be buf by (simp add: enc_inv_def)
  have size: "10 * length ?T \<le> 8 * ?m" by (simp add: lz_consts)
  have fuel: "length ?T - (0 + (LZ_N - LZ_F)) < fuel" using assms(8) by simp
  obtain s2 ts where loop: "loop_fuel (lz_encode_turn rd wr) fuel (LZ_N - LZ_F, 0, be, s1) = Some (Inr s2)"
    "outp s2 (toks_bits ts)" "toks_ok lz_spaces ts" "toks_text lz_spaces ts = ?T"
    "length (toks_bits ts) + 10 * (LZ_N - LZ_F) \<le> 10 * length ?T" "textcount s2 + (LZ_N - LZ_F) = length ?T"
    using encode_loop_ok [OF inv assms(7) size fuel] by blast
  have "length (toks_bits ts) \<le> 8 * ?m" using loop(5) size by linarith
  then obtain s3 pad where "flush_bit_buffer wr s2 = Inr s3" "pad < 8" "ok (lz_io s3)"
    "concat (map byte_bits (sent (lz_io s3))) = toks_bits ts @ replicate pad False" "textcount s3 = textcount s2"
    using flush_ok [OF loop(2) assms(7)] by blast
  then show ?thesis using fill(1) loop
    by (intro exI [of _ s3] exI [of _ ts] exI [of _ pad]) (simp add: lz_encode_def)
qed

end

subsection \<open>The file program\<close>

text \<open>Files that can be written keep the contract, with the checked and with the unchecked writer.\<close>

definition files_ok :: "lz_files \<Rightarrow> bool" where
  "files_ok io \<longleftrightarrow> out_fails io = None"

interpretation enc_files: lz_channel lz_fgetc lz_fputc infile outfile "\<lambda>n. True" files_ok
  by unfold_locales (auto simp: lz_fgetc_def lz_fputc_def files_ok_def)

interpretation dec_files: lz_channel lz_fgetc lz_fputc_unchecked infile outfile "\<lambda>n. True" files_ok
  by unfold_locales (auto simp: lz_fgetc_def lz_fputc_unchecked_def files_ok_def)

lemma length_tok_bits: "1 \<le> length (tok_bits t)"
  by (cases t) auto

lemma length_toks_bits: "length ts \<le> length (toks_bits ts)"
proof (induction ts)
  case (Cons t ts)
  then show ?case using length_tok_bits [of t] by simp
qed simp

text \<open>What the program writes for a text, as tokens.\<close>

lemma encode_file:
  assumes "length bs < fuel"
  shows "\<exists>s' ts pad. lz_encode lz_fgetc lz_fputc fuel (lz_start bs) = Some (Inr s') \<and> toks_ok lz_spaces ts
    \<and> toks_text lz_spaces ts = lz_spaces @ bs
    \<and> concat (map byte_bits (outfile (lz_io s'))) = toks_bits ts @ replicate pad False \<and> pad < 8
    \<and> textcount s' = length bs \<and> length (toks_bits ts) \<le> 10 * length bs"
  using enc_files.encode_toks [of "lz_start bs" fuel] assms by (auto simp: lz_start_def files_ok_def)

lemma decode_file:
  assumes "concat (map byte_bits code) = toks_bits ts @ replicate pad False" and "pad < 8"
    and "toks_ok lz_spaces ts" and "toks_text lz_spaces ts = lz_spaces @ bs" and "length ts < fuel"
  shows "lzss_main False fuel code = Some (Inr bs)"
proof -
  have "in_repr (lz_start code) code (concat (map byte_bits code))"
    by (simp add: in_repr_def lz_start_def)
  then have "dec_files.inp (lz_start code) (toks_bits ts @ replicate pad False)"
    using assms(1) by (simp add: dec_files.inp_def files_ok_def lz_start_def)
  moreover have "dec_files.no_token (replicate pad False)" using assms(2) by (simp add: dec_files.no_token_def)
  ultimately obtain s' where "lz_decode lz_fgetc lz_fputc_unchecked fuel (lz_start code) = Some (Inr s')" "outfile (lz_io s') = bs"
    using dec_files.decode_toks [of "lz_start code" ts _ bs fuel] assms(3-5) by (auto simp: lz_start_def)
  then show ?thesis by (simp add: lzss_main_def decode_def)
qed

text \<open>C1. Compressing a file that is not empty and decompressing the result gives the file back, and the
  compressed file has at most ten bits for each byte of the text, rounded up to a byte.\<close>

theorem lzss_round_trip:
  assumes "bs \<noteq> []" and "length bs < fuel" and "10 * length bs < fuel'"
  shows "\<exists>code. lzss_main True fuel bs = Some (Inr code) \<and> lzss_main False fuel' code = Some (Inr bs)
    \<and> 8 * length code \<le> 10 * length bs + 7"
proof -
  obtain s' ts pad where enc: "lz_encode lz_fgetc lz_fputc fuel (lz_start bs) = Some (Inr s')" "toks_ok lz_spaces ts"
    "toks_text lz_spaces ts = lz_spaces @ bs"
    "concat (map byte_bits (outfile (lz_io s'))) = toks_bits ts @ replicate pad False" "pad < 8"
    "textcount s' = length bs" "length (toks_bits ts) \<le> 10 * length bs"
    using encode_file [OF assms(2)] by blast
  have "lzss_main True fuel bs = Some (Inr (outfile (lz_io s')))"
    using enc(1,6) assms(1) by (simp add: lzss_main_def encode_def)
  moreover have "length ts < fuel'" using enc(7) length_toks_bits [of ts] assms(3) by linarith
  then have "lzss_main False fuel' (outfile (lz_io s')) = Some (Inr bs)"
    by (rule decode_file [OF enc(4,5,2,3)])
  moreover have "8 * length (outfile (lz_io s')) \<le> 10 * length bs + 7"
    using arg_cong [OF enc(4), of length] enc(5,7) by simp
  ultimately show ?thesis by blast
qed

theorem lzss_round_trip_witness:
  "\<exists>code. lzss_main True 10 [65, 66, 65, 66, 65, 66] = Some (Inr code) \<and> lzss_main False 100 code = Some (Inr [65, 66, 65, 66, 65, 66])
    \<and> 8 * length code \<le> 10 * length [65, 66, 65, 66, 65, 66 :: u8] + 7"
  by (rule lzss_round_trip) simp_all

text \<open>Compressing an empty file ends in a division by zero, in the percentage printed last.\<close>

theorem lzss_empty_divides:
  "lzss_main True (Suc n) [] = Some (Inl Divide_By_Zero)"
  using encode_file [of "[]" "Suc n"] by (auto simp: lzss_main_def encode_def)

text \<open>The search of the encoder returns a longest repetition: a pair \<open>(x, y)\<close> with \<open>y > 1\<close> is a position of
  the window whose \<open>y\<close> bytes repeat at \<open>r\<close>, and no position of the window repeats more.\<close>

theorem lz_search_longest:
  assumes "1 \<le> f1" and "lz_search buf r f1 s r 0 1 = (x, y)"
  shows "(y = 1 \<or> (s \<le> x \<and> x < r \<and> 2 \<le> y \<and> y \<le> f1 \<and> repeats buf x r y))
    \<and> (\<forall>i l. s \<le> i \<and> i < r \<and> l \<le> f1 \<and> repeats buf i r l \<longrightarrow> l \<le> y)"
proof
  show "y = 1 \<or> (s \<le> x \<and> x < r \<and> 2 \<le> y \<and> y \<le> f1 \<and> repeats buf x r y)"
    using search_found [where buf = buf and s = s and x = 0 and y = 1 and k = r and r = r, OF assms(1)] assms(2)
    by (simp add: found_def)
  show "\<forall>i l. s \<le> i \<and> i < r \<and> l \<le> f1 \<and> repeats buf i r l \<longrightarrow> l \<le> y"
    using search_longest [OF assms(1), of s _ r _ buf r 1 0] assms(2) by auto
qed

theorem lz_search_longest_witness:
  "lz_search [1, 2, 3, 9, 1, 2, 3] 4 3 0 4 0 1 = (0, 3) \<and> repeats [1, 2, 3, 9, 1, 2, 3] 0 4 3"
proof -
  have found: "lz_search [1, 2, 3, 9, 1, 2, 3] 4 3 0 4 0 1 = (0, 3)" by code_simp
  show ?thesis using found lz_search_longest [OF _ found] by simp
qed

end
