(* ===== verification/Lzss_Server.thy ===== *)
theory Lzss_Server
  imports Lzss
begin

unbundle bit_operations_syntax

text \<open>
  \<open>mips_build/test_lzss.c\<close>: the LZSS code behind a request loop. The reader and the writer work on the two
  arrays of \<open>COMPRESS_INFO\<close>; the request loop reads standard input byte by byte and writes the answer.
  The results of the \<open>write\<close> system call are an argument (one integer for each call, failure when they are
  used up), and so is the register content that \<open>DoCompress\<close>, which has no return statement, leaves as its
  result. An access outside an array is a fault. The target is little-endian.
\<close>

subsection \<open>The arrays\<close>

definition MAX_COMPRESSBUF_SIZE :: nat where "MAX_COMPRESSBUF_SIZE = 2048 * 8"
definition MAX_UNCOMPRESSBUF_SIZE :: nat where "MAX_UNCOMPRESSBUF_SIZE = 4096 * 24"

record lz_arrays =
  inBytePos :: nat
  outBytePos :: nat
  maxInBytePos :: nat
  compressBuf :: "u8 list"
  uncompressBuf :: "u8 list"

definition readByte :: "lz_arrays reader" where
  "readByte g =
     (if inBytePos g > maxInBytePos g then Inr (None, g)
      else if inBytePos g < length (compressBuf g)
      then Inr (Some (compressBuf g ! inBytePos g), g\<lparr>inBytePos := inBytePos g + 1\<rparr>)
      else Inl (Array_Read (inBytePos g)))"

definition writeByte :: "lz_arrays writer" where
  "writeByte v g =
     (if outBytePos g < length (uncompressBuf g)
      then Inr (g\<lparr>uncompressBuf := (uncompressBuf g)[outBytePos g := v], outBytePos := outBytePos g + 1\<rparr>)
      else Inl (Array_Write (outBytePos g)))"

definition DoCompress :: "nat \<Rightarrow> nat \<Rightarrow> lz_arrays lz \<Rightarrow> (lz_fault + lz_arrays lz) option" where
  "DoCompress fuel inBufSize s =
     lz_encode readByte writeByte fuel (s\<lparr>lz_io := (lz_io s)\<lparr>inBytePos := 0, outBytePos := 0\<rparr>\<rparr>)"

definition DoDecompress :: "nat \<Rightarrow> nat \<Rightarrow> lz_arrays lz \<Rightarrow> (lz_fault + (nat \<times> lz_arrays lz)) option" where
  "DoDecompress fuel inBufSize s =
     (case lz_decode readByte writeByte fuel
             (s\<lparr>lz_io := (lz_io s)\<lparr>inBytePos := 0, outBytePos := 0, maxInBytePos := inBufSize\<rparr>\<rparr>) of
        None \<Rightarrow> None
      | Some (Inl e) \<Rightarrow> Some (Inl e)
      | Some (Inr s') \<Rightarrow> Some (Inr (outBytePos (lz_io s'), s')))"

subsection \<open>Input and output\<close>

text \<open>\<open>strlen\<close> counts the terminating zero. \<open>None\<close>: no zero in the array.\<close>

fun lz_strlen :: "u8 list \<Rightarrow> nat \<Rightarrow> nat option" where
  "lz_strlen [] pos = None"
| "lz_strlen (c # cs) pos = (if c = 0 then Some (pos + 1) else lz_strlen cs (pos + 1))"

text \<open>\<open>readDataUntil\<close>: the result, the bytes stored and the input left.\<close>

fun readDataUntil :: "nat \<Rightarrow> u8 list \<Rightarrow> u8 list \<Rightarrow> int \<times> u8 list \<times> u8 list" where
  "readDataUntil 0 inp stored = (int (length stored), stored, inp)"
| "readDataUntil (Suc n) [] stored = (- 1, stored, [])"
| "readDataUntil (Suc n) (b # bs) stored = readDataUntil n bs (stored @ [b])"

text \<open>\<open>writeAll\<close>: \<open>pos\<close> and \<open>bytesLeft\<close> against the results of \<open>write\<close>.\<close>

fun writeAll_loop :: "u8 list \<Rightarrow> int \<Rightarrow> int \<Rightarrow> int \<Rightarrow> int list \<Rightarrow> u8 list \<Rightarrow> int \<times> int list \<times> u8 list" where
  "writeAll_loop buf len pos bytesLeft [] out = (if pos < len then - 1 else pos, [], out)"
| "writeAll_loop buf len pos bytesLeft (w # ws) out =
     (if pos < len
      then if w \<le> 0 then (- 1, ws, out)
        else if w > bytesLeft then (- 1, ws, out)
        else writeAll_loop buf len (pos + w) (bytesLeft - w) ws (out @ take (nat w) (drop (nat pos) buf))
      else (pos, w # ws, out))"

definition writeAll :: "u8 list \<Rightarrow> int \<Rightarrow> int list \<Rightarrow> u8 list \<Rightarrow> int \<times> int list \<times> u8 list" where
  "writeAll buf len ws out = writeAll_loop buf len 0 len ws out"

subsection \<open>The request loop\<close>

record lz_server =
  sv_state :: "lz_arrays lz"
  sv_stdin :: "u8 list"
  sv_writes :: "int list"
  sv_stdout :: "u8 list"

text \<open>An error message is sent with its terminating zero; the result of that write is ignored.\<close>

definition lz_message :: "string \<Rightarrow> u8 list" where
  "lz_message msg = map (\<lambda>c. of_nat (of_char c)) msg @ [0]"

definition lz_abort :: "string \<Rightarrow> lz_server \<Rightarrow> nat \<times> lz_server" where
  "lz_abort msg sv =
     (let szError = lz_message msg;
          len = (case lz_strlen szError 0 of Some n \<Rightarrow> int n | None \<Rightarrow> 0);
          (r, ws, out) = writeAll szError len (sv_writes sv) (sv_stdout sv)
      in (1, sv\<lparr>sv_writes := ws, sv_stdout := out\<rparr>))"

text \<open>The answer: the size, then that many bytes of the output array.\<close>

definition lz_answer :: "int \<Rightarrow> lz_server \<Rightarrow> lz_fault + (lz_server + (nat \<times> lz_server))" where
  "lz_answer uncompressSize sv =
     (if uncompressSize = - 1 then Inr (Inr (lz_abort ''ERR: Failed making data bigger\<newline>'' sv))
      else
        let (n, ws, out) = writeAll (le32 (of_int uncompressSize)) 4 (sv_writes sv) (sv_stdout sv);
            sv1 = sv\<lparr>sv_writes := ws, sv_stdout := out\<rparr> in
        if n \<noteq> 4 then Inr (Inr (lz_abort ''ERR: You have poor connection\<newline>'' sv1))
        else if uncompressSize > int (length (uncompressBuf (lz_io (sv_state sv))))
        then Inl (Array_Read (length (uncompressBuf (lz_io (sv_state sv)))))
        else
          let (m, ws, out) = writeAll (uncompressBuf (lz_io (sv_state sv))) uncompressSize (sv_writes sv1) (sv_stdout sv1);
              sv2 = sv1\<lparr>sv_writes := ws, sv_stdout := out\<rparr> in
          if m \<noteq> uncompressSize then Inr (Inr (lz_abort ''ERR: Your connection is terrible\<newline>'' sv2))
          else Inr (Inl sv2))"

text \<open>
  One request: go on, or exit with a code. \<open>noret\<close> is the result of the call of \<open>DoCompress\<close>. The fuel is for the
  two coders; \<open>None\<close> is "still running".
\<close>

definition lz_request :: "nat \<Rightarrow> (lz_arrays lz \<Rightarrow> int) \<Rightarrow> lz_server \<Rightarrow>
    (lz_fault + (lz_server + (nat \<times> lz_server))) option" where
  "lz_request fuel noret sv =
     (let (n, act, in1) = readDataUntil 1 (sv_stdin sv) []; sv1 = sv\<lparr>sv_stdin := in1\<rparr> in
      if n \<noteq> 1 then Some (Inr (Inr (lz_abort ''ERR: Bad connection\<newline>'' sv1)))
      else
      let (n, szb, in2) = readDataUntil 4 in1 []; sv2 = sv1\<lparr>sv_stdin := in2\<rparr> in
      if n \<noteq> 4 \<or> of_le32 szb > MAX_COMPRESSBUF_SIZE then Some (Inr (Inr (lz_abort ''ERR: Too much\<newline>'' sv2)))
      else if of_le32 szb = 0 then Some (Inr (Inr (0, sv2)))
      else
      let len = of_le32 szb;
          (n, data, in3) = readDataUntil len in2 [];
          st = sv_state sv2;
          st3 = st\<lparr>lz_io := (lz_io st)\<lparr>compressBuf := data @ drop (length data) (compressBuf (lz_io st))\<rparr>\<rparr>;
          sv3 = sv2\<lparr>sv_stdin := in3, sv_state := st3\<rparr> in
      if n \<noteq> int len then Some (Inr (Inr (lz_abort ''ERR: Bad connection\<newline>'' sv3)))
      else if hd act = 0
      then (case DoCompress fuel len st3 of None \<Rightarrow> None
            | Some (Inl e) \<Rightarrow> Some (Inl e)
            | Some (Inr st4) \<Rightarrow> Some (lz_answer (noret st4) (sv3\<lparr>sv_state := st4\<rparr>)))
      else if hd act = 1
      then (case DoDecompress fuel len st3 of None \<Rightarrow> None
            | Some (Inl e) \<Rightarrow> Some (Inl e)
            | Some (Inr (sz, st4)) \<Rightarrow> Some (lz_answer (int sz) (sv3\<lparr>sv_state := st4\<rparr>)))
      else Some (Inr (Inr (lz_abort ''ERR: Unknown action\<newline>'' sv3))))"

fun lz_server_main :: "nat \<Rightarrow> nat \<Rightarrow> (lz_arrays lz \<Rightarrow> int) \<Rightarrow> lz_server \<Rightarrow> (lz_fault + (nat \<times> lz_server)) option" where
  "lz_server_main 0 fuel noret sv = None"
| "lz_server_main (Suc n) fuel noret sv =
     (case lz_request fuel noret sv of None \<Rightarrow> None
      | Some (Inl e) \<Rightarrow> Some (Inl e)
      | Some (Inr (Inr (code, sv'))) \<Rightarrow> Some (Inr (code, sv'))
      | Some (Inr (Inl sv')) \<Rightarrow> lz_server_main n fuel noret sv')"

definition lz_server_start :: "u8 list \<Rightarrow> int list \<Rightarrow> lz_server" where
  "lz_server_start inp ws = \<lparr>sv_state = \<lparr>bit_buffer = 0, bit_mask = 128, codecount = 0, textcount = 0,
       lz_buffer = replicate (LZ_N * 2) 0, gb_buf = 0, gb_mask = 0,
       lz_io = \<lparr>inBytePos = 0, outBytePos = 0, maxInBytePos = 0, compressBuf = replicate MAX_COMPRESSBUF_SIZE 0,
         uncompressBuf = replicate MAX_UNCOMPRESSBUF_SIZE 0\<rparr>\<rparr>,
     sv_stdin = inp, sv_writes = ws, sv_stdout = []\<rparr>"

end
