(* ===== verification/Lzss_Server_Props.thy ===== *)
theory Lzss_Server_Props
  imports Lzss_Spec Lzss_Server
begin

unbundle bit_operations_syntax

text \<open>
  The LZSS service: the arrays keep the contract of a reader and a writer as long as there is room, with one
  byte more to read than \<open>maxInBytePos\<close> says. A request to decompress what the file program wrote is answered
  with the text; \<open>DoCompress\<close> on a new service encodes one byte; crafted data makes \<open>writeByte\<close> leave its array.
\<close>

subsection \<open>The arrays as a channel\<close>

definition arrays_ok :: "lz_arrays \<Rightarrow> bool" where
  "arrays_ok g \<longleftrightarrow> length (compressBuf g) = MAX_COMPRESSBUF_SIZE \<and> length (uncompressBuf g) = MAX_UNCOMPRESSBUF_SIZE
     \<and> maxInBytePos g < MAX_COMPRESSBUF_SIZE \<and> outBytePos g \<le> MAX_UNCOMPRESSBUF_SIZE"

definition arr_pending :: "lz_arrays \<Rightarrow> u8 list" where
  "arr_pending g = take (maxInBytePos g + 1 - inBytePos g) (drop (inBytePos g) (compressBuf g))"

definition arr_sent :: "lz_arrays \<Rightarrow> u8 list" where
  "arr_sent g = take (outBytePos g) (uncompressBuf g)"

lemma readByte_end:
  "arrays_ok g \<Longrightarrow> arr_pending g = [] \<Longrightarrow> readByte g = Inr (None, g)"
  by (auto simp: arrays_ok_def arr_pending_def readByte_def)

lemma readByte_byte:
  assumes "arrays_ok g" and "arr_pending g = b # bs"
  shows "readByte g = Inr (Some b, g\<lparr>inBytePos := inBytePos g + 1\<rparr>) \<and> arr_pending (g\<lparr>inBytePos := inBytePos g + 1\<rparr>) = bs"
proof -
  have pos: "inBytePos g \<le> maxInBytePos g" "inBytePos g < length (compressBuf g)"
    using arg_cong [OF assms(2), of "\<lambda>xs. xs = []"] assms(1) by (auto simp: arr_pending_def arrays_ok_def not_le)
  have "maxInBytePos g + 1 - inBytePos g = Suc (maxInBytePos g - inBytePos g)" using pos(1) by simp
  then have "b # bs = compressBuf g ! inBytePos g # take (maxInBytePos g - inBytePos g) (drop (Suc (inBytePos g)) (compressBuf g))"
    using assms(2) Cons_nth_drop_Suc [OF pos(2)] by (metis arr_pending_def take_Suc_Cons)
  then show ?thesis using pos by (simp add: readByte_def arr_pending_def)
qed

lemma writeByte_room:
  assumes "arrays_ok g" and "Suc (length (arr_sent g)) \<le> MAX_UNCOMPRESSBUF_SIZE"
  shows "\<exists>g'. writeByte b g = Inr g' \<and> arrays_ok g' \<and> arr_pending g' = arr_pending g \<and> arr_sent g' = arr_sent g @ [b]"
proof -
  have "outBytePos g < length (uncompressBuf g)" using assms by (auto simp: arrays_ok_def arr_sent_def)
  then show ?thesis using assms(1)
    by (auto simp: writeByte_def arrays_ok_def arr_pending_def arr_sent_def take_Suc_conv_app_nth)
qed

interpretation arrays: lz_channel readByte writeByte arr_pending arr_sent "\<lambda>n. n \<le> MAX_UNCOMPRESSBUF_SIZE" arrays_ok
proof unfold_locales
  fix io
  assume "arrays_ok io" "arr_pending io = []"
  then show "\<exists>io'. readByte io = Inr (None, io') \<and> arrays_ok io' \<and> arr_pending io' = [] \<and> arr_sent io' = arr_sent io"
    using readByte_end by blast
next
  fix io b bs
  assume a: "arrays_ok io" "arr_pending io = b # bs"
  show "\<exists>io'. readByte io = Inr (Some b, io') \<and> arrays_ok io' \<and> arr_pending io' = bs \<and> arr_sent io' = arr_sent io"
    using readByte_byte [OF a] a(1) by (auto simp: arrays_ok_def arr_sent_def)
qed (use writeByte_room in auto)

subsection \<open>Decompression\<close>

text \<open>The shape of the globals between two requests.\<close>

definition lz_ready :: "lz_arrays lz \<Rightarrow> bool" where
  "lz_ready s \<longleftrightarrow> length (compressBuf (lz_io s)) = MAX_COMPRESSBUF_SIZE
     \<and> length (uncompressBuf (lz_io s)) = MAX_UNCOMPRESSBUF_SIZE \<and> length (lz_buffer s) = LZ_N * 2 \<and> gb_mask s = 0"

lemma inp_Nil_mask: "arrays.inp s [] \<Longrightarrow> gb_mask s = 0"
  by (auto simp: arrays.inp_def in_repr_def)

theorem DoDecompress_decodes:
  assumes "lz_ready s" and "bs \<noteq> []" and "length bs < fuel" and "lzss_main True fuel bs = Some (Inr code)"
    and "take (length code) (compressBuf (lz_io s)) = code" and "length code < MAX_COMPRESSBUF_SIZE"
    and "length bs \<le> MAX_UNCOMPRESSBUF_SIZE" and "10 * length bs < fuel'"
  shows "\<exists>s'. DoDecompress fuel' (length code) s = Some (Inr (length bs, s')) \<and> lz_ready s'
    \<and> take (length bs) (uncompressBuf (lz_io s')) = bs"
proof -
  obtain e ts pad where enc: "lz_encode lz_fgetc lz_fputc fuel (lz_start bs) = Some (Inr e)" "toks_ok lz_spaces ts"
    "toks_text lz_spaces ts = lz_spaces @ bs"
    "concat (map byte_bits (outfile (lz_io e))) = toks_bits ts @ replicate pad False" "pad < 8"
    "textcount e = length bs" "length (toks_bits ts) \<le> 10 * length bs"
    using encode_file [OF assms(3)] by blast
  have code: "outfile (lz_io e) = code" using assms(2,4) enc(1,6) by (simp add: lzss_main_def encode_def)
  let ?s = "s\<lparr>lz_io := (lz_io s)\<lparr>inBytePos := 0, outBytePos := 0, maxInBytePos := length code\<rparr>\<rparr>"
  define b where "b = compressBuf (lz_io s) ! length code"
  have "take (length code + 1) (compressBuf (lz_io s)) = code @ [b]"
    using assms(1,5,6) by (simp add: take_Suc_conv_app_nth b_def lz_ready_def)
  then have pend: "arr_pending (lz_io ?s) = code @ [b]" by (simp add: arr_pending_def)
  let ?tail = "replicate pad False @ byte_bits b"
  have "arrays.inp ?s (toks_bits ts @ ?tail)"
    unfolding arrays.inp_def in_repr_def pend
    using assms(1,6) enc(4) by (auto simp: arrays_ok_def lz_ready_def code intro!: exI [of _ 0])
  moreover have "arrays.no_token ?tail" using enc(5) by (cases pad) (auto simp: arrays.no_token_def)
  moreover have "length ts < fuel'" using enc(7) length_toks_bits [of ts] assms(8) by linarith
  ultimately obtain s' where s': "lz_decode readByte writeByte fuel' ?s = Some (Inr s')" "arr_sent (lz_io s') = bs"
    "arrays.inp s' []" "length (lz_buffer s') = LZ_N * 2"
    using arrays.decode_toks [of ?s ts ?tail bs fuel'] assms(1,7) enc(2,3) by (auto simp: arr_sent_def lz_ready_def)
  have ok: "arrays_ok (lz_io s')" using s'(3) by (simp add: arrays.inp_def)
  then have "outBytePos (lz_io s') = length bs"
    using arg_cong [OF s'(2), of length] by (auto simp: arr_sent_def arrays_ok_def)
  then show ?thesis using s' ok inp_Nil_mask [OF s'(3)] by (simp add: DoDecompress_def lz_ready_def arrays_ok_def arr_sent_def)
qed

subsection \<open>Reading and writing\<close>

lemma readDataUntil_all: "length bs = n \<Longrightarrow> readDataUntil n (bs @ rest) stored = (int (length stored + n), stored @ bs, rest)"
proof (induction bs arbitrary: n stored)
  case (Cons b bs)
  then obtain k where "n = Suc k" "length bs = k" by (cases n) auto
  then show ?case using Cons.IH [of k "stored @ [b]"] by simp
qed simp

lemma writeAll_one: "0 < n \<Longrightarrow> writeAll buf (int n) (int n # ws) out = (int n, ws, out @ take n buf)"
  by (cases ws) (auto simp: writeAll_def)

text \<open>C32. The service undoes the file program: a request to decompress what \<open>lzss\<close> wrote for a text that fits the
  arrays, all of whose writes succeed, is answered with the length of the text and the text, and leaves the service
  ready for the next request.\<close>

theorem lz_request_decompresses:
  assumes "lz_ready (sv_state sv)" and "bs \<noteq> []" and "length bs < fuel" and "lzss_main True fuel bs = Some (Inr code)"
    and "length code < MAX_COMPRESSBUF_SIZE" and "length bs \<le> MAX_UNCOMPRESSBUF_SIZE" and "10 * length bs < fuel'"
    and "sv_stdin sv = [1] @ le32 (of_nat (length code)) @ code @ rest" and "code \<noteq> []"
    and "sv_writes sv = 4 # int (length bs) # ws"
  shows "\<exists>sv'. lz_request fuel' noret sv = Some (Inr (Inl sv')) \<and> lz_ready (sv_state sv') \<and> sv_stdin sv' = rest
    \<and> sv_stdout sv' = sv_stdout sv @ le32 (of_nat (length bs)) @ bs \<and> sv_writes sv' = ws"
proof -
  let ?st = "sv_state sv"
  let ?st3 = "?st\<lparr>lz_io := (lz_io ?st)\<lparr>compressBuf := code @ drop (length code) (compressBuf (lz_io ?st))\<rparr>\<rparr>"
  have len: "of_le32 (le32 (of_nat (length code))) = length code"
    using assms(5) by (intro of_le32_le32) (simp add: MAX_COMPRESSBUF_SIZE_def)
  have ready: "lz_ready ?st3" using assms(1,5) by (simp add: lz_ready_def)
  have pre: "take (length code) (compressBuf (lz_io ?st3)) = code" by simp
  obtain s' where s': "DoDecompress fuel' (length code) ?st3 = Some (Inr (length bs, s'))" "lz_ready s'"
    "take (length bs) (uncompressBuf (lz_io s')) = bs"
    using DoDecompress_decodes [OF ready assms(2,3,4) pre assms(5,6,7)] by blast
  have r1: "readDataUntil 1 (sv_stdin sv) [] = (1, [1], le32 (of_nat (length code)) @ code @ rest)"
    using readDataUntil_all [of "[1]" 1 "le32 (of_nat (length code)) @ code @ rest" "[]"] by (simp add: assms(8))
  have r2: "readDataUntil 4 (le32 (of_nat (length code)) @ code @ rest) [] = (4, le32 (of_nat (length code)), code @ rest)"
    using readDataUntil_all [of "le32 (of_nat (length code))" 4 "code @ rest" "[]"] by simp
  have r3: "readDataUntil (length code) (code @ rest) [] = (int (length code), code, rest)"
    using readDataUntil_all [of code "length code" rest "[]"] by simp
  have w1: "writeAll (le32 (of_int (int (length bs)))) 4 (4 # int (length bs) # ws) out
      = (4, int (length bs) # ws, out @ le32 (of_nat (length bs)))" for out
    using writeAll_one [of 4 "le32 (of_nat (length bs))" "int (length bs) # ws" out] by simp
  have w2: "writeAll (uncompressBuf (lz_io s')) (int (length bs)) (int (length bs) # ws) out = (int (length bs), ws, out @ bs)" for out
    using writeAll_one [of "length bs" "uncompressBuf (lz_io s')" ws out] assms(2) s'(3) by simp
  have room: "length bs \<le> length (uncompressBuf (lz_io s'))" using s'(2) assms(6) by (simp add: lz_ready_def)
  have answer: "lz_answer (int (length bs)) (sv\<lparr>sv_stdin := rest, sv_state := s'\<rparr>)
      = Inr (Inl (sv\<lparr>sv_stdin := rest, sv_state := s', sv_writes := ws,
          sv_stdout := sv_stdout sv @ le32 (of_nat (length bs)) @ bs\<rparr>))"
    using w1 w2 room by (simp add: lz_answer_def Let_def assms(10))
  show ?thesis
    using r1 r2 r3 len s' answer assms(5,9)
    by (simp add: lz_request_def Let_def)
qed

theorem lz_request_decompresses_witness:
  "\<exists>code sv'. lzss_main True 100 [65] = Some (Inr code)
    \<and> lz_request 100 (\<lambda>s. 0) (lz_server_start ([1] @ le32 (of_nat (length code)) @ code @ [0]) [4, 1]) = Some (Inr (Inl sv'))
    \<and> sv_stdin sv' = [0] \<and> sv_stdout sv' = [1, 0, 0, 0, 65]"
proof -
  obtain code where code: "lzss_main True 100 [65] = Some (Inr code)" "lzss_main False 11 code = Some (Inr [65])"
    "8 * length code \<le> 10 * length [65 :: u8] + 7"
    using lzss_round_trip [of "[65]" 100 11] by auto
  have "lzss_main False 11 [] = Some (Inr [])" by (rule decode_file [of _ "[]" 0]) simp_all
  then have ne: "code \<noteq> []" using code(2) by auto
  let ?sv = "lz_server_start ([1] @ le32 (of_nat (length code)) @ code @ [0]) [4, 1]"
  have "\<exists>sv'. lz_request 100 (\<lambda>s. 0) ?sv = Some (Inr (Inl sv')) \<and> lz_ready (sv_state sv') \<and> sv_stdin sv' = [0]
    \<and> sv_stdout sv' = sv_stdout ?sv @ le32 (of_nat (length [65 :: u8])) @ [65] \<and> sv_writes sv' = []"
    by (rule lz_request_decompresses [OF _ _ _ code(1)])
      (use code(3) ne in \<open>simp_all add: lz_server_start_def lz_ready_def MAX_COMPRESSBUF_SIZE_def MAX_UNCOMPRESSBUF_SIZE_def\<close>)
  moreover have "le32 1 = [1, 0, 0, 0]" by code_simp
  ultimately show ?thesis using code(1) by (simp add: lz_server_start_def) blast
qed

text \<open>\<open>DoCompress\<close> does not set the end of its input: on a service that has decompressed nothing it encodes the
  first byte only, as one literal padded to two bytes, whatever size it is given.\<close>

theorem DoCompress_first_byte:
  assumes "lz_ready s" and "maxInBytePos (lz_io s) = 0" and "bit_mask s = 128" and "bit_buffer s = 0"
    and "textcount s = 0" and "1 < fuel"
  shows "\<exists>s'. DoCompress fuel inBufSize s = Some (Inr s') \<and> outBytePos (lz_io s') = 2
    \<and> concat (map byte_bits (take 2 (uncompressBuf (lz_io s')))) =
        True # byte_bits (compressBuf (lz_io s) ! 0) @ replicate 7 False"
proof -
  let ?s = "s\<lparr>lz_io := (lz_io s)\<lparr>inBytePos := 0, outBytePos := 0\<rparr>\<rparr>"
  let ?b = "compressBuf (lz_io s) ! 0"
  have ok: "arrays_ok (lz_io ?s)" using assms(1,2) by (simp add: arrays_ok_def lz_ready_def MAX_COMPRESSBUF_SIZE_def)
  have "compressBuf (lz_io s) \<noteq> []" using assms(1) by (auto simp: lz_ready_def MAX_COMPRESSBUF_SIZE_def)
  then have pend: "arr_pending (lz_io ?s) = [?b]" using assms(2) by (cases "compressBuf (lz_io s)") (auto simp: arr_pending_def)
  have "\<exists>s' ts pad. lz_encode readByte writeByte fuel ?s = Some (Inr s') \<and> arrays_ok (lz_io s') \<and> toks_ok lz_spaces ts
    \<and> toks_text lz_spaces ts = lz_spaces @ arr_pending (lz_io ?s)
    \<and> concat (map byte_bits (arr_sent (lz_io s'))) = toks_bits ts @ replicate pad False \<and> pad < 8
    \<and> textcount s' = length (arr_pending (lz_io ?s)) \<and> length (toks_bits ts) \<le> 10 * length (arr_pending (lz_io ?s))"
  proof (rule arrays.encode_toks)
    show "10 * (LZ_N + length (arr_pending (lz_io ?s))) \<le> MAX_UNCOMPRESSBUF_SIZE"
      unfolding pend by (simp add: lz_consts MAX_UNCOMPRESSBUF_SIZE_def)
  qed (use assms ok pend in \<open>simp_all add: lz_ready_def arr_sent_def\<close>)
  then obtain s' ts pad where enc: "lz_encode readByte writeByte fuel ?s = Some (Inr s')" "arrays_ok (lz_io s')"
    "toks_ok lz_spaces ts" "toks_text lz_spaces ts = lz_spaces @ [?b]"
    "concat (map byte_bits (arr_sent (lz_io s'))) = toks_bits ts @ replicate pad False" "pad < 8"
    unfolding pend by blast
  have "ts = [Lit ?b]"
  proof (cases ts)
    case Nil
    then show ?thesis using enc(4) by simp
  next
    case (Cons t us)
    have "length (tok_text lz_spaces t) \<le> Suc (length lz_spaces)"
      using length_toks_text [of "tok_text lz_spaces t" us] arg_cong [OF enc(4), of length] Cons by simp
    then obtain c where t: "t = Lit c" using enc(3) Cons by (cases t) auto
    have "us = []"
    proof (cases us)
      case (Cons u vs)
      have "Suc (length lz_spaces) < length (tok_text (lz_spaces @ [c]) u)"
        using enc(3) \<open>ts = t # us\<close> Cons t by (cases u) auto
      then have "Suc (length lz_spaces) < length (toks_text lz_spaces ts)"
        using length_toks_text [of "tok_text (lz_spaces @ [c]) u" vs] \<open>ts = t # us\<close> Cons t by simp
      then show ?thesis using enc(4) by simp
    qed simp
    then show ?thesis using Cons t enc(4) by simp
  qed
  then have bits: "concat (map byte_bits (arr_sent (lz_io s'))) = True # byte_bits ?b @ replicate pad False"
    using enc(5) by simp
  have "length (concat (map byte_bits (arr_sent (lz_io s')))) = 9 + pad" by (subst bits) simp
  then have "8 * length (arr_sent (lz_io s')) = 9 + pad" by (simp only: length_concat_bytes)
  then have two: "length (arr_sent (lz_io s')) = 2" "pad = 7" using enc(6) by presburger+
  then have "outBytePos (lz_io s') = 2" using enc(2) by (auto simp: arr_sent_def arrays_ok_def)
  then show ?thesis using enc(1) bits two(2) by (simp add: DoCompress_def arr_sent_def)
qed

theorem DoCompress_first_byte_witness:
  "\<exists>s'. DoCompress 5 100 (sv_state (lz_server_start [] [])) = Some (Inr s') \<and> outBytePos (lz_io s') = 2
    \<and> concat (map byte_bits (take 2 (uncompressBuf (lz_io s')))) =
        True # byte_bits (compressBuf (lz_io (sv_state (lz_server_start [] []))) ! 0) @ replicate 7 False"
  by (rule DoCompress_first_byte) (simp_all add: lz_server_start_def lz_ready_def)

subsection \<open>Overflow\<close>

lemma shift_in_append: "shift_in x (bs @ cs) = shift_in (shift_in x bs) cs"
  by (simp add: shift_in_def)

lemma nat_bits_snoc: "nat_bits (Suc n) (2 * v + (if b then 1 else 0)) = nat_bits n v @ [b]"
proof (induction n)
  case 0
  then show ?case by (simp add: bit_0)
next
  case (Suc n)
  then show ?case by (simp add: bit_Suc)
qed

lemma nat_bits_shift_in: "nat_bits (length l) (shift_in 0 l) = l"
proof (induction l rule: rev_induct)
  case (snoc b l)
  then show ?case using nat_bits_snoc [of "length l" "shift_in 0 l" b]
    by (simp add: shift_in_append del: nat_bits_simps)
qed simp

lemma byte_of_bits: "length l = 8 \<Longrightarrow> \<exists>b. byte_bits b = l"
proof -
  assume l: "length l = 8"
  have "byte_bits (of_nat v) = nat_bits 8 v" for v
    by (auto simp: byte_bits_nat nat_bits_def unsigned_of_nat bit_take_bit_iff)
  then show ?thesis using nat_bits_shift_in [of l] l by metis
qed

lemma bytes_of_bits: "length l = 8 * n \<Longrightarrow> \<exists>code. concat (map byte_bits code) = l \<and> length code = n"
proof (induction n arbitrary: l)
  case 0
  then show ?case by (intro exI [of _ "[]"]) simp
next
  case (Suc n)
  then have "length (drop 8 l) = 8 * n" "length (take 8 l) = 8" by simp_all
  then obtain b code where "byte_bits b = take 8 l" "concat (map byte_bits code) = drop 8 l" "length code = n"
    using byte_of_bits Suc.IH by metis
  then show ?case by (intro exI [of _ "b # code"]) simp
qed

text \<open>Copies of 33 bytes, each from the byte before.\<close>

definition run_toks :: "nat \<Rightarrow> nat \<Rightarrow> lz_token list" where
  "run_toks q n = map (\<lambda>k. Copy (q + 33 * k) 33) [0..<n]"

lemma run_toks_Suc: "run_toks q (Suc n) = run_toks q n @ [Copy (q + 33 * n) 33]"
  by (simp add: run_toks_def)

lemma run_toks_ok:
  assumes "h \<noteq> []"
  shows "toks_ok h (run_toks (length h - 1) n) \<and> length (toks_text h (run_toks (length h - 1) n)) = length h + 33 * n"
proof (induction n)
  case (Suc n)
  have "0 < length h" using assms by simp
  then show ?case using Suc by (simp add: run_toks_Suc toks_ok_append toks_text_append lz_consts)
qed (simp add: run_toks_def)

lemma length_run_bits: "length (toks_bits (run_toks q n)) = 19 * n"
proof (induction n)
  case (Suc n)
  then show ?case by (simp add: run_toks_Suc lz_consts)
qed (simp add: run_toks_def)

text \<open>The copying loop stops at the end of the output array.\<close>

lemma copy_overflows:
  assumes "arrays.inp s bs" and "arrays.dec_ok s h" and "p < length h" and "length h \<le> p + LZ_N"
    and "length h - (LZ_N - LZ_F) \<le> MAX_UNCOMPRESSBUF_SIZE" and "MAX_UNCOMPRESSBUF_SIZE < length h + n - (LZ_N - LZ_F)"
    and "(i + k) mod LZ_N = p mod LZ_N"
  shows "lz_copy writeByte i k n (length h mod LZ_N) s = Inl (Array_Write MAX_UNCOMPRESSBUF_SIZE)"
  using assms
proof (induction n arbitrary: s h p k)
  case 0
  then show ?case by simp
next
  case (Suc n)
  have byte: "lz_buffer s ! ((i + k) AND (LZ_N - 1)) = h ! p"
    using Suc.prems(2,3,4,7) by (simp only: and_N) (simp add: arrays.dec_ok_def ring_ok_def)
  have ok: "arrays_ok (lz_io s)" using Suc.prems(1) by (simp add: arrays.inp_def)
  have dec: "LZ_N - LZ_F \<le> length h" "arr_sent (lz_io s) = drop (LZ_N - LZ_F) h"
    using Suc.prems(2) by (simp_all add: arrays.dec_ok_def)
  show ?case
  proof (cases "length h - (LZ_N - LZ_F) = MAX_UNCOMPRESSBUF_SIZE")
    case True
    then have "length (arr_sent (lz_io s)) = MAX_UNCOMPRESSBUF_SIZE" by (simp add: dec(2))
    then have "outBytePos (lz_io s) = MAX_UNCOMPRESSBUF_SIZE" "length (uncompressBuf (lz_io s)) = MAX_UNCOMPRESSBUF_SIZE"
      using ok by (auto simp: arrays_ok_def arr_sent_def)
    then show ?thesis by (simp add: lz_emit_def writeByte_def)
  next
    case False
    then have "Suc (length h) - (LZ_N - LZ_F) \<le> MAX_UNCOMPRESSBUF_SIZE" using Suc.prems(5) dec(1) by linarith
    then obtain s1 where s1: "lz_emit writeByte (h ! p) (length h mod LZ_N) s = Inr (Suc (length h) mod LZ_N, s1)"
      "arrays.inp s1 bs" "arrays.dec_ok s1 (h @ [h ! p])"
      using arrays.emit_ok [OF Suc.prems(1,2)] by blast
    have "(i + (k + 1)) mod LZ_N = Suc p mod LZ_N" using Suc.prems(7) by (metis Suc_eq_plus1 add.assoc mod_Suc_eq)
    then have "lz_copy writeByte i (k + 1) n (length (h @ [h ! p]) mod LZ_N) s1 = Inl (Array_Write MAX_UNCOMPRESSBUF_SIZE)"
      using Suc.prems(3,4,5,6) \<open>Suc (length h) - (LZ_N - LZ_F) \<le> MAX_UNCOMPRESSBUF_SIZE\<close>
      by (intro Suc.IH [OF s1(2,3)]) auto
    then show ?thesis using s1(1) byte by simp
  qed
qed

lemma decode_overflows:
  assumes "lz_ready s" and "length code < MAX_COMPRESSBUF_SIZE" and "take (length code) (compressBuf (lz_io s)) = code"
    and bits: "concat (map byte_bits code) = toks_bits (run_toks (LZ_N - LZ_F - 1) 2979) @ replicate 7 False"
    and "2979 \<le> fuel"
  shows "DoDecompress fuel (length code) s = Some (Inl (Array_Write MAX_UNCOMPRESSBUF_SIZE))"
proof -
  let ?s = "s\<lparr>lz_io := (lz_io s)\<lparr>inBytePos := 0, outBytePos := 0, maxInBytePos := length code\<rparr>\<rparr>"
  define q where "q = LZ_N - LZ_F - 1"
  let ?ts = "run_toks q 2978"
  define b where "b = compressBuf (lz_io s) ! length code"
  have "take (length code + 1) (compressBuf (lz_io s)) = code @ [b]"
    using assms(1,2,3) by (simp add: take_Suc_conv_app_nth b_def lz_ready_def)
  then have pend: "arr_pending (lz_io ?s) = code @ [b]" by (simp add: arr_pending_def)
  have toks: "run_toks q 2979 = ?ts @ [Copy (q + 33 * 2978) 33]"
  proof -
    have "(2979 :: nat) = Suc 2978" by simp
    then show ?thesis by (simp only: run_toks_Suc)
  qed
  define bs where "bs = replicate 7 False @ byte_bits b"
  have split: "concat (map byte_bits (code @ [b])) = toks_bits ?ts @ tok_bits (Copy (q + 33 * 2978) 33) @ bs"
    using bits unfolding bs_def q_def [symmetric] toks by simp
  have "in_repr (lz_clear ?s) (code @ [b]) (concat (map byte_bits (code @ [b])))"
    using assms(1) by (auto simp: in_repr_def lz_clear_def lz_ready_def intro!: exI [of _ 0])
  moreover have "arrays_ok (lz_io (lz_clear ?s))"
    using assms(1,2) by (simp add: arrays_ok_def lz_ready_def lz_clear_def)
  moreover have "arr_pending (lz_io (lz_clear ?s)) = code @ [b]" using pend by (simp add: lz_clear_def)
  ultimately have inp: "arrays.inp (lz_clear ?s) (toks_bits ?ts @ tok_bits (Copy (q + 33 * 2978) 33) @ bs)"
    by (simp only: arrays.inp_def split)
  have dec: "arrays.dec_ok (lz_clear ?s) lz_spaces"
    using assms(1) by (intro arrays.clear_ok) (simp_all add: arr_sent_def lz_ready_def)
  have "lz_spaces \<noteq> []" by (simp add: lz_spaces_def lz_consts)
  from run_toks_ok [OF this, of 2978] have ok: "toks_ok lz_spaces ?ts" "length (toks_text lz_spaces ?ts) = LZ_N - LZ_F + 33 * 2978"
    by (simp_all add: q_def)
  have size: "length (toks_text lz_spaces ?ts) - (LZ_N - LZ_F) \<le> MAX_UNCOMPRESSBUF_SIZE"
    using ok(2) by (simp add: MAX_UNCOMPRESSBUF_SIZE_def)
  obtain s1 where s1: "\<And>n. loop_fuel (lz_decode_turn readByte writeByte) (length ?ts + n) (length lz_spaces mod LZ_N, lz_clear ?s)
      = loop_fuel (lz_decode_turn readByte writeByte) n (length (toks_text lz_spaces ?ts) mod LZ_N, s1)"
    "arrays.inp s1 (tok_bits (Copy (q + 33 * 2978) 33) @ bs)" "arrays.dec_ok s1 (toks_text lz_spaces ?ts)"
    using arrays.decode_prefix [OF inp dec ok(1) size] by blast
  let ?h = "toks_text lz_spaces ?ts"
  obtain s2 where s2: "lz_decode_turn readByte writeByte (length ?h mod LZ_N, s1)
        = andThen (lz_copy writeByte ((q + 33 * 2978) mod LZ_N) 0 33 (length ?h mod LZ_N) s2) (\<lambda>t. Inr (Inl t))"
    "arrays.inp s2 bs" "arrays.in_frame s1 s2"
    using arrays.decode_turn_copy [OF s1(2)] by fastforce
  have "lz_copy writeByte ((q + 33 * 2978) mod LZ_N) 0 33 (length ?h mod LZ_N) s2 = Inl (Array_Write MAX_UNCOMPRESSBUF_SIZE)"
  proof (rule copy_overflows [where p = "q + 33 * 2978", OF s2(2) arrays.dec_ok_frame [OF s1(3) s2(3)]])
    show "MAX_UNCOMPRESSBUF_SIZE < length ?h + 33 - (LZ_N - LZ_F)" using ok(2) by (simp add: MAX_UNCOMPRESSBUF_SIZE_def)
  qed (use ok(2) size in \<open>simp_all add: q_def lz_consts\<close>)
  moreover obtain n where "fuel = length ?ts + Suc n"
    using assms(5) le_Suc_ex [of 2979 fuel] by (auto simp: run_toks_def)
  moreover have "length lz_spaces mod LZ_N = LZ_N - LZ_F" by (simp add: lz_consts)
  ultimately have "lz_decode readByte writeByte fuel ?s = Some (Inl (Array_Write MAX_UNCOMPRESSBUF_SIZE))"
    using s1(1) [of "Suc n"] s2(1) by (simp add: lz_decode_def)
  then show ?thesis by (simp add: DoDecompress_def)
qed

text \<open>The output array is not checked: there is a request whose decompression writes behind it.\<close>

theorem lz_request_overflows:
  "\<exists>inp. lz_request 3000 noret (lz_server_start inp ws) = Some (Inl (Array_Write MAX_UNCOMPRESSBUF_SIZE))"
proof -
  let ?bits = "toks_bits (run_toks (LZ_N - LZ_F - 1) 2979) @ replicate 7 False"
  have "length ?bits = 8 * 7076" by (simp add: length_run_bits)
  then obtain code where code: "concat (map byte_bits code) = ?bits" "length code = 7076"
    using bytes_of_bits by blast
  let ?sv = "lz_server_start ([1] @ le32 (of_nat (length code)) @ code) ws"
  let ?st = "sv_state ?sv"
  let ?st3 = "?st\<lparr>lz_io := (lz_io ?st)\<lparr>compressBuf := code @ drop (length code) (compressBuf (lz_io ?st))\<rparr>\<rparr>"
  have small: "length code < MAX_COMPRESSBUF_SIZE" by (simp add: code(2) MAX_COMPRESSBUF_SIZE_def)
  then have "lz_ready ?st3" by (simp add: lz_ready_def lz_server_start_def)
  then have dec: "DoDecompress 3000 (length code) ?st3 = Some (Inl (Array_Write MAX_UNCOMPRESSBUF_SIZE))"
    by (rule decode_overflows [OF _ small _ code(1)]) simp_all
  have len: "of_le32 (le32 (of_nat (length code))) = length code" by (intro of_le32_le32) (simp add: code(2))
  have r1: "readDataUntil 1 (sv_stdin ?sv) [] = (1, [1], le32 (of_nat (length code)) @ code)"
    using readDataUntil_all [of "[1]" 1 "le32 (of_nat (length code)) @ code" "[]"] by (simp add: lz_server_start_def)
  have r2: "readDataUntil 4 (le32 (of_nat (length code)) @ code) [] = (4, le32 (of_nat (length code)), code)"
    using readDataUntil_all [of "le32 (of_nat (length code))" 4 code "[]"] by simp
  have r3: "readDataUntil (length code) code [] = (int (length code), code, [])"
    using readDataUntil_all [of code "length code" "[]" "[]"] by simp
  have "code \<noteq> []" using code(2) by auto
  then have "lz_request 3000 noret ?sv = Some (Inl (Array_Write MAX_UNCOMPRESSBUF_SIZE))"
    using r1 r2 r3 len dec small by (simp add: lz_request_def Let_def)
  then show ?thesis by blast
qed

end
