(* ===== verification/Meps_Mmu.thy ===== *)
theory Meps_Mmu
  imports Prelude
begin

unbundle bit_operations_syntax

text \<open>
  The memory of the MIPS emulator of reeses_revenge (\<open>server/mmu.cpp\<close>, \<open>server/mmu.h\<close>): a table of 3072 pages
  of 4096 bytes between \<open>MMU_BASE_ADDRESS\<close> and \<open>MMU_MAX_ADDRESS\<close>, each absent or present with its type.
  A transfer goes page by page. The test of the page index admits one index too many, which is the fault
  \<open>Page_Table\<close>. Of the host addresses, those of mapped pages matter: they are drawn from a generator and a page is put there
  whatever stands there. When an address is drawn a second time the earlier page of the guest is replaced by zeros and the
  two share their bytes from then on; the model stops there, with \<open>Page_Shared\<close>. The mapping itself does not fail.
\<close>

subsection \<open>How the emulator stops\<close>

text \<open>
  \<open>doException\<close> prints and ends the process (\<open>Exception\<close>, with its code and the reported program counter),
  the exit call ends it (\<open>Exited\<close>) and so does the trap of the host (\<open>Divide_Trap\<close>). At the others the model stops and the
  program does not: \<open>Page_Shared\<close>, and four accesses outside of an object of the emulator itself, which are not defined.
\<close>

datatype mep_stop = Exception nat u32 | Exited | Page_Table nat | Jump_Table int | Stack_Overrun | Divide_Trap
  | File_Overread | Page_Shared nat

subsection \<open>Pages\<close>

definition PAGETABLE_SIZE :: nat where "PAGETABLE_SIZE = 4096"
definition MMU_BASE_ADDRESS :: u32 where "MMU_BASE_ADDRESS = 0x400000"
definition MMU_MAX_ADDRESS :: u32 where "MMU_MAX_ADDRESS = 0x1000000"

definition PAGE_COUNT_MAX :: nat where
  "PAGE_COUNT_MAX = unat (MMU_MAX_ADDRESS - MMU_BASE_ADDRESS) div PAGETABLE_SIZE"

lemma mmu_consts: "PAGETABLE_SIZE = 4096" "PAGE_COUNT_MAX = 3072"
  by (simp_all add: PAGETABLE_SIZE_def PAGE_COUNT_MAX_def MMU_MAX_ADDRESS_def MMU_BASE_ADDRESS_def)

datatype page_type = PAGE_TYPE_ALLOC | PAGE_TYPE_MMAP

record mmu_page =
  pageData :: "u8 list"
  pageType :: page_type

text \<open>\<open>m_hosts\<close>: what was drawn for the addresses of the mapped pages, which the pointers in the table hold.\<close>

record mmu =
  m_baseAddress :: u32
  m_pages :: "mmu_page option list"
  m_hosts :: "u32 list"

definition mmu_new :: mmu where
  "mmu_new = \<lparr>m_baseAddress = 0, m_pages = replicate PAGE_COUNT_MAX None, m_hosts = []\<rparr>"

definition page_count :: "u32 \<Rightarrow> nat" where
  "page_count sz =
     (if unat sz mod PAGETABLE_SIZE \<noteq> 0 then unat sz div PAGETABLE_SIZE + 1 else unat sz div PAGETABLE_SIZE)"

definition page_zero :: "page_type \<Rightarrow> mmu_page" where
  "page_zero ty = \<lparr>pageData = replicate PAGETABLE_SIZE 0, pageType = ty\<rparr>"

text \<open>
  \<open>AddMMAPRegion\<close>: the pages from \<open>i\<close> on, stopping at the first one present. Each takes one number of the generator for its
  host address; \<open>vs\<close> are the numbers that it will give, one for each page of the region. The third result counts the pages
  mapped.
\<close>

fun add_pages :: "nat \<Rightarrow> u32 list \<Rightarrow> mmu \<Rightarrow> nat \<Rightarrow> mep_stop + (bool \<times> mmu \<times> nat)" where
  "add_pages i [] m k = Inr (True, m, k)"
| "add_pages i (v # vs) m k =
     (if i \<ge> length (m_pages m) then Inl (Page_Table i)
      else if m_pages m ! i \<noteq> None then Inr (False, m, k)
      else if v \<in> set (m_hosts m) then Inl (Page_Shared i)
      else add_pages (i + 1) vs
        (m\<lparr>m_pages := (m_pages m)[i := Some (page_zero PAGE_TYPE_MMAP)], m_hosts := v # m_hosts m\<rparr>) (k + 1))"

definition AddMMAPRegion :: "u32 \<Rightarrow> u32 \<Rightarrow> u32 list \<Rightarrow> mmu \<Rightarrow> mep_stop + (bool \<times> mmu \<times> nat)" where
  "AddMMAPRegion startAddress len vs m =
     (if startAddress \<ge> MMU_MAX_ADDRESS \<or> startAddress + len > MMU_MAX_ADDRESS \<or> startAddress < MMU_BASE_ADDRESS
      then Inr (False, m, 0)
      else add_pages (unat (startAddress - MMU_BASE_ADDRESS) div PAGETABLE_SIZE) vs m 0)"

text \<open>\<open>Setup\<close>: its loop runs to the page count, not to the start page plus the page count.\<close>

definition mmu_Setup :: "u32 \<Rightarrow> u32 \<Rightarrow> mmu \<Rightarrow> bool \<times> mmu" where
  "mmu_Setup startAddress endAddress m =
     (if startAddress \<ge> endAddress \<or> startAddress \<ge> MMU_MAX_ADDRESS \<or> endAddress > MMU_MAX_ADDRESS
         \<or> startAddress < MMU_BASE_ADDRESS
      then (False, m)
      else
        let pageCount = page_count (endAddress - startAddress);
            first = unat (startAddress - MMU_BASE_ADDRESS) div PAGETABLE_SIZE
        in (True, \<lparr>m_baseAddress = startAddress,
             m_pages = map (\<lambda>i. if first \<le> i \<and> i < pageCount then Some (page_zero PAGE_TYPE_ALLOC) else m_pages m ! i)
               [0..<length (m_pages m)], m_hosts = m_hosts m\<rparr>))"

subsection \<open>Transfers\<close>

definition page_write :: "nat \<Rightarrow> u8 list \<Rightarrow> mmu_page \<Rightarrow> mmu_page" where
  "page_write offs data p = p\<lparr>pageData := take offs (pageData p) @ data @ drop (offs + length data) (pageData p)\<rparr>"

function WriteMemory :: "u32 \<Rightarrow> u8 list \<Rightarrow> mmu \<Rightarrow> mep_stop + (bool \<times> mmu)" where
  "WriteMemory address data m =
     (if data = [] \<or> address < m_baseAddress m then Inr (False, m)
      else
        let pageTableIdx = unat (address - m_baseAddress m) div PAGETABLE_SIZE in
        if pageTableIdx > PAGE_COUNT_MAX then Inr (False, m)
        else if pageTableIdx \<ge> length (m_pages m) then Inl (Page_Table pageTableIdx)
        else
          let pageTableOffs = unat address mod PAGETABLE_SIZE;
              n = min (length data) (PAGETABLE_SIZE - pageTableOffs) in
          case m_pages m ! pageTableIdx of None \<Rightarrow> Inr (False, m)
          | Some p \<Rightarrow>
              let m' = m\<lparr>m_pages := (m_pages m)[pageTableIdx := Some (page_write pageTableOffs (take n data) p)]\<rparr> in
              if n = length data then Inr (True, m') else WriteMemory (address + of_nat n) (drop n data) m')"
  by pat_completeness auto
termination
  by (relation "measure (\<lambda>(address, data, m). length data)") (auto simp: mmu_consts min_def)

declare WriteMemory.simps [simp del]

text \<open>\<open>ReadMemory\<close>: the bytes, or \<open>None\<close> where it returns false; the buffer is not used then.\<close>

function ReadMemory :: "u32 \<Rightarrow> nat \<Rightarrow> mmu \<Rightarrow> mep_stop + u8 list option" where
  "ReadMemory address len m =
     (if len = 0 \<or> address < m_baseAddress m then Inr None
      else
        let pageTableIdx = unat (address - m_baseAddress m) div PAGETABLE_SIZE in
        if pageTableIdx > PAGE_COUNT_MAX then Inr None
        else if pageTableIdx \<ge> length (m_pages m) then Inl (Page_Table pageTableIdx)
        else
          let pageTableOffs = unat address mod PAGETABLE_SIZE;
              n = min len (PAGETABLE_SIZE - pageTableOffs) in
          case m_pages m ! pageTableIdx of None \<Rightarrow> Inr None
          | Some p \<Rightarrow>
              let bs = take n (drop pageTableOffs (pageData p)) in
              if n = len then Inr (Some bs)
              else andThen (ReadMemory (address + of_nat n) (len - n) m)
                     (\<lambda>r. Inr (map_option (\<lambda>cs. bs @ cs) r)))"
  by pat_completeness auto
termination
  by (relation "measure (\<lambda>(address, len, m). len)") (auto simp: mmu_consts min_def)

declare ReadMemory.simps [simp del]

end
