(* ===== verification/Meps_Mem.thy ===== *)
theory Meps_Mem
  imports Meps_Mmu
begin

text \<open>
  The memory of the MIPS emulator as a partial function from addresses to bytes: \<open>ReadMemory\<close> reads it and
  \<open>WriteMemory\<close> updates it, whatever pages a transfer spans.
\<close>

definition mmu_ok :: "mmu \<Rightarrow> bool" where
  "mmu_ok m \<longleftrightarrow> length (m_pages m) = PAGE_COUNT_MAX \<and> (\<forall>p. Some p \<in> set (m_pages m) \<longrightarrow> length (pageData p) = PAGETABLE_SIZE)
     \<and> unat (m_baseAddress m) mod PAGETABLE_SIZE = 0 \<and> m_baseAddress m \<le> MMU_MAX_ADDRESS"

definition mem_at :: "mmu \<Rightarrow> nat \<Rightarrow> u8 option" where
  "mem_at m a =
     (let offs = a - unat (m_baseAddress m); idx = offs div PAGETABLE_SIZE in
      if a < unat (m_baseAddress m) \<or> idx \<ge> length (m_pages m) then None
      else map_option (\<lambda>p. pageData p ! (offs mod PAGETABLE_SIZE)) (m_pages m ! idx))"

definition page_of :: "u32 \<Rightarrow> mmu \<Rightarrow> nat" where
  "page_of address m = unat (address - m_baseAddress m) div PAGETABLE_SIZE"

definition chunk :: "u32 \<Rightarrow> nat \<Rightarrow> nat" where
  "chunk address n = min n (PAGETABLE_SIZE - unat address mod PAGETABLE_SIZE)"

lemma mmu_okD:
  assumes "mmu_ok m"
  shows "length (m_pages m) = 3072" "unat (m_baseAddress m) mod 4096 = 0" "unat (m_baseAddress m) \<le> 0x1000000"
    "i < 3072 \<Longrightarrow> m_pages m ! i = Some p \<Longrightarrow> length (pageData p) = 4096"
  using assms by (auto simp: mmu_ok_def mmu_consts MMU_MAX_ADDRESS_def word_le_nat_alt) (metis nth_mem)

lemma chunk_bounds: "chunk address n \<le> n" "unat address mod 4096 + chunk address n \<le> 4096" "0 < n \<Longrightarrow> 0 < chunk address n"
  by (auto simp: chunk_def mmu_consts min_def)

lemma page_of_nat:
  assumes "m_baseAddress m \<le> address"
  shows "page_of address m = (unat address - unat (m_baseAddress m)) div 4096"
  using assms by (simp add: page_of_def mmu_consts unat_sub)

lemma block_div_mod:
  fixes a b i :: nat
  assumes "b \<le> a" "b mod 4096 = 0" "a mod 4096 + i < 4096"
  shows "(a + i - b) div 4096 = (a - b) div 4096" "(a + i - b) mod 4096 = a mod 4096 + i"
proof -
  obtain k where b: "b = 4096 * k" using assms(2) by (metis mod_0_imp_dvd dvdE)
  obtain q r where a: "a = 4096 * q + r" "r < 4096"
    using that [of "a div 4096" "a mod 4096"] by simp
  have "k \<le> q" using assms(1) a b by simp
  then obtain d where d: "q = k + d" using le_Suc_ex by blast
  have "r + i < 4096" using assms(3) a by simp
  moreover have "a + i - b = 4096 * d + (r + i)" "a - b = 4096 * d + r" using a b d by simp_all
  ultimately show "(a + i - b) div 4096 = (a - b) div 4096" "(a + i - b) mod 4096 = a mod 4096 + i"
    using a by simp_all
qed

lemma mem_at_chunk:
  assumes "mmu_ok m" "m_baseAddress m \<le> address" "i < chunk address n"
  shows "mem_at m (unat address + i) =
    (if page_of address m < 3072
     then map_option (\<lambda>p. pageData p ! (unat address mod 4096 + i)) (m_pages m ! page_of address m) else None)"
proof -
  have "unat (m_baseAddress m) \<le> unat address" using assms(2) by (simp add: word_le_nat_alt)
  moreover have "unat address mod 4096 + i < 4096" using assms(3) chunk_bounds(2) [of address n] by linarith
  ultimately show ?thesis
    using mmu_okD [OF assms(1)] block_div_mod [of "unat (m_baseAddress m)" "unat address" i] page_of_nat [OF assms(2)]
    by (auto simp: mem_at_def mmu_consts Let_def)
qed

lemma next_address:
  assumes "mmu_ok m" "m_baseAddress m \<le> address" "page_of address m < 3072"
  shows "unat (address + of_nat (chunk address n)) = unat address + chunk address n"
    "m_baseAddress m \<le> address + of_nat (chunk address n)"
proof -
  have "(unat address - unat (m_baseAddress m)) div 4096 < 3072"
    using assms page_of_nat by simp
  then have "unat address < 0x1000000 + 3072 * 4096"
    using mmu_okD(3) [OF assms(1)] by linarith
  moreover have "chunk address n \<le> 4096" by (simp add: chunk_def mmu_consts)
  ultimately have "unat address + unat (of_nat (chunk address n) :: u32) < 2 ^ LENGTH(32)"
      "unat (of_nat (chunk address n) :: u32) = chunk address n"
    by (simp_all add: unat_of_nat)
  then show eq: "unat (address + of_nat (chunk address n)) = unat address + chunk address n"
    by (simp add: unat_add_lem [THEN iffD1])
  show "m_baseAddress m \<le> address + of_nat (chunk address n)"
    using eq assms(2) by (simp add: word_le_nat_alt)
qed

subsection \<open>Reading\<close>

definition mem_list :: "mmu \<Rightarrow> nat \<Rightarrow> nat \<Rightarrow> u8 option list" where
  "mem_list m a n = map (mem_at m) [a..<a + n]"

lemma mem_list_add: "mem_list m a (j + k) = mem_list m a j @ mem_list m (a + j) k"
  using upt_add_eq_append [of a "a + j" k] by (simp add: mem_list_def add.assoc)

lemma those_append: "those (xs @ ys) = (case those xs of None \<Rightarrow> None | Some us \<Rightarrow> map_option ((@) us) (those ys))"
  by (induction xs; cases "those ys") (auto split: option.splits)

lemma those_map_Some: "those (map Some xs) = Some xs"
  by (induction xs) auto

lemma those_None: "x = None \<Longrightarrow> x \<in> set xs \<Longrightarrow> those xs = None"
  by (induction xs) (auto split: option.splits)

lemma mem_list_chunk:
  assumes "mmu_ok m" "m_baseAddress m \<le> address" "page_of address m < 3072" "m_pages m ! page_of address m = Some p"
  shows "mem_list m (unat address) (chunk address n) =
    map Some (take (chunk address n) (drop (unat address mod 4096) (pageData p)))"
proof (rule nth_equalityI)
  have "length (pageData p) = 4096" using mmu_okD(4) assms by blast
  then show "length (mem_list m (unat address) (chunk address n)) =
      length (map Some (take (chunk address n) (drop (unat address mod 4096) (pageData p))))"
    using chunk_bounds(2) [of address n] by (simp add: mem_list_def)
  fix i assume "i < length (mem_list m (unat address) (chunk address n))"
  then have "i < chunk address n" by (simp add: mem_list_def)
  then show "mem_list m (unat address) (chunk address n) ! i =
      map Some (take (chunk address n) (drop (unat address mod 4096) (pageData p))) ! i"
    using mem_at_chunk [OF assms(1,2)] assms(3,4) \<open>length (pageData p) = 4096\<close> chunk_bounds(2) [of address n]
    by (simp add: mem_list_def)
qed

lemma mem_list_hole:
  assumes "mmu_ok m" "0 < n"
    "address < m_baseAddress m \<or> page_of address m \<ge> 3072 \<or> m_pages m ! page_of address m = None"
  shows "those (mem_list m (unat address) n) = None"
proof -
  have "mem_at m (unat address) = None"
  proof (cases "address < m_baseAddress m")
    case True
    then show ?thesis by (simp add: mem_at_def word_less_nat_alt)
  next
    case False
    then show ?thesis
      using assms mem_at_chunk [OF assms(1), of address 0 n] chunk_bounds(3) [OF assms(2), of address] by auto
  qed
  moreover have "unat address \<in> set [unat address..<unat address + n]" using assms(2) by simp
  ultimately have "None \<in> set (mem_list m (unat address) n)"
    unfolding mem_list_def by (metis image_eqI list.set_map)
  then show ?thesis by (rule those_None [OF refl])
qed

lemma ReadMemory_step:
  "ReadMemory address len m =
     (if len = 0 \<or> address < m_baseAddress m \<or> page_of address m > 3072 then Inr None
      else if page_of address m \<ge> length (m_pages m) then Inl (Page_Table (page_of address m))
      else case m_pages m ! page_of address m of None \<Rightarrow> Inr None
      | Some p \<Rightarrow>
          let k = chunk address len; bs = take k (drop (unat address mod 4096) (pageData p)) in
          if k = len then Inr (Some bs)
          else andThen (ReadMemory (address + of_nat k) (len - k) m) (\<lambda>r. Inr (map_option ((@) bs) r)))"
  by (subst ReadMemory.simps) (simp add: page_of_def chunk_def mmu_consts Let_def split: option.splits)

theorem ReadMemory_reads:
  assumes "mmu_ok m"
  shows "ReadMemory address n m = Inl (Page_Table 3072) \<and> those (mem_list m (unat address) n) = None
    \<or> ReadMemory address n m = Inr (if n = 0 then None else those (mem_list m (unat address) n))"
proof (induction n arbitrary: address rule: less_induct)
  case (less n)
  let ?i = "page_of address m" and ?k = "chunk address n"
  show ?case
  proof (cases "n = 0 \<or> address < m_baseAddress m \<or> ?i \<ge> 3072 \<or> m_pages m ! ?i = None")
    case True
    then show ?thesis
      using mem_list_hole [OF assms] mmu_okD(1) [OF assms]
      by (subst (1 2) ReadMemory_step) (auto split: option.splits)
  next
    case False
    then obtain p where p: "n > 0" "m_baseAddress m \<le> address" "?i < 3072" "m_pages m ! ?i = Some p"
      by auto
    let ?bs = "take ?k (drop (unat address mod 4096) (pageData p))"
    note nx = next_address [OF assms p(2,3), of n]
    have split: "mem_list m (unat address) n = map Some ?bs @ mem_list m (unat address + ?k) (n - ?k)"
      using mem_list_add [of m "unat address" ?k "n - ?k"] mem_list_chunk [OF assms p(2-4), of n] chunk_bounds(1) [of address n]
      by simp
    show ?thesis
    proof (cases "?k = n")
      case True
      then show ?thesis using p split mmu_okD(1) [OF assms]
        by (subst (1 2) ReadMemory_step) (simp add: Let_def mem_list_def those_map_Some)
    next
      case neq: False
      then have "n - ?k < n" "n - ?k \<noteq> 0" using chunk_bounds(1) [of address n] chunk_bounds(3) [OF p(1), of address] p(1) by auto
      from less.IH [OF this(1), of "address + of_nat ?k"] this(2) show ?thesis
        using p split neq mmu_okD(1) [OF assms] nx
        by (subst (1 2) ReadMemory_step) (auto simp: Let_def those_append those_map_Some)
    qed
  qed
qed

subsection \<open>Writing\<close>

definition mem_put :: "(nat \<Rightarrow> u8 option) \<Rightarrow> nat \<Rightarrow> u8 list \<Rightarrow> nat \<Rightarrow> u8 option" where
  "mem_put f a data = (\<lambda>x. if a \<le> x \<and> x < a + length data then Some (data ! (x - a)) else f x)"

lemma mem_put_Nil: "mem_put f a [] = f"
  by (rule ext) (auto simp: mem_put_def)

lemma mem_put_append: "mem_put (mem_put f a xs) (a + length xs) ys = mem_put f a (xs @ ys)"
  by (rule ext) (auto simp: mem_put_def nth_append)

lemma mem_put_outside: "x < a \<or> a + length data \<le> x \<Longrightarrow> mem_put f a data x = f x"
  by (auto simp: mem_put_def)

lemma page_write_nth:
  assumes "offs + length data \<le> length (pageData p)" "r < length (pageData p)"
  shows "length (pageData (page_write offs data p)) = length (pageData p)"
    "pageData (page_write offs data p) ! r = (if offs \<le> r \<and> r < offs + length data then data ! (r - offs) else pageData p ! r)"
  using assms by (auto simp: page_write_def nth_append)

lemma mem_at_page: "mmu_ok m \<Longrightarrow>
    mem_at m x = (if x < unat (m_baseAddress m) \<or> (x - unat (m_baseAddress m)) div 4096 \<ge> 3072 then None
      else map_option (\<lambda>p. pageData p ! ((x - unat (m_baseAddress m)) mod 4096))
        (m_pages m ! ((x - unat (m_baseAddress m)) div 4096)))"
  by (auto simp: mem_at_def mmu_consts Let_def mmu_okD)

definition write_page :: "u32 \<Rightarrow> u8 list \<Rightarrow> mmu_page \<Rightarrow> mmu \<Rightarrow> mmu" where
  "write_page address data p m =
     m\<lparr>m_pages := (m_pages m)[page_of address m := Some (page_write (unat address mod 4096) data p)]\<rparr>"

lemma write_page_ok:
  assumes m: "mmu_ok m" "m_baseAddress m \<le> address" "page_of address m < 3072" "m_pages m ! page_of address m = Some p"
    and len: "unat address mod 4096 + length data \<le> 4096"
  shows "mmu_ok (write_page address data p m)"
    "mem_at (write_page address data p m) = mem_put (mem_at m) (unat address) data"
proof -
  let ?b = "unat (m_baseAddress m)" and ?o = "unat address mod 4096" and ?i = "page_of address m"
  have p: "length (pageData p) = 4096" using mmu_okD(4) m by blast
  have lenp: "length (pageData (page_write ?o data p)) = 4096"
    using page_write_nth(1) [of ?o data p 0] p len by simp
  have "Some q \<in> set (m_pages (write_page address data p m)) \<Longrightarrow> length (pageData q) = 4096" for q
    using m(1) lenp by (auto simp: write_page_def mmu_ok_def mmu_consts dest!: set_update_subset_insert [THEN subsetD])
  then show ok: "mmu_ok (write_page address data p m)"
    using m(1) by (auto simp: mmu_ok_def write_page_def mmu_consts)
  have base: "m_baseAddress (write_page address data p m) = m_baseAddress m" by (simp add: write_page_def)
  have le: "?b \<le> unat address" using m(2) by (simp add: word_le_nat_alt)
  have a: "unat address - ?b = 4096 * ?i + ?o"
    using block_div_mod [OF le mmu_okD(2) [OF m(1)], of 0] page_of_nat [OF m(2)] div_mult_mod_eq [of "unat address - ?b" 4096]
    by simp
  show "mem_at (write_page address data p m) = mem_put (mem_at m) (unat address) data"
  proof
    fix x
    show "mem_at (write_page address data p m) x = mem_put (mem_at m) (unat address) data x"
    proof (cases "?b \<le> x \<and> (x - ?b) div 4096 = ?i")
      case True
      then obtain r where r: "r < 4096" "x - ?b = 4096 * ?i + r" "(x - ?b) mod 4096 = r"
        using div_mult_mod_eq [of "x - ?b" 4096] by (metis mod_less_divisor mult.commute zero_less_numeral)
      have "unat address \<le> x \<longleftrightarrow> ?o \<le> r" "x < unat address + length data \<longleftrightarrow> r < ?o + length data"
          "x - unat address = r - ?o"
        using r a True le by linarith+
      then show ?thesis
        using True r m(3,4) page_write_nth(2) [of ?o data p r] p len mmu_okD(1) [OF m(1)]
        by (simp add: mem_at_page [OF ok] mem_at_page [OF m(1)] base mem_put_def) (simp add: write_page_def)
    next
      case False
      then have "x < unat address \<or> unat address + length data \<le> x"
      proof (rule contrapos_np)
        assume "\<not> (x < unat address \<or> unat address + length data \<le> x)"
        then have "?b \<le> x" "x - ?b = 4096 * ?i + (x - unat address + ?o)" "x - unat address + ?o < 4096"
          using a le len by linarith+
        then show "?b \<le> x \<and> (x - ?b) div 4096 = ?i" by simp
      qed
      then have "mem_put (mem_at m) (unat address) data x = mem_at m x" by (rule mem_put_outside)
      then show ?thesis using False
        by (auto simp: mem_at_page [OF ok] mem_at_page [OF m(1)] base) (auto simp: write_page_def nth_list_update)
    qed
  qed
qed

lemma WriteMemory_step:
  "WriteMemory address data m =
     (if data = [] \<or> address < m_baseAddress m \<or> page_of address m > 3072 then Inr (False, m)
      else if page_of address m \<ge> length (m_pages m) then Inl (Page_Table (page_of address m))
      else case m_pages m ! page_of address m of None \<Rightarrow> Inr (False, m)
      | Some p \<Rightarrow>
          let k = chunk address (length data); m' = write_page address (take k data) p m in
          if k = length data then Inr (True, m') else WriteMemory (address + of_nat k) (drop k data) m')"
  by (subst WriteMemory.simps) (simp add: page_of_def chunk_def mmu_consts write_page_def Let_def split: option.splits)

lemma mem_list_put: "a' + n \<le> a \<or> a + length data \<le> a' \<Longrightarrow> map (mem_put f a data) [a'..<a' + n] = map f [a'..<a' + n]"
  by (rule map_cong) (auto intro: mem_put_outside)

text \<open>A transfer that fails may have written its first pages.\<close>

theorem WriteMemory_writes:
  assumes "mmu_ok m"
  shows "WriteMemory address data m = Inl (Page_Table 3072) \<and> those (mem_list m (unat address) (length data)) = None
    \<or> (\<exists>fin k m'. WriteMemory address data m = Inr (fin, m') \<and> mmu_ok m' \<and> m_baseAddress m' = m_baseAddress m
        \<and> fin = (data \<noteq> [] \<and> those (mem_list m (unat address) (length data)) \<noteq> None)
        \<and> mem_at m' = mem_put (mem_at m) (unat address) (take k data) \<and> (fin \<longrightarrow> k = length data)
        \<and> those (mem_list m (unat address) k) \<noteq> None)"
  using assms
proof (induction "length data" arbitrary: address data m rule: less_induct)
  case less
  let ?i = "page_of address m" and ?k = "chunk address (length data)" and ?a = "unat address"
  show ?case
  proof (cases "data = [] \<or> address < m_baseAddress m \<or> ?i \<ge> 3072 \<or> m_pages m ! ?i = None")
    case True
    have "mem_put (mem_at m) ?a (take 0 data) = mem_at m" "mem_list m ?a 0 = []"
      by (simp_all add: mem_put_Nil mem_list_def)
    moreover have "data = [] \<or> those (mem_list m ?a (length data)) = None"
      using True mem_list_hole [OF less.prems, of "length data" address] by (cases "data = []") simp_all
    ultimately show ?thesis
      using True mmu_okD(1) [OF less.prems] less.prems
      by (subst (1 2) WriteMemory_step) (auto split: option.splits intro!: exI [of _ 0])
  next
    case False
    then obtain p where p: "data \<noteq> []" "m_baseAddress m \<le> address" "?i < 3072" "m_pages m ! ?i = Some p" by auto
    let ?d = "take ?k data"
    let ?m = "write_page address ?d p m"
    have k: "?k \<le> length data" "0 < ?k" "length ?d = ?k"
      using chunk_bounds(1) [of address "length data"] chunk_bounds(3) [of "length data" address] p(1) by auto
    note w = write_page_ok [OF less.prems p(2-4), of ?d]
    have ok: "mmu_ok ?m" "mem_at ?m = mem_put (mem_at m) ?a ?d"
      using w k chunk_bounds(2) [of address "length data"] by auto
    have base: "m_baseAddress ?m = m_baseAddress m" by (simp add: write_page_def)
    have step: "WriteMemory address data m =
        (if ?k = length data then Inr (True, ?m) else WriteMemory (address + of_nat ?k) (drop ?k data) ?m)"
      using p mmu_okD(1) [OF less.prems] by (subst WriteMemory_step) (auto simp: Let_def)
    have head: "those (mem_list m ?a ?k) \<noteq> None"
      using mem_list_chunk [OF less.prems p(2-4), of "length data"] by (simp add: those_map_Some)
    show ?thesis
    proof (cases "?k = length data")
      case True
      then have "WriteMemory address data m = Inr (True, ?m)" "those (mem_list m ?a (length data)) \<noteq> None"
        "mem_at ?m = mem_put (mem_at m) ?a (take (length data) data)"
        using step head ok(2) by simp_all
      then show ?thesis using ok(1) base p(1)
        by (intro disjI2 exI [of _ True] exI [of _ "length data"] exI [of _ ?m]) simp
    next
      case neq: False
      note nx = next_address [OF less.prems p(2,3), of "length data"]
      let ?addr = "address + of_nat ?k"
      have rest: "mem_list ?m (unat ?addr) j = mem_list m (?a + ?k) j" for j
        using mem_list_put [of "?a + ?k" j ?a ?d "mem_at m"] k(3) nx ok by (simp add: mem_list_def)
      have tail: "those (mem_list m ?a (?k + j)) = None \<longleftrightarrow> those (mem_list m (?a + ?k) j) = None" for j
        using head by (auto simp: mem_list_add those_append split: option.splits)
      have all: "?k + length (drop ?k data) = length data" using k by simp
      have put: "mem_put (mem_at ?m) (unat ?addr) (take j (drop ?k data)) = mem_put (mem_at m) ?a (take (?k + j) data)" for j
        using mem_put_append [of "mem_at m" ?a ?d] k(3) nx ok by (simp add: take_add)
      have "length (drop ?k data) < length data" using k by simp
      from less.hyps [OF this ok(1), of ?addr] show ?thesis
      proof (elim disjE exE conjE)
        assume "WriteMemory ?addr (drop ?k data) ?m = Inl (Page_Table 3072)"
          "those (mem_list ?m (unat ?addr) (length (drop ?k data))) = None"
        then show ?thesis using step neq tail [of "length (drop ?k data)"] all rest by simp
      next
        fix fin j m'
        assume r: "WriteMemory ?addr (drop ?k data) ?m = Inr (fin, m')" "mmu_ok m'" "m_baseAddress m' = m_baseAddress ?m"
          "fin = (drop ?k data \<noteq> [] \<and> those (mem_list ?m (unat ?addr) (length (drop ?k data))) \<noteq> None)"
          "mem_at m' = mem_put (mem_at ?m) (unat ?addr) (take j (drop ?k data))" "fin \<longrightarrow> j = length (drop ?k data)"
          "those (mem_list ?m (unat ?addr) j) \<noteq> None"
        have "fin = (data \<noteq> [] \<and> those (mem_list m ?a (length data)) \<noteq> None)"
          using r(4) tail [of "length (drop ?k data)"] all rest neq k(1) p(1) by auto
        moreover have "fin \<longrightarrow> ?k + j = length data" using r(6) all by simp
        moreover have "those (mem_list m ?a (?k + j)) \<noteq> None" using r(7) rest tail by simp
        ultimately show ?thesis
          using step neq r(1-3) r(5) put base by (intro disjI2 exI [of _ "fin"] exI [of _ "?k + j"] exI [of _ m']) simp
      qed
    qed
  qed
qed

end
