(* ===== verification/Meps_Cpu.thy ===== *)
theory Meps_Cpu
  imports Meps_Mmu "HOL-Library.Signed_Division"
begin

unbundle bit_operations_syntax

text \<open>
  The processor of the MIPS emulator (\<open>server/cpu.cpp\<close>, \<open>server/cpu.h\<close>): its state and the instructions, one
  definition for each \<open>_emulate\<close> method, with the name of the method. The coprocessor and the system
  calls are in \<open>Meps_Sys\<close>, the dispatch and the step in \<open>Meps_Step\<close>.

  \<open>doException\<close> leaves the process for every code of its table, so \<open>m_exceptionPending\<close> is never set and the
  tests of it are dropped; \<open>m_instr\<close> and \<open>m_lastEpc\<close> are never read and left out. Signed arithmetic wraps, as the
  code relies on.
\<close>

subsection \<open>State\<close>

text \<open>What the host gives: the results of \<open>read\<close>, \<open>write\<close> and \<open>time\<close>, in order.\<close>

datatype host_read = Read_Bytes "u8 list" | Read_Error u32
datatype host_write = Write_Count nat | Write_Error u32
datatype mep_out = Out_Bytes "u8 list" | Out_Unknown_Exception u32 | Out_Text string

record mep =
  m_mmu :: mmu
  m_regs :: "u32 list"
  m_pc :: u32
  m_hi :: u32
  m_lo :: u32
  m_nextEpc :: u32
  m_errnoAddress :: u32
  m_optBigendian :: bool
  m_instrCount :: u32
  m_delayState :: nat
  m_delayPC :: u32
  m_state :: "u32 list"
  prng_state :: "u32 list"
  state_n :: nat
  g_oMMAPTable :: "(u32 \<times> u32) list"
  host_reads :: "host_read list"
  host_writes :: "host_write list"
  host_times :: "u32 list"
  mep_outs :: "mep_out list"

text \<open>An instruction gives the next state, or the way the emulator stopped and the state it stopped in.\<close>

type_synonym mep_res = "mep_stop \<times> mep + mep"

definition in_state :: "mep \<Rightarrow> mep_stop + 'a \<Rightarrow> mep_stop \<times> mep + 'a" where
  "in_state s r = map_sum (\<lambda>e. (e, s)) id r"

abbreviation (input) DELAYSTATE_NORMAL :: nat where "DELAYSTATE_NORMAL \<equiv> 0"
abbreviation (input) DELAYSTATE_DELAYING :: nat where "DELAYSTATE_DELAYING \<equiv> 1"
abbreviation (input) DELAYSTATE_DELAYSLOT :: nat where "DELAYSTATE_DELAYSLOT \<equiv> 2"

definition cpu_reset :: "mep \<Rightarrow> mep" where
  "cpu_reset s = s\<lparr>m_regs := replicate 32 0, m_pc := 0, m_hi := 0, m_lo := 0, m_nextEpc := 0,
     m_delayState := DELAYSTATE_NORMAL, m_delayPC := 0, m_instrCount := 0\<rparr>"

definition cpu_setup :: "u32 \<Rightarrow> bool \<Rightarrow> u32 \<Rightarrow> mep \<Rightarrow> mep" where
  "cpu_setup errnoAddress bigEndian startPC s =
     (cpu_reset s)\<lparr>m_errnoAddress := errnoAddress, m_optBigendian := bigEndian, m_pc := startPC\<rparr>"

definition setRegisterAndPC :: "nat \<Rightarrow> u32 \<Rightarrow> mep \<Rightarrow> bool \<times> mep" where
  "setRegisterAndPC regNum value s =
     (if regNum = 32 then (True, s\<lparr>m_pc := value\<rparr>)
      else if regNum < 32 then (True, s\<lparr>m_regs := (m_regs s)[regNum := value]\<rparr>)
      else (False, s))"

subsection \<open>Instruction fields\<close>

definition opcode :: "u32 \<Rightarrow> nat" where "opcode i = unat (drop_bit 26 i AND 0x3f)"
definition i_rs :: "u32 \<Rightarrow> nat" where "i_rs i = unat (drop_bit 21 i AND 0x1f)"
definition i_rt :: "u32 \<Rightarrow> nat" where "i_rt i = unat (drop_bit 16 i AND 0x1f)"
definition i_rd :: "u32 \<Rightarrow> nat" where "i_rd i = unat (drop_bit 11 i AND 0x1f)"
definition immed :: "u32 \<Rightarrow> u32" where "immed i = i AND 0xffff"
definition s_immed :: "u32 \<Rightarrow> u32" where "s_immed i = scast (ucast (i AND 0xffff) :: u16)"
definition shamt :: "u32 \<Rightarrow> nat" where "shamt i = unat (drop_bit 6 i AND 0x1f)"
definition funct :: "u32 \<Rightarrow> nat" where "funct i = unat (i AND 0x3f)"
definition jumptarg :: "u32 \<Rightarrow> u32" where "jumptarg i = i AND 0x3ffffff"

definition getReg :: "nat \<Rightarrow> mep \<Rightarrow> u32" where "getReg r s = m_regs s ! r"
definition setReg :: "nat \<Rightarrow> u32 \<Rightarrow> mep \<Rightarrow> mep" where "setReg r v s = s\<lparr>m_regs := (m_regs s)[r := v]\<rparr>"

abbreviation (input) reg_rs :: "u32 \<Rightarrow> mep \<Rightarrow> u32" where "reg_rs i s \<equiv> getReg (i_rs i) s"
abbreviation (input) reg_rt :: "u32 \<Rightarrow> mep \<Rightarrow> u32" where "reg_rt i s \<equiv> getReg (i_rt i) s"

subsection \<open>Exceptions\<close>

definition EXCEPTION_AdEL :: nat where "EXCEPTION_AdEL = 4"
definition EXCEPTION_AdES :: nat where "EXCEPTION_AdES = 5"
definition EXCEPTION_Bp :: nat where "EXCEPTION_Bp = 9"
definition EXCEPTION_RI :: nat where "EXCEPTION_RI = 10"
definition EXCEPTION_CpU :: nat where "EXCEPTION_CpU = 11"
definition EXCEPTION_Ov :: nat where "EXCEPTION_Ov = 12"
definition EXCEPTION_MAXINSTR :: nat where "EXCEPTION_MAXINSTR = 25"
definition EXCEPTION_HSC :: nat where "EXCEPTION_HSC = 26"

definition oExceptionNameTable :: "nat list" where
  "oExceptionNameTable = [0, 1, 2, 3, 4, 5, 6, 7, 8, 9, 10, 11, 12, 13, 14, 15, 18, 22, 23, 24, 25, 26, 30]"

definition doException :: "nat \<Rightarrow> mep \<Rightarrow> mep_res" where
  "doException excCode s =
     (if excCode \<in> set oExceptionNameTable then Inl (Exception excCode (m_nextEpc s), s)
      else Inr (s\<lparr>mep_outs := mep_outs s @ [Out_Unknown_Exception (m_nextEpc s)]\<rparr>))"

definition cop_unimpl :: "u32 \<Rightarrow> u32 \<Rightarrow> mep \<Rightarrow> mep_res" where
  "cop_unimpl instr pc s = doException EXCEPTION_CpU s"

definition RI_emulate :: "u32 \<Rightarrow> u32 \<Rightarrow> mep \<Rightarrow> mep_res" where
  "RI_emulate instr pc s = doException EXCEPTION_RI s"

subsection \<open>Memory access\<close>

text \<open>
  The words of the guest are stored in the order of the host, little-endian. A failed access is an exception; were
  \<open>doException\<close> to return, the value would be undefined, so 0 stands for it and is never used.
\<close>

definition word_bytes :: "u32 \<Rightarrow> u8 list" where
  "word_bytes w = [ucast w, ucast (drop_bit 8 w), ucast (drop_bit 16 w), ucast (drop_bit 24 w)]"

definition bytes_word :: "u8 list \<Rightarrow> u32" where
  "bytes_word bs = ucast (bs ! 0) OR push_bit 8 (ucast (bs ! 1)) OR push_bit 16 (ucast (bs ! 2)) OR push_bit 24 (ucast (bs ! 3))"

definition mep_load :: "nat \<Rightarrow> u32 \<Rightarrow> mep \<Rightarrow> mep_stop \<times> mep + u8 list" where
  "mep_load n addr s =
     andThen (in_state s (ReadMemory addr n (m_mmu s))) (\<lambda>r. case r of
        Some bs \<Rightarrow> Inr bs
      | None \<Rightarrow> andThen (doException EXCEPTION_AdEL s) (\<lambda>s'. Inr (replicate n 0)))"

definition fetchWord :: "u32 \<Rightarrow> mep \<Rightarrow> mep_stop \<times> mep + u32" where
  "fetchWord addr s = andThen (mep_load 4 addr s) (\<lambda>bs. Inr (bytes_word bs))"

definition fetchHalfword :: "u32 \<Rightarrow> mep \<Rightarrow> mep_stop \<times> mep + u16" where
  "fetchHalfword addr s = andThen (mep_load 2 addr s) (\<lambda>bs. Inr (ucast (bs ! 0) OR push_bit 8 (ucast (bs ! 1))))"

definition fetchByte :: "u32 \<Rightarrow> mep \<Rightarrow> mep_stop \<times> mep + u8" where
  "fetchByte addr s = andThen (mep_load 1 addr s) (\<lambda>bs. Inr (bs ! 0))"

definition mep_store :: "u32 \<Rightarrow> u8 list \<Rightarrow> mep \<Rightarrow> mep_res" where
  "mep_store addr bs s =
     andThen (in_state s (WriteMemory addr bs (m_mmu s))) (\<lambda>(done, m).
       if done then Inr (s\<lparr>m_mmu := m\<rparr>) else doException EXCEPTION_AdES (s\<lparr>m_mmu := m\<rparr>))"

definition storeWord :: "u32 \<Rightarrow> u32 \<Rightarrow> mep \<Rightarrow> mep_res" where
  "storeWord addr v s = mep_store addr (word_bytes v) s"

definition storeHalfword :: "u32 \<Rightarrow> u16 \<Rightarrow> mep \<Rightarrow> mep_res" where
  "storeHalfword addr v s = mep_store addr [ucast v, ucast (drop_bit 8 v)] s"

definition storeByte :: "u32 \<Rightarrow> u8 \<Rightarrow> mep \<Rightarrow> mep_res" where
  "storeByte addr v s = mep_store addr [v] s"

definition SetErrno :: "u32 \<Rightarrow> mep \<Rightarrow> mep_res" where
  "SetErrno newErrno s = storeWord (m_errnoAddress s) newErrno s"

subsection \<open>Jumps and branches\<close>

definition control_transfer :: "u32 \<Rightarrow> mep \<Rightarrow> mep" where
  "control_transfer newPC s = s\<lparr>m_delayState := DELAYSTATE_DELAYING, m_delayPC := newPC\<rparr>"

definition calc_jump_target :: "u32 \<Rightarrow> u32 \<Rightarrow> u32" where
  "calc_jump_target instr pc = ((pc + 4) AND 0xf0000000) OR push_bit 2 (jumptarg instr)"

definition jump :: "u32 \<Rightarrow> u32 \<Rightarrow> mep \<Rightarrow> mep" where
  "jump instr pc s = control_transfer (calc_jump_target instr pc) s"

definition j_emulate :: "u32 \<Rightarrow> u32 \<Rightarrow> mep \<Rightarrow> mep_res" where
  "j_emulate instr pc s = Inr (jump instr pc s)"

definition jal_emulate :: "u32 \<Rightarrow> u32 \<Rightarrow> mep \<Rightarrow> mep_res" where
  "jal_emulate instr pc s = Inr (setReg 31 (pc + 8) (jump instr pc s))"

definition calc_branch_target :: "u32 \<Rightarrow> u32 \<Rightarrow> u32" where
  "calc_branch_target instr pc = (pc + 4) + push_bit 2 (s_immed instr)"

definition branch :: "u32 \<Rightarrow> u32 \<Rightarrow> mep \<Rightarrow> mep" where
  "branch instr pc s = control_transfer (calc_branch_target instr pc) s"

definition branch_if :: "bool \<Rightarrow> u32 \<Rightarrow> u32 \<Rightarrow> mep \<Rightarrow> mep_res" where
  "branch_if c instr pc s = Inr (if c then branch instr pc s else s)"

definition beq_emulate :: "u32 \<Rightarrow> u32 \<Rightarrow> mep \<Rightarrow> mep_res" where
  "beq_emulate instr pc s = branch_if (reg_rs instr s = reg_rt instr s) instr pc s"

definition bne_emulate :: "u32 \<Rightarrow> u32 \<Rightarrow> mep \<Rightarrow> mep_res" where
  "bne_emulate instr pc s = branch_if (reg_rs instr s \<noteq> reg_rt instr s) instr pc s"

definition blez_emulate :: "u32 \<Rightarrow> u32 \<Rightarrow> mep \<Rightarrow> mep_res" where
  "blez_emulate instr pc s =
     (if i_rt instr \<noteq> 0 then doException EXCEPTION_RI s
      else branch_if (reg_rs instr s = 0 \<or> reg_rs instr s AND 0x80000000 \<noteq> 0) instr pc s)"

definition bgtz_emulate :: "u32 \<Rightarrow> u32 \<Rightarrow> mep \<Rightarrow> mep_res" where
  "bgtz_emulate instr pc s =
     (if i_rt instr \<noteq> 0 then doException EXCEPTION_RI s
      else branch_if (reg_rs instr s \<noteq> 0 \<and> reg_rs instr s AND 0x80000000 = 0) instr pc s)"

definition bltz_emulate :: "u32 \<Rightarrow> u32 \<Rightarrow> mep \<Rightarrow> mep_res" where
  "bltz_emulate instr pc s = branch_if (sint (reg_rs instr s) < 0) instr pc s"

definition bgez_emulate :: "u32 \<Rightarrow> u32 \<Rightarrow> mep \<Rightarrow> mep_res" where
  "bgez_emulate instr pc s = branch_if (sint (reg_rs instr s) \<ge> 0) instr pc s"

text \<open>The linking branches write the return address before they test their register.\<close>

definition bltzal_emulate :: "u32 \<Rightarrow> u32 \<Rightarrow> mep \<Rightarrow> mep_res" where
  "bltzal_emulate instr pc s =
     (let s1 = setReg 31 (pc + 8) s in branch_if (sint (reg_rs instr s1) < 0) instr pc s1)"

definition bgezal_emulate :: "u32 \<Rightarrow> u32 \<Rightarrow> mep \<Rightarrow> mep_res" where
  "bgezal_emulate instr pc s =
     (let s1 = setReg 31 (pc + 8) s in branch_if (sint (reg_rs instr s1) \<ge> 0) instr pc s1)"

text \<open>\<open>jr\<close> tests the register that \<open>rd\<close> names, not the field.\<close>

definition jr_emulate :: "u32 \<Rightarrow> u32 \<Rightarrow> mep \<Rightarrow> mep_res" where
  "jr_emulate instr pc s =
     (if getReg (i_rd instr) s \<noteq> 0 then doException EXCEPTION_RI s else Inr (control_transfer (reg_rs instr s) s))"

definition jalr_emulate :: "u32 \<Rightarrow> u32 \<Rightarrow> mep \<Rightarrow> mep_res" where
  "jalr_emulate instr pc s = Inr (setReg (i_rd instr) (pc + 8) (control_transfer (reg_rs instr s) s))"

end
