(* ===== verification/Meps_Ops.thy ===== *)
theory Meps_Ops
  imports Meps_Cpu
begin

unbundle bit_operations_syntax

text \<open>The arithmetic, load and store instructions of the MIPS emulator (\<open>server/cpu.cpp\<close>).\<close>

subsection \<open>Immediate operands\<close>

definition add_overflows :: "u32 \<Rightarrow> u32 \<Rightarrow> u32 \<Rightarrow> bool" where
  "add_overflows a b res \<longleftrightarrow>
     (sint a < 0 \<and> sint b < 0 \<and> \<not> sint res < 0) \<or> (sint a \<ge> 0 \<and> sint b \<ge> 0 \<and> \<not> sint res \<ge> 0)"

definition sub_overflows :: "u32 \<Rightarrow> u32 \<Rightarrow> u32 \<Rightarrow> bool" where
  "sub_overflows a b diff \<longleftrightarrow>
     (sint a < 0 \<and> \<not> sint b < 0 \<and> \<not> sint diff < 0) \<or> (\<not> sint a < 0 \<and> sint b < 0 \<and> sint diff < 0)"

definition addi_emulate :: "u32 \<Rightarrow> u32 \<Rightarrow> mep \<Rightarrow> mep_res" where
  "addi_emulate instr pc s =
     (let a = reg_rs instr s; b = s_immed instr; res = a + b in
      if add_overflows a b res then doException EXCEPTION_Ov s else Inr (setReg (i_rt instr) res s))"

definition addiu_emulate :: "u32 \<Rightarrow> u32 \<Rightarrow> mep \<Rightarrow> mep_res" where
  "addiu_emulate instr pc s = Inr (setReg (i_rt instr) (reg_rs instr s + s_immed instr) s)"

definition slti_emulate :: "u32 \<Rightarrow> u32 \<Rightarrow> mep \<Rightarrow> mep_res" where
  "slti_emulate instr pc s =
     Inr (setReg (i_rt instr) (if sint (reg_rs instr s) < sint (s_immed instr) then 1 else 0) s)"

definition sltiu_emulate :: "u32 \<Rightarrow> u32 \<Rightarrow> mep \<Rightarrow> mep_res" where
  "sltiu_emulate instr pc s = Inr (setReg (i_rt instr) (if reg_rs instr s < s_immed instr then 1 else 0) s)"

definition andi_emulate :: "u32 \<Rightarrow> u32 \<Rightarrow> mep \<Rightarrow> mep_res" where
  "andi_emulate instr pc s = Inr (setReg (i_rt instr) ((reg_rs instr s AND 0xffff) AND immed instr) s)"

definition ori_emulate :: "u32 \<Rightarrow> u32 \<Rightarrow> mep \<Rightarrow> mep_res" where
  "ori_emulate instr pc s = Inr (setReg (i_rt instr) (reg_rs instr s OR immed instr) s)"

definition xori_emulate :: "u32 \<Rightarrow> u32 \<Rightarrow> mep \<Rightarrow> mep_res" where
  "xori_emulate instr pc s = Inr (setReg (i_rt instr) (reg_rs instr s XOR immed instr) s)"

definition lui_emulate :: "u32 \<Rightarrow> u32 \<Rightarrow> mep \<Rightarrow> mep_res" where
  "lui_emulate instr pc s = Inr (setReg (i_rt instr) (push_bit 16 (immed instr)) s)"

subsection \<open>Loads\<close>

definition mem_addr :: "u32 \<Rightarrow> mep \<Rightarrow> u32" where
  "mem_addr instr s = reg_rs instr s + s_immed instr"

definition lb_emulate :: "u32 \<Rightarrow> u32 \<Rightarrow> mep \<Rightarrow> mep_res" where
  "lb_emulate instr pc s =
     andThen (fetchByte (mem_addr instr s) s) (\<lambda>b. Inr (setReg (i_rt instr) (scast b) s))"

definition lh_emulate :: "u32 \<Rightarrow> u32 \<Rightarrow> mep \<Rightarrow> mep_res" where
  "lh_emulate instr pc s =
     (let addr = mem_addr instr s in
      if unat addr mod 2 \<noteq> 0 then doException EXCEPTION_AdEL s
      else andThen (fetchHalfword addr s) (\<lambda>h. Inr (setReg (i_rt instr) (scast h) s)))"

definition lw_emulate :: "u32 \<Rightarrow> u32 \<Rightarrow> mep \<Rightarrow> mep_res" where
  "lw_emulate instr pc s =
     (let addr = mem_addr instr s in
      if unat addr mod 4 \<noteq> 0 then doException EXCEPTION_AdEL s
      else andThen (fetchWord addr s) (\<lambda>w. Inr (setReg (i_rt instr) w s)))"

definition lbu_emulate :: "u32 \<Rightarrow> u32 \<Rightarrow> mep \<Rightarrow> mep_res" where
  "lbu_emulate instr pc s =
     andThen (fetchByte (mem_addr instr s) s) (\<lambda>b. Inr (setReg (i_rt instr) (ucast b AND 0xff) s))"

definition lhu_emulate :: "u32 \<Rightarrow> u32 \<Rightarrow> mep \<Rightarrow> mep_res" where
  "lhu_emulate instr pc s =
     (let addr = mem_addr instr s in
      if unat addr mod 2 \<noteq> 0 then doException EXCEPTION_AdEL s
      else andThen (fetchHalfword addr s) (\<lambda>h. Inr (setReg (i_rt instr) (ucast h AND 0xffff) s)))"

text \<open>The merging functions of the unaligned accesses; the byte offset is below 4.\<close>

definition mep_lwr :: "bool \<Rightarrow> u32 \<Rightarrow> u32 \<Rightarrow> nat \<Rightarrow> u32" where
  "mep_lwr big regval memval offset =
     (if big
      then if offset = 0 then (regval AND 0xffffff00) OR drop_bit 24 (memval AND 0xff000000)
        else if offset = 1 then (regval AND 0xffff0000) OR drop_bit 16 (memval AND 0xffff0000)
        else if offset = 2 then (regval AND 0xff000000) OR drop_bit 8 (memval AND 0xffffff00)
        else if offset = 3 then memval else 0
      else if offset = 0 then memval
        else if offset = 1 then (regval AND 0xff000000) OR drop_bit 8 (memval AND 0xffffff00)
        else if offset = 2 then (regval AND 0xffff0000) OR drop_bit 16 (memval AND 0xffff0000)
        else if offset = 3 then (regval AND 0xffffff00) OR drop_bit 24 (memval AND 0xff000000) else 0)"

definition mep_lwl :: "bool \<Rightarrow> u32 \<Rightarrow> u32 \<Rightarrow> nat \<Rightarrow> u32" where
  "mep_lwl big regval memval offset =
     (if big
      then if offset = 0 then memval
        else if offset = 1 then push_bit 8 (memval AND 0xffffff) OR (regval AND 0xff)
        else if offset = 2 then push_bit 16 (memval AND 0xffff) OR (regval AND 0xffff)
        else if offset = 3 then push_bit 24 (memval AND 0xff) OR (regval AND 0xffffff) else 0
      else if offset = 0 then push_bit 24 (memval AND 0xff) OR (regval AND 0xffffff)
        else if offset = 1 then push_bit 16 (memval AND 0xffff) OR (regval AND 0xffff)
        else if offset = 2 then push_bit 8 (memval AND 0xffffff) OR (regval AND 0xff)
        else if offset = 3 then memval else 0)"

definition word_addr :: "u32 \<Rightarrow> u32" where
  "word_addr addr = addr AND NOT 3"

definition which_byte :: "u32 \<Rightarrow> nat" where
  "which_byte addr = unat (addr AND 3)"

definition lwl_emulate :: "u32 \<Rightarrow> u32 \<Rightarrow> mep \<Rightarrow> mep_res" where
  "lwl_emulate instr pc s =
     (let addr = mem_addr instr s in
      andThen (fetchWord (word_addr addr) s) (\<lambda>memword.
        Inr (setReg (i_rt instr) (mep_lwl (m_optBigendian s) (reg_rt instr s) memword (which_byte addr)) s)))"

definition lwr_emulate :: "u32 \<Rightarrow> u32 \<Rightarrow> mep \<Rightarrow> mep_res" where
  "lwr_emulate instr pc s =
     (let addr = mem_addr instr s in
      andThen (fetchWord (word_addr addr) s) (\<lambda>memword.
        Inr (setReg (i_rt instr) (mep_lwr (m_optBigendian s) (reg_rt instr s) memword (which_byte addr)) s)))"

subsection \<open>Stores\<close>

definition sb_emulate :: "u32 \<Rightarrow> u32 \<Rightarrow> mep \<Rightarrow> mep_res" where
  "sb_emulate instr pc s = storeByte (mem_addr instr s) (ucast (reg_rt instr s AND 0xff)) s"

definition sh_emulate :: "u32 \<Rightarrow> u32 \<Rightarrow> mep \<Rightarrow> mep_res" where
  "sh_emulate instr pc s =
     (let addr = mem_addr instr s in
      if unat addr mod 2 \<noteq> 0 then doException EXCEPTION_AdES s
      else storeHalfword addr (ucast (reg_rt instr s AND 0xffff)) s)"

definition sw_emulate :: "u32 \<Rightarrow> u32 \<Rightarrow> mep \<Rightarrow> mep_res" where
  "sw_emulate instr pc s =
     (let addr = mem_addr instr s in
      if unat addr mod 4 \<noteq> 0 then doException EXCEPTION_AdES s
      else storeWord addr (reg_rt instr s) s)"

definition mep_swl :: "bool \<Rightarrow> u32 \<Rightarrow> u32 \<Rightarrow> nat \<Rightarrow> u32" where
  "mep_swl big regval memval offset =
     (if big
      then if offset = 0 then regval
        else if offset = 1 then (memval AND 0xff000000) OR (drop_bit 8 regval AND 0xffffff)
        else if offset = 2 then (memval AND 0xffff0000) OR (drop_bit 16 regval AND 0xffff)
        else if offset = 3 then (memval AND 0xffffff00) OR (drop_bit 24 regval AND 0xff) else 0
      else if offset = 0 then (memval AND 0xffffff00) OR (drop_bit 24 regval AND 0xff)
        else if offset = 1 then (memval AND 0xffff0000) OR (drop_bit 16 regval AND 0xffff)
        else if offset = 2 then (memval AND 0xff000000) OR (drop_bit 8 regval AND 0xffffff)
        else if offset = 3 then regval else 0)"

definition mep_swr :: "bool \<Rightarrow> u32 \<Rightarrow> u32 \<Rightarrow> nat \<Rightarrow> u32" where
  "mep_swr big regval memval offset =
     (if big
      then if offset = 0 then (push_bit 24 regval AND 0xff000000) OR (memval AND 0xffffff)
        else if offset = 1 then (push_bit 16 regval AND 0xffff0000) OR (memval AND 0xffff)
        else if offset = 2 then (push_bit 8 regval AND 0xffffff00) OR (memval AND 0xff)
        else if offset = 3 then regval else 0
      else if offset = 0 then regval
        else if offset = 1 then (push_bit 8 regval AND 0xffffff00) OR (memval AND 0xff)
        else if offset = 2 then (push_bit 16 regval AND 0xffff0000) OR (memval AND 0xffff)
        else if offset = 3 then (push_bit 24 regval AND 0xff000000) OR (memval AND 0xffffff) else 0)"

text \<open>\<open>swl\<close> stores one byte of the merged word, at the unaligned address; \<open>swr\<close> reads and writes a word at the unaligned
  address.\<close>

definition swl_emulate :: "u32 \<Rightarrow> u32 \<Rightarrow> mep \<Rightarrow> mep_res" where
  "swl_emulate instr pc s =
     (let addr = mem_addr instr s; regdata = reg_rt instr s in
      andThen (fetchWord (word_addr addr) s) (\<lambda>memdata.
        storeByte addr (ucast (mep_swl (m_optBigendian s) regdata memdata (which_byte addr))) s))"

definition swr_emulate :: "u32 \<Rightarrow> u32 \<Rightarrow> mep \<Rightarrow> mep_res" where
  "swr_emulate instr pc s =
     (let addr = mem_addr instr s; regdata = reg_rt instr s in
      andThen (fetchWord addr s) (\<lambda>memdata.
        storeWord addr (mep_swr (m_optBigendian s) regdata memdata (which_byte addr)) s))"

subsection \<open>Coprocessor loads and stores\<close>

definition lwc1_emulate :: "u32 \<Rightarrow> u32 \<Rightarrow> mep \<Rightarrow> mep_res" where "lwc1_emulate = cop_unimpl"
definition lwc2_emulate :: "u32 \<Rightarrow> u32 \<Rightarrow> mep \<Rightarrow> mep_res" where "lwc2_emulate = cop_unimpl"
definition swc1_emulate :: "u32 \<Rightarrow> u32 \<Rightarrow> mep \<Rightarrow> mep_res" where "swc1_emulate = cop_unimpl"
definition swc2_emulate :: "u32 \<Rightarrow> u32 \<Rightarrow> mep \<Rightarrow> mep_res" where "swc2_emulate = cop_unimpl"
definition swc3_emulate :: "u32 \<Rightarrow> u32 \<Rightarrow> mep \<Rightarrow> mep_res" where "swc3_emulate = cop_unimpl"

text \<open>One encoding stops the processor; in a delay slot it copies the registers into an array of two words.\<close>

definition lwc3_emulate :: "u32 \<Rightarrow> u32 \<Rightarrow> mep \<Rightarrow> mep_res" where
  "lwc3_emulate instr pc s =
     (if instr AND 0x3ffffff = 0x3e00000
      then if m_delayState s = DELAYSTATE_NORMAL then doException EXCEPTION_HSC (setReg 31 pc s)
        else Inl (Stack_Overrun, s)
      else cop_unimpl instr pc s)"

subsection \<open>Shifts\<close>

text \<open>\<open>srl\<close> and \<open>sra\<close> on signed integers: \<open>>>\<close> copies the sign and is then masked, or filled again.\<close>

definition mep_srl :: "u32 \<Rightarrow> nat \<Rightarrow> u32" where
  "mep_srl a b =
     (if b = 0 then a else if b = 32 then 0 else signed_drop_bit b a AND (push_bit (32 - b) 1 - 1))"

definition mep_sra :: "u32 \<Rightarrow> nat \<Rightarrow> u32" where
  "mep_sra a b =
     (if b = 0 then a
      else signed_drop_bit b a OR ((signed_drop_bit 31 a AND 1) * push_bit (32 - b) (push_bit b 1 - 1)))"

definition sll_emulate :: "u32 \<Rightarrow> u32 \<Rightarrow> mep \<Rightarrow> mep_res" where
  "sll_emulate instr pc s = Inr (setReg (i_rd instr) (push_bit (shamt instr) (reg_rt instr s)) s)"

definition srl_emulate :: "u32 \<Rightarrow> u32 \<Rightarrow> mep \<Rightarrow> mep_res" where
  "srl_emulate instr pc s = Inr (setReg (i_rd instr) (mep_srl (reg_rt instr s) (shamt instr)) s)"

definition sra_emulate :: "u32 \<Rightarrow> u32 \<Rightarrow> mep \<Rightarrow> mep_res" where
  "sra_emulate instr pc s = Inr (setReg (i_rd instr) (mep_sra (reg_rt instr s) (shamt instr)) s)"

definition sllv_emulate :: "u32 \<Rightarrow> u32 \<Rightarrow> mep \<Rightarrow> mep_res" where
  "sllv_emulate instr pc s =
     Inr (setReg (i_rd instr) (push_bit (unat (reg_rs instr s AND 0x1f)) (reg_rt instr s)) s)"

definition srlv_emulate :: "u32 \<Rightarrow> u32 \<Rightarrow> mep \<Rightarrow> mep_res" where
  "srlv_emulate instr pc s =
     Inr (setReg (i_rd instr) (mep_srl (reg_rt instr s) (unat (reg_rs instr s AND 0x1f))) s)"

definition srav_emulate :: "u32 \<Rightarrow> u32 \<Rightarrow> mep \<Rightarrow> mep_res" where
  "srav_emulate instr pc s =
     Inr (setReg (i_rd instr) (mep_sra (reg_rt instr s) (unat (reg_rs instr s AND 0x1f))) s)"

subsection \<open>Multiplication and division\<close>

definition break_emulate :: "u32 \<Rightarrow> u32 \<Rightarrow> mep \<Rightarrow> mep_res" where
  "break_emulate instr pc s = doException EXCEPTION_Bp s"

definition mfhi_emulate :: "u32 \<Rightarrow> u32 \<Rightarrow> mep \<Rightarrow> mep_res" where
  "mfhi_emulate instr pc s = Inr (setReg (i_rd instr) (m_hi s) s)"

definition mthi_emulate :: "u32 \<Rightarrow> u32 \<Rightarrow> mep \<Rightarrow> mep_res" where
  "mthi_emulate instr pc s =
     (if i_rd instr \<noteq> 0 then doException EXCEPTION_RI s else Inr (s\<lparr>m_hi := reg_rs instr s\<rparr>))"

definition mflo_emulate :: "u32 \<Rightarrow> u32 \<Rightarrow> mep \<Rightarrow> mep_res" where
  "mflo_emulate instr pc s = Inr (setReg (i_rd instr) (m_lo s) s)"

definition mtlo_emulate :: "u32 \<Rightarrow> u32 \<Rightarrow> mep \<Rightarrow> mep_res" where
  "mtlo_emulate instr pc s =
     (if i_rd instr \<noteq> 0 then doException EXCEPTION_RI s else Inr (s\<lparr>m_lo := reg_rs instr s\<rparr>))"

definition mult64 :: "u32 \<Rightarrow> u32 \<Rightarrow> u32 \<times> u32" where
  "mult64 n m = (let r = (ucast n :: u64) * ucast m in (ucast (drop_bit 32 r), ucast r))"

definition mult64s :: "u32 \<Rightarrow> u32 \<Rightarrow> u32 \<times> u32" where
  "mult64s n m = (let r = (scast n :: u64) * scast m in (ucast (signed_drop_bit 32 r), ucast r))"

definition mult_emulate :: "u32 \<Rightarrow> u32 \<Rightarrow> mep \<Rightarrow> mep_res" where
  "mult_emulate instr pc s =
     (if i_rd instr \<noteq> 0 then doException EXCEPTION_RI s
      else let (hi, lo) = mult64s (reg_rs instr s) (reg_rt instr s) in Inr (s\<lparr>m_hi := hi, m_lo := lo\<rparr>))"

definition multu_emulate :: "u32 \<Rightarrow> u32 \<Rightarrow> mep \<Rightarrow> mep_res" where
  "multu_emulate instr pc s =
     (if i_rd instr \<noteq> 0 then doException EXCEPTION_RI s
      else let (hi, lo) = mult64 (reg_rs instr s) (reg_rt instr s) in Inr (s\<lparr>m_hi := hi, m_lo := lo\<rparr>))"

text \<open>The host traps on a division by zero and on the one quotient that does not fit.\<close>

definition div_emulate :: "u32 \<Rightarrow> u32 \<Rightarrow> mep \<Rightarrow> mep_res" where
  "div_emulate instr pc s =
     (let a = sint (reg_rs instr s); b = sint (reg_rt instr s) in
      if b = 0 \<or> (a = - (2 ^ 31) \<and> b = - 1) then Inl (Divide_Trap, s)
      else Inr (s\<lparr>m_lo := of_int (a sdiv b), m_hi := of_int (a smod b)\<rparr>))"

definition divu_emulate :: "u32 \<Rightarrow> u32 \<Rightarrow> mep \<Rightarrow> mep_res" where
  "divu_emulate instr pc s =
     (if reg_rt instr s = 0 then Inl (Divide_Trap, s)
      else Inr (s\<lparr>m_lo := reg_rs instr s div reg_rt instr s, m_hi := reg_rs instr s mod reg_rt instr s\<rparr>))"

subsection \<open>Register operands\<close>

definition add_emulate :: "u32 \<Rightarrow> u32 \<Rightarrow> mep \<Rightarrow> mep_res" where
  "add_emulate instr pc s =
     (let a = reg_rs instr s; b = reg_rt instr s; res = a + b in
      if add_overflows a b res then doException EXCEPTION_Ov s else Inr (setReg (i_rd instr) res s))"

definition addu_emulate :: "u32 \<Rightarrow> u32 \<Rightarrow> mep \<Rightarrow> mep_res" where
  "addu_emulate instr pc s = Inr (setReg (i_rd instr) (reg_rs instr s + reg_rt instr s) s)"

definition sub_emulate :: "u32 \<Rightarrow> u32 \<Rightarrow> mep \<Rightarrow> mep_res" where
  "sub_emulate instr pc s =
     (let a = reg_rs instr s; b = reg_rt instr s; diff = a - b in
      if sub_overflows a b diff then doException EXCEPTION_Ov s else Inr (setReg (i_rd instr) diff s))"

definition subu_emulate :: "u32 \<Rightarrow> u32 \<Rightarrow> mep \<Rightarrow> mep_res" where
  "subu_emulate instr pc s = Inr (setReg (i_rd instr) (reg_rs instr s - reg_rt instr s) s)"

definition and_emulate :: "u32 \<Rightarrow> u32 \<Rightarrow> mep \<Rightarrow> mep_res" where
  "and_emulate instr pc s = Inr (setReg (i_rd instr) (reg_rs instr s AND reg_rt instr s) s)"

definition or_emulate :: "u32 \<Rightarrow> u32 \<Rightarrow> mep \<Rightarrow> mep_res" where
  "or_emulate instr pc s = Inr (setReg (i_rd instr) (reg_rs instr s OR reg_rt instr s) s)"

definition xor_emulate :: "u32 \<Rightarrow> u32 \<Rightarrow> mep \<Rightarrow> mep_res" where
  "xor_emulate instr pc s = Inr (setReg (i_rd instr) (reg_rs instr s XOR reg_rt instr s) s)"

definition nor_emulate :: "u32 \<Rightarrow> u32 \<Rightarrow> mep \<Rightarrow> mep_res" where
  "nor_emulate instr pc s = Inr (setReg (i_rd instr) (NOT (reg_rs instr s OR reg_rt instr s)) s)"

definition slt_emulate :: "u32 \<Rightarrow> u32 \<Rightarrow> mep \<Rightarrow> mep_res" where
  "slt_emulate instr pc s =
     Inr (setReg (i_rd instr) (if sint (reg_rs instr s) < sint (reg_rt instr s) then 1 else 0) s)"

definition sltu_emulate :: "u32 \<Rightarrow> u32 \<Rightarrow> mep \<Rightarrow> mep_res" where
  "sltu_emulate instr pc s = Inr (setReg (i_rd instr) (if reg_rs instr s < reg_rt instr s then 1 else 0) s)"

end
