(* ===== verification/Meps_Sys.thy ===== *)
theory Meps_Sys
  imports Meps_Ops
begin

unbundle bit_operations_syntax

text \<open>
  The cipher coprocessor (\<open>server/RC4Coprocessor.cpp\<close>) and the system calls (\<open>server/syscall_handler.cpp\<close>) of the
  MIPS emulator. The table of the cipher has 256 words that are not initialised before the first \<open>InitKSA\<close>.
\<close>

subsection \<open>The cipher\<close>

definition rc4_swap :: "nat \<Rightarrow> nat \<Rightarrow> u32 list \<Rightarrow> u32 list" where
  "rc4_swap i j st = st[i := st ! j, j := st ! i]"

definition ksa_step :: "u8 list \<Rightarrow> nat \<Rightarrow> u32 \<times> u32 list \<Rightarrow> u32 \<times> u32 list" where
  "ksa_step key i = (\<lambda>(j, st).
     let j' = (j + st ! i + ucast (key ! (i mod length key))) mod 256 in (j', rc4_swap i (unat j') st))"

text \<open>The loop that drops the first numbers goes on with \<open>i = 256\<close> and with the \<open>j\<close> of the key schedule.\<close>

definition rc4_drop_step :: "nat \<times> u32 \<times> u32 list \<Rightarrow> nat \<times> u32 \<times> u32 list" where
  "rc4_drop_step = (\<lambda>(i, j, st).
     let i' = (i + 1) mod 256; j' = (j + st ! i') mod 256 in (i', j', rc4_swap i' (unat j') st))"

definition InitKSA :: "u8 list \<Rightarrow> nat \<Rightarrow> u32 list" where
  "InitKSA key dropAmount =
     (let (j, st) = fold (ksa_step key) [0..<256] (0, map of_nat [0..<256]);
          (i, j, st) = (rc4_drop_step ^^ dropAmount) (256, j, st)
      in st)"

fun rc4_bytes :: "nat \<Rightarrow> nat \<Rightarrow> u8 list \<Rightarrow> u32 list \<Rightarrow> u8 list \<times> u32 list" where
  "rc4_bytes i j [] st = ([], st)"
| "rc4_bytes i j (b # bs) st =
     (let i' = (i + 1) mod 256;
          j' = unat ((of_nat j + st ! i') mod 256);
          st' = rc4_swap i' j' st;
          c = ucast (st' ! unat ((st' ! i' + st' ! j') mod 256) XOR ucast b);
          (cs, st'') = rc4_bytes i' j' bs st'
      in (c # cs, st''))"

text \<open>The length of a block is a byte, so \<open>RC4Block\<close> leaves all but \<open>n mod 256\<close> of the bytes as they are.\<close>

definition RC4Block :: "u8 list \<Rightarrow> nat \<Rightarrow> u32 list \<Rightarrow> u8 list \<times> u32 list" where
  "RC4Block pBlock n st =
     (let blockLen = unat (of_nat n :: u8);
          (cs, st') = rc4_bytes 0 0 (take blockLen pBlock) st
      in (cs @ drop blockLen pBlock, st'))"

definition rc4_init_emulate :: "u32 \<Rightarrow> u32 \<Rightarrow> mep \<Rightarrow> mep_res" where
  "rc4_init_emulate instr pc s =
     (let keySize = unat (reg_rt instr s AND 0x7F); keyAddress = reg_rs instr s in
      andThen (in_state s (ReadMemory keyAddress keySize (m_mmu s))) (\<lambda>r. case r of
        None \<Rightarrow> doException EXCEPTION_AdEL s
      | Some keyBuf \<Rightarrow> Inr (s\<lparr>m_state := InitKSA keyBuf (unat (getReg (i_rd instr) s AND 0x3FF))\<rparr>)))"

definition rc4_encrypt_emulate :: "u32 \<Rightarrow> u32 \<Rightarrow> mep \<Rightarrow> mep_res" where
  "rc4_encrypt_emulate instr pc s =
     (let blockSize = unat (reg_rt instr s AND 0x1FF);
          blockSrcAddress = reg_rs instr s; blockDestAddress = getReg (i_rd instr) s in
      andThen (in_state s (ReadMemory blockSrcAddress blockSize (m_mmu s))) (\<lambda>r. case r of
        None \<Rightarrow> doException EXCEPTION_AdEL s
      | Some rsaBlock \<Rightarrow>
          (case RC4Block rsaBlock blockSize (m_state s) of (block, st) \<Rightarrow>
             mep_store blockDestAddress block (s\<lparr>m_state := st\<rparr>))))"

definition RC4_Emulate :: "u32 \<Rightarrow> u32 \<Rightarrow> mep \<Rightarrow> mep_res" where
  "RC4_Emulate instr pc s =
     (if funct instr = 0 then rc4_init_emulate instr pc s
      else if funct instr = 1 then rc4_encrypt_emulate instr pc s
      else doException EXCEPTION_CpU s)"

subsection \<open>The random numbers\<close>

definition seed_step :: "nat \<Rightarrow> u32 list \<Rightarrow> u32 list" where
  "seed_step i st = (let sv = st ! ((i - 1) mod 32) in st[i := (sv XOR (drop_bit 30 sv + of_nat i)) * 524287])"

definition seed_values :: "u32 \<Rightarrow> u32 list" where
  "seed_values v = fold seed_step [1..<32] ((replicate 32 0)[0 := v])"

definition seed_prng :: "u32 \<Rightarrow> mep \<Rightarrow> mep" where
  "seed_prng v s = s\<lparr>prng_state := seed_values v, state_n := 0\<rparr>"

definition prng_values :: "u32 list \<Rightarrow> nat \<Rightarrow> u32 \<times> u32" where
  "prng_values st n =
     (let v0 = st ! n;
          vM1 = st ! ((n + 3) mod 32);
          vM2 = st ! ((n + 24) mod 32);
          vM3 = st ! ((n + 10) mod 32);
          z0 = st ! ((n + 31) mod 32);
          z1 = v0 XOR (vM1 XOR drop_bit 8 vM1);
          z2 = (vM2 XOR push_bit 19 vM2) XOR (vM3 XOR push_bit 14 vM3);
          newV1 = z1 XOR z2;
          newV0 = (z0 XOR push_bit 11 z0) XOR (z1 XOR push_bit 7 z1) XOR (z2 XOR push_bit 13 z2)
      in (newV0, newV1))"

definition prng :: "mep \<Rightarrow> u32 \<times> mep" where
  "prng s =
     (case prng_values (prng_state s) (state_n s) of (newV0, newV1) \<Rightarrow>
        (newV0, s\<lparr>prng_state := (prng_state s)[state_n s := newV1, (state_n s + 31) mod 32 := newV0],
                   state_n := (state_n s + 31) mod 32\<rparr>))"

subsection \<open>System calls\<close>

abbreviation (input) REG_V0 :: nat where "REG_V0 \<equiv> 2"
abbreviation (input) REG_A0 :: nat where "REG_A0 \<equiv> 4"
abbreviation (input) REG_A1 :: nat where "REG_A1 \<equiv> 5"
abbreviation (input) REG_A2 :: nat where "REG_A2 \<equiv> 6"
abbreviation (input) REG_A3 :: nat where "REG_A3 \<equiv> 7"

definition MAX_READ_BUF :: u32 where "MAX_READ_BUF = 0xF00"
definition MAX_WRITE_BUF :: u32 where "MAX_WRITE_BUF = 0xF00"
definition MMAP_MAX_LENGTH :: u32 where "MMAP_MAX_LENGTH = 0x4000"
definition MMAP_TABLE_SIZE :: nat where "MMAP_TABLE_SIZE = 8"

definition DoNothing :: "mep \<Rightarrow> mep_res" where
  "DoNothing s = Inr (setReg REG_V0 0 s)"

definition DoExit :: "mep \<Rightarrow> mep_res" where
  "DoExit s = Inl (Exited, s)"

text \<open>
  The host answers a read with the bytes that wait, at most as many as asked for; the others go on waiting. When no
  answer is left it is at the end of file.
\<close>

definition host_read_of :: "nat \<Rightarrow> mep \<Rightarrow> host_read \<times> mep" where
  "host_read_of n s =
     (case host_reads s of [] \<Rightarrow> (Read_Bytes [], s)
      | Read_Bytes bs # rs \<Rightarrow> 
          (Read_Bytes (take n bs), s\<lparr>host_reads := (if length bs \<le> n then rs else Read_Bytes (drop n bs) # rs)\<rparr>)
      | Read_Error e # rs \<Rightarrow> (Read_Error e, s\<lparr>host_reads := rs\<rparr>))"

definition DoRead :: "mep \<Rightarrow> mep_res" where
  "DoRead s =
     (if getReg REG_A0 s \<noteq> 0 then Inr s
      else
        let address = getReg REG_A1 s;
            readLen = (if getReg REG_A2 s \<ge> MAX_READ_BUF then MAX_READ_BUF else getReg REG_A2 s) in
        if readLen > 0 then
          (case host_read_of (unat readLen) s of
             (Read_Error e, s1) \<Rightarrow> Inr (setReg REG_V0 e (setReg REG_A3 (- 1) s1))
           | (Read_Bytes [], s1) \<Rightarrow> Inr (setReg REG_V0 0 s1)
           | (Read_Bytes (b # bs), s1) \<Rightarrow>
               andThen (in_state s1 (WriteMemory address (b # bs) (m_mmu s1))) (\<lambda>(done, m).
                 if done then Inr (setReg REG_V0 (of_nat (length (b # bs))) (s1\<lparr>m_mmu := m\<rparr>))
                 else doException EXCEPTION_AdES (s1\<lparr>m_mmu := m\<rparr>)))
        else Inr (setReg REG_V0 0 s))"

text \<open>The host takes at most the bytes it is given, all of them when no answer is left.\<close>

definition host_write_of :: "u8 list \<Rightarrow> mep \<Rightarrow> host_write \<times> mep" where
  "host_write_of bs s =
     (case host_writes s of [] \<Rightarrow> (Write_Count (length bs), s\<lparr>mep_outs := mep_outs s @ [Out_Bytes bs]\<rparr>)
      | Write_Count n # ws \<Rightarrow>
          (Write_Count (min n (length bs)), s\<lparr>host_writes := ws, mep_outs := mep_outs s @ [Out_Bytes (take n bs)]\<rparr>)
      | Write_Error e # ws \<Rightarrow> (Write_Error e, s\<lparr>host_writes := ws\<rparr>))"

definition DoWrite :: "mep \<Rightarrow> mep_res" where
  "DoWrite s =
     (if getReg REG_A0 s \<noteq> 1 then Inr s
      else
        let address = getReg REG_A1 s;
            writeLen = (if getReg REG_A2 s \<ge> MAX_WRITE_BUF then MAX_WRITE_BUF else getReg REG_A2 s) in
        if writeLen > 0 then
          andThen (in_state s (ReadMemory address (unat writeLen) (m_mmu s))) (\<lambda>r. case r of
            None \<Rightarrow> doException EXCEPTION_AdEL s
          | Some bs \<Rightarrow>
              (case host_write_of bs s of
                 (Write_Error e, s1) \<Rightarrow> Inr (setReg REG_V0 e (setReg REG_A3 (- 1) s1))
               | (Write_Count n, s1) \<Rightarrow> Inr (setReg REG_V0 (of_nat n) s1)))
        else Inr (setReg REG_V0 0 s))"

definition take_time :: "mep \<Rightarrow> u32 \<times> mep" where
  "take_time s = (case host_times s of [] \<Rightarrow> (0, s) | t # ts \<Rightarrow> (t, s\<lparr>host_times := ts\<rparr>))"

definition DoTime :: "mep \<Rightarrow> mep_res" where
  "DoTime s = (case take_time s of (t, s1) \<Rightarrow> Inr (setReg REG_V0 t s1))"

definition DoRand :: "mep \<Rightarrow> mep_res" where
  "DoRand s = (case prng s of (r, s1) \<Rightarrow> Inr (setReg REG_V0 r s1))"

definition mmap_clash :: "u32 \<Rightarrow> u32 \<Rightarrow> u32 \<times> u32 \<Rightarrow> bool" where
  "mmap_clash mmapStart mmapEnd = (\<lambda>(compareStart, compareLength).
     let compareEnd = compareStart + compareLength in
     (compareStart \<ge> mmapStart \<and> compareStart < mmapEnd)
     \<or> (compareEnd > mmapStart \<and> compareEnd \<le> mmapEnd)
     \<or> (compareStart < mmapStart \<and> compareEnd > mmapEnd))"

definition mmap_refused :: "u32 \<Rightarrow> u32 \<Rightarrow> (u32 \<times> u32) list \<Rightarrow> bool" where
  "mmap_refused address len table =
     (len > MMAP_MAX_LENGTH
      \<or> length table \<ge> MMAP_TABLE_SIZE
      \<or> address AND 0xFFF \<noteq> 0
      \<or> unat address + unat len > 0x1000000
      \<or> address < 0x430000
      \<or> (address \<ge> 0x400000 \<and> address < 0x430000)
      \<or> (address + len \<le> 0x430000 \<and> address + len > 0x400000)
      \<or> (address < 0x400000 \<and> address + len > 0x430000)
      \<or> list_ex (mmap_clash address (address + len)) table)"

text \<open>The next numbers of the generator.\<close>

primrec prng_list :: "nat \<Rightarrow> mep \<Rightarrow> u32 list" where
  "prng_list 0 s = []"
| "prng_list (Suc n) s = (case prng s of (v, s1) \<Rightarrow> v # prng_list n s1)"

definition DoMMAP :: "mep \<Rightarrow> mep_res" where
  "DoMMAP s =
     (let mmapAddress = getReg REG_A0 s; mmapLength = getReg REG_A1 s in
      if mmap_refused mmapAddress mmapLength (g_oMMAPTable s) then Inr (setReg REG_V0 (- 1) s)
      else
        andThen (in_state s (AddMMAPRegion mmapAddress mmapLength (prng_list (page_count mmapLength) s) (m_mmu s))) (\<lambda>(done, m, pages).
          let s1 = ((\<lambda>s. snd (prng s)) ^^ pages) (s\<lparr>m_mmu := m\<rparr>) in
          if done
          then Inr (setReg REG_V0 mmapAddress (s1\<lparr>g_oMMAPTable := g_oMMAPTable s1 @ [(mmapAddress, mmapLength)]\<rparr>))
          else Inr (setReg REG_V0 (- 1) s1)))"

text \<open>The number is compared as a signed one and has no lower bound.\<close>

definition syscallJumpTable :: "(mep \<Rightarrow> mep_res) list" where
  "syscallJumpTable =
     [DoNothing, DoExit, DoNothing, DoRead, DoWrite, DoRand, DoNothing, DoNothing, DoNothing, DoNothing, DoNothing,
      DoNothing, DoNothing, DoTime, DoMMAP]"

definition DoSyscall :: "mep \<Rightarrow> mep_res" where
  "DoSyscall s =
     (let syscall_num = sint (getReg REG_V0 s - 4000) in
      if syscall_num < 15 then
        (let s1 = setReg REG_A3 0 s in
         if syscall_num < 0 then Inl (Jump_Table syscall_num, s1) else (syscallJumpTable ! nat syscall_num) s1)
      else Inr s)"

end
