(* ===== verification/Meps_Step.thy ===== *)
theory Meps_Step
  imports Meps_Sys
begin

unbundle bit_operations_syntax

text \<open>The dispatch of the MIPS emulator and one turn of its loop (\<open>step\<close> of \<open>server/cpu.cpp\<close>).\<close>

subsection \<open>Dispatch\<close>

definition syscall_emulate :: "u32 \<Rightarrow> u32 \<Rightarrow> mep \<Rightarrow> mep_res" where
  "syscall_emulate instr pc s = DoSyscall s"

definition functJumpTable :: "(u32 \<Rightarrow> u32 \<Rightarrow> mep \<Rightarrow> mep_res) list" where
  "functJumpTable =
     [sll_emulate, RI_emulate,
      srl_emulate, sra_emulate,
      sllv_emulate, RI_emulate,
      srlv_emulate, srav_emulate,
      jr_emulate, jalr_emulate,
      RI_emulate, RI_emulate,
      syscall_emulate, break_emulate,
      RI_emulate, RI_emulate,
      mfhi_emulate, mthi_emulate,
      mflo_emulate, mtlo_emulate,
      RI_emulate, RI_emulate,
      RI_emulate, RI_emulate,
      mult_emulate, multu_emulate,
      div_emulate, divu_emulate,
      RI_emulate, RI_emulate,
      RI_emulate, RI_emulate,
      add_emulate, addu_emulate,
      sub_emulate, subu_emulate,
      and_emulate, or_emulate,
      xor_emulate, nor_emulate,
      RI_emulate, RI_emulate,
      slt_emulate, sltu_emulate,
      RI_emulate, RI_emulate,
      RI_emulate, RI_emulate,
      RI_emulate, RI_emulate,
      RI_emulate, RI_emulate,
      RI_emulate, RI_emulate,
      RI_emulate, RI_emulate,
      RI_emulate, RI_emulate,
      RI_emulate, RI_emulate,
      RI_emulate, RI_emulate,
      RI_emulate, RI_emulate]"

definition funct_emulate :: "u32 \<Rightarrow> u32 \<Rightarrow> mep \<Rightarrow> mep_res" where
  "funct_emulate instr pc s = (functJumpTable ! funct instr) instr pc s"

definition regimm_emulate :: "u32 \<Rightarrow> u32 \<Rightarrow> mep \<Rightarrow> mep_res" where
  "regimm_emulate instr pc s =
     (if i_rt instr = 0 then bltz_emulate instr pc s
      else if i_rt instr = 1 then bgez_emulate instr pc s
      else if i_rt instr = 16 then bltzal_emulate instr pc s
      else if i_rt instr = 17 then bgezal_emulate instr pc s
      else doException EXCEPTION_RI s)"

definition cpzero_emulate :: "u32 \<Rightarrow> u32 \<Rightarrow> mep \<Rightarrow> mep_res" where
  "cpzero_emulate instr pc s = Inr s"

definition cpone_emulate :: "u32 \<Rightarrow> u32 \<Rightarrow> mep \<Rightarrow> mep_res" where
  "cpone_emulate instr pc s = cop_unimpl instr pc s"

definition cptwo_emulate :: "u32 \<Rightarrow> u32 \<Rightarrow> mep \<Rightarrow> mep_res" where
  "cptwo_emulate instr pc s = RC4_Emulate instr pc s"

definition cpthree_emulate :: "u32 \<Rightarrow> u32 \<Rightarrow> mep \<Rightarrow> mep_res" where
  "cpthree_emulate instr pc s = cop_unimpl instr pc s"

definition opcodeJumpTable :: "(u32 \<Rightarrow> u32 \<Rightarrow> mep \<Rightarrow> mep_res) list" where
  "opcodeJumpTable =
     [funct_emulate, regimm_emulate, j_emulate,
      jal_emulate, beq_emulate, bne_emulate,
      blez_emulate, bgtz_emulate, addi_emulate,
      addiu_emulate, slti_emulate, sltiu_emulate,
      andi_emulate, ori_emulate, xori_emulate,
      lui_emulate, cpzero_emulate, cpone_emulate,
      cptwo_emulate, cpthree_emulate, RI_emulate,
      RI_emulate, RI_emulate, RI_emulate,
      RI_emulate, RI_emulate, RI_emulate,
      RI_emulate, RI_emulate, RI_emulate,
      RI_emulate, RI_emulate, lb_emulate,
      lh_emulate, lwl_emulate, lw_emulate,
      lbu_emulate, lhu_emulate, lwr_emulate,
      RI_emulate, sb_emulate, sh_emulate,
      swl_emulate, sw_emulate, RI_emulate,
      RI_emulate, swr_emulate, RI_emulate,
      RI_emulate, lwc1_emulate, lwc2_emulate,
      lwc3_emulate, RI_emulate, RI_emulate,
      RI_emulate, RI_emulate, RI_emulate,
      swc1_emulate, swc2_emulate, swc3_emulate,
      RI_emulate, RI_emulate, RI_emulate,
      RI_emulate]"

definition mep_exec :: "u32 \<Rightarrow> u32 \<Rightarrow> mep \<Rightarrow> mep_res" where
  "mep_exec instr pc s = (opcodeJumpTable ! opcode instr) instr pc s"

subsection \<open>A step\<close>

definition MAX_CPU_INSTRUCTION_COUNT :: u32 where
  "MAX_CPU_INSTRUCTION_COUNT = 50000000"

definition advanceDelayState :: "mep \<Rightarrow> mep" where
  "advanceDelayState s = s\<lparr>m_delayState := (2 * m_delayState s) mod 4\<rparr>"

definition step_count :: "mep \<Rightarrow> mep_res" where
  "step_count s =
     (let s1 = s\<lparr>m_instrCount := m_instrCount s + 1\<rparr> in
      if m_instrCount s1 > MAX_CPU_INSTRUCTION_COUNT then doException EXCEPTION_MAXINSTR s1 else Inr s1)"

definition step_out :: "mep \<Rightarrow> mep" where
  "step_out s =
     (let s1 = s\<lparr>m_regs := (m_regs s)[0 := 0]\<rparr>;
          s2 = s1\<lparr>m_pc := (if m_delayState s1 = DELAYSTATE_DELAYSLOT then m_delayPC s1 else m_pc s1 + 4)\<rparr>
      in advanceDelayState s2)"

definition step_epc :: "mep \<Rightarrow> mep" where
  "step_epc s = (if m_delayState s \<noteq> DELAYSTATE_DELAYSLOT then s\<lparr>m_nextEpc := m_pc s\<rparr> else s)"

definition mep_step :: "mep \<Rightarrow> mep_res" where
  "mep_step s =
     (let s0 = step_epc s in
      andThen (fetchWord (m_pc s0) s0) (\<lambda>curInstr.
      andThen (mep_exec curInstr (m_pc s0) s0) (\<lambda>s1.
      andThen (step_count s1) (\<lambda>s2. Inr (step_out s2)))))"

text \<open>\<open>Run\<close> repeats the step without an exit of its own.\<close>

definition mep_Run :: "nat \<Rightarrow> mep \<Rightarrow> mep_res option" where
  "mep_Run n s = run_fuel (\<lambda>_. False) mep_step n s"

end
