(* ===== verification/Meps_Loader.thy ===== *)
theory Meps_Loader
  imports Meps_Step
begin

unbundle bit_operations_syntax

text \<open>
  The program of the MIPS emulator (\<open>server/mebloader.cpp\<close>, \<open>server/mpes.cpp\<close>): the file format, \<open>LoadFile\<close>, \<open>Run\<close>
  and \<open>main\<close>. The check of the signature is OpenSSL behind \<open>rsaVerify\<close>, which is a parameter.
\<close>

subsection \<open>File format\<close>

record meb_hdr =
  lsec_offset :: u32
  rsec_offset :: u32
  lsec_num :: nat
  rsec_num :: nat
  sig_offset :: u32

record meb_lsec =
  startAddr :: u32
  fileSize :: u32
  fileOffset :: u32

record meb_rsec =
  regNum :: nat
  regValue :: u32

definition word_at :: "u8 list \<Rightarrow> nat \<Rightarrow> u32" where
  "word_at bs i = bytes_word (take 4 (drop i bs))"

definition half_at :: "u8 list \<Rightarrow> nat \<Rightarrow> nat" where
  "half_at bs i = unat (bs ! i) + 256 * unat (bs ! (i + 1))"

abbreviation (input) sizeof_Hdr :: nat where "sizeof_Hdr \<equiv> 32"
abbreviation (input) sizeof_LSec :: nat where "sizeof_LSec \<equiv> 20"
abbreviation (input) sizeof_RSec :: nat where "sizeof_RSec \<equiv> 8"
abbreviation (input) sizeof_Sig :: nat where "sizeof_Sig \<equiv> 256"

text \<open>The fields that the loader never looks at (magic, version, info, errno address) are left out.\<close>

definition Meb32_Hdr :: "u8 list \<Rightarrow> meb_hdr" where
  "Meb32_Hdr bs = \<lparr>lsec_offset = word_at bs 12, rsec_offset = word_at bs 16, lsec_num = half_at bs 20,
     rsec_num = half_at bs 22, sig_offset = word_at bs 24\<rparr>"

definition Meb32_LSec :: "u8 list \<Rightarrow> meb_lsec" where
  "Meb32_LSec bs = \<lparr>startAddr = word_at bs 0, fileSize = word_at bs 8, fileOffset = word_at bs 12\<rparr>"

definition Meb32_RSec :: "u8 list \<Rightarrow> meb_rsec" where
  "Meb32_RSec bs = \<lparr>regNum = unat (bs ! 0), regValue = word_at bs 4\<rparr>"

subsection \<open>Loading\<close>

datatype meb_refused = File_Too_Small | Too_Many_Sections | Incorrect_Size | Signature_Failed | Offset_Range | LSec_Range

text \<open>
  A section is copied to the memory; a failed copy is ignored. The test of its range wraps, so a section may
  reach beyond the data: the bytes there are copied until a page is missing, and the first byte that is read behind
  the data is \<open>File_Overread\<close>.
\<close>

definition load_section :: "u8 list \<Rightarrow> meb_lsec \<Rightarrow> mep \<Rightarrow> mep_res" where
  "load_section pData sec s =
     (let rest = drop (unat (fileOffset sec)) pData; n = unat (fileSize sec) in
      if n \<le> length rest then
        andThen (in_state s (WriteMemory (startAddr sec) (take n rest) (m_mmu s))) (\<lambda>(done, m). Inr (s\<lparr>m_mmu := m\<rparr>))
      else
        andThen (if rest = [] then Inr (True, m_mmu s) else in_state s (WriteMemory (startAddr sec) rest (m_mmu s)))
          (\<lambda>(done, m).
             let s' = s\<lparr>m_mmu := m\<rparr> in
             if \<not> done then Inr s'
             else andThen (in_state s' (ReadMemory (startAddr sec + of_nat (length rest)) 1 m))
               (\<lambda>r. if r = None then Inr s' else Inl (File_Overread, s'))))"

type_synonym load_res = "mep_stop \<times> mep + (meb_refused + mep)"

fun load_lsecs :: "u8 list \<Rightarrow> meb_hdr \<Rightarrow> nat \<Rightarrow> nat \<Rightarrow> mep \<Rightarrow> load_res" where
  "load_lsecs pData hdr i 0 s = Inr (Inr s)"
| "load_lsecs pData hdr i (Suc n) s =
     (let posOffset = lsec_offset hdr + of_nat (sizeof_LSec * i) in
      if unat posOffset + sizeof_LSec > length pData then Inr (Inl Offset_Range)
      else
        let sec = Meb32_LSec (drop (unat (lsec_offset hdr) + sizeof_LSec * i) pData) in
        if unat (fileOffset sec + fileSize sec) > length pData then Inr (Inl LSec_Range)
        else andThen (load_section pData sec s) (load_lsecs pData hdr (i + 1) n))"

fun load_rsecs :: "u8 list \<Rightarrow> meb_hdr \<Rightarrow> nat \<Rightarrow> nat \<Rightarrow> mep \<Rightarrow> load_res" where
  "load_rsecs pData hdr i 0 s = Inr (Inr s)"
| "load_rsecs pData hdr i (Suc n) s =
     (let posOffset = rsec_offset hdr + of_nat (sizeof_RSec * i) in
      if unat posOffset + sizeof_RSec > length pData then Inr (Inl Offset_Range)
      else
        let sec = Meb32_RSec (drop (unat posOffset) pData) in
        load_rsecs pData hdr (i + 1) n (snd (setRegisterAndPC (regNum sec) (regValue sec) s)))"

definition LoadFile :: "(u8 list \<Rightarrow> u8 list \<Rightarrow> bool) \<Rightarrow> u8 list \<Rightarrow> mep \<Rightarrow> load_res" where
  "LoadFile rsaVerify pData s =
     (if length pData < sizeof_Hdr then Inr (Inl File_Too_Small)
      else
        let hdr = Meb32_Hdr pData in
        if lsec_num hdr > 100 \<or> rsec_num hdr > 33 then Inr (Inl Too_Many_Sections)
        else if length pData < sizeof_Hdr + sizeof_LSec * lsec_num hdr + sizeof_RSec * rsec_num hdr + sizeof_Sig
          then Inr (Inl File_Too_Small)
        else if length pData \<noteq> unat (sig_offset hdr) + sizeof_Sig then Inr (Inl Incorrect_Size)
        else if \<not> rsaVerify (take (unat (sig_offset hdr)) pData) (take sizeof_Sig (drop (unat (sig_offset hdr)) pData))
          then Inr (Inl Signature_Failed)
        else
          let s1 = s\<lparr>m_mmu := snd (mmu_Setup 0x400000 0x430000 (m_mmu s))\<rparr> in
          andThen (load_lsecs pData hdr 0 (lsec_num hdr) s1) (\<lambda>r. case r of
            Inl e \<Rightarrow> Inr (Inl e)
          | Inr s2 \<Rightarrow> load_rsecs pData hdr 0 (rsec_num hdr) (cpu_setup 0 False 0 s2)))"

subsection \<open>The program\<close>

definition MAX_FILE_SIZE :: nat where "MAX_FILE_SIZE = 100000"

fun ReadStdin :: "nat \<Rightarrow> mep \<Rightarrow> u8 list option \<times> mep" where
  "ReadStdin 0 s = (Some [], s)"
| "ReadStdin (Suc n) s =
     (case host_read_of 1 s of
        (Read_Bytes [b], s1) \<Rightarrow> (case ReadStdin n s1 of (r, s2) \<Rightarrow> (map_option (\<lambda>bs. b # bs) r, s2))
      | (_, s1) \<Rightarrow> (None, s1))"

datatype mep_exit = Read_Length_Failed | File_Too_Large | Read_Data_Failed | Load_Error meb_refused | Stopped mep_stop

text \<open>
  \<open>main\<close>, its second half first: \<open>s\<close> holds the answers of the host and the table of the cipher, not initialised; \<open>printf_page\<close> is the word
  of the address of \<open>printf\<close> that goes into the seed; \<open>n\<close> bounds the steps. The time is read once, for the seed.
\<close>

definition mep_load_run :: "(u8 list \<Rightarrow> u8 list \<Rightarrow> bool) \<Rightarrow> nat \<Rightarrow> u8 list \<Rightarrow> mep \<Rightarrow> (mep_exit \<times> mep) option" where
  "mep_load_run rsaVerify n pFileData s =
     (case LoadFile rsaVerify pFileData s of
        Inl (e, s1) \<Rightarrow> Some (Stopped e, s1)
      | Inr (Inl r) \<Rightarrow> Some (Load_Error r, s)
      | Inr (Inr s1) \<Rightarrow>
          (case mep_Run n (s1\<lparr>mep_outs := mep_outs s1 @ [Out_Text ''<<RUNNING>>'']\<rparr>) of
             None \<Rightarrow> None
           | Some (Inl (e, s2)) \<Rightarrow> Some (Stopped e, s2)
           | Some (Inr s2) \<Rightarrow> None))"

definition mep_new :: "mep \<Rightarrow> mep" where
  "mep_new s = cpu_reset (s\<lparr>m_mmu := mmu_new, g_oMMAPTable := []\<rparr>)"

definition mep_main :: "(u8 list \<Rightarrow> u8 list \<Rightarrow> bool) \<Rightarrow> u32 \<Rightarrow> nat \<Rightarrow> mep \<Rightarrow> (mep_exit \<times> mep) option" where
  "mep_main rsaVerify printf_page n s =
     (let (lenBytes, s1) = ReadStdin 4 (mep_new s);
          (t, s2) = take_time s1;
          s3 = seed_prng (t XOR printf_page) s2 in
      case lenBytes of None \<Rightarrow> Some (Read_Length_Failed, s3)
      | Some bs \<Rightarrow>
          let dataSize = unat (bytes_word bs) in
          if dataSize > MAX_FILE_SIZE then Some (File_Too_Large, s3)
          else
            (case ReadStdin dataSize s3 of
               (None, s4) \<Rightarrow> Some (Read_Data_Failed, s4)
             | (Some pFileData, s4) \<Rightarrow> mep_load_run rsaVerify n pFileData s4))"

end
