(* ===== verification/Meps_Inv.thy ===== *)
theory Meps_Inv
  imports Meps_Mem Meps_Loader
begin

unbundle bit_operations_syntax

text \<open>
  The invariant of the MIPS emulator. The pages that are present are those of the code section and of the regions
  the guest mapped, and a mapped region is never mapped again; every instruction keeps this and the shape of the state.
\<close>

subsection \<open>Mapped pages\<close>

definition page_in :: "nat \<Rightarrow> u32 \<times> u32 \<Rightarrow> bool" where
  "page_in i = (\<lambda>(a, l). (unat a - 0x400000) div 4096 \<le> i \<and> i < (unat a - 0x400000) div 4096 + page_count l)"

definition region_ok :: "u32 \<times> u32 \<Rightarrow> bool" where
  "region_ok = (\<lambda>(a, l). unat a mod 4096 = 0 \<and> 0x430000 \<le> unat a \<and> unat a + unat l \<le> 0x1000000)"

definition mmap_ok :: "mmu \<Rightarrow> (u32 \<times> u32) list \<Rightarrow> bool" where
  "mmap_ok m table \<longleftrightarrow> mmu_ok m \<and> m_baseAddress m = 0x400000 \<and> (\<forall>e \<in> set table. region_ok e)
     \<and> (\<forall>i < 3072. m_pages m ! i \<noteq> None \<longleftrightarrow> i < 48 \<or> (\<exists>e \<in> set table. page_in i e))"

lemma present_mem_at:
  assumes "mmu_ok m" "i < 3072"
  shows "m_pages m ! i \<noteq> None \<longleftrightarrow> mem_at m (unat (m_baseAddress m) + 4096 * i) \<noteq> None"
  using assms by (simp add: mem_at_page)

lemma mem_put_None:
  assumes "those (mem_list m a (length data)) \<noteq> None"
  shows "mem_put (mem_at m) a data x = None \<longleftrightarrow> mem_at m x = None"
proof -
  have "mem_at m x \<noteq> None" if "a \<le> x" "x < a + length data"
  proof
    assume none: "mem_at m x = None"
    have "mem_at m x \<in> set (mem_list m a (length data))" using that by (simp add: mem_list_def)
    from those_None [OF none this] show False using assms by simp
  qed
  then show ?thesis by (auto simp: mem_put_def)
qed

lemma those_take: "those (mem_list m a n) \<noteq> None \<Longrightarrow> k \<le> n \<Longrightarrow> those (mem_list m a k) \<noteq> None"
  using mem_list_add [of m a k "n - k"] by (auto simp: those_append split: option.splits)

lemma WriteMemory_mmap_ok:
  assumes "mmap_ok m table" "WriteMemory address data m = Inr (fin, m')"
  shows "mmap_ok m' table"
proof -
  have m: "mmu_ok m" using assms by (simp add: mmap_ok_def)
  obtain k where k: "mmu_ok m'" "m_baseAddress m' = m_baseAddress m"
      "mem_at m' = mem_put (mem_at m) (unat address) (take k data)" "those (mem_list m (unat address) k) \<noteq> None"
    using WriteMemory_writes [OF m, of address data] assms(2) by auto
  have "those (mem_list m (unat address) (length (take k data))) \<noteq> None"
    using those_take [OF k(4), of "length (take k data)"] by simp
  then have "mem_at m' x = None \<longleftrightarrow> mem_at m x = None" for x using mem_put_None k(3) by simp
  then have "i < 3072 \<Longrightarrow> m_pages m' ! i \<noteq> None \<longleftrightarrow> m_pages m ! i \<noteq> None" for i
    using present_mem_at [OF m] present_mem_at [OF k(1)] k(2) by simp
  then show ?thesis using assms(1) k(1,2) by (simp add: mmap_ok_def)
qed

text \<open>New numbers: none is drawn twice, and none is the host address of a page.\<close>

definition new_hosts :: "u32 list \<Rightarrow> mmu \<Rightarrow> bool" where
  "new_hosts vs m \<longleftrightarrow> distinct vs \<and> set vs \<inter> set (m_hosts m) = {}"

lemma add_pages_shared:
  assumes "length (m_pages m) = 3072" "i + length vs \<le> 3072" "\<And>j. i \<le> j \<Longrightarrow> j < i + length vs \<Longrightarrow> m_pages m ! j = None" "\<not> new_hosts vs m"
  shows "\<exists>j. i \<le> j \<and> j < i + length vs \<and> add_pages i vs m k = Inl (Page_Shared j)"
  using assms
proof (induction vs arbitrary: i m k)
  case (Cons v vs)
  let ?m = "m\<lparr>m_pages := (m_pages m)[i := Some (page_zero PAGE_TYPE_MMAP)], m_hosts := v # m_hosts m\<rparr>"
  have i: "i < 3072" "m_pages m ! i = None" using Cons.prems(2,3) by simp_all
  show ?case
  proof (cases "v \<in> set (m_hosts m)")
    case True
    then show ?thesis using i Cons.prems(1) by (intro exI [of _ i]) simp
  next
    case False
    then have "\<not> new_hosts vs ?m" using Cons.prems(4) by (auto simp: new_hosts_def)
    moreover have "\<And>j. i + 1 \<le> j \<Longrightarrow> j < i + 1 + length vs \<Longrightarrow> m_pages ?m ! j = None" using Cons.prems(3) by simp
    ultimately obtain j where "i + 1 \<le> j" "j < i + 1 + length vs" "add_pages (i + 1) vs ?m (k + 1) = Inl (Page_Shared j)"
      using Cons.IH [of ?m "i + 1" "k + 1"] Cons.prems(1,2) by auto
    then show ?thesis using i False Cons.prems(1) by (intro exI [of _ j]) simp
  qed
qed (simp add: new_hosts_def)

lemma add_pages_fresh:
  assumes "mmu_ok m" "n = length vs" "i + n \<le> 3072" "\<And>j. i \<le> j \<Longrightarrow> j < i + n \<Longrightarrow> m_pages m ! j = None" "new_hosts vs m"
  shows "\<exists>m'. add_pages i vs m k = Inr (True, m', k + n) \<and> mmu_ok m' \<and> m_baseAddress m' = m_baseAddress m
    \<and> m_hosts m' = rev vs @ m_hosts m
    \<and> (\<forall>j < 3072. m_pages m' ! j = (if i \<le> j \<and> j < i + n then Some (page_zero PAGE_TYPE_MMAP) else m_pages m ! j))"
  using assms
proof (induction vs arbitrary: i n m k)
  case Nil
  then show ?case by auto
next
  case (Cons v vs)
  define n0 where "n0 = length vs"
  have n: "n = Suc n0" using Cons.prems(2) by (simp add: n0_def)
  let ?m = "m\<lparr>m_pages := (m_pages m)[i := Some (page_zero PAGE_TYPE_MMAP)], m_hosts := v # m_hosts m\<rparr>"
  have v: "v \<notin> set (m_hosts m)" "new_hosts vs ?m" using Cons.prems(5) by (auto simp: new_hosts_def)
  have len: "length (m_pages m) = 3072" using mmu_okD(1) [OF Cons.prems(1)] .
  have ok: "mmu_ok ?m"
    using Cons.prems(1) by (auto simp: mmu_ok_def mmu_consts page_zero_def dest!: set_update_subset_insert [THEN subsetD])
  have "\<And>j. i + 1 \<le> j \<Longrightarrow> j < i + 1 + n0 \<Longrightarrow> m_pages ?m ! j = None" using Cons.prems(4) n by simp
  then obtain m' where m': "add_pages (i + 1) vs ?m (k + 1) = Inr (True, m', k + 1 + n0)" "mmu_ok m'"
      "m_baseAddress m' = m_baseAddress m" "m_hosts m' = rev vs @ m_hosts ?m"
      "\<forall>j < 3072. m_pages m' ! j = (if i + 1 \<le> j \<and> j < i + 1 + n0 then Some (page_zero PAGE_TYPE_MMAP) else m_pages ?m ! j)"
    using Cons.IH [OF ok n0_def, of "i + 1" "k + 1"] Cons.prems(3) n v(2) by auto
  have "m_pages m' ! j = (if i \<le> j \<and> j < i + n then Some (page_zero PAGE_TYPE_MMAP) else m_pages m ! j)" if "j < 3072" for j
    using m'(5) that Cons.prems(3) n len by (auto simp: nth_list_update)
  then show ?case using m'(1-4) Cons.prems(3,4) n len v(1) by (intro exI [of _ m']) (auto simp del: add_pages.simps simp: add_pages.simps(2))
qed

text \<open>The clash test is over bytes; as the regions start at pages, regions that pass it share no page.\<close>

lemma page_count_le: "unat l \<le> 4096 * page_count l" "4096 * page_count l < unat l + 4096"
proof -
  obtain q r where l: "unat l = 4096 * q + r" "r < 4096"
    using that [of "unat l div 4096" "unat l mod 4096"] by simp
  then have "page_count l = (if r = 0 then q else q + 1)" by (simp add: page_count_def mmu_consts)
  then show "unat l \<le> 4096 * page_count l" "4096 * page_count l < unat l + 4096" using l by auto
qed

lemma no_clash_pages:
  assumes "region_ok (a, l)" "region_ok (a', l')" "\<not> mmap_clash a (a + l) (a', l')"
    and i: "page_in i (a, l)" and j: "page_in i (a', l')"
  shows False
proof -
  obtain q q' where q: "unat a = 4096 * q + 0x400000" "unat a' = 4096 * q' + 0x400000"
    using assms(1,2) that [of "(unat a - 0x400000) div 4096" "(unat a' - 0x400000) div 4096"]
    by (auto simp: region_ok_def)
  have sums: "unat (a + l) = unat a + unat l" "unat (a' + l') = unat a' + unat l'"
    using assms(1,2) by (simp_all add: region_ok_def unat_add_lem [THEN iffD1])
  have "\<not> (unat a \<le> unat a' \<and> unat a' < unat a + unat l)"
       "\<not> (unat a < unat a' + unat l' \<and> unat a' + unat l' \<le> unat a + unat l)"
       "\<not> (unat a' < unat a \<and> unat a' + unat l' > unat a + unat l)"
    using assms(3) sums by (auto simp: mmap_clash_def Let_def word_less_nat_alt word_le_nat_alt)
  then have "unat a + unat l \<le> unat a' \<or> unat a' + unat l' \<le> unat a" by linarith
  moreover have "q \<le> i" "i < q + page_count l" "q' \<le> i" "i < q' + page_count l'"
    using i j q by (simp_all add: page_in_def)
  ultimately show False using q page_count_le [of l] page_count_le [of l'] by linarith
qed

text \<open>
  A region that is not refused lies on fresh pages, so mapping it succeeds; only the empty region at the end of the
  memory passes the tests and is then refused.
\<close>

lemma not_refused:
  assumes "\<not> mmap_refused a l table"
  obtains q where "region_ok (a, l)" "unat a + unat l \<le> 0x1000000" "unat a = 4096 * q + 0x400000" "48 \<le> q"
    "q + page_count l \<le> 3072" "\<And>i. page_in i (a, l) \<longleftrightarrow> q \<le> i \<and> i < q + page_count l"
proof -
  have "unat a + unat l \<le> 0x1000000" "a \<ge> 0x430000" "a AND 0xFFF = 0"
    using assms by (auto simp: mmap_refused_def)
  moreover have "a AND 0xFFF = take_bit 12 a" by (simp add: take_bit_eq_mask mask_numeral)
  then have "unat (a AND 0xFFF) = unat a mod 4096" by (simp add: unat_mod_distrib take_bit_eq_mod)
  ultimately have r: "region_ok (a, l)" "unat a + unat l \<le> 0x1000000" "0x430000 \<le> unat a" "unat a mod 4096 = 0"
    by (auto simp: region_ok_def word_le_nat_alt)
  obtain q where q: "unat a = 4096 * q + 0x400000" "48 \<le> q"
    using r(3,4) that [of "(unat a - 0x400000) div 4096"] by fastforce
  moreover have "q + page_count l \<le> 3072" using q(1) r(2) page_count_le [of l] by linarith
  moreover have "page_in i (a, l) \<longleftrightarrow> q \<le> i \<and> i < q + page_count l" for i using q by (simp add: page_in_def)
  ultimately show thesis using that r(1,2) by blast
qed

lemma fresh_pages:
  assumes "mmap_ok m table" "\<not> mmap_refused a l table" "i < 3072" "page_in i (a, l)"
  shows "m_pages m ! i = None"
proof (rule ccontr)
  obtain q where q: "region_ok (a, l)" "48 \<le> q" "\<And>i. page_in i (a, l) \<longleftrightarrow> q \<le> i \<and> i < q + page_count l"
    by (rule not_refused [OF assms(2)]) blast
  assume "m_pages m ! i \<noteq> None"
  then have "\<exists>e \<in> set table. page_in i e" using assms(1,3,4) q(2,3) by (auto simp: mmap_ok_def)
  then obtain a' l' where e: "(a', l') \<in> set table" "page_in i (a', l')" by auto
  have "region_ok (a', l')" using assms(1) e(1) by (auto simp: mmap_ok_def)
  moreover have "\<not> mmap_clash a (a + l) (a', l')" using assms(2) e(1) by (auto simp: mmap_refused_def list_ex_iff)
  ultimately show False using no_clash_pages [OF q(1)] assms(4) e(2) by blast
qed

lemma AddMMAPRegion_fresh:
  assumes "mmap_ok m table" "\<not> mmap_refused a l table" "a < MMU_MAX_ADDRESS" "length vs = page_count l"
  shows "if new_hosts vs m
    then \<exists>m'. AddMMAPRegion a l vs m = Inr (True, m', page_count l) \<and> mmap_ok m' (table @ [(a, l)])
      \<and> m_hosts m' = rev vs @ m_hosts m
      \<and> (\<forall>i < 3072. m_pages m' ! i =
         (if page_in i (a, l) then Some (page_zero PAGE_TYPE_MMAP) else m_pages m ! i))
    else \<exists>i. page_in i (a, l) \<and> AddMMAPRegion a l vs m = Inl (Page_Shared i)"
proof -
  have m: "mmu_ok m" using assms(1) by (simp add: mmap_ok_def)
  obtain q where q: "region_ok (a, l)" "unat a + unat l \<le> 0x1000000" "unat a = 4096 * q + 0x400000" "48 \<le> q"
    and top: "q + page_count l \<le> 3072" and in_iff: "\<And>i. page_in i (a, l) \<longleftrightarrow> q \<le> i \<and> i < q + page_count l"
    by (rule not_refused [OF assms(2)]) blast
  have first: "unat (a - MMU_BASE_ADDRESS) div 4096 = q"
    using q(3) by (simp add: MMU_BASE_ADDRESS_def unat_sub word_le_nat_alt)
  have free: "m_pages m ! i = None" if "q \<le> i" "i < q + page_count l" for i
    using fresh_pages [OF assms(1,2)] in_iff that top by simp
  have al: "unat (a + l) = unat a + unat l" using q(2) by (simp add: unat_add_lem [THEN iffD1])
  have region: "AddMMAPRegion a l vs m = add_pages q vs m 0"
    using first q(2-4) assms(3) al
    by (simp add: AddMMAPRegion_def mmu_consts word_less_nat_alt word_le_nat_alt MMU_MAX_ADDRESS_def MMU_BASE_ADDRESS_def)
  show ?thesis
  proof (cases "new_hosts vs m")
    case False
    obtain j where "q \<le> j" "j < q + page_count l" "add_pages q vs m 0 = Inl (Page_Shared j)"
      using add_pages_shared [OF mmu_okD(1) [OF m], of q vs 0] top free False assms(4) by auto
    then show ?thesis using False region in_iff by auto
  next
    case True
    obtain m' where m': "add_pages q vs m 0 = Inr (True, m', page_count l)" "mmu_ok m'"
        "m_baseAddress m' = m_baseAddress m" "m_hosts m' = rev vs @ m_hosts m"
        "\<forall>j < 3072. m_pages m' ! j = (if q \<le> j \<and> j < q + page_count l then Some (page_zero PAGE_TYPE_MMAP) else m_pages m ! j)"
      using add_pages_fresh [OF m assms(4) [symmetric] top free True, of 0] by auto
    have "AddMMAPRegion a l vs m = Inr (True, m', page_count l)" using m'(1) region by simp
    moreover have "mmap_ok m' (table @ [(a, l)])"
      using assms(1) m'(2,3,5) q(1) in_iff by (auto simp: mmap_ok_def)
    ultimately show ?thesis using m'(4,5) in_iff True by auto
  qed
qed

subsection \<open>Instructions keep the invariant\<close>

definition mep_ok :: "mep \<Rightarrow> bool" where
  "mep_ok s \<longleftrightarrow> mmap_ok (m_mmu s) (g_oMMAPTable s) \<and> length (g_oMMAPTable s) \<le> MMAP_TABLE_SIZE \<and> length (m_regs s) = 32
     \<and> m_delayState s \<le> DELAYSTATE_DELAYSLOT \<and> length (prng_state s) = 32 \<and> state_n s < 32 \<and> length (m_state s) = 256"

text \<open>No instruction changes the count of instructions.\<close>

definition mep_inv :: "u32 \<Rightarrow> mep \<Rightarrow> bool" where
  "mep_inv c s \<longleftrightarrow> mep_ok s \<and> m_instrCount s = c"

definition end_state :: "mep_res \<Rightarrow> mep" where
  "end_state r = (case r of Inl (e, s) \<Rightarrow> s | Inr s \<Rightarrow> s)"

text \<open>What stops an instruction: not the limit of the instructions; of the accesses that are not defined, that to the page
  table is one entry behind it and that to the handlers is before them; a file is not read.\<close>

fun stop_place :: "mep_stop \<Rightarrow> bool" where
  "stop_place (Exception e pc) \<longleftrightarrow> e \<noteq> EXCEPTION_MAXINSTR"
| "stop_place (Page_Table i) \<longleftrightarrow> i = 3072"
| "stop_place (Jump_Table k) \<longleftrightarrow> k < 0"
| "stop_place File_Overread \<longleftrightarrow> False"
| "stop_place _ \<longleftrightarrow> True"

lemma below_limit [simp]: "EXCEPTION_AdEL \<noteq> EXCEPTION_MAXINSTR" "EXCEPTION_AdES \<noteq> EXCEPTION_MAXINSTR" "EXCEPTION_Bp \<noteq> EXCEPTION_MAXINSTR"
    "EXCEPTION_RI \<noteq> EXCEPTION_MAXINSTR" "EXCEPTION_CpU \<noteq> EXCEPTION_MAXINSTR" "EXCEPTION_Ov \<noteq> EXCEPTION_MAXINSTR"
    "EXCEPTION_HSC \<noteq> EXCEPTION_MAXINSTR"
  by (simp_all add: EXCEPTION_AdEL_def EXCEPTION_AdES_def EXCEPTION_Bp_def EXCEPTION_RI_def EXCEPTION_CpU_def EXCEPTION_Ov_def
      EXCEPTION_HSC_def EXCEPTION_MAXINSTR_def)

definition keeps :: "u32 \<Rightarrow> mep_res \<Rightarrow> bool" where
  "keeps c r \<longleftrightarrow> mep_inv c (end_state r) \<and> (\<forall>e s. r = Inl (e, s) \<longrightarrow> stop_place e)"

definition stops_ok :: "u32 \<Rightarrow> mep_stop \<times> mep + 'a \<Rightarrow> bool" where
  "stops_ok c r \<longleftrightarrow> (\<forall>e s. r = Inl (e, s) \<longrightarrow> mep_inv c s \<and> stop_place e)"

named_theorems keeps_intros "how the parts of an instruction keep the invariant"

lemma keeps_simps [simp]: "keeps c (Inr s) = mep_inv c s" "keeps c (Inl (e, s)) \<longleftrightarrow> mep_inv c s \<and> stop_place e"
  by (simp_all add: keeps_def end_state_def)

lemma mep_inv_updates [simp]:
  "mep_inv c (setReg r v s) = mep_inv c s" "mep_inv c (s\<lparr>m_hi := h\<rparr>) = mep_inv c s" "mep_inv c (s\<lparr>m_lo := l\<rparr>) = mep_inv c s"
  "mep_inv c (s\<lparr>m_regs := (m_regs s)[r := v]\<rparr>) = mep_inv c s" "mep_inv c (s\<lparr>mep_outs := out\<rparr>) = mep_inv c s"
  "mep_inv c (s\<lparr>host_reads := hr\<rparr>) = mep_inv c s" "mep_inv c (s\<lparr>host_writes := hw\<rparr>) = mep_inv c s"
  "mep_inv c (s\<lparr>host_times := ht\<rparr>) = mep_inv c s" "mep_inv c (s\<lparr>m_pc := p\<rparr>) = mep_inv c s"
  "mep_inv c (s\<lparr>m_nextEpc := p\<rparr>) = mep_inv c s" "mep_inv c (s\<lparr>m_delayPC := p\<rparr>) = mep_inv c s"
  by (simp_all add: mep_inv_def mep_ok_def setReg_def)

lemma mep_inv_control_transfer [keeps_intros]: "mep_inv c s \<Longrightarrow> mep_inv c (control_transfer a s)"
  by (simp add: mep_inv_def mep_ok_def control_transfer_def)

lemma keeps_doException [keeps_intros]: "mep_inv c s \<Longrightarrow> e \<noteq> EXCEPTION_MAXINSTR \<Longrightarrow> keeps c (doException e s)"
  by (simp add: doException_def)

lemma keeps_andThen [keeps_intros]: "stops_ok c r \<Longrightarrow> (\<And>x. r = Inr x \<Longrightarrow> keeps c (f x)) \<Longrightarrow> keeps c (andThen r f)"
  by (cases r) (auto simp: stops_ok_def)

lemma stops_ok_andThen [keeps_intros]: "stops_ok c r \<Longrightarrow> (\<And>x. r = Inr x \<Longrightarrow> stops_ok c (f x)) \<Longrightarrow> stops_ok c (andThen r f)"
  by (cases r) (auto simp: stops_ok_def)

lemma stops_ok_Inr [simp]: "stops_ok c (Inr x)"
  by (simp add: stops_ok_def)

lemma stops_ok_in_state: "mep_inv c s \<Longrightarrow> (\<And>e. r = Inl e \<Longrightarrow> stop_place e) \<Longrightarrow> stops_ok c (in_state s r)"
  by (cases r) (auto simp: stops_ok_def in_state_def)

lemma ReadMemory_stop: "ReadMemory a n m = Inl e \<Longrightarrow> length (m_pages m) = 3072 \<Longrightarrow> e = Page_Table 3072"
proof (induction n arbitrary: a rule: less_induct)
  case (less n)
  have IH: "ReadMemory b k m = Inl e \<Longrightarrow> k < n \<Longrightarrow> e = Page_Table 3072" for b k using less by blast
  have "unat a mod 4096 < 4096" by simp
  then show ?case using less.prems
    by (subst (asm) ReadMemory.simps)
      (auto simp: Let_def mmu_consts andThen_def split: if_splits option.splits sum.splits dest!: IH)
qed

lemma WriteMemory_stop: "WriteMemory a bs m = Inl e \<Longrightarrow> length (m_pages m) = 3072 \<Longrightarrow> e = Page_Table 3072"
proof (induction "length bs" arbitrary: a bs m rule: less_induct)
  case less
  have IH: "WriteMemory b cs m' = Inl e \<Longrightarrow> length cs < length bs \<Longrightarrow> length (m_pages m') = 3072 \<Longrightarrow> e = Page_Table 3072" for b cs m'
    using less.hyps by blast
  have "unat a mod 4096 < 4096" by simp
  then show ?case using less.prems
    by (subst (asm) WriteMemory.simps)
      (auto simp: Let_def mmu_consts neq_Nil_conv split: if_splits option.splits dest!: IH)
qed

lemma mep_inv_pages: "mep_inv c s \<Longrightarrow> length (m_pages (m_mmu s)) = 3072"
  by (simp add: mep_inv_def mep_ok_def mmap_ok_def mmu_ok_def mmu_consts)

lemma stops_ok_transfer [keeps_intros]:
  assumes "mep_inv c s"
  shows "stops_ok c (in_state s (ReadMemory a n (m_mmu s)))" "stops_ok c (in_state s (WriteMemory a bs (m_mmu s)))"
  using assms by (auto intro!: stops_ok_in_state dest: ReadMemory_stop WriteMemory_stop mep_inv_pages)

lemma stops_ok_doException [keeps_intros]: "mep_inv c s \<Longrightarrow> e \<noteq> EXCEPTION_MAXINSTR \<Longrightarrow> stops_ok c (doException e s)"
  by (simp add: doException_def stops_ok_def)

lemma in_state_Inr: "in_state s r = Inr x \<longleftrightarrow> r = Inr x"
  by (cases r) (auto simp: in_state_def)

lemma mep_inv_mmu: "mep_inv c s \<Longrightarrow> mmap_ok m (g_oMMAPTable s) \<Longrightarrow> mep_inv c (s\<lparr>m_mmu := m\<rparr>)"
  by (simp add: mep_inv_def mep_ok_def)

lemma mep_inv_write: "mep_inv c s \<Longrightarrow> in_state s (WriteMemory a bs (m_mmu s)) = Inr (fin, m) \<Longrightarrow> mep_inv c (s\<lparr>m_mmu := m\<rparr>)"
  by (rule mep_inv_mmu) (auto simp: in_state_Inr mep_inv_def mep_ok_def dest: WriteMemory_mmap_ok)

lemma stops_ok_load [keeps_intros]: "mep_inv c s \<Longrightarrow> stops_ok c (mep_load n a s)"
  by (auto simp: mep_load_def split: option.splits intro!: keeps_intros)

lemma stops_ok_fetch [keeps_intros]:
  assumes "mep_inv c s"
  shows "stops_ok c (fetchWord a s)" "stops_ok c (fetchHalfword a s)" "stops_ok c (fetchByte a s)"
  using assms by (auto simp: fetchWord_def fetchHalfword_def fetchByte_def intro!: keeps_intros)

lemma keeps_store [keeps_intros]: "mep_inv c s \<Longrightarrow> keeps c (mep_store a bs s)"
  unfolding mep_store_def
  by (rule keeps_andThen) (auto split: prod.splits intro!: keeps_intros mep_inv_write)

lemma keeps_store_sizes [keeps_intros]:
  assumes "mep_inv c s"
  shows "keeps c (storeWord a w s)" "keeps c (storeHalfword a h s)" "keeps c (storeByte a b s)"
  using assms by (auto simp: storeWord_def storeHalfword_def storeByte_def intro!: keeps_intros)

lemma mep_inv_branch [keeps_intros]: "mep_inv c s \<Longrightarrow> mep_inv c (branch instr pc s)" "mep_inv c s \<Longrightarrow> mep_inv c (jump instr pc s)"
  by (auto simp: branch_def jump_def intro!: keeps_intros)

lemma keeps_branch_if [keeps_intros]: "mep_inv c s \<Longrightarrow> keeps c (branch_if b instr pc s)"
  by (auto simp: branch_if_def intro!: keeps_intros)

lemma keeps_jumps [keeps_intros]:
  assumes "mep_inv c s"
  shows "keeps c (j_emulate i pc s)" "keeps c (jal_emulate i pc s)" "keeps c (beq_emulate i pc s)"
    "keeps c (bne_emulate i pc s)" "keeps c (blez_emulate i pc s)" "keeps c (bgtz_emulate i pc s)"
    "keeps c (bltz_emulate i pc s)" "keeps c (bgez_emulate i pc s)" "keeps c (bltzal_emulate i pc s)"
    "keeps c (bgezal_emulate i pc s)" "keeps c (jr_emulate i pc s)" "keeps c (jalr_emulate i pc s)"
  using assms
  by (auto simp: j_emulate_def jal_emulate_def beq_emulate_def bne_emulate_def blez_emulate_def bgtz_emulate_def bltz_emulate_def bgez_emulate_def bltzal_emulate_def bgezal_emulate_def jr_emulate_def jalr_emulate_def Let_def
      split: prod.splits intro!: keeps_intros)

lemma keeps_immediates [keeps_intros]:
  assumes "mep_inv c s"
  shows "keeps c (addi_emulate i pc s)" "keeps c (addiu_emulate i pc s)" "keeps c (slti_emulate i pc s)"
    "keeps c (sltiu_emulate i pc s)" "keeps c (andi_emulate i pc s)" "keeps c (ori_emulate i pc s)"
    "keeps c (xori_emulate i pc s)" "keeps c (lui_emulate i pc s)"
  using assms
  by (auto simp: addi_emulate_def addiu_emulate_def slti_emulate_def sltiu_emulate_def andi_emulate_def ori_emulate_def xori_emulate_def lui_emulate_def Let_def
      split: prod.splits intro!: keeps_intros)

lemma keeps_loads [keeps_intros]:
  assumes "mep_inv c s"
  shows "keeps c (lb_emulate i pc s)" "keeps c (lh_emulate i pc s)" "keeps c (lw_emulate i pc s)"
    "keeps c (lbu_emulate i pc s)" "keeps c (lhu_emulate i pc s)" "keeps c (lwl_emulate i pc s)"
    "keeps c (lwr_emulate i pc s)"
  using assms
  by (auto simp: lb_emulate_def lh_emulate_def lw_emulate_def lbu_emulate_def lhu_emulate_def lwl_emulate_def lwr_emulate_def Let_def
      split: prod.splits intro!: keeps_intros)

lemma keeps_stores [keeps_intros]:
  assumes "mep_inv c s"
  shows "keeps c (sb_emulate i pc s)" "keeps c (sh_emulate i pc s)" "keeps c (sw_emulate i pc s)"
    "keeps c (swl_emulate i pc s)" "keeps c (swr_emulate i pc s)"
  using assms
  by (auto simp: sb_emulate_def sh_emulate_def sw_emulate_def swl_emulate_def swr_emulate_def Let_def
      split: prod.splits intro!: keeps_intros)

lemma keeps_coprocessor [keeps_intros]:
  assumes "mep_inv c s"
  shows "keeps c (lwc1_emulate i pc s)" "keeps c (lwc2_emulate i pc s)" "keeps c (swc1_emulate i pc s)"
    "keeps c (swc2_emulate i pc s)" "keeps c (swc3_emulate i pc s)" "keeps c (lwc3_emulate i pc s)"
    "keeps c (RI_emulate i pc s)" "keeps c (cpone_emulate i pc s)" "keeps c (cpthree_emulate i pc s)"
    "keeps c (cpzero_emulate i pc s)"
  using assms
  by (auto simp: lwc1_emulate_def lwc2_emulate_def swc1_emulate_def swc2_emulate_def swc3_emulate_def lwc3_emulate_def RI_emulate_def cpone_emulate_def cpthree_emulate_def cpzero_emulate_def cop_unimpl_def Let_def
      split: prod.splits intro!: keeps_intros)

lemma keeps_shifts [keeps_intros]:
  assumes "mep_inv c s"
  shows "keeps c (sll_emulate i pc s)" "keeps c (srl_emulate i pc s)" "keeps c (sra_emulate i pc s)"
    "keeps c (sllv_emulate i pc s)" "keeps c (srlv_emulate i pc s)" "keeps c (srav_emulate i pc s)"
  using assms
  by (auto simp: sll_emulate_def srl_emulate_def sra_emulate_def sllv_emulate_def srlv_emulate_def srav_emulate_def Let_def
      split: prod.splits intro!: keeps_intros)

lemma keeps_multiplications [keeps_intros]:
  assumes "mep_inv c s"
  shows "keeps c (break_emulate i pc s)" "keeps c (mfhi_emulate i pc s)" "keeps c (mthi_emulate i pc s)"
    "keeps c (mflo_emulate i pc s)" "keeps c (mtlo_emulate i pc s)" "keeps c (mult_emulate i pc s)"
    "keeps c (multu_emulate i pc s)" "keeps c (div_emulate i pc s)" "keeps c (divu_emulate i pc s)"
  using assms
  by (auto simp: break_emulate_def mfhi_emulate_def mthi_emulate_def mflo_emulate_def mtlo_emulate_def mult_emulate_def multu_emulate_def div_emulate_def divu_emulate_def Let_def
      split: prod.splits intro!: keeps_intros)

lemma keeps_registers [keeps_intros]:
  assumes "mep_inv c s"
  shows "keeps c (add_emulate i pc s)" "keeps c (addu_emulate i pc s)" "keeps c (sub_emulate i pc s)"
    "keeps c (subu_emulate i pc s)" "keeps c (and_emulate i pc s)" "keeps c (or_emulate i pc s)"
    "keeps c (xor_emulate i pc s)" "keeps c (nor_emulate i pc s)" "keeps c (slt_emulate i pc s)"
    "keeps c (sltu_emulate i pc s)"
  using assms
  by (auto simp: add_emulate_def addu_emulate_def sub_emulate_def subu_emulate_def and_emulate_def or_emulate_def xor_emulate_def nor_emulate_def slt_emulate_def sltu_emulate_def Let_def
      split: prod.splits intro!: keeps_intros)

subsection \<open>The cipher and the system calls\<close>

lemma length_rc4_swap [simp]: "length (rc4_swap i j st) = length st"
  by (simp add: rc4_swap_def)

lemma length_ksa: "length (snd (fold (ksa_step key) is (j, st))) = length st"
  by (induction "is" arbitrary: j st) (auto simp: ksa_step_def Let_def)

lemma length_rc4_drop: "length (snd (snd ((rc4_drop_step ^^ n) (i, j, st)))) = length st"
  by (induction n) (auto simp: rc4_drop_step_def Let_def split: prod.splits)

lemma length_InitKSA [simp]: "length (InitKSA key n) = 256"
proof -
  obtain j st where p: "fold (ksa_step key) [0..<256] (0, map of_nat [0..<256]) = (j, st)" by (meson surj_pair)
  then have "length st = 256" using length_ksa [of key "[0..<256]" 0 "map of_nat [0..<256]"] by (simp del: upt_rec_numeral)
  then show ?thesis using p length_rc4_drop [of n 256 j st] by (simp add: InitKSA_def split_beta del: upt_rec_numeral)
qed

lemma length_rc4_bytes: "rc4_bytes i j bs st = (cs, st') \<Longrightarrow> length st' = length st \<and> length cs = length bs"
  by (induction i j bs st arbitrary: cs st' rule: rc4_bytes.induct) (auto simp: Let_def split: prod.splits)

lemma length_RC4Block: "RC4Block bs n st = (cs, st') \<Longrightarrow> length st' = length st \<and> length cs = length bs"
  by (auto simp: RC4Block_def Let_def split: prod.splits dest: length_rc4_bytes)

lemma mep_inv_m_state: "mep_inv c s \<Longrightarrow> length st = 256 \<Longrightarrow> mep_inv c (s\<lparr>m_state := st\<rparr>)"
  by (simp add: mep_inv_def mep_ok_def)

lemma mep_inv_length_m_state: "mep_inv c s \<Longrightarrow> length (m_state s) = 256"
  by (simp add: mep_inv_def mep_ok_def)

lemma keeps_rc4 [keeps_intros]:
  assumes "mep_inv c s"
  shows "keeps c (RC4_Emulate i pc s)"
proof -
  have "keeps c (case RC4Block bs n (m_state s) of (block, st) \<Rightarrow> mep_store a block (s\<lparr>m_state := st\<rparr>))" for bs n a
    using length_RC4Block [of bs n "m_state s"] mep_inv_length_m_state [OF assms] assms
    by (auto split: prod.splits intro!: keeps_intros mep_inv_m_state)
  then show ?thesis using assms
    by (auto simp: RC4_Emulate_def rc4_init_emulate_def rc4_encrypt_emulate_def Let_def split: option.splits
        intro!: keeps_intros mep_inv_m_state)
qed

lemma mep_inv_prng [keeps_intros]: "mep_inv c s \<Longrightarrow> mep_inv c (snd (prng s))"
  by (simp add: prng_def split_beta mep_inv_def mep_ok_def)

lemma mep_inv_prngs [keeps_intros]: "mep_inv c s \<Longrightarrow> mep_inv c (((\<lambda>s. snd (prng s)) ^^ n) s)"
  by (induction n) (auto intro: keeps_intros)

lemma prng_same [simp]:
  "g_oMMAPTable (((\<lambda>s. snd (prng s)) ^^ n) s) = g_oMMAPTable s" "m_mmu (((\<lambda>s. snd (prng s)) ^^ n) s) = m_mmu s"
  "m_regs (((\<lambda>s. snd (prng s)) ^^ n) s) = m_regs s" "m_delayState (((\<lambda>s. snd (prng s)) ^^ n) s) = m_delayState s"
  "m_state (((\<lambda>s. snd (prng s)) ^^ n) s) = m_state s" "m_instrCount (((\<lambda>s. snd (prng s)) ^^ n) s) = m_instrCount s"
  "length (prng_state (((\<lambda>s. snd (prng s)) ^^ n) s)) = length (prng_state s)"
  by (induction n) (simp_all add: prng_def split_beta)

lemma prng_state_n: "state_n s < 32 \<Longrightarrow> state_n (((\<lambda>s. snd (prng s)) ^^ n) s) < 32"
  by (induction n) (simp_all add: prng_def split_beta)

lemma keeps_DoRead [keeps_intros]:
  assumes "mep_inv c s"
  shows "keeps c (DoRead s)"
proof -
  have "mep_inv c (snd (host_read_of n s))" for n
    using assms by (auto simp: host_read_of_def split: list.splits host_read.splits)
  then have "host_read_of n s = (r, s1) \<Longrightarrow> mep_inv c s1" for n r s1 by (metis snd_conv)
  then show ?thesis using assms unfolding DoRead_def
    by (auto simp: Let_def split: prod.splits host_read.splits list.splits intro!: keeps_intros mep_inv_write)
qed

lemma keeps_DoWrite [keeps_intros]:
  assumes "mep_inv c s"
  shows "keeps c (DoWrite s)"
proof -
  have "mep_inv c (snd (host_write_of bs s))" for bs
    using assms by (auto simp: host_write_of_def split: list.splits host_write.splits)
  then have "host_write_of bs s = (r, s1) \<Longrightarrow> mep_inv c s1" for bs r s1 by (metis snd_conv)
  then show ?thesis using assms unfolding DoWrite_def
    by (auto simp: Let_def split: option.splits prod.splits host_write.splits list.splits intro!: keeps_intros)
qed

lemma length_prng_list: "length (prng_list n s) = n"
  by (induction n arbitrary: s) (simp_all split: prod.split)

text \<open>An accepted request maps its pages; the table never holds more than its eight entries.\<close>

lemma DoMMAP_cases:
  assumes "mep_inv c s"
  defines "a \<equiv> getReg REG_A0 s" and "l \<equiv> getReg REG_A1 s"
  shows "mmap_refused a l (g_oMMAPTable s) \<or> a \<ge> MMU_MAX_ADDRESS \<Longrightarrow> DoMMAP s = Inr (setReg REG_V0 (- 1) s)"
    and "\<not> mmap_refused a l (g_oMMAPTable s) \<Longrightarrow> a < MMU_MAX_ADDRESS \<Longrightarrow>
      if new_hosts (prng_list (page_count l) s) (m_mmu s)
      then \<exists>s'. DoMMAP s = Inr s' \<and> mep_inv c s' \<and> g_oMMAPTable s' = g_oMMAPTable s @ [(a, l)] \<and> getReg REG_V0 s' = a
        \<and> m_hosts (m_mmu s') = rev (prng_list (page_count l) s) @ m_hosts (m_mmu s)
        \<and> (\<forall>i < 3072. m_pages (m_mmu s') ! i =
            (if page_in i (a, l) then Some (page_zero PAGE_TYPE_MMAP) else m_pages (m_mmu s) ! i))
      else \<exists>i. page_in i (a, l) \<and> DoMMAP s = Inl (Page_Shared i, s)"
proof -
  let ?vs = "prng_list (page_count l) s"
  show "DoMMAP s = Inr (setReg REG_V0 (- 1) s)" if "mmap_refused a l (g_oMMAPTable s) \<or> a \<ge> MMU_MAX_ADDRESS"
    using that by (auto simp: DoMMAP_def a_def l_def Let_def AddMMAPRegion_def in_state_def)
  assume r: "\<not> mmap_refused a l (g_oMMAPTable s)" "a < MMU_MAX_ADDRESS"
  then have few: "length (g_oMMAPTable s) < MMAP_TABLE_SIZE" by (simp add: mmap_refused_def)
  have "mmap_ok (m_mmu s) (g_oMMAPTable s)" using assms(1) by (simp add: mep_inv_def mep_ok_def)
  note region = AddMMAPRegion_fresh [OF this r length_prng_list, of s]
  show "if new_hosts ?vs (m_mmu s)
      then \<exists>s'. DoMMAP s = Inr s' \<and> mep_inv c s' \<and> g_oMMAPTable s' = g_oMMAPTable s @ [(a, l)] \<and> getReg REG_V0 s' = a
        \<and> m_hosts (m_mmu s') = rev ?vs @ m_hosts (m_mmu s)
        \<and> (\<forall>i < 3072. m_pages (m_mmu s') ! i =
            (if page_in i (a, l) then Some (page_zero PAGE_TYPE_MMAP) else m_pages (m_mmu s) ! i))
      else \<exists>i. page_in i (a, l) \<and> DoMMAP s = Inl (Page_Shared i, s)"
  proof (cases "new_hosts ?vs (m_mmu s)")
    case False
    then obtain i where "page_in i (a, l)" "AddMMAPRegion a l ?vs (m_mmu s) = Inl (Page_Shared i)" using region by auto
    then show ?thesis using r(1) False by (auto simp: DoMMAP_def a_def l_def Let_def in_state_def)
  next
    case True
    obtain m' where m': "AddMMAPRegion a l ?vs (m_mmu s) = Inr (True, m', page_count l)"
      "mmap_ok m' (g_oMMAPTable s @ [(a, l)])" "m_hosts m' = rev ?vs @ m_hosts (m_mmu s)"
      "\<forall>i < 3072. m_pages m' ! i = (if page_in i (a, l) then Some (page_zero PAGE_TYPE_MMAP) else m_pages (m_mmu s) ! i)"
      using region True by auto
    let ?s1 = "((\<lambda>s. snd (prng s)) ^^ page_count l) (s\<lparr>m_mmu := m'\<rparr>)"
    let ?s' = "setReg REG_V0 a (?s1\<lparr>g_oMMAPTable := g_oMMAPTable ?s1 @ [(a, l)]\<rparr>)"
    have "DoMMAP s = Inr ?s'" using r(1) m'(1) by (simp add: DoMMAP_def a_def l_def Let_def in_state_def)
    moreover have "mep_inv c ?s'"
      using assms(1) m'(2) few prng_state_n [of "s\<lparr>m_mmu := m'\<rparr>" "page_count l"]
      by (simp add: mep_inv_def mep_ok_def setReg_def)
    moreover have "getReg REG_V0 ?s' = a" using assms(1) by (simp add: getReg_def setReg_def mep_inv_def mep_ok_def)
    ultimately have "\<exists>s'. DoMMAP s = Inr s' \<and> mep_inv c s' \<and> g_oMMAPTable s' = g_oMMAPTable s @ [(a, l)] \<and> getReg REG_V0 s' = a
          \<and> m_hosts (m_mmu s') = rev ?vs @ m_hosts (m_mmu s)
          \<and> (\<forall>i < 3072. m_pages (m_mmu s') ! i =
              (if page_in i (a, l) then Some (page_zero PAGE_TYPE_MMAP) else m_pages (m_mmu s) ! i))"
      using m'(3,4) by (intro exI [of _ ?s']) (simp add: setReg_def)
    then show ?thesis using True by simp
  qed
qed

lemma keeps_DoMMAP [keeps_intros]:
  assumes "mep_inv c s"
  shows "keeps c (DoMMAP s)"
proof (cases "mmap_refused (getReg REG_A0 s) (getReg REG_A1 s) (g_oMMAPTable s) \<or> getReg REG_A0 s \<ge> MMU_MAX_ADDRESS")
  case True
  then show ?thesis using DoMMAP_cases(1) [OF assms] assms by simp
next
  case False
  then consider s' where "DoMMAP s = Inr s'" "mep_inv c s'" | i where "DoMMAP s = Inl (Page_Shared i, s)"
    using DoMMAP_cases(2) [OF assms] by (metis not_le)
  then show ?thesis using assms by cases simp_all
qed

lemma keeps_syscalls:
  assumes "mep_inv c s" "k < 15"
  shows "keeps c ((syscallJumpTable ! k) s)"
proof -
  have "keeps c (DoNothing s)" "keeps c (DoExit s)" "keeps c (DoTime s)" "keeps c (DoRand s)"
    using assms(1) mep_inv_prng [OF assms(1)]
    by (auto simp: DoNothing_def DoExit_def DoTime_def DoRand_def take_time_def split: list.splits prod.splits)
  then have "f \<in> set syscallJumpTable \<Longrightarrow> keeps c (f s)" for f
    using assms(1) by (auto simp: syscallJumpTable_def intro: keeps_intros)
  moreover have "length syscallJumpTable = 15" by (simp add: syscallJumpTable_def)
  ultimately show ?thesis using assms(2) by simp
qed

lemma keeps_DoSyscall [keeps_intros]:
  assumes "mep_inv c s"
  shows "keeps c (DoSyscall s)"
proof -
  have "keeps c ((syscallJumpTable ! nat k) (setReg REG_A3 0 s))" if "k < 15" for k :: int
    using keeps_syscalls [of c "setReg REG_A3 0 s" "nat k"] that assms by simp
  then show ?thesis using assms by (auto simp: DoSyscall_def Let_def)
qed

subsection \<open>The step keeps the invariant\<close>

lemma unat_and_mask: "unat (w AND mask n :: u32) = unat w mod 2 ^ n"
  unfolding take_bit_eq_mask [symmetric] unsigned_take_bit_eq by (rule take_bit_eq_mod)

lemma field_bounds: "funct i < 64" "opcode i < 64" "i_rs i < 32" "i_rt i < 32" "i_rd i < 32" "shamt i < 32"
  using unat_and_mask [of _ 6] unat_and_mask [of _ 5]
  by (simp_all add: funct_def opcode_def i_rs_def i_rt_def i_rd_def shamt_def mask_numeral)

lemma keeps_funct [keeps_intros]:
  assumes "mep_inv c s"
  shows "keeps c (funct_emulate i pc s)"
proof -
  have "f \<in> set functJumpTable \<Longrightarrow> keeps c (f i pc s)" for f
    using assms by (auto simp: functJumpTable_def syscall_emulate_def intro: keeps_intros)
  moreover have "length functJumpTable = 64" by (simp add: functJumpTable_def)
  ultimately show ?thesis using field_bounds(1) [of i] by (simp add: funct_emulate_def)
qed

lemma keeps_exec [keeps_intros]:
  assumes "mep_inv c s"
  shows "keeps c (mep_exec i pc s)"
proof -
  have "keeps c (regimm_emulate i pc s)" "keeps c (cptwo_emulate i pc s)"
    using assms by (auto simp: regimm_emulate_def cptwo_emulate_def intro: keeps_intros)
  then have "f \<in> set opcodeJumpTable \<Longrightarrow> keeps c (f i pc s)" for f
    using assms by (auto simp: opcodeJumpTable_def intro: keeps_intros)
  moreover have "length opcodeJumpTable = 64" by (simp add: opcodeJumpTable_def)
  ultimately show ?thesis using field_bounds(2) [of i] by (simp add: mep_exec_def)
qed

lemma delay_twice: "(d :: nat) \<le> 2 \<Longrightarrow> 2 * d mod 4 \<le> 2"
  by presburger

lemma step_out_ok: "mep_inv c s \<Longrightarrow> mep_inv c (step_out s) \<and> m_regs (step_out s) ! 0 = 0"
  using delay_twice [of "m_delayState s"]
  by (simp add: step_out_def advanceDelayState_def Let_def mep_inv_def mep_ok_def)

text \<open>An end in the middle of a step: the count is the old one, or the limit has been passed.\<close>

lemma mep_step_end:
  assumes "mep_ok s" "mep_step s = Inl (e, s')"
  shows "stop_place e \<and> m_instrCount s' = m_instrCount s
    \<or> m_instrCount s' = m_instrCount s + 1 \<and> m_instrCount s' > MAX_CPU_INSTRUCTION_COUNT \<and> (\<exists>pc. e = Exception EXCEPTION_MAXINSTR pc)"
proof -
  let ?c = "m_instrCount s" and ?s0 = "step_epc s"
  have s0: "mep_inv ?c ?s0" using assms(1) by (simp add: step_epc_def mep_inv_def mep_ok_def)
  consider "fetchWord (m_pc ?s0) ?s0 = Inl (e, s')"
    | i where "fetchWord (m_pc ?s0) ?s0 = Inr i" "mep_exec i (m_pc ?s0) ?s0 = Inl (e, s')"
    | i s1 where "mep_exec i (m_pc ?s0) ?s0 = Inr s1" "step_count s1 = Inl (e, s')"
    using assms(2) by (auto simp: mep_step_def Let_def andThen_def split: sum.splits)
  then show ?thesis
  proof cases
    case 1
    then show ?thesis using stops_ok_fetch(1) [OF s0, of "m_pc ?s0"] by (auto simp: stops_ok_def mep_inv_def)
  next
    case 2
    then show ?thesis using keeps_exec [OF s0, of i "m_pc ?s0"] by (simp add: mep_inv_def)
  next
    case 3
    have "m_instrCount s1 = ?c" using keeps_exec [OF s0, of i "m_pc ?s0"] 3(1) by (simp add: mep_inv_def)
    then show ?thesis using 3(2) by (auto simp: step_count_def Let_def doException_def split: if_splits)
  qed
qed

text \<open>A step counts one instruction and never goes beyond the largest count.\<close>

lemma mep_step_ok:
  assumes "mep_ok s" "m_instrCount s \<le> MAX_CPU_INSTRUCTION_COUNT"
  shows "mep_ok (end_state (mep_step s))"
    and "mep_step s = Inr s' \<Longrightarrow>
      m_instrCount s' = m_instrCount s + 1 \<and> m_instrCount s' \<le> MAX_CPU_INSTRUCTION_COUNT \<and> m_regs s' ! 0 = 0"
proof -
  let ?c = "m_instrCount s"
  have s0: "mep_inv ?c (step_epc s)" using assms(1) by (simp add: step_epc_def mep_inv_def mep_ok_def)
  have "mep_ok (end_state (mep_step s)) \<and> (\<forall>s'. mep_step s = Inr s' \<longrightarrow>
      m_instrCount s' = ?c + 1 \<and> m_instrCount s' \<le> MAX_CPU_INSTRUCTION_COUNT \<and> m_regs s' ! 0 = 0)"
  proof (cases "fetchWord (m_pc (step_epc s)) (step_epc s)")
    case (Inl e)
    then show ?thesis using stops_ok_fetch(1) [OF s0, of "m_pc (step_epc s)"]
      by (cases e) (auto simp: mep_step_def Let_def end_state_def stops_ok_def mep_inv_def)
  next
    case fetched: (Inr instr)
    have k: "keeps ?c (mep_exec instr (m_pc (step_epc s)) (step_epc s))" by (rule keeps_exec [OF s0])
    show ?thesis
    proof (cases "mep_exec instr (m_pc (step_epc s)) (step_epc s)")
      case (Inl e)
      then show ?thesis using k fetched
        by (cases e) (auto simp: mep_step_def Let_def end_state_def mep_inv_def)
    next
      case (Inr s1)
      let ?s2 = "s1\<lparr>m_instrCount := ?c + 1\<rparr>"
      have "mep_inv ?c s1" using k Inr by simp
      then have s1: "m_instrCount s1 = ?c" by (simp add: mep_inv_def)
      have s2: "mep_inv (?c + 1) ?s2" using \<open>mep_inv ?c s1\<close> by (simp add: mep_inv_def mep_ok_def)
      show ?thesis
      proof (cases "?c + 1 > MAX_CPU_INSTRUCTION_COUNT")
        case True
        then have "step_count s1 = Inl (Exception EXCEPTION_MAXINSTR (m_nextEpc ?s2), ?s2)"
          using s1 by (simp add: step_count_def Let_def doException_def EXCEPTION_MAXINSTR_def oExceptionNameTable_def)
        then show ?thesis using fetched Inr s2 by (simp add: mep_step_def Let_def end_state_def mep_inv_def)
      next
        case False
        then have "step_count s1 = Inr ?s2" using s1 by (simp add: step_count_def Let_def)
        then have "mep_step s = Inr (step_out ?s2)" using fetched Inr by (simp add: mep_step_def Let_def)
        then show ?thesis using step_out_ok [OF s2] False by (simp add: end_state_def mep_inv_def)
      qed
    qed
  qed
  then show "mep_ok (end_state (mep_step s))"
    and "mep_step s = Inr s' \<Longrightarrow>
      m_instrCount s' = m_instrCount s + 1 \<and> m_instrCount s' \<le> MAX_CPU_INSTRUCTION_COUNT \<and> m_regs s' ! 0 = 0" by blast+
qed

end
