(* ===== verification/Meps_Load.thy ===== *)
theory Meps_Load
  imports Meps_Inv
begin

text \<open>
  Loading and running: a file that is accepted gives a state that meets the invariant, and every run stops after at
  most \<open>MAX_CPU_INSTRUCTION_COUNT + 1\<close> steps.
\<close>

subsection \<open>The memory of the loader\<close>

lemma mmu_new_ok: "mmu_ok mmu_new"
  by (simp add: mmu_ok_def mmu_new_def mmu_consts)

definition mmu_boot :: mmu where
  "mmu_boot = snd (mmu_Setup 0x400000 0x430000 mmu_new)"

lemma mmu_boot_pages:
  "m_baseAddress mmu_boot = 0x400000" "length (m_pages mmu_boot) = 3072"
  "i < 3072 \<Longrightarrow> m_pages mmu_boot ! i = (if i < 48 then Some (page_zero PAGE_TYPE_ALLOC) else None)"
  by (simp_all add: mmu_boot_def mmu_Setup_def mmu_new_def mmu_consts MMU_MAX_ADDRESS_def MMU_BASE_ADDRESS_def
      page_count_def Let_def del: upt_rec_numeral)

lemma mmu_boot_ok: "mmap_ok mmu_boot []"
proof -
  have "length (pageData p) = 4096" if "Some p \<in> set (m_pages mmu_boot)" for p
  proof -
    from that obtain i where "i < length (m_pages mmu_boot)" "m_pages mmu_boot ! i = Some p"
      unfolding in_set_conv_nth by blast
    then show ?thesis using mmu_boot_pages(2) mmu_boot_pages(3) [of i] by (auto simp: page_zero_def mmu_consts split: if_splits)
  qed
  then show ?thesis
    using mmu_boot_pages by (simp add: mmap_ok_def mmu_ok_def mmu_consts MMU_MAX_ADDRESS_def)
qed

subsection \<open>Loading keeps the invariant\<close>

definition mep_good :: "mep \<Rightarrow> bool" where
  "mep_good s \<longleftrightarrow> mep_ok s \<and> m_instrCount s \<le> MAX_CPU_INSTRUCTION_COUNT"

lemma load_section_ok:
  assumes "mep_inv c s" "load_section pData sec s = Inr s'"
  shows "mep_inv c s'"
proof -
  have w: "mep_inv c (s\<lparr>m_mmu := m\<rparr>)" if "WriteMemory a bs (m_mmu s) = Inr (fin, m)" for a bs fin m
    using mep_inv_write [OF assms(1), of a bs fin m] that by (simp add: in_state_Inr)
  show ?thesis using assms
    by (auto simp: load_section_def Let_def andThen_Inr_iff in_state_Inr split: if_splits prod.splits dest!: w)
qed

lemma load_lsecs_ok:
  "mep_inv c s \<Longrightarrow> load_lsecs pData hdr i n s = Inr (Inr s') \<Longrightarrow> mep_inv c s'"
  by (induction pData hdr i n s rule: load_lsecs.induct)
    (auto simp: Let_def andThen_Inr_iff split: if_splits dest: load_section_ok)

lemma setRegisterAndPC_ok: "mep_inv c s \<Longrightarrow> mep_inv c (snd (setRegisterAndPC r v s))"
  by (auto simp: setRegisterAndPC_def)

lemma load_rsecs_ok:
  "mep_inv c s \<Longrightarrow> load_rsecs pData hdr i n s = Inr (Inr s') \<Longrightarrow> mep_inv c s'"
  by (induction pData hdr i n s rule: load_rsecs.induct)
    (auto simp: Let_def split: if_splits intro: setRegisterAndPC_ok)

text \<open>What \<open>main\<close> has made of the state when it loads: nothing is mapped, the generator is seeded.\<close>

definition mep_booted :: "mep \<Rightarrow> bool" where
  "mep_booted s \<longleftrightarrow> m_mmu s = mmu_new \<and> g_oMMAPTable s = [] \<and> length (m_regs s) = 32 \<and> m_delayState s = 0
     \<and> length (prng_state s) = 32 \<and> state_n s = 0 \<and> length (m_state s) = 256 \<and> m_instrCount s = 0"

lemma LoadFile_ok:
  assumes "mep_booted s" "LoadFile verify pData s = Inr (Inr s')"
  shows "mep_inv 0 s'"
proof -
  have "mep_inv 0 (s\<lparr>m_mmu := mmu_boot\<rparr>)"
    using assms(1) mmu_boot_ok by (simp add: mep_booted_def mep_inv_def mep_ok_def)
  moreover have "snd (mmu_Setup 0x400000 0x430000 (m_mmu s)) = mmu_boot"
    using assms(1) by (simp add: mep_booted_def mmu_boot_def)
  moreover have "mep_inv 0 (cpu_setup e b p s2)" if "mep_inv 0 s2" for e b p s2
    using that by (simp add: cpu_setup_def cpu_reset_def mep_inv_def mep_ok_def)
  moreover obtain hdr s2 where
    "load_lsecs pData hdr 0 (lsec_num hdr) (s\<lparr>m_mmu := snd (mmu_Setup 0x400000 0x430000 (m_mmu s))\<rparr>) = Inr (Inr s2)"
    "load_rsecs pData hdr 0 (rsec_num hdr) (cpu_setup 0 False 0 s2) = Inr (Inr s')"
  proof -
    have "andThen (load_lsecs pData (Meb32_Hdr pData) 0 (lsec_num (Meb32_Hdr pData))
          (s\<lparr>m_mmu := snd (mmu_Setup 0x400000 0x430000 (m_mmu s))\<rparr>)) (\<lambda>r. case r of Inl e \<Rightarrow> Inr (Inl e)
        | Inr s2 \<Rightarrow> load_rsecs pData (Meb32_Hdr pData) 0 (rsec_num (Meb32_Hdr pData)) (cpu_setup 0 False 0 s2)) = Inr (Inr s')"
      using assms(2) by (simp add: LoadFile_def Let_def split: if_splits)
    then obtain x where x: "load_lsecs pData (Meb32_Hdr pData) 0 (lsec_num (Meb32_Hdr pData))
        (s\<lparr>m_mmu := snd (mmu_Setup 0x400000 0x430000 (m_mmu s))\<rparr>) = Inr x"
      "(case x of Inl e \<Rightarrow> Inr (Inl e)
        | Inr s2 \<Rightarrow> load_rsecs pData (Meb32_Hdr pData) 0 (rsec_num (Meb32_Hdr pData)) (cpu_setup 0 False 0 s2)) = Inr (Inr s')"
      unfolding andThen_Inr_iff by blast
    then show thesis using that [of "Meb32_Hdr pData"] by (cases x) simp_all
  qed
  ultimately show ?thesis by (metis load_lsecs_ok load_rsecs_ok)
qed

text \<open>A failure of the loader leaves the count at zero.\<close>

lemma in_state_keeps: "in_state s r = Inl (e, s') \<Longrightarrow> s' = s"
  by (cases r) (simp_all add: in_state_def)

lemma load_lsecs_count: "load_lsecs pData hdr i n s = Inl (e, s') \<Longrightarrow> m_instrCount s' = m_instrCount s"
proof (induction n arbitrary: i s)
  case (Suc n)
  have sec: "m_instrCount s2 = m_instrCount s" if "load_section pData sec s = Inl (x, s2) \<or> load_section pData sec s = Inr s2" for sec x s2
    using that by (auto simp: load_section_def Let_def andThen_def split: if_splits sum.splits prod.splits dest!: in_state_keeps)
  note sec1 = sec [OF disjI1] and sec2 = sec [OF disjI2]
  from Suc show ?case
    by (auto simp: Let_def andThen_def split: if_splits sum.splits dest: sec1 sec2)
qed simp

lemma load_rsecs_total: "load_rsecs pData hdr i n s \<noteq> Inl x"
  by (induction n arbitrary: i s) (auto simp: Let_def)

lemma LoadFile_fail_count: "LoadFile verify pData s = Inl (e, s') \<Longrightarrow> m_instrCount s' = m_instrCount s"
  by (auto simp: LoadFile_def Let_def andThen_def load_rsecs_total split: if_splits sum.splits dest: load_lsecs_count)

text \<open>What stops the loader: the end of the page table, or the end of the file.\<close>

lemma in_state_stop: "in_state s r = Inl (e, s') \<Longrightarrow> r = Inl e"
  by (cases r) (simp_all add: in_state_def)

lemma load_section_stop:
  assumes "mep_inv c s" "load_section pData sec s = Inl (e, s')"
  shows "e = Page_Table 3072 \<or> e = File_Overread"
proof -
  have len: "length (m_pages (m_mmu s)) = 3072" by (rule mep_inv_pages [OF assms(1)])
  have w: "length (m_pages m) = 3072" if "WriteMemory a bs (m_mmu s) = Inr (fin, m)" for a bs fin m
    using mep_inv_write [OF assms(1), of a bs fin m] that mep_inv_pages [of c "s\<lparr>m_mmu := m\<rparr>"] by (simp add: in_state_Inr)
  show ?thesis using assms(2) len
    by (auto simp: load_section_def Let_def andThen_def in_state_Inr split: if_splits sum.splits prod.splits
        dest!: in_state_stop dest: w ReadMemory_stop WriteMemory_stop)
qed

lemma load_lsecs_stop:
  "mep_inv c s \<Longrightarrow> load_lsecs pData hdr i n s = Inl (e, s') \<Longrightarrow> e = Page_Table 3072 \<or> e = File_Overread"
  by (induction pData hdr i n s rule: load_lsecs.induct)
    (auto simp: Let_def andThen_def split: if_splits sum.splits dest: load_section_ok load_section_stop)

lemma LoadFile_stop:
  assumes "mep_booted s" "LoadFile verify pData s = Inl (e, s')"
  shows "e = Page_Table 3072 \<or> e = File_Overread"
proof -
  have "mep_inv 0 (s\<lparr>m_mmu := mmu_boot\<rparr>)"
    using assms(1) mmu_boot_ok by (simp add: mep_booted_def mep_inv_def mep_ok_def)
  then have "mep_inv 0 (s\<lparr>m_mmu := snd (mmu_Setup 0x400000 0x430000 (m_mmu s))\<rparr>)"
    using assms(1) by (simp add: mep_booted_def mmu_boot_def)
  then show ?thesis using assms(2)
    by (auto simp: LoadFile_def Let_def andThen_def load_rsecs_total split: if_splits sum.splits dest: load_lsecs_stop)
qed

lemma host_read_of_keeps: "host_read_of n s = (r, s1) \<Longrightarrow> \<exists>hr. s1 = s\<lparr>host_reads := hr\<rparr>"
  by (auto simp: host_read_of_def split: list.splits host_read.splits intro: exI [of _ "host_reads s"])

lemma ReadStdin_keeps: "ReadStdin n s = (r, s1) \<Longrightarrow> \<exists>hr. s1 = s\<lparr>host_reads := hr\<rparr>"
proof (induction n arbitrary: s r)
  case 0
  then show ?case by (auto intro: exI [of _ "host_reads s"])
next
  case (Suc n)
  obtain a s' where h: "host_read_of 1 s = (a, s')" by (meson surj_pair)
  obtain hr where hr: "s' = s\<lparr>host_reads := hr\<rparr>" using host_read_of_keeps [OF h] by blast
  show ?case
  proof (cases "\<exists>b. a = Read_Bytes [b]")
    case True
    then obtain r' where "ReadStdin n s' = (r', s1)" using Suc.prems h by (auto split: prod.splits)
    then show ?thesis using Suc.IH hr by fastforce
  next
    case False
    then have "s1 = s'" using Suc.prems h by (auto split: host_read.splits list.splits)
    then show ?thesis using hr by blast
  qed
qed

lemma length_seed_values [simp]: "length (seed_values v) = 32"
proof -
  have "length (fold seed_step is st) = length st" for "is" st
    by (induction "is" arbitrary: st) (auto simp: seed_step_def Let_def)
  then show ?thesis by (simp add: seed_values_def del: upt_rec_numeral)
qed

subsection \<open>Every run stops\<close>

interpretation meps: ranked_stepper "\<lambda>_. False" mep_step mep_good
    "\<lambda>s. unat MAX_CPU_INSTRUCTION_COUNT - unat (m_instrCount s)"
proof
  fix s s' assume s: "mep_good s" "mep_step s = Inr s'"
  then have ok: "mep_ok s" "m_instrCount s \<le> MAX_CPU_INSTRUCTION_COUNT" by (simp_all add: mep_good_def)
  note st = mep_step_ok [OF ok] 
  have "m_instrCount s' \<le> MAX_CPU_INSTRUCTION_COUNT" using st(2) [OF s(2)] by blast
  then show "mep_good s'" using st(1) s(2) by (simp add: mep_good_def end_state_def)
  have "unat (m_instrCount s + 1) = unat (m_instrCount s) + 1"
    using ok(2) by (simp add: MAX_CPU_INSTRUCTION_COUNT_def word_le_nat_alt unat_add_lem [THEN iffD1])
  then show "unat MAX_CPU_INSTRUCTION_COUNT - unat (m_instrCount s') < unat MAX_CPU_INSTRUCTION_COUNT - unat (m_instrCount s)"
    using st(2) [OF s(2)] unfolding word_le_nat_alt by (metis diff_less_mono2 le_imp_less_Suc less_le_trans not_less_eq_eq order_refl Suc_eq_plus1 lessI)
qed

lemma run_fuel_endless: "run_fuel (\<lambda>_. False) f n s \<noteq> Some (Inr s')"
  by (induction n arbitrary: s) (auto split: sum.splits)

lemma mep_Run_stops:
  assumes "mep_good s" "unat MAX_CPU_INSTRUCTION_COUNT - unat (m_instrCount s) < n"
  shows "\<exists>e s'. mep_Run n s = Some (Inl (e, s'))"
proof -
  obtain x where x: "mep_Run n s = Some x" using meps.run_returns [OF assms] unfolding mep_Run_def by blast
  then show ?thesis using run_fuel_endless [of mep_step n s] by (cases x) (auto simp: mep_Run_def)
qed

text \<open>The count at the end of a run.\<close>

lemma mep_Run_count:
  "mep_good s \<Longrightarrow> mep_Run n s = Some (Inl (e, s')) \<Longrightarrow> unat (m_instrCount s') \<le> 50000001
    \<and> (m_instrCount s' = 50000001 \<longleftrightarrow> (\<exists>pc. e = Exception EXCEPTION_MAXINSTR pc))"
  unfolding mep_Run_def
proof (induction n arbitrary: s)
  case (Suc n)
  show ?case
  proof (cases "mep_step s")
    case (Inl x)
    then have x: "mep_step s = Inl (e, s')" using Suc.prems by simp
    have s: "mep_ok s" "unat (m_instrCount s) \<le> 50000000"
      using Suc.prems(1) by (simp_all add: mep_good_def MAX_CPU_INSTRUCTION_COUNT_def word_le_nat_alt)
    then have "unat (m_instrCount s + 1) = unat (m_instrCount s) + 1" by (simp add: unat_add_lem [THEN iffD1])
    moreover from this have "MAX_CPU_INSTRUCTION_COUNT < m_instrCount s + 1 \<Longrightarrow> m_instrCount s = 50000000"
      using s(2) by (simp add: MAX_CPU_INSTRUCTION_COUNT_def word_less_nat_alt word_unat_eq_iff)
    ultimately show ?thesis using mep_step_end [OF s(1) x] s(2) by auto
  next
    case (Inr s1)
    then show ?thesis using Suc meps.turn_good [of s s1] by simp
  qed
qed simp

lemma mep_Run_stop_ok:
  "mep_good s \<Longrightarrow> mep_Run n s = Some (Inl (e, s')) \<Longrightarrow> mep_ok s' \<and> (stop_place e \<or> (\<exists>pc. e = Exception EXCEPTION_MAXINSTR pc))"
  unfolding mep_Run_def
proof (induction n arbitrary: s)
  case 0
  then show ?case by simp
next
  case (Suc n)
  show ?case
  proof (cases "mep_step s")
    case (Inl x)
    then show ?thesis using Suc.prems mep_step_ok(1) [of s] mep_step_end [of s] by (auto simp: mep_good_def end_state_def)
  next
    case (Inr s1)
    then show ?thesis using Suc meps.turn_good [of s s1] by simp
  qed
qed

end
