(* ===== verification/Meps_Alu.thy ===== *)
theory Meps_Alu
  imports Meps_Mem Meps_Ops
begin

unbundle bit_operations_syntax

text \<open>
  What the arithmetic of the MIPS emulator computes: its shifts and overflow tests against those of the words, and the
  two halves of an unaligned load.
\<close>

subsection \<open>Shifts and overflow\<close>

lemma mep_srl_drop_bit:
  assumes "b < 32"
  shows "mep_srl a b = drop_bit b a"
proof -
  have "push_bit (32 - b) (1 :: u32) - 1 = mask (32 - b)" by (simp add: mask_eq_exp_minus_1 push_bit_of_1)
  moreover have "signed_drop_bit b a AND mask (32 - b) = drop_bit b a"
    by (rule bit_word_eqI) (use assms in \<open>auto simp: bit_simps bit_signed_drop_bit_iff dest: bit_imp_le_length\<close>)
  ultimately show ?thesis using assms by (simp add: mep_srl_def)
qed

lemma mep_sra_signed_drop_bit:
  assumes "b < 32"
  shows "mep_sra a b = signed_drop_bit b a"
proof (cases "b = 0")
  case True
  then show ?thesis by (simp add: mep_sra_def)
next
  case False
  have m: "push_bit b (1 :: u32) - 1 = mask b" by (simp add: mask_eq_exp_minus_1 push_bit_of_1)
  have s: "signed_drop_bit 31 a AND 1 = of_bool (bit a 31)"
    by (rule bit_word_eqI) (auto simp: bit_simps bit_signed_drop_bit_iff bit_1_iff not_le)
  have "signed_drop_bit b a OR (of_bool (bit a 31) * push_bit (32 - b) (mask b)) = signed_drop_bit b a"
    by (rule bit_word_eqI) (use assms False in \<open>auto simp: bit_simps bit_signed_drop_bit_iff of_bool_def\<close>)
  then show ?thesis using m s by (simp add: mep_sra_def)
qed

lemma sint_u32_bounds: "- 2147483648 \<le> sint (a :: u32)" "sint (a :: u32) < 2147483648"
  using sint_greater_eq [of a] sint_less [of a] by simp_all

lemma signed32:
  fixes x :: int
  assumes "- 4294967296 \<le> x" "x < 4294967296"
  shows "signed_take_bit 31 x = (if x < - 2147483648 then x + 4294967296 else if x < 2147483648 then x else x - 4294967296)"
proof -
  have st: "signed_take_bit 31 x = (x + 2147483648) mod 4294967296 - 2147483648"
    by (simp add: signed_take_bit_eq_take_bit_shift take_bit_eq_mod)
  have up: "(x + 2147483648) mod 4294967296 = (x + 2147483648 + 4294967296) mod 4294967296"
    and down: "(x + 2147483648) mod 4294967296 = (x + 2147483648 - 4294967296) mod 4294967296" by (simp_all only: mod_add_self2 minus_mod_self2)
  consider "x < - 2147483648" | "- 2147483648 \<le> x" "x < 2147483648" | "2147483648 \<le> x" by linarith
  then have "(x + 2147483648) mod 4294967296 = (if x < - 2147483648 then x + 2147483648 + 4294967296
      else if x < 2147483648 then x + 2147483648 else x + 2147483648 - 4294967296)"
  proof cases
    case 1
    then show ?thesis using up assms(1) mod_pos_pos_trivial [of "x + 2147483648 + 4294967296" 4294967296] by simp
  next
    case 2
    then show ?thesis using mod_pos_pos_trivial [of "x + 2147483648" 4294967296] by simp
  next
    case 3
    then show ?thesis using down assms(2) mod_pos_pos_trivial [of "x + 2147483648 - 4294967296" 4294967296] by simp
  qed
  then show ?thesis using st by simp
qed

lemma add_overflows_iff: "add_overflows a b (a + b) \<longleftrightarrow> sint a + sint b < - (2 ^ 31) \<or> sint a + sint b \<ge> 2 ^ 31"
proof -
  have "sint (a + b) = signed_take_bit 31 (sint a + sint b)" by (simp add: sint_word_ariths(1))
  then show ?thesis using signed32 [of "sint a + sint b"] sint_u32_bounds [of a] sint_u32_bounds [of b]
    by (auto simp: add_overflows_def)
qed

lemma sub_overflows_iff: "sub_overflows a b (a - b) \<longleftrightarrow> sint a - sint b < - (2 ^ 31) \<or> sint a - sint b \<ge> 2 ^ 31"
proof -
  have "sint (a - b) = signed_take_bit 31 (sint a - sint b)" by (simp add: sint_word_ariths(2))
  then show ?thesis using signed32 [of "sint a - sint b"] sint_u32_bounds [of a] sint_u32_bounds [of b]
    by (auto simp: sub_overflows_def)
qed

subsection \<open>Unaligned loads\<close>

lemma bit_bytes_word:
  "bit (bytes_word [b0, b1, b2, b3]) n \<longleftrightarrow>
     (if n < 8 then bit b0 n else if n < 16 then bit b1 (n - 8) else if n < 24 then bit b2 (n - 16) else n < 32 \<and> bit b3 (n - 24))"
  by (auto simp: bytes_word_def bit_simps dest: bit_imp_le_length)

lemma masks32:
  "bit (0xff000000 :: u32) n \<longleftrightarrow> 24 \<le> n \<and> n < 32" "bit (0xffff0000 :: u32) n \<longleftrightarrow> 16 \<le> n \<and> n < 32"
  "bit (0xffffff00 :: u32) n \<longleftrightarrow> 8 \<le> n \<and> n < 32" "bit (0xffffff :: u32) n \<longleftrightarrow> n < 24"
  "bit (0xffff :: u32) n \<longleftrightarrow> n < 16" "bit (0xff :: u32) n \<longleftrightarrow> n < 8"
proof -
  have low: "(0xffffff :: u32) = mask 24" "(0xffff :: u32) = mask 16" "(0xff :: u32) = mask 8" by (simp_all add: mask_numeral)
  show "bit (0xffffff :: u32) n \<longleftrightarrow> n < 24" "bit (0xffff :: u32) n \<longleftrightarrow> n < 16" "bit (0xff :: u32) n \<longleftrightarrow> n < 8"
    unfolding low bit_mask_iff by auto
  have high: "(0xff000000 :: u32) = push_bit 24 (mask 8)" "(0xffff0000 :: u32) = push_bit 16 (mask 16)"
    "(0xffffff00 :: u32) = push_bit 8 (mask 24)" by (simp_all add: mask_numeral)
  show "bit (0xff000000 :: u32) n \<longleftrightarrow> 24 \<le> n \<and> n < 32" "bit (0xffff0000 :: u32) n \<longleftrightarrow> 16 \<le> n \<and> n < 32"
    "bit (0xffffff00 :: u32) n \<longleftrightarrow> 8 \<le> n \<and> n < 32"
    unfolding high bit_push_bit_iff bit_mask_iff by auto
qed

lemma merge_bytes:
  "mep_lwl False (mep_lwr False r (bytes_word [b0, b1, b2, b3]) 0) (bytes_word [b0, b1, b2, b3]) 3 = bytes_word [b0, b1, b2, b3]"
  "mep_lwl False (mep_lwr False r (bytes_word [b0, b1, b2, b3]) 1) (bytes_word [c0, c1, c2, c3]) 0 = bytes_word [b1, b2, b3, c0]"
  "mep_lwl False (mep_lwr False r (bytes_word [b0, b1, b2, b3]) 2) (bytes_word [c0, c1, c2, c3]) 1 = bytes_word [b2, b3, c0, c1]"
  "mep_lwl False (mep_lwr False r (bytes_word [b0, b1, b2, b3]) 3) (bytes_word [c0, c1, c2, c3]) 2 = bytes_word [b3, c0, c1, c2]"
  by (rule bit_word_eqI; simp add: mep_lwl_def mep_lwr_def bit_and_iff bit_or_iff bit_push_bit_iff bit_drop_bit_eq
      bit_bytes_word masks32 del: bit_numeral_word_iff; auto)+


lemma fetchWord_bytes:
  assumes "mmu_ok (m_mmu s)"
  shows "fetchWord a s = Inr w \<longleftrightarrow> (\<exists>b0 b1 b2 b3. mem_at (m_mmu s) (unat a) = Some b0 \<and> mem_at (m_mmu s) (unat a + 1) = Some b1
    \<and> mem_at (m_mmu s) (unat a + 2) = Some b2 \<and> mem_at (m_mmu s) (unat a + 3) = Some b3 \<and> w = bytes_word [b0, b1, b2, b3])"
proof -
  have l: "mem_list (m_mmu s) (unat a) 4 =
      [mem_at (m_mmu s) (unat a), mem_at (m_mmu s) (unat a + 1), mem_at (m_mmu s) (unat a + 2), mem_at (m_mmu s) (unat a + 3)]"
    by (simp add: mem_list_def upt_rec numeral_3_eq_3)
  have "fetchWord a s = Inr w \<longleftrightarrow> (\<exists>bs. ReadMemory a 4 (m_mmu s) = Inr (Some bs) \<and> w = bytes_word bs)"
    by (auto simp: fetchWord_def mep_load_def andThen_Inr_iff in_state_def doException_def oExceptionNameTable_def
        EXCEPTION_AdEL_def map_sum_def split: option.splits sum.splits)
  also have "\<dots> \<longleftrightarrow> (\<exists>bs. those (mem_list (m_mmu s) (unat a) 4) = Some bs \<and> w = bytes_word bs)"
    using ReadMemory_reads [OF assms, of a 4] by (auto; metis)
  also have "\<dots> \<longleftrightarrow> (\<exists>b0 b1 b2 b3. mem_at (m_mmu s) (unat a) = Some b0 \<and> mem_at (m_mmu s) (unat a + 1) = Some b1
    \<and> mem_at (m_mmu s) (unat a + 2) = Some b2 \<and> mem_at (m_mmu s) (unat a + 3) = Some b3 \<and> w = bytes_word [b0, b1, b2, b3])"
    unfolding l by (auto split: option.splits)
  finally show ?thesis .
qed

lemma unat_word_addr: "unat (word_addr a) = 4 * (unat a div 4)" "which_byte a = unat a mod 4"
proof -
  have "a AND NOT (mask 2) = push_bit 2 (drop_bit 2 a)"
    by (rule bit_word_eqI) (auto simp: bit_simps bit_not_iff bit_mask_iff not_less dest!: le_Suc_ex)
  then have "word_addr a = push_bit 2 (drop_bit 2 a)" by (simp add: word_addr_def mask_numeral)
  then have "unat (word_addr a) = take_bit 32 (push_bit 2 (drop_bit 2 (unat a)))"
    using unsigned_less [where ?'a = nat, of a] by (simp only: unsigned_push_bit_eq unsigned_drop_bit_eq) (simp add: take_bit_nat_eq_self)
  also have "\<dots> = (4 * (unat a div 4)) mod 4294967296" by (simp add: take_bit_eq_mod push_bit_eq_mult drop_bit_eq_div mult.commute)
  also have "\<dots> = 4 * (unat a div 4)" using unsigned_less [where ?'a = nat, of a] by (intro mod_less) simp
  finally show "unat (word_addr a) = 4 * (unat a div 4)" .
  have "a AND 3 = take_bit 2 a" by (simp add: take_bit_eq_mask mask_numeral)
  then show "which_byte a = unat a mod 4" unfolding which_byte_def
    by (simp only: unsigned_take_bit_eq) (simp add: take_bit_eq_mod)
qed


lemma fetchWord_from:
  assumes "mmu_ok (m_mmu s)" "mem_at (m_mmu s) i0 = Some b0" "mem_at (m_mmu s) i1 = Some b1"
    "mem_at (m_mmu s) i2 = Some b2" "mem_at (m_mmu s) i3 = Some b3"
    "unat a = i0" "i1 = i0 + 1" "i2 = i0 + 2" "i3 = i0 + 3"
  shows "fetchWord a s = Inr (bytes_word [b0, b1, b2, b3])"
  using assms fetchWord_bytes [OF assms(1)] by simp

lemma fetchWord_to:
  assumes "fetchWord a s = Inr w" "mmu_ok (m_mmu s)" "unat a = i0" "i1 = i0 + 1" "i2 = i0 + 2" "i3 = i0 + 3"
  obtains b0 b1 b2 b3 where "mem_at (m_mmu s) i0 = Some b0" "mem_at (m_mmu s) i1 = Some b1"
    "mem_at (m_mmu s) i2 = Some b2" "mem_at (m_mmu s) i3 = Some b3" "w = bytes_word [b0, b1, b2, b3]"
  using assms(1) that unfolding fetchWord_bytes [OF assms(2)] assms(3-6) by blast

text \<open>The two halves of an unaligned load give the word at the unaligned address.\<close>

lemma lwr_lwl_merge:
  assumes "mmu_ok (m_mmu s)" "fetchWord (word_addr a) s = Inr w0" "fetchWord (word_addr (a + 3)) s = Inr w1"
  shows "fetchWord a s = Inr (mep_lwl False (mep_lwr False r w0 (which_byte a)) w1 (which_byte (a + 3)))"
proof -
  note f = fetchWord_bytes [OF assms(1)]
  define q where "q = unat a div 4"
  obtain b0 b1 b2 b3 where b: "mem_at (m_mmu s) (4 * q) = Some b0" "mem_at (m_mmu s) (4 * q + 1) = Some b1"
     "mem_at (m_mmu s) (4 * q + 2) = Some b2" "mem_at (m_mmu s) (4 * q + 3) = Some b3" "w0 = bytes_word [b0, b1, b2, b3]"
    using assms(2) unfolding f unat_word_addr q_def by auto
  have "4 * q < 0x2000000" using b(1) mmu_okD(3) [OF assms(1)] by (auto simp: mem_at_page [OF assms(1)] split: if_splits)
  then have "unat a + 3 < 2 ^ 32" unfolding q_def by simp
  then have a3: "unat (a + 3) = unat a + 3" by (simp add: unat_add_lem [THEN iffD1])
  have k: "unat a = 4 * q + unat a mod 4" by (simp add: q_def)
  consider "unat a mod 4 = 0" | "unat a mod 4 = 1" | "unat a mod 4 = 2" | "unat a mod 4 = 3" by linarith
  then show ?thesis
  proof cases
    case 1
    then have w: "unat a = 4 * q" "which_byte a = 0" "which_byte (a + 3) = 3" "unat (word_addr (a + 3)) = 4 * q"
      using k a3 by (simp_all add: unat_word_addr)
    have "w1 = w0" using b assms(3) unfolding f w by auto
    show ?thesis unfolding w(2,3) \<open>w1 = w0\<close> b(5) merge_bytes(1)
      by (intro fetchWord_from [OF assms(1) b(1-4)]) (simp_all add: w(1))
  next
    case 2
    then have w: "unat a = 4 * q + 1" "which_byte a = 1" "which_byte (a + 3) = 0" "unat (word_addr (a + 3)) = 4 * q + 4"
      using k a3 by (simp_all add: unat_word_addr)
    obtain c0 c1 c2 c3 where c: "mem_at (m_mmu s) (4 * q + 4) = Some c0" "mem_at (m_mmu s) (4 * q + 5) = Some c1"
        "mem_at (m_mmu s) (4 * q + 6) = Some c2" "mem_at (m_mmu s) (4 * q + 7) = Some c3" "w1 = bytes_word [c0, c1, c2, c3]"
      by (rule fetchWord_to [OF assms(3,1) w(4), of "4 * q + 5" "4 * q + 6" "4 * q + 7"]) simp_all
    show ?thesis unfolding w(2,3) b(5) c(5) merge_bytes(2)
      by (intro fetchWord_from [OF assms(1) b(2-4) c(1)]) (simp_all add: w(1))
  next
    case 3
    then have w: "unat a = 4 * q + 2" "which_byte a = 2" "which_byte (a + 3) = 1" "unat (word_addr (a + 3)) = 4 * q + 4"
      using k a3 by (simp_all add: unat_word_addr)
    obtain c0 c1 c2 c3 where c: "mem_at (m_mmu s) (4 * q + 4) = Some c0" "mem_at (m_mmu s) (4 * q + 5) = Some c1"
        "mem_at (m_mmu s) (4 * q + 6) = Some c2" "mem_at (m_mmu s) (4 * q + 7) = Some c3" "w1 = bytes_word [c0, c1, c2, c3]"
      by (rule fetchWord_to [OF assms(3,1) w(4), of "4 * q + 5" "4 * q + 6" "4 * q + 7"]) simp_all
    show ?thesis unfolding w(2,3) b(5) c(5) merge_bytes(3)
      by (intro fetchWord_from [OF assms(1) b(3,4) c(1,2)]) (simp_all add: w(1))
  next
    case 4
    then have w: "unat a = 4 * q + 3" "which_byte a = 3" "which_byte (a + 3) = 2" "unat (word_addr (a + 3)) = 4 * q + 4"
      using k a3 by (simp_all add: unat_word_addr)
    obtain c0 c1 c2 c3 where c: "mem_at (m_mmu s) (4 * q + 4) = Some c0" "mem_at (m_mmu s) (4 * q + 5) = Some c1"
        "mem_at (m_mmu s) (4 * q + 6) = Some c2" "mem_at (m_mmu s) (4 * q + 7) = Some c3" "w1 = bytes_word [c0, c1, c2, c3]"
      by (rule fetchWord_to [OF assms(3,1) w(4), of "4 * q + 5" "4 * q + 6" "4 * q + 7"]) simp_all
    show ?thesis unfolding w(2,3) b(5) c(5) merge_bytes(4)
      by (intro fetchWord_from [OF assms(1) b(4) c(1-3)]) (simp_all add: w(1))
  qed
qed

end
