(* ===== verification/Meps_Flow.thy ===== *)
theory Meps_Flow
  imports Meps_Inv
begin

unbundle bit_operations_syntax

text \<open>
  The flow of control of the MIPS emulator: an instruction that is not a jump or a branch changes neither the
  program counter nor the delay state, so the two steps from a jump are the jump and the instruction in its slot.
\<close>

definition flow :: "mep \<Rightarrow> u32 \<times> nat \<times> u32" where
  "flow s = (m_pc s, m_delayState s, m_delayPC s)"

definition straight :: "mep \<Rightarrow> mep_res \<Rightarrow> bool" where
  "straight s r \<longleftrightarrow> (\<forall>s'. r = Inr s' \<longrightarrow> flow s' = flow s)"

named_theorems straight_intros "instructions that are not jumps"

lemma straight_simps [simp]: "straight s (Inr s') \<longleftrightarrow> flow s' = flow s" "straight s (Inl x)"
  by (simp_all add: straight_def)

lemma flow_updates [simp]:
  "flow (setReg r v s) = flow s" "flow (s\<lparr>m_hi := h\<rparr>) = flow s" "flow (s\<lparr>m_lo := l\<rparr>) = flow s"
  "flow (s\<lparr>mep_outs := out\<rparr>) = flow s" "flow (s\<lparr>m_mmu := m\<rparr>) = flow s" "flow (s\<lparr>m_state := st\<rparr>) = flow s"
  "flow (s\<lparr>host_reads := hr\<rparr>) = flow s" "flow (s\<lparr>host_writes := hw\<rparr>) = flow s"
  "flow (s\<lparr>host_times := ht\<rparr>) = flow s" "flow (s\<lparr>g_oMMAPTable := tb\<rparr>) = flow s" "flow (s\<lparr>m_nextEpc := e\<rparr>) = flow s"
  by (simp_all add: flow_def setReg_def)

lemma straight_andThen [straight_intros]: "(\<And>x. r = Inr x \<Longrightarrow> straight s (f x)) \<Longrightarrow> straight s (andThen r f)"
  by (cases r) auto

lemma straight_if: "straight s a \<Longrightarrow> straight s b \<Longrightarrow> straight s (if c then a else b)"
  by simp

lemma straight_doException [straight_intros]: "flow s' = flow s \<Longrightarrow> straight s (doException e s')"
  by (simp add: doException_def)

lemma straight_store [straight_intros]: "flow s' = flow s \<Longrightarrow> straight s (mep_store a bs s')"
  by (auto simp: mep_store_def split: prod.splits intro!: straight_intros)

lemma straight_store_sizes [straight_intros]:
  "straight s (storeWord a w s)" "straight s (storeHalfword a h s)" "straight s (storeByte a b s)"
  by (auto simp: storeWord_def storeHalfword_def storeByte_def intro!: straight_intros)

lemma straight_branchless [straight_intros]: "straight s (RI_emulate i pc s)" "straight s (cpone_emulate i pc s)" "straight s (cpthree_emulate i pc s)"
    "straight s (cpzero_emulate i pc s)" "straight s (lwc1_emulate i pc s)" "straight s (lwc2_emulate i pc s)"
    "straight s (swc1_emulate i pc s)" "straight s (swc2_emulate i pc s)" "straight s (swc3_emulate i pc s)"
    "straight s (lwc3_emulate i pc s)"
  by (auto simp: RI_emulate_def cpone_emulate_def cpthree_emulate_def cpzero_emulate_def lwc1_emulate_def lwc2_emulate_def swc1_emulate_def swc2_emulate_def swc3_emulate_def lwc3_emulate_def cop_unimpl_def Let_def
      split: prod.splits intro!: straight_intros)

lemma straight_immediates [straight_intros]: "straight s (addi_emulate i pc s)" "straight s (addiu_emulate i pc s)" "straight s (slti_emulate i pc s)"
    "straight s (sltiu_emulate i pc s)" "straight s (andi_emulate i pc s)" "straight s (ori_emulate i pc s)"
    "straight s (xori_emulate i pc s)" "straight s (lui_emulate i pc s)"
  by (auto simp: addi_emulate_def addiu_emulate_def slti_emulate_def sltiu_emulate_def andi_emulate_def ori_emulate_def xori_emulate_def lui_emulate_def Let_def
      split: prod.splits intro!: straight_intros)

lemma straight_loads [straight_intros]: "straight s (lb_emulate i pc s)" "straight s (lh_emulate i pc s)" "straight s (lw_emulate i pc s)"
    "straight s (lbu_emulate i pc s)" "straight s (lhu_emulate i pc s)" "straight s (lwl_emulate i pc s)"
    "straight s (lwr_emulate i pc s)"
  by (auto simp: lb_emulate_def lh_emulate_def lw_emulate_def lbu_emulate_def lhu_emulate_def lwl_emulate_def lwr_emulate_def Let_def
      split: prod.splits intro!: straight_intros)

lemma straight_stores [straight_intros]: "straight s (sb_emulate i pc s)" "straight s (sh_emulate i pc s)" "straight s (sw_emulate i pc s)"
    "straight s (swl_emulate i pc s)" "straight s (swr_emulate i pc s)"
  by (auto simp: sb_emulate_def sh_emulate_def sw_emulate_def swl_emulate_def swr_emulate_def Let_def
      split: prod.splits intro!: straight_intros)

lemma straight_shifts [straight_intros]: "straight s (sll_emulate i pc s)" "straight s (srl_emulate i pc s)" "straight s (sra_emulate i pc s)"
    "straight s (sllv_emulate i pc s)" "straight s (srlv_emulate i pc s)" "straight s (srav_emulate i pc s)"
  by (auto simp: sll_emulate_def srl_emulate_def sra_emulate_def sllv_emulate_def srlv_emulate_def srav_emulate_def Let_def
      split: prod.splits intro!: straight_intros)

lemma straight_multiplications [straight_intros]: "straight s (break_emulate i pc s)" "straight s (mfhi_emulate i pc s)" "straight s (mthi_emulate i pc s)"
    "straight s (mflo_emulate i pc s)" "straight s (mtlo_emulate i pc s)" "straight s (mult_emulate i pc s)"
    "straight s (multu_emulate i pc s)" "straight s (div_emulate i pc s)" "straight s (divu_emulate i pc s)"
  by (auto simp: break_emulate_def mfhi_emulate_def mthi_emulate_def mflo_emulate_def mtlo_emulate_def mult_emulate_def multu_emulate_def div_emulate_def divu_emulate_def Let_def
      split: prod.splits intro!: straight_intros)

lemma straight_registers [straight_intros]: "straight s (add_emulate i pc s)" "straight s (addu_emulate i pc s)" "straight s (sub_emulate i pc s)"
    "straight s (subu_emulate i pc s)" "straight s (and_emulate i pc s)" "straight s (or_emulate i pc s)"
    "straight s (xor_emulate i pc s)" "straight s (nor_emulate i pc s)" "straight s (slt_emulate i pc s)"
    "straight s (sltu_emulate i pc s)"
  by (auto simp: add_emulate_def addu_emulate_def sub_emulate_def subu_emulate_def and_emulate_def or_emulate_def xor_emulate_def nor_emulate_def slt_emulate_def sltu_emulate_def Let_def
      split: prod.splits intro!: straight_intros)

lemma straight_rc4 [straight_intros]: "straight s (cptwo_emulate i pc s)"
  by (auto simp: cptwo_emulate_def RC4_Emulate_def rc4_init_emulate_def rc4_encrypt_emulate_def Let_def
      split: option.splits prod.splits intro!: straight_intros)

lemma flow_prng: "flow (((\<lambda>s. snd (prng s)) ^^ n) s) = flow s"
  by (induction n) (simp_all add: prng_def split_beta flow_def)

lemma flow_host:
  "host_read_of n s = (r, s1) \<Longrightarrow> flow s1 = flow s" "host_write_of bs s = (w, s1) \<Longrightarrow> flow s1 = flow s"
  "take_time s = (t, s1) \<Longrightarrow> flow s1 = flow s" "prng s = (v, s1) \<Longrightarrow> flow s1 = flow s"
  using flow_prng [of 1 s]
  by (auto simp: host_read_of_def host_write_of_def take_time_def split: list.splits host_read.splits host_write.splits)

lemma straight_syscall [straight_intros]: "straight s (syscall_emulate i pc s)"
proof -
  have one: "straight s' (DoNothing s')" "straight s' (DoExit s')" "straight s' (DoTime s')" "straight s' (DoRand s')" for s'
    by (auto simp: DoNothing_def DoExit_def DoTime_def DoRand_def split: prod.splits dest: flow_host)
  have two: "straight s' (DoRead s')" for s'
    unfolding DoRead_def Let_def
    by (rule straight_if, simp, rule straight_if)
      (auto split: prod.splits host_read.splits list.splits intro!: straight_intros straight_if dest: flow_host(1) split del: if_split)
  have two': "straight s' (DoWrite s')" for s'
    unfolding DoWrite_def Let_def
    by (rule straight_if, simp, rule straight_if)
      (auto split: prod.splits host_write.splits option.splits intro!: straight_intros dest: flow_host(2) split del: if_split)
  have three: "straight s' (DoMMAP s')" for s'
    by (auto simp: DoMMAP_def Let_def flow_prng split: prod.splits intro!: straight_intros)
  have "f \<in> set syscallJumpTable \<Longrightarrow> straight s' (f s')" for f s'
    using one two two' three by (auto simp: syscallJumpTable_def)
  moreover have "length syscallJumpTable = 15" by (simp add: syscallJumpTable_def)
  ultimately have "k < 15 \<Longrightarrow> straight (setReg REG_A3 0 s) ((syscallJumpTable ! nat k) (setReg REG_A3 0 s))" for k :: int
    by simp
  then show ?thesis by (auto simp: syscall_emulate_def DoSyscall_def Let_def straight_def)
qed

definition is_transfer :: "u32 \<Rightarrow> bool" where
  "is_transfer i \<longleftrightarrow> (1 \<le> opcode i \<and> opcode i \<le> 7) \<or> (opcode i = 0 \<and> (funct i = 8 \<or> funct i = 9))"

lemma exec_straight:
  assumes "\<not> is_transfer i"
  shows "straight s (mep_exec i pc s)"
proof -
  have split64: "k < 64 \<Longrightarrow> xs ! k \<in> set (take a xs @ drop b xs)" if "k < a \<or> b \<le> k" "a \<le> 64" "length xs = 64"
    for k a b and xs :: "'a list"
  proof (cases "k < a")
    case True
    then show ?thesis using that nth_mem [of k "take a xs"] by simp
  next
    case False
    moreover assume "k < 64"
    ultimately show ?thesis using that nth_mem [of "k - b" "drop b xs"] by simp
  qed
  have "straight s (funct_emulate i pc s)" if "funct i \<noteq> 8" "funct i \<noteq> 9"
  proof -
    have "functJumpTable ! funct i \<in> set (take 8 functJumpTable @ drop 10 functJumpTable)"
      using that field_bounds(1) [of i] by (intro split64) (auto simp: functJumpTable_def)
    moreover have "g \<in> set (take 8 functJumpTable @ drop 10 functJumpTable) \<Longrightarrow> straight s (g i pc s)" for g
      by (auto simp: functJumpTable_def intro: straight_intros)
    ultimately show ?thesis by (simp add: funct_emulate_def)
  qed
  then have zero: "opcode i = 0 \<Longrightarrow> straight s (mep_exec i pc s)"
    using assms by (simp add: mep_exec_def opcodeJumpTable_def is_transfer_def)
  have "straight s (mep_exec i pc s)" if "8 \<le> opcode i"
  proof -
    have "opcodeJumpTable ! opcode i \<in> set (take 0 opcodeJumpTable @ drop 8 opcodeJumpTable)"
      using that field_bounds(2) [of i] by (intro split64) (auto simp: opcodeJumpTable_def)
    moreover have "g \<in> set (drop 8 opcodeJumpTable) \<Longrightarrow> straight s (g i pc s)" for g
      by (auto simp: opcodeJumpTable_def intro: straight_intros)
    ultimately show ?thesis by (simp add: mep_exec_def)
  qed
  then show ?thesis using zero assms by (cases "opcode i = 0") (auto simp: is_transfer_def)
qed

lemma fetchWord_step_epc: "fetchWord a (step_epc s) = Inr w \<longleftrightarrow> fetchWord a s = Inr w"
  by (auto simp: fetchWord_def mep_load_def step_epc_def andThen_Inr_iff in_state_Inr doException_def oExceptionNameTable_def
      EXCEPTION_AdEL_def split: option.splits)

text \<open>Where a step goes on: the slot follows the jump, the target follows the slot.\<close>

lemma mep_step_flow:
  assumes "mep_step s = Inr s1" "fetchWord (m_pc s) s = Inr i"
  obtains e where "mep_exec i (m_pc s) (step_epc s) = Inr e"
    "flow s1 = (if m_delayState e = DELAYSTATE_DELAYSLOT then m_delayPC e else m_pc e + 4, (2 * m_delayState e) mod 4, m_delayPC e)"
proof -
  have pc: "m_pc (step_epc s) = m_pc s" by (simp add: step_epc_def)
  have "fetchWord (m_pc s) (step_epc s) = Inr i" using assms(2) by (simp add: fetchWord_step_epc)
  then obtain e s2 where e: "mep_exec i (m_pc s) (step_epc s) = Inr e" "step_count e = Inr s2" "s1 = step_out s2"
    using assms(1) by (auto simp: mep_step_def Let_def andThen_Inr_iff pc)
  have "flow s2 = flow e" using e(2) by (auto simp: step_count_def Let_def doException_def flow_def EXCEPTION_MAXINSTR_def
        oExceptionNameTable_def split: if_splits)
  then have "m_pc s2 = m_pc e" "m_delayState s2 = m_delayState e" "m_delayPC s2 = m_delayPC e" by (simp_all add: flow_def)
  then show thesis using that [OF e(1)] e(3)
    by (simp add: flow_def step_out_def advanceDelayState_def Let_def)
qed

text \<open>A jump or branch that is taken lets the instruction after it run and then goes to its target.\<close>

lemma transfer_then_slot:
  assumes "m_delayState s = DELAYSTATE_NORMAL" "fetchWord (m_pc s) s = Inr i"
    "mep_exec i (m_pc s) (step_epc s) = Inr (control_transfer t e)" "m_pc e = m_pc s"
    "mep_step s = Inr s1" "fetchWord (m_pc s1) s1 = Inr j" "\<not> is_transfer j" "mep_step s1 = Inr s2"
  shows "m_pc s1 = m_pc s + 4" "m_pc s2 = t" "m_delayState s2 = DELAYSTATE_NORMAL"
proof -
  have f1: "flow s1 = (m_pc s + 4, 2, t)"
    using mep_step_flow [OF assms(5,2)] assms(3,4) by (auto simp: control_transfer_def)
  then show "m_pc s1 = m_pc s + 4" by (simp add: flow_def)
  obtain e1 where e1: "mep_exec j (m_pc s1) (step_epc s1) = Inr e1"
    "flow s2 = (if m_delayState e1 = DELAYSTATE_DELAYSLOT then m_delayPC e1 else m_pc e1 + 4, (2 * m_delayState e1) mod 4, m_delayPC e1)"
    by (rule mep_step_flow [OF assms(8,6)])
  have "flow e1 = flow (step_epc s1)" using exec_straight [OF assms(7), of "step_epc s1" "m_pc s1"] e1(1) by (simp add: straight_def)
  also have "\<dots> = flow s1" by (simp add: step_epc_def)
  finally have "m_delayState e1 = 2" "m_delayPC e1 = t" using f1 by (simp_all add: flow_def)
  then have "flow s2 = (t, 0, t)" using e1(2) by simp
  then show "m_pc s2 = t" "m_delayState s2 = DELAYSTATE_NORMAL" by (simp_all add: flow_def)
qed

end
