(* ===== verification/Meps_Props.thy ===== *)
theory Meps_Props
  imports Meps_Load Meps_Alu Meps_Flow
begin

unbundle bit_operations_syntax

text \<open>The properties of the MIPS emulator of reeses_revenge.\<close>

subsection \<open>A state to apply them to\<close>

definition mep_sample :: mep where
  "mep_sample = \<lparr>m_mmu = mmu_boot, m_regs = replicate 32 0, m_pc = 0x400000, m_hi = 0, m_lo = 0, m_nextEpc = 0,
     m_errnoAddress = 0, m_optBigendian = False, m_instrCount = 0, m_delayState = 0, m_delayPC = 0,
     m_state = replicate 256 0, prng_state = seed_values 1, state_n = 0, g_oMMAPTable = [], host_reads = [],
     host_writes = [], host_times = [], mep_outs = []\<rparr>"

lemma mep_sample_ok: "mep_ok mep_sample" "mep_good mep_sample" "mep_inv 0 mep_sample"
  using mmu_boot_ok by (simp_all add: mep_ok_def mep_good_def mep_inv_def mep_sample_def MMAP_TABLE_SIZE_def)

subsection \<open>Termination and types\<close>

lemma mep_new_booted:
  assumes "length (m_state s) = 256" "ReadStdin 4 (mep_new s) = (r, s1)"
  shows "mep_booted (seed_prng v (snd (take_time s1)))"
proof -
  obtain hr where "s1 = (mep_new s)\<lparr>host_reads := hr\<rparr>" using ReadStdin_keeps [OF assms(2)] by blast
  then show ?thesis using assms(1)
    by (auto simp: mep_booted_def seed_prng_def take_time_def mep_new_def cpu_reset_def split: list.splits)
qed

text \<open>The ends at which the program itself stops, and those at which only the model does.\<close>

fun mep_ends :: "mep_exit \<Rightarrow> bool" where
  "mep_ends (Stopped (Exception c pc)) \<longleftrightarrow> True"
| "mep_ends (Stopped Exited) \<longleftrightarrow> True"
| "mep_ends (Stopped Divide_Trap) \<longleftrightarrow> True"
| "mep_ends (Stopped e) \<longleftrightarrow> False"
| "mep_ends e \<longleftrightarrow> True"

definition too_many :: "mep_exit \<Rightarrow> bool" where
  "too_many e \<longleftrightarrow> (\<exists>pc. e = Stopped (Exception EXCEPTION_MAXINSTR pc))"

definition placed_exit :: "mep_exit \<Rightarrow> bool" where
  "placed_exit e \<longleftrightarrow> (\<forall>x. e = Stopped x \<longrightarrow> stop_place x \<or> x = File_Overread \<or> too_many e)"

lemma placed_exits [simp]: "placed_exit Read_Length_Failed" "placed_exit File_Too_Large" "placed_exit Read_Data_Failed"
    "placed_exit (Load_Error r)" "placed_exit (Stopped x) \<longleftrightarrow> stop_place x \<or> x = File_Overread \<or> (\<exists>pc. x = Exception EXCEPTION_MAXINSTR pc)"
    "\<not> too_many Read_Length_Failed" "\<not> too_many File_Too_Large" "\<not> too_many Read_Data_Failed" "\<not> too_many (Load_Error r)"
  by (simp_all add: placed_exit_def too_many_def)

lemma mep_load_run_returns:
  assumes "mep_booted s" "50000001 \<le> n"
  shows "\<exists>e s'. mep_load_run rsaVerify n pFileData s = Some (e, s') \<and> unat (m_instrCount s') \<le> 50000001
    \<and> (m_instrCount s' = 50000001 \<longleftrightarrow> too_many e) \<and> placed_exit e"
proof (cases "LoadFile rsaVerify pFileData s")
  case (Inl x)
  then show ?thesis using LoadFile_fail_count [of rsaVerify pFileData s] LoadFile_stop [OF assms(1), of rsaVerify pFileData] assms(1)
    by (cases x) (auto simp: mep_load_run_def mep_booted_def too_many_def)
next
  case r: (Inr x)
  show ?thesis
  proof (cases x)
    case (Inl e)
    then show ?thesis using r assms(1) by (simp add: mep_load_run_def mep_booted_def)
  next
    case (Inr s1)
    let ?s1 = "s1\<lparr>mep_outs := mep_outs s1 @ [Out_Text ''<<RUNNING>>'']\<rparr>"
    have inv: "mep_inv 0 ?s1" using LoadFile_ok [OF assms(1)] r Inr by simp
    then have good: "mep_good ?s1" by (simp add: mep_good_def mep_inv_def)
    obtain e s2 where run: "mep_Run n ?s1 = Some (Inl (e, s2))"
      using mep_Run_stops [of ?s1 n] good inv assms(2) by (auto simp: mep_inv_def MAX_CPU_INSTRUCTION_COUNT_def)
    then show ?thesis using r Inr mep_Run_count [OF good run] mep_Run_stop_ok [OF good run] by (auto simp: mep_load_run_def too_many_def)
  qed
qed

text \<open>C4. Whatever the client sends and whatever the guest program does, \<open>main\<close> stops, and the instructions that were executed
  are at most 50000001, all of them exactly if the limit stops it. Where it stops is an end of the program, or one of five
  places at which the program goes on and the model does not: a page of the guest put at the host address of another, and
  four accesses that are not defined, to the first entry behind the page table, to a handler before the first, behind the array
  of two words of \<open>lwc3\<close>, and to a file behind its end. The table of the cipher has 256 words.\<close>

theorem mep_main_returns:
  assumes "length (m_state s) = 256" "50000001 \<le> n"
  shows "\<exists>e s'. mep_main rsaVerify printf_page n s = Some (e, s') \<and> unat (m_instrCount s') \<le> 50000001
    \<and> (m_instrCount s' = 50000001 \<longleftrightarrow> (\<exists>pc. e = Stopped (Exception EXCEPTION_MAXINSTR pc)))
    \<and> (mep_ends e \<or> (\<exists>i. e = Stopped (Page_Shared i)) \<or> e = Stopped (Page_Table 3072) \<or> (\<exists>k < 0. e = Stopped (Jump_Table k))
      \<or> e = Stopped Stack_Overrun \<or> e = Stopped File_Overread)"
proof -
  obtain r s1 where r: "ReadStdin 4 (mep_new s) = (r, s1)" by (meson surj_pair)
  obtain t s2 where t: "take_time s1 = (t, s2)" by (meson surj_pair)
  let ?s3 = "seed_prng (t XOR printf_page) s2"
  have b: "mep_booted ?s3" using mep_new_booted [OF assms(1) r] t by simp
  have "\<exists>e s'. mep_main rsaVerify printf_page n s = Some (e, s') \<and> unat (m_instrCount s') \<le> 50000001
    \<and> (m_instrCount s' = 50000001 \<longleftrightarrow> too_many e) \<and> placed_exit e"
  proof (cases "r = None \<or> unat (bytes_word (the r)) > MAX_FILE_SIZE")
    case True
    then show ?thesis using r t b by (cases r) (auto simp: mep_main_def Let_def mep_booted_def)
  next
    case False
    then obtain bs where bs: "r = Some bs" "unat (bytes_word bs) \<le> MAX_FILE_SIZE" by auto
    obtain d s4 where d: "ReadStdin (unat (bytes_word bs)) ?s3 = (d, s4)" by (meson surj_pair)
    obtain hr where "s4 = ?s3\<lparr>host_reads := hr\<rparr>" using ReadStdin_keeps [OF d] by blast
    then have b4: "mep_booted s4" using b by (simp add: mep_booted_def)
    from mep_load_run_returns [OF b4 assms(2)] show ?thesis
      using r t bs d b4 by (cases d) (auto simp: mep_main_def Let_def mep_booted_def)
  qed
  moreover have "mep_ends e \<or> (\<exists>i. e = Stopped (Page_Shared i)) \<or> e = Stopped (Page_Table 3072) \<or> (\<exists>k < 0. e = Stopped (Jump_Table k))
      \<or> e = Stopped Stack_Overrun \<or> e = Stopped File_Overread" if "placed_exit e" for e
    using that by (cases e rule: mep_ends.cases) simp_all
  ultimately show ?thesis unfolding too_many_def by blast
qed

theorem mep_main_returns_witness:
  "\<exists>e s'. mep_main (\<lambda>m sig. True) 0 50000001 mep_sample = Some (e, s') \<and> unat (m_instrCount s') \<le> 50000001"
  using mep_main_returns [of mep_sample 50000001 "\<lambda>m sig. True" 0] by (auto simp: mep_sample_def)

text \<open>C3. A step keeps the shape of the machine: 32 registers, pages of 4096 bytes where the code section and the
  mapped regions are and nowhere else, at most 8 regions, a delay state of 0, 1 or 2 and the tables of the
  generator and the cipher. If the step does not end the run, register 0 reads zero and one instruction is counted.\<close>

theorem mep_step_type:
  assumes "mep_ok s" "m_instrCount s \<le> MAX_CPU_INSTRUCTION_COUNT"
  shows "case mep_step s of Inl (e, s') \<Rightarrow> mep_ok s'
    | Inr s' \<Rightarrow> mep_ok s' \<and> m_regs s' ! 0 = 0 \<and> m_instrCount s' = m_instrCount s + 1
        \<and> m_instrCount s' \<le> MAX_CPU_INSTRUCTION_COUNT"
  using mep_step_ok [OF assms] by (auto simp: end_state_def split: sum.splits)

theorem mep_step_type_witness:
  "case mep_step mep_sample of Inl (e, s') \<Rightarrow> mep_ok s'
    | Inr s' \<Rightarrow> mep_ok s' \<and> m_regs s' ! 0 = 0 \<and> m_instrCount s' = m_instrCount mep_sample + 1
        \<and> m_instrCount s' \<le> MAX_CPU_INSTRUCTION_COUNT"
  using mep_step_type [OF mep_sample_ok(1)] mep_sample_ok(2) by (simp add: mep_good_def)

subsection \<open>Memory\<close>

lemma mmu_boot_mem: "0x400000 \<le> x \<Longrightarrow> x < 0x430000 \<Longrightarrow> mem_at mmu_boot x = Some 0"
proof -
  assume x: "0x400000 \<le> x" "x < 0x430000"
  then have "(x - 0x400000) div 4096 < 48" by (simp add: less_mult_imp_div_less)
  moreover have "mmu_ok mmu_boot" using mmu_boot_ok by (simp add: mmap_ok_def)
  ultimately show ?thesis using x mmu_boot_pages
    by (simp add: mem_at_page page_zero_def mmu_consts)
qed

lemma those_replicate: "those (replicate n (Some v)) = Some (replicate n v)"
  by (induction n) auto

lemma mmu_boot_span:
  assumes "0x400000 \<le> a" "a + n \<le> 0x430000"
  shows "those (mem_list mmu_boot a n) = Some (replicate n 0)"
proof -
  have "mem_list mmu_boot a n = replicate n (Some 0)"
    using assms by (intro nth_equalityI) (simp_all add: mem_list_def mmu_boot_mem)
  then show ?thesis by (simp add: those_replicate)
qed

lemma WriteMemory_boot:
  assumes "0x400000 \<le> unat a" "unat a + length bs \<le> 0x430000" "bs \<noteq> []"
  shows "\<exists>m. WriteMemory a bs mmu_boot = Inr (True, m) \<and> mmap_ok m [] \<and> mem_at m = mem_put (mem_at mmu_boot) (unat a) bs"
proof -
  have ok: "mmu_ok mmu_boot" using mmu_boot_ok by (simp add: mmap_ok_def)
  have "those (mem_list mmu_boot (unat a) (length bs)) \<noteq> None" using mmu_boot_span [OF assms(1,2)] by simp
  then obtain m where m: "WriteMemory a bs mmu_boot = Inr (True, m)" "mem_at m = mem_put (mem_at mmu_boot) (unat a) bs"
    using WriteMemory_writes [OF ok, of a bs] assms(3) by auto
  then show ?thesis using WriteMemory_mmap_ok [OF mmu_boot_ok] by blast
qed

text \<open>C5. A transfer to the memory that succeeds puts its bytes at their addresses, whatever pages they span, changes
  no other byte and is read back by a transfer from the same address.\<close>

theorem mep_memory_roundtrip:
  assumes "mmu_ok m" "WriteMemory address data m = Inr (True, m')"
  shows "mem_at m' = mem_put (mem_at m) (unat address) data \<and> ReadMemory address (length data) m' = Inr (Some data)"
proof -
  obtain k where w: "mmu_ok m'" "data \<noteq> []" "mem_at m' = mem_put (mem_at m) (unat address) (take k data)" "k = length data"
    using WriteMemory_writes [OF assms(1), of address data] assms(2) by auto
  have "mem_list m' (unat address) (length data) = map Some data"
    using w by (intro nth_equalityI) (simp_all add: mem_list_def mem_put_def)
  then have "those (mem_list m' (unat address) (length data)) = Some data" by (simp add: those_map_Some)
  then show ?thesis using ReadMemory_reads [OF w(1), of address "length data"] w by auto
qed

theorem mep_memory_roundtrip_witness:
  "\<exists>m. WriteMemory 0x400FFF [1, 2] mmu_boot = Inr (True, m) \<and> ReadMemory 0x400FFF 2 m = Inr (Some [1, 2])"
proof -
  obtain m where m: "WriteMemory 0x400FFF [1, 2] mmu_boot = Inr (True, m)"
    using WriteMemory_boot [of "0x400FFF" "[1, 2]"] by auto
  have "mmu_ok mmu_boot" using mmu_boot_ok by (simp add: mmap_ok_def)
  from mep_memory_roundtrip [OF this m] m show ?thesis by (simp add: numeral_2_eq_2)
qed

text \<open>C28. A request to map memory has one of three ends. It is refused and changes only the result register. Or it maps exactly
  the pages of its region, zeroed and disjoint from every page that was mapped, and adds the region to the table. Or the
  generator gives a number for the host address of one of these pages that it gave for another page before: there the new
  page would replace the other one, and the model stops.\<close>

theorem mep_mmap:
  assumes "mep_ok s"
  defines "a \<equiv> getReg REG_A0 s" and "l \<equiv> getReg REG_A1 s"
  defines "vs \<equiv> prng_list (page_count l) s"
  shows "if mmap_refused a l (g_oMMAPTable s) \<or> a \<ge> MMU_MAX_ADDRESS
    then DoMMAP s = Inr (setReg REG_V0 (- 1) s)
    else if distinct vs \<and> set vs \<inter> set (m_hosts (m_mmu s)) = {}
    then \<exists>s'. DoMMAP s = Inr s' \<and> mep_ok s' \<and> g_oMMAPTable s' = g_oMMAPTable s @ [(a, l)] \<and> getReg REG_V0 s' = a
      \<and> m_hosts (m_mmu s') = rev vs @ m_hosts (m_mmu s)
      \<and> (\<forall>i < 3072. m_pages (m_mmu s') ! i =
           (if page_in i (a, l) then Some (page_zero PAGE_TYPE_MMAP) else m_pages (m_mmu s) ! i))
      \<and> (\<forall>i < 3072. page_in i (a, l) \<longrightarrow> m_pages (m_mmu s) ! i = None)
    else \<exists>i. page_in i (a, l) \<and> DoMMAP s = Inl (Page_Shared i, s)"
proof -
  have inv: "mep_inv (m_instrCount s) s" using assms(1) by (simp add: mep_inv_def)
  have m: "mmap_ok (m_mmu s) (g_oMMAPTable s)" using assms(1) by (simp add: mep_ok_def)
  show ?thesis
  proof (cases "mmap_refused a l (g_oMMAPTable s) \<or> a \<ge> MMU_MAX_ADDRESS")
    case True
    then show ?thesis using DoMMAP_cases(1) [OF inv] by (simp add: a_def l_def)
  next
    case False
    have "m_pages (m_mmu s) ! i = None" if "i < 3072" "page_in i (a, l)" for i
      using fresh_pages [OF m _ that] False by blast
    then show ?thesis using False DoMMAP_cases(2) [OF inv]
      by (auto simp: a_def l_def vs_def new_hosts_def mep_inv_def not_le)
  qed
qed

lemma mep_ok_setReg: "mep_ok s \<Longrightarrow> mep_ok (setReg r v s)"
  by (simp add: mep_ok_def setReg_def)

lemma sample_regs: "q < length (m_regs s) \<Longrightarrow> getReg r (setReg q v s) = (if q = r then v else getReg r s)"
    "length (m_regs (setReg q v s)) = length (m_regs s)" "length (m_regs mep_sample) = 32"
    "r < 32 \<Longrightarrow> getReg r mep_sample = 0" "m_mmu (setReg q v s) = m_mmu s" "g_oMMAPTable (setReg q v s) = g_oMMAPTable s"
    "m_mmu mep_sample = mmu_boot" "g_oMMAPTable mep_sample = []" "m_optBigendian (setReg q v s) = m_optBigendian s"
    "m_optBigendian mep_sample = False" "m_state mep_sample = replicate 256 0" "m_state (setReg q v s) = m_state s"
  by (simp_all add: getReg_def setReg_def mep_sample_def)

lemma distinct_one_draw: "distinct (case prng s of (v, s1) \<Rightarrow> [v])"
  by (simp split: prod.split)

theorem mep_mmap_witness:
  "\<exists>s'. DoMMAP (setReg REG_A1 0x1000 (setReg REG_A0 0x430000 mep_sample)) = Inr s' \<and> getReg REG_V0 s' = 0x430000"
proof -
  have "mep_ok (setReg REG_A1 0x1000 (setReg REG_A0 0x430000 mep_sample))" by (intro mep_ok_setReg mep_sample_ok)
  moreover have "page_count 0x1000 = 1" by (simp add: page_count_def mmu_consts)
  moreover have "m_hosts mmu_boot = []" by (simp add: mmu_boot_def mmu_Setup_def mmu_new_def MMU_MAX_ADDRESS_def MMU_BASE_ADDRESS_def Let_def)
  ultimately show ?thesis using mep_mmap [of "setReg REG_A1 0x1000 (setReg REG_A0 0x430000 mep_sample)"]
    by (auto simp: sample_regs distinct_one_draw mmap_refused_def MMAP_MAX_LENGTH_def MMAP_TABLE_SIZE_def MMU_MAX_ADDRESS_def)
qed

subsection \<open>Arithmetic\<close>

text \<open>The right shifts are those of the machine: logical for \<open>srl\<close> and \<open>srlv\<close>, arithmetic for \<open>sra\<close> and \<open>srav\<close>.\<close>

theorem mep_shifts:
  "srl_emulate i pc s = Inr (setReg (i_rd i) (drop_bit (shamt i) (reg_rt i s)) s) \<and>
   sra_emulate i pc s = Inr (setReg (i_rd i) (signed_drop_bit (shamt i) (reg_rt i s)) s) \<and>
   srlv_emulate i pc s = Inr (setReg (i_rd i) (drop_bit (unat (reg_rs i s) mod 32) (reg_rt i s)) s) \<and>
   srav_emulate i pc s = Inr (setReg (i_rd i) (signed_drop_bit (unat (reg_rs i s) mod 32) (reg_rt i s)) s)"
proof -
  have "unat (w AND 0x1f) = unat w mod 32" for w :: u32 using unat_and_mask [of w 5] by (simp add: mask_numeral)
  then show ?thesis using field_bounds(6) [of i]
    by (simp add: srl_emulate_def sra_emulate_def srlv_emulate_def srav_emulate_def mep_srl_drop_bit mep_sra_signed_drop_bit)
qed

definition signed_result :: "nat \<Rightarrow> int \<Rightarrow> mep \<Rightarrow> mep_res" where
  "signed_result r v s =
     (if - (2 ^ 31) \<le> v \<and> v < 2 ^ 31 then Inr (setReg r (of_int v) s) else doException EXCEPTION_Ov s)"

text \<open>Signed addition and subtraction raise the overflow exception exactly if the result does not fit.\<close>

theorem mep_overflow:
  "add_emulate i pc s = signed_result (i_rd i) (sint (reg_rs i s) + sint (reg_rt i s)) s \<and>
   sub_emulate i pc s = signed_result (i_rd i) (sint (reg_rs i s) - sint (reg_rt i s)) s \<and>
   addi_emulate i pc s = signed_result (i_rt i) (sint (reg_rs i s) + sint (s_immed i)) s"
  by (auto simp: add_emulate_def sub_emulate_def addi_emulate_def signed_result_def Let_def add_overflows_iff sub_overflows_iff)

text \<open>An \<open>lwr\<close> and an \<open>lwl\<close> at the two ends of a word at any address load the word that is stored there.\<close>

theorem mep_unaligned_load:
  assumes "mep_ok s" "\<not> m_optBigendian s" "i_rs i1 \<noteq> i_rt i1" "i_rs i2 = i_rs i1" "i_rt i2 = i_rt i1"
    "s_immed i2 = s_immed i1 + 3" "fetchWord (word_addr (mem_addr i1 s)) s = Inr w0"
    "fetchWord (word_addr (mem_addr i1 s + 3)) s = Inr w1"
  shows "\<exists>w. fetchWord (mem_addr i1 s) s = Inr w \<and>
    andThen (lwr_emulate i1 pc s) (lwl_emulate i2 pc') = Inr (setReg (i_rt i1) w s)"
proof -
  have m: "mmu_ok (m_mmu s)" and len: "length (m_regs s) = 32" using assms(1) by (auto simp: mep_ok_def mmap_ok_def)
  define r where "r = mep_lwr False (reg_rt i1 s) w0 (which_byte (mem_addr i1 s))"
  define s1 where "s1 = setReg (i_rt i1) r s"
  have lwr: "lwr_emulate i1 pc s = Inr s1" using assms(2,7) by (simp add: lwr_emulate_def Let_def s1_def r_def)
  have addr: "mem_addr i2 s1 = mem_addr i1 s + 3"
    using assms(3-6) by (simp add: mem_addr_def getReg_def setReg_def s1_def)
  have fetch: "fetchWord (word_addr (mem_addr i1 s + 3)) s1 = Inr w1"
    using assms(8) fetchWord_bytes [of s1] fetchWord_bytes [of s] m by (simp add: setReg_def s1_def)
  have reg: "reg_rt i2 s1 = r"
    using assms(5) field_bounds(4) [of i1] len by (simp add: getReg_def setReg_def s1_def)
  have set: "setReg (i_rt i2) w s1 = setReg (i_rt i1) w s" for w
    using assms(5) by (simp add: setReg_def s1_def)
  have "\<not> m_optBigendian s1" using assms(2) by (simp add: s1_def setReg_def)
  then have "andThen (lwr_emulate i1 pc s) (lwl_emulate i2 pc') = Inr (setReg (i_rt i1)
      (mep_lwl False (mep_lwr False (reg_rt i1 s) w0 (which_byte (mem_addr i1 s))) w1 (which_byte (mem_addr i1 s + 3))) s)"
    by (simp add: lwr lwl_emulate_def Let_def addr fetch reg set) (simp add: r_def)
  then show ?thesis using lwr_lwl_merge [OF m assms(7,8)] by blast
qed

lemma fetchWord_sample:
  assumes "m_mmu s = mmu_boot" "0x400000 \<le> unat a" "unat a + 4 \<le> 0x430000"
  shows "fetchWord a s = Inr 0"
proof -
  have ok: "mmu_ok (m_mmu s)" using mmu_boot_ok assms(1) by (simp add: mmap_ok_def)
  have "fetchWord a s = Inr (bytes_word [0, 0, 0, 0])"
    using assms by (intro fetchWord_from [OF ok]) (simp_all add: mmu_boot_mem)
  then show ?thesis by (simp add: bytes_word_def)
qed

theorem mep_unaligned_load_witness:
  "\<exists>w. fetchWord 0x400001 (setReg 4 0x400001 mep_sample) = Inr w \<and>
    andThen (lwr_emulate 0x98820000 0 (setReg 4 0x400001 mep_sample)) (lwl_emulate 0x88820003 4)
      = Inr (setReg 2 w (setReg 4 0x400001 mep_sample))"
proof -
  let ?s = "setReg 4 0x400001 mep_sample"
  have f: "i_rs 0x98820000 = 4" "i_rt 0x98820000 = 2" "i_rs 0x88820003 = 4" "i_rt 0x88820003 = 2"
    "s_immed 0x98820000 = 0" "s_immed 0x88820003 = 3" by (simp_all add: i_rs_def i_rt_def s_immed_def)
  have a: "mem_addr 0x98820000 ?s = 0x400001" by (simp add: mem_addr_def f sample_regs)
  have w: "fetchWord (word_addr 0x400001) ?s = Inr 0" "fetchWord (word_addr (0x400001 + 3)) ?s = Inr 0"
    by (simp_all add: fetchWord_sample sample_regs word_addr_def)
  show ?thesis
    using mep_unaligned_load [of ?s "0x98820000" "0x88820003" 0 0 0 4] mep_ok_setReg [OF mep_sample_ok(1)] a w f
    by (simp add: sample_regs)
qed

subsection \<open>The cipher\<close>

lemma rc4_byte_twice:
  fixes k :: u32 and b :: u8
  shows "ucast (k XOR ucast (ucast (k XOR ucast b) :: u8)) = b"
  by (rule bit_word_eqI) (auto simp: bit_simps dest: bit_imp_le_length)

lemma rc4_bytes_twice: "rc4_bytes i j bs st = (cs, st') \<Longrightarrow> rc4_bytes i j cs st = (bs, st')"
proof (induction bs arbitrary: i j st cs)
  case Nil
  then show ?case by simp
next
  case (Cons b bs)
  let ?i = "(i + 1) mod 256"
  let ?j = "unat ((of_nat j + st ! ?i) mod 256)"
  let ?st = "rc4_swap ?i ?j st"
  obtain ds where ds: "rc4_bytes ?i ?j bs ?st = (ds, st')"
      "cs = ucast (?st ! unat ((?st ! ?i + ?st ! ?j) mod 256) XOR ucast b) # ds"
    using Cons.prems by (auto simp only: rc4_bytes.simps Let_def split: prod.splits)
  then show ?case using Cons.IH [OF ds(1)] by (simp only: rc4_bytes.simps Let_def rc4_byte_twice prod.case)
qed

text \<open>The block cipher is its own inverse: from the same table, encrypting the code gives the block back and the
  same next table.\<close>

theorem mep_rc4_involution:
  "RC4Block bs n st = (cs, st') \<Longrightarrow> RC4Block cs n st = (bs, st')"
proof -
  let ?k = "unat (of_nat n :: u8)"
  assume "RC4Block bs n st = (cs, st')"
  then obtain ds where ds: "rc4_bytes 0 0 (take ?k bs) st = (ds, st')" "cs = ds @ drop ?k bs"
    by (auto simp: RC4Block_def Let_def split: prod.splits)
  have "length ds = length (take ?k bs)" using length_rc4_bytes [OF ds(1)] by simp
  then have "take ?k cs = ds" "drop ?k cs = drop ?k bs" using ds(2) by (auto simp: min_def)
  then show "RC4Block cs n st = (bs, st')" using rc4_bytes_twice [OF ds(1)] by (simp add: RC4Block_def Let_def)
qed

theorem mep_rc4_involution_witness:
  "RC4Block (fst (RC4Block [1, 2, 3] 3 (map of_nat [0..<256]))) 3 (map of_nat [0..<256])
    = ([1, 2, 3], snd (RC4Block [1, 2, 3] 3 (map of_nat [0..<256])))"
  by (rule mep_rc4_involution) (simp del: upt_rec_numeral)

text \<open>A block of 256 bytes, which the coprocessor accepts, is copied to its destination unencrypted.\<close>

theorem mep_rc4_block_256:
  assumes "reg_rt i s AND 0x1FF = 256" "ReadMemory (reg_rs i s) 256 (m_mmu s) = Inr (Some bs)"
  shows "rc4_encrypt_emulate i pc s = mep_store (getReg (i_rd i) s) bs s"
  using assms by (simp add: rc4_encrypt_emulate_def Let_def in_state_def RC4Block_def)

theorem mep_rc4_block_256_witness:
  "\<exists>bs. rc4_encrypt_emulate 0x48A43001 0 (setReg 4 256 (setReg 5 0x400000 (setReg 6 0x401000 mep_sample)))
      = mep_store 0x401000 bs (setReg 4 256 (setReg 5 0x400000 (setReg 6 0x401000 mep_sample)))"
proof -
  let ?s = "setReg 4 256 (setReg 5 0x400000 (setReg 6 0x401000 mep_sample))"
  have ok: "mmu_ok mmu_boot" using mmu_boot_ok by (simp add: mmap_ok_def)
  have f: "i_rs 0x48A43001 = 5" "i_rt 0x48A43001 = 4" "i_rd 0x48A43001 = 6" by (simp_all add: i_rs_def i_rt_def i_rd_def)
  have "ReadMemory 0x400000 256 mmu_boot = Inr (Some (replicate 256 0))"
    using ReadMemory_reads [OF ok, of "0x400000" 256] mmu_boot_span [of "0x400000" 256] by auto
  then show ?thesis using mep_rc4_block_256 [of "0x48A43001" ?s "replicate 256 0" 0]
    by (auto simp: f sample_regs)
qed

subsection \<open>Undefined behaviour\<close>

text \<open>A system call number below 4000 selects a handler before the beginning of the table.\<close>

theorem mep_negative_syscall:
  assumes "sint (getReg REG_V0 s - 4000) < 0"
  shows "mep_exec 0xC pc s = Inl (Jump_Table (sint (getReg REG_V0 s - 4000)), setReg REG_A3 0 s)"
  using assms by (simp add: mep_exec_def opcode_def opcodeJumpTable_def funct_emulate_def funct_def functJumpTable_def
      syscall_emulate_def DoSyscall_def Let_def)

theorem mep_negative_syscall_witness:
  "mep_exec 0xC 0 mep_sample = Inl (Jump_Table (- 4000), setReg REG_A3 0 mep_sample)"
  using mep_negative_syscall [of mep_sample 0] by (simp add: sample_regs)

text \<open>A load from the end of the address space of the guest reads behind the table of pages.\<close>

theorem mep_page_table_overrun:
  assumes "mep_ok s" "mem_addr i s = MMU_MAX_ADDRESS"
  shows "lw_emulate i pc s = Inl (Page_Table 3072, s)"
proof -
  have m: "length (m_pages (m_mmu s)) = 3072" "m_baseAddress (m_mmu s) = 0x400000"
    using assms(1) by (auto simp: mep_ok_def mmap_ok_def mmu_okD)
  have "ReadMemory MMU_MAX_ADDRESS 4 (m_mmu s) = Inl (Page_Table 3072)"
    using m by (subst ReadMemory_step) (simp add: page_of_def MMU_MAX_ADDRESS_def mmu_consts)
  then show ?thesis using assms(2)
    by (simp add: lw_emulate_def Let_def fetchWord_def mep_load_def in_state_def MMU_MAX_ADDRESS_def)
qed

theorem mep_page_table_overrun_witness:
  "lw_emulate 0x8C820000 0 (setReg 4 0x1000000 mep_sample) = Inl (Page_Table 3072, setReg 4 0x1000000 mep_sample)"
proof -
  have "i_rs 0x8C820000 = 4" "s_immed 0x8C820000 = 0" by (simp_all add: i_rs_def s_immed_def)
  then show ?thesis using mep_ok_setReg [OF mep_sample_ok(1)]
    by (intro mep_page_table_overrun) (simp_all add: mem_addr_def MMU_MAX_ADDRESS_def sample_regs)
qed

subsection \<open>Delay slots\<close>

text \<open>C29. A jump or branch that is taken is delayed by one instruction: the next step executes the instruction after it,
  and if that is not itself a jump or branch, the step after goes on at the target.\<close>

theorem mep_delay_slot:
  assumes "m_delayState s = DELAYSTATE_NORMAL" "fetchWord (m_pc s) s = Inr i"
    "mep_exec i (m_pc s) (step_epc s) = Inr (control_transfer t e)" "m_pc e = m_pc s"
    "mep_step s = Inr s1" "fetchWord (m_pc s1) s1 = Inr j" "\<not> is_transfer j" "mep_step s1 = Inr s2"
  shows "m_pc s1 = m_pc s + 4 \<and> m_pc s2 = t \<and> m_delayState s2 = DELAYSTATE_NORMAL"
  using transfer_then_slot [OF assms] by simp

lemma mep_step_eval:
  assumes "fetchWord (m_pc s) s = Inr i" "mep_exec i (m_pc s) (step_epc s) = Inr e" "m_instrCount e < MAX_CPU_INSTRUCTION_COUNT"
  shows "mep_step s = Inr (step_out (e\<lparr>m_instrCount := m_instrCount e + 1\<rparr>))"
proof -
  have "m_pc (step_epc s) = m_pc s" by (simp add: step_epc_def)
  moreover have "\<not> m_instrCount e + 1 > MAX_CPU_INSTRUCTION_COUNT" using assms(3) by (simp add: inc_le not_less)
  moreover have "fetchWord (m_pc s) (step_epc s) = Inr i" using assms(1) by (simp add: fetchWord_step_epc)
  ultimately show ?thesis using assms(2) by (simp add: mep_step_def Let_def step_count_def)
qed

theorem mep_delay_slot_witness:
  "\<exists>s s1 s2. fetchWord 0x400000 s = Inr 0x08100004 \<and> m_pc s = 0x400000 \<and> mep_step s = Inr s1 \<and> m_pc s1 = 0x400004
    \<and> mep_step s1 = Inr s2 \<and> m_pc s2 = 0x400010"
proof -
  obtain m where m: "mmap_ok m []" "mem_at m = mem_put (mem_at mmu_boot) 0x400000 (word_bytes 0x08100004)"
    using WriteMemory_boot [of "0x400000" "word_bytes 0x08100004"] by (auto simp: word_bytes_def)
  have ok: "mmu_ok m" using m(1) by (simp add: mmap_ok_def)
  let ?s = "mep_sample\<lparr>m_mmu := m\<rparr>"
  have f: "fetchWord 0x400000 s = Inr 0x08100004" "fetchWord 0x400004 s = Inr 0" if "m_mmu s = m" for s
  proof -
    have ok': "mmu_ok (m_mmu s)" using ok that by simp
    have "fetchWord 0x400000 s = Inr (bytes_word [0x04, 0x00, 0x10, 0x08])"
      by (rule fetchWord_from [OF ok']) (simp_all add: that m(2) mem_put_def word_bytes_def)
    then show "fetchWord 0x400000 s = Inr 0x08100004" by (simp add: bytes_word_def)
    have "fetchWord 0x400004 s = Inr (bytes_word [0, 0, 0, 0])"
      by (rule fetchWord_from [OF ok']) (simp_all add: that m(2) mem_put_def word_bytes_def mmu_boot_mem)
    then show "fetchWord 0x400004 s = Inr 0" by (simp add: bytes_word_def)
  qed
  have j: "mep_exec 0x08100004 0x400000 x = Inr (control_transfer 0x400010 x)" for x
    by (simp add: mep_exec_def opcode_def opcodeJumpTable_def j_emulate_def jump_def calc_jump_target_def jumptarg_def)
  have nop: "mep_exec 0 p x = Inr (setReg 0 (push_bit 0 (getReg 0 x)) x)" for p x
    by (simp add: mep_exec_def opcode_def opcodeJumpTable_def funct_emulate_def funct_def functJumpTable_def sll_emulate_def
        i_rd_def i_rt_def shamt_def)
  let ?s1 = "step_out ((control_transfer 0x400010 (step_epc ?s))\<lparr>m_instrCount := 1\<rparr>)"
  have s1: "mep_step ?s = Inr ?s1"
    using mep_step_eval [of ?s "0x08100004"] f(1) [of ?s] j
    by (simp add: mep_sample_def control_transfer_def step_epc_def MAX_CPU_INSTRUCTION_COUNT_def)
  have p1: "m_pc ?s1 = 0x400004" "m_mmu ?s1 = m" "m_instrCount ?s1 = 1"
    by (simp_all add: mep_sample_def step_out_def advanceDelayState_def control_transfer_def step_epc_def Let_def)
  obtain s2 where s2: "mep_step ?s1 = Inr s2"
    using mep_step_eval [of ?s1 0] f(2) [OF p1(2)] p1 nop
    by (simp add: setReg_def step_epc_def MAX_CPU_INSTRUCTION_COUNT_def del: push_bit_0_id)
  have "\<not> is_transfer 0" by (simp add: is_transfer_def opcode_def funct_def)
  then have "m_pc s2 = 0x400010"
    using mep_delay_slot [of ?s "0x08100004" "0x400010" "step_epc ?s" ?s1 0 s2] s1 s2 f(1) [of ?s] f(2) [OF p1(2)] p1 j
    by (simp add: mep_sample_def step_epc_def)
  then show ?thesis using s1 s2 p1(1) f(1) [of ?s] by (intro exI [of _ ?s] exI [of _ ?s1] exI [of _ s2]) (simp add: mep_sample_def)
qed

end
