(* ===== verification/Sha256.thy ===== *)
theory Sha256
  imports Prelude
begin

unbundle bit_operations_syntax

text \<open>
  The hash of the guest programs of reeses_revenge (\<open>mips_build/sha256.c\<close>, \<open>mips_build/include/sha256.h\<close>), with the
  \<open>memcpy\<close> of \<open>mips_build/include/mystdlib.h\<close>. On the target \<open>uint32\<close> has 32 bits, so the masks with
  \<open>0xFFFFFFFF\<close> keep every value.
\<close>

subsection \<open>Copying\<close>

text \<open>The loop over words moves four bytes a turn up to the largest multiple of 64, the other loop the rest.\<close>

fun copy_bytes :: "u8 list \<Rightarrow> nat \<Rightarrow> u8 list \<Rightarrow> nat \<Rightarrow> nat \<Rightarrow> u8 list" where
  "copy_bytes dest d src pos 0 = dest"
| "copy_bytes dest d src pos (Suc n) = copy_bytes (dest[d + pos := src ! pos]) d src (pos + 1) n"

fun copy_words :: "u8 list \<Rightarrow> nat \<Rightarrow> u8 list \<Rightarrow> nat \<Rightarrow> nat \<Rightarrow> u8 list" where
  "copy_words dest d src pos 0 = dest"
| "copy_words dest d src pos (Suc n) = copy_words (copy_bytes dest d src pos 4) d src (pos + 4) n"

definition memcpy :: "u8 list \<Rightarrow> nat \<Rightarrow> u8 list \<Rightarrow> nat \<Rightarrow> u8 list" where
  "memcpy dest d src num =
     (if num \<ge> 4 then
        let whole = num - num mod 64 in
        copy_bytes (copy_words dest d src 0 (whole div 4)) d src whole (num - whole)
      else copy_bytes dest d src 0 num)"

subsection \<open>State\<close>

record sha256_context =
  total0 :: u32
  total1 :: u32
  sha_state :: "u32 list"
  sha_buffer :: "u8 list"

definition GET_UINT32 :: "u8 list \<Rightarrow> nat \<Rightarrow> u32" where
  "GET_UINT32 b i = push_bit 24 (ucast (b ! i)) OR push_bit 16 (ucast (b ! (i + 1)))
     OR push_bit 8 (ucast (b ! (i + 2))) OR ucast (b ! (i + 3))"

definition PUT_UINT32 :: "u32 \<Rightarrow> u8 list" where
  "PUT_UINT32 n = [ucast (drop_bit 24 n), ucast (drop_bit 16 n), ucast (drop_bit 8 n), ucast n]"

definition sha256_starts :: "sha256_context \<Rightarrow> sha256_context" where
  "sha256_starts ctx = ctx\<lparr>total0 := 0, total1 := 0,
     sha_state := [0x6A09E667, 0xBB67AE85, 0x3C6EF372, 0xA54FF53A, 0x510E527F, 0x9B05688C, 0x1F83D9AB, 0x5BE0CD19]\<rparr>"

subsection \<open>The compression\<close>

definition sha_SHR :: "u32 \<Rightarrow> nat \<Rightarrow> u32" where "sha_SHR x n = drop_bit n x"
definition sha_ROTR :: "u32 \<Rightarrow> nat \<Rightarrow> u32" where "sha_ROTR x n = sha_SHR x n OR push_bit (32 - n) x"
definition sha_S0 :: "u32 \<Rightarrow> u32" where "sha_S0 x = sha_ROTR x 7 XOR sha_ROTR x 18 XOR sha_SHR x 3"
definition sha_S1 :: "u32 \<Rightarrow> u32" where "sha_S1 x = sha_ROTR x 17 XOR sha_ROTR x 19 XOR sha_SHR x 10"
definition sha_S2 :: "u32 \<Rightarrow> u32" where "sha_S2 x = sha_ROTR x 2 XOR sha_ROTR x 13 XOR sha_ROTR x 22"
definition sha_S3 :: "u32 \<Rightarrow> u32" where "sha_S3 x = sha_ROTR x 6 XOR sha_ROTR x 11 XOR sha_ROTR x 25"
definition sha_F0 :: "u32 \<Rightarrow> u32 \<Rightarrow> u32 \<Rightarrow> u32" where "sha_F0 x y z = (x AND y) OR (z AND (x OR y))"
definition sha_F1 :: "u32 \<Rightarrow> u32 \<Rightarrow> u32 \<Rightarrow> u32" where "sha_F1 x y z = z XOR (x AND (y XOR z))"

text \<open>The word of a round: \<open>W[t]\<close> for the first 16, then \<open>R(t)\<close>, which computes and stores it.\<close>

definition sha_R :: "nat \<Rightarrow> u32 list \<Rightarrow> u32" where
  "sha_R t W = sha_S1 (W ! (t - 2)) + W ! (t - 7) + sha_S0 (W ! (t - 15)) + W ! (t - 16)"

definition sha_x :: "nat \<Rightarrow> u32 list \<Rightarrow> u32 \<times> u32 list" where
  "sha_x t W = (if t < 16 then (W ! t, W) else (sha_R t W, W @ [sha_R t W]))"

text \<open>The macro \<open>P\<close> assigns its fourth and its last variable.\<close>

definition sha_P :: "u32 \<Rightarrow> u32 \<Rightarrow> u32 \<Rightarrow> u32 \<Rightarrow> u32 \<Rightarrow> u32 \<Rightarrow> u32 \<Rightarrow> u32 \<Rightarrow> u32 \<Rightarrow> u32 \<Rightarrow> u32 \<times> u32" where
  "sha_P a b c d e f g h x K =
     (let temp1 = h + sha_S3 e + sha_F1 e f g + K + x; temp2 = sha_S2 a + sha_F0 a b c in (d + temp1, temp1 + temp2))"

definition sha256_K :: "u32 list" where
  "sha256_K =
     [0x428A2F98, 0x71374491, 0xB5C0FBCF, 0xE9B5DBA5, 0x3956C25B, 0x59F111F1, 0x923F82A4, 0xAB1C5ED5,
      0xD807AA98, 0x12835B01, 0x243185BE, 0x550C7DC3, 0x72BE5D74, 0x80DEB1FE, 0x9BDC06A7, 0xC19BF174,
      0xE49B69C1, 0xEFBE4786, 0x0FC19DC6, 0x240CA1CC, 0x2DE92C6F, 0x4A7484AA, 0x5CB0A9DC, 0x76F988DA,
      0x983E5152, 0xA831C66D, 0xB00327C8, 0xBF597FC7, 0xC6E00BF3, 0xD5A79147, 0x06CA6351, 0x14292967,
      0x27B70A85, 0x2E1B2138, 0x4D2C6DFC, 0x53380D13, 0x650A7354, 0x766A0ABB, 0x81C2C92E, 0x92722C85,
      0xA2BFE8A1, 0xA81A664B, 0xC24B8B70, 0xC76C51A3, 0xD192E819, 0xD6990624, 0xF40E3585, 0x106AA070,
      0x19A4C116, 0x1E376C08, 0x2748774C, 0x34B0BCB5, 0x391C0CB3, 0x4ED8AA4A, 0x5B9CCA4F, 0x682E6FF3,
      0x748F82EE, 0x78A5636F, 0x84C87814, 0x8CC70208, 0x90BEFFFA, 0xA4506CEB, 0xBEF9A3F7, 0xC67178F2]"

text \<open>The 64 uses of \<open>P\<close> repeat the order of their variables every eight; these are eight of them, from round \<open>t\<close>.\<close>

type_synonym sha_vars = "u32 \<times> u32 \<times> u32 \<times> u32 \<times> u32 \<times> u32 \<times> u32 \<times> u32"

definition sha_eight :: "nat \<Rightarrow> u32 list \<times> sha_vars \<Rightarrow> u32 list \<times> sha_vars" where
  "sha_eight t = (\<lambda>(W, A, B, C, D, E, F, G, H).
     (let (x, W) = sha_x t W; (D, H) = sha_P A B C D E F G H x (sha256_K ! t);
          (x, W) = sha_x (t + 1) W; (C, G) = sha_P H A B C D E F G x (sha256_K ! (t + 1));
          (x, W) = sha_x (t + 2) W; (B, F) = sha_P G H A B C D E F x (sha256_K ! (t + 2));
          (x, W) = sha_x (t + 3) W; (A, E) = sha_P F G H A B C D E x (sha256_K ! (t + 3));
          (x, W) = sha_x (t + 4) W; (H, D) = sha_P E F G H A B C D x (sha256_K ! (t + 4));
          (x, W) = sha_x (t + 5) W; (G, C) = sha_P D E F G H A B C x (sha256_K ! (t + 5));
          (x, W) = sha_x (t + 6) W; (F, B) = sha_P C D E F G H A B x (sha256_K ! (t + 6));
          (x, W) = sha_x (t + 7) W; (E, A) = sha_P B C D E F G H A x (sha256_K ! (t + 7))
      in (W, A, B, C, D, E, F, G, H)))"

definition sha256_process :: "sha256_context \<Rightarrow> u8 list \<Rightarrow> sha256_context" where
  "sha256_process ctx data =
     (let W = map (\<lambda>i. GET_UINT32 data (4 * i)) [0..<16]; st = sha_state ctx;
          (W, A, B, C, D, E, F, G, H) =
            fold sha_eight [0, 8, 16, 24, 32, 40, 48, 56] (W, st ! 0, st ! 1, st ! 2, st ! 3, st ! 4, st ! 5, st ! 6, st ! 7)
      in ctx\<lparr>sha_state := [st ! 0 + A, st ! 1 + B, st ! 2 + C, st ! 3 + D, st ! 4 + E, st ! 5 + F, st ! 6 + G, st ! 7 + H]\<rparr>)"

subsection \<open>The streaming interface\<close>

function sha_blocks :: "sha256_context \<Rightarrow> u8 list \<Rightarrow> sha256_context \<times> u8 list" where
  "sha_blocks ctx input =
     (if length input \<ge> 64 then sha_blocks (sha256_process ctx (take 64 input)) (drop 64 input) else (ctx, input))"
  by pat_completeness auto
termination by (relation "measure (\<lambda>(ctx, input). length input)") auto

declare sha_blocks.simps [simp del]

text \<open>The parameter \<open>length\<close> is the length of the list.\<close>

definition sha256_update :: "sha256_context \<Rightarrow> u8 list \<Rightarrow> sha256_context" where
  "sha256_update ctx input =
     (let len = of_nat (length input) :: u32 in
      if len = 0 then ctx
      else
        let left = unat (total0 ctx AND 0x3F);
            fill = 64 - left;
            ctx = ctx\<lparr>total0 := total0 ctx + len\<rparr>;
            ctx = (if total0 ctx < len then ctx\<lparr>total1 := total1 ctx + 1\<rparr> else ctx);
            (ctx, input, left) =
              (if left \<noteq> 0 \<and> length input \<ge> fill
               then let ctx = ctx\<lparr>sha_buffer := memcpy (sha_buffer ctx) left input fill\<rparr> in
                 (sha256_process ctx (sha_buffer ctx), drop fill input, 0)
               else (ctx, input, left));
            (ctx, input) = sha_blocks ctx input
        in if input \<noteq> [] then ctx\<lparr>sha_buffer := memcpy (sha_buffer ctx) left input (length input)\<rparr> else ctx)"

definition sha256_padding :: "u8 list" where
  "sha256_padding = 0x80 # replicate 63 0"

definition sha256_finish :: "sha256_context \<Rightarrow> sha256_context \<times> u8 list" where
  "sha256_finish ctx =
     (let high = drop_bit 29 (total0 ctx) OR push_bit 3 (total1 ctx);
          low = push_bit 3 (total0 ctx);
          msglen = PUT_UINT32 high @ PUT_UINT32 low;
          last = unat (total0 ctx AND 0x3F);
          padn = (if last < 56 then 56 - last else 120 - last);
          ctx = sha256_update ctx (take padn sha256_padding);
          ctx = sha256_update ctx msglen
      in (ctx, concat (map PUT_UINT32 (sha_state ctx))))"

end
