(* ===== verification/Sha256_Ref.thy ===== *)
theory Sha256_Ref
  imports Sha256
begin

unbundle bit_operations_syntax

text \<open>
  SHA-256 as its standard states it: the functions by rotations, the message schedule by recursion, one round at a
  time, the message padded as a whole and cut into blocks. The constants are the first bits of the fractional parts of
  the roots of the first primes.
\<close>

subsection \<open>The standard\<close>

definition Ch :: "u32 \<Rightarrow> u32 \<Rightarrow> u32 \<Rightarrow> u32" where "Ch x y z = (x AND y) XOR (NOT x AND z)"
definition Maj :: "u32 \<Rightarrow> u32 \<Rightarrow> u32 \<Rightarrow> u32" where "Maj x y z = (x AND y) XOR (x AND z) XOR (y AND z)"
definition Sum0 :: "u32 \<Rightarrow> u32" where "Sum0 x = word_rotr 2 x XOR word_rotr 13 x XOR word_rotr 22 x"
definition Sum1 :: "u32 \<Rightarrow> u32" where "Sum1 x = word_rotr 6 x XOR word_rotr 11 x XOR word_rotr 25 x"
definition sig0 :: "u32 \<Rightarrow> u32" where "sig0 x = word_rotr 7 x XOR word_rotr 18 x XOR drop_bit 3 x"
definition sig1 :: "u32 \<Rightarrow> u32" where "sig1 x = word_rotr 17 x XOR word_rotr 19 x XOR drop_bit 10 x"

fun sha_sched :: "u32 list \<Rightarrow> nat \<Rightarrow> u32" where
  "sha_sched M t =
     (if t < 16 then M ! t
      else sig1 (sha_sched M (t - 2)) + sha_sched M (t - 7) + sig0 (sha_sched M (t - 15)) + sha_sched M (t - 16))"

declare sha_sched.simps [simp del]

definition sha_round :: "u32 list \<Rightarrow> nat \<Rightarrow> sha_vars \<Rightarrow> sha_vars" where
  "sha_round M t = (\<lambda>(a, b, c, d, e, f, g, h).
     let T1 = h + Sum1 e + Ch e f g + sha256_K ! t + sha_sched M t; T2 = Sum0 a + Maj a b c
     in (T1 + T2, a, b, c, d + T1, e, f, g))"

definition sha_compress :: "u32 list \<Rightarrow> u8 list \<Rightarrow> u32 list" where
  "sha_compress H block =
     (let M = map (\<lambda>i. GET_UINT32 block (4 * i)) [0..<16];
          (a, b, c, d, e, f, g, h) = fold (sha_round M) [0..<64] (H ! 0, H ! 1, H ! 2, H ! 3, H ! 4, H ! 5, H ! 6, H ! 7)
      in [a + H ! 0, b + H ! 1, c + H ! 2, d + H ! 3, e + H ! 4, f + H ! 5, g + H ! 6, h + H ! 7])"

definition sha_H0 :: "u32 list" where
  "sha_H0 = [0x6A09E667, 0xBB67AE85, 0x3C6EF372, 0xA54FF53A, 0x510E527F, 0x9B05688C, 0x1F83D9AB, 0x5BE0CD19]"

function absorb :: "u32 list \<Rightarrow> u8 list \<Rightarrow> u32 list" where
  "absorb H m = (if length m \<ge> 64 then absorb (sha_compress H (take 64 m)) (drop 64 m) else H)"
  by pat_completeness auto
termination by (relation "measure (\<lambda>(H, m). length m)") auto

declare absorb.simps [simp del]

text \<open>The padding: a bit 1, zeros up to 8 bytes below a block, and the length in bits.\<close>

definition sha_zeros :: "nat \<Rightarrow> nat" where
  "sha_zeros n = (119 - n mod 64) mod 64"

definition sha_pad :: "u8 list \<Rightarrow> u8 list" where
  "sha_pad m = m @ 0x80 # replicate (sha_zeros (length m)) 0
     @ map (\<lambda>k. of_nat (8 * length m div 256 ^ (7 - k) mod 256)) [0..<8]"

definition sha256 :: "u8 list \<Rightarrow> u8 list" where
  "sha256 m = concat (map PUT_UINT32 (absorb sha_H0 (sha_pad m)))"

subsection \<open>The rounds\<close>

lemma sha_ROTR_rotr:
  assumes "0 < n" "n < 32"
  shows "sha_ROTR x n = word_rotr n x"
proof (rule bit_word_eqI)
  fix k assume "k < LENGTH(32)"
  then have k: "k < 32" by simp
  have "(k + n) mod 32 = (if k + n < 32 then k + n else k + n - 32)" using assms k by (simp add: mod_if)
  moreover have "k - (32 - n) = k + n - 32" using assms by simp
  ultimately show "bit (sha_ROTR x n) k \<longleftrightarrow> bit (word_rotr n x) k"
    using assms k by (auto simp: sha_ROTR_def sha_SHR_def bit_simps add.commute dest: bit_imp_le_length)
qed

lemma sha_functions:
  "sha_S0 = sig0" "sha_S1 = sig1" "sha_S2 = Sum0" "sha_S3 = Sum1" "sha_F0 = Maj" "sha_F1 = Ch"
proof -
  show "sha_S0 = sig0" "sha_S1 = sig1" "sha_S2 = Sum0" "sha_S3 = Sum1"
    by (simp_all add: fun_eq_iff sha_S0_def sha_S1_def sha_S2_def sha_S3_def sig0_def sig1_def Sum0_def Sum1_def
        sha_ROTR_rotr sha_SHR_def)
  show "sha_F0 = Maj" by (intro ext bit_word_eqI) (auto simp: sha_F0_def Maj_def bit_simps)
  show "sha_F1 = Ch" by (intro ext bit_word_eqI) (auto simp: sha_F1_def Ch_def bit_simps)
qed

definition sched_list :: "u32 list \<Rightarrow> nat \<Rightarrow> u32 list" where
  "sched_list M t = map (sha_sched M) [0..<max 16 t]"

lemma sha_x_sched: "sha_x t (sched_list M t) = (sha_sched M t, sched_list M (t + 1))"
proof (cases "t < 16")
  case True
  then show ?thesis by (simp add: sha_x_def sched_list_def)
next
  case False
  then have "sha_R t (sched_list M t) = sha_sched M t"
    by (subst sha_sched.simps) (simp add: sha_R_def sched_list_def sha_functions)
  then show ?thesis using False by (simp add: sha_x_def sched_list_def max_def)
qed

lemma sha_round_P:
  "sha_P a b c d e f g h (sha_sched M t) (sha256_K ! t) = (d', h') \<Longrightarrow>
   sha_round M t (a, b, c, d, e, f, g, h) = (h', a, b, c, d', e, f, g)"
  by (auto simp: sha_P_def sha_round_def sha_functions Let_def)

lemma sha_eight_rounds:
  "sha_eight t (sched_list M t, v) = (sched_list M (t + 8), fold (sha_round M) [t..<t + 8] v)"
proof -
  obtain A B C D E F G H where v: "v = (A, B, C, D, E, F, G, H)" by (cases v) auto
  obtain d0 h0 where p0: "sha_P A B C D E F G H (sha_sched M t) (sha256_K ! t) = (d0, h0)"
    by (meson surj_pair)
  obtain c1 g1 where p1: "sha_P h0 A B C d0 E F G (sha_sched M (t + 1)) (sha256_K ! (t + 1)) = (c1, g1)"
    by (meson surj_pair)
  obtain b2 f2 where p2: "sha_P g1 h0 A B c1 d0 E F (sha_sched M (t + 2)) (sha256_K ! (t + 2)) = (b2, f2)"
    by (meson surj_pair)
  obtain a3 e3 where p3: "sha_P f2 g1 h0 A b2 c1 d0 E (sha_sched M (t + 3)) (sha256_K ! (t + 3)) = (a3, e3)"
    by (meson surj_pair)
  obtain h4 d4 where p4: "sha_P e3 f2 g1 h0 a3 b2 c1 d0 (sha_sched M (t + 4)) (sha256_K ! (t + 4)) = (h4, d4)"
    by (meson surj_pair)
  obtain g5 c5 where p5: "sha_P d4 e3 f2 g1 h4 a3 b2 c1 (sha_sched M (t + 5)) (sha256_K ! (t + 5)) = (g5, c5)"
    by (meson surj_pair)
  obtain f6 b6 where p6: "sha_P c5 d4 e3 f2 g5 h4 a3 b2 (sha_sched M (t + 6)) (sha256_K ! (t + 6)) = (f6, b6)"
    by (meson surj_pair)
  obtain e7 a7 where p7: "sha_P b6 c5 d4 e3 f6 g5 h4 a3 (sha_sched M (t + 7)) (sha256_K ! (t + 7)) = (e7, a7)"
    by (meson surj_pair)
  have x0: "sha_x t (sched_list M t) = (sha_sched M t, sched_list M (t + 1))"
    using sha_x_sched [of t M] by (simp add: eval_nat_numeral)
  have x1: "sha_x (t + 1) (sched_list M (t + 1)) = (sha_sched M (t + 1), sched_list M (t + 2))"
    using sha_x_sched [of "t + 1" M] by (simp add: eval_nat_numeral)
  have x2: "sha_x (t + 2) (sched_list M (t + 2)) = (sha_sched M (t + 2), sched_list M (t + 3))"
    using sha_x_sched [of "t + 2" M] by (simp add: eval_nat_numeral)
  have x3: "sha_x (t + 3) (sched_list M (t + 3)) = (sha_sched M (t + 3), sched_list M (t + 4))"
    using sha_x_sched [of "t + 3" M] by (simp add: eval_nat_numeral)
  have x4: "sha_x (t + 4) (sched_list M (t + 4)) = (sha_sched M (t + 4), sched_list M (t + 5))"
    using sha_x_sched [of "t + 4" M] by (simp add: eval_nat_numeral)
  have x5: "sha_x (t + 5) (sched_list M (t + 5)) = (sha_sched M (t + 5), sched_list M (t + 6))"
    using sha_x_sched [of "t + 5" M] by (simp add: eval_nat_numeral)
  have x6: "sha_x (t + 6) (sched_list M (t + 6)) = (sha_sched M (t + 6), sched_list M (t + 7))"
    using sha_x_sched [of "t + 6" M] by (simp add: eval_nat_numeral)
  have x7: "sha_x (t + 7) (sched_list M (t + 7)) = (sha_sched M (t + 7), sched_list M (t + 8))"
    using sha_x_sched [of "t + 7" M] by (simp add: eval_nat_numeral)
  have eight: "[t..<t + 8] = [t, t + 1, t + 2, t + 3, t + 4, t + 5, t + 6, t + 7]"
    by (simp add: upt_rec)
  show ?thesis
    unfolding v sha_eight_def eight
    by (simp only: Let_def prod.case fold_simps x0 x1 x2 x3 x4 x5 x6 x7 p0 p1 p2 p3 p4 p5 p6 p7
        sha_round_P [OF p0] sha_round_P [OF p1] sha_round_P [OF p2] sha_round_P [OF p3]
        sha_round_P [OF p4] sha_round_P [OF p5] sha_round_P [OF p6] sha_round_P [OF p7])
qed

lemma sha_rounds:
  "fold sha_eight [0, 8, 16, 24, 32, 40, 48, 56] (sched_list M 0, v) = (sched_list M 64, fold (sha_round M) [0..<64] v)"
proof -
  have "[0..<64] = [0..<0 + 8] @ [8..<8 + 8] @ [16..<16 + 8] @ [24..<24 + 8] @ [32..<32 + 8] @ [40..<40 + 8] @ [48..<48 + 8] @ [56..<56 + 8]"
    by (simp add: upt_rec)
  then show ?thesis
    using sha_eight_rounds [of 0 M] sha_eight_rounds [of 8 M] sha_eight_rounds [of 16 M] sha_eight_rounds [of 24 M]
      sha_eight_rounds [of 32 M] sha_eight_rounds [of 40 M] sha_eight_rounds [of 48 M] sha_eight_rounds [of 56 M]
    by (simp del: upt_rec_numeral)
qed

lemma sha256_process_compress:
  assumes "length (sha_state ctx) = 8" "length data = 64"
  shows "sha256_process ctx data = ctx\<lparr>sha_state := sha_compress (sha_state ctx) data\<rparr>"
proof -
  let ?M = "map (\<lambda>i. GET_UINT32 data (4 * i)) [0..<16]"
  have "sched_list ?M 0 = ?M"
    by (intro nth_equalityI) (simp_all add: sched_list_def sha_sched.simps del: upt_rec_numeral)
  then show ?thesis using sha_rounds [of ?M]
    by (simp add: sha256_process_def sha_compress_def Let_def split_beta add.commute del: upt_rec_numeral)
qed

end
