(* ===== verification/Sha256_Stream.thy ===== *)
theory Sha256_Stream
  imports Sha256_Ref
begin

unbundle bit_operations_syntax

text \<open>
  The streaming interface of the hash: a context stands for the message it has been given so far, however that was cut
  into pieces, and finishing it gives the hash of the whole message.
\<close>

subsection \<open>Copies\<close>

lemma length_copy_bytes [simp]: "length (copy_bytes dest d src pos n) = length dest"
  by (induction n arbitrary: dest pos) auto

lemma copy_bytes_eq:
  assumes "d + pos + n \<le> length dest" "pos + n \<le> length src"
  shows "copy_bytes dest d src pos n = take (d + pos) dest @ take n (drop pos src) @ drop (d + pos + n) dest"
  using assms
proof (induction n arbitrary: dest pos)
  case 0
  then show ?case by simp
next
  case (Suc n)
  have "take n (drop (Suc pos) src) = drop 1 (take (Suc n) (drop pos src))" by (simp add: drop_take)
  moreover have "take (Suc n) (drop pos src) = src ! pos # take n (drop (Suc pos) src)"
    using Suc.prems by (simp add: Cons_nth_drop_Suc [symmetric])
  moreover have "take (Suc (d + pos)) (dest[d + pos := v]) = take (d + pos) dest @ [v]" for v
    using Suc.prems by (simp add: take_Suc_conv_app_nth)
  ultimately show ?case using Suc by simp
qed

lemma copy_bytes_add: "copy_bytes dest d src pos (a + b) = copy_bytes (copy_bytes dest d src pos a) d src (pos + a) b"
  by (induction a arbitrary: dest pos) auto

lemma copy_words_eq:
  "d + pos + 4 * n \<le> length dest \<Longrightarrow> pos + 4 * n \<le> length src \<Longrightarrow>
   copy_words dest d src pos n = copy_bytes dest d src pos (4 * n)"
proof (induction n arbitrary: dest pos)
  case 0
  then show ?case by simp
next
  case (Suc n)
  show ?case using Suc copy_bytes_add [of dest d src pos 4 "4 * n"] by simp
qed

lemma memcpy_eq:
  assumes "d + num \<le> length dest" "num \<le> length src"
  shows "memcpy dest d src num = take d dest @ take num src @ drop (d + num) dest"
proof -
  define w where "w = num - num mod 64"
  have w: "4 * (w div 4) = w" "w \<le> num"
    unfolding w_def minus_mod_eq_mult_div by simp_all
  have "copy_words dest d src 0 (w div 4) = copy_bytes dest d src 0 w"
    using assms w copy_words_eq [of d 0 "w div 4" dest src] by simp
  moreover have "copy_bytes dest d src 0 num = copy_bytes (copy_bytes dest d src 0 w) d src w (num - w)"
    using copy_bytes_add [of dest d src 0 w "num - w"] w(2) by simp
  ultimately have "memcpy dest d src num = copy_bytes dest d src 0 num"
    by (simp add: memcpy_def Let_def w_def [symmetric])
  then show ?thesis using copy_bytes_eq [of d 0 num dest src] assms by simp
qed

subsection \<open>Blocks\<close>

lemma length_sha_compress [simp]: "length (sha_compress H b) = 8"
  by (simp add: sha_compress_def Let_def split_beta)

lemma length_absorb: "length H = 8 \<Longrightarrow> length (absorb H m) = 8"
  by (induction H m rule: absorb.induct) (subst absorb.simps, simp)

lemma absorb_short: "length m < 64 \<Longrightarrow> absorb H m = H"
  by (subst absorb.simps) simp

lemma absorb_block: "length b = 64 \<Longrightarrow> absorb H (b @ m) = absorb (sha_compress H b) m"
  by (subst absorb.simps) simp

lemma absorb_append: "length xs = 64 * k \<Longrightarrow> absorb H (xs @ ys) = absorb (absorb H xs) ys"
proof (induction k arbitrary: H xs)
  case 0
  then show ?case by (simp add: absorb_short)
next
  case (Suc k)
  have len: "length (take 64 xs) = 64" using Suc.prems by simp
  have "absorb H ((take 64 xs @ drop 64 xs) @ ys) = absorb (sha_compress H (take 64 xs)) (drop 64 xs @ ys)"
    by (simp only: append_assoc absorb_block [OF len])
  then have "absorb H (xs @ ys) = absorb (sha_compress H (take 64 xs)) (drop 64 xs @ ys)"
    by (simp only: append_take_drop_id)
  moreover have "absorb H xs = absorb (sha_compress H (take 64 xs)) (drop 64 xs)"
    using absorb_block [of "take 64 xs" H "drop 64 xs"] Suc.prems by simp
  ultimately show ?case using Suc by simp
qed

definition rest_of :: "u8 list \<Rightarrow> u8 list" where
  "rest_of m = drop (64 * (length m div 64)) m"

definition whole_of :: "u8 list \<Rightarrow> u8 list" where
  "whole_of m = take (64 * (length m div 64)) m"

lemma whole_rest: "whole_of m @ rest_of m = m" "length (whole_of m) = 64 * (length m div 64)" "length (rest_of m) = length m mod 64"
  by (simp_all add: whole_of_def rest_of_def minus_mult_div_eq_mod)

lemma absorb_whole: "absorb H (whole_of m) = absorb H m"
  using absorb_append [OF whole_rest(2) [of m], of H "rest_of m"] whole_rest(1,3) [of m] by (simp add: absorb_short)

lemma absorb_more: "absorb H (m @ x) = absorb (absorb H m) (rest_of m @ x)"
  using absorb_append [OF whole_rest(2) [of m], of H "rest_of m @ x"] whole_rest(1) [of m] absorb_whole [of H m]
  by (metis append.assoc)

lemma rest_more: "rest_of (m @ x) = rest_of (rest_of m @ x)"
proof -
  have "length (m @ x) = 64 * (length m div 64) + length (rest_of m @ x)"
    using whole_rest(3) [of m] by simp
  then have "length (m @ x) div 64 = length m div 64 + length (rest_of m @ x) div 64" by presburger
  then have "rest_of (m @ x) = drop (64 * (length (rest_of m @ x) div 64)) (drop (64 * (length m div 64)) (m @ x))"
    by (simp add: rest_of_def add_mult_distrib2 add.commute)
  also have "drop (64 * (length m div 64)) (m @ x) = rest_of m @ x" by (simp add: rest_of_def)
  finally show ?thesis by (simp add: rest_of_def)
qed

lemma rest_short: "length m < 64 \<Longrightarrow> rest_of m = m"
  by (simp add: rest_of_def)

lemma rest_block: "length b = 64 \<Longrightarrow> rest_of (b @ m) = rest_of m"
  using rest_more [of b m] by (simp add: rest_of_def)

lemma sha_blocks_absorb:
  "length (sha_state ctx) = 8 \<Longrightarrow>
   sha_blocks ctx input = (ctx\<lparr>sha_state := absorb (sha_state ctx) input\<rparr>, rest_of input)"
proof (induction ctx input rule: sha_blocks.induct)
  case (1 ctx input)
  show ?case
  proof (cases "64 \<le> length input")
    case True
    have i: "input = take 64 input @ drop 64 input" by simp
    have "absorb (sha_state ctx) input = absorb (sha_compress (sha_state ctx) (take 64 input)) (drop 64 input)"
      using absorb_block [of "take 64 input" "sha_state ctx" "drop 64 input"] True by simp
    moreover have "rest_of input = rest_of (drop 64 input)"
      using rest_block [of "take 64 input" "drop 64 input"] True by simp
    ultimately show ?thesis using 1 True
      by (subst sha_blocks.simps) (simp add: sha256_process_compress)
  next
    case False
    then show ?thesis by (subst sha_blocks.simps) (simp add: absorb_short rest_short)
  qed
qed

subsection \<open>A context and its message\<close>

definition sha_mid :: "sha256_context \<Rightarrow> u8 list \<Rightarrow> bool" where
  "sha_mid ctx m \<longleftrightarrow> length (sha_buffer ctx) = 64 \<and> sha_state ctx = absorb sha_H0 m
     \<and> take (length m mod 64) (sha_buffer ctx) = rest_of m"

definition sha_ctx :: "sha256_context \<Rightarrow> u8 list \<Rightarrow> bool" where
  "sha_ctx ctx m \<longleftrightarrow> sha_mid ctx m \<and> total0 ctx = of_nat (length m) \<and> total1 ctx = of_nat (length m div 2 ^ 32)"

lemma sha_mid_state: "sha_mid ctx m \<Longrightarrow> length (sha_state ctx) = 8"
  by (simp add: sha_mid_def length_absorb sha_H0_def)

text \<open>Filling the buffer with \<open>x\<close> at its first free byte.\<close>

lemma memcpy_rest:
  assumes "sha_mid ctx m" "length m mod 64 + length x \<le> 64"
  shows "take (length m mod 64 + length x) (memcpy (sha_buffer ctx) (length m mod 64) x (length x)) = rest_of m @ x"
    "length (memcpy (sha_buffer ctx) (length m mod 64) x (length x)) = 64"
  using assms whole_rest(3) [of m] by (simp_all add: sha_mid_def memcpy_eq)

text \<open>The end of an update: whole blocks, if the buffer is empty, then the rest.\<close>

definition sha_tail :: "sha256_context \<Rightarrow> u8 list \<Rightarrow> nat \<Rightarrow> sha256_context" where
  "sha_tail ctx input left =
     (case sha_blocks ctx input of (ctx, input) \<Rightarrow>
        if input \<noteq> [] then ctx\<lparr>sha_buffer := memcpy (sha_buffer ctx) left input (length input)\<rparr> else ctx)"

lemma sha_tail_mid:
  assumes "sha_mid ctx m" "length m mod 64 = 0 \<or> length m mod 64 + length x < 64"
  shows "sha_mid (sha_tail ctx x (length m mod 64)) (m @ x)"
proof -
  let ?y = "rest_of x"
  have st: "sha_state ctx = absorb sha_H0 m" "length (sha_buffer ctx) = 64" "take (length m mod 64) (sha_buffer ctx) = rest_of m"
    using assms(1) by (simp_all add: sha_mid_def)
  have tail: "sha_tail ctx x (length m mod 64) = ctx\<lparr>sha_state := absorb (absorb sha_H0 m) x,
      sha_buffer := (if ?y \<noteq> [] then memcpy (sha_buffer ctx) (length m mod 64) ?y (length ?y) else sha_buffer ctx)\<rparr>"
    by (simp add: sha_tail_def sha_blocks_absorb [OF sha_mid_state [OF assms(1)]] st(1))
  have cases: "absorb sha_H0 (m @ x) = absorb (absorb sha_H0 m) x \<and> rest_of (m @ x) = rest_of m @ ?y
      \<and> length (m @ x) mod 64 = length m mod 64 + length ?y \<and> length m mod 64 + length ?y < 64"
  proof (cases "length m mod 64 = 0")
    case True
    then have nil: "rest_of m = []" using whole_rest(3) [of m] by simp
    have "(length m + length x) mod 64 = length x mod 64" using True by (metis mod_add_left_eq add_0)
    then show ?thesis using absorb_more [of sha_H0 m x] rest_more [of m x] nil True whole_rest(3) [of x] by simp
  next
    case False
    then have short: "length m mod 64 + length x < 64" using assms(2) by simp
    then have "length (rest_of m @ x) < 64" "length x < 64" using whole_rest(3) [of m] by simp_all
    moreover have "(length m + length x) mod 64 = length m mod 64 + length x" using short by (metis mod_add_left_eq mod_less)
    ultimately show ?thesis using absorb_more [of sha_H0 m x] rest_more [of m x] short
      by (simp add: absorb_short rest_short)
  qed
  show ?thesis
  proof (cases "?y = []")
    case True
    then show ?thesis using cases st tail by (simp add: sha_mid_def)
  next
    case False
    have "length m mod 64 + length ?y \<le> 64" using cases by simp
    from memcpy_rest [OF assms(1) this] show ?thesis using cases tail False by (simp add: sha_mid_def)
  qed
qed

lemma sha_update_tail:
  assumes "sha_mid ctx m" "x \<noteq> []" "left = length m mod 64"
  shows "sha_mid (if left \<noteq> 0 \<and> length x \<ge> 64 - left
     then let ctx = ctx\<lparr>sha_buffer := memcpy (sha_buffer ctx) left x (64 - left)\<rparr> in
       sha_tail (sha256_process ctx (sha_buffer ctx)) (drop (64 - left) x) 0
     else sha_tail ctx x left) (m @ x)"
proof (cases "left \<noteq> 0 \<and> length x \<ge> 64 - left")
  case True
  let ?a = "take (64 - left) x" and ?b = "drop (64 - left) x"
  let ?buf = "memcpy (sha_buffer ctx) left x (64 - left)"
  let ?c = "ctx\<lparr>sha_buffer := ?buf\<rparr>"
  have l: "left < 64" "length ?a = 64 - left" using assms(3) True by simp_all
  have buf: "?buf = rest_of m @ ?a" "length ?buf = 64"
    using assms(1,3) True l memcpy_eq [of left "64 - left" "sha_buffer ctx" x] whole_rest(3) [of m] by (simp_all add: sha_mid_def)
  have p: "sha256_process ?c ?buf = ?c\<lparr>sha_state := sha_compress (absorb sha_H0 m) (rest_of m @ ?a)\<rparr>"
    using sha256_process_compress [of ?c ?buf] buf sha_mid_state [OF assms(1)] assms(1) by (simp add: sha_mid_def)
  have len: "length (m @ ?a) mod 64 = 0"
  proof -
    obtain q where q: "length m = 64 * q + left" using assms(3) mult_div_mod_eq [of 64 "length m"] by metis
    have "length (m @ ?a) = 64 * q + left + (64 - left)" using l(2) q by simp
    also have "\<dots> = 64 * (q + 1)" using l(1) by simp
    finally show ?thesis by simp
  qed
  have "length (rest_of m @ ?a) = 64" using buf by simp
  then have "absorb sha_H0 (m @ ?a) = sha_compress (absorb sha_H0 m) (rest_of m @ ?a)"
    using absorb_more [of sha_H0 m ?a] absorb_block [of "rest_of m @ ?a" _ "[]"] by (simp add: absorb_short)
  then have "sha_mid (sha256_process ?c ?buf) (m @ ?a)"
    using p buf len whole_rest(3) [of "m @ ?a"] by (simp add: sha_mid_def)
  from sha_tail_mid [OF this, of ?b] len have "sha_mid (sha_tail (sha256_process ?c ?buf) ?b 0) ((m @ ?a) @ ?b)" by simp
  then show ?thesis using True by (simp add: Let_def)
next
  case False
  have "length m mod 64 < 64" by simp
  then have "length m mod 64 = 0 \<or> length m mod 64 + length x < 64" using False assms(3) by linarith
  from sha_tail_mid [OF assms(1) this] show ?thesis using False assms(3) by auto
qed

subsection \<open>Updates\<close>

lemma unat_total: "unat ((of_nat n :: u32) AND 0x3F) = n mod 64"
proof -
  have "(of_nat n :: u32) AND 0x3F = take_bit 6 (of_nat n)" by (simp add: take_bit_eq_mask mask_numeral)
  then have "unat ((of_nat n :: u32) AND 0x3F) = take_bit 6 (unat (of_nat n :: u32))" by (simp only: unsigned_take_bit_eq)
  also have "\<dots> = n mod 4294967296 mod 64" by (simp add: unat_of_nat take_bit_eq_mod)
  also have "\<dots> = n mod 64" by (simp add: mod_mod_cancel)
  finally show ?thesis .
qed

lemma total_carry:
  assumes "b < 4294967296"
  shows "(if (of_nat a :: u32) + of_nat b < of_nat b then (of_nat (a div 4294967296) :: u32) + 1 else of_nat (a div 4294967296))
    = of_nat ((a + b) div 4294967296)"
proof -
  define q r where "q = a div 4294967296" and "r = a mod 4294967296"
  have a: "a = 4294967296 * q + r" "r < 4294967296" by (simp_all add: q_def r_def)
  have u: "unat ((of_nat a :: u32) + of_nat b) = (r + b) mod 4294967296" "unat (of_nat b :: u32) = b"
    using assms by (simp_all add: unat_word_ariths(1) unat_of_nat r_def)
  show ?thesis
  proof (cases "r + b < 4294967296")
    case True
    then have "(a + b) div 4294967296 = q" using a by simp
    moreover have "\<not> (of_nat a :: u32) + of_nat b < of_nat b" using u True by (simp add: word_less_nat_alt)
    ultimately show ?thesis by (simp add: q_def)
  next
    case False
    then have d: "(a + b) div 4294967296 = q + 1" using a assms by simp
    have "(r + b) mod 4294967296 = r + b - 4294967296" using False a assms by (simp add: mod_if)
    then have "(of_nat a :: u32) + of_nat b < of_nat b" using u False a(2) by (simp add: word_less_nat_alt)
    then show ?thesis using d by (simp add: q_def)
  qed
qed

definition sha_count :: "sha256_context \<Rightarrow> nat \<Rightarrow> sha256_context" where
  "sha_count ctx n =
     ctx\<lparr>total0 := total0 ctx + of_nat n,
       total1 := (if total0 ctx + of_nat n < of_nat n then total1 ctx + 1 else total1 ctx)\<rparr>"

lemma sha256_update_split:
  assumes "x \<noteq> []" "length x < 2 ^ 32"
  shows "sha256_update ctx x =
    (let left = unat (total0 ctx AND 0x3F); c = sha_count ctx (length x) in
     if left \<noteq> 0 \<and> length x \<ge> 64 - left
     then let c = c\<lparr>sha_buffer := memcpy (sha_buffer c) left x (64 - left)\<rparr> in
       sha_tail (sha256_process c (sha_buffer c)) (drop (64 - left) x) 0
     else sha_tail c x left)"
proof -
  have "(of_nat (length x) :: u32) \<noteq> 0" using assms by (simp add: word_unat_eq_iff unat_of_nat)
  moreover have "(if total0 (c\<lparr>total0 := a\<rparr>) < n then c\<lparr>total0 := a, total1 := total1 (c\<lparr>total0 := a\<rparr>) + 1\<rparr> else c\<lparr>total0 := a\<rparr>)
      = c\<lparr>total0 := a, total1 := (if a < n then total1 c + 1 else total1 c)\<rparr>" for c a n by simp
  ultimately show ?thesis
    by (simp add: sha256_update_def sha_count_def sha_tail_def Let_def split_beta)
qed

lemma totals_kept [simp]:
  "total0 (sha256_process c d) = total0 c" "total1 (sha256_process c d) = total1 c"
  by (simp_all add: sha256_process_def Let_def split_beta)

lemma totals_blocks: "total0 (fst (sha_blocks c i)) = total0 c \<and> total1 (fst (sha_blocks c i)) = total1 c"
  by (induction c i rule: sha_blocks.induct) (subst (1 2) sha_blocks.simps, simp)

lemma totals_tail [simp]: "total0 (sha_tail c i l) = total0 c" "total1 (sha_tail c i l) = total1 c"
  using totals_blocks [of c i] by (auto simp: sha_tail_def split: prod.splits)

lemma sha256_update_ctx:
  assumes "sha_ctx ctx m" "length x < 2 ^ 32"
  shows "sha_ctx (sha256_update ctx x) (m @ x)"
proof (cases "x = []")
  case True
  then show ?thesis using assms(1) by (simp add: sha256_update_def)
next
  case False
  let ?c = "sha_count ctx (length x)"
  have mid: "sha_mid ?c m" using assms(1) by (simp add: sha_ctx_def sha_mid_def sha_count_def)
  have left: "unat (total0 ctx AND 0x3F) = length m mod 64" using assms(1) unat_total by (simp add: sha_ctx_def)
  have t: "total0 ?c = of_nat (length (m @ x))" "total1 ?c = of_nat (length (m @ x) div 2 ^ 32)"
    using assms total_carry [of "length x" "length m"] by (auto simp: sha_count_def sha_ctx_def split: if_splits)
  have "sha_mid (sha256_update ctx x) (m @ x)"
    using sha_update_tail [OF mid False refl] unfolding sha256_update_split [OF False assms(2)] left Let_def .
  moreover have "total0 (sha256_update ctx x) = total0 ?c" "total1 (sha256_update ctx x) = total1 ?c"
    unfolding sha256_update_split [OF False assms(2)] by (simp_all add: Let_def)
  ultimately show ?thesis using t by (simp add: sha_ctx_def)
qed

lemma sha256_updates_ctx:
  assumes "sha_ctx ctx m" "\<And>x. x \<in> set xs \<Longrightarrow> length x < 2 ^ 32"
  shows "sha_ctx (fold (\<lambda>x c. sha256_update c x) xs ctx) (m @ concat xs)"
  using assms
proof (induction xs arbitrary: ctx m)
  case Nil
  then show ?case by simp
next
  case (Cons x xs)
  then show ?case using Cons.IH [OF sha256_update_ctx, of ctx m x] by simp
qed

lemma sha256_starts_ctx: "length (sha_buffer ctx) = 64 \<Longrightarrow> sha_ctx (sha256_starts ctx) []"
  by (simp add: sha_ctx_def sha_mid_def sha256_starts_def absorb_short sha_H0_def rest_of_def)

subsection \<open>The end of the message\<close>

lemma PUT_UINT32_of_nat:
  "PUT_UINT32 (of_nat n) = [of_nat (n div 2 ^ 24), of_nat (n div 2 ^ 16), of_nat (n div 2 ^ 8), of_nat n]"
proof -
  have "(ucast (drop_bit k (of_nat n :: u32)) :: u8) = of_nat (n div 2 ^ k)" if "k \<le> 24" for k
    by (rule bit_word_eqI) (use that in \<open>auto simp: bit_simps bit_of_nat_iff drop_bit_eq_div [symmetric]\<close>)
  from this [of 24] this [of 16] this [of 8] this [of 0] show ?thesis by (simp add: PUT_UINT32_def)
qed

lemma sha_high: "drop_bit 29 (of_nat n :: u32) OR push_bit 3 (of_nat (n div 2 ^ 32)) = of_nat (n div 2 ^ 29)"
proof (rule bit_word_eqI)
  fix i assume "i < LENGTH(32)"
  then have "i < 32" by simp
  moreover have "bit (n div 2 ^ k) i \<longleftrightarrow> bit n (k + i)" for k i by (simp add: drop_bit_eq_div [symmetric] bit_drop_bit_eq)
  moreover have "i \<ge> 3 \<Longrightarrow> 32 + (i - 3) = 29 + i" by simp
  ultimately show "bit (drop_bit 29 (of_nat n :: u32) OR push_bit 3 (of_nat (n div 2 ^ 32))) i \<longleftrightarrow> bit (of_nat (n div 2 ^ 29) :: u32) i"
    by (auto simp: bit_or_iff bit_drop_bit_eq bit_push_bit_iff bit_of_nat_iff simp del: power_numeral)
qed

lemma sha_length_bytes:
  "PUT_UINT32 (of_nat (n div 2 ^ 29)) @ PUT_UINT32 (of_nat (8 * n)) =
   map (\<lambda>k. of_nat (8 * n div 256 ^ (7 - k) mod 256)) [0..<8]"
proof -
  have cut: "(of_nat (j mod 256) :: u8) = of_nat j" for j by (simp add: word_unat_eq_iff unat_of_nat)
  have d: "8 * n div (8 * (a * b)) = n div a div b" for a b :: nat by (simp add: div_mult2_eq)
  have "(256 :: nat) ^ 7 = 8 * (2 ^ 29 * 2 ^ 24)" "(256 :: nat) ^ 6 = 8 * (2 ^ 29 * 2 ^ 16)"
    "(256 :: nat) ^ 5 = 8 * (2 ^ 29 * 2 ^ 8)" "(256 :: nat) ^ 4 = 8 * (2 ^ 29 * 1)" by simp_all
  then have high: "8 * n div 256 ^ 7 = n div 2 ^ 29 div 2 ^ 24" "8 * n div 256 ^ 6 = n div 2 ^ 29 div 2 ^ 16"
    "8 * n div 256 ^ 5 = n div 2 ^ 29 div 2 ^ 8" "8 * n div 256 ^ 4 = n div 2 ^ 29 div 1" by (simp_all only: d)
  have low: "(256 :: nat) ^ 3 = 2 ^ 24" "(256 :: nat) ^ 2 = 2 ^ 16" "(256 :: nat) ^ 1 = 2 ^ 8" "(256 :: nat) ^ 0 = 1" by simp_all
  have "map f [0..<8] = [f 0, f 1, f 2, f 3, f 4, f 5, f 6, f 7]" for f :: "nat \<Rightarrow> u8"
    by (simp add: upt_rec eval_nat_numeral)
  moreover have "(7 :: nat) - 0 = 7" "(7 :: nat) - 1 = 6" "(7 :: nat) - 2 = 5" "(7 :: nat) - 3 = 4" "(7 :: nat) - 4 = 3"
    "(7 :: nat) - 5 = 2" "(7 :: nat) - 6 = 1" "(7 :: nat) - 7 = 0" by simp_all
  ultimately show ?thesis unfolding PUT_UINT32_of_nat cut by (simp only: high low div_by_1 append.simps)
qed

lemma sha_padding_take:
  "take (if n mod 64 < 56 then 56 - n mod 64 else 120 - n mod 64) sha256_padding = 0x80 # replicate (sha_zeros n) 0"
proof -
  define r where "r = n mod 64"
  have "r < 64" by (simp add: r_def)
  then have "(119 - r) mod 64 = (if r < 56 then 55 - r else 119 - r)" by (simp add: mod_if)
  then have "(if n mod 64 < 56 then 56 - n mod 64 else 120 - n mod 64) = Suc (sha_zeros n)" "sha_zeros n \<le> 63"
    using \<open>r < 64\<close> unfolding sha_zeros_def r_def [symmetric] by auto
  then show ?thesis by (simp add: sha256_padding_def)
qed

lemma sha256_finish_hash:
  assumes "sha_ctx ctx m"
  shows "snd (sha256_finish ctx) = sha256 m"
proof -
  let ?n = "length m"
  let ?pad = "0x80 # replicate (sha_zeros ?n) 0 :: u8 list"
  let ?len = "map (\<lambda>k. of_nat (8 * ?n div 256 ^ (7 - k) mod 256)) [0..<8] :: u8 list"
  have t: "total0 ctx = of_nat ?n" "total1 ctx = of_nat (?n div 2 ^ 32)" using assms by (simp_all add: sha_ctx_def)
  have "push_bit 3 (of_nat ?n :: u32) = of_nat (8 * ?n)" by (simp add: push_bit_eq_mult)
  then have msglen: "PUT_UINT32 (drop_bit 29 (total0 ctx) OR push_bit 3 (total1 ctx)) @ PUT_UINT32 (push_bit 3 (total0 ctx)) = ?len"
    unfolding t sha_high using sha_length_bytes [of ?n] by simp
  have pad: "take (if unat (total0 ctx AND 0x3F) < 56 then 56 - unat (total0 ctx AND 0x3F) else 120 - unat (total0 ctx AND 0x3F))
      sha256_padding = ?pad"
    unfolding t unat_total by (rule sha_padding_take)
  have "length ?pad \<le> 64" by (simp add: sha_zeros_def)
  then have "sha_ctx (sha256_update ctx ?pad) (m @ ?pad)" by (intro sha256_update_ctx assms) simp
  then have "sha_ctx (sha256_update (sha256_update ctx ?pad) ?len) ((m @ ?pad) @ ?len)" by (rule sha256_update_ctx) simp
  then have "sha_state (sha256_update (sha256_update ctx ?pad) ?len) = absorb sha_H0 (sha_pad m)"
    by (simp add: sha_ctx_def sha_mid_def sha_pad_def)
  then show ?thesis unfolding sha256_finish_def Let_def pad msglen by (simp add: sha256_def)
qed

end
