(* ===== verification/Sha256_Main.thy ===== *)
theory Sha256_Main
  imports Sha256_Stream
begin

unbundle bit_operations_syntax

text \<open>
  The guest program \<open>mips_build/test_sha256.c\<close>: it hashes the lines it reads until the line \<open>>>END>>\<close> and writes the
  hash in hexadecimal. \<open>read\<close> gives a byte, the end of the input or an error; when the list of its results is used up
  it is at the end. At the end \<open>readChar\<close> keeps its value, which at first is what the stack held: \<open>junk\<close>.
\<close>

subsection \<open>The program\<close>

datatype sha_read = Got u8 | At_End | Failed

fun sha_read1 :: "u8 \<Rightarrow> sha_read list \<Rightarrow> u8 option \<times> sha_read list" where
  "sha_read1 c [] = (Some c, [])"
| "sha_read1 c (Got b # rs) = (Some b, rs)"
| "sha_read1 c (At_End # rs) = (Some c, rs)"
| "sha_read1 c (Failed # rs) = (None, rs)"

fun readLine_loop :: "nat \<Rightarrow> u8 \<Rightarrow> u8 list \<Rightarrow> sha_read list \<Rightarrow> u8 list option \<times> sha_read list" where
  "readLine_loop 0 c buffer rs = (Some buffer, rs)"
| "readLine_loop (Suc n) c buffer rs =
     (case sha_read1 c rs of (None, rs) \<Rightarrow> (None, rs)
      | (Some c, rs) \<Rightarrow> if c = 10 then (Some buffer, rs) else readLine_loop n c (buffer @ [c]) rs)"

definition readLine :: "u8 \<Rightarrow> nat \<Rightarrow> sha_read list \<Rightarrow> u8 list option \<times> sha_read list" where
  "readLine junk maxLen rs = readLine_loop maxLen junk [] rs"

definition get_hex :: "u8 \<Rightarrow> u8" where
  "get_hex value = (if value < 10 then 48 + value else if value < 16 then 97 + (value - 10) else 89)"

definition get_sha_string :: "u8 list \<Rightarrow> u8 list" where
  "get_sha_string sha256sum = concat (map (\<lambda>idx. [get_hex (drop_bit 4 (sha256sum ! idx) AND 0xF), get_hex (sha256sum ! idx AND 0x0F)]) [0..<32])"

definition sha_end :: "u8 list" where
  "sha_end = [62, 62, 69, 78, 68, 62, 62]"

definition sha_turn :: "u8 \<Rightarrow> sha256_context \<times> sha_read list \<Rightarrow> unit + (sha256_context \<times> sha_read list + u8 list)" where
  "sha_turn junk = (\<lambda>(ctx, rs).
     case readLine junk 512 rs of
       (None, rs) \<Rightarrow> Inr (Inr [])
     | (Some lineBuf, rs) \<Rightarrow>
         if lineBuf = sha_end then Inr (Inr (get_sha_string (snd (sha256_finish ctx)) @ [10]))
         else Inr (Inl (sha256_update ctx lineBuf, rs)))"

text \<open>What \<open>main\<close> writes before it exits; \<open>ctx\<close> is the context on the stack.\<close>

definition sha_main :: "u8 \<Rightarrow> nat \<Rightarrow> sha256_context \<Rightarrow> sha_read list \<Rightarrow> (unit + u8 list) option" where
  "sha_main junk n ctx rs = loop_fuel (sha_turn junk) n (sha256_starts ctx, rs)"

subsection \<open>The constants\<close>

text \<open>\<open>k\<close> is the first 32 bits of the fractional part of the root of \<open>p\<close> with the exponent \<open>e\<close>, of the whole part \<open>i\<close>.\<close>

definition root_bits :: "nat \<Rightarrow> nat \<Rightarrow> nat \<Rightarrow> nat \<Rightarrow> bool" where
  "root_bits e p i k \<longleftrightarrow> i ^ e \<le> p \<and> p < (i + 1) ^ e \<and> k < 2 ^ 32
     \<and> (i * 2 ^ 32 + k) ^ e \<le> p * 2 ^ (32 * e) \<and> p * 2 ^ (32 * e) < (i * 2 ^ 32 + k + 1) ^ e"

definition small_primes :: "nat list" where
  "small_primes = [2, 3, 5, 7, 11, 13, 17, 19, 23, 29, 31, 37, 41, 43, 47, 53, 59, 61, 67, 71, 73, 79, 83, 89, 97, 101, 103,
     107, 109, 113, 127, 131, 137, 139, 149, 151, 157, 163, 167, 173, 179, 181, 191, 193, 197, 199, 211, 223, 227, 229, 233,
     239, 241, 251, 257, 263, 269, 271, 277, 281, 283, 293, 307, 311]"

definition whole_root :: "nat \<Rightarrow> nat \<Rightarrow> nat" where
  "whole_root e p = foldr (\<lambda>i r. if i ^ e \<le> p then i else r) [6, 5, 4, 3, 2, 1] 0"

definition root_table :: "nat \<Rightarrow> nat list \<Rightarrow> u32 list \<Rightarrow> bool" where
  "root_table e ps ks \<longleftrightarrow> length ps = length ks \<and> list_all (\<lambda>(p, k). root_bits e p (whole_root e p) (unat k)) (zip ps ks)"

text \<open>The tables of constants are those of the standard: the 64 round constants are the first bits of the fractional
  parts of the cube roots of the first 64 primes, the start state those of the square roots of the first 8.\<close>

theorem sha256_constants:
  "root_table 3 small_primes sha256_K \<and> root_table 2 (take 8 small_primes) (sha_state (sha256_starts ctx))"
proof
  show "root_table 3 small_primes sha256_K"
    by (simp add: root_table_def small_primes_def sha256_K_def root_bits_def whole_root_def) (simp add: eval_nat_numeral)
  show "root_table 2 (take 8 small_primes) (sha_state (sha256_starts ctx))"
    by (simp add: root_table_def small_primes_def sha256_starts_def root_bits_def whole_root_def) (simp add: eval_nat_numeral)
qed

subsection \<open>The hash\<close>

text \<open>C2. Whatever pieces a message is given in, the digest is the SHA-256 of the whole message.\<close>

theorem sha256_streams:
  assumes "length (sha_buffer ctx) = 64" "\<And>x. x \<in> set xs \<Longrightarrow> length x < 2 ^ 32"
  shows "snd (sha256_finish (fold (\<lambda>x c. sha256_update c x) xs (sha256_starts ctx))) = sha256 (concat xs)"
  using sha256_finish_hash [OF sha256_updates_ctx [OF sha256_starts_ctx [OF assms(1)] assms(2)]] by simp

definition sha_sample :: sha256_context where
  "sha_sample = \<lparr>total0 = 7, total1 = 7, sha_state = [], sha_buffer = replicate 64 0\<rparr>"

theorem sha256_streams_witness:
  "snd (sha256_finish (fold (\<lambda>x c. sha256_update c x) [replicate 100 65, [], [66, 67]] (sha256_starts sha_sample)))
    = sha256 (concat [replicate 100 65, [], [66, 67]])"
  by (rule sha256_streams) (auto simp: sha_sample_def)

text \<open>One block: the unrolled rounds with their rotating variables and the macros are the compression function.\<close>

theorem sha256_process_fips:
  assumes "length (sha_state ctx) = 8" "length data = 64"
  shows "sha256_process ctx data = ctx\<lparr>sha_state := sha_compress (sha_state ctx) data\<rparr>"
  using sha256_process_compress [OF assms] .

theorem sha256_process_fips_witness:
  "sha256_process (sha256_starts sha_sample) (replicate 64 7) =
    (sha256_starts sha_sample)\<lparr>sha_state := sha_compress (sha_state (sha256_starts sha_sample)) (replicate 64 7)\<rparr>"
  by (rule sha256_process_fips) (simp_all add: sha256_starts_def)

subsection \<open>The program answers\<close>

definition hex_digit :: "nat \<Rightarrow> u8" where
  "hex_digit d = (if d < 10 then of_nat (48 + d) else of_nat (87 + d))"

definition hex_string :: "u8 list \<Rightarrow> u8 list" where
  "hex_string bs = concat (map (\<lambda>b. [hex_digit (unat b div 16), hex_digit (unat b mod 16)]) bs)"

lemma get_hex_digit: "get_hex (b AND 0x0F) = hex_digit (unat b mod 16)"
proof -
  have hex: "get_hex (of_nat d) = hex_digit d" if "d < 16" for d
  proof -
    have "d \<in> set [0..<16]" using that by simp
    then show ?thesis by (auto simp: upt_rec get_hex_def hex_digit_def)
  qed
  have "b AND 0x0F = take_bit 4 b" by (simp add: take_bit_eq_mask mask_numeral)
  then have "unat (b AND 0x0F) = take_bit 4 (unat b)" by (simp only: unsigned_take_bit_eq)
  then have "b AND 0x0F = of_nat (unat b mod 16)" by (simp add: word_unat_eq_iff unat_of_nat take_bit_eq_mod)
  then show ?thesis using hex [of "unat b mod 16"] by simp
qed

lemma unat_high_digit: "unat (drop_bit 4 (b :: u8)) mod 16 = unat b div 16"
proof -
  have "unat (drop_bit 4 b) = unat b div 16"
    using unat_u8_less [of b] by (simp add: unsigned_drop_bit_eq drop_bit_eq_div take_bit_nat_eq_self unat_div_distrib del: unat_u8_less)
  moreover have "unat b div 16 < 16" using unat_u8_less [of b] by (simp add: less_mult_imp_div_less del: unat_u8_less)
  ultimately show ?thesis by simp
qed

lemma get_sha_string_hex: "length bs = 32 \<Longrightarrow> get_sha_string bs = hex_string bs"
proof -
  assume l: "length bs = 32"
  have "map f [0..<32] = map (\<lambda>b. [hex_digit (unat b div 16), hex_digit (unat b mod 16)]) bs"
    if "\<And>i. f i = [get_hex (drop_bit 4 (bs ! i) AND 0xF), get_hex (bs ! i AND 0x0F)]" for f
    using l that by (intro nth_equalityI) (simp_all add: get_hex_digit unat_high_digit del: upt_rec_numeral)
  then show ?thesis by (simp add: get_sha_string_def hex_string_def del: upt_rec_numeral)
qed

lemma length_sha256: "length (sha256 m) = 32"
proof -
  have "length (concat (map PUT_UINT32 xs)) = 4 * length xs" for xs
    by (induction xs) (simp_all add: PUT_UINT32_def)
  then show ?thesis by (simp add: sha256_def length_absorb sha_H0_def)
qed

lemma readLine_line:
  assumes "length line < n" "10 \<notin> set line"
  shows "readLine_loop n c buffer (map Got (line @ [10]) @ rs) = (Some (buffer @ line), rs)"
  using assms
proof (induction line arbitrary: n c buffer)
  case Nil
  then show ?case by (cases n) simp_all
next
  case (Cons b line)
  then obtain k where "n = Suc k" by (cases n) auto
  then show ?case using Cons by simp
qed

lemma sha_turn_line:
  assumes "length line < 512" "10 \<notin> set line" "line \<noteq> sha_end"
  shows "sha_turn junk (ctx, map Got (line @ [10]) @ rs) = Inr (Inl (sha256_update ctx line, rs))"
  using assms readLine_line [of line 512 junk "[]" rs] by (simp add: sha_turn_def readLine_def)

lemma sha_lines:
  assumes "\<And>l. l \<in> set ls \<Longrightarrow> length l < 512 \<and> 10 \<notin> set l \<and> l \<noteq> sha_end"
  shows "loop_fuel (sha_turn junk) (length ls + n) (ctx, concat (map (\<lambda>l. map Got (l @ [10])) ls) @ rs)
    = loop_fuel (sha_turn junk) n (fold (\<lambda>x c. sha256_update c x) ls ctx, rs)"
  using assms
proof (induction ls arbitrary: ctx)
  case Nil
  then show ?case by simp
next
  case (Cons l ls)
  then have "length l < 512" "10 \<notin> set l" "l \<noteq> sha_end" by auto
  from sha_turn_line [OF this, of junk ctx "concat (map (\<lambda>l. map Got (l @ [10])) ls) @ rs"] show ?case
    using Cons by simp
qed

text \<open>Sent lines and then the line \<open>>>END>>\<close>, the program answers with the hash of the lines, joined, in hexadecimal.\<close>

theorem sha_main_answers:
  assumes "length (sha_buffer ctx) = 64" "\<And>l. l \<in> set ls \<Longrightarrow> length l < 512 \<and> 10 \<notin> set l \<and> l \<noteq> sha_end"
    "length ls < n"
  shows "sha_main junk n ctx (concat (map (\<lambda>l. map Got (l @ [10])) ls) @ map Got (sha_end @ [10]) @ rs)
    = Some (Inr (hex_string (sha256 (concat ls)) @ [10]))"
proof -
  let ?c = "fold (\<lambda>x c. sha256_update c x) ls (sha256_starts ctx)"
  have "\<And>l. l \<in> set ls \<Longrightarrow> length l < 2 ^ 32" using assms(2) by fastforce
  then have h: "snd (sha256_finish ?c) = sha256 (concat ls)"
    using sha256_finish_hash [OF sha256_updates_ctx [OF sha256_starts_ctx [OF assms(1)]]] by simp
  obtain k where k: "n = length ls + Suc k" using assms(3) less_imp_Suc_add by auto
  have "sha_turn junk (?c, map Got (sha_end @ [10]) @ rs) = Inr (Inr (hex_string (sha256 (concat ls)) @ [10]))"
    using readLine_line [of sha_end 512 junk "[]" rs] h
    by (simp add: sha_turn_def readLine_def sha_end_def get_sha_string_hex length_sha256)
  moreover have "sha_main junk n ctx (concat (map (\<lambda>l. map Got (l @ [10])) ls) @ map Got (sha_end @ [10]) @ rs)
      = loop_fuel (sha_turn junk) (Suc k) (?c, map Got (sha_end @ [10]) @ rs)"
    unfolding sha_main_def k by (rule sha_lines [OF assms(2)])
  ultimately show ?thesis by (simp only: loop_fuel.simps sum.case)
qed

theorem sha_main_answers_witness:
  "sha_main 0 2 sha_sample (concat (map (\<lambda>l. map Got (l @ [10])) [[97, 98, 99]]) @ map Got (sha_end @ [10]) @ [])
    = Some (Inr (hex_string (sha256 (concat [[97, 98, 99]])) @ [10]))"
  by (rule sha_main_answers) (auto simp: sha_sample_def sha_end_def)

text \<open>The end of the input is not an error for the program: a client that sends lines and closes the connection
  without the line \<open>>>END>>\<close> leaves it hashing its uninitialised byte forever.\<close>

theorem sha_main_endless:
  assumes "\<And>l. l \<in> set ls \<Longrightarrow> length l < 512 \<and> 10 \<notin> set l \<and> l \<noteq> sha_end"
  shows "sha_main junk n ctx (concat (map (\<lambda>l. map Got (l @ [10])) ls)) = None"
proof -
  have junk: "readLine_loop k junk buf [] = (Some (buf @ replicate k junk), [])" if "junk \<noteq> 10" for k buf
    using that by (induction k arbitrary: buf) simp_all
  have "readLine_loop (Suc k) junk [] [] = (Some (if junk = 10 then [] else replicate (Suc k) junk), [])" for k
    using junk [of "Suc k" "[]"] by (cases "junk = 10") simp_all
  from this [of 511] have line: "readLine_loop 512 junk [] [] = (Some (if junk = 10 then [] else replicate 512 junk), [])"
    by simp
  have ends: "\<exists>c. sha_turn junk (c0, []) = Inr (Inl (c, []))" for c0
  proof -
    have "(if junk = 10 then [] else replicate 512 junk) \<noteq> sha_end"
      by (auto simp: sha_end_def dest!: arg_cong [where f = length])
    then show ?thesis using line by (simp add: sha_turn_def readLine_def)
  qed
  have nil: "loop_fuel (sha_turn junk) k (c, []) = None" for k c
  proof (induction k arbitrary: c)
    case 0
    then show ?case by simp
  next
    case (Suc k)
    then show ?case using ends [of c] by auto
  qed
  have mono: "loop_fuel (sha_turn junk) j s = None" if "loop_fuel (sha_turn junk) (i + j) s = None" for i j s
    using that
  proof (induction j arbitrary: s)
    case 0
    then show ?case by simp
  next
    case (Suc j)
    then show ?case by (auto split: sum.splits)
  qed
  have "loop_fuel (sha_turn junk) (length ls + n) (sha256_starts ctx, concat (map (\<lambda>l. map Got (l @ [10])) ls) @ []) = None"
    by (rule trans [OF sha_lines [OF assms] nil])
  then show ?thesis using mono [of "length ls" n] by (simp add: sha_main_def)
qed

theorem sha_main_endless_witness:
  "sha_main 0 1000 sha_sample (concat (map (\<lambda>l. map Got (l @ [10])) [[97, 98, 99]])) = None"
  by (rule sha_main_endless) (auto simp: sha_end_def)

end
