(* ===== verification/Pegem.thy ===== *)
theory Pegem
  imports Prelude
begin

text \<open>
  The subleq service of \<open>src/pegem\<close>: \<open>SubleqExecute\<close> and \<open>main\<close> of \<open>pegem.c\<close> and the translator \<open>sq2c.c\<close>
  that writes the array \<open>PROG\<close> and the limit \<open>ProgLen\<close> it is compiled with. The words of the array are kept as
  bits: the code reads them as \<open>short\<close> for the subtraction and its test and as \<open>unsigned short\<close> for addresses.
  Standard input is a list of bytes after which \<open>fgetc\<close> answers \<open>EOF\<close>; what is printed is a list of bytes. Reading
  a word behind the array is an exit of its own. The alarm that ends a slow connection is not modelled.
\<close>

subsection \<open>The machine\<close>

definition IO :: u16 where "IO = 0xFFFF"
definition MAX_INSTRUCTIONS :: u32 where "MAX_INSTRUCTIONS = 20000000"

record peg =
  PROG :: "u16 list"
  PC :: u16
  InstructionsExecuted :: u32
  peg_stdin :: "u8 list"
  peg_stdout :: "u8 list"

datatype peg_exit = Peg_Done | Peg_IO_Fault | Peg_Invalid | Peg_Outside

definition str :: "string \<Rightarrow> u8 list" where
  "str cs = map of_char cs"

definition peg_leave :: "peg_exit \<Rightarrow> string \<Rightarrow> peg \<Rightarrow> (peg_exit \<times> peg) + 'a" where
  "peg_leave e msg s = Inl (e, s\<lparr>peg_stdout := peg_stdout s @ str msg\<rparr>)"

definition peg_word :: "peg \<Rightarrow> nat \<Rightarrow> (peg_exit \<times> peg) + u16" where
  "peg_word s i = (if i < length (PROG s) then Inr (PROG s ! i) else Inl (Peg_Outside, s))"

definition peg_set :: "nat \<Rightarrow> u16 \<Rightarrow> peg \<Rightarrow> (peg_exit \<times> peg) + peg" where
  "peg_set i v s = (if i < length (PROG s) then Inr (s\<lparr>PROG := (PROG s)[i := v]\<rparr>) else Inl (Peg_Outside, s))"

text \<open>\<open>fgetc\<close> as the \<open>short\<close> it is stored as: a byte, or \<open>EOF\<close>, which is -1.\<close>

definition peg_fgetc :: "peg \<Rightarrow> u16 \<times> peg" where
  "peg_fgetc s = (case peg_stdin s of [] \<Rightarrow> (- 1, s) | b # bs \<Rightarrow> (ucast b, s\<lparr>peg_stdin := bs\<rparr>))"

definition peg_putchar :: "u16 \<Rightarrow> peg \<Rightarrow> peg" where
  "peg_putchar v s = s\<lparr>peg_stdout := peg_stdout s @ [ucast v]\<rparr>"

definition peg_count :: "u16 \<Rightarrow> peg \<Rightarrow> peg" where
  "peg_count pc s = s\<lparr>PC := pc, InstructionsExecuted := InstructionsExecuted s + 1\<rparr>"

text \<open>Storing a value and the branch on it, shared by the input and the subtraction.\<close>

definition peg_write :: "u16 \<Rightarrow> u16 \<Rightarrow> u16 \<Rightarrow> peg \<Rightarrow> (peg_exit \<times> peg) + peg" where
  "peg_write B v C s = andThen (peg_set (unat B) v s)
     (\<lambda>s1. Inr (peg_count (if v \<le>s 0 then C else PC s1 + 3) s1))"

text \<open>One turn of the loop of \<open>SubleqExecute\<close>: an instruction that has been read, and the reading.\<close>

definition peg_exec :: "u16 \<Rightarrow> u16 \<Rightarrow> u16 \<Rightarrow> u16 \<Rightarrow> peg \<Rightarrow> (peg_exit \<times> peg) + peg" where
  "peg_exec ProgLen A B C s =
     (if C > ProgLen then peg_leave Peg_Done ''Done\<newline>'' s
      else if A = IO \<and> B = IO then peg_leave Peg_IO_Fault ''IO Fault\<newline>'' s
      else if A = IO then
        (if B > ProgLen then peg_leave Peg_Invalid ''Invalid address\<newline>'' s
         else let (v, s1) = peg_fgetc s in peg_write B v C s1)
      else if B = IO then
        (if A > ProgLen then peg_leave Peg_Invalid ''Invalid address\<newline>'' s
         else andThen (peg_word s (unat A)) (\<lambda>v. Inr (peg_count (PC s + 3) (peg_putchar v s))))
      else if A > ProgLen \<or> B > ProgLen then peg_leave Peg_Invalid ''Invalid address\<newline>'' s
      else andThen (peg_word s (unat B)) (\<lambda>b. andThen (peg_word s (unat A)) (\<lambda>a. peg_write B (b - a) C s)))"

definition peg_turn :: "u16 \<Rightarrow> peg \<Rightarrow> (peg_exit \<times> peg) + peg" where
  "peg_turn ProgLen s =
     (if InstructionsExecuted s > MAX_INSTRUCTIONS then peg_leave Peg_Done ''Done\<newline>'' s
      else if PC s > ProgLen then peg_leave Peg_Done ''Done\<newline>'' s
      else andThen (peg_word s (unat (PC s))) (\<lambda>A. andThen (peg_word s (unat (PC s) + 1)) (\<lambda>B.
        andThen (peg_word s (unat (PC s) + 2)) (\<lambda>C. peg_exec ProgLen A B C s))))"

definition SubleqExecute :: "nat \<Rightarrow> u16 \<Rightarrow> peg \<Rightarrow> ((peg_exit \<times> peg) + peg) option" where
  "SubleqExecute fuel ProgLen s = run_fuel (\<lambda>_. False) (peg_turn ProgLen) fuel s"

definition peg_start :: "u16 list \<Rightarrow> u8 list \<Rightarrow> peg" where
  "peg_start prog input = \<lparr>PROG = prog, PC = 0, InstructionsExecuted = 0, peg_stdin = input, peg_stdout = []\<rparr>"

text \<open>
  \<open>main\<close> with the array that \<open>sq2c\<close> writes: 32768 words, those behind the initialiser zero, and the limit 32767.
\<close>

definition peg_array :: "int list \<Rightarrow> u16 list" where
  "peg_array vs = map of_int vs @ replicate (32768 - length vs) 0"

definition peg_ProgLen :: u16 where "peg_ProgLen = 32767"

definition peg_main :: "nat \<Rightarrow> int list \<Rightarrow> u8 list \<Rightarrow> (peg_exit \<times> u8 list) option" where
  "peg_main fuel vs input = (case SubleqExecute fuel peg_ProgLen (peg_start (peg_array vs) input) of
     Some (Inl (e, s)) \<Rightarrow> Some (e, peg_stdout s) | _ \<Rightarrow> None)"

subsection \<open>The translator\<close>

record sq2c =
  sq_buf :: "char list"
  total_bytes :: nat
  sq_first :: bool
  sq_out :: string

datatype sq2c_error = Sq_Overrun

text \<open>\<open>printf\<close> with \<open>%s\<close> prints the characters before the first NUL.\<close>

definition sq_cstr :: "char list \<Rightarrow> string" where
  "sq_cstr cs = takeWhile (\<lambda>c. c \<noteq> CHR 0x00) cs"

definition sq_turn :: "char \<Rightarrow> sq2c \<Rightarrow> sq2c_error + sq2c" where
  "sq_turn c s =
     (if total_bytes s < length (sq_buf s) then
        let s1 = s\<lparr>sq_buf := (sq_buf s)[total_bytes s := c]\<rparr> in
        if c = CHR '' '' \<or> c = CHR ''\<newline>'' then
          (if total_bytes s1 = 0 then Inr s1
           else let s2 = s1\<lparr>sq_buf := (sq_buf s1)[total_bytes s1 := CHR 0x00]\<rparr>;
                    t = sq_cstr (sq_buf s2);
                    s3 = (if sq_first s2 then s2\<lparr>sq_out := sq_out s2 @ t, sq_first := False\<rparr>
                          else s2\<lparr>sq_out := sq_out s2 @ '','' @ t\<rparr>)
                in Inr (s3\<lparr>total_bytes := 0\<rparr>))
        else Inr (s1\<lparr>total_bytes := total_bytes s1 + 1\<rparr>)
      else Inl Sq_Overrun)"

fun sq_loop :: "string \<Rightarrow> sq2c \<Rightarrow> sq2c_error + sq2c" where
  "sq_loop [] s = Inr s"
| "sq_loop (c # cs) s = andThen (sq_turn c s) (sq_loop cs)"

text \<open>The part of \<open>main\<close> after the file is opened; \<open>junk\<close> is the buffer as it is found on the stack.\<close>

definition sq2c_main :: "char list \<Rightarrow> string \<Rightarrow> sq2c_error + string" where
  "sq2c_main junk inp =
     andThen (sq_loop inp \<lparr>sq_buf = junk, total_bytes = 0, sq_first = True, sq_out = ''short PROG[32768] = {''\<rparr>)
       (\<lambda>s. Inr (sq_out s @ ''};\<newline>'' @ ''unsigned short ProgLen = 32767;\<newline>''))"

end
