(* ===== verification/Pegem_Props.thy ===== *)
theory Pegem_Props
  imports Pegem
begin

text \<open>
  The subleq service against the machine its \<open>README.md\<close> describes, in two steps. \<open>subleq_turn\<close> is the service over signed
  integers, with its own tests and ends; \<open>rd_turn\<close> is the machine of the description, which has no limits, goes on after an
  input and looks at the target of a jump only when it jumps. Every run is a run of the described machine up to an end of
  the service or up to an input where the two part. Every run ends, and the translator prints the words of its input.
\<close>

subsection \<open>The service over integers\<close>

text \<open>
  Memory, program counter and the number of instructions so far, as integers. \<open>sq_short\<close> is the value kept in two
  bytes. The order of the tests and the halting conditions are those of the code.
\<close>

record sq_machine =
  sq_mem :: "int list"
  sq_pc :: nat
  sq_steps :: nat
  sq_in :: "u8 list"
  sq_printed :: "u8 list"

definition sq_short :: "int \<Rightarrow> int" where "sq_short i = (i + 32768) mod 65536 - 32768"

definition sq_goto :: "nat \<Rightarrow> sq_machine \<Rightarrow> sq_machine" where
  "sq_goto pc m = m\<lparr>sq_pc := pc, sq_steps := sq_steps m + 1\<rparr>"

definition sq_store :: "nat \<Rightarrow> int \<Rightarrow> nat \<Rightarrow> sq_machine \<Rightarrow> sq_machine" where
  "sq_store b v c m = sq_goto (if v \<le> 0 then c else sq_pc m + 3) (m\<lparr>sq_mem := (sq_mem m)[b := v]\<rparr>)"

definition sq_stop :: "peg_exit \<Rightarrow> string \<Rightarrow> sq_machine \<Rightarrow> (peg_exit \<times> sq_machine) + sq_machine" where
  "sq_stop e msg m = Inl (e, m\<lparr>sq_printed := sq_printed m @ str msg\<rparr>)"

definition subleq :: "int \<Rightarrow> int \<Rightarrow> int \<Rightarrow> sq_machine \<Rightarrow> (peg_exit \<times> sq_machine) + sq_machine" where
  "subleq a b c m =
     (if c < 0 then sq_stop Peg_Done ''Done\<newline>'' m
      else if a = -1 \<and> b = -1 then sq_stop Peg_IO_Fault ''IO Fault\<newline>'' m
      else if a < -1 \<or> b < -1 then sq_stop Peg_Invalid ''Invalid address\<newline>'' m
      else if a = -1 then
        (case sq_in m of [] \<Rightarrow> Inr (sq_store (nat b) (-1) (nat c) m)
         | i # is \<Rightarrow> Inr (sq_store (nat b) (uint i) (nat c) (m\<lparr>sq_in := is\<rparr>)))
      else if b = -1 then
        Inr (sq_goto (sq_pc m + 3) (m\<lparr>sq_printed := sq_printed m @ [of_int (sq_mem m ! nat a)]\<rparr>))
      else Inr (sq_store (nat b) (sq_short (sq_mem m ! nat b - sq_mem m ! nat a)) (nat c) m))"

definition subleq_turn :: "sq_machine \<Rightarrow> (peg_exit \<times> sq_machine) + sq_machine" where
  "subleq_turn m =
     (if 20000000 < sq_steps m \<or> 32768 \<le> sq_pc m then sq_stop Peg_Done ''Done\<newline>'' m
      else if 32766 \<le> sq_pc m then Inl (Peg_Outside, m)
      else subleq (sq_mem m ! sq_pc m) (sq_mem m ! (sq_pc m + 1)) (sq_mem m ! (sq_pc m + 2)) m)"

text \<open>How the state of the code reads as a state of that machine.\<close>

definition sq_view :: "peg \<Rightarrow> sq_machine" where
  "sq_view s = \<lparr>sq_mem = map sint (PROG s), sq_pc = unat (PC s), sq_steps = unat (InstructionsExecuted s),
     sq_in = peg_stdin s, sq_printed = peg_stdout s\<rparr>"

definition peg_ok :: "peg \<Rightarrow> bool" where
  "peg_ok s \<longleftrightarrow> length (PROG s) = 32768 \<and> unat (InstructionsExecuted s) \<le> 20000001"

subsection \<open>Signed and unsigned words\<close>

lemma uint_u16_range: "0 \<le> uint (w :: u16)" "uint w < 65536"
  using uint_bounded [of w] by simp_all

lemma short_wrap:
  fixes u :: int
  assumes "0 \<le> u" "u < 65536"
  shows "(u + 32768) mod 65536 - 32768 = (if u < 32768 then u else u - 65536)"
proof (cases "u < 32768")
  case True
  then show ?thesis using assms mod_pos_pos_trivial [of "u + 32768" 65536] by simp
next
  case False
  then have "(u - 32768) mod 65536 = u - 32768" using assms mod_pos_pos_trivial [of "u - 32768" 65536] by simp
  moreover have "(u + 32768) mod 65536 = (u - 32768) mod 65536" using mod_add_self2 [of "u - 32768" 65536] by (simp add: add.commute)
  ultimately show ?thesis using False by simp
qed

lemma short_sint:
  fixes w :: u16
  shows "sint w = (if uint w < 32768 then uint w else uint w - 65536)"
proof -
  have "sint w = (uint w + 32768) mod 65536 - 32768"
    by (simp add: sint_uint signed_take_bit_eq_take_bit_shift take_bit_eq_mod)
  then show ?thesis using short_wrap [OF uint_u16_range] by metis
qed

lemma unat_u16_less [simp]: "unat (w :: u16) < 65536"
  using unsigned_less [where ?'a = nat, of w] by simp

lemma short_sub: "sint (b - a :: u16) = sq_short (sint b - sint a)"
  by (simp add: sq_short_def sint_sbintrunc' sint_word_ariths signed_take_bit_eq_take_bit_shift take_bit_eq_mod)

lemma short_minus1: "sint w = -1 \<longleftrightarrow> w = (0xFFFF :: u16)"
proof
  assume "sint w = -1"
  moreover have "uint w \<noteq> -1" using uint_u16_range(1) [of w] by linarith
  ultimately have "uint w = 65535" unfolding short_sint by (auto split: if_splits)
  then show "w = 0xFFFF" by (simp add: word_uint_eq_iff)
qed simp

lemma short_nat:
  assumes "0 \<le> sint (w :: u16)"
  shows "nat (sint w) = unat w \<and> unat w < 32768"
proof -
  have "sint w = uint w \<and> uint w < 32768"
    using assms uint_u16_range [of w] unfolding short_sint by (auto split: if_splits)
  then show ?thesis using uint_u16_range [of w] nat_mono_iff [of 32768 "uint w"] unfolding unat_eq_nat_uint by (metis nat_less_iff of_nat_numeral)
qed

lemma short_limit: "(w :: u16) > 32767 \<longleftrightarrow> sint w < 0"
  using uint_u16_range [of w] by (auto simp: short_sint word_less_def split: if_splits)

lemma short_sle0: "(w :: u16) \<le>s 0 \<longleftrightarrow> sint w \<le> 0"
  by (simp add: word_sle_eq)

lemma short_ucast: "sint (ucast (b :: u8) :: u16) = uint b"
proof -
  have "uint (ucast b :: u16) = uint b" by (metis of_nat_unat unat_u8_u16)
  moreover have "uint b < 256" using uint_bounded [of b] by simp
  ultimately show ?thesis by (simp add: short_sint)
qed

lemma ucast_u16_sint: "(ucast (w :: u16) :: u8) = of_int (sint w)"
proof -
  have "of_int (sint w) = (of_int (uint w) :: u8)"
    by (simp add: short_sint)
  then show ?thesis by simp
qed

subsection \<open>One turn\<close>

lemma peg_view_leave: "map_sum (map_prod id sq_view) sq_view (peg_leave e msg s) = sq_stop e msg (sq_view s)"
  by (simp add: peg_leave_def sq_stop_def sq_view_def)

lemma peg_view_count:
  "unat (InstructionsExecuted s) \<le> 20000000 \<Longrightarrow> sq_view (peg_count pc s) = sq_goto (unat pc) (sq_view s)"
proof -
  assume "unat (InstructionsExecuted s) \<le> 20000000"
  then have "unat (InstructionsExecuted s + 1) = unat (InstructionsExecuted s) + 1"
    by (simp add: unat_add_lem [THEN iffD1])
  then show ?thesis by (simp add: peg_count_def sq_goto_def sq_view_def)
qed

lemma unat_plus3: "unat (w :: u16) \<le> 32765 \<Longrightarrow> unat (w + 3) = unat w + 3"
  by (simp add: unat_add_lem [THEN iffD1])

lemma peg_view_write:
  assumes "length (PROG s) = 32768" "unat (InstructionsExecuted s) \<le> 20000000" "unat (PC s) \<le> 32765" "unat B < 32768"
  shows "map_sum (map_prod id sq_view) sq_view (peg_write B v C s) = Inr (sq_store (unat B) (sint v) (unat C) (sq_view s))"
proof -
  let ?s = "s\<lparr>PROG := (PROG s)[unat B := v]\<rparr>"
  have "sq_view ?s = (sq_view s)\<lparr>sq_mem := (sq_mem (sq_view s))[unat B := sint v]\<rparr>"
    by (simp add: sq_view_def map_update)
  moreover have "sq_pc (sq_view s) = unat (PC s)" by (simp add: sq_view_def)
  ultimately show ?thesis
    using assms peg_view_count [of ?s] unat_plus3 [of "PC s"]
    by (simp add: peg_write_def peg_set_def sq_store_def short_sle0)
qed

lemma peg_lim: "w > peg_ProgLen \<longleftrightarrow> sint w < 0" "w = IO \<longleftrightarrow> sint w = -1"
  using short_limit [of w] short_minus1 [of w] by (simp_all add: peg_ProgLen_def IO_def)

lemma peg_exec_view:
  assumes "length (PROG s) = 32768" "unat (InstructionsExecuted s) \<le> 20000000" "unat (PC s) \<le> 32765"
  shows "map_sum (map_prod id sq_view) sq_view (peg_exec peg_ProgLen A B C s) = subleq (sint A) (sint B) (sint C) (sq_view s)"
proof -
  have mem: "sq_mem (sq_view s) ! unat w = sint (PROG s ! unat w)" if "unat w < 32768" for w :: u16
    using that assms by (simp add: sq_view_def)
  note defs = subleq_def peg_exec_def peg_lim
  consider "sint C < 0" | "\<not> sint C < 0" "sint A = -1" "sint B = -1" | "\<not> sint C < 0" "sint A < -1 \<or> sint B < -1"
    | "0 \<le> sint C" "sint A = -1" "0 \<le> sint B" | "0 \<le> sint C" "0 \<le> sint A" "sint B = -1"
    | "0 \<le> sint C" "0 \<le> sint A" "0 \<le> sint B" by linarith
  then show ?thesis
  proof cases
    case 3
    then have "subleq (sint A) (sint B) (sint C) (sq_view s) = sq_stop Peg_Invalid ''Invalid address\<newline>'' (sq_view s)"
      "peg_exec peg_ProgLen A B C s = peg_leave Peg_Invalid ''Invalid address\<newline>'' s"
      by (auto simp: defs)
    then show ?thesis by (simp add: peg_view_leave)
  next
    case 4
    have "sq_view (s\<lparr>peg_stdin := js\<rparr>) = (sq_view s)\<lparr>sq_in := js\<rparr>" "sq_in (sq_view s) = peg_stdin s" for js
      by (simp_all add: sq_view_def)
    then show ?thesis
      using 4 assms short_nat [of B] short_nat [of C]
      by (cases "peg_stdin s") (simp_all add: defs peg_fgetc_def peg_view_write short_ucast)
  next
    case 5
    have "sq_view (peg_putchar (PROG s ! unat A) s) =
        (sq_view s)\<lparr>sq_printed := sq_printed (sq_view s) @ [of_int (sq_mem (sq_view s) ! nat (sint A))]\<rparr>"
      using 5 mem [of A] short_nat [of A] by (simp add: peg_putchar_def sq_view_def ucast_u16_sint)
    moreover have "sq_pc (sq_view s) = unat (PC s)" by (simp add: sq_view_def)
    ultimately show ?thesis
      using 5 assms short_nat [of A] unat_plus3 [of "PC s"] peg_view_count [of "peg_putchar (PROG s ! unat A) s"]
      by (simp add: defs peg_word_def) (simp add: peg_putchar_def)
  next
    case 6
    then show ?thesis
      using assms short_nat [of A] short_nat [of B] short_nat [of C] mem [of A] mem [of B]
      by (simp add: defs peg_word_def peg_view_write short_sub)
  qed (simp_all add: defs peg_view_leave)
qed

lemma peg_turn_view:
  assumes "length (PROG s) = 32768"
  shows "map_sum (map_prod id sq_view) sq_view (peg_turn peg_ProgLen s) = subleq_turn (sq_view s)"
proof -
  have lim: "InstructionsExecuted s > MAX_INSTRUCTIONS \<longleftrightarrow> 20000000 < unat (InstructionsExecuted s)"
    "PC s > peg_ProgLen \<longleftrightarrow> 32768 \<le> unat (PC s)"
    by (auto simp: MAX_INSTRUCTIONS_def peg_ProgLen_def word_less_nat_alt)
  have view: "sq_steps (sq_view s) = unat (InstructionsExecuted s)" "sq_pc (sq_view s) = unat (PC s)"
    by (simp_all add: sq_view_def)
  show ?thesis
  proof (cases "20000000 < unat (InstructionsExecuted s) \<or> 32768 \<le> unat (PC s)")
    case True
    then show ?thesis by (auto simp: peg_turn_def subleq_turn_def lim view peg_view_leave)
  next
    case run: False
    show ?thesis
    proof (cases "32766 \<le> unat (PC s)")
      case True
      then show ?thesis using run assms by (auto simp: peg_turn_def subleq_turn_def lim view peg_word_def andThen_def)
    next
      case False
      then have "map sint (PROG s) ! i = sint (PROG s ! i)" if "i \<le> unat (PC s) + 2" for i
        using that assms by simp
      then have "sq_mem (sq_view s) ! i = sint (PROG s ! i)" if "i \<le> unat (PC s) + 2" for i
        using that by (simp add: sq_view_def)
      then show ?thesis
        using run False assms by (simp add: peg_turn_def subleq_turn_def lim view peg_word_def peg_exec_view)
    qed
  qed
qed

subsection \<open>Runs\<close>

lemma peg_write_keeps:
  "peg_write B v C s = Inr s' \<Longrightarrow> length (PROG s') = length (PROG s) \<and> InstructionsExecuted s' = InstructionsExecuted s + 1"
  by (auto simp: peg_write_def peg_set_def peg_count_def split: if_splits)

lemma peg_turn_keeps:
  assumes "peg_turn l s = Inr s'"
  shows "length (PROG s') = length (PROG s)" "InstructionsExecuted s' = InstructionsExecuted s + 1"
    "\<not> InstructionsExecuted s > MAX_INSTRUCTIONS"
proof -
  obtain A B C where e: "peg_exec l A B C s = Inr s'" and c: "\<not> InstructionsExecuted s > MAX_INSTRUCTIONS"
    using assms by (auto simp: peg_turn_def peg_leave_def andThen_Inr_iff split: if_splits)
  have f: "length (PROG s1) = length (PROG s) \<and> InstructionsExecuted s1 = InstructionsExecuted s"
    if "peg_fgetc s = (v, s1)" for v s1
    using that by (auto simp: peg_fgetc_def split: list.splits)
  have "length (PROG s') = length (PROG s) \<and> InstructionsExecuted s' = InstructionsExecuted s + 1"
    using e by (auto simp: peg_exec_def peg_leave_def andThen_Inr_iff peg_count_def peg_putchar_def
        split: if_splits prod.splits dest!: peg_write_keeps f)
  with c show "length (PROG s') = length (PROG s)" "InstructionsExecuted s' = InstructionsExecuted s + 1"
    "\<not> InstructionsExecuted s > MAX_INSTRUCTIONS" by simp_all
qed

interpretation peg: simulation "peg_turn peg_ProgLen" subleq_turn sq_view "map_prod id sq_view" "\<lambda>s. length (PROG s) = 32768"
  by unfold_locales (simp_all add: peg_turn_view peg_turn_keeps)

interpretation peg_runs: ranked_stepper "\<lambda>_. False" "peg_turn peg_ProgLen" "\<lambda>s. unat (InstructionsExecuted s) \<le> 20000001"
    "\<lambda>s. 20000001 - unat (InstructionsExecuted s)"
proof
  fix s s' assume "peg_turn peg_ProgLen s = Inr s'"
  note k = peg_turn_keeps [OF this]
  then have "unat (InstructionsExecuted s) \<le> 20000000" by (simp add: MAX_INSTRUCTIONS_def word_less_nat_alt)
  moreover from this have "unat (InstructionsExecuted s') = unat (InstructionsExecuted s) + 1"
    using k(2) by (simp add: unat_add_lem [THEN iffD1])
  ultimately show "unat (InstructionsExecuted s') \<le> 20000001"
    "20000001 - unat (InstructionsExecuted s') < 20000001 - unat (InstructionsExecuted s)" by simp_all
qed

text \<open>The machine that starts with the words of the initialiser.\<close>

definition sq_start :: "int list \<Rightarrow> u8 list \<Rightarrow> sq_machine" where
  "sq_start vs input = \<lparr>sq_mem = map sq_short vs @ replicate (32768 - length vs) 0, sq_pc = 0, sq_steps = 0,
     sq_in = input, sq_printed = []\<rparr>"

lemma short_of_int: "sint (of_int v :: u16) = sq_short v"
  by (simp add: sq_short_def sint_sbintrunc' signed_take_bit_eq_take_bit_shift take_bit_eq_mod)

lemma sq_view_start: "sq_view (peg_start (peg_array vs) input) = sq_start vs input"
  by (simp add: sq_view_def peg_start_def peg_array_def sq_start_def short_of_int)

lemma peg_main_subleq:
  assumes "length vs \<le> 32768" and "20000001 < n"
  shows "\<exists>e m. iter_turn subleq_turn n (sq_start vs input) = Inl (e, m) \<and> peg_main n vs input = Some (e, sq_printed m)"
proof -
  let ?s = "peg_start (peg_array vs) input"
  have ok: "length (PROG ?s) = 32768" "unat (InstructionsExecuted ?s) \<le> 20000001"
    using assms(1) by (simp_all add: peg_start_def peg_array_def)
  obtain x where x: "SubleqExecute n peg_ProgLen ?s = Some x"
    using peg_runs.run_returns [OF ok(2), of n] assms(2) by (auto simp: SubleqExecute_def peg_start_def)
  then obtain y where "iter_turn (peg_turn peg_ProgLen) n ?s = Inl y" "x = Inl y"
    by (auto simp: SubleqExecute_def run_fuel_iter split: sum.splits)
  then obtain e s where "x = Inl (e, s)" "iter_turn (peg_turn peg_ProgLen) n ?s = Inl (e, s)"
    by (cases y) simp
  moreover from this have "iter_turn subleq_turn n (sq_start vs input) = Inl (e, sq_view s)"
    using peg.iter_sim [OF ok(1), of n] by (simp add: sq_view_start)
  ultimately show ?thesis using x by (simp add: peg_main_def sq_view_def)
qed

subsection \<open>The machine of the description\<close>

text \<open>
  \<open>subleq A, B, C\<close> as \<open>README.md\<close> has it: an input stores a byte and goes on behind the instruction, an output prints a
  byte, anything else subtracts and jumps to \<open>C\<close> if the result is not positive. An address outside of the memory that is
  used, and an input where there is none, have no next state.
\<close>

definition rd_address :: "int \<Rightarrow> bool" where "rd_address i \<longleftrightarrow> 0 \<le> i \<and> i < 32768"

definition rd_put :: "nat \<Rightarrow> int \<Rightarrow> sq_machine \<Rightarrow> sq_machine" where
  "rd_put b v m = m\<lparr>sq_mem := (sq_mem m)[b := v]\<rparr>"

definition rd_subleq :: "int \<Rightarrow> int \<Rightarrow> int \<Rightarrow> sq_machine \<Rightarrow> unit + sq_machine" where
  "rd_subleq a b c m =
     (let next_pc = sq_pc m + 3 in
      if a = -1 then
        (if \<not> rd_address b then Inl () else case sq_in m of [] \<Rightarrow> Inl ()
         | i # is \<Rightarrow> Inr (sq_goto next_pc (rd_put (nat b) (uint i) (m\<lparr>sq_in := is\<rparr>))))
      else if b = -1 then
        (if \<not> rd_address a then Inl ()
         else Inr (sq_goto next_pc (m\<lparr>sq_printed := sq_printed m @ [of_int (sq_mem m ! nat a)]\<rparr>)))
      else if \<not> rd_address a \<or> \<not> rd_address b then Inl ()
      else let v = sq_short (sq_mem m ! nat b - sq_mem m ! nat a) in
        if v \<le> 0 then (if rd_address c then Inr (sq_goto (nat c) (rd_put (nat b) v m)) else Inl ())
        else Inr (sq_goto next_pc (rd_put (nat b) v m)))"

definition rd_turn :: "sq_machine \<Rightarrow> unit + sq_machine" where
  "rd_turn m = (if sq_pc m + 2 < 32768
     then rd_subleq (sq_mem m ! sq_pc m) (sq_mem m ! (sq_pc m + 1)) (sq_mem m ! (sq_pc m + 2)) m else Inl ())"

text \<open>The words of the instruction at the program counter.\<close>

definition sq_A :: "sq_machine \<Rightarrow> int" where "sq_A m = sq_mem m ! sq_pc m"
definition sq_B :: "sq_machine \<Rightarrow> int" where "sq_B m = sq_mem m ! (sq_pc m + 1)"
definition sq_C :: "sq_machine \<Rightarrow> int" where "sq_C m = sq_mem m ! (sq_pc m + 2)"

text \<open>
  Where the service ends and why, and what it prints then. The last end is not one of the program: at the last two words of
  the memory it reads an instruction from behind the array, which is not defined.
\<close>

inductive sq_ends :: "sq_machine \<Rightarrow> peg_exit \<Rightarrow> bool" where
  too_long: "sq_steps m = 20000001 \<Longrightarrow> sq_ends m Peg_Done"
| behind: "32768 \<le> sq_pc m \<Longrightarrow> sq_ends m Peg_Done"
| bad_target: "sq_pc m < 32766 \<Longrightarrow> sq_C m < 0 \<Longrightarrow> sq_ends m Peg_Done"
| both_io: "sq_pc m < 32766 \<Longrightarrow> sq_A m = -1 \<Longrightarrow> sq_B m = -1 \<Longrightarrow> sq_ends m Peg_IO_Fault"
| bad_address: "sq_pc m < 32766 \<Longrightarrow> sq_A m < -1 \<or> sq_B m < -1 \<Longrightarrow> sq_ends m Peg_Invalid"
| undefined_read: "sq_pc m = 32766 \<or> sq_pc m = 32767 \<Longrightarrow> sq_ends m Peg_Outside"

primrec sq_message :: "peg_exit \<Rightarrow> string" where
  "sq_message Peg_Done = ''Done\<newline>''"
| "sq_message Peg_IO_Fault = ''IO Fault\<newline>''"
| "sq_message Peg_Invalid = ''Invalid address\<newline>''"
| "sq_message Peg_Outside = []"

text \<open>Where the two machines part: at an input of a zero byte, or of none, after which the service jumps.\<close>

definition sq_parts :: "sq_machine \<Rightarrow> bool" where
  "sq_parts m \<longleftrightarrow> sq_pc m < 32766 \<and> sq_A m = -1 \<and> 0 \<le> sq_B m \<and> (sq_in m = [] \<or> hd (sq_in m) = 0)"

definition sq_shorts :: "sq_machine \<Rightarrow> bool" where
  "sq_shorts m \<longleftrightarrow> length (sq_mem m) = 32768 \<and> (\<forall>v \<in> set (sq_mem m). v < 32768) \<and> sq_steps m \<le> 20000001"

lemma sq_short_less: "sq_short v < 32768"
proof -
  have "(v + 32768) mod 65536 < 65536" by simp
  then show ?thesis by (simp add: sq_short_def)
qed

lemma sq_shorts_word: "sq_shorts m \<Longrightarrow> i < 32768 \<Longrightarrow> sq_mem m ! i < 32768"
  by (simp add: sq_shorts_def)

lemma subleq_stops:
  assumes "subleq_turn m = Inl (e, m')" "sq_shorts m"
  shows "sq_ends m e" "sq_printed m' = sq_printed m @ str (sq_message e)"
proof -
  have nil: "str [] = []" by (simp add: str_def)
  consider "20000000 < sq_steps m \<or> 32768 \<le> sq_pc m" "e = Peg_Done" "m' = m\<lparr>sq_printed := sq_printed m @ str ''Done\<newline>''\<rparr>"
    | "32766 \<le> sq_pc m" "sq_pc m < 32768" "e = Peg_Outside" "m' = m"
    | "sq_pc m < 32766" "subleq (sq_A m) (sq_B m) (sq_C m) m = Inl (e, m')"
    using assms(1) by (auto simp: subleq_turn_def sq_stop_def sq_A_def sq_B_def sq_C_def split: if_splits)
  then have "sq_ends m e \<and> sq_printed m' = sq_printed m @ str (sq_message e)"
  proof cases
    case 1
    then show ?thesis using assms(2) by (auto simp: sq_shorts_def intro: sq_ends.intros)
  next
    case 2
    then show ?thesis using nil by (auto intro: sq_ends.intros)
  next
    case 3
    then show ?thesis by (auto simp: subleq_def sq_stop_def intro: sq_ends.intros split: if_splits list.splits)
  qed
  then show "sq_ends m e" "sq_printed m' = sq_printed m @ str (sq_message e)" by simp_all
qed

text \<open>A turn of the service that is not such an input is a turn of the described machine.\<close>

lemma subleq_is_described:
  assumes "subleq_turn m = Inr m'" "sq_shorts m" "\<not> sq_parts m"
  shows "rd_turn m = Inr m'"
proof -
  have pc: "sq_pc m < 32766" and run: "subleq (sq_A m) (sq_B m) (sq_C m) m = Inr m'"
    using assms(1) by (auto simp: subleq_turn_def sq_stop_def sq_A_def sq_B_def sq_C_def split: if_splits)
  have A: "sq_A m < 32768" "sq_B m < 32768" "sq_C m < 32768"
    using sq_shorts_word [OF assms(2)] pc by (simp_all add: sq_A_def sq_B_def sq_C_def)
  have "rd_subleq (sq_A m) (sq_B m) (sq_C m) m = Inr m'"
  proof (cases "sq_A m = -1")
    case True
    then obtain i "is" where "sq_in m = i # is" "i \<noteq> 0" "0 \<le> sq_B m"
      using run pc assms(3) by (cases "sq_in m") (auto simp: subleq_def sq_stop_def sq_parts_def split: if_splits)
    moreover have "\<not> uint i \<le> 0" using \<open>i \<noteq> 0\<close> uint_nonnegative [of i] by (simp add: word_uint_eq_iff)
    ultimately show ?thesis using run True A
      by (auto simp: subleq_def rd_subleq_def sq_stop_def sq_store_def rd_address_def rd_put_def Let_def split: if_splits)
  next
    case False
    then show ?thesis using run A
      by (auto simp: subleq_def rd_subleq_def sq_stop_def sq_store_def rd_address_def rd_put_def Let_def split: if_splits)
  qed
  then show ?thesis using pc by (simp add: rd_turn_def sq_A_def sq_B_def sq_C_def)
qed

lemma sq_shorts_put:
  "sq_shorts m \<Longrightarrow> v < 32768 \<Longrightarrow> sq_steps m \<le> 20000000 \<Longrightarrow> sq_shorts (sq_store b v c m)"
  by (auto simp: sq_shorts_def sq_store_def sq_goto_def dest!: set_update_subset_insert [THEN subsetD])

lemma subleq_keeps:
  assumes "subleq_turn m = Inr m'" "sq_shorts m"
  shows "sq_shorts m'"
proof -
  have n: "sq_steps m \<le> 20000000" and run: "subleq (sq_A m) (sq_B m) (sq_C m) m = Inr m'"
    using assms(1) by (auto simp: subleq_turn_def sq_stop_def sq_A_def sq_B_def sq_C_def split: if_splits)
  have i: "sq_shorts (m\<lparr>sq_in := js\<rparr>)" for js using assms(2) by (simp add: sq_shorts_def)
  have byte: "uint (c :: u8) < 32768" for c using uint_bounded [of c] by simp
  have out: "sq_shorts (sq_goto k (m\<lparr>sq_printed := js\<rparr>))" for k js using assms(2) n by (simp add: sq_shorts_def sq_goto_def)
  show ?thesis
    using run n byte out sq_shorts_put [OF i] sq_shorts_put [OF assms(2)] sq_short_less
    by (auto simp: subleq_def sq_stop_def split: if_splits list.splits)
qed

lemma subleq_prints: "subleq_turn m = Inr m' \<or> subleq_turn m = Inl (e, m') \<Longrightarrow> \<exists>out. sq_printed m' = sq_printed m @ out"
  by (auto simp: subleq_turn_def subleq_def sq_stop_def sq_store_def sq_goto_def split: if_splits list.splits)

lemma subleq_runs_print: "iter_turn subleq_turn n m = Inl (e, m') \<Longrightarrow> \<exists>out. sq_printed m' = sq_printed m @ out"
proof (induction n arbitrary: m)
  case (Suc n)
  show ?case
  proof (cases "subleq_turn m")
    case (Inl x)
    then show ?thesis using Suc.prems subleq_prints [of m m' e] by simp
  next
    case (Inr m2)
    then show ?thesis using Suc.prems Suc.IH [of m2] subleq_prints [of m m2] by fastforce
  qed
qed simp

text \<open>The runs: as far as they go together.\<close>

lemma subleq_runs_described:
  assumes "iter_turn subleq_turn n m = Inl (e, m')" "sq_shorts m"
  shows "\<exists>k m1. k \<le> n \<and> iter_turn rd_turn k m = Inr m1 \<and> sq_shorts m1 \<and>
    (sq_ends m1 e \<and> sq_printed m' = sq_printed m1 @ str (sq_message e) \<or> sq_parts m1 \<and> (\<exists>more. sq_printed m' = sq_printed m1 @ more))"
  using assms
proof (induction n arbitrary: m)
  case (Suc n)
  show ?case
  proof (cases "subleq_turn m")
    case (Inl x)
    then have "subleq_turn m = Inl (e, m')" using Suc.prems(1) by simp
    then have "sq_ends m e \<and> sq_printed m' = sq_printed m @ str (sq_message e)" using subleq_stops Suc.prems(2) by blast
    then show ?thesis using Suc.prems(2) by (intro exI [of _ 0] exI [of _ m]) simp
  next
    case (Inr m2)
    show ?thesis
    proof (cases "sq_parts m")
      case True
      then show ?thesis using Suc.prems(2) subleq_runs_print [OF Suc.prems(1)] by (intro exI [of _ 0] exI [of _ m]) simp
    next
      case False
      have rd: "rd_turn m = Inr m2" by (rule subleq_is_described [OF Inr Suc.prems(2) False])
      obtain k m1 where "k \<le> n" "iter_turn rd_turn k m2 = Inr m1" "sq_shorts m1"
        "sq_ends m1 e \<and> sq_printed m' = sq_printed m1 @ str (sq_message e) \<or> sq_parts m1 \<and> (\<exists>more. sq_printed m' = sq_printed m1 @ more)"
        using Suc.IH [of m2] Suc.prems Inr subleq_keeps [OF Inr Suc.prems(2)] by auto
      then show ?thesis using rd by (intro exI [of _ "Suc k"] exI [of _ m1]) simp
    qed
  qed
qed simp

lemma rd_steps: "iter_turn rd_turn k m = Inr m1 \<Longrightarrow> sq_steps m1 = sq_steps m + k"
proof (induction k arbitrary: m)
  case (Suc k)
  then obtain m2 where m2: "rd_turn m = Inr m2" "iter_turn rd_turn k m2 = Inr m1" by (auto simp: andThen_Inr_iff)
  then have "sq_steps m2 = sq_steps m + 1"
    by (auto simp: rd_turn_def rd_subleq_def Let_def sq_goto_def rd_put_def split: if_splits list.splits)
  then show ?case using Suc.IH [OF m2(2)] by simp
qed simp

text \<open>C6. Whatever the program array holds and whatever arrives, the service ends. What it does until then is what the machine
  of the description does: after \<open>k\<close> instructions of that machine, at most 20000001, the service either is at one of its
  own ends, and has printed what the machine has and its message, or at an input of a zero byte or behind the end of the
  input, where the code jumps and the description does not, and what it prints in all begins with what the machine has printed. One of the ends is a read behind the array.\<close>

theorem peg_main_refines:
  assumes "length vs \<le> 32768" and "20000001 < n"
  shows "\<exists>k m e out. iter_turn rd_turn k (sq_start vs input) = Inr m \<and> k \<le> 20000001 \<and> peg_main n vs input = Some (e, out)
    \<and> (sq_ends m e \<and> out = sq_printed m @ str (sq_message e) \<or> sq_parts m \<and> (\<exists>more. out = sq_printed m @ more))"
proof -
  obtain e m where run: "iter_turn subleq_turn n (sq_start vs input) = Inl (e, m)" "peg_main n vs input = Some (e, sq_printed m)"
    using peg_main_subleq [OF assms] by blast
  have "sq_shorts (sq_start vs input)" using assms(1) by (auto simp: sq_shorts_def sq_start_def sq_short_less)
  from subleq_runs_described [OF run(1) this] obtain k m1 where k: "iter_turn rd_turn k (sq_start vs input) = Inr m1" "sq_shorts m1"
    "sq_ends m1 e \<and> sq_printed m = sq_printed m1 @ str (sq_message e) \<or> sq_parts m1 \<and> (\<exists>more. sq_printed m = sq_printed m1 @ more)" by blast
  have "k \<le> 20000001" using rd_steps [OF k(1)] k(2) by (simp add: sq_start_def sq_shorts_def)
  then show ?thesis using run(2) k by blast
qed

text \<open>A program that prints the word behind it and jumps out of the limit.\<close>

lemma peg_main_refines_witness:
  "\<exists>k m e out. iter_turn rd_turn k (sq_start [6, -1, 0, 0, 0, 32767, 72] []) = Inr m \<and> k \<le> 20000001
    \<and> peg_main 20000002 [6, -1, 0, 0, 0, 32767, 72] [] = Some (e, out)
    \<and> (sq_ends m e \<and> out = sq_printed m @ str (sq_message e) \<or> sq_parts m \<and> (\<exists>more. out = sq_printed m @ more))"
  by (rule peg_main_refines) simp_all

text \<open>Every access of a turn is inside the array, but for one case: an instruction in one of the last two words, which
  the test of the program counter lets through, is read from behind it.\<close>

theorem peg_outside_iff:
  assumes "length (PROG s) = 32768"
  shows "(\<exists>s'. peg_turn peg_ProgLen s = Inl (Peg_Outside, s')) \<longleftrightarrow>
    InstructionsExecuted s \<le> MAX_INSTRUCTIONS \<and> unat (PC s) \<in> {32766, 32767}"
proof -
  have n: "subleq a b c m \<noteq> Inl (Peg_Outside, m')" for a b c m m'
    by (auto simp: subleq_def sq_stop_def split: list.splits)
  have "(\<exists>s'. peg_turn peg_ProgLen s = Inl (Peg_Outside, s')) \<longleftrightarrow> (\<exists>m. subleq_turn (sq_view s) = Inl (Peg_Outside, m))"
    unfolding peg_turn_view [OF assms, symmetric] by (cases "peg_turn peg_ProgLen s") auto
  also have "\<dots> \<longleftrightarrow> \<not> (20000000 < unat (InstructionsExecuted s) \<or> 32768 \<le> unat (PC s)) \<and> 32766 \<le> unat (PC s)"
    using n by (simp add: subleq_turn_def sq_stop_def sq_view_def)
  also have "\<dots> \<longleftrightarrow> InstructionsExecuted s \<le> MAX_INSTRUCTIONS \<and> unat (PC s) \<in> {32766, 32767}"
    by (auto simp: MAX_INSTRUCTIONS_def word_le_nat_alt)
  finally show ?thesis .
qed

text \<open>The service gets there when a program jumps there.\<close>

lemma peg_outside_iff_witness:
  "case peg_turn peg_ProgLen (peg_start (peg_array [0, 0, 32766]) []) of Inl _ \<Rightarrow> False
   | Inr s \<Rightarrow> \<exists>s'. peg_turn peg_ProgLen s = Inl (Peg_Outside, s')"
proof -
  let ?s = "peg_start (peg_array [0, 0, 32766]) []"
  have v: "peg_array [0, 0, 32766] ! 0 = 0" "peg_array [0, 0, 32766] ! Suc 0 = 0" "peg_array [0, 0, 32766] ! Suc (Suc 0) = 32766"
    "length (peg_array [0, 0, 32766]) = 32768" by (simp_all add: peg_array_def)
  then have t: "peg_turn peg_ProgLen ?s = Inr (peg_count 32766 (?s\<lparr>PROG := (PROG ?s)[0 := 0]\<rparr>))" (is "_ = Inr ?t")
    by (simp add: peg_turn_def peg_exec_def peg_word_def peg_write_def peg_set_def peg_start_def MAX_INSTRUCTIONS_def
        peg_ProgLen_def IO_def)
  have "\<exists>s'. peg_turn peg_ProgLen ?t = Inl (Peg_Outside, s')"
    by (subst peg_outside_iff) (simp_all add: v peg_count_def peg_start_def MAX_INSTRUCTIONS_def)
  with t show ?thesis by simp
qed

subsection \<open>The translator\<close>

definition sq_sep :: "char \<Rightarrow> bool" where
  "sq_sep c \<longleftrightarrow> c = CHR '' '' \<or> c = CHR ''\<newline>''"

definition sq_joined :: "string list \<Rightarrow> string" where
  "sq_joined ws = concat (case ws of [] \<Rightarrow> [] | w # ws' \<Rightarrow> w # map (\<lambda>v. CHR '','' # v) ws')"

text \<open>A word of the input with the separators behind it.\<close>

definition sq_item :: "string \<times> string \<Rightarrow> bool" where
  "sq_item = (\<lambda>(w, ss). w \<noteq> [] \<and> ss \<noteq> [] \<and> (\<forall>c \<in> set w. \<not> sq_sep c \<and> c \<noteq> CHR 0x00) \<and> (\<forall>c \<in> set ss. sq_sep c))"

abbreviation sq_at :: "char list \<Rightarrow> nat \<Rightarrow> bool \<Rightarrow> string \<Rightarrow> sq2c" where
  "sq_at b t f out \<equiv> \<lparr>sq_buf = b, total_bytes = t, sq_first = f, sq_out = out\<rparr>"

lemma sq_loop_seps:
  assumes "\<forall>c \<in> set ss. sq_sep c" "length b = 6"
  shows "\<exists>b'. length b' = 6 \<and> sq_loop (ss @ cs) (sq_at b 0 f out) = sq_loop cs (sq_at b' 0 f out)"
  using assms
proof (induction ss arbitrary: b)
  case (Cons c ss)
  then have "sq_turn c (sq_at b 0 f out) = Inr (sq_at (b[0 := c]) 0 f out)"
    by (auto simp: sq_turn_def sq_sep_def Let_def)
  with Cons show ?case by (metis Cons_eq_appendI andThen_simps(2) length_list_update list.set_intros(2) sq_loop.simps(2))
qed auto

lemma sq_loop_word:
  assumes "\<forall>c \<in> set w. \<not> sq_sep c" "length p + length w \<le> 6" "length p + length j = 6"
  shows "\<exists>j'. length j' = length j - length w
    \<and> sq_loop (w @ cs) (sq_at (p @ j) (length p) f out) = sq_loop cs (sq_at (p @ w @ j') (length p + length w) f out)"
  using assms
proof (induction w arbitrary: p j)
  case (Cons c w)
  then obtain x j1 where j: "j = x # j1" by (cases j) auto
  have "sq_turn c (sq_at (p @ j) (length p) f out) = Inr (sq_at ((p @ [c]) @ j1) (length (p @ [c])) f out)"
    using Cons.prems by (simp add: sq_turn_def sq_sep_def Let_def j)
  moreover obtain j' where "length j' = length j1 - length w"
    "sq_loop (w @ cs) (sq_at ((p @ [c]) @ j1) (length (p @ [c])) f out)
      = sq_loop cs (sq_at ((p @ [c]) @ w @ j') (length (p @ [c]) + length w) f out)"
    using Cons.IH [of "p @ [c]" j1] Cons.prems j by auto
  ultimately show ?case by (auto simp: j)
qed auto

lemma sq_cstr_word: "\<forall>c \<in> set w. c \<noteq> CHR 0x00 \<Longrightarrow> sq_cstr (w @ CHR 0x00 # j) = w"
  by (induction w) (auto simp: sq_cstr_def)

lemma sq_loop_overrun:
  assumes "\<forall>c \<in> set v. \<not> sq_sep c" "length v = 6" "length b = 6"
  shows "sq_loop (v @ c # cs) (sq_at b 0 f out) = Inl Sq_Overrun"
proof -
  have "sq_loop (v @ c # cs) (sq_at b 0 f out) = sq_loop (c # cs) (sq_at v 6 f out)"
    using sq_loop_word [of v "[]" b "c # cs" f out] assms by auto
  moreover have "sq_turn c (sq_at v 6 f out) = Inl Sq_Overrun" using assms(2) by (simp add: sq_turn_def)
  ultimately show ?thesis by simp
qed

text \<open>A word of at most five characters is printed, a longer one overruns the buffer.\<close>

lemma sq_loop_item:
  assumes "sq_item (w, ss)" "length b = 6"
  shows "length w \<le> 5 \<Longrightarrow> \<exists>b'. length b' = 6 \<and> sq_loop (w @ ss @ cs) (sq_at b 0 f out)
      = sq_loop cs (sq_at b' 0 False (out @ (if f then w else '','' @ w)))"
    and "5 < length w \<Longrightarrow> sq_loop (w @ ss @ cs) (sq_at b 0 f out) = Inl Sq_Overrun"
proof -
  obtain s ss' where ss: "ss = s # ss'" "sq_sep s" "\<forall>c \<in> set ss'. sq_sep c"
    using assms(1) by (cases ss) (auto simp: sq_item_def)
  have w: "w \<noteq> []" "\<forall>c \<in> set w. \<not> sq_sep c" "\<forall>c \<in> set w. c \<noteq> CHR 0x00"
    using assms(1) by (auto simp: sq_item_def)
  {
    assume l: "length w \<le> 5"
    obtain j where j: "length j = 6 - length w"
      "sq_loop (w @ ss @ cs) (sq_at b 0 f out) = sq_loop (ss @ cs) (sq_at (w @ j) (length w) f out)"
      using sq_loop_word [of w "[]" b "ss @ cs" f out] w l assms(2) by auto
    then obtain x j1 where x: "j = x # j1" using l by (cases j) auto
    have "sq_turn s (sq_at (w @ j) (length w) f out)
        = Inr (sq_at (w @ CHR 0x00 # j1) 0 False (out @ (if f then w else '','' @ w)))"
      using ss(2) w l j(1) by (simp add: sq_turn_def sq_sep_def Let_def x sq_cstr_word)
    moreover have "length (w @ CHR 0x00 # j1) = 6" using j(1) x l by simp
    ultimately show "\<exists>b'. length b' = 6 \<and> sq_loop (w @ ss @ cs) (sq_at b 0 f out)
      = sq_loop cs (sq_at b' 0 False (out @ (if f then w else '','' @ w)))"
      using sq_loop_seps [OF ss(3), of "w @ CHR 0x00 # j1" cs False] j(2) ss(1) by auto
  }
  assume l: "5 < length w"
  define v where "v = take 6 w"
  have v: "\<forall>c \<in> set v. \<not> sq_sep c" "length v = 6" "w = v @ drop 6 w"
    using w(2) l by (auto simp: v_def dest: in_set_takeD)
  moreover obtain c cs' where c: "drop 6 w @ ss @ cs = c # cs'" using ss(1) by (cases "drop 6 w") auto
  moreover have "w @ ss @ cs = v @ c # cs'" using v(3) c by (metis append_assoc)
  ultimately show "sq_loop (w @ ss @ cs) (sq_at b 0 f out) = Inl Sq_Overrun" using sq_loop_overrun [OF v(1,2) assms(2)] by simp
qed

definition sq_text :: "(string \<times> string) list \<Rightarrow> string" where
  "sq_text its = concat (map (\<lambda>(w, ss). w @ ss) its)"

lemma sq_text_Cons: "sq_text ((w, ss) # its) = w @ ss @ sq_text its"
  by (simp add: sq_text_def)

lemma sq_loop_long:
  assumes "\<forall>it \<in> set its. sq_item it" "\<exists>it \<in> set its. 5 < length (fst it)" "length b = 6"
  shows "sq_loop (sq_text its @ cs) (sq_at b 0 f out) = Inl Sq_Overrun"
  using assms
proof (induction its arbitrary: b f out)
  case (Cons it its)
  obtain w ss where it: "it = (w, ss)" by (cases it)
  then have i: "sq_item (w, ss)" using Cons.prems by simp
  show ?case
  proof (cases "5 < length w")
    case True
    then show ?thesis using sq_loop_item(2) [OF i Cons.prems(3)] by (simp add: it sq_text_Cons)
  next
    case False
    then obtain b' where "length b' = 6" "sq_loop (w @ ss @ sq_text its @ cs) (sq_at b 0 f out)
        = sq_loop (sq_text its @ cs) (sq_at b' 0 False (out @ (if f then w else '','' @ w)))"
      using sq_loop_item(1) [OF i Cons.prems(3), of "sq_text its @ cs" f out] by auto
    with False Cons show ?thesis by (auto simp: it sq_text_Cons)
  qed
qed simp

lemma sq_loop_short:
  assumes "\<forall>it \<in> set its. sq_item it \<and> length (fst it) \<le> 5" "length b = 6"
  shows "\<exists>b' f'. length b' = 6 \<and> sq_loop (sq_text its @ cs) (sq_at b 0 f out) = sq_loop cs (sq_at b' 0 f'
    (out @ (if f then sq_joined (map fst its) else concat (map (\<lambda>w. CHR '','' # w) (map fst its)))))"
  using assms
proof (induction its arbitrary: b f out)
  case (Cons it its)
  obtain w ss where it: "it = (w, ss)" by (cases it)
  then have i: "sq_item (w, ss)" "length w \<le> 5" using Cons.prems by simp_all
  obtain b' where b': "length b' = 6" "sq_loop (w @ ss @ sq_text its @ cs) (sq_at b 0 f out)
      = sq_loop (sq_text its @ cs) (sq_at b' 0 False (out @ (if f then w else '','' @ w)))"
    using sq_loop_item(1) [OF i(1) Cons.prems(2) i(2), of "sq_text its @ cs" f out] by auto
  obtain b2 f2 where "length b2 = 6" "sq_loop (sq_text its @ cs) (sq_at b' 0 False (out @ (if f then w else '','' @ w)))
      = sq_loop cs (sq_at b2 0 f2 ((out @ (if f then w else '','' @ w)) @ concat (map (\<lambda>w. CHR '','' # w) (map fst its))))"
    using Cons.IH [of b' False "out @ (if f then w else '','' @ w)"] Cons.prems(1) b'(1) by auto
  then show ?case using b'(2) by (intro exI [of _ b2] exI [of _ f2]) (simp add: it sq_text_Cons sq_joined_def)
qed (auto simp: sq_text_def sq_joined_def)

text \<open>What is left in the buffer at the end of the input is not printed.\<close>

lemma sq_loop_last:
  assumes "\<forall>c \<in> set w. \<not> sq_sep c" "length b = 6"
  shows "6 < length w \<Longrightarrow> sq_loop w (sq_at b 0 f out) = Inl Sq_Overrun"
    and "length w \<le> 6 \<Longrightarrow> \<exists>s. sq_loop w (sq_at b 0 f out) = Inr s \<and> sq_out s = out"
proof -
  show "length w \<le> 6 \<Longrightarrow> \<exists>s. sq_loop w (sq_at b 0 f out) = Inr s \<and> sq_out s = out"
    using sq_loop_word [of w "[]" b "[]" f out] assms by auto
  assume l: "6 < length w"
  then obtain c cs where c: "drop 6 w = c # cs" by (cases "drop 6 w") auto
  have "\<forall>c \<in> set (take 6 w). \<not> sq_sep c" using assms(1) by (auto dest: in_set_takeD)
  then have "sq_loop (take 6 w @ c # cs) (sq_at b 0 f out) = Inl Sq_Overrun" using l assms(2) by (intro sq_loop_overrun) simp_all
  then show "sq_loop w (sq_at b 0 f out) = Inl Sq_Overrun" using c by (metis append_take_drop_id)
qed

text \<open>C38. The input is a text of words with separators between them. Whatever the buffer holds at first, the translator
  prints an initialiser with the words that have a separator behind them, in their order, and drops a last word that has
  none, unless one of them has more than five characters, or the last one more than six, which overruns the buffer.\<close>

theorem sq2c_translates:
  assumes "length junk = 6" and "\<forall>c \<in> set ss. sq_sep c" and "\<forall>it \<in> set its. sq_item it" and "\<forall>c \<in> set last_word. \<not> sq_sep c"
  shows "sq2c_main junk (ss @ sq_text its @ last_word) =
    (if (\<exists>it \<in> set its. 5 < length (fst it)) \<or> 6 < length last_word then Inl Sq_Overrun
     else Inr (''short PROG[32768] = {'' @ sq_joined (map fst its) @ ''};\<newline>unsigned short ProgLen = 32767;\<newline>''))"
proof -
  obtain b where b: "length b = 6" "sq2c_main junk (ss @ sq_text its @ last_word) =
     andThen (sq_loop (sq_text its @ last_word) (sq_at b 0 True ''short PROG[32768] = {''))
       (\<lambda>s. Inr (sq_out s @ ''};\<newline>'' @ ''unsigned short ProgLen = 32767;\<newline>''))"
    using sq_loop_seps [OF assms(2,1)] unfolding sq2c_main_def by metis
  show ?thesis
  proof (cases "\<exists>it \<in> set its. 5 < length (fst it)")
    case True
    then show ?thesis using sq_loop_long [OF assms(3) True b(1)] b(2) by simp
  next
    case False
    then have "\<forall>it \<in> set its. sq_item it \<and> length (fst it) \<le> 5" using assms(3) by (auto simp: not_less)
    from sq_loop_short [OF this b(1), of last_word True "''short PROG[32768] = {''"] obtain b' f' where b': "length b' = 6"
      "sq_loop (sq_text its @ last_word) (sq_at b 0 True ''short PROG[32768] = {'')
        = sq_loop last_word (sq_at b' 0 f' (''short PROG[32768] = {'' @ sq_joined (map fst its)))" by auto
    show ?thesis
      using sq_loop_last [OF assms(4) b'(1), of f' "''short PROG[32768] = {'' @ sq_joined (map fst its)"] False b(2) b'(2)
      by (cases "6 < length last_word") auto
  qed
qed

text \<open>The words of a jump are translated, without the last character of the file; -10000, a value of the type, is not.\<close>

lemma sq2c_translates_witness:
  "sq2c_main ''......'' ''0 0\<newline>-3 7'' = Inr ''short PROG[32768] = {0,0,-3};\<newline>unsigned short ProgLen = 32767;\<newline>''
   \<and> sq2c_main ''......'' ''0 -10000\<newline>'' = Inl Sq_Overrun"
  using sq2c_translates [of "''......''" "[]" "[(''0'', '' ''), (''0'', ''\<newline>''), (''-3'', '' '')]" "''7''"]
    sq2c_translates [of "''......''" "[]" "[(''0'', '' ''), (''-10000'', ''\<newline>'')]" "[]"]
  by (simp add: sq_item_def sq_sep_def sq_text_def sq_joined_def)

end
