(* ===== verification/Mud_Stream.thy ===== *)
theory Mud_Stream
  imports Prelude
begin

text \<open>
  The byte stream of the game server and its client (\<open>src/hackermud/server/streamdata.cpp\<close>): 1024 pointers to chunks
  of 256 bytes that are allocated when a write reaches them, a position for writing and one for reading. An exception
  is an error value with the object as it is left. \<open>fresh\<close> is what a new chunk holds before it is written.
  The contract of such a stream is the locale \<open>byte_queue\<close>.
\<close>

subsection \<open>The code\<close>

definition MAX_MEMORY_CHUNKS :: nat where "MAX_MEMORY_CHUNKS = 1024"
definition MEMORY_CHUNK_SIZE :: nat where "MEMORY_CHUNK_SIZE = 256"

lemmas chunk_consts = MAX_MEMORY_CHUNKS_def MEMORY_CHUNK_SIZE_def

record stream =
  m_memoryChunks :: "u8 list option list"
  m_memoryWritePos :: u32
  m_memoryReadPos :: u32
  m_lastChunk :: nat

datatype stream_error = Out_Of_Chunks | Out_Of_Memory | Insufficient_Data

definition stream_new :: stream where
  "stream_new = \<lparr>m_memoryChunks = replicate MAX_MEMORY_CHUNKS None, m_memoryWritePos = 0, m_memoryReadPos = 0, m_lastChunk = 0\<rparr>"

definition stream_Clear :: "stream \<Rightarrow> stream" where
  "stream_Clear s = s\<lparr>m_memoryChunks := fold (\<lambda>i cs. cs[i := None]) [0..<m_lastChunk s] (m_memoryChunks s),
     m_memoryWritePos := 0, m_memoryReadPos := 0, m_lastChunk := 0\<rparr>"

text \<open>
  The bytes of a chunk from a position on replaced, as \<open>memcpy\<close> does. The loops start at a position inside a chunk,
  so that the test for one outside, which makes them total, never holds.
\<close>

definition chunk_put :: "nat \<Rightarrow> u8 list \<Rightarrow> u8 list \<Rightarrow> u8 list" where
  "chunk_put pos bs chunk = take pos chunk @ bs @ drop (pos + length bs) chunk"

definition write_chunk :: "u8 list \<Rightarrow> nat \<Rightarrow> nat \<Rightarrow> u8 list \<Rightarrow> stream \<Rightarrow> stream" where
  "write_chunk fresh chunkIndex chunkPos bs s =
     (let chunk = (case m_memoryChunks s ! chunkIndex of None \<Rightarrow> fresh | Some c \<Rightarrow> c)
      in s\<lparr>m_memoryChunks := (m_memoryChunks s)[chunkIndex := Some (chunk_put chunkPos bs chunk)],
           m_lastChunk := (if chunkIndex + 1 > m_lastChunk s then chunkIndex + 1 else m_lastChunk s)\<rparr>)"

function write_loop :: "u8 list \<Rightarrow> nat \<Rightarrow> nat \<Rightarrow> u8 list \<Rightarrow> stream \<Rightarrow> (stream_error \<times> stream) + stream" where
  "write_loop fresh chunkIndex chunkPos bs s =
     (if bs = [] then Inr s
      else if MEMORY_CHUNK_SIZE \<le> chunkPos then Inr s
      else let n = min (length bs) (MEMORY_CHUNK_SIZE - chunkPos) in
        if chunkIndex \<ge> MAX_MEMORY_CHUNKS then Inl (Out_Of_Chunks, s)
        else write_loop fresh (chunkIndex + 1) 0 (drop n bs) (write_chunk fresh chunkIndex chunkPos (take n bs) s))"
  by pat_completeness auto
termination by (relation "measure (\<lambda>(_, _, _, bs, _). length bs)") (auto simp: MEMORY_CHUNK_SIZE_def)

declare write_loop.simps [simp del]

definition stream_Write :: "u8 list \<Rightarrow> u8 list \<Rightarrow> stream \<Rightarrow> (stream_error \<times> stream) + stream" where
  "stream_Write fresh pData s =
     (let w = unat (m_memoryWritePos s) in
      andThen (write_loop fresh (w div MEMORY_CHUNK_SIZE) (w mod MEMORY_CHUNK_SIZE) pData s)
        (\<lambda>s1. Inr (s1\<lparr>m_memoryWritePos := m_memoryWritePos s1 + of_nat (length pData)\<rparr>)))"

definition GetReadAvailable :: "stream \<Rightarrow> u32" where
  "GetReadAvailable s = m_memoryWritePos s - m_memoryReadPos s"

function read_loop :: "nat \<Rightarrow> nat \<Rightarrow> nat \<Rightarrow> stream \<Rightarrow> (stream_error \<times> stream) + u8 list" where
  "read_loop chunkIndex chunkPos readRemaining s =
     (if readRemaining = 0 then Inr []
      else if MEMORY_CHUNK_SIZE \<le> chunkPos then Inr []
      else let n = min readRemaining (MEMORY_CHUNK_SIZE - chunkPos) in
        if chunkIndex \<ge> MAX_MEMORY_CHUNKS then Inl (Out_Of_Chunks, s)
        else case m_memoryChunks s ! chunkIndex of
          None \<Rightarrow> Inl (Out_Of_Memory, s)
        | Some chunk \<Rightarrow> andThen (read_loop (chunkIndex + 1) 0 (readRemaining - n) s)
            (\<lambda>bs. Inr (take n (drop chunkPos chunk) @ bs)))"
  by pat_completeness auto
termination by (relation "measure (\<lambda>(_, _, n, _). n)") (auto simp: MEMORY_CHUNK_SIZE_def)

declare read_loop.simps [simp del]

definition stream_Read :: "u32 \<Rightarrow> bool \<Rightarrow> stream \<Rightarrow> (stream_error \<times> stream) + (u8 list \<times> stream)" where
  "stream_Read dataLen bPeak s =
     (let r = unat (m_memoryReadPos s) in
      if GetReadAvailable s < dataLen then Inl (Insufficient_Data, s)
      else andThen (read_loop (r div MEMORY_CHUNK_SIZE) (r mod MEMORY_CHUNK_SIZE) (unat dataLen) s)
        (\<lambda>bs. Inr (bs, if bPeak then s else s\<lparr>m_memoryReadPos := m_memoryReadPos s + dataLen\<rparr>)))"

definition stream_Peak :: "u32 \<Rightarrow> stream \<Rightarrow> (stream_error \<times> stream) + (u8 list \<times> stream)" where
  "stream_Peak dataLen s = stream_Read dataLen True s"

definition SkipForward :: "u32 \<Rightarrow> stream \<Rightarrow> stream" where
  "SkipForward dataLen s = s\<lparr>m_memoryReadPos := m_memoryReadPos s +
     (if GetReadAvailable s < dataLen then GetReadAvailable s else dataLen)\<rparr>"

subsection \<open>The contract\<close>

text \<open>
  A queue of bytes. \<open>contents s\<close> are the bytes not read yet, \<open>room s\<close> the number of bytes that can still be written
  in the life of the stream; reading never makes room.
\<close>

locale byte_queue =
  fixes put :: "u8 list \<Rightarrow> 's \<Rightarrow> 'e + 's"
    and peek :: "u32 \<Rightarrow> 's \<Rightarrow> 'e + (u8 list \<times> 's)"
    and get :: "u32 \<Rightarrow> 's \<Rightarrow> 'e + (u8 list \<times> 's)"
    and skip :: "u32 \<Rightarrow> 's \<Rightarrow> 's"
    and avail :: "'s \<Rightarrow> u32"
    and ok :: "'s \<Rightarrow> bool"
    and contents :: "'s \<Rightarrow> u8 list"
    and room :: "'s \<Rightarrow> nat"
  assumes put_fits: "ok s \<Longrightarrow> length bs \<le> room s \<Longrightarrow>
      \<exists>s'. put bs s = Inr s' \<and> ok s' \<and> contents s' = contents s @ bs \<and> room s' = room s - length bs"
    and put_full: "ok s \<Longrightarrow> room s < length bs \<Longrightarrow> \<exists>e. put bs s = Inl e"
    and avail_contents: "ok s \<Longrightarrow> unat (avail s) = length (contents s)"
    and contents_short: "ok s \<Longrightarrow> length (contents s) < 2 ^ 32"
    and peek_contents: "ok s \<Longrightarrow> unat n \<le> length (contents s) \<Longrightarrow> peek n s = Inr (take (unat n) (contents s), s)"
    and get_contents: "ok s \<Longrightarrow> unat n \<le> length (contents s) \<Longrightarrow>
      \<exists>s'. get n s = Inr (take (unat n) (contents s), s') \<and> ok s' \<and> contents s' = drop (unat n) (contents s) \<and> room s' = room s"
    and get_short: "ok s \<Longrightarrow> length (contents s) < unat n \<Longrightarrow> \<exists>e. get n s = Inl e"
    and skip_contents: "ok s \<Longrightarrow> ok (skip n s) \<and> contents (skip n s) = drop (unat n) (contents s) \<and> room (skip n s) = room s"

subsection \<open>What the chunks hold\<close>

definition chunk_bytes :: "u8 list option \<Rightarrow> u8 list" where
  "chunk_bytes o1 = (case o1 of None \<Rightarrow> replicate 256 0 | Some c \<Rightarrow> c)"

definition flat :: "u8 list option list \<Rightarrow> u8 list" where
  "flat cs = concat (map chunk_bytes cs)"

definition chunks_ok :: "u8 list option list \<Rightarrow> bool" where
  "chunks_ok cs \<longleftrightarrow> length cs = 1024 \<and> (\<forall>c \<in> set cs. length (chunk_bytes c) = 256)"

text \<open>The chunks hold the bytes \<open>ws\<close>: all chunks these reach are allocated.\<close>

definition holds :: "u8 list \<Rightarrow> stream \<Rightarrow> bool" where
  "holds ws s \<longleftrightarrow> chunks_ok (m_memoryChunks s) \<and> length ws \<le> 262144
     \<and> take (length ws) (flat (m_memoryChunks s)) = ws
     \<and> (\<forall>i. i * 256 < length ws \<longrightarrow> m_memoryChunks s ! i \<noteq> None)"

lemma length_flat: "\<forall>c \<in> set cs. length (chunk_bytes c) = 256 \<Longrightarrow> length (flat cs) = 256 * length cs"
  by (induction cs) (simp_all add: flat_def)

lemma flat_parts:
  assumes "chunks_ok cs" "i < 1024"
  shows "\<exists>a b. flat cs = a @ chunk_bytes (cs ! i) @ b \<and> length a = 256 * i
    \<and> (\<forall>c. flat (cs[i := c]) = a @ chunk_bytes c @ b)"
proof (intro exI conjI allI)
  have i: "i < length cs" using assms by (simp add: chunks_ok_def)
  show "flat cs = flat (take i cs) @ chunk_bytes (cs ! i) @ flat (drop (Suc i) cs)"
    by (subst id_take_nth_drop [OF i]) (simp add: flat_def)
  show "flat (cs[i := c]) = flat (take i cs) @ chunk_bytes c @ flat (drop (Suc i) cs)" for c
    using i by (simp add: upd_conv_take_nth_drop flat_def)
  show "length (flat (take i cs)) = 256 * i"
    using length_flat [of "take i cs"] assms i by (auto simp: chunks_ok_def dest: in_set_takeD)
qed

lemma chunk_length: "chunks_ok cs \<Longrightarrow> i < 1024 \<Longrightarrow> length (chunk_bytes (cs ! i)) = 256"
  by (simp add: chunks_ok_def)

lemma holds_length: "holds ws s \<Longrightarrow> length (m_memoryChunks s) = 1024"
  by (simp add: holds_def chunks_ok_def)

lemma write_chunk_holds:
  assumes "holds ws s" "length fresh = 256" "length ws = ci * 256 + cp" "bs \<noteq> []" "cp + length bs \<le> 256" "ci < 1024"
  shows "holds (ws @ bs) (write_chunk fresh ci cp bs s)"
proof -
  define cs where "cs = m_memoryChunks s"
  define chunk where "chunk = (case cs ! ci of None \<Rightarrow> fresh | Some c \<Rightarrow> c)"
  have ok: "chunks_ok cs" and tk: "take (length ws) (flat cs) = ws" and al: "\<forall>i. i * 256 < length ws \<longrightarrow> cs ! i \<noteq> None"
    using assms(1) by (simp_all add: holds_def cs_def)
  have new: "m_memoryChunks (write_chunk fresh ci cp bs s) = cs[ci := Some (chunk_put cp bs chunk)]"
    by (simp add: write_chunk_def cs_def chunk_def Let_def)
  obtain a b where ab: "flat cs = a @ chunk_bytes (cs ! ci) @ b" "length a = 256 * ci"
    "\<And>c. flat (cs[ci := c]) = a @ chunk_bytes c @ b" using flat_parts [OF ok assms(6)] by blast
  have l: "length chunk = 256"
    using chunk_length [OF ok assms(6)] assms(2) by (auto simp: chunk_def chunk_bytes_def split: option.splits)
  have "length (chunk_bytes (Some (chunk_put cp bs chunk))) = 256"
    using l assms(5) by (simp add: chunk_bytes_def chunk_put_def)
  then have 1: "chunks_ok (cs[ci := Some (chunk_put cp bs chunk)])"
    using ok by (auto simp: chunks_ok_def dest!: set_update_subset_insert [THEN subsetD])
  have "take cp chunk = take cp (chunk_bytes (cs ! ci))"
  proof (cases "cs ! ci")
    case None
    then have "cp = 0" using al assms(3) by (cases cp) auto
    then show ?thesis by simp
  qed (simp add: chunk_def chunk_bytes_def)
  moreover have "ws = a @ take cp (chunk_bytes (cs ! ci))"
    using tk ab(1,2) assms(3,5) chunk_length [OF ok assms(6)] by simp
  ultimately have 2: "take (length (ws @ bs)) (flat (cs[ci := Some (chunk_put cp bs chunk)])) = ws @ bs"
    using ab(2) assms(3,5) l by (simp add: ab(3) chunk_bytes_def chunk_put_def)
  have 3: "cs[ci := Some (chunk_put cp bs chunk)] ! i \<noteq> None" if "i * 256 < length (ws @ bs)" for i
  proof (cases "i = ci")
    case True
    then show ?thesis using assms(6) ok by (simp add: chunks_ok_def)
  next
    case False
    moreover have "i \<le> ci" using that assms(3,5) by simp
    ultimately show ?thesis using al assms(3) by simp
  qed
  show ?thesis unfolding holds_def new using 1 2 3 assms(3,5,6) by simp
qed

lemma write_chunk_positions [simp]:
  "m_memoryWritePos (write_chunk fresh ci cp bs s) = m_memoryWritePos s"
  "m_memoryReadPos (write_chunk fresh ci cp bs s) = m_memoryReadPos s"
  by (simp_all add: write_chunk_def Let_def)

lemma write_loop_holds:
  assumes "holds ws s" "length fresh = 256" "length ws = ci * 256 + cp" "cp < 256" "length ws + length bs \<le> 262144"
  shows "\<exists>s'. write_loop fresh ci cp bs s = Inr s' \<and> holds (ws @ bs) s'
    \<and> m_memoryWritePos s' = m_memoryWritePos s \<and> m_memoryReadPos s' = m_memoryReadPos s"
  using assms
proof (induction fresh ci cp bs s arbitrary: ws rule: write_loop.induct)
  case (1 fresh ci cp bs s)
  show ?case
  proof (cases "bs = []")
    case True
    then show ?thesis using 1(2) by (simp add: write_loop.simps)
  next
    case False
    define n where "n = min (length bs) (256 - cp)"
    define s1 where "s1 = write_chunk fresh ci cp (take n bs) s"
    have ci: "ci < 1024" using 1(4,6) False by (cases bs) auto
    have s1: "holds (ws @ take n bs) s1"
      unfolding s1_def using 1(2,3,4,5) False ci by (intro write_chunk_holds) (auto simp: n_def)
    have step: "write_loop fresh ci cp bs s = write_loop fresh (ci + 1) 0 (drop n bs) s1"
      using False 1(5) ci by (subst write_loop.simps) (simp add: n_def s1_def chunk_consts Let_def)
    show ?thesis
    proof (cases "drop n bs = []")
      case True
      then have "take n bs = bs" by (simp add: n_def)
      with True s1 show ?thesis unfolding step by (simp add: write_loop.simps s1_def)
    next
      case d: False
      then have n: "n = 256 - cp" "n < length bs" by (auto simp: n_def)
      have "length (ws @ take n bs) = (ci + 1) * 256 + 0" using 1(4,5) n by simp
      then have "\<exists>s'. write_loop fresh (ci + 1) 0 (drop n bs) s1 = Inr s' \<and> holds ((ws @ take n bs) @ drop n bs) s'
          \<and> m_memoryWritePos s' = m_memoryWritePos s1 \<and> m_memoryReadPos s' = m_memoryReadPos s1"
        using 1(1) [of n "ws @ take n bs"] False 1(3,5,6) ci s1 n by (simp add: chunk_consts n_def s1_def)
      then show ?thesis unfolding step by (simp add: s1_def)
    qed
  qed
qed

lemma write_loop_full:
  assumes "262144 < ci * 256 + cp + length bs" "cp < 256" "ci \<le> 1024" "bs \<noteq> []"
  shows "\<exists>s'. write_loop fresh ci cp bs s = Inl (Out_Of_Chunks, s')"
  using assms
proof (induction fresh ci cp bs s rule: write_loop.induct)
  case (1 fresh ci cp bs s)
  show ?case
  proof (cases "1024 \<le> ci")
    case True
    then show ?thesis using 1(3,5) by (subst write_loop.simps) (simp add: chunk_consts Let_def)
  next
    case False
    then have n: "256 - cp < length bs" using 1(2,3) by auto
    then have "\<exists>s'. write_loop fresh (ci + 1) 0 (drop (256 - cp) bs)
        (write_chunk fresh ci cp (take (256 - cp) bs) s) = Inl (Out_Of_Chunks, s')"
      using 1(1) [of "256 - cp"] 1(2,3,5) False by (simp add: chunk_consts min_def)
    with False n 1(3,5) show ?thesis by (subst write_loop.simps) (simp add: chunk_consts Let_def min_def)
  qed
qed

lemma read_loop_holds:
  assumes "holds ws s" "ci * 256 + cp + n \<le> length ws" "cp < 256"
  shows "read_loop ci cp n s = Inr (take n (drop (ci * 256 + cp) ws))"
  using assms
proof (induction ci cp n s rule: read_loop.induct)
  case (1 ci cp n s)
  define cs where "cs = m_memoryChunks s"
  show ?case
  proof (cases "n = 0")
    case True
    then show ?thesis by (simp add: read_loop.simps)
  next
    case False
    define m where "m = min n (256 - cp)"
    have ws: "chunks_ok cs" "length ws \<le> 262144" "take (length ws) (flat cs) = ws" "\<And>i. i * 256 < length ws \<Longrightarrow> cs ! i \<noteq> None"
      using 1(2) by (simp_all add: holds_def cs_def)
    have ci: "ci < 1024" using 1(3) ws(2) False by simp
    obtain chunk where c: "cs ! ci = Some chunk" using ws(4) [of ci] 1(3) False by auto
    obtain a b where ab: "flat cs = a @ chunk @ b" "length a = 256 * ci"
      using flat_parts [OF ws(1) ci] c by (auto simp: chunk_bytes_def)
    have lc: "length chunk = 256" using chunk_length [OF ws(1) ci] c by (simp add: chunk_bytes_def)
    have "take m (drop (ci * 256 + cp) ws) = take m (drop cp chunk)"
    proof -
      have "take m (drop (ci * 256 + cp) ws) = take m (drop (ci * 256 + cp) (flat cs))"
        (is "_ = take m (drop ?k _)")
      proof -
        have "take m (drop ?k ws) = take m (drop ?k (take (length ws) (flat cs)))" by (simp only: ws(3))
        also have "\<dots> = take m (drop ?k (flat cs))" using 1(3) by (simp add: drop_take min_def m_def)
        finally show ?thesis .
      qed
      then show ?thesis using ab lc 1(4) by (simp add: m_def)
    qed
    moreover have "read_loop (ci + 1) 0 (n - m) s = Inr (take (n - m) (drop (ci * 256 + cp + m) ws))"
    proof (cases "n - m = 0")
      case True
      then show ?thesis by (simp add: read_loop.simps)
    next
      case d: False
      then have m: "m = 256 - cp" by (auto simp: m_def)
      then have "(ci + 1) * 256 + 0 = ci * 256 + cp + m" using 1(4) by simp
      then show ?thesis using 1(1) [of m] False 1(2,3,4) ci d c by (simp add: chunk_consts m_def cs_def add.commute [of "ci * 256" 256])
    qed
    moreover have "read_loop ci cp n s = andThen (read_loop (ci + 1) 0 (n - m) s) (\<lambda>bs. Inr (take m (drop cp chunk) @ bs))"
      using False 1(4) ci c by (subst read_loop.simps) (simp add: m_def chunk_consts Let_def cs_def)
    moreover have "take n (drop (ci * 256 + cp) ws) = take m (drop (ci * 256 + cp) ws) @ take (n - m) (drop (ci * 256 + cp + m) ws)"
      by (metis (no_types, lifting) add.commute drop_drop le_add_diff_inverse m_def min.cobounded1 take_add)
    ultimately show ?thesis by simp
  qed
qed

subsection \<open>The stream is a queue\<close>

definition stream_written :: "stream \<Rightarrow> u8 list" where
  "stream_written s = take (unat (m_memoryWritePos s)) (flat (m_memoryChunks s))"

definition stream_contents :: "stream \<Rightarrow> u8 list" where
  "stream_contents s = drop (unat (m_memoryReadPos s)) (stream_written s)"

definition stream_room :: "stream \<Rightarrow> nat" where
  "stream_room s = 262144 - unat (m_memoryWritePos s)"

definition stream_ok :: "stream \<Rightarrow> bool" where
  "stream_ok s \<longleftrightarrow> holds (stream_written s) s \<and> length (stream_written s) = unat (m_memoryWritePos s)
     \<and> m_memoryReadPos s \<le> m_memoryWritePos s"

lemma stream_ok_written:
  assumes "holds ws s" "length ws = unat (m_memoryWritePos s)"
  shows "stream_written s = ws"
  using assms by (simp add: stream_written_def holds_def)

lemma stream_ok_size: "stream_ok s \<Longrightarrow> unat (m_memoryWritePos s) \<le> 262144"
  by (auto simp: stream_ok_def holds_def)

lemma stream_avail:
  assumes "stream_ok s"
  shows "unat (GetReadAvailable s) = length (stream_contents s)"
    "length (stream_contents s) = unat (m_memoryWritePos s) - unat (m_memoryReadPos s)"
  using assms by (simp_all add: GetReadAvailable_def stream_contents_def stream_ok_def unat_sub)

lemma unat_of_nat_u32: "n < 2 ^ 32 \<Longrightarrow> unat (of_nat n :: u32) = n"
  by (simp add: unat_of_nat)

lemma stream_new_ok: "stream_ok stream_new" "stream_contents stream_new = []" "stream_room stream_new = 262144"
  by (simp_all add: stream_ok_def stream_new_def stream_contents_def stream_room_def stream_written_def holds_def
      chunks_ok_def chunk_bytes_def MAX_MEMORY_CHUNKS_def)

lemma stream_Write_ok:
  assumes "stream_ok s" "length bs \<le> stream_room s" "length fresh = 256"
  shows "\<exists>s'. stream_Write fresh bs s = Inr s' \<and> stream_ok s' \<and> stream_contents s' = stream_contents s @ bs
    \<and> stream_room s' = stream_room s - length bs"
proof -
  let ?w = "unat (m_memoryWritePos s)"
  have w: "?w \<le> 262144" "?w + length bs \<le> 262144" using assms stream_ok_size [OF assms(1)] by (simp_all add: stream_room_def)
  then obtain s1 where s1: "write_loop fresh (?w div 256) (?w mod 256) bs s = Inr s1" "holds (stream_written s @ bs) s1"
    "m_memoryWritePos s1 = m_memoryWritePos s" "m_memoryReadPos s1 = m_memoryReadPos s"
    using write_loop_holds [of "stream_written s" s fresh "?w div 256" "?w mod 256" bs] assms by (auto simp: stream_ok_def)
  define s' where "s' = s1\<lparr>m_memoryWritePos := m_memoryWritePos s1 + of_nat (length bs)\<rparr>"
  have "unat (of_nat (length bs) :: u32) = length bs" using w by (intro unat_of_nat_u32) simp
  then have pos: "unat (m_memoryWritePos s') = ?w + length bs"
    using w by (simp add: s'_def s1 unat_add_lem [THEN iffD1])
  have h: "holds (stream_written s @ bs) s'" using s1(2) by (simp add: s'_def holds_def)
  then have wr: "stream_written s' = stream_written s @ bs"
    using assms(1) pos by (intro stream_ok_written) (simp_all add: stream_ok_def)
  have r: "unat (m_memoryReadPos s) \<le> ?w" "length (stream_written s) = ?w"
    using assms(1) by (simp_all add: stream_ok_def word_le_nat_alt)
  have "stream_ok s'"
    using h wr pos assms(1) r by (simp add: stream_ok_def s'_def s1 word_le_nat_alt)
  moreover have "stream_contents s' = stream_contents s @ bs"
    using r by (simp add: stream_contents_def wr) (simp add: s'_def s1)
  moreover have "stream_Write fresh bs s = Inr s'"
    using s1(1) by (simp add: stream_Write_def Let_def chunk_consts s'_def)
  ultimately show ?thesis using pos by (simp add: stream_room_def)
qed

lemma stream_Write_full:
  assumes "stream_ok s" "stream_room s < length bs"
  shows "\<exists>e. stream_Write fresh bs s = Inl e"
proof -
  let ?w = "unat (m_memoryWritePos s)"
  have "?w \<le> 262144" "262144 < ?w + length bs" using assms stream_ok_size [OF assms(1)] by (simp_all add: stream_room_def)
  moreover from this have "bs \<noteq> []" by (cases bs) auto
  ultimately obtain s' where "write_loop fresh (?w div 256) (?w mod 256) bs s = Inl (Out_Of_Chunks, s')"
    using write_loop_full [of "?w div 256" "?w mod 256" bs fresh s] by (auto simp: div_le_mono [of ?w 262144 256, simplified])
  then show ?thesis by (auto simp: stream_Write_def Let_def chunk_consts)
qed

lemma stream_read_part:
  assumes "stream_ok s" "unat n \<le> length (stream_contents s)"
  shows "read_loop (unat (m_memoryReadPos s) div 256) (unat (m_memoryReadPos s) mod 256) (unat n) s
    = Inr (take (unat n) (stream_contents s))"
proof -
  have "holds (stream_written s) s" "unat (m_memoryReadPos s) + unat n \<le> length (stream_written s)"
    using assms stream_avail(2) [OF assms(1)] by (auto simp: stream_ok_def word_le_nat_alt)
  then show ?thesis by (subst read_loop_holds) (simp_all add: stream_contents_def)
qed

lemma stream_advance:
  assumes "stream_ok s" "unat n \<le> length (stream_contents s)"
  shows "stream_ok (s\<lparr>m_memoryReadPos := m_memoryReadPos s + n\<rparr>)"
    "stream_contents (s\<lparr>m_memoryReadPos := m_memoryReadPos s + n\<rparr>) = drop (unat n) (stream_contents s)"
proof -
  have "unat (m_memoryReadPos s) + unat n \<le> unat (m_memoryWritePos s)" "unat (m_memoryWritePos s) \<le> 262144"
    using assms stream_avail(2) [OF assms(1)] stream_ok_size [OF assms(1)] by (auto simp: stream_ok_def word_le_nat_alt)
  moreover from this have "unat (m_memoryReadPos s + n) = unat (m_memoryReadPos s) + unat n"
    by (simp add: unat_add_lem [THEN iffD1])
  moreover have "stream_written (s\<lparr>m_memoryReadPos := m_memoryReadPos s + n\<rparr>) = stream_written s"
    "holds ws (s\<lparr>m_memoryReadPos := m_memoryReadPos s + n\<rparr>) = holds ws s" for ws
    by (simp_all add: stream_written_def holds_def)
  ultimately show "stream_ok (s\<lparr>m_memoryReadPos := m_memoryReadPos s + n\<rparr>)"
    "stream_contents (s\<lparr>m_memoryReadPos := m_memoryReadPos s + n\<rparr>) = drop (unat n) (stream_contents s)"
    using assms(1) by (simp_all add: stream_ok_def stream_contents_def word_le_nat_alt add.commute)
qed

lemma stream_Read_ok:
  assumes "stream_ok s" "unat n \<le> length (stream_contents s)"
  shows "stream_Read n True s = Inr (take (unat n) (stream_contents s), s)"
    "stream_Read n False s = Inr (take (unat n) (stream_contents s), s\<lparr>m_memoryReadPos := m_memoryReadPos s + n\<rparr>)"
proof -
  have "\<not> GetReadAvailable s < n" using assms stream_avail(1) by (simp add: word_less_nat_alt)
  then show "stream_Read n True s = Inr (take (unat n) (stream_contents s), s)"
    "stream_Read n False s = Inr (take (unat n) (stream_contents s), s\<lparr>m_memoryReadPos := m_memoryReadPos s + n\<rparr>)"
    using stream_read_part [OF assms] by (simp_all add: stream_Read_def Let_def chunk_consts)
qed

interpretation mud_stream: byte_queue "stream_Write fresh" stream_Peak "\<lambda>n. stream_Read n False" SkipForward GetReadAvailable
    "\<lambda>s. stream_ok s \<and> length fresh = 256" stream_contents stream_room
  for fresh :: "u8 list"
proof
  fix s :: stream and n :: u32 and bs :: "u8 list"
  assume ok: "stream_ok s \<and> length fresh = 256"
  show "length bs \<le> stream_room s \<Longrightarrow> \<exists>s'. stream_Write fresh bs s = Inr s' \<and> (stream_ok s' \<and> length fresh = 256)
      \<and> stream_contents s' = stream_contents s @ bs \<and> stream_room s' = stream_room s - length bs"
    using stream_Write_ok ok by blast
  show "stream_room s < length bs \<Longrightarrow> \<exists>e. stream_Write fresh bs s = Inl e" using stream_Write_full ok by blast
  show "unat (GetReadAvailable s) = length (stream_contents s)" using stream_avail ok by blast
  show "length (stream_contents s) < 2 ^ 32"
    using stream_avail(2) [of s] stream_ok_size [of s] ok by simp
  show "unat n \<le> length (stream_contents s) \<Longrightarrow> stream_Peak n s = Inr (take (unat n) (stream_contents s), s)"
    using stream_Read_ok ok by (simp add: stream_Peak_def)
  show "unat n \<le> length (stream_contents s) \<Longrightarrow> \<exists>s'. stream_Read n False s = Inr (take (unat n) (stream_contents s), s')
      \<and> (stream_ok s' \<and> length fresh = 256) \<and> stream_contents s' = drop (unat n) (stream_contents s) \<and> stream_room s' = stream_room s"
    using stream_Read_ok stream_advance ok by (auto simp: stream_room_def)
  show "length (stream_contents s) < unat n \<Longrightarrow> \<exists>e. stream_Read n False s = Inl e"
    using stream_avail(1) ok by (auto simp: stream_Read_def word_less_nat_alt)
  show "(stream_ok (SkipForward n s) \<and> length fresh = 256) \<and> stream_contents (SkipForward n s) = drop (unat n) (stream_contents s)
      \<and> stream_room (SkipForward n s) = stream_room s"
    using stream_advance [of s n] stream_advance [of s "GetReadAvailable s"] stream_avail(1) [of s] ok
    by (auto simp: SkipForward_def word_less_nat_alt stream_room_def)
qed

end
