(* ===== verification/Mud_Conn.thy ===== *)
theory Mud_Conn
  imports Mud_Stream
begin

text \<open>
  A connection of the game server (\<open>src/hackermud/server/connection.cpp\<close>, \<open>connection.h\<close>) and the handling of what
  arrives on it (\<open>HandlePlayerData\<close> of \<open>main.cpp\<close>). A command is one byte, its length in four bytes and that many
  bytes of data. The socket is a parameter: what \<open>RecvData\<close> delivers, and how many bytes \<open>SendData\<close> says it has sent,
  \<open>None\<close> where they throw. A player is known here by its name and by its pointer back to the connection.
\<close>

datatype connection_state = CONNECTION_WAIT_PROOF | CONNECTION_WAIT_AUTH | CONNECTION_PLAYER | CONNECTION_DISCONNECT

record mud_player =
  m_sName :: "u8 list"
  m_pConnection :: bool

definition player_Disconnect :: "mud_player \<Rightarrow> mud_player" where
  "player_Disconnect p = p\<lparr>m_pConnection := False\<rparr>"

record conn =
  m_pPlayer :: "mud_player option"
  m_connectionState :: connection_state
  m_pSocket :: bool
  m_rxStream :: stream
  m_proofSeed :: "u8 list"
  m_inactivityTimer :: u32

definition CServerConnection :: "u8 list \<Rightarrow> conn" where
  "CServerConnection seed = \<lparr>m_pPlayer = None, m_connectionState = CONNECTION_WAIT_PROOF, m_pSocket = True,
     m_rxStream = stream_new, m_proofSeed = seed, m_inactivityTimer = 0\<rparr>"

definition AcceptProof :: "conn \<Rightarrow> conn" where
  "AcceptProof c = c\<lparr>m_connectionState := CONNECTION_WAIT_AUTH\<rparr>"

definition Authenticate :: "mud_player option \<Rightarrow> conn \<Rightarrow> conn" where
  "Authenticate p c = (case p of None \<Rightarrow> c
     | Some _ \<Rightarrow> c\<lparr>m_pPlayer := p, m_connectionState := CONNECTION_PLAYER\<rparr>)"

definition conn_Disconnect :: "bool \<Rightarrow> conn \<Rightarrow> conn" where
  "conn_Disconnect bFastDisconnect c =
     (let c1 = c\<lparr>m_pSocket := False, m_pPlayer := map_option player_Disconnect (m_pPlayer c),
            m_connectionState := CONNECTION_DISCONNECT\<rparr>
      in if bFastDisconnect then c1\<lparr>m_pPlayer := None\<rparr> else c1)"

definition ResetInactivityTimer :: "conn \<Rightarrow> conn" where
  "ResetInactivityTimer c = c\<lparr>m_inactivityTimer := 0\<rparr>"

definition UpdateInactivityTimer :: "conn \<Rightarrow> conn" where
  "UpdateInactivityTimer c = c\<lparr>m_inactivityTimer := m_inactivityTimer c + 1\<rparr>"

text \<open>
  \<open>SendCommand\<close>: the answer and the bytes given to the socket, if it gets that far. \<open>dataLen + 5\<close> is computed in 32
  bits.
\<close>

definition SendCommand :: "(u8 list \<Rightarrow> u32 option) \<Rightarrow> u8 \<Rightarrow> stream option \<Rightarrow> conn \<Rightarrow> bool \<times> u8 list option" where
  "SendCommand SendData cmdNumber pData c =
     (if \<not> m_pSocket c then (False, None)
      else case pData of None \<Rightarrow> (False, None)
      | Some st \<Rightarrow>
        (let dataLen = GetReadAvailable st in
         case stream_Read dataLen False st of Inl _ \<Rightarrow> (False, None)
         | Inr (bs, _) \<Rightarrow>
           (let msg = cmdNumber # le32 dataLen @ bs in
            case SendData msg of None \<Rightarrow> (False, Some msg)
            | Some bytesTx \<Rightarrow> (bytesTx = dataLen + 5, Some msg))))"

text \<open>\<open>RecvCommand\<close>: nothing, or a command and the rest; an exception of the stream is not caught here.\<close>

definition RecvCommand :: "conn \<Rightarrow> (stream_error \<times> stream) + ((u8 \<times> u8 list) option \<times> conn)" where
  "RecvCommand c =
     (if \<not> m_pSocket c then Inr (None, c)
      else if GetReadAvailable (m_rxStream c) < 5 then Inr (None, c)
      else andThen (stream_Peak 5 (m_rxStream c)) (\<lambda>(cmdData, st).
        let cmdNumber = cmdData ! 0; cmdLength = (of_nat (of_le32 (drop 1 cmdData)) :: u32) in
        if GetReadAvailable st \<ge> cmdLength + 5 then
          andThen (stream_Read cmdLength False (SkipForward 5 st)) (\<lambda>(pData, st1).
            Inr (Some (cmdNumber, pData), c\<lparr>m_rxStream := st1\<rparr>))
        else Inr (None, c)))"

definition ReadStream :: "u8 list \<Rightarrow> u8 list option \<Rightarrow> conn \<Rightarrow> bool \<times> conn" where
  "ReadStream fresh received c = (case received of None \<Rightarrow> (False, c)
     | Some dataChunk \<Rightarrow> (case stream_Write fresh dataChunk (m_rxStream c) of
         Inl (_, st) \<Rightarrow> (False, c\<lparr>m_rxStream := st\<rparr>)
       | Inr st \<Rightarrow> (True, c\<lparr>m_rxStream := st\<rparr>)))"

text \<open>
  \<open>HandlePlayerData\<close>, for every handler of commands. The handler works on the connection and on the rest of the
  world; a command that fails disconnects, and the loop ends when there is no command left to take.
\<close>

definition player_turn :: "(u8 \<Rightarrow> u8 list \<Rightarrow> conn \<times> 'w \<Rightarrow> bool \<times> conn \<times> 'w) \<Rightarrow> conn \<times> 'w
    \<Rightarrow> (stream_error \<times> stream) + ((conn \<times> 'w) + (conn \<times> 'w))" where
  "player_turn DoNetworkCommand = (\<lambda>(c, w).
     andThen (RecvCommand c) (\<lambda>(cmd, c1). case cmd of None \<Rightarrow> Inr (Inr (c1, w))
       | Some (cmdNumber, pCmdData) \<Rightarrow>
         (let (ok, c2, w2) = DoNetworkCommand cmdNumber pCmdData (c1, w)
          in Inr (Inl (if ok then c2 else conn_Disconnect False c2, w2)))))"

definition HandlePlayerData :: "nat \<Rightarrow> (u8 \<Rightarrow> u8 list \<Rightarrow> conn \<times> 'w \<Rightarrow> bool \<times> conn \<times> 'w) \<Rightarrow> u8 list \<Rightarrow> u8 list option
    \<Rightarrow> conn \<times> 'w \<Rightarrow> ((stream_error \<times> stream) + (conn \<times> 'w)) option" where
  "HandlePlayerData fuel DoNetworkCommand fresh received = (\<lambda>(c, w).
     (let (ok, c1) = ReadStream fresh received c in
      if \<not> ok then Some (Inr (conn_Disconnect False c1, w))
      else loop_fuel (player_turn DoNetworkCommand) fuel (ResetInactivityTimer c1, w)))"

end
