(* ===== verification/Mud_Pow.thy ===== *)
theory Mud_Pow
  imports Prelude
begin

unbundle bit_operations_syntax

text \<open>
  The proof of work of the game server (\<open>src/hackermud/server/pow.cpp\<close>, \<open>pow.h\<close>; the client and the proof tool have the
  same code): \<open>Equihash::FindProof\<close> searches for inputs whose hashes cancel out, \<open>Proof::Test\<close> checks them. The hash,
  BLAKE2b of the vendored \<open>blake2b.cpp\<close> with 32 bytes of output, is a parameter: a function from the six words of
  \<open>input\<close> to the eight of \<open>buf\<close>. Counters of the source that count list positions are natural numbers. What a new
  \<open>Tuple\<close> or \<open>Fork\<close> holds before it is written is never read; it is zero here. The measurements printed on the way
  are left out.
\<close>

definition SEED_LENGTH :: nat where "SEED_LENGTH = 4"
definition MAX_NONCE :: u32 where "MAX_NONCE = 0xFFFFF"
definition LIST_LENGTH :: nat where "LIST_LENGTH = 5"
definition FORK_MULTIPLIER :: nat where "FORK_MULTIPLIER = 3"

lemmas pow_consts = SEED_LENGTH_def MAX_NONCE_def LIST_LENGTH_def FORK_MULTIPLIER_def

type_synonym pow_hash = "u32 list \<Rightarrow> u32 list"
type_synonym fork = "u32 \<times> u32"

record pow_proof =
  proof_n :: nat
  proof_k :: nat
  proof_seed :: "u32 list"
  proof_nonce :: u32
  proof_inputs :: "u32 list"

record tuple =
  blocks :: "u32 list"
  reference :: u32

record equihash =
  tupleList :: "tuple list list"
  filledList :: "nat list"
  solutions :: "pow_proof list"
  forks :: "fork list list"
  eq_n :: nat
  eq_k :: nat
  eq_seed :: "u32 list"
  eq_nonce :: u32

definition block_bits :: "nat \<Rightarrow> nat \<Rightarrow> nat" where
  "block_bits n k = n div (k + 1)"

text \<open>The \<open>j\<close>th block of the hash of an input: \<open>buf[j] >> (32 - n / (k + 1))\<close>.\<close>

definition pow_block :: "pow_hash \<Rightarrow> nat \<Rightarrow> nat \<Rightarrow> u32 list \<Rightarrow> u32 \<Rightarrow> u32 \<Rightarrow> nat \<Rightarrow> u32" where
  "pow_block blake2b n k seed nonce i j = drop_bit (32 - block_bits n k) (blake2b (seed @ [nonce, i]) ! j)"

subsection \<open>The test\<close>

definition Proof_Test :: "pow_hash \<Rightarrow> pow_proof \<Rightarrow> bool" where
  "Proof_Test blake2b p =
     list_all (\<lambda>b. b = 0)
       (fold (\<lambda>i bs. map (\<lambda>j. bs ! j XOR pow_block blake2b (proof_n p) (proof_k p) (proof_seed p) (proof_nonce p) i j)
                 [0..<proof_k p + 1])
          (proof_inputs p) (replicate (proof_k p + 1) 0))"

subsection \<open>The search\<close>

definition Equihash_new :: "nat \<Rightarrow> nat \<Rightarrow> u32 list \<Rightarrow> equihash" where
  "Equihash_new n k s = \<lparr>tupleList = [], filledList = [], solutions = [], forks = [], eq_n = n, eq_k = k, eq_seed = s,
     eq_nonce = 0\<rparr>"

definition InitializeMemory :: "equihash \<Rightarrow> equihash" where
  "InitializeMemory e =
     (let tuple_n = 2 ^ block_bits (eq_n e) (eq_k e);
          default_tuple = \<lparr>blocks = replicate (eq_k e) 0, reference = 0\<rparr>
      in e\<lparr>tupleList := replicate tuple_n (replicate LIST_LENGTH default_tuple), filledList := replicate tuple_n 0,
           solutions := [], forks := []\<rparr>)"

definition fill_turn :: "pow_hash \<Rightarrow> u32 \<Rightarrow> equihash \<Rightarrow> equihash" where
  "fill_turn blake2b i e =
     (let blk = pow_block blake2b (eq_n e) (eq_k e) (eq_seed e) (eq_nonce e) i;
          index = unat (blk 0);
          cnt = filledList e ! index
      in if cnt < LIST_LENGTH then
           e\<lparr>tupleList := (tupleList e)[index := (tupleList e ! index)
                  [cnt := \<lparr>blocks = map blk [1..<eq_k e + 1], reference = i\<rparr>]],
             filledList := (filledList e)[index := cnt + 1]\<rparr>
         else e)"

definition FillMemory :: "pow_hash \<Rightarrow> nat \<Rightarrow> equihash \<Rightarrow> equihash" where
  "FillMemory blake2b len e = fold (\<lambda>i. fill_turn blake2b (of_nat i)) [0..<len] e"

fun ResolveTreeByLevel :: "fork list list \<Rightarrow> fork \<Rightarrow> nat \<Rightarrow> u32 list" where
  "ResolveTreeByLevel fs (ref1, ref2) 0 = [ref1, ref2]"
| "ResolveTreeByLevel fs (ref1, ref2) (Suc level) =
     ResolveTreeByLevel fs (fs ! level ! unat ref1) level @ ResolveTreeByLevel fs (fs ! level ! unat ref2) level"

definition ResolveTree :: "fork list list \<Rightarrow> fork \<Rightarrow> u32 list" where
  "ResolveTree fs f = ResolveTreeByLevel fs f (length fs)"

text \<open>The local variables of \<open>ResolveCollisions\<close> and the body of its three loops.\<close>

record collisions =
  newForks :: "fork list"
  collisionList :: "tuple list list"
  newFilledList :: "nat list"
  newColls :: nat
  found :: "pow_proof list"

definition resolve_pair :: "bool \<Rightarrow> equihash \<Rightarrow> nat \<times> nat \<times> nat \<Rightarrow> collisions \<Rightarrow> collisions" where
  "resolve_pair store e = (\<lambda>(i, j, m) c.
     (let t1 = tupleList e ! i ! j; t2 = tupleList e ! i ! m;
          newIndex = unat (blocks t1 ! 0 XOR blocks t2 ! 0);
          newFork = (reference t1, reference t2);
          newBlocks = length (blocks (tupleList e ! 0 ! 0)) - 1;
          maxNewCollisions = length (tupleList e) * FORK_MULTIPLIER
      in if store then
           (if newIndex = 0 then
              c\<lparr>found := found c @ [\<lparr>proof_n = eq_n e, proof_k = eq_k e, proof_seed = eq_seed e, proof_nonce = eq_nonce e,
                   proof_inputs = ResolveTree (forks e) newFork\<rparr>]\<rparr>
            else c)
         else if newFilledList c ! newIndex < LIST_LENGTH \<and> newColls c < maxNewCollisions then
           c\<lparr>collisionList := (collisionList c)[newIndex := (collisionList c ! newIndex)
                [newFilledList c ! newIndex :=
                   \<lparr>blocks = map (\<lambda>l. blocks t1 ! (l + 1) XOR blocks t2 ! (l + 1)) [0..<newBlocks],
                    reference = of_nat (newColls c)\<rparr>]],
             newForks := (newForks c)[newColls c := newFork],
             newFilledList := (newFilledList c)[newIndex := newFilledList c ! newIndex + 1],
             newColls := newColls c + 1\<rparr>
         else c))"

definition resolve_pairs :: "equihash \<Rightarrow> (nat \<times> nat \<times> nat) list" where
  "resolve_pairs e = concat (map (\<lambda>i. concat (map (\<lambda>j. map (\<lambda>m. (i, j, m)) [j + 1..<filledList e ! i])
     [0..<filledList e ! i])) [0..<length (tupleList e)])"

definition ResolveCollisions :: "bool \<Rightarrow> equihash \<Rightarrow> equihash" where
  "ResolveCollisions store e =
     (let tableLength = length (tupleList e);
          newBlocks = length (blocks (tupleList e ! 0 ! 0)) - 1;
          c = fold (resolve_pair store e) (resolve_pairs e)
            \<lparr>newForks = replicate (tableLength * FORK_MULTIPLIER) (0, 0),
             collisionList = replicate tableLength (replicate LIST_LENGTH \<lparr>blocks = replicate newBlocks 0, reference = 0\<rparr>),
             newFilledList = replicate tableLength 0, newColls = 0, found = solutions e\<rparr>
      in e\<lparr>forks := forks e @ [newForks c], tupleList := collisionList c, filledList := newFilledList c,
           solutions := found c\<rparr>)"

text \<open>The check for an input that is used twice: sort, and compare neighbours.\<close>

definition has_dup :: "u32 list \<Rightarrow> bool" where
  "has_dup inputs = (let vec = sort inputs in list_ex (\<lambda>i. vec ! i = vec ! (i + 1)) [0..<length vec - 1])"

definition search_nonce :: "pow_hash \<Rightarrow> equihash \<Rightarrow> equihash" where
  "search_nonce blake2b e =
     fold (\<lambda>i. ResolveCollisions (i = eq_k e)) [1..<eq_k e + 1]
       (FillMemory blake2b (4 * 2 ^ (block_bits (eq_n e) (eq_k e) - 1)) (InitializeMemory e))"

function find_loop :: "pow_hash \<Rightarrow> equihash \<Rightarrow> pow_proof" where
  "find_loop blake2b e =
     (if eq_nonce e < MAX_NONCE then
        let e1 = search_nonce blake2b (e\<lparr>eq_nonce := eq_nonce e + 1\<rparr>) in
        case find (\<lambda>p. \<not> has_dup (proof_inputs p)) (solutions e1) of
          Some p \<Rightarrow> p
        | None \<Rightarrow> find_loop blake2b (e\<lparr>eq_nonce := eq_nonce e + 1\<rparr>)
      else \<lparr>proof_n = eq_n e, proof_k = eq_k e, proof_seed = eq_seed e, proof_nonce = eq_nonce e, proof_inputs = []\<rparr>)"
  by pat_completeness auto
termination
proof (relation "measure (\<lambda>(_, e). unat MAX_NONCE - unat (eq_nonce e))", goal_cases)
  case (2 blake2b e)
  then have "unat (eq_nonce e + 1) = unat (eq_nonce e) + 1" "unat (eq_nonce e) < unat MAX_NONCE"
    by (simp_all add: word_less_nat_alt MAX_NONCE_def unat_add_lem [THEN iffD1])
  then show ?case by simp
qed simp

declare find_loop.simps [simp del]

definition FindProof :: "pow_hash \<Rightarrow> equihash \<Rightarrow> pow_proof" where
  "FindProof blake2b e = find_loop blake2b (e\<lparr>eq_nonce := 1\<rparr>)"

end
