(* ===== verification/Hex.thy ===== *)
theory Hex
  imports Prelude
begin

unbundle bit_operations_syntax

text \<open>
  Lines of text and hexadecimal digits, as the tools of \<open>src/hackermud\<close> and the service of \<open>src/babyint\<close> read them:
  \<open>AsciiToHex\<close>, which they have in common, and what they use of the library, \<open>fgets\<close>, \<open>atol\<close> and \<open>%02x\<close>.
\<close>

text \<open>The digits of the library's \<open>%02x\<close>.\<close>

definition hex_digit :: "u8 \<Rightarrow> u8" where
  "hex_digit v = (if v < 10 then 48 + v else 87 + v)"

definition print_02x :: "u8 \<Rightarrow> u8 list" where
  "print_02x b = [hex_digit (drop_bit 4 b), hex_digit (b AND 15)]"

definition print_hex :: "u8 list \<Rightarrow> u8 list" where
  "print_hex bs = concat (map print_02x bs)"

definition AsciiToHex :: "u8 \<Rightarrow> u8" where
  "AsciiToHex c =
     (if 48 \<le> c \<and> c \<le> 57 then c - 48
      else if 97 \<le> c \<and> c \<le> 102 then (c - 97) + 10
      else if 65 \<le> c \<and> c \<le> 70 then (c - 65) + 10
      else 0)"

text \<open>
  \<open>fgets\<close> with a buffer of \<open>n\<close> bytes: the line, with its end if it fits and is there, and the rest of the input.
\<close>

definition fgets :: "nat \<Rightarrow> u8 list \<Rightarrow> (u8 list \<times> u8 list) option" where
  "fgets n input = (if input = [] then None
     else let line = take (n - 1) (takeWhile (\<lambda>c. c \<noteq> 10) input @ (if 10 \<in> set input then [10] else []))
       in Some (line, drop (length line) input))"

text \<open>\<open>atol\<close>: blanks, a sign, digits; the result is a 64-bit number, the nearest one if it does not fit.\<close>

definition is_space :: "u8 \<Rightarrow> bool" where
  "is_space c \<longleftrightarrow> c = 32 \<or> 9 \<le> c \<and> c \<le> 13"

fun digits_value :: "int \<Rightarrow> u8 list \<Rightarrow> int" where
  "digits_value v [] = v"
| "digits_value v (c # cs) = (if 48 \<le> c \<and> c \<le> 57 then digits_value (10 * v + (uint c - 48)) cs else v)"

definition atol :: "u8 list \<Rightarrow> int" where
  "atol str = (let v = (case dropWhile is_space str of [] \<Rightarrow> 0
       | c # cs \<Rightarrow> if c = 45 then - digits_value 0 cs else if c = 43 then digits_value 0 cs else digits_value 0 (c # cs))
     in max (- (2 ^ 63)) (min (2 ^ 63 - 1) v))"

lemma AsciiToHex_digit:
  assumes "v < 16"
  shows "AsciiToHex (hex_digit v) = v" "hex_digit v \<noteq> 0" "hex_digit v \<noteq> 10"
proof -
  have "unat v < 16" using assms by (simp add: word_less_nat_alt)
  then have "unat v \<in> {0, 1, 2, 3, 4, 5, 6, 7, 8, 9, 10, 11, 12, 13, 14, 15}" by (simp, arith)
  moreover have "v = of_nat (unat v)" by simp
  ultimately have "v = 0 \<or> v = 1 \<or> v = 2 \<or> v = 3 \<or> v = 4 \<or> v = 5 \<or> v = 6 \<or> v = 7 \<or> v = 8 \<or> v = 9 \<or> v = 10
      \<or> v = 11 \<or> v = 12 \<or> v = 13 \<or> v = 14 \<or> v = 15" by (elim insertE emptyE) simp_all
  then show "AsciiToHex (hex_digit v) = v" "hex_digit v \<noteq> 0" "hex_digit v \<noteq> 10"
    by (elim disjE; simp add: AsciiToHex_def hex_digit_def)+
qed

lemma nibbles:
  fixes b :: u8
  shows "drop_bit 4 b < 16" "b AND 15 < 16" "push_bit 4 (drop_bit 4 b) OR (b AND 15) = b"
proof -
  have "unat (drop_bit 4 b) = unat b div 16" by (simp add: drop_bit_eq_div unat_div)
  then show "drop_bit 4 b < 16" using unat_u8_less [of b] by (simp add: word_less_nat_alt less_mult_imp_div_less)
  have m: "b AND 15 = take_bit 4 b" by (simp add: take_bit_eq_mask mask_eq_exp_minus_1)
  have "unat (take_bit 4 b) = unat b mod 16" by (simp add: take_bit_eq_mod unat_mod)
  then show "b AND 15 < 16" by (simp add: m word_less_nat_alt)
  show "push_bit 4 (drop_bit 4 b) OR (b AND 15) = b"
    unfolding m by (rule bit_eqI) (auto simp: bit_or_iff bit_push_bit_iff bit_drop_bit_eq bit_take_bit_iff)
qed

lemma print_hex_chars: "length (print_hex bs) = 2 * length bs" "c \<in> set (print_hex bs) \<Longrightarrow> c \<noteq> 0 \<and> c \<noteq> 10"
  using AsciiToHex_digit [OF nibbles(1)] AsciiToHex_digit [OF nibbles(2)]
  by (induction bs) (auto simp: print_hex_def print_02x_def)

lemma fgets_line:
  assumes "10 \<notin> set cs" "length cs + 1 \<le> n - 1"
  shows "fgets n (cs @ 10 # rest) = Some (cs @ [10], rest)"
proof -
  have "takeWhile (\<lambda>c. c \<noteq> 10) (cs @ 10 # rest) = cs"
    using assms(1) by (induction cs) auto
  then show ?thesis using assms(2) by (simp add: fgets_def)
qed

lemma fgets_print: "2 * length bs + 1 \<le> n - 1 \<Longrightarrow> fgets n (print_hex bs @ 10 # rest) = Some (print_hex bs @ [10], rest)"
  using print_hex_chars(2) by (intro fgets_line) (auto simp: print_hex_chars(1))

end
