(* ===== verification/Mud_Login.thy ===== *)
theory Mud_Login
  imports Mud_Conn Mud_Pow Hex
begin

unbundle bit_operations_syntax

text \<open>
  How a connection of the game server passes the proof of work: the challenge of \<open>AcceptNewConnection\<close> and
  \<open>NWCSendAuthProof\<close>, the client that shows it and sends what is typed (\<open>GetProofOfWork\<close> of
  \<open>src/hackermud/client/main.cpp\<close>), the tool that computes the answer (\<open>src/hackermud/proof_tool/main.cpp\<close>), the
  server's check (\<open>NWCProofData\<close>) and its gate for commands (\<open>DoNetworkCommand\<close>). Text is a list of bytes; a line is
  what \<open>fgets\<close> delivers, with the end of the line; \<open>None\<close> is the end of the input. The handlers of the other commands
  are a parameter.
\<close>

definition PROOF_OF_WORK_N :: nat where "PROOF_OF_WORK_N = 105"
definition PROOF_OF_WORK_K :: nat where "PROOF_OF_WORK_K = 4"
definition NWC_AUTH_PROOF :: u8 where "NWC_AUTH_PROOF = 29"
definition NWC_PROOF_DATA :: u8 where "NWC_PROOF_DATA = 15"
definition NWC_AUTH_REQUEST :: u8 where "NWC_AUTH_REQUEST = 0"
definition NWC_CREATE_PLAYER :: u8 where "NWC_CREATE_PLAYER = 14"
definition NWC_MAX_REQUESTS :: u8 where "NWC_MAX_REQUESTS = 16"

subsection \<open>The challenge\<close>

text \<open>The answer, the connection and the bytes given to the socket; \<open>Inl\<close> is an exception of the stream.\<close>

definition NWCSendAuthProof :: "(u8 list \<Rightarrow> u32 option) \<Rightarrow> u8 list \<Rightarrow> u8 list \<Rightarrow> conn
    \<Rightarrow> (stream_error \<times> stream) + (conn \<times> u8 list option)" where
  "NWCSendAuthProof SendData fresh pProofSeed c =
     (if length pProofSeed \<noteq> 16 then Inr (c, None)
      else andThen (stream_Write fresh [of_nat PROOF_OF_WORK_K] stream_new) (\<lambda>s1.
        andThen (stream_Write fresh [of_nat PROOF_OF_WORK_N] s1) (\<lambda>s2.
        andThen (stream_Write fresh pProofSeed s2) (\<lambda>s3.
          let (ok, sent) = SendCommand SendData NWC_AUTH_PROOF (Some s3) c
          in Inr (if ok then c else conn_Disconnect False c, sent)))))"

text \<open>A new connection with 16 random bytes, and what it is sent.\<close>

definition accept_one :: "(u8 list \<Rightarrow> u32 option) \<Rightarrow> u8 list \<Rightarrow> u8 list \<Rightarrow> (stream_error \<times> stream) + (conn \<times> u8 list option)" where
  "accept_one SendData fresh proofSeed = NWCSendAuthProof SendData fresh proofSeed (CServerConnection proofSeed)"

subsection \<open>Hexadecimal text\<close>

text \<open>The loop of \<open>ConvertHexStringToData\<close>: the position it stops at and the bytes of \<open>pTemp\<close>.\<close>

fun hex_loop :: "u8 list \<Rightarrow> nat \<Rightarrow> u8 list \<Rightarrow> nat \<times> u8 list" where
  "hex_loop [] pos pTemp = (pos, pTemp)"
| "hex_loop (c # str) pos pTemp =
     (if c \<noteq> 0 \<and> c \<noteq> 10 then
        hex_loop str (pos + 1) (if pos mod 2 = 0 then pTemp[pos div 2 := AsciiToHex c]
          else pTemp[pos div 2 := push_bit 4 (pTemp ! (pos div 2)) OR AsciiToHex c])
      else (pos, pTemp))"

definition ConvertHexStringToData :: "u8 list \<Rightarrow> u8 list option" where
  "ConvertHexStringToData str =
     (let (pos, pTemp) = hex_loop str 0 (replicate (length (takeWhile (\<lambda>c. c \<noteq> 0) str) div 2 + 1) 0)
      in if pos mod 2 = 1 then None else Some (take (pos div 2) pTemp))"

subsection \<open>The tool\<close>

text \<open>A word of four bytes, the first the lowest, as a load through a cast pointer reads it.\<close>

definition load32 :: "u8 list \<Rightarrow> nat \<Rightarrow> u32" where
  "load32 bs i = of_nat (of_le32 (drop i bs))"

definition tool_GetProofOfWork :: "u8 list \<Rightarrow> equihash option" where
  "tool_GetProofOfWork input =
     (case fgets 512 input of None \<Rightarrow> None
      | Some (szLine, _) \<Rightarrow> (case ConvertHexStringToData szLine of None \<Rightarrow> None
        | Some pHexData \<Rightarrow>
          if length pHexData \<noteq> 18 then None
          else Some (Equihash_new (unat (pHexData ! 1)) (unat (pHexData ! 0))
             [load32 pHexData 2, load32 pHexData 6, load32 pHexData 10, load32 pHexData 14])))"

definition CalculateProofOfWork :: "pow_hash \<Rightarrow> equihash \<Rightarrow> u8 list" where
  "CalculateProofOfWork blake2b g_pProofHash =
     (let oSolution = FindProof blake2b g_pProofHash;
          powInputs = take 16 (proof_inputs oSolution) @ replicate (16 - length (proof_inputs oSolution)) 0
      in print_hex (concat (map le32 (proof_nonce oSolution # powInputs))))"

text \<open>\<open>main\<close> of the tool: the answer it prints. After a bad input it goes on with a null pointer, \<open>None\<close>.\<close>

definition tool_main :: "pow_hash \<Rightarrow> u8 list \<Rightarrow> u8 list option" where
  "tool_main blake2b input = map_option (CalculateProofOfWork blake2b) (tool_GetProofOfWork input)"

subsection \<open>The client\<close>

text \<open>
  What the client has shown, and the bytes it has given to the socket. \<open>user\<close> is what is typed after the challenge is
  shown.
\<close>

definition client_GetProofOfWork :: "u8 list \<Rightarrow> (u8 list \<Rightarrow> u32 option) \<Rightarrow> (u8 list \<Rightarrow> u8 list) \<Rightarrow> u8 list option \<Rightarrow> conn
    \<Rightarrow> (stream_error \<times> stream) + (bool \<times> conn \<times> u8 list option)" where
  "client_GetProofOfWork fresh SendData user received c =
     (let (ok, c1) = ReadStream fresh received c in
      if \<not> ok then Inr (False, c1, None)
      else andThen (RecvCommand c1) (\<lambda>(cmd, c2). case cmd of None \<Rightarrow> Inr (False, c2, None)
        | Some (cmdNumber, pCmdData) \<Rightarrow>
          if cmdNumber \<noteq> NWC_AUTH_PROOF \<or> length pCmdData \<noteq> 18 then Inr (False, c2, None)
          else case fgets 511 (user (print_hex pCmdData)) of None \<Rightarrow> Inr (False, c2, None)
            | Some (szLine, _) \<Rightarrow> (case ConvertHexStringToData szLine of None \<Rightarrow> Inr (False, c2, None)
              | Some pHexData \<Rightarrow>
                if length pHexData \<noteq> 17 * 4 then Inr (False, c2, None)
                else let msg = NWC_PROOF_DATA # le32 (of_nat (length pHexData)) @ pHexData in
                  if \<not> m_pSocket c2 then Inr (False, c2, None)
                  else Inr (SendData msg = Some (of_nat (length msg)), c2, Some msg))))"

subsection \<open>The server\<close>

definition NWCProofData :: "pow_hash \<Rightarrow> u8 list \<Rightarrow> conn \<Rightarrow> bool \<times> conn" where
  "NWCProofData blake2b pData c =
     (if m_connectionState c \<noteq> CONNECTION_WAIT_PROOF then (False, c)
      else if length pData \<noteq> 17 * 4 then (False, c)
      else let oTestSolution = \<lparr>proof_n = PROOF_OF_WORK_N, proof_k = PROOF_OF_WORK_K,
             proof_seed = map (\<lambda>i. load32 (m_proofSeed c) (4 * i)) [0..<4], proof_nonce = load32 pData 0,
             proof_inputs = map (\<lambda>i. load32 pData (4 + 4 * i)) [0..<16]\<rparr>
        in if \<not> Proof_Test blake2b oTestSolution then (False, c) else (True, AcceptProof c))"

datatype nwc_handler = NWCAuth | NWCSay | NWCWall | NWCDirection | NWCGetItem | NWCDropItem | NWCLogout | NWCEquipItem
  | NWCUnequipItem | NWCRunScript | NWCAttack | NWCPlayerFlee | NWCPlayerFinger | NWCCreatePlayer | NWCProofData_handler

definition g_cmdTable :: "nwc_handler list" where
  "g_cmdTable = [NWCAuth, NWCSay, NWCWall, NWCDirection, NWCGetItem, NWCDropItem, NWCLogout, NWCEquipItem, NWCUnequipItem,
     NWCRunScript, NWCAttack, NWCPlayerFlee, NWCRunScript, NWCPlayerFinger, NWCCreatePlayer, NWCProofData_handler]"

type_synonym 'w handler = "u8 list \<Rightarrow> conn \<times> 'w \<Rightarrow> bool \<times> conn \<times> 'w"

definition run_handler :: "pow_hash \<Rightarrow> (nwc_handler \<Rightarrow> 'w handler) \<Rightarrow> nwc_handler \<Rightarrow> 'w handler" where
  "run_handler blake2b others h pData = (\<lambda>(c, w).
     if h = NWCProofData_handler then (let (ok, c1) = NWCProofData blake2b pData c in (ok, c1, w))
     else others h pData (c, w))"

definition DoNetworkCommand :: "pow_hash \<Rightarrow> (nwc_handler \<Rightarrow> 'w handler) \<Rightarrow> u8 \<Rightarrow> 'w handler" where
  "DoNetworkCommand blake2b others cmdNumber pData = (\<lambda>(c, w).
     if cmdNumber \<ge> NWC_MAX_REQUESTS then (False, c, w)
     else if m_connectionState c = CONNECTION_WAIT_PROOF \<and> cmdNumber \<noteq> NWC_PROOF_DATA then (False, c, w)
     else if m_connectionState c = CONNECTION_WAIT_AUTH \<and> cmdNumber \<noteq> NWC_AUTH_REQUEST \<and> cmdNumber \<noteq> NWC_CREATE_PLAYER
       then (False, c, w)
     else if m_connectionState c = CONNECTION_DISCONNECT then (False, c, w)
     else run_handler blake2b others (g_cmdTable ! unat cmdNumber) pData (c, w))"

end
