(* ===== verification/Mud_Conn_Props.thy ===== *)
theory Mud_Conn_Props
  imports Mud_Conn
begin

text \<open>
  What arrives on a connection of the game server: whatever pieces the bytes come in, the commands in them are handed on
  in their order, each once, when its last byte is there.
\<close>

subsection \<open>Taking a command from a queue\<close>

lemma unat_5: "unat (5 :: u32) = 5"
  by simp

context byte_queue
begin

lemma take_part:
  assumes "ok s" "5 + unat n \<le> length (contents s)"
  shows "\<exists>s'. get n (skip 5 s) = Inr (take (unat n) (drop 5 (contents s)), s') \<and> ok s'
    \<and> contents s' = drop (5 + unat n) (contents s) \<and> room s' = room s"
  using assms(2) skip_contents [OF assms(1), of 5, unfolded unat_5] get_contents [of "skip 5 s" n] by (auto simp: add.commute)

lemma take_part_short:
  assumes "ok s" "length (contents s) < 5 + unat n" "0 < n"
  shows "\<exists>e. get n (skip 5 s) = Inl e"
proof (cases "length (contents s) \<le> 5")
  case True
  then show ?thesis using skip_contents [OF assms(1), of 5, unfolded unat_5] get_short [of "skip 5 s" n] assms(3)
    by (simp add: word_gt_0 unat_gt_0)
next
  case False
  then show ?thesis using assms(2) skip_contents [OF assms(1), of 5, unfolded unat_5] get_short [of "skip 5 s" n] by auto
qed

end

subsection \<open>The commands in a text of bytes\<close>

definition frame_len :: "u8 list \<Rightarrow> nat" where
  "frame_len bs = of_le32 (drop 1 bs)"

function frames :: "u8 list \<Rightarrow> (u8 \<times> u8 list) list \<times> u8 list" where
  "frames bs =
     (if length bs < 5 \<or> length bs < frame_len bs + 5 then ([], bs)
      else let (fs, r) = frames (drop (frame_len bs + 5) bs) in ((bs ! 0, take (frame_len bs) (drop 5 bs)) # fs, r))"
  by pat_completeness auto
termination by (relation "measure length") auto

declare frames.simps [simp del]

text \<open>No length is so large that adding the five bytes of the header wraps around.\<close>

function frames_ok :: "u8 list \<Rightarrow> bool" where
  "frames_ok bs =
     (if length bs < 5 then True
      else if 2 ^ 32 \<le> frame_len bs + 5 then False
      else if length bs < frame_len bs + 5 then True
      else frames_ok (drop (frame_len bs + 5) bs))"
  by pat_completeness auto
termination by (relation "measure length") auto

declare frames_ok.simps [simp del]

definition frame :: "u8 \<times> u8 list \<Rightarrow> u8 list" where
  "frame = (\<lambda>(k, d). k # le32 (of_nat (length d)) @ d)"

lemma frame_len_bytes:
  assumes "5 \<le> length bs"
  shows "frame_len bs = unat (bs ! 1) + 256 * unat (bs ! 2) + 65536 * unat (bs ! 3) + 16777216 * unat (bs ! 4)"
proof -
  have "drop 1 bs ! 0 = bs ! 1" "drop 1 bs ! 1 = bs ! 2" "drop 1 bs ! 2 = bs ! 3" "drop 1 bs ! 3 = bs ! 4"
    using assms by (simp_all add: eval_nat_numeral)
  then show ?thesis unfolding frame_len_def of_le32_def by (simp only:)
qed

lemma of_le32_take:
  assumes "5 \<le> length bs"
  shows "of_le32 (drop 1 (take 5 bs)) = frame_len bs"
proof -
  have "frame_len (take 5 bs) = frame_len bs" using assms by (simp add: frame_len_bytes)
  then show ?thesis by (simp only: frame_len_def)
qed

lemma of_le32_less: "of_le32 bs < 2 ^ 32"
proof -
  have "unat (bs ! i) \<le> 255" for i using unat_u8_less [of "bs ! i"] by linarith
  from this [of 0] this [of 1] this [of 2] this [of 3] show ?thesis by (simp add: of_le32_def)
qed

lemma frame_len_append: "5 \<le> length a \<Longrightarrow> frame_len (a @ b) = frame_len a"
  by (simp add: frame_len_bytes nth_append)

lemma frames_append:
  "frames (a @ b) = (let (f1, r1) = frames a; (f2, r2) = frames (r1 @ b) in (f1 @ f2, r2))"
proof (induction a rule: frames.induct)
  case (1 a)
  show ?case
  proof (cases "length a < 5 \<or> length a < frame_len a + 5")
    case True
    then have "frames a = ([], a)" by (simp add: frames.simps)
    then show ?thesis by (simp add: case_prod_beta)
  next
    case False
    then have l: "frame_len (a @ b) = frame_len a" "\<not> length (a @ b) < 5" "\<not> length (a @ b) < frame_len a + 5"
      using frame_len_append by auto
    then have "frames (a @ b) = (let (fs, r) = frames (drop (frame_len a + 5) a @ b) in ((a ! 0, take (frame_len a) (drop 5 a)) # fs, r))"
      using False by (subst frames.simps) (auto simp: nth_append case_prod_beta)
    then show ?thesis using 1 [OF False] False frames.simps [of a] by (simp add: case_prod_beta Let_def)
  qed
qed

lemma frames_ok_append:
  "frames_ok (a @ b) \<Longrightarrow> frames_ok a \<and> frames_ok (snd (frames a) @ b)"
proof (induction a rule: frames.induct)
  case (1 a)
  show ?case
  proof (cases "length a < 5 \<or> length a < frame_len a + 5")
    case True
    then have "frames a = ([], a)" by (simp add: frames.simps)
    moreover have "frames_ok a"
    proof (cases "length a < 5")
      case False
      then have "frame_len a + 5 < 2 ^ 32"
        using 1(2) frame_len_append [of a b] frames_ok.simps [of "a @ b"] by (auto split: if_splits)
      with True False show ?thesis by (subst frames_ok.simps) simp
    qed (simp add: frames_ok.simps)
    ultimately show ?thesis using 1(2) by simp
  next
    case False
    then have l: "frame_len (a @ b) = frame_len a" using frame_len_append by auto
    then have "frame_len a + 5 < 2 ^ 32" "frames_ok (drop (frame_len a + 5) a @ b)"
      using 1(2) False frames_ok.simps [of "a @ b"] by (simp_all split: if_splits)
    then show ?thesis using 1(1) [OF False] False frames.simps [of a] frames_ok.simps [of a] by (simp add: case_prod_beta)
  qed
qed

lemma frame_len_frame: "length d < 2 ^ 32 \<Longrightarrow> frame_len (frame (k, d) @ bs) = length d"
proof -
  assume "length d < 2 ^ 32"
  then have "of_le32 (le32 (of_nat (length d))) = length d" by (rule of_le32_le32)
  moreover have "frame_len (frame (k, d) @ bs) = of_le32 (le32 (of_nat (length d)))"
    by (simp add: frame_len_def frame_def of_le32_def nth_append le32_def)
  ultimately show ?thesis by simp
qed

lemma frames_frame:
  assumes "length d + 5 < 2 ^ 32"
  shows "frames (frame (k, d) @ bs) = (let (fs, r) = frames bs in ((k, d) # fs, r))"
    "frames_ok (frame (k, d) @ bs) = frames_ok bs"
proof -
  have l: "frame_len (frame (k, d) @ bs) = length d" using assms by (intro frame_len_frame) simp
  have "length (frame (k, d) @ bs) = length d + 5 + length bs" "(frame (k, d) @ bs) ! 0 = k"
    "drop 5 (frame (k, d) @ bs) = d @ bs" "drop (length d + 5) (frame (k, d) @ bs) = bs"
    by (simp_all add: frame_def le32_def drop_Cons' eval_nat_numeral)
  with l assms show "frames (frame (k, d) @ bs) = (let (fs, r) = frames bs in ((k, d) # fs, r))"
    "frames_ok (frame (k, d) @ bs) = frames_ok bs"
    using frames.simps [of "frame (k, d) @ bs"] frames_ok.simps [of "frame (k, d) @ bs"]
    by (simp_all del: length_append drop_append)
qed

lemma frames_frames:
  "\<forall>c \<in> set cmds. length (snd c) + 5 < 2 ^ 32 \<Longrightarrow>
    frames (concat (map frame cmds)) = (cmds, []) \<and> frames_ok (concat (map frame cmds))"
proof (induction cmds)
  case Nil
  then show ?case by (simp add: frames.simps frames_ok.simps)
next
  case (Cons c cmds)
  then show ?case using frames_frame [of "snd c" "fst c"] by simp
qed

subsection \<open>One command\<close>

abbreviation rx :: "conn \<Rightarrow> u8 list" where
  "rx c \<equiv> stream_contents (m_rxStream c)"

definition conn_good :: "conn \<Rightarrow> bool" where
  "conn_good c \<longleftrightarrow> m_pSocket c \<and> stream_ok (m_rxStream c)"

lemma some_chunk: "length (replicate 256 (0 :: u8)) = 256"
  by simp

lemma recv_header:
  assumes "conn_good c" "5 \<le> length (rx c)"
  shows "RecvCommand c =
    (if (of_nat (frame_len (rx c)) + 5 :: u32) \<le> GetReadAvailable (m_rxStream c) then
       andThen (stream_Read (of_nat (frame_len (rx c))) False (SkipForward 5 (m_rxStream c)))
         (\<lambda>(pData, st). Inr (Some (rx c ! 0, pData), c\<lparr>m_rxStream := st\<rparr>))
     else Inr (None, c))"
proof -
  have ok: "stream_ok (m_rxStream c)" "m_pSocket c" using assms(1) by (simp_all add: conn_good_def)
  have "\<not> GetReadAvailable (m_rxStream c) < 5"
    using stream_avail(1) [OF ok(1)] assms(2) unfolding word_less_nat_alt unat_5 by simp
  moreover have "stream_Peak 5 (m_rxStream c) = Inr (take 5 (rx c), m_rxStream c)"
    using stream_Read_ok(1) [OF ok(1), of 5] assms(2) unfolding unat_5 by (simp add: stream_Peak_def)
  moreover have "take 5 (rx c) ! 0 = rx c ! 0" using assms(2) by simp
  ultimately show ?thesis
    using ok(2) of_le32_take [OF assms(2)] unfolding RecvCommand_def by (simp only: andThen_simps Let_def case_prod_conv if_False not_True_eq_False)
qed

lemma unat_frame_len: "unat (of_nat (frame_len bs) :: u32) = frame_len bs"
  using of_le32_less unat_of_nat_u32 unfolding frame_len_def by blast

lemma unat_frame_len5: "frame_len bs + 5 < 2 ^ 32 \<Longrightarrow> unat (of_nat (frame_len bs) + 5 :: u32) = frame_len bs + 5"
  using unat_of_nat_u32 [of "frame_len bs + 5"] by (simp add: add.commute)

lemma conn_good_avail:
  "conn_good c \<Longrightarrow> unat (GetReadAvailable (m_rxStream c)) = length (rx c) \<and> length (rx c) \<le> 262144"
  using stream_avail [of "m_rxStream c"] stream_ok_size [of "m_rxStream c"] by (simp add: conn_good_def)

lemma recv_none:
  assumes "conn_good c" "length (rx c) < 5 \<or> length (rx c) < frame_len (rx c) + 5 \<and> frame_len (rx c) + 5 < 2 ^ 32"
  shows "RecvCommand c = Inr (None, c)"
proof (cases "length (rx c) < 5")
  case True
  then have "GetReadAvailable (m_rxStream c) < 5"
    using conn_good_avail [OF assms(1)] unfolding word_less_nat_alt unat_5 by simp
  then show ?thesis by (simp add: RecvCommand_def)
next
  case False
  then have "\<not> (of_nat (frame_len (rx c)) + 5 :: u32) \<le> GetReadAvailable (m_rxStream c)"
    using assms conn_good_avail [OF assms(1)] unat_frame_len5 [of "rx c"] unfolding word_le_nat_alt by simp
  with False show ?thesis by (subst recv_header [OF assms(1)]) simp_all
qed

lemma recv_some:
  assumes "conn_good c" "5 \<le> length (rx c)" "frame_len (rx c) + 5 \<le> length (rx c)"
  shows "\<exists>st. RecvCommand c = Inr (Some (rx c ! 0, take (frame_len (rx c)) (drop 5 (rx c))), c\<lparr>m_rxStream := st\<rparr>)
    \<and> stream_ok st \<and> stream_contents st = drop (frame_len (rx c) + 5) (rx c) \<and> stream_room st = stream_room (m_rxStream c)"
proof -
  let ?n = "of_nat (frame_len (rx c)) :: u32"
  have "5 + unat ?n \<le> length (rx c)" using unat_frame_len [of "rx c"] assms(3) by simp
  from mud_stream.take_part [of "m_rxStream c" "replicate 256 0", OF _ this] assms(1) unat_frame_len [of "rx c"]
  obtain st where st: "stream_Read ?n False (SkipForward 5 (m_rxStream c)) = Inr (take (frame_len (rx c)) (drop 5 (rx c)), st)"
    "stream_ok st" "stream_contents st = drop (5 + frame_len (rx c)) (rx c)" "stream_room st = stream_room (m_rxStream c)"
    by (auto simp: conn_good_def)
  have "?n + 5 \<le> GetReadAvailable (m_rxStream c)"
    using assms(3) conn_good_avail [OF assms(1)] unat_frame_len5 [of "rx c"] unfolding word_le_nat_alt by simp
  then have "RecvCommand c = Inr (Some (rx c ! 0, take (frame_len (rx c)) (drop 5 (rx c))), c\<lparr>m_rxStream := st\<rparr>)"
    using st(1) by (subst recv_header [OF assms(1,2)]) simp
  then show ?thesis using st(2,3,4) by (auto simp: add.commute)
qed

lemma recv_wraps:
  assumes "conn_good c" "5 \<le> length (rx c)" "2 ^ 32 \<le> frame_len (rx c) + 5"
  shows "\<exists>e. RecvCommand c = Inl e"
proof -
  let ?n = "of_nat (frame_len (rx c)) :: u32"
  have u: "unat ?n = frame_len (rx c)" by (rule unat_frame_len)
  have "unat (?n + 5) = (frame_len (rx c) + 5) mod 2 ^ 32" unfolding unat_word_ariths u unat_5 by simp
  also have "\<dots> = (frame_len (rx c) + 5 - 2 ^ 32) mod 2 ^ 32" using assms(3) by (rule le_mod_geq)
  also have "\<dots> \<le> 4" using of_le32_less [of "drop 1 (rx c)"] by (simp add: frame_len_def)
  finally have le: "?n + 5 \<le> GetReadAvailable (m_rxStream c)"
    using conn_good_avail [OF assms(1)] assms(2) unfolding word_le_nat_alt by simp
  have s: "length (rx c) < 5 + unat ?n" "0 < ?n"
    using assms(3) u conn_good_avail [OF assms(1)] unfolding word_less_nat_alt by simp_all
  then obtain e where "stream_Read ?n False (SkipForward 5 (m_rxStream c)) = Inl e"
    using mud_stream.take_part_short [of "m_rxStream c" "replicate 256 0", OF _ s(1)] assms(1) by (auto simp: conn_good_def)
  with le show ?thesis by (subst recv_header [OF assms(1,2)]) simp
qed

subsection \<open>Everything that arrives\<close>

text \<open>A handler that changes the rest of the world and accepts every command.\<close>

definition accepting :: "(u8 \<times> u8 list \<Rightarrow> 'w \<Rightarrow> 'w) \<Rightarrow> u8 \<Rightarrow> u8 list \<Rightarrow> conn \<times> 'w \<Rightarrow> bool \<times> conn \<times> 'w" where
  "accepting h = (\<lambda>k d (c, w). (True, c, h (k, d) w))"

lemma player_loop:
  assumes "conn_good c" "frames_ok (rx c)" "length (rx c) < n"
  shows "\<exists>st. loop_fuel (player_turn (accepting h)) n (c, w)
      = Some (Inr (c\<lparr>m_rxStream := st\<rparr>, fold h (fst (frames (rx c))) w))
    \<and> stream_ok st \<and> stream_contents st = snd (frames (rx c)) \<and> stream_room st = stream_room (m_rxStream c)"
  using assms
proof (induction n arbitrary: c w)
  case (Suc n)
  show ?case
  proof (cases "length (rx c) < 5 \<or> length (rx c) < frame_len (rx c) + 5")
    case True
    have "RecvCommand c = Inr (None, c)"
    proof (rule recv_none [OF Suc.prems(1)])
      show "length (rx c) < 5 \<or> length (rx c) < frame_len (rx c) + 5 \<and> frame_len (rx c) + 5 < 2 ^ 32"
        using True Suc.prems(2) frames_ok.simps [of "rx c"] by (auto split: if_splits)
    qed
    moreover have "frames (rx c) = ([], rx c)" using True by (simp add: frames.simps)
    ultimately show ?thesis using Suc.prems(1)
      by (intro exI [of _ "m_rxStream c"]) (simp add: player_turn_def conn_good_def)
  next
    case False
    then obtain st where st: "RecvCommand c = Inr (Some (rx c ! 0, take (frame_len (rx c)) (drop 5 (rx c))), c\<lparr>m_rxStream := st\<rparr>)"
      "stream_ok st" "stream_contents st = drop (frame_len (rx c) + 5) (rx c)" "stream_room st = stream_room (m_rxStream c)"
      using recv_some [OF Suc.prems(1)] by (auto simp: not_less)
    let ?c = "c\<lparr>m_rxStream := st\<rparr>"
    have f: "frames (rx c) = (let (fs, r) = frames (rx ?c) in ((rx c ! 0, take (frame_len (rx c)) (drop 5 (rx c))) # fs, r))"
      using False by (subst frames.simps) (simp add: st(3))
    have "frames_ok (rx ?c)" using Suc.prems(2) False frames_ok.simps [of "rx c"] by (simp add: st(3) split: if_splits)
    moreover have "conn_good ?c" using Suc.prems(1) st(2) by (simp add: conn_good_def)
    moreover have "length (rx ?c) < n" using Suc.prems(3) False by (simp add: st(3)) linarith
    ultimately show ?thesis
      using Suc.IH [of ?c "h (rx c ! 0, take (frame_len (rx c)) (drop 5 (rx c))) w"] st(1,4)
      by (simp add: player_turn_def accepting_def f case_prod_beta Let_def)
  qed
qed simp

lemma handle_piece:
  assumes "conn_good c" "length p \<le> stream_room (m_rxStream c)" "frames_ok (rx c @ p)" "262144 < n" "length fresh = 256"
  shows "\<exists>c'. HandlePlayerData n (accepting h) fresh (Some p) (c, w) = Some (Inr (c', fold h (fst (frames (rx c @ p))) w))
    \<and> conn_good c' \<and> rx c' = snd (frames (rx c @ p)) \<and> stream_room (m_rxStream c') = stream_room (m_rxStream c) - length p"
proof -
  obtain st where st: "stream_Write fresh p (m_rxStream c) = Inr st" "stream_ok st" "stream_contents st = rx c @ p"
    "stream_room st = stream_room (m_rxStream c) - length p"
    using stream_Write_ok [of "m_rxStream c" p fresh] assms by (auto simp: conn_good_def)
  let ?c = "ResetInactivityTimer (c\<lparr>m_rxStream := st\<rparr>)"
  have g: "conn_good ?c" "m_rxStream ?c = st"
    using assms(1) st(2) by (simp_all add: conn_good_def ResetInactivityTimer_def)
  have "length (rx ?c) < n" using conn_good_avail [OF g(1)] assms(4) by simp
  then obtain st' where "loop_fuel (player_turn (accepting h)) n (?c, w) = Some (Inr (?c\<lparr>m_rxStream := st'\<rparr>, fold h (fst (frames (rx ?c))) w))"
    "stream_ok st'" "stream_contents st' = snd (frames (rx ?c))" "stream_room st' = stream_room st"
    using player_loop [OF g(1), of n h w] assms(3) g(2) st(3) by auto
  then show ?thesis using g st by (auto simp: HandlePlayerData_def ReadStream_def conn_good_def)
qed

text \<open>The turns of the main loop that read from one connection.\<close>

fun handle_pieces :: "nat \<Rightarrow> (u8 \<Rightarrow> u8 list \<Rightarrow> conn \<times> 'w \<Rightarrow> bool \<times> conn \<times> 'w) \<Rightarrow> u8 list \<Rightarrow> u8 list list
    \<Rightarrow> conn \<times> 'w \<Rightarrow> ((stream_error \<times> stream) + (conn \<times> 'w)) option" where
  "handle_pieces n H fresh [] cw = Some (Inr cw)"
| "handle_pieces n H fresh (p # ps) cw = (case HandlePlayerData n H fresh (Some p) cw of
     Some (Inr cw') \<Rightarrow> handle_pieces n H fresh ps cw' | r \<Rightarrow> r)"

lemma frames_rest: "frames (snd (frames bs)) = ([], snd (frames bs))"
proof (induction bs rule: frames.induct)
  case (1 bs)
  then show ?case by (cases "length bs < 5 \<or> length bs < frame_len bs + 5")
    (simp_all add: frames.simps [of bs] case_prod_beta)
qed

lemma handle_pieces_frames:
  assumes "conn_good c" "frames (rx c) = ([], rx c)" "length (concat ps) \<le> stream_room (m_rxStream c)"
    "frames_ok (rx c @ concat ps)" "262144 < n" "length fresh = 256"
  shows "\<exists>c'. handle_pieces n (accepting h) fresh ps (c, w) = Some (Inr (c', fold h (fst (frames (rx c @ concat ps))) w))
    \<and> conn_good c' \<and> rx c' = snd (frames (rx c @ concat ps))"
  using assms
proof (induction ps arbitrary: c w)
  case (Cons p ps)
  have ok: "frames_ok (rx c @ p)" "frames_ok (snd (frames (rx c @ p)) @ concat ps)"
    using frames_ok_append [of "rx c @ p" "concat ps"] Cons.prems(4) by simp_all
  obtain c1 where c1: "HandlePlayerData n (accepting h) fresh (Some p) (c, w) = Some (Inr (c1, fold h (fst (frames (rx c @ p))) w))"
    "conn_good c1" "rx c1 = snd (frames (rx c @ p))" "stream_room (m_rxStream c1) = stream_room (m_rxStream c) - length p"
    using handle_piece [OF Cons.prems(1) _ ok(1) Cons.prems(5,6), of h w] Cons.prems(3) by auto
  have "frames (rx c1) = ([], rx c1)" unfolding c1(3) by (rule frames_rest)
  then show ?case
    using Cons.IH [OF c1(2), of "fold h (fst (frames (rx c @ p))) w"] Cons.prems(3,5,6) ok(2) c1
      frames_append [of "rx c @ p" "concat ps"]
    by (simp add: case_prod_beta)
qed simp

lemma new_conn: "conn_good (CServerConnection seed)" "rx (CServerConnection seed) = []"
  "stream_room (m_rxStream (CServerConnection seed)) = 262144"
  by (simp_all add: conn_good_def CServerConnection_def stream_new_ok)

lemma SendCommand_sends:
  assumes "m_pSocket c" "stream_ok st" "\<And>msg. SendData msg = Some (of_nat (length msg))"
  shows "SendCommand SendData k (Some st) c = (True, Some (frame (k, stream_contents st)))"
proof -
  have l: "length (stream_contents st) \<le> 262144" using stream_avail(2) [OF assms(2)] stream_ok_size [OF assms(2)] by simp
  have a: "unat (GetReadAvailable st) = length (stream_contents st)" by (rule stream_avail(1) [OF assms(2)])
  then have "GetReadAvailable st = of_nat (length (stream_contents st))" by (simp flip: a)
  then show ?thesis
    using stream_Read_ok(2) [OF assms(2), of "GetReadAvailable st"] a assms(1,3)
    by (simp add: SendCommand_def Let_def frame_def add.commute)
qed

text \<open>C7. Commands sent on one end arrive at the other: the bytes of any number of calls of \<open>SendCommand\<close>, cut into any
  pieces, are handed to the handler of a new connection command by command, in their order, each with its number and
  its data. This is for a handler that accepts every command and leaves the connection alone (\<open>accepting\<close>), and for not
  more than 262144 bytes in all: a stream takes no more in its life.\<close>

theorem mud_commands_arrive:
  assumes "m_pSocket s" and "\<And>msg. SendData msg = Some (of_nat (length msg))"
    and "\<And>k st. (k, st) \<in> set cmds \<Longrightarrow> stream_ok st"
    and "concat ps = concat (map (\<lambda>(k, st). the (snd (SendCommand SendData k (Some st) s))) cmds)"
    and "length (concat ps) \<le> 262144" and "262144 < n" and "length fresh = 256"
  shows "\<exists>c'. handle_pieces n (accepting h) fresh ps (CServerConnection seed, w)
    = Some (Inr (c', fold h (map (\<lambda>(k, st). (k, stream_contents st)) cmds) w)) \<and> stream_contents (m_rxStream c') = []"
proof -
  define msgs where "msgs = map (\<lambda>(k, st). (k, stream_contents st)) cmds"
  have "map (\<lambda>(k, st). the (snd (SendCommand SendData k (Some st) s))) cmds = map frame msgs"
    unfolding msgs_def map_map by (rule map_cong) (auto simp: SendCommand_sends [OF assms(1) _ assms(2)] assms(3))
  then have ps: "concat ps = concat (map frame msgs)" using assms(4) by simp
  have "\<forall>c \<in> set msgs. length (snd c) + 5 < 2 ^ 32"
    using assms(3) stream_avail(2) stream_ok_size by (fastforce simp: msgs_def)
  then have f: "frames (concat ps) = (msgs, [])" "frames_ok (concat ps)" using frames_frames ps by auto
  show ?thesis
    using handle_pieces_frames [OF new_conn(1), of seed ps n fresh h w] assms(5,6,7) f
    by (auto simp: new_conn frames.simps [of "[]"] msgs_def)
qed

text \<open>Two commands in three pieces.\<close>

lemma mud_commands_arrive_witness:
  "\<exists>c'. handle_pieces 262145 (accepting (\<lambda>cmd log. log @ [cmd])) (replicate 256 0) [[4, 0, 0], [0, 0, 6, 0, 0, 0], [0]]
     (CServerConnection [], []) = Some (Inr (c', [(4, []), (6, [])])) \<and> stream_contents (m_rxStream c') = []"
proof -
  let ?send = "\<lambda>msg :: u8 list. Some (of_nat (length msg))" and ?cmds = "[(4, stream_new), (6, stream_new)]"
  have s: "SendCommand ?send k (Some stream_new) (CServerConnection []) = (True, Some [k, 0, 0, 0, 0])" for k
    using SendCommand_sends [of "CServerConnection []" stream_new ?send k] new_conn(1) [of "[]"]
    by (simp add: conn_good_def stream_new_ok frame_def le32_def)
  have "\<exists>c'. handle_pieces 262145 (accepting (\<lambda>cmd log. log @ [cmd])) (replicate 256 0) [[4, 0, 0], [0, 0, 6, 0, 0, 0], [0]]
      (CServerConnection [], []) = Some (Inr (c', fold (\<lambda>cmd log. log @ [cmd]) (map (\<lambda>(k, st). (k, stream_contents st)) ?cmds) []))
    \<and> stream_contents (m_rxStream c') = []"
    using new_conn(1) [of "[]"] stream_new_ok(1)
    by (intro mud_commands_arrive [where s = "CServerConnection []" and SendData = ?send]) (auto simp: s conn_good_def)
  then show ?thesis by (simp add: stream_new_ok del: handle_pieces.simps)
qed

text \<open>C37. A header whose length is within five of \<open>2 ^ 32\<close> ends the server: adding the size of the header wraps around, the
  command is taken for complete, and reading it raises an exception that nothing catches.\<close>

theorem mud_length_wraps:
  assumes "0xFFFFFFFB \<le> l" and "length p \<le> 262139" and "0 < n" and "length fresh = 256"
  shows "\<exists>e. HandlePlayerData n H fresh (Some (k # le32 l @ p)) (CServerConnection seed, w) = Some (Inl e)"
proof -
  let ?p = "k # le32 l @ p"
  obtain st where st: "stream_Write fresh ?p stream_new = Inr st" "stream_ok st" "stream_contents st = ?p"
    using stream_Write_ok [OF stream_new_ok(1), of ?p fresh] assms(2,4) by (auto simp: stream_new_ok)
  let ?c = "ResetInactivityTimer ((CServerConnection seed)\<lparr>m_rxStream := st\<rparr>)"
  have c: "conn_good ?c" "rx ?c = ?p" using st by (simp_all add: conn_good_def ResetInactivityTimer_def CServerConnection_def)
  have "frame_len ?p = unat l"
    using of_le32_le32 [of "unat l"] unsigned_less [where ?'a = nat, of l]
    by (simp add: frame_len_def of_le32_def nth_append le32_def)
  then have "2 ^ 32 \<le> frame_len (rx ?c) + 5" using assms(1) c(2) by (simp add: word_le_nat_alt)
  then obtain e where "RecvCommand ?c = Inl e" using recv_wraps [OF c(1)] c(2) by auto
  then show ?thesis using st(1) assms(3)
    by (cases n) (auto simp: HandlePlayerData_def ReadStream_def player_turn_def CServerConnection_def)
qed

text \<open>Five bytes are enough.\<close>

lemma mud_length_wraps_witness:
  "\<exists>e. HandlePlayerData 1 (accepting (\<lambda>_ w. w)) (replicate 256 0) (Some (0 # le32 0xFFFFFFFF @ [])) (CServerConnection [], ())
    = Some (Inl e)"
  by (rule mud_length_wraps) simp_all

text \<open>What has been read makes no room: a connection that has received 262144 bytes in its life, however little of
  them is still waiting, is closed when the next byte arrives.\<close>

theorem mud_stream_full:
  assumes "stream_ok (m_rxStream c)" and "unat (m_memoryWritePos (m_rxStream c)) + length p > 262144"
  shows "\<exists>c'. HandlePlayerData n H fresh (Some p) (c, w) = Some (Inr (c', w))
    \<and> m_connectionState c' = CONNECTION_DISCONNECT \<and> \<not> m_pSocket c'"
proof -
  have "stream_room (m_rxStream c) < length p" using assms stream_ok_size [OF assms(1)] by (simp add: stream_room_def)
  then obtain e st where "stream_Write fresh p (m_rxStream c) = Inl (e, st)" using stream_Write_full [OF assms(1)] by fastforce
  then show ?thesis by (auto simp: HandlePlayerData_def ReadStream_def conn_Disconnect_def)
qed

text \<open>A connection all of whose bytes were read.\<close>

lemma mud_stream_full_witness:
  "\<exists>s. stream_contents s = [] \<and> (\<exists>c'. HandlePlayerData 1 (accepting (\<lambda>_ w. w)) (replicate 256 0) (Some [0])
     ((CServerConnection [])\<lparr>m_rxStream := s\<rparr>, ()) = Some (Inr (c', ()))
    \<and> m_connectionState c' = CONNECTION_DISCONNECT \<and> \<not> m_pSocket c')"
proof -
  let ?bs = "replicate 262144 0"
  obtain st where st: "stream_Write (replicate 256 0) ?bs stream_new = Inr st" "stream_ok st" "stream_contents st = ?bs" "stream_room st = 0"
    using stream_Write_ok [OF stream_new_ok(1), of ?bs "replicate 256 0"] by (auto simp: stream_new_ok)
  let ?s = "SkipForward 262144 st"
  have s: "stream_ok ?s" "stream_contents ?s = []" "stream_room ?s = 0"
    using mud_stream.skip_contents [of st "replicate 256 0" 262144] st by auto
  then have "unat (m_memoryWritePos ?s) + length [0 :: u8] > 262144"
    using stream_ok_size [OF s(1)] by (simp add: stream_room_def)
  then show ?thesis using mud_stream_full [of "(CServerConnection [])\<lparr>m_rxStream := ?s\<rparr>" "[0]"] s
    by (intro exI [of _ ?s]) simp
qed

end
