(* ===== verification/Mud_Pow_Props.thy ===== *)
theory Mud_Pow_Props
  imports Mud_Pow
begin

unbundle bit_operations_syntax

text \<open>
  The search for a proof of work finds proofs: what it returns passes the test, for every hash. The invariant of the
  tables says of every entry which inputs it stands for, that their hashes cancel out on the blocks used so far, and
  that the entry holds what is left of the others.
\<close>

subsection \<open>Sums of words\<close>

definition xors :: "u32 list \<Rightarrow> u32" where
  "xors ws = foldr (XOR) ws 0"

lemma xors_append: "xors (a @ b) = xors a XOR xors b"
  by (induction a) (simp_all add: xors_def xor.assoc)

text \<open>The sum of the \<open>j\<close>th blocks of some inputs.\<close>

definition block_sum :: "(u32 \<Rightarrow> nat \<Rightarrow> u32) \<Rightarrow> u32 list \<Rightarrow> nat \<Rightarrow> u32" where
  "block_sum B ins j = xors (map (\<lambda>i. B i j) ins)"

lemma block_sum_append: "block_sum B (a @ b) j = block_sum B a j XOR block_sum B b j"
  by (simp add: block_sum_def xors_append)

lemma block_sum_single: "block_sum B [i] j = B i j"
  by (simp add: block_sum_def xors_def)

abbreviation hash_block :: "pow_hash \<Rightarrow> pow_proof \<Rightarrow> u32 \<Rightarrow> nat \<Rightarrow> u32" where
  "hash_block h p \<equiv> pow_block h (proof_n p) (proof_k p) (proof_seed p) (proof_nonce p)"

lemma test_fold:
  "length bs = m \<Longrightarrow> fold (\<lambda>i bs. map (\<lambda>j. bs ! j XOR B i j) [0..<m]) ins bs
    = map (\<lambda>j. bs ! j XOR block_sum B ins j) [0..<m]"
proof (induction ins arbitrary: bs)
  case Nil
  then show ?case by (simp add: block_sum_def xors_def) (metis map_nth)
next
  case (Cons i ins)
  then show ?case by (simp add: block_sum_def xors_def xor.assoc)
qed

lemma Proof_Test_iff: "Proof_Test h p \<longleftrightarrow> (\<forall>j \<le> proof_k p. block_sum (hash_block h p) (proof_inputs p) j = 0)"
proof -
  have "Proof_Test h p \<longleftrightarrow> (\<forall>j < proof_k p + 1. replicate (proof_k p + 1) 0 ! j XOR block_sum (hash_block h p) (proof_inputs p) j = 0)"
    unfolding Proof_Test_def by (subst test_fold) (auto simp: list_all_iff simp del: upt_Suc replicate_Suc)
  then show ?thesis by (auto simp: less_Suc_eq_le simp del: replicate_Suc)
qed

subsection \<open>Words of few bits\<close>

definition small :: "nat \<Rightarrow> u32 \<Rightarrow> bool" where
  "small b w \<longleftrightarrow> take_bit b w = w"

lemma small_xor: "small b v \<Longrightarrow> small b w \<Longrightarrow> small b (v XOR w)"
  by (simp add: small_def)

lemma small_less:
  assumes "small b w"
  shows "unat w < 2 ^ b"
proof -
  have "unat w = take_bit b (unat w)" using assms by (metis small_def unsigned_take_bit_eq)
  then show ?thesis by (metis take_bit_nat_less_exp)
qed

lemma small_pow_block: "block_bits n k \<le> 32 \<Longrightarrow> small (block_bits n k) (pow_block h n k seed nonce i j)"
  unfolding small_def pow_block_def
  by (rule bit_eqI) (auto simp: bit_take_bit_iff bit_drop_bit_eq dest: bit_imp_le_length)

lemma small_block_sum:
  assumes "\<And>i j. small b (B i j)"
  shows "small b (block_sum B ins j)"
proof (induction ins)
  case Nil
  then show ?case by (simp add: block_sum_def xors_def small_def)
next
  case (Cons i ins)
  then show ?case using assms block_sum_append [of B "[i]" ins j] by (simp add: block_sum_single small_xor)
qed

subsection \<open>Forks\<close>

fun inputs_of :: "fork list list \<Rightarrow> nat \<Rightarrow> u32 \<Rightarrow> u32 list" where
  "inputs_of fs 0 r = [r]"
| "inputs_of fs (Suc l) r = ResolveTreeByLevel fs (fs ! l ! unat r) l"

lemma Resolve_inputs: "ResolveTreeByLevel fs f s = inputs_of fs s (fst f) @ inputs_of fs s (snd f)"
  by (cases s; cases f) simp_all

lemma Resolve_append: "s \<le> length fs \<Longrightarrow> ResolveTreeByLevel (fs @ gs) f s = ResolveTreeByLevel fs f s"
  by (induction fs f s rule: ResolveTreeByLevel.induct) (simp_all add: nth_append)

lemma inputs_append: "s \<le> length fs \<Longrightarrow> inputs_of (fs @ gs) s r = inputs_of fs s r"
  by (cases s) (simp_all add: Resolve_append nth_append)

lemma length_Resolve: "length (ResolveTreeByLevel fs f s) = 2 ^ Suc s"
  by (induction fs f s rule: ResolveTreeByLevel.induct) simp_all

subsection \<open>Tables\<close>

text \<open>A table of \<open>N\<close> rows of five entries with \<open>L\<close> blocks each, of which those in use satisfy \<open>P\<close> in their row.\<close>

definition table_ok :: "nat \<Rightarrow> nat \<Rightarrow> (nat \<Rightarrow> tuple \<Rightarrow> bool) \<Rightarrow> tuple list list \<Rightarrow> nat list \<Rightarrow> bool" where
  "table_ok N L P tb fl \<longleftrightarrow> length tb = N \<and> length fl = N \<and>
     (\<forall>i < N. length (tb ! i) = 5 \<and> fl ! i \<le> 5 \<and> (\<forall>m < 5. length (blocks (tb ! i ! m)) = L)
        \<and> (\<forall>m < fl ! i. P i (tb ! i ! m)))"

lemma table_ok_mono: "table_ok N L P tb fl \<Longrightarrow> (\<And>i t. P i t \<Longrightarrow> Q i t) \<Longrightarrow> table_ok N L Q tb fl"
  by (auto simp: table_ok_def)

lemma table_ok_add:
  assumes "table_ok N L P tb fl" "i < N" "fl ! i < 5" "P i t" "length (blocks t) = L"
  shows "table_ok N L P (tb[i := (tb ! i)[fl ! i := t]]) (fl[i := fl ! i + 1])"
  using assms unfolding table_ok_def by (auto simp: nth_list_update less_Suc_eq)

lemma table_ok_empty: "table_ok N L P (replicate N (replicate 5 \<lparr>blocks = replicate L 0, reference = 0\<rparr>)) (replicate N 0)"
  by (simp add: table_ok_def)

subsection \<open>The invariant\<close>

abbreviation eq_block :: "pow_hash \<Rightarrow> equihash \<Rightarrow> u32 \<Rightarrow> nat \<Rightarrow> u32" where
  "eq_block h e \<equiv> pow_block h (eq_n e) (eq_k e) (eq_seed e) (eq_nonce e)"

abbreviation eq_bits :: "equihash \<Rightarrow> nat" where
  "eq_bits e \<equiv> block_bits (eq_n e) (eq_k e)"

text \<open>
  The inputs \<open>ins\<close> cancel out on the first \<open>s\<close> blocks, have the sum \<open>i\<close> on the next one, and the rest of their
  sums is \<open>bl\<close>.
\<close>

definition sums_ok :: "(u32 \<Rightarrow> nat \<Rightarrow> u32) \<Rightarrow> nat \<Rightarrow> u32 list \<Rightarrow> nat \<Rightarrow> u32 list \<Rightarrow> bool" where
  "sums_ok B s ins i bl \<longleftrightarrow> (\<forall>j < s. block_sum B ins j = 0) \<and> block_sum B ins s = of_nat i
     \<and> (\<forall>l < length bl. bl ! l = block_sum B ins (s + 1 + l))"

definition entry_ok :: "pow_hash \<Rightarrow> equihash \<Rightarrow> nat \<Rightarrow> nat \<Rightarrow> tuple \<Rightarrow> bool" where
  "entry_ok h e s i t \<longleftrightarrow> sums_ok (eq_block h e) s (inputs_of (forks e) s (reference t)) i (blocks t)"

definition level_ok :: "pow_hash \<Rightarrow> nat \<Rightarrow> equihash \<Rightarrow> bool" where
  "level_ok h s e \<longleftrightarrow> length (forks e) = s
     \<and> table_ok (2 ^ eq_bits e) (eq_k e - s) (entry_ok h e s) (tupleList e) (filledList e)"

text \<open>Two entries of a row: their inputs together cancel out on one block more.\<close>

lemma sums_ok_pair:
  assumes "sums_ok B s ins1 i bl1" "sums_ok B s ins2 i bl2" "length bl1 = Suc L" "length bl2 = Suc L"
  shows "sums_ok B (s + 1) (ins1 @ ins2) (unat (bl1 ! 0 XOR bl2 ! 0)) (map (\<lambda>l. bl1 ! (l + 1) XOR bl2 ! (l + 1)) [0..<L])"
proof -
  have "block_sum B (ins1 @ ins2) j = 0" if "j < s + 1" for j
    using assms(1,2) that by (cases "j = s") (auto simp: sums_ok_def block_sum_append)
  then show ?thesis using assms by (auto simp: sums_ok_def block_sum_append)
qed

lemma fill_turn_ok:
  assumes "level_ok h 0 e" "eq_bits e \<le> 32"
  shows "level_ok h 0 (fill_turn h i e)"
proof -
  let ?B = "eq_block h e i" and ?i = "unat (eq_block h e i 0)"
  let ?t = "\<lparr>blocks = map ?B [1..<eq_k e + 1], reference = i\<rparr>"
  have t: "table_ok (2 ^ eq_bits e) (eq_k e) (entry_ok h e 0) (tupleList e) (filledList e)" and fs: "forks e = []"
    using assms(1) by (simp_all add: level_ok_def)
  have "?i < 2 ^ eq_bits e" using small_less [OF small_pow_block] assms(2) by blast
  moreover have "entry_ok h e 0 ?i ?t"
    by (simp add: entry_ok_def sums_ok_def block_sum_single del: upt_Suc)
  ultimately have "filledList e ! ?i < 5 \<Longrightarrow> table_ok (2 ^ eq_bits e) (eq_k e) (entry_ok h e 0)
      ((tupleList e)[?i := (tupleList e ! ?i)[filledList e ! ?i := ?t]]) ((filledList e)[?i := filledList e ! ?i + 1])"
    using t by (intro table_ok_add) simp_all
  moreover have "entry_ok h (fill_turn h i e) = entry_ok h e"
    by (rule ext)+ (simp add: entry_ok_def fill_turn_def Let_def)
  ultimately show ?thesis using t fs
    by (simp add: level_ok_def fill_turn_def Let_def LIST_LENGTH_def)
qed

lemma fill_turn_params [simp]:
  "eq_n (fill_turn h i e) = eq_n e" "eq_k (fill_turn h i e) = eq_k e" "eq_seed (fill_turn h i e) = eq_seed e"
  "eq_nonce (fill_turn h i e) = eq_nonce e" "solutions (fill_turn h i e) = solutions e"
  by (simp_all add: fill_turn_def Let_def)

lemma FillMemory_ok:
  assumes "level_ok h 0 e" "eq_bits e \<le> 32"
  shows "level_ok h 0 (FillMemory h len e) \<and> eq_n (FillMemory h len e) = eq_n e \<and> eq_k (FillMemory h len e) = eq_k e
    \<and> eq_seed (FillMemory h len e) = eq_seed e \<and> eq_nonce (FillMemory h len e) = eq_nonce e
    \<and> solutions (FillMemory h len e) = solutions e"
proof -
  have "level_ok h 0 (fold (\<lambda>i. fill_turn h (of_nat i)) is e) \<and> eq_n (fold (\<lambda>i. fill_turn h (of_nat i)) is e) = eq_n e
      \<and> eq_k (fold (\<lambda>i. fill_turn h (of_nat i)) is e) = eq_k e \<and> eq_seed (fold (\<lambda>i. fill_turn h (of_nat i)) is e) = eq_seed e
      \<and> eq_nonce (fold (\<lambda>i. fill_turn h (of_nat i)) is e) = eq_nonce e
      \<and> solutions (fold (\<lambda>i. fill_turn h (of_nat i)) is e) = solutions e" for "is"
    using assms
  proof (induction "is" arbitrary: e)
    case (Cons i "is")
    then show ?case using fill_turn_ok [OF Cons.prems] Cons.IH [of "fill_turn h (of_nat i) e"] by simp
  qed simp
  then show ?thesis by (simp add: FillMemory_def)
qed

lemma InitializeMemory_ok: "level_ok h 0 (InitializeMemory e)"
  using table_ok_empty [of "2 ^ eq_bits e" "eq_k e" "entry_ok h (InitializeMemory e) 0"]
  by (simp add: level_ok_def InitializeMemory_def Let_def LIST_LENGTH_def)

subsection \<open>Resolving collisions\<close>

lemma resolve_pairs_set:
  "(i, j, m) \<in> set (resolve_pairs e) \<Longrightarrow> i < length (tupleList e) \<and> j < filledList e ! i \<and> m < filledList e ! i"
  by (auto simp: resolve_pairs_def)

lemma level_entry:
  assumes "level_ok h s e" "(i, j, m) \<in> set (resolve_pairs e)" "s < eq_k e" "a = j \<or> a = m"
  shows "sums_ok (eq_block h e) s (inputs_of (forks e) s (reference (tupleList e ! i ! a))) i (blocks (tupleList e ! i ! a))"
    "length (blocks (tupleList e ! i ! a)) = Suc (eq_k e - s - 1)"
proof -
  have t: "table_ok (2 ^ eq_bits e) (eq_k e - s) (entry_ok h e s) (tupleList e) (filledList e)"
    using assms(1) by (simp add: level_ok_def)
  then have i: "i < 2 ^ eq_bits e" "a < filledList e ! i"
    using resolve_pairs_set [OF assms(2)] assms(4) by (auto simp: table_ok_def)
  then have a: "a < 5" using t by (auto simp: table_ok_def intro: less_le_trans)
  show "sums_ok (eq_block h e) s (inputs_of (forks e) s (reference (tupleList e ! i ! a))) i (blocks (tupleList e ! i ! a))"
    using t i by (simp add: table_ok_def entry_ok_def)
  show "length (blocks (tupleList e ! i ! a)) = Suc (eq_k e - s - 1)"
    using t i a assms(3) by (simp add: table_ok_def)
qed

lemma level_first:
  assumes "level_ok h s e" "s < eq_k e"
  shows "length (blocks (tupleList e ! 0 ! 0)) = eq_k e - s" "length (tupleList e) = 2 ^ eq_bits e" "length (forks e) = s"
  using assms by (auto simp: level_ok_def table_ok_def)

text \<open>The inputs behind the pair, and what they add up to.\<close>

lemma pair_sums:
  assumes "level_ok h s e" "(i, j, m) \<in> set (resolve_pairs e)" "s < eq_k e" "eq_bits e \<le> 32"
  defines "t1 \<equiv> tupleList e ! i ! j" and "t2 \<equiv> tupleList e ! i ! m"
  shows "sums_ok (eq_block h e) (s + 1) (ResolveTreeByLevel (forks e) (reference t1, reference t2) s)
      (unat (blocks t1 ! 0 XOR blocks t2 ! 0)) (map (\<lambda>l. blocks t1 ! (l + 1) XOR blocks t2 ! (l + 1)) [0..<eq_k e - s - 1])"
    "unat (blocks t1 ! 0 XOR blocks t2 ! 0) < 2 ^ eq_bits e"
proof -
  note s1 = level_entry [OF assms(1,2,3), of j, folded t1_def] and s2 = level_entry [OF assms(1,2,3), of m, folded t2_def]
  show "sums_ok (eq_block h e) (s + 1) (ResolveTreeByLevel (forks e) (reference t1, reference t2) s)
      (unat (blocks t1 ! 0 XOR blocks t2 ! 0)) (map (\<lambda>l. blocks t1 ! (l + 1) XOR blocks t2 ! (l + 1)) [0..<eq_k e - s - 1])"
    unfolding Resolve_inputs fst_conv snd_conv by (rule sums_ok_pair [OF s1(1) s2(1) s1(2) s2(2)]) simp_all
  have "small (eq_bits e) (blocks t1 ! 0)" "small (eq_bits e) (blocks t2 ! 0)"
    using s1 s2 small_block_sum [of "eq_bits e" "eq_block h e"] small_pow_block assms(4) by (auto simp: sums_ok_def)
  then show "unat (blocks t1 ! 0 XOR blocks t2 ! 0) < 2 ^ eq_bits e" by (intro small_less small_xor)
qed

definition coll_entry :: "pow_hash \<Rightarrow> equihash \<Rightarrow> nat \<Rightarrow> collisions \<Rightarrow> nat \<Rightarrow> tuple \<Rightarrow> bool" where
  "coll_entry h e s c i t \<longleftrightarrow> (\<exists>q < newColls c. reference t = of_nat q
     \<and> sums_ok (eq_block h e) (s + 1) (ResolveTreeByLevel (forks e) (newForks c ! q) s) i (blocks t))"

definition coll_ok :: "pow_hash \<Rightarrow> equihash \<Rightarrow> nat \<Rightarrow> collisions \<Rightarrow> bool" where
  "coll_ok h e s c \<longleftrightarrow> table_ok (2 ^ eq_bits e) (eq_k e - s - 1) (coll_entry h e s c) (collisionList c) (newFilledList c)
     \<and> length (newForks c) = 2 ^ eq_bits e * 3 \<and> newColls c \<le> 2 ^ eq_bits e * 3 \<and> found c = solutions e"

lemma resolve_pair_ok:
  assumes "level_ok h s e" "(i, j, m) \<in> set (resolve_pairs e)" "s < eq_k e" "eq_bits e \<le> 32" "coll_ok h e s c"
  shows "coll_ok h e s (resolve_pair False e (i, j, m) c)"
proof -
  define t1 where "t1 = tupleList e ! i ! j"
  define t2 where "t2 = tupleList e ! i ! m"
  define x where "x = unat (blocks t1 ! 0 XOR blocks t2 ! 0)"
  define f where "f = (reference t1, reference t2)"
  define t where "t = \<lparr>blocks = map (\<lambda>l. blocks t1 ! (l + 1) XOR blocks t2 ! (l + 1)) [0..<eq_k e - s - 1], reference = of_nat (newColls c)\<rparr>"
  note ps = pair_sums [OF assms(1-4), folded t1_def t2_def, folded x_def f_def]
  define c' where "c' = c\<lparr>collisionList := (collisionList c)[x := (collisionList c ! x)[newFilledList c ! x := t]],
    newForks := (newForks c)[newColls c := f], newFilledList := (newFilledList c)[x := newFilledList c ! x + 1],
    newColls := newColls c + 1\<rparr>"
  have step: "resolve_pair False e (i, j, m) c
      = (if newFilledList c ! x < 5 \<and> newColls c < 2 ^ eq_bits e * 3 then c' else c)"
    using level_first [OF assms(1,3)]
    by (simp add: resolve_pair_def Let_def c'_def x_def f_def t_def t1_def t2_def LIST_LENGTH_def FORK_MULTIPLIER_def)
  have "coll_ok h e s c'" if room: "newFilledList c ! x < 5" "newColls c < 2 ^ eq_bits e * 3"
  proof -
    have old: "coll_entry h e s c' a u" if ce: "coll_entry h e s c a u" for a u
    proof -
      obtain q where "q < newColls c" "reference u = of_nat q"
        "sums_ok (eq_block h e) (s + 1) (ResolveTreeByLevel (forks e) (newForks c ! q) s) a (blocks u)"
        using ce unfolding coll_entry_def by blast
      then show ?thesis unfolding coll_entry_def by (intro exI [of _ q]) (simp add: c'_def)
    qed
    have "coll_entry h e s c' x t"
      unfolding coll_entry_def using ps(1) room assms(5)
      by (intro exI [of _ "newColls c"]) (simp add: c'_def t_def coll_ok_def)
    moreover have "table_ok (2 ^ eq_bits e) (eq_k e - s - 1) (coll_entry h e s c') (collisionList c) (newFilledList c)"
      using assms(5) old unfolding coll_ok_def by (blast intro: table_ok_mono)
    ultimately have "table_ok (2 ^ eq_bits e) (eq_k e - s - 1) (coll_entry h e s c') (collisionList c') (newFilledList c')"
      using table_ok_add [OF _ ps(2) room(1)] by (simp add: c'_def t_def)
    then show ?thesis using assms(5) room unfolding coll_ok_def by (simp add: c'_def)
  qed
  then show ?thesis using assms(5) by (simp add: step)
qed

lemma ResolveCollisions_ok:
  assumes "level_ok h s e" "s + 1 < eq_k e" "eq_bits e \<le> 30"
  shows "level_ok h (s + 1) (ResolveCollisions False e)"
proof -
  define c0 where "c0 = \<lparr>newForks = replicate (2 ^ eq_bits e * 3) (0, 0),
    collisionList = replicate (2 ^ eq_bits e) (replicate 5 \<lparr>blocks = replicate (eq_k e - s - 1) 0, reference = 0\<rparr>),
    newFilledList = replicate (2 ^ eq_bits e) 0, newColls = 0, found = solutions e\<rparr>"
  define c where "c = fold (resolve_pair False e) (resolve_pairs e) c0"
  have "coll_ok h e s (fold (resolve_pair False e) ps c1)" if "coll_ok h e s c1" "set ps \<subseteq> set (resolve_pairs e)" for ps c1
    using that
  proof (induction ps arbitrary: c1)
    case (Cons p ps)
    obtain i j m where "p = (i, j, m)" by (cases p)
    then show ?case using Cons resolve_pair_ok [OF assms(1), of i j m c1] assms(2,3) by simp
  qed simp
  moreover have "coll_ok h e s c0" using table_ok_empty by (simp add: coll_ok_def c0_def)
  ultimately have c: "coll_ok h e s c" by (simp add: c_def)
  note first = level_first [OF assms(1)]
  have r: "ResolveCollisions False e
      = e\<lparr>forks := forks e @ [newForks c], tupleList := collisionList c, filledList := newFilledList c, solutions := found c\<rparr>"
    using first assms(2) by (simp add: ResolveCollisions_def Let_def c_def c0_def LIST_LENGTH_def FORK_MULTIPLIER_def)
  have "entry_ok h (ResolveCollisions False e) (s + 1) i t" if ce: "coll_entry h e s c i t" for i t
  proof -
    obtain q where q: "q < newColls c" "reference t = of_nat q"
      "sums_ok (eq_block h e) (s + 1) (ResolveTreeByLevel (forks e) (newForks c ! q) s) i (blocks t)"
      using ce unfolding coll_entry_def by blast
    have "(2 :: nat) ^ eq_bits e * 3 \<le> 2 ^ 30 * 3" using assms(3) by (intro mult_right_mono power_increasing) simp_all
    then have "q < 2 ^ 32" using q(1) c by (simp add: coll_ok_def)
    then have "unat (reference t) = q" using q(2) by (simp add: unat_of_nat take_bit_nat_eq_self)
    then show ?thesis using q(3) first assms(2) by (simp add: entry_ok_def r Resolve_append nth_append)
  qed
  then have "table_ok (2 ^ eq_bits e) (eq_k e - s - 1) (entry_ok h (ResolveCollisions False e) (s + 1))
      (collisionList c) (newFilledList c)"
    using c unfolding coll_ok_def by (blast intro: table_ok_mono)
  then show ?thesis using first assms(2) by (simp add: level_ok_def r)
qed

lemma ResolveCollisions_params [simp]:
  "eq_n (ResolveCollisions b e) = eq_n e" "eq_k (ResolveCollisions b e) = eq_k e" "eq_seed (ResolveCollisions b e) = eq_seed e"
  "eq_nonce (ResolveCollisions b e) = eq_nonce e"
  by (simp_all add: ResolveCollisions_def Let_def)

lemma ResolveCollisions_keeps_solutions: "eq_k e \<noteq> 0 \<Longrightarrow> solutions (ResolveCollisions False e) = solutions e"
proof -
  have "found (fold (resolve_pair False e) ps c) = found c" for ps and c :: collisions
    by (induction ps arbitrary: c) (auto simp: resolve_pair_def Let_def split: prod.split)
  then show ?thesis by (simp add: ResolveCollisions_def Let_def)
qed

subsection \<open>The last step\<close>

definition proof_ok :: "pow_hash \<Rightarrow> equihash \<Rightarrow> pow_proof \<Rightarrow> bool" where
  "proof_ok h e p \<longleftrightarrow> proof_n p = eq_n e \<and> proof_k p = eq_k e \<and> proof_seed p = eq_seed e \<and> proof_nonce p = eq_nonce e
     \<and> length (proof_inputs p) = 2 ^ eq_k e \<and> Proof_Test h p"

lemma last_pair_ok:
  assumes "level_ok h s e" "(i, j, m) \<in> set (resolve_pairs e)" "s + 1 = eq_k e" "eq_bits e \<le> 32"
  shows "\<forall>p \<in> set (found (resolve_pair True e (i, j, m) c)). p \<in> set (found c) \<or> proof_ok h e p"
proof -
  define t1 where "t1 = tupleList e ! i ! j"
  define t2 where "t2 = tupleList e ! i ! m"
  define f where "f = (reference t1, reference t2)"
  define p where "p = \<lparr>proof_n = eq_n e, proof_k = eq_k e, proof_seed = eq_seed e, proof_nonce = eq_nonce e,
    proof_inputs = ResolveTree (forks e) f\<rparr>"
  have "s < eq_k e" using assms(3) by simp
  note ps = pair_sums [OF assms(1,2) this assms(4), folded t1_def t2_def, folded f_def]
  have len: "length (forks e) = s" using assms(1) by (simp add: level_ok_def)
  have "proof_ok h e p" if zero: "unat (blocks t1 ! 0 XOR blocks t2 ! 0) = 0"
  proof -
    have "block_sum (eq_block h e) (ResolveTreeByLevel (forks e) f s) j = 0" if "j \<le> eq_k e" for j
      using ps(1) zero that assms(3) by (cases "j = eq_k e") (auto simp: sums_ok_def)
    then show ?thesis using len assms(3) length_Resolve [of "forks e" f s]
      by (simp add: proof_ok_def Proof_Test_iff p_def ResolveTree_def)
  qed
  moreover have "resolve_pair True e (i, j, m) c
      = (if unat (blocks t1 ! 0 XOR blocks t2 ! 0) = 0 then c\<lparr>found := found c @ [p]\<rparr> else c)"
    unfolding resolve_pair_def prod.case Let_def t1_def t2_def p_def f_def by simp
  ultimately show ?thesis by auto
qed

lemma last_step_ok:
  assumes "level_ok h s e" "s + 1 = eq_k e" "eq_bits e \<le> 32" "solutions e = []"
  shows "\<forall>p \<in> set (solutions (ResolveCollisions True e)). proof_ok h e p"
proof -
  have all: "\<forall>p \<in> set (found (fold (resolve_pair True e) ps c)). proof_ok h e p"
    if "\<forall>p \<in> set (found c). proof_ok h e p" "set ps \<subseteq> set (resolve_pairs e)" for ps c
    using that
  proof (induction ps arbitrary: c)
    case (Cons q ps)
    obtain i j m where q: "q = (i, j, m)" by (cases q)
    then have "\<forall>p \<in> set (found (resolve_pair True e q c)). proof_ok h e p"
      using last_pair_ok [OF assms(1) _ assms(2,3), of i j m c] Cons.prems by auto
    then show ?case using Cons by simp
  qed simp
  show ?thesis unfolding ResolveCollisions_def Let_def
    by (simp, rule all) (simp_all add: assms(4))
qed

subsection \<open>The search\<close>

lemma steps_ok:
  assumes "level_ok h 0 e" "r < eq_k e" "eq_bits e \<le> 30" "solutions e = []"
  defines "e' \<equiv> fold (\<lambda>i. ResolveCollisions (i = eq_k e)) [1..<r + 1] e"
  shows "level_ok h r e' \<and> eq_n e' = eq_n e \<and> eq_k e' = eq_k e \<and> eq_seed e' = eq_seed e \<and> eq_nonce e' = eq_nonce e
    \<and> solutions e' = []"
  using assms(2) unfolding e'_def
proof (induction r)
  case (Suc r)
  then show ?case using ResolveCollisions_ok [of h r "fold (\<lambda>i. ResolveCollisions (i = eq_k e)) [1..<r + 1] e"] assms(3)
    by (simp add: ResolveCollisions_keeps_solutions)
qed (use assms in simp)

lemma search_nonce_ok:
  assumes "1 \<le> eq_k e" "eq_bits e \<le> 30"
  shows "\<forall>p \<in> set (solutions (search_nonce h e)). proof_ok h e p"
proof -
  define len where "len = (4 * 2 ^ (eq_bits e - 1) :: nat)"
  define e0 where "e0 = FillMemory h len (InitializeMemory e)"
  define e1 where "e1 = fold (\<lambda>i. ResolveCollisions (i = eq_k e)) [1..<(eq_k e - 1) + 1] e0"
  have i: "eq_n (InitializeMemory e) = eq_n e" "eq_k (InitializeMemory e) = eq_k e" "eq_seed (InitializeMemory e) = eq_seed e"
    "eq_nonce (InitializeMemory e) = eq_nonce e" "solutions (InitializeMemory e) = []"
    by (simp_all add: InitializeMemory_def Let_def)
  have e0: "level_ok h 0 e0" "eq_n e0 = eq_n e" "eq_k e0 = eq_k e" "eq_seed e0 = eq_seed e" "eq_nonce e0 = eq_nonce e"
    "solutions e0 = []"
    using FillMemory_ok [OF InitializeMemory_ok, of e h len] i assms(2) by (simp_all add: e0_def)
  then have e1: "level_ok h (eq_k e - 1) e1" "eq_n e1 = eq_n e" "eq_k e1 = eq_k e" "eq_seed e1 = eq_seed e"
    "eq_nonce e1 = eq_nonce e" "solutions e1 = []"
    using steps_ok [of h e0 "eq_k e - 1"] assms by (simp_all add: e1_def)
  have "[1..<eq_k e + 1] = [1..<(eq_k e - 1) + 1] @ [eq_k e]"
    using assms(1) by (simp add: upt_Suc_append)
  then have "search_nonce h e = ResolveCollisions True e1"
    by (simp add: search_nonce_def e1_def e0_def len_def)
  then show ?thesis using last_step_ok [OF e1(1)] e1 assms by (simp add: proof_ok_def)
qed

lemma has_dup_iff: "has_dup ws \<longleftrightarrow> \<not> distinct ws"
proof -
  have s: "sorted (sort ws)" by simp
  have "distinct (sort ws) \<longleftrightarrow> (\<forall>i. Suc i < length (sort ws) \<longrightarrow> sort ws ! i \<noteq> sort ws ! Suc i)"
  proof
    assume a: "\<forall>i. Suc i < length (sort ws) \<longrightarrow> sort ws ! i \<noteq> sort ws ! Suc i"
    have "sort ws ! i < sort ws ! Suc i" if "Suc i < length (sort ws)" for i
      using a that s by (metis le_neq_trans lessI less_imp_le_nat sorted_nth_mono)
    then have "sorted_wrt (<) (sort ws)" by (simp add: sorted_wrt_iff_nth_Suc_transp transp_on_less)
    then show "distinct (sort ws)" by (simp add: strict_sorted_iff)
  qed (simp add: nth_eq_iff_index_eq)
  then show ?thesis by (auto simp: has_dup_def Let_def list_ex_iff)
qed

lemma find_loop_ok:
  assumes "1 \<le> eq_k e" "eq_bits e \<le> 30"
  shows "let p = find_loop h e in proof_n p = eq_n e \<and> proof_k p = eq_k e \<and> proof_seed p = eq_seed e \<and> Proof_Test h p
    \<and> (proof_inputs p = [] \<or> length (proof_inputs p) = 2 ^ eq_k e \<and> distinct (proof_inputs p))"
  using assms
proof (induction h e rule: find_loop.induct)
  case (1 h e)
  let ?e = "e\<lparr>eq_nonce := eq_nonce e + 1\<rparr>"
  note search = search_nonce_ok [of ?e h]
  consider (stop) "\<not> eq_nonce e < MAX_NONCE"
    | (hit) p where "eq_nonce e < MAX_NONCE" "find (\<lambda>p. \<not> has_dup (proof_inputs p)) (solutions (search_nonce h ?e)) = Some p"
    | (miss) "eq_nonce e < MAX_NONCE" "find (\<lambda>p. \<not> has_dup (proof_inputs p)) (solutions (search_nonce h ?e)) = None"
    by (cases "find (\<lambda>p. \<not> has_dup (proof_inputs p)) (solutions (search_nonce h ?e))") auto
  then show ?case
  proof cases
    case stop
    then show ?thesis by (simp add: find_loop.simps [of h e] Proof_Test_iff block_sum_def xors_def)
  next
    case hit
    then have "p \<in> set (solutions (search_nonce h ?e))" "distinct (proof_inputs p)"
      by (auto simp: find_Some_iff has_dup_iff)
    then have "proof_ok h ?e p" "distinct (proof_inputs p)" using search "1.prems" by auto
    then show ?thesis using hit by (simp add: find_loop.simps [of h e] proof_ok_def)
  next
    case miss
    then show ?thesis using "1.IH" "1.prems" by (simp add: find_loop.simps [of h e])
  qed
qed


text \<open>What \<open>FindProof\<close> returns is a proof: for every hash, its inputs pass \<open>Test\<close>, and they are \<open>2 ^ k\<close> different
  inputs, unless the search has found nothing and there are none.\<close>

theorem FindProof_proves:
  assumes "1 \<le> k" and "1 \<le> block_bits n k" and "block_bits n k \<le> 30"
  shows "Proof_Test h (FindProof h (Equihash_new n k s))
    \<and> proof_n (FindProof h (Equihash_new n k s)) = n \<and> proof_k (FindProof h (Equihash_new n k s)) = k
    \<and> proof_seed (FindProof h (Equihash_new n k s)) = s
    \<and> (proof_inputs (FindProof h (Equihash_new n k s)) = []
       \<or> length (proof_inputs (FindProof h (Equihash_new n k s))) = 2 ^ k
         \<and> distinct (proof_inputs (FindProof h (Equihash_new n k s))))"
  using find_loop_ok [of "(Equihash_new n k s)\<lparr>eq_nonce := 1\<rparr>" h] assms
  by (simp add: FindProof_def Equihash_new_def Let_def)

text \<open>The parameters of the server, and a hash that is not constant.\<close>

lemma FindProof_proves_witness:
  "Proof_Test (\<lambda>ws. ws @ ws) (FindProof (\<lambda>ws. ws @ ws) (Equihash_new 105 4 [1, 2, 3, 4]))
    \<and> proof_n (FindProof (\<lambda>ws. ws @ ws) (Equihash_new 105 4 [1, 2, 3, 4])) = 105
    \<and> proof_k (FindProof (\<lambda>ws. ws @ ws) (Equihash_new 105 4 [1, 2, 3, 4])) = 4
    \<and> proof_seed (FindProof (\<lambda>ws. ws @ ws) (Equihash_new 105 4 [1, 2, 3, 4])) = [1, 2, 3, 4]
    \<and> (proof_inputs (FindProof (\<lambda>ws. ws @ ws) (Equihash_new 105 4 [1, 2, 3, 4])) = []
       \<or> length (proof_inputs (FindProof (\<lambda>ws. ws @ ws) (Equihash_new 105 4 [1, 2, 3, 4]))) = 2 ^ 4
         \<and> distinct (proof_inputs (FindProof (\<lambda>ws. ws @ ws) (Equihash_new 105 4 [1, 2, 3, 4]))))"
  by (rule FindProof_proves) (simp_all add: block_bits_def)

end
