(* ===== verification/Mud_Login_Props.thy ===== *)
theory Mud_Login_Props
  imports Mud_Login Mud_Conn_Props Mud_Pow_Props
begin

unbundle bit_operations_syntax

text \<open>
  The way in: with the server, the client and the tool put together, the answer to every challenge is accepted, for
  every hash; so is an answer that repeats its inputs, which costs no work; and before an accepted answer no other
  handler runs.
\<close>

subsection \<open>Hexadecimal text\<close>

lemma hex_loop_print:
  "i + length bs \<le> length tmp \<Longrightarrow> hex_loop (print_hex bs @ rest) (2 * i) tmp
    = hex_loop rest (2 * (i + length bs)) (take i tmp @ bs @ drop (i + length bs) tmp)"
proof (induction bs arbitrary: i tmp)
  case Nil
  then show ?case by (simp add: print_hex_def)
next
  case (Cons b bs)
  note d = AsciiToHex_digit [OF nibbles(1), of b] AsciiToHex_digit [OF nibbles(2), of b]
  have "hex_loop (print_hex (b # bs) @ rest) (2 * i) tmp = hex_loop (print_hex bs @ rest) (2 * (i + 1)) (tmp[i := b])"
    using Cons.prems d by (simp add: print_hex_def print_02x_def nibbles(3) mod_Suc)
  also have "\<dots> = hex_loop rest (2 * (i + 1 + length bs))
      (take (i + 1) (tmp[i := b]) @ bs @ drop (i + 1 + length bs) (tmp[i := b]))"
    using Cons.IH [of "i + 1" "tmp[i := b]"] Cons.prems by simp
  also have "take (i + 1) (tmp[i := b]) = take i tmp @ [b]" using Cons.prems by (simp add: take_Suc_conv_app_nth)
  finally show ?case by simp
qed

lemma Convert_print: "ConvertHexStringToData (print_hex bs @ [10]) = Some bs"
proof -
  have "takeWhile (\<lambda>c. c \<noteq> 0) (print_hex bs @ [10]) = print_hex bs @ [10]"
    using print_hex_chars(2) by (simp add: takeWhile_eq_all_conv)
  then show ?thesis
    using hex_loop_print [of 0 bs "replicate (length bs + 1) 0" "[10]"]
    by (simp add: ConvertHexStringToData_def print_hex_chars(1))
qed

subsection \<open>Words in bytes\<close>

lemma load32_le32: "load32 (le32 w @ bs) 0 = w"
  using of_le32_le32 [of "unat w"] unsigned_less [where ?'a = nat, of w]
  by (simp add: load32_def of_le32_def nth_append le32_def)

lemma load32_words: "i < length ws \<Longrightarrow> load32 (concat (map le32 ws)) (4 * i) = ws ! i"
proof (induction ws arbitrary: i)
  case (Cons w ws)
  then show ?case
  proof (cases i)
    case 0
    then show ?thesis using load32_le32 by simp
  next
    case (Suc j)
    have "drop (4 * Suc j) (le32 w @ bs) = drop (4 * j) bs" for bs by simp
    then have "load32 (le32 w @ bs) (4 * Suc j) = load32 bs (4 * j)" for bs unfolding load32_def by (simp only:)
    then show ?thesis using Cons Suc by simp
  qed
qed simp

lemma length_words: "length (concat (map le32 ws)) = 4 * length ws"
  by (induction ws) simp_all

subsection \<open>The check of the server\<close>

abbreviation the_proof :: "u8 list \<Rightarrow> u32 \<Rightarrow> u32 list \<Rightarrow> pow_proof" where
  "the_proof seed nonce ins \<equiv> \<lparr>proof_n = 105, proof_k = 4, proof_seed = map (\<lambda>i. load32 seed (4 * i)) [0..<4],
     proof_nonce = nonce, proof_inputs = ins\<rparr>"

lemma NWCProofData_words:
  assumes "m_connectionState c = CONNECTION_WAIT_PROOF" "length ins = 16"
  shows "NWCProofData h (concat (map le32 (nonce # ins))) c
    = (if Proof_Test h (the_proof (m_proofSeed c) nonce ins) then (True, AcceptProof c) else (False, c))"
proof -
  have "load32 (concat (map le32 (nonce # ins))) 0 = nonce" using load32_le32 by simp
  moreover have "map (\<lambda>i. load32 (concat (map le32 (nonce # ins))) (4 + 4 * i)) [0..<16] = ins"
  proof (rule nth_equalityI)
    fix i
    assume "i < length (map (\<lambda>i. load32 (concat (map le32 (nonce # ins))) (4 + 4 * i)) [0..<16])"
    then show "map (\<lambda>i. load32 (concat (map le32 (nonce # ins))) (4 + 4 * i)) [0..<16] ! i = ins ! i"
      using load32_words [of "Suc i" "nonce # ins"] assms(2) by simp
  qed (simp add: assms(2))
  moreover have "length (concat (map le32 (nonce # ins))) = 17 * 4" using assms(2) unfolding length_words by simp
  ultimately show ?thesis using assms(1)
    unfolding NWCProofData_def PROOF_OF_WORK_N_def PROOF_OF_WORK_K_def Let_def by simp
qed

subsection \<open>Commands of a waiting connection\<close>

lemma conn_Disconnect_ends: "0 < n \<Longrightarrow> loop_fuel (player_turn H) n (conn_Disconnect False c, w) = Some (Inr (conn_Disconnect False c, w))"
  by (cases n) (simp_all add: player_turn_def RecvCommand_def conn_Disconnect_def)

text \<open>One command on a connection with nothing left to read.\<close>

lemma handle_one:
  assumes "conn_good c" "rx c = []" "length d + 5 \<le> stream_room (m_rxStream c)" "length fresh = 256" "2 \<le> n"
    and "\<And>st. DoNetworkCommand h others k d ((ResetInactivityTimer c)\<lparr>m_rxStream := st\<rparr>, w)
      = (True, f ((ResetInactivityTimer c)\<lparr>m_rxStream := st\<rparr>), w)"
    and "\<And>c. m_rxStream (f c) = m_rxStream c"
  shows "\<exists>st. HandlePlayerData n (DoNetworkCommand h others) fresh (Some (frame (k, d))) (c, w)
    = Some (Inr (f ((ResetInactivityTimer c)\<lparr>m_rxStream := st\<rparr>), w))"
proof -
  let ?p = "frame (k, d)"
  have lp: "length ?p = length d + 5" by (simp add: frame_def)
  obtain st where st: "stream_Write fresh ?p (m_rxStream c) = Inr st" "stream_ok st" "stream_contents st = ?p"
    using stream_Write_ok [of "m_rxStream c" ?p fresh] assms(1-4) lp by (auto simp: conn_good_def)
  let ?c = "(ResetInactivityTimer c)\<lparr>m_rxStream := st\<rparr>"
  have g: "conn_good ?c" "rx ?c = ?p" using assms(1) st by (simp_all add: conn_good_def ResetInactivityTimer_def)
  have "length d < 2 ^ 32" using assms(3) by (simp add: stream_room_def)
  then have fl: "frame_len ?p = length d" using frame_len_frame [of d k "[]"] by simp
  have parts: "?p ! 0 = k" "take (length d) (drop 5 ?p) = d" "drop (length d + 5) ?p = []"
    by (simp_all add: frame_def le32_def drop_Cons' eval_nat_numeral)
  obtain st' where st': "RecvCommand ?c = Inr (Some (k, d), ?c\<lparr>m_rxStream := st'\<rparr>)" "stream_ok st'" "stream_contents st' = []"
    using recv_some [OF g(1)] g(2) lp fl parts by auto
  let ?c1 = "(ResetInactivityTimer c)\<lparr>m_rxStream := st'\<rparr>"
  have "m_rxStream (f ?c1) = st'" using assms(7) by simp
  then have "GetReadAvailable (m_rxStream (f ?c1)) = 0"
    using stream_avail(1) [OF st'(2)] st'(3) by (simp add: unat_eq_zero)
  then have e: "RecvCommand (f ?c1) = Inr (None, f ?c1)" by (simp add: RecvCommand_def)
  obtain m where n: "n = Suc (Suc m)" using assms(5) by (metis Suc_le_D numeral_2_eq_2 Suc_le_mono)
  have "ResetInactivityTimer (c\<lparr>m_rxStream := st\<rparr>) = ?c" by (simp add: ResetInactivityTimer_def)
  then show ?thesis using st(1) st'(1) e assms(6) [of st']
    by (intro exI [of _ st']) (simp add: HandlePlayerData_def ReadStream_def n player_turn_def)
qed

lemma length_frame [simp]: "length (frame (k, d)) = length d + 5"
  by (simp add: frame_def)

lemma proof_command:
  assumes "m_connectionState c = CONNECTION_WAIT_PROOF" "conn_good c" "rx c = []" "73 \<le> stream_room (m_rxStream c)"
    "length fresh = 256" "2 \<le> n" "length ins = 16" "Proof_Test h (the_proof (m_proofSeed c) nonce ins)"
  shows "\<exists>c'. HandlePlayerData n (DoNetworkCommand h others) fresh (Some (frame (15, concat (map le32 (nonce # ins))))) (c, w)
    = Some (Inr (c', w)) \<and> m_connectionState c' = CONNECTION_WAIT_AUTH"
proof -
  let ?d = "concat (map le32 (nonce # ins))"
  have "DoNetworkCommand h others 15 ?d ((ResetInactivityTimer c)\<lparr>m_rxStream := st\<rparr>, w)
      = (True, AcceptProof ((ResetInactivityTimer c)\<lparr>m_rxStream := st\<rparr>), w)" for st
    using NWCProofData_words [of "(ResetInactivityTimer c)\<lparr>m_rxStream := st\<rparr>" ins h nonce] assms(1,7,8)
    by (simp add: DoNetworkCommand_def run_handler_def g_cmdTable_def NWC_MAX_REQUESTS_def NWC_PROOF_DATA_def
        ResetInactivityTimer_def del: list.map concat.simps)
  moreover have "length ?d + 5 \<le> stream_room (m_rxStream c)" using assms(4,7) unfolding length_words by simp
  ultimately obtain st where "HandlePlayerData n (DoNetworkCommand h others) fresh (Some (frame (15, ?d))) (c, w)
      = Some (Inr (AcceptProof ((ResetInactivityTimer c)\<lparr>m_rxStream := st\<rparr>), w))"
    using handle_one [OF assms(2,3) _ assms(5,6), of ?d h others 15 w AcceptProof] by (auto simp: AcceptProof_def)
  then show ?thesis by (auto simp: AcceptProof_def)
qed

subsection \<open>The answer to a challenge\<close>

text \<open>The proofs of which every input occurs an even number of times are proofs for every hash.\<close>

lemma Test_pairs:
  assumes "proof_inputs p = concat (map (\<lambda>a. [a, a]) as)"
  shows "Proof_Test h p"
proof -
  have "block_sum B (concat (map (\<lambda>a. [a, a]) as)) j = 0" for B j
    by (induction as) (simp_all add: block_sum_def xors_def flip: xor.assoc)
  then show ?thesis unfolding Proof_Test_iff assms by simp
qed

text \<open>The sixteen words that the tool sends for what \<open>FindProof\<close> returns.\<close>

lemma tool_answer_ok:
  fixes seed :: "u8 list" and h :: pow_hash
  defines "e \<equiv> Equihash_new 105 4 (map (\<lambda>i. load32 seed (4 * i)) [0..<4])"
  defines "p \<equiv> FindProof h e"
  defines "ins \<equiv> take 16 (proof_inputs p) @ replicate (16 - length (proof_inputs p)) 0"
  shows "length ins = 16 \<and> Proof_Test h (the_proof seed (proof_nonce p) ins)"
proof -
  have "1 \<le> eq_k (e\<lparr>eq_nonce := 1\<rparr>)" "eq_bits (e\<lparr>eq_nonce := 1\<rparr>) \<le> 30"
    by (simp_all add: e_def Equihash_new_def block_bits_def)
  from find_loop_ok [OF this, of h, folded FindProof_def, folded p_def]
  have p: "p = the_proof seed (proof_nonce p) (proof_inputs p)" "Proof_Test h p"
    "proof_inputs p = [] \<or> length (proof_inputs p) = 16"
    by (cases p; auto simp: Let_def e_def Equihash_new_def)+
  show ?thesis
  proof (cases "proof_inputs p = []")
    case True
    have "replicate 16 0 = concat (map (\<lambda>a. [a, a]) (replicate 8 (0 :: u32)))" by (simp add: eval_nat_numeral)
    then have "proof_inputs (the_proof seed (proof_nonce p) (replicate 16 0)) = concat (map (\<lambda>a. [a, a]) (replicate 8 0))"
      by simp
    then have "Proof_Test h (the_proof seed (proof_nonce p) (replicate 16 0))" by (rule Test_pairs)
    then show ?thesis by (simp add: ins_def True)
  next
    case False
    then have "ins = proof_inputs p" "length ins = 16" using p(3) by (simp_all add: ins_def)
    then show ?thesis using p(1,2) by metis
  qed
qed

lemma challenge_sent:
  assumes "length seed = 16" "length fresh = 256" "\<And>msg. SendData msg = Some (of_nat (length msg))"
  shows "accept_one SendData fresh seed = Inr (CServerConnection seed, Some (frame (29, 4 # 105 # seed)))"
proof -
  obtain s1 where s1: "stream_Write fresh [4] stream_new = Inr s1" "stream_ok s1" "stream_contents s1 = [4]" "stream_room s1 = 262143"
    using stream_Write_ok [OF stream_new_ok(1), of "[4]" fresh] assms(2) by (auto simp: stream_new_ok)
  obtain s2 where s2: "stream_Write fresh [105] s1 = Inr s2" "stream_ok s2" "stream_contents s2 = [4, 105]" "stream_room s2 = 262142"
    using stream_Write_ok [OF s1(2), of "[105]" fresh] s1 assms(2) by auto
  obtain s3 where s3: "stream_Write fresh seed s2 = Inr s3" "stream_ok s3" "stream_contents s3 = 4 # 105 # seed"
    using stream_Write_ok [OF s2(2), of seed fresh] s2 assms(1,2) by auto
  have "m_pSocket (CServerConnection seed)" by (simp add: CServerConnection_def)
  from SendCommand_sends [OF this s3(2) assms(3), of 29] show ?thesis
    using s1(1) s2(1) s3(1,3) assms(1)
    by (simp add: accept_one_def NWCSendAuthProof_def PROOF_OF_WORK_K_def PROOF_OF_WORK_N_def NWC_AUTH_PROOF_def)
qed

lemma tool_answer:
  fixes h :: pow_hash
  assumes "length seed = 16"
  defines "p \<equiv> FindProof h (Equihash_new 105 4 (map (\<lambda>i. load32 seed (4 * i)) [0..<4]))"
  shows "tool_main h (print_hex (4 # 105 # seed) @ [10])
    = Some (print_hex (concat (map le32 (proof_nonce p # take 16 (proof_inputs p) @ replicate (16 - length (proof_inputs p)) 0))))"
proof -
  have l: "load32 (4 # 105 # seed) (Suc (Suc i)) = load32 seed i" for i by (simp add: load32_def)
  have "map (\<lambda>i. load32 seed (4 * i)) [0..<4] = [load32 seed 0, load32 seed 4, load32 seed 8, load32 seed 12]"
    by (simp add: upt_rec eval_nat_numeral)
  moreover have "load32 (4 # 105 # seed) 2 = load32 seed 0" "load32 (4 # 105 # seed) 6 = load32 seed 4"
    "load32 (4 # 105 # seed) 10 = load32 seed 8" "load32 (4 # 105 # seed) 14 = load32 seed 12"
    using l [of 0] l [of 4] l [of 8] l [of 12] by (simp_all add: numeral_2_eq_2)
  moreover have "fgets 512 (print_hex (4 # 105 # seed) @ [10]) = Some (print_hex (4 # 105 # seed) @ [10], [])"
    using assms(1) fgets_print [of "4 # 105 # seed" 512 "[]"] by simp
  ultimately have "tool_GetProofOfWork (print_hex (4 # 105 # seed) @ [10])
      = Some (Equihash_new 105 4 (map (\<lambda>i. load32 seed (4 * i)) [0..<4]))"
    using assms(1) by (simp add: tool_GetProofOfWork_def Convert_print)
  then show ?thesis by (simp add: tool_main_def CalculateProofOfWork_def Let_def p_def)
qed

lemma client_sends:
  assumes "conn_good c" "rx c = []" "23 \<le> stream_room (m_rxStream c)" "length seed = 16" "length fresh = 256"
    and "\<And>msg. SendData msg = Some (of_nat (length msg))" and "length answer = 68"
    and "user (print_hex (4 # 105 # seed)) = print_hex answer @ [10]"
  shows "\<exists>c'. client_GetProofOfWork fresh SendData user (Some (frame (29, 4 # 105 # seed))) c
    = Inr (True, c', Some (frame (15, answer)))"
proof -
  let ?d = "4 # 105 # seed" and ?p = "frame (29, 4 # 105 # seed)"
  obtain st where st: "stream_Write fresh ?p (m_rxStream c) = Inr st" "stream_ok st" "stream_contents st = ?p"
    using stream_Write_ok [of "m_rxStream c" ?p fresh] assms(1-5) by (auto simp: conn_good_def)
  let ?c = "c\<lparr>m_rxStream := st\<rparr>"
  have g: "conn_good ?c" "rx ?c = ?p" using assms(1) st by (simp_all add: conn_good_def)
  have fl: "frame_len ?p = length ?d" using frame_len_frame [of ?d 29 "[]"] assms(4) by simp
  have "?p ! 0 = 29" "take (length ?d) (drop 5 ?p) = ?d"
    by (simp_all add: frame_def le32_def drop_Cons' eval_nat_numeral)
  then obtain st' where st': "RecvCommand ?c = Inr (Some (29, ?d), ?c\<lparr>m_rxStream := st'\<rparr>)"
    using recv_some [OF g(1)] g(2) fl by auto
  have "fgets 511 (print_hex answer @ [10]) = Some (print_hex answer @ [10], [])"
    using assms(7) fgets_print [of answer 511 "[]"] by simp
  then show ?thesis using st(1) st' assms(1,4,6,7,8)
    by (simp add: client_GetProofOfWork_def ReadStream_def NWC_AUTH_PROOF_def Convert_print NWC_PROOF_DATA_def conn_good_def
        frame_def Let_def)
qed

text \<open>The connection of the client.\<close>

abbreviation client_conn :: conn where
  "client_conn \<equiv> (CServerConnection [])\<lparr>m_connectionState := CONNECTION_WAIT_AUTH\<rparr>"

text \<open>C8. The way in: for every hash and every challenge, when the user copies the digits that the client shows to the tool
  and the digits that the tool prints to the client, the client sends an answer that the server accepts, and the
  connection waits for a name and a password.\<close>

theorem mud_proof_accepted:
  assumes "length seed = 16" and "length fresh = 256" and "\<And>msg. SendData msg = Some (of_nat (length msg))" and "2 \<le> n"
  shows "\<exists>challenge c answer c'.
    accept_one SendData fresh seed = Inr (CServerConnection seed, Some challenge)
    \<and> client_GetProofOfWork fresh SendData (\<lambda>shown. the (tool_main h (shown @ [10])) @ [10]) (Some challenge) client_conn
        = Inr (True, c, Some answer)
    \<and> HandlePlayerData n (DoNetworkCommand h others) fresh (Some answer) (CServerConnection seed, w) = Some (Inr (c', w))
    \<and> m_connectionState c' = CONNECTION_WAIT_AUTH"
proof -
  define p where "p = FindProof h (Equihash_new 105 4 (map (\<lambda>i. load32 seed (4 * i)) [0..<4]))"
  define ins where "ins = take 16 (proof_inputs p) @ replicate (16 - length (proof_inputs p)) 0"
  define answer where "answer = concat (map le32 (proof_nonce p # ins))"
  have ins: "length ins = 16" "Proof_Test h (the_proof seed (proof_nonce p) ins)"
    using tool_answer_ok [of h seed] unfolding ins_def p_def by blast+
  have la: "length answer = 68" unfolding answer_def length_words using ins(1) by simp
  have t: "the (tool_main h (print_hex (4 # 105 # seed) @ [10])) @ [10] = print_hex answer @ [10]"
    using tool_answer [OF assms(1), of h] by (simp add: answer_def ins_def p_def)
  have c: "conn_good client_conn" "rx client_conn = []" "23 \<le> stream_room (m_rxStream client_conn)"
    by (simp_all add: conn_good_def CServerConnection_def stream_new_ok)
  obtain c1 where "client_GetProofOfWork fresh SendData (\<lambda>shown. the (tool_main h (shown @ [10])) @ [10])
      (Some (frame (29, 4 # 105 # seed))) client_conn = Inr (True, c1, Some (frame (15, answer)))"
    using client_sends [where user = "\<lambda>shown. the (tool_main h (shown @ [10])) @ [10]", OF c assms(1,2,3) la t] by blast
  moreover have "m_connectionState (CServerConnection seed) = CONNECTION_WAIT_PROOF" "m_proofSeed (CServerConnection seed) = seed"
    by (simp_all add: CServerConnection_def)
  then obtain c2 where "HandlePlayerData n (DoNetworkCommand h others) fresh (Some (frame (15, answer))) (CServerConnection seed, w)
      = Some (Inr (c2, w))" "m_connectionState c2 = CONNECTION_WAIT_AUTH"
    using proof_command [of "CServerConnection seed" fresh n ins h "proof_nonce p" others w] new_conn [of seed] assms(2,4) ins
    by (auto simp: answer_def simp del: list.map concat.simps)
  ultimately show ?thesis using challenge_sent [OF assms(1,2,3)] by blast
qed

text \<open>With a hash that is always zero.\<close>

lemma mud_proof_accepted_witness:
  "\<exists>challenge c answer c'.
    accept_one (\<lambda>msg. Some (of_nat (length msg))) (replicate 256 0) (replicate 16 1) = Inr (CServerConnection (replicate 16 1), Some challenge)
    \<and> client_GetProofOfWork (replicate 256 0) (\<lambda>msg. Some (of_nat (length msg)))
        (\<lambda>shown. the (tool_main (\<lambda>_. replicate 8 0) (shown @ [10])) @ [10]) (Some challenge) client_conn
        = Inr (True, c, Some answer)
    \<and> HandlePlayerData 2 (DoNetworkCommand (\<lambda>_. replicate 8 0) (\<lambda>_ _ cw. (True, cw))) (replicate 256 0) (Some answer)
        (CServerConnection (replicate 16 1), ()) = Some (Inr (c', ()))
    \<and> m_connectionState c' = CONNECTION_WAIT_AUTH"
  by (rule mud_proof_accepted) simp_all

text \<open>C10. The proof of work can be forged: the server does not look for inputs that occur twice, so that for every hash,
  every challenge and every nonce, sixteen inputs made of pairs of equal ones are accepted.\<close>

theorem mud_proof_forged:
  assumes "length as = 8" and "length fresh = 256" and "2 \<le> n"
  shows "\<exists>c'. HandlePlayerData n (DoNetworkCommand h others) fresh
      (Some (frame (15, concat (map le32 (nonce # concat (map (\<lambda>a. [a, a]) as)))))) (CServerConnection seed, w)
    = Some (Inr (c', w)) \<and> m_connectionState c' = CONNECTION_WAIT_AUTH"
proof (rule proof_command)
  have "length (concat (map (\<lambda>a. [a, a]) as)) = 2 * length as" by (induction as) simp_all
  then show "length (concat (map (\<lambda>a. [a, a]) as)) = 16" using assms(1) by simp
  show "Proof_Test h (the_proof (m_proofSeed (CServerConnection seed)) nonce (concat (map (\<lambda>a. [a, a]) as)))"
    by (rule Test_pairs) simp
qed (use assms new_conn in \<open>simp_all add: CServerConnection_def\<close>)

lemma mud_proof_forged_witness:
  "\<exists>c'. HandlePlayerData 2 (DoNetworkCommand (\<lambda>ws. ws @ [7, 7]) (\<lambda>_ _ cw. (True, cw))) (replicate 256 0)
      (Some (frame (15, concat (map le32 (9 # concat (map (\<lambda>a. [a, a]) [1, 2, 3, 4, 5, 6, 7, 8]))))))
      (CServerConnection (replicate 16 1), ())
    = Some (Inr (c', ())) \<and> m_connectionState c' = CONNECTION_WAIT_AUTH"
  by (rule mud_proof_forged) simp_all

subsection \<open>The gate\<close>

lemma gate_closed:
  assumes "m_connectionState c = CONNECTION_WAIT_PROOF" "k = 15 \<longrightarrow> \<not> fst (NWCProofData h d c)"
  shows "DoNetworkCommand h others k d (c, w) = (False, c, w)"
proof (cases "k = 15")
  case True
  then have "NWCProofData h d c = (False, c)" using assms by (auto simp: NWCProofData_def Let_def split: if_splits)
  then show ?thesis using assms(1) True
    by (simp add: DoNetworkCommand_def run_handler_def g_cmdTable_def NWC_MAX_REQUESTS_def NWC_PROOF_DATA_def)
qed (simp add: DoNetworkCommand_def NWC_PROOF_DATA_def assms(1))

text \<open>C9. Nobody passes the gate without an accepted answer: if the first command that is complete in what has arrived on a
  connection that waits for a proof is not an accepted one, then the rest of the world is as it was, whatever the other
  handlers do, and the connection is still waiting or closed.\<close>

theorem mud_gate:
  assumes "m_connectionState c = CONNECTION_WAIT_PROOF" and "conn_good c" and "frames_ok (rx c @ p)"
    and "length p \<le> stream_room (m_rxStream c)" and "length fresh = 256" and "2 \<le> n"
    and "case fst (frames (rx c @ p)) of [] \<Rightarrow> True | (k, d) # _ \<Rightarrow> k = 15 \<longrightarrow> \<not> fst (NWCProofData h d c)"
  shows "\<exists>c'. HandlePlayerData n (DoNetworkCommand h others) fresh (Some p) (c, w) = Some (Inr (c', w))
    \<and> m_connectionState c' \<in> {CONNECTION_WAIT_PROOF, CONNECTION_DISCONNECT}"
proof -
  obtain st where st: "stream_Write fresh p (m_rxStream c) = Inr st" "stream_ok st" "stream_contents st = rx c @ p"
    using stream_Write_ok [of "m_rxStream c" p fresh] assms by (auto simp: conn_good_def)
  let ?c = "(ResetInactivityTimer c)\<lparr>m_rxStream := st\<rparr>" and ?bs = "rx c @ p"
  have g: "conn_good ?c" "rx ?c = ?bs" using assms(2) st by (simp_all add: conn_good_def ResetInactivityTimer_def)
  have eq: "ResetInactivityTimer (c\<lparr>m_rxStream := st\<rparr>) = ?c" by (simp add: ResetInactivityTimer_def)
  have h: "HandlePlayerData n (DoNetworkCommand h others) fresh (Some p) (c, w)
      = loop_fuel (player_turn (DoNetworkCommand h others)) n (?c, w)"
    using st(1) eq by (simp add: HandlePlayerData_def ReadStream_def)
  obtain m where n: "n = Suc m" "0 < m" using assms(6) by (cases n) auto
  show ?thesis
  proof (cases "length ?bs < 5 \<or> length ?bs < frame_len ?bs + 5")
    case True
    then have "RecvCommand ?c = Inr (None, ?c)"
      using recv_none [OF g(1)] assms(3) frames_ok.simps [of ?bs] unfolding g(2) by (auto split: if_splits)
    then show ?thesis using h n(1) assms(1) by (simp add: player_turn_def ResetInactivityTimer_def)
  next
    case False
    let ?d = "take (frame_len ?bs) (drop 5 ?bs)"
    obtain st' where st': "RecvCommand ?c = Inr (Some (?bs ! 0, ?d), ?c\<lparr>m_rxStream := st'\<rparr>)"
      using recv_some [OF g(1)] False unfolding g(2) not_less by (auto simp: not_less)
    let ?c1 = "?c\<lparr>m_rxStream := st'\<rparr>"
    have "fst (NWCProofData h ?d ?c1) = fst (NWCProofData h ?d c)"
      by (simp add: NWCProofData_def Let_def ResetInactivityTimer_def)
    moreover have "?bs ! 0 = 15 \<longrightarrow> \<not> fst (NWCProofData h ?d c)"
      using assms(7) False by (simp add: frames.simps [of ?bs] case_prod_beta)
    ultimately have "DoNetworkCommand h others (?bs ! 0) ?d (?c1, w) = (False, ?c1, w)"
      using assms(1) by (intro gate_closed) (simp_all add: ResetInactivityTimer_def)
    then have "player_turn (DoNetworkCommand h others) (?c, w) = Inr (Inl (conn_Disconnect False ?c1, w))"
      using st' by (simp add: player_turn_def)
    then have "HandlePlayerData n (DoNetworkCommand h others) fresh (Some p) (c, w) = Some (Inr (conn_Disconnect False ?c1, w))"
      unfolding h unfolding n(1) using conn_Disconnect_ends [OF n(2)] by simp
    then show ?thesis by (simp add: conn_Disconnect_def)
  qed
qed

text \<open>A login without a proof.\<close>

lemma mud_gate_witness:
  "\<exists>c'. HandlePlayerData 2 (DoNetworkCommand (\<lambda>ws. ws @ [7, 7]) (\<lambda>_ _ (c, n). (True, c, n + 1))) (replicate 256 0)
      (Some [0, 0, 0, 0, 0]) (CServerConnection (replicate 16 1), 0 :: nat) = Some (Inr (c', 0))
    \<and> m_connectionState c' \<in> {CONNECTION_WAIT_PROOF, CONNECTION_DISCONNECT}"
proof (rule mud_gate)
  have fl: "frame_len [0, 0, 0, 0, 0] = 0" by (simp add: frame_len_bytes)
  then have f: "frames [0, 0, 0, 0, 0] = ([(0, [])], [])" "frames_ok [0, 0, 0, 0, 0]"
    by (simp_all add: frames.simps frames_ok.simps)
  show "frames_ok (rx (CServerConnection (replicate 16 1)) @ [0, 0, 0, 0, 0])" using f by (simp add: new_conn)
  show "case fst (frames (rx (CServerConnection (replicate 16 1)) @ [0, 0, 0, 0, 0])) of [] \<Rightarrow> True
    | (k, d) # _ \<Rightarrow> k = 15 \<longrightarrow> \<not> fst (NWCProofData (\<lambda>ws. ws @ [7, 7]) d (CServerConnection (replicate 16 1)))"
    using f by (simp add: new_conn)
  show "conn_good (CServerConnection (replicate 16 1))" by (rule new_conn)
qed (simp_all add: CServerConnection_def stream_new_ok)

end
