(* ===== verification/Babyint_List.thy ===== *)
theory Babyint_List
  imports Prelude
begin

text \<open>
  The doubly linked list of the segment assembler (\<open>src/babyint/server/doublelist.cpp\<close>, \<open>doublelist.h\<close>): links that
  know their neighbours and their list, in a heap of addresses. A list is known by a number. A pointer is \<open>None\<close> where
  it is \<open>NULL\<close>; an access through a pointer to nothing is an error value.
\<close>

datatype heap_error = Bad_Pointer | Bad_Alloc | Heap_Overflow

record link =
  lk_next :: "nat option"
  lk_prev :: "nat option"
  lk_list :: "nat option"

record dlist =
  m_itemCount :: u32
  m_pFirst :: "nat option"
  m_pLast :: "nat option"

record 'x dl_state =
  links :: "nat \<rightharpoonup> 'x link_scheme"
  lists :: "nat \<Rightarrow> dlist"

definition deref :: "nat \<Rightarrow> 'x dl_state \<Rightarrow> heap_error + 'x link_scheme" where
  "deref p s = (case links s p of None \<Rightarrow> Inl Bad_Pointer | Some l \<Rightarrow> Inr l)"

definition upd_link :: "nat \<Rightarrow> ('x link_scheme \<Rightarrow> 'x link_scheme) \<Rightarrow> 'x dl_state \<Rightarrow> heap_error + 'x dl_state" where
  "upd_link p f s = (case links s p of None \<Rightarrow> Inl Bad_Pointer | Some l \<Rightarrow> Inr (s\<lparr>links := (links s)(p \<mapsto> f l)\<rparr>))"

definition upd_list :: "nat \<Rightarrow> (dlist \<Rightarrow> dlist) \<Rightarrow> 'x dl_state \<Rightarrow> 'x dl_state" where
  "upd_list i f s = s\<lparr>lists := (lists s)(i := f (lists s i))\<rparr>"

text \<open>The same through a pointer that may be \<open>NULL\<close>, where nothing is done then.\<close>

definition upd_opt :: "nat option \<Rightarrow> ('x link_scheme \<Rightarrow> 'x link_scheme) \<Rightarrow> 'x dl_state \<Rightarrow> heap_error + 'x dl_state" where
  "upd_opt p f s = (case p of None \<Rightarrow> Inr s | Some x \<Rightarrow> upd_link x f s)"

definition AddToList :: "nat \<Rightarrow> nat \<Rightarrow> 'x dl_state \<Rightarrow> heap_error + (bool \<times> 'x dl_state)" where
  "AddToList i x s = andThen (upd_link x (lk_list_update (\<lambda>_. Some i)) s)
     (\<lambda>s. Inr (True, upd_list i (m_itemCount_update (\<lambda>n. n + 1)) s))"

definition GetNext :: "nat \<Rightarrow> nat option \<Rightarrow> 'x dl_state \<Rightarrow> heap_error + nat option" where
  "GetNext i pCur s = (case pCur of None \<Rightarrow> Inr None
     | Some x \<Rightarrow> andThen (deref x s) (\<lambda>l. Inr (if lk_list l \<noteq> Some i then None else lk_next l)))"

definition GetPrev :: "nat \<Rightarrow> nat option \<Rightarrow> 'x dl_state \<Rightarrow> heap_error + nat option" where
  "GetPrev i pCur s = (case pCur of None \<Rightarrow> Inr None
     | Some x \<Rightarrow> andThen (deref x s) (\<lambda>l. Inr (if lk_list l \<noteq> Some i then None else lk_prev l)))"

definition AddFirst :: "nat \<Rightarrow> nat option \<Rightarrow> 'x dl_state \<Rightarrow> heap_error + (bool \<times> 'x dl_state)" where
  "AddFirst i pItem s = (case pItem of None \<Rightarrow> Inr (False, s)
     | Some x \<Rightarrow> andThen (deref x s) (\<lambda>l.
         if lk_list l \<noteq> None then Inr (False, s)
         else andThen
           (case m_pFirst (lists s i) of
              None \<Rightarrow> andThen (upd_link x (\<lambda>l. l\<lparr>lk_prev := None, lk_next := None\<rparr>) s)
                (\<lambda>s. Inr (upd_list i (\<lambda>d. d\<lparr>m_pLast := Some x, m_pFirst := Some x\<rparr>) s))
            | Some f \<Rightarrow> andThen (upd_link x (\<lambda>l. l\<lparr>lk_next := Some f\<rparr>) s)
                (\<lambda>s. andThen (upd_link f (\<lambda>l. l\<lparr>lk_prev := Some x\<rparr>) s)
                (\<lambda>s. andThen (upd_link x (\<lambda>l. l\<lparr>lk_prev := None\<rparr>) s)
                (\<lambda>s. Inr (upd_list i (\<lambda>d. d\<lparr>m_pFirst := Some x\<rparr>) s)))))
           (AddToList i x)))"

definition AddLast :: "nat \<Rightarrow> nat option \<Rightarrow> 'x dl_state \<Rightarrow> heap_error + (bool \<times> 'x dl_state)" where
  "AddLast i pItem s = (case pItem of None \<Rightarrow> Inr (False, s)
     | Some x \<Rightarrow> andThen (deref x s) (\<lambda>l.
         if lk_list l \<noteq> None then Inr (False, s)
         else andThen
           (case m_pFirst (lists s i) of
              None \<Rightarrow> andThen (upd_link x (\<lambda>l. l\<lparr>lk_prev := None, lk_next := None\<rparr>) s)
                (\<lambda>s. Inr (upd_list i (\<lambda>d. d\<lparr>m_pLast := Some x, m_pFirst := Some x\<rparr>) s))
            | Some f \<Rightarrow> andThen (upd_link x (\<lambda>l. l\<lparr>lk_next := None\<rparr>) s)
                (\<lambda>s. andThen (upd_link x (\<lambda>l. l\<lparr>lk_prev := m_pLast (lists s i)\<rparr>) s)
                (\<lambda>s. andThen (case m_pLast (lists s i) of None \<Rightarrow> Inl Bad_Pointer
                     | Some z \<Rightarrow> upd_link z (\<lambda>l. l\<lparr>lk_next := Some x\<rparr>) s)
                (\<lambda>s. Inr (upd_list i (\<lambda>d. d\<lparr>m_pLast := Some x\<rparr>) s)))))
           (AddToList i x)))"

definition AddAfter :: "nat \<Rightarrow> nat option \<Rightarrow> nat option \<Rightarrow> 'x dl_state \<Rightarrow> heap_error + (bool \<times> 'x dl_state)" where
  "AddAfter i pPrev pItem s = (case pPrev of None \<Rightarrow> AddFirst i pItem s
     | Some p \<Rightarrow> (case pItem of None \<Rightarrow> Inr (False, s)
       | Some x \<Rightarrow> andThen (deref x s) (\<lambda>l.
           if lk_list l \<noteq> None then Inr (False, s)
           else andThen (deref p s) (\<lambda>lp.
             if lk_list lp \<noteq> Some i then Inr (False, s)
             else andThen (upd_link x (\<lambda>l. l\<lparr>lk_next := lk_next lp\<rparr>) s)
               (\<lambda>s. andThen (upd_link x (\<lambda>l. l\<lparr>lk_prev := Some p\<rparr>) s)
               (\<lambda>s. andThen (upd_opt (lk_next lp) (\<lambda>l. l\<lparr>lk_prev := Some x\<rparr>) s)
               (\<lambda>s. andThen (upd_link p (\<lambda>l. l\<lparr>lk_next := Some x\<rparr>) s)
               (\<lambda>s. AddToList i x (if m_pLast (lists s i) = Some p then upd_list i (\<lambda>d. d\<lparr>m_pLast := Some x\<rparr>) s else s)))))))))"

definition RemoveLink :: "nat \<Rightarrow> nat option \<Rightarrow> 'x dl_state \<Rightarrow> heap_error + (bool \<times> 'x dl_state)" where
  "RemoveLink i pItem s = (case pItem of None \<Rightarrow> Inr (False, s)
     | Some x \<Rightarrow> andThen (deref x s) (\<lambda>l.
         if lk_list l \<noteq> Some i then Inr (False, s)
         else andThen (upd_opt (lk_next l) (\<lambda>n. n\<lparr>lk_prev := lk_prev l\<rparr>) s)
           (\<lambda>s. andThen (upd_opt (lk_prev l) (\<lambda>n. n\<lparr>lk_next := lk_next l\<rparr>) s)
           (\<lambda>s. let s = (if m_pLast (lists s i) = Some x then upd_list i (\<lambda>d. d\<lparr>m_pLast := lk_prev l\<rparr>) s else s);
                    s = (if m_pFirst (lists s i) = Some x then upd_list i (\<lambda>d. d\<lparr>m_pFirst := lk_next l\<rparr>) s else s)
                in andThen (upd_link x (\<lambda>n. n\<lparr>lk_list := None\<rparr>) s)
                  (\<lambda>s. Inr (True, upd_list i (m_itemCount_update (\<lambda>n. n - 1)) s))))))"

definition RemoveFirst :: "nat \<Rightarrow> 'x dl_state \<Rightarrow> heap_error + (nat option \<times> 'x dl_state)" where
  "RemoveFirst i s = (let pItem = m_pFirst (lists s i) in andThen (RemoveLink i pItem s) (\<lambda>(_, s). Inr (pItem, s)))"

definition RemoveLast :: "nat \<Rightarrow> 'x dl_state \<Rightarrow> heap_error + (nat option \<times> 'x dl_state)" where
  "RemoveLast i s = (let pItem = m_pLast (lists s i) in andThen (RemoveLink i pItem s) (\<lambda>(_, s). Inr (pItem, s)))"

definition Unlink :: "nat \<Rightarrow> 'x dl_state \<Rightarrow> heap_error + (bool \<times> 'x dl_state)" where
  "Unlink x s = andThen (deref x s) (\<lambda>l. case lk_list l of None \<Rightarrow> Inr (False, s) | Some i \<Rightarrow> RemoveLink i (Some x) s)"

text \<open>\<open>delete\<close> of a link: its destructor, and its memory is gone.\<close>

definition delete_link :: "nat \<Rightarrow> 'x dl_state \<Rightarrow> heap_error + 'x dl_state" where
  "delete_link x s = andThen (Unlink x s) (\<lambda>(_, s). Inr (s\<lparr>links := (links s)(x := None)\<rparr>))"

definition delete_last :: "nat \<Rightarrow> 'x dl_state \<Rightarrow> heap_error + 'x dl_state" where
  "delete_last i s = (case m_pLast (lists s i) of None \<Rightarrow> Inr s | Some x \<Rightarrow> delete_link x s)"

definition DeleteAll :: "nat \<Rightarrow> nat \<Rightarrow> 'x dl_state \<Rightarrow> (heap_error + 'x dl_state) option" where
  "DeleteAll n i s = map_option (\<lambda>r. andThen r (\<lambda>s. Inr (upd_list i (\<lambda>d. d\<lparr>m_itemCount := 0\<rparr>) s)))
     (run_fuel (\<lambda>s. m_pLast (lists s i) = None) (delete_last i) n s)"

text \<open>A new link, as its constructor leaves it, and a new list.\<close>

definition new_link :: "nat \<Rightarrow> 'x link_scheme \<Rightarrow> 'x dl_state \<Rightarrow> 'x dl_state" where
  "new_link x l s = s\<lparr>links := (links s)(x \<mapsto> l\<lparr>lk_next := None, lk_prev := None, lk_list := None\<rparr>)\<rparr>"

definition CDoubleList :: dlist where
  "CDoubleList = \<lparr>m_itemCount = 0, m_pFirst = None, m_pLast = None\<rparr>"

end
