(* ===== verification/Babyint.thy ===== *)
theory Babyint
  imports Babyint_List Hex
begin

unbundle bit_operations_syntax

text \<open>
  The segment assembler of \<open>src/babyint/server/main.cpp\<close>: data segments in the lists of 256 sequences, the length of
  a sequence in sixteen bits, the reading of segments from lines of text, and the loop of the service. Memory is
  allocated at addresses that are not given out twice. \<open>garbage n\<close> is what a new buffer of \<open>n\<close> bytes holds. An allocation
  of a negative size throws and ends the service: \<open>Bad_Alloc\<close>. A write outside a buffer has no defined behaviour; the model
  stops there with \<open>Heap_Overflow\<close>, while the code goes on with whatever the write has left. What is printed is a list of
  events; the prompts are left out.
\<close>

record segment = link +
  m_offset :: u16
  m_length :: u8
  m_pData :: "u8 list"

record receiver =
  rx_dl :: "unit segment_ext dl_state"
  rx_total :: "nat \<Rightarrow> u16"
  rx_fresh :: nat

definition receiver_new :: receiver where
  "receiver_new = \<lparr>rx_dl = \<lparr>links = Map.empty, lists = \<lambda>_. CDoubleList\<rparr>, rx_total = \<lambda>_. 0, rx_fresh = 0\<rparr>"

definition AddSegment :: "nat \<Rightarrow> u16 \<Rightarrow> u8 list \<Rightarrow> receiver \<Rightarrow> heap_error + receiver" where
  "AddSegment i offset pData r =
     (let dataLen = (of_nat (length pData) :: u8);
          total = (rx_total r)(i := rx_total r i + ucast dataLen);
          x = rx_fresh r;
          dl = new_link x \<lparr>lk_next = None, lk_prev = None, lk_list = None, m_offset = offset, m_length = dataLen,
                 m_pData = take (unat dataLen) pData\<rparr> (rx_dl r)
      in andThen (AddLast i (Some x) dl) (\<lambda>(_, dl). Inr (r\<lparr>rx_dl := dl, rx_total := total, rx_fresh := x + 1\<rparr>)))"

text \<open>One segment into the buffer.\<close>

definition copy_segment :: "unit segment_ext dl_state \<Rightarrow> nat \<Rightarrow> u8 list \<Rightarrow> heap_error + u8 list" where
  "copy_segment dl x buf = andThen (deref x dl) (\<lambda>l.
     let pos = unat (m_offset l); bytes = take (unat (m_length l)) (m_pData l)
     in if pos + length bytes \<le> length buf then Inr (take pos buf @ bytes @ drop (pos + length bytes) buf)
        else Inl Heap_Overflow)"

definition AssembleSegments :: "nat \<Rightarrow> (nat \<Rightarrow> u8 list) \<Rightarrow> nat \<Rightarrow> receiver \<Rightarrow> (heap_error + u8 list option) option" where
  "AssembleSegments n garbage i r =
     (let total = sint (rx_total r i) in
      if total = 0 then Some (Inr None)
      else if total < 0 then Some (Inl Bad_Alloc)
      else map_option (\<lambda>res. andThen res (\<lambda>buf. Inr (Some buf)))
        (visit (\<lambda>x. GetNext i (Some x) (rx_dl r)) (copy_segment (rx_dl r)) n (m_pFirst (lists (rx_dl r) i)) (garbage (nat total))))"

definition Reset :: "nat \<Rightarrow> nat \<Rightarrow> receiver \<Rightarrow> (heap_error + receiver) option" where
  "Reset n i r = map_option (\<lambda>res. andThen res (\<lambda>dl. Inr (r\<lparr>rx_dl := dl, rx_total := (rx_total r)(i := 0)\<rparr>)))
     (DeleteAll n i (rx_dl r))"

subsection \<open>Lines\<close>

text \<open>The loop of \<open>ConvertHexStringToData\<close>, which writes to \<open>pTemp\<close>.\<close>

fun bi_hex_loop :: "u8 list \<Rightarrow> nat \<Rightarrow> u8 list \<Rightarrow> heap_error + (nat \<times> u8 list)" where
  "bi_hex_loop [] pos pTemp = Inr (pos, pTemp)"
| "bi_hex_loop (c # str) pos pTemp =
     (if c \<noteq> 0 \<and> c \<noteq> 10 then
        if length pTemp \<le> pos div 2 then Inl Heap_Overflow
        else bi_hex_loop str (pos + 1) (if pos mod 2 = 0 then pTemp[pos div 2 := AsciiToHex c]
          else pTemp[pos div 2 := push_bit 4 (pTemp ! (pos div 2)) OR AsciiToHex c])
      else Inr (pos, pTemp))"

definition bi_ConvertHex :: "u8 list \<Rightarrow> heap_error + u8 list" where
  "bi_ConvertHex str =
     andThen (bi_hex_loop str 0 (replicate (length (takeWhile (\<lambda>c. c \<noteq> 0) str) div 2) 0))
       (\<lambda>(pos, pTemp). Inr (take (if pos mod 2 = 0 then pos div 2 else pos div 2 + 1) pTemp))"

text \<open>\<open>Yes\<close> and \<open>No\<close>, and neither.\<close>

definition read_lsf :: "u8 list \<Rightarrow> bool option" where
  "read_lsf szLine = (if take 3 szLine = [89, 101, 115] then Some True else if take 2 szLine = [78, 111] then Some False else None)"

subsection \<open>The service\<close>

datatype bi_event = Rx_Pdu nat nat | Invalid_Data | Assembled nat "u8 list"

text \<open>What is done with a segment that has been read: what is printed, and the state; \<open>None\<close> for the end of the service.\<close>

definition process_pdu :: "(nat \<Rightarrow> u8 list) \<Rightarrow> nat \<Rightarrow> u16 \<Rightarrow> u8 list \<Rightarrow> bool \<Rightarrow> receiver
    \<Rightarrow> (bi_event list \<times> (heap_error + receiver option)) option" where
  "process_pdu garbage i offset pData lsfFlag r =
     (let rx = Rx_Pdu i (length pData) in
      case AddSegment i offset pData r of Inl e \<Rightarrow> Some ([rx], Inl e)
      | Inr r1 \<Rightarrow>
        if lsfFlag then
          (case AssembleSegments (Suc (rx_fresh r1)) garbage i r1 of None \<Rightarrow> None
           | Some (Inl e) \<Rightarrow> Some ([rx], Inl e)
           | Some (Inr None) \<Rightarrow> Some ([rx], Inr None)
           | Some (Inr (Some pAssembledData)) \<Rightarrow>
             (case Reset (Suc (rx_fresh r1)) i r1 of None \<Rightarrow> None
              | Some (Inl e) \<Rightarrow> Some ([rx], Inl e)
              | Some (Inr r2) \<Rightarrow> Some ([rx, Assembled i pAssembledData], Inr (Some r2))))
        else Some ([rx], Inr (Some r1)))"

text \<open>A turn of the loop: what is printed, and the state with the rest of the input; \<open>None\<close> ends the service.\<close>

definition receive_turn :: "(nat \<Rightarrow> u8 list) \<Rightarrow> receiver \<Rightarrow> u8 list
    \<Rightarrow> (bi_event list \<times> (heap_error + (receiver \<times> u8 list) option)) option" where
  "receive_turn garbage r input =
     (case fgets 255 input of None \<Rightarrow> Some ([], Inr None)
      | Some (szLine, input1) \<Rightarrow>
        (let seqNum = (of_int (atol szLine) :: u32) in
         if seqNum > 255 then Some ([], Inr None)
         else case fgets 255 input1 of None \<Rightarrow> Some ([], Inr None)
         | Some (szLine, input2) \<Rightarrow>
           (let offset = (of_int (atol szLine) :: u32) in
            if offset > 65535 then Some ([], Inr None)
            else case fgets 768 input2 of None \<Rightarrow> Some ([], Inr None)
            | Some (szLine, input3) \<Rightarrow>
              (case bi_ConvertHex szLine of Inl e \<Rightarrow> Some ([], Inl e)
               | Inr pData \<Rightarrow>
                 if pData = [] then Some ([], Inr None)
                 else if length pData > 255 then Some ([Invalid_Data], Inr (Some (r, input3)))
                 else case fgets 768 input3 of None \<Rightarrow> Some ([], Inr None)
                 | Some (szLine, input4) \<Rightarrow>
                   (case read_lsf szLine of None \<Rightarrow> Some ([], Inr None)
                    | Some lsfFlag \<Rightarrow>
                      (case process_pdu garbage (unat seqNum) (ucast offset) pData lsfFlag r of None \<Rightarrow> None
                       | Some (evs, res) \<Rightarrow> Some (evs, andThen res (\<lambda>res. Inr (map_option (\<lambda>r1. (r1, input4)) res)))))))))"

text \<open>The whole service: what it has printed when it ends, or when an error ends it.\<close>

fun RunReceiver :: "nat \<Rightarrow> (nat \<Rightarrow> u8 list) \<Rightarrow> receiver \<Rightarrow> u8 list \<Rightarrow> bi_event list \<Rightarrow> (bi_event list \<times> heap_error option) option" where
  "RunReceiver 0 garbage r input out = None"
| "RunReceiver (Suc n) garbage r input out =
     (case receive_turn garbage r input of None \<Rightarrow> None
      | Some (evs, Inl e) \<Rightarrow> Some (out @ evs, Some e)
      | Some (evs, Inr None) \<Rightarrow> Some (out @ evs, None)
      | Some (evs, Inr (Some (r1, input1))) \<Rightarrow> RunReceiver n garbage r1 input1 (out @ evs))"

end
