(* ===== verification/Babyint_List_Props.thy ===== *)
theory Babyint_List_Props
  imports Babyint_List
begin

text \<open>
  The doubly linked lists are lists: what the heap represents, the operations one by one, and the refinement of the
  specification, with errors exactly where the specification has them. The interface that the assembler uses is the
  locale \<open>item_list\<close>.
\<close>

subsection \<open>What the heap represents\<close>

fun first_of :: "nat list \<Rightarrow> nat option \<Rightarrow> nat option" where
  "first_of [] n = n"
| "first_of (x # _) _ = Some x"

definition last_of :: "nat option \<Rightarrow> nat list \<Rightarrow> nat option" where
  "last_of p xs = (if xs = [] then p else Some (last xs))"

lemma last_of_simps [simp]: "last_of p [] = p" "last_of p (x # xs) = last_of (Some x) xs" "last_of p (xs @ [x]) = Some x"
  by (auto simp: last_of_def)

lemma first_of_append: "first_of (xs @ ys) n = first_of xs (first_of ys n)"
  by (cases xs) simp_all

lemma last_of_append: "last_of p (xs @ ys) = last_of (last_of p xs) ys"
  by (auto simp: last_of_def)

text \<open>The links \<open>xs\<close> one after the other, between the links \<open>p\<close> and \<open>n\<close>.\<close>

fun dlseg :: "(nat \<rightharpoonup> 'x link_scheme) \<Rightarrow> nat \<Rightarrow> nat option \<Rightarrow> nat list \<Rightarrow> nat option \<Rightarrow> bool" where
  "dlseg h i p [] n \<longleftrightarrow> True"
| "dlseg h i p (x # xs) n \<longleftrightarrow> (\<exists>l. h x = Some l \<and> lk_prev l = p \<and> lk_list l = Some i \<and> lk_next l = first_of xs n)
     \<and> dlseg h i (Some x) xs n"

lemma dlseg_append: "dlseg h i p (a @ b) n \<longleftrightarrow> dlseg h i p a (first_of b n) \<and> dlseg h i (last_of p a) b n"
  by (induction a arbitrary: p) (auto simp: first_of_append)

lemma dlseg_upd [simp]: "x \<notin> set xs \<Longrightarrow> dlseg (h(x := v)) i p xs n = dlseg h i p xs n"
  by (induction xs arbitrary: p) auto

lemma dlseg_mem: "dlseg h i p xs n \<Longrightarrow> x \<in> set xs \<Longrightarrow> \<exists>l. h x = Some l \<and> lk_list l = Some i"
  by (induction xs arbitrary: p) auto

lemma dlseg_mid:
  assumes "dlseg h i p (a @ x # b) n"
  shows "\<exists>l. h x = Some l \<and> lk_prev l = last_of p a \<and> lk_list l = Some i \<and> lk_next l = first_of b n"
  using assms by (auto simp: dlseg_append)

text \<open>The pointer to what comes next, and the pointer to what comes before, at the ends of a segment.\<close>

definition set_last :: "nat list \<Rightarrow> nat option \<Rightarrow> (nat \<rightharpoonup> 'x link_scheme) \<Rightarrow> nat \<rightharpoonup> 'x link_scheme" where
  "set_last xs n h = (if xs = [] then h else h(last xs := map_option (\<lambda>l. l\<lparr>lk_next := n\<rparr>) (h (last xs))))"

definition set_first :: "nat list \<Rightarrow> nat option \<Rightarrow> (nat \<rightharpoonup> 'x link_scheme) \<Rightarrow> nat \<rightharpoonup> 'x link_scheme" where
  "set_first xs p h = (if xs = [] then h else h(hd xs := map_option (\<lambda>l. l\<lparr>lk_prev := p\<rparr>) (h (hd xs))))"

lemma dlseg_set_last: "dlseg h i p xs n \<Longrightarrow> distinct xs \<Longrightarrow> dlseg (set_last xs n' h) i p xs n'"
proof (cases xs rule: rev_cases)
  case (snoc ys z)
  assume "dlseg h i p xs n" "distinct xs"
  with snoc show ?thesis by (auto simp: set_last_def dlseg_append)
qed (simp add: set_last_def)

lemma dlseg_set_first: "dlseg h i p xs n \<Longrightarrow> distinct xs \<Longrightarrow> dlseg (set_first xs p' h) i p' xs n"
  by (cases xs) (auto simp: set_first_def)

lemma dlseg_set_last_other [simp]: "set xs \<inter> set ys = {} \<Longrightarrow> dlseg (set_last ys n' h) i p xs n = dlseg h i p xs n"
  by (cases ys rule: rev_cases) (auto simp: set_last_def)

lemma dlseg_set_first_other [simp]: "set xs \<inter> set ys = {} \<Longrightarrow> dlseg (set_first ys n' h) i p xs n = dlseg h i p xs n"
  by (cases ys) (auto simp: set_first_def)

lemma set_ends_dom [simp]: "dom (set_last xs n h) = dom h" "dom (set_first xs n h) = dom h"
  by (auto simp: set_last_def set_first_def split: if_splits)

lemma set_ends_list: "set_last xs n h x = Some l \<Longrightarrow> \<exists>l0. h x = Some l0 \<and> lk_list l0 = lk_list l"
  "set_first xs n h x = Some l \<Longrightarrow> \<exists>l0. h x = Some l0 \<and> lk_list l0 = lk_list l"
  by (auto simp: set_last_def set_first_def split: if_splits)

definition is_list :: "'x dl_state \<Rightarrow> nat \<Rightarrow> nat list \<Rightarrow> bool" where
  "is_list s i xs \<longleftrightarrow> dlseg (links s) i None xs None \<and> distinct xs
     \<and> lists s i = \<lparr>m_itemCount = of_nat (length xs), m_pFirst = first_of xs None, m_pLast = last_of None xs\<rparr>"

text \<open>The links \<open>A\<close> exist, the lists are \<open>L\<close>, and a link that says it is in a list is in it.\<close>

definition dl_ok :: "'x dl_state \<Rightarrow> nat set \<Rightarrow> (nat \<Rightarrow> nat list) \<Rightarrow> bool" where
  "dl_ok s A L \<longleftrightarrow> dom (links s) = A \<and> (\<forall>i. is_list s i (L i))
     \<and> (\<forall>x l i. links s x = Some l \<longrightarrow> lk_list l = Some i \<longrightarrow> x \<in> set (L i))"

lemma dl_ok_list: "dl_ok s A L \<Longrightarrow> links s x = Some l \<Longrightarrow> lk_list l = Some i \<longleftrightarrow> x \<in> set (L i)"
  using dlseg_mem by (fastforce simp: dl_ok_def is_list_def)

lemma dl_ok_free: "dl_ok s A L \<Longrightarrow> links s x = Some l \<Longrightarrow> lk_list l = None \<longleftrightarrow> (\<forall>i. x \<notin> set (L i))"
  using dl_ok_list by (metis not_Some_eq)

lemma dl_ok_disjoint:
  assumes "dl_ok s A L" "j \<noteq> i"
  shows "set (L j) \<inter> set (L i) = {}"
proof (rule ccontr)
  assume "set (L j) \<inter> set (L i) \<noteq> {}"
  then obtain y where y: "y \<in> set (L j)" "y \<in> set (L i)" by blast
  have "dlseg (links s) j None (L j) None" "dlseg (links s) i None (L i) None"
    using assms(1) by (simp_all add: dl_ok_def is_list_def)
  from dlseg_mem [OF this(1) y(1)] dlseg_mem [OF this(2) y(2)] assms(2) show False by auto
qed

lemma dl_ok_deref: "dl_ok s A L \<Longrightarrow> x \<notin> A \<Longrightarrow> links s x = None"
  by (auto simp: dl_ok_def)

subsection \<open>Putting a link in\<close>

definition ins_heap :: "nat \<Rightarrow> nat list \<Rightarrow> nat \<Rightarrow> nat list \<Rightarrow> (nat \<rightharpoonup> 'x link_scheme) \<Rightarrow> nat \<rightharpoonup> 'x link_scheme" where
  "ins_heap i a x b h = (set_last a (Some x) (set_first b (Some x) h))
     (x := map_option (\<lambda>l. l\<lparr>lk_next := first_of b None, lk_prev := last_of None a, lk_list := Some i\<rparr>) (h x))"

lemma ins_ok:
  assumes ok: "dl_ok s A L" and Li: "L i = a @ b" and x: "links s x = Some l" "lk_list l = None"
  shows "dl_ok (s\<lparr>links := ins_heap i a x b (links s), lists := (lists s)(i := \<lparr>m_itemCount = m_itemCount (lists s i) + 1,
      m_pFirst = first_of (a @ x # b) None, m_pLast = last_of None (a @ x # b)\<rparr>)\<rparr>) A (L(i := a @ x # b))" (is "dl_ok ?s A ?L")
proof -
  have free: "x \<notin> set (L j)" for j using dl_ok_free [OF ok x(1)] x(2) by simp
  have seg: "dlseg (links s) i None a (first_of b None)" "dlseg (links s) i (last_of None a) b None" "distinct (a @ b)"
    using ok Li by (metis dl_ok_def is_list_def dlseg_append)+
  have disj: "j \<noteq> i \<Longrightarrow> set (L j) \<inter> set (a @ b) = {}" for j
    using dl_ok_disjoint [OF ok] Li by metis
  have "dlseg (ins_heap i a x b (links s)) i None (a @ x # b) None"
  proof -
    have "dlseg (set_last a (Some x) (set_first b (Some x) (links s))) i None a (Some x)"
      by (rule dlseg_set_last) (use seg in auto)
    moreover have "dlseg (set_last a (Some x) (set_first b (Some x) (links s))) i (Some x) b None"
      using dlseg_set_first [OF seg(2), of "Some x"] seg(3) by (simp add: Int_commute)
    moreover have "x \<notin> set a" "x \<notin> set b" using free [of i] Li by auto
    ultimately show ?thesis using x(1) by (simp add: ins_heap_def dlseg_append)
  qed
  then have "is_list ?s i (?L i)"
    using ok Li free [of i] seg(3) by (auto simp: is_list_def dl_ok_def)
  moreover have "is_list ?s j (?L j)" if "j \<noteq> i" for j
    using ok free [of j] disj [OF that] that by (simp add: is_list_def dl_ok_def ins_heap_def Int_Un_distrib)
  ultimately have "is_list ?s j (?L j)" for j by metis
  moreover have "y \<in> set (?L j)" if ym: "links ?s y = Some m" "lk_list m = Some j" for y m j
  proof (cases "y = x")
    case False
    then obtain m0 where "links s y = Some m0" "lk_list m0 = Some j"
      using ym by (auto simp: ins_heap_def dest!: set_ends_list)
    then have "y \<in> set (L j)" using ok unfolding dl_ok_def by blast
    then show ?thesis using Li by (cases "j = i") auto
  qed (use ym x in \<open>auto simp: ins_heap_def\<close>)
  moreover have "dom (links ?s) = A" using ok x by (auto simp: dl_ok_def ins_heap_def)
  ultimately show ?thesis by (auto simp: dl_ok_def)
qed

text \<open>The link of a member.\<close>

lemma dl_ok_mid:
  assumes "dl_ok s A L" "L i = a @ x # b"
  shows "\<exists>l. links s x = Some l \<and> lk_prev l = last_of None a \<and> lk_list l = Some i \<and> lk_next l = first_of b None"
proof -
  have "dlseg (links s) i None (a @ x # b) None" using assms by (metis dl_ok_def is_list_def)
  then show ?thesis by (rule dlseg_mid)
qed

lemma dl_ok_ends:
  assumes "dl_ok s A L"
  shows "lists s i = \<lparr>m_itemCount = of_nat (length (L i)), m_pFirst = first_of (L i) None, m_pLast = last_of None (L i)\<rparr>"
    "distinct (L i)"
  using assms by (simp_all add: dl_ok_def is_list_def)

lemmas dl_steps = deref_def upd_link_def upd_opt_def upd_list_def AddToList_def

lemma AddFirst_ok:
  assumes ok: "dl_ok s A L" and x: "links s x = Some l" "lk_list l = None"
  shows "\<exists>s'. AddFirst i (Some x) s = Inr (True, s') \<and> dl_ok s' A (L(i := x # L i))"
proof (cases "L i")
  case Nil
  have "AddFirst i (Some x) s = Inr (True, s\<lparr>links := ins_heap i [] x [] (links s),
      lists := (lists s)(i := \<lparr>m_itemCount = m_itemCount (lists s i) + 1, m_pFirst = first_of ([] @ [x]) None,
        m_pLast = last_of None ([] @ [x])\<rparr>)\<rparr>)"
    using x dl_ok_ends [OF ok, of i] Nil by (cases l) (simp add: AddFirst_def dl_steps ins_heap_def set_last_def set_first_def)
  then show ?thesis using ins_ok [OF ok _ x, where i = i and a = "[]" and b = "[]"] Nil by simp
next
  case (Cons f b)
  obtain lf where lf: "links s f = Some lf" using dl_ok_mid [OF ok, of i "[]" f b] Cons by auto
  have "f \<noteq> x" using dl_ok_free [OF ok x(1)] x(2) Cons by (metis list.set_intros(1))
  then have "AddFirst i (Some x) s = Inr (True, s\<lparr>links := ins_heap i [] x (f # b) (links s),
      lists := (lists s)(i := \<lparr>m_itemCount = m_itemCount (lists s i) + 1, m_pFirst = first_of ([] @ x # f # b) None,
        m_pLast = last_of None ([] @ x # f # b)\<rparr>)\<rparr>)"
    using x lf dl_ok_ends [OF ok, of i] Cons
    by (cases l) (simp add: AddFirst_def dl_steps ins_heap_def set_last_def set_first_def fun_upd_twist)
  then show ?thesis using ins_ok [OF ok _ x, where i = i and a = "[]" and b = "f # b"] Cons by simp
qed

lemma AddLast_ok:
  assumes ok: "dl_ok s A L" and x: "links s x = Some l" "lk_list l = None"
  shows "\<exists>s'. AddLast i (Some x) s = Inr (True, s') \<and> dl_ok s' A (L(i := L i @ [x]))"
proof (cases "L i" rule: rev_cases)
  case Nil
  have "AddLast i (Some x) s = Inr (True, s\<lparr>links := ins_heap i [] x [] (links s),
      lists := (lists s)(i := \<lparr>m_itemCount = m_itemCount (lists s i) + 1, m_pFirst = first_of ([] @ [x]) None,
        m_pLast = last_of None ([] @ [x])\<rparr>)\<rparr>)"
    using x dl_ok_ends [OF ok, of i] Nil by (cases l) (simp add: AddLast_def dl_steps ins_heap_def set_last_def set_first_def)
  then show ?thesis using ins_ok [OF ok _ x, where i = i and a = "[]" and b = "[]"] Nil by simp
next
  case (snoc a z)
  obtain lz where lz: "links s z = Some lz" using dl_ok_mid [OF ok, of i a z "[]"] snoc by auto
  have "z \<noteq> x" using dl_ok_free [OF ok x(1)] x(2) snoc by (metis in_set_conv_decomp)
  moreover obtain f where "first_of (a @ [z]) None = Some f" "first_of ((a @ [z]) @ [x]) None = Some f"
    by (cases a) simp_all
  ultimately have "AddLast i (Some x) s = Inr (True, s\<lparr>links := ins_heap i (a @ [z]) x [] (links s),
      lists := (lists s)(i := \<lparr>m_itemCount = m_itemCount (lists s i) + 1, m_pFirst = first_of ((a @ [z]) @ [x]) None,
        m_pLast = last_of None ((a @ [z]) @ [x])\<rparr>)\<rparr>)"
    using x lz dl_ok_ends [OF ok, of i] snoc
    by (cases l) (simp add: AddLast_def dl_steps ins_heap_def set_last_def set_first_def fun_upd_twist last_of_append)
  then show ?thesis using ins_ok [OF ok _ x, where i = i and a = "a @ [z]" and b = "[]"] snoc by simp
qed

lemma AddAfter_ok:
  assumes ok: "dl_ok s A L" and x: "links s x = Some l" "lk_list l = None" and Li: "L i = a @ p # b"
  shows "\<exists>s'. AddAfter i (Some p) (Some x) s = Inr (True, s') \<and> dl_ok s' A (L(i := a @ p # x # b))"
proof -
  obtain lp where lp: "links s p = Some lp" "lk_list lp = Some i" "lk_next lp = first_of b None"
    using dl_ok_mid [OF ok Li] by auto
  have ne: "p \<noteq> x" using lp x by auto
  have p: "lists s i = \<lparr>m_itemCount = of_nat (length (a @ p # b)), m_pFirst = first_of (a @ p # b) None, m_pLast = last_of (Some p) b\<rparr>"
    "distinct (a @ p # b)"
    using dl_ok_ends [OF ok, of i] Li by (simp_all add: last_of_append)
  have f: "first_of ((a @ [p]) @ x # b) None = first_of (a @ p # b) None" by (cases a) simp_all
  have "AddAfter i (Some p) (Some x) s = Inr (True, s\<lparr>links := ins_heap i (a @ [p]) x b (links s),
      lists := (lists s)(i := \<lparr>m_itemCount = m_itemCount (lists s i) + 1, m_pFirst = first_of ((a @ [p]) @ x # b) None,
        m_pLast = last_of None ((a @ [p]) @ x # b)\<rparr>)\<rparr>)"
  proof (cases b)
    case Nil
    then show ?thesis using x lp ne p f
      by (cases l) (simp add: AddAfter_def dl_steps ins_heap_def set_last_def set_first_def fun_upd_twist last_of_append)
  next
    case (Cons n c)
    obtain ln where ln: "links s n = Some ln" using dl_ok_mid [OF ok, of i "a @ [p]" n c] Li Cons by auto
    have "x \<notin> set (L i)" using dl_ok_free [OF ok x(1)] x(2) by simp
    then have "n \<noteq> x" using Li Cons by auto
    moreover have "n \<noteq> p" "last_of (Some p) b \<noteq> Some p" using p(2) Cons by (auto simp: last_of_def)
    ultimately show ?thesis using x lp ne p f ln Cons
      by (cases l) (simp add: AddAfter_def dl_steps ins_heap_def set_last_def set_first_def fun_upd_twist last_of_append)
  qed
  then show ?thesis using ins_ok [OF ok _ x, where i = i and a = "a @ [p]" and b = b] Li by simp
qed

subsection \<open>Taking a link out\<close>

definition rem_heap :: "nat list \<Rightarrow> nat \<Rightarrow> nat list \<Rightarrow> (nat \<rightharpoonup> 'x link_scheme) \<Rightarrow> nat \<rightharpoonup> 'x link_scheme" where
  "rem_heap a x b h = (set_last a (first_of b None) (set_first b (last_of None a) h))
     (x := map_option (\<lambda>l. l\<lparr>lk_list := None\<rparr>) (h x))"

lemma rem_ok:
  assumes ok: "dl_ok s A L" and Li: "L i = a @ x # b"
  shows "dl_ok (s\<lparr>links := rem_heap a x b (links s), lists := (lists s)(i := \<lparr>m_itemCount = m_itemCount (lists s i) - 1,
      m_pFirst = first_of (a @ b) None, m_pLast = last_of None (a @ b)\<rparr>)\<rparr>) A (L(i := a @ b))" (is "dl_ok ?s A ?L")
proof -
  have seg: "dlseg (links s) i None a (Some x)" "dlseg (links s) i (Some x) b None" "distinct (a @ x # b)"
    using ok Li by (metis dl_ok_def is_list_def dlseg_append dlseg.simps(2) first_of.simps(2))+
  have disj: "j \<noteq> i \<Longrightarrow> set (L j) \<inter> set (a @ x # b) = {}" for j
    using dl_ok_disjoint [OF ok] Li by metis
  obtain l where x: "links s x = Some l" "lk_list l = Some i" using dl_ok_mid [OF ok Li] by auto
  have "dlseg (set_last a (first_of b None) (set_first b (last_of None a) (links s))) i None a (first_of b None)"
    by (rule dlseg_set_last) (use seg in auto)
  moreover have "dlseg (set_last a (first_of b None) (set_first b (last_of None a) (links s))) i (last_of None a) b None"
    using dlseg_set_first [OF seg(2), of "last_of None a"] seg(3) by (simp add: Int_commute)
  ultimately have "dlseg (rem_heap a x b (links s)) i None (a @ b) None"
    using seg(3) by (simp add: rem_heap_def dlseg_append)
  then have "is_list ?s i (?L i)" using dl_ok_ends [OF ok, of i] Li by (simp add: is_list_def)
  moreover have "is_list ?s j (?L j)" if "j \<noteq> i" for j
    using ok disj [OF that] that by (simp add: is_list_def dl_ok_def rem_heap_def Int_Un_distrib)
  ultimately have "is_list ?s j (?L j)" for j by metis
  moreover have "y \<in> set (?L j)" if ym: "links ?s y = Some m" "lk_list m = Some j" for y m j
  proof -
    have ne: "y \<noteq> x" using ym x by (auto simp: rem_heap_def)
    then obtain m0 where "links s y = Some m0" "lk_list m0 = Some j"
      using ym by (auto simp: rem_heap_def dest!: set_ends_list)
    then have "y \<in> set (L j)" using ok unfolding dl_ok_def by blast
    then show ?thesis using Li ne by (cases "j = i") auto
  qed
  moreover have "dom (links ?s) = A" using ok x by (auto simp: dl_ok_def rem_heap_def)
  ultimately show ?thesis by (auto simp: dl_ok_def)
qed

lemma RemoveLink_ok:
  assumes ok: "dl_ok s A L" and Li: "L i = a @ x # b"
  shows "\<exists>s'. RemoveLink i (Some x) s = Inr (True, s') \<and> dl_ok s' A (L(i := a @ b))"
proof -
  obtain l where l: "links s x = Some l" "lk_list l = Some i" "lk_next l = first_of b None" "lk_prev l = last_of None a"
    using dl_ok_mid [OF ok Li] by auto
  have p: "lists s i = \<lparr>m_itemCount = of_nat (length (a @ x # b)), m_pFirst = first_of (a @ x # b) None,
      m_pLast = last_of (Some x) b\<rparr>" "distinct (a @ x # b)"
    using dl_ok_ends [OF ok, of i] Li by (simp_all add: last_of_append)
  have "RemoveLink i (Some x) s = Inr (True, s\<lparr>links := rem_heap a x b (links s),
      lists := (lists s)(i := \<lparr>m_itemCount = m_itemCount (lists s i) - 1, m_pFirst = first_of (a @ b) None,
        m_pLast = last_of None (a @ b)\<rparr>)\<rparr>)"
  proof (cases a rule: rev_cases; cases b)
    assume "a = []" "b = []"
    then show ?thesis using l p
      by (simp add: RemoveLink_def dl_steps rem_heap_def set_last_def set_first_def Let_def)
  next
    fix n c
    assume c: "a = []" "b = n # c"
    obtain ln where ln: "links s n = Some ln" using dl_ok_mid [OF ok, of i "[x]" n c] Li c by auto
    then show ?thesis using l p c
      by (auto simp: RemoveLink_def dl_steps rem_heap_def set_last_def set_first_def Let_def last_of_def)
  next
    fix a' z
    assume c: "a = a' @ [z]" "b = []"
    obtain lz where lz: "links s z = Some lz" using dl_ok_mid [OF ok, of i a' z "[x]"] Li c by auto
    moreover have "first_of (a @ [x]) None = first_of a None" "first_of a None \<noteq> Some x" using c p(2) by (cases a'; simp)+
    ultimately show ?thesis using l p c
      by (simp add: RemoveLink_def dl_steps rem_heap_def set_last_def set_first_def Let_def last_of_append)
  next
    fix a' z n c
    assume c: "a = a' @ [z]" "b = n # c"
    obtain lz where lz: "links s z = Some lz" using dl_ok_mid [OF ok, of i a' z "x # b"] Li c by auto
    obtain ln where ln: "links s n = Some ln" using dl_ok_mid [OF ok, of i "a @ [x]" n c] Li c by auto
    have "first_of (a @ x # b) None = first_of a None" "first_of (a @ b) None = first_of a None" "first_of a None \<noteq> Some x"
      "last_of (Some x) b = last_of (Some z) b" "last_of (Some z) b \<noteq> Some x"
      using c p(2) by (cases a'; auto simp: last_of_def)+
    then show ?thesis using l p c lz ln
      by (simp add: RemoveLink_def dl_steps rem_heap_def set_last_def set_first_def Let_def last_of_append fun_upd_twist)
  qed
  then show ?thesis using rem_ok [OF ok Li] by simp
qed

lemma RemoveLink_other:
  assumes "dl_ok s A L" "x \<in> A" "x \<notin> set (L i)"
  shows "RemoveLink i (Some x) s = Inr (False, s)"
  using assms dl_ok_list [OF assms(1), of x _ i] by (auto simp: RemoveLink_def dl_steps dl_ok_def)

subsection \<open>The specification\<close>

text \<open>
  The operations on lists: the set of links that exist, and the list of each number. A link is put into a list only if
  it is in none.
\<close>

datatype dl_op = Op_AddFirst nat "nat option" | Op_AddLast nat "nat option" | Op_AddAfter nat "nat option" "nat option"
  | Op_RemoveFirst nat | Op_RemoveLast nat | Op_Unlink nat | Op_Delete nat | Op_Next nat "nat option" | Op_Prev nat "nat option"

datatype dl_result = R_bool bool | R_ptr "nat option" | R_none

definition dl_exec :: "dl_op \<Rightarrow> 'x dl_state \<Rightarrow> heap_error + (dl_result \<times> 'x dl_state)" where
  "dl_exec op s = (case op of
     Op_AddFirst i p \<Rightarrow> andThen (AddFirst i p s) (\<lambda>(b, s). Inr (R_bool b, s))
   | Op_AddLast i p \<Rightarrow> andThen (AddLast i p s) (\<lambda>(b, s). Inr (R_bool b, s))
   | Op_AddAfter i q p \<Rightarrow> andThen (AddAfter i q p s) (\<lambda>(b, s). Inr (R_bool b, s))
   | Op_RemoveFirst i \<Rightarrow> andThen (RemoveFirst i s) (\<lambda>(p, s). Inr (R_ptr p, s))
   | Op_RemoveLast i \<Rightarrow> andThen (RemoveLast i s) (\<lambda>(p, s). Inr (R_ptr p, s))
   | Op_Unlink x \<Rightarrow> andThen (Unlink x s) (\<lambda>(b, s). Inr (R_bool b, s))
   | Op_Delete x \<Rightarrow> andThen (delete_link x s) (\<lambda>s. Inr (R_none, s))
   | Op_Next i p \<Rightarrow> andThen (GetNext i p s) (\<lambda>p. Inr (R_ptr p, s))
   | Op_Prev i p \<Rightarrow> andThen (GetPrev i p s) (\<lambda>p. Inr (R_ptr p, s)))"

fun put_after :: "nat \<Rightarrow> nat \<Rightarrow> nat list \<Rightarrow> nat list" where
  "put_after p x [] = []"
| "put_after p x (y # ys) = (if y = p then y # x # ys else y # put_after p x ys)"

fun next_in :: "nat list \<Rightarrow> nat \<Rightarrow> nat option" where
  "next_in [] x = None"
| "next_in (y # ys) x = (if y = x then first_of ys None else next_in ys x)"

type_synonym dl_spec = "nat set \<times> (nat \<Rightarrow> nat list)"

definition in_some :: "(nat \<Rightarrow> nat list) \<Rightarrow> nat \<Rightarrow> bool" where
  "in_some L x \<longleftrightarrow> (\<exists>i. x \<in> set (L i))"

text \<open>What every access needs: the link is there.\<close>

definition spec_with :: "nat \<Rightarrow> dl_spec \<Rightarrow> (heap_error + 'a) \<Rightarrow> heap_error + 'a" where
  "spec_with x AL r = (if x \<in> fst AL then r else Inl Bad_Pointer)"

definition spec_add :: "nat \<Rightarrow> nat option \<Rightarrow> (nat \<Rightarrow> nat list \<Rightarrow> nat list) \<Rightarrow> dl_spec \<Rightarrow> heap_error + (dl_result \<times> dl_spec)" where
  "spec_add i p f = (\<lambda>(A, L). case p of None \<Rightarrow> Inr (R_bool False, A, L)
     | Some x \<Rightarrow> spec_with x (A, L) (if in_some L x then Inr (R_bool False, A, L) else Inr (R_bool True, A, L(i := f x (L i)))))"

definition spec_remove :: "nat \<Rightarrow> dl_spec \<Rightarrow> dl_spec" where
  "spec_remove x = (\<lambda>(A, L). (A, \<lambda>i. removeAll x (L i)))"

definition dl_spec_exec :: "dl_op \<Rightarrow> dl_spec \<Rightarrow> heap_error + (dl_result \<times> dl_spec)" where
  "dl_spec_exec op = (\<lambda>(A, L). case op of
     Op_AddFirst i p \<Rightarrow> spec_add i p (#) (A, L)
   | Op_AddLast i p \<Rightarrow> spec_add i p (\<lambda>x xs. xs @ [x]) (A, L)
   | Op_AddAfter i None p \<Rightarrow> spec_add i p (#) (A, L)
   | Op_AddAfter i (Some q) None \<Rightarrow> Inr (R_bool False, A, L)
   | Op_AddAfter i (Some q) (Some x) \<Rightarrow> spec_with x (A, L)
       (if in_some L x then Inr (R_bool False, A, L)
        else spec_with q (A, L) (if q \<notin> set (L i) then Inr (R_bool False, A, L) else Inr (R_bool True, A, L(i := put_after q x (L i)))))
   | Op_RemoveFirst i \<Rightarrow> (case L i of [] \<Rightarrow> Inr (R_ptr None, A, L) | x # xs \<Rightarrow> Inr (R_ptr (Some x), A, L(i := xs)))
   | Op_RemoveLast i \<Rightarrow> (if L i = [] then Inr (R_ptr None, A, L) else Inr (R_ptr (Some (last (L i))), A, L(i := butlast (L i))))
   | Op_Unlink x \<Rightarrow> spec_with x (A, L) (Inr (R_bool (in_some L x), spec_remove x (A, L)))
   | Op_Delete x \<Rightarrow> spec_with x (A, L) (Inr (R_none, A - {x}, snd (spec_remove x (A, L))))
   | Op_Next i None \<Rightarrow> Inr (R_ptr None, A, L)
   | Op_Next i (Some x) \<Rightarrow> spec_with x (A, L) (Inr (R_ptr (next_in (L i) x), A, L))
   | Op_Prev i None \<Rightarrow> Inr (R_ptr None, A, L)
   | Op_Prev i (Some x) \<Rightarrow> spec_with x (A, L) (Inr (R_ptr (next_in (rev (L i)) x), A, L)))"

text \<open>The same answer and a state that represents the new lists, or the same error.\<close>

fun dl_agree :: "heap_error + (dl_result \<times> 'x dl_state) \<Rightarrow> heap_error + (dl_result \<times> dl_spec) \<Rightarrow> bool" where
  "dl_agree (Inr (r, s)) (Inr (r', A, L)) \<longleftrightarrow> r = r' \<and> dl_ok s A L"
| "dl_agree (Inl e) (Inl e') \<longleftrightarrow> e = e'"
| "dl_agree _ _ \<longleftrightarrow> False"

lemma in_some_iff: "dl_ok s A L \<Longrightarrow> links s x = Some l \<Longrightarrow> in_some L x \<longleftrightarrow> lk_list l \<noteq> None"
  using dl_ok_free by (metis in_some_def)

lemma put_after_split: "p \<notin> set a \<Longrightarrow> put_after p x (a @ p # b) = a @ p # x # b"
  by (induction a) auto

lemma next_in_split: "x \<notin> set a \<Longrightarrow> next_in (a @ x # b) x = first_of b None"
  by (induction a) auto

lemma next_in_none: "x \<notin> set a \<Longrightarrow> next_in a x = None"
  by (induction a) auto

lemma first_of_rev: "first_of (rev a) None = last_of None a"
  by (cases a rule: rev_cases) simp_all

lemma remove_one:
  assumes "dl_ok s A L" "L i = a @ x # b"
  shows "(\<lambda>j. removeAll x (L j)) = L(i := a @ b)"
proof
  fix j
  have "x \<notin> set a" "x \<notin> set b" using dl_ok_ends(2) [OF assms(1), of i] assms(2) by auto
  moreover have "x \<notin> set (L j)" if "j \<noteq> i" using dl_ok_disjoint [OF assms(1) that] assms(2) by auto
  ultimately show "removeAll x (L j) = (L(i := a @ b)) j" using assms(2) by auto
qed

lemma remove_none: "\<not> in_some L x \<Longrightarrow> (\<lambda>j. removeAll x (L j)) = L"
  by (rule ext) (simp add: in_some_def)

lemma Unlink_agree:
  assumes ok: "dl_ok s A L" and "x \<in> A"
  shows "\<exists>s'. Unlink x s = Inr (in_some L x, s') \<and> dl_ok s' A (\<lambda>j. removeAll x (L j))"
proof -
  obtain l where l: "links s x = Some l" using assms by (auto simp: dl_ok_def)
  show ?thesis
  proof (cases "lk_list l")
    case None
    then have "\<not> in_some L x" using in_some_iff [OF ok l] by simp
    then show ?thesis using l None ok remove_none [of L x] by (simp add: Unlink_def deref_def)
  next
    case (Some i)
    then have "x \<in> set (L i)" "in_some L x" using dl_ok_list [OF ok l] by (auto simp: in_some_def)
    then obtain a b where ab: "L i = a @ x # b" by (meson split_list)
    from RemoveLink_ok [OF ok ab] show ?thesis
      using l Some \<open>in_some L x\<close> remove_one [OF ok ab] by (auto simp: Unlink_def deref_def)
  qed
qed

lemma delete_ok:
  assumes "dl_ok s A L" "\<not> in_some L x"
  shows "dl_ok (s\<lparr>links := (links s)(x := None)\<rparr>) (A - {x}) L"
  using assms by (auto simp: dl_ok_def is_list_def in_some_def split: if_splits)

lemma not_in_removed: "\<not> in_some (\<lambda>j. removeAll x (L j)) x"
  by (simp add: in_some_def)

lemma add_agree:
  assumes ok: "dl_ok s A L"
    and bad: "\<And>x. x \<notin> A \<Longrightarrow> add (Some x) = Inl Bad_Pointer" and null: "add None = Inr (False, s)"
    and no: "\<And>x l. links s x = Some l \<Longrightarrow> lk_list l \<noteq> None \<Longrightarrow> add (Some x) = Inr (False, s)"
    and yes: "\<And>x l. links s x = Some l \<Longrightarrow> lk_list l = None \<Longrightarrow> \<exists>s'. add (Some x) = Inr (True, s') \<and> dl_ok s' A (L(i := f x (L i)))"
  shows "dl_agree (andThen (add p) (\<lambda>(b, s). Inr (R_bool b, s))) (spec_add i p f (A, L))"
proof (cases p)
  case (Some x)
  show ?thesis
  proof (cases "x \<in> A")
    case True
    then obtain l where l: "links s x = Some l" using ok by (auto simp: dl_ok_def)
    show ?thesis
      using yes [OF l] no [OF l] in_some_iff [OF ok l] Some True ok
      by (cases "lk_list l") (auto simp: spec_add_def spec_with_def)
  qed (simp add: Some bad spec_add_def spec_with_def)
qed (simp add: null ok spec_add_def)

lemma neighbour_agree:
  assumes ok: "dl_ok s A L" and x: "x \<in> A"
  shows "GetNext i (Some x) s = Inr (next_in (L i) x)" "GetPrev i (Some x) s = Inr (next_in (rev (L i)) x)"
proof -
  obtain l where l: "links s x = Some l" using assms by (auto simp: dl_ok_def)
  have "GetNext i (Some x) s = Inr (next_in (L i) x) \<and> GetPrev i (Some x) s = Inr (next_in (rev (L i)) x)"
  proof (cases "x \<in> set (L i)")
    case True
    then obtain a b where ab: "L i = a @ x # b" by (meson split_list)
    then have "x \<notin> set a" "x \<notin> set b" using dl_ok_ends(2) [OF ok, of i] by auto
    then have "next_in (L i) x = first_of b None" "next_in (rev (L i)) x = last_of None a"
      unfolding ab using next_in_split [of x "rev b" "rev a"] by (simp_all add: next_in_split first_of_rev)
    then show ?thesis using dl_ok_mid [OF ok ab] by (auto simp: GetNext_def GetPrev_def deref_def)
  next
    case False
    then show ?thesis using dl_ok_list [OF ok l, of i] l by (simp add: GetNext_def GetPrev_def deref_def next_in_none)
  qed
  then show "GetNext i (Some x) s = Inr (next_in (L i) x)" "GetPrev i (Some x) s = Inr (next_in (rev (L i)) x)" by simp_all
qed

lemma AddAfter_agree:
  assumes ok: "dl_ok s A L"
  shows "dl_agree (andThen (AddAfter i (Some q) (Some x) s) (\<lambda>(b, s). Inr (R_bool b, s)))
    (dl_spec_exec (Op_AddAfter i (Some q) (Some x)) (A, L))"
proof (cases "links s x")
  case None
  then have "x \<notin> A" using ok by (auto simp: dl_ok_def)
  with None show ?thesis by (simp add: AddAfter_def deref_def dl_spec_exec_def spec_with_def)
next
  case (Some l)
  then have xA: "x \<in> A" using ok by (auto simp: dl_ok_def)
  show ?thesis
  proof (cases "lk_list l")
    case None
    note free = in_some_iff [OF ok Some] None
    show ?thesis
    proof (cases "links s q")
      assume q: "links s q = None"
      then have "q \<notin> A" using ok by (auto simp: dl_ok_def)
      with q show ?thesis using Some None xA free by (simp add: AddAfter_def deref_def dl_spec_exec_def spec_with_def)
    next
      fix lq
      assume q: "links s q = Some lq"
      then have qA: "q \<in> A" using ok by (auto simp: dl_ok_def)
      show ?thesis
      proof (cases "q \<in> set (L i)")
        case True
        then obtain a b where ab: "L i = a @ q # b" by (meson split_list)
        then have "put_after q x (L i) = a @ q # x # b"
          using dl_ok_ends(2) [OF ok, of i] by (simp add: put_after_split)
        then show ?thesis using AddAfter_ok [OF ok Some None ab] xA qA free True
          by (auto simp: dl_spec_exec_def spec_with_def)
      next
        case False
        then have "lk_list lq \<noteq> Some i" using dl_ok_list [OF ok q] by simp
        then show ?thesis using Some None q xA qA free False ok
          by (simp add: AddAfter_def deref_def dl_spec_exec_def spec_with_def)
      qed
    qed
  next
    fix j
    assume j: "lk_list l = Some j"
    then show ?thesis using Some xA in_some_iff [OF ok Some] ok
      by (simp add: AddAfter_def deref_def dl_spec_exec_def spec_with_def)
  qed
qed

lemma Add_guards:
  "AddFirst i None s = Inr (False, s)" "AddLast i None s = Inr (False, s)"
  "links s x = None \<Longrightarrow> AddFirst i (Some x) s = Inl Bad_Pointer" "links s x = None \<Longrightarrow> AddLast i (Some x) s = Inl Bad_Pointer"
  "links s x = Some l \<Longrightarrow> lk_list l \<noteq> None \<Longrightarrow> AddFirst i (Some x) s = Inr (False, s)"
  "links s x = Some l \<Longrightarrow> lk_list l \<noteq> None \<Longrightarrow> AddLast i (Some x) s = Inr (False, s)"
  by (simp_all add: AddFirst_def AddLast_def deref_def)

lemma AddFirst_agree:
  assumes "dl_ok s A L"
  shows "dl_agree (andThen (AddFirst i p s) (\<lambda>(b, s). Inr (R_bool b, s))) (spec_add i p (#) (A, L))"
  by (rule add_agree [OF assms, where add = "\<lambda>p. AddFirst i p s"])
    (use AddFirst_ok [OF assms] dl_ok_deref [OF assms] in \<open>simp_all add: Add_guards\<close>)

lemma AddLast_agree:
  assumes "dl_ok s A L"
  shows "dl_agree (andThen (AddLast i p s) (\<lambda>(b, s). Inr (R_bool b, s))) (spec_add i p (\<lambda>x xs. xs @ [x]) (A, L))"
  by (rule add_agree [OF assms, where add = "\<lambda>p. AddLast i p s"])
    (use AddLast_ok [OF assms] dl_ok_deref [OF assms] in \<open>simp_all add: Add_guards\<close>)

lemma Remove_ends_agree:
  assumes ok: "dl_ok s A L"
  shows "dl_agree (andThen (RemoveFirst i s) (\<lambda>(p, s). Inr (R_ptr p, s))) (dl_spec_exec (Op_RemoveFirst i) (A, L))"
    "dl_agree (andThen (RemoveLast i s) (\<lambda>(p, s). Inr (R_ptr p, s))) (dl_spec_exec (Op_RemoveLast i) (A, L))"
proof -
  show "dl_agree (andThen (RemoveFirst i s) (\<lambda>(p, s). Inr (R_ptr p, s))) (dl_spec_exec (Op_RemoveFirst i) (A, L))"
  proof (cases "L i")
    case Nil
    then show ?thesis using dl_ok_ends(1) [OF ok, of i] ok by (simp add: RemoveFirst_def RemoveLink_def dl_spec_exec_def)
  next
    case (Cons x xs)
    then show ?thesis using RemoveLink_ok [OF ok, of i "[]" x xs] dl_ok_ends(1) [OF ok, of i]
      by (auto simp: RemoveFirst_def dl_spec_exec_def)
  qed
  show "dl_agree (andThen (RemoveLast i s) (\<lambda>(p, s). Inr (R_ptr p, s))) (dl_spec_exec (Op_RemoveLast i) (A, L))"
  proof (cases "L i" rule: rev_cases)
    case Nil
    then show ?thesis using dl_ok_ends(1) [OF ok, of i] ok by (simp add: RemoveLast_def RemoveLink_def dl_spec_exec_def)
  next
    case (snoc xs x)
    then show ?thesis using RemoveLink_ok [OF ok, of i xs x "[]"] dl_ok_ends(1) [OF ok, of i]
      by (auto simp: RemoveLast_def dl_spec_exec_def)
  qed
qed

lemma dl_exec_agree:
  assumes ok: "dl_ok s A L"
  shows "dl_agree (dl_exec op s) (dl_spec_exec op (A, L))"
proof (cases op)
  case (Op_AddFirst i p)
  then show ?thesis using AddFirst_agree [OF ok] by (simp add: dl_exec_def dl_spec_exec_def)
next
  case (Op_AddLast i p)
  then show ?thesis using AddLast_agree [OF ok] by (simp add: dl_exec_def dl_spec_exec_def)
next
  case (Op_AddAfter i q p)
  show ?thesis
  proof (cases q; cases p)
    assume "q = None" "p = None"
    then show ?thesis using Op_AddAfter AddFirst_agree [OF ok, of i p] by (simp add: dl_exec_def dl_spec_exec_def AddAfter_def)
  next
    fix x
    assume "q = None" "p = Some x"
    then show ?thesis using Op_AddAfter AddFirst_agree [OF ok, of i p] by (simp add: dl_exec_def dl_spec_exec_def AddAfter_def)
  next
    fix y
    assume "q = Some y" "p = None"
    then show ?thesis using Op_AddAfter ok by (simp add: dl_exec_def dl_spec_exec_def AddAfter_def)
  next
    fix y x
    assume "q = Some y" "p = Some x"
    then show ?thesis using Op_AddAfter AddAfter_agree [OF ok, of i y x] by (simp add: dl_exec_def)
  qed
next
  case (Op_RemoveFirst i)
  then show ?thesis using Remove_ends_agree(1) [OF ok] by (simp add: dl_exec_def)
next
  case (Op_RemoveLast i)
  then show ?thesis using Remove_ends_agree(2) [OF ok] by (simp add: dl_exec_def)
next
  case (Op_Unlink x)
  then show ?thesis using Unlink_agree [OF ok, of x] dl_ok_deref [OF ok, of x]
    by (auto simp: dl_exec_def dl_spec_exec_def spec_with_def spec_remove_def Unlink_def deref_def split: option.splits)
next
  case (Op_Delete x)
  show ?thesis
  proof (cases "x \<in> A")
    case True
    then obtain s' where s': "Unlink x s = Inr (in_some L x, s')" "dl_ok s' A (\<lambda>j. removeAll x (L j))"
      using Unlink_agree [OF ok] by blast
    then show ?thesis using Op_Delete True delete_ok [OF s'(2) not_in_removed]
      by (simp add: dl_exec_def dl_spec_exec_def spec_with_def spec_remove_def delete_link_def)
  next
    case False
    then show ?thesis using Op_Delete dl_ok_deref [OF ok False]
      by (simp add: dl_exec_def dl_spec_exec_def spec_with_def delete_link_def Unlink_def deref_def)
  qed
next
  case (Op_Next i p)
  then show ?thesis using neighbour_agree(1) [OF ok] dl_ok_deref [OF ok] ok
    by (cases p) (auto simp: dl_exec_def dl_spec_exec_def spec_with_def GetNext_def deref_def)
next
  case (Op_Prev i p)
  then show ?thesis using neighbour_agree(2) [OF ok] dl_ok_deref [OF ok] ok
    by (cases p) (auto simp: dl_exec_def dl_spec_exec_def spec_with_def GetPrev_def deref_def)
qed

text \<open>Many operations one after the other: the answers, and the state after the last one.\<close>

fun dl_run :: "(dl_op \<Rightarrow> 's \<Rightarrow> heap_error + (dl_result \<times> 's)) \<Rightarrow> dl_op list \<Rightarrow> 's \<Rightarrow> heap_error + (dl_result list \<times> 's)" where
  "dl_run ex [] s = Inr ([], s)"
| "dl_run ex (op # ops) s = andThen (ex op s) (\<lambda>(r, s1). andThen (dl_run ex ops s1) (\<lambda>(rs, s2). Inr (r # rs, s2)))"

lemma dl_run_agree:
  assumes "dl_ok s A L"
  shows "case (dl_run dl_exec ops s, dl_run dl_spec_exec ops (A, L)) of
      (Inr (rs, s'), Inr (rs', A', L')) \<Rightarrow> rs = rs' \<and> dl_ok s' A' L'
    | (Inl e, Inl e') \<Rightarrow> e = e' | _ \<Rightarrow> False"
  using assms
proof (induction ops arbitrary: s A L)
  case (Cons op ops)
  show ?case
  proof (cases "dl_exec op s")
    case (Inl e)
    then show ?thesis using dl_exec_agree [OF Cons.prems, of op]
      by (cases "dl_spec_exec op (A, L)") (auto)
  next
    case (Inr rs)
    obtain r s1 where c: "dl_exec op s = Inr (r, s1)" using Inr by (cases rs) auto
    then obtain A1 L1 where a: "dl_spec_exec op (A, L) = Inr (r, A1, L1)" "dl_ok s1 A1 L1"
      using dl_exec_agree [OF Cons.prems, of op] by (cases "dl_spec_exec op (A, L)") auto
    show ?thesis using Cons.IH [OF a(2)] c a(1)
      by (cases "dl_run dl_exec ops s1"; cases "dl_run dl_spec_exec ops (A1, L1)") auto
  qed
qed simp

lemma new_lists_ok:
  assumes "\<And>x l. links s x = Some l \<Longrightarrow> lk_list l = None" "\<And>i. lists s i = CDoubleList"
  shows "dl_ok s (dom (links s)) (\<lambda>_. [])"
  using assms by (fastforce simp: dl_ok_def is_list_def CDoubleList_def)

text \<open>C14. The lists of links in the heap behave as lists: starting from new lists and links, every sequence of operations,
  on any of the lists, gives the answers of the specification, or the error of the specification where it has one,
  which is only ever the use of a link that does not exist; and the heap represents the lists of the specification.\<close>

theorem dl_refines:
  assumes "\<And>x l. links s x = Some l \<Longrightarrow> lk_list l = None" and "\<And>i. lists s i = CDoubleList"
  shows "case (dl_run dl_exec ops s, dl_run dl_spec_exec ops (dom (links s), \<lambda>_. [])) of
      (Inr (rs, s'), Inr (rs', A, L)) \<Rightarrow> rs = rs' \<and> dl_ok s' A L
    | (Inl e, Inl e') \<Rightarrow> e = e' | _ \<Rightarrow> False"
  by (rule dl_run_agree) (rule new_lists_ok [OF assms])

text \<open>Two links, put into a list and taken out again.\<close>

lemma dl_refines_witness:
  "case (dl_run dl_exec [Op_AddLast 0 (Some 1), Op_AddFirst 0 (Some 2), Op_RemoveLast 0]
        \<lparr>links = [1 \<mapsto> \<lparr>lk_next = None, lk_prev = None, lk_list = None\<rparr>, 2 \<mapsto> \<lparr>lk_next = None, lk_prev = None, lk_list = None\<rparr>],
          lists = \<lambda>_. CDoubleList\<rparr>,
      dl_run dl_spec_exec [Op_AddLast 0 (Some 1), Op_AddFirst 0 (Some 2), Op_RemoveLast 0]
        (dom (links \<lparr>links = [1 \<mapsto> \<lparr>lk_next = None, lk_prev = None, lk_list = None\<rparr>, 2 \<mapsto> \<lparr>lk_next = None, lk_prev = None, lk_list = None\<rparr>],
          lists = \<lambda>_. CDoubleList\<rparr>), \<lambda>_. [])) of
      (Inr (rs, s'), Inr (rs', A, L)) \<Rightarrow> rs = rs' \<and> dl_ok s' A L
    | (Inl e, Inl e') \<Rightarrow> e = e' | _ \<Rightarrow> False"
  by (rule dl_refines) (auto split: if_splits)

subsection \<open>Going through a list\<close>

fun fold_err :: "(nat \<Rightarrow> 'a \<Rightarrow> 'e + 'a) \<Rightarrow> nat list \<Rightarrow> 'a \<Rightarrow> 'e + 'a" where
  "fold_err f [] acc = Inr acc"
| "fold_err f (x # xs) acc = andThen (f x acc) (fold_err f xs)"

text \<open>What a list must promise for that: where it begins and what comes next.\<close>

locale item_list =
  fixes shows_list :: "'s \<Rightarrow> nat \<Rightarrow> nat list \<Rightarrow> bool"
    and first :: "nat \<Rightarrow> 's \<Rightarrow> nat option"
    and nxt :: "nat \<Rightarrow> nat option \<Rightarrow> 's \<Rightarrow> 'e + nat option"
  assumes first_law: "shows_list s i xs \<Longrightarrow> first i s = first_of xs None"
    and next_law: "shows_list s i (a @ x # b) \<Longrightarrow> nxt i (Some x) s = Inr (first_of b None)"
begin

lemma visit_rest:
  "shows_list s i (a @ b) \<Longrightarrow> length b < n \<Longrightarrow> visit (\<lambda>x. nxt i (Some x) s) f n (first_of b None) acc = Some (fold_err f b acc)"
proof (induction b arbitrary: a n acc)
  case Nil
  then obtain m where "n = Suc m" by (cases n) auto
  then show ?case by simp
next
  case (Cons x b)
  then obtain m where m: "n = Suc m" "length b < m" by (cases n) auto
  have "shows_list s i ((a @ [x]) @ b)" using Cons.prems(1) by simp
  from Cons.IH [OF this m(2)] show ?case
    using next_law [OF Cons.prems(1)] by (cases "f x acc") (simp_all add: m(1))
qed

lemma visit_all:
  assumes "shows_list s i xs" "length xs < n"
  shows "visit (\<lambda>x. nxt i (Some x) s) f n (first i s) acc = Some (fold_err f xs acc)"
  using visit_rest [of s i "[]" xs n f acc] assms first_law [OF assms(1)] by simp

end

interpretation dl: item_list is_list "\<lambda>i s. m_pFirst (lists s i)" GetNext
proof
  fix s :: "'x dl_state" and i xs
  assume "is_list s i xs"
  then show "m_pFirst (lists s i) = first_of xs None" by (simp add: is_list_def)
next
  fix s :: "'x dl_state" and i a x b
  assume "is_list s i (a @ x # b)"
  then show "GetNext i (Some x) s = Inr (first_of b None)"
    using dlseg_mid [of "links s" i None a x b None] by (auto simp: is_list_def GetNext_def deref_def)
qed

subsection \<open>Emptying a list\<close>

lemma delete_last_ok:
  assumes ok: "dl_ok s A L" and "L i = xs @ [x]"
  shows "\<exists>s'. delete_last i s = Inr s' \<and> dl_ok s' (A - {x}) (L(i := xs))"
proof -
  have x: "x \<in> A" using dl_ok_mid [of s A L i xs x "[]"] assms by (auto simp: dl_ok_def)
  obtain s' where s': "Unlink x s = Inr (in_some L x, s')" "dl_ok s' A (\<lambda>j. removeAll x (L j))"
    using Unlink_agree [OF ok x] by blast
  have "(\<lambda>j. removeAll x (L j)) = L(i := xs)" using remove_one [OF ok, of i xs x "[]"] assms(2) by simp
  then show ?thesis
    using s' delete_ok [OF s'(2) not_in_removed] dl_ok_ends(1) [OF ok, of i] assms(2)
    by (simp add: delete_last_def delete_link_def)
qed

lemma DeleteAll_ok:
  assumes "dl_ok s A L" "length (L i) < n"
  shows "\<exists>s'. DeleteAll n i s = Some (Inr s') \<and> dl_ok s' (A - set (L i)) (L(i := []))"
proof -
  have "\<exists>s'. run_fuel (\<lambda>s. m_pLast (lists s i) = None) (delete_last i) n s = Some (Inr s')
      \<and> dl_ok s' (A - set (L i)) (L(i := []))"
    using assms
  proof (induction n arbitrary: s A L)
    case (Suc n)
    show ?case
    proof (cases "L i" rule: rev_cases)
      case Nil
      then have "L = L(i := [])" by auto
      then show ?thesis using Nil Suc.prems(1) dl_ok_ends(1) [OF Suc.prems(1), of i] by simp
    next
      case (snoc xs x)
      obtain s1 where s1: "delete_last i s = Inr s1" "dl_ok s1 (A - {x}) (L(i := xs))"
        using delete_last_ok [OF Suc.prems(1) snoc] by blast
      obtain s' where "run_fuel (\<lambda>s. m_pLast (lists s i) = None) (delete_last i) n s1 = Some (Inr s')"
        "dl_ok s' (A - {x} - set xs) (L(i := []))"
        using Suc.IH [OF s1(2), unfolded fun_upd_same fun_upd_upd] Suc.prems(2) snoc
        by (auto simp del: fun_upd_apply)
      moreover have "A - set (L i) = A - {x} - set xs" using snoc by auto
      ultimately show ?thesis using s1(1) snoc dl_ok_ends(1) [OF Suc.prems(1), of i] by (simp del: fun_upd_apply)
    qed
  qed simp
  then obtain s' where s': "run_fuel (\<lambda>s. m_pLast (lists s i) = None) (delete_last i) n s = Some (Inr s')"
    "dl_ok s' (A - set (L i)) (L(i := []))" by blast
  have "upd_list i (\<lambda>d. d\<lparr>m_itemCount := 0\<rparr>) s' = s'"
    using dl_ok_ends(1) [OF s'(2), of i] by (simp add: upd_list_def fun_upd_idem)
  then show ?thesis using s' by (simp add: DeleteAll_def)
qed

subsection \<open>What links carry\<close>

definition payload :: "'x dl_state \<Rightarrow> nat \<Rightarrow> 'x option" where
  "payload s x = map_option link.more (links s x)"

lemma AddLast_payload: "AddLast i p s = Inr (b, s') \<Longrightarrow> payload s' = payload s"
  by (rule ext)
    (auto simp: AddLast_def dl_steps andThen_Inr_iff payload_def split: option.splits if_splits)

lemma RemoveLink_payload: "RemoveLink i p s = Inr (b, s') \<Longrightarrow> payload s' = payload s"
  by (rule ext)
    (auto simp: RemoveLink_def dl_steps andThen_Inr_iff payload_def Let_def split: option.splits if_splits)

lemma delete_link_payload: "delete_link x s = Inr s' \<Longrightarrow> payload s' = (payload s)(x := None)"
  by (rule ext)
    (auto simp: delete_link_def Unlink_def andThen_Inr_iff deref_def payload_def fun_eq_iff
      dest!: RemoveLink_payload split: option.splits)

lemma DeleteAll_payload:
  assumes "DeleteAll n i s = Some (Inr s')" "links s' x \<noteq> None"
  shows "payload s' x = payload s x"
proof -
  have p: "payload t' x = payload t x"
    if "run_fuel (\<lambda>s. m_pLast (lists s i) = None) (delete_last i) n t = Some (Inr t')" "links t' x \<noteq> None" for t t'
    using that
  proof (induction n arbitrary: t)
    case (Suc n)
    show ?case
    proof (cases "m_pLast (lists t i)")
      case (Some y)
      then obtain t1 where t1: "delete_link y t = Inr t1"
        "run_fuel (\<lambda>s. m_pLast (lists s i) = None) (delete_last i) n t1 = Some (Inr t')"
      proof -
        have "delete_last i t = delete_link y t" using Some by (simp add: delete_last_def)
        then show ?thesis using Suc.prems(1) Some that by (auto split: sum.splits)
      qed
      then have "payload t' x = payload t1 x" using Suc by blast
      moreover have "payload t' x \<noteq> None" using Suc.prems(2) by (simp add: payload_def)
      ultimately show ?thesis using delete_link_payload [OF t1(1)] by (auto split: if_splits)
    qed (use Suc.prems in simp)
  qed simp
  obtain t where "run_fuel (\<lambda>s. m_pLast (lists s i) = None) (delete_last i) n s = Some (Inr t)"
    "s' = upd_list i (\<lambda>d. d\<lparr>m_itemCount := 0\<rparr>) t"
    using assms(1) by (auto simp: DeleteAll_def andThen_Inr_iff)
  then show ?thesis using p [of s t] assms(2) by (simp add: upd_list_def payload_def)
qed

end
