(* ===== verification/Babyint_Props.thy ===== *)
theory Babyint_Props
  imports Babyint Babyint_List_Props
begin

unbundle bit_operations_syntax

text \<open>
  The assembler puts messages together: segments that tile a message, in any order and between the segments of other
  sequences, give that message. Where the length of a sequence wraps around, or a segment does not begin where the
  others end, it writes behind its buffer; exactly when is stated. The service itself ends on every input.
\<close>

subsection \<open>What the receiver holds\<close>

abbreviation seg_state :: "segment \<Rightarrow> u16 \<times> u8 list" where
  "seg_state l \<equiv> (m_offset l, take (unat (m_length l)) (m_pData l))"

lemma more_seg: "link.more l = link.more l' \<Longrightarrow> seg_state l = seg_state l'"
  by (cases l; cases l') simp

definition seg_at :: "unit segment_ext dl_state \<Rightarrow> nat \<Rightarrow> (u16 \<times> u8 list) option" where
  "seg_at dl x = map_option seg_state (links dl x)"

lemma payload_seg: "payload dl x = payload dl' x \<Longrightarrow> seg_at dl x = seg_at dl' x"
  by (cases "links dl x"; cases "links dl' x") (auto simp: payload_def seg_at_def dest: more_seg)

definition seg_bytes :: "(u16 \<times> u8 list) list \<Rightarrow> nat" where
  "seg_bytes segs = sum_list (map (\<lambda>(_, d). length d) segs)"

text \<open>The segments \<open>segs i\<close> are in the list of each sequence \<open>i\<close>, in their order.\<close>

definition holds_segs :: "receiver \<Rightarrow> (nat \<Rightarrow> (u16 \<times> u8 list) list) \<Rightarrow> bool" where
  "holds_segs r segs \<longleftrightarrow> (\<exists>A L. dl_ok (rx_dl r) A L \<and> (\<forall>x \<in> A. x < rx_fresh r)
     \<and> (\<forall>i. map (seg_at (rx_dl r)) (L i) = map Some (segs i))) \<and> (\<forall>i. rx_total r i = of_nat (seg_bytes (segs i)))"

lemma holds_new: "holds_segs receiver_new (\<lambda>_. [])"
proof -
  have "dl_ok (rx_dl receiver_new) {} (\<lambda>_. [])"
    using new_lists_ok [of "rx_dl receiver_new"] by (simp add: receiver_new_def)
  then show ?thesis by (auto simp: holds_segs_def seg_bytes_def receiver_new_def)
qed

lemma in_lists: "dl_ok s A L \<Longrightarrow> x \<in> set (L i) \<Longrightarrow> x \<in> A"
  by (auto simp: dl_ok_def is_list_def dest!: dlseg_mem spec [of _ i])

lemma new_link_ok:
  assumes "dl_ok s A L" "x \<notin> A"
  shows "dl_ok (new_link x l s) (insert x A) L" "\<forall>y. y \<noteq> x \<longrightarrow> links (new_link x l s) y = links s y"
proof -
  have "x \<notin> set (L i)" for i using in_lists [OF assms(1)] assms(2) by blast
  then have "is_list (new_link x l s) i (L i)" for i
    using assms(1) by (simp add: dl_ok_def is_list_def new_link_def)
  moreover have "y \<in> set (L i)" if "links (new_link x l s) y = Some m" "lk_list m = Some i" for y m i
  proof (cases "y = x")
    case False
    then show ?thesis using that assms(1) unfolding dl_ok_def by (simp add: new_link_def)
  qed (use that in \<open>auto simp: new_link_def\<close>)
  moreover have "dom (links (new_link x l s)) = insert x A" using assms(1) by (simp add: dl_ok_def new_link_def)
  ultimately show "dl_ok (new_link x l s) (insert x A) L" unfolding dl_ok_def by blast
qed (simp add: new_link_def)

lemma AddSegment_holds:
  assumes "holds_segs r segs" "length d \<le> 255"
  shows "\<exists>r'. AddSegment i off d r = Inr r' \<and> holds_segs r' (segs(i := segs i @ [(off, d)])) \<and> rx_fresh r' = rx_fresh r + 1"
proof -
  obtain A L where ok: "dl_ok (rx_dl r) A L" "\<forall>x \<in> A. x < rx_fresh r" "\<forall>i. map (seg_at (rx_dl r)) (L i) = map Some (segs i)"
    and tot: "\<forall>i. rx_total r i = of_nat (seg_bytes (segs i))"
    using assms(1) unfolding holds_segs_def by blast
  define x where "x = rx_fresh r"
  define l where "l = \<lparr>lk_next = None, lk_prev = None, lk_list = None, m_offset = off, m_length = (of_nat (length d) :: u8),
      m_pData = take (unat (of_nat (length d) :: u8)) d\<rparr>"
  define dl where "dl = new_link x l (rx_dl r)"
  have x: "x \<notin> A" using ok(2) by (auto simp: x_def)
  note nl = new_link_ok [OF ok(1) x, of l, folded dl_def]
  have lx: "links dl x = Some l" by (simp add: dl_def new_link_def l_def)
  obtain dl' where dl': "AddLast i (Some x) dl = Inr (True, dl')" "dl_ok dl' (insert x A) (L(i := L i @ [x]))"
    using AddLast_ok [OF nl(1) lx, of i] by (auto simp: l_def)
  have ul: "unat (of_nat (length d) :: u8) = length d" using assms(2) by (simp add: unat_of_nat)
  have pay: "seg_at dl' y = seg_at dl y" for y
    by (rule payload_seg) (simp add: AddLast_payload [OF dl'(1)])
  have other: "seg_at dl' y = seg_at (rx_dl r) y" if "y \<noteq> x" for y
    unfolding pay [of y] using nl(2) that by (simp add: seg_at_def)
  have "x \<notin> set (L j)" for j using in_lists [OF ok(1)] x by blast
  then have "map (seg_at dl') (L j) = map (seg_at (rx_dl r)) (L j)" for j
    by (intro map_cong refl other) metis
  then have old: "map (seg_at dl') (L j) = map Some (segs j)" for j using ok(3) by simp
  have "seg_at dl' x = Some (off, d)" using pay [of x] lx by (simp add: seg_at_def l_def ul)
  then have "\<forall>j. map (seg_at dl') ((L(i := L i @ [x])) j) = map Some ((segs(i := segs i @ [(off, d)])) j)"
    using old by simp
  moreover have "\<forall>y \<in> insert x A. y < x + 1" using ok(2) by (auto simp: x_def)
  moreover have "(ucast (of_nat (length d) :: u8) :: u16) = of_nat (length d)"
    using assms(2) by (simp add: unsigned_of_nat take_bit_nat_eq_self)
  then have "\<forall>j. ((rx_total r)(i := rx_total r i + ucast (of_nat (length d) :: u8))) j
      = of_nat (seg_bytes ((segs(i := segs i @ [(off, d)])) j))"
    using tot by (simp add: seg_bytes_def)
  ultimately have "holds_segs (r\<lparr>rx_dl := dl', rx_total := (rx_total r)(i := rx_total r i + ucast (of_nat (length d) :: u8)),
      rx_fresh := x + 1\<rparr>) (segs(i := segs i @ [(off, d)]))"
    using dl'(2) unfolding holds_segs_def
    by (intro conjI exI [of _ "insert x A"] exI [of _ "L(i := L i @ [x])"]) (simp_all del: fun_upd_apply)
  then show ?thesis using dl'(1) by (simp add: AddSegment_def Let_def x_def dl_def l_def)
qed

subsection \<open>Copying\<close>

definition place :: "u16 \<times> u8 list \<Rightarrow> u8 list \<Rightarrow> u8 list" where
  "place = (\<lambda>(off, d) buf. take (unat off) buf @ d @ drop (unat off + length d) buf)"

definition fits :: "nat \<Rightarrow> u16 \<times> u8 list \<Rightarrow> bool" where
  "fits n = (\<lambda>(off, d). unat off + length d \<le> n)"

lemma length_place: "fits (length buf) sg \<Longrightarrow> length (place sg buf) = length buf"
  by (auto simp: fits_def place_def split: prod.splits)

lemma copy_all:
  "map (seg_at dl) xs = map Some sgs \<Longrightarrow> fold_err (copy_segment dl) xs buf
    = (if list_all (fits (length buf)) sgs then Inr (fold place sgs buf) else Inl Heap_Overflow)"
proof (induction xs arbitrary: sgs buf)
  case (Cons x xs)
  then obtain sg sgs' where sgs: "sgs = sg # sgs'" "seg_at dl x = Some sg" "map (seg_at dl) xs = map Some sgs'"
    by (cases sgs) auto
  obtain off d where sg: "sg = (off, d)" by (cases sg)
  then obtain l where l: "links dl x = Some l" "m_offset l = off" "take (unat (m_length l)) (m_pData l) = d"
    using sgs(2) by (auto simp: seg_at_def)
  have "copy_segment dl x buf = (if fits (length buf) sg then Inr (place sg buf) else Inl Heap_Overflow)"
    using l by (simp add: copy_segment_def deref_def Let_def fits_def place_def sg del: length_take)
  then show ?case using Cons.IH [OF sgs(3), of "place sg buf"] length_place [of buf sg] by (simp add: sgs(1))
qed (simp)

lemma place_nth:
  assumes "fits (length buf) sg" "p < length buf"
  shows "place sg buf ! p = (if unat (fst sg) \<le> p \<and> p < unat (fst sg) + length (snd sg) then snd sg ! (p - unat (fst sg)) else buf ! p)"
proof -
  obtain off d where sg: "sg = (off, d)" by (cases sg)
  have "unat off + length d \<le> length buf" using assms(1) by (simp add: fits_def sg)
  then show ?thesis using assms(2) by (auto simp: place_def sg nth_append)
qed

text \<open>Segments that tile a message: each is a part of it, every byte is in one, and no byte is in two.\<close>

definition part_of :: "u8 list \<Rightarrow> u16 \<times> u8 list \<Rightarrow> bool" where
  "part_of m = (\<lambda>(off, d). unat off + length d \<le> length m \<and> d = take (length d) (drop (unat off) m))"

definition covers :: "nat \<Rightarrow> u16 \<times> u8 list \<Rightarrow> bool" where
  "covers p = (\<lambda>(off, d). unat off \<le> p \<and> p < unat off + length d)"

definition tiles :: "u8 list \<Rightarrow> (u16 \<times> u8 list) list \<Rightarrow> bool" where
  "tiles m sgs \<longleftrightarrow> list_all (part_of m) sgs \<and> (\<forall>p < length m. list_ex (covers p) sgs) \<and> seg_bytes sgs = length m"

lemma fold_place_length: "list_all (fits (length buf)) sgs \<Longrightarrow> length (fold place sgs buf) = length buf"
  by (induction sgs arbitrary: buf) (auto simp: length_place)

lemma fold_place_nth:
  assumes "list_all (part_of m) sgs" "length buf = length m" "p < length m" "list_ex (covers p) sgs \<or> buf ! p = m ! p"
  shows "fold place sgs buf ! p = m ! p"
  using assms
proof (induction sgs arbitrary: buf)
  case (Cons sg sgs)
  obtain off d where sg: "sg = (off, d)" by (cases sg)
  have d: "unat off + length d \<le> length m" "d = take (length d) (drop (unat off) m)"
    using Cons.prems(1) by (simp_all add: part_of_def sg)
  have f: "fits (length buf) sg" using d(1) Cons.prems(2) by (simp add: fits_def sg)
  have "d ! (p - unat off) = m ! p" if "covers p sg"
  proof -
    have "unat off \<le> p" "p - unat off < length d" using that by (auto simp: covers_def sg)
    moreover have "d ! (p - unat off) = take (length d) (drop (unat off) m) ! (p - unat off)" using d(2) by metis
    ultimately show ?thesis using d(1) by simp
  qed
  then have "place sg buf ! p = m ! p" if "covers p sg \<or> buf ! p = m ! p"
    using place_nth [OF f, of p] that Cons.prems(2,3) by (auto simp: sg covers_def)
  moreover have "length (place sg buf) = length m" using length_place [OF f] Cons.prems(2) by simp
  ultimately show ?case using Cons by auto
qed simp

lemma tiles_fold:
  assumes "tiles m sgs" "length buf = length m"
  shows "list_all (fits (length buf)) sgs" "fold place sgs buf = m"
proof -
  have p: "list_all (part_of m) sgs" "\<And>p. p < length m \<Longrightarrow> list_ex (covers p) sgs"
    using assms(1) by (simp_all add: tiles_def)
  show f: "list_all (fits (length buf)) sgs"
    using p(1) assms(2) by (auto simp: list_all_iff part_of_def fits_def)
  show "fold place sgs buf = m"
    by (rule nth_equalityI)
      (use fold_place_length [OF f] fold_place_nth [OF p(1) assms(2)] p(2) assms(2) in auto)
qed

subsection \<open>Assembling\<close>

lemma Assemble_holds:
  assumes "holds_segs r segs" "rx_fresh r < n"
  shows "AssembleSegments n garbage i r =
    (let total = sint (of_nat (seg_bytes (segs i)) :: u16); buf = garbage (nat total) in
     if total = 0 then Some (Inr None)
     else if total < 0 then Some (Inl Bad_Alloc)
     else if list_all (fits (length buf)) (segs i) then Some (Inr (Some (fold place (segs i) buf)))
     else Some (Inl Heap_Overflow))"
proof -
  obtain A L where ok: "dl_ok (rx_dl r) A L" "\<forall>x \<in> A. x < rx_fresh r" "map (seg_at (rx_dl r)) (L i) = map Some (segs i)"
    "rx_total r i = of_nat (seg_bytes (segs i))"
    using assms(1) unfolding holds_segs_def by blast
  have il: "is_list (rx_dl r) i (L i)" using ok(1) by (simp add: dl_ok_def)
  have "set (L i) \<subseteq> {..<rx_fresh r}" using in_lists [OF ok(1)] ok(2) by blast
  moreover have "distinct (L i)" by (rule dl_ok_ends(2) [OF ok(1)])
  ultimately have "length (L i) \<le> rx_fresh r"
    using card_mono [of "{..<rx_fresh r}" "set (L i)"] by (simp add: distinct_card)
  then have "length (L i) < n" using assms(2) by simp
  from dl.visit_all [OF il this, of "copy_segment (rx_dl r)"] copy_all [OF ok(3)] show ?thesis
    by (simp add: AssembleSegments_def ok(4) Let_def)
qed

lemma Reset_holds:
  assumes "holds_segs r segs" "rx_fresh r < n"
  shows "\<exists>r'. Reset n i r = Some (Inr r') \<and> holds_segs r' (segs(i := [])) \<and> rx_fresh r' = rx_fresh r"
proof -
  obtain A L where ok: "dl_ok (rx_dl r) A L" "\<forall>x \<in> A. x < rx_fresh r" "\<forall>i. map (seg_at (rx_dl r)) (L i) = map Some (segs i)"
    and tot: "\<forall>i. rx_total r i = of_nat (seg_bytes (segs i))"
    using assms(1) unfolding holds_segs_def by blast
  have "set (L i) \<subseteq> {..<rx_fresh r}" using in_lists [OF ok(1)] ok(2) by blast
  moreover have "distinct (L i)" by (rule dl_ok_ends(2) [OF ok(1)])
  ultimately have "length (L i) \<le> rx_fresh r"
    using card_mono [of "{..<rx_fresh r}" "set (L i)"] by (simp add: distinct_card)
  then have "length (L i) < n" using assms(2) by simp
  from DeleteAll_ok [OF ok(1) this] obtain dl where dl: "DeleteAll n i (rx_dl r) = Some (Inr dl)"
    "dl_ok dl (A - set (L i)) (L(i := []))" by blast
  have "map (seg_at dl) ((L(i := [])) j) = map Some ((segs(i := [])) j)" for j
  proof (cases "j = i")
    case False
    have "links dl x \<noteq> None" if "x \<in> set (L j)" for x
      using in_lists [OF dl(2), of x j] that False dl(2) by (auto simp: dl_ok_def)
    then have "map (seg_at dl) (L j) = map (seg_at (rx_dl r)) (L j)"
      using DeleteAll_payload [OF dl(1)] by (intro map_cong refl payload_seg) blast
    then show ?thesis using ok(3) False by simp
  qed simp
  then have "holds_segs (r\<lparr>rx_dl := dl, rx_total := (rx_total r)(i := 0)\<rparr>) (segs(i := []))"
    using dl(2) ok(2) tot unfolding holds_segs_def
    by (intro conjI exI [of _ "A - set (L i)"] exI [of _ "L(i := [])"]) (auto simp: seg_bytes_def)
  then show ?thesis using dl(1) by (simp add: Reset_def)
qed

subsection \<open>A segment that arrives\<close>

lemma process_more:
  assumes "holds_segs r segs" "length d \<le> 255"
  shows "\<exists>r'. process_pdu garbage i off d False r = Some ([Rx_Pdu i (length d)], Inr (Some r'))
    \<and> holds_segs r' (segs(i := segs i @ [(off, d)]))"
  using AddSegment_holds [OF assms, of i off] by (auto simp: process_pdu_def)

lemma process_last:
  fixes i :: nat and off :: u16
  assumes "holds_segs r segs" "length d \<le> 255"
  defines "sgs \<equiv> segs i @ [(off, d)]"
  defines "tot \<equiv> sint (of_nat (seg_bytes sgs) :: u16)"
  shows "\<exists>r'. process_pdu garbage i off d True r =
      (if tot = 0 then Some ([Rx_Pdu i (length d)], Inr None)
       else if tot < 0 then Some ([Rx_Pdu i (length d)], Inl Bad_Alloc)
       else if list_all (fits (length (garbage (nat tot)))) sgs
         then Some ([Rx_Pdu i (length d), Assembled i (fold place sgs (garbage (nat tot)))], Inr (Some r'))
       else Some ([Rx_Pdu i (length d)], Inl Heap_Overflow)) \<and> holds_segs r' (segs(i := []))"
proof -
  obtain r1 where r1: "AddSegment i off d r = Inr r1" "holds_segs r1 (segs(i := sgs))"
    using AddSegment_holds [OF assms(1,2), of i off] unfolding sgs_def by blast
  obtain r2 where r2: "Reset (Suc (rx_fresh r1)) i r1 = Some (Inr r2)" "holds_segs r2 (segs(i := []))"
    using Reset_holds [OF r1(2), of "Suc (rx_fresh r1)" i] by auto
  show ?thesis
    using r1(1) r2 Assemble_holds [OF r1(2), of "Suc (rx_fresh r1)" garbage i]
    by (intro exI [of _ r2]) (simp add: process_pdu_def Let_def tot_def)
qed

lemma process_returns:
  assumes "holds_segs r segs" "length d \<le> 255"
  shows "\<exists>evs res. process_pdu garbage i off d lsf r = Some (evs, res) \<and> res \<noteq> Inl Bad_Pointer
    \<and> (\<forall>r'. res = Inr (Some r') \<longrightarrow> (\<exists>segs'. holds_segs r' segs'))"
proof (cases lsf)
  case True
  then show ?thesis using process_last [OF assms, of garbage i off] by auto
next
  case False
  then show ?thesis using process_more [OF assms, of garbage i off] by auto
qed

text \<open>The segments of a sequence.\<close>

abbreviation segs_of :: "nat \<Rightarrow> (nat \<times> u16 \<times> u8 list) list \<Rightarrow> (u16 \<times> u8 list) list" where
  "segs_of i ps \<equiv> map snd (filter (\<lambda>p. fst p = i) ps)"

subsection \<open>Text\<close>

fun show_nat :: "nat \<Rightarrow> u8 list" where
  "show_nat n = (if n < 10 then [of_nat (48 + n)] else show_nat (n div 10) @ [of_nat (48 + n mod 10)])"

declare show_nat.simps [simp del]

definition is_digit :: "u8 \<Rightarrow> bool" where
  "is_digit c \<longleftrightarrow> 48 \<le> c \<and> c \<le> 57"

lemma digit_of_nat:
  assumes "k < 10"
  shows "is_digit (of_nat (48 + k))" "uint (of_nat (48 + k) :: u8) = 48 + int k"
proof -
  have "unat (of_nat (48 + k) :: u8) = 48 + k" using assms by (simp only: unat_of_nat) simp
  then show "is_digit (of_nat (48 + k))" "uint (of_nat (48 + k) :: u8) = 48 + int k"
    using assms by (simp_all add: is_digit_def word_le_nat_alt uint_nat del: of_nat_add)
qed

lemma digits_value_append: "list_all is_digit a \<Longrightarrow> digits_value v (a @ b) = digits_value (digits_value v a) b"
  by (induction a arbitrary: v) (auto simp: is_digit_def)

lemma show_nat_digits: "list_all is_digit (show_nat n) \<and> show_nat n \<noteq> []"
proof (induction n rule: show_nat.induct)
  case (1 n)
  then show ?case using digit_of_nat(1) [of n] digit_of_nat(1) [of "n mod 10"]
    by (subst (1 2) show_nat.simps) (simp del: of_nat_add)
qed

lemma digits_show: "digits_value 0 (show_nat n) = int n"
proof (induction n rule: show_nat.induct)
  case (1 n)
  show ?case
  proof (cases "n < 10")
    case True
    then show ?thesis using digit_of_nat [of n] by (subst show_nat.simps) (simp add: is_digit_def del: of_nat_add)
  next
    case False
    have "digits_value (int (n div 10)) [of_nat (48 + n mod 10)] = 10 * int (n div 10) + int (n mod 10)"
      using digit_of_nat [of "n mod 10"] by (simp add: is_digit_def del: of_nat_add)
    also have "\<dots> = int n" by (metis mult_div_mod_eq of_nat_add of_nat_mult of_nat_numeral)
    finally show ?thesis using False 1 show_nat_digits [of "n div 10"]
      by (subst show_nat.simps) (simp add: digits_value_append del: of_nat_add)
  qed
qed

lemma show_nat_length: "n < 10 ^ Suc k \<Longrightarrow> length (show_nat n) \<le> Suc k"
proof (induction k arbitrary: n)
  case (Suc k)
  then have "n div 10 < 10 ^ Suc k" by (simp add: less_mult_imp_div_less)
  from Suc.IH [OF this] show ?case by (subst show_nat.simps) simp
qed (subst show_nat.simps, simp)

lemma atol_show: "n < 2 ^ 63 \<Longrightarrow> atol (show_nat n @ [10]) = int n"
proof -
  assume n: "n < 2 ^ 63"
  obtain c cs where c: "show_nat n = c # cs" "is_digit c" using show_nat_digits [of n] by (cases "show_nat n") auto
  have nc: "c \<noteq> 45" "c \<noteq> 43" "\<not> is_space c" using c(2) by (auto simp: is_digit_def is_space_def word_le_nat_alt)
  have "digits_value 0 (show_nat n @ [10]) = int n"
    using digits_value_append [of "show_nat n" 0 "[10]"] show_nat_digits [of n] digits_show [of n] by simp
  then have "digits_value 0 (c # cs @ [10]) = int n" using c(1) by simp
  moreover have "dropWhile is_space (show_nat n @ [10]) = c # cs @ [10]" using c(1) nc(3) by simp
  ultimately have "atol (show_nat n @ [10]) = max (- (2 ^ 63)) (min (2 ^ 63 - 1) (int n))"
    using nc(1,2) unfolding atol_def by simp
  also have "int n < 2 ^ 63" using n by (metis of_nat_less_iff of_nat_numeral of_nat_power)
  then have "max (- (2 ^ 63)) (min (2 ^ 63 - 1) (int n)) = int n" by simp
  finally show ?thesis .
qed

lemma fgets_show: "n < 65536 \<Longrightarrow> fgets 255 (show_nat n @ 10 # rest) = Some (show_nat n @ [10], rest)"
proof (rule fgets_line)
  show "10 \<notin> set (show_nat n)" using show_nat_digits [of n] by (auto simp: list_all_iff is_digit_def)
  assume "n < 65536"
  then have "length (show_nat n) \<le> Suc 4" by (intro show_nat_length) simp
  then show "length (show_nat n) + 1 \<le> 255 - 1" by simp
qed

text \<open>What is typed for a segment.\<close>

definition pdu_text :: "bool \<Rightarrow> nat \<times> u16 \<times> u8 list \<Rightarrow> u8 list" where
  "pdu_text lsf = (\<lambda>(i, off, d). show_nat i @ 10 # show_nat (unat off) @ 10 # print_hex d @ 10
     # (if lsf then [89, 101, 115] else [78, 111]) @ [10])"

lemma bi_hex_loop_print:
  "i + length bs \<le> length tmp \<Longrightarrow> bi_hex_loop (print_hex bs @ rest) (2 * i) tmp
    = bi_hex_loop rest (2 * (i + length bs)) (take i tmp @ bs @ drop (i + length bs) tmp)"
proof (induction bs arbitrary: i tmp)
  case Nil
  then show ?case by (simp add: print_hex_def)
next
  case (Cons b bs)
  note d = AsciiToHex_digit [OF nibbles(1), of b] AsciiToHex_digit [OF nibbles(2), of b]
  have "bi_hex_loop (print_hex (b # bs) @ rest) (2 * i) tmp = bi_hex_loop (print_hex bs @ rest) (2 * (i + 1)) (tmp[i := b])"
    using Cons.prems d by (simp add: print_hex_def print_02x_def nibbles(3) mod_Suc)
  also have "\<dots> = bi_hex_loop rest (2 * (i + 1 + length bs))
      (take (i + 1) (tmp[i := b]) @ bs @ drop (i + 1 + length bs) (tmp[i := b]))"
    using Cons.IH [of "i + 1" "tmp[i := b]"] Cons.prems by simp
  also have "take (i + 1) (tmp[i := b]) = take i tmp @ [b]" using Cons.prems by (simp add: take_Suc_conv_app_nth)
  finally show ?case by simp
qed

lemma bi_Convert_print: "bi_ConvertHex (print_hex bs @ [10]) = Inr bs"
proof -
  have "takeWhile (\<lambda>c. c \<noteq> 0) (print_hex bs @ [10]) = print_hex bs @ [10]"
    using print_hex_chars(2) by (simp add: takeWhile_eq_all_conv)
  then show ?thesis
    using bi_hex_loop_print [of 0 bs "replicate (length bs) 0" "[10]"]
    by (simp add: bi_ConvertHex_def print_hex_chars(1))
qed

lemma receive_text:
  assumes "i < 256" "d \<noteq> []" "length d \<le> 255"
  shows "receive_turn garbage r (pdu_text lsf (i, off, d) @ rest) =
    (case process_pdu garbage i off d lsf r of None \<Rightarrow> None
     | Some (evs, res) \<Rightarrow> Some (evs, andThen res (\<lambda>res. Inr (map_option (\<lambda>r1. (r1, rest)) res))))"
proof -
  let ?lsf = "if lsf then [89, 101, 115] else [78, 111] :: u8 list"
  have off: "unat off < 65536" using unsigned_less [where ?'a = nat, of off] by simp
  have w: "unat (of_nat k :: u32) = k" "\<not> (of_nat k :: u32) > 65535" "k < 256 \<Longrightarrow> \<not> (of_nat k :: u32) > 255"
    "(ucast (of_nat k :: u32) :: u16) = of_nat k" "(of_int (atol (show_nat k @ [10])) :: u32) = of_nat k" if "k < 65536" for k
  proof -
    show "unat (of_nat k :: u32) = k" using that by (simp add: unat_of_nat)
    then show "\<not> (of_nat k :: u32) > 65535" "k < 256 \<Longrightarrow> \<not> (of_nat k :: u32) > 255"
      using that by (simp_all add: word_less_nat_alt)
    show "(ucast (of_nat k :: u32) :: u16) = of_nat k"
      using that by (simp add: unsigned_of_nat take_bit_nat_eq_self)
    show "(of_int (atol (show_nat k @ [10])) :: u32) = of_nat k" using that atol_show [of k] by simp
  qed
  have i: "i < 65536" using assms(1) by simp
  have u: "(of_nat (unat off) :: u16) = off" by simp
  note n = w(5) [OF i] w(5) [OF off] w(1) [OF i] w(4) [OF off, unfolded u]
  have f: "fgets 255 (show_nat i @ 10 # inp) = Some (show_nat i @ [10], inp)"
    "fgets 255 (show_nat (unat off) @ 10 # inp) = Some (show_nat (unat off) @ [10], inp)"
    "fgets 768 (print_hex d @ 10 # inp) = Some (print_hex d @ [10], inp)"
    "fgets 768 (?lsf @ 10 # inp) = Some (?lsf @ [10], inp)" for inp
    using assms(1,3) off fgets_line [of "[89, 101, 115]" 768 inp] fgets_line [of "[78, 111]" 768 inp]
    by (auto intro!: fgets_show fgets_print)
  have l: "read_lsf (?lsf @ [10]) = Some lsf" by (simp add: read_lsf_def)
  have t: "pdu_text lsf (i, off, d) @ rest = show_nat i @ 10 # show_nat (unat off) @ 10 # print_hex d @ 10 # ?lsf @ 10 # rest"
    by (simp add: pdu_text_def)
  show ?thesis
    unfolding receive_turn_def t f option.case prod.case Let_def n bi_Convert_print sum.case l
    using assms(2,3) w(3) [OF i assms(1)] w(2) [OF off] by (simp del: of_nat_unat)
qed

subsection \<open>Sessions\<close>

definition pdu_ok :: "nat \<times> u16 \<times> u8 list \<Rightarrow> bool" where
  "pdu_ok = (\<lambda>(i, off, d). i < 256 \<and> d \<noteq> [] \<and> length d \<le> 255)"

definition pdu_event :: "nat \<times> u16 \<times> u8 list \<Rightarrow> bi_event" where
  "pdu_event = (\<lambda>(i, off, d). Rx_Pdu i (length d))"

lemma run_more:
  assumes "holds_segs r segs" "list_all pdu_ok ps"
  shows "\<exists>r'. RunReceiver (length ps + n) garbage r (concat (map (pdu_text False) ps) @ rest) out
      = RunReceiver n garbage r' rest (out @ map pdu_event ps) \<and> holds_segs r' (\<lambda>i. segs i @ segs_of i ps)"
  using assms
proof (induction ps arbitrary: r segs out)
  case (Cons p ps)
  obtain i off d where p: "p = (i, off, d)" by (cases p)
  have d: "i < 256" "d \<noteq> []" "length d \<le> 255" using Cons.prems(2) by (simp_all add: p pdu_ok_def)
  obtain r1 where r1: "process_pdu garbage i off d False r = Some ([Rx_Pdu i (length d)], Inr (Some r1))"
    "holds_segs r1 (segs(i := segs i @ [(off, d)]))"
    using process_more [OF Cons.prems(1) d(3)] by blast
  have "(\<lambda>j. (segs(i := segs i @ [(off, d)])) j @ segs_of j ps) = (\<lambda>j. segs j @ segs_of j (p # ps))"
    by (rule ext) (simp add: p)
  then show ?case
    using Cons.IH [OF r1(2), of "out @ [Rx_Pdu i (length d)]"] Cons.prems(2) r1(1) receive_text [OF d]
    by (auto simp: p pdu_event_def)
qed (simp, blast)

lemma run_end: "0 < n \<Longrightarrow> RunReceiver n garbage r [] out = Some (out, None)"
  by (cases n) (simp_all add: receive_turn_def fgets_def)

text \<open>A session with the segments \<open>ps\<close> and then a last one: how it ends.\<close>

lemma run_session:
  assumes ok: "list_all pdu_ok (ps @ [(i, off, d)])" and n: "length ps + 2 \<le> n"
  defines "sgs \<equiv> segs_of i (ps @ [(i, off, d)])"
  defines "tot \<equiv> sint (of_nat (seg_bytes sgs) :: u16)"
  shows "RunReceiver n garbage receiver_new (concat (map (pdu_text False) ps) @ pdu_text True (i, off, d)) [] = Some
    (if tot = 0 then (map pdu_event ps @ [Rx_Pdu i (length d)], None)
     else if tot < 0 then (map pdu_event ps @ [Rx_Pdu i (length d)], Some Bad_Alloc)
     else if list_all (fits (length (garbage (nat tot)))) sgs
       then (map pdu_event ps @ [Rx_Pdu i (length d), Assembled i (fold place sgs (garbage (nat tot)))], None)
     else (map pdu_event ps @ [Rx_Pdu i (length d)], Some Heap_Overflow))"
proof -
  obtain m where m: "n = length ps + Suc (Suc m)" using n by (metis add_Suc_right le_Suc_ex numeral_2_eq_2 add.commute add_2_eq_Suc')
  have ok2: "list_all pdu_ok ps" "i < 256" "d \<noteq> []" "length d \<le> 255" using ok by (simp_all add: pdu_ok_def)
  obtain r1 where r1: "RunReceiver n garbage receiver_new (concat (map (pdu_text False) ps) @ pdu_text True (i, off, d)) []
      = RunReceiver (Suc (Suc m)) garbage r1 (pdu_text True (i, off, d)) (map pdu_event ps)"
    "holds_segs r1 (\<lambda>i. segs_of i ps)"
    using run_more [OF holds_new ok2(1), of "Suc (Suc m)" garbage "pdu_text True (i, off, d)" "[]"] m by auto
  have sg: "segs_of i ps @ [(off, d)] = sgs" by (simp add: sgs_def)
  show ?thesis
    using process_last [OF r1(2) ok2(4), of garbage i off, unfolded sg, folded tot_def]
      receive_text [OF ok2(2-4), of garbage r1 True off "[]"]
    by (auto simp: r1(1) run_end receive_turn_def fgets_def)
qed

lemma sint_u16: "sint (w :: u16) = (if unat w < 32768 then int (unat w) else int (unat w) - 65536)"
proof -
  define x where "x = unat w"
  have u: "uint w = int x" "x < 65536" using unsigned_less [where ?'a = nat, of w] by (simp_all add: x_def)
  have "sint w = (int x + 32768) mod 65536 - 32768"
    unfolding sint_uint u(1) by (simp add: signed_take_bit_eq_take_bit_shift take_bit_eq_mod)
  moreover have "(int x + 32768) mod 65536 = (if x < 32768 then int x + 32768 else int x - 32768)"
  proof (cases "x < 32768")
    case False
    have e: "int x + 32768 = int x - 32768 + 65536" by simp
    have "(int x + 32768) mod 65536 = (int x - 32768) mod 65536" unfolding e mod_add_self2 ..
    also have "\<dots> = int x - 32768" using False u(2) by (subst mod_pos_pos_trivial) simp_all
    finally show ?thesis using False by simp
  qed simp
  ultimately show ?thesis by (simp add: x_def)
qed

text \<open>C15. The service puts messages together: whatever the order of the segments of a message of at most 32767 bytes, and
  whatever segments of other sequences come between them, if they tile the message, then the text of the session is
  answered with a line for each segment and the message.\<close>

theorem bi_assembles:
  assumes "tiles m (segs_of i (ps @ [(i, off, d)]))" and "length m < 32768" and "list_all pdu_ok (ps @ [(i, off, d)])"
    and "\<And>k. length (garbage k) = k" and "length ps + 2 \<le> n"
  shows "RunReceiver n garbage receiver_new (concat (map (pdu_text False) ps) @ pdu_text True (i, off, d)) []
    = Some (map pdu_event ps @ [Rx_Pdu i (length d), Assembled i m], None)"
proof -
  define sgs where "sgs = segs_of i (ps @ [(i, off, d)])"
  have t: "tiles m sgs" using assms(1) by (simp add: sgs_def)
  have "d \<noteq> []" using assms(3) by (simp add: pdu_ok_def)
  then have "0 < seg_bytes sgs" by (simp add: sgs_def seg_bytes_def)
  then have len: "seg_bytes sgs = length m" "0 < length m" using t by (simp_all add: tiles_def)
  have "unat (of_nat (length m) :: u16) = length m" using assms(2) by (simp add: unat_of_nat)
  then have s: "sint (of_nat (length m) :: u16) = int (length m)" using assms(2) by (simp add: sint_u16)
  have "fold place sgs (garbage (length m)) = m" "list_all (fits (length (garbage (length m)))) sgs"
    using tiles_fold [OF t, of "garbage (length m)"] assms(4) by auto
  then show ?thesis
    using run_session [OF assms(3,5), of garbage, folded sgs_def, unfolded len(1) s] len(2) by simp
qed

text \<open>Two segments of a message in the wrong order, and one of another sequence between them.\<close>

lemma bi_assembles_witness:
  "RunReceiver 4 (\<lambda>k. replicate k 7) receiver_new
     (concat (map (pdu_text False) [(5, 2, [3, 4]), (6, 9, [0])]) @ pdu_text True (5, 0, [1, 2])) []
   = Some (map pdu_event [(5, 2, [3, 4]), (6, 9, [0])] @ [Rx_Pdu 5 2, Assembled 5 [1, 2, 3, 4]], None)"
proof -
  have "p = 0 \<or> p = 1 \<or> p = 2 \<or> p = (3 :: nat)" if "p < 4" for p using that by arith
  then have "list_ex (covers p) [(2, [3, 4]), (0, [1, 2])]" if "p < 4" for p
    using that by (fastforce simp: covers_def)
  then have "tiles [1, 2, 3, 4] (segs_of 5 ([(5, 2, [3, 4]), (6, 9, [0])] @ [(5, 0, [1, 2])]))"
    by (simp add: tiles_def part_of_def seg_bytes_def)
  from bi_assembles [OF this, where n = 4 and garbage = "\<lambda>k. replicate k 7"] show ?thesis by (simp add: pdu_ok_def)
qed

text \<open>C16. When it does not: with the length of the segments counted in sixteen bits, a session that ends a sequence is ended
  without a message if the count is zero, by a failed allocation if it is not positive, and by a write behind the buffer
  if some segment reaches beyond the count.\<close>

theorem bi_overflows:
  assumes "list_all pdu_ok (ps @ [(i, off, d)])" and "\<And>k. length (garbage k) = k" and "length ps + 2 \<le> n"
    and "sgs = segs_of i (ps @ [(i, off, d)])" and "t = seg_bytes sgs mod 65536"
  shows "map_option snd (RunReceiver n garbage receiver_new (concat (map (pdu_text False) ps) @ pdu_text True (i, off, d)) [])
    = Some (if t = 0 then None else if 32768 \<le> t then Some Bad_Alloc
        else if \<exists>sg \<in> set sgs. t < unat (fst sg) + length (snd sg) then Some Heap_Overflow else None)"
proof -
  define w where "w = (of_nat (seg_bytes sgs) :: u16)"
  have uw: "unat w = t" using assms(5) by (simp add: w_def unat_of_nat)
  have t: "t < 65536" by (simp add: assms(5))
  have s: "sint w = (if t < 32768 then int t else int t - 65536)"
    by (simp add: sint_u16 uw)
  have f: "list_all (fits t) sgs \<longleftrightarrow> \<not> (\<exists>sg \<in> set sgs. t < unat (fst sg) + length (snd sg))"
    by (auto simp: list_all_iff fits_def not_less)
  show ?thesis
    using run_session [OF assms(1,3), of garbage, folded assms(4) w_def] t f assms(2)
    by (auto simp: s)
qed

text \<open>One segment of one byte, at the offset one.\<close>

lemma bi_overflows_witness:
  "map_option snd (RunReceiver 2 (\<lambda>k. replicate k 7) receiver_new (concat (map (pdu_text False) []) @ pdu_text True (5, 1, [9])) [])
    = Some (Some Heap_Overflow)"
proof -
  have "list_all pdu_ok ([] @ [(5, 1, [9])])" by (simp add: pdu_ok_def)
  from bi_overflows [OF this _ _ refl refl, of "\<lambda>k. replicate k 7" 2]
  show ?thesis by (simp add: seg_bytes_def)
qed

lemma bi_hex_loop_result:
  "list_all (\<lambda>c. c \<noteq> 0 \<and> c \<noteq> 10) cs \<Longrightarrow> \<exists>tmp'. length tmp' = length tmp \<and> bi_hex_loop (cs @ rest) pos tmp
    = (if cs = [] \<or> (pos + length cs - 1) div 2 < length tmp then bi_hex_loop rest (pos + length cs) tmp' else Inl Heap_Overflow)"
proof (induction cs arbitrary: pos tmp)
  case Nil
  show ?case by (intro exI [of _ tmp]) simp
next
  case (Cons c cs)
  define tmp1 where "tmp1 = (if pos mod 2 = 0 then tmp[pos div 2 := AsciiToHex c]
    else tmp[pos div 2 := push_bit 4 (tmp ! (pos div 2)) OR AsciiToHex c])"
  have l: "length tmp1 = length tmp" by (simp add: tmp1_def)
  have "list_all (\<lambda>c. c \<noteq> 0 \<and> c \<noteq> 10) cs" using Cons.prems by simp
  from Cons.IH [OF this, of tmp1 "Suc pos"] obtain tmp' where t: "length tmp' = length tmp1"
    "bi_hex_loop (cs @ rest) (Suc pos) tmp1
      = (if cs = [] \<or> (Suc pos + length cs - 1) div 2 < length tmp1 then bi_hex_loop rest (Suc pos + length cs) tmp' else Inl Heap_Overflow)"
    by blast
  have mono: "pos div 2 \<le> (pos + length cs) div 2" by (simp add: div_le_mono)
  show ?case
  proof (cases "length tmp \<le> pos div 2")
    case True
    then show ?thesis using mono Cons.prems by (intro exI [of _ tmp]) auto
  next
    case False
    then have "bi_hex_loop ((c # cs) @ rest) pos tmp = bi_hex_loop (cs @ rest) (Suc pos) tmp1"
      using Cons.prems by (simp add: tmp1_def)
    then show ?thesis using t l False by (intro exI [of _ tmp']) auto
  qed
qed

lemma bi_Convert_result:
  "(bi_ConvertHex line = Inl Heap_Overflow \<longleftrightarrow> odd (length (takeWhile (\<lambda>c. c \<noteq> 0) line)) \<and> 10 \<notin> set (takeWhile (\<lambda>c. c \<noteq> 0) line))
    \<and> bi_ConvertHex line \<noteq> Inl Bad_Pointer"
proof -
  define str where "str = takeWhile (\<lambda>c. c \<noteq> 0) line"
  define cs where "cs = takeWhile (\<lambda>c. c \<noteq> 10) str"
  define rest where "rest = dropWhile (\<lambda>c. c \<noteq> 10) str @ dropWhile (\<lambda>c. c \<noteq> 0) line"
  define tmp where "tmp = replicate (length str div 2) (0 :: u8)"
  have line: "line = cs @ rest" by (simp add: cs_def rest_def str_def flip: append_assoc)
  have "list_all (\<lambda>c. c \<noteq> 0 \<and> c \<noteq> 10) cs"
    by (auto simp: list_all_iff cs_def str_def dest!: set_takeWhileD)
  then obtain tmp' where h: "length tmp' = length tmp"
    "bi_hex_loop line 0 tmp = (if cs = [] \<or> (length cs - 1) div 2 < length tmp then bi_hex_loop rest (length cs) tmp' else Inl Heap_Overflow)"
    using bi_hex_loop_result [of cs tmp rest 0] line by auto
  have r: "bi_hex_loop rest p t = Inr (p, t)" for p t
  proof (cases rest)
    case (Cons c r)
    have "c = 0 \<or> c = 10"
    proof (cases "dropWhile (\<lambda>c. c \<noteq> 10) str")
      case Nil
      then have "dropWhile (\<lambda>c. c \<noteq> 0) line = c # r" using Cons unfolding rest_def Nil by simp
      then show ?thesis by (simp add: dropWhile_eq_Cons_conv)
    next
      case (Cons e es)
      then have "e = 10" by (simp add: dropWhile_eq_Cons_conv)
      moreover have "c = e" using \<open>rest = c # r\<close> unfolding rest_def Cons by simp
      ultimately show ?thesis by simp
    qed
    then show ?thesis using Cons by auto
  qed simp
  have "length (cs @ dropWhile (\<lambda>c. c \<noteq> 10) str) = length str"
    unfolding cs_def takeWhile_dropWhile_id ..
  moreover have "dropWhile (\<lambda>c. c \<noteq> 10) str = [] \<longleftrightarrow> 10 \<notin> set str" by auto
  ultimately have lcs: "length cs \<le> length str" "10 \<in> set str \<longleftrightarrow> length cs < length str"
    by (cases "dropWhile (\<lambda>c. c \<noteq> 10) str"; simp)+
  have "\<not> (cs = [] \<or> (length cs - 1) div 2 < length tmp) \<longleftrightarrow> odd (length str) \<and> 10 \<notin> set str"
  proof (cases "cs = []")
    case True
    then show ?thesis using lcs by (cases "length str") auto
  next
    case False
    then obtain k where k: "length cs = Suc k" by (cases cs) auto
    show ?thesis using lcs False k by (auto simp: tmp_def elim!: oddE evenE)
  qed
  then show ?thesis using h(2) r unfolding bi_ConvertHex_def str_def [symmetric] tmp_def [symmetric] by auto
qed

lemma bi_hex_loop_error: "bi_hex_loop cs pos tmp = Inl e \<Longrightarrow> e = Heap_Overflow"
  by (induction cs arbitrary: pos tmp) (auto split: if_splits)

lemma bi_Convert_overflow: "bi_ConvertHex line = Inl e \<Longrightarrow> e = Heap_Overflow"
  by (auto simp: bi_ConvertHex_def andThen_def dest: bi_hex_loop_error split: sum.splits)

lemma fgets_shorter: "fgets n input = Some (line, rest) \<Longrightarrow> 2 \<le> n \<Longrightarrow> length rest < length input"
  by (cases input) (auto simp: fgets_def Let_def split: if_splits)

text \<open>The sequences hold the segments \<open>segs\<close>; the next turn reads its lines from \<open>input\<close>. It goes wrong in three ways.\<close>

inductive goes_wrong :: "(nat \<Rightarrow> (u16 \<times> u8 list) list) \<Rightarrow> u8 list \<Rightarrow> heap_error \<Rightarrow> bool" for segs input where
  long_line: "fgets 255 input = Some (l1, i1) \<Longrightarrow> fgets 255 i1 = Some (l2, i2) \<Longrightarrow> fgets 768 i2 = Some (l3, i3)
    \<Longrightarrow> line = takeWhile (\<lambda>c. c \<noteq> 0) l3 \<Longrightarrow> odd (length line) \<Longrightarrow> 10 \<notin> set line
    \<Longrightarrow> goes_wrong segs input Heap_Overflow"
| last_segment: "fgets 255 input = Some (l1, i1) \<Longrightarrow> fgets 255 i1 = Some (l2, i2) \<Longrightarrow> fgets 768 i2 = Some (l3, i3)
    \<Longrightarrow> bi_ConvertHex l3 = Inr d \<Longrightarrow> fgets 768 i3 = Some (l4, i4) \<Longrightarrow> read_lsf l4 = Some True
    \<Longrightarrow> sgs = segs (unat (of_int (atol l1) :: u32)) @ [(ucast (of_int (atol l2) :: u32), d)] \<Longrightarrow> t = seg_bytes sgs mod 65536
    \<Longrightarrow> e = Bad_Alloc \<and> 32768 \<le> t \<or> e = Heap_Overflow \<and> (\<exists>sg \<in> set sgs. t < unat (fst sg) + length (snd sg))
    \<Longrightarrow> goes_wrong segs input e"

text \<open>The turns that go well.\<close>

inductive turns_to :: "(nat \<Rightarrow> u8 list) \<Rightarrow> receiver \<times> u8 list \<Rightarrow> receiver \<times> u8 list \<Rightarrow> bool" for garbage where
  no_turn: "turns_to garbage st st"
| a_turn: "receive_turn garbage r input = Some (evs, Inr (Some st)) \<Longrightarrow> turns_to garbage st st' \<Longrightarrow> turns_to garbage (r, input) st'"

lemma process_wrong:
  assumes "holds_segs r segs" "length d \<le> 255" "\<And>k. length (garbage k) = k"
    and "process_pdu garbage i off d lsf r = Some (evs, Inl e)"
  defines "t \<equiv> seg_bytes (segs i @ [(off, d)]) mod 65536"
  shows "lsf \<and> (e = Bad_Alloc \<and> 32768 \<le> t \<or> e = Heap_Overflow \<and> (\<exists>sg \<in> set (segs i @ [(off, d)]). t < unat (fst sg) + length (snd sg)))"
proof (cases lsf)
  case True
  let ?sgs = "segs i @ [(off, d)]"
  have uw: "unat (of_nat (seg_bytes ?sgs) :: u16) = t" by (simp add: t_def unat_of_nat)
  have t: "t < 65536" by (simp add: t_def)
  have s: "sint (of_nat (seg_bytes ?sgs) :: u16) = (if t < 32768 then int t else int t - 65536)" by (simp add: sint_u16 uw)
  show ?thesis
    using process_last [OF assms(1,2), of garbage i off] assms(4) True t unfolding s
    by (fastforce simp: assms(3) list_all_iff fits_def not_less split: if_splits)
qed (use process_more [OF assms(1,2), of garbage i off] assms(4) in auto)

lemma receive_turn_ok:
  assumes "holds_segs r segs" "\<And>k. length (garbage k) = k"
  shows "\<exists>evs res. receive_turn garbage r input = Some (evs, res)
    \<and> (\<forall>e. res = Inl e \<longrightarrow> goes_wrong segs input e)
    \<and> (\<forall>r' inp. res = Inr (Some (r', inp)) \<longrightarrow> (\<exists>segs'. holds_segs r' segs') \<and> length inp < length input)"
proof (cases "fgets 255 input")
  case (Some a)
  obtain l1 i1 where 1: "fgets 255 input = Some (l1, i1)" using Some by (cases a) simp
  show ?thesis
  proof (cases "fgets 255 i1")
    case (Some a)
    obtain l2 i2 where 2: "fgets 255 i1 = Some (l2, i2)" using Some by (cases a) simp
    show ?thesis
    proof (cases "fgets 768 i2")
      case (Some a)
      obtain l3 i3 where 3: "fgets 768 i2 = Some (l3, i3)" using Some by (cases a) simp
      have s: "length i3 < length input"
        using fgets_shorter [OF 1] fgets_shorter [OF 2] fgets_shorter [OF 3] by simp
      show ?thesis
      proof (cases "bi_ConvertHex l3")
        case (Inl e)
        then have "e = Heap_Overflow" by (rule bi_Convert_overflow)
        then have "goes_wrong segs input e" using bi_Convert_result [of l3] Inl long_line [OF 1 2 3 refl] by simp
        then show ?thesis using 1 2 3 Inl by (auto simp: receive_turn_def Let_def)
      next
        case (Inr pData)
        show ?thesis
        proof (cases "fgets 768 i3")
          case (Some a)
          obtain l4 i4 where 4: "fgets 768 i3 = Some (l4, i4)" using Some by (cases a) simp
          have s4: "length i4 < length input" using s fgets_shorter [OF 4] by simp
          show ?thesis
          proof (cases "length pData \<le> 255 \<and> read_lsf l4 \<noteq> None")
            case True
            obtain lsf where lsf: "read_lsf l4 = Some lsf" using True by auto
            let ?i = "unat (of_int (atol l1) :: u32)" and ?off = "ucast (of_int (atol l2) :: u32) :: u16"
            obtain evs res where res: "process_pdu garbage ?i ?off pData lsf r = Some (evs, res)"
              "\<forall>r'. res = Inr (Some r') \<longrightarrow> (\<exists>segs'. holds_segs r' segs')"
              using process_returns [OF assms(1)] True by blast
            have "goes_wrong segs input e" if "res = Inl e" for e
              using process_wrong [OF assms(1) _ assms(2) res(1) [unfolded that]] True lsf last_segment [OF 1 2 3 Inr 4 _ refl refl] by simp
            then show ?thesis using 1 2 3 4 Inr res s4 lsf True
              by (cases res) (auto simp: receive_turn_def Let_def)
          qed (use 1 2 3 4 Inr s assms in \<open>auto simp: receive_turn_def Let_def\<close>)
        qed (use 1 2 3 Inr s assms in \<open>auto simp: receive_turn_def Let_def\<close>)
      qed
    qed (use 1 2 in \<open>auto simp: receive_turn_def Let_def\<close>)
  qed (use 1 in \<open>auto simp: receive_turn_def Let_def\<close>)
qed (simp add: receive_turn_def)

text \<open>C17. On every input the service comes to its end, or to one of three turns that go wrong: a line of data that overruns
  the buffer of the conversion, a last segment of a sequence whose bytes, counted in sixteen bits, are negative, so that the
  allocation throws, and a last segment of a sequence in which a segment reaches beyond the count, so that the assembly
  writes behind its buffer. All turns before it leave every sequence with its segments in lists that are intact. What the
  code does after a write outside of a buffer has no defined behaviour.\<close>

theorem bi_returns:
  assumes "length input < n" "\<And>k. length (garbage k) = k"
  shows "\<exists>out e. RunReceiver n garbage receiver_new input [] = Some (out, e)
    \<and> (\<forall>err. e = Some err \<longrightarrow> (\<exists>r rest segs. turns_to garbage (receiver_new, input) (r, rest) \<and> holds_segs r segs \<and> goes_wrong segs rest err))"
proof -
  have "\<exists>out' e. RunReceiver n garbage r input out = Some (out', e)
    \<and> (\<forall>err. e = Some err \<longrightarrow> (\<exists>r' rest segs. turns_to garbage (r, input) (r', rest) \<and> holds_segs r' segs \<and> goes_wrong segs rest err))"
    if "length input < n" "holds_segs r segs" for r segs input out
    using that
  proof (induction n arbitrary: r segs input out)
    case (Suc n)
    obtain evs res where res: "receive_turn garbage r input = Some (evs, res)" "\<And>e. res = Inl e \<Longrightarrow> goes_wrong segs input e"
      "\<And>r' inp. res = Inr (Some (r', inp)) \<Longrightarrow> (\<exists>segs'. holds_segs r' segs') \<and> length inp < length input"
      using receive_turn_ok [OF Suc.prems(2) assms(2)] by blast
    consider e where "res = Inl e" "goes_wrong segs input e" | "res = Inr None"
      | r' inp segs' where "res = Inr (Some (r', inp))" "holds_segs r' segs'" "length inp < length input"
      using res(2,3) by (metis not_None_eq surj_pair sum.exhaust)
    then show ?case
    proof cases
      case 1
      then show ?thesis using res(1) Suc.prems(2) turns_to.no_turn [of garbage "(r, input)"] by auto
    next
      case 3
      obtain out' e where "RunReceiver n garbage r' inp (out @ evs) = Some (out', e)"
        "\<forall>err. e = Some err \<longrightarrow> (\<exists>r2 rest segs. turns_to garbage (r', inp) (r2, rest) \<and> holds_segs r2 segs \<and> goes_wrong segs rest err)"
        using Suc.IH [of inp r' segs' "out @ evs"] Suc.prems(1) 3 by fastforce
      moreover have "turns_to garbage (r', inp) st \<Longrightarrow> turns_to garbage (r, input) st" for st
        using res(1) 3(1) by (auto intro: turns_to.a_turn)
      ultimately show ?thesis using res(1) 3(1) by (auto; meson)
    qed (use res(1) in simp)
  qed simp
  then show ?thesis using assms(1) holds_new by blast
qed

lemma bi_returns_witness:
  "\<exists>out e. RunReceiver 3 (\<lambda>k. replicate k 0) receiver_new [49, 10] [] = Some (out, e)
    \<and> (\<forall>err. e = Some err \<longrightarrow> (\<exists>r rest segs. turns_to (\<lambda>k. replicate k 0) (receiver_new, [49, 10]) (r, rest) \<and> holds_segs r segs \<and> goes_wrong segs rest err))"
  by (rule bi_returns) simp_all

text \<open>A line of an odd number of digits that is not ended overruns the buffer: the service is ended by a write outside of
  it if the data, 767 bytes or more without the end of the line, is read after a good sequence number and offset.\<close>

theorem bi_long_line_overruns:
  assumes "i < 256" and "k < 65536" and "767 \<le> length cs" and "list_all (\<lambda>c. c \<noteq> 0 \<and> c \<noteq> 10) cs" and "0 < n"
  shows "RunReceiver n garbage receiver_new (show_nat i @ 10 # show_nat k @ 10 # cs @ rest) [] = Some ([], Some Heap_Overflow)"
proof -
  have d: "takeWhile (\<lambda>c. c \<noteq> 10) (cs @ rest) = cs @ takeWhile (\<lambda>c. c \<noteq> 10) rest"
    using assms(4) by (intro takeWhile_append2) (auto simp: list_all_iff)
  have f: "fgets 768 (cs @ rest) = Some (take 767 cs, drop 767 cs @ rest)"
    using assms(3) by (auto simp: fgets_def d Let_def)
  have t: "takeWhile (\<lambda>c. c \<noteq> 0) (take 767 cs) = take 767 cs"
    using assms(4) by (auto simp: takeWhile_eq_all_conv list_all_iff dest: in_set_takeD)
  have "10 \<notin> set (take 767 cs)" using assms(4) by (auto simp: list_all_iff dest: in_set_takeD)
  then have c: "bi_ConvertHex (take 767 cs) = Inl Heap_Overflow"
    using bi_Convert_result [of "take 767 cs"] assms(3) t by simp
  have w: "\<not> (of_int (atol (show_nat j @ [10])) :: u32) > b" if "j < 65536" "j \<le> unat b" for j and b :: u32
    using that atol_show [of j] by (simp add: word_less_nat_alt unat_of_nat)
  have "receive_turn garbage receiver_new (show_nat i @ 10 # show_nat k @ 10 # cs @ rest) = Some ([], Inl Heap_Overflow)"
    using assms(1,2) w [of i 255] w [of k 65535]
    by (simp add: receive_turn_def fgets_show f c Let_def)
  then show ?thesis using assms(5) by (cases n) simp_all
qed

lemma bi_long_line_overruns_witness:
  "RunReceiver 1 (\<lambda>k. replicate k 0) receiver_new (show_nat 5 @ 10 # show_nat 0 @ 10 # replicate 767 48 @ []) []
    = Some ([], Some Heap_Overflow)"
  by (rule bi_long_line_overruns) (simp_all add: list_all_iff)

end
