(* ===== verification/Divided_Lib.thy ===== *)
theory Divided_Lib
  imports Prelude "HOL-Library.Signed_Division"
begin

unbundle bit_operations_syntax

text \<open>
  Routines of \<open>src/divided\<close> (\<open>mystdlib.h\<close>): the cipher TEA, the text of numbers, and reading through a buffer. Text ends
  with the byte 255. \<open>char\<close> is signed and a \<open>long long\<close> is a 64-bit word that wraps around where the code overflows. The
  answers of \<open>receive\<close> are a parameter: for every call the bytes of a chunk, none at the end of the input.
\<close>

subsection \<open>TEA\<close>

definition tea_delta :: u32 where "tea_delta = 0x9e3779b9"

definition tea_mix :: "u32 \<Rightarrow> u32 \<Rightarrow> u32 \<Rightarrow> u32 \<Rightarrow> u32" where
  "tea_mix v ka kb sm = (push_bit 4 v + ka) XOR (v + sm) XOR (drop_bit 5 v + kb)"

type_synonym tea_key = "u32 \<times> u32 \<times> u32 \<times> u32"

definition encrypt_round :: "tea_key \<Rightarrow> u32 \<times> u32 \<times> u32 \<Rightarrow> u32 \<times> u32 \<times> u32" where
  "encrypt_round = (\<lambda>(k0, k1, k2, k3) (v0, v1, sm).
     let sm = sm + tea_delta; v0 = v0 + tea_mix v1 k0 k1 sm; v1 = v1 + tea_mix v0 k2 k3 sm in (v0, v1, sm))"

definition encrypt :: "u32 \<times> u32 \<Rightarrow> tea_key \<Rightarrow> u32 \<times> u32" where
  "encrypt v k = (let (v0, v1, sm) = (encrypt_round k ^^ 32) (fst v, snd v, 0) in (v0, v1))"

definition decrypt_round :: "tea_key \<Rightarrow> u32 \<times> u32 \<times> u32 \<Rightarrow> u32 \<times> u32 \<times> u32" where
  "decrypt_round = (\<lambda>(k0, k1, k2, k3) (v0, v1, sm).
     let v1 = v1 - tea_mix v0 k2 k3 sm; v0 = v0 - tea_mix v1 k0 k1 sm in (v0, v1, sm - tea_delta))"

definition decrypt :: "u32 \<times> u32 \<Rightarrow> tea_key \<Rightarrow> u32 \<times> u32" where
  "decrypt v k = (let (v0, v1, sm) = (decrypt_round k ^^ 32) (fst v, snd v, 0xC6EF3720) in (v0, v1))"

subsection \<open>Numbers as text\<close>

definition STR_TERM :: u8 where "STR_TERM = 255"

text \<open>\<open>int_to_array\<close>: the digits are counted, and written from the end; the terminator comes after them.\<close>

function count_chars :: "u64 \<Rightarrow> nat" where
  "count_chars res = (if res div 10 = 0 then 1 else 1 + count_chars (res div 10))"
  by pat_completeness auto
termination
proof (relation "measure unat", goal_cases)
  case (2 res)
  then have "unat res \<noteq> 0" by (metis div_0 unat_eq_zero)
  then show ?case by (simp add: unat_div)
qed simp

declare count_chars.simps [simp del]

function write_digits :: "nat \<Rightarrow> nat \<Rightarrow> u64 \<Rightarrow> u8 list \<Rightarrow> nat \<times> u8 list" where
  "write_digits num_chars iter res ret =
     (let ret1 = ret[num_chars - iter := ucast (res mod 10 + 48)]; res1 = res div 10
      in if res1 = 0 then (iter + 1, ret1) else write_digits num_chars (iter + 1) res1 ret1)"
  by pat_completeness auto
termination
proof (relation "measure (\<lambda>(_, _, res, _). unat res)", goal_cases)
  case (2 num_chars iter res ret ret1 res1)
  then have "unat res \<noteq> 0" by (metis div_0 unat_eq_zero)
  then show ?case using 2 by (simp add: unat_div)
qed simp

declare write_digits.simps [simp del]

definition int_to_array :: "u64 \<Rightarrow> u8 list" where
  "int_to_array a =
     (let num_chars = count_chars a; (iter, ret) = write_digits num_chars 1 a (replicate (num_chars + 1) 0)
      in ret[iter - 1 := STR_TERM])"

text \<open>Reading digits: the sum so far times ten, and in the end a division by ten.\<close>

fun digit_sum :: "u8 list \<Rightarrow> u64 \<Rightarrow> u64" where
  "digit_sum [] ret = ret"
| "digit_sum (c # arr) ret = (if 48 \<le> c \<and> c \<le> 57 then digit_sum arr ((ret + ucast (c - 48)) * 10) else ret)"

definition array_to_ull :: "u8 list \<Rightarrow> u64" where
  "array_to_ull arr = digit_sum arr 0 div 10"

definition array_to_int :: "u8 list \<Rightarrow> u32" where
  "array_to_int arr = of_int (sint (digit_sum arr 0) sdiv 10)"

fun my_strlen :: "u8 list \<Rightarrow> nat" where
  "my_strlen [] = 0"
| "my_strlen (c # arr) = (if c \<noteq> STR_TERM then 1 + my_strlen arr else 0)"

subsection \<open>Reading through a buffer\<close>

text \<open>The end of the program (\<open>quit\<close> with its code), and accesses that do not end in memory of the program.\<close>

datatype dv_error = Quit int | Wild | Null_Deref

record buffer_object =
  amount_read :: nat
  amount_sent :: nat
  buffered_data :: "u8 list"

definition bobj_empty :: buffer_object where
  "bobj_empty = \<lparr>amount_read = 0, amount_sent = 0, buffered_data = replicate 1024 0\<rparr>"

text \<open>The input: what the calls of \<open>receive\<close> still give.\<close>

type_synonym chunks = "u8 list list"

definition receive_chunk :: "chunks \<Rightarrow> u8 list \<times> chunks" where
  "receive_chunk inp = (case inp of [] \<Rightarrow> ([], []) | c # rest \<Rightarrow> (c, rest))"

definition buffered_read :: "buffer_object \<times> chunks \<Rightarrow> dv_error + (u8 \<times> buffer_object \<times> chunks)" where
  "buffered_read = (\<lambda>(b, inp).
     andThen
       (if amount_read b = amount_sent b
        then let (c, inp) = receive_chunk inp; rx = length c; b = b\<lparr>amount_sent := 0, amount_read := 0\<rparr>
             in if rx = 0 then Inl (Quit (- 1))
                else Inr (b\<lparr>amount_read := rx, buffered_data := c @ drop rx (buffered_data b)\<rparr>, inp)
        else Inr (b, inp))
       (\<lambda>(b, inp). Inr (buffered_data b ! amount_sent b, b\<lparr>amount_sent := amount_sent b + 1\<rparr>, inp)))"

text \<open>\<open>read_until\<close>: \<open>k\<close> is what is left of \<open>max\<close>; the text so far stands in \<open>dst\<close>.\<close>

fun until_loop :: "nat \<Rightarrow> u8 \<Rightarrow> nat \<Rightarrow> u8 list \<Rightarrow> buffer_object \<times> chunks \<Rightarrow> dv_error + (nat \<times> u8 list \<times> buffer_object \<times> chunks)" where
  "until_loop 0 delim len dst st = Inr (len, dst, st)"
| "until_loop (Suc k) delim len dst st =
     (let dst = dst[len := 0]
      in case buffered_read st of Inl e \<Rightarrow> Inl e
         | Inr (c, st) \<Rightarrow> if c = delim then Inr (len, dst, st) else until_loop k delim (len + 1) (dst[len := c]) st)"

definition read_until :: "u8 list \<Rightarrow> u8 \<Rightarrow> nat \<Rightarrow> buffer_object \<times> chunks \<Rightarrow> dv_error + (nat \<times> u8 list \<times> buffer_object \<times> chunks)" where
  "read_until dst delim mx st = until_loop mx delim 0 dst st"

definition read_int :: "buffer_object \<times> chunks \<Rightarrow> dv_error + (u32 \<times> buffer_object \<times> chunks)" where
  "read_int st = andThen (read_until (replicate 13 0) 10 12 st)
     (\<lambda>(_, tbuf, st). Inr (array_to_int (tbuf[12 := STR_TERM]), st))"

definition read_ull :: "buffer_object \<times> chunks \<Rightarrow> dv_error + (u64 \<times> buffer_object \<times> chunks)" where
  "read_ull st = andThen (read_until (replicate 22 0) 10 21 st)
     (\<lambda>(_, tbuf, st). Inr (array_to_ull (tbuf[21 := STR_TERM]), st))"

text \<open>\<open>read_line\<close>, in a block with room for \<open>buf_len + 3\<close> bytes whose first contents are \<open>block\<close>.\<close>

definition read_line :: "u8 list \<Rightarrow> nat \<Rightarrow> buffer_object \<times> chunks \<Rightarrow> dv_error + (u8 list \<times> buffer_object \<times> chunks)" where
  "read_line block buf_len st = andThen (read_until block 10 (buf_len + 1) st)
     (\<lambda>(n, tbuf, st). Inr (tbuf[n := 255], st))"

text \<open>What is sent of a text: the bytes before its end.\<close>

definition transmit_str :: "u8 list \<Rightarrow> u8 list" where
  "transmit_str str = take (my_strlen str) str"

end
