(* ===== verification/Divided_Lib_Props.thy ===== *)
theory Divided_Lib_Props
  imports Divided_Lib
begin

text \<open>
  TEA decrypts what it encrypted; numbers are printed as their decimal digits, and read back as long as ten times the number
  fits in a word; reading does not depend on how the input is cut into chunks.
\<close>

subsection \<open>TEA\<close>

lemma tea_rounds:
  "decrypt_round k (encrypt_round k s) = s" "encrypt_round k (decrypt_round k s) = s"
  by (cases k; cases s; simp add: encrypt_round_def decrypt_round_def Let_def)+

lemma funpow_inverse:
  fixes f g :: "'a \<Rightarrow> 'a"
  shows "(\<And>x. f (g x) = x) \<Longrightarrow> (f ^^ n) ((g ^^ n) x) = x"
proof (induction n arbitrary: x)
  case (Suc n)
  have "(f ^^ Suc n) ((g ^^ Suc n) x) = (f ^^ n) (f (g ((g ^^ n) x)))" by (simp add: funpow_swap1)
  then show ?case using Suc by simp
qed simp

lemma encrypt_sum: "snd (snd ((encrypt_round k ^^ n) s)) = snd (snd s) + of_nat n * tea_delta"
  by (induction n) (auto simp: encrypt_round_def Let_def case_prod_beta algebra_simps)

lemma decrypt_sum: "snd (snd ((decrypt_round k ^^ n) s)) = snd (snd s) - of_nat n * tea_delta"
  by (induction n) (auto simp: decrypt_round_def Let_def case_prod_beta algebra_simps)

lemma tea_sum: "(32 * tea_delta :: u32) = 0xC6EF3720" by (simp add: tea_delta_def)

lemma encrypt_state: "(encrypt_round k ^^ 32) (fst v, snd v, 0) = (fst (encrypt v k), snd (encrypt v k), 0xC6EF3720)"
  using encrypt_sum [of 32 k "(fst v, snd v, 0)"] tea_sum by (simp add: encrypt_def case_prod_beta prod_eq_iff)

lemma decrypt_state: "(decrypt_round k ^^ 32) (fst v, snd v, 0xC6EF3720) = (fst (decrypt v k), snd (decrypt v k), 0)"
  using decrypt_sum [of 32 k "(fst v, snd v, 0xC6EF3720)"] tea_sum by (simp add: decrypt_def case_prod_beta prod_eq_iff)

text \<open>C34. Decryption is the inverse of encryption, on both sides.\<close>

theorem tea_inverse: "decrypt (encrypt v k) k = v \<and> encrypt (decrypt v k) k = v"
proof
  have "(decrypt_round k ^^ 32) ((encrypt_round k ^^ 32) (fst v, snd v, 0)) = (fst v, snd v, 0)"
    by (rule funpow_inverse) (rule tea_rounds)
  then show "decrypt (encrypt v k) k = v" unfolding encrypt_state by (simp add: decrypt_def)
  have "(encrypt_round k ^^ 32) ((decrypt_round k ^^ 32) (fst v, snd v, 0xC6EF3720)) = (fst v, snd v, 0xC6EF3720)"
    by (rule funpow_inverse) (rule tea_rounds)
  then show "encrypt (decrypt v k) k = v" unfolding decrypt_state by (simp add: encrypt_def)
qed

subsection \<open>Decimal digits\<close>

lemma unat_div10: "unat ((w :: u64) div 10) = unat w div 10"
  by (simp add: unat_div)

lemma div10_0: "(w :: u64) div 10 = 0 \<longleftrightarrow> unat w < 10"
  by (metis unat_div10 div_eq_0_iff unat_eq_zero zero_neq_numeral)

lemma count_chars_dec: "count_chars a = length (dec_text (unat a))"
proof (induction a rule: count_chars.induct)
  case (1 a)
  then show ?case by (subst count_chars.simps, subst dec_text.simps) (auto simp: div10_0 unat_div10)
qed

lemma digit_char: "ucast ((res :: u64) mod 10 + 48) = (of_nat (unat res mod 10) + 48 :: u8)"
proof -
  have "unat (res mod 10 + 48) = unat res mod 10 + 48" 
    by (subst unat_add_lem [THEN iffD1]) (auto simp: unat_mod)
  then have "(ucast (res mod 10 + 48) :: u8) = of_nat (unat res mod 10 + 48)" by (metis of_nat_unat)
  then show ?thesis by simp
qed

lemma write_digits_dec:
  "length (dec_text (unat res)) + iter = num_chars + 1 \<Longrightarrow> 1 \<le> iter \<Longrightarrow> num_chars \<le> length ret \<Longrightarrow>
   write_digits num_chars iter res ret = (num_chars + 1, dec_text (unat res) @ drop (length (dec_text (unat res))) ret)"
proof (induction num_chars iter res ret rule: write_digits.induct)
  case (1 num_chars iter res ret)
  let ?c = "of_nat (unat res mod 10) + 48 :: u8"
  show ?case
  proof (cases "unat res < 10")
    case True
    then have "num_chars = iter" "res div 10 = 0" using 1(2) dec_text.simps [of "unat res"] by (auto simp: div10_0)
    then show ?thesis using 1 True dec_text.simps [of "unat res"]
      by (subst write_digits.simps) (cases ret; auto simp: digit_char Let_def)
  next
    case False
    define m where "m = length (dec_text (unat res div 10))"
    have d: "dec_text (unat res) = dec_text (unat res div 10) @ [?c]" "res div 10 \<noteq> 0"
      using False dec_text.simps [of "unat res"] by (auto simp: div10_0)
    have m: "num_chars - iter = m" "m < length ret" using 1(2-) d m_def by auto
    have u: "drop m (ret[m := x]) = x # drop (Suc m) ret" for x :: u8
      using m by (metis Cons_nth_drop_Suc drop_update_cancel length_list_update lessI nth_list_update_eq)
    have "write_digits num_chars iter res ret = write_digits num_chars (iter + 1) (res div 10) (ret[m := ?c])"
      using d m by (subst write_digits.simps) (simp add: Let_def digit_char)
    also have "\<dots> = (num_chars + 1, dec_text (unat res div 10) @ drop m (ret[m := ?c]))"
      using 1(1) [OF refl refl] 1(2-) d m by (simp add: digit_char unat_div10 m_def Let_def)
    finally show ?thesis using d u by (simp add: m_def)
  qed
qed

lemma int_to_array_dec: "int_to_array a = dec_text (unat a) @ [STR_TERM]"
proof -
  let ?n = "length (dec_text (unat a))"
  have "write_digits ?n 1 a (replicate (?n + 1) 0) = (?n + 1, dec_text (unat a) @ drop ?n (replicate (?n + 1) 0))"
    by (rule write_digits_dec) auto
  then have "write_digits ?n 1 a (replicate (?n + 1) 0) = (?n + 1, dec_text (unat a) @ [0])"
    by (simp only: drop_replicate diff_add_inverse) simp
  then show ?thesis
    by (simp add: int_to_array_def count_chars_dec Let_def list_update_append del: replicate_Suc)
qed

lemma unat_digit: "m < 10 \<Longrightarrow> unat (of_nat m + 48 :: u8) = m + 48"
proof -
  assume "m < 10"
  then have "unat (of_nat (m + 48) :: u8) = m + 48" by (simp only: unat_of_nat) (simp add: take_bit_eq_mod)
  then show ?thesis by simp
qed

lemma digit_range: "m < 10 \<Longrightarrow> (48 :: u8) \<le> of_nat m + 48 \<and> of_nat m + 48 \<le> (57 :: u8)"
  by (simp add: word_le_nat_alt unat_digit)

lemma dec_text_digit: "c \<in> set (dec_text n) \<Longrightarrow> 48 \<le> c \<and> c \<le> 57"
proof (induction n rule: dec_text.induct)
  case (1 n)
  show ?case
  proof (cases "n < 10")
    case True
    then show ?thesis using 1(2) digit_range dec_text.simps [of n] by auto
  next
    case False
    then show ?thesis using 1 digit_range [of "n mod 10"] dec_text.simps [of n] by auto
  qed
qed

lemma digit_value: "m < 10 \<Longrightarrow> ucast ((of_nat m + 48 :: u8) - 48) = (of_nat m :: u64)"
proof -
  assume "m < 10"
  then have "unat (of_nat m :: u8) = m" by (simp add: unat_of_nat take_bit_eq_mod)
  then show ?thesis by (metis add_diff_cancel_right' of_nat_unat)
qed

lemma digit_sum_digit: "m < 10 \<Longrightarrow> digit_sum ((of_nat m + 48) # rest) v = digit_sum rest ((v + of_nat m) * 10)"
  using digit_range [of m] digit_value [of m] by simp

declare digit_sum.simps(2) [simp del]

lemma digit_sum_dec: "digit_sum (dec_text n @ rest) 0 = digit_sum rest (of_nat (10 * n))"
proof (induction n arbitrary: rest rule: dec_text.induct)
  case (1 n)
  show ?case
  proof (cases "n < 10")
    case True
    then show ?thesis using dec_text.simps [of n] by (simp add: digit_sum_digit mult.commute)
  next
    case False
    have "of_nat (10 * (n div 10)) + (of_nat (n mod 10) :: u64) = of_nat n"
      by (metis mult_div_mod_eq of_nat_add)
    then show ?thesis using 1(1) [OF False] False dec_text.simps [of n]
      by (simp add: digit_sum_digit mult.commute)
  qed
qed

lemma digit_sum_stop: "\<not> (48 \<le> c \<and> c \<le> 57) \<Longrightarrow> digit_sum (c # rest) v = v"
  by (subst digit_sum.simps) (simp only: if_False)

lemma array_to_ull_dec:
  assumes "\<not> (48 \<le> c \<and> c \<le> 57)"
  shows "array_to_ull (dec_text n @ c # rest) = of_nat (10 * n) div 10"
  using assms by (simp add: array_to_ull_def digit_sum_dec digit_sum_stop)

lemma div_wrapped: "(of_nat (10 * unat (a :: u64)) :: u64) div 10 = a \<longleftrightarrow> 10 * unat a < 2 ^ 64"
proof -
  have "unat ((of_nat (10 * unat a) :: u64) div 10) = (10 * unat a mod 2 ^ 64) div 10"
    by (simp only: unat_div10 unat_of_nat take_bit_eq_mod) simp
  then have "(of_nat (10 * unat a) :: u64) div 10 = a \<longleftrightarrow> (10 * unat a mod 2 ^ 64) div 10 = unat a"
    by (metis word_unat_eq_iff)
  also have "\<dots> \<longleftrightarrow> 10 * unat a < 2 ^ 64"
  proof
    assume "(10 * unat a mod 2 ^ 64) div 10 = unat a"
    then have "10 * unat a \<le> 10 * unat a mod 2 ^ 64" by (metis div_times_less_eq_dividend mult.commute)
    also have "\<dots> < 2 ^ 64" by simp
    finally show "10 * unat a < 2 ^ 64" .
  qed simp
  finally show ?thesis .
qed

subsection \<open>Reading\<close>

text \<open>The buffer as the stream of the bytes still to come: an empty chunk is the end of the input.\<close>

definition io_ok :: "buffer_object \<times> chunks \<Rightarrow> bool" where
  "io_ok = (\<lambda>(b, inp). amount_sent b \<le> amount_read b \<and> amount_read b \<le> length (buffered_data b)
     \<and> length (buffered_data b) = 1024 \<and> (\<forall>c\<in>set inp. length c \<le> 1024))"

definition line_stream :: "buffer_object \<times> chunks \<Rightarrow> u8 list" where
  "line_stream = (\<lambda>(b, inp). drop (amount_sent b) (take (amount_read b) (buffered_data b)) @ concat (takeWhile (\<lambda>c. c \<noteq> []) inp))"

lemma buffered_read_stream:
  assumes "io_ok st"
  shows "case buffered_read st of Inl e \<Rightarrow> e = Quit (- 1) \<and> line_stream st = []
    | Inr (c, st') \<Rightarrow> line_stream st = c # line_stream st' \<and> io_ok st'"
proof (cases st)
  case (Pair b inp)
  note ok = assms [unfolded Pair io_ok_def, simplified]
  show ?thesis
  proof (cases "amount_sent b = amount_read b")
    case False
    then have "drop (amount_sent b) (take (amount_read b) (buffered_data b)) =
        buffered_data b ! amount_sent b # drop (Suc (amount_sent b)) (take (amount_read b) (buffered_data b))"
      using ok by (subst Cons_nth_drop_Suc [symmetric]) auto
    then show ?thesis using False ok Pair by (auto simp: buffered_read_def io_ok_def line_stream_def)
  next
    case True
    show ?thesis
    proof (cases "fst (receive_chunk inp)")
      case Nil
      then show ?thesis using True Pair
        by (auto simp: buffered_read_def line_stream_def receive_chunk_def split: list.splits)
    next
      case (Cons x xs)
      then obtain rest where "inp = (x # xs) # rest" by (auto simp: receive_chunk_def split: list.splits)
      then show ?thesis using True Pair ok
        by (auto simp: buffered_read_def line_stream_def receive_chunk_def io_ok_def Let_def)
    qed
  qed
qed

fun take_until :: "nat \<Rightarrow> u8 \<Rightarrow> u8 list \<Rightarrow> dv_error + (u8 list \<times> u8 list)" where
  "take_until 0 delim s = Inr ([], s)"
| "take_until (Suc k) delim [] = Inl (Quit (- 1))"
| "take_until (Suc k) delim (c # s) = (if c = delim then Inr ([], s)
     else andThen (take_until k delim s) (\<lambda>(w, s). Inr (c # w, s)))"

lemma take_until_line: "delim \<notin> set w \<Longrightarrow> length w < mx \<Longrightarrow> take_until mx delim (w @ delim # s) = Inr (w, s)"
proof (induction w arbitrary: mx)
  case Nil
  then show ?case by (cases mx) auto
next
  case (Cons c w)
  then show ?case by (cases mx) auto
qed

lemma take_until_Inr:
  "take_until mx delim s = Inr (w, s') \<Longrightarrow> delim \<notin> set w \<and> (if length w < mx then s = w @ delim # s' else length w = mx \<and> s = w @ s')"
proof (induction mx delim s arbitrary: w rule: take_until.induct)
  case (3 k delim c s)
  then show ?case by (auto simp: andThen_Inr_iff split: if_splits)
qed auto

text \<open>The text written to \<open>dst\<close>: the line, and a zero where the delimiter was.\<close>

definition put_line :: "u8 list \<Rightarrow> nat \<Rightarrow> nat \<Rightarrow> u8 list \<Rightarrow> u8 list" where
  "put_line dst len k w = take len dst @ w @ (if length w < k then [0] else []) @ drop (len + min k (Suc (length w))) dst"

lemma put_line_step:
  assumes "len < length dst"
  shows "put_line (dst[len := 0, len := c]) (len + 1) k w = put_line dst len (Suc k) (c # w)"
  using assms by (simp add: put_line_def take_Suc_conv_app_nth drop_update_cancel take_update_cancel)

lemma put_line_stop: "len < length dst \<Longrightarrow> put_line dst len (Suc k) [] = dst[len := 0]"
  by (simp add: put_line_def upd_conv_take_nth_drop)

lemma until_loop_stream:
  "io_ok st \<Longrightarrow> len + k \<le> length dst \<Longrightarrow>
   (case until_loop k delim len dst st of
      Inl e \<Rightarrow> take_until k delim (line_stream st) = Inl e
    | Inr (n, dst', st') \<Rightarrow> io_ok st' \<and> (\<exists>w. take_until k delim (line_stream st) = Inr (w, line_stream st')
        \<and> n = len + length w \<and> dst' = put_line dst len k w))"
proof (induction k delim len dst st rule: until_loop.induct)
  case (1 delim len dst st)
  then show ?case by (simp add: put_line_def)
next
  case (2 k delim len dst st)
  note B = buffered_read_stream [OF 2(2)]
  show ?case
  proof (cases "buffered_read st")
    case (Inl e)
    then show ?thesis using B by (simp add: Let_def)
  next
    case (Inr r)
    then obtain c st1 where r: "buffered_read st = Inr (c, st1)" by (cases r) auto
    then have s1: "line_stream st = c # line_stream st1" "io_ok st1" using B by auto
    show ?thesis
    proof (cases "c = delim")
      case True
      then show ?thesis using r s1 2(3) by (simp add: Let_def put_line_stop)
    next
      case False
      have l: "len < length dst" "(len + 1) + k \<le> length ((dst[len := 0])[len := c])" using 2(3) by auto
      show ?thesis
        using 2(1) [OF refl r refl False s1(2) l(2)] r s1 False put_line_step [OF l(1)]
        by (auto simp: Let_def split: sum.splits)
    qed
  qed
qed

text \<open>Reading a line gives the line that the stream of all bytes begins with, however the input was cut.\<close>

theorem read_until_stream:
  assumes "io_ok st" "mx \<le> length dst"
  shows "case read_until dst delim mx st of
      Inl e \<Rightarrow> take_until mx delim (line_stream st) = Inl e
    | Inr (n, dst', st') \<Rightarrow> io_ok st' \<and> (\<exists>w. take_until mx delim (line_stream st) = Inr (w, line_stream st')
        \<and> n = length w \<and> dst' = w @ (if n < mx then [0] else []) @ drop (min mx (Suc n)) dst)"
  using until_loop_stream [OF assms(1), of 0 mx dst delim] assms(2)
  by (auto simp: read_until_def put_line_def split: sum.splits)

theorem read_until_stream_witness:
  "case read_until (replicate 4 7) 10 3 (bobj_empty, [[65, 66], [10, 67]]) of
      Inl e \<Rightarrow> take_until 3 10 (line_stream (bobj_empty, [[65, 66], [10, 67]])) = Inl e
    | Inr (n, dst', st') \<Rightarrow> io_ok st' \<and> (\<exists>w. take_until 3 10 (line_stream (bobj_empty, [[65, 66], [10, 67]])) = Inr (w, line_stream st')
        \<and> n = length w \<and> dst' = w @ (if n < 3 then [0] else []) @ drop (min 3 (Suc n)) (replicate 4 7))"
  using read_until_stream [of "(bobj_empty, [[65, 66], [10, 67]])" 3 "replicate 4 7" 10]
  by (simp add: io_ok_def bobj_empty_def)

lemma read_until_Inr:
  assumes "io_ok st" "mx \<le> length dst" "take_until mx delim (line_stream st) = Inr (w, s)"
  shows "\<exists>st'. read_until dst delim mx st =
      Inr (length w, w @ (if length w < mx then [0] else []) @ drop (min mx (Suc (length w))) dst, st') \<and> io_ok st' \<and> line_stream st' = s"
  using until_loop_stream [OF assms(1), of 0 mx dst delim] assms(2,3)
  by (auto simp: read_until_def put_line_def split: sum.splits)

lemma transmit_str_dec: "transmit_str (int_to_array a) = dec_text (unat a)"
proof -
  have "my_strlen (w @ [STR_TERM]) = length w" if "STR_TERM \<notin> set w" for w
    using that by (induction w) auto
  moreover have "STR_TERM \<notin> set (dec_text (unat a))" using dec_text_digit by (fastforce simp: STR_TERM_def)
  ultimately show ?thesis by (simp add: transmit_str_def int_to_array_dec)
qed

lemma length_dec_text: "n < 10 ^ k \<Longrightarrow> 0 < k \<Longrightarrow> length (dec_text n) \<le> k"
proof (induction n arbitrary: k rule: dec_text.induct)
  case (1 n)
  show ?case
  proof (cases "n < 10")
    case True
    then show ?thesis using dec_text.simps [of n] 1(3) by simp
  next
    case False
    then obtain j where j: "k = Suc j" "0 < j" using 1(2) by (cases k; cases "k - 1") auto
    then have "n div 10 < 10 ^ j" using 1(2) by (simp add: less_mult_imp_div_less mult.commute)
    then show ?thesis using 1(1) [OF False _ j(2)] dec_text.simps [of n] False j by simp
  qed
qed

lemma dec_text_no_newline: "10 \<notin> set (dec_text n)"
  using dec_text_digit by fastforce

text \<open>The text of a line in a buffer with one more byte than is read: the digits are followed by a stop.\<close>

lemma tbuf_stop:
  assumes "length w < k" "length buf = Suc k"
  shows "\<exists>c rest. (w @ 0 # drop (Suc (length w)) buf)[k := STR_TERM] = w @ c # rest \<and> (c = 0 \<or> c = STR_TERM)"
  using assms by (cases "k - length w") (auto simp: list_update_append)

lemma read_dec:
  assumes "io_ok st" "line_stream st = dec_text n @ 10 # rest" "length (dec_text n) < k" "length buf = Suc k"
  shows "\<exists>m tbuf c ys st'. read_until buf 10 k st = Inr (m, tbuf, st') \<and> io_ok st' \<and> line_stream st' = rest
     \<and> tbuf[k := STR_TERM] = dec_text n @ c # ys \<and> \<not> (48 \<le> c \<and> c \<le> 57)"
proof -
  have "take_until k 10 (line_stream st) = Inr (dec_text n, rest)"
    unfolding assms(2) by (rule take_until_line) (use assms(3) dec_text_no_newline in auto)
  from read_until_Inr [OF assms(1) _ this, of buf]
  obtain st' where "read_until buf 10 k st = Inr (length (dec_text n), dec_text n @ 0 # drop (Suc (length (dec_text n))) buf, st')"
    "io_ok st'" "line_stream st' = rest"
    using assms(3,4) by auto
  then show ?thesis using tbuf_stop [OF assms(3,4)] by (fastforce simp: STR_TERM_def)
qed

lemma read_ull_dec:
  assumes "io_ok st" "line_stream st = dec_text n @ 10 # rest" "length (dec_text n) < 21"
  shows "\<exists>st'. read_ull st = Inr (of_nat (10 * n) div 10, st') \<and> io_ok st' \<and> line_stream st' = rest"
proof -
  have "length (replicate 22 0 :: u8 list) = Suc 21" by simp
  from read_dec [OF assms this] show ?thesis
    by (auto simp: read_ull_def array_to_ull_dec simp del: replicate.simps)
qed

lemma dec_text_bound: "n < 10 ^ length (dec_text n)"
proof (induction n rule: dec_text.induct)
  case (1 n)
  show ?case
  proof (cases "n < 10")
    case False
    then show ?thesis using 1 dec_text.simps [of n]
      by (simp add: div_less_iff_less_mult mult.commute)
  qed (use dec_text.simps [of n] in simp)
qed

lemma int_of_digits:
  assumes "n < 10 ^ 11"
  shows "of_int (sint (of_nat (10 * n) :: u64) sdiv 10) = (of_nat n :: u32)"
proof -
  have "sint (of_nat (10 * n) :: u64) = int (10 * n)"
    unfolding signed_of_nat using assms by (subst signed_take_bit_int_eq_self) auto
  moreover have "int (10 * n) sdiv 10 = int n" by (simp add: signed_divide_int_def sgn_if)
  ultimately show ?thesis by simp
qed

lemma read_int_dec:
  assumes "io_ok st" "line_stream st = dec_text n @ 10 # rest" "length (dec_text n) < 12"
  shows "\<exists>st'. read_int st = Inr (of_nat n, st') \<and> io_ok st' \<and> line_stream st' = rest"
proof -
  have l: "length (replicate 13 0 :: u8 list) = Suc 12" by simp
  have "(10 :: nat) ^ length (dec_text n) \<le> 10 ^ 11" using assms(3) by (intro power_increasing) auto
  then have n: "n < 10 ^ 11" using dec_text_bound [of n] by simp
  have "array_to_int (dec_text n @ c # ys) = of_nat n" if "\<not> (48 \<le> c \<and> c \<le> 57)" for c ys
    unfolding array_to_int_def digit_sum_dec digit_sum_stop [OF that] by (rule int_of_digits [OF n])
  with read_dec [OF assms l] show ?thesis
    by (auto simp: read_int_def simp del: replicate.simps)
qed

text \<open>C33. A number that was printed is read back if and only if ten times the number fits in 64 bits.\<close>

theorem number_roundtrip:
  assumes "io_ok st" "line_stream st = transmit_str (int_to_array a) @ 10 # rest"
  shows "\<exists>v st'. read_ull st = Inr (v, st') \<and> io_ok st' \<and> line_stream st' = rest \<and> (v = a \<longleftrightarrow> 10 * unat a < 2 ^ 64)"
proof -
  have "unat a < 2 ^ 64" using unsigned_less [of a, where ?'a = nat] by simp
  then have "unat a < 10 ^ 20" by simp
  then have "length (dec_text (unat a)) < 21" using length_dec_text [of "unat a" 20] by simp
  then show ?thesis using read_ull_dec [OF assms(1), of "unat a" rest] assms(2) div_wrapped [of a]
    by (auto simp: transmit_str_dec)
qed

theorem number_roundtrip_witness:
  "\<exists>v st'. read_ull (bobj_empty, [[55, 10], [53]]) = Inr (v, st') \<and> io_ok st' \<and> line_stream st' = [53] \<and> (v = 7 \<longleftrightarrow> (10 :: nat) * 7 < 2 ^ 64)"
proof -
  have "dec_text 7 = [55]" by (simp add: dec_text.simps)
  then show ?thesis using number_roundtrip [of "(bobj_empty, [[55, 10], [53]])" 7 "[53]"]
    by (simp add: io_ok_def line_stream_def bobj_empty_def transmit_str_dec)
qed

end
