(* ===== verification/Divided_Heap.thy ===== *)
theory Divided_Heap
  imports Divided_Lib
begin

text \<open>
  The allocator of \<open>src/divided\<close> (\<open>mystdlib.h\<close>, \<open>myconsts.h\<close>): buckets of four megabytes, each one chain of blocks with
  a header of 40 bytes in front, the size of a 64-bit \<open>malloc_meta\<close>. A block is found by the first, the best or the worst
  fit, in turns. The memory is what is known of the headers in it: a header that is written over is gone, and reading where
  no header is, or writing outside of the buckets, is the error \<open>Wild\<close>. The pages come from a parameter: \<open>page i\<close> is the
  address that the i-th call of \<open>VirtualAlloc\<close> gives, \<open>None\<close> where it fails; fresh pages are zero.
\<close>

record mmeta =
  mm_cookie :: u32
  mm_gethash :: u64
  mm_back :: "nat option"
  mm_front :: "nat option"
  mm_allocated :: u32
  mm_size :: u32

record dheap =
  metas :: "nat \<rightharpoonup> mmeta"
  HEAP_BUCKETS :: "nat list"
  current_alloc_policy :: u32
  COOKIE :: u32

definition HEAP_SIZE :: nat where "HEAP_SIZE = 4096 * 1024"
definition MAX_BUCKETS :: nat where "MAX_BUCKETS = 10"
definition DATA_FREE :: u32 where "DATA_FREE = 0"
definition DATA_ALLOCATED :: u32 where "DATA_ALLOCATED = 2"

abbreviation meta_bytes :: nat where "meta_bytes \<equiv> 40"

definition get_meta :: "nat \<Rightarrow> dheap \<Rightarrow> dv_error + mmeta" where
  "get_meta a s = (case metas s a of None \<Rightarrow> Inl Wild | Some m \<Rightarrow> Inr m)"

definition get_ptr :: "nat option \<Rightarrow> dheap \<Rightarrow> dv_error + mmeta" where
  "get_ptr p s = (case p of None \<Rightarrow> Inl Null_Deref | Some a \<Rightarrow> get_meta a s)"

definition upd_meta :: "nat \<Rightarrow> (mmeta \<Rightarrow> mmeta) \<Rightarrow> dheap \<Rightarrow> dv_error + dheap" where
  "upd_meta a f s = (case metas s a of None \<Rightarrow> Inl Wild | Some m \<Rightarrow> Inr (s\<lparr>metas := (metas s)(a \<mapsto> f m)\<rparr>))"

definition upd_ptr :: "nat option \<Rightarrow> (mmeta \<Rightarrow> mmeta) \<Rightarrow> dheap \<Rightarrow> dv_error + dheap" where
  "upd_ptr p f s = (case p of None \<Rightarrow> Inl Null_Deref | Some a \<Rightarrow> upd_meta a f s)"

text \<open>\<open>if (p) p->...\<close>\<close>

definition upd_some :: "nat option \<Rightarrow> (mmeta \<Rightarrow> mmeta) \<Rightarrow> dheap \<Rightarrow> dv_error + dheap" where
  "upd_some p f s = (case p of None \<Rightarrow> Inr s | Some a \<Rightarrow> upd_meta a f s)"

text \<open>The bytes from \<open>lo\<close> to \<open>hi\<close> are written: headers that have one of them are gone.\<close>

definition fill :: "nat \<Rightarrow> nat \<Rightarrow> dheap \<Rightarrow> dheap" where
  "fill lo hi s = s\<lparr>metas := (\<lambda>a. if hi \<le> a \<or> a + meta_bytes \<le> lo then metas s a else None)\<rparr>"

definition in_heap :: "nat \<Rightarrow> nat \<Rightarrow> dheap \<Rightarrow> bool" where
  "in_heap a n s = list_ex (\<lambda>b. b \<le> a \<and> a + n \<le> b + HEAP_SIZE) (HEAP_BUCKETS s)"

definition put_meta :: "nat \<Rightarrow> mmeta \<Rightarrow> dheap \<Rightarrow> dv_error + dheap" where
  "put_meta a m s = (if in_heap a meta_bytes s
     then Inr ((fill a (a + meta_bytes) s)\<lparr>metas := (metas (fill a (a + meta_bytes) s))(a \<mapsto> m)\<rparr>) else Inl Wild)"

subsection \<open>Allocation\<close>

definition init_heap :: "(nat \<Rightarrow> nat option) \<Rightarrow> dheap \<Rightarrow> dv_error + dheap" where
  "init_heap page s =
     (if length (HEAP_BUCKETS s) < MAX_BUCKETS
      then case page (length (HEAP_BUCKETS s)) of None \<Rightarrow> Inl Null_Deref
        | Some a \<Rightarrow> put_meta a \<lparr>mm_cookie = COOKIE s, mm_gethash = 0, mm_back = None, mm_front = None,
             mm_allocated = 0, mm_size = of_nat HEAP_SIZE\<rparr> (s\<lparr>HEAP_BUCKETS := HEAP_BUCKETS s @ [a]\<rparr>)
      else Inl (Quit (- 8)))"

text \<open>\<open>allocate_heap_block\<close>: the block is cut, and its data is filled with \<open>0xcd\<close>.\<close>

definition allocate_heap_block :: "nat \<Rightarrow> u32 \<Rightarrow> dheap \<Rightarrow> dv_error + dheap" where
  "allocate_heap_block mmeta sz s =
     andThen (get_meta mmeta s) (\<lambda>m. let nxt = mmeta + unat sz + meta_bytes in
     andThen (put_meta nxt \<lparr>mm_cookie = COOKIE s, mm_gethash = 0, mm_back = Some mmeta, mm_front = mm_front m,
        mm_allocated = DATA_FREE, mm_size = mm_size m - sz - 40\<rparr> s) (\<lambda>s.
     andThen (upd_meta mmeta (\<lambda>m. m\<lparr>mm_allocated := DATA_ALLOCATED\<rparr>) s) (\<lambda>s.
     andThen (upd_some (mm_front m) (\<lambda>m. m\<lparr>mm_back := Some nxt\<rparr>) s) (\<lambda>s.
     andThen (upd_meta mmeta (\<lambda>m. m\<lparr>mm_front := Some nxt, mm_size := sz + 40\<rparr>) s) (\<lambda>s.
     Inr (fill (mmeta + meta_bytes) nxt s))))))"

definition is_worst_fit :: "u32 \<Rightarrow> dheap \<Rightarrow> nat \<Rightarrow> nat option \<Rightarrow> dv_error + nat option" where
  "is_worst_fit sz s mmeta best = andThen (get_meta mmeta s) (\<lambda>m.
     if (ucast sz + 40 :: u64) \<le> scast (mm_size m) \<and> mm_allocated m = DATA_FREE
     then case best of
         Some b \<Rightarrow> andThen (get_meta b s) (\<lambda>bm. Inr (if sint (mm_size bm) < sint (mm_size m) then Some mmeta else best))
       | None \<Rightarrow> Inr (if sz < mm_size m then Some mmeta else best)
     else Inr best)"

definition is_best_fit :: "u32 \<Rightarrow> dheap \<Rightarrow> nat \<Rightarrow> nat option \<Rightarrow> dv_error + nat option" where
  "is_best_fit sz s mmeta best = andThen (get_meta mmeta s) (\<lambda>m.
     if (ucast sz + 40 :: u64) \<le> scast (mm_size m) \<and> mm_allocated m = DATA_FREE
     then case best of
         Some b \<Rightarrow> andThen (get_meta b s) (\<lambda>bm. Inr (if sint (mm_size m) < sint (mm_size bm) then Some mmeta else best))
       | None \<Rightarrow> Inr (if sz < mm_size m then Some mmeta else best)
     else Inr best)"

definition front_of :: "dheap \<Rightarrow> nat \<Rightarrow> dv_error + nat option" where
  "front_of s a = andThen (get_meta a s) (\<lambda>m. Inr (mm_front m))"

text \<open>The walks along a bucket; \<open>n\<close> bounds their steps. \<open>None\<close> in the answer: no block fits.\<close>

definition worst_fit_walk :: "nat \<Rightarrow> u32 \<Rightarrow> dheap \<Rightarrow> nat \<Rightarrow> (dv_error + nat option) option" where
  "worst_fit_walk n sz s b = visit (front_of s) (is_worst_fit sz s) n (Some b) None"

definition best_fit_walk :: "nat \<Rightarrow> u32 \<Rightarrow> dheap \<Rightarrow> nat \<Rightarrow> (dv_error + nat option) option" where
  "best_fit_walk n sz s b = visit (front_of s) (is_best_fit sz s) n (Some b) None"

definition first_fit_turn :: "u32 \<Rightarrow> dheap \<Rightarrow> nat option \<Rightarrow> dv_error + (nat option + nat option)" where
  "first_fit_turn sz s p = (case p of None \<Rightarrow> Inr (Inr None)
     | Some a \<Rightarrow> andThen (get_meta a s) (\<lambda>m.
         if mm_allocated m \<noteq> DATA_FREE \<or> (scast (mm_size m) :: u64) < scast sz + 40
         then Inr (Inl (mm_front m)) else Inr (Inr (Some a))))"

definition first_fit_walk :: "nat \<Rightarrow> u32 \<Rightarrow> dheap \<Rightarrow> nat \<Rightarrow> (dv_error + nat option) option" where
  "first_fit_walk n sz s b = loop_fuel (first_fit_turn sz s) n (Some b)"

text \<open>A block that was found is given as it is, or cut if the rest has room for a header.\<close>

definition take_block :: "nat \<Rightarrow> u32 \<Rightarrow> dheap \<Rightarrow> dv_error + (nat \<times> dheap)" where
  "take_block mmeta sz s = andThen (get_meta mmeta s) (\<lambda>m.
     if (scast (mm_size m) :: u64) < scast sz + 80
     then andThen (upd_meta mmeta (\<lambda>m. m\<lparr>mm_allocated := DATA_ALLOCATED\<rparr>) s) (\<lambda>s. Inr (mmeta + meta_bytes, s))
     else andThen (allocate_heap_block mmeta sz s) (\<lambda>s. Inr (mmeta + meta_bytes, s)))"

fun try_buckets :: "(dheap \<Rightarrow> nat \<Rightarrow> (dv_error + nat option) option) \<Rightarrow> u32 \<Rightarrow> dheap \<Rightarrow> nat list
    \<Rightarrow> (dv_error + (nat \<times> dheap) option) option" where
  "try_buckets walk sz s [] = Some (Inr None)"
| "try_buckets walk sz s (b # bs) = (case walk s b of
     None \<Rightarrow> None
   | Some (Inl e) \<Rightarrow> Some (Inl e)
   | Some (Inr None) \<Rightarrow> try_buckets walk sz s bs
   | Some (Inr (Some a)) \<Rightarrow> Some (andThen (take_block a sz s) (\<lambda>r. Inr (Some r))))"

lemma put_meta_buckets: "put_meta a m s = Inr s' \<Longrightarrow> HEAP_BUCKETS s' = HEAP_BUCKETS s"
  by (auto simp: put_meta_def fill_def split: if_splits)

lemma init_heap_buckets: "init_heap page s = Inr s' \<Longrightarrow>
   length (HEAP_BUCKETS s) < MAX_BUCKETS \<and> length (HEAP_BUCKETS s') = Suc (length (HEAP_BUCKETS s))"
  by (auto simp: init_heap_def put_meta_buckets split: if_splits option.splits)

text \<open>The loop of the three allocators: all buckets, then one more bucket, until there are ten.\<close>

function alloc_loop :: "(nat \<Rightarrow> nat option) \<Rightarrow> (dheap \<Rightarrow> nat \<Rightarrow> (dv_error + nat option) option) \<Rightarrow> u32 \<Rightarrow> dheap
    \<Rightarrow> (dv_error + (nat \<times> dheap)) option" where
  "alloc_loop page walk sz s = (case try_buckets walk sz s (HEAP_BUCKETS s) of
     None \<Rightarrow> None
   | Some (Inl e) \<Rightarrow> Some (Inl e)
   | Some (Inr (Some r)) \<Rightarrow> Some (Inr r)
   | Some (Inr None) \<Rightarrow>
       if length (HEAP_BUCKETS s) < MAX_BUCKETS
       then case init_heap page s of Inl e \<Rightarrow> Some (Inl e) | Inr s' \<Rightarrow> alloc_loop page walk sz s'
       else Some (Inl (Quit (- 5))))"
  by pat_completeness auto
termination
  by (relation "measure (\<lambda>(page, walk, sz, s). MAX_BUCKETS - length (HEAP_BUCKETS s))") (auto dest: init_heap_buckets)

declare alloc_loop.simps [simp del]

definition my_malloc :: "(nat \<Rightarrow> nat option) \<Rightarrow> nat \<Rightarrow> u32 \<Rightarrow> dheap \<Rightarrow> (dv_error + (nat \<times> dheap)) option" where
  "my_malloc page n sz s =
     (case (if length (HEAP_BUCKETS s) = 0 then init_heap page s else Inr s) of
        Inl e \<Rightarrow> Some (Inl e)
      | Inr s \<Rightarrow>
          let policy = (current_alloc_policy s + 1) mod 3; s = s\<lparr>current_alloc_policy := policy\<rparr>
          in if policy = 0 then alloc_loop page (first_fit_walk n sz) sz s
             else if policy = 1 then alloc_loop page (best_fit_walk n sz) sz s
             else if policy = 2 then alloc_loop page (worst_fit_walk n sz) sz s
             else Some (Inl (Quit (- 6))))"

subsection \<open>Freeing\<close>

text \<open>One turn of the loop that joins a block with the free blocks before it, and with the free blocks behind it.\<close>

definition merge_back :: "nat \<Rightarrow> dheap \<Rightarrow> dv_error + dheap" where
  "merge_back b s =
     andThen (get_meta b s) (\<lambda>mb.
     andThen (case mm_front mb of None \<Rightarrow> Inr s
        | Some f \<Rightarrow> andThen (get_meta f s) (\<lambda>mf. upd_ptr (mm_front mf) (\<lambda>m. m\<lparr>mm_back := Some b\<rparr>) s)) (\<lambda>s.
     andThen (get_meta b s) (\<lambda>mb.
     andThen (get_ptr (mm_front mb) s) (\<lambda>mf.
     upd_meta b (\<lambda>m. m\<lparr>mm_size := mm_size m + mm_size mf, mm_front := mm_front mf, mm_gethash := 0\<rparr>) s))))"

definition back_turn :: "nat \<times> dheap \<Rightarrow> dv_error + ((nat \<times> dheap) + (nat \<times> dheap))" where
  "back_turn = (\<lambda>(to_free, s). andThen (get_meta to_free s) (\<lambda>m. case mm_back m of
     None \<Rightarrow> Inr (Inr (to_free, s))
   | Some b \<Rightarrow> andThen (get_meta b s) (\<lambda>mb.
       if mm_allocated mb \<noteq> DATA_FREE then Inr (Inr (to_free, s))
       else if mm_cookie m \<noteq> COOKIE s \<or> mm_cookie mb \<noteq> COOKIE s then Inl (Quit (- 7))
       else andThen (merge_back b s) (\<lambda>s. Inr (Inl (b, s))))))"

definition front_turn :: "nat \<Rightarrow> dheap \<Rightarrow> dv_error + (dheap + dheap)" where
  "front_turn to_free s = andThen (get_meta to_free s) (\<lambda>m. case mm_front m of
     None \<Rightarrow> Inr (Inr s)
   | Some f \<Rightarrow> andThen (get_meta f s) (\<lambda>mf.
       if mm_allocated mf \<noteq> DATA_FREE then Inr (Inr s)
       else if mm_cookie m \<noteq> COOKIE s then Inl (Quit (- 7))
       else andThen (upd_meta to_free
              (\<lambda>m. m\<lparr>mm_size := mm_size m + mm_size mf, mm_front := mm_front mf, mm_gethash := 0\<rparr>) s) (\<lambda>s.
            andThen (upd_some (mm_front mf) (\<lambda>m. m\<lparr>mm_back := Some to_free\<rparr>) s) (\<lambda>s. Inr (Inl s)))))"

text \<open>\<open>hash\<close> is the code at an address that was registered with \<open>add_cleanup\<close>.\<close>

definition my_free :: "(u64 \<Rightarrow> nat \<Rightarrow> dheap \<Rightarrow> dv_error + dheap) \<Rightarrow> nat \<Rightarrow> nat \<Rightarrow> dheap \<Rightarrow> (dv_error + dheap) option" where
  "my_free hash n data s =
     (let to_free = data - meta_bytes
      in case andThen (get_meta to_free s) (\<lambda>m.
           if mm_cookie m \<noteq> COOKIE s then Inl (Quit (- 7))
           else andThen (if mm_gethash m \<noteq> 0 then hash (mm_gethash m) data s else Inr s) (\<lambda>s.
             upd_meta to_free (\<lambda>m. m\<lparr>mm_gethash := 0, mm_allocated := DATA_FREE\<rparr>) s)) of
         Inl e \<Rightarrow> Some (Inl e)
       | Inr s \<Rightarrow> (case loop_fuel back_turn n (to_free, s) of
           None \<Rightarrow> None
         | Some (Inl e) \<Rightarrow> Some (Inl e)
         | Some (Inr (to_free, s)) \<Rightarrow> loop_fuel (front_turn to_free) n s))"

definition add_cleanup :: "nat \<Rightarrow> u64 \<Rightarrow> dheap \<Rightarrow> dv_error + dheap" where
  "add_cleanup data gethashs s = upd_meta (data - meta_bytes) (\<lambda>m. m\<lparr>mm_gethash := gethashs\<rparr>) s"

subsection \<open>Validation\<close>

text \<open>
  \<open>validate_heap\<close>: cookies, links and the sum of the sizes of every bucket. The second loop of the code begins where the
  first one ended, at \<open>NULL\<close>, and does nothing.
\<close>

definition check_meta :: "dheap \<Rightarrow> nat \<Rightarrow> u32 \<Rightarrow> dv_error + u32" where
  "check_meta s a tot =
     andThen (get_meta a s) (\<lambda>m.
     andThen (if mm_cookie m \<noteq> COOKIE s then Inr True
        else andThen (case mm_back m of None \<Rightarrow> Inr False
            | Some b \<Rightarrow> andThen (get_meta b s) (\<lambda>mb. Inr (mm_front mb \<noteq> Some a))) (\<lambda>bad.
          if bad then Inr True
          else case mm_front m of None \<Rightarrow> Inr False
            | Some f \<Rightarrow> andThen (get_meta f s) (\<lambda>mf. Inr (mm_back mf \<noteq> Some a)))) (\<lambda>bad.
     if bad then Inl (Quit (- 9)) else Inr (tot + mm_size m)))"

fun check_buckets :: "nat \<Rightarrow> dheap \<Rightarrow> nat list \<Rightarrow> (dv_error + unit) option" where
  "check_buckets n s [] = Some (Inr ())"
| "check_buckets n s (b # bs) = (case visit (front_of s) (check_meta s) n (Some b) 0 of
     None \<Rightarrow> None
   | Some (Inl e) \<Rightarrow> Some (Inl e)
   | Some (Inr tot) \<Rightarrow> if tot \<noteq> of_nat HEAP_SIZE then Some (Inl (Quit (- 9))) else check_buckets n s bs)"

definition validate_heap :: "nat \<Rightarrow> dheap \<Rightarrow> (dv_error + unit) option" where
  "validate_heap n s = check_buckets n s (HEAP_BUCKETS s)"

end
