(* ===== verification/Divided_Heap_Spec.thy ===== *)
theory Divided_Heap_Spec
  imports Divided_Heap
begin

text \<open>
  What the allocator of \<open>src/divided\<close> promises: a bucket is a list of blocks, each with its size and whether it is given
  away, that lie one behind the other. A chain of headers in memory stands for such a list (\<open>seg\<close>).
\<close>

type_synonym block = "nat \<times> bool"

abbreviation bytes :: "block list \<Rightarrow> nat" where "bytes bs \<equiv> sum_list (map fst bs)"

definition hdr :: "u32 \<Rightarrow> nat \<Rightarrow> bool \<Rightarrow> nat option \<Rightarrow> nat option \<Rightarrow> mmeta" where
  "hdr C n al pr nx = \<lparr>mm_cookie = C, mm_gethash = 0, mm_back = pr, mm_front = nx,
     mm_allocated = (if al then DATA_ALLOCATED else DATA_FREE), mm_size = of_nat n\<rparr>"

fun seg :: "(nat \<rightharpoonup> mmeta) \<Rightarrow> u32 \<Rightarrow> nat option \<Rightarrow> nat \<Rightarrow> block list \<Rightarrow> nat option \<Rightarrow> bool" where
  "seg m C pr a [] nx \<longleftrightarrow> True"
| "seg m C pr a ((n, al) # bs) nx \<longleftrightarrow> 40 \<le> n \<and> m a = Some (hdr C n al pr (if bs = [] then nx else Some (a + n)))
     \<and> seg m C (Some a) (a + n) bs nx"

text \<open>The address of the last block of a list that begins at \<open>a\<close>.\<close>

fun last_addr :: "nat option \<Rightarrow> nat \<Rightarrow> block list \<Rightarrow> nat option" where
  "last_addr pr a [] = pr"
| "last_addr pr a ((n, al) # bs) = last_addr (Some a) (a + n) bs"

lemma hdr_sel [simp]:
  "mm_cookie (hdr C n al pr nx) = C" "mm_gethash (hdr C n al pr nx) = 0" "mm_back (hdr C n al pr nx) = pr"
  "mm_front (hdr C n al pr nx) = nx" "mm_size (hdr C n al pr nx) = of_nat n"
  "mm_allocated (hdr C n al pr nx) = (if al then DATA_ALLOCATED else DATA_FREE)"
  by (simp_all add: hdr_def)

lemma hdr_upd [simp]:
  "(hdr C n al pr nx)\<lparr>mm_back := pr'\<rparr> = hdr C n al pr' nx" "(hdr C n al pr nx)\<lparr>mm_front := nx'\<rparr> = hdr C n al pr nx'"
  "(hdr C n al pr nx)\<lparr>mm_gethash := 0\<rparr> = hdr C n al pr nx"
  "(hdr C n al pr nx)\<lparr>mm_allocated := DATA_ALLOCATED\<rparr> = hdr C n True pr nx"
  "(hdr C n al pr nx)\<lparr>mm_allocated := DATA_FREE\<rparr> = hdr C n False pr nx"
  by (simp_all add: hdr_def)

lemma data_states [simp]: "DATA_ALLOCATED \<noteq> DATA_FREE" "DATA_FREE \<noteq> DATA_ALLOCATED"
  by (simp_all add: DATA_ALLOCATED_def DATA_FREE_def)

lemma seg_append: "seg m C pr a (xs @ ys) nx \<longleftrightarrow>
   seg m C pr a xs (if ys = [] then nx else Some (a + bytes xs)) \<and> seg m C (last_addr pr a xs) (a + bytes xs) ys nx"
  by (induction pr a xs rule: last_addr.induct) (auto simp: add.assoc)

lemma seg_at: "seg m C pr b (xs @ (n, al) # ys) nx \<Longrightarrow>
   40 \<le> n \<and> m (b + bytes xs) = Some (hdr C n al (last_addr pr b xs) (if ys = [] then nx else Some (b + bytes xs + n)))"
  by (simp add: seg_append)

lemma seg_cong:
  assumes "\<And>a. b \<le> a \<Longrightarrow> a + 40 \<le> b + bytes bs \<Longrightarrow> m' a = m a" "seg m C pr b bs nx"
  shows "seg m' C pr b bs nx"
  using assms
proof (induction m C pr b bs nx rule: seg.induct)
  case (2 m C pr a n al bs nx)
  have "m' a = m a" using 2(2) [of a] 2(3) by simp
  moreover have "seg m' C (Some a) (a + n) bs nx" by (rule 2(1)) (use 2(2,3) in auto)
  ultimately show ?case using 2(3) by simp
qed simp

lemma seg_upd:
  assumes "c < b \<or> b + bytes bs < c + 40" "seg m C pr b bs nx"
  shows "seg (m(c := x)) C pr b bs nx"
  by (rule seg_cong [OF _ assms(2)]) (use assms(1) in auto)

lemma seg_back:
  assumes "seg m C pr b (y # ys) nx" "\<And>a. b < a \<Longrightarrow> m' a = m a" "m' b = Some ((the (m b))\<lparr>mm_back := pr'\<rparr>)"
  shows "seg m' C pr' b (y # ys) nx"
proof (cases y)
  case (Pair n al)
  then have "seg m' C (Some b) (b + n) ys nx" using assms by (intro seg_cong [OF assms(2)]) auto
  then show ?thesis using assms Pair by simp
qed

lemma seg_sizes: "seg m C pr b bs nx \<Longrightarrow> \<forall>(n, al) \<in> set bs. 40 \<le> n"
  by (induction m C pr b bs nx rule: seg.induct) auto

lemma bytes_elem: "(n, al) \<in> set bs \<Longrightarrow> n \<le> bytes bs"
  by (induction bs) auto

text \<open>A chain has at most one block for every 40 bytes.\<close>

lemma seg_length: "seg m C pr b bs nx \<Longrightarrow> 40 * length bs \<le> bytes bs"
  by (induction m C pr b bs nx rule: seg.induct) auto

text \<open>The blocks with their addresses.\<close>

fun blks :: "nat \<Rightarrow> block list \<Rightarrow> (nat \<times> nat \<times> bool) list" where
  "blks a [] = []"
| "blks a ((n, al) # bs) = (a, n, al) # blks (a + n) bs"

lemma blks_append: "blks a (xs @ ys) = blks a xs @ blks (a + bytes xs) ys"
  by (induction a xs rule: blks.induct) (auto simp: add.assoc)

lemma blks_split: "(a, n, al) \<in> set (blks b bs) \<longleftrightarrow> (\<exists>xs ys. bs = xs @ (n, al) # ys \<and> a = b + bytes xs)"
proof (induction b bs rule: blks.induct)
  case (2 b k bl bs)
  show ?case
  proof
    assume "(a, n, al) \<in> set (blks b ((k, bl) # bs))"
    then consider "a = b" "n = k" "al = bl" | xs ys where "bs = xs @ (n, al) # ys" "a = b + k + bytes xs" using 2 by auto
    then show "\<exists>xs ys. (k, bl) # bs = xs @ (n, al) # ys \<and> a = b + bytes xs"
    proof cases
      case 1
      then have "(k, bl) # bs = [] @ (n, al) # bs \<and> a = b + bytes []" by simp
      then show ?thesis by blast
    next
      case (2 xs ys)
      then have "(k, bl) # bs = ((k, bl) # xs) @ (n, al) # ys \<and> a = b + bytes ((k, bl) # xs)" by simp
      then show ?thesis by blast
    qed
  next
    assume "\<exists>xs ys. (k, bl) # bs = xs @ (n, al) # ys \<and> a = b + bytes xs"
    then obtain xs ys where x: "(k, bl) # bs = xs @ (n, al) # ys" "a = b + bytes xs" by blast
    then show "(a, n, al) \<in> set (blks b ((k, bl) # bs))" unfolding x blks_append by simp
  qed
qed auto

lemma blks_range: "(a, n, al) \<in> set (blks b bs) \<Longrightarrow> b \<le> a \<and> a + n \<le> b + bytes bs"
  by (auto simp: blks_split)

text \<open>Blocks lie apart.\<close>

lemma blks_apart:
  "sorted_wrt (\<lambda>x y. fst x + fst (snd x) \<le> fst y) (blks b bs)"
proof (induction b bs rule: blks.induct)
  case (2 b n al bs)
  then show ?case using blks_range by fastforce
qed auto

subsection \<open>Choosing, cutting and joining blocks\<close>

abbreviation fits :: "nat \<Rightarrow> nat \<times> bool \<Rightarrow> bool" where "fits k x \<equiv> \<not> snd x \<and> k + 40 \<le> fst x"

text \<open>\<open>chosen\<close>: no block fits, or one that fits and is preferred to all others that fit; \<open>prefers\<close> compares address and size.\<close>

definition chosen :: "(nat \<times> nat \<Rightarrow> nat \<times> nat \<Rightarrow> bool) \<Rightarrow> nat \<Rightarrow> (nat \<times> nat \<times> bool) list \<Rightarrow> nat option \<Rightarrow> bool" where
  "chosen prefers k L r = (case r of None \<Rightarrow> \<forall>(a, x) \<in> set L. \<not> fits k x
     | Some a \<Rightarrow> \<exists>n. (a, n, False) \<in> set L \<and> fits k (n, False) \<and> (\<forall>(a', x) \<in> set L. fits k x \<longrightarrow> prefers (a, n) (a', fst x)))"

definition first_fit :: "nat \<times> nat \<Rightarrow> nat \<times> nat \<Rightarrow> bool" where
  "first_fit x y = (fst x \<le> fst y)"
definition best_fit :: "nat \<times> nat \<Rightarrow> nat \<times> nat \<Rightarrow> bool" where
  "best_fit x y = (snd x < snd y \<or> snd x = snd y \<and> fst x \<le> fst y)"
definition worst_fit :: "nat \<times> nat \<Rightarrow> nat \<times> nat \<Rightarrow> bool" where
  "worst_fit x y = (snd y < snd x \<or> snd x = snd y \<and> fst x \<le> fst y)"

definition cut_block :: "nat \<Rightarrow> nat \<Rightarrow> block list" where
  "cut_block k n = (if n < k + 80 then [(n, True)] else [(k + 40, True), (n - k - 40, False)])"

definition join_back :: "block list \<Rightarrow> nat \<Rightarrow> block list \<times> nat" where
  "join_back xs n = (if xs \<noteq> [] \<and> \<not> snd (last xs) then (butlast xs, fst (last xs) + n) else (xs, n))"

definition join_front :: "nat \<Rightarrow> block list \<Rightarrow> nat \<times> block list" where
  "join_front n ys = (case ys of [] \<Rightarrow> (n, ys) | (k, al) # r \<Rightarrow> if al then (n, ys) else (n + k, r))"

definition freed :: "block list \<Rightarrow> nat \<Rightarrow> block list \<Rightarrow> block list" where
  "freed xs n ys = (let (xs, n) = join_back xs n; (n, ys) = join_front n ys in xs @ (n, False) # ys)"

text \<open>No two free blocks are neighbours.\<close>

definition joined :: "block list \<Rightarrow> bool" where
  "joined bs = successively (\<lambda>x y. snd x \<or> snd y) bs"

lemma joined_Nil [simp]: "joined []"
  by (simp add: joined_def)

lemma joined_append:
  "joined (xs @ ys) \<longleftrightarrow> joined xs \<and> joined ys \<and> (xs = [] \<or> ys = [] \<or> snd (last xs) \<or> snd (hd ys))"
  by (auto simp: joined_def successively_append_iff)

lemma joined_Cons: "joined (x # ys) \<longleftrightarrow> joined ys \<and> (ys = [] \<or> snd x \<or> snd (hd ys))"
  by (cases ys) (auto simp: joined_def)

lemma joined_cut:
  assumes "joined (xs @ (n, False) # ys)"
  shows "joined (xs @ cut_block k n @ ys)"
  using assms by (auto simp: joined_append joined_Cons cut_block_def)

lemma joined_freed:
  assumes "joined (xs @ (n, True) # ys)"
  shows "joined (freed xs n ys)"
proof -
  have b: "joined (fst (join_back xs n))" "fst (join_back xs n) \<noteq> [] \<Longrightarrow> snd (last (fst (join_back xs n)))"
  proof -
    have x: "joined xs" using assms by (simp add: joined_append)
    show "joined (fst (join_back xs n))"
      using x by (cases xs rule: rev_cases) (auto simp: join_back_def joined_append)
    assume ne: "fst (join_back xs n) \<noteq> []"
    show "snd (last (fst (join_back xs n)))"
    proof (cases xs rule: rev_cases)
      case (snoc zs z)
      then show ?thesis using x ne by (auto simp: join_back_def joined_append)
    qed (use ne in \<open>simp add: join_back_def\<close>)
  qed
  have f: "joined (snd (join_front i ys))" "snd (join_front i ys) \<noteq> [] \<Longrightarrow> snd (hd (snd (join_front i ys)))" for i
    using assms by (auto simp: join_front_def joined_append joined_Cons split: list.splits)
  show ?thesis using b f [of "snd (join_back xs n)"]
    by (auto simp: freed_def joined_append joined_Cons Let_def case_prod_beta)
qed

lemma bytes_cut: "k + 40 \<le> n \<Longrightarrow> bytes (cut_block k n) = n"
  by (simp add: cut_block_def)

lemma bytes_freed: "bytes (freed xs n ys) = bytes xs + n + bytes ys"
  by (cases xs rule: rev_cases; cases ys) (auto simp: freed_def join_back_def join_front_def)

end
