(* ===== verification/Divided_Heap_Alloc.thy ===== *)
theory Divided_Heap_Alloc
  imports Divided_Heap_Spec
begin

text \<open>
  The walks of the three policies choose a block as the specification says, and a block that was chosen is cut as the
  specification says: the laws of \<open>fit_policy\<close>, and of the loop over the buckets that all policies share.
\<close>

subsection \<open>Sizes as words\<close>

lemma unat_small: "n \<le> HEAP_SIZE \<Longrightarrow> unat (of_nat n :: u32) = n"
  unfolding HEAP_SIZE_def by (simp only: unat_of_nat) (simp add: take_bit_nat_eq_self)

lemma ucast_small: "n \<le> HEAP_SIZE \<Longrightarrow> (ucast (of_nat n :: u32) :: u64) = of_nat n"
  by (metis unat_small of_nat_unat)

lemma sint_small: "n \<le> HEAP_SIZE \<Longrightarrow> sint (of_nat n :: u32) = int n"
  unfolding HEAP_SIZE_def signed_of_nat by (subst signed_take_bit_int_eq_self) auto

lemma scast_small: "n \<le> HEAP_SIZE \<Longrightarrow> (scast (of_nat n :: u32) :: u64) = of_nat n"
  by (metis sint_small of_int_sint of_int_of_nat_eq)

lemma word_small: "n < 2 ^ 64 \<Longrightarrow> unat (of_nat n :: u64) = n"
  by (simp only: unat_of_nat) (simp add: take_bit_nat_eq_self)

lemma fit_word:
  assumes "k \<le> HEAP_SIZE" "n \<le> HEAP_SIZE"
  shows "(ucast (of_nat k :: u32) + 40 :: u64) \<le> scast (of_nat n :: u32) \<longleftrightarrow> k + 40 \<le> n"
    "(scast (of_nat n :: u32) :: u64) < scast (of_nat k :: u32) + 40 \<longleftrightarrow> n < k + 40"
    "(scast (of_nat n :: u32) :: u64) < scast (of_nat k :: u32) + 80 \<longleftrightarrow> n < k + 80"
    "(of_nat k :: u32) < of_nat n \<longleftrightarrow> k < n"
proof -
  have "of_nat k + (40 :: u64) = of_nat (k + 40)" "of_nat k + (80 :: u64) = of_nat (k + 80)" by simp_all
  moreover have "k + 80 < 2 ^ 64" "n < 2 ^ 64" using assms by (simp_all add: HEAP_SIZE_def)
  ultimately show "(ucast (of_nat k :: u32) + 40 :: u64) \<le> scast (of_nat n :: u32) \<longleftrightarrow> k + 40 \<le> n"
    "(scast (of_nat n :: u32) :: u64) < scast (of_nat k :: u32) + 40 \<longleftrightarrow> n < k + 40"
    "(scast (of_nat n :: u32) :: u64) < scast (of_nat k :: u32) + 80 \<longleftrightarrow> n < k + 80"
    by (simp_all only: ucast_small [OF assms(1)] scast_small [OF assms(1)] scast_small [OF assms(2)] word_le_nat_alt word_less_nat_alt)
      (simp_all only: word_small)
  show "(of_nat k :: u32) < of_nat n \<longleftrightarrow> k < n"
    by (simp only: word_less_nat_alt unat_small [OF assms(1)] unat_small [OF assms(2)])
qed

subsection \<open>The walks\<close>

lemma get_meta_Some [simp]: "metas s a = Some m \<Longrightarrow> get_meta a s = Inr m"
  by (simp add: get_meta_def)

text \<open>Best and worst fit keep the block that is best so far.\<close>

definition fit_step :: "(nat \<Rightarrow> nat \<Rightarrow> bool) \<Rightarrow> nat \<Rightarrow> (nat \<times> nat) option \<Rightarrow> nat \<times> nat \<times> bool \<Rightarrow> (nat \<times> nat) option" where
  "fit_step better k best = (\<lambda>(a, x). if fits k x
     then case best of None \<Rightarrow> Some (a, fst x) | Some (b, nb) \<Rightarrow> if better (fst x) nb then Some (a, fst x) else best
     else best)"

definition best_known :: "dheap \<Rightarrow> (nat \<times> nat) option \<Rightarrow> bool" where
  "best_known s best \<longleftrightarrow> (case best of None \<Rightarrow> True
     | Some (b, nb) \<Rightarrow> nb \<le> HEAP_SIZE \<and> (\<exists>m. metas s b = Some m \<and> mm_size m = of_nat nb))"

lemma is_fit_step:
  assumes "metas s a = Some (hdr C n al pr nx)" "n \<le> HEAP_SIZE" "k \<le> HEAP_SIZE" "best_known s best"
  shows "is_worst_fit (of_nat k) s a (map_option fst best) = Inr (map_option fst (fit_step (\<lambda>x y. y < x) k best (a, n, al)))"
    "is_best_fit (of_nat k) s a (map_option fst best) = Inr (map_option fst (fit_step (\<lambda>x y. x < y) k best (a, n, al)))"
    "best_known s (fit_step better k best (a, n, al))"
  using assms
  by (auto simp: is_worst_fit_def is_best_fit_def fit_word fit_step_def best_known_def sint_small split: option.splits)

lemma fit_visit:
  assumes k: "k \<le> HEAP_SIZE" and f: "\<And>a n al C pr nx best. metas s a = Some (hdr C n al pr nx) \<Longrightarrow> n \<le> HEAP_SIZE \<Longrightarrow> best_known s best \<Longrightarrow>
     f a (map_option fst best) = Inr (map_option fst (fit_step better k best (a, n, al)))"
  shows "seg (metas s) C pr a bs None \<Longrightarrow> length bs < N \<Longrightarrow> bytes bs \<le> HEAP_SIZE \<Longrightarrow> best_known s best \<Longrightarrow>
    visit (front_of s) f N (if bs = [] then None else Some a) (map_option fst best)
      = Some (Inr (map_option fst (foldl (fit_step better k) best (blks a bs))))"
proof (induction bs arbitrary: N pr a best)
  case Nil
  then show ?case by (cases N) auto
next
  case (Cons x bs)
  obtain n al where x: "x = (n, al)" by (cases x)
  obtain N' where N: "N = Suc N'" "length bs < N'" using Cons.prems(2) by (cases N) auto
  let ?m = "hdr C n al pr (if bs = [] then None else Some (a + n))"
  have m: "metas s a = Some ?m" "n \<le> HEAP_SIZE" "seg (metas s) C (Some a) (a + n) bs None" "bytes bs \<le> HEAP_SIZE"
    using Cons.prems x by auto
  note b = is_fit_step(3) [OF m(1,2) k Cons.prems(4)]
  show ?case using Cons.IH [OF m(3) N(2) m(4) b] f [OF m(1,2) Cons.prems(4)] m(1) N(1) x by (simp add: front_of_def)
qed

lemma fold_fit:
  assumes "foldl (fit_step better k) None L = r" and "sorted_wrt (\<lambda>x y. fst x < fst y) L"
    and b: "\<And>x y z. better x y \<Longrightarrow> \<not> better z y \<Longrightarrow> better x z" "\<And>x. \<not> better x x" "\<And>x y. better x y \<Longrightarrow> \<not> better y x"
      "\<And>x y. better x y \<or> x = y \<or> better y x"
  shows "case r of None \<Rightarrow> \<forall>(a, x) \<in> set L. \<not> fits k x
    | Some (a, n) \<Rightarrow> (a, n, False) \<in> set L \<and> fits k (n, False)
        \<and> (\<forall>(a', x) \<in> set L. fits k x \<longrightarrow> better n (fst x) \<or> n = fst x \<and> a \<le> a')"
  using assms(1,2)
proof (induction L arbitrary: r rule: rev_induct)
  case (snoc y L)
  obtain a n al where y: "y = (a, n, al)" by (cases y)
  define r0 where "r0 = foldl (fit_step better k) None L"
  have s: "sorted_wrt (\<lambda>x y. fst x < fst y) L" "\<forall>x\<in>set L. fst x < a" using snoc.prems(2) y by (auto simp: sorted_wrt_append)
  have r: "r = fit_step better k r0 (a, n, al)" using snoc.prems(1) y r0_def by simp
  note IH = snoc.IH [OF r0_def [symmetric] s(1)]
  show ?case
  proof (cases r0)
    case None
    then show ?thesis using IH r y by (auto simp: fit_step_def)
  next
    case (Some p)
    then obtain a0 n0 where p: "r0 = Some (a0, n0)" by (cases p) auto
    then have I: "(a0, n0, False) \<in> set L" "fits k (n0, False)"
      "\<And>a' x. (a', x) \<in> set L \<Longrightarrow> fits k x \<Longrightarrow> better n0 (fst x) \<or> n0 = fst x \<and> a0 \<le> a'" using IH by auto
    show ?thesis
    proof (cases "fits k (n, al) \<and> better n n0")
      case True
      then have "better n (fst x)" if "(a', x) \<in> set L" "fits k x" for a' x
        using I(3) [OF that] b(1,3) by metis
      then show ?thesis using True r p y by (auto simp: fit_step_def)
    next
      case False
      then have "r = Some (a0, n0)" using r p by (auto simp: fit_step_def)
      moreover have "better n0 n \<or> n0 = n" if "fits k (n, al)" using False that b(4) by blast
      moreover have "a0 \<le> a" using s(2) I(1) by fastforce
      ultimately show ?thesis using I y by auto
    qed
  qed
qed auto

lemma blks_increasing: "seg m C pr b bs nx \<Longrightarrow> sorted_wrt (\<lambda>x y. fst x < fst y) (blks b bs)"
proof (induction m C pr b bs nx rule: seg.induct)
  case (2 m C pr a n al bs nx)
  then show ?case using blks_range by fastforce
qed simp

lemma first_turn:
  assumes "metas s a = Some (hdr C n al pr nx)" "n \<le> HEAP_SIZE" "k \<le> HEAP_SIZE"
  shows "first_fit_turn (of_nat k) s (Some a) = Inr (if fits k (n, al) then Inr (Some a) else Inl nx)"
  using assms by (auto simp: first_fit_turn_def fit_word)

lemma first_visit:
  assumes k: "k \<le> HEAP_SIZE"
  shows "seg (metas s) C pr a bs None \<Longrightarrow> length bs < N \<Longrightarrow> bytes bs \<le> HEAP_SIZE \<Longrightarrow>
    \<exists>r. loop_fuel (first_fit_turn (of_nat k) s) N (if bs = [] then None else Some a) = Some (Inr r) \<and> chosen first_fit k (blks a bs) r"
proof (induction bs arbitrary: N pr a)
  case Nil
  then show ?case by (cases N) (auto simp: first_fit_turn_def chosen_def)
next
  case (Cons x bs)
  obtain n al where x: "x = (n, al)" by (cases x)
  obtain N' where N: "N = Suc N'" "length bs < N'" using Cons.prems(2) by (cases N) auto
  let ?m = "hdr C n al pr (if bs = [] then None else Some (a + n))"
  have m: "metas s a = Some ?m" "n \<le> HEAP_SIZE" "seg (metas s) C (Some a) (a + n) bs None" "bytes bs \<le> HEAP_SIZE"
    using Cons.prems x by auto
  show ?case
  proof (cases "fits k (n, al)")
    case True
    have "a \<le> a'" if "(a', y) \<in> set (blks (a + n) bs)" for a' y using blks_range [of a' "fst y" "snd y"] that by fastforce
    then have "chosen first_fit k (blks a (x # bs)) (Some a)" using True x
      by (auto simp: chosen_def first_fit_def)
    then show ?thesis using True first_turn [OF m(1,2) k] N(1) by simp
  next
    case False
    obtain r where r: "loop_fuel (first_fit_turn (of_nat k) s) N' (if bs = [] then None else Some (a + n)) = Some (Inr r)"
      "chosen first_fit k (blks (a + n) bs) r"
      using Cons.IH [OF m(3) N(2) m(4)] by blast
    have "chosen first_fit k (blks a (x # bs)) r" using r(2) False x by (auto simp: chosen_def split: option.splits)
    then show ?thesis using r(1) False first_turn [OF m(1,2) k] N(1) by auto
  qed
qed

subsection \<open>One bucket\<close>

text \<open>A bucket at \<open>b\<close> in the memory \<open>m\<close>.\<close>

definition bucket_rep :: "(nat \<rightharpoonup> mmeta) \<Rightarrow> u32 \<Rightarrow> nat \<Rightarrow> block list \<Rightarrow> bool" where
  "bucket_rep m C b bs \<longleftrightarrow> seg m C None b bs None \<and> bytes bs = HEAP_SIZE \<and> joined bs"

lemma bucket_repD:
  assumes "bucket_rep m C b bs"
  shows "seg m C None b bs None" "bytes bs = HEAP_SIZE" "joined bs" "bs \<noteq> []" "length bs \<le> HEAP_SIZE div 40"
  using assms seg_length [of m C None b bs None] by (auto simp: bucket_rep_def HEAP_SIZE_def)

lemma bucket_cong:
  assumes "\<And>a. b \<le> a \<Longrightarrow> a + 40 \<le> b + HEAP_SIZE \<Longrightarrow> m' a = m a" "bucket_rep m C b bs"
  shows "bucket_rep m' C b bs"
  using assms by (auto simp: bucket_rep_def intro!: seg_cong [of b bs m' m])

text \<open>The contract of a policy: its walk finds the block that it prefers.\<close>

locale fit_policy =
  fixes walk :: "nat \<Rightarrow> u32 \<Rightarrow> dheap \<Rightarrow> nat \<Rightarrow> (dv_error + nat option) option"
    and prefers :: "nat \<times> nat \<Rightarrow> nat \<times> nat \<Rightarrow> bool"
  assumes walk_chosen: "bucket_rep (metas s) C b bs \<Longrightarrow> HEAP_SIZE div 40 < n \<Longrightarrow> k \<le> HEAP_SIZE \<Longrightarrow>
    \<exists>r. walk n (of_nat k) s b = Some (Inr r) \<and> chosen prefers k (blks b bs) r"

lemma better_walk:
  assumes rep: "bucket_rep (metas s) C b bs" and n: "HEAP_SIZE div 40 < n" and k: "k \<le> HEAP_SIZE"
    and f: "\<And>a n al C pr nx best. metas s a = Some (hdr C n al pr nx) \<Longrightarrow> n \<le> HEAP_SIZE \<Longrightarrow> best_known s best \<Longrightarrow>
       f a (map_option fst best) = Inr (map_option fst (fit_step better k best (a, n, al)))"
    and b: "\<And>x y z. better x y \<Longrightarrow> \<not> better z y \<Longrightarrow> better x z" "\<And>x. \<not> better x x" "\<And>x y. better x y \<Longrightarrow> \<not> better y x"
      "\<And>x y. better x y \<or> x = y \<or> better y x"
    and pre: "\<And>x y. prefers x y \<longleftrightarrow> better (snd x) (snd y) \<or> snd x = snd y \<and> fst x \<le> fst y"
  shows "\<exists>r. visit (front_of s) f n (Some b) None = Some (Inr r) \<and> chosen prefers k (blks b bs) r"
proof -
  note R = bucket_repD [OF rep]
  define r where "r = foldl (fit_step better k) None (blks b bs)"
  have "visit (front_of s) f n (Some b) None = Some (Inr (map_option fst r))"
    using fit_visit [OF k f R(1), where N = n and best = None] n R by (simp add: best_known_def r_def)
  moreover have "case r of None \<Rightarrow> \<forall>(a, x) \<in> set (blks b bs). \<not> fits k x
    | Some (a, n) \<Rightarrow> (a, n, False) \<in> set (blks b bs) \<and> fits k (n, False)
        \<and> (\<forall>(a', x) \<in> set (blks b bs). fits k x \<longrightarrow> better n (fst x) \<or> n = fst x \<and> a \<le> a')"
    by (rule fold_fit [OF r_def [symmetric] blks_increasing [OF R(1)]]) (fact b)+
  then have "chosen prefers k (blks b bs) (map_option fst r)"
    by (cases r) (auto simp: chosen_def pre)
  ultimately show ?thesis by blast
qed

interpretation ff: fit_policy first_fit_walk first_fit
proof
  fix s :: dheap and C b bs n k
  assume a: "bucket_rep (metas s) C b bs" "HEAP_SIZE div 40 < n" "k \<le> HEAP_SIZE"
  then show "\<exists>r. first_fit_walk n (of_nat k) s b = Some (Inr r) \<and> chosen first_fit k (blks b bs) r"
    using first_visit [OF a(3) bucket_repD(1) [OF a(1)], of n] bucket_repD [OF a(1)] by (simp add: first_fit_walk_def)
qed

interpretation bf: fit_policy best_fit_walk best_fit
proof
  fix s :: dheap and C b bs n k
  assume a: "bucket_rep (metas s) C b bs" "HEAP_SIZE div 40 < n" "k \<le> HEAP_SIZE"
  show "\<exists>r. best_fit_walk n (of_nat k) s b = Some (Inr r) \<and> chosen best_fit k (blks b bs) r"
    unfolding best_fit_walk_def
    by (rule better_walk [OF a, where better = "\<lambda>x y. x < y"]) (use a(3) in \<open>auto simp: is_fit_step(2) best_fit_def\<close>)
qed

interpretation wf: fit_policy worst_fit_walk worst_fit
proof
  fix s :: dheap and C b bs n k
  assume a: "bucket_rep (metas s) C b bs" "HEAP_SIZE div 40 < n" "k \<le> HEAP_SIZE"
  show "\<exists>r. worst_fit_walk n (of_nat k) s b = Some (Inr r) \<and> chosen worst_fit k (blks b bs) r"
    unfolding worst_fit_walk_def
    by (rule better_walk [OF a, where better = "\<lambda>x y. y < x"]) (use a(3) in \<open>auto simp: is_fit_step(1) worst_fit_def\<close>)
qed

subsection \<open>Taking a block\<close>

lemma get_upd [simp]:
  "metas s a = Some m \<Longrightarrow> upd_meta a f s = Inr (s\<lparr>metas := (metas s)(a \<mapsto> f m)\<rparr>)"
  "upd_some None f s = Inr s" "upd_some (Some a) f s = upd_meta a f s"
  by (simp_all add: upd_meta_def upd_some_def)

lemma take_whole:
  assumes rep: "bucket_rep (metas s) (COOKIE s) b (xs @ (n, False) # ys)" and k: "k + 40 \<le> n" "n < k + 80"
  defines "m' \<equiv> (metas s)(b + bytes xs \<mapsto> hdr (COOKIE s) n True (last_addr None b xs) (if ys = [] then None else Some (b + bytes xs + n)))"
  shows "take_block (b + bytes xs) (of_nat k) s = Inr (b + bytes xs + 40, s\<lparr>metas := m'\<rparr>)"
    "bucket_rep m' (COOKIE s) b (xs @ (n, True) # ys)"
proof -
  let ?a = "b + bytes xs"
  note R = bucket_repD [OF rep]
  note A = seg_at [OF R(1)]
  have n: "n \<le> HEAP_SIZE" "k \<le> HEAP_SIZE" using R(2) k by auto
  show "take_block ?a (of_nat k) s = Inr (?a + 40, s\<lparr>metas := m'\<rparr>)"
    using A k n by (simp add: take_block_def fit_word m'_def)
  have "seg m' (COOKIE s) None b xs (Some ?a)" "seg m' (COOKIE s) (Some ?a) (?a + n) ys None"
    using R(1) A by (auto simp: seg_append m'_def intro!: seg_upd)
  moreover have "joined (xs @ (n, True) # ys)" using joined_cut [OF R(3), of k] k by (simp add: cut_block_def)
  ultimately show "bucket_rep m' (COOKIE s) b (xs @ (n, True) # ys)"
    using A R(2) by (simp add: bucket_rep_def seg_append m'_def)
qed

lemma hdr_add: "(hdr C n al pr nx)\<lparr>mm_size := of_nat k + 40\<rparr> = hdr C (k + 40) al pr nx"
  "(hdr C n al pr nx)\<lparr>mm_size := of_nat k + of_nat j\<rparr> = hdr C (k + j) al pr nx"
  by (simp_all add: hdr_def)

lemma take_cut:
  assumes rep: "bucket_rep (metas s) (COOKIE s) b (xs @ (n, False) # ys)" and k: "k + 80 \<le> n"
    and b: "b \<in> set (HEAP_BUCKETS s)"
  shows "\<exists>m'. take_block (b + bytes xs) (of_nat k) s = Inr (b + bytes xs + 40, s\<lparr>metas := m'\<rparr>)
     \<and> bucket_rep m' (COOKIE s) b (xs @ [(k + 40, True), (n - k - 40, False)] @ ys)
     \<and> (\<forall>c. c + 40 \<le> b \<or> b + HEAP_SIZE \<le> c \<longrightarrow> m' c = metas s c)"
proof -
  define a where "a = b + bytes xs"
  define nxt where "nxt = a + k + 40"
  define C where "C = COOKIE s"
  define pr where "pr = last_addr None b xs"
  define fr where "fr = (if ys = [] then None else Some (a + n))"
  note R = bucket_repD [OF rep]
  have A: "metas s a = Some (hdr C n False pr fr)"
    and X: "seg (metas s) C None b xs (Some a)" and Y: "seg (metas s) C (Some a) (a + n) ys None"
    using R(1) unfolding a_def C_def pr_def fr_def by (auto simp: seg_append)
  have n: "n \<le> HEAP_SIZE" "k \<le> HEAP_SIZE" "a + n \<le> b + HEAP_SIZE" using R(2) k by (auto simp: a_def)
  have ih: "in_heap nxt 40 s" using b n k by (auto simp: in_heap_def list_ex_iff nxt_def a_def intro!: bexI [of _ b])
  have sz: "of_nat n - of_nat k - 40 = (of_nat (n - k - 40) :: u32)" using k by (simp add: of_nat_diff)
  define m1 where "m1 = (\<lambda>c. if nxt + 40 \<le> c \<or> c + 40 \<le> nxt then metas s c else None)(nxt \<mapsto> hdr C (n - k - 40) False (Some a) fr)"
  define m2 where "m2 = m1(a \<mapsto> hdr C n True pr fr)"
  define m3 where "m3 = (case fr of None \<Rightarrow> m2 | Some f \<Rightarrow> m2(f \<mapsto> (the (metas s f))\<lparr>mm_back := Some nxt\<rparr>))"
  define m5 where "m5 = (\<lambda>c. if nxt \<le> c \<or> c + 40 \<le> a + 40 then (m3(a \<mapsto> hdr C (k + 40) True pr (Some nxt))) c else None)"
  have F: "fr = Some f \<Longrightarrow> f = a + n \<and> (\<exists>m. metas s f = Some m)" for f
    using Y by (cases ys) (auto simp: fr_def split: if_splits)
  have a1: "m1 a = Some (hdr C n False pr fr)" using A by (simp add: m1_def nxt_def)
  have f2: "m2 f = metas s f" if "fr = Some f" for f
    using F [OF that] k by (auto simp: m2_def m1_def nxt_def)
  have a3: "m3 a = Some (hdr C n True pr fr)" using F k by (auto simp: m3_def m2_def split: option.splits)
  have "allocate_heap_block a (of_nat k) s = Inr (s\<lparr>metas := m5\<rparr>)"
  proof -
    have p: "put_meta nxt (hdr C (n - k - 40) False (Some a) fr) s = Inr (s\<lparr>metas := m1\<rparr>)"
      using ih by (simp add: put_meta_def fill_def m1_def)
    have u: "upd_some fr (mm_back_update (\<lambda>_. Some nxt)) (s\<lparr>metas := m2\<rparr>) = Inr (s\<lparr>metas := m3\<rparr>)"
      using F f2 by (cases fr) (auto simp: m3_def)
    have h: "\<lparr>mm_cookie = C, mm_gethash = 0, mm_back = Some a, mm_front = fr, mm_allocated = DATA_FREE, mm_size = of_nat n - of_nat k - 40\<rparr>
        = hdr C (n - k - 40) False (Some a) fr"
      unfolding sz by (simp add: hdr_def)
    show ?thesis
      using A a1 a3 p u n(2) h
      by (simp add: allocate_heap_block_def Let_def unat_small C_def [symmetric] nxt_def [symmetric] m2_def [symmetric] fill_def m5_def hdr_add(1) cong: if_cong)
  qed
  then have t: "take_block a (of_nat k) s = Inr (a + 40, s\<lparr>metas := m5\<rparr>)"
    using A k n by (simp add: take_block_def fit_word)
  have other: "m5 c = metas s c" if "c + 40 \<le> a \<or> a + n \<le> c \<and> fr \<noteq> Some c" for c
  proof -
    have "m3 c = m1 c" using that F k by (cases fr) (auto simp: m3_def m2_def)
    moreover have "m1 c = metas s c" using that k by (auto simp: m1_def nxt_def)
    ultimately show ?thesis using that k by (auto simp: m5_def nxt_def)
  qed
  have "seg m5 C None b xs (Some a)" by (rule seg_cong [OF other X]) (simp add: a_def)
  moreover have "seg m5 C (Some nxt) (a + n) ys None"
  proof (cases ys)
    case (Cons y ys')
    have "m5 (a + n) = Some ((the (metas s (a + n)))\<lparr>mm_back := Some nxt\<rparr>)"
      using Cons k by (auto simp: m5_def m3_def fr_def nxt_def)
    moreover have "m5 c = metas s c" if "a + n < c" for c using other [of c] F that by auto
    ultimately show ?thesis using seg_back [OF Y [unfolded Cons]] Cons by auto
  qed simp
  moreover have "m5 a = Some (hdr C (k + 40) True pr (Some nxt))" "m5 nxt = Some (hdr C (n - k - 40) False (Some a) fr)"
    using F k by (auto simp: m5_def m3_def m2_def m1_def nxt_def split: option.splits)
  moreover have "joined (xs @ [(k + 40, True), (n - k - 40, False)] @ ys)"
    using joined_cut [OF R(3), of k] k by (simp add: cut_block_def)
  ultimately have "bucket_rep m5 C b (xs @ [(k + 40, True), (n - k - 40, False)] @ ys)"
    using R(2) k by (simp add: bucket_rep_def seg_append a_def [symmetric] pr_def [symmetric] nxt_def fr_def add.assoc)
  moreover have "m5 c = metas s c" if "c + 40 \<le> b \<or> b + HEAP_SIZE \<le> c" for c
  proof (rule other)
    have "c < b + HEAP_SIZE" if "fr = Some c"
      using Y R(2) that by (cases ys) (auto simp: fr_def a_def)
    then show "c + 40 \<le> a \<or> a + n \<le> c \<and> fr \<noteq> Some c" using that n(3) by (auto simp: a_def)
  qed
  ultimately show ?thesis using t by (intro exI [of _ m5]) (auto simp: a_def C_def)
qed

subsection \<open>All buckets\<close>

text \<open>The pages that \<open>VirtualAlloc\<close> gives lie apart.\<close>

definition pages_ok :: "(nat \<Rightarrow> nat option) \<Rightarrow> bool" where
  "pages_ok page \<longleftrightarrow> (\<forall>i<MAX_BUCKETS. page i \<noteq> None)
     \<and> (\<forall>i<MAX_BUCKETS. \<forall>j<MAX_BUCKETS. i \<noteq> j \<longrightarrow> the (page i) + HEAP_SIZE \<le> the (page j) \<or> the (page j) + HEAP_SIZE \<le> the (page i))"

definition heap_rep :: "(nat \<Rightarrow> nat option) \<Rightarrow> dheap \<Rightarrow> block list list \<Rightarrow> bool" where
  "heap_rep page s H \<longleftrightarrow> length H \<le> MAX_BUCKETS \<and> HEAP_BUCKETS s = map (\<lambda>i. the (page i)) [0..<length H]
     \<and> (\<forall>i<length H. bucket_rep (metas s) (COOKIE s) (the (page i)) (H ! i))"

lemma heap_rep_upd:
  assumes "pages_ok page" "heap_rep page s H" "i < length H" "bucket_rep m' (COOKIE s) (the (page i)) bs'"
    and frame: "\<And>c. c + 40 \<le> the (page i) \<or> the (page i) + HEAP_SIZE \<le> c \<Longrightarrow> m' c = metas s c"
  shows "heap_rep page (s\<lparr>metas := m'\<rparr>) (H[i := bs'])"
proof -
  have "bucket_rep m' (COOKIE s) (the (page j)) (H[i := bs'] ! j)" if j: "j < length H" for j
  proof (cases "j = i")
    case False
    have "j < MAX_BUCKETS" "i < MAX_BUCKETS" using assms(2,3) j by (auto simp: heap_rep_def)
    then have "the (page i) + HEAP_SIZE \<le> the (page j) \<or> the (page j) + HEAP_SIZE \<le> the (page i)"
      using assms(1) False by (auto simp: pages_ok_def)
    then show ?thesis using assms(2) j False
      by (auto simp: heap_rep_def intro!: bucket_cong [of _ m' "metas s"] frame)
  qed (use assms in simp)
  then show ?thesis using assms(2) by (simp add: heap_rep_def)
qed

text \<open>What an allocation does: the first bucket with a block that fits, and the block in it that the policy prefers.\<close>

definition no_fit :: "nat \<Rightarrow> block list list \<Rightarrow> bool" where
  "no_fit k H \<longleftrightarrow> (\<forall>bs \<in> set H. \<forall>x \<in> set bs. \<not> fits k x)"

definition alloc_spec :: "(nat \<times> nat \<Rightarrow> nat \<times> nat \<Rightarrow> bool) \<Rightarrow> nat \<Rightarrow> (nat \<Rightarrow> nat option) \<Rightarrow> block list list \<Rightarrow> nat \<Rightarrow> block list list \<Rightarrow> bool" where
  "alloc_spec prefers k page H p H' \<longleftrightarrow> (\<exists>i xs n ys. i < length H \<and> no_fit k (take i H) \<and> H ! i = xs @ (n, False) # ys
     \<and> fits k (n, False) \<and> chosen prefers k (blks (the (page i)) (H ! i)) (Some (the (page i) + bytes xs))
     \<and> p = the (page i) + bytes xs + 40 \<and> H' = H[i := xs @ cut_block k n @ ys])"

lemma take_block_ok:
  assumes P: "pages_ok page" and rep: "heap_rep page s H" and i: "i < length H"
    and H: "H ! i = xs @ (n, False) # ys" and k: "k + 40 \<le> n"
  shows "\<exists>m'. take_block (the (page i) + bytes xs) (of_nat k) s = Inr (the (page i) + bytes xs + 40, s\<lparr>metas := m'\<rparr>)
     \<and> heap_rep page (s\<lparr>metas := m'\<rparr>) (H[i := xs @ cut_block k n @ ys])"
proof -
  let ?b = "the (page i)"
  have B: "bucket_rep (metas s) (COOKIE s) ?b (xs @ (n, False) # ys)" "?b \<in> set (HEAP_BUCKETS s)"
    using rep i H by (auto simp: heap_rep_def)
  show ?thesis
  proof (cases "n < k + 80")
    case True
    note T = take_whole [OF B(1) k True]
    have "bytes xs + n \<le> HEAP_SIZE" "40 \<le> n" using bucket_repD(1,2) [OF B(1)] seg_at by auto
    then have "heap_rep page (s\<lparr>metas := (metas s)(?b + bytes xs \<mapsto> hdr (COOKIE s) n True (last_addr None ?b xs)
        (if ys = [] then None else Some (?b + bytes xs + n)))\<rparr>) (H[i := xs @ (n, True) # ys])"
      by (intro heap_rep_upd [OF P rep i T(2)]) auto
    then show ?thesis using T(1) True by (intro exI conjI) (assumption, simp add: cut_block_def)
  next
    case False
    then have "cut_block k n = [(k + 40, True), (n - k - 40, False)]" by (simp add: cut_block_def)
    then obtain m' where "take_block (?b + bytes xs) (of_nat k) s = Inr (?b + bytes xs + 40, s\<lparr>metas := m'\<rparr>)"
      "bucket_rep m' (COOKIE s) ?b (xs @ cut_block k n @ ys)" "\<And>c. c + 40 \<le> ?b \<or> ?b + HEAP_SIZE \<le> c \<Longrightarrow> m' c = metas s c"
      using take_cut [OF B(1) _ B(2), of k] False by (metis not_less)
    then show ?thesis using heap_rep_upd [OF P rep i] by blast
  qed
qed

lemma init_heap_ok:
  assumes P: "pages_ok page" and rep: "heap_rep page s H" and l: "length H < MAX_BUCKETS"
  shows "\<exists>m'. init_heap page s = Inr (s\<lparr>metas := m', HEAP_BUCKETS := HEAP_BUCKETS s @ [the (page (length H))]\<rparr>)
     \<and> heap_rep page (s\<lparr>metas := m', HEAP_BUCKETS := HEAP_BUCKETS s @ [the (page (length H))]\<rparr>) (H @ [[(HEAP_SIZE, False)]])"
proof -
  define b where "b = the (page (length H))"
  define m' where "m' = (\<lambda>c. if b + 40 \<le> c \<or> c + 40 \<le> b then metas s c else None)(b \<mapsto> hdr (COOKIE s) HEAP_SIZE False None None)"
  have pg: "page (length H) = Some b" using P l by (auto simp: pages_ok_def b_def)
  have len: "length (HEAP_BUCKETS s) = length H" using rep by (simp add: heap_rep_def)
  have "hdr (COOKIE s) HEAP_SIZE False None None = \<lparr>mm_cookie = COOKIE s, mm_gethash = 0, mm_back = None, mm_front = None,
             mm_allocated = 0, mm_size = of_nat HEAP_SIZE\<rparr>" by (simp add: hdr_def DATA_FREE_def)
  then have I: "init_heap page s = Inr (s\<lparr>metas := m', HEAP_BUCKETS := HEAP_BUCKETS s @ [b]\<rparr>)"
    using pg len l by (cases s) (simp add: init_heap_def put_meta_def in_heap_def fill_def m'_def HEAP_SIZE_def cong: if_cong)
  have "bucket_rep m' (COOKIE s) (the (page i)) (H ! i)" if i: "i < length H" for i
  proof (rule bucket_cong)
    show "bucket_rep (metas s) (COOKIE s) (the (page i)) (H ! i)" using rep i by (simp add: heap_rep_def)
    have "the (page i) + HEAP_SIZE \<le> b \<or> b + HEAP_SIZE \<le> the (page i)"
      using P i l by (auto simp: pages_ok_def b_def)
    then show "m' a = metas s a" if "the (page i) \<le> a" "a + 40 \<le> the (page i) + HEAP_SIZE" for a
      using that by (auto simp: m'_def HEAP_SIZE_def)
  qed
  moreover have "bucket_rep m' (COOKIE s) b [(HEAP_SIZE, False)]"
    by (simp add: bucket_rep_def m'_def joined_def HEAP_SIZE_def)
  ultimately have "heap_rep page (s\<lparr>metas := m', HEAP_BUCKETS := HEAP_BUCKETS s @ [b]\<rparr>) (H @ [[(HEAP_SIZE, False)]])"
    using rep l by (auto simp: heap_rep_def nth_append less_Suc_eq b_def)
  then show ?thesis using I by (auto simp: b_def)
qed

text \<open>The heap an allocation looks in: one more bucket where nothing fits.\<close>

definition grown :: "nat \<Rightarrow> block list list \<Rightarrow> block list list" where
  "grown k H = (if no_fit k H then H @ [[(HEAP_SIZE, False)]] else H)"

abbreviation full :: "nat \<Rightarrow> block list list \<Rightarrow> bool" where
  "full k H \<equiv> no_fit k H \<and> length H = MAX_BUCKETS"

lemma no_fit_take: "j < length H \<Longrightarrow> no_fit k (take (Suc j) H) \<longleftrightarrow> no_fit k (take j H) \<and> (\<forall>x\<in>set (H ! j). \<not> fits k x)"
  by (auto simp: no_fit_def take_Suc_conv_app_nth)

lemma blks_elems: "(\<forall>(a, x)\<in>set (blks b bs). P x) \<longleftrightarrow> (\<forall>x\<in>set bs. P x)"
  by (induction b bs rule: blks.induct) auto

context fit_policy
begin

lemma try_ok:
  assumes P: "pages_ok page" and rep: "heap_rep page s H" and n: "HEAP_SIZE div 40 < n" and k: "k + 40 \<le> HEAP_SIZE"
  shows "j \<le> length H \<Longrightarrow> no_fit k (take j H) \<Longrightarrow>
    \<exists>r. try_buckets (walk n (of_nat k)) (of_nat k) s (map (\<lambda>i. the (page i)) [j..<length H]) = Some (Inr r)
      \<and> (case r of None \<Rightarrow> no_fit k H
         | Some (p, s') \<Rightarrow> \<exists>m' H'. alloc_spec prefers k page H p H' \<and> s' = s\<lparr>metas := m'\<rparr> \<and> heap_rep page s' H')"
proof (induction "length H - j" arbitrary: j)
  case (Suc d)
  then have j: "j < length H" "d = length H - Suc j" by auto
  let ?b = "the (page j)"
  have B: "bucket_rep (metas s) (COOKIE s) ?b (H ! j)" using rep j by (simp add: heap_rep_def)
  obtain r where r: "walk n (of_nat k) s ?b = Some (Inr r)" "chosen prefers k (blks ?b (H ! j)) r"
    using walk_chosen [OF B n, of k] k by auto
  show ?case
  proof (cases r)
    case None
    then have "\<forall>x\<in>set (H ! j). \<not> fits k x" using r(2) by (simp add: chosen_def blks_elems)
    then show ?thesis
      using Suc.hyps(1) [OF j(2)] Suc.prems(2) r(1) None j(1) by (simp add: no_fit_take upt_conv_Cons)
  next
    case (Some a)
    then obtain xs m ys where x: "H ! j = xs @ (m, False) # ys" "a = ?b + bytes xs" "k + 40 \<le> m"
      using r(2) by (auto simp: chosen_def blks_split)
    obtain m' where m': "take_block a (of_nat k) s = Inr (a + 40, s\<lparr>metas := m'\<rparr>)"
      "heap_rep page (s\<lparr>metas := m'\<rparr>) (H[j := xs @ cut_block k m @ ys])"
      using take_block_ok [OF P rep j(1) x(1,3)] x(2) by auto
    have "alloc_spec prefers k page H (a + 40) (H[j := xs @ cut_block k m @ ys])"
      unfolding alloc_spec_def using x j(1) Suc.prems(2) r(2) Some by (intro exI [of _ j] exI [of _ xs] exI [of _ m] exI [of _ ys]) auto
    then show ?thesis using m' r(1) Some j(1) by (auto simp: upt_conv_Cons)
  qed
qed (auto simp: no_fit_def)

lemma try_all:
  assumes "pages_ok page" "heap_rep page s H" "HEAP_SIZE div 40 < n" "k + 40 \<le> HEAP_SIZE"
  shows "no_fit k H \<and> try_buckets (walk n (of_nat k)) (of_nat k) s (HEAP_BUCKETS s) = Some (Inr None)
    \<or> \<not> no_fit k H \<and> (\<exists>p m' H'. try_buckets (walk n (of_nat k)) (of_nat k) s (HEAP_BUCKETS s) = Some (Inr (Some (p, s\<lparr>metas := m'\<rparr>)))
       \<and> alloc_spec prefers k page H p H' \<and> heap_rep page (s\<lparr>metas := m'\<rparr>) H')"
proof -
  have "HEAP_BUCKETS s = map (\<lambda>i. the (page i)) [0..<length H]" using assms(2) by (simp add: heap_rep_def)
  moreover have "\<not> no_fit k H" if a: "alloc_spec prefers k page H p H'" for p H'
  proof -
    obtain i xs n ys where "i < length H" "H ! i = xs @ (n, False) # ys" "fits k (n, False)"
      using a by (auto simp: alloc_spec_def)
    then show ?thesis using nth_mem [of i H] by (fastforce simp: no_fit_def)
  qed
  ultimately show ?thesis using try_ok [OF assms, of 0]
    by (fastforce simp: no_fit_def split: option.splits)
qed

lemma alloc_ok:
  assumes P: "pages_ok page" and rep: "heap_rep page s H" and n: "HEAP_SIZE div 40 < n" and k: "k + 40 \<le> HEAP_SIZE"
  shows "if full k H then alloc_loop page (walk n (of_nat k)) (of_nat k) s = Some (Inl (Quit (- 5)))
    else \<exists>p s' H'. alloc_loop page (walk n (of_nat k)) (of_nat k) s = Some (Inr (p, s')) \<and> alloc_spec prefers k page (grown k H) p H'
      \<and> heap_rep page s' H' \<and> COOKIE s' = COOKIE s \<and> current_alloc_policy s' = current_alloc_policy s"
proof -
  have len: "length (HEAP_BUCKETS s) = length H" "length H \<le> MAX_BUCKETS" using rep by (auto simp: heap_rep_def)
  show ?thesis
  proof (cases "no_fit k H")
    case False
    then obtain p m' H' where "try_buckets (walk n (of_nat k)) (of_nat k) s (HEAP_BUCKETS s) = Some (Inr (Some (p, s\<lparr>metas := m'\<rparr>)))"
      "alloc_spec prefers k page H p H'" "heap_rep page (s\<lparr>metas := m'\<rparr>) H'"
      using try_all [OF assms] by blast
    then show ?thesis using False by (subst alloc_loop.simps) (auto simp: grown_def)
  next
    case True
    then have t: "try_buckets (walk n (of_nat k)) (of_nat k) s (HEAP_BUCKETS s) = Some (Inr None)"
      using try_all [OF assms] by blast
    show ?thesis
    proof (cases "length H = MAX_BUCKETS")
      case True
      then show ?thesis using t len \<open>no_fit k H\<close> by (subst alloc_loop.simps) simp
    next
      case False
      then have l: "length H < MAX_BUCKETS" using len by simp
      define s1 where "s1 = (\<lambda>m'. s\<lparr>metas := m', HEAP_BUCKETS := HEAP_BUCKETS s @ [the (page (length H))]\<rparr>)"
      obtain m1 where m1: "init_heap page s = Inr (s1 m1)" "heap_rep page (s1 m1) (H @ [[(HEAP_SIZE, False)]])"
        using init_heap_ok [OF P rep l] by (auto simp: s1_def)
      have "\<not> no_fit k (H @ [[(HEAP_SIZE, False)]])" using k by (simp add: no_fit_def)
      then obtain p m' H' where "try_buckets (walk n (of_nat k)) (of_nat k) (s1 m1) (HEAP_BUCKETS (s1 m1)) = Some (Inr (Some (p, (s1 m1)\<lparr>metas := m'\<rparr>)))"
        "alloc_spec prefers k page (H @ [[(HEAP_SIZE, False)]]) p H'" "heap_rep page ((s1 m1)\<lparr>metas := m'\<rparr>) H'"
        using try_all [OF P m1(2) n k] by blast
      moreover from this have "alloc_loop page (walk n (of_nat k)) (of_nat k) (s1 m1) = Some (Inr (p, (s1 m1)\<lparr>metas := m'\<rparr>))"
        by (subst alloc_loop.simps) simp
      ultimately show ?thesis using t l len m1(1) True
        by (subst alloc_loop.simps) (auto simp: grown_def s1_def)
    qed
  qed
qed

end

definition policy_of :: "u32 \<Rightarrow> nat \<times> nat \<Rightarrow> nat \<times> nat \<Rightarrow> bool" where
  "policy_of w = (if w = 0 then first_fit else if w = 1 then best_fit else worst_fit)"

lemma mod3_cases: "(w :: u32) mod 3 = 0 \<or> w mod 3 = 1 \<or> w mod 3 = 2"
proof -
  have "unat (w mod 3) < 3" by (simp add: unat_mod)
  then have "unat (w mod 3) = 0 \<or> unat (w mod 3) = 1 \<or> unat (w mod 3) = 2" by linarith
  then show ?thesis by (simp add: word_unat_eq_iff)
qed

end
