(* ===== verification/Divided_Heap_Free.thy ===== *)
theory Divided_Heap_Free
  imports Divided_Heap_Alloc
begin

text \<open>
  Freeing a block marks it and joins it with its free neighbours: one step of joining (\<open>merged\<close>) for both directions.
\<close>

definition merged :: "(nat \<rightharpoonup> mmeta) \<Rightarrow> u32 \<Rightarrow> nat option \<Rightarrow> nat \<Rightarrow> nat \<Rightarrow> nat option \<Rightarrow> nat \<rightharpoonup> mmeta" where
  "merged m C pr p n fr = (case fr of None \<Rightarrow> m | Some f \<Rightarrow> m(f \<mapsto> (the (m f))\<lparr>mm_back := Some p\<rparr>))(p \<mapsto> hdr C n False pr fr)"

abbreviation front_addr :: "nat \<Rightarrow> block list \<Rightarrow> nat option" where
  "front_addr a ys \<equiv> if ys = [] then None else Some a"

lemma seg_merged:
  assumes "seg m C None b (xs @ (k, al) # (n, al') # ys) None"
  defines "p \<equiv> b + bytes xs"
  shows "seg (merged m C (last_addr None b xs) p (k + n) (front_addr (p + k + n) ys)) C None b (xs @ (k + n, False) # ys) None"
    "c + 40 \<le> b \<or> b + bytes (xs @ (k, al) # (n, al') # ys) \<le> c \<Longrightarrow>
       merged m C (last_addr None b xs) p (k + n) (front_addr (p + k + n) ys) c = m c"
proof -
  let ?m = "merged m C (last_addr None b xs) p (k + n) (front_addr (p + k + n) ys)"
  have S: "seg m C None b xs (Some p)" "40 \<le> k" "40 \<le> n" "seg m C (Some (p + k)) (p + k + n) ys None"
    using assms(1) by (auto simp: seg_append p_def)
  have o: "?m c = m c" if "c < p \<or> p < c \<and> c \<noteq> p + k + n" for c
    using that S by (auto simp: merged_def)
  have "seg ?m C None b xs (Some p)" by (rule seg_cong [OF o S(1)]) (auto simp: p_def)
  moreover have "seg ?m C (Some p) (p + k + n) ys None"
  proof (cases ys)
    case (Cons y ys')
    then show ?thesis using seg_back [OF S(4) [unfolded Cons], of ?m "Some p"] S(2,3) o by (auto simp: merged_def)
  qed simp
  ultimately show "seg ?m C None b (xs @ (k + n, False) # ys) None"
    using S by (simp add: seg_append p_def [symmetric] add.assoc) (simp add: merged_def add.assoc)
  assume c: "c + 40 \<le> b \<or> b + bytes (xs @ (k, al) # (n, al') # ys) \<le> c"
  have "c \<noteq> p + k + n" if "ys \<noteq> []"
    using c that S(2-4) by (cases ys) (auto simp: p_def)
  then show "?m c = m c" using c S by (auto simp: merged_def p_def)
qed

lemma merge_steps:
  assumes "seg (metas s) (COOKIE s) None b (xs @ (k, False) # (n, False) # ys) None"
  defines "p \<equiv> b + bytes xs" 
  defines "m' \<equiv> merged (metas s) (COOKIE s) (last_addr None b xs) p (k + n) (front_addr (p + k + n) ys)"
  shows "back_turn (p + k, s) = (if ys = [] then Inl Null_Deref else Inr (Inl (p, s\<lparr>metas := m'\<rparr>)))"
    "front_turn p s = Inr (Inl (s\<lparr>metas := m'\<rparr>))"
proof -
  let ?C = "COOKIE s"
  let ?pr = "last_addr None b xs"
  have A: "metas s p = Some (hdr ?C k False ?pr (Some (p + k)))" 
    "metas s (p + k) = Some (hdr ?C n False (Some p) (front_addr (p + k + n) ys))"
    "seg (metas s) ?C (Some (p + k)) (p + k + n) ys None" "40 \<le> k" "40 \<le> n"
    using assms(1) unfolding p_def by (auto simp: seg_append)
  have F: "\<exists>m. metas s (p + k + n) = Some m" if "ys \<noteq> []" using A(3) that by (cases ys) auto
  have h: "(hdr ?C k False ?pr fr)\<lparr>mm_size := of_nat k + of_nat n, mm_front := fr', mm_gethash := 0\<rparr> = hdr ?C (k + n) False ?pr fr'" for fr fr'
    by (simp add: hdr_def)
  show "back_turn (p + k, s) = (if ys = [] then Inl Null_Deref else Inr (Inl (p, s\<lparr>metas := m'\<rparr>)))"
    using A F by (auto simp: back_turn_def merge_back_def upd_ptr_def get_ptr_def m'_def merged_def h)
  show "front_turn p s = Inr (Inl (s\<lparr>metas := m'\<rparr>))"
    using A F by (auto simp: front_turn_def m'_def merged_def h fun_upd_twist)
qed


lemma last_addr_append: "last_addr pr a (xs @ ys) = last_addr (last_addr pr a xs) (a + bytes xs) ys"
  by (induction pr a xs rule: last_addr.induct) (auto simp: add.assoc)

lemma turns_stop:
  assumes "seg (metas s) (COOKIE s) None b (xs @ (n, al) # ys) None"
  shows "xs = [] \<or> snd (last xs) \<Longrightarrow> back_turn (b + bytes xs, s) = Inr (Inr (b + bytes xs, s))"
    "ys = [] \<or> snd (hd ys) \<Longrightarrow> front_turn (b + bytes xs) s = Inr (Inr s)"
proof -
  show "back_turn (b + bytes xs, s) = Inr (Inr (b + bytes xs, s))" if st: "xs = [] \<or> snd (last xs)"
  proof (cases xs rule: rev_cases)
    case (snoc zs z)
    then obtain k where "xs = zs @ [(k, True)]" using st by (cases z) auto
    then show ?thesis using assms by (auto simp: back_turn_def seg_append last_addr_append add.assoc)
  qed (use seg_at [OF assms] in \<open>simp add: back_turn_def\<close>)
  show "front_turn (b + bytes xs) s = Inr (Inr s)" if "ys = [] \<or> snd (hd ys)"
    using assms that by (cases ys) (auto simp: front_turn_def seg_append)
qed

lemma back_ok:
  assumes S: "seg (metas s) (COOKIE s) None b (xs @ (n, False) # ys) None" and J: "joined xs" and N: "N = Suc (Suc N')"
  shows "if ys = [] \<and> xs \<noteq> [] \<and> \<not> snd (last xs) then loop_fuel back_turn N (b + bytes xs, s) = Some (Inl Null_Deref)
    else \<exists>m'. loop_fuel back_turn N (b + bytes xs, s) = Some (Inr (b + bytes (fst (join_back xs n)), s\<lparr>metas := m'\<rparr>))
      \<and> seg m' (COOKIE s) None b (fst (join_back xs n) @ (snd (join_back xs n), False) # ys) None
      \<and> (\<forall>c. c + 40 \<le> b \<or> b + bytes (xs @ (n, False) # ys) \<le> c \<longrightarrow> m' c = metas s c)"
proof (cases "xs = [] \<or> snd (last xs)")
  case True
  then show ?thesis using turns_stop(1) [OF S True] S N by (auto simp: join_back_def intro!: exI [of _ "metas s"])
next
  case False
  then obtain zs k where x: "xs = zs @ [(k, False)]" by (cases xs rule: rev_cases) auto
  let ?m = "merged (metas s) (COOKIE s) (last_addr None b zs) (b + bytes zs) (k + n) (front_addr (b + bytes zs + k + n) ys)"
  have S': "seg (metas s) (COOKIE s) None b (zs @ (k, False) # (n, False) # ys) None" using S x by simp
  note M = seg_merged [OF S'] merge_steps(1) [OF S']
  have "zs = [] \<or> snd (last zs)" using J x by (auto simp: joined_append)
  then have "back_turn (b + bytes zs, s\<lparr>metas := ?m\<rparr>) = Inr (Inr (b + bytes zs, s\<lparr>metas := ?m\<rparr>))"
    using turns_stop(1) [of "s\<lparr>metas := ?m\<rparr>"] M(1) by simp
  then show ?thesis using M x N False
    by (auto simp: join_back_def add.assoc intro!: exI [of _ ?m])
qed

lemma front_ok:
  assumes S: "seg (metas s) (COOKIE s) None b (xs @ (n, False) # ys) None" and J: "joined ys" and N: "N = Suc (Suc N')"
  shows "\<exists>m'. loop_fuel (front_turn (b + bytes xs)) N s = Some (Inr (s\<lparr>metas := m'\<rparr>))
      \<and> seg m' (COOKIE s) None b (xs @ (fst (join_front n ys), False) # snd (join_front n ys)) None
      \<and> (\<forall>c. c + 40 \<le> b \<or> b + bytes (xs @ (n, False) # ys) \<le> c \<longrightarrow> m' c = metas s c)"
proof (cases "ys = [] \<or> snd (hd ys)")
  case True
  then show ?thesis using turns_stop(2) [OF S True] S N
    by (auto simp: join_front_def split: list.splits intro!: exI [of _ "metas s"])
next
  case False
  then obtain k zs where y: "ys = (k, False) # zs" by (cases ys) auto
  let ?m = "merged (metas s) (COOKIE s) (last_addr None b xs) (b + bytes xs) (n + k) (front_addr (b + bytes xs + n + k) zs)"
  have S': "seg (metas s) (COOKIE s) None b (xs @ (n, False) # (k, False) # zs) None" using S y by simp
  note M = seg_merged [OF S'] merge_steps(2) [OF S']
  have "zs = [] \<or> snd (hd zs)" using J y by (auto simp: joined_Cons)
  then have "front_turn (b + bytes xs) (s\<lparr>metas := ?m\<rparr>) = Inr (Inr (s\<lparr>metas := ?m\<rparr>))"
    using turns_stop(2) [of "s\<lparr>metas := ?m\<rparr>"] M(1) by simp
  then show ?thesis using M y N by (auto simp: join_front_def intro!: exI [of _ ?m])
qed

text \<open>\<open>crashes\<close>: the last block of a bucket, behind a free block.\<close>

definition crashes :: "block list \<Rightarrow> block list \<Rightarrow> bool" where
  "crashes xs ys \<longleftrightarrow> ys = [] \<and> xs \<noteq> [] \<and> \<not> snd (last xs)"

lemma my_free_ok:
  assumes P: "pages_ok page" and rep: "heap_rep page s H" and i: "i < length H" and H: "H ! i = xs @ (n, True) # ys" and N: "2 \<le> N"
  shows "if crashes xs ys then my_free hash N (the (page i) + bytes xs + 40) s = Some (Inl Null_Deref)
    else \<exists>m'. my_free hash N (the (page i) + bytes xs + 40) s = Some (Inr (s\<lparr>metas := m'\<rparr>))
      \<and> heap_rep page (s\<lparr>metas := m'\<rparr>) (H[i := freed xs n ys])"
proof -
  let ?b = "the (page i)"
  let ?a = "?b + bytes xs"
  have B: "bucket_rep (metas s) (COOKIE s) ?b (xs @ (n, True) # ys)" using rep i H by (auto simp: heap_rep_def)
  note R = bucket_repD [OF B]
  define m0 where "m0 = (metas s)(?a \<mapsto> hdr (COOKIE s) n False (last_addr None ?b xs) (front_addr (?a + n) ys))"
  define s0 where "s0 = s\<lparr>metas := m0\<rparr>"
  have A: "metas s ?a = Some (hdr (COOKIE s) n True (last_addr None ?b xs) (front_addr (?a + n) ys))" "40 \<le> n"
    using seg_at [OF R(1)] by auto
  have S0: "seg (metas s0) (COOKIE s0) None ?b (xs @ (n, False) # ys) None"
    using R(1) A by (auto simp: seg_append s0_def m0_def intro!: seg_upd)
  have mark: "my_free hash N (?a + 40) s = (case loop_fuel back_turn N (?a, s0) of
           None \<Rightarrow> None
         | Some (Inl e) \<Rightarrow> Some (Inl e)
         | Some (Inr (to_free, s)) \<Rightarrow> loop_fuel (front_turn to_free) N s)"
    using A by (simp add: my_free_def s0_def m0_def Let_def)
  obtain N' where N': "N = Suc (Suc N')" using N by (metis Suc_le_D numeral_2_eq_2 Suc_le_mono)
  have J: "joined xs" "joined ys" using R(3) by (auto simp: joined_append joined_Cons)
  have f0: "m0 c = metas s c" if "c + 40 \<le> ?b \<or> ?b + HEAP_SIZE \<le> c" for c
    using that A(2) R(2) by (auto simp: m0_def)
  let ?xs = "fst (join_back xs n)" and ?n = "snd (join_back xs n)"
  have len: "bytes ?xs + ?n = bytes xs + n" by (cases xs rule: rev_cases) (auto simp: join_back_def)
  show ?thesis
  proof (cases "crashes xs ys")
    case True
    then show ?thesis using back_ok [OF S0 J(1) N'] mark by (auto simp: crashes_def)
  next
    case False
    have "\<exists>m1. loop_fuel back_turn N (?a, s0) = Some (Inr (?b + bytes ?xs, s\<lparr>metas := m1\<rparr>))
      \<and> seg m1 (COOKIE s) None ?b (?xs @ (?n, False) # ys) None \<and> (\<forall>c. c + 40 \<le> ?b \<or> ?b + HEAP_SIZE \<le> c \<longrightarrow> m1 c = m0 c)"
      using back_ok [OF S0 J(1) N'] False [unfolded crashes_def] R(2) by (simp only: if_False) (simp add: s0_def)
    then obtain m1 where m1: "loop_fuel back_turn N (?a, s0) = Some (Inr (?b + bytes ?xs, s\<lparr>metas := m1\<rparr>))"
      "seg m1 (COOKIE s) None ?b (?xs @ (?n, False) # ys) None" "\<And>c. c + 40 \<le> ?b \<or> ?b + HEAP_SIZE \<le> c \<Longrightarrow> m1 c = m0 c"
      by blast
    have L: "bytes (?xs @ (?n, False) # ys) = HEAP_SIZE" using R(2) len by simp
    have "\<exists>m2. loop_fuel (front_turn (?b + bytes ?xs)) N (s\<lparr>metas := m1\<rparr>) = Some (Inr (s\<lparr>metas := m2\<rparr>))
      \<and> seg m2 (COOKIE s) None ?b (?xs @ (fst (join_front ?n ys), False) # snd (join_front ?n ys)) None
      \<and> (\<forall>c. c + 40 \<le> ?b \<or> ?b + HEAP_SIZE \<le> c \<longrightarrow> m2 c = m1 c)"
      using front_ok [of "s\<lparr>metas := m1\<rparr>" ?b ?xs ?n ys N N'] m1(2) J(2) N' unfolding L by simp
    then obtain m2 where m2: "loop_fuel (front_turn (?b + bytes ?xs)) N (s\<lparr>metas := m1\<rparr>) = Some (Inr (s\<lparr>metas := m2\<rparr>))"
      "seg m2 (COOKIE s) None ?b (?xs @ (fst (join_front ?n ys), False) # snd (join_front ?n ys)) None"
      "\<And>c. c + 40 \<le> ?b \<or> ?b + HEAP_SIZE \<le> c \<Longrightarrow> m2 c = m1 c"
      by blast
    have "bucket_rep m2 (COOKIE s) ?b (freed xs n ys)"
      using m2(2) joined_freed [OF R(3)] R(2) unfolding bucket_rep_def bytes_freed by (simp add: freed_def Let_def case_prod_beta)
    then have "heap_rep page (s\<lparr>metas := m2\<rparr>) (H[i := freed xs n ys])"
      by (rule heap_rep_upd [OF P rep i]) (simp add: m2(3) m1(3) f0)
    then show ?thesis using False mark m1(1) m2(1) by auto
  qed
qed

end
