(* ===== verification/Divided_Heap_Props.thy ===== *)
theory Divided_Heap_Props
  imports Divided_Heap_Free
begin

text \<open>
  The allocator of \<open>src/divided\<close> implements its specification: what an allocation and a release do to the blocks, and what
  holds for a program that only frees the blocks that it holds.
\<close>

subsection \<open>Allocation\<close>

text \<open>C12. An allocation finds the block that the policy of its turn prefers, in a bucket more where none fits.\<close>

theorem malloc_refines:
  assumes P: "pages_ok page" and rep: "heap_rep page s H" and n: "HEAP_SIZE div 40 < n" and k: "k + 40 \<le> HEAP_SIZE"
  shows "if full k H then my_malloc page n (of_nat k) s = Some (Inl (Quit (- 5)))
    else \<exists>p s' H'. my_malloc page n (of_nat k) s = Some (Inr (p, s'))
      \<and> alloc_spec (policy_of ((current_alloc_policy s + 1) mod 3)) k page (grown k H) p H'
      \<and> heap_rep page s' H' \<and> current_alloc_policy s' = (current_alloc_policy s + 1) mod 3 \<and> COOKIE s' = COOKIE s"
proof -
  let ?pol = "(current_alloc_policy s + 1) mod 3"
  obtain s1 H1 where s1: "(if length (HEAP_BUCKETS s) = 0 then init_heap page s else Inr s) = Inr s1"
    "heap_rep page s1 H1" "grown k H1 = grown k H" "full k H1 \<longleftrightarrow> full k H" "COOKIE s1 = COOKIE s" "current_alloc_policy s1 = current_alloc_policy s"
  proof (cases "H = []")
    case True
    then have "heap_rep page s []" "length (HEAP_BUCKETS s) = 0" using rep by (auto simp: heap_rep_def)
    moreover have "\<not> no_fit k [[(HEAP_SIZE, False)]]" "no_fit k []" using k by (auto simp: no_fit_def)
    ultimately show ?thesis using init_heap_ok [OF P, of s "[]"] True that [of _ "[[(HEAP_SIZE, False)]]"]
      by (auto simp: MAX_BUCKETS_def grown_def)
  next
    case False
    then show ?thesis using that [of s H] rep by (auto simp: heap_rep_def)
  qed
  define s2 where "s2 = s1\<lparr>current_alloc_policy := ?pol\<rparr>"
  have rep2: "heap_rep page s2 H1" using s1(2) by (simp add: heap_rep_def s2_def)
  have "my_malloc page n (of_nat k) s = (if ?pol = 0 then alloc_loop page (first_fit_walk n (of_nat k)) (of_nat k) s2
      else if ?pol = 1 then alloc_loop page (best_fit_walk n (of_nat k)) (of_nat k) s2
      else alloc_loop page (worst_fit_walk n (of_nat k)) (of_nat k) s2)"
    using s1(1,6) mod3_cases [of "current_alloc_policy s + 1"] by (auto simp: my_malloc_def s2_def Let_def)
  then show ?thesis
    using ff.alloc_ok [OF P rep2 n k] bf.alloc_ok [OF P rep2 n k] wf.alloc_ok [OF P rep2 n k] s1(3-6)
    unfolding policy_of_def by (auto simp: s2_def split: if_splits)
qed

subsection \<open>Freeing\<close>

text \<open>C13. A block that is freed is joined with its free neighbours, except for the last block of a bucket behind a free block:
  the code then follows the link of the block behind the last one.
\<close>

theorem free_refines:
  assumes "pages_ok page" "heap_rep page s H" "i < length H" "H ! i = xs @ (n, True) # ys" "2 \<le> N"
  shows "if crashes xs ys then my_free hash N (the (page i) + bytes xs + 40) s = Some (Inl Null_Deref)
    else \<exists>s'. my_free hash N (the (page i) + bytes xs + 40) s = Some (Inr s')
      \<and> heap_rep page s' (H[i := freed xs n ys]) \<and> current_alloc_policy s' = current_alloc_policy s \<and> COOKIE s' = COOKIE s"
  using my_free_ok [OF assms, of hash] by (auto split: if_splits)

subsection \<open>Validation\<close>

lemma check_ok:
  assumes "seg (metas s) (COOKIE s) None b (xs @ (n, al) # ys) None"
  shows "check_meta s (b + bytes xs) t = Inr (t + of_nat n)"
proof -
  have y: "case ys of [] \<Rightarrow> True | _ \<Rightarrow> \<exists>m. metas s (b + bytes xs + n) = Some m \<and> mm_back m = Some (b + bytes xs)"
    using assms by (cases ys) (auto simp: seg_append)
  show ?thesis
  proof (cases xs rule: rev_cases)
    case Nil
    then show ?thesis using assms y by (cases ys) (auto simp: check_meta_def seg_append)
  next
    case (snoc zs z)
    then show ?thesis using assms y
      by (cases z; cases ys) (auto simp: check_meta_def seg_append last_addr_append add.assoc)
  qed
qed

lemma check_visit:
  "seg (metas s) (COOKIE s) None b (xs @ ys) None \<Longrightarrow> length ys < N \<Longrightarrow>
   visit (front_of s) (check_meta s) N (front_addr (b + bytes xs) ys) t = Some (Inr (t + of_nat (bytes ys)))"
proof (induction ys arbitrary: xs N t)
  case Nil
  then show ?case by (cases N) auto
next
  case (Cons y ys)
  obtain n al where y: "y = (n, al)" by (cases y)
  obtain N' where N: "N = Suc N'" "length ys < N'" using Cons.prems(2) by (cases N) auto
  note S = Cons.prems(1) [unfolded y]
  have "front_of s (b + bytes xs) = Inr (front_addr (b + bytes xs + n) ys)" using seg_at [OF S] by (simp add: front_of_def)
  then show ?case using Cons.IH [of "xs @ [(n, al)]" N' "t + of_nat n"] S check_ok [OF S, of t] N y by (cases "ys = []") (simp_all add: add.assoc)
qed

lemma validate_ok:
  assumes rep: "heap_rep page s H" and N: "HEAP_SIZE div 40 < N"
  shows "validate_heap N s = Some (Inr ())"
proof -
  have "visit (front_of s) (check_meta s) N (Some b) 0 = Some (Inr (of_nat HEAP_SIZE))" if b: "b \<in> set (HEAP_BUCKETS s)" for b
  proof -
    obtain bs where "bucket_rep (metas s) (COOKIE s) b bs" using rep b by (auto simp: heap_rep_def)
    note R = bucket_repD [OF this]
    show ?thesis using check_visit [of s b "[]" bs N 0] R N by simp
  qed
  then have "set bs \<subseteq> set (HEAP_BUCKETS s) \<Longrightarrow> check_buckets N s bs = Some (Inr ())" for bs
    by (induction bs) auto
  then show ?thesis by (simp add: validate_heap_def)
qed


subsection \<open>Programs that free what they hold\<close>

text \<open>The blocks that are given away, by the address of their header.\<close>

definition held :: "(nat \<Rightarrow> nat option) \<Rightarrow> block list list \<Rightarrow> nat \<Rightarrow> nat \<Rightarrow> bool" where
  "held page H a n \<longleftrightarrow> (\<exists>i<length H. (a, n, True) \<in> set (blks (the (page i)) (H ! i)))"

definition lists_ok :: "block list list \<Rightarrow> bool" where
  "lists_ok H \<longleftrightarrow> length H \<le> MAX_BUCKETS \<and> (\<forall>bs\<in>set H. bytes bs = HEAP_SIZE \<and> (\<forall>(n, al) \<in> set bs. 40 \<le> n))"

lemma heap_rep_lists: "heap_rep page s H \<Longrightarrow> lists_ok H"
proof -
  assume rep: "heap_rep page s H"
  have "bytes bs = HEAP_SIZE \<and> (\<forall>(n, al) \<in> set bs. 40 \<le> n)" if bs: "bs \<in> set H" for bs
  proof -
    obtain i where "i < length H" "bs = H ! i" using bs by (auto simp: in_set_conv_nth)
    then have B: "bucket_rep (metas s) (COOKIE s) (the (page i)) bs" using rep by (simp add: heap_rep_def)
    show ?thesis using bucket_repD(2) [OF B] seg_sizes [OF bucket_repD(1) [OF B]] by simp
  qed
  then show ?thesis using rep by (simp add: lists_ok_def heap_rep_def)
qed

lemma lists_ok_grown: "lists_ok H \<Longrightarrow> \<not> full k H \<Longrightarrow> lists_ok (grown k H)"
  by (auto simp: lists_ok_def grown_def HEAP_SIZE_def)

lemma blocks_apart:
  assumes P: "pages_ok page" and L: "lists_ok H" and ij: "i < length H" "j < length H"
    and x: "(a, n, al) \<in> set (blks (the (page i)) (H ! i))" and y: "(a', n', al') \<in> set (blks (the (page j)) (H ! j))"
  shows "(a, n, al) = (a', n', al') \<or> a + n \<le> a' \<or> a' + n' \<le> a"
proof (cases "i = j")
  case True
  have apart: "sorted_wrt (\<lambda>x y. fst x + fst (snd x) \<le> fst y) L \<Longrightarrow> (a, n, al) \<in> set L \<Longrightarrow> (a', n', al') \<in> set L \<Longrightarrow>
      (a, n, al) = (a', n', al') \<or> a + n \<le> a' \<or> a' + n' \<le> a" for L
    by (induction L) fastforce+
  show ?thesis using apart [OF blks_apart x] y True by simp
next
  case False
  have b: "bytes (H ! i) = HEAP_SIZE" "bytes (H ! j) = HEAP_SIZE" and m: "i < MAX_BUCKETS" "j < MAX_BUCKETS"
    using L ij by (auto simp: lists_ok_def)
  have "the (page i) + HEAP_SIZE \<le> the (page j) \<or> the (page j) + HEAP_SIZE \<le> the (page i)"
    using P m False by (auto simp: pages_ok_def)
  then show ?thesis using blks_range [OF x] blks_range [OF y] b by auto
qed

lemma held_at:
  assumes "i < length H"
  shows "held page (H[i := bs]) a n \<longleftrightarrow> (a, n, True) \<in> set (blks (the (page i)) bs)
      \<or> (\<exists>j<length H. j \<noteq> i \<and> (a, n, True) \<in> set (blks (the (page j)) (H ! j)))"
    "held page H a n \<longleftrightarrow> (a, n, True) \<in> set (blks (the (page i)) (H ! i))
      \<or> (\<exists>j<length H. j \<noteq> i \<and> (a, n, True) \<in> set (blks (the (page j)) (H ! j)))"
  using assms by (auto simp: held_def nth_list_update split: if_splits)

lemma held_alloc:
  assumes "alloc_spec prefers k page H p H'"
  shows "\<exists>i m. 40 \<le> p \<and> i < length H \<and> k + 40 \<le> m \<and> (\<exists>m0\<ge>m. (p - 40, m0, False) \<in> set (blks (the (page i)) (H ! i)))
     \<and> (\<forall>a n. held page H' a n \<longleftrightarrow> held page H a n \<or> a = p - 40 \<and> n = m)"
proof -
  obtain i xs n ys where i: "i < length H" "H ! i = xs @ (n, False) # ys" "k + 40 \<le> n"
    "p = the (page i) + bytes xs + 40" "H' = H[i := xs @ cut_block k n @ ys]"
    using assms by (auto simp: alloc_spec_def)
  define m where "m = fst (hd (cut_block k n))"
  let ?b = "the (page i)"
  have c: "(a, l, True) \<in> set (blks ?b (xs @ cut_block k n @ ys)) \<longleftrightarrow>
      (a, l, True) \<in> set (blks ?b (xs @ (n, False) # ys)) \<or> a = p - 40 \<and> l = m" for a l
    unfolding blks_append bytes_cut [OF i(3)] using i(4) by (auto simp: blks_append cut_block_def m_def)
  have "held page H' a l \<longleftrightarrow> held page H a l \<or> a = p - 40 \<and> l = m" for a l
    unfolding i(5) held_at(1) [OF i(1)] held_at(2) [OF i(1), of page a] using c [of a l] i(2) by auto
  moreover have "k + 40 \<le> m" "m \<le> n" using i(3) by (auto simp: m_def cut_block_def)
  ultimately show ?thesis using i by (intro exI [of _ i] exI [of _ m]) (auto simp: blks_append)
qed

lemma blks_freed:
  "(a, l, True) \<in> set (blks b (freed xs n ys)) \<longleftrightarrow> (a, l, True) \<in> set (blks b xs) \<or> (a, l, True) \<in> set (blks (b + bytes xs + n) ys)"
proof -
  have 1: "(a, l, True) \<in> set (blks b (fst (join_back xs n))) \<longleftrightarrow> (a, l, True) \<in> set (blks b xs)"
    and 2: "bytes (fst (join_back xs n)) + snd (join_back xs n) = bytes xs + n"
    by (cases xs rule: rev_cases; auto simp: join_back_def blks_append)+
  have 3: "(a, l, True) \<in> set (blks (c + fst (join_front m ys)) (snd (join_front m ys))) \<longleftrightarrow> (a, l, True) \<in> set (blks (c + m) ys)" for c m
    by (cases ys) (auto simp: join_front_def add.assoc split: if_splits)
  have e: "freed xs n ys = fst (join_back xs n) @ (fst (join_front (snd (join_back xs n)) ys), False) # snd (join_front (snd (join_back xs n)) ys)"
    by (simp add: freed_def Let_def case_prod_beta)
  show ?thesis unfolding e blks_append using 1 2 3 [of "b + bytes (fst (join_back xs n))" "snd (join_back xs n)"]
    by (simp add: add.assoc)
qed

lemma held_free:
  assumes rep: "heap_rep page s H" and i: "i < length H" "H ! i = xs @ (n, True) # ys"
    and h: "held page H a l" "a \<noteq> the (page i) + bytes xs"
  shows "held page (H[i := freed xs n ys]) a l"
proof -
  obtain j where j: "j < length H" "(a, l, True) \<in> set (blks (the (page j)) (H ! j))" using h(1) by (auto simp: held_def)
  show ?thesis
  proof (cases "j = i")
    case True
    then have "(a, l, True) \<in> set (blks (the (page i)) (freed xs n ys))"
      using j(2) i(2) h(2) by (auto simp: blks_freed blks_append)
    then show ?thesis using i(1) by (auto simp: held_def intro!: exI [of _ i])
  qed (use j in \<open>auto simp: held_def intro!: exI [of _ j]\<close>)
qed

datatype dv_op = Malloc nat | Free nat

text \<open>A program that notes what it asked for, and frees only what it holds.\<close>

fun client :: "(nat \<Rightarrow> nat option) \<Rightarrow> (u64 \<Rightarrow> nat \<Rightarrow> dheap \<Rightarrow> dv_error + dheap) \<Rightarrow> nat \<Rightarrow> dv_op list \<Rightarrow> dheap \<times> (nat \<rightharpoonup> nat)
    \<Rightarrow> (dv_error + dheap \<times> (nat \<rightharpoonup> nat)) option" where
  "client page hash N [] st = Some (Inr st)"
| "client page hash N (Malloc k # ops) (s, live) = (case my_malloc page N (of_nat k) s of
     None \<Rightarrow> None | Some (Inl e) \<Rightarrow> Some (Inl e) | Some (Inr (p, s)) \<Rightarrow> client page hash N ops (s, live(p \<mapsto> k)))"
| "client page hash N (Free p # ops) (s, live) =
     (if live p = None then client page hash N ops (s, live)
      else case my_free hash N p s of
     None \<Rightarrow> None | Some (Inl e) \<Rightarrow> Some (Inl e) | Some (Inr s) \<Rightarrow> client page hash N ops (s, live(p := None)))"

definition client_inv :: "(nat \<Rightarrow> nat option) \<Rightarrow> dheap \<times> (nat \<rightharpoonup> nat) \<Rightarrow> block list list \<Rightarrow> bool" where
  "client_inv page st H \<longleftrightarrow> heap_rep page (fst st) H
     \<and> (\<forall>p k. snd st p = Some k \<longrightarrow> 40 \<le> p \<and> (\<exists>n. k + 40 \<le> n \<and> held page H (p - 40) n))"

lemma heap_rep_grown: "heap_rep page s H \<Longrightarrow> i < length (grown k H) \<Longrightarrow> held page H a n \<Longrightarrow> held page (grown k H) a n"
  by (auto simp: held_def grown_def nth_append intro: less_SucI)

text \<open>Two blocks with their headers do not overlap: \<open>p\<close> and \<open>q\<close> are the addresses of their data.\<close>

definition apart :: "nat \<Rightarrow> nat \<Rightarrow> nat \<Rightarrow> nat \<Rightarrow> bool" where
  "apart p k q l \<longleftrightarrow> p + k + 40 \<le> q \<or> q + l + 40 \<le> p"

lemma client_malloc:
  assumes P: "pages_ok page" and N: "HEAP_SIZE div 40 < N" and I: "client_inv page (s, live) H" and k: "k + 40 \<le> HEAP_SIZE"
    and m: "my_malloc page N (of_nat k) s = Some (Inr (p, s'))"
  shows "\<exists>H'. client_inv page (s', live(p \<mapsto> k)) H'" "live q = Some l \<Longrightarrow> apart p k q l"
proof -
  have rep: "heap_rep page s H" using I by (simp add: client_inv_def)
  then obtain H' where H': "alloc_spec (policy_of ((current_alloc_policy s + 1) mod 3)) k page (grown k H) p H'" "heap_rep page s' H'" "\<not> full k H"
    using malloc_refines [OF P rep N k] m by (auto split: if_splits)
  obtain i n m0 where h: "40 \<le> p" "i < length (grown k H)" "k + 40 \<le> n" "n \<le> m0" "(p - 40, m0, False) \<in> set (blks (the (page i)) (grown k H ! i))"
    "\<And>a l. held page H' a l \<longleftrightarrow> held page (grown k H) a l \<or> a = p - 40 \<and> l = n"
    using held_alloc [OF H'(1)] by auto
  have old: "40 \<le> q \<and> (\<exists>n. l + 40 \<le> n \<and> held page (grown k H) (q - 40) n)" if "live q = Some l" for q l
    using I that heap_rep_grown [OF rep h(2)] by (fastforce simp: client_inv_def)
  have "40 \<le> q \<and> (\<exists>m. l + 40 \<le> m \<and> held page H' (q - 40) m)" if "(live(p \<mapsto> k)) q = Some l" for q l
  proof (cases "q = p")
    case False
    then show ?thesis using old [of q l] that h(6) by auto
  qed (use that h(1,3,6) in auto)
  then show "\<exists>H'. client_inv page (s', live(p \<mapsto> k)) H'" using H'(2) by (auto simp: client_inv_def)
  assume "live q = Some l"
  then obtain n' where "40 \<le> q" "l + 40 \<le> n'" "held page (grown k H) (q - 40) n'" using old by blast
  then obtain j where q: "40 \<le> q" "l + 40 \<le> n'" "j < length (grown k H)" "(q - 40, n', True) \<in> set (blks (the (page j)) (grown k H ! j))"
    by (auto simp: held_def)
  have "lists_ok (grown k H)" using lists_ok_grown [OF heap_rep_lists [OF rep] H'(3)] .
  from blocks_apart [OF P this h(2) q(3) h(5) q(4)] show "apart p k q l" using h(1,3,4) q(1,2) by (auto simp: apart_def)
qed

text \<open>The data at \<open>p\<close> is that of a block which is the last of its bucket and has a free block in front of it.\<close>

definition last_behind_free :: "(nat \<Rightarrow> nat option) \<Rightarrow> nat \<Rightarrow> block list list \<Rightarrow> bool" where
  "last_behind_free page p H \<longleftrightarrow> (\<exists>i xs m n. i < length H \<and> H ! i = xs @ [(m, False), (n, True)] \<and> p = the (page i) + bytes xs + m + 40)"

lemma crashes_last:
  assumes "crashes xs ys" "i < length H" "H ! i = xs @ (n, True) # ys"
  shows "last_behind_free page (the (page i) + bytes xs + 40) H"
proof -
  obtain zs m where x: "xs = zs @ [(m, False)]" "ys = []" using assms(1) by (cases xs rule: rev_cases) (auto simp: crashes_def)
  then have "H ! i = zs @ [(m, False), (n, True)]" "bytes xs = bytes zs + m" using assms(3) by simp_all
  then show ?thesis using assms(2) unfolding last_behind_free_def by (intro exI [of _ i] exI [of _ zs] exI [of _ m] exI [of _ n]) simp
qed

lemma client_free:
  assumes P: "pages_ok page" and N: "HEAP_SIZE div 40 < N" and I: "client_inv page (s, live) H" and l: "live p = Some k"
  shows "my_free hash N p s = Some (Inl Null_Deref) \<and> last_behind_free page p H \<or> (\<exists>s' H'. my_free hash N p s = Some (Inr s') \<and> client_inv page (s', live(p := None)) H')"
proof -
  have rep: "heap_rep page s H" using I by (simp add: client_inv_def)
  obtain n where n: "40 \<le> p" "held page H (p - 40) n" using I l by (auto simp: client_inv_def)
  then obtain i where h: "40 \<le> p" "i < length H" "(p - 40, n, True) \<in> set (blks (the (page i)) (H ! i))"
    by (auto simp: held_def)
  then obtain xs ys where x: "H ! i = xs @ (n, True) # ys" "p = the (page i) + bytes xs + 40" by (auto simp: blks_split)
  have N2: "2 \<le> N" using N by (simp add: HEAP_SIZE_def)
  note F = free_refines [OF P rep h(2) x(1) N2, of hash]
  show ?thesis
  proof (cases "crashes xs ys")
    case False
    then obtain s' where s': "my_free hash N p s = Some (Inr s')" "heap_rep page s' (H[i := freed xs n ys])" using F x(2) by auto
    have "40 \<le> q \<and> (\<exists>m. l + 40 \<le> m \<and> held page (H[i := freed xs n ys]) (q - 40) m)" if q: "live q = Some l" "q \<noteq> p" for q l
    proof -
      obtain m where "40 \<le> q" "l + 40 \<le> m" "held page H (q - 40) m" using I q(1) by (auto simp: client_inv_def)
      then show ?thesis using held_free [OF rep h(2) x(1), of "q - 40" m] q(2) x(2) by auto
    qed
    then show ?thesis using s' by (auto simp: client_inv_def)
  qed (use F x(2) crashes_last [OF _ h(2) x(1)] in simp)
qed

definition dheap_start :: "u32 \<Rightarrow> dheap" where
  "dheap_start cookie = \<lparr>metas = Map.empty, HEAP_BUCKETS = [], current_alloc_policy = 0, COOKIE = cookie\<rparr>"

lemma client_start: "client_inv page (dheap_start cookie, Map.empty) []"
  by (simp add: client_inv_def heap_rep_def dheap_start_def)

text \<open>Why a program is stopped before the operation \<open>op\<close> in a heap of the blocks \<open>H\<close>.\<close>

fun stopped_by :: "(nat \<Rightarrow> nat option) \<Rightarrow> dv_op \<Rightarrow> (nat \<rightharpoonup> nat) \<Rightarrow> block list list \<Rightarrow> dv_error \<Rightarrow> bool" where
  "stopped_by page (Malloc k) live H e \<longleftrightarrow> e = Quit (- 5) \<and> full k H"
| "stopped_by page (Free p) live H e \<longleftrightarrow> e = Null_Deref \<and> live p \<noteq> None \<and> last_behind_free page p H"

definition client_stopped where
  "client_stopped page hash N ops st e \<longleftrightarrow> (\<exists>before op after s live H. ops = before @ op # after
     \<and> client page hash N before st = Some (Inr (s, live)) \<and> heap_rep page s H \<and> stopped_by page op live H e)"

lemma client_stopped_now:
  "heap_rep page s H \<Longrightarrow> stopped_by page op live H e \<Longrightarrow> client_stopped page hash N (op # ops) (s, live) e"
  by (fastforce simp: client_stopped_def intro: exI [of _ "[]"])

lemma client_stopped_later:
  assumes "client_stopped page hash N ops st' e" "\<And>before. client page hash N (op # before) st = client page hash N before st'"
  shows "client_stopped page hash N (op # ops) st e"
proof -
  obtain before op' after s live H where b: "ops = before @ op' # after" "client page hash N before st' = Some (Inr (s, live))"
    "heap_rep page s H" "stopped_by page op' live H e" using assms(1) by (auto simp: client_stopped_def)
  then show ?thesis unfolding client_stopped_def using assms(2)
    by (intro exI [of _ "op # before"] exI [of _ op'] exI [of _ after] exI [of _ s] exI [of _ live] exI [of _ H]) simp
qed

lemma client_ok:
  assumes P: "pages_ok page" and N: "HEAP_SIZE div 40 < N"
  shows "(\<forall>k. Malloc k \<in> set ops \<longrightarrow> k + 40 \<le> HEAP_SIZE) \<Longrightarrow> client_inv page st H \<Longrightarrow>
    (case client page hash N ops st of None \<Rightarrow> False
     | Some (Inl e) \<Rightarrow> client_stopped page hash N ops st e
     | Some (Inr st') \<Rightarrow> \<exists>H'. client_inv page st' H')"
proof (induction ops arbitrary: st H)
  case (Cons op ops)
  obtain s live where st: "st = (s, live)" by (cases st)
  have rest: "\<forall>k. Malloc k \<in> set ops \<longrightarrow> k + 40 \<le> HEAP_SIZE" using Cons.prems(1) by simp
  note I = Cons.prems(2) [unfolded st]
  have rep: "heap_rep page s H" using I by (simp add: client_inv_def)
  have later: ?case if "client_inv page st' H'" "\<And>before. client page hash N (op # before) st = client page hash N before st'" for st' H'
    using Cons.IH [OF rest that(1)] that(2) client_stopped_later [OF _ that(2)] by (auto split: option.splits sum.splits)
  show ?case
  proof (cases op)
    case (Malloc k)
    have k: "k + 40 \<le> HEAP_SIZE" using Malloc Cons.prems(1) by auto
    note M = malloc_refines [OF P rep N k]
    show ?thesis
    proof (cases "full k H")
      case True
      then show ?thesis using M Malloc st client_stopped_now [OF rep] by simp
    next
      case False
      then obtain p s' where m: "my_malloc page N (of_nat k) s = Some (Inr (p, s'))" using M by auto
      obtain H' where "client_inv page (s', live(p \<mapsto> k)) H'" using client_malloc(1) [OF P N I k m] by blast
      then show ?thesis by (rule later) (simp add: m Malloc st)
    qed
  next
    case (Free p)
    show ?thesis
    proof (cases "live p")
      case (Some k)
      consider "my_free hash N p s = Some (Inl Null_Deref)" "last_behind_free page p H"
        | s' H' where "my_free hash N p s = Some (Inr s')" "client_inv page (s', live(p := None)) H'"
        using client_free [OF P N I Some, of hash] by blast
      then show ?thesis
      proof cases
        case 1
        then show ?thesis using Some Free st client_stopped_now [OF rep] by simp
      next
        case 2
        from 2(2) show ?thesis by (rule later) (simp add: 2(1) Some Free st)
      qed
    next
      case None
      show ?thesis by (rule later [OF I]) (simp add: None Free st)
    qed
  qed
qed auto

text \<open>C11. A program that frees only what it holds is stopped in two cases only: by a \<open>Malloc\<close> for which none of the blocks of
  the ten buckets is free and large enough (\<open>full\<close>), or by a \<open>Free\<close> of a block that is the last of its bucket and stands
  behind a free one, which dereferences a null pointer. Otherwise the heap stays valid, and what it gets never overlaps what
  it holds.
\<close>

theorem heap_session:
  assumes "pages_ok page" "HEAP_SIZE div 40 < N" "\<forall>k. Malloc k \<in> set ops \<longrightarrow> k + 40 \<le> HEAP_SIZE"
  shows "case client page hash N ops (dheap_start cookie, Map.empty) of None \<Rightarrow> False
     | Some (Inl e) \<Rightarrow> \<exists>before op after s live H. ops = before @ op # after
         \<and> client page hash N before (dheap_start cookie, Map.empty) = Some (Inr (s, live)) \<and> heap_rep page s H
         \<and> (case op of Malloc k \<Rightarrow> e = Quit (- 5) \<and> full k H
            | Free p \<Rightarrow> e = Null_Deref \<and> live p \<noteq> None \<and> last_behind_free page p H)
     | Some (Inr (s, live)) \<Rightarrow> validate_heap N s = Some (Inr ())
         \<and> (\<forall>k p s' q l. k + 40 \<le> HEAP_SIZE \<and> my_malloc page N (of_nat k) s = Some (Inr (p, s')) \<and> live q = Some l \<longrightarrow> apart p k q l)"
proof -
  note C = client_ok [OF assms client_start [where cookie = cookie], of hash]
  have by_op: "stopped_by page op live H e = (case op of Malloc k \<Rightarrow> e = Quit (- 5) \<and> full k H
            | Free p \<Rightarrow> e = Null_Deref \<and> live p \<noteq> None \<and> last_behind_free page p H)" for op live H e by (cases op) simp_all
  show ?thesis
  proof (cases "client page hash N ops (dheap_start cookie, Map.empty)")
    case (Some r)
    show ?thesis
    proof (cases r)
      case (Inr st)
      obtain s live H where st: "st = (s, live)" "client_inv page (s, live) H" using C Some Inr by (cases st) auto
      then have "heap_rep page s H" by (simp add: client_inv_def)
      then show ?thesis using Some Inr st validate_ok [OF _ assms(2)] client_malloc(2) [OF assms(1,2) st(2)] by auto
    next
      case (Inl e)
      then show ?thesis using C Some unfolding client_stopped_def by_op by simp
    qed
  qed (use C in simp)
qed

subsection \<open>Concrete heaps\<close>

definition pages10 :: "nat \<Rightarrow> nat option" where
  "pages10 i = Some (65536 + i * HEAP_SIZE)"

lemma pages10_ok: "pages_ok pages10"
proof -
  have "i * HEAP_SIZE + HEAP_SIZE \<le> j * HEAP_SIZE" if "i < j" for i j
    using mult_le_mono1 [of "Suc i" j HEAP_SIZE] that by simp
  then show ?thesis by (auto simp: pages_ok_def pages10_def nat_neq_iff)
qed

theorem malloc_refines_witness:
  "\<exists>p s' H'. my_malloc pages10 200000 (of_nat 100) (dheap_start 7) = Some (Inr (p, s'))
      \<and> alloc_spec best_fit 100 pages10 [[(HEAP_SIZE, False)]] p H' \<and> heap_rep pages10 s' H'"
proof -
  have "heap_rep pages10 (dheap_start 7) []" using client_start [of pages10 7] by (simp add: client_inv_def)
  from malloc_refines [OF pages10_ok this, of 200000 100] show ?thesis
    by (auto simp: HEAP_SIZE_def MAX_BUCKETS_def dheap_start_def policy_of_def grown_def no_fit_def)
qed

definition two_blocks :: "bool \<Rightarrow> bool \<Rightarrow> dheap" where
  "two_blocks x y = \<lparr>metas = [65536 \<mapsto> hdr 7 140 x None (Some 65676), 65676 \<mapsto> hdr 7 (HEAP_SIZE - 140) y (Some 65536) None],
     HEAP_BUCKETS = [65536], current_alloc_policy = 0, COOKIE = 7\<rparr>"

lemma two_blocks_rep: "x \<or> y \<Longrightarrow> heap_rep pages10 (two_blocks x y) [[(140, x), (HEAP_SIZE - 140, y)]]"
  by (simp add: heap_rep_def two_blocks_def bucket_rep_def pages10_def MAX_BUCKETS_def HEAP_SIZE_def joined_Cons)

theorem free_refines_witness:
  "(\<exists>s'. my_free (\<lambda>_ _. Inr) 2 65576 (two_blocks True False) = Some (Inr s') \<and> heap_rep pages10 s' [[(HEAP_SIZE, False)]])
   \<and> my_free (\<lambda>_ _. Inr) 2 65716 (two_blocks False True) = Some (Inl Null_Deref)"
  using free_refines [OF pages10_ok two_blocks_rep [of True False], of 0 "[]" 140 "[(HEAP_SIZE - 140, False)]" 2 "\<lambda>_ _. Inr"]
    free_refines [OF pages10_ok two_blocks_rep [of False True], of 0 "[(140, False)]" "HEAP_SIZE - 140" "[]" 2 "\<lambda>_ _. Inr"]
  by (auto simp: crashes_def freed_def join_back_def join_front_def pages10_def HEAP_SIZE_def)

theorem heap_session_witness:
  "case client pages10 (\<lambda>_ _. Inr) 200000 [Malloc 100, Malloc 20] (dheap_start 7, Map.empty) of None \<Rightarrow> False
     | Some (Inl e) \<Rightarrow> \<exists>before op after s live H. [Malloc 100, Malloc 20] = before @ op # after
         \<and> client pages10 (\<lambda>_ _. Inr) 200000 before (dheap_start 7, Map.empty) = Some (Inr (s, live)) \<and> heap_rep pages10 s H
         \<and> (case op of Malloc k \<Rightarrow> e = Quit (- 5) \<and> full k H
            | Free p \<Rightarrow> e = Null_Deref \<and> live p \<noteq> None \<and> last_behind_free pages10 p H)
     | Some (Inr (s, live)) \<Rightarrow> validate_heap 200000 s = Some (Inr ())
         \<and> (\<forall>k p s' q l. k + 40 \<le> HEAP_SIZE \<and> my_malloc pages10 200000 (of_nat k) s = Some (Inr (p, s')) \<and> live q = Some l \<longrightarrow> apart p k q l)"
  by (rule heap_session [OF pages10_ok]) (auto simp: HEAP_SIZE_def)

text \<open>Two blocks that fill a bucket, freed in the order in which they were given: the second \<open>my_free\<close> crashes.\<close>

theorem free_crashes:
  "client pages10 hash 200000 [Malloc 100, Malloc 4194124, Free 65576, Free 65716] (dheap_start cookie, Map.empty) = Some (Inl Null_Deref)"
proof -
  have rep0: "heap_rep pages10 (dheap_start cookie) []" using client_start [of pages10 cookie] by (simp add: client_inv_def)
  obtain s1 where s1: "my_malloc pages10 200000 (of_nat 100) (dheap_start cookie) = Some (Inr (65576, s1))"
    "heap_rep pages10 s1 [[(140, True), (4194164, False)]]"
    using malloc_refines [OF pages10_ok rep0, of 200000 100]
    by (auto simp: alloc_spec_def HEAP_SIZE_def MAX_BUCKETS_def grown_def no_fit_def Cons_eq_append_conv cut_block_def pages10_def)
  obtain s2 where s2: "my_malloc pages10 200000 (of_nat 4194124) s1 = Some (Inr (65716, s2))"
    "heap_rep pages10 s2 [[(140, True), (4194164, True)]]"
    using malloc_refines [OF pages10_ok s1(2), of 200000 4194124]
    by (auto simp: alloc_spec_def HEAP_SIZE_def MAX_BUCKETS_def grown_def no_fit_def Cons_eq_append_conv cut_block_def pages10_def)
  obtain s3 where s3: "my_free hash 200000 65576 s2 = Some (Inr s3)" "heap_rep pages10 s3 [[(140, False), (4194164, True)]]"
    using free_refines [OF pages10_ok s2(2), of 0 "[]" 140 "[(4194164, True)]" 200000 hash]
    by (auto simp: crashes_def freed_def join_back_def join_front_def pages10_def)
  have "my_free hash 200000 65716 s3 = Some (Inl Null_Deref)"
    using free_refines [OF pages10_ok s3(2), of 0 "[(140, False)]" 4194164 "[]" 200000 hash]
    by (auto simp: crashes_def pages10_def)
  then show ?thesis using s1(1) s2(1) s3(1) by simp
qed

end
