(* ===== verification/Insanity.thy ===== *)
theory Insanity
  imports Prelude
begin

unbundle bit_operations_syntax

text \<open>
  The service \<open>src/insanity/insanity.c\<close>: spoken programs for a stack machine. Decompression and speech recognition are
  libraries: what they answer, the text of every utterance, is the input of the model, as the bytes from the start of the
  text to the end of what is known of the memory there. The machine keeps its program and its data in one array of 1000
  words; a word with the highest bit is a pointer to a text. What lies where in memory (the array, the constant
  \<open>"insanity"\<close>, the text, the answers of \<open>malloc\<close>) is a parameter, \<open>places\<close>; reading or writing any other place is the
  outcome \<open>Wild\<close>.
\<close>

datatype ins_stop = Says "u8 list" | Wild | Bad_Free

record places =
  stack_at :: u64
  insanity_at :: u64
  hyp_at :: u64
  malloc_at :: "nat \<Rightarrow> u64"

record ins =
  cells :: "u64 list"
  StackPos :: int
  IP :: int
  bytes_at :: "u64 \<rightharpoonup> u8"
  blocks :: "u64 \<rightharpoonup> nat"
  mallocs :: nat

definition stack_cells :: int where "stack_cells = 1000"

definition string_bit :: u64 where "string_bit = 0x8000000000000000"

definition is_string :: "u64 \<Rightarrow> bool" where "is_string w \<longleftrightarrow> w AND string_bit \<noteq> 0"

definition pointer :: "u64 \<Rightarrow> u64" where "pointer w = w AND 0x7fffffffffffffff"

subsection \<open>Samples\<close>

text \<open>
  The assembler loop that makes 16-bit samples of bytes: registers are lists of 16 bytes. The buffers have \<open>0x10000\<close>
  entries; every turn reads 32 bytes and writes 32 samples.
\<close>

definition punpcklbw :: "u8 list \<Rightarrow> u8 list \<Rightarrow> u8 list" where
  "punpcklbw src dst = concat (map2 (\<lambda>d s. [d, s]) (take 8 dst) (take 8 src))"

definition punpckhbw :: "u8 list \<Rightarrow> u8 list \<Rightarrow> u8 list" where
  "punpckhbw src dst = concat (map2 (\<lambda>d s. [d, s]) (drop 8 dst) (drop 8 src))"

definition pxor :: "u8 list \<Rightarrow> u8 list \<Rightarrow> u8 list" where
  "pxor src dst = map2 (XOR) dst src"

definition XorVal :: "u8 list" where "XorVal = concat (replicate 8 [0, 0x80])"

text \<open>One turn: 32 bytes from \<open>rsi\<close>, 64 bytes to \<open>rdi\<close>.\<close>

definition convert_turn :: "u8 list \<Rightarrow> u8 list" where
  "convert_turn data =
     (let xmm1 = XorVal; xmm2 = take 16 data; xmm3 = take 16 (drop 16 data); zero = replicate 16 0
      in pxor xmm1 (punpcklbw xmm2 zero) @ pxor xmm1 (punpckhbw xmm2 zero) @ pxor xmm1 (punpcklbw xmm3 zero)
        @ pxor xmm1 (punpckhbw xmm3 zero))"

text \<open>\<open>buf8\<close> and the bytes of \<open>buf\<close>; \<open>rcx\<close> turns, the pointers at block \<open>i\<close>.\<close>

fun convert_loop :: "nat \<Rightarrow> nat \<Rightarrow> u8 list \<Rightarrow> u8 list \<Rightarrow> ins_stop + u8 list" where
  "convert_loop 0 i buf8 buf = Inr buf"
| "convert_loop (Suc rcx) i buf8 buf =
     (if length buf8 < 32 * i + 32 \<or> length buf < 64 * i + 64 then Inl Wild
      else convert_loop rcx (i + 1) buf8 (take (64 * i) buf @ convert_turn (take 32 (drop (32 * i) buf8)) @ drop (64 * i + 64) buf))"

definition convert_samples :: "nat \<Rightarrow> u8 list \<Rightarrow> u8 list \<Rightarrow> ins_stop + u8 list" where
  "convert_samples nsamp buf8 buf = convert_loop (nsamp div 32 + 1) 0 buf8 buf"

subsection \<open>The program from the text\<close>

definition word_insanity :: "u8 list" where "word_insanity = [105, 110, 115, 97, 110, 105, 116, 121, 32]"
definition word_insane :: "u8 list" where "word_insane = [105, 110, 115, 97, 110, 101, 0]"

fun memcmp_eq :: "u8 list \<Rightarrow> u8 list \<Rightarrow> ins_stop + bool" where
  "memcmp_eq m [] = Inr True"
| "memcmp_eq [] (c # w) = Inl Wild"
| "memcmp_eq (d # m) (c # w) = (if d = c then memcmp_eq m w else Inr False)"

text \<open>The loop over one text: \<open>m\<close> is the memory from \<open>hyp[CurPos]\<close> on.\<close>

function parse_hyp :: "u8 list \<Rightarrow> u64 \<Rightarrow> int \<Rightarrow> u64 list \<Rightarrow> ins_stop + (int \<times> u64 list)" where
  "parse_hyp m Opcode sp st =
     (case m of [] \<Rightarrow> Inl Wild
      | c # _ \<Rightarrow>
          if c = 0 \<or> sp - 2 > stack_cells then Inr (sp, st)
          else andThen (memcmp_eq m word_insanity) (\<lambda>eq.
            if eq then parse_hyp (drop 9 m) (Opcode + 1) sp st
            else andThen (memcmp_eq m word_insane) (\<lambda>eq.
              if eq then (if sp < 0 \<or> stack_cells \<le> sp then Inl Wild
                          else parse_hyp (drop 7 m) 0 (sp + 1) (st[nat sp := Opcode]))
              else Inr (sp, st))))"
  by pat_completeness auto
termination by (relation "measure (\<lambda>(m, _). length m)") auto

declare parse_hyp.simps [simp del]

fun parse_hyps :: "u8 list list \<Rightarrow> int \<Rightarrow> u64 list \<Rightarrow> ins_stop + (int \<times> u64 list)" where
  "parse_hyps [] sp st = Inr (sp, st)"
| "parse_hyps (hyp # hyps) sp st = andThen (parse_hyp hyp 0 sp st) (\<lambda>(sp, st). parse_hyps hyps sp st)"


subsection \<open>Memory\<close>

definition cell :: "int \<Rightarrow> ins \<Rightarrow> ins_stop + u64" where
  "cell i s = (if 0 \<le> i \<and> i < stack_cells then Inr (cells s ! nat i) else Inl Wild)"

definition set_cell :: "int \<Rightarrow> u64 \<Rightarrow> ins \<Rightarrow> ins_stop + ins" where
  "set_cell i w s = (if 0 \<le> i \<and> i < stack_cells then Inr (s\<lparr>cells := (cells s)[nat i := w]\<rparr>) else Inl Wild)"

text \<open>The byte at an address: of the array, or of the texts.\<close>

definition peek :: "places \<Rightarrow> ins \<Rightarrow> u64 \<Rightarrow> u8 option" where
  "peek p s a = (let off = unat (a - stack_at p)
     in if off < 8000 then Some (ucast (drop_bit (8 * (off mod 8)) (cells s ! (off div 8)))) else bytes_at s a)"

definition load64 :: "places \<Rightarrow> ins \<Rightarrow> u64 \<Rightarrow> ins_stop + u64" where
  "load64 p s a = (if list_all (\<lambda>i. peek p s (a + of_nat i) \<noteq> None) [0..<8]
     then Inr (foldr (\<lambda>i w. push_bit 8 w OR ucast (the (peek p s (a + of_nat i)))) [0..<8] 0) else Inl Wild)"

text \<open>An element of the array by an index of 64 bits: the address wraps around.\<close>

definition index :: "u64 \<Rightarrow> int" where "index w = uint (take_bit 61 w)"

text \<open>The text at an address, up to its zero.\<close>

fun c_string_loop :: "nat \<Rightarrow> places \<Rightarrow> ins \<Rightarrow> u64 \<Rightarrow> ins_stop + u8 list" where
  "c_string_loop 0 p s a = Inl Wild"
| "c_string_loop (Suc n) p s a = (case peek p s a of None \<Rightarrow> Inl Wild
     | Some c \<Rightarrow> if c = 0 then Inr [] else andThen (c_string_loop n p s (a + 1)) (\<lambda>w. Inr (c # w)))"

definition c_string :: "places \<Rightarrow> ins \<Rightarrow> u64 \<Rightarrow> ins_stop + u8 list" where
  "c_string p s a = c_string_loop (2 ^ 64) p s a"

fun put_bytes :: "u64 \<Rightarrow> u8 list \<Rightarrow> (u64 \<rightharpoonup> u8) \<Rightarrow> (u64 \<rightharpoonup> u8)" where
  "put_bytes a [] m = m"
| "put_bytes a (c # w) m = put_bytes (a + 1) w (m(a \<mapsto> c))"

fun drop_bytes :: "u64 \<Rightarrow> nat \<Rightarrow> (u64 \<rightharpoonup> u8) \<Rightarrow> (u64 \<rightharpoonup> u8)" where
  "drop_bytes a 0 m = m"
| "drop_bytes a (Suc n) m = drop_bytes (a + 1) n (m(a := None))"

text \<open>\<open>malloc\<close> of the size of a text with its zero, and the text in it.\<close>

definition new_text :: "places \<Rightarrow> u8 list \<Rightarrow> ins \<Rightarrow> ins_stop + (u64 \<times> ins)" where
  "new_text p w s = (let a = malloc_at p (mallocs s)
     in if a = 0 then Inl Wild
        else Inr (a, s\<lparr>bytes_at := put_bytes a w (bytes_at s), blocks := (blocks s)(a \<mapsto> length w), mallocs := mallocs s + 1\<rparr>))"

definition free_text :: "u64 \<Rightarrow> ins \<Rightarrow> ins_stop + ins" where
  "free_text a s = (if a = 0 then Inr s
     else case blocks s a of None \<Rightarrow> Inl Bad_Free
       | Some n \<Rightarrow> Inr (s\<lparr>bytes_at := drop_bytes a n (bytes_at s), blocks := (blocks s)(a := None)\<rparr>))"

subsection \<open>The machine\<close>

definition pop :: "ins \<Rightarrow> ins_stop + (u64 \<times> ins)" where
  "pop s = andThen (cell (StackPos s) s) (\<lambda>w. Inr (w, s\<lparr>StackPos := StackPos s - 1\<rparr>))"

definition push :: "u64 \<Rightarrow> ins \<Rightarrow> ins_stop + ins" where
  "push w s = set_cell (StackPos s + 1) w (s\<lparr>StackPos := StackPos s + 1\<rparr>)"

definition pop2 :: "(u64 \<Rightarrow> u64 \<Rightarrow> ins \<Rightarrow> ins_stop + ins) \<Rightarrow> ins \<Rightarrow> ins_stop + ins" where
  "pop2 f s = andThen (pop s) (\<lambda>(Entry1, s). andThen (pop s) (\<lambda>(Entry2, s). f Entry1 Entry2 s))"

definition numbers_only :: "string \<Rightarrow> u64 \<Rightarrow> u64 \<Rightarrow> ins_stop + ins \<Rightarrow> ins_stop + ins" where
  "numbers_only msg Entry1 Entry2 f =
     (if is_string Entry1 \<or> is_string Entry2 then Inl (Says (ascii msg @ [10, 10])) else f)"

text \<open>The limit is tested before a push only.\<close>

definition with_room :: "ins \<Rightarrow> ins_stop + ins \<Rightarrow> ins_stop + ins" where
  "with_room s f = (if StackPos s + 1 = stack_cells then Inl (Says (ascii ''Internal limitation'' @ [10, 10])) else f)"

definition op_add :: "places \<Rightarrow> ins \<Rightarrow> ins_stop + ins" where
  "op_add p = pop2 (\<lambda>Entry1 Entry2 s.
     if is_string (Entry1 AND Entry2)
     then let a1 = pointer Entry1; a2 = pointer Entry2
          in andThen (c_string p s a1) (\<lambda>w1. andThen (c_string p s a2) (\<lambda>w2.
             andThen (new_text p (w1 @ w2 @ [0]) s) (\<lambda>(a, s).
                andThen (push a s) (\<lambda>s.
                andThen (if a1 \<noteq> insanity_at p then free_text a1 s else Inr s) (\<lambda>s.
                if a2 \<noteq> insanity_at p then free_text a2 s else Inr s)))))
     else numbers_only ''Invalid add'' Entry1 Entry2 (push (Entry1 + Entry2) s))"

definition op_sub :: "ins \<Rightarrow> ins_stop + ins" where
  "op_sub = pop2 (\<lambda>Entry1 Entry2 s. numbers_only ''Invalid subtract'' Entry1 Entry2 (push (Entry2 - Entry1) s))"

definition op_mul :: "ins \<Rightarrow> ins_stop + ins" where
  "op_mul = pop2 (\<lambda>Entry1 Entry2 s. numbers_only ''Invalid multiply'' Entry1 Entry2 (push (Entry1 * Entry2) s))"

text \<open>Two texts that are compared leave the answer in the cell below the two, and not behind it.\<close>

definition op_compare :: "places \<Rightarrow> ins \<Rightarrow> ins_stop + ins" where
  "op_compare p = pop2 (\<lambda>Entry1 Entry2 s.
     if is_string (Entry1 AND Entry2)
     then andThen (c_string p s (pointer Entry1)) (\<lambda>w1. andThen (c_string p s (pointer Entry2)) (\<lambda>w2.
          andThen (set_cell (StackPos s) (if w1 = w2 then 1 else 0) s) (\<lambda>s. Inr (s\<lparr>StackPos := StackPos s + 1\<rparr>))))
     else numbers_only ''Invalid compare'' Entry1 Entry2 (push (if Entry1 = Entry2 then 1 else 0) s))"

definition invalid_load :: "ins_stop + ins" where
  "invalid_load = Inl (Says (ascii ''Invalid load'' @ [10, 10]))"

definition op_load :: "places \<Rightarrow> ins \<Rightarrow> ins_stop + ins" where
  "op_load p s = (let s = s\<lparr>IP := IP s + 1\<rparr> in
     andThen (cell (IP s) s) (\<lambda>Entry1.
     if Entry1 \<noteq> 0 \<and> Entry1 \<noteq> 1 then invalid_load
     else andThen (cell (uint Entry1) s) (\<lambda>LoadEntry.
       if \<not> is_string LoadEntry then invalid_load
       else andThen (pop s) (\<lambda>(Entry2, s).
         andThen (load64 p s (pointer LoadEntry + 8 * Entry2)) (\<lambda>w. push w s)))))"

definition op_store :: "ins \<Rightarrow> ins_stop + ins" where
  "op_store = pop2 (\<lambda>Entry1 Entry2 s.
     if is_string Entry1 then Inl (Says (ascii ''Invalid store'' @ [10, 10])) else set_cell (index Entry1) Entry2 s)"

text \<open>\<open>IP\<close> is an \<open>int\<close>: the sum of 64 bits is cut.\<close>

definition op_jump :: "ins \<Rightarrow> ins_stop + ins" where
  "op_jump = pop2 (\<lambda>Entry1 Entry2 s. numbers_only ''Invalid jump'' Entry1 Entry2
     (Inr (if Entry2 \<noteq> 0 then s\<lparr>IP := sint (ucast (of_int (IP s) + (Entry1 - 1)) :: u32)\<rparr> else s)))"

text \<open>The code of the character is the cell below the top.\<close>

definition op_char :: "places \<Rightarrow> ins \<Rightarrow> ins_stop + ins" where
  "op_char p s = with_room s (let s = s\<lparr>StackPos := StackPos s - 1\<rparr> in
     andThen (cell (StackPos s) s) (\<lambda>w.
     andThen (new_text p [ucast (w AND 0xff), 0] s) (\<lambda>(a, s). push (a OR string_bit) s)))"

definition ins_step :: "places \<Rightarrow> u64 \<Rightarrow> ins \<Rightarrow> ins_stop + ins" where
  "ins_step p op s =
     andThen (if op = 1 then with_room s (push (insanity_at p OR string_bit) s)
       else if op = 2 then op_add p s
       else if op = 3 then op_sub s
       else if op = 4 then op_mul s
       else if op = 5 then op_compare p s
       else if op = 6 then op_load p s
       else if op = 7 then op_store s
       else if op = 8 then op_jump s
       else if op = 9 then op_char p s
       else with_room s (push (op - 10) s))
     (\<lambda>s. Inr (s\<lparr>IP := IP s + 1\<rparr>))"

text \<open>One turn of \<open>while (Stack[IP])\<close>.\<close>

definition ins_turn :: "places \<Rightarrow> ins \<Rightarrow> ins_stop + (ins + ins)" where
  "ins_turn p s = andThen (cell (IP s) s) (\<lambda>op.
     if op = 0 then Inr (Inr s) else andThen (ins_step p op s) (\<lambda>s. Inr (Inl s)))"

text \<open>\<open>%lx\<close>\<close>

fun hex_text :: "nat \<Rightarrow> u8 list" where
  "hex_text n = (let d = of_nat (n mod 16); c = (if d < 10 then d + 48 else d + 87)
     in if n < 16 then [c] else hex_text (n div 16) @ [c])"

declare hex_text.simps [simp del]

definition print_result :: "places \<Rightarrow> ins \<Rightarrow> ins_stop + u8 list" where
  "print_result p s = andThen (cell (StackPos s) s) (\<lambda>w.
     if is_string w then andThen (c_string p s (pointer w)) (\<lambda>t. Inr (ascii ''result: '' @ t @ [10]))
     else Inr (ascii ''result: '' @ hex_text (unat w) @ [10]))"

text \<open>
  \<open>main\<close> from the texts on: \<open>got\<close> is what the last \<open>read\<close> returned, which is the offset of the text that the program can
  load from; \<open>hyp\<close> is the memory at the last text.
\<close>

definition ins_start :: "places \<Rightarrow> u8 list \<Rightarrow> nat \<Rightarrow> int \<Rightarrow> u64 list \<Rightarrow> ins" where
  "ins_start p hyp got sp st =
     \<lparr>cells = st[1 := (hyp_at p + of_nat got) OR string_bit], StackPos = sp, IP = 2,
      bytes_at = put_bytes (insanity_at p) [105, 110, 115, 97, 110, 105, 116, 121, 0] (put_bytes (hyp_at p) hyp Map.empty),
      blocks = Map.empty, mallocs = 0\<rparr>"

definition ins_main :: "places \<Rightarrow> nat \<Rightarrow> u8 list list \<Rightarrow> nat \<Rightarrow> (ins_stop + u8 list) option" where
  "ins_main p n hyps got =
     (case parse_hyps hyps 2 ((replicate 1000 0)[0 := stack_at p OR string_bit]) of
        Inl e \<Rightarrow> Some (Inl e)
      | Inr (sp, st) \<Rightarrow>
          if stack_cells \<le> sp then Some (Inl Wild)
          else case loop_fuel (ins_turn p) n (ins_start p (if hyps = [] then [] else last hyps) got sp (st[nat sp := 0])) of
              None \<Rightarrow> None
            | Some (Inl e) \<Rightarrow> Some (Inl e)
            | Some (Inr s) \<Rightarrow> Some (print_result p s))"

end
