(* ===== verification/Insanity_Props.thy ===== *)
theory Insanity_Props
  imports Insanity
begin

text \<open>
  The assembler loop agrees with the loop it replaces, up to the size where it leaves the buffer; programs are spoken one
  instruction in an utterance; the machine computes the value of every expression; and what its operations on texts do.
\<close>

subsection \<open>Samples\<close>

text \<open>\<open>buf[i] = (((short)buf8[i]) << 8) ^ 0x8000\<close>, as the two bytes of a sample.\<close>

definition sample :: "u8 \<Rightarrow> u8 list" where
  "sample c = (let w = push_bit 8 (ucast c :: u16) XOR 0x8000 in [ucast w, ucast (drop_bit 8 w)])"

lemma sample_bytes: "sample c = [0, c XOR 0x80]"
proof -
  have "(ucast (push_bit 8 (ucast c :: u16) XOR 0x8000) :: u8) = 0"
  proof (rule bit_word_eqI)
    fix n
    assume n: "n < LENGTH(8)"
    have "\<not> bit (push_bit 8 (ucast c :: u16)) n" using n by (simp only: bit_push_bit_iff) simp
    moreover have "\<not> bit (0x8000 :: u16) n" using n by (auto simp: numeral_eq_Suc less_Suc_eq)
    ultimately show "bit (ucast (push_bit 8 (ucast c :: u16) XOR 0x8000) :: u8) n = bit (0 :: u8) n"
      by (simp only: bit_unsigned_iff bit_xor_iff) simp
  qed
  moreover have "(ucast (drop_bit 8 (push_bit 8 (ucast c :: u16) XOR 0x8000)) :: u8) = c XOR 0x80"
  proof (rule bit_word_eqI)
    fix n
    assume n: "n < LENGTH(8)"
    have "bit (push_bit 8 (ucast c :: u16)) (8 + n) = bit c n"
      using n by (simp only: bit_push_bit_iff bit_unsigned_iff) simp
    moreover have "bit (0x8000 :: u16) (8 + n) = bit (0x80 :: u8) n" using n by (auto simp: numeral_eq_Suc less_Suc_eq)
    ultimately show "bit (ucast (drop_bit 8 (push_bit 8 (ucast c :: u16) XOR 0x8000)) :: u8) n = bit (c XOR 0x80) n"
      using n by (simp only: bit_unsigned_iff bit_drop_bit_eq bit_xor_iff comp_def) simp
  qed
  ultimately show ?thesis by (simp add: sample_def)
qed

lemma list32:
  assumes "length (d :: 'a list) = 32"
  obtains xs ys where "d = xs @ ys" "length xs = 16" "length ys = 16"
  using assms that [of "take 16 d" "drop 16 d"] by simp

lemma unpack_half:
  assumes "length (xs :: u8 list) = 16"
  shows "pxor XorVal (punpcklbw xs (replicate 16 0)) @ pxor XorVal (punpckhbw xs (replicate 16 0)) = concat (map sample xs)"
proof -
  obtain x0 x1 x2 x3 x4 x5 x6 x7 x8 x9 x10 x11 x12 x13 x14 x15 where
    "xs = [x0, x1, x2, x3, x4, x5, x6, x7, x8, x9, x10, x11, x12, x13, x14, x15]"
    using assms by (auto simp: numeral_eq_Suc length_Suc_conv)
  then show ?thesis
    by (simp add: pxor_def XorVal_def punpcklbw_def punpckhbw_def sample_bytes numeral_eq_Suc xor.commute)
qed

lemma convert_turn_samples: "length d = 32 \<Longrightarrow> convert_turn d = concat (map sample d)"
proof -
  assume "length d = 32"
  then obtain xs ys where d: "d = xs @ ys" "length xs = 16" "length ys = 16" by (rule list32)
  then show ?thesis using unpack_half [of xs] unpack_half [of ys]
    by (simp add: convert_turn_def Let_def append_assoc [symmetric] del: append_assoc) (metis append_assoc)
qed

lemma length_samples [simp]: "length (concat (map sample xs)) = 2 * length xs"
  by (induction xs) (auto simp: sample_bytes)

lemma convert_loop_samples:
  "32 * (i + n) \<le> length buf8 \<Longrightarrow> 64 * (i + n) \<le> length buf \<Longrightarrow>
   convert_loop n i buf8 buf = Inr (take (64 * i) buf @ concat (map sample (take (32 * n) (drop (32 * i) buf8))) @ drop (64 * (i + n)) buf)"
proof (induction n arbitrary: i buf)
  case (Suc n)
  let ?b = "take (64 * i) buf @ convert_turn (take 32 (drop (32 * i) buf8)) @ drop (64 * i + 64) buf"
  let ?d = "concat (map sample (take 32 (drop (32 * i) buf8)))"
  have t: "convert_turn (take 32 (drop (32 * i) buf8)) = ?d"
    by (rule convert_turn_samples) (use Suc.prems in simp)
  have l: "length ?d = 64" "length ?b = length buf" using Suc.prems t by auto
  have s: "take (32 * Suc n) (drop (32 * i) buf8) = take 32 (drop (32 * i) buf8) @ take (32 * n) (drop (32 * (i + 1)) buf8)"
    using take_add [of 32 "32 * n" "drop (32 * i) buf8"] by (simp add: algebra_simps)
  have "convert_loop (Suc n) i buf8 buf = convert_loop n (i + 1) buf8 ?b" using Suc.prems by simp
  also have "\<dots> = Inr (take (64 * (i + 1)) ?b @ concat (map sample (take (32 * n) (drop (32 * (i + 1)) buf8))) @ drop (64 * (i + 1 + n)) ?b)"
    by (rule Suc.IH) (use Suc.prems l in auto)
  also have "take (64 * (i + 1)) ?b = take (64 * i) buf @ ?d"
    using l Suc.prems t by (simp add: algebra_simps)
  also have "drop (64 * (i + 1 + n)) ?b = drop (64 * (i + Suc n)) buf"
    using l Suc.prems t by (simp add: algebra_simps)
  finally show ?case unfolding s by simp
qed simp

lemma convert_loop_overrun:
  "length buf = 64 * (i + n) \<Longrightarrow> convert_loop (Suc n) i buf8 buf = Inl Wild"
proof (induction n arbitrary: i buf)
  case (Suc n)
  show ?case
  proof (cases "length buf8 < 32 * i + 32")
    case False
    let ?b = "take (64 * i) buf @ convert_turn (take 32 (drop (32 * i) buf8)) @ drop (64 * i + 64) buf"
    have "length (convert_turn (take 32 (drop (32 * i) buf8))) = 64" using False by (subst convert_turn_samples) auto
    then have "length ?b = 64 * (i + 1 + n)" using Suc.prems by simp
    from Suc.IH [OF this] show ?thesis using Suc.prems by (subst convert_loop.simps) simp
  qed simp
qed simp

text \<open>C22. The assembler loop does what the loop in the comment does to the samples, and with them up to 31 more; a full buffer
  of 65536 bytes is overrun.
\<close>

theorem convert_samples_loop:
  assumes "length buf8 = 0x10000" "length buf = 2 * 0x10000" "nsamp \<le> 0x10000"
  shows "convert_samples nsamp buf8 buf = (if nsamp = 0x10000 then Inl Wild
     else let m = 32 * (nsamp div 32 + 1) in Inr (concat (map sample (take m buf8)) @ drop (2 * m) buf))"
proof (cases "nsamp = 0x10000")
  case True
  then show ?thesis using convert_loop_overrun [of buf 0 2048 buf8] assms by (simp add: convert_samples_def)
next
  case False
  then have "nsamp div 32 + 1 \<le> 2048" using assms(3) by simp
  then show ?thesis using convert_loop_samples [of 0 "nsamp div 32 + 1" buf8 buf] assms False
    by (simp add: convert_samples_def Let_def)
qed

text \<open>All 65535 bytes of a buffer and of a small one.\<close>

theorem convert_samples_loop_witness:
  "convert_samples 3 (replicate 0x10000 1) (replicate (2 * 0x10000) 0) =
     Inr (concat (map sample (take 32 (replicate 0x10000 1))) @ drop 64 (replicate (2 * 0x10000) 0))"
proof -
  have "length (replicate 0x10000 (1 :: u8)) = 0x10000" "length (replicate (2 * 0x10000) (0 :: u8)) = 2 * 0x10000" by (rule length_replicate)+
  from convert_samples_loop [OF this, of 3] show ?thesis by (simp only: Let_def) simp
qed

subsection \<open>Spoken programs\<close>

text \<open>An utterance: \<open>n\<close> times "insanity", then "insane", and zero bytes in the memory behind it.\<close>

definition utter :: "nat \<Rightarrow> u8 list" where
  "utter n = concat (replicate n word_insanity) @ word_insane @ [0]"

lemma memcmp_same: "memcmp_eq (w @ m) w = Inr True"
  by (induction w) auto

lemma parse_insanity:
  "sp - 2 \<le> stack_cells \<Longrightarrow> parse_hyp (word_insanity @ m) Opcode sp st = parse_hyp m (Opcode + 1) sp st"
  using memcmp_same [of word_insanity m]
  by (subst parse_hyp.simps) (simp add: word_insanity_def)

lemma parse_insane:
  assumes "0 \<le> sp" "sp < stack_cells"
  shows "parse_hyp (word_insane @ [0]) Opcode sp st = Inr (sp + 1, st[nat sp := Opcode])"
proof -
  have "parse_hyp [0] 0 (sp + 1) st' = Inr (sp + 1, st')" for st' by (subst parse_hyp.simps) simp
  moreover have "memcmp_eq (word_insane @ [0]) word_insanity = Inr False" by (simp add: word_insane_def word_insanity_def)
  ultimately show ?thesis using memcmp_same [of word_insane "[0]"] assms
    by (subst parse_hyp.simps) (simp add: word_insane_def stack_cells_def)
qed

lemma parse_utter:
  assumes "0 \<le> sp" "sp < stack_cells"
  shows "parse_hyp (utter n) c sp st = Inr (sp + 1, st[nat sp := c + of_nat n])"
proof (induction n arbitrary: c)
  case 0
  then show ?case using parse_insane [OF assms] by (simp add: utter_def)
next
  case (Suc n)
  have "parse_hyp (utter (Suc n)) c sp st = parse_hyp (utter n) (c + 1) sp st"
    using parse_insanity [of sp "concat (replicate n word_insanity) @ word_insane @ [0]"] assms by (simp add: utter_def)
  then show ?case using Suc.IH [of "c + 1"] by (simp add: add.assoc)
qed

lemma parse_program:
  "0 \<le> sp \<Longrightarrow> sp + int (length prog) \<le> stack_cells \<Longrightarrow> length st = nat stack_cells \<Longrightarrow>
   parse_hyps (map utter prog) sp st =
     Inr (sp + int (length prog), take (nat sp) st @ map of_nat prog @ drop (nat sp + length prog) st)"
proof (induction prog arbitrary: sp st)
  case (Cons n prog)
  have l: "nat (sp + 1) = Suc (nat sp)" "nat sp < length st" using Cons.prems by (auto simp: stack_cells_def)
  have "parse_hyps (map utter (n # prog)) sp st = parse_hyps (map utter prog) (sp + 1) (st[nat sp := of_nat n])"
    using parse_utter [of sp n 0 st] Cons.prems by simp
  then show ?case using Cons.IH [of "sp + 1" "st[nat sp := of_nat n]"] Cons.prems l
    by (simp add: take_Suc_conv_app_nth drop_update_cancel)
qed simp

text \<open>The machine with a program in its array.\<close>

definition program_cells :: "places \<Rightarrow> nat \<Rightarrow> nat list \<Rightarrow> u64 list" where
  "program_cells p got prog = [stack_at p OR string_bit, (hyp_at p + of_nat got) OR string_bit] @ map of_nat prog @ replicate (998 - length prog) 0"

definition loaded :: "places \<Rightarrow> u8 list \<Rightarrow> nat \<Rightarrow> nat list \<Rightarrow> ins" where
  "loaded p hyp got prog = ins_start p hyp got (2 + int (length prog)) (program_cells p got prog)"

lemma ins_main_program:
  assumes "length prog < 998" "prog \<noteq> []"
  shows "ins_main p n (map utter prog) got =
     (case loop_fuel (ins_turn p) n (loaded p (utter (last prog)) got prog) of
         None \<Rightarrow> None | Some (Inl e) \<Rightarrow> Some (Inl e) | Some (Inr s) \<Rightarrow> Some (print_result p s))"
proof -
  define K where "K = (1000 :: nat)"
  let ?st = "(replicate K 0)[0 := stack_at p OR string_bit] :: u64 list"
  let ?st' = "take 2 ?st @ map of_nat prog @ drop (2 + length prog) ?st"
  obtain J where J: "K = Suc (Suc J)" "J = 998" by (simp add: K_def)
  have t: "take 2 ?st = [stack_at p OR string_bit, 0]" "drop (2 + length prog) ?st = replicate (J - length prog) 0"
    by (simp_all add: J(1) numeral_2_eq_2)
  have "parse_hyps (map utter prog) 2 ?st = Inr (2 + int (length prog), ?st')"
    using parse_program [of 2 prog ?st] assms(1) by (simp add: stack_cells_def K_def)
  moreover have "?st'[nat (2 + int (length prog)) := 0] = ?st'"
    unfolding t using assms(1) J(2) by (simp add: nat_add_distrib list_update_append) (cases "J - length prog"; simp)
  moreover have "?st'[1 := (hyp_at p + of_nat got) OR string_bit] = program_cells p got prog"
    unfolding t program_cells_def J(2) by simp
  moreover have "2 + int (length prog) < stack_cells" using assms(1) by (simp add: stack_cells_def)
  moreover have "(program_cells p got prog)[1 := (hyp_at p + of_nat got) OR string_bit] = program_cells p got prog"
    by (simp add: program_cells_def)
  ultimately show ?thesis using assms(2)
    unfolding ins_main_def K_def [symmetric] loaded_def ins_start_def by (simp add: last_map)
qed

subsection \<open>Expressions\<close>

datatype ins_exp = Num nat | Plus ins_exp ins_exp | Minus ins_exp ins_exp | Times ins_exp ins_exp | Same ins_exp ins_exp

fun compile_exp :: "ins_exp \<Rightarrow> nat list" where
  "compile_exp (Num n) = [n + 10]"
| "compile_exp (Plus a b) = compile_exp a @ compile_exp b @ [2]"
| "compile_exp (Minus a b) = compile_exp a @ compile_exp b @ [3]"
| "compile_exp (Times a b) = compile_exp a @ compile_exp b @ [4]"
| "compile_exp (Same a b) = compile_exp a @ compile_exp b @ [5]"

text \<open>The value: none where an intermediate result has the highest bit, and would be taken for a text.\<close>

definition number :: "u64 \<Rightarrow> u64 option" where
  "number w = (if is_string w then None else Some w)"

fun on_numbers :: "(u64 \<Rightarrow> u64 \<Rightarrow> u64) \<Rightarrow> u64 option \<Rightarrow> u64 option \<Rightarrow> u64 option" where
  "on_numbers f (Some x) (Some y) = number (f x y)"
| "on_numbers f _ _ = None"

fun exp_value :: "ins_exp \<Rightarrow> u64 option" where
  "exp_value (Num n) = number (of_nat n)"
| "exp_value (Plus a b) = on_numbers (+) (exp_value a) (exp_value b)"
| "exp_value (Minus a b) = on_numbers (-) (exp_value a) (exp_value b)"
| "exp_value (Times a b) = on_numbers (*) (exp_value a) (exp_value b)"
| "exp_value (Same a b) = on_numbers (\<lambda>x y. if x = y then 1 else 0) (exp_value a) (exp_value b)"

text \<open>The cells that an expression needs above the program, and that its numbers fit in an instruction.\<close>

fun exp_depth :: "ins_exp \<Rightarrow> nat" where
  "exp_depth (Num n) = 1"
| "exp_depth (Plus a b) = max (exp_depth a) (1 + exp_depth b)"
| "exp_depth (Minus a b) = max (exp_depth a) (1 + exp_depth b)"
| "exp_depth (Times a b) = max (exp_depth a) (1 + exp_depth b)"
| "exp_depth (Same a b) = max (exp_depth a) (1 + exp_depth b)"

fun exp_small :: "ins_exp \<Rightarrow> bool" where
  "exp_small (Num n) \<longleftrightarrow> n < 2 ^ 31 - 10"
| "exp_small (Plus a b) \<longleftrightarrow> exp_small a \<and> exp_small b"
| "exp_small (Minus a b) \<longleftrightarrow> exp_small a \<and> exp_small b"
| "exp_small (Times a b) \<longleftrightarrow> exp_small a \<and> exp_small b"
| "exp_small (Same a b) \<longleftrightarrow> exp_small a \<and> exp_small b"

text \<open>The state holds the code from \<open>IP\<close> on, all below the stack.\<close>

definition code_at :: "ins \<Rightarrow> nat list \<Rightarrow> bool" where
  "code_at s code \<longleftrightarrow> 0 \<le> IP s \<and> length (cells s) = 1000
     \<and> (\<forall>i<length code. IP s + int i < StackPos s \<and> cells s ! (nat (IP s) + i) = of_nat (code ! i))"

text \<open>A state after the code: the stack has one more cell, and everything below is as it was.\<close>

definition pushed :: "ins \<Rightarrow> ins \<Rightarrow> nat \<Rightarrow> u64 \<Rightarrow> bool" where
  "pushed s s' k w \<longleftrightarrow> IP s' = IP s + int k \<and> StackPos s' = StackPos s + 1 \<and> length (cells s') = 1000
     \<and> cells s' ! nat (StackPos s + 1) = w \<and> (\<forall>i \<le> nat (StackPos s). cells s' ! i = cells s ! i)"

lemma code_step:
  assumes "code_at s (c # code)" "StackPos s < 1000" "0 < c" "c < 2 ^ 64"
  shows "ins_turn p s = andThen (ins_step p (of_nat c) s) (\<lambda>s. Inr (Inl s))"
proof -
  have "(of_nat c :: u64) \<noteq> 0"
  proof
    assume "(of_nat c :: u64) = 0"
    then have "unat (of_nat c :: u64) = 0" by simp
    then show False using assms(3,4) by (simp add: unat_of_nat take_bit_nat_eq_self)
  qed
  moreover have "cell (IP s) s = Inr (of_nat c)"
  proof -
    have "0 \<le> IP s" "IP s < StackPos s" "cells s ! nat (IP s) = of_nat c"
      using assms(1) spec [of "\<lambda>i. i < length (c # code) \<longrightarrow> IP s + int i < StackPos s \<and> cells s ! (nat (IP s) + i) = of_nat ((c # code) ! i)" 0]
      by (auto simp: code_at_def)
    then show ?thesis using assms(2) by (simp add: cell_def stack_cells_def)
  qed
  ultimately show ?thesis by (simp add: ins_turn_def)
qed

lemma and_zero_left: "(x :: u64) AND b = 0 \<Longrightarrow> (y AND x) AND b = 0"
  by (simp add: and.assoc)

lemma ins_step_ops:
  "ins_step p 2 s = andThen (op_add p s) (\<lambda>s. Inr (s\<lparr>IP := IP s + 1\<rparr>))"
  "ins_step p 3 s = andThen (op_sub s) (\<lambda>s. Inr (s\<lparr>IP := IP s + 1\<rparr>))"
  "ins_step p 4 s = andThen (op_mul s) (\<lambda>s. Inr (s\<lparr>IP := IP s + 1\<rparr>))"
  "ins_step p 5 s = andThen (op_compare p s) (\<lambda>s. Inr (s\<lparr>IP := IP s + 1\<rparr>))"
  by (simp_all add: ins_step_def)

lemma pop2_cells:
  assumes "0 < StackPos s" "StackPos s < 1000"
  shows "pop2 f s = f (cells s ! nat (StackPos s)) (cells s ! nat (StackPos s - 1)) (s\<lparr>StackPos := StackPos s - 2\<rparr>)"
  using assms by (simp add: pop2_def pop_def cell_def stack_cells_def)

lemma bin_step:
  assumes p: "0 < StackPos s" "StackPos s < 1000" and len: "length (cells s) = 1000"
    and xy: "cells s ! nat (StackPos s - 1) = x" "cells s ! nat (StackPos s) = y" and n: "\<not> is_string x" "\<not> is_string y"
  defines "s' \<equiv> \<lambda>w. Inr (s\<lparr>cells := (cells s)[nat (StackPos s - 1) := w], StackPos := StackPos s - 1, IP := IP s + 1\<rparr>)"
  shows "ins_step p 2 s = s' (x + y)" "ins_step p 3 s = s' (x - y)" "ins_step p 4 s = s' (x * y)"
    "ins_step p 5 s = s' (if x = y then 1 else 0)"
proof -
  have a: "\<not> is_string (y AND x)" using n by (simp add: is_string_def and_zero_left)
  have pu: "push w (s\<lparr>StackPos := StackPos s - 2\<rparr>) =
      Inr (s\<lparr>cells := (cells s)[nat (StackPos s - 1) := w], StackPos := StackPos s - 1\<rparr>)" for w
    using p by (cases s) (simp add: push_def set_cell_def stack_cells_def)
  note S = ins_step_ops op_add_def op_sub_def op_mul_def op_compare_def pop2_cells [OF p] xy a n numbers_only_def pu s'_def
  show "ins_step p 2 s = s' (x + y)" by (simp add: S add.commute [of y x])
  show "ins_step p 3 s = s' (x - y)" by (simp add: S)
  show "ins_step p 4 s = s' (x * y)" by (simp add: S mult.commute [of y x])
  show "ins_step p 5 s = s' (if x = y then 1 else 0)" by (auto simp add: S)
qed

lemma code_at_append: "code_at s (xs @ ys) \<Longrightarrow> code_at s xs"
  by (auto simp: code_at_def nth_append)

lemma code_at_pushed:
  assumes "code_at s (xs @ ys)" "pushed s s' (length xs) w"
  shows "code_at s' ys"
  unfolding code_at_def
proof (intro conjI allI impI)
  fix i assume i: "i < length ys"
  have a: "0 \<le> IP s" "IP s + int (length xs + i) < StackPos s" "cells s ! (nat (IP s) + (length xs + i)) = of_nat (ys ! i)"
    using assms(1) i unfolding code_at_def by (auto simp: nth_append dest: spec [of _ "length xs + i"])
  show "IP s' + int i < StackPos s'" using a assms(2) by (simp add: pushed_def)
  have "nat (IP s) + (length xs + i) \<le> nat (StackPos s)" using a by linarith
  then show "cells s' ! (nat (IP s') + i) = of_nat (ys ! i)"
    using assms(2) a(1,3) by (simp add: pushed_def nat_add_distrib add.assoc)
qed (use assms in \<open>auto simp: code_at_def pushed_def\<close>)

lemma exp_value_number: "exp_value e = Some v \<Longrightarrow> \<not> is_string v"
  by (cases e; auto simp: number_def split: if_splits elim!: on_numbers.elims)

text \<open>Two operands and an operation: \<open>sub\<close> is what the induction gives for an operand.\<close>

definition computes :: "places \<Rightarrow> nat list \<Rightarrow> nat \<Rightarrow> u64 \<Rightarrow> bool" where
  "computes p code depth v \<longleftrightarrow> (\<forall>s. 0 \<le> StackPos s \<longrightarrow> code_at s code \<longrightarrow> StackPos s + int depth \<le> 999 \<longrightarrow>
     (\<exists>s'. (\<forall>n. loop_fuel (ins_turn p) (length code + n) s = loop_fuel (ins_turn p) n s') \<and> pushed s s' (length code) v))"

lemma computesD:
  assumes "computes p code depth v" "0 \<le> StackPos s" "code_at s code" "StackPos s + int depth \<le> 999"
  shows "\<exists>s'. (\<forall>n. loop_fuel (ins_turn p) (length code + n) s = loop_fuel (ins_turn p) n s') \<and> pushed s s' (length code) v"
  using assms by (auto simp: computes_def)

lemma computes_bin:
  assumes a: "computes p ca da x" and b: "computes p cb db y"
    and op: "0 < c" "c < 2 ^ 64" and db: "1 \<le> db" and st: "\<And>s. 0 < StackPos s \<Longrightarrow> StackPos s < 1000 \<Longrightarrow> length (cells s) = 1000 \<Longrightarrow>
      cells s ! nat (StackPos s - 1) = x \<Longrightarrow> cells s ! nat (StackPos s) = y \<Longrightarrow>
      ins_step p (of_nat c) s = Inr (s\<lparr>cells := (cells s)[nat (StackPos s - 1) := v], StackPos := StackPos s - 1, IP := IP s + 1\<rparr>)"
  shows "computes p (ca @ cb @ [c]) (max da (1 + db)) v"
  unfolding computes_def
proof (intro allI impI)
  fix s
  assume s: "0 \<le> StackPos s" "code_at s (ca @ cb @ [c])" "StackPos s + int (max da (1 + db)) \<le> 999"
  obtain s1 where s1: "\<And>n. loop_fuel (ins_turn p) (length ca + n) s = loop_fuel (ins_turn p) n s1" "pushed s s1 (length ca) x"
    using computesD [OF a s(1) code_at_append [OF s(2)]] s(3) by (auto simp: max_def split: if_splits)
  have c1: "code_at s1 (cb @ [c])" using code_at_pushed [OF s(2) s1(2)] .
  have p1: "StackPos s1 = StackPos s + 1" using s1(2) by (simp add: pushed_def)
  obtain s2 where s2: "\<And>n. loop_fuel (ins_turn p) (length cb + n) s1 = loop_fuel (ins_turn p) n s2" "pushed s1 s2 (length cb) y"
    using computesD [OF b _ code_at_append [OF c1]] s(1,3) p1 by (auto simp: max_def split: if_splits)
  have c2: "code_at s2 [c]" using code_at_pushed [OF c1 s2(2)] .
  have p2: "StackPos s2 = StackPos s + 2" using s2(2) p1 by (simp add: pushed_def)
  define s3 where "s3 = s2\<lparr>cells := (cells s2)[nat (StackPos s2 - 1) := v], StackPos := StackPos s2 - 1, IP := IP s2 + 1\<rparr>"
  have xy: "cells s2 ! nat (StackPos s2 - 1) = x" "cells s2 ! nat (StackPos s2) = y" "length (cells s2) = 1000"
    using s1(2) s2(2) p1 p2 s(1) by (auto simp: pushed_def add.commute)
  have "ins_step p (of_nat c) s2 = Inr s3" unfolding s3_def by (rule st) (use p2 s db xy in \<open>auto simp: max_def split: if_splits\<close>)
  then have t: "ins_turn p s2 = Inr (Inl s3)" using code_step [OF c2 _ op] p2 s(3) db by (simp add: max_def split: if_splits)
  have "loop_fuel (ins_turn p) (length (ca @ cb @ [c]) + n) s = loop_fuel (ins_turn p) n s3" for n
    using s1(1) [of "length cb + (1 + n)"] s2(1) [of "1 + n"] t by (simp add: add.assoc)
  moreover have "pushed s s3 (length (ca @ cb @ [c])) v"
    using s1(2) s2(2) p1 p2 s(1,3) xy(3) by (auto simp: pushed_def s3_def nth_list_update)
  ultimately show "\<exists>s'. (\<forall>n. loop_fuel (ins_turn p) (length (ca @ cb @ [c]) + n) s = loop_fuel (ins_turn p) n s') \<and> pushed s s' (length (ca @ cb @ [c])) v"
    by blast
qed

lemma computes_num:
  assumes "k < 2 ^ 31 - 10"
  shows "computes p [k + 10] 1 (of_nat k)"
  unfolding computes_def
proof (intro allI impI)
  fix s
  assume s: "0 \<le> StackPos s" "code_at s [k + 10]" "StackPos s + int 1 \<le> 999"
  define s' where "s' = s\<lparr>cells := (cells s)[nat (StackPos s + 1) := of_nat k], StackPos := StackPos s + 1, IP := IP s + 1\<rparr>"
  have u: "unat (of_nat (k + 10) :: u64) = k + 10" using assms by (simp only: unat_of_nat) (simp add: take_bit_nat_eq_self)
  have ne: "(of_nat (k + 10) :: u64) \<noteq> of_nat j" if "j < 10" for j
  proof
    assume "(of_nat (k + 10) :: u64) = of_nat j"
    then have "k + 10 = unat (of_nat j :: u64)" using u by metis
    then show False using that by (simp add: unat_of_nat take_bit_nat_eq_self)
  qed
  have "ins_step p (of_nat (k + 10)) s = Inr s'"
    using ne [of 1] ne [of 2] ne [of 3] ne [of 4] ne [of 5] ne [of 6] ne [of 7] ne [of 8] ne [of 9] s
    by (simp add: ins_step_def with_room_def stack_cells_def push_def set_cell_def s'_def)
  then have "ins_turn p s = Inr (Inl s')" using code_step [OF s(2)] s(3) assms by simp
  then have "loop_fuel (ins_turn p) (length [k + 10] + n) s = loop_fuel (ins_turn p) n s'" for n by simp
  moreover have "pushed s s' (length [k + 10]) (of_nat k)"
    using s by (auto simp: pushed_def s'_def code_at_def nth_list_update)
  ultimately show "\<exists>s'. (\<forall>n. loop_fuel (ins_turn p) (length [k + 10] + n) s = loop_fuel (ins_turn p) n s') \<and> pushed s s' (length [k + 10]) (of_nat k)"
    by blast
qed

lemma on_numbersE:
  assumes "on_numbers f a b = Some v"
  obtains x y where "a = Some x" "b = Some y" "v = f x y"
  using assms that by (cases a; cases b) (auto simp: number_def split: if_splits)

lemma exp_depth_pos: "1 \<le> exp_depth e"
  by (induction e) auto

lemma exp_computes: "exp_value e = Some v \<Longrightarrow> exp_small e \<Longrightarrow> computes p (compile_exp e) (exp_depth e) v"
proof (induction e arbitrary: v)
  case (Num n)
  then show ?case using computes_num [of n p] by (auto simp: number_def split: if_splits)
next
  case (Plus a b)
  from Plus.prems obtain x y where x: "exp_value a = Some x" "exp_value b = Some y" "v = x + y" by (auto elim: on_numbersE)
  have "computes p (compile_exp a @ compile_exp b @ [2]) (max (exp_depth a) (1 + exp_depth b)) v"
    by (rule computes_bin [where x = x and y = y])
      (use Plus x bin_step(1) exp_value_number exp_depth_pos in \<open>auto\<close>)
  then show ?case by simp
next
  case (Minus a b)
  from Minus.prems obtain x y where x: "exp_value a = Some x" "exp_value b = Some y" "v = x - y" by (auto elim: on_numbersE)
  have "computes p (compile_exp a @ compile_exp b @ [3]) (max (exp_depth a) (1 + exp_depth b)) v"
    by (rule computes_bin [where x = x and y = y])
      (use Minus x bin_step(2) exp_value_number exp_depth_pos in \<open>auto\<close>)
  then show ?case by simp
next
  case (Times a b)
  from Times.prems obtain x y where x: "exp_value a = Some x" "exp_value b = Some y" "v = x * y" by (auto elim: on_numbersE)
  have "computes p (compile_exp a @ compile_exp b @ [4]) (max (exp_depth a) (1 + exp_depth b)) v"
    by (rule computes_bin [where x = x and y = y])
      (use Times x bin_step(3) exp_value_number exp_depth_pos in \<open>auto\<close>)
  then show ?case by simp
next
  case (Same a b)
  from Same.prems obtain x y where x: "exp_value a = Some x" "exp_value b = Some y" "v = (if x = y then 1 else 0)" by (auto elim: on_numbersE)
  have "computes p (compile_exp a @ compile_exp b @ [5]) (max (exp_depth a) (1 + exp_depth b)) v"
    by (rule computes_bin [where x = x and y = y])
      (use Same x bin_step(4) exp_value_number exp_depth_pos in \<open>auto\<close>)
  then show ?case by simp
qed

lemma code_at_loaded:
  assumes "length prog < 998"
  shows "code_at (loaded p hyp got prog) prog" "cells (loaded p hyp got prog) ! (2 + length prog) = 0"
    "StackPos (loaded p hyp got prog) = 2 + int (length prog)" "IP (loaded p hyp got prog) = 2" "length (cells (loaded p hyp got prog)) = 1000"
proof -
  have c: "cells (loaded p hyp got prog) = program_cells p got prog"
    by (simp add: loaded_def ins_start_def program_cells_def)
  show i: "StackPos (loaded p hyp got prog) = 2 + int (length prog)" "IP (loaded p hyp got prog) = 2"
    by (simp_all add: loaded_def ins_start_def)
  show l: "length (cells (loaded p hyp got prog)) = 1000" using assms unfolding c by (simp add: program_cells_def)
  show "code_at (loaded p hyp got prog) prog"
    using l unfolding code_at_def i c by (auto simp: program_cells_def nth_append)
  show "cells (loaded p hyp got prog) ! (2 + length prog) = 0" using assms unfolding c by (simp add: program_cells_def nth_append)
qed

text \<open>C21. A spoken expression is answered with its value, as long as no intermediate result looks like a pointer.\<close>

theorem ins_computes:
  assumes "exp_value e = Some v" "exp_small e" "length (compile_exp e) + exp_depth e \<le> 997" "length (compile_exp e) < n"
  shows "ins_main p n (map utter (compile_exp e)) got = Some (Inr (ascii ''result: '' @ hex_text (unat v) @ [10]))"
proof -
  let ?c = "compile_exp e"
  let ?s = "loaded p (utter (last ?c)) got ?c"
  have d: "1 \<le> exp_depth e" "?c \<noteq> []" by (induction e) auto
  have l: "length ?c < 998" using assms(3) d(1) by linarith
  note L = code_at_loaded [OF l, of p "utter (last ?c)" got]
  obtain m where m: "n = length ?c + Suc m" using less_imp_Suc_add [OF assms(4)] by auto
  have "StackPos ?s + int (exp_depth e) \<le> 999" "0 \<le> StackPos ?s" using assms(3) L(3) by auto
  then obtain s' where s': "\<And>n. loop_fuel (ins_turn p) (length ?c + n) ?s = loop_fuel (ins_turn p) n s'" "pushed ?s s' (length ?c) v"
    using computesD [OF exp_computes [OF assms(1,2)] _ L(1)] by blast
  have "cells s' ! nat (StackPos ?s) = 0" using s'(2) L(2,3) by (simp add: pushed_def nat_add_distrib)
  moreover have P: "IP s' = 2 + int (length ?c)" "StackPos s' = 3 + int (length ?c)" "cells s' ! nat (3 + int (length ?c)) = v"
    using s'(2) L(3,4) by (auto simp: pushed_def add.commute)
  ultimately have "ins_turn p s' = Inr (Inr s')" using l L(3) by (simp add: ins_turn_def cell_def stack_cells_def)
  then have "loop_fuel (ins_turn p) n ?s = Some (Inr s')" using s'(1) [of "Suc m"] m by simp
  moreover have "print_result p s' = Inr (ascii ''result: '' @ hex_text (unat v) @ [10])"
    using P assms(3) d(1) exp_value_number [OF assms(1)] by (simp add: print_result_def cell_def stack_cells_def)
  ultimately show ?thesis using ins_main_program [OF l d(2)] by simp
qed

theorem ins_computes_witness:
  "\<forall>p got. ins_main p 10 (map utter [18, 14, 4, 12, 2]) got = Some (Inr (ascii ''result: 22'' @ [10]))"
proof (intro allI)
  fix p got
  have h: "hex_text 34 = [50, 50]" by (simp add: hex_text.simps Let_def)
  have "exp_value (Plus (Times (Num 8) (Num 4)) (Num 2)) = Some 34" by (simp add: number_def is_string_def string_bit_def)
  from ins_computes [OF this, of 10 p got] h
  show "ins_main p 10 (map utter [18, 14, 4, 12, 2]) got = Some (Inr (ascii ''result: 22'' @ [10]))" by (simp add: ascii_def)
qed


subsection \<open>Texts\<close>

text \<open>The constant lies outside the array and below the highest bit.\<close>

definition places_ok :: "places \<Rightarrow> bool" where
  "places_ok p \<longleftrightarrow> (\<forall>i<9. 8000 \<le> unat (insanity_at p + of_nat i - stack_at p)) \<and> \<not> is_string (insanity_at p)"

lemma put_bytes_other: "(\<And>i. i < length w \<Longrightarrow> b \<noteq> a + of_nat i) \<Longrightarrow> put_bytes a w m b = m b"
proof (induction w arbitrary: a m)
  case (Cons c w)
  have "b \<noteq> a" using Cons.prems [of 0] by simp
  moreover have "put_bytes (a + 1) w (m(a \<mapsto> c)) b = (m(a \<mapsto> c)) b"
    by (rule Cons.IH) (use Cons.prems [of "Suc _"] in \<open>simp add: add.assoc\<close>)
  ultimately show ?case by simp
qed simp

lemma of_nat_u64_inj: "i < 2 ^ 64 \<Longrightarrow> j < 2 ^ 64 \<Longrightarrow> (of_nat i :: u64) = of_nat j \<Longrightarrow> i = j"
proof -
  assume a: "i < 2 ^ 64" "j < 2 ^ 64" and "(of_nat i :: u64) = of_nat j"
  then have "unat (of_nat i :: u64) = unat (of_nat j :: u64)" by simp
  then show "i = j" using a by (simp only: unat_of_nat) (simp add: take_bit_nat_eq_self)
qed

lemma put_bytes_at:
  "i < length w \<Longrightarrow> length w \<le> 2 ^ 64 \<Longrightarrow> put_bytes a w m (a + of_nat i) = Some (w ! i)"
proof (induction w arbitrary: a m i)
  case (Cons c w)
  show ?case
  proof (cases i)
    case 0
    have "put_bytes (a + 1) w (m(a \<mapsto> c)) a = (m(a \<mapsto> c)) a"
    proof (rule put_bytes_other)
      fix j assume j: "j < length w"
      have "(of_nat (Suc j) :: u64) \<noteq> of_nat 0" using of_nat_u64_inj [of "Suc j" 0] j Cons.prems(2) by auto
      then show "a \<noteq> a + 1 + of_nat j" by (simp add: add.assoc)
    qed
    then show ?thesis using 0 by simp
  next
    case (Suc j)
    then show ?thesis using Cons.IH [of j "a + 1" "m(a \<mapsto> c)"] Cons.prems by (simp add: add.assoc del: fun_upd_apply)
  qed
qed simp

lemma c_string_text:
  assumes "\<And>i. i \<le> length w \<Longrightarrow> peek p s (a + of_nat i) = Some ((w @ [0]) ! i)" "0 \<notin> set w" "length w < n"
  shows "c_string_loop n p s a = Inr w"
  using assms
proof (induction w arbitrary: a n)
  case Nil
  then show ?case using Nil(1) [of 0] by (cases n) auto
next
  case (Cons c w)
  obtain m where m: "n = Suc m" "length w < m" using Cons.prems(3) by (cases n) auto
  have "c_string_loop m p s (a + 1) = Inr w"
  proof (rule Cons.IH)
    show "peek p s (a + 1 + of_nat i) = Some ((w @ [0]) ! i)" if "i \<le> length w" for i
      using Cons.prems(1) [of "Suc i"] that by (simp add: add.assoc)
  qed (use Cons.prems(2) m(2) in auto)
  then show ?case using Cons.prems(1) [of 0] Cons.prems(2) m(1) by simp
qed

definition insanity_text :: "u8 list" where "insanity_text = [105, 110, 115, 97, 110, 105, 116, 121]"

lemma c_string_insanity:
  assumes "places_ok p" and b: "\<And>i. i < 9 \<Longrightarrow> bytes_at s (insanity_at p + of_nat i) = Some ((insanity_text @ [0]) ! i)"
  shows "c_string p s (insanity_at p) = Inr insanity_text"
  unfolding c_string_def
proof (rule c_string_text)
  fix i assume "i \<le> length insanity_text"
  then have "i < 9" by (simp add: insanity_text_def)
  then show "peek p s (insanity_at p + of_nat i) = Some ((insanity_text @ [0]) ! i)"
    using assms by (auto simp: peek_def places_ok_def Let_def)
qed (simp_all add: insanity_text_def)

lemma loaded_insanity:
  "i < 9 \<Longrightarrow> bytes_at (loaded p hyp got prog) (insanity_at p + of_nat i) = Some ((insanity_text @ [0]) ! i)"
  using put_bytes_at [of i "insanity_text @ [0]" "insanity_at p" "put_bytes (hyp_at p) hyp Map.empty"]
  by (simp add: loaded_def ins_start_def insanity_text_def)

abbreviation text_ptr :: "places \<Rightarrow> u64" where "text_ptr p \<equiv> insanity_at p OR string_bit"

lemma string_bit_exp: "string_bit = 2 ^ 63" by (simp add: string_bit_def)

lemma is_string_bit: "is_string w \<longleftrightarrow> bit w 63"
  unfolding is_string_def string_bit_exp and_exp_eq_0_iff_not_bit by simp

lemma pointer_take: "pointer w = take_bit 63 w"
proof -
  have "(0x7fffffffffffffff :: u64) = mask 63" by (simp add: mask_eq_exp_minus_1)
  then show ?thesis by (simp add: pointer_def take_bit_eq_mask)
qed

lemma is_string_large: "is_string w \<Longrightarrow> 2 ^ 63 \<le> unat w"
proof (rule ccontr)
  assume a: "is_string w" "\<not> 2 ^ 63 \<le> unat w"
  then have "bit (unat w) 63" by (simp add: is_string_bit bit_unsigned_iff)
  then show False using a(2) by (simp add: bit_iff_odd)
qed

lemma text_ptr:
  assumes "places_ok p"
  shows "is_string (text_ptr p)" "pointer (text_ptr p) = insanity_at p" "2 ^ 63 \<le> unat (text_ptr p)"
proof -
  show s: "is_string (text_ptr p)" by (simp add: is_string_bit bit_or_iff string_bit_exp bit_exp_iff)
  show "2 ^ 63 \<le> unat (text_ptr p)" using is_string_large [OF s] .
  have n: "\<not> bit (insanity_at p) 63" using assms by (simp add: places_ok_def is_string_bit)
  show "pointer (text_ptr p) = insanity_at p"
  proof (rule bit_word_eqI)
    fix i assume "i < LENGTH(64)"
    then have "i < 63 \<or> i = 63" by auto
    then show "bit (pointer (text_ptr p)) i = bit (insanity_at p) i"
      using n by (auto simp: pointer_take bit_take_bit_iff bit_or_iff string_bit_exp bit_exp_iff)
  qed
qed

lemma turn_text:
  assumes "0 \<le> IP s" "IP s < 1000" "cells s ! nat (IP s) = 1" "0 \<le> StackPos s" "StackPos s < 999"
  shows "ins_turn p s = Inr (Inl (s\<lparr>cells := (cells s)[nat (StackPos s + 1) := text_ptr p], StackPos := StackPos s + 1, IP := IP s + 1\<rparr>))"
  using assms by (cases s) (simp add: ins_turn_def cell_def stack_cells_def ins_step_def with_room_def push_def set_cell_def)


text \<open>The first two instructions of a program put the text on the stack twice.\<close>

lemma two_texts:
  assumes "length prog < 900" "prog = 1 # 1 # op # rest"
  defines "L \<equiv> int (length prog)"
  shows "\<exists>s. (\<forall>n. loop_fuel (ins_turn p) (Suc (Suc n)) (loaded p hyp got prog) = loop_fuel (ins_turn p) n s)
    \<and> IP s = 4 \<and> StackPos s = L + 4 \<and> length (cells s) = 1000 \<and> cells s ! 4 = of_nat op \<and> cells s ! nat (L + 2) = 0
    \<and> cells s ! nat (L + 3) = text_ptr p \<and> cells s ! nat (L + 4) = text_ptr p
    \<and> (\<forall>i<9. bytes_at s (insanity_at p + of_nat i) = Some ((insanity_text @ [0]) ! i)) \<and> mallocs s = 0"
proof -
  let ?s = "loaded p hyp got prog"
  have len: "length prog < 998" "3 \<le> L" using assms by auto
  note C = code_at_loaded [OF len(1), of p hyp got]
  have c: "cells ?s ! 2 = 1" "cells ?s ! 3 = 1" "cells ?s ! 4 = of_nat op"
  proof -
    have "cells ?s ! (2 + i) = of_nat (prog ! i)" if "i < length prog" for i
      using C(1,4) that by (simp add: code_at_def)
    from this [of 0] this [of 1] this [of 2] show "cells ?s ! 2 = 1" "cells ?s ! 3 = 1" "cells ?s ! 4 = of_nat op"
      using assms(2) by simp_all
  qed
  define s1 where "s1 = ?s\<lparr>cells := (cells ?s)[nat (L + 3) := text_ptr p], StackPos := L + 3, IP := 3\<rparr>"
  define s2 where "s2 = s1\<lparr>cells := (cells s1)[nat (L + 4) := text_ptr p], StackPos := L + 4, IP := 4\<rparr>"
  have sp: "L + 3 = StackPos ?s + 1" "L < 900" using C(3) assms(1) by (auto simp: L_def)
  have t1: "ins_turn p ?s = Inr (Inl s1)"
    unfolding s1_def sp(1) using turn_text [of ?s p] c(1) C(3,4) len sp(2) by (simp add: L_def)
  have t2: "ins_turn p s1 = Inr (Inl s2)"
    using turn_text [of s1 p] c(2) C(5) len(2) sp(2) by (simp add: s1_def s2_def add.commute [of 4 L])
  have "\<forall>n. loop_fuel (ins_turn p) (Suc (Suc n)) ?s = loop_fuel (ins_turn p) n s2" using t1 t2 by simp
  moreover have "bytes_at s2 = bytes_at ?s" "mallocs s2 = 0" by (simp_all add: s2_def s1_def loaded_def ins_start_def)
  moreover have "cells s2 ! nat (L + 2) = 0" using C(2,5) len(2) by (simp add: s2_def s1_def L_def nat_add_distrib)
  ultimately show ?thesis using c(3) C(5) len(2) sp(2) loaded_insanity
    by (intro exI [of _ s2]) (auto simp: s2_def s1_def nth_list_update)
qed

text \<open>Two texts that are added give a number: the address that \<open>malloc\<close> returned.\<close>

theorem ins_concat_number:
  assumes "places_ok p" "malloc_at p 0 \<noteq> 0" "\<not> is_string (malloc_at p 0)" "4 \<le> n"
  shows "ins_main p n (map utter [1, 1, 2]) got = Some (Inr (ascii ''result: '' @ hex_text (unat (malloc_at p 0)) @ [10]))"
proof -
  let ?s = "loaded p (utter 2) got [1, 1, 2]"
  obtain s where s: "\<And>n. loop_fuel (ins_turn p) (Suc (Suc n)) ?s = loop_fuel (ins_turn p) n s"
    "IP s = 4" "StackPos s = 7" "length (cells s) = 1000" "cells s ! 4 = 2" "cells s ! 5 = 0"
    "cells s ! 6 = text_ptr p" "cells s ! 7 = text_ptr p"
    "\<And>i. i < 9 \<Longrightarrow> bytes_at s (insanity_at p + of_nat i) = Some ((insanity_text @ [0]) ! i)" "mallocs s = 0"
    using two_texts [of "[1, 1, 2]" 2 "[]" p "utter 2" got] by auto
  obtain s' where s': "ins_turn p s = Inr (Inl s')" "IP s' = 5" "cells s' ! 5 = 0" "StackPos s' = 6" "cells s' ! 6 = malloc_at p 0"
  proof -
    let ?t = "s\<lparr>StackPos := 5\<rparr>"
    have "c_string p ?t (insanity_at p) = Inr insanity_text" using c_string_insanity [OF assms(1), of ?t] s(9) by simp
    moreover have "pop2 f s = f (text_ptr p) (text_ptr p) ?t" for f using pop2_cells [of s f] s(3,7,8) by simp
    ultimately show ?thesis
      using that s(2,4,5,6,10) text_ptr(1,2) [OF assms(1)] assms(2)
      by (simp add: ins_turn_def cell_def stack_cells_def ins_step_ops op_add_def new_text_def Let_def push_def set_cell_def)
  qed
  have h: "ins_turn p s' = Inr (Inr s')" using s' by (simp add: ins_turn_def cell_def stack_cells_def)
  obtain m where "n = 4 + m" using assms(4) le_Suc_ex by blast
  then have "n = Suc (Suc (Suc (Suc m)))" by simp
  then have "loop_fuel (ins_turn p) n ?s = Some (Inr s')" using s(1) s'(1) h by simp
  moreover have "print_result p s' = Inr (ascii ''result: '' @ hex_text (unat (malloc_at p 0)) @ [10])"
    using s'(4,5) assms(3) by (simp add: print_result_def cell_def stack_cells_def)
  ultimately show ?thesis using ins_main_program [of "[1, 1, 2]" p n got] by simp
qed

definition test_places :: places where
  "test_places = \<lparr>stack_at = 0x10000, insanity_at = 0x400000, hyp_at = 0x20000, malloc_at = (\<lambda>i. 0x602010)\<rparr>"

lemma test_places_ok: "places_ok test_places"
proof -
  have "8000 \<le> unat (0x3F0000 + of_nat i :: u64)" if "i < 9" for i :: nat
  proof -
    have "(0x3F0000 + of_nat i :: u64) = of_nat (0x3F0000 + i)" by simp
    moreover have "unat (of_nat (0x3F0000 + i) :: u64) = 0x3F0000 + i"
      using that by (simp only: unat_of_nat) (simp add: take_bit_nat_eq_self)
    ultimately show ?thesis by simp
  qed
  then show ?thesis by (simp add: places_ok_def test_places_def is_string_def string_bit_def algebra_simps)
qed

theorem ins_concat_number_witness:
  "ins_main test_places 4 (map utter [1, 1, 2]) 4 = Some (Inr (ascii ''result: 602010'' @ [10]))"
proof -
  have "hex_text 0x602010 = [54, 48, 50, 48, 49, 48]" by (simp add: hex_text.simps Let_def)
  moreover have "malloc_at test_places 0 = 0x602010" by (simp add: test_places_def)
  ultimately show ?thesis
    using ins_concat_number [OF test_places_ok, of 4 4] by (simp add: is_string_def string_bit_def ascii_def)
qed

text \<open>
  After a comparison of two texts the answer stands where the program ends, and the program counter runs into the stack:
  every cell it meets is pushed once more, until the stack is full.
\<close>

definition runaway :: "ins \<Rightarrow> bool" where
  "runaway s \<longleftrightarrow> 6 \<le> IP s \<and> StackPos s = IP s + 1 \<and> StackPos s < 1000 \<and> length (cells s) = 1000
     \<and> (\<forall>j. 6 \<le> j \<and> j \<le> nat (StackPos s) \<longrightarrow> 2 ^ 63 \<le> unat (cells s ! j) + 10 * j)"

lemma runaway_turn:
  assumes r: "runaway s"
  shows "if StackPos s = 999 then ins_turn p s = Inl (Says (ascii ''Internal limitation'' @ [10, 10]))
    else \<exists>s'. ins_turn p s = Inr (Inl s') \<and> runaway s' \<and> StackPos s' = StackPos s + 1"
proof -
  define w where "w = cells s ! nat (IP s)"
  have ip: "0 \<le> IP s" "IP s < 999" "6 \<le> nat (IP s)" "nat (IP s) \<le> nat (StackPos s)" using r by (auto simp: runaway_def)
  have big: "2 ^ 63 \<le> unat w + 10 * nat (IP s)" using r ip unfolding runaway_def w_def by blast
  then have w: "2 ^ 62 \<le> unat w" using ip(2) by simp
  have ne: "w \<noteq> of_nat k" if "k < 10" for k
  proof
    assume "w = of_nat k"
    then have "unat w = k" using that by (simp only: unat_of_nat) (simp add: take_bit_nat_eq_self)
    then show False using w that by simp
  qed
  have step: "ins_step p w s = andThen (with_room s (push (w - 10) s)) (\<lambda>s. Inr (s\<lparr>IP := IP s + 1\<rparr>))"
    using ne [of 1] ne [of 2] ne [of 3] ne [of 4] ne [of 5] ne [of 6] ne [of 7] ne [of 8] ne [of 9]
    by (simp add: ins_step_def)
  have turn: "ins_turn p s = andThen (ins_step p w s) (\<lambda>s. Inr (Inl s))"
    using ne [of 0] ip by (simp add: ins_turn_def cell_def stack_cells_def w_def)
  show ?thesis
  proof (cases "StackPos s = 999")
    case True
    then show ?thesis using turn step by (simp add: with_room_def stack_cells_def)
  next
    case False
    define s' where "s' = s\<lparr>cells := (cells s)[nat (StackPos s + 1) := w - 10], StackPos := StackPos s + 1, IP := IP s + 1\<rparr>"
    have sp: "0 \<le> StackPos s" "StackPos s < 999" "length (cells s) = 1000" using r False by (auto simp: runaway_def)
    have "ins_turn p s = Inr (Inl s')"
      using turn step sp by (cases s) (simp add: with_room_def stack_cells_def push_def set_cell_def s'_def)
    moreover have "unat (w - 10) = unat w - 10" using w by (simp add: unat_sub word_le_nat_alt)
    then have "2 ^ 63 \<le> unat (w - 10) + 10 * nat (StackPos s + 1)"
      using big w r by (simp add: runaway_def nat_add_distrib)
    then have "runaway s'"
      using r sp by (auto simp: runaway_def s'_def nth_list_update)
    ultimately show ?thesis using False by (auto simp: s'_def)
  qed
qed

lemma runaway_ends:
  "runaway s \<Longrightarrow> nat (999 - StackPos s) < n \<Longrightarrow>
   loop_fuel (ins_turn p) n s = Some (Inl (Says (ascii ''Internal limitation'' @ [10, 10])))"
proof (induction n arbitrary: s)
  case (Suc n)
  show ?case
  proof (cases "StackPos s = 999")
    case True
    then show ?thesis using runaway_turn [OF Suc.prems(1), of p] by simp
  next
    case False
    then obtain s' where s': "ins_turn p s = Inr (Inl s')" "runaway s'" "StackPos s' = StackPos s + 1"
      using runaway_turn [OF Suc.prems(1), of p] by auto
    have "StackPos s < 1000" using Suc.prems(1) by (simp add: runaway_def)
    then have "nat (999 - StackPos s') < n" using Suc.prems(2) s'(3) False by linarith
    then show ?thesis using Suc.IH [OF s'(2)] s'(1) by simp
  qed
qed simp

lemma c_string_StackPos: "c_string p (s\<lparr>StackPos := i\<rparr>) a = c_string p s a"
proof -
  have "c_string_loop n p (s\<lparr>StackPos := i\<rparr>) a = c_string_loop n p s a" for n
    by (induction n arbitrary: a) (simp_all add: peek_def Let_def split: option.split)
  then show ?thesis by (simp add: c_string_def)
qed

text \<open>C36. A comparison of two texts, the two upper cells of the stack, puts its answer two cells below the top and leaves
  the stack pointer one cell below it: the answer replaces whatever lies below the operands, and what is on top afterwards
  is the second operand and not the answer. When nothing lies below them, the cell is the zero that ends the program.\<close>

theorem ins_compare_misplaces:
  assumes "0 \<le> IP s" "IP s < 1000" "cells s ! nat (IP s) = 5" "2 \<le> StackPos s" "StackPos s < 1000" "length (cells s) = 1000"
    and "is_string (cells s ! nat (StackPos s))" "is_string (cells s ! nat (StackPos s - 1))"
    and "c_string p s (pointer (cells s ! nat (StackPos s))) = Inr w1" "c_string p s (pointer (cells s ! nat (StackPos s - 1))) = Inr w2"
  shows "\<exists>s'. ins_turn p s = Inr (Inl s') \<and> s' = s\<lparr>cells := (cells s)[nat (StackPos s - 2) := if w1 = w2 then 1 else 0],
      StackPos := StackPos s - 1, IP := IP s + 1\<rparr>
    \<and> cells s' ! nat (StackPos s') = cells s ! nat (StackPos s - 1)"
proof -
  let ?x = "cells s ! nat (StackPos s)" and ?y = "cells s ! nat (StackPos s - 1)"
  let ?s' = "s\<lparr>cells := (cells s)[nat (StackPos s - 2) := if w1 = w2 then 1 else 0], StackPos := StackPos s - 1, IP := IP s + 1\<rparr>"
  have p2: "pop2 f s = f ?x ?y (s\<lparr>StackPos := StackPos s - 2\<rparr>)" for f using pop2_cells [of s f] assms(4,5) by simp
  have both: "is_string (?x AND ?y)" using assms(7,8) by (simp add: is_string_bit bit_and_iff)
  have "op_compare p s = Inr (s\<lparr>cells := (cells s)[nat (StackPos s - 2) := if w1 = w2 then 1 else 0], StackPos := StackPos s - 1\<rparr>)"
    using both assms(4-6,9,10) unfolding op_compare_def p2 by (simp add: c_string_StackPos set_cell_def stack_cells_def)
  then have "ins_turn p s = Inr (Inl ?s')"
    using assms(1-3) by (simp add: ins_turn_def cell_def stack_cells_def ins_step_ops)
  moreover have "nat (StackPos s - 1) \<noteq> nat (StackPos s - 2)" using assms(4) by simp
  then have "cells ?s' ! nat (StackPos ?s') = ?y" by simp
  ultimately show ?thesis by blast
qed

text \<open>The program of two texts and a comparison: it runs through its stack until the service prints that the stack is full.\<close>

theorem ins_compare_misplaces_witness:
  "ins_main test_places 1000 (map utter [1, 1, 5]) 4 = Some (Inl (Says (ascii ''Internal limitation'' @ [10, 10])))"
proof -
  define p where "p = test_places"
  have ok: "places_ok p" using test_places_ok by (simp add: p_def)
  let ?s = "loaded p (utter 5) 4 [1, 1, 5]"
  obtain s where s: "\<And>n. loop_fuel (ins_turn p) (Suc (Suc n)) ?s = loop_fuel (ins_turn p) n s"
    "IP s = 4" "StackPos s = 7" "length (cells s) = 1000" "cells s ! 4 = 5" "cells s ! 5 = 0"
    "cells s ! 6 = text_ptr p" "cells s ! 7 = text_ptr p"
    "\<And>i. i < 9 \<Longrightarrow> bytes_at s (insanity_at p + of_nat i) = Some ((insanity_text @ [0]) ! i)" "mallocs s = 0"
    using two_texts [of "[1, 1, 5]" 5 "[]" p "utter 5" 4] by auto
  define s1 where "s1 = s\<lparr>cells := (cells s)[5 := 1], StackPos := 6, IP := 5\<rparr>"
  have "c_string p s (insanity_at p) = Inr insanity_text" using c_string_insanity [OF ok, of s] s(9) by simp
  then have t1: "ins_turn p s = Inr (Inl s1)"
    using ins_compare_misplaces [of s p insanity_text insanity_text] s(2-8) text_ptr(1,2) [OF ok] by (simp add: s1_def)
  define s2 where "s2 = s1\<lparr>cells := (cells s1)[7 := text_ptr p], StackPos := 7, IP := 6\<rparr>"
  have t2: "ins_turn p s1 = Inr (Inl s2)"
    using turn_text [of s1 p] s(4) by (simp add: s1_def s2_def)
  have "(6 \<le> j \<and> j \<le> 7) = (j = 6 \<or> j = 7)" for j :: nat by auto
  then have "runaway s2" using text_ptr(3) [OF ok] s(4,7,8) by (auto simp: runaway_def s2_def s1_def)
  then have e: "loop_fuel (ins_turn p) 996 s2 = Some (Inl (Says (ascii ''Internal limitation'' @ [10, 10])))"
    by (rule runaway_ends) (simp add: s2_def)
  have "loop_fuel (ins_turn p) 1000 ?s = loop_fuel (ins_turn p) 996 s2"
    using s(1) [of "Suc (Suc 996)"] t1 t2 by (simp add: numeral_eq_Suc)
  then show ?thesis using e ins_main_program [of "[1, 1, 5]" p 1000 4] by (simp add: p_def)
qed


subsection \<open>Long programs\<close>

lemma parse_utter_full: "parse_hyp (utter n) c 1000 st = Inl Wild"
proof (induction n arbitrary: c)
  case 0
  have "memcmp_eq (word_insane @ [0]) word_insanity = Inr False" by (simp add: word_insane_def word_insanity_def)
  then show ?case using memcmp_same [of word_insane "[0]"]
    by (subst parse_hyp.simps) (simp add: utter_def word_insane_def stack_cells_def)
next
  case (Suc n)
  have "parse_hyp (utter (Suc n)) c 1000 st = parse_hyp (utter n) (c + 1) 1000 st"
    using parse_insanity [of 1000 "concat (replicate n word_insanity) @ word_insane @ [0]"] by (simp add: utter_def stack_cells_def)
  then show ?case using Suc.IH by simp
qed

lemma parse_hyps_append:
  "parse_hyps (xs @ ys) sp st = andThen (parse_hyps xs sp st) (\<lambda>(sp, st). parse_hyps ys sp st)"
proof (induction xs arbitrary: sp st)
  case (Cons x xs)
  then show ?case by (cases "parse_hyp x 0 sp st") auto
qed simp

text \<open>C35. A program of 998 instructions or more is written behind the array: the test of the code allows two cells too many.\<close>

theorem ins_program_overruns:
  assumes "998 \<le> length prog"
  shows "ins_main p n (map utter prog) got = Some (Inl Wild)"
proof -
  define st :: "u64 list" where "st = (replicate 1000 0)[0 := stack_at p OR string_bit]"
  have l: "length st = nat stack_cells" unfolding st_def length_list_update length_replicate by (simp add: stack_cells_def)
  let ?a = "take 998 prog" and ?b = "drop 998 prog"
  have "parse_hyps (map utter ?a) 2 st = Inr (2 + int (length ?a), take (nat 2) st @ map of_nat ?a @ drop (nat 2 + length ?a) st)"
    by (rule parse_program) (use assms l in \<open>simp_all add: stack_cells_def\<close>)
  moreover have "2 + int (length ?a) = 1000" using assms by simp
  ultimately obtain st' where a: "parse_hyps (map utter ?a) 2 st = Inr (1000, st')" by simp
  have e: "map utter prog = map utter ?a @ map utter ?b" by (metis append_take_drop_id map_append)
  have "parse_hyps (map utter prog) 2 st = parse_hyps (map utter ?b) 1000 st'"
    unfolding e parse_hyps_append a by simp
  also have "\<dots> = (if ?b = [] then Inr (1000, st') else Inl Wild)" by (cases ?b) (auto simp: parse_utter_full)
  finally show ?thesis by (simp add: ins_main_def st_def [symmetric] stack_cells_def)
qed

theorem ins_program_overruns_witness:
  "\<forall>p n got. ins_main p n (map utter (replicate 998 7)) got = Some (Inl Wild)"
proof (intro allI)
  fix p n got
  have "998 \<le> length (replicate 998 (7 :: nat))" unfolding length_replicate by simp
  then show "ins_main p n (map utter (replicate 998 7)) got = Some (Inl Wild)" by (rule ins_program_overruns)
qed

end
