(* ===== verification/Empanada.thy ===== *)
theory Empanada
  imports Prelude
begin

unbundle bit_operations_syntax

text \<open>
  The message service \<open>src/empanada\<close> (\<open>EMPMA.h\<close>, \<open>proto.h\<close>, \<open>service.cpp\<close>; a 32-bit program, built without \<open>DEBUG\<close>).
  Memory is the region of one megabyte that the allocator maps, byte by byte; \<open>bool\<close> is one byte, pointers and \<open>int\<close> are
  four, little-endian. Addresses are natural numbers, \<open>NULL\<close> is 0. Reading or writing outside the region is the outcome
  \<open>Wild\<close>, using a value that was never set, a \<open>bool\<close> that is neither 0 nor 1 or an element behind the end of a vector is
  \<open>Undef\<close>, a call of an address that is not one of the two hash functions is \<open>Call\<close>. Texts of the library (literals, the
  contents of a \<open>stringstream\<close>) are lists of bytes. What the source reads behind such a text, and what it finds where a
  text was that is gone, is a parameter, as are the addresses of the functions. Sizes are below 2^31.
\<close>

definition MMAP_SIZE :: nat where "MMAP_SIZE = 0x100000"
definition MESSAGE_LIMIT :: nat where "MESSAGE_LIMIT = 128"
definition sizeof_page :: nat where "sizeof_page = 12"
definition sizeof_msg :: nat where "sizeof_msg = 48"

lemmas emp_consts = MMAP_SIZE_def MESSAGE_LIMIT_def sizeof_page_def sizeof_msg_def

datatype emp_stop = Exit int "u8 list" | Wild | Undef | Call nat

record emp =
  emem :: "nat \<Rightarrow> u8"
  pStart :: nat
  pageTable :: "nat list"
  g_empMlist :: "nat list"
  g_empCurm :: nat
  g_msgCnt :: u16
  emp_in :: "u8 list"
  emp_out :: "u8 list"

record emp_env =
  srv_at :: nat
  cli_at :: nat
  behind :: "emp \<Rightarrow> u8 list \<Rightarrow> nat \<Rightarrow> u8"
  dangling :: "emp \<Rightarrow> u8 list \<Rightarrow> u8 list"

subsection \<open>Memory\<close>

definition peek :: "nat \<Rightarrow> nat \<Rightarrow> (nat \<Rightarrow> u8) \<Rightarrow> u8 list" where
  "peek a n m = map m [a..<a + n]"

definition poke :: "nat \<Rightarrow> u8 list \<Rightarrow> (nat \<Rightarrow> u8) \<Rightarrow> nat \<Rightarrow> u8" where
  "poke a bs m = (\<lambda>b. if a \<le> b \<and> b < a + length bs then bs ! (b - a) else m b)"

definition mapped :: "emp \<Rightarrow> nat \<Rightarrow> nat \<Rightarrow> bool" where
  "mapped s a n \<longleftrightarrow> pStart s \<noteq> 0 \<and> pStart s \<le> a \<and> a + n \<le> pStart s + MMAP_SIZE"

definition rd :: "nat \<Rightarrow> nat \<Rightarrow> emp \<Rightarrow> emp_stop + u8 list" where
  "rd a n s = (if mapped s a n then Inr (peek a n (emem s)) else Inl Wild)"

definition wr :: "nat \<Rightarrow> u8 list \<Rightarrow> emp \<Rightarrow> emp_stop + emp" where
  "wr a bs s = (if mapped s a (length bs) then Inr (s\<lparr>emem := poke a bs (emem s)\<rparr>) else Inl Wild)"

definition rd8 :: "nat \<Rightarrow> emp \<Rightarrow> emp_stop + u8" where
  "rd8 a s = andThen (rd a 1 s) (\<lambda>bs. Inr (hd bs))"

definition rd32 :: "nat \<Rightarrow> emp \<Rightarrow> emp_stop + nat" where
  "rd32 a s = andThen (rd a 4 s) (\<lambda>bs. Inr (of_le32 bs))"

definition rd_bool :: "nat \<Rightarrow> emp \<Rightarrow> emp_stop + bool" where
  "rd_bool a s = andThen (rd8 a s) (\<lambda>b. if b = 0 then Inr False else if b = 1 then Inr True else Inl Undef)"

definition wr32 :: "nat \<Rightarrow> nat \<Rightarrow> emp \<Rightarrow> emp_stop + emp" where
  "wr32 a v = wr a (le32 (of_nat v))"

text \<open>The characters of a text in memory, at most \<open>n\<close>, up to the zero byte.\<close>

fun strn :: "nat \<Rightarrow> nat \<Rightarrow> emp \<Rightarrow> emp_stop + u8 list" where
  "strn a n s =
     (if n = 0 then Inr []
      else andThen (rd8 a s) (\<lambda>b. if b = 0 then Inr [] else andThen (strn (a + 1) (n - 1) s) (\<lambda>t. Inr (b # t))))"

declare strn.simps [simp del]

text \<open>A text without a bound: it does not fit the region when it is longer.\<close>

definition cstr :: "nat \<Rightarrow> emp \<Rightarrow> emp_stop + u8 list" where
  "cstr a = strn a (MMAP_SIZE + 1)"

subsection \<open>Walks that may not end\<close>

definition ebind :: "(emp_stop + 'a) option \<Rightarrow> ('a \<Rightarrow> (emp_stop + 'b) option) \<Rightarrow> (emp_stop + 'b) option" where
  "ebind r f = (case r of None \<Rightarrow> None | Some (Inl e) \<Rightarrow> Some (Inl e) | Some (Inr x) \<Rightarrow> f x)"

lemma ebind_simps [simp]:
  "ebind None f = None" "ebind (Some (Inl e)) f = Some (Inl e)" "ebind (Some (Inr x)) f = f x"
  by (simp_all add: ebind_def)

text \<open>\<open>while (p != NULL)\<close>: the body answers the next pointer.\<close>

definition emp_walk :: "(nat \<Rightarrow> 's \<Rightarrow> emp_stop + nat \<times> 's) \<Rightarrow> nat \<Rightarrow> nat \<Rightarrow> 's \<Rightarrow> (emp_stop + 's) option" where
  "emp_walk f k p s = loop_fuel (\<lambda>(p, s). if p = 0 then Inr (Inr s) else andThen (f p s) (\<lambda>(q, s). Inr (Inl (q, s)))) k (p, s)"

lemma emp_walk_simps [simp]:
  "emp_walk f 0 p s = None"
  "emp_walk f (Suc k) p s = (if p = 0 then Some (Inr s) else case f p s of Inl e \<Rightarrow> Some (Inl e) | Inr (q, s) \<Rightarrow> emp_walk f k q s)"
  by (auto simp: emp_walk_def andThen_def split: sum.splits)

text \<open>The loop over the list of messages.\<close>

fun emp_each :: "(nat \<Rightarrow> 's \<Rightarrow> (emp_stop + 's) option) \<Rightarrow> nat list \<Rightarrow> 's \<Rightarrow> (emp_stop + 's) option" where
  "emp_each f [] s = Some (Inr s)"
| "emp_each f (p # ps) s = ebind (f p s) (emp_each f ps)"

subsection \<open>The allocator\<close>

text \<open>\<open>mmap\<close> answers an address, or fails.\<close>

definition EMPMA_init :: "nat option \<Rightarrow> u8 list \<Rightarrow> emp" where
  "EMPMA_init mm input =
     \<lparr>emem = (\<lambda>_. 0), pStart = (case mm of None \<Rightarrow> 0 | Some a \<Rightarrow> a),
      pageTable = (case mm of None \<Rightarrow> [] | Some a \<Rightarrow> [a]),
      g_empMlist = [], g_empCurm = 0, g_msgCnt = 0, emp_in = input, emp_out = []\<rparr>"

text \<open>The two ways a page is taken: a new one, behind which the next page is entered, and one that was freed.\<close>

definition page_fresh :: "nat \<Rightarrow> nat \<Rightarrow> emp \<Rightarrow> emp_stop + nat \<times> emp" where
  "page_fresh n p s =
     andThen (wr p [1] s) (\<lambda>s. andThen (wr32 (p + 4) n s) (\<lambda>s.
       let nxt = p + sizeof_page + sizeof_page * (n div sizeof_page) in
       andThen (wr32 (p + 8) nxt s) (\<lambda>s. Inr (p + sizeof_page, s\<lparr>pageTable := pageTable s @ [nxt]\<rparr>))))"

definition page_reuse :: "nat \<Rightarrow> nat \<Rightarrow> emp \<Rightarrow> emp_stop + nat \<times> emp" where
  "page_reuse n p s =
     andThen (wr (p + sizeof_page) (replicate n 0) s) (\<lambda>s. andThen (wr p [1] s) (\<lambda>s. Inr (p + sizeof_page, s)))"

text \<open>The loop over the pages. \<open>pHead\<close> is not set where no page is taken.\<close>

fun page_scan :: "nat \<Rightarrow> nat list \<Rightarrow> emp \<Rightarrow> emp_stop + nat \<times> emp" where
  "page_scan n [] s = Inl Undef"
| "page_scan n (p # ps) s =
     (if p = 0 then page_scan n ps s
      else andThen (rd_bool p s) (\<lambda>bUsed.
        if bUsed then page_scan n ps s
        else andThen (rd32 (p + 4) s) (\<lambda>sz.
          if sz = 0 then page_fresh n p s
          else if sint (of_nat sz :: u32) < int n then page_scan n ps s
          else page_reuse n p s)))"

definition emp_alloc :: "nat \<Rightarrow> emp \<Rightarrow> emp_stop + nat \<times> emp" where
  "emp_alloc n s = (if MMAP_SIZE \<le> n then Inr (0, s) else page_scan n (pageTable s) s)"

definition emp_free :: "nat \<Rightarrow> emp \<Rightarrow> emp_stop + emp" where
  "emp_free ptr s =
     (let pHead = (ptr + 2 ^ 32 - sizeof_page) mod 2 ^ 32 in
      if pHead \<in> set (pageTable s)
      then andThen (rd_bool pHead s) (\<lambda>bUsed. if \<not> bUsed then Inr s else wr pHead [0] s)
      else Inr s)"

subsection \<open>Messages\<close>

text \<open>Where the fields of a \<open>pMessage\<close> are.\<close>

abbreviation (input) f_type :: "nat \<Rightarrow> nat" where "f_type p \<equiv> p"
abbreviation (input) f_idx :: "nat \<Rightarrow> nat" where "f_idx p \<equiv> p + 1"
abbreviation (input) f_size :: "nat \<Rightarrow> nat" where "f_size p \<equiv> p + 2"
abbreviation (input) f_data :: "nat \<Rightarrow> nat" where "f_data p \<equiv> p + 3"
abbreviation (input) f_HashFunc :: "nat \<Rightarrow> nat" where "f_HashFunc p \<equiv> p + 36"
abbreviation (input) f_prev :: "nat \<Rightarrow> nat" where "f_prev p \<equiv> p + 40"
abbreviation (input) f_next :: "nat \<Rightarrow> nat" where "f_next p \<equiv> p + 44"

definition empGetMtype :: "u8 \<Rightarrow> u8" where
  "empGetMtype byte = (if byte AND 0x80 = 0 then 0 else 1)"

definition empGetMsize :: "u8 \<Rightarrow> u8" where
  "empGetMsize byte = byte AND 0x1F"

definition empGetMidx :: "u8 \<Rightarrow> u8" where
  "empGetMidx byte = drop_bit 5 (byte AND 0x60)"

subsection \<open>Hash functions\<close>

text \<open>\<open>char\<close> is signed.\<close>

definition srv_turn :: "u8 \<Rightarrow> u32 \<times> u32 \<Rightarrow> u32 \<times> u32" where
  "srv_turn b = (\<lambda>(s1, s2). let s1 = (s1 + scast b) mod 65521; s2 = (s2 + s1) mod 65521 in (s1, s2))"

primrec srv_loop :: "nat \<Rightarrow> nat \<Rightarrow> u32 \<times> u32 \<Rightarrow> emp \<Rightarrow> emp_stop + u32 \<times> u32" where
  "srv_loop buffer 0 sums s = Inr sums"
| "srv_loop buffer (Suc n) sums s = andThen (rd8 buffer s) (\<lambda>b. srv_loop (buffer + 1) n (srv_turn b sums) s)"

definition empSrvHsum :: "nat \<Rightarrow> u8 \<Rightarrow> emp \<Rightarrow> emp_stop + u32" where
  "empSrvHsum buffer size' s =
     andThen (srv_loop buffer (unat size') (1, 0) s) (\<lambda>(s1, s2). Inr ((s2 XOR s2) - 1))"

definition cli_turn :: "u8 \<Rightarrow> u32 \<times> u32 \<Rightarrow> u32 \<times> u32" where
  "cli_turn b = (\<lambda>(s1, s2). let s2 = (s1 + scast b) mod 31337; s1 = (s2 - s1) mod 31337 in (s1, s2))"

function cli_loop :: "nat \<Rightarrow> nat \<Rightarrow> nat \<Rightarrow> u32 \<times> u32 \<Rightarrow> emp \<Rightarrow> emp_stop + u32 \<times> u32" where
  "cli_loop buffer size' n sums s =
     (if size' < n then andThen (rd8 (buffer + n) s) (\<lambda>b. cli_loop buffer size' (n - 1) (cli_turn b sums) s)
      else Inr sums)"
  by pat_completeness auto
termination by (relation "measure (\<lambda>(buffer, size', n, sums, s). n)") auto

declare cli_loop.simps [simp del]

definition empCliHsum :: "nat \<Rightarrow> u8 \<Rightarrow> emp \<Rightarrow> emp_stop + u32" where
  "empCliHsum buffer size' s =
     andThen (cli_loop buffer (unat size') (unat size') (1, 0) s)
       (\<lambda>(s1, s2). Inr ((push_bit 16 s2 OR s1) XOR of_nat buffer))"

text \<open>The call \<open>(*p->HashFunc)(p->data, p->size)\<close>.\<close>

definition call_hash :: "emp_env \<Rightarrow> nat \<Rightarrow> emp \<Rightarrow> emp_stop + u32" where
  "call_hash env p s =
     andThen (rd32 (f_HashFunc p) s) (\<lambda>f. andThen (rd8 (f_size p) s) (\<lambda>sz.
       if f = srv_at env then empSrvHsum (f_data p) sz s
       else if f = cli_at env then empCliHsum (f_data p) sz s
       else Inl (Call f)))"

subsection \<open>Receiving a message\<close>

text \<open>\<open>fgetc\<close>: at the end of the input it answers -1.\<close>

definition emp_getc :: "emp \<Rightarrow> u8 \<times> emp" where
  "emp_getc s = (case emp_in s of [] \<Rightarrow> (0xFF, s) | b # bs \<Rightarrow> (b, s\<lparr>emp_in := bs\<rparr>))"

text \<open>The loop with \<open>fread\<close>: at the end of the input the buffer keeps its zeros. The first \<open>size\<close> bytes of \<open>buf\<close>.\<close>

definition emp_fread :: "nat \<Rightarrow> emp \<Rightarrow> u8 list \<times> emp" where
  "emp_fread n s = (let got = take n (emp_in s) in
     (got @ replicate (n - length got) 0, s\<lparr>emp_in := drop n (emp_in s)\<rparr>))"

text \<open>The fields of a new message, in the order the code sets them.\<close>

definition link_prev :: "nat \<Rightarrow> nat \<Rightarrow> emp \<Rightarrow> emp_stop + emp" where
  "link_prev msg prev s =
     (if prev = 0 then Inr s else andThen (wr32 (f_prev msg) prev s) (\<lambda>s. wr32 (f_next prev) msg s))"

definition fill_msg :: "emp_env \<Rightarrow> nat \<Rightarrow> u8 \<Rightarrow> u8 list \<Rightarrow> emp \<Rightarrow> emp_stop + emp" where
  "fill_msg env msg header buf s =
     andThen (wr32 (f_HashFunc msg) (if empGetMtype header \<noteq> 0 then cli_at env else srv_at env) s) (\<lambda>s.
     andThen (wr (f_type msg) [empGetMtype header] s) (\<lambda>s.
     andThen (wr (f_size msg) [empGetMsize header] s) (\<lambda>s.
     andThen (wr (f_idx msg) [empGetMidx header] s) (\<lambda>s.
     wr (f_data msg) buf s))))"

text \<open>One call without the recursion: the new message.\<close>

definition dcd_one :: "emp_env \<Rightarrow> nat \<Rightarrow> u8 \<Rightarrow> nat \<Rightarrow> emp \<Rightarrow> emp_stop + nat \<times> emp" where
  "dcd_one env prev header num s =
     (case emp_fread (unat (empGetMsize header)) s of (buf, s) \<Rightarrow>
      andThen (emp_alloc sizeof_msg s) (\<lambda>(msg, s).
      if msg = 0 then Inl (Exit 255 (emp_out s @ ascii ''[MemError] => Terminating''))
      else
      andThen (wr msg (replicate sizeof_msg 0) s) (\<lambda>s.
      let s = (if num = 0 then s\<lparr>g_empCurm := msg\<rparr> else s) in
      andThen (link_prev msg prev s) (\<lambda>s.
      andThen (fill_msg env msg header buf s) (\<lambda>s.
      Inr (msg, s\<lparr>g_msgCnt := g_msgCnt s + 1\<rparr>))))))"

text \<open>The recursion is at most three deep: \<open>left\<close> counts down what is left of it.\<close>

primrec dcd_left :: "nat \<Rightarrow> emp_env \<Rightarrow> nat \<Rightarrow> u8 \<Rightarrow> nat \<Rightarrow> emp \<Rightarrow> emp_stop + emp" where
  "dcd_left 0 env prev header num s = Inr s"
| "dcd_left (Suc left) env prev header num s =
     andThen (dcd_one env prev header num s) (\<lambda>(msg, s).
       if empGetMidx header \<noteq> 0 \<and> num + 1 < 3
       then case emp_getc s of (nextHeader, s) \<Rightarrow> dcd_left left env msg nextHeader (num + 1) s
       else Inr s)"

definition empDcdPmsg :: "emp_env \<Rightarrow> nat \<Rightarrow> u8 \<Rightarrow> emp \<Rightarrow> emp_stop + emp" where
  "empDcdPmsg env prev header s = dcd_left 3 env prev header 0 s"

subsection \<open>Answers\<close>

text \<open>\<open>tmp\<close> after a \<open>memcpy\<close> of \<open>n\<close> bytes from \<open>data + i\<close>, as \<open>cout\<close> prints it. The text ends with a zero byte.\<close>

definition tmp_text :: "u8 list \<Rightarrow> nat \<Rightarrow> nat \<Rightarrow> u8 list" where
  "tmp_text data i n = takeWhile (\<lambda>b. b \<noteq> 0) (take n (drop i (data @ [0])))"

definition snd_part :: "u8 list \<Rightarrow> nat \<Rightarrow> nat \<Rightarrow> nat \<Rightarrow> u8 list" where
  "snd_part data len msgCount i =
     (let header = push_bit 5 (of_nat msgCount) :: u8 in
      if msgCount = 1 then [header + of_nat len] @ data
      else if msgCount = 2 then
        (if i = 0 then [header + 31] @ tmp_text data 0 31
         else [header + (of_nat len - 31)] @ tmp_text data 32 (len - 31))
      else
        (if i = 0 then [header + 31] @ tmp_text data 0 31
         else if i = 1 then [header + 31] @ tmp_text data 32 31
         else [header + (of_nat len - 62)] @ tmp_text data 63 (len - 62)))"

definition empSndmsg :: "u8 list \<Rightarrow> emp \<Rightarrow> emp" where
  "empSndmsg data s =
     (let len = min (length data) 93; msgCount = len div 31 + 1 in
      s\<lparr>emp_out := emp_out s @ concat (map (snd_part data len msgCount) [0..<msgCount])\<rparr>)"

definition empSndLmsg :: "u8 list \<Rightarrow> emp \<Rightarrow> emp" where
  "empSndLmsg data s = s\<lparr>emp_out := emp_out s @ [0] @ data\<rparr>"

subsection \<open>Operations on the list of messages\<close>

text \<open>\<open>empGetall\<close>: \<open>strncat\<close> behind what the buffer holds, with the length \<open>size - 1\<close> taken modulo 2^32 where the first
  byte is left out.\<close>

definition emp_total :: "nat \<Rightarrow> emp \<Rightarrow> (emp_stop + nat) option" where
  "emp_total fuel s = emp_each (\<lambda>p total. emp_walk (\<lambda>p total.
       andThen (rd8 (f_size p) s) (\<lambda>sz. andThen (rd32 (f_next p) s) (\<lambda>q. Inr (q, total + unat sz + 1)))) fuel p total)
     (g_empMlist s) 0"

definition emp_strncat :: "nat \<Rightarrow> nat \<Rightarrow> nat \<Rightarrow> emp \<Rightarrow> emp_stop + emp" where
  "emp_strncat dst src n s =
     andThen (cstr dst s) (\<lambda>old. andThen (strn src n s) (\<lambda>t. wr (dst + length old) (t @ [0]) s))"

definition getall_turn :: "nat \<Rightarrow> nat \<Rightarrow> emp \<Rightarrow> emp_stop + nat \<times> emp" where
  "getall_turn all p s =
     andThen (rd8 (f_idx p) s) (\<lambda>idx. andThen (rd8 (f_size p) s) (\<lambda>sz.
     andThen (if idx = 0 then emp_strncat all (f_data p + 1) ((unat sz + 2 ^ 32 - 1) mod 2 ^ 32) s
              else emp_strncat all (f_data p) (unat sz) s) (\<lambda>s.
     andThen (rd32 (f_next p) s) (\<lambda>q. Inr (q, s)))))"

definition empGetall :: "nat \<Rightarrow> emp \<Rightarrow> (emp_stop + u8 list \<times> emp) option" where
  "empGetall fuel s =
     ebind (emp_total fuel s) (\<lambda>total.
     case emp_alloc (total + 1) s of Inl e \<Rightarrow> Some (Inl e) | Inr (all, s) \<Rightarrow>
     if all = 0 then Some (Inl (Exit 255 (emp_out s @ ascii ''[MemError] => Terminating'')))
     else ebind (emp_each (emp_walk (getall_turn all) fuel) (g_empMlist s) s)
       (\<lambda>s. Some (andThen (cstr all s) (\<lambda>t. Inr (t, s)))))"

primrec rmall_loop :: "nat list \<Rightarrow> emp \<Rightarrow> emp_stop + emp" where
  "rmall_loop [] s = Inr s"
| "rmall_loop (p # ps) s =
     andThen (emp_free p s) (\<lambda>s. andThen (wr p (replicate sizeof_msg 0) s) (rmall_loop ps))"

definition empRmall :: "emp \<Rightarrow> emp_stop + emp" where
  "empRmall s = andThen (rmall_loop (g_empMlist s) s) (\<lambda>s. Inr (s\<lparr>g_empMlist := []\<rparr>))"

text \<open>\<open>setfill('0') << setw(8)\<close> of a number.\<close>

definition setw8 :: "u32 \<Rightarrow> u8 list" where
  "setw8 w = (let t = dec_text (unat w) in replicate (8 - length t) 48 @ t)"

definition out_of_range :: "u8 \<Rightarrow> emp \<Rightarrow> bool" where
  "out_of_range idx s \<longleftrightarrow> MESSAGE_LIMIT < unat idx \<or> length (g_empMlist s) - 1 < unat idx"

text \<open>The text that is returned is gone by the time it is sent.\<close>

definition gethsum_turn :: "emp_env \<Rightarrow> emp \<Rightarrow> nat \<Rightarrow> u8 list \<Rightarrow> emp_stop + nat \<times> u8 list" where
  "gethsum_turn env s p ss =
     andThen (call_hash env p s) (\<lambda>hash. andThen (rd32 (f_next p) s) (\<lambda>q. Inr (q, ss @ setw8 hash)))"

definition empGethsum :: "emp_env \<Rightarrow> nat \<Rightarrow> u8 \<Rightarrow> emp \<Rightarrow> (emp_stop + u8 list) option" where
  "empGethsum env fuel idx s =
     (if g_empMlist s = [] then Some (Inr (ascii ''[GetHash] => Return: No Messages''))
      else if out_of_range idx s then Some (Inr (ascii ''[GetHash] => Return: Out of Range''))
      else ebind (emp_walk (gethsum_turn env s) fuel (g_empMlist s ! unat idx) [])
        (\<lambda>ss. Some (Inr (dangling env s ss))))"

definition getmsg_turn :: "emp \<Rightarrow> nat \<Rightarrow> nat \<times> u8 list \<Rightarrow> emp_stop + nat \<times> nat \<times> u8 list" where
  "getmsg_turn s p = (\<lambda>(len, ss).
     andThen (rd8 (f_size p) s) (\<lambda>sz. andThen (rd8 (f_idx p) s) (\<lambda>idx.
     andThen (cstr (if idx = 0 then f_data p + 1 else f_data p) s) (\<lambda>t.
     andThen (rd32 (f_next p) s) (\<lambda>q. Inr (q, len + unat sz, ss @ t))))))"

text \<open>\<open>memcpy(buf, ss.str().c_str(), len + 1)\<close> may read behind the text.\<close>

definition copy_out :: "emp_env \<Rightarrow> nat \<Rightarrow> u8 list \<Rightarrow> emp \<Rightarrow> emp_stop + u8 list \<times> emp" where
  "copy_out env len ss s =
     andThen (emp_alloc (len + 1) s) (\<lambda>(buf, s1).
     andThen (wr buf (take (len + 1) (ss @ [0] @ map (behind env s ss) [0..<len])) s1) (\<lambda>s1.
     andThen (cstr buf s1) (\<lambda>t. Inr (t, s1))))"

definition empGetmsg :: "emp_env \<Rightarrow> nat \<Rightarrow> u8 \<Rightarrow> emp \<Rightarrow> (emp_stop + u8 list \<times> emp) option" where
  "empGetmsg env fuel idx s =
     (if g_empMlist s = [] then Some (Inr (ascii ''[GetMessage] => Return: No Messages'', s))
      else if out_of_range idx s then Some (Inr (ascii ''[GetMessage] => Return: Out of Range'', s))
      else ebind (emp_walk (getmsg_turn s) fuel (g_empMlist s ! unat idx) (0, []))
        (\<lambda>(len, ss). Some (copy_out env len ss s)))"

definition rmmsg_turn :: "nat \<Rightarrow> emp \<Rightarrow> emp_stop + nat \<times> emp" where
  "rmmsg_turn p s = andThen (rd32 (f_next p) s) (\<lambda>q. andThen (emp_free q s) (\<lambda>s. Inr (q, s)))"

definition empRmmsg :: "nat \<Rightarrow> u8 \<Rightarrow> emp \<Rightarrow> (emp_stop + bool \<times> emp) option" where
  "empRmmsg fuel idx s =
     (if MESSAGE_LIMIT < unat idx \<or> length (g_empMlist s) < unat idx then Some (Inr (False, s))
      else if unat idx = length (g_empMlist s) then Some (Inl Undef)
      else ebind (emp_walk rmmsg_turn fuel (g_empMlist s ! unat idx) s)
        (\<lambda>s. Some (Inr (True, s\<lparr>g_empMlist := take (unat idx) (g_empMlist s) @ drop (unat idx + 1) (g_empMlist s)\<rparr>))))"

definition clrinvd_turn :: "emp_env \<Rightarrow> nat \<Rightarrow> u16 \<times> emp \<Rightarrow> emp_stop + nat \<times> u16 \<times> emp" where
  "clrinvd_turn env p = (\<lambda>(count', s).
     andThen (rd32 (f_next p) s) (\<lambda>q. andThen (call_hash env p s) (\<lambda>hash.
     if hash = 0xFFFFFFFF then andThen (emp_free p s) (\<lambda>s. Inr (q, count' + 1, s))
     else Inr (q, count', s))))"

definition empClrInvdmsg :: "emp_env \<Rightarrow> nat \<Rightarrow> emp \<Rightarrow> (emp_stop + u16 \<times> emp) option" where
  "empClrInvdmsg env fuel s = emp_each (emp_walk (clrinvd_turn env) fuel) (g_empMlist s) (0, s)"

subsection \<open>Commands\<close>

definition cmd_store :: "nat \<Rightarrow> emp \<Rightarrow> emp" where
  "cmd_store p s =
     (if length (g_empMlist s) = MESSAGE_LIMIT then empSndmsg (ascii ''[StoreMessage] => Return: Failed, Store Full'') s
      else empSndmsg (ascii ''[StoreMessage] => Return: Success'') (s\<lparr>g_empMlist := g_empMlist s @ [p]\<rparr>))"

definition cmd_count :: "emp \<Rightarrow> emp" where
  "cmd_count s = empSndmsg (ascii ''[MsgCount] => Return: '' @ dec_text (length (g_empMlist s))) s"

definition cmd_delete :: "nat \<Rightarrow> u8 \<Rightarrow> emp \<Rightarrow> (emp_stop + emp) option" where
  "cmd_delete fuel idx s = ebind (empRmmsg fuel idx s) (\<lambda>(ok, s).
     Some (Inr (empSndmsg (ascii (if ok then ''[DeleteMessage] => Return: Success'' else ''[DeleteMessage] => Return: Fail'')) s)))"

definition cmd_clear :: "emp_env \<Rightarrow> nat \<Rightarrow> emp \<Rightarrow> (emp_stop + emp) option" where
  "cmd_clear env fuel s = ebind (empClrInvdmsg env fuel s) (\<lambda>(retval, s).
     Some (Inr (empSndmsg (if retval \<noteq> 0 then ascii ''[ClearInvalid] => Return: '' @ dec_text (unat retval)
                           else ascii ''[ClearInvalid] => Return: Fail'') s)))"

definition emp_command :: "emp_env \<Rightarrow> nat \<Rightarrow> u8 \<Rightarrow> nat \<Rightarrow> emp \<Rightarrow> (emp_stop + emp) option" where
  "emp_command env fuel cmd p s =
     (if cmd = 0x00 then Some (empRmall s)
      else if cmd = 0x10 then Some (Inr (cmd_store p s))
      else if cmd = 0x40 then Some (Inr (cmd_count s))
      else if cmd = 0x60 then ebind (empGetall fuel s) (\<lambda>(t, s). Some (Inr (empSndLmsg t s)))
      else if cmd = 0xFE then cmd_clear env fuel s
      else if cmd = 0x20 \<or> cmd = 0x30 \<or> cmd = 0x50 then
        ebind (Some (rd8 (f_data p + 1) s)) (\<lambda>idx.
          if cmd = 0x20 then ebind (empGethsum env fuel idx s) (\<lambda>t. Some (Inr (empSndmsg t s)))
          else if cmd = 0x30 then ebind (empGetmsg env fuel idx s) (\<lambda>(t, s). Some (Inr (empSndmsg t s)))
          else cmd_delete fuel idx s)
      else Some (Inl (Exit 0 (emp_out (empSndmsg (ascii ''[Terminate] => Return: Success'') s)))))"

definition release_turn :: "nat \<Rightarrow> emp \<Rightarrow> emp_stop + nat \<times> emp" where
  "release_turn p s = andThen (rd32 (f_next p) s) (\<lambda>q. andThen (emp_free p s) (\<lambda>s. Inr (q, s)))"

definition empDcdPmsgCmd :: "emp_env \<Rightarrow> nat \<Rightarrow> emp \<Rightarrow> (emp_stop + emp) option" where
  "empDcdPmsgCmd env fuel s =
     (let p = g_empCurm s in
      ebind (Some (rd8 (f_idx p) s)) (\<lambda>idx.
        if idx = 0 \<or> idx = 1
        then ebind (Some (rd8 (f_data p) s)) (\<lambda>cmd.
          ebind (emp_command env fuel cmd p s) (\<lambda>s.
            if cmd \<noteq> 0x10 then emp_walk release_turn fuel p s else Some (Inr s)))
        else Some (Inr s)))"

subsection \<open>The service\<close>

definition emp_turn :: "emp_env \<Rightarrow> nat \<Rightarrow> emp \<Rightarrow> (emp_stop + emp) option" where
  "emp_turn env fuel s =
     (case emp_getc s of (byte, s) \<Rightarrow>
      if empGetMtype byte \<noteq> 0
      then ebind (Some (empDcdPmsg env 0 byte s)) (empDcdPmsgCmd env fuel)
      else Some (Inr s))"

primrec emp_loop :: "emp_env \<Rightarrow> nat \<Rightarrow> nat \<Rightarrow> emp \<Rightarrow> (emp_stop + emp) option" where
  "emp_loop env fuel 0 s = None"
| "emp_loop env fuel (Suc n) s = ebind (emp_turn env fuel s) (\<lambda>s.
     if MESSAGE_LIMIT < unat (g_msgCnt s) then Some (Inr s) else emp_loop env fuel n s)"

definition emp_main :: "emp_env \<Rightarrow> nat \<Rightarrow> nat \<Rightarrow> nat option \<Rightarrow> u8 list \<Rightarrow> (emp_stop + u8 list) option" where
  "emp_main env fuel n mm input = ebind (emp_loop env fuel n (EMPMA_init mm input)) (\<lambda>s. Some (Inr (emp_out s)))"

end
