(* ===== verification/Empanada_Pool.thy ===== *)
theory Empanada_Pool
  imports Empanada
begin

unbundle bit_operations_syntax

text \<open>
  The allocator of \<open>src/empanada\<close> when it is asked for messages only: pages of 60 bytes one behind the other, the state of
  each a truth value, and a page that was never used behind the last. A message is put into the first page that is free.
\<close>

subsection \<open>Bytes\<close>

lemma length_peek [simp]: "length (peek a n m) = n"
  by (simp add: peek_def)

lemma peek_nth: "i < n \<Longrightarrow> peek a n m ! i = m (a + i)"
  by (simp add: peek_def)

lemma peek_cong: "(\<And>b. a \<le> b \<Longrightarrow> b < a + n \<Longrightarrow> m b = m' b) \<Longrightarrow> peek a n m = peek a n m'"
  by (simp add: peek_def)

lemma peek_poke: "peek a (length bs) (poke a bs m) = bs"
  by (rule nth_equalityI) (simp_all add: peek_nth poke_def)

lemma peek_poke_other: "a + n \<le> b \<or> b + length bs \<le> a \<Longrightarrow> peek a n (poke b bs m) = peek a n m"
  by (rule peek_cong) (auto simp: poke_def)

lemma poke_other: "b < a \<or> a + length bs \<le> b \<Longrightarrow> poke a bs m b = m b"
  by (auto simp: poke_def)

lemma poke_byte [simp]: "poke a [v] m = m(a := v)"
  by (auto simp: poke_def fun_eq_iff)

lemma peek_one [simp]: "peek a (Suc 0) m = [m a]"
  by (simp add: peek_def)

lemma peek_fun_upd: "b < a \<or> a + n \<le> b \<Longrightarrow> peek a n (m(b := v)) = peek a n m"
  by (rule peek_cong) auto

definition word_at :: "nat \<Rightarrow> (nat \<Rightarrow> u8) \<Rightarrow> nat" where
  "word_at a m = of_le32 (peek a 4 m)"

lemma word_at_poke: "v < 2 ^ 32 \<Longrightarrow> word_at a (poke a (le32 (of_nat v)) m) = v"
  using peek_poke [of a "le32 (of_nat v)" m] by (simp add: word_at_def of_le32_le32)

lemma word_at_poke_other: "a + 4 \<le> b \<or> b + length bs \<le> a \<Longrightarrow> word_at a (poke b bs m) = word_at a m"
  by (simp add: word_at_def peek_poke_other)

lemma word_at_fun_upd: "b < a \<or> a + 4 \<le> b \<Longrightarrow> word_at a (m(b := v)) = word_at a m"
  by (simp add: word_at_def peek_fun_upd)

lemma word_at_cong: "(\<And>b. a \<le> b \<Longrightarrow> b < a + 4 \<Longrightarrow> m b = m' b) \<Longrightarrow> word_at a m = word_at a m'"
  unfolding word_at_def by (metis peek_cong)

lemma word_at_zero: "(\<And>b. a \<le> b \<Longrightarrow> b < a + 4 \<Longrightarrow> m b = 0) \<Longrightarrow> word_at a m = 0"
  by (simp add: word_at_def of_le32_def peek_nth)

lemma rd8_mapped: "mapped s a 1 \<Longrightarrow> rd8 a s = Inr (emem s a)"
  by (simp add: rd8_def rd_def)

lemma rd32_mapped: "mapped s a 4 \<Longrightarrow> rd32 a s = Inr (word_at a (emem s))"
  by (simp add: rd32_def rd_def word_at_def)

lemma wr_mapped: "mapped s a (length bs) \<Longrightarrow> wr a bs s = Inr (s\<lparr>emem := poke a bs (emem s)\<rparr>)"
  by (simp add: wr_def)

lemma wr32_mapped: "mapped s a 4 \<Longrightarrow> wr32 a v s = Inr (s\<lparr>emem := poke a (le32 (of_nat v)) (emem s)\<rparr>)"
  by (simp add: wr32_def wr_mapped)

lemmas emp_access = rd8_mapped rd32_mapped wr_mapped wr32_mapped

lemma mapped_iff [simp]:
  "mapped (emem_update f s) a n = mapped s a n" "mapped (pageTable_update g s) a n = mapped s a n"
  "mapped (g_empCurm_update h s) a n = mapped s a n" "mapped (g_msgCnt_update c s) a n = mapped s a n"
  "mapped (emp_in_update i s) a n = mapped s a n" "mapped (emp_out_update i s) a n = mapped s a n"
  "mapped (g_empMlist_update l s) a n = mapped s a n"
  by (simp_all add: mapped_def)

subsection \<open>Pages of messages\<close>

definition pg :: "nat \<Rightarrow> nat \<Rightarrow> nat" where
  "pg a i = a + 60 * i"

definition pool :: "nat \<Rightarrow> (nat \<Rightarrow> u8) \<Rightarrow> nat list \<Rightarrow> bool list \<Rightarrow> bool" where
  "pool a m t fl \<longleftrightarrow> 0 < a \<and> a + MMAP_SIZE < 2 ^ 32 \<and> t = map (pg a) [0..<Suc (length fl)]
     \<and> (\<forall>i<length fl. m (pg a i) = of_bool (fl ! i) \<and> word_at (pg a i + 4) m = 48)
     \<and> (\<forall>b\<ge>pg a (length fl). m b = 0)"

definition room :: "bool list \<Rightarrow> bool" where
  "room fl \<longleftrightarrow> length fl < 17000"

lemma pool_mapped: "pStart s = a \<Longrightarrow> pool a m t fl \<Longrightarrow> room fl \<Longrightarrow> i \<le> length fl \<Longrightarrow> k + n \<le> 60 \<Longrightarrow> mapped s (pg a i + k) n"
  by (simp add: mapped_def pool_def room_def pg_def MMAP_SIZE_def)

text \<open>What changes outside of the headers and of the unused part does not concern the pool.\<close>

lemma pool_body:
  assumes "pool a m t fl" and "\<And>b. m' b \<noteq> m b \<Longrightarrow> \<exists>i<length fl. pg a i + 12 \<le> b \<and> b < pg a i + 60"
  shows "pool a m' t fl"
proof -
  have out: "m' b = m b" if o: "\<And>i. i < length fl \<Longrightarrow> b < pg a i + 12 \<or> pg a i + 60 \<le> b" for b
    using assms(2) [of b] o by fastforce
  have h: "m' b = m b" if "i < length fl" "pg a i \<le> b" "b < pg a i + 12" for i b
  proof (rule out)
    fix j assume "j < length fl"
    show "b < pg a j + 12 \<or> pg a j + 60 \<le> b"
      using that(2,3) by (cases i j rule: linorder_cases) (simp_all add: pg_def)
  qed
  have w: "word_at (pg a i + 4) m' = word_at (pg a i + 4) m" if "i < length fl" for i
    by (rule word_at_cong) (use h that in auto)
  have z: "m' b = m b" if "pg a (length fl) \<le> b" for b
    by (rule out) (use that in \<open>simp add: pg_def\<close>)
  show ?thesis using assms(1) h w z by (simp add: pool_def)
qed

subsection \<open>Taking a page\<close>

definition first_free :: "bool list \<Rightarrow> nat" where
  "first_free fl = length (takeWhile id fl)"

definition take_page :: "bool list \<Rightarrow> bool list" where
  "take_page fl = (if first_free fl < length fl then fl[first_free fl := True] else fl @ [True])"

lemma first_free_le: "first_free fl \<le> length fl"
  by (simp add: first_free_def length_takeWhile_le)

lemma first_free_used: "i < first_free fl \<Longrightarrow> fl ! i"
  using nth_mem [of i "takeWhile id fl"] set_takeWhileD [of "fl ! i" id fl]
  by (auto simp: first_free_def takeWhile_nth)

lemma first_free_free: "first_free fl < length fl \<Longrightarrow> \<not> fl ! first_free fl"
  using nth_length_takeWhile [of id fl] by (simp add: first_free_def)

lemma page_scan_skip:
  "(\<And>p. p \<in> set ps \<Longrightarrow> p \<noteq> 0 \<and> rd_bool p s = Inr True) \<Longrightarrow> page_scan n (ps @ qs) s = page_scan n qs s"
  by (induction ps) auto

lemma pool_free_page:
  assumes P: "pool a m t fl" and k: "k < length fl" and out: "\<And>b. b < pg a k \<or> pg a k + 60 \<le> b \<Longrightarrow> m' b = m b"
    and here: "m' (pg a k) = of_bool v" "word_at (pg a k + 4) m' = 48"
  shows "pool a m' t (fl[k := v])"
proof -
  have "m' (pg a i) = of_bool (fl[k := v] ! i) \<and> word_at (pg a i + 4) m' = 48" if i: "i < length fl" for i
  proof (cases "i = k")
    case True
    then show ?thesis using here k by simp
  next
    case False
    then have "pg a i + 8 \<le> pg a k \<or> pg a k + 60 \<le> pg a i" by (cases i k rule: linorder_cases) (auto simp: pg_def)
    then have "m' (pg a i) = m (pg a i)" "word_at (pg a i + 4) m' = word_at (pg a i + 4) m"
      by (auto intro!: out word_at_cong)
    then show ?thesis using P i False by (simp add: pool_def)
  qed
  moreover have "m' b = m b" if "pg a (length fl) \<le> b" for b
    by (rule out) (use that k in \<open>simp add: pg_def\<close>)
  ultimately show ?thesis using P by (simp add: pool_def)
qed

lemma pool_new_page:
  assumes P: "pool a m t fl" and out: "\<And>b. b < pg a (length fl) \<or> pg a (length fl) + 12 \<le> b \<Longrightarrow> m' b = m b"
    and here: "m' (pg a (length fl)) = 1" "word_at (pg a (length fl) + 4) m' = 48"
  shows "pool a m' (t @ [pg a (length fl) + 60]) (fl @ [True])"
proof -
  have "m' (pg a i) = of_bool ((fl @ [True]) ! i) \<and> word_at (pg a i + 4) m' = 48" if i: "i < Suc (length fl)" for i
  proof (cases "i = length fl")
    case True
    then show ?thesis using here by simp
  next
    case False
    then have "pg a i + 8 \<le> pg a (length fl)" using i by (simp add: pg_def)
    then have "m' (pg a i) = m (pg a i)" "word_at (pg a i + 4) m' = word_at (pg a i + 4) m"
      by (auto intro!: out word_at_cong)
    then show ?thesis using P i False by (simp add: pool_def nth_append)
  qed
  moreover have "m' b = 0" if "pg a (Suc (length fl)) \<le> b" for b
    using out [of b] P that by (simp add: pool_def pg_def)
  moreover have "pg a (length fl) + 60 = pg a (Suc (length fl))" by (simp add: pg_def)
  ultimately show ?thesis using P by (simp add: pool_def)
qed

lemma pool_pg0: "pool a m t fl \<Longrightarrow> pg a i \<noteq> 0"
  by (simp add: pool_def pg_def)

lemma rd_bool_pool:
  assumes "pool a (emem s) t fl" "pStart s = a" "room fl" "i < length fl"
  shows "rd_bool (pg a i) s = Inr (fl ! i)"
  using assms pool_mapped [OF assms(2,1,3), of i 0 1] by (simp add: rd_bool_def rd8_mapped pool_def)

lemma pool_rest:
  assumes P: "pool a m t fl" and k: "k \<le> length fl"
  obtains us where "t = map (pg a) [0..<k] @ pg a k # us"
proof
  have "[0..<Suc (length fl)] = [0..<k] @ k # [Suc k..<Suc (length fl)]"
    using upt_add_eq_append [of 0 k "Suc (length fl) - k"] k by (simp add: upt_conv_Cons)
  then show "t = map (pg a) [0..<k] @ pg a k # map (pg a) [Suc k..<Suc (length fl)]"
    using P by (simp add: pool_def)
qed

text \<open>A message gets the first free page, and only this page changes.\<close>

lemma alloc_message:
  assumes P: "pool a (emem s) (pageTable s) fl" and a: "pStart s = a" and R: "room fl"
  obtains m' t' where "emp_alloc sizeof_msg s = Inr (pg a (first_free fl) + 12, s\<lparr>emem := m', pageTable := t'\<rparr>)"
    and "pool a m' t' (take_page fl)"
    and "\<And>b. b < pg a (first_free fl) \<or> pg a (first_free fl) + 60 \<le> b \<Longrightarrow> m' b = emem s b"
proof -
  let ?k = "first_free fl" let ?p = "pg a ?k" let ?m = "emem s"
  have k: "?k \<le> length fl" by (rule first_free_le)
  note M = pool_mapped [OF a P R k]
  have acc: "mapped s ?p (Suc 0)" "mapped s (?p + 4) 4" "mapped s (?p + 8) 4" "mapped s (?p + 12) 48"
    using M [of 0 1] M [of 4 4] M [of 8 4] M [of 12 48] by simp_all
  have lt: "?p + 60 < 2 ^ 32" using P R k by (simp add: pool_def room_def pg_def MMAP_SIZE_def)
  obtain us where t: "pageTable s = map (pg a) [0..<?k] @ ?p # us" using pool_rest [OF P k] .
  have skip: "emp_alloc sizeof_msg s = page_scan 48 (?p # us) s"
  proof -
    have "page_scan 48 (map (pg a) [0..<?k] @ ?p # us) s = page_scan 48 (?p # us) s"
    proof (rule page_scan_skip)
      fix p assume "p \<in> set (map (pg a) [0..<?k])"
      then obtain i where i: "i < ?k" "p = pg a i" by auto
      then show "p \<noteq> 0 \<and> rd_bool p s = Inr True"
        using rd_bool_pool [OF P a R] pool_pg0 [OF P] first_free_used [OF i(1)] k by simp
    qed
    then show ?thesis by (simp add: emp_alloc_def emp_consts t)
  qed
  show thesis
  proof (cases "?k < length fl")
    case True
    have "rd_bool ?p s = Inr False" using rd_bool_pool [OF P a R True] first_free_free [OF True] by simp
    moreover have "word_at (?p + 4) ?m = 48" using P True by (simp add: pool_def)
    ultimately have run: "emp_alloc sizeof_msg s = Inr (?p + 12, s\<lparr>emem := (poke (?p + 12) (replicate 48 0) ?m)(?p := 1),
        pageTable := pageTable s\<rparr>)"
      unfolding skip using pool_pg0 [OF P, of ?k] acc by (simp add: page_reuse_def emp_access sizeof_page_def)
    show thesis
    proof (rule that [OF run])
      show "pool a ((poke (?p + 12) (replicate 48 0) ?m)(?p := 1)) (pageTable s) (take_page fl)"
        unfolding take_page_def if_P [OF True]
        by (rule pool_free_page [OF P True])
          (use P True in \<open>auto simp: poke_other word_at_fun_upd word_at_poke_other pool_def\<close>)
    qed (auto simp: poke_other)
  next
    case False
    then have kk: "?k = length fl" using k by simp
    have new: "take_page fl = fl @ [True]" using False by (simp add: take_page_def)
    have z: "?m b = 0" if "?p \<le> b" for b using P that kk by (simp add: pool_def)
    have "rd_bool ?p s = Inr False" using acc(1) z by (simp add: rd_bool_def emp_access)
    moreover have "word_at (?p + 4) ?m = 0" by (rule word_at_zero) (simp add: z)
    ultimately have run: "emp_alloc sizeof_msg s = Inr (?p + 12, s\<lparr>emem := poke (?p + 8) (le32 (of_nat (?p + 60)))
        (poke (?p + 4) (le32 (of_nat 48)) (?m(?p := 1))), pageTable := pageTable s @ [?p + 60]\<rparr>)"
      unfolding skip using pool_pg0 [OF P, of ?k] acc
      by (simp add: page_fresh_def emp_access sizeof_page_def add.commute [of 60])
    show thesis
    proof (rule that [OF run])
      show "pool a (poke (?p + 8) (le32 (of_nat (?p + 60))) (poke (?p + 4) (le32 (of_nat 48)) (?m(?p := 1))))
        (pageTable s @ [?p + 60]) (take_page fl)"
        unfolding new kk
        by (rule pool_new_page [OF P])
          (auto simp: poke_other word_at_poke_other word_at_poke [of 48, simplified])
    qed (auto simp: poke_other)
  qed
qed


lemma length_take_page: "length (take_page fl) \<le> Suc (length fl)" "length fl \<le> length (take_page fl)"
  "first_free fl < length (take_page fl)"
  by (auto simp: take_page_def first_free_le first_free_def length_takeWhile_le order.strict_iff_order)

lemma take_page_nth:
  "take_page fl ! first_free fl" "i < length fl \<Longrightarrow> i \<noteq> first_free fl \<Longrightarrow> take_page fl ! i = fl ! i"
  using first_free_le [of fl] by (auto simp: take_page_def nth_append le_less)

subsection \<open>Giving a page back\<close>

lemma emp_free_pool:
  assumes P: "pool a (emem s) (pageTable s) fl" and a: "pStart s = a" and R: "room fl" and i: "i < length fl"
  obtains m' where "emp_free (pg a i + 12) s = Inr (s\<lparr>emem := m'\<rparr>)" and "pool a m' (pageTable s) (fl[i := False])"
    and "\<And>b. b \<noteq> pg a i \<Longrightarrow> m' b = emem s b"
proof -
  let ?p = "pg a i"
  have "?p < 2 ^ 32" using P R i by (simp add: pool_def room_def pg_def MMAP_SIZE_def)
  then have hd: "(?p + 12 + 2 ^ 32 - sizeof_page) mod 2 ^ 32 = ?p" by (simp add: sizeof_page_def)
  have mem: "?p \<in> set (pageTable s)" using P i by (auto simp: pool_def)
  have acc: "mapped s ?p (Suc 0)" using pool_mapped [OF a P R, of i 0 1] i by simp
  have rb: "rd_bool ?p s = Inr (fl ! i)" by (rule rd_bool_pool [OF P a R i])
  show thesis
  proof (cases "fl ! i")
    case True
    have "emp_free (?p + 12) s = Inr (s\<lparr>emem := (emem s)(?p := 0)\<rparr>)"
      unfolding emp_free_def hd using mem rb True acc by (simp add: emp_access)
    moreover have "pool a ((emem s)(?p := 0)) (pageTable s) (fl[i := False])"
      by (rule pool_free_page [OF P i]) (use P i in \<open>auto simp: word_at_fun_upd pool_def\<close>)
    ultimately show thesis by (rule that) simp
  next
    case False
    have "emp_free (?p + 12) s = Inr (s\<lparr>emem := emem s\<rparr>)"
      unfolding emp_free_def hd using mem rb False by simp
    moreover have "fl[i := False] = fl" using False by (metis list_update_id)
    ultimately show thesis using P by (intro that) auto
  qed
qed

text \<open>\<open>free(NULL)\<close> does nothing.\<close>

lemma emp_free_null:
  assumes P: "pool a (emem s) (pageTable s) fl" and R: "room fl"
  shows "emp_free 0 s = Inr s"
proof -
  have "(0 + 2 ^ 32 - sizeof_page) mod 2 ^ 32 = 4294967284" by (simp add: sizeof_page_def)
  moreover have "4294967284 \<notin> set (pageTable s)"
  proof
    assume "4294967284 \<in> set (pageTable s)"
    then obtain i where i: "i \<in> set [0..<Suc (length fl)]" "4294967284 = pg a i" using P by (auto simp: pool_def simp del: upt_Suc)
    then have "4294967284 \<le> a + 60 * 17000" using R by (auto simp: pg_def room_def)
    moreover have "a + 1048576 < 4294967296" using P by (simp add: pool_def MMAP_SIZE_def)
    ultimately show False by simp
  qed
  ultimately show ?thesis unfolding emp_free_def by simp
qed

end
