(* ===== verification/Empanada_Spec.thy ===== *)
theory Empanada_Spec
  imports Empanada_Pool
begin

unbundle bit_operations_syntax

text \<open>
  What the service \<open>src/empanada\<close> promises: a list of messages, each of one to three parts, as long as no command is given
  that reads or removes them in a way that breaks the memory. The messages in memory stand for such lists (\<open>chain_at\<close>).
\<close>

subsection \<open>The abstract service\<close>

text \<open>A part is its header and its data.\<close>

type_synonym part = "u8 \<times> u8 list"

definition in_byte :: "u8 list \<Rightarrow> u8 \<times> u8 list" where
  "in_byte inp = (case inp of [] \<Rightarrow> (0xFF, []) | b # bs \<Rightarrow> (b, bs))"

definition in_data :: "u8 \<Rightarrow> u8 list \<Rightarrow> u8 list" where
  "in_data h inp = (let n = unat (empGetMsize h) in take n inp @ replicate (n - length inp) 0)"

primrec in_parts :: "nat \<Rightarrow> u8 \<Rightarrow> u8 list \<Rightarrow> part list \<times> u8 list" where
  "in_parts 0 h inp = ([], inp)"
| "in_parts (Suc left) h inp =
     (let inp' = drop (unat (empGetMsize h)) inp in
      if empGetMidx h \<noteq> 0 \<and> left \<noteq> 0
      then case in_byte inp' of (h', inp'') \<Rightarrow> case in_parts left h' inp'' of (fs, rest) \<Rightarrow> ((h, in_data h inp) # fs, rest)
      else ([(h, in_data h inp)], inp'))"

text \<open>How a text is framed: character 31 is left out, and the last part announces a byte left than it has.\<close>

definition frames :: "u8 list \<Rightarrow> u8 list" where
  "frames t = (let n = length t in
     if n < 31 then (0x20 + of_nat n) # t
     else if n < 62 then 0x5F # take 31 t @ (0x40 + of_nat (n - 31)) # drop 32 t
     else if n < 93 then 0x7F # take 31 t @ 0x7F # take 31 (drop 32 t) @ (0x60 + of_nat (n - 62)) # drop 63 t
     else 0x9F # take 31 t @ 0x9F # take 31 (drop 32 t) @ 0x9F # take 31 (drop 63 t) @ 0x9F # take 31 (drop 63 t))"

text \<open>What a command does to the stored messages: a new list and the answer, the end, or something not described here.\<close>

datatype outcome = Goes "part list list" "u8 list" | Ends emp_stop | Beyond

definition spec_answer :: "u8 \<Rightarrow> nat \<Rightarrow> part list \<Rightarrow> part list list \<Rightarrow> u8 list \<Rightarrow> outcome" where
  "spec_answer cmd arg fs store out =
     (if cmd = 0x00 then Goes [] out
      else if cmd = 0x10 then
        (if length store = MESSAGE_LIMIT then Goes store (out @ frames (ascii ''[StoreMessage] => Return: Failed, Store Full''))
         else Goes (store @ [fs]) (out @ frames (ascii ''[StoreMessage] => Return: Success'')))
      else if cmd = 0x40 then Goes store (out @ frames (ascii ''[MsgCount] => Return: '' @ dec_text (length store)))
      else if cmd = 0x50 then
        (if MESSAGE_LIMIT < arg \<or> length store < arg then Goes store (out @ frames (ascii ''[DeleteMessage] => Return: Fail''))
         else if arg = length store then Ends Undef
         else Goes (take arg store @ drop (arg + 1) store) (out @ frames (ascii ''[DeleteMessage] => Return: Success'')))
      else if cmd = 0x20 \<or> cmd = 0x30 \<or> cmd = 0x60 \<or> cmd = 0xFE then Beyond
      else Ends (Exit 0 (out @ frames (ascii ''[Terminate] => Return: Success''))))"

text \<open>A message whose first part has another index than 0 and 1 is no command.\<close>

definition spec_command :: "part list \<Rightarrow> part list list \<Rightarrow> u8 list \<Rightarrow> outcome" where
  "spec_command fs store out =
     (case hd fs of (h, d) \<Rightarrow>
      if empGetMidx h = 0 \<or> empGetMidx h = 1 then spec_answer ((d @ [0]) ! 0) (unat ((d @ [0, 0]) ! 1)) fs store out
      else Goes store out)"

lemma in_parts_length: "length (fst (in_parts left h inp)) \<le> left" "length (snd (in_parts left h inp)) \<le> length inp"
proof (induction left arbitrary: h inp)
  case (Suc left)
  { case 1 show ?case using Suc.IH(1) by (auto simp: Let_def split: prod.splits) (metis fst_conv) }
  { case 2 show ?case
    proof -
      have b: "length (snd (in_byte i)) \<le> length i" for i by (simp add: in_byte_def split: list.splits)
      have "length (snd (in_parts left h' i)) \<le> length i" for h' i by (rule Suc.IH(2))
      then show ?thesis using b [of "drop (unat (empGetMsize h)) inp"]
        by (auto simp: Let_def split: prod.splits) (metis diff_le_self order.trans snd_conv)
    qed }
qed simp_all

lemma in_parts_Nil: "left \<noteq> 0 \<Longrightarrow> fst (in_parts left h inp) \<noteq> []"
  by (cases left) (auto simp: Let_def split: prod.splits)

lemma hd_in_parts: "left \<noteq> 0 \<Longrightarrow> hd (fst (in_parts left h inp)) = (h, in_data h inp)"
  by (cases left) (auto simp: Let_def split: prod.splits)

text \<open>The whole service: bytes that start no message are skipped, and after left than 128 parts it ends.\<close>

datatype 'a result = Returns 'a | Stops emp_stop | Outside

function serve :: "part list list \<Rightarrow> nat \<Rightarrow> u8 list \<Rightarrow> u8 list \<Rightarrow> u8 list result" where
  "serve store cnt inp out =
     (if MESSAGE_LIMIT < cnt then Returns out
      else case in_byte inp of (h, inp1) \<Rightarrow>
        if empGetMtype h = 0 then serve store cnt inp1 out
        else case in_parts 3 h inp1 of (fs, inp2) \<Rightarrow>
          case spec_command fs store out of
            Goes store' out' \<Rightarrow> serve store' (cnt + length fs) inp2 out'
          | Ends e \<Rightarrow> Stops e
          | Beyond \<Rightarrow> Outside)"
  by pat_completeness auto
termination
proof (relation "measure (\<lambda>(store, cnt, inp, out). length inp + (129 - cnt))")
  fix store :: "part list list" and cnt :: nat and inp out inp1 :: "u8 list" and h
  assume "(h, inp1) = in_byte inp" "empGetMtype h = 0"
  then show "((store, cnt, inp1, out), (store, cnt, inp, out)) \<in> measure (\<lambda>(store, cnt, inp, out). length inp + (129 - cnt))"
    by (auto simp: in_byte_def empGetMtype_def split: list.splits)
next
  fix store store' :: "part list list" and cnt :: nat and inp out out' inp1 inp2 :: "u8 list" and h fs
  assume a: "\<not> MESSAGE_LIMIT < cnt" "(h, inp1) = in_byte inp" "(fs, inp2) = in_parts 3 h inp1"
  have "length inp2 \<le> length inp1" using in_parts_length(2) [of 3 h inp1] a(3) by (metis snd_conv)
  moreover have "length inp1 \<le> length inp" using a(2) by (auto simp: in_byte_def split: list.splits)
  moreover have "0 < length fs" using in_parts_Nil [of 3 h inp1] a(3) by (metis fst_conv length_greater_0_conv zero_neq_numeral)
  ultimately show "((store', cnt + length fs, inp2, out'), (store, cnt, inp, out))
      \<in> measure (\<lambda>(store, cnt, inp, out). length inp + (129 - cnt))"
    using a(1) unfolding in_measure prod.case MESSAGE_LIMIT_def by linarith
qed simp

declare serve.simps [simp del]

subsection \<open>Messages in memory\<close>

definition blk :: "nat \<Rightarrow> nat \<Rightarrow> nat" where
  "blk a i = pg a i + 12"

fun msg_at :: "emp_env \<Rightarrow> (nat \<Rightarrow> u8) \<Rightarrow> nat \<Rightarrow> part \<Rightarrow> bool" where
  "msg_at env m p (h, d) \<longleftrightarrow> m p = empGetMtype h \<and> m (p + 1) = empGetMidx h \<and> m (p + 2) = empGetMsize h
     \<and> length d = unat (empGetMsize h) \<and> peek (p + 3) 33 m = d @ replicate (33 - length d) 0
     \<and> word_at (p + 36) m = (if empGetMtype h \<noteq> 0 then cli_at env else srv_at env)"

definition chain_at :: "emp_env \<Rightarrow> nat \<Rightarrow> (nat \<Rightarrow> u8) \<Rightarrow> nat list \<Rightarrow> part list \<Rightarrow> bool" where
  "chain_at env a m is fs \<longleftrightarrow> length is = length fs \<and> (\<forall>j<length is. msg_at env m (blk a (is ! j)) (fs ! j)
     \<and> word_at (blk a (is ! j) + 44) m = (if Suc j < length is then blk a (is ! Suc j) else 0))"

lemma msg_at_cong:
  assumes "\<And>b. p \<le> b \<Longrightarrow> b < p + 40 \<Longrightarrow> m' b = m b"
  shows "msg_at env m' p f = msg_at env m p f"
proof -
  have "peek (p + 3) 33 m' = peek (p + 3) 33 m" by (rule peek_cong) (simp add: assms)
  moreover have "word_at (p + 36) m' = word_at (p + 36) m" by (rule word_at_cong) (simp add: assms)
  ultimately show ?thesis using assms by (cases f) simp
qed

lemma chain_cong:
  assumes "\<And>i b. i \<in> set is \<Longrightarrow> blk a i \<le> b \<Longrightarrow> b < blk a i + 48 \<Longrightarrow> m' b = m b"
  shows "chain_at env a m' is fs = chain_at env a m is fs"
proof -
  have "msg_at env m' (blk a i) f = msg_at env m (blk a i) f" "word_at (blk a i + 44) m' = word_at (blk a i + 44) m"
    if "i \<in> set is" for i f
    using that assms by (auto intro!: msg_at_cong word_at_cong)
  then show ?thesis by (simp add: chain_at_def)
qed

lemma chain_Nil [simp]: "chain_at env a m [] fs \<longleftrightarrow> fs = []"
  by (auto simp: chain_at_def)

text \<open>The part behind the last.\<close>

lemma chain_snoc:
  assumes "chain_at env a m is fs" and "msg_at env m' (blk a k) f" "word_at (blk a k + 44) m' = 0"
    and "\<And>i b. i \<in> set is \<Longrightarrow> blk a i \<le> b \<Longrightarrow> b < blk a i + 44 \<Longrightarrow> m' b = m b"
    and "\<And>i. i \<in> set (butlast is) \<Longrightarrow> word_at (blk a i + 44) m' = word_at (blk a i + 44) m"
    and "is \<noteq> [] \<Longrightarrow> word_at (blk a (last is) + 44) m' = blk a k"
  shows "chain_at env a m' (is @ [k]) (fs @ [f])"
proof -
  have len: "length is = length fs" using assms(1) by (simp add: chain_at_def)
  have "msg_at env m' (blk a ((is @ [k]) ! j)) ((fs @ [f]) ! j)
      \<and> word_at (blk a ((is @ [k]) ! j) + 44) m' = (if Suc j < Suc (length is) then blk a ((is @ [k]) ! Suc j) else 0)"
    if j: "j < Suc (length is)" for j
  proof (cases "j = length is")
    case True
    then show ?thesis using assms(2,3) len by (simp add: nth_append)
  next
    case False
    then have jj: "j < length is" using j by simp
    have "msg_at env m' (blk a (is ! j)) (fs ! j)"
      using assms(1) jj msg_at_cong [of "blk a (is ! j)" m' m] assms(4) [of "is ! j"] by (simp add: chain_at_def)
    moreover have "word_at (blk a (is ! j) + 44) m' = blk a ((is @ [k]) ! Suc j)"
    proof (cases "Suc j = length is")
      case True
      have ne: "is \<noteq> []" using jj by auto
      then have "is ! j = last is" by (simp add: last_conv_nth flip: True)
      then show ?thesis using assms(6) ne True by (simp add: nth_append)
    next
      case False
      then have "is ! j = butlast is ! j" "j < length (butlast is)" using jj by (simp_all add: nth_butlast)
      then have "is ! j \<in> set (butlast is)" by (metis nth_mem)
      then show ?thesis using assms(1,5) jj False by (simp add: chain_at_def nth_append)
    qed
    ultimately show ?thesis using jj len by (simp add: nth_append)
  qed
  then show ?thesis using len by (simp add: chain_at_def)
qed


subsection \<open>Receiving a message\<close>

lemma size_le: "unat (empGetMsize h) \<le> 31"
proof -
  have "empGetMsize h \<le> 0x1F" by (simp add: empGetMsize_def word_and_le1)
  then show ?thesis by (simp add: word_le_nat_alt)
qed

lemma length_in_data [simp]: "length (in_data h inp) = unat (empGetMsize h)"
  by (simp add: in_data_def Let_def)

lemma fread_in_data: "emp_fread (unat (empGetMsize h)) s = (in_data h (emp_in s), s\<lparr>emp_in := drop (unat (empGetMsize h)) (emp_in s)\<rparr>)"
  by (auto simp: emp_fread_def in_data_def Let_def min_def)

lemma poke_zeros: "poke p (replicate n 0) m b = (if p \<le> b \<and> b < p + n then 0 else m b)"
  by (auto simp: poke_def)

lemma peek_poke_padded:
  assumes "length bs \<le> n" and "\<And>b. p + length bs \<le> b \<Longrightarrow> b < p + n \<Longrightarrow> m b = 0"
  shows "peek p n (poke p bs m) = bs @ replicate (n - length bs) 0"
  by (rule nth_equalityI) (use assms in \<open>auto simp: peek_nth poke_def nth_append\<close>)

definition hash_of :: "emp_env \<Rightarrow> u8 \<Rightarrow> nat" where
  "hash_of env h = (if empGetMtype h \<noteq> 0 then cli_at env else srv_at env)"

text \<open>What the code writes into a message after it has cleared it, and into the one before it.\<close>

definition written :: "emp_env \<Rightarrow> nat \<Rightarrow> nat \<Rightarrow> u8 \<Rightarrow> u8 list \<Rightarrow> (nat \<Rightarrow> u8) \<Rightarrow> nat \<Rightarrow> u8" where
  "written env p prev h d m =
     (let m1 = poke p (replicate 48 0) m;
          m2 = (if prev = 0 then m1 else poke (prev + 44) (le32 (of_nat p)) (poke (p + 40) (le32 (of_nat prev)) m1)) in
      poke (p + 3) d (((poke (p + 36) (le32 (of_nat (hash_of env h))) m2)
        (p := empGetMtype h, p + 2 := empGetMsize h, p + 1 := empGetMidx h))))"

definition env_ok :: "emp_env \<Rightarrow> bool" where
  "env_ok env \<longleftrightarrow> cli_at env < 2 ^ 32 \<and> srv_at env < 2 ^ 32"

lemma written_msg:
  assumes "length d = unat (empGetMsize h)" and "env_ok env" and "prev = 0 \<or> prev + 48 \<le> p \<or> p + 48 \<le> prev"
  shows "msg_at env (written env p prev h d m) p (h, d)" "word_at (p + 44) (written env p prev h d m) = 0"
proof -
  let ?m2 = "(poke (p + 36) (le32 (of_nat (hash_of env h))) (if prev = 0 then poke p (replicate 48 0) m
      else poke (prev + 44) (le32 (of_nat p)) (poke (p + 40) (le32 (of_nat prev)) (poke p (replicate 48 0) m))))
        (p := empGetMtype h, p + 2 := empGetMsize h, p + 1 := empGetMidx h)"
  have w: "written env p prev h d m = poke (p + 3) d ?m2" by (simp add: written_def Let_def)
  have l: "length d \<le> 31" using assms(1) size_le by simp
  have hb: "hash_of env h < 2 ^ 32" using assms(2) by (simp add: hash_of_def env_ok_def)
  have z: "?m2 b = 0" if "p + 3 \<le> b" "b < p + 36" for b
    using that assms(3) by (auto simp: poke_other poke_zeros)
  have "word_at (p + 36) (poke (p + 3) d ?m2) = hash_of env h"
    using l word_at_poke [OF hb] by (simp add: word_at_poke_other word_at_fun_upd del: fun_upd_apply)
  moreover have "word_at (p + 44) (poke p (replicate 48 0) m) = 0"
    by (rule word_at_zero) (simp add: poke_zeros)
  then have "word_at (p + 44) (poke (p + 3) d ?m2) = 0"
    using l assms(3) by (auto simp: word_at_poke_other word_at_fun_upd simp del: fun_upd_apply)
  moreover have "peek (p + 3) 33 (poke (p + 3) d ?m2) = d @ replicate (33 - length d) 0"
    by (rule peek_poke_padded) (use l z in auto)
  moreover have "poke (p + 3) d ?m2 b = ?m2 b" if "b < p + 3" for b using that by (simp add: poke_other)
  ultimately show "msg_at env (written env p prev h d m) p (h, d)" "word_at (p + 44) (written env p prev h d m) = 0"
    unfolding w using assms(1) by (simp_all add: hash_of_def)
qed

lemma written_prev:
  assumes "length d = unat (empGetMsize h)" and "prev \<noteq> 0" "prev + 48 \<le> p \<or> p + 48 \<le> prev" and "p < 2 ^ 32"
  shows "word_at (prev + 44) (written env p prev h d m) = p"
proof -
  have l: "length d \<le> 31" using assms(1) size_le by simp
  show ?thesis using assms l
    by (auto simp: written_def Let_def word_at_poke_other word_at_fun_upd word_at_poke simp del: fun_upd_apply)
qed

lemma written_other:
  assumes "length d = unat (empGetMsize h)" and "b < p \<or> p + 48 \<le> b" and "prev = 0 \<or> b < prev + 44 \<or> prev + 48 \<le> b"
  shows "written env p prev h d m b = m b"
proof -
  have l: "length d \<le> 31" using assms(1) size_le by simp
  show ?thesis using assms l by (auto simp: written_def Let_def poke_other)
qed


lemma blk_apart: "i \<noteq> j \<Longrightarrow> blk a i + 60 \<le> blk a j \<or> blk a j + 60 \<le> blk a i"
  by (cases i j rule: linorder_cases) (auto simp: blk_def pg_def)

lemma blk_page_apart: "i \<noteq> j \<Longrightarrow> blk a i + 48 \<le> pg a j \<or> pg a j + 60 \<le> blk a i"
  by (cases i j rule: linorder_cases) (auto simp: blk_def pg_def)

lemma dcd_one_runs:
  assumes P: "pool a (emem s) (pageTable s) fl" and a: "pStart s = a" and R: "room fl" and E: "env_ok env"
    and prev: "prev = 0 \<or> (\<exists>i<length fl. fl ! i \<and> prev = blk a i)"
  obtains m' t' where "dcd_one env prev h num s = Inr (blk a (first_free fl), s\<lparr>emem := m', pageTable := t',
      g_empCurm := (if num = 0 then blk a (first_free fl) else g_empCurm s), g_msgCnt := g_msgCnt s + 1,
      emp_in := drop (unat (empGetMsize h)) (emp_in s)\<rparr>)"
    and "pool a m' t' (take_page fl)"
    and "msg_at env m' (blk a (first_free fl)) (h, in_data h (emp_in s))" "word_at (blk a (first_free fl) + 44) m' = 0"
    and "prev \<noteq> 0 \<Longrightarrow> word_at (prev + 44) m' = blk a (first_free fl)"
    and "\<And>b. b < pg a (first_free fl) \<or> pg a (first_free fl) + 60 \<le> b \<Longrightarrow> prev = 0 \<or> b < prev + 44 \<or> prev + 48 \<le> b
      \<Longrightarrow> m' b = emem s b"
proof -
  let ?k = "first_free fl" let ?p = "blk a ?k" let ?d = "in_data h (emp_in s)" let ?n = "unat (empGetMsize h)"
  let ?s = "s\<lparr>emp_in := drop ?n (emp_in s)\<rparr>"
  obtain m t where al: "emp_alloc sizeof_msg ?s = Inr (pg a ?k + 12, ?s\<lparr>emem := m, pageTable := t\<rparr>)"
    and P1: "pool a m t (take_page fl)"
    and fr: "\<And>b. b < pg a ?k \<or> pg a ?k + 60 \<le> b \<Longrightarrow> m b = emem ?s b"
    by (rule alloc_message [of a ?s fl]) (use P a R in simp_all)
  have k: "?k \<le> length fl" by (rule first_free_le)
  have p: "?p = pg a ?k + 12" "?p \<noteq> 0" using pool_pg0 [OF P, of ?k] by (simp_all add: blk_def)
  have lt: "?p < 2 ^ 32" using P R k by (simp add: pool_def room_def pg_def MMAP_SIZE_def blk_def)
  have acc: "mapped s (?p + i) n" if "i + n \<le> 48" for i n
    using pool_mapped [OF a P R k, of "12 + i" n] that by (simp add: blk_def add.assoc)
  have dist: "prev = 0 \<or> prev + 48 \<le> ?p \<or> ?p + 48 \<le> prev"
  proof (cases "prev = 0")
    case False
    then obtain i where i: "i < length fl" "fl ! i" "prev = blk a i" using prev by auto
    then have "i \<noteq> ?k" using first_free_free [of fl] by auto
    from blk_apart [OF this, of a] show ?thesis unfolding i(3) by linarith
  qed simp
  have accp: "mapped s (prev + 44) 4" if pn: "prev \<noteq> 0"
  proof -
    from prev pn obtain i where i: "i < length fl" "prev = blk a i" by auto
    show ?thesis using pool_mapped [OF a P R, of i 56 4] i by (simp add: blk_def add.assoc add.commute [of 56])
  qed
  have ld: "length ?d = ?n" "?n \<le> 31" by (simp_all add: size_le)
  let ?m' = "written env ?p prev h ?d m"
  have run: "dcd_one env prev h num s = Inr (?p, s\<lparr>emem := ?m', pageTable := t,
      g_empCurm := (if num = 0 then ?p else g_empCurm s), g_msgCnt := g_msgCnt s + 1, emp_in := drop ?n (emp_in s)\<rparr>)"
    using al p acc [of 0 48] acc [of 36 4] acc [of 0 1] acc [of 1 1] acc [of 2 1] acc [of 3 ?n] acc [of 40 4] accp ld
    by (simp add: dcd_one_def fread_in_data link_prev_def fill_msg_def emp_access sizeof_msg_def written_def hash_of_def Let_def)
  have P2: "pool a ?m' t (take_page fl)"
  proof (rule pool_body [OF P1])
    fix b assume "?m' b \<noteq> m b"
    then have "\<not> (b < ?p \<or> ?p + 48 \<le> b) \<or> \<not> (prev = 0 \<or> b < prev + 44 \<or> prev + 48 \<le> b)"
      using written_other [OF ld(1)] by blast
    then consider "?p \<le> b" "b < ?p + 48" | "prev \<noteq> 0" "prev + 44 \<le> b" "b < prev + 48" by linarith
    then show "\<exists>i<length (take_page fl). pg a i + 12 \<le> b \<and> b < pg a i + 60"
    proof cases
      case 1
      then show ?thesis using length_take_page(3) [of fl] by (intro exI [of _ ?k]) (simp add: blk_def)
    next
      case 2
      from prev 2(1) obtain i where "i < length fl" "prev = blk a i" by auto
      then show ?thesis using 2 length_take_page(2) [of fl] by (intro exI [of _ i]) (simp add: blk_def)
    qed
  qed
  show thesis
  proof (rule that [OF run P2])
    show "msg_at env ?m' ?p (h, ?d)" "word_at (?p + 44) ?m' = 0" by (rule written_msg [OF ld(1) E dist])+
    show "word_at (prev + 44) ?m' = ?p" if "prev \<noteq> 0"
      by (rule written_prev [OF ld(1) that _ lt]) (use dist that in blast)
    show "?m' b = emem s b" if "b < pg a ?k \<or> pg a ?k + 60 \<le> b" "prev = 0 \<or> b < prev + 44 \<or> prev + 48 \<le> b" for b
    proof -
      have "?m' b = m b" by (rule written_other [OF ld(1)]) (use that p in auto)
      then show ?thesis using fr that(1) by simp
    qed
  qed
qed


definition used :: "bool list \<Rightarrow> nat set" where
  "used fl = {i. i < length fl \<and> fl ! i}"

lemma used_take_page: "used (take_page fl) = insert (first_free fl) (used fl)"
proof -
  have "i \<in> used (take_page fl) \<longleftrightarrow> i = first_free fl \<or> i \<in> used fl" for i
  proof (cases "i = first_free fl")
    case True
    then show ?thesis using length_take_page(3) [of fl] take_page_nth(1) [of fl] by (simp add: used_def)
  next
    case False
    show ?thesis
    proof (cases "i < length fl")
      case True
      then show ?thesis using False take_page_nth(2) [OF True False] length_take_page(2) [of fl] by (simp add: used_def)
    next
      case f: False
      then have "\<not> i < length (take_page fl)" using False first_free_le [of fl] by (auto simp: take_page_def)
      then show ?thesis using f False by (simp add: used_def)
    qed
  qed
  then show ?thesis by auto
qed

lemma first_free_unused: "first_free fl \<notin> used fl"
  using first_free_free [of fl] by (auto simp: used_def)

lemma in_parts_Suc:
  "in_parts (Suc left) h inp =
     (let inp' = drop (unat (empGetMsize h)) inp; (h', inp'') = in_byte inp' in
      if empGetMidx h \<noteq> 0 \<and> left \<noteq> 0 then ((h, in_data h inp) # fst (in_parts left h' inp''), snd (in_parts left h' inp''))
      else ([(h, in_data h inp)], inp'))"
  by (simp add: Let_def split: prod.splits)

lemma getc_in_byte: "emp_getc s = (fst (in_byte (emp_in s)), s\<lparr>emp_in := snd (in_byte (emp_in s))\<rparr>)"
  by (simp add: emp_getc_def in_byte_def split: list.splits)

text \<open>The rest of a message: \<open>is\<close> are the pages of the parts so far.\<close>

definition received :: "emp_env \<Rightarrow> nat \<Rightarrow> nat list \<Rightarrow> part list \<Rightarrow> bool list \<Rightarrow> emp \<Rightarrow> part list \<Rightarrow> u8 list \<Rightarrow> nat list \<Rightarrow> bool list \<Rightarrow> emp \<Rightarrow> bool" where
  "received env a is fs fl s new inp is' fl' s' \<longleftrightarrow>
     pStart s' = pStart s \<and> g_empMlist s' = g_empMlist s \<and> emp_out s' = emp_out s
     \<and> g_empCurm s' = (if is = [] then blk a (hd is') else g_empCurm s)
     \<and> g_msgCnt s' = g_msgCnt s + of_nat (length new) \<and> emp_in s' = inp
     \<and> chain_at env a (emem s') (is @ is') (fs @ new) \<and> pool a (emem s') (pageTable s') fl'
     \<and> is' \<noteq> [] \<and> distinct is' \<and> set is' \<inter> used fl = {} \<and> used fl' = used fl \<union> set is' \<and> length fl' \<le> length fl + length is'
     \<and> (\<forall>b. (\<forall>i\<in>set is'. b < pg a i \<or> pg a i + 60 \<le> b) \<longrightarrow>
          is = [] \<or> b < blk a (last is) + 44 \<or> blk a (last is) + 48 \<le> b \<longrightarrow> emem s' b = emem s b)"

lemma received_one:
  assumes P: "pool a (emem s) (pageTable s) fl" and a: "pStart s = a" and R: "room fl" and E: "env_ok env"
    and C: "chain_at env a (emem s) is fs" and U: "set is \<subseteq> used fl" and D: "distinct is"
  obtains s' where "dcd_one env (if is = [] then 0 else blk a (last is)) h (length is) s = Inr (blk a (first_free fl), s')"
    "received env a is fs fl s [(h, in_data h (emp_in s))] (drop (unat (empGetMsize h)) (emp_in s)) [first_free fl] (take_page fl) s'"
proof -
  let ?prev = "if is = [] then 0 else blk a (last is)" and ?k = "first_free fl"
  have prev: "?prev = 0 \<or> (\<exists>i<length fl. fl ! i \<and> ?prev = blk a i)"
  proof (cases "is = []")
    case False
    then have "last is \<in> used fl" using U last_in_set by blast
    then show ?thesis using False by (auto simp: used_def)
  qed simp
  have nz: "?prev \<noteq> 0 \<longleftrightarrow> is \<noteq> []" by (simp add: blk_def)
  show thesis
  proof (rule dcd_one_runs [OF P a R E prev, where h = h and num = "length is"])
  fix m' t' assume run: "dcd_one env ?prev h (length is) s = Inr (blk a ?k, s\<lparr>emem := m', pageTable := t',
      g_empCurm := (if length is = 0 then blk a ?k else g_empCurm s), g_msgCnt := g_msgCnt s + 1,
      emp_in := drop (unat (empGetMsize h)) (emp_in s)\<rparr>)"
    and P': "pool a m' t' (take_page fl)"
    and msg: "msg_at env m' (blk a ?k) (h, in_data h (emp_in s))" "word_at (blk a ?k + 44) m' = 0"
    and pn: "?prev \<noteq> 0 \<Longrightarrow> word_at (?prev + 44) m' = blk a ?k"
    and fr: "\<And>b. b < pg a ?k \<or> pg a ?k + 60 \<le> b \<Longrightarrow> ?prev = 0 \<or> b < ?prev + 44 \<or> ?prev + 48 \<le> b \<Longrightarrow> m' b = emem s b"
  have far: "blk a i + 48 \<le> pg a ?k \<or> pg a ?k + 60 \<le> blk a i" if "i \<in> set is" for i
    using that U first_free_unused [of fl] by (intro blk_page_apart) auto
  have chain: "chain_at env a m' (is @ [?k]) (fs @ [(h, in_data h (emp_in s))])"
  proof (rule chain_snoc [OF C msg])
    fix i b assume i: "i \<in> set is" and b: "blk a i \<le> b" "b < blk a i + 44"
    show "m' b = emem s b"
    proof (rule fr)
      show "b < pg a ?k \<or> pg a ?k + 60 \<le> b" using far [OF i] b by linarith
      show "?prev = 0 \<or> b < ?prev + 44 \<or> ?prev + 48 \<le> b"
        using b blk_apart [of i "last is" a] by (cases "i = last is") auto
    qed
  next
    fix i assume i: "i \<in> set (butlast is)"
    then have ne: "is \<noteq> []" and ii: "i \<in> set is" by (auto dest: in_set_butlastD)
    have "distinct (butlast is @ [last is])" using D ne by simp
    then have "i \<noteq> last is" using i by auto
    then have "blk a i + 60 \<le> blk a (last is) \<or> blk a (last is) + 60 \<le> blk a i" by (rule blk_apart)
    then show "word_at (blk a i + 44) m' = word_at (blk a i + 44) (emem s)"
      using far [OF ii] ne by (intro word_at_cong fr) auto
  qed (use pn nz in auto)
  show thesis
  proof (rule that)
    show "dcd_one env ?prev h (length is) s = Inr (blk a ?k, s\<lparr>emem := m', pageTable := t',
      g_empCurm := (if is = [] then blk a ?k else g_empCurm s), g_msgCnt := g_msgCnt s + 1,
      emp_in := drop (unat (empGetMsize h)) (emp_in s)\<rparr>)" using run by simp
    show "received env a is fs fl s [(h, in_data h (emp_in s))] (drop (unat (empGetMsize h)) (emp_in s)) [?k] (take_page fl)
      (s\<lparr>emem := m', pageTable := t', g_empCurm := (if is = [] then blk a ?k else g_empCurm s), g_msgCnt := g_msgCnt s + 1,
      emp_in := drop (unat (empGetMsize h)) (emp_in s)\<rparr>)"
      using chain P' first_free_unused [of fl] length_take_page(1) [of fl] fr
      by (auto simp: received_def used_take_page)
  qed
  qed
qed

lemma received_trans:
  assumes "received env a is fs fl s [f] inp [k] fl1 s1" and "received env a (is @ [k]) (fs @ [f]) fl1 (s1\<lparr>emp_in := i\<rparr>) new inp' is' fl' s'"
  shows "received env a is fs fl s (f # new) inp' (k # is') fl' s'"
proof -
  note A = assms [unfolded received_def]
  have "emem s' b = emem s b" if o: "\<forall>j\<in>set (k # is'). b < pg a j \<or> pg a j + 60 \<le> b"
    and p: "is = [] \<or> b < blk a (last is) + 44 \<or> blk a (last is) + 48 \<le> b" for b
  proof -
    have "b < pg a k \<or> pg a k + 60 \<le> b" using o by simp
    then have "b < blk a (last (is @ [k])) + 44 \<or> blk a (last (is @ [k])) + 48 \<le> b" by (auto simp: blk_def)
    then have "emem s' b = emem (s1\<lparr>emp_in := i\<rparr>) b" using A(2) o by auto
    moreover have "emem s1 b = emem s b" using A(1) o p by auto
    ultimately show ?thesis by simp
  qed
  moreover have "set is' \<inter> used fl = {}" "k \<notin> set is'" "k \<notin> used fl" using A by auto
  ultimately show ?thesis unfolding received_def using A by (simp add: algebra_simps)
qed

lemma dcd_left_runs:
  assumes "pool a (emem s) (pageTable s) fl" and "pStart s = a" and "length fl + Suc left < 17000" and "env_ok env"
    and "chain_at env a (emem s) is fs" and "set is \<subseteq> used fl" "distinct is" and "length is + Suc left = 3"
    and "in_parts (Suc left) h (emp_in s) = (new, inp)"
  obtains is' fl' s' where
    "dcd_left (Suc left) env (if is = [] then 0 else blk a (last is)) h (length is) s = Inr s'"
    "received env a is fs fl s new inp is' fl' s'"
  using assms
proof (induction left arbitrary: s fl "is" fs h new inp thesis)
  case 0
  have R: "room fl" using 0(4) by (simp add: room_def)
  obtain s1 where "dcd_one env (if is = [] then 0 else blk a (last is)) h (length is) s = Inr (blk a (first_free fl), s1)"
    "received env a is fs fl s [(h, in_data h (emp_in s))] (drop (unat (empGetMsize h)) (emp_in s)) [first_free fl] (take_page fl) s1"
    by (rule received_one [OF 0(2,3) R 0(5-8)])
  then show ?case using 0(9,10) by (intro 0(1) [of s1]) (auto simp: in_parts_Suc Let_def split: prod.splits)
next
  case (Suc left)
  note IH = Suc.IH and that = Suc.prems(1) and p = Suc.prems(2-10)
  have R: "room fl" using p(3) by (simp add: room_def)
  obtain s1 where one: "dcd_one env (if is = [] then 0 else blk a (last is)) h (length is) s = Inr (blk a (first_free fl), s1)"
    "received env a is fs fl s [(h, in_data h (emp_in s))] (drop (unat (empGetMsize h)) (emp_in s)) [first_free fl] (take_page fl) s1"
    by (rule received_one [OF p(1,2) R p(4-7)])
  note r = one(2) [unfolded received_def]
  show ?case
  proof (cases "empGetMidx h \<noteq> 0")
    case False
    then show ?thesis using one p(9) by (intro that [of s1]) (auto simp: in_parts_Suc Let_def split: prod.splits)
  next
    case True
    let ?b = "in_byte (emp_in s1)" let ?s1 = "s1\<lparr>emp_in := snd ?b\<rparr>"
    obtain new1 inp1 where n1: "in_parts (Suc left) (fst ?b) (emp_in ?s1) = (new1, inp1)" by (rule prod.exhaust)
    have new: "new = (h, in_data h (emp_in s)) # new1" "inp1 = inp"
      using p(9) n1 r True by (simp_all add: in_parts_Suc [of "Suc left"] Let_def split_beta del: in_parts.simps)
    obtain is' fl' s' where two: "dcd_left (Suc left) env (if is @ [first_free fl] = [] then 0 else blk a (last (is @ [first_free fl])))
        (fst ?b) (length (is @ [first_free fl])) ?s1 = Inr s'"
      "received env a (is @ [first_free fl]) (fs @ [(h, in_data h (emp_in s))]) (take_page fl) ?s1 new1 inp1 is' fl' s'"
    proof (rule IH)
      show "pool a (emem ?s1) (pageTable ?s1) (take_page fl)" "pStart ?s1 = a" "env_ok env"
        "chain_at env a (emem ?s1) (is @ [first_free fl]) (fs @ [(h, in_data h (emp_in s))])"
        "in_parts (Suc left) (fst ?b) (emp_in ?s1) = (new1, inp1)"
        using r p n1 by simp_all
      show "length (take_page fl) + Suc left < 17000" using p(3) length_take_page(1) [of fl] by simp
      show "set (is @ [first_free fl]) \<subseteq> used (take_page fl)" using p(6) by (auto simp: used_take_page)
      show "distinct (is @ [first_free fl])" using p(6,7) first_free_unused [of fl] by auto
      show "length (is @ [first_free fl]) + Suc left = 3" using p(8) by simp
    qed
    have "dcd_left (Suc (Suc left)) env (if is = [] then 0 else blk a (last is)) h (length is) s = Inr s'"
      using one(1) two(1) True p(8) by (subst dcd_left.simps) (simp add: getc_in_byte)
    moreover have "received env a is fs fl s new inp (first_free fl # is') fl' s'"
      unfolding new using received_trans [OF one(2) two(2)] new(2) by simp
    ultimately show ?thesis by (rule that)
  qed
qed


subsection \<open>Sending\<close>

lemma tmp_text_eq:
  assumes "0 \<notin> set t"
  shows "tmp_text t i n = take n (drop i t)"
proof (cases "i \<le> length t")
  case True
  have z: "\<forall>b\<in>set (take n (drop i t)). b \<noteq> 0" using assms by (metis in_set_dropD in_set_takeD)
  then have "takeWhile (\<lambda>b. b \<noteq> 0) (take n (drop i t) @ take (n - (length t - i)) [0]) = take n (drop i t)"
    by (subst takeWhile_append2) (auto simp: take_Cons' )
  then show ?thesis using True by (simp add: tmp_text_def)
qed (simp add: tmp_text_def)

lemma snd_headers:
  "push_bit 5 (1 :: u8) = 0x20" "push_bit 5 (2 :: u8) = 0x40" "push_bit 5 (3 :: u8) = 0x60" "push_bit 5 (4 :: u8) = 0x80"
  by (simp_all add: push_bit_eq_mult)

lemma empSndmsg_frames:
  assumes "0 \<notin> set t"
  shows "empSndmsg t s = s\<lparr>emp_out := emp_out s @ frames t\<rparr>"
proof -
  let ?n = "length t"
  have part: "concat (map (snd_part t (min ?n 93) (min ?n 93 div 31 + 1)) [0..<min ?n 93 div 31 + 1]) = frames t"
  proof -
    consider "?n < 31" | "31 \<le> ?n" "?n < 62" | "62 \<le> ?n" "?n < 93" | "93 \<le> ?n" by linarith
    then show ?thesis
    proof cases
      case 1
      then show ?thesis by (simp add: snd_part_def frames_def snd_headers)
    next
      case 2
      then have "?n div 31 = 1" "min ?n 93 = ?n" by (auto intro!: div_nat_eqI)
      moreover have "of_nat (?n - 31) = (of_nat ?n - 31 :: u8)" using 2 by simp
      moreover have "take (?n - 31) (drop 32 t) = drop 32 t" by simp
      ultimately show ?thesis using 2 assms
        by (simp add: snd_part_def frames_def snd_headers tmp_text_eq Let_def upt_rec del: take_all_iff)
    next
      case 3
      then have "?n div 31 = 2" "min ?n 93 = ?n" by (auto intro!: div_nat_eqI)
      moreover have "of_nat (?n - 62) = (of_nat ?n - 62 :: u8)" using 3 by simp
      moreover have "take (?n - 62) (drop 63 t) = drop 63 t" by simp
      ultimately show ?thesis using 3 assms
        by (simp add: snd_part_def frames_def snd_headers tmp_text_eq Let_def upt_rec del: take_all_iff)
    next
      case 4
      then have "min ?n 93 = 93" by simp
      then show ?thesis using 4 assms
        by (simp add: snd_part_def frames_def snd_headers tmp_text_eq Let_def upt_rec)
    qed
  qed
  show ?thesis by (simp only: empSndmsg_def Let_def part)
qed

lemma dec_text_zero: "0 \<notin> set (dec_text n)"
proof (induction n rule: dec_text.induct)
  case (1 n)
  have "(of_nat k + 48 :: u8) \<noteq> 0" if "k < 10" for k :: nat
  proof -
    have "k \<in> set [0..<10]" using that by simp
    then show ?thesis by (auto simp: upt_rec)
  qed
  then show ?case using 1 by (subst dec_text.simps) auto
qed


subsection \<open>Releasing messages\<close>

definition freed :: "nat \<Rightarrow> emp \<Rightarrow> bool list \<Rightarrow> nat set \<Rightarrow> bool list \<Rightarrow> emp \<Rightarrow> bool" where
  "freed a s fl I fl' s' \<longleftrightarrow> s' = s\<lparr>emem := emem s'\<rparr> \<and> pool a (emem s') (pageTable s') fl' \<and> length fl' = length fl
     \<and> used fl' = used fl - I \<and> (\<forall>b. b \<notin> pg a ` I \<longrightarrow> emem s' b = emem s b)"

lemma freed_refl: "pool a (emem s) (pageTable s) fl \<Longrightarrow> freed a s fl {} fl s"
  by (simp add: freed_def)

lemma freed_trans:
  assumes "freed a s fl I fl1 s1" and "freed a s1 fl1 J fl2 s2"
  shows "freed a s fl (I \<union> J) fl2 s2"
proof -
  have "s2 = s\<lparr>emem := emem s2\<rparr>"
    using assms by (auto simp: freed_def) (metis emp.surjective emp.update_convs(1))
  then show ?thesis using assms unfolding freed_def by (auto simp: image_Un)
qed

lemma freed_start: "freed a s fl I fl' s' \<Longrightarrow> pStart s' = pStart s"
  by (metis (no_types) freed_def emp.ext_inject emp.surjective emp.update_convs(1))

lemma used_update: "used (fl[i := False]) = used fl - {i}"
  by (cases "i < length fl") (auto simp: used_def nth_list_update split: if_splits)

lemma free_one:
  assumes P: "pool a (emem s) (pageTable s) fl" and a: "pStart s = a" and R: "room fl" and i: "i < length fl"
  obtains s' fl' where "emp_free (blk a i) s = Inr s'" "freed a s fl {i} fl' s'"
proof -
  show thesis
  proof (rule emp_free_pool [OF P a R i])
    fix m' assume "emp_free (pg a i + 12) s = Inr (s\<lparr>emem := m'\<rparr>)" and "pool a m' (pageTable s) (fl[i := False])"
      and "\<And>b. b \<noteq> pg a i \<Longrightarrow> m' b = emem s b"
    then show thesis by (intro that [of "s\<lparr>emem := m'\<rparr>" "fl[i := False]"]) (simp_all add: blk_def freed_def used_update)
  qed
qed

abbreviation first_of :: "nat \<Rightarrow> nat list \<Rightarrow> nat" where
  "first_of a is \<equiv> if is = [] then 0 else blk a (hd is)"

lemma chain_Cons:
  "chain_at env a m (i # is) fs \<longleftrightarrow>
     (\<exists>f fs'. fs = f # fs' \<and> msg_at env m (blk a i) f \<and> word_at (blk a i + 44) m = first_of a is \<and> chain_at env a m is fs')"
proof (cases fs)
  case (Cons f fs')
  have "chain_at env a m (i # is) fs \<longleftrightarrow> length is = length fs' \<and>
      (\<forall>j<Suc (length is). msg_at env m (blk a ((i # is) ! j)) ((f # fs') ! j)
       \<and> word_at (blk a ((i # is) ! j) + 44) m = (if Suc j < Suc (length is) then blk a ((i # is) ! Suc j) else 0))"
    using Cons by (simp add: chain_at_def)
  also have "\<dots> \<longleftrightarrow> msg_at env m (blk a i) f \<and> word_at (blk a i + 44) m = first_of a is \<and> chain_at env a m is fs'"
    unfolding All_less_Suc2 by (auto simp: chain_at_def hd_conv_nth)
  finally show ?thesis using Cons by simp
qed (simp add: chain_at_def)

lemma blk_no_header: "blk a i \<le> b \<Longrightarrow> b < blk a i + 48 \<Longrightarrow> b \<noteq> pg a j"
  by (cases i j rule: linorder_cases) (auto simp: blk_def pg_def)

text \<open>Headers are outside of the messages, whoever gives them back.\<close>

lemma freed_chain: "freed a s fl I fl' s' \<Longrightarrow> chain_at env a (emem s') is fs = chain_at env a (emem s) is fs"
  by (rule chain_cong) (metis blk_no_header freed_def imageE)

lemma chain_next:
  assumes "chain_at env a (emem s) (i # is) fs" and "pool a (emem s) (pageTable s) fl" "pStart s = a" "room fl" "i < length fl"
  shows "rd32 (blk a i + 44) s = Inr (first_of a is)"
  using assms pool_mapped [OF assms(3,2,4), of i 56 4]
  by (auto simp: chain_Cons emp_access blk_def add.assoc)

lemma blk_nonzero [simp]: "blk a i \<noteq> 0" "0 < blk a i"
  by (simp_all add: blk_def)

lemma release_walk:
  assumes "chain_at env a (emem s) is fs" and "pool a (emem s) (pageTable s) fl" "pStart s = a" "room fl"
    and "set is \<subseteq> {..<length fl}" and "length is < fuel"
  obtains s' fl' where "emp_walk release_turn fuel (first_of a is) s = Some (Inr s')" "freed a s fl (set is) fl' s'"
  using assms
proof (induction "is" arbitrary: s fl fs fuel thesis)
  case Nil
  then obtain k where "fuel = Suc k" by (cases fuel) auto
  then show ?case using Nil.prems(1) [of s fl] freed_refl [OF Nil.prems(3)] by simp
next
  case (Cons i "is")
  note IH = Cons.IH and p = Cons.prems(2-)
  obtain k where k: "fuel = Suc k" using p(6) by (cases fuel) auto
  have i: "i < length fl" using p(5) by simp
  obtain s1 fl1 where f1: "emp_free (blk a i) s = Inr s1" "freed a s fl {i} fl1 s1" by (rule free_one [OF p(2,3,4) i])
  note F = f1(2) [unfolded freed_def]
  obtain fs' where c: "chain_at env a (emem s1) is fs'" using p(1) freed_chain [OF f1(2)] by (auto simp: chain_Cons)
  obtain s' fl' where s': "emp_walk release_turn k (first_of a is) s1 = Some (Inr s')" "freed a s1 fl1 (set is) fl' s'"
    by (rule IH [OF _ c, where fl = fl1 and fuel = k]) (use F p freed_start [OF f1(2)] k in \<open>auto simp: room_def\<close>)
  have "emp_walk release_turn fuel (blk a i) s = Some (Inr s')"
    using s'(1) f1(1) chain_next [OF p(1-4) i] k by (simp add: release_turn_def)
  then show ?case using Cons.prems(1) freed_trans [OF f1(2) s'(2)] by simp
qed

text \<open>\<open>empRmmsg\<close> gives back all parts but the first.\<close>

lemma rmmsg_walk:
  assumes "chain_at env a (emem s) (i # is) fs" and "pool a (emem s) (pageTable s) fl" "pStart s = a" "room fl"
    and "set (i # is) \<subseteq> {..<length fl}" and "length is + 1 < fuel"
  obtains s' fl' where "emp_walk rmmsg_turn fuel (blk a i) s = Some (Inr s')" "freed a s fl (set is) fl' s'"
  using assms
proof (induction "is" arbitrary: i s fl fs fuel thesis)
  case Nil
  note p = Nil.prems(2-)
  obtain k where k: "fuel = Suc (Suc k)" using p(6) by (metis less_natE add.commute plus_1_eq_Suc add_Suc_right list.size(3) add_0)
  have "i < length fl" using p(5) by simp
  then have "emp_walk rmmsg_turn fuel (blk a i) s = Some (Inr s)"
    using chain_next [OF p(1-4)] emp_free_null [OF p(2,4)] k by (simp add: rmmsg_turn_def)
  then show ?case using Nil.prems(1) freed_refl [OF p(2)] by simp
next
  case (Cons j "is")
  note IH = Cons.IH and p = Cons.prems(2-)
  obtain k where k: "fuel = Suc k" using p(6) by (cases fuel) auto
  have i: "i < length fl" and j: "j < length fl" using p(5) by simp_all
  obtain s1 fl1 where f1: "emp_free (blk a j) s = Inr s1" "freed a s fl {j} fl1 s1" by (rule free_one [OF p(2,3,4) j])
  note F = f1(2) [unfolded freed_def]
  obtain fs' where c: "chain_at env a (emem s1) (j # is) fs'"
    using p(1) freed_chain [OF f1(2)] by (auto simp: chain_Cons [of env a _ i])
  obtain s' fl' where s': "emp_walk rmmsg_turn k (blk a j) s1 = Some (Inr s')" "freed a s1 fl1 (set is) fl' s'"
    by (rule IH [OF _ c, where fl = fl1 and fuel = k]) (use F p freed_start [OF f1(2)] k in \<open>auto simp: room_def\<close>)
  have "emp_walk rmmsg_turn fuel (blk a i) s = Some (Inr s')"
    using s'(1) f1(1) chain_next [OF p(1-4) i] k by (simp add: rmmsg_turn_def)
  then show ?case using Cons.prems(1) freed_trans [OF f1(2) s'(2)] by simp
qed

end
