(* ===== verification/Empanada_Props.thy ===== *)
theory Empanada_Props
  imports Empanada_Spec
begin

text \<open>
  The service \<open>src/empanada\<close> does what \<open>serve\<close> says, for every input and until a command comes that breaks the memory;
  and what these commands do.
\<close>

subsection \<open>The stored messages\<close>

definition rep :: "emp_env \<Rightarrow> nat \<Rightarrow> bool list \<Rightarrow> nat list list \<Rightarrow> part list list \<Rightarrow> emp \<Rightarrow> bool" where
  "rep env a fl cs store s \<longleftrightarrow> pool a (emem s) (pageTable s) fl \<and> pStart s = a \<and> room fl
     \<and> list_all2 (chain_at env a (emem s)) cs store \<and> (\<forall>is\<in>set cs. is \<noteq> [] \<and> length is \<le> 3)
     \<and> distinct (concat cs) \<and> set (concat cs) \<subseteq> used fl \<and> g_empMlist s = map (\<lambda>is. blk a (hd is)) cs"

lemma rep_length: "rep env a fl cs store s \<Longrightarrow> length (g_empMlist s) = length store"
  by (auto simp: rep_def dest: list_all2_lengthD)

lemma rep_update [simp]:
  "rep env a fl cs store (s\<lparr>emp_out := x\<rparr>) = rep env a fl cs store s"
  "rep env a fl cs store (s\<lparr>emp_in := x\<rparr>) = rep env a fl cs store s"
  by (simp_all add: rep_def)

lemma used_less: "used fl \<subseteq> {..<length fl}"
  by (auto simp: used_def)

text \<open>What changes outside of the stored messages keeps them.\<close>

lemma rep_keep:
  assumes "rep env a fl cs store s" and "pool a (emem s') (pageTable s') fl'" "room fl'" "pStart s' = a" "g_empMlist s' = g_empMlist s"
    and "set (concat cs) \<subseteq> used fl'"
    and "\<And>i b. i \<in> set (concat cs) \<Longrightarrow> blk a i \<le> b \<Longrightarrow> b < blk a i + 48 \<Longrightarrow> emem s' b = emem s b"
  shows "rep env a fl' cs store s'"
proof -
  have "list_all2 (chain_at env a (emem s')) cs store"
  proof (rule list.rel_mono_strong)
    show "list_all2 (chain_at env a (emem s)) cs store" using assms(1) by (simp add: rep_def)
    fix "is" fs assume "is \<in> set cs" "chain_at env a (emem s) is fs"
    then show "chain_at env a (emem s') is fs"
      using assms(7) by (subst chain_cong [of "is" a _ "emem s"]) auto
  qed
  then show ?thesis using assms by (simp add: rep_def)
qed

lemma rep_freed:
  assumes "rep env a fl cs store s" and "freed a s fl I fl' s'" and "set (concat cs) \<inter> I = {}"
  shows "rep env a fl' cs store s'"
proof (rule rep_keep [OF assms(1)])
  note F = assms(2) [unfolded freed_def]
  show "pool a (emem s') (pageTable s') fl'" using F by simp
  show "room fl'" using F assms(1) by (simp add: rep_def room_def)
  show "pStart s' = a" using freed_start [OF assms(2)] assms(1) by (simp add: rep_def)
  show "g_empMlist s' = g_empMlist s" using F by (metis emp.select_convs(4) emp.surjective emp.update_convs(1))
  show "set (concat cs) \<subseteq> used fl'" using F assms by (auto simp: rep_def)
  show "emem s' b = emem s b" if "blk a i \<le> b" "b < blk a i + 48" for i b
    using F blk_no_header [OF that] by blast
qed

subsection \<open>Removing everything\<close>

definition wiped :: "nat \<Rightarrow> emp \<Rightarrow> bool list \<Rightarrow> nat set \<Rightarrow> bool list \<Rightarrow> emp \<Rightarrow> bool" where
  "wiped a s fl I fl' s' \<longleftrightarrow> s' = s\<lparr>emem := emem s'\<rparr> \<and> pool a (emem s') (pageTable s') fl' \<and> length fl' = length fl
     \<and> used fl' = used fl - I \<and> (\<forall>b. (\<forall>i\<in>I. b < pg a i \<or> pg a i + 60 \<le> b) \<longrightarrow> emem s' b = emem s b)"

lemma wipe_one:
  assumes P: "pool a (emem s) (pageTable s) fl" and a: "pStart s = a" and R: "room fl" and i: "i < length fl"
  obtains s' fl' where "andThen (emp_free (blk a i) s) (wr (blk a i) (replicate sizeof_msg 0)) = Inr s'" "wiped a s fl {i} fl' s'"
proof -
  obtain s1 fl1 where f: "emp_free (blk a i) s = Inr s1" "freed a s fl {i} fl1 s1" by (rule free_one [OF P a R i])
  note F = f(2) [unfolded freed_def]
  have s1: "s1 = s\<lparr>emem := emem s1\<rparr>" using F by simp
  have m: "mapped s1 (blk a i) 48"
    using pool_mapped [of s1 a "emem s1" "pageTable s1" fl1 i 12 48] F freed_start [OF f(2)] a R i
    by (simp add: blk_def room_def)
  let ?m = "poke (blk a i) (replicate 48 0) (emem s1)"
  have "pool a ?m (pageTable s1) fl1"
  proof (rule pool_body)
    show "pool a (emem s1) (pageTable s1) fl1" using F by simp
    fix b assume "?m b \<noteq> emem s1 b"
    then have "blk a i \<le> b" "b < blk a i + 48" by (auto simp: poke_zeros split: if_splits)
    then show "\<exists>i<length fl1. pg a i + 12 \<le> b \<and> b < pg a i + 60" using F i by (intro exI [of _ i]) (simp add: blk_def)
  qed
  moreover have "s1\<lparr>emem := ?m\<rparr> = s\<lparr>emem := ?m\<rparr>" by (subst s1) simp
  moreover have "pageTable s1 = pageTable s" by (subst s1) simp
  moreover have "?m b = emem s b" if "b < pg a i \<or> pg a i + 60 \<le> b" for b
  proof -
    have "emem s1 b = emem s b" using F that by auto
    then show ?thesis using that by (auto simp: poke_zeros blk_def)
  qed
  ultimately show thesis using f(1) m F
    by (intro that [of "s1\<lparr>emem := ?m\<rparr>" fl1]) (simp_all add: emp_access sizeof_msg_def wiped_def)
qed

lemma rmall_runs:
  assumes "pool a (emem s) (pageTable s) fl" "pStart s = a" "room fl" "set hs \<subseteq> {..<length fl}"
  obtains s' fl' where "rmall_loop (map (blk a) hs) s = Inr s'" "wiped a s fl (set hs) fl' s'"
  using assms
proof (induction hs arbitrary: s fl thesis)
  case Nil
  then show ?case by (intro Nil.prems(1) [of s fl]) (simp_all add: wiped_def)
next
  case (Cons i hs)
  note p = Cons.prems(2-)
  have i: "i < length fl" using p(4) by simp
  obtain s1 fl1 where f: "andThen (emp_free (blk a i) s) (wr (blk a i) (replicate sizeof_msg 0)) = Inr s1" "wiped a s fl {i} fl1 s1"
    by (rule wipe_one [OF p(1-3) i])
  note F = f(2) [unfolded wiped_def]
  have s1: "pStart s1 = a" using F p(2) by (metis emp.ext_inject emp.surjective emp.update_convs(1))
  obtain s' fl' where r: "rmall_loop (map (blk a) hs) s1 = Inr s'" "wiped a s1 fl1 (set hs) fl' s'"
    by (rule Cons.IH [of s1 fl1]) (use F p s1 in \<open>auto simp: room_def\<close>)
  note G = r(2) [unfolded wiped_def]
  have "rmall_loop (map (blk a) (i # hs)) s = Inr s'"
    using f(1) r(1) by (cases "emp_free (blk a i) s") auto
  moreover have "s' = s\<lparr>emem := emem s'\<rparr>" using F G by (metis emp.surjective emp.update_convs(1))
  then have "wiped a s fl (set (i # hs)) fl' s'" using F G by (auto simp: wiped_def)
  ultimately show ?case by (rule Cons.prems(1))
qed

subsection \<open>Commands\<close>

lemma msg_byte:
  assumes "msg_at env m p (h, d)" and "j < 3"
  shows "m (p + 3 + j) = (d @ [0, 0, 0]) ! j"
proof -
  have d: "peek (p + 3) 33 m = d @ replicate (33 - length d) 0" "length d \<le> 31" using assms(1) size_le [of h] by simp_all
  have "m (p + 3 + j) = peek (p + 3) 33 m ! j" using assms(2) by (simp add: peek_nth)
  also have "\<dots> = (d @ [0, 0, 0]) ! j" unfolding d(1) using assms(2) d(2)
    by (cases "j - length d") (auto simp: nth_append nth_Cons' )
  finally show ?thesis .
qed

text \<open>A received message beside the stored ones.\<close>

definition arrived :: "emp_env \<Rightarrow> nat \<Rightarrow> bool list \<Rightarrow> nat list list \<Rightarrow> part list list \<Rightarrow> nat list \<Rightarrow> part list \<Rightarrow> emp \<Rightarrow> bool" where
  "arrived env a fl cs store js fs s \<longleftrightarrow> rep env a fl cs store s \<and> chain_at env a (emem s) js fs \<and> js \<noteq> [] \<and> distinct js
     \<and> length js \<le> 3 \<and> set js \<subseteq> used fl \<and> set js \<inter> set (concat cs) = {}"

lemma arrived_byte:
  assumes "arrived env a fl cs store js fs s" and "j < 36"
  shows "rd8 (blk a (hd js) + j) s = Inr (emem s (blk a (hd js) + j))"
proof -
  have "hd js \<in> used fl" using assms(1) by (auto simp: arrived_def)
  then have i: "hd js < length fl" by (simp add: used_def)
  have "mapped s (pg a (hd js) + (12 + j)) 1"
    using assms i by (intro pool_mapped [of s a "emem s" "pageTable s" fl]) (auto simp: arrived_def rep_def)
  then show ?thesis by (simp add: rd8_mapped blk_def add.assoc)
qed

lemma arrived_first:
  assumes "arrived env a fl cs store js fs s" and "hd fs = (h, d)"
  shows "rd8 (f_idx (blk a (hd js))) s = Inr (empGetMidx h)" "rd8 (f_data (blk a (hd js))) s = Inr ((d @ [0]) ! 0)"
    "rd8 (f_data (blk a (hd js)) + 1) s = Inr ((d @ [0, 0]) ! 1)"
proof -
  obtain i "is" where js: "js = i # is" using assms(1) by (cases js) (auto simp: arrived_def)
  then have m: "msg_at env (emem s) (blk a i) (h, d)"
    using assms by (auto simp: arrived_def chain_Cons)
  note b = arrived_byte [OF assms(1)]
  show "rd8 (f_idx (blk a (hd js))) s = Inr (empGetMidx h)" using b [of 1] m js by simp
  show "rd8 (f_data (blk a (hd js))) s = Inr ((d @ [0]) ! 0)"
    using b [of 3] msg_byte [OF m, of 0] js by (simp add: nth_append)
  show "rd8 (f_data (blk a (hd js)) + 1) s = Inr ((d @ [0, 0]) ! 1)"
    using b [of 4] msg_byte [OF m, of 1] js by (auto simp: nth_append nth_Cons' add.assoc add.commute [of 4])
qed

lemma store_command:
  assumes "arrived env a fl cs store js fs s" and "length store \<noteq> MESSAGE_LIMIT"
  shows "cmd_store (blk a (hd js)) s = s\<lparr>g_empMlist := g_empMlist s @ [blk a (hd js)],
      emp_out := emp_out s @ frames (ascii ''[StoreMessage] => Return: Success'')\<rparr>"
    and "rep env a fl (cs @ [js]) (store @ [fs]) (s\<lparr>g_empMlist := g_empMlist s @ [blk a (hd js)]\<rparr>)"
proof -
  have "0 \<notin> set (ascii ''[StoreMessage] => Return: Success'')" by (simp add: ascii_def)
  then show "cmd_store (blk a (hd js)) s = s\<lparr>g_empMlist := g_empMlist s @ [blk a (hd js)],
      emp_out := emp_out s @ frames (ascii ''[StoreMessage] => Return: Success'')\<rparr>"
    using assms rep_length [of env a fl cs store s] by (simp add: cmd_store_def arrived_def empSndmsg_frames)
  show "rep env a fl (cs @ [js]) (store @ [fs]) (s\<lparr>g_empMlist := g_empMlist s @ [blk a (hd js)]\<rparr>)"
    using assms(1) by (auto simp: arrived_def rep_def intro!: list_all2_appendI)
qed

lemma delete_command:
  assumes "arrived env a fl cs store js fs s" and "n < length store" "n = unat idx" "n \<le> MESSAGE_LIMIT" and "3 < fuel"
  obtains s' fl' where "empRmmsg fuel idx s = Some (Inr (True, s'))"
    and "arrived env a fl' (take n cs @ drop (n + 1) cs) (take n store @ drop (n + 1) store) js fs s'"
    and "emp_out s' = emp_out s" "emp_in s' = emp_in s" "g_msgCnt s' = g_msgCnt s" "length fl' = length fl"
proof -
  have R: "rep env a fl cs store s" using assms(1) by (simp add: arrived_def)
  have L: "list_all2 (chain_at env a (emem s)) cs store" using R by (simp add: rep_def)
  have n: "n < length cs" using assms(2) L by (simp add: list_all2_lengthD)
  have cs: "cs = take n cs @ cs ! n # drop (n + 1) cs" using n by (simp add: id_take_nth_drop [symmetric])
  obtain i "is" where i: "cs ! n = i # is" "length is + 1 \<le> 3"
    using R nth_mem [OF n] by (cases "cs ! n") (auto simp: rep_def)
  have inc: "set (i # is) \<subseteq> set (concat cs)"
  proof -
    have "i # is \<in> set cs" using nth_mem [OF n] i(1) by simp
    then show ?thesis unfolding set_concat by (rule UN_upper)
  qed
  have ch: "chain_at env a (emem s) (i # is) (store ! n)" using L n i(1) by (auto simp: list_all2_conv_all_nth)
  obtain s1 fl1 where w: "emp_walk rmmsg_turn fuel (blk a i) s = Some (Inr s1)" "freed a s fl (set is) fl1 s1"
  proof (rule rmmsg_walk [OF ch])
    show "pool a (emem s) (pageTable s) fl" "pStart s = a" "room fl" using R by (simp_all add: rep_def)
    show "set (i # is) \<subseteq> {..<length fl}" using inc R used_less [of fl] unfolding rep_def by (metis order.trans)
    show "length is + 1 < fuel" using i(2) assms(5) by simp
  qed
  note F = w(2) [unfolded freed_def]
  have s1: "g_empMlist s1 = g_empMlist s" "emp_out s1 = emp_out s" "emp_in s1 = emp_in s" "g_msgCnt s1 = g_msgCnt s"
    using F by (metis emp.surjective emp.update_convs(1) emp.select_convs(4,6,7,8))+
  let ?cs = "take n cs @ drop (n + 1) cs" and ?st = "take n store @ drop (n + 1) store"
  let ?s' = "s1\<lparr>g_empMlist := take n (g_empMlist s1) @ drop (n + 1) (g_empMlist s1)\<rparr>"
  have run: "empRmmsg fuel idx s = Some (Inr (True, ?s'))"
    using w(1) assms(2-4) rep_length [OF R] R n i(1) by (simp add: empRmmsg_def rep_def)
  have cc: "set (concat ?cs) \<subseteq> set (concat cs)" "distinct (concat ?cs)" "set (concat ?cs) \<inter> set is = {}"
  proof -
    have "concat cs = concat (take n cs) @ (i # is) @ concat (drop (n + 1) cs)" by (subst cs) (simp add: i(1))
    moreover have "distinct (concat cs)" using R by (simp add: rep_def)
    ultimately show "set (concat ?cs) \<subseteq> set (concat cs)" "distinct (concat ?cs)" "set (concat ?cs) \<inter> set is = {}"
      by auto
  qed
  have mlist: "g_empMlist s = map (\<lambda>is. blk a (hd is)) cs" using R by (simp add: rep_def)
  have "set (concat ?cs) \<subseteq> used fl" using cc(1) R unfolding rep_def by (metis order.trans)
  moreover have "list_all2 (chain_at env a (emem s)) ?cs ?st" using L by (intro list_all2_appendI list_all2_takeI list_all2_dropI)
  moreover have "\<forall>is\<in>set ?cs. is \<noteq> [] \<and> length is \<le> 3" using R by (auto simp: rep_def dest: in_set_takeD in_set_dropD)
  ultimately have "rep env a fl ?cs ?st (s\<lparr>g_empMlist := map (\<lambda>is. blk a (hd is)) ?cs\<rparr>)"
    using R cc(2) by (simp add: rep_def)
  then have "rep env a fl1 ?cs ?st (s1\<lparr>g_empMlist := map (\<lambda>is. blk a (hd is)) ?cs\<rparr>)"
  proof (rule rep_freed)
    show "freed a (s\<lparr>g_empMlist := map (\<lambda>is. blk a (hd is)) ?cs\<rparr>) fl (set is) fl1 (s1\<lparr>g_empMlist := map (\<lambda>is. blk a (hd is)) ?cs\<rparr>)"
      (is "freed a ?u fl (set is) fl1 ?v")
    proof -
      obtain m where m: "s1 = s\<lparr>emem := m\<rparr>" using F by blast
      then have "?v = ?u\<lparr>emem := emem ?v\<rparr>" by simp
      moreover have "pageTable s1 = pageTable s" by (simp add: m)
      ultimately show ?thesis using conjunct2 [OF F] unfolding freed_def by (intro conjI) simp_all
    qed
  qed (rule cc(3))
  then have rep': "rep env a fl1 ?cs ?st ?s'" by (simp add: s1 mlist take_map drop_map)
  have J: "set js \<inter> set is = {}" using assms(1) inc by (auto simp: arrived_def)
  have "chain_at env a (emem ?s') js fs"
    using freed_chain [OF w(2)] assms(1) by (simp add: arrived_def)
  moreover have "set js \<inter> set (concat ?cs) = {}" using assms(1) cc(1) unfolding arrived_def by blast
  moreover have "set js \<subseteq> used fl1" using F J assms(1) unfolding arrived_def by blast
  ultimately have "arrived env a fl1 ?cs ?st js fs ?s'"
    using rep' assms(1) unfolding arrived_def by blast
  then show thesis using run s1 F by (intro that [of ?s' fl1]) simp_all
qed


lemma rmall_command:
  assumes "arrived env a fl cs store js fs s"
  obtains s' fl' where "empRmall s = Inr s'" "arrived env a fl' [] [] js fs s'"
    "emp_out s' = emp_out s" "emp_in s' = emp_in s" "g_msgCnt s' = g_msgCnt s" "length fl' = length fl"
proof -
  note A = assms [unfolded arrived_def rep_def]
  have ml: "g_empMlist s = map (blk a) (map hd cs)" using A by simp
  have hs: "set (map hd cs) \<subseteq> set (concat cs)" using A by (force intro!: list.set_sel(1))
  then have lt: "set (map hd cs) \<subseteq> {..<length fl}" using A used_less [of fl] by blast
  obtain s1 fl1 where r: "rmall_loop (map (blk a) (map hd cs)) s = Inr s1" "wiped a s fl (set (map hd cs)) fl1 s1"
    by (rule rmall_runs [OF _ _ _ lt]) (use A in blast)+
  note W = r(2) [unfolded wiped_def]
  obtain m where m: "s1 = s\<lparr>emem := m\<rparr>" using W by blast
  let ?s' = "s1\<lparr>g_empMlist := []\<rparr>"
  have dis: "set js \<inter> set (map hd cs) = {}" using A hs by blast
  have "chain_at env a (emem s1) js fs"
  proof (subst chain_cong [of js a _ "emem s"])
    fix i b assume i: "i \<in> set js" and b: "blk a i \<le> b" "b < blk a i + 48"
    have "b < pg a k \<or> pg a k + 60 \<le> b" if "k \<in> set (map hd cs)" for k
    proof -
      have "i \<noteq> k" using i that dis by blast
      then show ?thesis using blk_page_apart [of i k a] b by linarith
    qed
    then show "emem s1 b = emem s b" using W by blast
  qed (use A in blast)
  moreover have "set js \<subseteq> used fl1" using W A dis by blast
  moreover have "pool a (emem s1) (pageTable s1) fl1" "length fl1 = length fl" using W by blast+
  ultimately have "arrived env a fl1 [] [] js fs ?s'"
    using A by (simp add: arrived_def rep_def m room_def)
  moreover have "empRmall s = Inr ?s'" using r(1) by (simp only: empRmall_def ml) simp
  ultimately show thesis using W by (intro that [of ?s' fl1]) (simp_all add: m)
qed

lemma arrived_release:
  assumes "arrived env a fl cs store js fs s" and "3 < fuel"
  obtains s' fl' where "emp_walk release_turn fuel (blk a (hd js)) s = Some (Inr s')" "rep env a fl' cs store s'"
    "emp_out s' = emp_out s" "emp_in s' = emp_in s" "g_msgCnt s' = g_msgCnt s" "length fl' = length fl"
proof -
  note A = assms(1) [unfolded arrived_def]
  obtain s1 fl1 where w: "emp_walk release_turn fuel (first_of a js) s = Some (Inr s1)" "freed a s fl (set js) fl1 s1"
  proof (rule release_walk)
    show "chain_at env a (emem s) js fs" "length js < fuel" using A assms(2) by auto
    show "pool a (emem s) (pageTable s) fl" "pStart s = a" "room fl" using A by (simp_all add: rep_def)
    show "set js \<subseteq> {..<length fl}" using A used_less [of fl] by blast
  qed
  obtain m where m: "s1 = s\<lparr>emem := m\<rparr>" using w(2) unfolding freed_def by blast
  have "rep env a fl1 cs store s1" by (rule rep_freed [OF _ w(2)]) (use A in blast)+
  moreover have "length fl1 = length fl" using w(2) by (simp add: freed_def)
  ultimately show thesis using w(1) A by (intro that [of s1 fl1]) (simp_all add: m)
qed

text \<open>What the model of the service makes of an outcome.\<close>

definition agrees :: "emp_env \<Rightarrow> nat \<Rightarrow> nat \<Rightarrow> u8 list \<Rightarrow> u16 \<Rightarrow> outcome \<Rightarrow> (emp_stop + emp) option \<Rightarrow> bool" where
  "agrees env a n inp cnt oc r = (case oc of
     Goes store' out' \<Rightarrow> \<exists>s' fl' cs'. r = Some (Inr s') \<and> rep env a fl' cs' store' s' \<and> emp_out s' = out' \<and> emp_in s' = inp
       \<and> g_msgCnt s' = cnt \<and> length fl' \<le> n
   | Ends e \<Rightarrow> r = Some (Inl e) | Beyond \<Rightarrow> True)"

lemma command_then_release:
  assumes A: "arrived env a fl cs store js fs s" and h: "hd fs = (h, d)" and i: "empGetMidx h = 0 \<or> empGetMidx h = 1"
    and c: "(d @ [0]) ! 0 = cmd" "cmd \<noteq> 0x10" and p: "g_empCurm s = blk a (hd js)" and f: "3 < fuel"
    and run: "emp_command env fuel cmd (blk a (hd js)) s = Some (Inr s1)" and A1: "arrived env a fl1 cs1 store1 js fs s1"
    and same: "emp_in s1 = emp_in s" "g_msgCnt s1 = g_msgCnt s" "length fl1 = length fl" "emp_out s1 = out1"
  shows "agrees env a (length fl) (emp_in s) (g_msgCnt s) (Goes store1 out1) (empDcdPmsgCmd env fuel s)"
proof -
  obtain s2 fl2 where r: "emp_walk release_turn fuel (blk a (hd js)) s1 = Some (Inr s2)" "rep env a fl2 cs1 store1 s2"
    "emp_out s2 = emp_out s1" "emp_in s2 = emp_in s1" "g_msgCnt s2 = g_msgCnt s1" "length fl2 = length fl1"
    by (rule arrived_release [OF A1 f])
  have "empDcdPmsgCmd env fuel s = Some (Inr s2)"
    using arrived_first [OF A h] i c run r(1) by (auto simp: empDcdPmsgCmd_def p Let_def)
  then show ?thesis using r same by (auto simp: agrees_def)
qed

lemma arrived_out [simp]: "arrived env a fl cs store js fs (s\<lparr>emp_out := x\<rparr>) = arrived env a fl cs store js fs s"
  by (simp add: arrived_def)


lemma answer_texts:
  "0 \<notin> set (ascii ''[StoreMessage] => Return: Failed, Store Full'')" "0 \<notin> set (ascii ''[DeleteMessage] => Return: Success'')"
  "0 \<notin> set (ascii ''[DeleteMessage] => Return: Fail'')" "0 \<notin> set (ascii ''[Terminate] => Return: Success'')"
  "0 \<notin> set (ascii ''[MsgCount] => Return: '' @ dec_text n)"
  by (simp_all add: ascii_def dec_text_zero)

lemma command_agrees:
  assumes A: "arrived env a fl cs store js fs s" and h: "hd fs = (h, d)" and p: "g_empCurm s = blk a (hd js)" and f: "3 < fuel"
  shows "agrees env a (length fl) (emp_in s) (g_msgCnt s) (spec_command fs store (emp_out s)) (empDcdPmsgCmd env fuel s)"
proof (cases "empGetMidx h = 0 \<or> empGetMidx h = 1")
  case False
  then show ?thesis using arrived_first(1) [OF A h] h A
    by (auto simp: empDcdPmsgCmd_def p Let_def spec_command_def agrees_def arrived_def)
next
  case i: True
  let ?cmd = "(d @ [0]) ! 0" let ?idx = "(d @ [0, 0]) ! 1"
  have R: "rep env a fl cs store s" using A by (simp add: arrived_def)
  have len: "length (g_empMlist s) = length store" by (rule rep_length [OF R])
  have head: "empDcdPmsgCmd env fuel s = ebind (emp_command env fuel ?cmd (blk a (hd js)) s)
      (\<lambda>s. if ?cmd \<noteq> 0x10 then emp_walk release_turn fuel (blk a (hd js)) s else Some (Inr s))"
    using arrived_first [OF A h] i by (auto simp: empDcdPmsgCmd_def p Let_def)
  have spec: "spec_command fs store out = spec_answer ?cmd (unat ?idx) fs store out" for out
    using i by (auto simp: spec_command_def h)
  note go = command_then_release [OF A h i refl _ p f]
  consider "?cmd = 0x00" | "?cmd = 0x10" | "?cmd = 0x40" | "?cmd = 0x50"
    | "?cmd = 0x20 \<or> ?cmd = 0x30 \<or> ?cmd = 0x60 \<or> ?cmd = 0xFE"
    | "?cmd \<notin> {0x00, 0x10, 0x40, 0x50, 0x20, 0x30, 0x60, 0xFE}" by blast
  then show ?thesis
  proof cases
    case 1
    obtain s' fl' where r: "empRmall s = Inr s'" "arrived env a fl' [] [] js fs s'"
      "emp_out s' = emp_out s" "emp_in s' = emp_in s" "g_msgCnt s' = g_msgCnt s" "length fl' = length fl"
      by (rule rmall_command [OF A])
    have "agrees env a (length fl) (emp_in s) (g_msgCnt s) (Goes [] (emp_out s)) (empDcdPmsgCmd env fuel s)"
      by (rule go [OF _ _ r(2,4,5,6,3)]) (simp_all add: 1 emp_command_def r(1))
    then show ?thesis by (simp add: spec spec_answer_def 1)
  next
    case 2
    show ?thesis
    proof (cases "length store = MESSAGE_LIMIT")
      case True
      then have "empDcdPmsgCmd env fuel s = Some (Inr (s\<lparr>emp_out := emp_out s @ frames (ascii ''[StoreMessage] => Return: Failed, Store Full'')\<rparr>))"
        using len by (simp add: head 2 emp_command_def cmd_store_def empSndmsg_frames answer_texts)
      then show ?thesis using R True by (auto simp: spec spec_answer_def 2 agrees_def)
    next
      case False
      note st = store_command [OF A False]
      have "empDcdPmsgCmd env fuel s = Some (Inr (cmd_store (blk a (hd js)) s))" by (simp add: head 2 emp_command_def)
      moreover have "rep env a fl (cs @ [js]) (store @ [fs]) (cmd_store (blk a (hd js)) s)"
        using st(2) by (simp add: st(1) rep_def)
      ultimately show ?thesis using False st(1) by (auto simp: spec spec_answer_def 2 agrees_def)
    qed
  next
    case 3
    have "agrees env a (length fl) (emp_in s) (g_msgCnt s)
        (Goes store (emp_out s @ frames (ascii ''[MsgCount] => Return: '' @ dec_text (length store)))) (empDcdPmsgCmd env fuel s)"
      by (rule go [of "s\<lparr>emp_out := emp_out s @ frames (ascii ''[MsgCount] => Return: '' @ dec_text (length store))\<rparr>" fl cs])
        (use A len in \<open>simp_all add: 3 emp_command_def cmd_count_def empSndmsg_frames [OF answer_texts(5)]\<close>)
    then show ?thesis by (simp add: spec spec_answer_def 3)
  next
    case 4
    have cmd: "emp_command env fuel 0x50 (blk a (hd js)) s = cmd_delete fuel ?idx s"
      using arrived_first(3) [OF A h] by (simp add: emp_command_def)
    consider "MESSAGE_LIMIT < unat ?idx \<or> length store < unat ?idx"
      | "unat ?idx \<le> MESSAGE_LIMIT" "unat ?idx = length store" | "unat ?idx \<le> MESSAGE_LIMIT" "unat ?idx < length store" by linarith
    then show ?thesis
    proof cases
      case fail: 1
      have "agrees env a (length fl) (emp_in s) (g_msgCnt s)
          (Goes store (emp_out s @ frames (ascii ''[DeleteMessage] => Return: Fail''))) (empDcdPmsgCmd env fuel s)"
        by (rule go [of "s\<lparr>emp_out := emp_out s @ frames (ascii ''[DeleteMessage] => Return: Fail'')\<rparr>" fl cs])
          (use A len fail in \<open>simp_all add: cmd 4 cmd_delete_def empRmmsg_def empSndmsg_frames answer_texts\<close>)
      then show ?thesis using fail by (simp add: spec spec_answer_def 4)
    next
      case undef: 2
      have "empDcdPmsgCmd env fuel s = Some (Inl Undef)"
        unfolding head 4 cmd using undef len by (simp add: cmd_delete_def empRmmsg_def)
      then show ?thesis using undef by (simp add: spec spec_answer_def 4 agrees_def)
    next
      case del: 3
      let ?n = "unat ?idx"
      obtain s' fl' where r: "empRmmsg fuel ?idx s = Some (Inr (True, s'))"
        "arrived env a fl' (take ?n cs @ drop (?n + 1) cs) (take ?n store @ drop (?n + 1) store) js fs s'"
        "emp_out s' = emp_out s" "emp_in s' = emp_in s" "g_msgCnt s' = g_msgCnt s" "length fl' = length fl"
        by (rule delete_command [OF A del(2) refl del(1) f])
      have "agrees env a (length fl) (emp_in s) (g_msgCnt s) (Goes (take ?n store @ drop (?n + 1) store)
          (emp_out s @ frames (ascii ''[DeleteMessage] => Return: Success''))) (empDcdPmsgCmd env fuel s)"
        by (rule go [of "s'\<lparr>emp_out := emp_out s @ frames (ascii ''[DeleteMessage] => Return: Success'')\<rparr>" fl' "take ?n cs @ drop (?n + 1) cs"])
          (use r in \<open>simp_all add: cmd 4 cmd_delete_def empSndmsg_frames answer_texts\<close>)
      then show ?thesis using del by (simp add: spec spec_answer_def 4)
    qed
  next
    case 5
    then show ?thesis by (auto simp: spec spec_answer_def agrees_def)
  next
    case 6
    then have "empDcdPmsgCmd env fuel s = Some (Inl (Exit 0 (emp_out s @ frames (ascii ''[Terminate] => Return: Success''))))"
      unfolding head by (simp add: emp_command_def empSndmsg_frames answer_texts)
    then show ?thesis using 6 by (simp add: spec spec_answer_def agrees_def)
  qed
qed


subsection \<open>The loop\<close>

lemma received_arrives:
  assumes R: "rep env a fl cs store s" and r: "received env a [] [] fl s new inp js fl' s'"
    and room: "room fl'" and new: "length new \<le> 3"
  shows "arrived env a fl' cs store js new s'"
proof -
  note W = r [unfolded received_def]
  have chain: "chain_at env a (emem s') js new" using W by simp
  have len: "length js \<le> 3" using chain new by (simp add: chain_at_def)
  have dis: "set js \<inter> set (concat cs) = {}" using W R unfolding rep_def by blast
  have "rep env a fl' cs store s'"
  proof (rule rep_keep [OF R _ room])
    show "pool a (emem s') (pageTable s') fl'" "g_empMlist s' = g_empMlist s" using W by blast+
    show "pStart s' = a" using W R by (simp add: rep_def)
    show "set (concat cs) \<subseteq> used fl'" using W R unfolding rep_def by blast
    fix i b assume i: "i \<in> set (concat cs)" and b: "blk a i \<le> b" "b < blk a i + 48"
    have "b < pg a k \<or> pg a k + 60 \<le> b" if "k \<in> set js" for k
    proof -
      have "i \<noteq> k" using i that dis by blast
      then show ?thesis using blk_page_apart [of i k a] b by linarith
    qed
    then show "emem s' b = emem s b" using W by blast
  qed
  moreover have "set js \<subseteq> used fl'" using W by blast
  ultimately show ?thesis using chain len dis W by (simp add: arrived_def del: set_concat)
qed

lemma agrees_more: "agrees env a n inp cnt oc r \<Longrightarrow> n \<le> n' \<Longrightarrow> agrees env a n' inp cnt oc r"
  by (cases oc) (simp_all add: agrees_def, metis order.trans)

lemma turn_agrees:
  assumes R: "rep env a fl cs store s" and E: "env_ok env" and f: "3 < fuel" and room: "length fl + 3 < 17000"
    and h: "in_byte (emp_in s) = (h, inp1)" "empGetMtype h \<noteq> 0" and fs: "in_parts 3 h inp1 = (fs, inp2)"
  shows "agrees env a (length fl + length fs) inp2 (g_msgCnt s + of_nat (length fs)) (spec_command fs store (emp_out s)) (emp_turn env fuel s)"
proof -
  let ?s = "s\<lparr>emp_in := inp1\<rparr>"
  have R': "rep env a fl cs store ?s" using R by simp
  have P: "pool a (emem ?s) (pageTable ?s) fl" "pStart ?s = a" using R' unfolding rep_def by blast+
  have three: "Suc (Suc (Suc 0)) = 3" by simp
  obtain js fl' s' where d: "dcd_left (Suc (Suc (Suc 0))) env (if [] = [] then 0 else blk a (last [])) h (length []) ?s = Inr s'"
    "received env a [] [] fl ?s fs inp2 js fl' s'"
    by (rule dcd_left_runs [OF P _ E, of 2 "[]" "[]" h fs inp2]) (use room fs in \<open>simp_all add: numeral_3_eq_3 numeral_2_eq_2\<close>)
  note W = d(2) [unfolded received_def]
  have lfs: "length js = length fs" "length fs \<le> 3" using W in_parts_length(1) [of 3 h inp1] fs by (auto simp: chain_at_def)
  have A: "arrived env a fl' cs store js fs s'"
    by (rule received_arrives [OF R' d(2)]) (use W lfs room in \<open>auto simp: room_def\<close>)
  have hd: "hd fs = (h, in_data h inp1)" using hd_in_parts [of 3 h inp1] fs by simp
  have turn: "emp_turn env fuel s = empDcdPmsgCmd env fuel s'"
    using h d(1) by (simp add: emp_turn_def getc_in_byte empDcdPmsg_def three del: dcd_left.simps)
  have "agrees env a (length fl') (emp_in s') (g_msgCnt s') (spec_command fs store (emp_out s')) (empDcdPmsgCmd env fuel s')"
    by (rule command_agrees [OF A hd _ f]) (use W in simp)
  then have "agrees env a (length fl') inp2 (g_msgCnt s + of_nat (length fs)) (spec_command fs store (emp_out s)) (empDcdPmsgCmd env fuel s')"
    using W by simp
  then show ?thesis unfolding turn by (rule agrees_more) (use W lfs in simp)
qed

definition as_served :: "u8 list result \<Rightarrow> (emp_stop + u8 list) option \<Rightarrow> bool" where
  "as_served v r = (case v of Returns out \<Rightarrow> r = Some (Inr out) | Stops e \<Rightarrow> r = Some (Inl e) | Outside \<Rightarrow> True)"

lemma loop_serves:
  assumes "rep env a fl cs store s" and "env_ok env" and "3 < fuel" and "length fl \<le> cnt" "cnt \<le> 128" "unat (g_msgCnt s) = cnt"
    and "emp_in s = inp" "emp_out s = out" and "length inp + (129 - cnt) < n"
  shows "as_served (serve store cnt inp out) (ebind (emp_loop env fuel n s) (\<lambda>s. Some (Inr (emp_out s))))"
  using assms
proof (induction store cnt inp out arbitrary: s fl cs n rule: serve.induct)
  case (1 store cnt inp out)
  note p = "1.prems"
  obtain h inp1 where h: "in_byte inp = (h, inp1)" by (rule prod.exhaust)
  obtain m where n: "n = Suc m" using p(9) by (cases n) auto
  have cnt: "\<not> MESSAGE_LIMIT < cnt" using p(5) by (simp add: MESSAGE_LIMIT_def)
  have l1: "length inp1 \<le> length inp" using h by (auto simp: in_byte_def split: list.splits)
  show ?case
  proof (cases "empGetMtype h = 0")
    case True
    have "length inp1 < length inp" using h True by (auto simp: in_byte_def empGetMtype_def split: list.splits)
    then have "as_served (serve store cnt inp1 out) (ebind (emp_loop env fuel m (s\<lparr>emp_in := inp1\<rparr>)) (\<lambda>s. Some (Inr (emp_out s))))"
      by (intro "1.IH"(1) [OF cnt h [symmetric] True]) (use p n in auto)
    moreover have "emp_turn env fuel s = Some (Inr (s\<lparr>emp_in := inp1\<rparr>))"
      using h True p(7) by (simp add: emp_turn_def getc_in_byte)
    ultimately show ?thesis using h True cnt p(6) n by (subst serve.simps) simp
  next
    case False
    obtain fs inp2 where fs: "in_parts 3 h inp1 = (fs, inp2)" by (rule prod.exhaust)
    have ag: "agrees env a (length fl + length fs) inp2 (g_msgCnt s + of_nat (length fs)) (spec_command fs store out) (emp_turn env fuel s)"
      using turn_agrees [OF p(1,2,3) _ _ False fs] p h by simp
    have lfs: "length fs \<le> 3" "fs \<noteq> []" "length inp2 \<le> length inp1"
      using in_parts_length [of 3 h inp1] in_parts_Nil [of 3 h inp1] fs by auto
    have sv: "serve store cnt inp out = (case spec_command fs store out of Goes store' out' \<Rightarrow> serve store' (cnt + length fs) inp2 out'
        | Ends e \<Rightarrow> Stops e | Beyond \<Rightarrow> Outside)"
      using cnt h False fs by (subst serve.simps) simp
    show ?thesis
    proof (cases "spec_command fs store out")
      case (Goes store' out')
      then obtain s' fl' cs' where s': "emp_turn env fuel s = Some (Inr s')" "rep env a fl' cs' store' s'" "emp_out s' = out'"
        "emp_in s' = inp2" "g_msgCnt s' = g_msgCnt s + of_nat (length fs)" "length fl' \<le> length fl + length fs"
        using ag by (auto simp: agrees_def)
      have cnt': "unat (g_msgCnt s') = cnt + length fs"
        using p(5,6) lfs(1) unfolding s'(5) by (simp add: unat_word_ariths unat_of_nat take_bit_eq_mod)
      show ?thesis
      proof (cases "MESSAGE_LIMIT < cnt + length fs")
        case True
        then have "serve store' (cnt + length fs) inp2 out' = Returns out'" by (subst serve.simps) simp
        then show ?thesis using s' cnt' True n by (simp add: sv Goes as_served_def)
      next
        case c: False
        have "0 < length fs" using lfs(2) by simp
        then have k: "length inp2 + (129 - (cnt + length fs)) < m" using p(5,9) n lfs l1 by linarith
        have fl': "length fl' \<le> cnt + length fs" using s'(6) p(4) by linarith
        have "as_served (serve store' (cnt + length fs) inp2 out') (ebind (emp_loop env fuel m s') (\<lambda>s. Some (Inr (emp_out s))))"
          by (intro "1.IH"(2) [OF cnt h [symmetric] False fs [symmetric] Goes])
            (use s'(2-5) p cnt' k c fl' in \<open>simp_all add: MESSAGE_LIMIT_def\<close>)
        then show ?thesis using s'(1) cnt' c n by (simp add: sv Goes)
      qed
    next
      case (Ends e)
      then show ?thesis using ag n by (simp add: sv agrees_def as_served_def)
    next
      case Beyond
      then show ?thesis by (simp add: sv as_served_def)
    qed
  qed
qed

text \<open>C18. For every input the service ends with the answers that the abstract service gives, unless a command comes that
  the abstract service does not describe: \<open>main\<close> has returned after as many turns as the input is long and 130.\<close>

theorem emp_main_serves:
  assumes "env_ok env" and "3 < fuel" and "0 < a" "a + MMAP_SIZE < 2 ^ 32" and "length input + 129 < n"
  shows "as_served (serve [] 0 input []) (emp_main env fuel n (Some a) input)"
proof -
  have "rep env a [] [] [] (EMPMA_init (Some a) input)"
    using assms by (simp add: rep_def EMPMA_init_def pool_def room_def pg_def)
  then show ?thesis unfolding emp_main_def
    by (rule loop_serves) (use assms in \<open>simp_all add: EMPMA_init_def\<close>)
qed

end
