(* ===== verification/Empanada_Get.thy ===== *)
theory Empanada_Get
  imports Empanada_Props
begin

unbundle bit_operations_syntax

text \<open>
  Reading a message of \<open>src/empanada\<close>: the text comes back, in a block that the allocator never gets back and whose end lies
  over the header of the next page. The next request for a page finds what the text has left there.
\<close>

subsection \<open>Texts in memory\<close>

lemma strn_text:
  assumes "\<And>i. i < length u \<Longrightarrow> emem s (p + i) = u ! i \<and> u ! i \<noteq> 0" and "emem s (p + length u) = 0"
    and "mapped s p (length u + 1)" and "length u < n"
  shows "strn p n s = Inr u"
  using assms
proof (induction u arbitrary: p n)
  case Nil
  then show ?case by (subst strn.simps) (simp add: emp_access)
next
  case (Cons c u)
  have "strn (p + 1) (n - 1) s = Inr u"
  proof (rule Cons.IH)
    show "emem s (p + 1 + i) = u ! i \<and> u ! i \<noteq> 0" if "i < length u" for i
      using Cons.prems(1) [of "Suc i"] that by simp
    show "emem s (p + 1 + length u) = 0" using Cons.prems(2) by simp
    show "mapped s (p + 1) (length u + 1)" using Cons.prems(3) by (simp add: mapped_def)
    show "length u < n - 1" using Cons.prems(4) by simp
  qed
  moreover have "mapped s p (Suc 0)" using Cons.prems(3) by (simp add: mapped_def)
  ultimately show ?case using Cons.prems(1) [of 0] Cons.prems(4) by (subst strn.simps) (simp add: emp_access)
qed

subsection \<open>A block of any size\<close>

lemma alloc_fresh:
  assumes P: "pool a (emem s) (pageTable s) fl" and a: "pStart s = a" and R: "room fl" and all: "\<forall>i<length fl. fl ! i"
    and n: "n < 100"
  defines "p \<equiv> pg a (length fl)"
  shows "emp_alloc n s = Inr (p + 12, s\<lparr>emem := poke (p + 8) (le32 (of_nat (p + 12 + 12 * (n div 12)))) (poke (p + 4) (le32 (of_nat n))
      ((emem s)(p := 1))), pageTable := pageTable s @ [p + 12 + 12 * (n div 12)]\<rparr>)"
proof -
  note M = pool_mapped [OF a P R order.refl]
  have acc: "mapped s p (Suc 0)" "mapped s (p + 4) 4" "mapped s (p + 8) 4"
    using M [of 0 1] M [of 4 4] M [of 8 4] by (simp_all add: p_def)
  obtain us where t: "pageTable s = map (pg a) [0..<length fl] @ p # us" unfolding p_def by (rule pool_rest [OF P order.refl])
  have z: "emem s b = 0" if "p \<le> b" for b using P that by (simp add: pool_def p_def)
  have skip: "page_scan n (map (pg a) [0..<length fl] @ p # us) s = page_scan n (p # us) s"
  proof (rule page_scan_skip)
    fix q assume "q \<in> set (map (pg a) [0..<length fl])"
    then obtain i where i: "i < length fl" "q = pg a i" by auto
    then show "q \<noteq> 0 \<and> rd_bool q s = Inr True" using rd_bool_pool [OF P a R] pool_pg0 [OF P] all by simp
  qed
  have "rd_bool p s = Inr False" using acc(1) z by (simp add: rd_bool_def emp_access)
  moreover have "word_at (p + 4) (emem s) = 0" by (rule word_at_zero) (simp add: z)
  moreover have "p \<noteq> 0" using pool_pg0 [OF P] by (simp add: p_def)
  moreover have "emp_alloc n s = page_scan n (p # us) s" using skip n by (simp add: emp_alloc_def t MMAP_SIZE_def)
  ultimately show ?thesis using acc
    by (simp add: page_fresh_def emp_access sizeof_page_def MMAP_SIZE_def Let_def)
qed

subsection \<open>The turn of a request\<close>

text \<open>What is known of the memory when a request arrives: the one stored message, and the page the request is put into.\<close>

lemma request_turn:
  assumes inp: "emp_in s = [0x82, 0x30, 0] @ rest" and al: "emp_alloc sizeof_msg (s\<lparr>emp_in := rest\<rparr>) = Inr (p, s\<lparr>emp_in := rest, emem := m, pageTable := t\<rparr>)"
    and p: "p \<noteq> 0" "\<And>i n. i + n \<le> 48 \<Longrightarrow> mapped s (p + i) n" and q: "\<And>i n. i + n \<le> 48 \<Longrightarrow> mapped s (q + i) n" "q \<noteq> 0"
    and apart: "q + 48 \<le> p \<or> p + 48 \<le> q" and E: "env_ok env" and f: "fuel = Suc (Suc k)" and ml: "g_empMlist s = [q]"
    and msg: "msg_at env m q (h, 0x10 # u)" "word_at (q + 44) m = 0" and h: "empGetMidx h = 0" and u: "0 \<notin> set u"
  defines "s2 \<equiv> s\<lparr>emp_in := rest, emem := written env p 0 0x82 [0x30, 0] m, pageTable := t, g_empCurm := p, g_msgCnt := g_msgCnt s + 1\<rparr>"
  shows "emp_turn env fuel s = (case copy_out env (length u + 1) u s2 of Inl e \<Rightarrow> Some (Inl e)
      | Inr (v, s3) \<Rightarrow> emp_walk release_turn fuel p (empSndmsg v s3))"
proof -
  let ?m = "written env p 0 0x82 [0x30, 0] m"
  have hd: "empGetMtype 0x82 = 1" "empGetMsize 0x82 = 2" "empGetMidx 0x82 = 0"
    by (simp_all add: empGetMtype_def empGetMsize_def empGetMidx_def)
  have ld: "length [0x30, 0 :: u8] = unat (empGetMsize 0x82)" by (simp add: hd)
  have one: "dcd_one env 0 0x82 0 (s\<lparr>emp_in := [0x30, 0] @ rest\<rparr>) = Inr (p, s2)"
    using al p(1) p(2) [of 0 48] p(2) [of 36 4] p(2) [of 0 1] p(2) [of 1 1] p(2) [of 2 1] p(2) [of 3 "Suc (Suc 0)"]
    by (simp add: dcd_one_def emp_fread_def hd link_prev_def fill_msg_def emp_access sizeof_msg_def written_def hash_of_def Let_def s2_def)
  have get: "empDcdPmsg env 0 0x82 (s\<lparr>emp_in := [0x30, 0] @ rest\<rparr>) = Inr s2"
    using one by (simp add: empDcdPmsg_def numeral_3_eq_3 hd)
  have own: "msg_at env ?m p (0x82, [0x30, 0])" by (rule written_msg [OF ld E]) simp
  have keep: "?m b = m b" if "q \<le> b" "b < q + 48" for b by (rule written_other [OF ld]) (use that apart in auto)
  have msg': "msg_at env ?m q (h, 0x10 # u)" "word_at (q + 44) ?m = 0"
  proof -
    have "msg_at env ?m q (h, 0x10 # u) = msg_at env m q (h, 0x10 # u)" by (rule msg_at_cong) (rule keep, simp_all)
    then show "msg_at env ?m q (h, 0x10 # u)" using msg(1) by (rule iffD2)
    have "word_at (q + 44) ?m = word_at (q + 44) m" by (rule word_at_cong) (rule keep, simp_all)
    then show "word_at (q + 44) ?m = 0" using msg(2) by simp
  qed
  have lu: "length u + 1 = unat (empGetMsize h)" "length u \<le> 30" using msg(1) size_le [of h] by simp_all
  have peek33: "peek (q + 3) 33 ?m = (0x10 # u) @ replicate (32 - length u) 0" using msg'(1) by simp
  have byte: "?m (q + 3 + j) = ((0x10 # u) @ replicate (32 - length u) 0) ! j" if "j < 33" for j
    unfolding peek33 [symmetric] using that by (simp add: peek_nth)
  have bt: "?m (q + 3 + 1 + i) = (u @ replicate (32 - length u) 0) ! i" if "i < 32" for i
  proof -
    have "q + 3 + Suc i = q + 3 + 1 + i" by simp
    then show ?thesis using byte [of "Suc i"] that by (simp only: nth_Cons_Suc append_Cons)
  qed
  have txt': "cstr (q + 3 + 1) s2 = Inr u"
    unfolding cstr_def
  proof (rule strn_text)
    show "emem s2 (q + 3 + 1 + i) = u ! i \<and> u ! i \<noteq> 0" if "i < length u" for i
    proof -
      have "u ! i \<noteq> 0" using u nth_mem [OF that] by metis
      then show ?thesis using bt [of i] that lu(2) by (simp add: s2_def nth_append)
    qed
    show "emem s2 (q + 3 + 1 + length u) = 0" using bt [of "length u"] lu(2) by (simp add: s2_def nth_append)
    show "mapped s2 (q + 3 + 1) (length u + 1)" using q(1) [of 4 "length u + 1"] lu(2) by (simp add: s2_def add.commute [of 4])
    show "length u < MMAP_SIZE + 1" using lu(2) by (simp add: MMAP_SIZE_def)
  qed
  have walk: "emp_walk (getmsg_turn s2) fuel q (0, []) = Some (Inr (length u + 1, u))"
    using txt' msg'  q(1) [of 1 1] q(1) [of 2 1] q(1) [of 44 4] q(2) h lu(1)
    by (simp add: f getmsg_turn_def emp_access s2_def)
  have b: "?m p = 1" "?m (p + 1) = 0" "?m (p + 3) = 0x30" "?m (p + 4) = 0"
    using own msg_byte [OF own, of 0] msg_byte [OF own, of 1] by (simp_all add: hd add.commute [of 4])
  have cmd: "empDcdPmsgCmd env fuel s2 = ebind (emp_command env fuel 0x30 p s2) (emp_walk release_turn fuel p)"
    using b p(2) [of 1 1] p(2) [of 3 1] by (simp add: empDcdPmsgCmd_def Let_def emp_access s2_def)
  have r4: "rd8 (p + 3 + 1) s2 = Inr 0"
    using b p(2) [of 4 1] by (simp add: emp_access s2_def add.commute [of 4])
  have "empGetmsg env fuel 0 s2 = Some (copy_out env (length u + 1) u s2)"
    using walk ml by (simp add: empGetmsg_def out_of_range_def s2_def MESSAGE_LIMIT_def)
  then have "emp_command env fuel 0x30 p s2 = ebind (Some (copy_out env (length u + 1) u s2)) (\<lambda>(t, s). Some (Inr (empSndmsg t s)))"
    unfolding emp_command_def r4 by simp
  then have "empDcdPmsgCmd env fuel s2 = (case copy_out env (length u + 1) u s2 of Inl e \<Rightarrow> Some (Inl e)
      | Inr (v, s3) \<Rightarrow> emp_walk release_turn fuel p (empSndmsg v s3))"
    unfolding cmd by (simp add: ebind_def split: sum.splits prod.splits)
  moreover have "emp_turn env fuel s = empDcdPmsgCmd env fuel s2"
    using get inp by (simp add: emp_turn_def emp_getc_def hd)
  ultimately show ?thesis by simp
qed

subsection \<open>Storing one message and reading it\<close>

definition one_part :: "u8 \<Rightarrow> u8 list \<Rightarrow> bool" where
  "one_part h u \<longleftrightarrow> empGetMtype h \<noteq> 0 \<and> empGetMidx h = 0 \<and> unat (empGetMsize h) = length u + 1 \<and> 0 \<notin> set u"

lemma after_store:
  assumes h: "one_part h u" and E: "env_ok env" and f: "3 < fuel" and a: "0 < a" "a + MMAP_SIZE < 2 ^ 32"
  obtains s where "emp_turn env fuel (EMPMA_init (Some a) ([h, 0x10] @ u @ rest)) = Some (Inr s)"
    "rep env a [True] [[0]] [[(h, 0x10 # u)]] s" "emp_out s = frames (ascii ''[StoreMessage] => Return: Success'')"
    "emp_in s = rest" "g_msgCnt s = 1"
proof -
  let ?s0 = "EMPMA_init (Some a) ([h, 0x10] @ u @ rest)"
  have R0: "rep env a [] [] [] ?s0" using a by (simp add: rep_def EMPMA_init_def pool_def room_def pg_def)
  have in0: "in_byte (emp_in ?s0) = (h, 0x10 # u @ rest)" by (simp add: EMPMA_init_def in_byte_def)
  have ip: "in_parts 3 h (0x10 # u @ rest) = ([(h, 0x10 # u)], rest)"
    using h by (simp add: numeral_3_eq_3 in_data_def one_part_def)
  have cmd: "spec_command [(h, 0x10 # u)] [] [] = Goes [[(h, 0x10 # u)]] (frames (ascii ''[StoreMessage] => Return: Success''))"
    using h by (simp add: spec_command_def spec_answer_def one_part_def MESSAGE_LIMIT_def)
  have "agrees env a 1 rest 1 (spec_command [(h, 0x10 # u)] [] []) (emp_turn env fuel ?s0)"
    using turn_agrees [OF R0 E f _ in0 _ ip] h by (simp add: one_part_def EMPMA_init_def)
  then obtain s fl cs where s: "emp_turn env fuel ?s0 = Some (Inr s)" "rep env a fl cs [[(h, 0x10 # u)]] s"
      "emp_out s = frames (ascii ''[StoreMessage] => Return: Success'')" "emp_in s = rest" "g_msgCnt s = 1" "length fl \<le> 1"
    unfolding cmd agrees_def by auto
  note R = s(2) [unfolded rep_def]
  obtain "is" where cs: "cs = [is]" "chain_at env a (emem s) is [(h, 0x10 # u)]"
    using R by (auto simp: list_all2_Cons2)
  then have "length is = 1" by (simp add: chain_at_def)
  then obtain i where i: "is = [i]" by (auto simp: length_Suc_conv)
  then have "i \<in> used fl" using R cs by simp
  then have "i = 0" "fl = [True]" using s(6) by (cases fl; auto simp: used_def)+
  then show thesis using s i cs by (intro that) auto
qed

text \<open>What a request leaves behind.\<close>

definition leftover :: "emp_env \<Rightarrow> nat \<Rightarrow> u8 \<Rightarrow> u8 list \<Rightarrow> emp \<Rightarrow> bool" where
  "leftover env a h u s \<longleftrightarrow> pStart s = a \<and> g_empMlist s = [blk a 0]
     \<and> pageTable s = [pg a 0, pg a 1, pg a 2, pg a 2 + 12 + 12 * ((length u + 2) div 12)]
     \<and> emem s (pg a 0) = 1 \<and> emem s (pg a 1) = 0 \<and> word_at (pg a 1 + 4) (emem s) = 48 \<and> emem s (pg a 2) = 1
     \<and> (\<forall>i<length u. emem s (pg a 2 + 12 + i) = u ! i)
     \<and> msg_at env (emem s) (blk a 0) (h, 0x10 # u) \<and> word_at (blk a 0 + 44) (emem s) = 0"

lemma first_pages_mapped:
  "pStart s = a \<Longrightarrow> 0 < a \<Longrightarrow> i \<le> 2 \<Longrightarrow> k + n \<le> 60 \<Longrightarrow> mapped s (pg a i + k) n"
  by (simp add: mapped_def pg_def MMAP_SIZE_def)

lemma copy_out_fresh:
  assumes P: "pool a (emem s) (pageTable s) [True, True]" and a: "pStart s = a" and u: "length u \<le> 30" "0 \<notin> set u"
  obtains s' where "copy_out env (length u + 1) u s = Inr (u, s')"
    "s' = s\<lparr>emem := emem s', pageTable := pageTable s @ [pg a 2 + 12 + 12 * ((length u + 2) div 12)]\<rparr>"
    "\<And>b. b < pg a 2 \<Longrightarrow> emem s' b = emem s b" "emem s' (pg a 2) = 1" "\<And>i. i < length u \<Longrightarrow> emem s' (pg a 2 + 12 + i) = u ! i"
proof -
  let ?n = "length u + 2" and ?p = "pg a 2"
  let ?m1 = "poke (?p + 8) (le32 (of_nat (?p + 12 + 12 * (?n div 12)))) (poke (?p + 4) (le32 (of_nat ?n)) ((emem s)(?p := 1)))"
  let ?c = "u @ [0, behind env s u 0]"
  let ?s1 = "s\<lparr>emem := ?m1, pageTable := pageTable s @ [?p + 12 + 12 * (?n div 12)]\<rparr>"
  let ?s' = "s\<lparr>emem := poke (?p + 12) ?c ?m1, pageTable := pageTable s @ [?p + 12 + 12 * (?n div 12)]\<rparr>"
  have a0: "0 < a" using P by (simp add: pool_def)
  have al: "emp_alloc ?n s = Inr (?p + 12, ?s1)"
    using alloc_fresh [OF P a, of ?n] u(1) by (simp add: room_def less_Suc_eq numeral_2_eq_2)
  have c: "take ?n (u @ [0] @ map (behind env s u) [0..<length u + 1]) = ?c"
    by (simp add: upt_conv_Cons del: upt_Suc)
  have at: "emem ?s' (?p + 12 + i) = ?c ! i" if "i < ?n" for i using that by (simp add: poke_def)
  have mp: "mapped s (?p + 12) ?n" "mapped s (?p + 12) (length u + 1)"
    using first_pages_mapped [OF a a0, of 2 12] u(1) by simp_all
  have "cstr (?p + 12) ?s' = Inr u"
    unfolding cstr_def
  proof (rule strn_text)
    show "emem ?s' (?p + 12 + i) = u ! i \<and> u ! i \<noteq> 0" if "i < length u" for i
    proof -
      have "u ! i \<noteq> 0" using u(2) nth_mem [OF that] by metis
      then show ?thesis using at [of i] that by (simp add: nth_append)
    qed
    show "emem ?s' (?p + 12 + length u) = 0" using at [of "length u"] by (simp add: nth_append)
    show "mapped ?s' (?p + 12) (length u + 1)" using mp(2) by simp
    show "length u < MMAP_SIZE + 1" using u(1) by (simp add: MMAP_SIZE_def)
  qed
  moreover have "wr (?p + 12) ?c ?s1 = Inr ?s'" using mp(1) by (simp add: wr_def)
  ultimately have "copy_out env (length u + 1) u s = Inr (u, ?s')"
    unfolding copy_out_def using al c by (simp add: add.assoc)
  then show thesis
  proof (rule that)
    show "emem ?s' b = emem s b" if "b < ?p" for b using that by (simp add: poke_other)
    show "emem ?s' ?p = 1" by (simp add: poke_other)
    show "emem ?s' (?p + 12 + i) = u ! i" if "i < length u" for i using at [of i] that by (simp add: nth_append)
  qed simp
qed


lemma after_get:
  assumes h: "one_part h u" and E: "env_ok env" and f: "3 < fuel"
    and R: "rep env a [True] [[0]] [[(h, 0x10 # u)]] s" and inp: "emp_in s = [0x82, 0x30, 0] @ rest"
  obtains s' where "emp_turn env fuel s = Some (Inr s')" "emp_out s' = emp_out s @ frames u" "emp_in s' = rest" "leftover env a h u s'"
    "g_msgCnt s' = g_msgCnt s + 1"
proof -
  note r = R [unfolded rep_def]
  have a: "pStart s = a" and a0: "0 < a" using r by (simp_all add: pool_def)
  obtain k where k: "fuel = Suc (Suc k)" "k \<noteq> 0" using f by (metis Suc_lessE less_Suc_eq_0_disj less_numeral_extra(3) not0_implies_Suc numeral_3_eq_3 Suc_less_eq)
  have ff: "first_free [True] = 1" "take_page [True] = [True, True]" by (simp_all add: first_free_def take_page_def)
  obtain m t where al: "emp_alloc sizeof_msg (s\<lparr>emp_in := rest\<rparr>) = Inr (pg a (first_free [True]) + 12, s\<lparr>emp_in := rest, emem := m, pageTable := t\<rparr>)"
    and P1: "pool a m t (take_page [True])"
    and fr: "\<And>b. b < pg a (first_free [True]) \<or> pg a (first_free [True]) + 60 \<le> b \<Longrightarrow> m b = emem (s\<lparr>emp_in := rest\<rparr>) b"
    by (rule alloc_message [of a "s\<lparr>emp_in := rest\<rparr>" "[True]"]) (use r in simp_all)
  let ?p = "blk a 1" and ?q = "blk a 0"
  have al': "emp_alloc sizeof_msg (s\<lparr>emp_in := rest\<rparr>) = Inr (?p, s\<lparr>emp_in := rest, emem := m, pageTable := t\<rparr>)"
    using al by (simp add: ff blk_def)
  have mp: "mapped s (?p + i) n" "mapped s (?q + i) n" if "i + n \<le> 48" for i n
    using first_pages_mapped [OF a a0, of _ "12 + i" n] that by (simp_all add: blk_def add.assoc)
  have apart: "?q + 48 \<le> ?p \<or> ?p + 48 \<le> ?q" by (simp add: blk_def pg_def)
  have ch: "chain_at env a (emem s) [0] [(h, 0x10 # u)]" using r by simp
  have "chain_at env a m [0] [(h, 0x10 # u)]"
    by (subst chain_cong [of _ a m "emem s"]) (use ch fr in \<open>auto simp: ff blk_def pg_def\<close>)
  then have msg: "msg_at env m ?q (h, 0x10 # u)" "word_at (?q + 44) m = 0" by (auto simp: chain_at_def)
  let ?m2 = "written env ?p 0 0x82 [0x30, 0] m"
  let ?s2 = "s\<lparr>emp_in := rest, emem := ?m2, pageTable := t, g_empCurm := ?p, g_msgCnt := g_msgCnt s + 1\<rparr>"
  have turn: "emp_turn env fuel s = (case copy_out env (length u + 1) u ?s2 of Inl e \<Rightarrow> Some (Inl e)
      | Inr (v, s3) \<Rightarrow> emp_walk release_turn fuel ?p (empSndmsg v s3))"
    using h r by (intro request_turn [OF inp al' _ mp(1) mp(2) _ apart E k(1) _ msg]) (auto simp: one_part_def)
  have ld: "length [0x30, 0 :: u8] = unat (empGetMsize 0x82)" by (simp add: empGetMsize_def)
  have oth: "?m2 b = m b" if "b < ?p \<or> ?p + 48 \<le> b" for b by (rule written_other [OF ld that]) simp
  have P2: "pool a ?m2 t [True, True]"
  proof (rule pool_body)
    show "pool a m t [True, True]" using P1 by (simp add: ff)
    fix b assume "?m2 b \<noteq> m b"
    then have "?p \<le> b" "b < ?p + 48" using oth [of b] by linarith+
    then show "\<exists>i<length [True, True]. pg a i + 12 \<le> b \<and> b < pg a i + 60" by (intro exI [of _ 1]) (simp add: blk_def)
  qed
  have u: "length u \<le> 30" "0 \<notin> set u" using h size_le [of h] by (simp_all add: one_part_def)
  obtain s3 where c: "copy_out env (length u + 1) u ?s2 = Inr (u, s3)"
    "s3 = ?s2\<lparr>emem := emem s3, pageTable := pageTable ?s2 @ [pg a 2 + 12 + 12 * ((length u + 2) div 12)]\<rparr>"
    "\<And>b. b < pg a 2 \<Longrightarrow> emem s3 b = emem ?s2 b" "emem s3 (pg a 2) = 1" "\<And>i. i < length u \<Longrightarrow> emem s3 (pg a 2 + 12 + i) = u ! i"
    by (rule copy_out_fresh [of a ?s2 u env]) (use P2 a u in simp_all)
  have t: "t = [pg a 0, pg a 1, pg a 2]" using P2 by (simp add: pool_def numeral_2_eq_2)
  let ?nxt = "pg a 2 + 12 + 12 * ((length u + 2) div 12)"
  let ?s4 = "s3\<lparr>emp_out := emp_out s @ frames u\<rparr>"
  have low: "emem s3 b = ?m2 b" if "b < pg a 2" for b using c(3) [OF that] by simp
  have s3: "pStart s3 = a" "pageTable s3 = [pg a 0, pg a 1, pg a 2, ?nxt]" "g_empMlist s3 = [?q]" "emp_in s3 = rest" "emp_out s3 = emp_out s"
    "g_msgCnt s3 = g_msgCnt s + 1"
  proof -
    obtain M where M: "s3 = ?s2\<lparr>emem := M, pageTable := pageTable ?s2 @ [?nxt]\<rparr>" using c(2) by blast
    have "g_empMlist s = [?q]" using r by simp
    then show "pStart s3 = a" "pageTable s3 = [pg a 0, pg a 1, pg a 2, ?nxt]" "g_empMlist s3 = [?q]" "emp_in s3 = rest" "emp_out s3 = emp_out s"
      "g_msgCnt s3 = g_msgCnt s + 1" by (simp_all add: M a t)
  qed
  have snd: "empSndmsg u s3 = ?s4" using empSndmsg_frames [OF u(2)] s3(5) by simp
  have hdr: "emem s3 (pg a 0) = 1" "emem s3 (pg a 1) = 1" "word_at (pg a 1 + 4) (emem s3) = 48"
  proof -
    have w: "word_at (pg a 1 + 4) (emem s3) = word_at (pg a 1 + 4) ?m2" by (rule word_at_cong, rule low) (simp add: pg_def)
    have g: "?m2 (pg a i) = 1 \<and> word_at (pg a i + 4) ?m2 = 48" if "i < 2" for i
      using P2 that unfolding pool_def by (cases i) auto
    show "emem s3 (pg a 0) = 1" "emem s3 (pg a 1) = 1" "word_at (pg a 1 + 4) (emem s3) = 48"
      using g [of 0] g [of 1] low [of "pg a 0"] low [of "pg a 1"] w by (simp_all add: pg_def)
  qed
  have nx: "word_at (?p + 44) (emem s3) = 0"
  proof -
    have "word_at (?p + 44) (emem s3) = word_at (?p + 44) ?m2" by (rule word_at_cong, rule low) (simp add: pg_def blk_def)
    then show ?thesis using written_msg(2) [OF ld E, of 0 ?p m] by simp
  qed
  let ?s5 = "?s4\<lparr>emem := (emem s3)(pg a 1 := 0)\<rparr>"
  have mp3: "mapped s3 (pg a i + j) n" if "i \<le> 2" "j + n \<le> 60" for i j n by (rule first_pages_mapped [OF s3(1) a0 that])
  have "pg a 1 < 2 ^ 32" using P2 by (simp add: pool_def pg_def MMAP_SIZE_def)
  then have "(?p + 2 ^ 32 - sizeof_page) mod 2 ^ 32 = pg a 1" by (simp add: blk_def sizeof_page_def)
  then have fre: "emp_free ?p ?s4 = Inr ?s5"
    using s3(2) hdr(2) mp3 [of 1 0 1] by (simp add: emp_free_def rd_bool_def emp_access Let_def)
  have rel: "emp_walk release_turn fuel ?p ?s4 = Some (Inr ?s5)"
    using fre nx mp3 [of 1 56 4] k by (cases k) (simp_all add: release_turn_def emp_access blk_def add.assoc add.commute [of 56])
  show thesis
  proof (rule that)
    show "emp_turn env fuel s = Some (Inr ?s5)" using turn c(1) snd rel by simp
    show "emp_out ?s5 = emp_out s @ frames u" "emp_in ?s5 = rest" "g_msgCnt ?s5 = g_msgCnt s + 1" using s3 by simp_all
    have keep: "emem ?s5 b = m b" if "?q \<le> b" "b < ?q + 48" for b
      using that low [of b] oth [of b] by (simp add: blk_def pg_def)
    have "msg_at env (emem ?s5) ?q (h, 0x10 # u) = msg_at env m ?q (h, 0x10 # u)" by (rule msg_at_cong) (rule keep, simp_all)
    then have "msg_at env (emem ?s5) ?q (h, 0x10 # u)" using msg(1) by (rule iffD2)
    moreover have "word_at (?q + 44) (emem ?s5) = word_at (?q + 44) m" by (rule word_at_cong) (rule keep, simp_all)
    moreover have "word_at (pg a 1 + 4) (emem ?s5) = word_at (pg a 1 + 4) (emem s3)" by (simp add: word_at_fun_upd)
    ultimately show "leftover env a h u ?s5"
      using s3 hdr c(4,5) msg(2) unfolding leftover_def by (auto simp: pg_def blk_def)
  qed
qed


text \<open>The second request: its message fits the page that the first one has left; the text does not find a page.\<close>

lemma second_get:
  assumes L: "leftover env a h u s" and h: "one_part h u" and E: "env_ok env" and f: "3 < fuel" and a: "0 < a"
    and inp: "emp_in s = [0x82, 0x30, 0] @ rest"
    and bad: "3 \<le> (length u + 2) mod 12" "u ! (12 * ((length u + 2) div 12)) \<noteq> 1"
  shows "emp_turn env fuel s = Some (Inl Undef)"
proof -
  note l = L [unfolded leftover_def]
  let ?p = "blk a 1" and ?q = "blk a 0" and ?nxt = "pg a 2 + 12 + 12 * ((length u + 2) div 12)"
  obtain k where k: "fuel = Suc (Suc k)" using f by (metis Suc_lessE less_Suc_eq_0_disj less_numeral_extra(3) not0_implies_Suc numeral_3_eq_3 Suc_less_eq)
  have u: "length u \<le> 30" "0 \<notin> set u" using h size_le [of h] by (simp_all add: one_part_def)
  have mp: "mapped s (pg a i + j) n" if "i \<le> 2" "j + n \<le> 60" for i j n
    using first_pages_mapped that a l by blast
  let ?m = "(poke ?p (replicate 48 0) (emem s))(pg a 1 := 1)"
  have pz: "pg a i \<noteq> 0" for i using a by (simp add: pg_def)
  have al: "emp_alloc sizeof_msg (s\<lparr>emp_in := rest\<rparr>) = Inr (?p, s\<lparr>emp_in := rest, emem := ?m, pageTable := pageTable s\<rparr>)"
    using l pz [of 0] pz [of 1] mp [of 0 0 1] mp [of 1 0 1] mp [of 1 4 4] mp [of 1 12 48]
    by (simp add: emp_alloc_def emp_consts rd_bool_def emp_access page_reuse_def blk_def)
  have mpb: "mapped s (?p + i) n" "mapped s (?q + i) n" if "i + n \<le> 48" for i n
    using mp [of 1 "12 + i" n] mp [of 0 "12 + i" n] that by (simp_all add: blk_def add.assoc)
  have apart: "?q + 48 \<le> ?p \<or> ?p + 48 \<le> ?q" by (simp add: blk_def pg_def)
  have same: "?m b = emem s b" if "b < pg a 1 \<or> pg a 2 \<le> b" for b
    using that by (auto simp: poke_other blk_def pg_def)
  have msg: "msg_at env ?m ?q (h, 0x10 # u)" "word_at (?q + 44) ?m = 0"
  proof -
    have "msg_at env ?m ?q (h, 0x10 # u) = msg_at env (emem s) ?q (h, 0x10 # u)"
      by (rule msg_at_cong, rule same) (simp add: blk_def pg_def)
    then show "msg_at env ?m ?q (h, 0x10 # u)" using l by blast
    have "word_at (?q + 44) ?m = word_at (?q + 44) (emem s)" by (rule word_at_cong, rule same) (simp add: blk_def pg_def)
    then show "word_at (?q + 44) ?m = 0" using l by simp
  qed
  let ?m2 = "written env ?p 0 0x82 [0x30, 0] ?m"
  let ?s2 = "s\<lparr>emp_in := rest, emem := ?m2, pageTable := pageTable s, g_empCurm := ?p, g_msgCnt := g_msgCnt s + 1\<rparr>"
  have turn: "emp_turn env fuel s = (case copy_out env (length u + 1) u ?s2 of Inl e \<Rightarrow> Some (Inl e)
      | Inr (v, s3) \<Rightarrow> emp_walk release_turn fuel ?p (empSndmsg v s3))"
    using h l by (intro request_turn [OF inp al _ mpb(1) mpb(2) _ apart E k _ msg]) (auto simp: one_part_def)
  have ld: "length [0x30, 0 :: u8] = unat (empGetMsize 0x82)" by (simp add: empGetMsize_def)
  have oth: "?m2 b = ?m b" if "b < ?p \<or> ?p + 48 \<le> b" for b by (rule written_other [OF ld that]) simp
  have hdr: "?m2 (pg a 0) = 1" "?m2 (pg a 1) = 1" "?m2 (pg a 2) = 1"
    using oth [of "pg a 0"] oth [of "pg a 1"] oth [of "pg a 2"] same [of "pg a 0"] same [of "pg a 2"] l
    by (simp_all add: blk_def pg_def)
  let ?i = "12 * ((length u + 2) div 12)"
  have i: "?i < length u" using bad(1) mult_div_mod_eq [of 12 "length u + 2"] by linarith
  have "?m2 ?nxt = emem s ?nxt" using oth [of ?nxt] same [of ?nxt] by (simp add: blk_def pg_def)
  also have "\<dots> = u ! ?i" using l i by blast
  finally have nx: "?m2 ?nxt = u ! ?i" .
  have nz: "u ! ?i \<noteq> 0" using u(2) nth_mem [OF i] by metis
  have b: "rd_bool (pg a j) ?s2 = Inr True" if "j \<le> 2" for j
    using that hdr mp [of j 0 1] by (auto simp: rd_bool_def emp_access le_Suc_eq numeral_2_eq_2)
  have "mapped s ?nxt 1" using l a u(1) i by (simp add: mapped_def pg_def MMAP_SIZE_def)
  then have nb: "rd_bool ?nxt ?s2 = Inl Undef" using nx nz bad(2) by (simp add: rd_bool_def emp_access)
  have "emp_alloc (length u + 2) ?s2 = Inl Undef"
    using u(1) l pz [of 0] pz [of 1] pz [of 2] b [of 0] b [of 1] b [of 2] nb by (simp add: emp_alloc_def MMAP_SIZE_def)
  then show ?thesis unfolding turn copy_out_def by (simp add: add.assoc)
qed

text \<open>C19. The first message is read back once: a fresh service is sent one message of a single part, of at most 30 characters
  none of which is zero, and then a request for message 0. It stores it, answers the request with the text, and goes on with
  the rest of the input. Longer messages lose a character on their way back, and a second request is not defined.\<close>

theorem emp_message_returned:
  assumes "one_part h u" and "env_ok env" and "3 < fuel" and "0 < a" "a + MMAP_SIZE < 2 ^ 32"
  shows "\<exists>s1 s2. emp_turn env fuel (EMPMA_init (Some a) ([h, 0x10] @ u @ [0x82, 0x30, 0] @ rest)) = Some (Inr s1)
    \<and> emp_turn env fuel s1 = Some (Inr s2) \<and> emp_in s2 = rest
    \<and> emp_out s2 = frames (ascii ''[StoreMessage] => Return: Success'') @ frames u"
proof -
  obtain s1 where s1: "emp_turn env fuel (EMPMA_init (Some a) ([h, 0x10] @ u @ [0x82, 0x30, 0] @ rest)) = Some (Inr s1)"
    "rep env a [True] [[0]] [[(h, 0x10 # u)]] s1" "emp_out s1 = frames (ascii ''[StoreMessage] => Return: Success'')"
    "emp_in s1 = [0x82, 0x30, 0] @ rest" "g_msgCnt s1 = 1"
    by (rule after_store [OF assms])
  obtain s2 where "emp_turn env fuel s1 = Some (Inr s2)" "emp_out s2 = emp_out s1 @ frames u" "emp_in s2 = rest" "leftover env a h u s2"
    by (rule after_get [OF assms(1-3) s1(2,4)])
  then show ?thesis using s1(1,3) by auto
qed

definition example_env :: emp_env where
  "example_env = \<lparr>srv_at = 0x8049000, cli_at = 0x8049100, behind = (\<lambda>s t i. 0), dangling = (\<lambda>s t. t)\<rparr>"

lemma example_env_ok: "env_ok example_env"
  by (simp add: env_ok_def example_env_def)

lemma example_part: "one_part 0x86 [104, 101, 108, 108, 111]"
  by (simp add: one_part_def empGetMtype_def empGetMidx_def empGetMsize_def)

theorem emp_message_returned_witness:
  "\<exists>s1 s2. emp_turn example_env 4 (EMPMA_init (Some 0x31337000) ([0x86, 0x10] @ [104, 101, 108, 108, 111] @ [0x82, 0x30, 0] @ [])) = Some (Inr s1)
    \<and> emp_turn example_env 4 s1 = Some (Inr s2) \<and> emp_in s2 = []
    \<and> emp_out s2 = frames (ascii ''[StoreMessage] => Return: Success'') @ [0x25, 104, 101, 108, 108, 111]"
proof -
  have "frames [104, 101, 108, 108, 111] = [0x25, 104, 101, 108, 108, 111]" by (simp add: frames_def)
  then show ?thesis
    using emp_message_returned [OF example_part example_env_ok, of 4 "0x31337000" "[]"] by (simp add: MMAP_SIZE_def)
qed

lemma leftover_header:
  assumes L: "leftover env a h u s" and h: "one_part h u" and a: "0 < a"
    and bad: "3 \<le> (length u + 2) mod 12" "u ! (12 * ((length u + 2) div 12)) \<noteq> 1"
  shows "emem s (last (pageTable s)) = u ! (12 * ((length u + 2) div 12))" "rd_bool (last (pageTable s)) s = Inl Undef"
proof -
  note l = L [unfolded leftover_def]
  let ?k = "12 * ((length u + 2) div 12)"
  have u: "length u \<le> 30" "0 \<notin> set u" using h size_le [of h] by (simp_all add: one_part_def)
  have k: "?k < length u" using bad(1) by presburger
  have e: "last (pageTable s) = pg a 2 + (12 + ?k)" using l by simp
  show c: "emem s (last (pageTable s)) = u ! ?k" using l k unfolding e by (simp add: add.assoc)
  have "u ! ?k \<noteq> 0" using u(2) nth_mem [OF k] by metis
  moreover have "mapped s (last (pageTable s)) 1"
    unfolding e by (rule first_pages_mapped) (use l a k u(1) in \<open>simp_all\<close>)
  ultimately show "rd_bool (last (pageTable s)) s = Inl Undef" using c bad(2) by (simp add: rd_bool_def emp_access)
qed

text \<open>C20. The second request for such a text has no defined behaviour if the length and two leaves a rest of three or more when
  it is divided by twelve: the copy for the first answer lies over the header of the next page, where the byte that says
  whether the page is used is then a character of the text; a character other than 1 is no value of the \<open>bool\<close> that is read.\<close>

theorem emp_second_get_undefined:
  assumes "one_part h u" and "3 \<le> (length u + 2) mod 12" "u ! (12 * ((length u + 2) div 12)) \<noteq> 1"
    and "env_ok env" and "3 < fuel" and "0 < a" "a + MMAP_SIZE < 2 ^ 32" and "2 < n"
    and "input = [h, 0x10] @ u @ [0x82, 0x30, 0] @ [0x82, 0x30, 0] @ rest"
  shows "\<exists>s1 s2. emp_turn env fuel (EMPMA_init (Some a) input) = Some (Inr s1) \<and> emp_turn env fuel s1 = Some (Inr s2)
    \<and> emem s2 (last (pageTable s2)) = u ! (12 * ((length u + 2) div 12)) \<and> rd_bool (last (pageTable s2)) s2 = Inl Undef
    \<and> emp_turn env fuel s2 = Some (Inl Undef) \<and> emp_main env fuel n (Some a) input = Some (Inl Undef)"
proof -
  let ?s0 = "EMPMA_init (Some a) input"
  obtain s1 where s1: "emp_turn env fuel ?s0 = Some (Inr s1)"
    "rep env a [True] [[0]] [[(h, 0x10 # u)]] s1" "emp_out s1 = frames (ascii ''[StoreMessage] => Return: Success'')"
    "emp_in s1 = [0x82, 0x30, 0] @ [0x82, 0x30, 0] @ rest" "g_msgCnt s1 = 1"
    unfolding assms(9) by (rule after_store [OF assms(1,4-7)])
  obtain s2 where s2: "emp_turn env fuel s1 = Some (Inr s2)" "emp_out s2 = emp_out s1 @ frames u"
    "emp_in s2 = [0x82, 0x30, 0] @ rest" "leftover env a h u s2" "g_msgCnt s2 = 2"
    by (rule after_get [OF assms(1,4,5) s1(2,4)]) (use s1(5) in simp)
  have t: "emp_turn env fuel s2 = Some (Inl Undef)" by (rule second_get [OF s2(4) assms(1,4-6) s2(3) assms(2,3)])
  moreover obtain k where "n = Suc (Suc (Suc k))" using assms(8) by (metis less_natE add_2_eq_Suc' add_Suc_right add.commute)
  ultimately have "emp_main env fuel n (Some a) input = Some (Inl Undef)"
    using s1(1,5) s2(1,5) by (simp add: emp_main_def MESSAGE_LIMIT_def)
  then show ?thesis using s1(1) s2(1) t leftover_header [OF s2(4) assms(1,6,2,3)] by blast
qed

text \<open>The text \<open>hello\<close>: its first character is the byte of the next header.\<close>

theorem emp_second_get_undefined_witness:
  "\<forall>rest. \<exists>s1 s2. emp_turn example_env 4 (EMPMA_init (Some 0x31337000) ([0x86, 0x10] @ [104, 101, 108, 108, 111] @ [0x82, 0x30, 0] @ [0x82, 0x30, 0] @ rest))
       = Some (Inr s1) \<and> emp_turn example_env 4 s1 = Some (Inr s2) \<and> emem s2 (last (pageTable s2)) = 104
     \<and> emp_main example_env 4 3 (Some 0x31337000) ([0x86, 0x10] @ [104, 101, 108, 108, 111] @ [0x82, 0x30, 0] @ [0x82, 0x30, 0] @ rest)
       = Some (Inl Undef)"
proof
  fix rest
  show "\<exists>s1 s2. emp_turn example_env 4 (EMPMA_init (Some 0x31337000) ([0x86, 0x10] @ [104, 101, 108, 108, 111] @ [0x82, 0x30, 0] @ [0x82, 0x30, 0] @ rest))
       = Some (Inr s1) \<and> emp_turn example_env 4 s1 = Some (Inr s2) \<and> emem s2 (last (pageTable s2)) = 104
     \<and> emp_main example_env 4 3 (Some 0x31337000) ([0x86, 0x10] @ [104, 101, 108, 108, 111] @ [0x82, 0x30, 0] @ [0x82, 0x30, 0] @ rest)
       = Some (Inl Undef)"
    using emp_second_get_undefined [OF example_part _ _ example_env_ok _ _ _ _ refl, of 4 "0x31337000" 3 rest] by (simp add: MMAP_SIZE_def) blast
qed

text \<open>At the end of the input the abstract service keeps what it has answered: messages of zeros come in until it ends.\<close>

lemma serve_eof: "serve store cnt [] out = Returns out"
proof (induction "129 - cnt" arbitrary: cnt rule: less_induct)
  case less
  have p: "in_parts 3 0xFF [] = (replicate 3 (0xFF, in_data 0xFF []), [])"
    by (simp add: numeral_3_eq_3 in_byte_def empGetMidx_def)
  have c: "spec_command (replicate 3 (0xFF, d)) store out = Goes store out" for d
    by (simp add: spec_command_def numeral_3_eq_3 empGetMidx_def)
  have t: "empGetMtype 0xFF \<noteq> 0" by (simp add: empGetMtype_def)
  show ?case
  proof (cases "MESSAGE_LIMIT < cnt")
    case True
    then show ?thesis by (subst serve.simps) simp
  next
    case False
    then have "serve store (cnt + 3) [] out = Returns out" by (intro less) (simp add: MESSAGE_LIMIT_def)
    then show ?thesis using False p c t by (subst serve.simps) (simp add: in_byte_def)
  qed
qed

theorem emp_main_serves_witness:
  "emp_main example_env 4 200 (Some 0x31337000) [0x81, 0x40] = Some (Inr (0x37 # ascii ''[MsgCount] => Return: 0''))"
proof -
  have d: "dec_text 0 = [48]" by (simp add: dec_text.simps)
  have "serve [] 0 [0x81, 0x40] [] = serve [] 1 [] (frames (ascii ''[MsgCount] => Return: '' @ dec_text 0))"
    by (subst serve.simps) (simp add: MESSAGE_LIMIT_def in_byte_def empGetMtype_def numeral_3_eq_3 in_data_def Let_def
        empGetMidx_def empGetMsize_def spec_command_def spec_answer_def)
  also have "\<dots> = Returns (0x37 # ascii ''[MsgCount] => Return: 0'')"
    unfolding serve_eof d by (simp add: frames_def ascii_def)
  finally have v: "serve [] 0 [0x81, 0x40] [] = Returns (0x37 # ascii ''[MsgCount] => Return: 0'')" .
  have "as_served (serve [] 0 [0x81, 0x40] []) (emp_main example_env 4 200 (Some 0x31337000) [0x81, 0x40])"
    by (rule emp_main_serves [OF example_env_ok]) (simp_all add: MMAP_SIZE_def)
  then show ?thesis by (simp add: v as_served_def)
qed

subsection \<open>The hash functions\<close>

text \<open>Neither depends on the message: one is constant, the other has its address.\<close>

lemma empSrvHsum_constant: "mapped s buffer (unat n) \<Longrightarrow> empSrvHsum buffer n s = Inr 0xFFFFFFFF"
proof -
  assume "mapped s buffer (unat n)"
  moreover have "mapped s p k \<Longrightarrow> \<exists>sums'. srv_loop p k sums s = Inr sums'" for p k sums
  proof (induction k arbitrary: p sums)
    case (Suc k)
    then have "mapped s p (Suc 0)" "mapped s (p + 1) k" by (auto simp: mapped_def)
    then show ?case using Suc.IH [of "p + 1"] by (simp add: emp_access)
  qed simp
  ultimately obtain s1 s2 where "srv_loop buffer (unat n) (1, 0) s = Inr (s1, s2)" by (metis surj_pair)
  then show ?thesis by (simp add: empSrvHsum_def)
qed

lemma empCliHsum_address: "empCliHsum buffer n s = Inr (1 XOR of_nat buffer)"
  by (simp add: empCliHsum_def cli_loop.simps [of buffer "unat n" "unat n"])

end
