(* ===== verification/Spec2Isabelle.thy ===== *)
theory Spec2Isabelle
  imports Mcs4_Spec Jargon_Main Leo_Props Liberty_Payload Lzss_Server_Props Meps_Props Sha256_Main Pegem_Props Mud_Login_Props Babyint_Props Divided_Lib_Props Divided_Heap_Props Insanity_Props Empanada_Get
begin

text \<open>
  Verification of the programs of the repository. Each directory of \<open>src/\<close> is a service of its own; those whose core
  logic is written in C or C++ are modelled here, one group of theories per program. Data are records and datatypes with
  the names of the source, machine integers are words of their width, a C function is a function on the state that is
  passed explicitly, and what the C standard leaves undefined or an exception does (an access outside an array, a throw)
  is a value of an error type, so that safety is a statement about results. Input is a list of bytes or of answers of the
  operating system, output a list of bytes.

  \<^bold>\<open>Shared\<close>. \<open>Prelude\<close>: the integer types, the sequencing \<open>andThen\<close> of fallible operations, words and nibbles,
  little-endian words, and the interfaces that the components meet: \<open>cell_store\<close> (indexed storage), \<open>stepper\<close>,
  \<open>ranked_stepper\<close> and \<open>total_stepper\<close> (interpreter loops: an invariant, a measure, totality) and \<open>simulation\<close>
  (a program's machine refines an abstract one). Loops that may not end take fuel (\<open>run_fuel\<close>, \<open>loop_fuel\<close>); where a
  program ends, a theorem names a fuel that is enough.

  \<^bold>\<open>faggin\<close>, the MCS-4 emulator service (\<open>src/faggin\<close>). \<open>Mcs4_State\<close>: processor, RAM and ROM,
  \<open>Mcs4_Helpers\<close>: the packed registers and addresses, interpreted as \<open>cell_store\<close>s, \<open>Mcs4_Ops\<close>: one definition per
  instruction, \<open>Mcs4_Run\<close>: dispatch, step and the service, \<open>Mcs4_Frame\<close>: what each operation leaves alone. \<open>Mcs4_Props\<close>
  and \<open>Mcs4_Spec\<close>: safety of a step, return stack, arithmetic, and the loop of the service: a program without JIN and DCL
  has used up the cycles within 16385 turns, a JIN counts none and runs for ever.

  \<^bold>\<open>jargon\<close>, a stack machine (\<open>jargon.c\<close>). \<open>Jargon\<close>: the machine and its instructions, \<open>Jargon_Main\<close>: line reader, number
  check and main loop, \<open>Jargon_Spec\<close>: an abstract stack machine that the code refines while the stack stays in bounds.

  \<^bold>\<open>Leo\<close>, a data classifier (\<open>leo.c\<close>). \<open>Leo\<close>: download buffer, sort, byte counts and classification, \<open>Leo_Props\<close>: the sort
  sorts, the class depends on the counts only, and only unclassified data reaches the downloaded module, which is native
  code and a parameter.

  \<^bold>\<open>liberty\<close>, its compressor and decompressors (\<open>server/compress.c\<close>, \<open>kernel/decompress*.c\<close>,
  \<open>server/payloads/64/decompress*.c\<close>). \<open>Liberty_Encode\<close>, \<open>Liberty_Decode\<close>, \<open>Liberty_Payload\<close>: the three phases and
  layers, \<open>Liberty_Props\<close>: phases 1 and 3 are undone by their layers (interpretations of the locale \<open>codec\<close>), phase 2
  is not undone where a match takes its end marker, for which there is an example.

  \<^bold>\<open>reeses_revenge, LZSS\<close> (\<open>lzss/lzss.c\<close>, \<open>mips_build/test_lzss.c\<close>). \<open>Lzss\<close>: the coder, \<open>Lzss_Bits\<close>: its bit streams over
  the contract \<open>lz_channel\<close>, \<open>Lzss_Encode\<close>, \<open>Lzss_Spec\<close>, \<open>Lzss_Props\<close>: tokens as an abstract specification and the round
  trip of the file program, \<open>Lzss_Server\<close>, \<open>Lzss_Server_Props\<close>: the service, whose arrays are one byte too short for some
  requests.

  \<^bold>\<open>reeses_revenge, the MIPS emulator\<close> (\<open>server/\<close>). \<open>Meps_Mmu\<close>: pages; what was drawn for the host addresses of mapped
  pages is kept (\<open>m_hosts\<close>), and the model stops where a page would be put over an earlier one (\<open>Page_Shared\<close>), as it does at four
  accesses outside of the emulator's own objects. \<open>Meps_Cpu\<close> and \<open>Meps_Ops\<close>: the instructions,
  \<open>Meps_Sys\<close>: cipher coprocessor and system calls, \<open>Meps_Step\<close>: one turn, \<open>Meps_Loader\<close>: the file format and \<open>main\<close>, with the
  check of the signature as a parameter. \<open>Meps_Mem\<close>: memory as a partial function, \<open>Meps_Inv\<close>: the invariant of pages,
  mapped regions and registers, kept by every instruction, \<open>Meps_Load\<close>: every run ends, with at most 50000001
  instructions executed, \<open>Meps_Alu\<close>, \<open>Meps_Flow\<close>, \<open>Meps_Props\<close>: arithmetic, delay slots, and the properties.

  \<^bold>\<open>reeses_revenge, SHA-256\<close> (\<open>mips_build/sha256.c\<close>, \<open>test_sha256.c\<close>). \<open>Sha256\<close>: the code with its \<open>memcpy\<close>,
  \<open>Sha256_Ref\<close>: the standard, \<open>Sha256_Stream\<close>: any pieces give the digest of the whole message, \<open>Sha256_Main\<close>: the guest.

  \<^bold>\<open>pegem\<close>, a one-instruction machine (\<open>pegem.c\<close>, \<open>sq2c.c\<close>). \<open>Pegem\<close>: the machine and the translator, \<open>Pegem_Props\<close>: the
  service ends within 20000001 instructions and is related in two steps to the machine of the README, whose turn \<open>rd_turn\<close> neither
  halts on an address out of range nor jumps on input: an intermediate service over integers (\<open>subleq\<close>), then the runs on which both
  agree and the turn at which they part. The translator prints the words that have a separator behind them.

  \<^bold>\<open>hackermud\<close>, a game server (\<open>server/\<close>). \<open>Mud_Stream\<close>: the chunked byte stream, an interpretation of the queue contract
  \<open>byte_queue\<close>, \<open>Mud_Conn\<close>: connections and the handling of what arrives, \<open>Mud_Conn_Props\<close>: commands survive any
  fragmentation, and two ways a connection or the server ends. \<open>Mud_Pow\<close>: search and test of the proof of work over a hash
  that is a parameter, \<open>Mud_Pow_Props\<close>: what the search finds passes the test, and so does a forged proof of equal inputs.
  \<open>Hex\<close>: lines and hexadecimal digits, shared with babyint. \<open>Mud_Login\<close>: challenge, client, proof tool and the gate for
  commands, \<open>Mud_Login_Props\<close>: nothing passes the gate without a proof, and the client's proof is accepted.

  \<^bold>\<open>babyint\<close>, a segment assembler (\<open>server/doublelist.cpp\<close>, \<open>server/main.cpp\<close>). \<open>Babyint_List\<close>: links in a heap,
  \<open>Babyint_List_Props\<close>: they refine lists (an interpretation \<open>dl\<close> of the contract \<open>item_list\<close>), \<open>Babyint\<close>: the
  assembler and its loop, \<open>Babyint_Props\<close>: what is assembled, the 16-bit length that wraps around and the overflow it
  gives, and that the service returns or has written behind its buffer, within as many turns as the input has lines and one
  (\<open>length input < n\<close>); at that write the model stops, for what the program does after it is not defined; a list
  is walked with one more step than links were ever made (\<open>Suc (rx_fresh r)\<close>).

  \<^bold>\<open>divided\<close>, its library (\<open>mystdlib.h\<close>). \<open>Divided_Lib\<close>, \<open>Divided_Lib_Props\<close>: TEA is undone, numbers are read back as
  written, input comes as the stream it was, and the texts where this fails. \<open>Divided_Heap\<close>: buckets and headers in memory,
  \<open>Divided_Heap_Spec\<close>: a bucket as a list of blocks, \<open>Divided_Heap_Alloc\<close>, \<open>Divided_Heap_Free\<close>: \<open>my_malloc\<close> and \<open>my_free\<close>
  refine their operations on it, with the contract \<open>fit_policy\<close> that each of the three searches meets (interpretations
  \<open>ff\<close>, \<open>bf\<close>, \<open>wf\<close>), \<open>Divided_Heap_Props\<close>: sessions, which end early only when the heap is full or the last
  block of a bucket is freed behind a free one, and when what was allocated overlaps. A walk through a bucket takes
  at most a step per header (\<open>HEAP_SIZE div 40 < n\<close>); a \<open>my_free\<close> joins at most two neighbours, so \<open>2 \<le> N\<close>.

  \<^bold>\<open>insanity\<close>, a stack machine for spoken programs (\<open>insanity.c\<close>). \<open>Insanity\<close>: the conversion of samples, the parser
  and the machine on its array of 1000 words, \<open>Insanity_Props\<close>: the assembler loop of the conversion is the loop it replaces up
  to the size where it leaves the buffer, a compiler of expressions is correct for the machine (in as many steps as the
  code is long), and operations on texts that read or write where they should not: a comparison puts its result into the cell whose
  address is that result's place in the code. 1000 steps use up the program.

  \<^bold>\<open>empanada\<close>, a message service (\<open>EMPMA.h\<close>, \<open>proto.h\<close>, \<open>service.cpp\<close>). \<open>Empanada\<close>: the allocator, messages and commands
  on the bytes of the mapped region, \<open>Empanada_Pool\<close>: its pages as a list of truth values, \<open>Empanada_Spec\<close>: the abstract
  service \<open>serve\<close>, a list of messages, and messages in memory, \<open>Empanada_Props\<close>: the service gives the answers of the
  abstract one and returns, for every input without the four commands that leave the pages broken, \<open>Empanada_Get\<close>: one of
  these, which answers once. The loop of the service takes as many turns as the input is long and 130, since 129 parts end
  it; a walk along a message takes \<open>3 < fuel\<close>, since a message has at most three parts.

  \<^bold>\<open>Not modelled\<close>. Vendored code (the allocator of beatmeonthedl, ttmath in godzilla, the socket, MD5 and BLAKE2 libraries
  of hackermud, the decompression and speech recognition of insanity), process, socket and signal plumbing, alarms and
  timing, native code that a service receives and runs (floater, mute, Leo's module, liberty's payloads), programs in Ada,
  Ruby, Rust, Swift, Crystal, Scheme and assembler, godzilla, the call trace and the debugging allocator of
  babyint, the menu of divided and the signing tool of reeses_revenge. Of hackermud the game world is not modelled, and the
  handlers of the commands behind the gate are a parameter. Addresses of the host appear only where the code computes with
  them (divided, insanity, empanada), as parameters; elsewhere, where the code passes one, the object it points to is passed.
\<close>

end
